(* ===== verification/Erofs_Prelude.thy ===== *)
theory Erofs_Prelude
  imports Main "HOL-Library.Word"
begin

unbundle bit_operations_syntax

text \<open>
  The prelude of the development: the machine types of \<^verbatim>\<open>include/erofs/defs.h\<close>, the error values the
  C functions return, sequencing of fallible computations, bounds-checked access to a
  byte buffer, the little-endian codecs that the \<^verbatim>\<open>cpu_to_leNN\<close> and \<^verbatim>\<open>leNN_to_cpu\<close> macros stand for,
  the rounding and logarithm macros of \<^verbatim>\<open>defs.h\<close>, and the generic lemmas on lists and words
  that the component theories share.
\<close>

section \<open>Machine types and results\<close>

type_synonym u8 = "8 word"
type_synonym u16 = "16 word"
type_synonym u32 = "32 word"
type_synonym u64 = "64 word"
type_synonym bytes = "u8 list"

text \<open>Collections filled by the component theories.\<close>

named_theorems erofs_codec \<open>lengths and inverse laws of the on-disk codecs\<close>
named_theorems erofs_arith \<open>values of the rounding and block arithmetic\<close>

text \<open>
  The negative integers the C functions return are the constructors of \<^verbatim>\<open>errno\<close>.
  \<^verbatim>\<open>EFSCORRUPTED\<close> is the alias of \<^verbatim>\<open>EUCLEAN\<close> of \<^verbatim>\<open>internal.h\<close>.  An access
  outside a C object, or of bytes nobody has written, is a separate outcome: no errno value
  stands for it.  \<^verbatim>\<open>OutOfFuel\<close> is the outcome of a loop or recursion of the model that was given too
  little fuel; the C program is still running there.
\<close>

datatype errno =
    ENOENT | EIO | ENODEV | EINVAL | ENOSPC | ENOMEM | EBUSY | EFAULT | ENOTDIR | ERANGE
  | EOPNOTSUPP | EFSCORRUPTED | EINTR | ENODATA | ENOTEMPTY | EEXIST | ENAMETOOLONG | EBADMSG
  | ECANCELED | EOVERFLOW | EPERM | ENXIO | ENOSYS | EXDEV | EACCES | EBADF

datatype error = Errno errno | OutOfBounds | OutOfFuel

type_synonym 'a result = "error + 'a"

abbreviation Err :: "errno \<Rightarrow> 'a result" where
  "Err e \<equiv> Inl (Errno e)"

abbreviation Ok :: "'a \<Rightarrow> 'a result" where
  "Ok x \<equiv> Inr x"

fun bindR :: "'a result \<Rightarrow> ('a \<Rightarrow> 'b result) \<Rightarrow> 'b result" where
  "bindR (Inl e) f = Inl e"
| "bindR (Inr x) f = f x"

lemma bindR_cong [fundef_cong]:
  "\<lbrakk>m = m'; \<And>x. m' = Inr x \<Longrightarrow> f x = f' x\<rbrakk> \<Longrightarrow> bindR m f = bindR m' f'"
  by (cases m') auto

lemma bindR_eq_Inr [simp]: "bindR m f = Inr y \<longleftrightarrow> (\<exists>x. m = Inr x \<and> f x = Inr y)"
  by (cases m) auto

lemma bindR_eq_Inl:
  "bindR m f = Inl e \<longleftrightarrow> m = Inl e \<or> (\<exists>x. m = Inr x \<and> f x = Inl e)"
  by (cases m) auto

lemma bindR_assoc: "bindR (bindR m f) g = bindR m (\<lambda>x. bindR (f x) g)"
  by (cases m) auto

definition mapErr :: "(error \<Rightarrow> error) \<Rightarrow> 'a result \<Rightarrow> 'a result" where
  "mapErr h m = (case m of Inl e \<Rightarrow> Inl (h e) | Inr x \<Rightarrow> Inr x)"

lemma mapErr_simps [simp]: "mapErr h (Inl e) = Inl (h e)" "mapErr h (Inr x) = Inr x"
  by (simp_all add: mapErr_def)

lemma mapErr_eq_Inr [simp]: "mapErr h m = Inr x \<longleftrightarrow> m = Inr x"
  by (cases m) auto

text \<open>
  \<^verbatim>\<open>okR P r\<close>: if \<^verbatim>\<open>r\<close> is a value then it satisfies \<^verbatim>\<open>P\<close>.  Its rewrite rules push a postcondition
  backwards through a computation.
\<close>

definition okR :: "('a \<Rightarrow> bool) \<Rightarrow> 'a result \<Rightarrow> bool" where
  "okR P r = (case r of Inl e \<Rightarrow> True | Inr x \<Rightarrow> P x)"

lemma okR_simps [simp]: "okR P (Inl e)" "okR P (Inr x) = P x"
  by (simp_all add: okR_def)

lemma okR_bindR [simp]: "okR P (bindR m f) = okR (\<lambda>x. okR P (f x)) m"
  by (cases m) simp_all

lemma okR_mapErr [simp]: "okR P (mapErr h m) = okR P m"
  by (cases m) simp_all

lemma okR_if [simp]: "okR P (if b then r else s) = (if b then okR P r else okR P s)"
  by simp

lemma okR_case_prod [simp]: "okR P (case p of (a, b) \<Rightarrow> f a b) = (case p of (a, b) \<Rightarrow> okR P (f a b))"
  by (cases p) simp

lemma okR_True [simp]: "okR (\<lambda>x. True) r"
  by (cases r) simp_all

lemma okR_pair_True [simp]: "okR (\<lambda>(a, b). True) r"
  by (cases r) auto

lemma okR_const [simp]: "okR (\<lambda>x. Q) r \<longleftrightarrow> (\<forall>x. r = Inr x \<longrightarrow> Q)"
  by (cases r) auto

lemma okRI: "(\<And>x. r = Inr x \<Longrightarrow> P x) \<Longrightarrow> okR P r"
  by (cases r) simp_all

lemma okRD: "okR P r \<Longrightarrow> r = Inr x \<Longrightarrow> P x"
  by simp

lemma okR_mono: "okR Q r \<Longrightarrow> (\<And>x. Q x \<Longrightarrow> P x) \<Longrightarrow> okR P r"
  by (cases r) simp_all

text \<open>\<^verbatim>\<open>if (ret < 0) return -EIO;\<close> replaces the errno but not an invalid access.\<close>

fun toEIO :: "error \<Rightarrow> error" where
  "toEIO (Errno e) = Errno EIO"
| "toEIO OutOfBounds = OutOfBounds"
| "toEIO OutOfFuel = OutOfFuel"

section \<open>Buffers\<close>

text \<open>
  \<^verbatim>\<open>slice buf off n\<close> is what a C expression reads that accesses \<^verbatim>\<open>n\<close> bytes at \<^verbatim>\<open>buf + off\<close>.
\<close>

definition slice :: "bytes \<Rightarrow> nat \<Rightarrow> nat \<Rightarrow> bytes result" where
  "slice buf off n =
     (if off + n \<le> length buf then Inr (take n (drop off buf)) else Inl OutOfBounds)"

lemma slice_eq_Inr [simp]:
  "slice buf off n = Inr s \<longleftrightarrow> off + n \<le> length buf \<and> s = take n (drop off buf)"
  by (auto simp: slice_def)

lemma slice_length: "slice buf off n = Inr s \<Longrightarrow> length s = n"
  by auto

text \<open>
  \<^verbatim>\<open>memput buf off data\<close> is \<^verbatim>\<open>memcpy(buf + off, data, len)\<close> or a \<^verbatim>\<open>memset\<close> into a buffer.
\<close>

definition memput :: "bytes \<Rightarrow> nat \<Rightarrow> bytes \<Rightarrow> bytes result" where
  "memput buf off data =
     (if off + length data \<le> length buf
      then Inr (take off buf @ data @ drop (off + length data) buf) else Inl OutOfBounds)"

lemma memput_length: "okR (\<lambda>b. length b = length buf) (memput buf off data)"
  by (simp add: memput_def)

lemma memput_inside:
  "off + length data \<le> length buf \<Longrightarrow>
     memput buf off data = Inr (take off buf @ data @ drop (off + length data) buf)"
  by (simp add: memput_def)

text \<open>
  \<^verbatim>\<open>strnlen(p, n)\<close> over the bytes at \<^verbatim>\<open>p\<close>: it stops at the first zero byte or after \<^verbatim>\<open>n\<close> bytes, and
  reads every byte up to there.
\<close>

fun strnlen :: "bytes \<Rightarrow> nat \<Rightarrow> nat result" where
  "strnlen buf 0 = Inr 0"
| "strnlen [] (Suc n) = Inl OutOfBounds"
| "strnlen (b # bs) (Suc n) =
     (if b = 0 then Inr 0 else bindR (strnlen bs n) (\<lambda>k. Inr (Suc k)))"

lemma strnlen_le: "strnlen buf n = Inr k \<Longrightarrow> k \<le> n \<and> k \<le> length buf"
  by (induction buf n arbitrary: k rule: strnlen.induct) (fastforce split: if_splits)+

lemma strnlen_inside: "n \<le> length buf \<Longrightarrow> \<exists>k. strnlen buf n = Inr k"
  by (induction buf n rule: strnlen.induct) auto

lemma strnlen_no_zero:
  "0 \<notin> set (take n buf) \<Longrightarrow> n \<le> length buf \<Longrightarrow> strnlen buf n = Inr n"
  by (induction buf n rule: strnlen.induct) auto

lemma strnlen_append_zero:
  "0 \<notin> set xs \<Longrightarrow> length xs < n \<Longrightarrow> strnlen (xs @ 0 # ys) n = Inr (length xs)"
proof (induction xs arbitrary: n)
  case Nil
  then show ?case by (cases n) auto
next
  case (Cons x xs)
  then show ?case by (cases n) auto
qed

text \<open>
  A C string ends at its first zero byte.  \<^verbatim>\<open>strncmp_eq\<close> is \<^verbatim>\<open>!strncmp(a, b, n)\<close> on two strings without their terminators,
  \<^verbatim>\<open>literal\<close> the bytes of a string literal of the source.
\<close>

definition c_str :: "bytes \<Rightarrow> bytes" where
  "c_str s = takeWhile (\<lambda>c. c \<noteq> 0) s"

definition strncmp_eq :: "bytes \<Rightarrow> bytes \<Rightarrow> nat \<Rightarrow> bool" where
  "strncmp_eq a b n \<longleftrightarrow> take n (a @ [0]) = take n (b @ [0])"

definition literal :: "string \<Rightarrow> bytes" where
  "literal s = map of_char s"

lemma c_str_append_zero: "0 \<notin> set s \<Longrightarrow> c_str (s @ 0 # t) = s"
  by (induction s) (auto simp: c_str_def)

section \<open>Little-endian codecs\<close>

fun le_put :: "nat \<Rightarrow> 'a::len word \<Rightarrow> bytes" where
  "le_put 0 w = []"
| "le_put (Suc n) w = ucast w # le_put n (drop_bit 8 w)"

fun le_get :: "bytes \<Rightarrow> 'a::len word" where
  "le_get [] = 0"
| "le_get (b # bs) = ucast b OR push_bit 8 (le_get bs)"

abbreviation cpu_to_le16 :: "u16 \<Rightarrow> bytes" where "cpu_to_le16 \<equiv> le_put 2"
abbreviation cpu_to_le32 :: "u32 \<Rightarrow> bytes" where "cpu_to_le32 \<equiv> le_put 4"
abbreviation cpu_to_le64 :: "u64 \<Rightarrow> bytes" where "cpu_to_le64 \<equiv> le_put 8"

text \<open>\<^verbatim>\<open>field s off n\<close> is the little-endian member of width \<^verbatim>\<open>n\<close> at offset \<^verbatim>\<open>off\<close> of the struct image \<^verbatim>\<open>s\<close>.\<close>

definition field :: "bytes \<Rightarrow> nat \<Rightarrow> nat \<Rightarrow> 'a::len word" where
  "field s off n = le_get (take n (drop off s))"

lemma length_le_put [simp, erofs_codec]: "length (le_put n w) = n"
  by (induction n w rule: le_put.induct) auto

lemma bit_le_get:
  "bit (le_get bs :: 'a::len word) i \<longleftrightarrow>
     i < LENGTH('a) \<and> i div 8 < length bs \<and> bit (bs ! (i div 8)) (i mod 8)"
proof (induction bs arbitrary: i)
  case Nil
  then show ?case by simp
next
  case (Cons b bs)
  show ?case
  proof (cases "i < 8")
    case True
    then show ?thesis
      by (auto simp: bit_or_iff bit_ucast_iff bit_push_bit_iff)
  next
    case False
    then obtain j where j: "i = j + 8" by (metis add.commute le_Suc_ex not_less)
    have "\<not> bit b i"
      using False by (auto dest: bit_imp_le_length)
    moreover have "(j + 8) div 8 = Suc (j div 8)" by simp
    ultimately show ?thesis
      using Cons.IH [of j]
      by (auto simp: j bit_or_iff bit_ucast_iff bit_push_bit_iff simp del: div_add_self2)
  qed
qed

lemma nth_le_put: "k < n \<Longrightarrow> le_put n w ! k = ucast (drop_bit (8 * k) w)"
proof (induction n w arbitrary: k rule: le_put.induct)
  case (1 w)
  then show ?case by simp
next
  case (2 n w)
  then show ?case by (cases k) (auto simp: drop_bit_drop_bit add.commute)
qed

lemma le_get_le_put: "le_get (le_put n w) = (take_bit (8 * n) w :: 'a::len word)"
proof (rule bit_word_eqI)
  fix i assume i: "i < LENGTH('a)"
  have "i div 8 < n \<longleftrightarrow> i < 8 * n" by auto
  moreover have "8 * (i div 8) + i mod 8 = i" by simp
  ultimately show "bit (le_get (le_put n w) :: 'a word) i = bit (take_bit (8 * n) w) i"
    using i by (auto simp: bit_le_get nth_le_put bit_ucast_iff bit_drop_bit_eq bit_take_bit_iff)
qed

lemma le_get_put_id [simp, erofs_codec]:
  "LENGTH('a) \<le> 8 * n \<Longrightarrow> le_get (le_put n w) = (w :: 'a::len word)"
  by (simp add: le_get_le_put take_bit_word_eq_self)

lemma le_put_get_id [erofs_codec]:
  assumes "length bs = n" and "8 * n \<le> LENGTH('a)"
  shows "le_put n (le_get bs :: 'a::len word) = bs"
proof (rule nth_equalityI)
  show "length (le_put n (le_get bs :: 'a word)) = length bs" using assms by simp
next
  fix k assume "k < length (le_put n (le_get bs :: 'a word))"
  then have k: "k < n" by simp
  show "le_put n (le_get bs :: 'a word) ! k = bs ! k"
  proof (rule bit_word_eqI)
    fix i :: nat assume "i < LENGTH(8)"
    then have i: "i < 8" by simp
    moreover have "i + 8 * k < LENGTH('a)" using k i assms(2) by linarith
    ultimately show "bit (le_put n (le_get bs :: 'a word) ! k) i = bit (bs ! k) i"
      using k assms(1) by (auto simp: nth_le_put bit_ucast_iff bit_drop_bit_eq bit_le_get)
  qed
qed

text \<open>Reading a member back out of a concatenation of members.\<close>

lemma field_here [simp, erofs_codec]:
  "length xs = n \<Longrightarrow> field (xs @ ys) 0 n = le_get xs"
  by (simp add: field_def)

lemma field_here_end [simp, erofs_codec]:
  "length xs = n \<Longrightarrow> field xs 0 n = le_get xs"
  by (simp add: field_def)

lemma field_skip [erofs_codec]:
  "length xs \<le> off \<Longrightarrow> field (xs @ ys) off n = field ys (off - length xs) n"
  by (simp add: field_def)

lemma le_get_zeroes [simp]: "le_get (replicate n 0) = 0"
  by (induction n) simp_all

text \<open>The codecs are used through these laws; their equations evaluate concrete images.\<close>

lemma le_put_2: "le_put 2 w = [ucast w, ucast (drop_bit 8 w)]"
  by (simp add: numeral_2_eq_2)

lemmas codec_eval = le_put.simps le_get.simps
declare le_put.simps [simp del] le_get.simps [simp del]

section \<open>Rounding and logarithm macros of defs.h\<close>

text \<open>\<^verbatim>\<open>round_up\<close> and \<^verbatim>\<open>round_down\<close> are the masking versions, for powers of two only;
  \<^verbatim>\<open>roundup\<close> and \<^verbatim>\<open>rounddown\<close> divide.\<close>

definition round_up :: "'a::len word \<Rightarrow> 'a word \<Rightarrow> 'a word" where
  "round_up x y = ((x - 1) OR (y - 1)) + 1"

definition round_down :: "'a::len word \<Rightarrow> 'a word \<Rightarrow> 'a word" where
  "round_down x y = x AND NOT (y - 1)"

definition roundup :: "'a::len word \<Rightarrow> 'a word \<Rightarrow> 'a word" where
  "roundup x y = ((x + (y - 1)) div y) * y"

definition rounddown :: "'a::len word \<Rightarrow> 'a word \<Rightarrow> 'a word" where
  "rounddown x y = x - x mod y"

definition DIV_ROUND_UP :: "'a::len word \<Rightarrow> 'a word \<Rightarrow> 'a word" where
  "DIV_ROUND_UP n d = (n + d - 1) div d"

text \<open>The ternary chain of \<^verbatim>\<open>ilog2\<close> tests bit 63 first and falls through to 0.\<close>

fun ilog2_from :: "u64 \<Rightarrow> nat \<Rightarrow> nat" where
  "ilog2_from n 0 = 0"
| "ilog2_from n (Suc k) = (if bit n (Suc k) then Suc k else ilog2_from n k)"

definition ilog2 :: "u64 \<Rightarrow> nat" where
  "ilog2 n = ilog2_from n 63"

definition fls_long :: "u64 \<Rightarrow> nat" where
  "fls_long x = (if x = 0 then 0 else Suc (ilog2 x))"

definition lowbit :: "u64 \<Rightarrow> u64" where
  "lowbit n = n AND (- n)"

definition roundup_pow_of_two :: "u64 \<Rightarrow> u64" where
  "roundup_pow_of_two n = push_bit (fls_long (n - 1)) 1"

subsection \<open>Values of the macros\<close>

lemma unat_ucast_up [erofs_arith]:
  "LENGTH('a::len) \<le> LENGTH('b::len) \<Longrightarrow> unat (ucast (w :: 'a word) :: 'b word) = unat w"
proof -
  assume le: "LENGTH('a) \<le> LENGTH('b)"
  have "unat w < 2 ^ LENGTH('a)" by simp
  also have "(2 :: nat) ^ LENGTH('a) \<le> 2 ^ LENGTH('b)" using le by simp
  finally show ?thesis by (simp add: unsigned_ucast_eq take_bit_nat_eq_self)
qed

lemma unat_ucast_small:
  fixes x :: "'a::len word"
  assumes "unat x < 2 ^ LENGTH('b)"
  shows "unat (ucast x :: 'b::len word) = unat x"
  using assms by (simp only: unsigned_ucast_eq unsigned_take_bit_eq take_bit_nat_eq_self)

lemma ucast_up_down [simp]:
  "LENGTH('a::len) \<le> LENGTH('b::len) \<Longrightarrow> ucast (ucast (w :: 'a word) :: 'b word) = w"
  by (rule bit_word_eqI) (simp add: bit_ucast_iff)

lemma ucast_down_up:
  "unat (w :: 'a::len word) < 2 ^ LENGTH('b::len) \<Longrightarrow> ucast (ucast w :: 'b word) = w"
  by (simp add: word_unat_eq_iff unsigned_ucast_eq unsigned_take_bit_eq take_bit_nat_eq_self)

lemma not_bit_length: "LENGTH('a::len) \<le> i \<Longrightarrow> \<not> bit (w :: 'a word) i"
  by (auto dest: bit_imp_le_length)

lemma or_mask_eq: "(w :: 'a::len word) OR mask k = push_bit k (drop_bit k w) OR mask k"
  by (rule bit_word_eqI) (auto simp: bit_or_iff bit_mask_iff bit_push_bit_iff bit_drop_bit_eq)

lemma unat_mask: "k \<le> LENGTH('a) \<Longrightarrow> unat (mask k :: 'a::len word) = mask k"
  by (rule bit_eqI) (auto simp: bit_unsigned_iff bit_mask_iff)

lemma unat_or_mask:
  fixes w :: "'a::len word"
  assumes "k < LENGTH('a)"
  shows "unat (w OR mask k) = (unat w div 2 ^ k) * 2 ^ k + (2 ^ k - 1)"
proof -
  have "unat (w OR mask k) = unat w OR mask k"
    by (simp add: unsigned_or_eq unat_mask assms less_imp_le)
  also have "\<dots> = push_bit k (drop_bit k (unat w)) OR mask k"
    by (rule bit_eqI) (auto simp: bit_or_iff bit_mask_iff bit_push_bit_iff bit_drop_bit_eq)
  also have "\<dots> = push_bit k (drop_bit k (unat w)) + mask k"
    by (rule disjunctive_add [symmetric]) (auto simp: bit_mask_iff bit_push_bit_iff)
  also have "\<dots> = (unat w div 2 ^ k) * 2 ^ k + (2 ^ k - 1)"
    by (simp add: push_bit_eq_mult drop_bit_eq_div mask_eq_exp_minus_1)
  finally show ?thesis .
qed

lemma ceil_div_bounds:
  assumes "0 < (B :: nat)"
  shows "n \<le> (n + B - 1) div B * B" and "(n + B - 1) div B * B < n + B"
proof -
  have "(n + B - 1) div B * B + (n + B - 1) mod B = n + B - 1" by simp
  moreover have "(n + B - 1) mod B < B" using assms by simp
  ultimately show "n \<le> (n + B - 1) div B * B" and "(n + B - 1) div B * B < n + B"
    using assms by linarith+
qed

lemma unat_push_or:
  fixes a x :: "'a::len word"
  assumes "unat x < 2 ^ b" and "unat a * 2 ^ b < 2 ^ LENGTH('a)"
  shows "unat (push_bit b a OR x) = unat a * 2 ^ b + unat x"
proof -
  have p: "unat (push_bit b a) = push_bit b (unat a)"
    using assms(2) by (simp only: unsigned_push_bit_eq) (simp add: take_bit_nat_eq_self push_bit_eq_mult)
  have "push_bit b (unat a) OR take_bit b (unat x) = push_bit b (unat a) + take_bit b (unat x)"
    by (rule disjunctive_add_eq_or [symmetric]) (auto simp: bit_eq_iff bit_and_iff bit_push_bit_iff bit_take_bit_iff)
  then show ?thesis
    using assms(1) by (simp only: unsigned_or_eq p) (simp add: take_bit_nat_eq_self push_bit_eq_mult)
qed

lemma unat_take_drop_split:
  fixes x :: u64
  shows "unat x = unat (drop_bit b x) * 2 ^ b + unat (take_bit b x)"
    and "unat (take_bit b x) < 2 ^ b"
proof -
  have d: "unat (drop_bit b x) = unat x div 2 ^ b" by (simp only: unat_drop_bit_eq) (simp only: drop_bit_eq_div)
  have t: "unat (take_bit b x) = unat x mod 2 ^ b" by (simp only: unsigned_take_bit_eq) (simp only: take_bit_eq_mod)
  show "unat x = unat (drop_bit b x) * 2 ^ b + unat (take_bit b x)" by (simp only: d t div_mult_mod_eq)
  show "unat (take_bit b x) < 2 ^ b" by (simp add: t)
qed

lemma unat_push_small:
  fixes a :: "'a::len word"
  assumes "unat a * 2 ^ b < 2 ^ LENGTH('a)"
  shows "unat (push_bit b a) = unat a * 2 ^ b"
  using unat_push_or [OF _ assms, of 0] by simp

lemma unat_round_up [erofs_arith]:
  fixes x :: "'a::len word"
  assumes k: "k < LENGTH('a)" and x: "unat x + 2 ^ k \<le> 2 ^ LENGTH('a)"
  shows "unat (round_up x (2 ^ k)) = (unat x + 2 ^ k - 1) div 2 ^ k * 2 ^ k"
proof (cases "x = 0")
  case True
  have "(-1 :: 'a word) OR mask k = -1" by (rule bit_word_eqI) (simp add: bit_or_iff)
  then show ?thesis by (simp add: True round_up_def flip: mask_eq_exp_minus_1)
next
  case False
  then have x1: "unat (x - 1) = unat x - 1" by (simp add: unat_minus_one)
  have pos: "0 < unat x" using False by (simp add: unat_gt_0)
  define q where "q = (unat x - 1) div 2 ^ k"
  have q: "q * 2 ^ k \<le> unat x - 1" unfolding q_def by simp
  have v: "unat ((x - 1) OR mask k) = q * 2 ^ k + (2 ^ k - 1)"
    by (simp add: unat_or_mask k x1 q_def)
  have le: "q * 2 ^ k + 2 ^ k < 2 ^ LENGTH('a) \<or> q * 2 ^ k + 2 ^ k = 2 ^ LENGTH('a)"
    using q x pos by linarith
  have "(unat x + 2 ^ k - 1) div 2 ^ k = Suc q"
  proof -
    have "unat x + 2 ^ k - 1 = (unat x - 1) + 2 ^ k" using pos by simp
    then show ?thesis
      using div_add_self2 [of "2 ^ k :: nat" "unat x - 1"] by (simp only: q_def) simp
  qed
  moreover have "q * 2 ^ k + 2 ^ k \<noteq> 2 ^ LENGTH('a)"
    using q x pos by linarith
  then have "unat (((x - 1) OR mask k) + 1) = q * 2 ^ k + 2 ^ k"
    using le v by (subst unat_add_lem [THEN iffD1]) auto
  ultimately show ?thesis by (simp add: round_up_def mask_eq_exp_minus_1 [symmetric] algebra_simps)
qed

lemma unat_round_down [erofs_arith]:
  fixes x :: "'a::len word"
  assumes "k < LENGTH('a)"
  shows "unat (round_down x (2 ^ k)) = unat x div 2 ^ k * 2 ^ k"
proof -
  have "x AND NOT (mask k) = push_bit k (drop_bit k x)"
    by (rule bit_word_eqI) (auto simp: bit_and_iff bit_not_iff bit_mask_iff bit_push_bit_iff bit_drop_bit_eq)
  moreover have "unat (push_bit k (drop_bit k x)) = unat x div 2 ^ k * 2 ^ k"
  proof -
    have "unat x div 2 ^ k * 2 ^ k < 2 ^ LENGTH('a)"
      by (meson div_times_less_eq_dividend le_less_trans unsigned_less)
    then show ?thesis
      by (simp only: unsigned_push_bit_eq unat_drop_bit_eq)
        (simp add: push_bit_eq_mult drop_bit_eq_div take_bit_nat_eq_self)
  qed
  ultimately show ?thesis by (simp add: round_down_def flip: mask_eq_exp_minus_1)
qed

lemma unat_roundup [erofs_arith]:
  fixes x y :: "'a::len word"
  assumes y: "0 < unat y" and x: "unat x + unat y \<le> 2 ^ LENGTH('a)"
  shows "unat (roundup x y) = (unat x + unat y - 1) div unat y * unat y"
proof -
  have y1: "unat (y - 1) = unat y - 1" using y by (metis unat_eq_zero unat_minus_one less_nat_zero_code)
  have s: "unat (x + (y - 1)) = unat x + unat y - 1"
    using x y by (subst unat_add_lem [THEN iffD1]) (auto simp: y1)
  have "(unat x + unat y - 1) div unat y * unat y \<le> unat x + unat y - 1" by simp
  also have "\<dots> < 2 ^ LENGTH('a)" using x y by linarith
  finally show ?thesis
    by (simp only: roundup_def unat_word_ariths(2) unat_div s mod_less)
qed

lemma ilog2_from_spec:
  "(\<And>i. k < i \<Longrightarrow> \<not> bit n i) \<Longrightarrow> n \<noteq> 0 \<Longrightarrow>
     bit n (ilog2_from n k) \<and> (\<forall>i > ilog2_from n k. \<not> bit n i)"
proof (induction k)
  case 0
  have "bit n 0"
  proof (rule ccontr)
    assume "\<not> bit n 0"
    then have "\<not> bit n i" for i using 0(1) by (cases i) auto
    then have "n = 0" by (intro bit_word_eqI) simp
    then show False using 0(2) by simp
  qed
  then show ?case using 0 by auto
next
  case (Suc k)
  show ?case
  proof (cases "bit n (Suc k)")
    case True
    then show ?thesis using Suc.prems by auto
  next
    case False
    then have "\<not> bit n i" if "k < i" for i
      using that Suc.prems(1) [of i] by (cases "i = Suc k") auto
    then show ?thesis using Suc.IH Suc.prems False by simp
  qed
qed

lemma ilog2_bounds [erofs_arith]:
  assumes "n \<noteq> 0"
  shows "2 ^ ilog2 n \<le> unat n" and "unat n < 2 ^ Suc (ilog2 n)"
proof -
  have *: "bit n (ilog2 n) \<and> (\<forall>i > ilog2 n. \<not> bit n i)"
    unfolding ilog2_def
    by (rule ilog2_from_spec) (auto simp: assms dest: bit_imp_le_length)
  then have "bit (unat n) (ilog2 n)" by (simp add: bit_unsigned_iff) 
  then show "2 ^ ilog2 n \<le> unat n"
    by (simp add: bit_iff_odd) (metis div_less even_zero not_less)
  have "take_bit (Suc (ilog2 n)) n = n"
    using * by (intro bit_word_eqI) (auto simp: bit_take_bit_iff less_Suc_eq_le not_less)
  then have "take_bit (Suc (ilog2 n)) (unat n) = unat n" by (metis unsigned_take_bit_eq)
  then show "unat n < 2 ^ Suc (ilog2 n)" by (metis take_bit_nat_less_exp)
qed

end
