(* ===== verification/Ondisk.thy ===== *)
theory Ondisk
  imports Erofs_Prelude
begin

text \<open>
  The on-disk format of \<^verbatim>\<open>include/erofs_fs.h\<close>.  Each C struct is a record with one
  field per member, together with the function that lays it out in bytes and the function
  that reads it back, the two directions of the C pointer casts.  Reserved members are
  kept, so that decoding loses nothing.  The locale \<^verbatim>\<open>struct_codec\<close> states what every
  user of a struct relies on; it is interpreted once per struct.
\<close>

section \<open>The contract of a struct layout\<close>

definition barr :: "bytes \<Rightarrow> nat \<Rightarrow> nat \<Rightarrow> bytes" where
  "barr s off n = take n (drop off s)"

lemma barr_here [simp, erofs_codec]: "length xs = n \<Longrightarrow> barr (xs @ ys) 0 n = xs"
  by (simp add: barr_def)

lemma barr_here_end [simp, erofs_codec]: "length xs = n \<Longrightarrow> barr xs 0 n = xs"
  by (simp add: barr_def)

lemma barr_skip [erofs_codec]:
  "length xs \<le> off \<Longrightarrow> barr (xs @ ys) off n = barr ys (off - length xs) n"
  by (simp add: barr_def)

lemma length_barr [simp, erofs_codec]: "off + n \<le> length s \<Longrightarrow> length (barr s off n) = n"
  by (simp add: barr_def)

text \<open>Laying a member out again gives the bytes it was read from.\<close>

lemma le_put_field [erofs_codec]:
  "off + n \<le> length s \<Longrightarrow> 8 * n \<le> LENGTH('a::len) \<Longrightarrow>
     le_put n (field s off n :: 'a word) = barr s off n"
  by (simp add: field_def barr_def le_put_get_id)

lemma barr_join [erofs_codec]:
  "off' = off + m \<Longrightarrow> barr s off m @ barr s off' n = barr s off (m + n)"
  by (simp add: barr_def take_add add.commute)

locale struct_codec =
  fixes sizeof :: nat
    and enc :: "'a \<Rightarrow> bytes"
    and dec :: "bytes \<Rightarrow> 'a"
    and wf :: "'a \<Rightarrow> bool"
  assumes length_enc: "wf x \<Longrightarrow> length (enc x) = sizeof"
    and dec_enc: "wf x \<Longrightarrow> dec (enc x) = x"
    and enc_dec: "length b = sizeof \<Longrightarrow> enc (dec b) = b"
    and wf_dec: "length b = sizeof \<Longrightarrow> wf (dec b)"
begin

lemma enc_inj: "wf x \<Longrightarrow> wf y \<Longrightarrow> enc x = enc y \<Longrightarrow> x = y"
  by (metis dec_enc)

lemma dec_inj: "length b = sizeof \<Longrightarrow> length c = sizeof \<Longrightarrow> dec b = dec c \<Longrightarrow> b = c"
  by (metis enc_dec)

lemma dec_embedded:
  assumes "wf x"
  shows "dec (take sizeof (drop (length xs) (xs @ enc x @ ys))) = x"
  using assms by (simp add: length_enc dec_enc)

lemma length_array: "list_all wf xs \<Longrightarrow> length (concat (map enc xs)) = sizeof * length xs"
  by (induction xs) (auto simp: length_enc)

lemma take_drop_array:
  assumes "list_all wf xs" and "i < length xs"
  shows "take sizeof (drop (i * sizeof) (concat (map enc xs) @ ys)) = enc (xs ! i)"
  using assms
proof (induction xs arbitrary: i)
  case Nil
  then show ?case by simp
next
  case (Cons x xs)
  then show ?case by (cases i) (auto simp: length_enc)
qed

lemma dec_array:
  assumes "list_all wf xs" and "i < length xs"
  shows "dec (take sizeof (drop (i * sizeof) (concat (map enc xs) @ ys))) = xs ! i"
  using assms by (simp only: take_drop_array dec_enc list_all_length)

end

section \<open>Superblock and device table\<close>

abbreviation (input) EROFS_SUPER_MAGIC_V1 :: u32 where "EROFS_SUPER_MAGIC_V1 \<equiv> 0xE0F5E1E2"
abbreviation (input) EROFS_SUPER_OFFSET :: nat where "EROFS_SUPER_OFFSET \<equiv> 1024"
abbreviation (input) EROFS_SB_EXTSLOT_SIZE :: nat where "EROFS_SB_EXTSLOT_SIZE \<equiv> 16"
abbreviation (input) EROFS_DEVT_SLOT_SIZE :: nat where "EROFS_DEVT_SLOT_SIZE \<equiv> 128"
abbreviation (input) EROFS_SUPER_END :: nat where "EROFS_SUPER_END \<equiv> 1152"
abbreviation (input) EROFS_MAX_BLOCK_SIZE :: nat where "EROFS_MAX_BLOCK_SIZE \<equiv> 4096"

abbreviation (input) EROFS_FEATURE_COMPAT_SB_CHKSUM :: u32 where "EROFS_FEATURE_COMPAT_SB_CHKSUM \<equiv> 0x1"
abbreviation (input) EROFS_FEATURE_COMPAT_MTIME :: u32 where "EROFS_FEATURE_COMPAT_MTIME \<equiv> 0x2"
abbreviation (input) EROFS_FEATURE_COMPAT_XATTR_FILTER :: u32 where "EROFS_FEATURE_COMPAT_XATTR_FILTER \<equiv> 0x4"

abbreviation (input) EROFS_FEATURE_INCOMPAT_ZERO_PADDING :: u32 where "EROFS_FEATURE_INCOMPAT_ZERO_PADDING \<equiv> 0x1"
abbreviation (input) EROFS_FEATURE_INCOMPAT_COMPR_CFGS :: u32 where "EROFS_FEATURE_INCOMPAT_COMPR_CFGS \<equiv> 0x2"
abbreviation (input) EROFS_FEATURE_INCOMPAT_BIG_PCLUSTER :: u32 where "EROFS_FEATURE_INCOMPAT_BIG_PCLUSTER \<equiv> 0x2"
abbreviation (input) EROFS_FEATURE_INCOMPAT_CHUNKED_FILE :: u32 where "EROFS_FEATURE_INCOMPAT_CHUNKED_FILE \<equiv> 0x4"
abbreviation (input) EROFS_FEATURE_INCOMPAT_DEVICE_TABLE :: u32 where "EROFS_FEATURE_INCOMPAT_DEVICE_TABLE \<equiv> 0x8"
abbreviation (input) EROFS_FEATURE_INCOMPAT_COMPR_HEAD2 :: u32 where "EROFS_FEATURE_INCOMPAT_COMPR_HEAD2 \<equiv> 0x8"
abbreviation (input) EROFS_FEATURE_INCOMPAT_ZTAILPACKING :: u32 where "EROFS_FEATURE_INCOMPAT_ZTAILPACKING \<equiv> 0x10"
abbreviation (input) EROFS_FEATURE_INCOMPAT_FRAGMENTS :: u32 where "EROFS_FEATURE_INCOMPAT_FRAGMENTS \<equiv> 0x20"
abbreviation (input) EROFS_FEATURE_INCOMPAT_DEDUPE :: u32 where "EROFS_FEATURE_INCOMPAT_DEDUPE \<equiv> 0x20"
abbreviation (input) EROFS_FEATURE_INCOMPAT_XATTR_PREFIXES :: u32 where "EROFS_FEATURE_INCOMPAT_XATTR_PREFIXES \<equiv> 0x40"

definition EROFS_ALL_FEATURE_INCOMPAT :: u32 where
  "EROFS_ALL_FEATURE_INCOMPAT =
     EROFS_FEATURE_INCOMPAT_ZERO_PADDING OR EROFS_FEATURE_INCOMPAT_COMPR_CFGS OR
     EROFS_FEATURE_INCOMPAT_BIG_PCLUSTER OR EROFS_FEATURE_INCOMPAT_CHUNKED_FILE OR
     EROFS_FEATURE_INCOMPAT_DEVICE_TABLE OR EROFS_FEATURE_INCOMPAT_COMPR_HEAD2 OR
     EROFS_FEATURE_INCOMPAT_ZTAILPACKING OR EROFS_FEATURE_INCOMPAT_FRAGMENTS OR
     EROFS_FEATURE_INCOMPAT_DEDUPE OR EROFS_FEATURE_INCOMPAT_XATTR_PREFIXES"

record erofs_deviceslot =
  ds_tag :: bytes
  ds_blocks :: u32
  ds_mapped_blkaddr :: u32
  ds_reserved :: bytes

definition deviceslot_wf :: "erofs_deviceslot \<Rightarrow> bool" where
  "deviceslot_wf d \<longleftrightarrow> length (ds_tag d) = 64 \<and> length (ds_reserved d) = 56"

definition enc_deviceslot :: "erofs_deviceslot \<Rightarrow> bytes" where
  "enc_deviceslot d =
     ds_tag d @ cpu_to_le32 (ds_blocks d) @ cpu_to_le32 (ds_mapped_blkaddr d) @ ds_reserved d"

definition dec_deviceslot :: "bytes \<Rightarrow> erofs_deviceslot" where
  "dec_deviceslot s =
     \<lparr>ds_tag = barr s 0 64, ds_blocks = field s 64 4, ds_mapped_blkaddr = field s 68 4,
      ds_reserved = barr s 72 56\<rparr>"

record erofs_super_block =
  dsb_magic :: u32
  dsb_checksum :: u32
  dsb_feature_compat :: u32
  dsb_blkszbits :: u8
  dsb_sb_extslots :: u8
  dsb_root_nid :: u16
  dsb_inos :: u64
  dsb_build_time :: u64
  dsb_build_time_nsec :: u32
  dsb_blocks :: u32
  dsb_meta_blkaddr :: u32
  dsb_xattr_blkaddr :: u32
  dsb_uuid :: bytes
  dsb_volume_name :: bytes
  dsb_feature_incompat :: u32
  dsb_u1 :: u16
  dsb_extra_devices :: u16
  dsb_devt_slotoff :: u16
  dsb_dirblkbits :: u8
  dsb_xattr_prefix_count :: u8
  dsb_xattr_prefix_start :: u32
  dsb_packed_nid :: u64
  dsb_xattr_filter_reserved :: u8
  dsb_reserved2 :: bytes

definition super_block_wf :: "erofs_super_block \<Rightarrow> bool" where
  "super_block_wf b \<longleftrightarrow>
     length (dsb_uuid b) = 16 \<and> length (dsb_volume_name b) = 16 \<and> length (dsb_reserved2 b) = 23"

definition enc_super_block :: "erofs_super_block \<Rightarrow> bytes" where
  "enc_super_block b =
     cpu_to_le32 (dsb_magic b) @ cpu_to_le32 (dsb_checksum b) @ cpu_to_le32 (dsb_feature_compat b) @
     le_put 1 (dsb_blkszbits b) @ le_put 1 (dsb_sb_extslots b) @ cpu_to_le16 (dsb_root_nid b) @
     cpu_to_le64 (dsb_inos b) @ cpu_to_le64 (dsb_build_time b) @ cpu_to_le32 (dsb_build_time_nsec b) @
     cpu_to_le32 (dsb_blocks b) @ cpu_to_le32 (dsb_meta_blkaddr b) @ cpu_to_le32 (dsb_xattr_blkaddr b) @
     dsb_uuid b @ dsb_volume_name b @ cpu_to_le32 (dsb_feature_incompat b) @ cpu_to_le16 (dsb_u1 b) @
     cpu_to_le16 (dsb_extra_devices b) @ cpu_to_le16 (dsb_devt_slotoff b) @ le_put 1 (dsb_dirblkbits b) @
     le_put 1 (dsb_xattr_prefix_count b) @ cpu_to_le32 (dsb_xattr_prefix_start b) @
     cpu_to_le64 (dsb_packed_nid b) @ le_put 1 (dsb_xattr_filter_reserved b) @ dsb_reserved2 b"

definition dec_super_block :: "bytes \<Rightarrow> erofs_super_block" where
  "dec_super_block s =
     \<lparr>dsb_magic = field s 0 4, dsb_checksum = field s 4 4, dsb_feature_compat = field s 8 4,
      dsb_blkszbits = field s 12 1, dsb_sb_extslots = field s 13 1, dsb_root_nid = field s 14 2,
      dsb_inos = field s 16 8, dsb_build_time = field s 24 8, dsb_build_time_nsec = field s 32 4,
      dsb_blocks = field s 36 4, dsb_meta_blkaddr = field s 40 4, dsb_xattr_blkaddr = field s 44 4,
      dsb_uuid = barr s 48 16, dsb_volume_name = barr s 64 16, dsb_feature_incompat = field s 80 4,
      dsb_u1 = field s 84 2, dsb_extra_devices = field s 86 2, dsb_devt_slotoff = field s 88 2,
      dsb_dirblkbits = field s 90 1, dsb_xattr_prefix_count = field s 91 1,
      dsb_xattr_prefix_start = field s 92 4, dsb_packed_nid = field s 96 8,
      dsb_xattr_filter_reserved = field s 104 1, dsb_reserved2 = barr s 105 23\<rparr>"

text \<open>Every layout lemma below is an evaluation of the codec laws at the struct's offsets.\<close>

lemmas layout_simps = field_skip barr_skip le_put_field barr_join

interpretation deviceslot: struct_codec 128 enc_deviceslot dec_deviceslot deviceslot_wf
  by unfold_locales
    (simp_all add: deviceslot_wf_def enc_deviceslot_def dec_deviceslot_def layout_simps)

interpretation super_block: struct_codec 128 enc_super_block dec_super_block super_block_wf
  by unfold_locales
    (simp_all add: super_block_wf_def enc_super_block_def dec_super_block_def layout_simps)

section \<open>Inodes\<close>

datatype datalayout =
    EROFS_INODE_FLAT_PLAIN | EROFS_INODE_COMPRESSED_FULL | EROFS_INODE_FLAT_INLINE
  | EROFS_INODE_COMPRESSED_COMPACT | EROFS_INODE_CHUNK_BASED

text \<open>The enumerators' values; the values from \<^verbatim>\<open>EROFS_INODE_DATALAYOUT_MAX\<close> on name no layout.\<close>

definition datalayout_of :: "nat \<Rightarrow> datalayout option" where
  "datalayout_of n =
     (if n = 0 then Some EROFS_INODE_FLAT_PLAIN
      else if n = 1 then Some EROFS_INODE_COMPRESSED_FULL
      else if n = 2 then Some EROFS_INODE_FLAT_INLINE
      else if n = 3 then Some EROFS_INODE_COMPRESSED_COMPACT
      else if n = 4 then Some EROFS_INODE_CHUNK_BASED
      else None)"

fun datalayout_code :: "datalayout \<Rightarrow> u16" where
  "datalayout_code EROFS_INODE_FLAT_PLAIN = 0"
| "datalayout_code EROFS_INODE_COMPRESSED_FULL = 1"
| "datalayout_code EROFS_INODE_FLAT_INLINE = 2"
| "datalayout_code EROFS_INODE_COMPRESSED_COMPACT = 3"
| "datalayout_code EROFS_INODE_CHUNK_BASED = 4"

lemma datalayout_of_code [simp]: "datalayout_of (unat (datalayout_code l)) = Some l"
  by (cases l) (simp_all add: datalayout_of_def)

definition erofs_inode_is_data_compressed :: "datalayout \<Rightarrow> bool" where
  "erofs_inode_is_data_compressed m \<longleftrightarrow>
     m = EROFS_INODE_COMPRESSED_COMPACT \<or> m = EROFS_INODE_COMPRESSED_FULL"

abbreviation (input) EROFS_I_VERSION_BIT :: nat where "EROFS_I_VERSION_BIT \<equiv> 0"
abbreviation (input) EROFS_I_VERSION_BITS :: nat where "EROFS_I_VERSION_BITS \<equiv> 1"
abbreviation (input) EROFS_I_DATALAYOUT_BIT :: nat where "EROFS_I_DATALAYOUT_BIT \<equiv> 1"
abbreviation (input) EROFS_I_DATALAYOUT_BITS :: nat where "EROFS_I_DATALAYOUT_BITS \<equiv> 3"
abbreviation (input) EROFS_INODE_LAYOUT_COMPACT :: u32 where "EROFS_INODE_LAYOUT_COMPACT \<equiv> 0"
abbreviation (input) EROFS_INODE_LAYOUT_EXTENDED :: u32 where "EROFS_INODE_LAYOUT_EXTENDED \<equiv> 1"
abbreviation (input) EROFS_CHUNK_FORMAT_BLKBITS_MASK :: u16 where "EROFS_CHUNK_FORMAT_BLKBITS_MASK \<equiv> 0x1F"
abbreviation (input) EROFS_CHUNK_FORMAT_INDEXES :: u16 where "EROFS_CHUNK_FORMAT_INDEXES \<equiv> 0x20"
abbreviation (input) EROFS_CHUNK_FORMAT_ALL :: u16 where
  "EROFS_CHUNK_FORMAT_ALL \<equiv> EROFS_CHUNK_FORMAT_BLKBITS_MASK OR EROFS_CHUNK_FORMAT_INDEXES"
abbreviation (input) EROFS_NULL_ADDR :: u32 where "EROFS_NULL_ADDR \<equiv> -1"
abbreviation (input) EROFS_BLOCK_MAP_ENTRY_SIZE :: nat where "EROFS_BLOCK_MAP_ENTRY_SIZE \<equiv> 4"

definition erofs_bitrange :: "u32 \<Rightarrow> nat \<Rightarrow> nat \<Rightarrow> u32" where
  "erofs_bitrange value bit_no bits = drop_bit bit_no value AND (push_bit bits 1 - 1)"

definition erofs_inode_version :: "u32 \<Rightarrow> u32" where
  "erofs_inode_version value = erofs_bitrange value EROFS_I_VERSION_BIT EROFS_I_VERSION_BITS"

definition erofs_inode_datalayout :: "u32 \<Rightarrow> u32" where
  "erofs_inode_datalayout value =
     erofs_bitrange value EROFS_I_DATALAYOUT_BIT EROFS_I_DATALAYOUT_BITS"

text \<open>
  The union \<^verbatim>\<open>erofs_inode_i_u\<close> is kept as the 32-bit word it occupies; the chunk
  format is its low half, as the member order of \<^verbatim>\<open>erofs_inode_chunk_info\<close> has it.
\<close>

definition i_u_chunk_format :: "u32 \<Rightarrow> u16" where
  "i_u_chunk_format u = ucast u"

record erofs_inode_compact =
  dic_i_format :: u16
  dic_i_xattr_icount :: u16
  dic_i_mode :: u16
  dic_i_nlink :: u16
  dic_i_size :: u32
  dic_i_reserved :: u32
  dic_i_u :: u32
  dic_i_ino :: u32
  dic_i_uid :: u16
  dic_i_gid :: u16
  dic_i_reserved2 :: u32

definition enc_inode_compact :: "erofs_inode_compact \<Rightarrow> bytes" where
  "enc_inode_compact d =
     cpu_to_le16 (dic_i_format d) @ cpu_to_le16 (dic_i_xattr_icount d) @ cpu_to_le16 (dic_i_mode d) @
     cpu_to_le16 (dic_i_nlink d) @ cpu_to_le32 (dic_i_size d) @ cpu_to_le32 (dic_i_reserved d) @
     cpu_to_le32 (dic_i_u d) @ cpu_to_le32 (dic_i_ino d) @ cpu_to_le16 (dic_i_uid d) @
     cpu_to_le16 (dic_i_gid d) @ cpu_to_le32 (dic_i_reserved2 d)"

definition dec_inode_compact :: "bytes \<Rightarrow> erofs_inode_compact" where
  "dec_inode_compact s =
     \<lparr>dic_i_format = field s 0 2, dic_i_xattr_icount = field s 2 2, dic_i_mode = field s 4 2,
      dic_i_nlink = field s 6 2, dic_i_size = field s 8 4, dic_i_reserved = field s 12 4,
      dic_i_u = field s 16 4, dic_i_ino = field s 20 4, dic_i_uid = field s 24 2,
      dic_i_gid = field s 26 2, dic_i_reserved2 = field s 28 4\<rparr>"

record erofs_inode_extended =
  die_i_format :: u16
  die_i_xattr_icount :: u16
  die_i_mode :: u16
  die_i_reserved :: u16
  die_i_size :: u64
  die_i_u :: u32
  die_i_ino :: u32
  die_i_uid :: u32
  die_i_gid :: u32
  die_i_mtime :: u64
  die_i_mtime_nsec :: u32
  die_i_nlink :: u32
  die_i_reserved2 :: bytes

definition inode_extended_wf :: "erofs_inode_extended \<Rightarrow> bool" where
  "inode_extended_wf d \<longleftrightarrow> length (die_i_reserved2 d) = 16"

definition enc_inode_extended :: "erofs_inode_extended \<Rightarrow> bytes" where
  "enc_inode_extended d =
     cpu_to_le16 (die_i_format d) @ cpu_to_le16 (die_i_xattr_icount d) @ cpu_to_le16 (die_i_mode d) @
     cpu_to_le16 (die_i_reserved d) @ cpu_to_le64 (die_i_size d) @ cpu_to_le32 (die_i_u d) @
     cpu_to_le32 (die_i_ino d) @ cpu_to_le32 (die_i_uid d) @ cpu_to_le32 (die_i_gid d) @
     cpu_to_le64 (die_i_mtime d) @ cpu_to_le32 (die_i_mtime_nsec d) @ cpu_to_le32 (die_i_nlink d) @
     die_i_reserved2 d"

definition dec_inode_extended :: "bytes \<Rightarrow> erofs_inode_extended" where
  "dec_inode_extended s =
     \<lparr>die_i_format = field s 0 2, die_i_xattr_icount = field s 2 2, die_i_mode = field s 4 2,
      die_i_reserved = field s 6 2, die_i_size = field s 8 8, die_i_u = field s 16 4,
      die_i_ino = field s 20 4, die_i_uid = field s 24 4, die_i_gid = field s 28 4,
      die_i_mtime = field s 32 8, die_i_mtime_nsec = field s 40 4, die_i_nlink = field s 44 4,
      die_i_reserved2 = barr s 48 16\<rparr>"

interpretation inode_compact: struct_codec 32 enc_inode_compact dec_inode_compact "\<lambda>_. True"
  by unfold_locales (simp_all add: enc_inode_compact_def dec_inode_compact_def layout_simps)

interpretation inode_extended: struct_codec 64 enc_inode_extended dec_inode_extended inode_extended_wf
  by unfold_locales
    (simp_all add: inode_extended_wf_def enc_inode_extended_def dec_inode_extended_def layout_simps)

section \<open>Extended attributes\<close>

record erofs_xattr_ibody_header =
  h_name_filter :: u32
  h_shared_count :: u8
  h_reserved2 :: bytes

definition xattr_ibody_header_wf :: "erofs_xattr_ibody_header \<Rightarrow> bool" where
  "xattr_ibody_header_wf h \<longleftrightarrow> length (h_reserved2 h) = 7"

definition enc_xattr_ibody_header :: "erofs_xattr_ibody_header \<Rightarrow> bytes" where
  "enc_xattr_ibody_header h =
     cpu_to_le32 (h_name_filter h) @ le_put 1 (h_shared_count h) @ h_reserved2 h"

definition dec_xattr_ibody_header :: "bytes \<Rightarrow> erofs_xattr_ibody_header" where
  "dec_xattr_ibody_header s =
     \<lparr>h_name_filter = field s 0 4, h_shared_count = field s 4 1, h_reserved2 = barr s 5 7\<rparr>"

record erofs_xattr_entry =
  e_name_len :: u8
  e_name_index :: u8
  e_value_size :: u16

definition enc_xattr_entry :: "erofs_xattr_entry \<Rightarrow> bytes" where
  "enc_xattr_entry e = le_put 1 (e_name_len e) @ le_put 1 (e_name_index e) @ cpu_to_le16 (e_value_size e)"

definition dec_xattr_entry :: "bytes \<Rightarrow> erofs_xattr_entry" where
  "dec_xattr_entry s =
     \<lparr>e_name_len = field s 0 1, e_name_index = field s 1 1, e_value_size = field s 2 2\<rparr>"

text \<open>Sizes are computed in \<^verbatim>\<open>unsigned int\<close>: 12 bytes of header and 4 bytes per further slot.\<close>

definition erofs_xattr_ibody_size :: "u16 \<Rightarrow> u32" where
  "erofs_xattr_ibody_size icount = (if icount = 0 then 0 else 12 + 4 * (ucast icount - 1))"

definition EROFS_XATTR_ALIGN :: "u32 \<Rightarrow> u32" where
  "EROFS_XATTR_ALIGN sz = round_up sz 4"

definition erofs_xattr_entry_size :: "erofs_xattr_entry \<Rightarrow> u32" where
  "erofs_xattr_entry_size e =
     EROFS_XATTR_ALIGN (4 + ucast (e_name_len e) + ucast (e_value_size e))"

section \<open>Chunk indexes and directory entries\<close>

record erofs_inode_chunk_index =
  ci_advise :: u16
  ci_device_id :: u16
  ci_blkaddr :: u32

definition enc_chunk_index :: "erofs_inode_chunk_index \<Rightarrow> bytes" where
  "enc_chunk_index c = cpu_to_le16 (ci_advise c) @ cpu_to_le16 (ci_device_id c) @ cpu_to_le32 (ci_blkaddr c)"

definition dec_chunk_index :: "bytes \<Rightarrow> erofs_inode_chunk_index" where
  "dec_chunk_index s =
     \<lparr>ci_advise = field s 0 2, ci_device_id = field s 2 2, ci_blkaddr = field s 4 4\<rparr>"

record erofs_dirent =
  de_nid :: u64
  de_nameoff :: u16
  de_file_type :: u8
  de_reserved :: u8

definition enc_dirent :: "erofs_dirent \<Rightarrow> bytes" where
  "enc_dirent d =
     cpu_to_le64 (de_nid d) @ cpu_to_le16 (de_nameoff d) @ le_put 1 (de_file_type d) @ le_put 1 (de_reserved d)"

definition dec_dirent :: "bytes \<Rightarrow> erofs_dirent" where
  "dec_dirent s =
     \<lparr>de_nid = field s 0 8, de_nameoff = field s 8 2, de_file_type = field s 10 1,
      de_reserved = field s 11 1\<rparr>"

abbreviation (input) EROFS_FT_UNKNOWN :: u8 where "EROFS_FT_UNKNOWN \<equiv> 0"
abbreviation (input) EROFS_FT_REG_FILE :: u8 where "EROFS_FT_REG_FILE \<equiv> 1"
abbreviation (input) EROFS_FT_DIR :: u8 where "EROFS_FT_DIR \<equiv> 2"
abbreviation (input) EROFS_FT_CHRDEV :: u8 where "EROFS_FT_CHRDEV \<equiv> 3"
abbreviation (input) EROFS_FT_BLKDEV :: u8 where "EROFS_FT_BLKDEV \<equiv> 4"
abbreviation (input) EROFS_FT_FIFO :: u8 where "EROFS_FT_FIFO \<equiv> 5"
abbreviation (input) EROFS_FT_SOCK :: u8 where "EROFS_FT_SOCK \<equiv> 6"
abbreviation (input) EROFS_FT_SYMLINK :: u8 where "EROFS_FT_SYMLINK \<equiv> 7"
abbreviation (input) EROFS_FT_MAX :: u8 where "EROFS_FT_MAX \<equiv> 8"
abbreviation (input) EROFS_NAME_LEN :: nat where "EROFS_NAME_LEN \<equiv> 255"

section \<open>Compressed inodes\<close>

datatype lcluster_type =
    Z_EROFS_LCLUSTER_TYPE_PLAIN | Z_EROFS_LCLUSTER_TYPE_HEAD1
  | Z_EROFS_LCLUSTER_TYPE_NONHEAD | Z_EROFS_LCLUSTER_TYPE_HEAD2

text \<open>The two type bits of an index, by the enumerators' values.\<close>

definition lcluster_type_of :: "nat \<Rightarrow> lcluster_type" where
  "lcluster_type_of n =
     (if n = 0 then Z_EROFS_LCLUSTER_TYPE_PLAIN
      else if n = 1 then Z_EROFS_LCLUSTER_TYPE_HEAD1
      else if n = 2 then Z_EROFS_LCLUSTER_TYPE_NONHEAD
      else Z_EROFS_LCLUSTER_TYPE_HEAD2)"

fun lcluster_type_code :: "lcluster_type \<Rightarrow> nat" where
  "lcluster_type_code Z_EROFS_LCLUSTER_TYPE_PLAIN = 0"
| "lcluster_type_code Z_EROFS_LCLUSTER_TYPE_HEAD1 = 1"
| "lcluster_type_code Z_EROFS_LCLUSTER_TYPE_NONHEAD = 2"
| "lcluster_type_code Z_EROFS_LCLUSTER_TYPE_HEAD2 = 3"

lemma lcluster_type_of_code [simp]: "lcluster_type_of (lcluster_type_code t) = t"
  by (cases t) (simp_all add: lcluster_type_of_def)

lemma lcluster_type_code_bound [simp]: "lcluster_type_code t < 4"
  by (cases t) simp_all

abbreviation (input) Z_EROFS_COMPRESSION_LZ4 :: nat where "Z_EROFS_COMPRESSION_LZ4 \<equiv> 0"
abbreviation (input) Z_EROFS_COMPRESSION_LZMA :: nat where "Z_EROFS_COMPRESSION_LZMA \<equiv> 1"
abbreviation (input) Z_EROFS_COMPRESSION_DEFLATE :: nat where "Z_EROFS_COMPRESSION_DEFLATE \<equiv> 2"
abbreviation (input) Z_EROFS_COMPRESSION_ZSTD :: nat where "Z_EROFS_COMPRESSION_ZSTD \<equiv> 3"
abbreviation (input) Z_EROFS_COMPRESSION_MAX :: nat where "Z_EROFS_COMPRESSION_MAX \<equiv> 4"
abbreviation (input) Z_EROFS_ALL_COMPR_ALGS :: u16 where "Z_EROFS_ALL_COMPR_ALGS \<equiv> 0xF"

abbreviation (input) Z_EROFS_ADVISE_COMPACTED_2B :: u16 where "Z_EROFS_ADVISE_COMPACTED_2B \<equiv> 0x1"
abbreviation (input) Z_EROFS_ADVISE_BIG_PCLUSTER_1 :: u16 where "Z_EROFS_ADVISE_BIG_PCLUSTER_1 \<equiv> 0x2"
abbreviation (input) Z_EROFS_ADVISE_BIG_PCLUSTER_2 :: u16 where "Z_EROFS_ADVISE_BIG_PCLUSTER_2 \<equiv> 0x4"
abbreviation (input) Z_EROFS_ADVISE_INLINE_PCLUSTER :: u16 where "Z_EROFS_ADVISE_INLINE_PCLUSTER \<equiv> 0x8"
abbreviation (input) Z_EROFS_ADVISE_INTERLACED_PCLUSTER :: u16 where "Z_EROFS_ADVISE_INTERLACED_PCLUSTER \<equiv> 0x10"
abbreviation (input) Z_EROFS_ADVISE_FRAGMENT_PCLUSTER :: u16 where "Z_EROFS_ADVISE_FRAGMENT_PCLUSTER \<equiv> 0x20"
abbreviation (input) Z_EROFS_FRAGMENT_INODE_BIT :: nat where "Z_EROFS_FRAGMENT_INODE_BIT \<equiv> 7"
abbreviation (input) Z_EROFS_LI_LCLUSTER_TYPE_BITS :: nat where "Z_EROFS_LI_LCLUSTER_TYPE_BITS \<equiv> 2"
abbreviation (input) Z_EROFS_LI_LCLUSTER_TYPE_BIT :: nat where "Z_EROFS_LI_LCLUSTER_TYPE_BIT \<equiv> 0"
abbreviation (input) Z_EROFS_LI_PARTIAL_REF :: u16 where "Z_EROFS_LI_PARTIAL_REF \<equiv> 0x8000"
abbreviation (input) Z_EROFS_LI_D0_CBLKCNT :: nat where "Z_EROFS_LI_D0_CBLKCNT \<equiv> 0x800"

text \<open>\<^verbatim>\<open>h_fragmentoff\<close> shares its storage with \<^verbatim>\<open>h_reserved1\<close> and \<^verbatim>\<open>h_idata_size\<close> (the high half).\<close>

record z_erofs_map_header =
  h_fragmentoff :: u32
  h_advise :: u16
  h_algorithmtype :: u8
  h_clusterbits :: u8

definition h_idata_size :: "z_erofs_map_header \<Rightarrow> u16" where
  "h_idata_size h = ucast (drop_bit 16 (h_fragmentoff h))"

definition enc_map_header :: "z_erofs_map_header \<Rightarrow> bytes" where
  "enc_map_header h =
     cpu_to_le32 (h_fragmentoff h) @ cpu_to_le16 (h_advise h) @ le_put 1 (h_algorithmtype h) @
     le_put 1 (h_clusterbits h)"

definition dec_map_header :: "bytes \<Rightarrow> z_erofs_map_header" where
  "dec_map_header s =
     \<lparr>h_fragmentoff = field s 0 4, h_advise = field s 4 2, h_algorithmtype = field s 6 1,
      h_clusterbits = field s 7 1\<rparr>"

text \<open>
  The union \<^verbatim>\<open>di_u\<close> of an index is the 32-bit word it occupies: the block address of a
  head, or \<^verbatim>\<open>delta[0]\<close> in the low and \<^verbatim>\<open>delta[1]\<close> in the high half.
\<close>

record z_erofs_lcluster_index =
  di_advise :: u16
  di_clusterofs :: u16
  di_u :: u32

definition di_delta0 :: "z_erofs_lcluster_index \<Rightarrow> u16" where
  "di_delta0 d = ucast (di_u d)"

definition di_delta1 :: "z_erofs_lcluster_index \<Rightarrow> u16" where
  "di_delta1 d = ucast (drop_bit 16 (di_u d))"

definition di_u_of_delta :: "u16 \<Rightarrow> u16 \<Rightarrow> u32" where
  "di_u_of_delta d0 d1 = ucast d0 OR push_bit 16 (ucast d1)"

lemma di_delta_of_delta [simp]:
  "di_u d = di_u_of_delta d0 d1 \<Longrightarrow> di_delta0 d = d0"
  "di_u d = di_u_of_delta d0 d1 \<Longrightarrow> di_delta1 d = d1"
  by (auto intro!: bit_word_eqI
      simp: di_delta0_def di_delta1_def di_u_of_delta_def bit_or_iff bit_ucast_iff bit_push_bit_iff
        bit_drop_bit_eq not_bit_length)

definition enc_lcluster_index :: "z_erofs_lcluster_index \<Rightarrow> bytes" where
  "enc_lcluster_index d = cpu_to_le16 (di_advise d) @ cpu_to_le16 (di_clusterofs d) @ cpu_to_le32 (di_u d)"

definition dec_lcluster_index :: "bytes \<Rightarrow> z_erofs_lcluster_index" where
  "dec_lcluster_index s =
     \<lparr>di_advise = field s 0 2, di_clusterofs = field s 2 2, di_u = field s 4 4\<rparr>"

definition Z_EROFS_FULL_INDEX_ALIGN :: "u64 \<Rightarrow> u64" where
  "Z_EROFS_FULL_INDEX_ALIGN e = round_up e 8 + 8 + 8"

record z_erofs_lz4_cfgs =
  lz4c_max_distance :: u16
  lz4c_max_pclusterblks :: u16
  lz4c_reserved :: bytes

definition lz4_cfgs_wf :: "z_erofs_lz4_cfgs \<Rightarrow> bool" where
  "lz4_cfgs_wf c \<longleftrightarrow> length (lz4c_reserved c) = 10"

definition enc_lz4_cfgs :: "z_erofs_lz4_cfgs \<Rightarrow> bytes" where
  "enc_lz4_cfgs c = cpu_to_le16 (lz4c_max_distance c) @ cpu_to_le16 (lz4c_max_pclusterblks c) @ lz4c_reserved c"

definition dec_lz4_cfgs :: "bytes \<Rightarrow> z_erofs_lz4_cfgs" where
  "dec_lz4_cfgs s =
     \<lparr>lz4c_max_distance = field s 0 2, lz4c_max_pclusterblks = field s 2 2, lz4c_reserved = barr s 4 10\<rparr>"

interpretation xattr_ibody_header:
  struct_codec 12 enc_xattr_ibody_header dec_xattr_ibody_header xattr_ibody_header_wf
  by unfold_locales
    (simp_all add: xattr_ibody_header_wf_def enc_xattr_ibody_header_def dec_xattr_ibody_header_def
      layout_simps)

interpretation xattr_entry: struct_codec 4 enc_xattr_entry dec_xattr_entry "\<lambda>_. True"
  by unfold_locales (simp_all add: enc_xattr_entry_def dec_xattr_entry_def layout_simps)

interpretation chunk_index: struct_codec 8 enc_chunk_index dec_chunk_index "\<lambda>_. True"
  by unfold_locales (simp_all add: enc_chunk_index_def dec_chunk_index_def layout_simps)

interpretation dirent: struct_codec 12 enc_dirent dec_dirent "\<lambda>_. True"
  by unfold_locales (simp_all add: enc_dirent_def dec_dirent_def layout_simps)

interpretation map_header: struct_codec 8 enc_map_header dec_map_header "\<lambda>_. True"
  by unfold_locales (simp_all add: enc_map_header_def dec_map_header_def layout_simps)

interpretation lcluster_index: struct_codec 8 enc_lcluster_index dec_lcluster_index "\<lambda>_. True"
  by unfold_locales (simp_all add: enc_lcluster_index_def dec_lcluster_index_def layout_simps)

interpretation lz4_cfgs: struct_codec 14 enc_lz4_cfgs dec_lz4_cfgs lz4_cfgs_wf
  by unfold_locales (simp_all add: lz4_cfgs_wf_def enc_lz4_cfgs_def dec_lz4_cfgs_def layout_simps)

lemma erofs_xattr_ibody_size_value:
  "unat (erofs_xattr_ibody_size n) = (if n = 0 then 0 else 8 + 4 * unat n)"
proof (cases "n = 0")
  case True
  then show ?thesis by (simp add: erofs_xattr_ibody_size_def)
next
  case False
  have n: "unat (ucast n :: u32) = unat n" by (simp add: unat_ucast_up)
  have b: "unat n < 65536" using unsigned_less [of n] by simp
  show ?thesis
    using False b by (simp add: erofs_xattr_ibody_size_def unat_word_ariths n)
qed

end
