(* ===== verification/Erofs_Io.thy ===== *)
theory Erofs_Io
  imports Ondisk
begin

text \<open>
  Positioned I/O on image files (\<^verbatim>\<open>lib/io.c\<close>) and the in-memory superblock
  (\<^verbatim>\<open>struct erofs_sb_info\<close> of \<^verbatim>\<open>include/erofs/internal.h\<close>) with the block arithmetic
  macros and the device accessors built on both.

  A file is its contents together with the answers of the kernel: for each
  request at a position and of a length, the list of outcomes of the system calls the
  request loop will issue.  \<^verbatim>\<open>Xfer n\<close> transfers at most \<^verbatim>\<open>n\<close> bytes, \<^verbatim>\<open>Fail e\<close> sets
  \<^verbatim>\<open>errno\<close>; when the list is used up, every further call transfers all that it was asked
  for and that the file holds.  The replaceable operations of \<^verbatim>\<open>struct erofs_vfops\<close> are
  not modelled: this is the path with \<^verbatim>\<open>vf->ops == NULL\<close>.
\<close>

section \<open>Files and the request loops\<close>

datatype sysret = Xfer nat | Fail errno

record erofs_vfile =
  vf_bytes :: bytes
  vf_offset :: u64
  vf_dry_run :: bool
  vf_isblk :: bool
  vf_punch :: bool
  vf_ans :: "nat \<Rightarrow> nat \<Rightarrow> sysret list"

definition plain_file :: "bytes \<Rightarrow> erofs_vfile" where
  "plain_file bs = \<lparr>vf_bytes = bs, vf_offset = 0, vf_dry_run = False, vf_isblk = False,
     vf_punch = True, vf_ans = (\<lambda>_ _. [])\<rparr>"

text \<open>What one system call does with a request of \<^verbatim>\<open>len\<close> bytes, and the answers that are left.\<close>

fun sys_take :: "nat \<Rightarrow> sysret list \<Rightarrow> errno + nat" where
  "sys_take len [] = Inr len"
| "sys_take len (Xfer n # ans) = Inr (min n len)"
| "sys_take len (Fail e # ans) = Inl e"

text \<open>
  The loop of \<^verbatim>\<open>erofs_io_pread\<close>.  Each call asks for the original \<^verbatim>\<open>len\<close> bytes at the
  advanced \<^verbatim>\<open>buf\<close> and \<^verbatim>\<open>pos\<close>, as the source does, so a call may deliver more than
  the room that is left in the caller's buffer of \<^verbatim>\<open>len\<close> bytes.
\<close>

function pread_loop :: "bytes \<Rightarrow> nat \<Rightarrow> sysret list \<Rightarrow> nat \<Rightarrow> bytes \<Rightarrow> bytes result" where
  "pread_loop dat len ans pos acc =
     (case sys_take len ans of
        Inl e \<Rightarrow>
          if e = EINTR
          then if length acc < len then pread_loop dat len (tl ans) pos acc else Inr acc
          else Inl (Errno e)
      | Inr n \<Rightarrow>
          let got = take n (drop pos dat) in
          if got = [] then Inr acc
          else if len < length acc + length got then Inl OutOfBounds
          else if length acc + length got < len
               then pread_loop dat len (tl ans) (pos + length got) (acc @ got)
               else Inr (acc @ got))"
  by pat_completeness auto
termination
proof (relation "measures [\<lambda>(dat, len, ans, pos, acc). length ans, \<lambda>(dat, len, ans, pos, acc). len - length acc]",
    goal_cases)
  case 1
  then show ?case by simp
next
  case (2 dat len ans pos acc e)
  then show ?case by (cases ans) auto
next
  case (3 dat len ans pos acc n got)
  then show ?case by (cases ans) (auto simp: diff_less_mono2)
qed

declare pread_loop.simps [simp del]

definition erofs_io_pread :: "erofs_vfile \<Rightarrow> u64 \<Rightarrow> nat \<Rightarrow> bytes result" where
  "erofs_io_pread vf pos len =
     (if vf_dry_run vf then Inr []
      else pread_loop (vf_bytes vf) len (vf_ans vf (unat pos) len) (unat (pos + vf_offset vf)) [])"

text \<open>Storing \<^verbatim>\<open>bs\<close> at \<^verbatim>\<open>pos\<close>: a gap beyond the end of the file reads as zeroes.\<close>

definition fsplice :: "bytes \<Rightarrow> nat \<Rightarrow> bytes \<Rightarrow> bytes" where
  "fsplice dat pos bs =
     take pos (dat @ replicate (pos - length dat) 0) @ bs @ drop (pos + length bs) dat"

function pwrite_loop :: "bytes \<Rightarrow> bytes \<Rightarrow> sysret list \<Rightarrow> nat \<Rightarrow> nat \<Rightarrow> (bytes \<times> nat) result" where
  "pwrite_loop dat buf ans pos written =
     (case sys_take (length buf) ans of
        Inl e \<Rightarrow>
          if e = EINTR
          then if written < length buf then pwrite_loop dat buf (tl ans) pos written
               else Inr (dat, written)
          else Inl (Errno e)
      | Inr n \<Rightarrow>
          if n = 0 then Inr (dat, written)
          else if length buf < written + n then Inl OutOfBounds
          else let dat' = fsplice dat pos (take n (drop written buf)) in
               if written + n < length buf
               then pwrite_loop dat' buf (tl ans) (pos + n) (written + n)
               else Inr (dat', written + n))"
  by pat_completeness auto
termination
proof (relation "measures [\<lambda>(dat, buf, ans, pos, written). length ans, \<lambda>(dat, buf, ans, pos, written). length buf - written]",
    goal_cases)
  case 1
  then show ?case by simp
next
  case (2 dat buf ans pos written e)
  then show ?case by (cases ans) auto
next
  case (3 dat buf ans pos written n dat')
  then show ?case by (cases ans) auto
qed

declare pwrite_loop.simps [simp del]

definition erofs_io_pwrite :: "erofs_vfile \<Rightarrow> bytes \<Rightarrow> u64 \<Rightarrow> (erofs_vfile \<times> nat) result" where
  "erofs_io_pwrite vf buf pos =
     (if vf_dry_run vf then Inr (vf, 0)
      else bindR (pwrite_loop (vf_bytes vf) buf (vf_ans vf (unat pos) (length buf))
                    (unat (pos + vf_offset vf)) 0)
             (\<lambda>(dat, written). Inr (vf\<lparr>vf_bytes := dat\<rparr>, written)))"

text \<open>
  \<^verbatim>\<open>erofs_io_fallocate\<close>: a hole is punched when the caller allows it and the kernel can;
  otherwise zeroes are written block by block.  The loop does not advance when a write
  stores nothing, so it need not return.
\<close>

partial_function (option) fallocate_loop ::
    "erofs_vfile \<Rightarrow> u64 \<Rightarrow> nat \<Rightarrow> erofs_vfile result option" where
  "fallocate_loop vf offset len =
     (if EROFS_MAX_BLOCK_SIZE < len
      then (case erofs_io_pwrite vf (replicate EROFS_MAX_BLOCK_SIZE 0) offset of
              Inl e \<Rightarrow> Some (Inl e)
            | Inr r \<Rightarrow> fallocate_loop (fst r) (offset + of_nat (snd r)) (len - snd r))
      else Some (case erofs_io_pwrite vf (replicate len 0) offset of
              Inl e \<Rightarrow> Inl (toEIO e)
            | Inr r \<Rightarrow> if snd r = len then Inr (fst r) else Err EIO))"

definition erofs_io_fallocate ::
    "erofs_vfile \<Rightarrow> u64 \<Rightarrow> nat \<Rightarrow> bool \<Rightarrow> erofs_vfile result option" where
  "erofs_io_fallocate vf offset len zeroout =
     (if vf_dry_run vf then Some (Inr vf)
      else if \<not> zeroout \<and> vf_punch vf
      then let p = unat (offset + vf_offset vf); n = min len (length (vf_bytes vf) - p)
           in Some (Inr (vf\<lparr>vf_bytes := (if n = 0 then vf_bytes vf
                                       else fsplice (vf_bytes vf) p (replicate n 0))\<rparr>))
      else fallocate_loop vf offset len)"

definition erofs_io_ftruncate :: "erofs_vfile \<Rightarrow> u64 \<Rightarrow> erofs_vfile" where
  "erofs_io_ftruncate vf len =
     (let n = unat (len + vf_offset vf) in
      if vf_dry_run vf \<or> vf_isblk vf \<or> length (vf_bytes vf) = n then vf
      else vf\<lparr>vf_bytes := take n (vf_bytes vf @ replicate (n - length (vf_bytes vf)) 0)\<rparr>)"

subsection \<open>What the loops deliver\<close>

lemma pread_loop_full:
  "pread_loop dat len [] pos [] = Inr (take len (drop pos dat))"
proof (cases "length (take len (drop pos dat)) < len")
  case True
  define got where "got = take len (drop pos dat)"
  have e: "drop (pos + length got) dat = []" using True by (simp add: got_def min_def split: if_splits)
  have "pread_loop dat len [] (pos + length got) got = Inr got"
    by (subst pread_loop.simps) (simp add: e)
  then show ?thesis
    using True by (subst pread_loop.simps) (auto simp: Let_def got_def [symmetric])
next
  case False
  then show ?thesis by (subst pread_loop.simps) (auto simp: Let_def)
qed

lemma pread_loop_length:
  "pread_loop dat len ans pos acc = Inr r \<Longrightarrow> length acc \<le> len \<Longrightarrow> length r \<le> len"
proof (induction dat len ans pos acc rule: pread_loop.induct)
  case (1 dat len ans pos acc)
  then show ?case
    by (subst (asm) (2) pread_loop.simps) (auto simp: Let_def split: sum.splits if_splits)
qed

text \<open>
  A loop that ends has all the bytes there are, unless a call was answered with 0 before the end of
  the file.
\<close>

lemma sys_take_progress: "sys_take len ans = Inr 0 \<Longrightarrow> Xfer 0 \<notin> set ans \<Longrightarrow> len = 0"
  by (cases "(len, ans)" rule: sys_take.cases) (auto simp: min_def split: if_splits)

lemma pread_loop_exact:
  "pread_loop dat len ans pos acc = Inr r \<Longrightarrow> length acc \<le> len \<Longrightarrow> Xfer 0 \<notin> set ans \<Longrightarrow>
     r = acc @ take (len - length acc) (drop pos dat)"
proof (induction dat len ans pos acc rule: pread_loop.induct)
  case (1 dat len ans pos acc)
  have tl: "Xfer 0 \<notin> set (tl ans)" using 1(5) by (cases ans) auto
  show ?case
  proof (cases "sys_take len ans")
    case (Inl e)
    then show ?thesis
      using 1(1) [OF Inl _ _ _ _ tl] 1(3,4)
      by (subst (asm) (2) pread_loop.simps) (auto split: if_splits)
  next
    case (Inr n)
    define got where "got = take n (drop pos dat)"
    have g: "got = take (length got) (drop pos dat)" by (simp add: got_def min_def)
    have split: "take m (drop pos dat) = got @ take (m - length got) (drop (pos + length got) dat)"
      if "length got \<le> m" for m
    proof -
      have "take m (drop pos dat) = take (length got) (drop pos dat) @ take (m - length got) (drop (length got) (drop pos dat))"
        using that by (simp only: take_add [symmetric]) simp
      then show ?thesis using g by (simp add: add.commute)
    qed
    consider "got = []" | "got \<noteq> []" "length acc + length got < len" | "got \<noteq> []" "length acc + length got = len"
      using 1(3) Inr by (subst (asm) pread_loop.simps) (auto simp: Let_def got_def split: if_splits)
    then show ?thesis
    proof cases
      case a: 1
      then have "r = acc" using 1(3) Inr by (subst (asm) pread_loop.simps) (simp add: Let_def got_def)
      moreover have "len = 0 \<or> drop pos dat = []"
        using a sys_take_progress [of len ans] Inr 1(5) by (auto simp: got_def)
      ultimately show ?thesis by auto
    next
      case a: 2
      then have "pread_loop dat len (tl ans) (pos + length got) (acc @ got) = Inr r"
        using 1(3) Inr by (subst (asm) pread_loop.simps) (auto simp: Let_def got_def)
      then have "r = (acc @ got) @ take (len - length (acc @ got)) (drop (pos + length got) dat)"
        using 1(2) [OF Inr got_def] a tl by auto
      then show ?thesis using split [of "len - length acc"] a by simp
    next
      case a: 3
      then have "r = acc @ got" using 1(3) Inr by (subst (asm) pread_loop.simps) (auto simp: Let_def got_def)
      then show ?thesis using split [of "len - length acc"] a by simp
    qed
  qed
qed

lemma length_fsplice [simp]: "length (fsplice dat pos bs) = max (length dat) (pos + length bs)"
  by (auto simp: fsplice_def max_def min_def)

lemma fsplice_here: "take (length bs) (drop pos (fsplice dat pos bs)) = bs"
  by (simp add: fsplice_def min_def)

lemma nth_fsplice:
  "i < length (fsplice dat pos bs) \<Longrightarrow>
     fsplice dat pos bs ! i =
       (if pos \<le> i \<and> i < pos + length bs then bs ! (i - pos)
        else if i < length dat then dat ! i else 0)"
  by (auto simp: fsplice_def nth_append min_def)

lemma pwrite_loop_full:
  "pwrite_loop dat buf [] pos 0 =
     (if buf = [] then Inr (dat, 0) else Inr (fsplice dat pos buf, length buf))"
  by (subst pwrite_loop.simps) (auto simp: Let_def)

section \<open>The in-memory superblock\<close>

record erofs_sb_lz4_info =
  lz4_max_distance :: u16
  lz4_max_pclusterblks :: u16

record erofs_device_info =
  dif_tag :: bytes
  dif_blocks :: u32
  dif_mapped_blkaddr :: u32

text \<open>
  \<^verbatim>\<open>devt_slotoff\<close> and \<^verbatim>\<open>device_id_mask\<close> share their storage, here \<^verbatim>\<open>devt_u\<close>.  \<^verbatim>\<open>devs\<close> is
  \<^verbatim>\<open>None\<close> for the null pointer; \<^verbatim>\<open>xattr_prefixes\<close> holds the long prefixes read from the image;
  \<^verbatim>\<open>blobs\<close> are the files behind \<^verbatim>\<open>blobfd[0 .. nblobs)\<close>.
\<close>

record erofs_sb_info =
  lz4 :: erofs_sb_lz4_info
  devs :: "erofs_device_info list option"
  total_blocks :: u64
  primarydevice_blocks :: u64
  meta_blkaddr :: u32
  xattr_blkaddr :: u32
  feature_compat :: u32
  feature_incompat :: u32
  islotbits :: u8
  blkszbits :: u8
  sb_size :: u32
  build_time_nsec :: u32
  build_time :: u64
  root_nid :: u64
  inos :: u64
  uuid :: bytes
  volume_name :: bytes
  checksum :: u32
  available_compr_algs :: u16
  extra_devices :: u16
  devt_u :: u16
  packed_nid :: u64
  xattr_prefix_start :: u32
  xattr_prefix_count :: u8
  xattr_prefixes :: "bytes list option"
  bdev :: erofs_vfile
  blobs :: "erofs_vfile list"

text \<open>The zero-initialised global \<^verbatim>\<open>g_sbi\<close> over an opened image.\<close>

definition zero_sbi :: "erofs_vfile \<Rightarrow> erofs_sb_info" where
  "zero_sbi vf =
     \<lparr>lz4 = \<lparr>lz4_max_distance = 0, lz4_max_pclusterblks = 0\<rparr>, devs = None, total_blocks = 0,
      primarydevice_blocks = 0, meta_blkaddr = 0, xattr_blkaddr = 0, feature_compat = 0,
      feature_incompat = 0, islotbits = 0, blkszbits = 0, sb_size = 0, build_time_nsec = 0,
      build_time = 0, root_nid = 0, inos = 0, uuid = replicate 16 0, volume_name = replicate 16 0,
      checksum = 0, available_compr_algs = 0, extra_devices = 0, devt_u = 0, packed_nid = 0,
      xattr_prefix_start = 0, xattr_prefix_count = 0, xattr_prefixes = None, bdev = vf, blobs = []\<rparr>"

lemma bdev_zero_sbi [simp]: "bdev (zero_sbi vf) = vf"
  by (simp add: zero_sbi_def)

abbreviation device_id_mask :: "erofs_sb_info \<Rightarrow> u16" where "device_id_mask \<equiv> devt_u"
abbreviation devt_slotoff :: "erofs_sb_info \<Rightarrow> u16" where "devt_slotoff \<equiv> devt_u"

definition has_feature :: "u32 \<Rightarrow> u32 \<Rightarrow> bool" where
  "has_feature f m \<longleftrightarrow> f AND m \<noteq> 0"

definition set_feature :: "u32 \<Rightarrow> u32 \<Rightarrow> u32" where
  "set_feature f m = f OR m"

definition clear_feature :: "u32 \<Rightarrow> u32 \<Rightarrow> u32" where
  "clear_feature f m = f AND NOT m"

definition erofs_sb_has_lz4_0padding :: "erofs_sb_info \<Rightarrow> bool" where
  "erofs_sb_has_lz4_0padding sbi = has_feature (feature_incompat sbi) EROFS_FEATURE_INCOMPAT_ZERO_PADDING"
definition erofs_sb_has_compr_cfgs :: "erofs_sb_info \<Rightarrow> bool" where
  "erofs_sb_has_compr_cfgs sbi = has_feature (feature_incompat sbi) EROFS_FEATURE_INCOMPAT_COMPR_CFGS"
definition erofs_sb_has_big_pcluster :: "erofs_sb_info \<Rightarrow> bool" where
  "erofs_sb_has_big_pcluster sbi = has_feature (feature_incompat sbi) EROFS_FEATURE_INCOMPAT_BIG_PCLUSTER"
definition erofs_sb_has_device_table :: "erofs_sb_info \<Rightarrow> bool" where
  "erofs_sb_has_device_table sbi = has_feature (feature_incompat sbi) EROFS_FEATURE_INCOMPAT_DEVICE_TABLE"
definition erofs_sb_has_ztailpacking :: "erofs_sb_info \<Rightarrow> bool" where
  "erofs_sb_has_ztailpacking sbi = has_feature (feature_incompat sbi) EROFS_FEATURE_INCOMPAT_ZTAILPACKING"
definition erofs_sb_has_fragments :: "erofs_sb_info \<Rightarrow> bool" where
  "erofs_sb_has_fragments sbi = has_feature (feature_incompat sbi) EROFS_FEATURE_INCOMPAT_FRAGMENTS"
definition erofs_sb_has_xattr_prefixes :: "erofs_sb_info \<Rightarrow> bool" where
  "erofs_sb_has_xattr_prefixes sbi = has_feature (feature_incompat sbi) EROFS_FEATURE_INCOMPAT_XATTR_PREFIXES"
definition erofs_sb_has_sb_chksum :: "erofs_sb_info \<Rightarrow> bool" where
  "erofs_sb_has_sb_chksum sbi = has_feature (feature_compat sbi) EROFS_FEATURE_COMPAT_SB_CHKSUM"

lemma has_set_feature: "m \<noteq> 0 \<Longrightarrow> has_feature (set_feature f m) m"
  by (simp add: has_feature_def set_feature_def bit.conj_disj_distrib2 bit.disj_conj_distrib)

lemma has_clear_feature: "\<not> has_feature (clear_feature f m) m"
  by (simp add: has_feature_def clear_feature_def and.assoc)

section \<open>Block arithmetic\<close>

abbreviation blkbits :: "erofs_sb_info \<Rightarrow> nat" where
  "blkbits sbi \<equiv> unat (blkszbits sbi)"

definition erofs_blksiz :: "erofs_sb_info \<Rightarrow> u32" where
  "erofs_blksiz sbi = push_bit (blkbits sbi) 1"

definition erofs_blknr :: "erofs_sb_info \<Rightarrow> 'a::len word \<Rightarrow> 'a word" where
  "erofs_blknr sbi addr = drop_bit (blkbits sbi) addr"

definition erofs_blkoff :: "erofs_sb_info \<Rightarrow> 'a::len word \<Rightarrow> 'a word" where
  "erofs_blkoff sbi addr = addr AND ucast (erofs_blksiz sbi - 1)"

definition erofs_pos :: "erofs_sb_info \<Rightarrow> 'a::len word \<Rightarrow> u64" where
  "erofs_pos sbi nr = push_bit (blkbits sbi) (ucast nr)"

definition BLK_ROUND_UP :: "erofs_sb_info \<Rightarrow> u64 \<Rightarrow> u64" where
  "BLK_ROUND_UP sbi addr = drop_bit (blkbits sbi) (roundup addr (ucast (erofs_blksiz sbi)))"

text \<open>The block sizes the tools accept: 512 to 4096 bytes (\<^verbatim>\<open>EROFS_MAX_BLOCK_SIZE\<close>).\<close>

definition valid_blkszbits :: "erofs_sb_info \<Rightarrow> bool" where
  "valid_blkszbits sbi \<longleftrightarrow> 9 \<le> blkbits sbi \<and> blkbits sbi \<le> 12"

lemma unat_erofs_blksiz [erofs_arith]: "blkbits sbi < 32 \<Longrightarrow> unat (erofs_blksiz sbi) = 2 ^ blkbits sbi"
  unfolding erofs_blksiz_def
  by (simp only: unsigned_push_bit_eq) (simp add: push_bit_eq_mult take_bit_nat_eq_self)

lemma erofs_blkoff_take_bit:
  assumes "blkbits sbi < 32"
  shows "erofs_blkoff sbi addr = take_bit (blkbits sbi) addr"
proof (rule bit_word_eqI)
  fix i assume "i < LENGTH('a)"
  have m: "erofs_blksiz sbi - 1 = mask (blkbits sbi)"
    by (simp add: erofs_blksiz_def mask_eq_exp_minus_1 push_bit_eq_mult)
  show "bit (erofs_blkoff sbi addr) i = bit (take_bit (blkbits sbi) addr) i"
    using assms \<open>i < LENGTH('a)\<close>
    by (auto simp: erofs_blkoff_def m bit_and_iff bit_ucast_iff bit_mask_iff bit_take_bit_iff)
qed

lemma unat_erofs_blkoff [erofs_arith]:
  "blkbits sbi < 32 \<Longrightarrow> unat (erofs_blkoff sbi addr) = unat addr mod 2 ^ blkbits sbi"
  by (simp only: erofs_blkoff_take_bit unsigned_take_bit_eq) (simp only: take_bit_eq_mod)

lemma unat_erofs_blknr [erofs_arith]: "unat (erofs_blknr sbi addr) = unat addr div 2 ^ blkbits sbi"
  by (simp only: erofs_blknr_def unat_drop_bit_eq) (simp only: drop_bit_eq_div)

lemma unat_erofs_pos [erofs_arith]:
  fixes nr :: "'a::len word"
  assumes "LENGTH('a) \<le> 64" and "unat nr * 2 ^ blkbits sbi < 2 ^ 64"
  shows "unat (erofs_pos sbi nr) = unat nr * 2 ^ blkbits sbi"
proof -
  have "unat (erofs_pos sbi nr) = take_bit 64 (push_bit (blkbits sbi) (unat (ucast nr :: u64)))"
    unfolding erofs_pos_def by (simp only: unsigned_push_bit_eq) simp
  then show ?thesis
    using assms by (simp add: unat_ucast_up push_bit_eq_mult take_bit_nat_eq_self)
qed

lemma unat_erofs_pos32 [erofs_arith]:
  fixes nr :: u32
  assumes "blkbits sbi \<le> 32"
  shows "unat (erofs_pos sbi nr) = unat nr * 2 ^ blkbits sbi"
proof (rule unat_erofs_pos)
  have "unat nr * 2 ^ blkbits sbi \<le> unat nr * 2 ^ 32"
    using assms by (intro mult_left_mono power_increasing) auto
  also have "\<dots> < 2 ^ 32 * 2 ^ 32" using unsigned_less [of nr] by simp
  finally show "unat nr * 2 ^ blkbits sbi < 2 ^ 64" by simp
qed simp

lemma unat_BLK_ROUND_UP [erofs_arith]:
  assumes b: "blkbits sbi < 32" and a: "unat addr + 2 ^ blkbits sbi \<le> 2 ^ 64"
  shows "unat (BLK_ROUND_UP sbi addr) = (unat addr + 2 ^ blkbits sbi - 1) div 2 ^ blkbits sbi"
proof -
  have z: "unat (ucast (erofs_blksiz sbi) :: u64) = 2 ^ blkbits sbi"
    using b by (simp add: unat_ucast_up unat_erofs_blksiz)
  have "unat (roundup addr (ucast (erofs_blksiz sbi))) =
          (unat addr + 2 ^ blkbits sbi - 1) div 2 ^ blkbits sbi * 2 ^ blkbits sbi"
    using a by (subst unat_roundup) (simp_all add: z)
  then show ?thesis
    by (simp only: BLK_ROUND_UP_def unat_drop_bit_eq) (simp add: drop_bit_eq_div)
qed

section \<open>Device accessors\<close>

definition erofs_dev_read :: "erofs_sb_info \<Rightarrow> nat \<Rightarrow> u64 \<Rightarrow> nat \<Rightarrow> bytes result" where
  "erofs_dev_read sbi device_id offset len =
     bindR (if device_id \<noteq> 0
            then if length (blobs sbi) < device_id then Err EIO
                 else erofs_io_pread (blobs sbi ! (device_id - 1)) offset len
            else erofs_io_pread (bdev sbi) offset len)
       (\<lambda>buf. Inr (buf @ replicate (len - length buf) 0))"

definition erofs_dev_write :: "erofs_sb_info \<Rightarrow> bytes \<Rightarrow> u64 \<Rightarrow> erofs_sb_info result" where
  "erofs_dev_write sbi buf offset =
     (case erofs_io_pwrite (bdev sbi) buf offset of
        Inl e \<Rightarrow> Inl (toEIO e)
      | Inr r \<Rightarrow> if snd r \<noteq> length buf then Err EIO else Inr (sbi\<lparr>bdev := fst r\<rparr>))"

definition erofs_dev_resize :: "erofs_sb_info \<Rightarrow> u32 \<Rightarrow> erofs_sb_info" where
  "erofs_dev_resize sbi nblks =
     sbi\<lparr>bdev := erofs_io_ftruncate (bdev sbi) (ucast nblks * ucast (erofs_blksiz sbi))\<rparr>"

definition erofs_blk_write :: "erofs_sb_info \<Rightarrow> bytes \<Rightarrow> u32 \<Rightarrow> u32 \<Rightarrow> erofs_sb_info result" where
  "erofs_blk_write sbi buf blkaddr nblocks =
     bindR (slice buf 0 (unat (erofs_pos sbi nblocks)))
       (\<lambda>b. erofs_dev_write sbi b (erofs_pos sbi blkaddr))"

definition erofs_blk_read :: "erofs_sb_info \<Rightarrow> nat \<Rightarrow> u32 \<Rightarrow> u32 \<Rightarrow> bytes result" where
  "erofs_blk_read sbi device_id start nblocks =
     erofs_dev_read sbi device_id (erofs_pos sbi start) (unat (erofs_pos sbi nblocks))"

text \<open>\<^verbatim>\<open>zread\<close>: the bytes of an image at a position, with zeroes after its end.\<close>

definition zread :: "bytes \<Rightarrow> nat \<Rightarrow> nat \<Rightarrow> bytes" where
  "zread dat pos len = take len (drop pos dat @ replicate len 0)"

lemma length_zread [simp]: "length (zread dat pos len) = len"
  by (simp add: zread_def)

lemma nth_zread: "i < len \<Longrightarrow> zread dat pos len ! i = (if pos + i < length dat then dat ! (pos + i) else 0)"
  by (auto simp: zread_def nth_append)

lemma zread_sub: "k + m \<le> n \<Longrightarrow> take m (drop k (zread dat pos n)) = zread dat (pos + k) m"
  by (rule nth_equalityI) (auto simp: nth_zread add.assoc)

lemma zread_inside: "pos + len \<le> length dat \<Longrightarrow> zread dat pos len = take len (drop pos dat)"
  by (simp add: zread_def)

lemma zread_append_zread: "zread dat pos m @ zread dat (pos + m) n = zread dat pos (m + n)"
  by (rule nth_equalityI) (auto simp: nth_zread nth_append)

text \<open>A device that answers every request in one piece.\<close>

definition quiet :: "erofs_vfile \<Rightarrow> bool" where
  "quiet vf \<longleftrightarrow> vf_offset vf = 0 \<and> \<not> vf_dry_run vf \<and> (\<forall>p n. vf_ans vf p n = [])"

lemma quiet_plain_file [simp]: "quiet (plain_file bs)"
  by (simp add: quiet_def plain_file_def)

lemma vf_bytes_plain_file [simp]: "vf_bytes (plain_file bs) = bs"
  by (simp add: plain_file_def)

lemma erofs_dev_read_quiet:
  "quiet (bdev sbi) \<Longrightarrow> erofs_dev_read sbi 0 off len = Inr (zread (vf_bytes (bdev sbi)) (unat off) len)"
  by (auto simp: erofs_dev_read_def erofs_io_pread_def quiet_def pread_loop_full zread_def min_def)

lemma erofs_dev_read_length: "erofs_dev_read sbi d off len = Inr buf \<Longrightarrow> length buf = len"
  by (auto simp: erofs_dev_read_def erofs_io_pread_def split: if_splits dest!: pread_loop_length)

lemma erofs_dev_write_quiet:
  "quiet (bdev sbi) \<Longrightarrow> buf \<noteq> [] \<Longrightarrow>
     erofs_dev_write sbi buf off =
       Inr (sbi\<lparr>bdev := (bdev sbi)\<lparr>vf_bytes := fsplice (vf_bytes (bdev sbi)) (unat off) buf\<rparr>\<rparr>)"
  by (simp add: erofs_dev_write_def erofs_io_pwrite_def quiet_def pwrite_loop_full)

lemma quiet_write [simp]: "quiet (vf\<lparr>vf_bytes := b\<rparr>) = quiet vf"
  by (simp add: quiet_def)

lemma zread_fsplice_same: "length bs = n \<Longrightarrow> zread (fsplice dat pos bs) pos n = bs"
  by (rule nth_equalityI) (auto simp: nth_zread nth_fsplice)

lemma zread_fsplice_other:
  "p + n \<le> pos \<or> pos + length bs \<le> p \<Longrightarrow> zread (fsplice dat pos bs) p n = zread dat p n"
  by (rule nth_equalityI) (auto simp: nth_zread nth_fsplice)

section \<open>Properties of the device layer\<close>

text \<open>
  C14. A successful \<^verbatim>\<open>erofs_dev_read\<close> of the image or of an extra device has delivered every requested byte that
  the file has, in order, and zeroes for those beyond its end.  The kernel may cut calls short and interrupt them;
  it only must not answer 0 before the end of the file, which \<^verbatim>\<open>pread\<close> reserves for the end.
\<close>

theorem dev_read_exact:
  assumes "erofs_dev_read sbi d off len = Inr buf"
    and "vf = (if d = 0 then bdev sbi else blobs sbi ! (d - 1))"
    and "\<not> vf_dry_run vf" and "Xfer 0 \<notin> set (vf_ans vf (unat off) len)"
  shows "buf = zread (vf_bytes vf) (unat (off + vf_offset vf)) len"
proof -
  obtain r where r: "pread_loop (vf_bytes vf) len (vf_ans vf (unat off) len) (unat (off + vf_offset vf)) [] = Inr r"
      and buf: "buf = r @ replicate (len - length r) 0"
    using assms(1-3) by (auto simp: erofs_dev_read_def erofs_io_pread_def split: if_splits)
  then show ?thesis
    using pread_loop_exact [OF r _ assms(4)] by (auto simp: zread_def min_def)
qed

definition short_read_file :: erofs_vfile where
  "short_read_file = (plain_file [5, 6, 7])\<lparr>vf_ans := (\<lambda>_ _. [Fail EINTR, Xfer 1])\<rparr>"

lemma short_read_loop: "pread_loop [5, 6, 7] 4 [Fail EINTR, Xfer 1] 1 [] = Inr [6, 7]"
  by (simp add: pread_loop.simps Let_def)

theorem dev_read_exact_witness:
  "erofs_dev_read (zero_sbi short_read_file) 0 1 4 = Inr [6, 7, 0, 0] \<and> [6, 7, 0, 0] = zread [5, 6, 7] 1 4"
proof -
  have r: "erofs_dev_read (zero_sbi short_read_file) 0 1 4 = Inr [6, 7, 0, 0]"
    by (simp add: erofs_dev_read_def erofs_io_pread_def zero_sbi_def short_read_file_def plain_file_def
        short_read_loop [simplified]) (simp add: numeral_eq_Suc)
  show ?thesis
    using r dev_read_exact [OF r refl] by (simp add: zero_sbi_def short_read_file_def plain_file_def)
qed

text \<open>
  C19. After a transfer that was cut short, the request loops ask for the full length again at the advanced
  position: \<^verbatim>\<open>erofs_io_pread\<close> then stores past the end of the caller's buffer if the file has the bytes, and
  \<^verbatim>\<open>erofs_io_pwrite\<close> always reads past the end of it.
\<close>

theorem partial_transfer_overruns:
  assumes "0 < n" and "n < len" and "pos + n + len \<le> length dat" and "length buf = len"
  shows "pread_loop dat len [Xfer n] pos [] = Inl OutOfBounds \<and> pwrite_loop dat buf [Xfer n] pos 0 = Inl OutOfBounds"
proof -
  have l: "length (take n (drop pos dat)) = n" using assms(3) by simp
  have ne: "take n (drop pos dat) \<noteq> []" "take len (drop (pos + n) dat) \<noteq> []" using assms by auto
  have "pread_loop dat len [Xfer n] pos [] = pread_loop dat len [] (pos + n) (take n (drop pos dat))"
    using assms l ne by (subst pread_loop.simps) (simp add: Let_def min_def)
  also have "\<dots> = Inl OutOfBounds"
    using assms l ne by (subst pread_loop.simps) (simp add: Let_def)
  finally have "pread_loop dat len [Xfer n] pos [] = Inl OutOfBounds" .
  moreover have "pwrite_loop dat buf [Xfer n] pos 0 = pwrite_loop (fsplice dat pos (take n buf)) buf [] (pos + n) n"
    using assms by (subst pwrite_loop.simps) (simp add: Let_def min_def)
  then have "pwrite_loop dat buf [Xfer n] pos 0 = Inl OutOfBounds"
    using assms by (simp add: pwrite_loop.simps [of _ _ "[]"])
  ultimately show ?thesis by simp
qed

theorem partial_transfer_overruns_witness:
  "pread_loop [1, 2, 3, 4, 5] 2 [Xfer 1] 0 [] = Inl OutOfBounds \<and> pwrite_loop [1, 2, 3, 4, 5] [8, 9] [Xfer 1] 0 0 = Inl OutOfBounds"
  using partial_transfer_overruns [of 1 2 0 "[1, 2, 3, 4, 5]" "[8, 9]"] by simp

lemma fsplice_append: "fsplice (fsplice dat pos a) (pos + length a) b = fsplice dat pos (a @ b)"
  by (rule nth_equalityI) (auto simp: nth_fsplice nth_append)

lemma pwrite_quiet:
  "quiet vf \<Longrightarrow> erofs_io_pwrite vf buf pos =
     Inr (if buf = [] then vf else vf\<lparr>vf_bytes := fsplice (vf_bytes vf) (unat pos) buf\<rparr>, length buf)"
  by (simp add: erofs_io_pwrite_def quiet_def pwrite_loop_full)

lemma fallocate_quiet:
  assumes "quiet vf" and "0 < len" and "unat off + len < 2 ^ 64"
  shows "fallocate_loop vf off len = Some (Inr (vf\<lparr>vf_bytes := fsplice (vf_bytes vf) (unat off) (replicate len 0)\<rparr>))"
  using assms
proof (induction len arbitrary: vf off rule: less_induct)
  case (less len)
  show ?case
  proof (cases "EROFS_MAX_BLOCK_SIZE < len")
    case True
    let ?vf = "vf\<lparr>vf_bytes := fsplice (vf_bytes vf) (unat off) (replicate EROFS_MAX_BLOCK_SIZE 0)\<rparr>"
    let ?off = "off + of_nat EROFS_MAX_BLOCK_SIZE" and ?len = "len - EROFS_MAX_BLOCK_SIZE"
    have o: "unat ?off = unat off + EROFS_MAX_BLOCK_SIZE"
      using less.prems(3) True by (simp add: unat_word_ariths)
    have "fallocate_loop vf off len = fallocate_loop ?vf ?off ?len"
      using True by (subst fallocate_loop.simps) (simp add: pwrite_quiet [OF less.prems(1)])
    also have "\<dots> = Some (Inr (?vf\<lparr>vf_bytes := fsplice (vf_bytes ?vf) (unat ?off) (replicate ?len 0)\<rparr>))"
      using less.prems True o by (intro less.IH) simp_all
    finally show ?thesis
      using fsplice_append [of "vf_bytes vf" "unat off" "replicate EROFS_MAX_BLOCK_SIZE 0" "replicate ?len 0"] True o
      by (simp add: replicate_add [symmetric])
  next
    case False
    then show ?thesis
      using less.prems(2) by (subst fallocate_loop.simps) (simp add: pwrite_quiet [OF less.prems(1)])
  qed
qed


text \<open>
  C18. On a device that takes every write in one piece \<^verbatim>\<open>erofs_io_fallocate\<close> returns, with the range zeroed and every
  other byte as it was.
\<close>

theorem fallocate_zeroes:
  assumes "quiet vf" and "0 < len" and "unat off + len < 2 ^ 64"
  shows "\<exists>vf'. erofs_io_fallocate vf off len True = Some (Inr vf') \<and> zread (vf_bytes vf') (unat off) len = replicate len 0 \<and>
    (\<forall>p n. p + n \<le> unat off \<or> unat off + len \<le> p \<longrightarrow> zread (vf_bytes vf') p n = zread (vf_bytes vf) p n)"
proof -
  have "\<not> vf_dry_run vf" using assms(1) by (simp add: quiet_def)
  then show ?thesis
    using fallocate_quiet [OF assms] by (auto simp: erofs_io_fallocate_def zread_fsplice_same zread_fsplice_other)
qed

theorem fallocate_zeroes_witness:
  "\<exists>vf'. erofs_io_fallocate (plain_file [1, 2, 3, 4]) 1 2 True = Some (Inr vf') \<and> zread (vf_bytes vf') 3 1 = [4]"
proof -
  have z: "zread [1, 2, 3, 4 :: u8] 3 1 = [4]" by (simp add: zread_def)
  obtain vf' where "erofs_io_fallocate (plain_file [1, 2, 3, 4]) 1 2 True = Some (Inr vf')"
      and "\<forall>p n. p + n \<le> 1 \<or> 3 \<le> p \<longrightarrow> zread (vf_bytes vf') p n = zread [1, 2, 3, 4] p n"
    using fallocate_zeroes [of "plain_file [1, 2, 3, 4]" 2 1] by auto
  then show ?thesis using z by (metis order_refl)
qed

lemma fallocate_stuck:
  "fallocate_loop vf off len = Some r \<Longrightarrow> EROFS_MAX_BLOCK_SIZE < len \<Longrightarrow> \<not> vf_dry_run vf \<Longrightarrow>
     (\<And>p k. vf_ans vf p k = [Xfer 0]) \<Longrightarrow> False"
proof (induction rule: fallocate_loop.raw_induct [rotated, consumes 1, case_names step])
  case (step f vf off len r)
  have "erofs_io_pwrite vf (replicate EROFS_MAX_BLOCK_SIZE 0) off = Inr (vf, 0)"
    using step.prems by (simp add: erofs_io_pwrite_def pwrite_loop.simps)
  then have "f vf off len = Some r" using step.hyps step.prems(1) by simp
  then show ?case using step.IH step.prems by blast
qed

text \<open>
  C20. If every write stores nothing, as on a full device that reports no error, the loop of
  \<^verbatim>\<open>erofs_io_fallocate\<close> never returns for a range of more than one block.
\<close>

theorem fallocate_may_hang:
  assumes "EROFS_MAX_BLOCK_SIZE < len" and "\<not> vf_dry_run vf" and "\<And>p k. vf_ans vf p k = [Xfer 0]"
  shows "erofs_io_fallocate vf off len True = None"
proof (cases "fallocate_loop vf off len")
  case None
  then show ?thesis using assms(2) by (simp add: erofs_io_fallocate_def)
next
  case (Some r)
  then show ?thesis using fallocate_stuck [OF Some] assms by blast
qed

theorem fallocate_may_hang_witness:
  "erofs_io_fallocate ((plain_file [])\<lparr>vf_ans := \<lambda>_ _. [Xfer 0]\<rparr>) 0 5000 True = None"
  by (rule fallocate_may_hang) (simp_all add: plain_file_def)

end
