(* ===== verification/Erofs_Inode.thy ===== *)
theory Erofs_Inode
  imports Erofs_Io
begin

text \<open>
  In-memory inodes (\<^verbatim>\<open>struct erofs_inode\<close>), reading one from the image
  (\<^verbatim>\<open>erofs_read_inode_from_disk\<close> of \<^verbatim>\<open>lib/namei.c\<close>) and writing one
  (\<^verbatim>\<open>erofs_iflush\<close> of \<^verbatim>\<open>lib/inode.c\<close>), and the choice between the two on-disk forms.
\<close>

section \<open>File modes and device numbers\<close>

abbreviation (input) S_IFMT :: u16 where "S_IFMT \<equiv> 0xF000"
abbreviation (input) S_IFSOCK :: u16 where "S_IFSOCK \<equiv> 0xC000"
abbreviation (input) S_IFLNK :: u16 where "S_IFLNK \<equiv> 0xA000"
abbreviation (input) S_IFREG :: u16 where "S_IFREG \<equiv> 0x8000"
abbreviation (input) S_IFBLK :: u16 where "S_IFBLK \<equiv> 0x6000"
abbreviation (input) S_IFDIR :: u16 where "S_IFDIR \<equiv> 0x4000"
abbreviation (input) S_IFCHR :: u16 where "S_IFCHR \<equiv> 0x2000"
abbreviation (input) S_IFIFO :: u16 where "S_IFIFO \<equiv> 0x1000"

text \<open>
  The three classes of mode the switch statements of the source tell apart; a mode with
  any other type bits has none.
\<close>

datatype imode_class = ModeData | ModeDev | ModeSpecial

definition imode_class :: "u16 \<Rightarrow> imode_class option" where
  "imode_class m =
     (let t = m AND S_IFMT in
      if t = S_IFREG \<or> t = S_IFDIR \<or> t = S_IFLNK then Some ModeData
      else if t = S_IFCHR \<or> t = S_IFBLK then Some ModeDev
      else if t = S_IFIFO \<or> t = S_IFSOCK then Some ModeSpecial
      else None)"

definition S_ISDIR :: "u16 \<Rightarrow> bool" where
  "S_ISDIR m \<longleftrightarrow> m AND S_IFMT = S_IFDIR"

text \<open>The table \<^verbatim>\<open>erofs_ftype_by_mode\<close> has \<^verbatim>\<open>S_IFMT >> S_SHIFT\<close> = 15 entries, zero where not initialised.\<close>

definition erofs_mode_to_ftype :: "u16 \<Rightarrow> u8 result" where
  "erofs_mode_to_ftype mode =
     (let t = mode AND S_IFMT in
      if t = S_IFREG then Inr EROFS_FT_REG_FILE
      else if t = S_IFDIR then Inr EROFS_FT_DIR
      else if t = S_IFCHR then Inr EROFS_FT_CHRDEV
      else if t = S_IFBLK then Inr EROFS_FT_BLKDEV
      else if t = S_IFIFO then Inr EROFS_FT_FIFO
      else if t = S_IFSOCK then Inr EROFS_FT_SOCK
      else if t = S_IFLNK then Inr EROFS_FT_SYMLINK
      else if t = S_IFMT then Inl OutOfBounds
      else Inr EROFS_FT_UNKNOWN)"

definition erofs_dtype_by_umode :: "u16 list" where
  "erofs_dtype_by_umode =
     [S_IFMT, S_IFREG, S_IFDIR, S_IFCHR, S_IFBLK, S_IFIFO, S_IFSOCK, S_IFLNK]"

definition erofs_ftype_to_mode :: "u32 \<Rightarrow> u16 \<Rightarrow> u16" where
  "erofs_ftype_to_mode ftype perm =
     (let f = (if ucast EROFS_FT_MAX \<le> ftype then 0 else ftype)
      in erofs_dtype_by_umode ! unat f OR perm)"

text \<open>
  \<^verbatim>\<open>makedev\<close>, \<^verbatim>\<open>major\<close> and \<^verbatim>\<open>minor\<close> of the C library on its 64-bit \<^verbatim>\<open>dev_t\<close>.
\<close>

definition makedev :: "u32 \<Rightarrow> u32 \<Rightarrow> u64" where
  "makedev ma mi =
     push_bit 8 (ucast ma AND 0xfff) OR push_bit 32 (ucast ma AND 0xfffff000) OR
     (ucast mi AND 0xff) OR push_bit 12 (ucast mi AND 0xffffff00)"

definition major :: "u64 \<Rightarrow> u32" where
  "major d = ucast ((drop_bit 8 d AND 0xfff) OR (drop_bit 32 d AND 0xfffff000))"

definition minor :: "u64 \<Rightarrow> u32" where
  "minor d = ucast ((d AND 0xff) OR (drop_bit 12 d AND 0xffffff00))"

definition erofs_new_decode_dev :: "u32 \<Rightarrow> u64" where
  "erofs_new_decode_dev dev =
     makedev (drop_bit 8 (dev AND 0xfff00)) ((dev AND 0xff) OR (drop_bit 12 dev AND 0xfff00))"

definition erofs_new_encode_dev :: "u64 \<Rightarrow> u32" where
  "erofs_new_encode_dev dev =
     (let ma = major dev; mi = minor dev
      in (mi AND 0xff) OR push_bit 8 ma OR push_bit 12 (mi AND NOT 0xff))"

section \<open>Inodes\<close>

text \<open>
  The members used below.  \<^verbatim>\<open>i_u\<close> is the word shared by \<^verbatim>\<open>i_blkaddr\<close>, \<^verbatim>\<open>i_blocks\<close> and
  \<^verbatim>\<open>i_rdev\<close>; the chunk members of that union are kept apart, since an inode uses them only when
  it is chunk-based and the others only when it is not.  \<^verbatim>\<open>z_u\<close> is the 64-bit word shared by
  \<^verbatim>\<open>fragmentoff\<close> and the 32-bit \<^verbatim>\<open>z_idataoff\<close>.
\<close>

record erofs_inode =
  nid :: u64
  flags :: u32
  i_mode :: u16
  i_size :: u64
  i_ino :: u64
  i_uid :: u32
  i_gid :: u32
  i_mtime :: u64
  i_mtime_nsec :: u32
  i_nlink :: u32
  i_u :: u32
  chunkformat :: u16
  chunkbits :: u8
  datalayout :: datalayout
  inode_isize :: u8
  idata_size :: u16
  xattr_isize :: u32
  extent_isize :: u32
  z_advise :: u16
  z_algorithmtype0 :: u8
  z_algorithmtype1 :: u8
  z_logical_clusterbits :: u8
  z_tailextent_headlcn :: u64
  z_u :: u64

abbreviation fragmentoff :: "erofs_inode \<Rightarrow> u64" where "fragmentoff \<equiv> z_u"

definition z_idataoff :: "erofs_inode \<Rightarrow> u32" where
  "z_idataoff vi = ucast (z_u vi)"

definition set_z_idataoff :: "u32 \<Rightarrow> erofs_inode \<Rightarrow> erofs_inode" where
  "set_z_idataoff v vi = vi\<lparr>z_u := (z_u vi AND NOT (mask 32)) OR ucast v\<rparr>"

abbreviation (input) EROFS_I_EA_INITED :: u32 where "EROFS_I_EA_INITED \<equiv> 0x1"
abbreviation (input) EROFS_I_Z_INITED :: u32 where "EROFS_I_Z_INITED \<equiv> 0x2"
abbreviation (input) EROFS_ISLOTBITS :: u8 where "EROFS_ISLOTBITS \<equiv> 5"

text \<open>\<^verbatim>\<open>struct erofs_inode vi = { .nid = nid }\<close>: every other member is zero.\<close>

definition zero_inode :: "u64 \<Rightarrow> erofs_inode" where
  "zero_inode n =
     \<lparr>nid = n, flags = 0, i_mode = 0, i_size = 0, i_ino = 0, i_uid = 0, i_gid = 0, i_mtime = 0,
      i_mtime_nsec = 0, i_nlink = 0, i_u = 0, chunkformat = 0, chunkbits = 0,
      datalayout = EROFS_INODE_FLAT_PLAIN, inode_isize = 0, idata_size = 0, xattr_isize = 0,
      extent_isize = 0, z_advise = 0, z_algorithmtype0 = 0, z_algorithmtype1 = 0,
      z_logical_clusterbits = 0, z_tailextent_headlcn = 0, z_u = 0\<rparr>"

definition erofs_iloc :: "erofs_sb_info \<Rightarrow> erofs_inode \<Rightarrow> u64" where
  "erofs_iloc sbi vi = erofs_pos sbi (meta_blkaddr sbi) + push_bit (unat (islotbits sbi)) (nid vi)"

definition z_erofs_fill_inode :: "erofs_sb_info \<Rightarrow> erofs_inode \<Rightarrow> erofs_inode" where
  "z_erofs_fill_inode sbi vi =
     (if \<not> erofs_sb_has_big_pcluster sbi \<and> \<not> erofs_sb_has_ztailpacking sbi \<and>
         \<not> erofs_sb_has_fragments sbi \<and> datalayout vi = EROFS_INODE_COMPRESSED_FULL
      then vi\<lparr>z_advise := 0, z_algorithmtype0 := 0, z_algorithmtype1 := 0,
              z_logical_clusterbits := blkszbits sbi, flags := flags vi OR EROFS_I_Z_INITED\<rparr>
      else vi)"

text \<open>The two branches of the version switch, each with its switch on the file type.\<close>

definition read_i_u :: "u16 \<Rightarrow> u32 \<Rightarrow> u32 result" where
  "read_i_u mode raw =
     (case imode_class mode of
        Some ModeData \<Rightarrow> Inr raw
      | Some ModeDev \<Rightarrow> Inr (ucast (erofs_new_decode_dev raw))
      | Some ModeSpecial \<Rightarrow> Inr 0
      | None \<Rightarrow> Err EFSCORRUPTED)"

definition fill_extended :: "erofs_inode_extended \<Rightarrow> erofs_inode \<Rightarrow> erofs_inode result" where
  "fill_extended die vi =
     bindR (read_i_u (die_i_mode die) (die_i_u die)) (\<lambda>u.
       Inr (vi\<lparr>inode_isize := 64, xattr_isize := erofs_xattr_ibody_size (die_i_xattr_icount die),
              i_mode := die_i_mode die, i_ino := ucast (die_i_ino die), i_u := u,
              i_uid := die_i_uid die, i_gid := die_i_gid die, i_nlink := die_i_nlink die,
              i_mtime := die_i_mtime die, i_mtime_nsec := die_i_mtime_nsec die,
              i_size := die_i_size die,
              chunkformat := (if datalayout vi = EROFS_INODE_CHUNK_BASED
                              then i_u_chunk_format (die_i_u die) else chunkformat vi)\<rparr>))"

definition fill_compact ::
    "erofs_sb_info \<Rightarrow> erofs_inode_compact \<Rightarrow> erofs_inode \<Rightarrow> erofs_inode result" where
  "fill_compact sbi dic vi =
     bindR (read_i_u (dic_i_mode dic) (dic_i_u dic)) (\<lambda>u.
       Inr (vi\<lparr>inode_isize := 32, xattr_isize := erofs_xattr_ibody_size (dic_i_xattr_icount dic),
              i_mode := dic_i_mode dic, i_ino := ucast (dic_i_ino dic), i_u := u,
              i_uid := ucast (dic_i_uid dic), i_gid := ucast (dic_i_gid dic),
              i_nlink := ucast (dic_i_nlink dic), i_mtime := build_time sbi,
              i_mtime_nsec := build_time_nsec sbi, i_size := ucast (dic_i_size dic),
              chunkformat := (if datalayout vi = EROFS_INODE_CHUNK_BASED
                              then i_u_chunk_format (dic_i_u dic) else chunkformat vi)\<rparr>))"

definition fill_layout :: "erofs_sb_info \<Rightarrow> erofs_inode \<Rightarrow> erofs_inode result" where
  "fill_layout sbi vi0 =
     (let vi = vi0\<lparr>flags := 0\<rparr> in
      if datalayout vi = EROFS_INODE_CHUNK_BASED
      then if chunkformat vi AND NOT EROFS_CHUNK_FORMAT_ALL \<noteq> 0 then Err EOPNOTSUPP
           else Inr (vi\<lparr>chunkbits := blkszbits sbi +
                          ucast (chunkformat vi AND EROFS_CHUNK_FORMAT_BLKBITS_MASK)\<rparr>)
      else if erofs_inode_is_data_compressed (datalayout vi) then Inr (z_erofs_fill_inode sbi vi)
      else Inr vi)"

definition erofs_read_inode_from_disk :: "erofs_sb_info \<Rightarrow> erofs_inode \<Rightarrow> erofs_inode result" where
  "erofs_read_inode_from_disk sbi vi =
     (let inode_loc = erofs_iloc sbi vi in
      bindR (mapErr toEIO (erofs_dev_read sbi 0 inode_loc 32)) (\<lambda>buf.
        let ifmt = ucast (dic_i_format (dec_inode_compact buf)) :: u32 in
        case datalayout_of (unat (erofs_inode_datalayout ifmt)) of
          None \<Rightarrow> Err EOPNOTSUPP
        | Some l \<Rightarrow>
            let vi = vi\<lparr>datalayout := l\<rparr> in
            if erofs_inode_version ifmt = EROFS_INODE_LAYOUT_EXTENDED
            then bindR (mapErr toEIO (erofs_dev_read sbi 0 (inode_loc + 32) 32)) (\<lambda>buf2.
                   bindR (fill_extended (dec_inode_extended (buf @ buf2)) vi) (fill_layout sbi))
            else if erofs_inode_version ifmt = EROFS_INODE_LAYOUT_COMPACT
            then bindR (fill_compact sbi (dec_inode_compact buf) vi) (fill_layout sbi)
            else Err EOPNOTSUPP))"

section \<open>Writing inodes\<close>

text \<open>
  The members of the global configuration that matter here.
\<close>

record inode_cfg =
  c_force_extended :: bool
  c_ignore_mtime :: bool

definition erofs_should_use_inode_extended ::
    "inode_cfg \<Rightarrow> erofs_sb_info \<Rightarrow> bool \<Rightarrow> erofs_inode \<Rightarrow> bool" where
  "erofs_should_use_inode_extended cfg sbi is_packed vi =
     (if c_force_extended cfg then True
      else if 0xffffffff < i_size vi then True
      else if is_packed then False
      else if 0xffff < i_uid vi then True
      else if 0xffff < i_gid vi then True
      else if 0xffff < i_nlink vi then True
      else if (i_mtime vi \<noteq> build_time sbi \<or> i_mtime_nsec vi \<noteq> build_time_nsec sbi) \<and>
              \<not> c_ignore_mtime cfg then True
      else False)"

definition EROFS_INODE_XATTR_ICOUNT :: "u32 \<Rightarrow> u16" where
  "EROFS_INODE_XATTR_ICOUNT sz =
     (if (ucast sz :: u16) = 0 then 0 else ucast ((sz - 12) div 4 + 1))"

text \<open>The word stored in \<^verbatim>\<open>i_u\<close>: the device number, the block count, the chunk format or the block address.\<close>

definition store_i_u :: "erofs_inode \<Rightarrow> u32" where
  "store_i_u vi =
     (case imode_class (i_mode vi) of
        Some ModeDev \<Rightarrow> i_u vi
      | Some ModeSpecial \<Rightarrow> i_u vi
      | _ \<Rightarrow> if erofs_inode_is_data_compressed (datalayout vi) then i_u vi
             else if datalayout vi = EROFS_INODE_CHUNK_BASED then ucast (chunkformat vi)
             else i_u vi)"

definition inode_to_compact :: "erofs_inode \<Rightarrow> erofs_inode_compact" where
  "inode_to_compact vi =
     \<lparr>dic_i_format = push_bit 1 (datalayout_code (datalayout vi)),
      dic_i_xattr_icount = EROFS_INODE_XATTR_ICOUNT (xattr_isize vi), dic_i_mode = i_mode vi,
      dic_i_nlink = ucast (i_nlink vi), dic_i_size = ucast (i_size vi), dic_i_reserved = 0,
      dic_i_u = store_i_u vi, dic_i_ino = ucast (i_ino vi), dic_i_uid = ucast (i_uid vi),
      dic_i_gid = ucast (i_gid vi), dic_i_reserved2 = 0\<rparr>"

definition inode_to_extended :: "erofs_inode \<Rightarrow> erofs_inode_extended" where
  "inode_to_extended vi =
     \<lparr>die_i_format = 1 OR push_bit 1 (datalayout_code (datalayout vi)),
      die_i_xattr_icount = EROFS_INODE_XATTR_ICOUNT (xattr_isize vi), die_i_mode = i_mode vi,
      die_i_reserved = 0, die_i_size = i_size vi, die_i_u = store_i_u vi,
      die_i_ino = ucast (i_ino vi), die_i_uid = i_uid vi, die_i_gid = i_gid vi,
      die_i_mtime = i_mtime vi, die_i_mtime_nsec = i_mtime_nsec vi, die_i_nlink = i_nlink vi,
      die_i_reserved2 = replicate 16 0\<rparr>"

text \<open>
  The zero-initialised union \<^verbatim>\<open>u\<close> of 64 bytes after the switch on \<^verbatim>\<open>inode_isize\<close>.  Any other size than the two
  trips \<^verbatim>\<open>BUG_ON(1)\<close> in the source; here the union is left as it is.
\<close>

definition inode_image :: "erofs_inode \<Rightarrow> bytes" where
  "inode_image vi =
     (if inode_isize vi = 32 then enc_inode_compact (inode_to_compact vi) @ replicate 32 0
      else if inode_isize vi = 64 then enc_inode_extended (inode_to_extended vi)
      else replicate 64 0)"

text \<open>
  \<^verbatim>\<open>erofs_iflush\<close> at the position \<^verbatim>\<open>off\<close> of the inode.  The inline xattr body
  (\<^verbatim>\<open>erofs_export_xattr_ibody\<close>), the writer of chunk indexes
  (\<^verbatim>\<open>erofs_blob_write_chunk_indexes\<close>) and the compression metadata are arguments.
\<close>

definition write_nonempty :: "erofs_sb_info \<Rightarrow> bytes \<Rightarrow> u64 \<Rightarrow> u32 \<Rightarrow> erofs_sb_info result" where
  "write_nonempty sbi buf off n =
     bindR (slice buf 0 (unat n)) (\<lambda>b. erofs_dev_write sbi b off)"

definition erofs_iflush ::
    "erofs_sb_info \<Rightarrow> u64 \<Rightarrow> bytes result \<Rightarrow> (erofs_sb_info \<Rightarrow> u64 \<Rightarrow> erofs_sb_info result) \<Rightarrow>
     bytes \<Rightarrow> erofs_inode \<Rightarrow> erofs_sb_info result" where
  "erofs_iflush sbi off0 xattrs write_chunk_indexes compressmeta vi =
     bindR (bindR (slice (inode_image vi) 0 (unat (inode_isize vi)))
              (\<lambda>b. erofs_dev_write sbi b off0)) (\<lambda>sbi.
       let off1 = off0 + ucast (inode_isize vi) in
       bindR (if xattr_isize vi = 0 then Inr (sbi, off1)
              else bindR xattrs (\<lambda>x. bindR (write_nonempty sbi x off1 (xattr_isize vi))
                     (\<lambda>sbi. Inr (sbi, off1 + ucast (xattr_isize vi))))) (\<lambda>(sbi, off).
         if extent_isize vi = 0 then Inr sbi
         else if datalayout vi = EROFS_INODE_CHUNK_BASED then write_chunk_indexes sbi off
         else write_nonempty sbi compressmeta (roundup off 8) (extent_isize vi)))"

section \<open>Device numbers and sizes\<close>

lemma dev_masks:
  "(0xfff00 :: u32) = push_bit 8 (mask 12)" "(0xff :: u32) = mask 8"
  "(0xff :: u64) = mask 8" "(0xfff :: u64) = mask 12" "(0xffffff00 :: u64) = push_bit 8 (mask 24)"
  "(0xfffff000 :: u64) = push_bit 12 (mask 20)"
  by (simp_all add: mask_eq_exp_minus_1 push_bit_eq_mult)

lemmas dev_bits = bit_or_iff bit_and_iff bit_not_iff bit_ucast_iff bit_push_bit_iff bit_drop_bit_eq
  bit_mask_iff

lemma dev_bit_cases:
  assumes "i < LENGTH(32)"
  obtains "i < 8" | j where "i = 8 + j" "j < 12" | j where "i = 20 + j" "j < 12"
proof -
  consider "i < 8" | "8 \<le> i" "i < 20" | "20 \<le> i" "i < 32" using assms by fastforce
  then show thesis
  proof cases
    case 1
    then show thesis by (rule that(1))
  next
    case 2
    then show thesis using that(2) [of "i - 8"] by simp
  next
    case 3
    then show thesis using that(3) [of "i - 20"] by simp
  qed
qed

lemma decode_dev_u32 [simp]: "ucast (erofs_new_decode_dev raw) = raw"
proof (rule bit_word_eqI)
  fix i assume i: "i < LENGTH(32)"
  from i consider "i < 8" | j where "i = 8 + j" "j < 12" | j where "i = 20 + j" "j < 12"
    by (rule dev_bit_cases)
  then show "bit (ucast (erofs_new_decode_dev raw) :: 32 word) i = bit raw i"
    unfolding erofs_new_decode_dev_def makedev_def dev_masks
    by cases (simp_all add: dev_bits not_bit_length)
qed
lemma encode_dev_truncates: "erofs_new_encode_dev (erofs_new_decode_dev raw) = raw"
proof (rule bit_word_eqI)
  fix i assume i: "i < LENGTH(32)"
  from i consider "i < 8" | j where "i = 8 + j" "j < 12" | j where "i = 20 + j" "j < 12"
    by (rule dev_bit_cases)
  then show "bit (erofs_new_encode_dev (erofs_new_decode_dev raw)) i = bit raw i"
    unfolding erofs_new_decode_dev_def erofs_new_encode_dev_def makedev_def major_def minor_def dev_masks Let_def
    by cases (simp_all add: dev_bits not_bit_length, auto)
qed


lemma compact_format:
  "erofs_inode_version (ucast (push_bit (Suc 0) (datalayout_code l))) = 0"
  "datalayout_of (unat (erofs_inode_datalayout (ucast (push_bit (Suc 0) (datalayout_code l))))) = Some l"
  by (cases l; simp add: erofs_inode_version_def erofs_inode_datalayout_def erofs_bitrange_def
      datalayout_of_def)+

lemma extended_format:
  "erofs_inode_version (ucast (1 OR push_bit (Suc 0) (datalayout_code l))) = 1"
  "datalayout_of (unat (erofs_inode_datalayout (ucast (1 OR push_bit (Suc 0) (datalayout_code l))))) = Some l"
  by (cases l; simp add: erofs_inode_version_def erofs_inode_datalayout_def erofs_bitrange_def
      datalayout_of_def)+

text \<open>
  An inline xattr body as \<^verbatim>\<open>erofs_prepare_xattr_ibody\<close> sizes it: nothing, or the 12-byte header
  and whole 4-byte slots.
\<close>

definition xattr_isize_ok :: "u32 \<Rightarrow> bool" where
  "xattr_isize_ok sz \<longleftrightarrow> sz = 0 \<or> (12 \<le> unat sz \<and> unat sz < 65536 \<and> 4 dvd unat sz)"

lemma xattr_icount_roundtrip:
  assumes "xattr_isize_ok sz"
  shows "erofs_xattr_ibody_size (EROFS_INODE_XATTR_ICOUNT sz) = sz"
proof (cases "sz = 0")
  case True
  then show ?thesis by (simp add: EROFS_INODE_XATTR_ICOUNT_def erofs_xattr_ibody_size_def)
next
  case False
  then obtain k where k: "unat sz = 4 * k" and r: "12 \<le> unat sz" "unat sz < 65536"
    using assms by (auto simp: xattr_isize_ok_def)
  have d: "unat ((sz - 12) div 4 + 1) = k - 2"
  proof -
    have "unat (sz - 12) = unat sz - 12"
      using r by (subst unat_sub) (auto simp: word_le_nat_alt)
    then have "unat ((sz - 12) div 4) = k - 3"
      using k r by (simp add: unat_div)
    then show ?thesis
      using k r by (simp add: unat_word_ariths)
  qed
  have u: "unat (ucast sz :: u16) = unat sz"
    using r by (simp add: unsigned_ucast_eq take_bit_nat_eq_self)
  have "unat (ucast ((sz - 12) div 4 + 1) :: u16) = k - 2"
    using k r by (simp only: unsigned_ucast_eq d) (simp add: take_bit_nat_eq_self)
  moreover have "ucast sz \<noteq> (0 :: u16)" using u r by (metis unat_eq_zero not_numeral_le_zero)
  ultimately have c: "unat (EROFS_INODE_XATTR_ICOUNT sz) = k - 2"
    by (simp add: EROFS_INODE_XATTR_ICOUNT_def)
  then have "EROFS_INODE_XATTR_ICOUNT sz \<noteq> 0" using k r by auto
  then have "unat (erofs_xattr_ibody_size (EROFS_INODE_XATTR_ICOUNT sz)) = unat sz"
    using k r c by (simp add: erofs_xattr_ibody_size_value)
  then show ?thesis by (simp add: word_unat_eq_iff)
qed


lemma length_inode_image [simp]: "length (inode_image vi) = 64"
  using inode_compact.length_enc [of "inode_to_compact vi"]
    inode_extended.length_enc [of "inode_to_extended vi"]
  by (simp add: inode_image_def inode_extended_wf_def inode_to_extended_def)

lemma write_nonempty_quiet:
  assumes "quiet (bdev sbi)" and "n \<noteq> 0" and "write_nonempty sbi buf off n = Inr sbi'"
  shows "sbi' = sbi\<lparr>bdev := (bdev sbi)\<lparr>vf_bytes :=
           fsplice (vf_bytes (bdev sbi)) (unat off) (take (unat n) buf)\<rparr>\<rparr>"
proof -
  have "0 < unat n" using assms(2) by (simp add: unat_gt_0)
  then show ?thesis
    using assms by (cases buf) (auto simp: write_nonempty_def erofs_dev_write_quiet)
qed

lemma erofs_iflush_image:
  assumes q: "quiet (bdev sbi)"
    and isz: "inode_isize vi = 32 \<or> inode_isize vi = 64"
    and nochunk: "extent_isize vi = 0 \<or> datalayout vi \<noteq> EROFS_INODE_CHUNK_BASED"
    and room: "unat off + 64 + unat (xattr_isize vi) + 8 + unat (extent_isize vi) < 2 ^ 64"
    and run: "erofs_iflush sbi off xattrs wci meta vi = Inr sbi'"
  shows "\<exists>f. sbi' = sbi\<lparr>bdev := (bdev sbi)\<lparr>vf_bytes := f\<rparr>\<rparr> \<and>
           zread f (unat off) (unat (inode_isize vi)) = take (unat (inode_isize vi)) (inode_image vi)"
proof -
  define n where "n = unat (inode_isize vi)"
  define b where "b = take n (inode_image vi)"
  define s1 where "s1 = sbi\<lparr>bdev := (bdev sbi)\<lparr>vf_bytes := fsplice (vf_bytes (bdev sbi)) (unat off) b\<rparr>\<rparr>"
  define off1 where "off1 = off + ucast (inode_isize vi)"
  have n: "0 < n" "n \<le> 64" using isz by (auto simp: n_def)
  then have "length b = n" by (simp add: b_def)
  with n have lb: "length b = n" "b \<noteq> []" by auto
  have o1: "unat off1 = unat off + n"
    using room isz by (auto simp: off1_def n_def unat_word_ariths)
  have w1: "bindR (slice (inode_image vi) 0 (unat (inode_isize vi))) (\<lambda>b. erofs_dev_write sbi b off) = Inr s1"
    using n lb q by (simp add: s1_def b_def n_def [symmetric] slice_def erofs_dev_write_quiet)
  have q1: "quiet (bdev s1)" using q by (simp add: s1_def)
  obtain s2 off2 where s2: "(if xattr_isize vi = 0 then Inr (s1, off1)
        else bindR xattrs (\<lambda>x. bindR (write_nonempty s1 x off1 (xattr_isize vi))
               (\<lambda>sbi. Inr (sbi, off1 + ucast (xattr_isize vi))))) = Inr (s2, off2)"
    and fin: "(if extent_isize vi = 0 then Inr s2
         else if datalayout vi = EROFS_INODE_CHUNK_BASED then wci s2 off2
         else write_nonempty s2 meta (roundup off2 8) (extent_isize vi)) = Inr sbi'"
    using run unfolding erofs_iflush_def w1 bindR.simps Let_def off1_def [symmetric] by auto
  have keep1: "zread (vf_bytes (bdev s1)) (unat off) n = b"
    using lb by (simp add: s1_def zread_fsplice_same)
  have "\<exists>f. s2 = sbi\<lparr>bdev := (bdev sbi)\<lparr>vf_bytes := f\<rparr>\<rparr> \<and> zread f (unat off) n = b \<and>
          unat off2 = unat off1 + unat (xattr_isize vi)"
  proof (cases "xattr_isize vi = 0")
    case True
    have "s1 = sbi\<lparr>bdev := (bdev sbi)\<lparr>vf_bytes := vf_bytes (bdev s1)\<rparr>\<rparr>" by (simp add: s1_def)
    then show ?thesis using True s2 keep1 by auto
  next
    case False
    have "unat (off1 + ucast (xattr_isize vi)) = unat off1 + unat (xattr_isize vi)"
      using room n o1 by (subst unat_add_lem [THEN iffD1]) (auto simp: unat_ucast_up)
    moreover obtain x where "write_nonempty s1 x off1 (xattr_isize vi) = Inr s2"
      and "off2 = off1 + ucast (xattr_isize vi)"
      using False s2 by auto
    ultimately show ?thesis
      using write_nonempty_quiet [OF q1 False, of x off1 s2] keep1 o1
      by (auto simp: s1_def zread_fsplice_other)
  qed
  then obtain f where f: "s2 = sbi\<lparr>bdev := (bdev sbi)\<lparr>vf_bytes := f\<rparr>\<rparr>" "zread f (unat off) n = b"
    and o2: "unat off2 = unat off1 + unat (xattr_isize vi)" by blast
  show ?thesis
  proof (cases "extent_isize vi = 0")
    case True
    then show ?thesis using fin f by (auto simp: b_def n_def)
  next
    case False
    have r: "unat (roundup off2 8) = (unat off2 + 7) div 8 * 8"
      using room n o1 o2 by (subst unat_roundup) auto
    then have "unat off + n \<le> unat (roundup off2 8)" using o1 o2 by simp
    moreover have "write_nonempty s2 meta (roundup off2 8) (extent_isize vi) = Inr sbi'"
      using False fin nochunk by auto
    ultimately show ?thesis
      using write_nonempty_quiet [OF _ False, of s2 meta "roundup off2 8" sbi'] f q
      by (auto simp: zread_fsplice_other b_def n_def)
  qed
qed


text \<open>Reading an inode back from the bytes of its image.\<close>

lemma read_inode_compact:
  assumes q: "quiet (bdev sbi)"
    and img: "zread (vf_bytes (bdev sbi)) (unat (erofs_iloc sbi vi)) 32 = enc_inode_compact dic"
    and fmt: "dic_i_format dic = push_bit 1 (datalayout_code l)"
  shows "erofs_read_inode_from_disk sbi vi =
           bindR (fill_compact sbi dic (vi\<lparr>datalayout := l\<rparr>)) (fill_layout sbi)"
  using compact_format [of l]
  by (simp add: erofs_read_inode_from_disk_def erofs_dev_read_quiet q img inode_compact.dec_enc fmt)

lemma dec_inode_compact_prefix:
  "length b = 32 \<Longrightarrow> dic_i_format (dec_inode_compact b) = die_i_format (dec_inode_extended (b @ c))"
  by (simp add: dec_inode_compact_def dec_inode_extended_def field_def)

lemma read_inode_extended:
  assumes q: "quiet (bdev sbi)"
    and img: "zread (vf_bytes (bdev sbi)) (unat (erofs_iloc sbi vi)) 64 = enc_inode_extended die"
    and fmt: "die_i_format die = 1 OR push_bit 1 (datalayout_code l)"
    and wf: "inode_extended_wf die"
    and room: "unat (erofs_iloc sbi vi) + 32 < 2 ^ 64"
  shows "erofs_read_inode_from_disk sbi vi =
           bindR (fill_extended die (vi\<lparr>datalayout := l\<rparr>)) (fill_layout sbi)"
proof -
  define p where "p = unat (erofs_iloc sbi vi)"
  define dat where "dat = vf_bytes (bdev sbi)"
  have p2: "unat (erofs_iloc sbi vi + 32) = p + 32"
    using room by (simp add: p_def unat_word_ariths)
  have split: "zread dat p 32 @ zread dat (p + 32) 32 = enc_inode_extended die"
    using img zread_append_zread [of dat p 32 32] by (simp add: p_def dat_def)
  have "dic_i_format (dec_inode_compact (zread dat p 32)) =
          die_i_format (dec_inode_extended (zread dat p 32 @ zread dat (p + 32) 32))"
    by (rule dec_inode_compact_prefix) simp
  then have f: "dic_i_format (dec_inode_compact (zread dat p 32)) = 1 OR push_bit 1 (datalayout_code l)"
    using split fmt wf by (simp add: inode_extended.dec_enc)
  show ?thesis
    using extended_format [of l]
    by (simp add: erofs_read_inode_from_disk_def erofs_dev_read_quiet q p2 f split
        inode_extended.dec_enc wf flip: p_def dat_def)
qed

text \<open>What survives a write and a read of an inode.\<close>

definition same_metadata :: "erofs_inode \<Rightarrow> erofs_inode \<Rightarrow> bool" where
  "same_metadata a b \<longleftrightarrow>
     nid a = nid b \<and> i_mode a = i_mode b \<and> i_size a = i_size b \<and> i_uid a = i_uid b \<and> i_gid a = i_gid b \<and>
     i_nlink a = i_nlink b \<and> i_mtime a = i_mtime b \<and> i_mtime_nsec a = i_mtime_nsec b \<and>
     datalayout a = datalayout b \<and> inode_isize a = inode_isize b \<and> xattr_isize a = xattr_isize b \<and>
     i_ino b = ucast (ucast (i_ino a) :: u32) \<and>
     (datalayout a = EROFS_INODE_CHUNK_BASED \<longrightarrow> chunkformat a = chunkformat b) \<and>
     (datalayout a \<noteq> EROFS_INODE_CHUNK_BASED \<longrightarrow> i_u a = i_u b)"

text \<open>An inode that mkfs may write: a known file type, no device number on a pipe or socket, chunk formats
  only on data files and without unknown bits.\<close>

definition inode_writable :: "erofs_inode \<Rightarrow> bool" where
  "inode_writable vi \<longleftrightarrow>
     imode_class (i_mode vi) \<noteq> None \<and>
     (imode_class (i_mode vi) = Some ModeSpecial \<longrightarrow> i_u vi = 0) \<and>
     (datalayout vi = EROFS_INODE_CHUNK_BASED \<longrightarrow>
        imode_class (i_mode vi) = Some ModeData \<and> chunkformat vi AND NOT EROFS_CHUNK_FORMAT_ALL = 0) \<and>
     xattr_isize_ok (xattr_isize vi)"

lemma fill_layout_same:
  assumes "datalayout vi = EROFS_INODE_CHUNK_BASED \<longrightarrow> chunkformat vi AND NOT EROFS_CHUNK_FORMAT_ALL = 0"
  shows "\<exists>vi'. fill_layout sbi vi = Inr vi' \<and> (same_metadata a vi' \<longleftrightarrow> same_metadata a vi)"
  using assms
  by (auto simp: fill_layout_def Let_def z_erofs_fill_inode_def same_metadata_def)

lemma read_i_u_store:
  assumes "inode_writable vi"
  shows "\<exists>u. read_i_u (i_mode vi) (store_i_u vi) = Inr u \<and>
           (datalayout vi \<noteq> EROFS_INODE_CHUNK_BASED \<longrightarrow> u = i_u vi) \<and>
           (datalayout vi = EROFS_INODE_CHUNK_BASED \<longrightarrow> i_u_chunk_format (store_i_u vi) = chunkformat vi)"
proof -
  have c: "i_u_chunk_format (ucast f) = f" for f :: u16
    by (simp add: i_u_chunk_format_def)
  show ?thesis
    using assms
    by (auto simp: inode_writable_def read_i_u_def store_i_u_def c erofs_inode_is_data_compressed_def
        split: option.splits imode_class.splits)
qed


lemma compact_fill_same:
  assumes w: "inode_writable vi" and isz: "inode_isize vi = 32"
    and c: "\<not> erofs_should_use_inode_extended cfg sbi False vi" "\<not> c_ignore_mtime cfg"
  shows "\<exists>vi1. fill_compact sbi (inode_to_compact vi) ((zero_inode (nid vi))\<lparr>datalayout := datalayout vi\<rparr>) = Inr vi1 \<and>
           same_metadata vi vi1"
proof -
  obtain u where u: "read_i_u (i_mode vi) (store_i_u vi) = Inr u"
    "datalayout vi \<noteq> EROFS_INODE_CHUNK_BASED \<longrightarrow> u = i_u vi"
    "datalayout vi = EROFS_INODE_CHUNK_BASED \<longrightarrow> i_u_chunk_format (store_i_u vi) = chunkformat vi"
    using read_i_u_store [OF w] by blast
  have r: "i_size vi \<le> 0xffffffff" "i_uid vi \<le> 0xffff" "i_gid vi \<le> 0xffff" "i_nlink vi \<le> 0xffff"
    "i_mtime vi = build_time sbi" "i_mtime_nsec vi = build_time_nsec sbi"
    using c by (auto simp: erofs_should_use_inode_extended_def split: if_splits)
  have "ucast (ucast (i_size vi) :: u32) = i_size vi" "ucast (ucast (i_uid vi) :: u16) = i_uid vi"
    "ucast (ucast (i_gid vi) :: u16) = i_gid vi" "ucast (ucast (i_nlink vi) :: u16) = i_nlink vi"
    using r by (auto intro!: ucast_down_up simp: word_le_nat_alt)
  then show ?thesis
    using u w isz r
    by (simp add: fill_compact_def inode_to_compact_def zero_inode_def same_metadata_def inode_writable_def
        xattr_icount_roundtrip)
qed

lemma extended_fill_same:
  assumes w: "inode_writable vi" and isz: "inode_isize vi = 64"
  shows "\<exists>vi1. fill_extended (inode_to_extended vi) ((zero_inode (nid vi))\<lparr>datalayout := datalayout vi\<rparr>) = Inr vi1 \<and>
           same_metadata vi vi1"
proof -
  obtain u where u: "read_i_u (i_mode vi) (store_i_u vi) = Inr u"
    "datalayout vi \<noteq> EROFS_INODE_CHUNK_BASED \<longrightarrow> u = i_u vi"
    "datalayout vi = EROFS_INODE_CHUNK_BASED \<longrightarrow> i_u_chunk_format (store_i_u vi) = chunkformat vi"
    using read_i_u_store [OF w] by blast
  then show ?thesis
    using w isz
    by (simp add: fill_extended_def inode_to_extended_def zero_inode_def same_metadata_def inode_writable_def
        xattr_icount_roundtrip)
qed

lemma same_metadata_layout:
  "same_metadata a b \<Longrightarrow> inode_writable a \<Longrightarrow>
     datalayout b = EROFS_INODE_CHUNK_BASED \<longrightarrow> chunkformat b AND NOT EROFS_CHUNK_FORMAT_ALL = 0"
  by (auto simp: same_metadata_def inode_writable_def)

text \<open>
  C2.  Writing an inode and reading it back gives the same inode: for the size chosen by
  \<^verbatim>\<open>erofs_should_use_inode_extended\<close>, whatever \<^verbatim>\<open>erofs_iflush\<close> stores at the inode's location,
  with its inline xattrs and compression metadata behind it, is decoded by
  \<^verbatim>\<open>erofs_read_inode_from_disk\<close> to the same mode, size, owner, link count, times, layout and
  block address, device number or chunk format; the inode number is kept in 32 bits.
\<close>

theorem inode_flush_read_roundtrip:
  assumes q: "quiet (bdev sbi)"
    and w: "inode_writable vi"
    and isz: "inode_isize vi = (if erofs_should_use_inode_extended cfg sbi False vi then 64 else 32)"
    and mt: "\<not> c_ignore_mtime cfg"
    and nochunk: "extent_isize vi = 0 \<or> datalayout vi \<noteq> EROFS_INODE_CHUNK_BASED"
    and room: "unat (erofs_iloc sbi vi) + 64 + unat (xattr_isize vi) + 8 + unat (extent_isize vi) < 2 ^ 64"
    and run: "erofs_iflush sbi (erofs_iloc sbi vi) xattrs wci meta vi = Inr sbi'"
  shows "\<exists>vi'. erofs_read_inode_from_disk sbi' (zero_inode (nid vi)) = Inr vi' \<and> same_metadata vi vi'"
proof -
  have isz': "inode_isize vi = 32 \<or> inode_isize vi = 64" using isz by (simp split: if_splits)
  obtain f where s': "sbi' = sbi\<lparr>bdev := (bdev sbi)\<lparr>vf_bytes := f\<rparr>\<rparr>"
    and f: "zread f (unat (erofs_iloc sbi vi)) (unat (inode_isize vi)) = take (unat (inode_isize vi)) (inode_image vi)"
    using erofs_iflush_image [OF q isz' nochunk room run] by blast
  have q': "quiet (bdev sbi')" and loc: "erofs_iloc sbi' (zero_inode (nid vi)) = erofs_iloc sbi vi"
    using q by (simp_all add: s' erofs_iloc_def erofs_pos_def zero_inode_def)
  obtain vi1 where vi1: "same_metadata vi vi1"
    and rd: "erofs_read_inode_from_disk sbi' (zero_inode (nid vi)) = fill_layout sbi' vi1"
  proof (cases "inode_isize vi = 32")
    case True
    then have "\<not> erofs_should_use_inode_extended cfg sbi' False vi"
      using isz by (auto simp: erofs_should_use_inode_extended_def s' split: if_splits)
    from compact_fill_same [OF w True this mt] obtain vi1
      where "fill_compact sbi' (inode_to_compact vi) ((zero_inode (nid vi))\<lparr>datalayout := datalayout vi\<rparr>) = Inr vi1"
        and "same_metadata vi vi1" by blast
    moreover have "zread (vf_bytes (bdev sbi')) (unat (erofs_iloc sbi' (zero_inode (nid vi)))) 32 =
        enc_inode_compact (inode_to_compact vi)"
      unfolding loc using f True inode_compact.length_enc [of "inode_to_compact vi"]
      by (simp add: s' inode_image_def)
    ultimately show thesis
      using that read_inode_compact [OF q', of "zero_inode (nid vi)" "inode_to_compact vi" "datalayout vi"]
      by (simp add: inode_to_compact_def)
  next
    case False
    then have 64: "inode_isize vi = 64" using isz' by simp
    have wf: "inode_extended_wf (inode_to_extended vi)"
      by (simp add: inode_extended_wf_def inode_to_extended_def)
    from extended_fill_same [OF w 64] obtain vi1
      where "fill_extended (inode_to_extended vi) ((zero_inode (nid vi))\<lparr>datalayout := datalayout vi\<rparr>) = Inr vi1"
        and "same_metadata vi vi1" by blast
    moreover have "zread (vf_bytes (bdev sbi')) (unat (erofs_iloc sbi' (zero_inode (nid vi)))) 64 =
        enc_inode_extended (inode_to_extended vi)"
      unfolding loc using f 64 inode_extended.length_enc [OF wf] by (simp add: s' inode_image_def)
    ultimately show thesis
      using that room read_inode_extended [OF q', of "zero_inode (nid vi)" "inode_to_extended vi" "datalayout vi"] wf
      by (simp add: inode_to_extended_def loc)
  qed
  then show ?thesis
    using fill_layout_same [OF same_metadata_layout [OF vi1 w], of sbi' vi] by auto
qed

theorem inode_flush_read_roundtrip_witness:
  "\<exists>sbi sbi' vi'. erofs_iflush sbi (erofs_iloc sbi ((zero_inode 36)\<lparr>i_mode := 0x81A4, i_size := 4660, inode_isize := 32\<rparr>))
       (Inr []) (\<lambda>s off. Inr s) [] ((zero_inode 36)\<lparr>i_mode := 0x81A4, i_size := 4660, inode_isize := 32\<rparr>) = Inr sbi' \<and>
     erofs_read_inode_from_disk sbi' (zero_inode 36) = Inr vi' \<and> i_size vi' = 4660"
proof -
  define sbi where "sbi = (zero_sbi (plain_file []))\<lparr>blkszbits := 12, islotbits := 5\<rparr>"
  define vi where "vi = (zero_inode 36)\<lparr>i_mode := 0x81A4, i_size := 4660, inode_isize := 32\<rparr>"
  define cfg where "cfg = \<lparr>c_force_extended = False, c_ignore_mtime = False\<rparr>"
  have q: "quiet (bdev sbi)" by (simp add: sbi_def)
  have loc: "erofs_iloc sbi vi = 1152"
    by (simp add: sbi_def vi_def erofs_iloc_def erofs_pos_def zero_sbi_def zero_inode_def)
  have ne: "take 32 (inode_image vi) \<noteq> []" using length_inode_image [of vi] by (cases "inode_image vi") simp_all
  obtain sbi' where run: "erofs_iflush sbi (erofs_iloc sbi vi) (Inr []) (\<lambda>s off. Inr s) [] vi = Inr sbi'"
    using q ne by (simp add: erofs_iflush_def slice_def erofs_dev_write_quiet Let_def)
      (simp add: vi_def zero_inode_def erofs_dev_write_quiet)
  have "\<exists>vi'. erofs_read_inode_from_disk sbi' (zero_inode (nid vi)) = Inr vi' \<and> same_metadata vi vi'"
    by (rule inode_flush_read_roundtrip [OF q _ _ _ _ _ run, where cfg = cfg])
      (simp_all add: loc, simp_all add: vi_def cfg_def sbi_def zero_inode_def zero_sbi_def
        inode_writable_def imode_class_def xattr_isize_ok_def erofs_should_use_inode_extended_def)
  then show ?thesis
    using run by (auto simp: vi_def same_metadata_def zero_inode_def)
qed

end
