(* ===== verification/Zmap.thy ===== *)
theory Zmap
  imports Erofs_Inode
begin

text \<open>
  Mapping logical offsets of compressed files to their physical clusters:
  \<^verbatim>\<open>lib/zmap.c\<close> and \<^verbatim>\<open>struct erofs_map_blocks\<close> of \<^verbatim>\<open>internal.h\<close>.  The map recorder carries the
  map it points to.  A function that fails leaves the caller with the error only: no caller
  reads a map or a recorder after an error, with the one exception that is spelled out at
  \<^verbatim>\<open>z_erofs_fill_inode_lazy\<close>.  \<^verbatim>\<open>DBG_BUGON\<close> is empty, as in builds without debugging.
\<close>

section \<open>Maps and the map recorder\<close>

abbreviation (input) EROFS_MAP_META :: u32 where "EROFS_MAP_META \<equiv> 0x1"
abbreviation (input) EROFS_MAP_MAPPED :: u32 where "EROFS_MAP_MAPPED \<equiv> 0x2"
abbreviation (input) EROFS_MAP_ENCODED :: u32 where "EROFS_MAP_ENCODED \<equiv> 0x4"
abbreviation (input) EROFS_MAP_FULL_MAPPED :: u32 where "EROFS_MAP_FULL_MAPPED \<equiv> 0x8"
abbreviation (input) EROFS_MAP_FRAGMENT :: u32 where "EROFS_MAP_FRAGMENT \<equiv> 0x10"
abbreviation (input) EROFS_MAP_PARTIAL_REF :: u32 where "EROFS_MAP_PARTIAL_REF \<equiv> 0x20"
abbreviation (input) EROFS_GET_BLOCKS_FIEMAP :: u32 where "EROFS_GET_BLOCKS_FIEMAP \<equiv> 0x2"
abbreviation (input) EROFS_GET_BLOCKS_FINDTAIL :: u32 where "EROFS_GET_BLOCKS_FINDTAIL \<equiv> 0x8"
abbreviation (input) Z_EROFS_COMPRESSION_SHIFTED :: u8 where "Z_EROFS_COMPRESSION_SHIFTED \<equiv> 4"
abbreviation (input) Z_EROFS_COMPRESSION_INTERLACED :: u8 where "Z_EROFS_COMPRESSION_INTERLACED \<equiv> 5"

record erofs_map_blocks =
  mpage :: bytes
  m_pa :: u64
  m_la :: u64
  m_plen :: u64
  m_llen :: u64
  m_deviceid :: u16
  m_algorithmformat :: u8
  m_flags :: u32
  map_index :: u32

text \<open>\<^verbatim>\<open>struct erofs_map_blocks map = { .index = UINT_MAX }\<close>\<close>

definition init_map :: erofs_map_blocks where
  "init_map =
     \<lparr>mpage = replicate EROFS_MAX_BLOCK_SIZE 0, m_pa = 0, m_la = 0, m_plen = 0, m_llen = 0,
      m_deviceid = 0, m_algorithmformat = 0, m_flags = 0, map_index = 0xffffffff\<rparr>"

record z_erofs_maprecorder =
  mr_map :: erofs_map_blocks
  mr_lcn :: u64
  mr_type :: lcluster_type
  mr_headtype :: lcluster_type
  mr_clusterofs :: u16
  mr_delta0 :: u16
  mr_delta1 :: u16
  mr_pblk :: u32
  mr_compressedblks :: u32
  mr_nextpackoff :: u64
  mr_partialref :: bool

definition init_recorder :: "erofs_map_blocks \<Rightarrow> z_erofs_maprecorder" where
  "init_recorder mp =
     \<lparr>mr_map = mp, mr_lcn = 0, mr_type = Z_EROFS_LCLUSTER_TYPE_PLAIN,
      mr_headtype = Z_EROFS_LCLUSTER_TYPE_PLAIN, mr_clusterofs = 0, mr_delta0 = 0, mr_delta1 = 0,
      mr_pblk = 0, mr_compressedblks = 0, mr_nextpackoff = 0, mr_partialref = False\<rparr>"

definition has_advise :: "erofs_inode \<Rightarrow> u16 \<Rightarrow> bool" where
  "has_advise vi bits \<longleftrightarrow> z_advise vi AND bits \<noteq> 0"

abbreviation lcbits :: "erofs_inode \<Rightarrow> nat" where
  "lcbits vi \<equiv> unat (z_logical_clusterbits vi)"

section \<open>Loading one logical cluster\<close>

definition z_erofs_reload_indexes ::
    "erofs_sb_info \<Rightarrow> u32 \<Rightarrow> z_erofs_maprecorder \<Rightarrow> z_erofs_maprecorder result" where
  "z_erofs_reload_indexes sbi eblk m =
     (if map_index (mr_map m) = eblk then Inr m
      else bindR (mapErr toEIO (erofs_blk_read sbi 0 eblk 1)) (\<lambda>page.
             if EROFS_MAX_BLOCK_SIZE < length page then Inl OutOfBounds
             else Inr (m\<lparr>mr_map := (mr_map m)\<lparr>mpage := fsplice (mpage (mr_map m)) 0 page,
                                           map_index := eblk\<rparr>\<rparr>)))"

definition legacy_index_pos :: "erofs_sb_info \<Rightarrow> erofs_inode \<Rightarrow> u64 \<Rightarrow> u64" where
  "legacy_index_pos sbi vi lcn =
     Z_EROFS_FULL_INDEX_ALIGN (erofs_iloc sbi vi + ucast (inode_isize vi) + ucast (xattr_isize vi)) +
     lcn * 8"

definition legacy_decode ::
    "erofs_inode \<Rightarrow> z_erofs_lcluster_index \<Rightarrow> z_erofs_maprecorder \<Rightarrow> z_erofs_maprecorder result" where
  "legacy_decode vi di m =
     (let advise = di_advise di;
          type = lcluster_type_of (unat (drop_bit Z_EROFS_LI_LCLUSTER_TYPE_BIT advise AND 3))
      in case type of
           Z_EROFS_LCLUSTER_TYPE_NONHEAD \<Rightarrow>
             let m = m\<lparr>mr_clusterofs := push_bit (lcbits vi) 1, mr_delta0 := di_delta0 di\<rparr> in
             bindR (if di_delta0 di AND 0x800 \<noteq> 0
                    then if \<not> has_advise vi Z_EROFS_ADVISE_BIG_PCLUSTER_1 then Err EFSCORRUPTED
                         else Inr (m\<lparr>mr_compressedblks := ucast (di_delta0 di AND NOT 0x800),
                                    mr_delta0 := 1\<rparr>)
                    else Inr m)
               (\<lambda>m. Inr (m\<lparr>mr_delta1 := di_delta1 di, mr_type := type\<rparr>))
         | Z_EROFS_LCLUSTER_TYPE_HEAD2 \<Rightarrow> Err EOPNOTSUPP
         | _ \<Rightarrow>
             Inr (m\<lparr>mr_partialref := (mr_partialref m \<or> advise AND Z_EROFS_LI_PARTIAL_REF \<noteq> 0),
                    mr_clusterofs := di_clusterofs di, mr_pblk := di_u di, mr_type := type\<rparr>))"

definition legacy_load_cluster_from_disk ::
    "erofs_sb_info \<Rightarrow> erofs_inode \<Rightarrow> u64 \<Rightarrow> z_erofs_maprecorder \<Rightarrow> z_erofs_maprecorder result" where
  "legacy_load_cluster_from_disk sbi vi lcn m =
     (let pos = legacy_index_pos sbi vi lcn in
      bindR (z_erofs_reload_indexes sbi (ucast (erofs_blknr sbi pos)) m) (\<lambda>m.
        let m = m\<lparr>mr_nextpackoff := pos + 8, mr_lcn := lcn\<rparr> in
        bindR (slice (mpage (mr_map m)) (unat (erofs_blkoff sbi pos)) 8) (\<lambda>s.
          legacy_decode vi (dec_lcluster_index s) m)))"

text \<open>A compact entry: the low bits and the two type bits above them.\<close>

definition decode_compactedbits ::
    "nat \<Rightarrow> bytes \<Rightarrow> nat \<Rightarrow> (u32 \<times> lcluster_type) result" where
  "decode_compactedbits lobits buf pos =
     bindR (slice buf (pos div 8) 4) (\<lambda>s.
       let v = drop_bit (pos mod 8) (le_get s :: u32);
           lo = v AND (push_bit lobits 1 - 1)
       in Inr (lo, lcluster_type_of (unat (drop_bit lobits v AND 3))))"

text \<open>The \<^verbatim>\<open>do\<close>/\<^verbatim>\<open>while\<close> loop from entry \<^verbatim>\<open>i\<close> to the last entry of the pack.\<close>

function la_distance_loop ::
    "nat \<Rightarrow> nat \<Rightarrow> nat \<Rightarrow> bytes \<Rightarrow> nat \<Rightarrow> u32 \<Rightarrow> u32 result" where
  "la_distance_loop lobits encodebits vcnt buf i d1 =
     bindR (decode_compactedbits lobits buf (encodebits * i)) (\<lambda>(lo, type).
       if type \<noteq> Z_EROFS_LCLUSTER_TYPE_NONHEAD then Inr d1
       else if Suc i < vcnt then la_distance_loop lobits encodebits vcnt buf (Suc i) (d1 + 1)
       else if lo AND 0x800 = 0 then Inr (d1 + 1 + (lo - 1))
       else Inr (d1 + 1))"
  by pat_completeness auto
termination
  by (relation "measure (\<lambda>(lobits, encodebits, vcnt, buf, i, d1). vcnt - i)") auto

declare la_distance_loop.simps [simp del]

definition get_compacted_la_distance :: "nat \<Rightarrow> nat \<Rightarrow> nat \<Rightarrow> bytes \<Rightarrow> nat \<Rightarrow> u32 result" where
  "get_compacted_la_distance lobits encodebits vcnt buf i =
     la_distance_loop lobits encodebits vcnt buf i 0"

text \<open>Counting the blocks between the base address of a pack and entry \<^verbatim>\<open>i\<close>, one block per
  pcluster or with explicit block counts; \<^verbatim>\<open>i\<close> is a C \<^verbatim>\<open>int\<close> and may pass below 0.\<close>

function nblk_single :: "(nat \<Rightarrow> (u32 \<times> lcluster_type) result) \<Rightarrow> int \<Rightarrow> u32 \<Rightarrow> u32 result" where
  "nblk_single entry i nblk =
     (if 0 < i
      then bindR (entry (nat (i - 1))) (\<lambda>(lo, type).
             let i' = (if type = Z_EROFS_LCLUSTER_TYPE_NONHEAD then i - 1 - int (unat lo) else i - 1)
             in nblk_single entry i' (if 0 \<le> i' then nblk + 1 else nblk))
      else Inr nblk)"
  by pat_completeness auto
termination
  by (relation "measure (\<lambda>(entry, i, nblk). nat i)") (auto simp del: of_nat_unat)

function nblk_big :: "(nat \<Rightarrow> (u32 \<times> lcluster_type) result) \<Rightarrow> int \<Rightarrow> u32 \<Rightarrow> u32 result" where
  "nblk_big entry i nblk =
     (if 0 < i
      then bindR (entry (nat (i - 1))) (\<lambda>(lo, type).
             if type = Z_EROFS_LCLUSTER_TYPE_NONHEAD
             then if lo AND 0x800 \<noteq> 0 then nblk_big entry (i - 2) (nblk + (lo AND NOT 0x800))
                  else if lo \<le> 1 then Err EFSCORRUPTED
                  else nblk_big entry (i - 1 - (int (unat lo) - 2)) nblk
             else nblk_big entry (i - 1) (nblk + 1))
      else Inr nblk)"
  by pat_completeness auto
termination
  by (relation "measure (\<lambda>(entry, i, nblk). nat i)") (auto simp: word_le_nat_alt simp del: of_nat_unat)

declare nblk_single.simps [simp del] nblk_big.simps [simp del]

text \<open>
  \<^verbatim>\<open>amortizedshift\<close> is 2 for packs of two 4-byte entries and 1 for packs of sixteen 2-byte
  entries; the last 4 bytes of a pack hold its base block address.
\<close>

definition pack_vcnt :: "nat \<Rightarrow> nat \<Rightarrow> nat option" where
  "pack_vcnt amortizedshift lclusterbits =
     (if 2 ^ amortizedshift = (4::nat) \<and> lclusterbits \<le> 14 then Some 2
      else if 2 ^ amortizedshift = (2::nat) \<and> lclusterbits \<le> 12 then Some 16
      else None)"

definition pack_lobits :: "nat \<Rightarrow> nat" where
  "pack_lobits lclusterbits = max lclusterbits 12"

definition unpack_nonhead ::
    "erofs_inode \<Rightarrow> bool \<Rightarrow> nat \<Rightarrow> nat \<Rightarrow> nat \<Rightarrow> bytes \<Rightarrow> nat \<Rightarrow> u32 \<Rightarrow> z_erofs_maprecorder \<Rightarrow>
     z_erofs_maprecorder result" where
  "unpack_nonhead vi lookahead lobits encodebits vcnt buf i lo m =
     bindR (if lookahead
            then bindR (get_compacted_la_distance lobits encodebits vcnt buf i)
                   (\<lambda>d. Inr (m\<lparr>mr_clusterofs := push_bit (lcbits vi) 1, mr_delta1 := ucast d\<rparr>))
            else Inr (m\<lparr>mr_clusterofs := push_bit (lcbits vi) 1\<rparr>)) (\<lambda>m.
       if lo AND 0x800 \<noteq> 0
       then if \<not> has_advise vi Z_EROFS_ADVISE_BIG_PCLUSTER_1 then Err EFSCORRUPTED
            else Inr (m\<lparr>mr_compressedblks := lo AND NOT 0x800, mr_delta0 := 1\<rparr>)
       else if i + 1 \<noteq> vcnt then Inr (m\<lparr>mr_delta0 := ucast lo\<rparr>)
       else bindR (decode_compactedbits lobits buf (encodebits * (i - 1))) (\<lambda>(lo, type).
              let lo = (if type \<noteq> Z_EROFS_LCLUSTER_TYPE_NONHEAD then 0
                        else if lo AND 0x800 \<noteq> 0 then 1 else lo)
              in Inr (m\<lparr>mr_delta0 := ucast (lo + 1)\<rparr>)))"

definition unpack_head ::
    "erofs_inode \<Rightarrow> nat \<Rightarrow> nat \<Rightarrow> nat \<Rightarrow> bytes \<Rightarrow> nat \<Rightarrow> u32 \<Rightarrow> z_erofs_maprecorder \<Rightarrow>
     z_erofs_maprecorder result" where
  "unpack_head vi lobits encodebits packsz buf i lo m =
     (let entry = (\<lambda>k. decode_compactedbits lobits buf (encodebits * k)) in
      bindR (if \<not> has_advise vi Z_EROFS_ADVISE_BIG_PCLUSTER_1 then nblk_single entry (int i) 1
             else nblk_big entry (int i) 0) (\<lambda>nblk.
        bindR (slice buf (packsz - 4) 4) (\<lambda>s.
          Inr (m\<lparr>mr_clusterofs := ucast lo, mr_delta0 := 0, mr_pblk := le_get s + nblk\<rparr>))))"

definition unpack_compacted_index ::
    "erofs_sb_info \<Rightarrow> erofs_inode \<Rightarrow> nat \<Rightarrow> u64 \<Rightarrow> bool \<Rightarrow> z_erofs_maprecorder \<Rightarrow>
     z_erofs_maprecorder result" where
  "unpack_compacted_index sbi vi amortizedshift pos lookahead m =
     (case pack_vcnt amortizedshift (lcbits vi) of
        None \<Rightarrow> Err EOPNOTSUPP
      | Some vcnt \<Rightarrow>
          let packsz = vcnt * 2 ^ amortizedshift;
              lobits = pack_lobits (lcbits vi);
              encodebits = (packsz - 4) * 8 div vcnt;
              eofs = unat (erofs_blkoff sbi pos);
              base = eofs div packsz * packsz;
              buf = drop base (mpage (mr_map m));
              i = (eofs - base) div 2 ^ amortizedshift
          in bindR (decode_compactedbits lobits buf (encodebits * i)) (\<lambda>(lo, type).
               let m = m\<lparr>mr_nextpackoff := round_down pos (of_nat packsz) + of_nat packsz,
                         mr_type := type\<rparr> in
               if type = Z_EROFS_LCLUSTER_TYPE_NONHEAD
               then unpack_nonhead vi lookahead lobits encodebits vcnt buf i lo m
               else unpack_head vi lobits encodebits packsz buf i lo m))"

text \<open>Where the entry of \<^verbatim>\<open>lcn\<close> lies: 4-byte entries up to a 32-byte boundary, 2-byte entries in whole
  packs of 16 if the inode uses them, 4-byte entries for the rest.\<close>

definition compacted_ebase :: "erofs_sb_info \<Rightarrow> erofs_inode \<Rightarrow> u64" where
  "compacted_ebase sbi vi =
     round_up (erofs_iloc sbi vi + ucast (inode_isize vi) + ucast (xattr_isize vi)) 8 + 8"

definition compacted_4b_initial :: "u64 \<Rightarrow> u32" where
  "compacted_4b_initial ebase =
     (let n = ucast ((32 - ebase mod 32) div 4) in if n = 8 then 0 else n)"

definition compacted_2b :: "erofs_inode \<Rightarrow> u32 \<Rightarrow> u32 \<Rightarrow> u32" where
  "compacted_2b vi initial totalidx =
     (if has_advise vi Z_EROFS_ADVISE_COMPACTED_2B \<and> initial < totalidx
      then rounddown (totalidx - initial) 16 else 0)"

definition compacted_pos :: "u64 \<Rightarrow> u32 \<Rightarrow> u32 \<Rightarrow> u64 \<Rightarrow> u64 \<times> nat" where
  "compacted_pos ebase initial c2b lcn =
     (if lcn < ucast initial then (ebase + lcn * 4, 2)
      else let pos = ebase + ucast (initial * 4); lcn = lcn - ucast initial in
           if lcn < ucast c2b then (pos + lcn * 2, 1)
           else (pos + ucast (c2b * 2) + (lcn - ucast c2b) * 4, 2))"

definition compacted_load_cluster_from_disk ::
    "erofs_sb_info \<Rightarrow> erofs_inode \<Rightarrow> u64 \<Rightarrow> bool \<Rightarrow> z_erofs_maprecorder \<Rightarrow>
     z_erofs_maprecorder result" where
  "compacted_load_cluster_from_disk sbi vi lcn lookahead m =
     (let ebase = compacted_ebase sbi vi;
          totalidx = ucast (BLK_ROUND_UP sbi (i_size vi)) :: u32
      in if ucast totalidx \<le> lcn then Err EINVAL
         else let initial = compacted_4b_initial ebase;
                  (pos, amortizedshift) = compacted_pos ebase initial (compacted_2b vi initial totalidx) lcn
              in bindR (z_erofs_reload_indexes sbi (ucast (erofs_blknr sbi pos)) (m\<lparr>mr_lcn := lcn\<rparr>))
                   (unpack_compacted_index sbi vi amortizedshift pos lookahead))"

text \<open>The parameter of this function is an \<^verbatim>\<open>unsigned int\<close>: the caller's 64-bit number is cut.\<close>

definition z_erofs_load_cluster_from_disk ::
    "erofs_sb_info \<Rightarrow> erofs_inode \<Rightarrow> u64 \<Rightarrow> bool \<Rightarrow> z_erofs_maprecorder \<Rightarrow>
     z_erofs_maprecorder result" where
  "z_erofs_load_cluster_from_disk sbi vi lcn lookahead m =
     (let lcn = ucast (ucast lcn :: u32) in
      if datalayout vi = EROFS_INODE_COMPRESSED_FULL then legacy_load_cluster_from_disk sbi vi lcn m
      else if datalayout vi = EROFS_INODE_COMPRESSED_COMPACT
           then compacted_load_cluster_from_disk sbi vi lcn lookahead m
      else Err EINVAL)"


text \<open>
  Loading a logical cluster changes of the map only the cached index block; the recorder's
  position becomes the cluster that was asked for.
\<close>

definition map_core :: "erofs_map_blocks \<Rightarrow> erofs_map_blocks" where
  "map_core mp = mp\<lparr>mpage := [], map_index := 0\<rparr>"

definition framed :: "z_erofs_maprecorder \<Rightarrow> z_erofs_maprecorder \<Rightarrow> bool" where
  "framed m m' \<longleftrightarrow> map_core (mr_map m') = map_core (mr_map m) \<and> mr_headtype m' = mr_headtype m"

lemma framedD:
  "framed m m' \<Longrightarrow>
     m_la (mr_map m') = m_la (mr_map m) \<and> m_llen (mr_map m') = m_llen (mr_map m) \<and>
     m_flags (mr_map m') = m_flags (mr_map m) \<and> m_plen (mr_map m') = m_plen (mr_map m) \<and>
     m_pa (mr_map m') = m_pa (mr_map m) \<and> mr_headtype m' = mr_headtype m"
  by (cases "mr_map m"; cases "mr_map m'") (simp add: framed_def map_core_def)

lemma reload_frame:
  "okR (\<lambda>m'. mr_lcn m' = mr_lcn m \<and> framed m m' \<and> map_index (mr_map m') = eblk)
     (z_erofs_reload_indexes sbi eblk m)"
  by (simp add: z_erofs_reload_indexes_def framed_def map_core_def)

lemma reload_cached: "map_index (mr_map m) = eblk \<Longrightarrow> z_erofs_reload_indexes sbi eblk m = Inr m"
  by (simp add: z_erofs_reload_indexes_def)

definition kept :: "z_erofs_maprecorder \<Rightarrow> z_erofs_maprecorder \<Rightarrow> bool" where
  "kept m m' \<longleftrightarrow> mr_lcn m' = mr_lcn m \<and> mr_map m' = mr_map m \<and> mr_headtype m' = mr_headtype m"

lemma legacy_decode_kept:
  "okR (\<lambda>m'. kept m m' \<and>
          mr_type m' = lcluster_type_of (unat (drop_bit Z_EROFS_LI_LCLUSTER_TYPE_BIT (di_advise di) AND 3)))
     (legacy_decode vi di m)"
  by (simp add: legacy_decode_def Let_def kept_def split: lcluster_type.split)

lemma unpack_nonhead_kept:
  "okR (\<lambda>m'. kept m m' \<and> mr_type m' = mr_type m) (unpack_nonhead vi la lobits eb vcnt buf i lo m)"
  by (simp add: unpack_nonhead_def Let_def kept_def)

lemma unpack_head_kept:
  "okR (\<lambda>m'. kept m m' \<and> mr_type m' = mr_type m \<and> mr_clusterofs m' = ucast lo) (unpack_head vi lobits eb psz buf i lo m)"
  by (simp add: unpack_head_def Let_def kept_def)

text \<open>The entry that a compact index is decoded from.\<close>

definition compacted_entry ::
    "erofs_sb_info \<Rightarrow> erofs_inode \<Rightarrow> nat \<Rightarrow> u64 \<Rightarrow> bytes \<Rightarrow> (u32 \<times> lcluster_type) result" where
  "compacted_entry sbi vi sh pos page =
     (case pack_vcnt sh (lcbits vi) of
        None \<Rightarrow> Err EOPNOTSUPP
      | Some vcnt \<Rightarrow>
          let packsz = vcnt * 2 ^ sh; eofs = unat (erofs_blkoff sbi pos); base = eofs div packsz * packsz in
          decode_compactedbits (pack_lobits (lcbits vi)) (drop base page)
            ((packsz - 4) * 8 div vcnt * ((eofs - base) div 2 ^ sh)))"

lemma unpack_compacted_index_kept:
  "okR (\<lambda>m'. kept m m' \<and>
          (\<exists>lo. compacted_entry sbi vi sh pos (mpage (mr_map m)) = Inr (lo, mr_type m') \<and>
                (mr_type m' \<noteq> Z_EROFS_LCLUSTER_TYPE_NONHEAD \<longrightarrow> mr_clusterofs m' = ucast lo)))
     (unpack_compacted_index sbi vi sh pos la m)"
  unfolding unpack_compacted_index_def compacted_entry_def Let_def
  by (auto simp: kept_def split: option.splits intro!: okRI dest!: okRD [OF unpack_nonhead_kept] okRD [OF unpack_head_kept])

definition load_pos :: "erofs_sb_info \<Rightarrow> erofs_inode \<Rightarrow> u64 \<Rightarrow> u64 \<times> nat" where
  "load_pos sbi vi lcn =
     (let ebase = compacted_ebase sbi vi; initial = compacted_4b_initial ebase in
      compacted_pos ebase initial (compacted_2b vi initial (ucast (BLK_ROUND_UP sbi (i_size vi)))) lcn)"

lemma compacted_loadE:
  assumes "compacted_load_cluster_from_disk sbi vi lcn la m = Inr m'"
  obtains m1 lo where
    "z_erofs_reload_indexes sbi (ucast (erofs_blknr sbi (fst (load_pos sbi vi lcn)))) (m\<lparr>mr_lcn := lcn\<rparr>) = Inr m1"
    "kept m1 m'"
    "compacted_entry sbi vi (snd (load_pos sbi vi lcn)) (fst (load_pos sbi vi lcn)) (mpage (mr_map m1)) = Inr (lo, mr_type m')"
    "mr_type m' \<noteq> Z_EROFS_LCLUSTER_TYPE_NONHEAD \<longrightarrow> mr_clusterofs m' = ucast lo"
  using assms
  by (auto simp: compacted_load_cluster_from_disk_def load_pos_def Let_def case_prod_beta split: if_splits
      dest!: okRD [OF unpack_compacted_index_kept])

lemma legacy_loadE:
  assumes "legacy_load_cluster_from_disk sbi vi lcn m = Inr m'"
  obtains m1 where
    "z_erofs_reload_indexes sbi (ucast (erofs_blknr sbi (legacy_index_pos sbi vi lcn))) m = Inr m1"
    "kept (m1\<lparr>mr_lcn := lcn\<rparr>) m'"
    "mr_type m' = lcluster_type_of (unat (drop_bit Z_EROFS_LI_LCLUSTER_TYPE_BIT (di_advise (dec_lcluster_index
       (take 8 (drop (unat (erofs_blkoff sbi (legacy_index_pos sbi vi lcn))) (mpage (mr_map m1)))))) AND 3))"
proof -
  obtain m1 s where m1: "z_erofs_reload_indexes sbi (ucast (erofs_blknr sbi (legacy_index_pos sbi vi lcn))) m = Inr m1"
    and s: "s = take 8 (drop (unat (erofs_blkoff sbi (legacy_index_pos sbi vi lcn))) (mpage (mr_map m1)))"
    and d: "legacy_decode vi (dec_lcluster_index s)
             (m1\<lparr>mr_nextpackoff := legacy_index_pos sbi vi lcn + 8, mr_lcn := lcn\<rparr>) = Inr m'"
    using assms by (auto simp: legacy_load_cluster_from_disk_def Let_def)
  have "kept (m1\<lparr>mr_lcn := lcn\<rparr>) m'"
    using okRD [OF legacy_decode_kept d] by (simp add: kept_def)
  then show thesis using that [OF m1] okRD [OF legacy_decode_kept d] by (simp only: s simp_thms)
qed

lemma load_cluster_cases:
  assumes "z_erofs_load_cluster_from_disk sbi vi lcn la m = Inr m'"
  obtains "datalayout vi = EROFS_INODE_COMPRESSED_FULL"
      "legacy_load_cluster_from_disk sbi vi (ucast (ucast lcn :: u32)) m = Inr m'"
    | "datalayout vi = EROFS_INODE_COMPRESSED_COMPACT"
      "compacted_load_cluster_from_disk sbi vi (ucast (ucast lcn :: u32)) la m = Inr m'"
  using assms unfolding z_erofs_load_cluster_from_disk_def Let_def by (auto split: if_split_asm)

lemma load_cluster_frame:
  assumes "z_erofs_load_cluster_from_disk sbi vi lcn la m = Inr m'"
  shows "mr_lcn m' = ucast (ucast lcn :: u32) \<and> framed m m'"
  using assms
proof (cases rule: load_cluster_cases)
  case 1
  from 1(2) show ?thesis
    by (elim legacy_loadE) (drule okRD [OF reload_frame], simp add: framed_def kept_def)
next
  case 2
  from 2(2) show ?thesis
    by (elim compacted_loadE) (drule okRD [OF reload_frame], simp add: framed_def kept_def)
qed

text \<open>Loading the same cluster again, with the index block still cached, finds the same type.\<close>

lemma load_cluster_again:
  assumes "z_erofs_load_cluster_from_disk sbi vi lcn la m = Inr m1"
    and "mpage (mr_map m2) = mpage (mr_map m1)" "map_index (mr_map m2) = map_index (mr_map m1)"
    and "z_erofs_load_cluster_from_disk sbi vi lcn la' m2 = Inr m3"
  shows "mr_type m3 = mr_type m1"
  using assms(1)
proof (cases rule: load_cluster_cases)
  case 1
  from 1(1) assms(4) have l2: "legacy_load_cluster_from_disk sbi vi (ucast (ucast lcn :: u32)) m2 = Inr m3"
    by (elim load_cluster_cases) simp_all
  from 1(2) show ?thesis
  proof (rule legacy_loadE)
    fix k assume k: "z_erofs_reload_indexes sbi (ucast (erofs_blknr sbi (legacy_index_pos sbi vi (ucast (ucast lcn :: u32))))) m = Inr k"
      "kept (k\<lparr>mr_lcn := ucast (ucast lcn :: u32)\<rparr>) m1"
      "mr_type m1 = lcluster_type_of (unat (drop_bit Z_EROFS_LI_LCLUSTER_TYPE_BIT (di_advise (dec_lcluster_index
       (take 8 (drop (unat (erofs_blkoff sbi (legacy_index_pos sbi vi (ucast (ucast lcn :: u32))))) (mpage (mr_map k)))))) AND 3))"
    then have "mpage (mr_map k) = mpage (mr_map m2)"
      and "map_index (mr_map m2) = ucast (erofs_blknr sbi (legacy_index_pos sbi vi (ucast (ucast lcn :: u32))))"
      using okRD [OF reload_frame k(1)] assms(2,3) by (simp_all add: kept_def)
    with k(3) show ?thesis
      using l2 by (elim legacy_loadE) (simp only: reload_cached sum.inject)
  qed
next
  case 2
  from 2(1) assms(4) have l2: "compacted_load_cluster_from_disk sbi vi (ucast (ucast lcn :: u32)) la' m2 = Inr m3"
    by (elim load_cluster_cases) simp_all
  from 2(2) show ?thesis
  proof (rule compacted_loadE)
    let ?p = "load_pos sbi vi (ucast (ucast lcn :: u32))"
    fix k lo assume k: "z_erofs_reload_indexes sbi (ucast (erofs_blknr sbi (fst ?p))) (m\<lparr>mr_lcn := ucast (ucast lcn :: u32)\<rparr>) = Inr k"
      "kept k m1" "compacted_entry sbi vi (snd ?p) (fst ?p) (mpage (mr_map k)) = Inr (lo, mr_type m1)"
    then have p: "mpage (mr_map k) = mpage (mr_map m2)"
      and i: "map_index (mr_map (m2\<lparr>mr_lcn := ucast (ucast lcn :: u32)\<rparr>)) = ucast (erofs_blknr sbi (fst ?p))"
      using okRD [OF reload_frame k(1)] assms(2,3) by (simp_all add: kept_def)
    from l2 show ?thesis
      by (rule compacted_loadE) (use k(3) p reload_cached [OF i] in auto)
  qed
qed

lemmas z_erofs_load_cluster_lcn = load_cluster_frame [THEN conjunct1]

section \<open>From a logical cluster to its extent\<close>

definition upd_map :: "(erofs_map_blocks \<Rightarrow> erofs_map_blocks) \<Rightarrow> z_erofs_maprecorder \<Rightarrow> z_erofs_maprecorder" where
  "upd_map f m = m\<lparr>mr_map := f (mr_map m)\<rparr>"

lemma upd_map_sel [simp]:
  "mr_map (upd_map f m) = f (mr_map m)" "mr_lcn (upd_map f m) = mr_lcn m"
  "mr_type (upd_map f m) = mr_type m" "mr_headtype (upd_map f m) = mr_headtype m"
  "mr_clusterofs (upd_map f m) = mr_clusterofs m" "mr_pblk (upd_map f m) = mr_pblk m"
  by (simp_all add: upd_map_def)

lemma ucast32_le: "unat (ucast (ucast lcn :: u32) :: u64) \<le> unat (lcn :: u64)"
  by (simp only: unsigned_ucast_eq unsigned_take_bit_eq)
    (meson le_trans take_bit_nat_less_eq_self)

text \<open>Walking back, by the distances the indexes give, to the lcluster that starts the extent.\<close>

function z_erofs_extent_lookback ::
    "erofs_sb_info \<Rightarrow> erofs_inode \<Rightarrow> u32 \<Rightarrow> z_erofs_maprecorder \<Rightarrow> z_erofs_maprecorder result" where
  "z_erofs_extent_lookback sbi vi lookback_distance m =
     (if mr_lcn m < ucast lookback_distance then Err EFSCORRUPTED
      else let lcn = mr_lcn m - ucast lookback_distance in
           bindR (z_erofs_load_cluster_from_disk sbi vi lcn False m) (\<lambda>m.
             if mr_type m = Z_EROFS_LCLUSTER_TYPE_NONHEAD
             then if mr_delta0 m = 0 then Err EFSCORRUPTED
                  else z_erofs_extent_lookback sbi vi (ucast (mr_delta0 m)) m
             else if mr_type m = Z_EROFS_LCLUSTER_TYPE_HEAD2 then Err EOPNOTSUPP
             else Inr (upd_map (\<lambda>mp. mp\<lparr>m_la := push_bit (lcbits vi) lcn OR ucast (mr_clusterofs m)\<rparr>)
                         (m\<lparr>mr_headtype := mr_type m\<rparr>))))"
  by pat_completeness auto
termination
proof (relation "measure (\<lambda>(sbi, vi, d, m). 2 * unat (mr_lcn m) + (if d = 0 then 1 else 0))", goal_cases)
  case 1
  then show ?case by simp
next
  case (2 sbi vi d m lcn m')
  have d: "unat (ucast d :: u64) = unat d" by (simp add: unat_ucast_up)
  have "unat (mr_lcn m') \<le> unat lcn"
    using z_erofs_load_cluster_lcn [OF 2(3)] ucast32_le [of lcn] by simp
  moreover have "unat lcn = unat (mr_lcn m) - unat d"
    using 2(1,2) d by (simp add: unat_sub word_le_nat_alt word_less_nat_alt)
  moreover have "unat d \<le> unat (mr_lcn m)"
    using 2(1) d by (simp add: word_less_nat_alt)
  moreover have "(ucast (mr_delta0 m') :: u32) \<noteq> 0"
  proof -
    have "unat (ucast (mr_delta0 m') :: u32) = unat (mr_delta0 m')" by (simp add: unat_ucast_up)
    then show ?thesis using 2(5) by (auto simp: word_unat_eq_iff)
  qed
  moreover have "d \<noteq> 0 \<Longrightarrow> 0 < unat d" by (simp add: unat_gt_0)
  ultimately show ?case by auto
qed

declare z_erofs_extent_lookback.simps [simp del]

definition z_erofs_get_extent_compressedlen ::
    "erofs_sb_info \<Rightarrow> erofs_inode \<Rightarrow> z_erofs_maprecorder \<Rightarrow> z_erofs_maprecorder result" where
  "z_erofs_get_extent_compressedlen sbi vi m =
     (if mr_headtype m = Z_EROFS_LCLUSTER_TYPE_PLAIN \<or>
         \<not> has_advise vi Z_EROFS_ADVISE_BIG_PCLUSTER_1
      then Inr (upd_map (\<lambda>mp. mp\<lparr>m_plen := push_bit (lcbits vi) 1\<rparr>) m)
      else bindR (if mr_compressedblks m \<noteq> 0 then Inr m
                  else bindR (z_erofs_load_cluster_from_disk sbi vi (mr_lcn m + 1) False m) (\<lambda>m.
                    case mr_type m of
                      Z_EROFS_LCLUSTER_TYPE_NONHEAD \<Rightarrow>
                        if mr_delta0 m \<noteq> 1 then Err EFSCORRUPTED
                        else if mr_compressedblks m \<noteq> 0 then Inr m
                        else Err EFSCORRUPTED
                    | Z_EROFS_LCLUSTER_TYPE_HEAD2 \<Rightarrow> Err EFSCORRUPTED
                    | _ \<Rightarrow> Inr (m\<lparr>mr_compressedblks := push_bit (lcbits vi - blkbits sbi) 1\<rparr>)))
             (\<lambda>m. Inr (upd_map (\<lambda>mp. mp\<lparr>m_plen := ucast (push_bit (blkbits sbi) (mr_compressedblks m))\<rparr>) m)))"

text \<open>
  Looking ahead for the end of the extent.  The lcluster number is a natural number here; the
  comparison \<^verbatim>\<open>(lcn << lclusterbits) >= vi->i_size\<close> of the source is this one as long as the shift does not
  wrap, that is for every file smaller than \<^verbatim>\<open>2^64 - 2^35\<close> bytes (see \<^verbatim>\<open>lookahead_no_wrap\<close> below).
\<close>

definition lookahead_done :: "erofs_inode \<Rightarrow> nat \<Rightarrow> z_erofs_maprecorder \<Rightarrow> z_erofs_maprecorder" where
  "lookahead_done vi lcn m =
     upd_map (\<lambda>mp. mp\<lparr>m_llen := push_bit (lcbits vi) (of_nat lcn) + ucast (mr_clusterofs m) - m_la mp\<rparr>) m"

function decompressedlen_loop ::
    "erofs_sb_info \<Rightarrow> erofs_inode \<Rightarrow> nat \<Rightarrow> nat \<Rightarrow> z_erofs_maprecorder \<Rightarrow> z_erofs_maprecorder result" where
  "decompressedlen_loop sbi vi headlcn lcn m =
     (if unat (i_size vi) \<le> lcn * 2 ^ lcbits vi
      then Inr (upd_map (\<lambda>mp. mp\<lparr>m_llen := i_size vi - m_la mp\<rparr>) m)
      else bindR (z_erofs_load_cluster_from_disk sbi vi (of_nat lcn) True m) (\<lambda>m.
        if mr_type m = Z_EROFS_LCLUSTER_TYPE_NONHEAD
        then if mr_delta1 m = 0 then Inr (lookahead_done vi lcn m)
             else decompressedlen_loop sbi vi headlcn (lcn + unat (mr_delta1 m)) m
        else if mr_type m = Z_EROFS_LCLUSTER_TYPE_HEAD2 then Err EOPNOTSUPP
        else if lcn \<noteq> headlcn then Inr (lookahead_done vi lcn m)
        else decompressedlen_loop sbi vi headlcn (lcn + 1) (m\<lparr>mr_delta1 := 1\<rparr>)))"
  by pat_completeness auto
termination
proof (relation "measure (\<lambda>(sbi, vi, headlcn, lcn, m). unat (i_size vi) - lcn)", goal_cases)
  case 1
  then show ?case by simp
next
  case (2 sbi vi headlcn lcn m m')
  have "lcn \<le> lcn * 2 ^ lcbits vi" by simp
  then have "lcn < unat (i_size vi)" using 2(1) by linarith
  moreover have "0 < unat (mr_delta1 m')" using 2(4) by (simp add: unat_gt_0)
  ultimately show ?case by simp
next
  case (3 sbi vi headlcn lcn m m')
  have "lcn \<le> lcn * 2 ^ lcbits vi" by simp
  then have "lcn < unat (i_size vi)" using 3(1) by linarith
  then show ?case by simp
qed

declare decompressedlen_loop.simps [simp del]

definition z_erofs_get_extent_decompressedlen ::
    "erofs_sb_info \<Rightarrow> erofs_inode \<Rightarrow> z_erofs_maprecorder \<Rightarrow> z_erofs_maprecorder result" where
  "z_erofs_get_extent_decompressedlen sbi vi m =
     decompressedlen_loop sbi vi (unat (drop_bit (lcbits vi) (m_la (mr_map m)))) (unat (mr_lcn m)) m"

section \<open>Mapping\<close>

text \<open>
  The four stages of \<^verbatim>\<open>z_erofs_do_map_blocks\<close>: finding the head lcluster, the end offset and the
  flags; placing the extent; its algorithm; and, for \<^verbatim>\<open>FIEMAP\<close>, its exact length.
\<close>

definition do_map_find ::
    "erofs_sb_info \<Rightarrow> erofs_inode \<Rightarrow> u32 \<Rightarrow> z_erofs_maprecorder \<Rightarrow> (z_erofs_maprecorder \<times> u64) result" where
  "do_map_find sbi vi endoff m0 =
     (let m = upd_map (\<lambda>mp. mp\<lparr>m_flags := EROFS_MAP_MAPPED OR EROFS_MAP_ENCODED\<rparr>) m0;
          end = push_bit (lcbits vi) (mr_lcn m + 1);
          headla = push_bit (lcbits vi) (mr_lcn m) OR ucast (mr_clusterofs m)
      in if mr_type m = Z_EROFS_LCLUSTER_TYPE_HEAD2 then Err EOPNOTSUPP
         else if mr_type m = Z_EROFS_LCLUSTER_TYPE_NONHEAD
         then bindR (z_erofs_extent_lookback sbi vi (ucast (mr_delta0 m)) m) (\<lambda>m. Inr (m, end))
         else if ucast (mr_clusterofs m) \<le> endoff
         then Inr (upd_map (\<lambda>mp. mp\<lparr>m_la := headla\<rparr>) (m\<lparr>mr_headtype := mr_type m\<rparr>),
                   if has_advise vi Z_EROFS_ADVISE_INLINE_PCLUSTER \<and> i_size vi < end then i_size vi else end)
         else if mr_lcn m = 0 then Err EFSCORRUPTED
         else bindR (z_erofs_extent_lookback sbi vi 1
                       (upd_map (\<lambda>mp. mp\<lparr>m_flags := m_flags mp OR EROFS_MAP_FULL_MAPPED\<rparr>) (m\<lparr>mr_delta0 := 1\<rparr>)))
                (\<lambda>m. Inr (m, headla)))"

definition do_map_tail :: "erofs_inode \<Rightarrow> z_erofs_maprecorder \<Rightarrow> erofs_inode" where
  "do_map_tail vi m =
     (let vi = vi\<lparr>z_tailextent_headlcn := mr_lcn m\<rparr> in
      if has_advise vi Z_EROFS_ADVISE_FRAGMENT_PCLUSTER \<and> datalayout vi = EROFS_INODE_COMPRESSED_FULL
      then vi\<lparr>z_u := fragmentoff vi OR push_bit 32 (ucast (mr_pblk m))\<rparr> else vi)"

definition do_map_place ::
    "erofs_sb_info \<Rightarrow> erofs_inode \<Rightarrow> z_erofs_maprecorder \<Rightarrow> z_erofs_maprecorder result" where
  "do_map_place sbi vi m =
     (if has_advise vi Z_EROFS_ADVISE_INLINE_PCLUSTER \<and> mr_lcn m = z_tailextent_headlcn vi
      then Inr (upd_map (\<lambda>mp. mp\<lparr>m_flags := m_flags mp OR EROFS_MAP_META, m_pa := ucast (z_idataoff vi),
                                  m_plen := ucast (idata_size vi)\<rparr>) m)
      else if has_advise vi Z_EROFS_ADVISE_FRAGMENT_PCLUSTER \<and> mr_lcn m = z_tailextent_headlcn vi
      then Inr (upd_map (\<lambda>mp. mp\<lparr>m_flags := m_flags mp OR EROFS_MAP_FRAGMENT\<rparr>) m)
      else z_erofs_get_extent_compressedlen sbi vi
             (upd_map (\<lambda>mp. mp\<lparr>m_pa := erofs_pos sbi (mr_pblk m)\<rparr>) m))"

definition do_map_algo :: "erofs_inode \<Rightarrow> z_erofs_maprecorder \<Rightarrow> z_erofs_maprecorder result" where
  "do_map_algo vi m =
     (if mr_headtype m = Z_EROFS_LCLUSTER_TYPE_PLAIN
      then if m_plen (mr_map m) < m_llen (mr_map m) then Err EFSCORRUPTED
           else Inr (upd_map (\<lambda>mp. mp\<lparr>m_algorithmformat :=
                        (if has_advise vi Z_EROFS_ADVISE_INTERLACED_PCLUSTER
                         then Z_EROFS_COMPRESSION_INTERLACED else Z_EROFS_COMPRESSION_SHIFTED)\<rparr>) m)
      else Inr (upd_map (\<lambda>mp. mp\<lparr>m_algorithmformat := z_algorithmtype0 vi\<rparr>) m))"

definition do_map_fiemap ::
    "erofs_sb_info \<Rightarrow> erofs_inode \<Rightarrow> u32 \<Rightarrow> z_erofs_maprecorder \<Rightarrow> z_erofs_maprecorder result" where
  "do_map_fiemap sbi vi flgs m =
     (if flgs AND EROFS_GET_BLOCKS_FIEMAP \<noteq> 0
      then bindR (z_erofs_get_extent_decompressedlen sbi vi m)
             (\<lambda>m. Inr (upd_map (\<lambda>mp. mp\<lparr>m_flags := m_flags mp OR EROFS_MAP_FULL_MAPPED\<rparr>) m))
      else Inr m)"

definition z_erofs_do_map_blocks ::
    "erofs_sb_info \<Rightarrow> erofs_inode \<Rightarrow> erofs_map_blocks \<Rightarrow> u32 \<Rightarrow> (erofs_inode \<times> erofs_map_blocks) result" where
  "z_erofs_do_map_blocks sbi vi mp flgs =
     (let findtail = (flgs AND EROFS_GET_BLOCKS_FINDTAIL \<noteq> 0);
          ofs = (if findtail then i_size vi - 1 else m_la mp);
          initial_lcn = drop_bit (lcbits vi) ofs;
          endoff = ucast (take_bit (lcbits vi) ofs)
      in bindR (z_erofs_load_cluster_from_disk sbi vi initial_lcn False (init_recorder mp)) (\<lambda>m.
           let vi = (if has_advise vi Z_EROFS_ADVISE_INLINE_PCLUSTER \<and> findtail
                     then set_z_idataoff (ucast (mr_nextpackoff m)) vi else vi) in
           bindR (do_map_find sbi vi endoff m) (\<lambda>(m, end).
             let m = upd_map (\<lambda>mp. mp\<lparr>m_flags := (if mr_partialref m then m_flags mp OR EROFS_MAP_PARTIAL_REF
                                                   else m_flags mp),
                                      m_llen := end - m_la mp\<rparr>) m;
                 vi = (if findtail then do_map_tail vi m else vi)
             in bindR (do_map_place sbi vi m) (\<lambda>m.
                  bindR (do_map_algo vi m) (\<lambda>m.
                    bindR (do_map_fiemap sbi vi flgs m) (\<lambda>m. Inr (vi, mr_map m)))))))"

text \<open>
  The map header is read once per inode.  If mapping the tail of an inline pcluster fails, the
  physical length of the map is either still 0 or the error is \<^verbatim>\<open>EFSCORRUPTED\<close> already, so every errno becomes
  \<^verbatim>\<open>EFSCORRUPTED\<close>.  On failure the \<^verbatim>\<open>EROFS_I_Z_INITED\<close> flag stays clear and the members set on the way are
  set again by the next attempt.
\<close>

definition lazy_inline :: "erofs_sb_info \<Rightarrow> z_erofs_map_header \<Rightarrow> erofs_inode \<Rightarrow> erofs_inode result" where
  "lazy_inline sbi h vi =
     (if has_advise vi Z_EROFS_ADVISE_INLINE_PCLUSTER
      then case z_erofs_do_map_blocks sbi (vi\<lparr>idata_size := h_idata_size h\<rparr>) init_map EROFS_GET_BLOCKS_FINDTAIL of
             Inl (Errno e) \<Rightarrow> Err EFSCORRUPTED
           | Inl x \<Rightarrow> Inl x
           | Inr (vi, mp) \<Rightarrow>
               if m_plen mp = 0 \<or>
                  ucast (erofs_blksiz sbi) < erofs_blkoff sbi (m_pa mp) + m_plen mp
               then Err EFSCORRUPTED else Inr vi
      else Inr vi)"

definition lazy_fragment :: "erofs_sb_info \<Rightarrow> z_erofs_map_header \<Rightarrow> erofs_inode \<Rightarrow> erofs_inode result" where
  "lazy_fragment sbi h vi =
     (if has_advise vi Z_EROFS_ADVISE_FRAGMENT_PCLUSTER
      then bindR (z_erofs_do_map_blocks sbi (vi\<lparr>z_u := ucast (h_fragmentoff h)\<rparr>) init_map EROFS_GET_BLOCKS_FINDTAIL)
             (\<lambda>(vi, mp). Inr vi)
      else Inr vi)"

definition z_erofs_fill_inode_lazy :: "erofs_sb_info \<Rightarrow> erofs_inode \<Rightarrow> erofs_inode result" where
  "z_erofs_fill_inode_lazy sbi vi =
     (if flags vi AND EROFS_I_Z_INITED \<noteq> 0 then Inr vi
      else let pos = round_up (erofs_iloc sbi vi + ucast (inode_isize vi) + ucast (xattr_isize vi)) 8 in
        bindR (mapErr toEIO (erofs_dev_read sbi 0 pos 8)) (\<lambda>buf.
          let h = dec_map_header buf in
          if drop_bit Z_EROFS_FRAGMENT_INODE_BIT (h_clusterbits h) \<noteq> 0
          then Inr (vi\<lparr>z_advise := Z_EROFS_ADVISE_FRAGMENT_PCLUSTER,
                       z_u := le_get buf XOR push_bit 63 1, z_tailextent_headlcn := 0,
                       flags := flags vi OR EROFS_I_Z_INITED\<rparr>)
          else
            let vi = vi\<lparr>z_advise := h_advise h, z_algorithmtype0 := h_algorithmtype h AND 15,
                        z_algorithmtype1 := drop_bit 4 (h_algorithmtype h)\<rparr> in
            if 4 \<le> z_algorithmtype0 vi then Err EOPNOTSUPP
            else
              let vi = vi\<lparr>z_logical_clusterbits := blkszbits sbi + (h_clusterbits h AND 7)\<rparr> in
              if datalayout vi = EROFS_INODE_COMPRESSED_COMPACT \<and>
                 has_advise vi Z_EROFS_ADVISE_BIG_PCLUSTER_1 \<noteq> has_advise vi Z_EROFS_ADVISE_BIG_PCLUSTER_2
              then Err EFSCORRUPTED
              else bindR (lazy_inline sbi h vi) (\<lambda>vi.
                     bindR (lazy_fragment sbi h vi) (\<lambda>vi.
                       Inr (vi\<lparr>flags := flags vi OR EROFS_I_Z_INITED\<rparr>)))))"

definition z_erofs_map_blocks_iter ::
    "erofs_sb_info \<Rightarrow> erofs_inode \<Rightarrow> erofs_map_blocks \<Rightarrow> u32 \<Rightarrow> (erofs_inode \<times> erofs_map_blocks) result" where
  "z_erofs_map_blocks_iter sbi vi mp flgs =
     (if i_size vi \<le> m_la mp
      then Inr (vi, mp\<lparr>m_llen := m_la mp + 1 - i_size vi, m_la := i_size vi, m_flags := 0\<rparr>)
      else bindR (z_erofs_fill_inode_lazy sbi vi) (\<lambda>vi.
        if has_advise vi Z_EROFS_ADVISE_FRAGMENT_PCLUSTER \<and> z_tailextent_headlcn vi = 0
        then Inr (vi, mp\<lparr>m_la := 0, m_llen := i_size vi,
                         m_flags := EROFS_MAP_MAPPED OR EROFS_MAP_FULL_MAPPED OR EROFS_MAP_FRAGMENT\<rparr>)
        else z_erofs_do_map_blocks sbi vi mp flgs))"

section \<open>What a mapping guarantees\<close>

definition is_head :: "lcluster_type \<Rightarrow> bool" where
  "is_head t \<longleftrightarrow> t = Z_EROFS_LCLUSTER_TYPE_PLAIN \<or> t = Z_EROFS_LCLUSTER_TYPE_HEAD1"

text \<open>A map whose index page is the block it says it is, or that was just initialised.\<close>

definition cached :: "erofs_sb_info \<Rightarrow> erofs_map_blocks \<Rightarrow> bool" where
  "cached sbi mp \<longleftrightarrow>
     map_index mp = 0xffffffff \<and> mpage mp = replicate EROFS_MAX_BLOCK_SIZE 0 \<or>
     (\<exists>page. erofs_blk_read sbi 0 (map_index mp) 1 = Inr page \<and> take (length page) (mpage mp) = page)"

lemma cached_init_map [simp]: "cached sbi init_map"
  by (simp add: cached_def init_map_def)

lemma cached_update [simp]:
  "cached sbi (m_la_update f mp) = cached sbi mp" "cached sbi (m_flags_update g mp) = cached sbi mp"
  by (simp_all add: cached_def)

lemma reload_cached_ok:
  "cached sbi (mr_map m) \<Longrightarrow> z_erofs_reload_indexes sbi eblk m = Inr m' \<Longrightarrow> cached sbi (mr_map m')"
  by (auto simp: z_erofs_reload_indexes_def cached_def fsplice_def split: if_splits)

lemma load_cached_ok:
  assumes "z_erofs_load_cluster_from_disk sbi vi lcn la m = Inr m'" and c: "cached sbi (mr_map m)"
  shows "cached sbi (mr_map m')"
  using assms(1)
proof (cases rule: load_cluster_cases)
  case 1
  from 1(2) show ?thesis
    by (elim legacy_loadE) (drule reload_cached_ok [OF c], simp add: kept_def)
next
  case 2
  have c': "cached sbi (mr_map (m\<lparr>mr_lcn := k\<rparr>))" for k using c by simp
  from 2(2) show ?thesis
    by (elim compacted_loadE) (drule reload_cached_ok [OF c'], simp add: kept_def)
qed

text \<open>
  The in-cluster offsets of the extents lie inside their clusters.  Nothing in \<^verbatim>\<open>zmap.c\<close> checks it.
\<close>

definition clusterofs_ok :: "erofs_sb_info \<Rightarrow> erofs_inode \<Rightarrow> bool" where
  "clusterofs_ok sbi vi \<longleftrightarrow>
     (\<forall>lcn la m m'. cached sbi (mr_map m) \<longrightarrow> z_erofs_load_cluster_from_disk sbi vi lcn la m = Inr m' \<longrightarrow>
        is_head (mr_type m') \<longrightarrow> unat (mr_clusterofs m') < 2 ^ lcbits vi)"

lemma clusterofs_okD:
  "clusterofs_ok sbi vi \<Longrightarrow> cached sbi (mr_map m) \<Longrightarrow> z_erofs_load_cluster_from_disk sbi vi lcn la m = Inr m' \<Longrightarrow>
     is_head (mr_type m') \<Longrightarrow> unat (mr_clusterofs m') < 2 ^ lcbits vi"
  by (simp add: clusterofs_ok_def)

lemma lcluster_type_cases4:
  "mr_type m \<noteq> Z_EROFS_LCLUSTER_TYPE_NONHEAD \<Longrightarrow> mr_type m \<noteq> Z_EROFS_LCLUSTER_TYPE_HEAD2 \<Longrightarrow> is_head (mr_type m)"
  by (cases "mr_type m") (auto simp: is_head_def)

lemma ucast_ucast_small: "unat (lcn :: u64) < 2 ^ 32 \<Longrightarrow> ucast (ucast lcn :: u32) = lcn"
  by (rule ucast_down_up) simp_all

text \<open>The head that a look back ends at: at or before the cluster \<^verbatim>\<open>lcn\<close>.\<close>

definition head_found :: "erofs_inode \<Rightarrow> nat \<Rightarrow> u32 \<Rightarrow> z_erofs_maprecorder \<Rightarrow> bool" where
  "head_found vi lcn fl m \<longleftrightarrow>
     is_head (mr_type m) \<and> mr_headtype m = mr_type m \<and> unat (mr_lcn m) \<le> lcn \<and>
     m_flags (mr_map m) = fl \<and>
     m_la (mr_map m) = push_bit (lcbits vi) (mr_lcn m) OR ucast (mr_clusterofs m) \<and>
     unat (mr_clusterofs m) < 2 ^ lcbits vi"

lemma lookback_head:
  assumes "z_erofs_extent_lookback sbi vi d m = Inr m'"
    and "clusterofs_ok sbi vi" and "unat (mr_lcn m) < 2 ^ 32" and "cached sbi (mr_map m)"
  shows "head_found vi (unat (mr_lcn m) - unat d) (m_flags (mr_map m)) m' \<and> unat d \<le> unat (mr_lcn m)"
  using assms
proof (induction sbi vi d m rule: z_erofs_extent_lookback.induct)
  case (1 sbi vi d m)
  define lcn where "lcn = mr_lcn m - ucast d"
  have d: "unat (ucast d :: u64) = unat d" by (simp add: unat_ucast_up)
  have le: "\<not> mr_lcn m < ucast d"
    using 1(2) [unfolded z_erofs_extent_lookback.simps [of sbi vi d m]] by (auto split: if_splits)
  then have dle: "unat d \<le> unat (mr_lcn m)" by (simp add: word_less_nat_alt d)
  have lcn: "unat lcn = unat (mr_lcn m) - unat d"
    using le d by (simp add: lcn_def unat_sub word_le_nat_alt word_less_nat_alt)
  obtain m1 where m1: "z_erofs_load_cluster_from_disk sbi vi lcn False m = Inr m1"
    and r: "(if mr_type m1 = Z_EROFS_LCLUSTER_TYPE_NONHEAD
             then if mr_delta0 m1 = 0 then Err EFSCORRUPTED
                  else z_erofs_extent_lookback sbi vi (ucast (mr_delta0 m1)) m1
             else if mr_type m1 = Z_EROFS_LCLUSTER_TYPE_HEAD2 then Err EOPNOTSUPP
             else Inr (upd_map (\<lambda>mp. mp\<lparr>m_la := push_bit (lcbits vi) lcn OR ucast (mr_clusterofs m1)\<rparr>)
                         (m1\<lparr>mr_headtype := mr_type m1\<rparr>))) = Inr m'"
    using 1(2) [unfolded z_erofs_extent_lookback.simps [of sbi vi d m]] le
    by (simp only: if_False Let_def lcn_def [symmetric] bindR_eq_Inr) blast
  have "unat lcn < 2 ^ 32" using 1(4) lcn by simp
  then have f1: "mr_lcn m1 = lcn"
    using load_cluster_frame [OF m1] by (simp only: ucast_ucast_small)
  have f2: "m_flags (mr_map m1) = m_flags (mr_map m)"
    using framedD [OF load_cluster_frame [OF m1, THEN conjunct2]] by simp
  note f = f1 f2
  show ?case
  proof (cases "mr_type m1 = Z_EROFS_LCLUSTER_TYPE_NONHEAD")
    case True
    then have "mr_delta0 m1 \<noteq> 0" and "z_erofs_extent_lookback sbi vi (ucast (mr_delta0 m1)) m1 = Inr m'"
      using r by (auto split: if_splits)
    then have "head_found vi (unat (mr_lcn m1) - unat (ucast (mr_delta0 m1) :: u32)) (m_flags (mr_map m1)) m'"
      using 1(1) [OF le lcn_def m1 True _ _ 1(3) _ load_cached_ok [OF m1 1(5)]] f lcn 1(4) by simp
    then show ?thesis using f lcn dle by (auto simp: head_found_def)
  next
    case False
    then have ty: "mr_type m1 \<noteq> Z_EROFS_LCLUSTER_TYPE_HEAD2" and
      m': "m' = upd_map (\<lambda>mp. mp\<lparr>m_la := push_bit (lcbits vi) lcn OR ucast (mr_clusterofs m1)\<rparr>)
                         (m1\<lparr>mr_headtype := mr_type m1\<rparr>)"
      using r by (auto split: if_splits)
    have h: "is_head (mr_type m1)" using lcluster_type_cases4 [OF False ty] .
    then show ?thesis
      using f lcn dle clusterofs_okD [OF 1(3) 1(5) m1 h] by (simp add: head_found_def m')
  qed
qed

lemma compressedlen_frame:
  assumes "z_erofs_get_extent_compressedlen sbi vi m = Inr m'"
  shows "m_la (mr_map m') = m_la (mr_map m) \<and> m_llen (mr_map m') = m_llen (mr_map m) \<and>
    m_flags (mr_map m') = m_flags (mr_map m) \<and> m_pa (mr_map m') = m_pa (mr_map m) \<and> mr_headtype m' = mr_headtype m"
proof -
  have l: "okR (\<lambda>m'. framed m m') (z_erofs_load_cluster_from_disk sbi vi n False m)" for n
    by (rule okRI) (simp add: load_cluster_frame)
  have "okR (\<lambda>m'. m_la (mr_map m') = m_la (mr_map m) \<and> m_llen (mr_map m') = m_llen (mr_map m) \<and>
    m_flags (mr_map m') = m_flags (mr_map m) \<and> m_pa (mr_map m') = m_pa (mr_map m) \<and> mr_headtype m' = mr_headtype m)
    (z_erofs_get_extent_compressedlen sbi vi m)"
    unfolding z_erofs_get_extent_compressedlen_def
    by (auto split: lcluster_type.splits dest!: framedD intro!: okR_mono [OF l])
  then show ?thesis using assms by simp
qed

lemma nonhead_lookback:
  assumes load: "z_erofs_load_cluster_from_disk sbi vi lcn la m0 = Inr m"
    and t: "mr_type m = Z_EROFS_LCLUSTER_TYPE_NONHEAD"
    and l: "z_erofs_extent_lookback sbi vi d (upd_map (m_flags_update f) m) = Inr m'"
    and ok: "clusterofs_ok sbi vi" and n: "unat lcn < 2 ^ 32" and c: "cached sbi (mr_map m0)"
  shows "\<exists>fl. head_found vi (unat lcn - 1) fl m' \<and> 0 < unat lcn"
proof -
  let ?m = "upd_map (m_flags_update f) m"
  have lcn: "mr_lcn m = lcn" using load_cluster_frame [OF load] ucast_ucast_small [OF n] by simp
  have cm: "cached sbi (mr_map ?m)" using load_cached_ok [OF load c] by simp
  show ?thesis
  proof (cases "d = 0")
    case False
    then have "0 < unat d" by (simp add: unat_gt_0)
    then show ?thesis
      using lookback_head [OF l ok] cm lcn n by (auto simp: head_found_def)
  next
    case True
    obtain m1 where m1: "z_erofs_load_cluster_from_disk sbi vi lcn False ?m = Inr m1"
      and r: "(if mr_type m1 = Z_EROFS_LCLUSTER_TYPE_NONHEAD
             then if mr_delta0 m1 = 0 then Err EFSCORRUPTED
                  else z_erofs_extent_lookback sbi vi (ucast (mr_delta0 m1)) m1
             else if mr_type m1 = Z_EROFS_LCLUSTER_TYPE_HEAD2 then Err EOPNOTSUPP
             else Inr (upd_map (\<lambda>mp. mp\<lparr>m_la := push_bit (lcbits vi) lcn OR ucast (mr_clusterofs m1)\<rparr>)
                         (m1\<lparr>mr_headtype := mr_type m1\<rparr>))) = Inr m'"
      using l [unfolded z_erofs_extent_lookback.simps [of sbi vi d ?m]] True lcn
      by (simp only: upd_map_sel unsigned_0 word_not_simps if_False Let_def bindR_eq_Inr ucast_0 diff_zero) blast
    have t1: "mr_type m1 = Z_EROFS_LCLUSTER_TYPE_NONHEAD"
      using load_cluster_again [OF load _ _ m1] t by simp
    then have d1: "mr_delta0 m1 \<noteq> 0" and l1: "z_erofs_extent_lookback sbi vi (ucast (mr_delta0 m1)) m1 = Inr m'"
      using r by (auto split: if_splits)
    have "0 < unat (ucast (mr_delta0 m1) :: u32)" using d1 by (simp add: unat_ucast_up unat_gt_0)
    moreover have "mr_lcn m1 = lcn" using load_cluster_frame [OF m1] ucast_ucast_small [OF n] by simp
    ultimately show ?thesis
      using lookback_head [OF l1 ok] load_cached_ok [OF m1 cm] n by (auto simp: head_found_def)
  qed
qed

text \<open>Where the extent found for the offset \<^verbatim>\<open>lcn * 2^b + endoff\<close> begins and ends.\<close>

lemma do_map_find_bounds:
  assumes ok: "clusterofs_ok sbi vi" and b: "lcbits vi \<le> 31"
    and n: "unat lcn < 2 ^ 32" and eo: "unat endoff < 2 ^ lcbits vi"
    and la: "la = unat lcn * 2 ^ lcbits vi + unat endoff" "la < unat (i_size vi)"
    and load: "z_erofs_load_cluster_from_disk sbi vi lcn False m0 = Inr m"
    and ca: "cached sbi (mr_map m0)"
    and f: "do_map_find sbi vi endoff m = Inr (m', end)"
  shows "unat (m_la (mr_map m')) \<le> la \<and> la < unat end"
proof -
  let ?b = "lcbits vi"
  have lcn: "mr_lcn m = lcn" using load_cluster_frame [OF load] ucast_ucast_small [OF n] by simp
  have pow: "k < 2 ^ 32 \<Longrightarrow> k * 2 ^ ?b < 2 ^ 64" for k :: nat
  proof -
    assume "k < 2 ^ 32"
    have "k * 2 ^ ?b \<le> k * 2 ^ 31" using b by (intro mult_left_mono power_increasing) auto
    also have "\<dots> < 2 ^ 64" using \<open>k < 2 ^ 32\<close> by simp
    finally show ?thesis .
  qed
  have end1: "unat (push_bit ?b (lcn + 1)) = (unat lcn + 1) * 2 ^ ?b"
  proof -
    have u: "unat (lcn + 1) = unat lcn + 1" using n by (simp add: unat_word_ariths)
    have "(unat lcn + 1) * 2 ^ ?b \<le> 2 ^ 32 * 2 ^ 31"
      using n b by (intro mult_mono power_increasing) auto
    then show ?thesis by (subst unat_push_small) (simp_all add: u)
  qed
  have headla: "unat (push_bit ?b k OR ucast c) = unat k * 2 ^ ?b + unat c"
    if "unat k < 2 ^ 32" "unat c < 2 ^ ?b" for k :: u64 and c :: u16
    using that pow [OF that(1)] by (subst unat_push_or) (simp_all add: unat_ucast_up)
  have behind: "unat (m_la (mr_map h)) < unat lcn * 2 ^ ?b"
    if "head_found vi (unat lcn - 1) fl h" "0 < unat lcn" for h fl
  proof -
    have "unat (mr_lcn h) + 1 \<le> unat lcn" "unat (mr_lcn h) < 2 ^ 32" "unat (mr_clusterofs h) < 2 ^ ?b"
      and e: "m_la (mr_map h) = push_bit ?b (mr_lcn h) OR ucast (mr_clusterofs h)"
      using that n by (auto simp: head_found_def)
    then have "unat (m_la (mr_map h)) < (unat (mr_lcn h) + 1) * 2 ^ ?b"
      unfolding e by (subst headla) auto
    also have "\<dots> \<le> unat lcn * 2 ^ ?b" using \<open>unat (mr_lcn h) + 1 \<le> unat lcn\<close> by (intro mult_right_mono) auto
    finally show ?thesis .
  qed
  show ?thesis
  proof (cases "mr_type m = Z_EROFS_LCLUSTER_TYPE_NONHEAD")
    case True
    then have l: "z_erofs_extent_lookback sbi vi (ucast (mr_delta0 (upd_map (m_flags_update (\<lambda>_. 6)) m)))
        (upd_map (m_flags_update (\<lambda>_. 6)) m) = Inr m'"
      and e: "end = push_bit ?b (lcn + 1)"
      using f lcn by (simp_all add: do_map_find_def Let_def)
    have "unat (m_la (mr_map m')) < unat lcn * 2 ^ ?b"
      using nonhead_lookback [OF load True l ok n ca] behind by auto
    then show ?thesis using e end1 la(1) eo by simp
  next
    case False
    then have t: "is_head (mr_type m)"
      using f lcluster_type_cases4 by (auto simp: do_map_find_def Let_def split: if_splits)
    then have c: "unat (mr_clusterofs m) < 2 ^ ?b" using clusterofs_okD [OF ok ca load] by simp
    show ?thesis
    proof (cases "ucast (mr_clusterofs m) \<le> endoff")
      case True
      then have "unat (mr_clusterofs m) \<le> unat endoff" by (simp add: word_le_nat_alt unat_ucast_up)
      moreover have "m_la (mr_map m') = push_bit ?b lcn OR ucast (mr_clusterofs m)"
        and "end = i_size vi \<or> end = push_bit ?b (lcn + 1)"
        using f t True lcn by (auto simp: do_map_find_def Let_def is_head_def split: if_splits)
      ultimately show ?thesis using headla [OF n c] end1 la eo by auto
    next
      case False
      then have g: "unat endoff < unat (mr_clusterofs m)" by (simp add: word_le_nat_alt unat_ucast_up)
      obtain m2 where l: "z_erofs_extent_lookback sbi vi 1 m2 = Inr m'" and m2: "mr_lcn m2 = lcn" "cached sbi (mr_map m2)"
        and e: "end = push_bit ?b lcn OR ucast (mr_clusterofs m)"
        using f t False lcn load_cached_ok [OF load ca]
        by (auto simp: do_map_find_def Let_def is_head_def split: if_splits)
      have "head_found vi (unat lcn - 1) (m_flags (mr_map m2)) m' \<and> 1 \<le> unat lcn"
        using lookback_head [OF l ok] m2 n by simp
      then have "unat (m_la (mr_map m')) < unat lcn * 2 ^ ?b" using behind by auto
      then show ?thesis using e headla [OF n c] la(1) g by simp
    qed
  qed
qed

lemma do_map_place_bounds:
  "do_map_place sbi vi m = Inr m' \<Longrightarrow>
     m_la (mr_map m') = m_la (mr_map m) \<and> m_llen (mr_map m') = m_llen (mr_map m)"
  by (auto simp: do_map_place_def split: if_splits dest!: compressedlen_frame)

lemma do_map_algo_bounds:
  "do_map_algo vi m = Inr m' \<Longrightarrow>
     m_la (mr_map m') = m_la (mr_map m) \<and> m_llen (mr_map m') = m_llen (mr_map m)"
  by (auto simp: do_map_algo_def split: if_splits)

lemma do_map_blocks_covers:
  assumes r: "z_erofs_do_map_blocks sbi vi mp 0 = Inr (vi', mp')"
    and ok: "clusterofs_ok sbi vi" and b: "lcbits vi \<le> 31" and ca: "cached sbi mp"
    and la: "m_la mp < i_size vi" "unat (m_la mp) div 2 ^ lcbits vi < 2 ^ 32"
  shows "vi' = vi \<and> m_la mp' \<le> m_la mp \<and> unat (m_la mp) < unat (m_la mp') + unat (m_llen mp')"
proof -
  let ?lcn = "drop_bit (lcbits vi) (m_la mp)" and ?eo = "ucast (take_bit (lcbits vi) (m_la mp)) :: u32"
  obtain m1 m2 m3 m4 fin where load: "z_erofs_load_cluster_from_disk sbi vi ?lcn False (init_recorder mp) = Inr m1"
    and f: "do_map_find sbi vi ?eo m1 = Inr (m2, fin)"
    and p: "do_map_place sbi vi (upd_map (\<lambda>mp. mp\<lparr>m_flags := (if mr_partialref m2 then m_flags mp OR EROFS_MAP_PARTIAL_REF
                                                   else m_flags mp), m_llen := fin - m_la mp\<rparr>) m2) = Inr m3"
    and a: "do_map_algo vi m3 = Inr m4" and e: "vi' = vi" "mp' = mr_map m4"
    using r by (auto simp: z_erofs_do_map_blocks_def do_map_fiemap_def Let_def)
  have eo: "unat ?eo = unat (take_bit (lcbits vi) (m_la mp))"
    using b by (simp only: unsigned_ucast_eq) (simp add: unsigned_take_bit_eq min_def)
  have "unat (m_la (mr_map m2)) \<le> unat (m_la mp) \<and> unat (m_la mp) < unat fin"
  proof (rule do_map_find_bounds [OF ok b _ _ _ _ load _ f])
    show "unat ?lcn < 2 ^ 32" using la(2) by (simp only: unat_drop_bit_eq) (simp only: drop_bit_eq_div)
    show "unat ?eo < 2 ^ lcbits vi" unfolding eo by (rule unat_take_drop_split)
    show "unat (m_la mp) = unat ?lcn * 2 ^ lcbits vi + unat ?eo" unfolding eo by (rule unat_take_drop_split)
    show "unat (m_la mp) < unat (i_size vi)" using la(1) by (simp add: word_less_nat_alt)
    show "cached sbi (mr_map (init_recorder mp))" using ca by (simp add: init_recorder_def)
  qed
  moreover have "m_la mp' = m_la (mr_map m2)" "m_llen mp' = fin - m_la (mr_map m2)"
    using do_map_place_bounds [OF p] do_map_algo_bounds [OF a] e by simp_all
  ultimately show ?thesis
    using e by (auto simp: word_le_nat_alt unat_sub)
qed

lemma do_map_blocks_i_size: "okR (\<lambda>(vi', mp'). i_size vi' = i_size vi) (z_erofs_do_map_blocks sbi vi mp flgs)"
  unfolding z_erofs_do_map_blocks_def Let_def
  by (auto intro!: okRI simp: do_map_tail_def set_z_idataoff_def Let_def)

lemma fill_inode_lazy_i_size: "okR (\<lambda>vi'. i_size vi' = i_size vi) (z_erofs_fill_inode_lazy sbi vi)"
proof -
  have i: "okR (\<lambda>vi'. i_size vi' = i_size v) (lazy_inline sbi h v)" for h v
    using do_map_blocks_i_size [of "v\<lparr>idata_size := h_idata_size h\<rparr>" sbi init_map EROFS_GET_BLOCKS_FINDTAIL]
    by (auto simp: lazy_inline_def split: sum.split error.split)
  have f: "okR (\<lambda>vi'. i_size vi' = i_size v) (lazy_fragment sbi h v)" for h v
    using do_map_blocks_i_size [of "v\<lparr>z_u := ucast (h_fragmentoff h)\<rparr>" sbi init_map EROFS_GET_BLOCKS_FINDTAIL]
    by (auto simp: lazy_fragment_def elim: okR_mono)
  show ?thesis
    unfolding z_erofs_fill_inode_lazy_def Let_def
    by (auto intro!: okRI dest!: okRD [OF i] okRD [OF f] split: if_splits)
qed

lemma decode_compactedbits_bound:
  assumes "decode_compactedbits lobits buf pos = Inr (lo, ty)" "lobits < 32"
  shows "unat lo < 2 ^ lobits"
proof -
  obtain v :: u32 where "lo = v AND (push_bit lobits 1 - 1)"
    using assms(1) by (auto simp: decode_compactedbits_def Let_def)
  then have "lo = take_bit lobits v"
    by (simp add: take_bit_eq_mask mask_eq_exp_minus_1 push_bit_eq_mult)
  then show ?thesis by (simp add: unsigned_take_bit_eq)
qed

text \<open>A compact index of at least 12 low bits cannot hold an offset outside its cluster.\<close>

lemma compact_clusterofs_ok:
  assumes "datalayout vi = EROFS_INODE_COMPRESSED_COMPACT" and "12 \<le> lcbits vi"
  shows "clusterofs_ok sbi vi"
  unfolding clusterofs_ok_def
proof (intro allI impI)
  fix lcn la m m'
  assume "z_erofs_load_cluster_from_disk sbi vi lcn la m = Inr m'" and h: "is_head (mr_type m')"
  then have "compacted_load_cluster_from_disk sbi vi (ucast (ucast lcn :: u32)) la m = Inr m'"
    using assms(1) by (elim load_cluster_cases) simp_all
  then obtain lo sh pos page where e: "compacted_entry sbi vi sh pos page = Inr (lo, mr_type m')"
    and c: "mr_clusterofs m' = ucast lo"
    using h by (elim compacted_loadE) (auto simp: is_head_def)
  have l14: "lcbits vi \<le> 14" and "\<exists>buf k. decode_compactedbits (pack_lobits (lcbits vi)) buf k = Inr (lo, mr_type m')"
    using e by (auto simp: compacted_entry_def Let_def pack_vcnt_def split: if_splits)
  then have lo: "unat lo < 2 ^ lcbits vi"
    using decode_compactedbits_bound assms(2) by (fastforce simp: pack_lobits_def max_def)
  moreover have "(2::nat) ^ lcbits vi \<le> 2 ^ 14" using l14 by (intro power_increasing) auto
  ultimately have "unat (mr_clusterofs m') = unat lo"
    unfolding c by (simp only: unsigned_ucast_eq unsigned_take_bit_eq) (simp add: take_bit_nat_eq_self)
  then show "unat (mr_clusterofs m') < 2 ^ lcbits vi" using lo by simp
qed

text \<open>
  Which indexes keep the offset of an extent inside its cluster.  Compact indexes of clusters of at least
  4 KiB do so by their width alone; of the others it has to be assumed, since \<^verbatim>\<open>zmap.c\<close> never
  compares the offset with the size of a cluster.
\<close>

definition offsets_in_clusters :: "erofs_sb_info \<Rightarrow> erofs_inode \<Rightarrow> bool" where
  "offsets_in_clusters sbi vi \<longleftrightarrow>
     datalayout vi = EROFS_INODE_COMPRESSED_COMPACT \<and> 12 \<le> lcbits vi \<or> lcbits vi \<le> 31 \<and> clusterofs_ok sbi vi"

lemma do_map_blocks_lcbits:
  assumes r: "z_erofs_do_map_blocks sbi vi mp 0 = Inr (vi', mp')" and "offsets_in_clusters sbi vi"
  shows "clusterofs_ok sbi vi \<and> lcbits vi \<le> 31"
proof (cases "datalayout vi = EROFS_INODE_COMPRESSED_COMPACT \<and> 12 \<le> lcbits vi")
  case True
  obtain lcn m1 where "z_erofs_load_cluster_from_disk sbi vi lcn False (init_recorder mp) = Inr m1"
    using r by (auto simp: z_erofs_do_map_blocks_def Let_def)
  then have "compacted_load_cluster_from_disk sbi vi (ucast (ucast lcn :: u32)) False (init_recorder mp) = Inr m1"
    using True by (elim load_cluster_cases) simp_all
  then obtain lo sh pos page where "compacted_entry sbi vi sh pos page = Inr (lo, mr_type m1)"
    by (elim compacted_loadE) auto
  then have "lcbits vi \<le> 14" by (auto simp: compacted_entry_def Let_def pack_vcnt_def split: if_splits)
  then show ?thesis using compact_clusterofs_ok True by simp
next
  case False
  then show ?thesis using assms(2) by (auto simp: offsets_in_clusters_def)
qed

text \<open>
  C3.  Mapping an offset inside a compressed file: when \<^verbatim>\<open>z_erofs_map_blocks_iter\<close> succeeds with the flags 0,
  the extent it returns contains the offset.  For compact indexes of clusters of at least 4 KiB this holds of
  every image, whatever its bytes are.  For the other indexes it holds of images whose in-cluster offsets lie
  inside their clusters, which the code does not check (\<^verbatim>\<open>offsets_in_clusters\<close>); the number of the cluster has to fit
  the 32 bits that \<^verbatim>\<open>z_erofs_load_cluster_from_disk\<close> keeps of it.
\<close>

theorem map_blocks_iter_covers:
  assumes "z_erofs_map_blocks_iter sbi vi mp 0 = Inr (vi', mp')"
    and "offsets_in_clusters sbi vi'" and "cached sbi mp"
    and "m_la mp < i_size vi" and "unat (m_la mp) div 2 ^ lcbits vi' < 2 ^ 32"
  shows "m_la mp' \<le> m_la mp \<and> unat (m_la mp) < unat (m_la mp') + unat (m_llen mp')"
proof -
  have ns: "(i_size vi \<le> m_la mp) = False" using assms(4) by simp
  obtain v where v: "z_erofs_fill_inode_lazy sbi vi = Inr v"
    and r: "(if has_advise v Z_EROFS_ADVISE_FRAGMENT_PCLUSTER \<and> z_tailextent_headlcn v = 0
        then Inr (v, mp\<lparr>m_la := 0, m_llen := i_size v,
                         m_flags := EROFS_MAP_MAPPED OR EROFS_MAP_FULL_MAPPED OR EROFS_MAP_FRAGMENT\<rparr>)
        else z_erofs_do_map_blocks sbi v mp 0) = Inr (vi', mp')"
    using assms(1) ns by (simp only: z_erofs_map_blocks_iter_def if_False bindR_eq_Inr) blast
  have sz: "i_size v = i_size vi" using okRD [OF fill_inode_lazy_i_size v] .
  show ?thesis
  proof (cases "has_advise v Z_EROFS_ADVISE_FRAGMENT_PCLUSTER \<and> z_tailextent_headlcn v = 0")
    case True
    then show ?thesis using r sz assms(4) by (auto simp: word_less_nat_alt)
  next
    case False
    then have d: "z_erofs_do_map_blocks sbi v mp 0 = Inr (vi', mp')" using r by auto
    have "vi' = v" using d by (auto simp: z_erofs_do_map_blocks_def Let_def)
    then show ?thesis using do_map_blocks_covers [OF d] do_map_blocks_lcbits [OF d] assms sz by simp
  qed
qed

lemma lookahead_no_wrap:
  assumes "lcn * 2 ^ b < sz" "sz + 2 ^ 35 \<le> (2 ^ 64 :: nat)" "b \<le> 19" "d \<le> 65535"
  shows "unat (push_bit b (of_nat (lcn + d) :: u64)) = (lcn + d) * 2 ^ b"
proof -
  have "d * 2 ^ b \<le> 65535 * 2 ^ 19" using assms by (intro mult_mono power_increasing) auto
  then have l: "(lcn + d) * 2 ^ b < 2 ^ 64" using assms by (simp add: add_mult_distrib)
  have "lcn + d \<le> (lcn + d) * 2 ^ b" by simp
  then have "lcn + d < 2 ^ 64" using l by linarith
  then have "unat (of_nat (lcn + d) :: u64) = lcn + d"
    by (simp only: unat_of_nat) simp
  then show ?thesis using l by (subst unat_push_small) simp_all
qed

text \<open>An image that is all zeroes: every compact entry is a plain lcluster at offset 0.\<close>

definition zero_img :: erofs_sb_info where
  "zero_img = (zero_sbi (plain_file []))\<lparr>blkszbits := 12\<rparr>"

definition zero_vi :: erofs_inode where
  "zero_vi = (zero_inode 0)\<lparr>datalayout := EROFS_INODE_COMPRESSED_COMPACT, i_size := 4097, flags := 2,
     z_logical_clusterbits := 12\<rparr>"

lemma zero_img_page: "erofs_blk_read zero_img 0 blk 1 = Inr (replicate 4096 0)"
  by (simp add: erofs_blk_read_def zero_img_def erofs_dev_read_quiet erofs_pos_def zread_def zero_sbi_def)

lemma zero_vi_sel:
  "datalayout zero_vi = EROFS_INODE_COMPRESSED_COMPACT" "i_size zero_vi = 4097" "flags zero_vi = 2"
  "z_logical_clusterbits zero_vi = 12" "inode_isize zero_vi = 0" "xattr_isize zero_vi = 0"
  "has_advise zero_vi k = False" "z_tailextent_headlcn zero_vi = 0" "blkszbits zero_img = 12"
  by (simp_all add: zero_vi_def zero_inode_def has_advise_def zero_img_def)

lemma zero_img_pos:
  "compacted_ebase zero_img zero_vi = 8" "BLK_ROUND_UP zero_img 4097 = 2"
  by (simp_all add: compacted_ebase_def round_up_def zero_vi_sel BLK_ROUND_UP_def roundup_def erofs_blksiz_def
      erofs_iloc_def erofs_pos_def) (simp add: zero_img_def zero_vi_def zero_sbi_def zero_inode_def)


lemma zero_img_load:
  "\<exists>m. z_erofs_load_cluster_from_disk zero_img zero_vi 1 False (init_recorder (init_map\<lparr>m_la := 4096\<rparr>)) = Inr m \<and>
     mr_type m = Z_EROFS_LCLUSTER_TYPE_PLAIN \<and> mr_clusterofs m = 0 \<and> mr_lcn m = 1"
  by (simp add: z_erofs_load_cluster_from_disk_def compacted_load_cluster_from_disk_def zero_img_pos zero_vi_sel
    compacted_4b_initial_def compacted_2b_def compacted_pos_def z_erofs_reload_indexes_def zero_img_page init_recorder_def init_map_def
    erofs_blknr_def)
    (simp add: unpack_compacted_index_def zero_vi_sel pack_vcnt_def pack_lobits_def erofs_blkoff_def erofs_blksiz_def
    decode_compactedbits_def slice_def fsplice_def Let_def word_le_def lcluster_type_of_def unpack_head_def nblk_single.simps)

lemma zero_img_maps:
  "\<exists>mp. z_erofs_map_blocks_iter zero_img zero_vi (init_map\<lparr>m_la := 4096\<rparr>) 0 = Inr (zero_vi, mp)"
proof -
  obtain m where m: "z_erofs_load_cluster_from_disk zero_img zero_vi 1 False (init_recorder (init_map\<lparr>m_la := 4096\<rparr>)) = Inr m"
    "mr_type m = Z_EROFS_LCLUSTER_TYPE_PLAIN" "mr_clusterofs m = 0" "mr_lcn m = 1"
    using zero_img_load by blast
  show ?thesis
    by (simp add: z_erofs_map_blocks_iter_def z_erofs_fill_inode_lazy_def z_erofs_do_map_blocks_def
        do_map_find_def do_map_place_def do_map_algo_def do_map_fiemap_def Let_def
        z_erofs_get_extent_compressedlen_def zero_vi_sel m word_le_def word_less_def)
qed

theorem map_blocks_iter_covers_witness:
  "\<exists>mp. z_erofs_map_blocks_iter zero_img zero_vi (init_map\<lparr>m_la := 4096\<rparr>) 0 = Inr (zero_vi, mp) \<and>
     m_la mp \<le> 4096 \<and> 4096 < unat (m_la mp) + unat (m_llen mp)"
proof -
  obtain mp where r: "z_erofs_map_blocks_iter zero_img zero_vi (init_map\<lparr>m_la := 4096\<rparr>) 0 = Inr (zero_vi, mp)"
    using zero_img_maps by blast
  show ?thesis
    using r map_blocks_iter_covers [OF r] by (simp add: offsets_in_clusters_def zero_vi_sel word_less_def)
qed
end
