(* ===== verification/Erofs_Decompress.thy ===== *)
theory Erofs_Decompress
  imports Erofs_Inode
begin

text \<open>
  Decompressing one physical cluster: \<^verbatim>\<open>lib/decompress.c\<close>.  The compression libraries are a
  parameter of type \<^verbatim>\<open>decompress_lib\<close>, one member per library, \<^verbatim>\<open>None\<close> for a library the build leaves
  out; the deflate decoder is the zlib one.  The destination buffer is passed with its previous
  contents and returned with its new ones.  Allocations succeed; a buffer that was allocated for
  the decoder holds only what the decoder stored, so copying more than that out of it is
  \<^verbatim>\<open>OutOfBounds\<close>.
\<close>

section \<open>Requests and libraries\<close>

record z_erofs_decompress_req =
  rq_in :: bytes
  decodedskip :: u32
  inputsize :: u32
  decodedlength :: u32
  interlaced_offset :: u32
  rq_alg :: u32
  partial_decoding :: bool

datatype zret = Z_OK | Z_STREAM_END | Z_STREAM_ERROR | Z_DATA_ERROR | Z_MEM_ERROR | Z_OTHER

datatype lzma_ret = LZMA_INIT_FAILED | LZMA_STREAM_END | LZMA_OTHER

text \<open>
  \<^verbatim>\<open>lib_lz4 partial src capacity\<close> is \<^verbatim>\<open>LZ4_decompress_safe_partial\<close> or \<^verbatim>\<open>LZ4_decompress_safe\<close>: the bytes
  stored, or \<^verbatim>\<open>None\<close> for a negative return value.  \<^verbatim>\<open>lib_lzma src capacity exact\<close> and
  \<^verbatim>\<open>lib_zlib src capacity partial\<close> return their status and the bytes stored.  \<^verbatim>\<open>lib_zstd\<close> is the frame content
  size and the decoder.
\<close>

record decompress_lib =
  lib_lz4 :: "(bool \<Rightarrow> bytes \<Rightarrow> nat \<Rightarrow> bytes option) option"
  lib_lzma :: "(bytes \<Rightarrow> nat \<Rightarrow> bool \<Rightarrow> lzma_ret \<times> bytes) option"
  lib_zlib :: "(bytes \<Rightarrow> nat \<Rightarrow> bool \<Rightarrow> zret \<times> bytes) option"
  lib_zstd :: "((bytes \<Rightarrow> nat option) \<times> (bytes \<Rightarrow> nat \<Rightarrow> bytes option)) option"

definition no_lib :: decompress_lib where
  "no_lib = \<lparr>lib_lz4 = None, lib_lzma = None, lib_zlib = None, lib_zstd = None\<rparr>"

section \<open>The decoders\<close>

fun z_erofs_fixup_insize :: "bytes \<Rightarrow> nat" where
  "z_erofs_fixup_insize [] = 0"
| "z_erofs_fixup_insize (b # bs) = (if b = 0 then Suc (z_erofs_fixup_insize bs) else 0)"

text \<open>The input without its leading zeroes, or \<^verbatim>\<open>EFSCORRUPTED\<close> when there is nothing else.\<close>

definition rq_src :: "z_erofs_decompress_req \<Rightarrow> bytes result" where
  "rq_src rq =
     bindR (slice (rq_in rq) 0 (unat (inputsize rq))) (\<lambda>src.
       let inputmargin = z_erofs_fixup_insize src in
       if unat (inputsize rq) \<le> inputmargin then Err EFSCORRUPTED else Inr (drop inputmargin src))"

text \<open>
  The end of the decoders: with bytes to skip the output was decoded into a buffer of its own and
  the rest is copied, otherwise it went to the destination directly.
\<close>

definition rq_deliver :: "z_erofs_decompress_req \<Rightarrow> bytes \<Rightarrow> bytes \<Rightarrow> bytes result" where
  "rq_deliver rq dest out =
     (if decodedskip rq \<noteq> 0
      then bindR (slice dest (unat (decodedskip rq)) (unat (decodedlength rq - decodedskip rq))) (memput out 0)
      else memput out 0 dest)"

definition z_erofs_decompress_zstd ::
    "(bytes \<Rightarrow> nat option) \<Rightarrow> (bytes \<Rightarrow> nat \<Rightarrow> bytes option) \<Rightarrow> z_erofs_decompress_req \<Rightarrow> bytes \<Rightarrow> bytes result" where
  "z_erofs_decompress_zstd framesize ZSTD_decompress rq out =
     bindR (rq_src rq) (\<lambda>src.
       case framesize src of
         None \<Rightarrow> Err EFSCORRUPTED
       | Some tot \<Rightarrow>
           let buffered = (decodedskip rq \<noteq> 0 \<or> tot \<noteq> unat (decodedlength rq)) in
           case ZSTD_decompress src tot of
             None \<Rightarrow> Err EIO
           | Some dest \<Rightarrow>
               if length dest \<noteq> tot then if buffered then Inr out else memput out 0 dest
               else if buffered
               then bindR (slice dest (unat (decodedskip rq)) (unat (decodedlength rq - decodedskip rq)))
                      (memput out 0)
               else memput out 0 dest)"

fun zerr :: "zret \<Rightarrow> errno" where
  "zerr Z_STREAM_ERROR = EINVAL"
| "zerr Z_DATA_ERROR = EIO"
| "zerr Z_MEM_ERROR = ENOMEM"
| "zerr _ = EFAULT"

definition z_erofs_decompress_deflate ::
    "(bytes \<Rightarrow> nat \<Rightarrow> bool \<Rightarrow> zret \<times> bytes) \<Rightarrow> z_erofs_decompress_req \<Rightarrow> bytes \<Rightarrow> bytes result" where
  "z_erofs_decompress_deflate inflate rq out =
     bindR (rq_src rq) (\<lambda>src.
       let (ret, dest) = inflate src (unat (decodedlength rq)) (partial_decoding rq) in
       if (ret \<noteq> Z_STREAM_END \<or> length dest \<noteq> unat (decodedlength rq)) \<and>
          (ret \<noteq> Z_OK \<or> \<not> partial_decoding rq)
       then Err (zerr ret)
       else rq_deliver rq dest out)"

definition z_erofs_decompress_lzma ::
    "(bytes \<Rightarrow> nat \<Rightarrow> bool \<Rightarrow> lzma_ret \<times> bytes) \<Rightarrow> z_erofs_decompress_req \<Rightarrow> bytes \<Rightarrow> bytes result" where
  "z_erofs_decompress_lzma microlzma rq out =
     bindR (rq_src rq) (\<lambda>src.
       case microlzma src (unat (decodedlength rq)) (\<not> partial_decoding rq) of
         (LZMA_INIT_FAILED, _) \<Rightarrow> Err EFAULT
       | (LZMA_STREAM_END, dest) \<Rightarrow> rq_deliver rq dest out
       | (LZMA_OTHER, _) \<Rightarrow> Err EFSCORRUPTED)"

definition z_erofs_decompress_lz4 ::
    "(bool \<Rightarrow> bytes \<Rightarrow> nat \<Rightarrow> bytes option) \<Rightarrow> erofs_sb_info \<Rightarrow> z_erofs_decompress_req \<Rightarrow> bytes \<Rightarrow> bytes result" where
  "z_erofs_decompress_lz4 LZ4_decompress sbi rq out =
     bindR (if erofs_sb_has_lz4_0padding sbi then rq_src rq
            else slice (rq_in rq) 0 (unat (inputsize rq))) (\<lambda>src.
       case LZ4_decompress (partial_decoding rq \<or> \<not> erofs_sb_has_lz4_0padding sbi) src
              (unat (decodedlength rq)) of
         None \<Rightarrow> Err EIO
       | Some dest \<Rightarrow>
           if length dest \<noteq> unat (decodedlength rq) then Err EIO else rq_deliver rq dest out)"

section \<open>The dispatcher\<close>

text \<open>Data stored uncompressed: rotated inside one block, or as it is.\<close>

definition decompress_interlaced ::
    "erofs_sb_info \<Rightarrow> z_erofs_decompress_req \<Rightarrow> bytes \<Rightarrow> bytes result" where
  "decompress_interlaced sbi rq out =
     (if erofs_blksiz sbi < inputsize rq then Err EFSCORRUPTED
      else if erofs_blksiz sbi < decodedlength rq then Err EFSCORRUPTED
      else if decodedlength rq < decodedskip rq then Err EFSCORRUPTED
      else
        let count = decodedlength rq - decodedskip rq;
            skip = erofs_blkoff sbi (interlaced_offset rq + decodedskip rq);
            rightpart = min (erofs_blksiz sbi - skip) count
        in bindR (slice (rq_in rq) (unat skip) (unat rightpart)) (\<lambda>a.
             bindR (memput out 0 a) (\<lambda>out.
               bindR (slice (rq_in rq) 0 (unat (count - rightpart))) (memput out (unat rightpart)))))"

definition decompress_shifted :: "z_erofs_decompress_req \<Rightarrow> bytes \<Rightarrow> bytes result" where
  "decompress_shifted rq out =
     (if inputsize rq < decodedlength rq then Err EFSCORRUPTED
      else bindR (slice (rq_in rq) (unat (decodedskip rq)) (unat (decodedlength rq - decodedskip rq)))
             (memput out 0))"

definition z_erofs_decompress ::
    "decompress_lib \<Rightarrow> erofs_sb_info \<Rightarrow> z_erofs_decompress_req \<Rightarrow> bytes \<Rightarrow> bytes result" where
  "z_erofs_decompress lib sbi rq out =
     (if rq_alg rq = 5 then decompress_interlaced sbi rq out
      else if rq_alg rq = 4 then decompress_shifted rq out
      else case (unat (rq_alg rq), lib_lz4 lib, lib_lzma lib, lib_zlib lib, lib_zstd lib) of
             (0, Some f, _) \<Rightarrow> z_erofs_decompress_lz4 f sbi rq out
           | (Suc 0, _, Some f, _) \<Rightarrow> z_erofs_decompress_lzma f rq out
           | (Suc (Suc 0), _, _, Some f, _) \<Rightarrow> z_erofs_decompress_deflate f rq out
           | (Suc (Suc (Suc 0)), _, _, _, Some (sz, f)) \<Rightarrow> z_erofs_decompress_zstd sz f rq out
           | _ \<Rightarrow> Err EOPNOTSUPP)"

section \<open>What decompression delivers\<close>

lemma fixup_insize_dropWhile:
  "drop (z_erofs_fixup_insize src) src = dropWhile ((=) 0) src \<and>
   (length src \<le> z_erofs_fixup_insize src \<longleftrightarrow> dropWhile ((=) 0) src = [])"
  by (induction src) auto

lemma rq_src_unpadded:
  assumes "length (rq_in rq) = unat (inputsize rq)"
  shows "rq_src rq = (if dropWhile ((=) 0) (rq_in rq) = [] then Err EFSCORRUPTED
                      else Inr (dropWhile ((=) 0) (rq_in rq)))"
  using assms fixup_insize_dropWhile [of "rq_in rq"] by (simp add: rq_src_def slice_def Let_def)

lemma rq_deliver_drop:
  assumes "length dest = unat (decodedlength rq)" and "decodedskip rq \<le> decodedlength rq"
    and "length out = unat (decodedlength rq) - unat (decodedskip rq)"
  shows "rq_deliver rq dest out = Inr (drop (unat (decodedskip rq)) dest)"
  using assms by (auto simp: rq_deliver_def slice_def memput_def unat_sub word_le_nat_alt)

text \<open>
  C15.  What the LZ4 and the zlib decoder deliver, whatever bytes the library makes of the input.  With
  buffers of the sizes that the request states, the library gets the input without its zero padding; when it
  stores exactly \<^verbatim>\<open>decodedlength\<close> bytes, the output buffer holds these without the first \<^verbatim>\<open>decodedskip\<close>, and
  every other outcome (only padding, an error of the library, a different length) is an error code.
  So neither the copy out of the temporary buffer nor the store to the output ever leaves its buffer.
\<close>

theorem decoders_deliver:
  assumes "length (rq_in rq) = unat (inputsize rq)" and "decodedskip rq \<le> decodedlength rq"
    and "decodedlength rq < 2 ^ 31" and "length out = unat (decodedlength rq) - unat (decodedskip rq)"
  shows
    "(rq_alg rq = 0 \<longrightarrow> lib_lz4 lib = Some LZ4_decompress \<longrightarrow>
        z_erofs_decompress lib sbi rq out =
          (let padded = erofs_sb_has_lz4_0padding sbi;
               src = if padded then dropWhile ((=) 0) (rq_in rq) else rq_in rq in
           if padded \<and> src = [] then Err EFSCORRUPTED
           else case LZ4_decompress (partial_decoding rq \<or> \<not> padded) src (unat (decodedlength rq)) of
                  None \<Rightarrow> Err EIO
                | Some dest \<Rightarrow> if length dest = unat (decodedlength rq)
                                then Inr (drop (unat (decodedskip rq)) dest) else Err EIO)) \<and>
     (rq_alg rq = 2 \<longrightarrow> lib_zlib lib = Some inflate \<longrightarrow> \<not> partial_decoding rq \<longrightarrow>
        z_erofs_decompress lib sbi rq out =
          (let src = dropWhile ((=) 0) (rq_in rq); (ret, dest) = inflate src (unat (decodedlength rq)) False in
           if src = [] then Err EFSCORRUPTED
           else if ret = Z_STREAM_END \<and> length dest = unat (decodedlength rq)
           then Inr (drop (unat (decodedskip rq)) dest) else Err (zerr ret)))"
  using assms rq_src_unpadded [OF assms(1)]
  by (simp add: z_erofs_decompress_def z_erofs_decompress_lz4_def z_erofs_decompress_deflate_def slice_def
      Let_def rq_deliver_drop split: option.split prod.split)

text \<open>Decoders that copy their input, as far as there is room for it.\<close>

definition copy_lib :: decompress_lib where
  "copy_lib = no_lib\<lparr>lib_lz4 := Some (\<lambda>_ src n. Some (take n src)),
     lib_zlib := Some (\<lambda>src n _. (Z_STREAM_END, take n src))\<rparr>"

definition padded_rq :: "u32 \<Rightarrow> z_erofs_decompress_req" where
  "padded_rq alg = \<lparr>rq_in = [0, 0, 5, 6, 7], decodedskip = 1, inputsize = 5, decodedlength = 3,
     interlaced_offset = 0, rq_alg = alg, partial_decoding = False\<rparr>"

theorem decoders_deliver_witness:
  "z_erofs_decompress copy_lib ((zero_sbi (plain_file []))\<lparr>feature_incompat := 1\<rparr>) (padded_rq 0) [0, 0] = Inr [6, 7] \<and>
   z_erofs_decompress copy_lib (zero_sbi (plain_file [])) (padded_rq 2) [0, 0] = Inr [6, 7] \<and>
   z_erofs_decompress copy_lib (zero_sbi (plain_file [])) ((padded_rq 2)\<lparr>decodedlength := 4\<rparr>) [0, 0, 0] = Err EFAULT"
  using decoders_deliver [of "padded_rq 0" "[0, 0]" copy_lib _ "(zero_sbi (plain_file []))\<lparr>feature_incompat := 1\<rparr>"]
    decoders_deliver [of "padded_rq 2" "[0, 0]" copy_lib _ "zero_sbi (plain_file [])"]
    decoders_deliver [of "(padded_rq 2)\<lparr>decodedlength := 4\<rparr>" "[0, 0, 0]" copy_lib _ "zero_sbi (plain_file [])"]
  by (simp add: padded_rq_def copy_lib_def no_lib_def word_le_def word_less_def zero_sbi_def
      erofs_sb_has_lz4_0padding_def has_feature_def)

text \<open>The two copies of the interlaced case read the block cyclically from \<^verbatim>\<open>o0\<close> on.\<close>

lemma rotated_block:
  assumes L: "length xs = B" and nB: "n \<le> B" and B0: "0 < B"
  shows "take (min (B - o0 mod B) n) (drop (o0 mod B) xs) @ take (n - min (B - o0 mod B) n) xs =
         map (\<lambda>k. xs ! ((o0 + k) mod B)) [0..<n]"
proof -
  define s where "s = o0 mod B"
  define r where "r = min (B - s) n"
  have B: "s < B" using B0 by (simp add: s_def)
  have m: "(o0 + k) mod B = (if k < r then s + k else k - r)" if "k < n" for k
  proof (cases "k < r")
    case True
    then have "s + k < B" by (auto simp: r_def)
    moreover have "(o0 + k) mod B = (s + k) mod B" by (simp add: s_def mod_add_left_eq)
    ultimately show ?thesis using True by simp
  next
    case False
    then have r: "r = B - s" using that by (auto simp: r_def)
    have "(o0 + k) mod B = (s + k) mod B" by (simp add: s_def mod_add_left_eq)
    also have "s + k = B + (k - r)" using False r B by simp
    also have "(B + (k - r)) mod B = k - r"
    proof -
      have "k - r < B" using that nB by linarith
      then show ?thesis by (simp only: mod_add_self1 mod_less)
    qed
    finally show ?thesis using False by simp
  qed
  have l: "length (take r (drop s xs)) = r" "length (take (n - r) xs) = n - r" "r \<le> n"
    using nB B by (auto simp: L r_def)
  have "(take r (drop s xs) @ take (n - r) xs) ! k = xs ! ((o0 + k) mod B)" if "k < n" for k
  proof (cases "k < r")
    case True
    then show ?thesis using m [OF that] l by (simp add: nth_append L)
  next
    case False
    then have "k - r < n - r" using that by simp
    then show ?thesis using m [OF that] l False by (simp add: nth_append)
  qed
  then show ?thesis unfolding s_def [symmetric] r_def [symmetric] using l by (auto intro!: nth_equalityI)
qed

text \<open>
  C16.  Uncompressed data that was rotated inside its block comes back in order: byte \<^verbatim>\<open>k\<close> of the output is
  byte \<^verbatim>\<open>interlaced_offset + decodedskip + k\<close> of the block, taken cyclically.
\<close>

theorem decompress_interlaced_rotates:
  assumes "rq_alg rq = 5" and "blkbits sbi < 32" and "length (rq_in rq) = 2 ^ blkbits sbi"
    and "unat (inputsize rq) = 2 ^ blkbits sbi" and "unat (decodedlength rq) \<le> 2 ^ blkbits sbi"
    and "decodedskip rq \<le> decodedlength rq"
    and "unat (interlaced_offset rq) + unat (decodedskip rq) < 2 ^ 32"
    and "length out = unat (decodedlength rq) - unat (decodedskip rq)"
  shows "z_erofs_decompress lib sbi rq out =
    Inr (map (\<lambda>k. rq_in rq ! ((unat (interlaced_offset rq) + unat (decodedskip rq) + k) mod 2 ^ blkbits sbi))
           [0..<length out])"
proof -
  define n where "n = length out"
  define B where "B = (2 ^ blkbits sbi :: nat)"
  define o0 where "o0 = unat (interlaced_offset rq) + unat (decodedskip rq)"
  define s where "s = o0 mod B"
  define r where "r = min (B - s) n"
  have B: "0 < B" "s < B" by (simp_all add: B_def s_def)
  have bz: "unat (erofs_blksiz sbi) = B" using assms(2) by (simp add: unat_erofs_blksiz B_def)
  have cnt: "unat (decodedlength rq - decodedskip rq) = n"
    using assms(6,8) by (simp add: n_def unat_sub word_le_nat_alt)
  have nB: "n \<le> B" using assms(5,8) by (simp add: n_def B_def)
  have o0: "unat (interlaced_offset rq + decodedskip rq) = o0"
    using assms(7) by (simp add: o0_def unat_word_ariths)
  have sk: "unat (erofs_blkoff sbi (interlaced_offset rq + decodedskip rq)) = s"
    using assms(2) by (simp add: unat_erofs_blkoff o0 s_def B_def)
  have rp: "unat (min (erofs_blksiz sbi - erofs_blkoff sbi (interlaced_offset rq + decodedskip rq))
                     (decodedlength rq - decodedskip rq)) = r"
  proof -
    have "unat (erofs_blksiz sbi - erofs_blkoff sbi (interlaced_offset rq + decodedskip rq)) = B - s"
      using B by (subst unat_sub) (simp_all add: word_le_nat_alt bz sk)
    then show ?thesis by (simp add: min_def word_le_nat_alt cnt r_def)
  qed
  have rest: "unat (decodedlength rq - decodedskip rq -
      min (erofs_blksiz sbi - erofs_blkoff sbi (interlaced_offset rq + decodedskip rq))
          (decodedlength rq - decodedskip rq)) = n - r"
    by (subst unat_sub) (simp_all only: rp cnt, simp)
  have "z_erofs_decompress lib sbi rq out = decompress_interlaced sbi rq out"
    by (simp add: z_erofs_decompress_def assms(1))
  also have "\<dots> = bindR (slice (rq_in rq) s r) (\<lambda>a. bindR (memput out 0 a)
      (\<lambda>out. bindR (slice (rq_in rq) 0 (n - r)) (memput out r)))"
    unfolding decompress_interlaced_def Let_def sk rp rest
    using assms(4,5,6) bz by (simp add: word_less_nat_alt word_le_nat_alt B_def [symmetric])
  also have "\<dots> = Inr (take r (drop s (rq_in rq)) @ take (n - r) (rq_in rq))"
  proof -
    have L: "length (rq_in rq) = B" using assms(3) by (simp add: B_def)
    have sr: "s + r \<le> B" "r \<le> n" "n - r \<le> B" using B nB by (simp_all add: r_def)
    then show ?thesis
      by (simp add: slice_def L memput_inside n_def [symmetric])
  qed
  also have "\<dots> = Inr (map (\<lambda>k. rq_in rq ! ((o0 + k) mod B)) [0..<n])"
    using rotated_block [of "rq_in rq" B n o0] assms(3) nB by (simp add: B_def s_def r_def)
  finally show ?thesis by (simp only: n_def B_def o0_def)
qed

definition rotation_rq :: z_erofs_decompress_req where
  "rotation_rq = \<lparr>rq_in = replicate 256 7 @ replicate 256 9, decodedskip = 1, inputsize = 512, decodedlength = 3,
     interlaced_offset = 510, rq_alg = 5, partial_decoding = False\<rparr>"

theorem decompress_interlaced_rotates_witness:
  "z_erofs_decompress no_lib ((zero_sbi (plain_file []))\<lparr>blkszbits := 9\<rparr>) rotation_rq [0, 0] = Inr [9, 7]"
  by (subst decompress_interlaced_rotates)
    (simp_all add: rotation_rq_def nth_append word_le_def upt_rec)

end
