(* ===== verification/Erofs_Data.thy ===== *)
theory Erofs_Data
  imports Zmap Erofs_Decompress
begin

text \<open>
  Reading file data: \<^verbatim>\<open>lib/data.c\<close>.  Destination buffers are passed with their previous contents and
  returned with the new ones; the compressed input of one request is exactly the \<^verbatim>\<open>m_plen\<close> bytes
  that were read for it.  The loops take fuel: one unit per iteration and per nested read of the
  packed inode.  The theorems at the end give the fuel that is enough.
\<close>

section \<open>Mapping uncompressed files\<close>

definition erofs_map_blocks_flatmode ::
    "erofs_sb_info \<Rightarrow> erofs_inode \<Rightarrow> erofs_map_blocks \<Rightarrow> erofs_map_blocks result" where
  "erofs_map_blocks_flatmode sbi vi mp =
     (let offset = m_la mp;
          tailendpacking = (datalayout vi = EROFS_INODE_FLAT_INLINE);
          nblocks = ucast (BLK_ROUND_UP sbi (i_size vi)) :: u32;
          lastblk = nblocks - (if tailendpacking then 1 else 0)
      in if offset < erofs_pos sbi lastblk
         then let plen = erofs_pos sbi lastblk - offset in
              Inr (mp\<lparr>m_flags := EROFS_MAP_MAPPED, m_pa := erofs_pos sbi (i_u vi) + offset,
                      m_plen := plen, m_llen := plen\<rparr>)
         else if tailendpacking
         then let pa = erofs_iloc sbi vi + ucast (inode_isize vi) + ucast (xattr_isize vi) + erofs_blkoff sbi offset;
                  plen = i_size vi - offset
              in if ucast (erofs_blksiz sbi) < erofs_blkoff sbi pa + plen then Err EFSCORRUPTED
                 else Inr (mp\<lparr>m_flags := EROFS_MAP_MAPPED OR EROFS_MAP_META, m_pa := pa,
                              m_plen := plen, m_llen := plen\<rparr>)
         else Err EIO)"

abbreviation (input) EROFS_NULL_ADDR :: u32 where "EROFS_NULL_ADDR \<equiv> 0xffffffff"

definition chunk_unit :: "erofs_inode \<Rightarrow> u64" where
  "chunk_unit vi = (if chunkformat vi AND EROFS_CHUNK_FORMAT_INDEXES \<noteq> 0 then 8 else 4)"

definition chunk_index_pos :: "erofs_sb_info \<Rightarrow> erofs_inode \<Rightarrow> u64 \<Rightarrow> u64" where
  "chunk_index_pos sbi vi chunknr =
     roundup (erofs_iloc sbi vi + ucast (inode_isize vi) + ucast (xattr_isize vi)) (chunk_unit vi) +
     chunk_unit vi * chunknr"

text \<open>The extent of a chunk, from its block address and, for chunk indexes, its device.\<close>

definition chunk_extent ::
    "erofs_sb_info \<Rightarrow> u32 \<Rightarrow> u16 option \<Rightarrow> erofs_map_blocks \<Rightarrow> erofs_map_blocks" where
  "chunk_extent sbi blkaddr dev mp =
     (if blkaddr = EROFS_NULL_ADDR then mp\<lparr>m_flags := 0\<rparr>
      else mp\<lparr>m_deviceid := (case dev of None \<Rightarrow> m_deviceid mp | Some d \<Rightarrow> d AND device_id_mask sbi),
              m_pa := erofs_pos sbi blkaddr, m_flags := EROFS_MAP_MAPPED\<rparr>)"

definition erofs_map_blocks ::
    "erofs_sb_info \<Rightarrow> erofs_inode \<Rightarrow> erofs_map_blocks \<Rightarrow> erofs_map_blocks result" where
  "erofs_map_blocks sbi vi mp0 =
     (let mp = mp0\<lparr>m_deviceid := 0\<rparr> in
      if i_size vi \<le> m_la mp then Inr (mp\<lparr>m_flags := 0, m_plen := 0, m_llen := 0\<rparr>)
      else if datalayout vi \<noteq> EROFS_INODE_CHUNK_BASED then erofs_map_blocks_flatmode sbi vi mp
      else
        let chunknr = drop_bit (unat (chunkbits vi)) (m_la mp);
            pos = chunk_index_pos sbi vi chunknr;
            off = unat (erofs_blkoff sbi pos)
        in bindR (mapErr toEIO (erofs_blk_read sbi 0 (ucast (erofs_blknr sbi pos)) 1)) (\<lambda>buf.
             let la = push_bit (unat (chunkbits vi)) chunknr;
                 plen = min (push_bit (unat (chunkbits vi)) 1)
                            (roundup (i_size vi - la) (ucast (erofs_blksiz sbi)));
                 mp = mp\<lparr>m_la := la, m_plen := plen, m_llen := plen\<rparr>
             in if chunkformat vi AND EROFS_CHUNK_FORMAT_INDEXES = 0
                then bindR (slice buf off 4) (\<lambda>s. Inr (chunk_extent sbi (le_get s) None mp))
                else bindR (slice buf off 8) (\<lambda>s.
                       let idx = dec_chunk_index s in
                       Inr (chunk_extent sbi (ci_blkaddr idx) (Some (ci_device_id idx)) mp))))"

section \<open>Devices\<close>

record erofs_map_dev =
  md_pa :: u64
  md_deviceid :: u16

fun map_dev_loop :: "erofs_sb_info \<Rightarrow> nat \<Rightarrow> erofs_device_info list \<Rightarrow> u64 \<Rightarrow> u64 result" where
  "map_dev_loop sbi 0 ds pa = Inr pa"
| "map_dev_loop sbi (Suc n) [] pa = Inl OutOfBounds"
| "map_dev_loop sbi (Suc n) (dif # ds) pa =
     (if dif_mapped_blkaddr dif = 0 then map_dev_loop sbi n ds pa
      else let startoff = erofs_pos sbi (dif_mapped_blkaddr dif); len = erofs_pos sbi (dif_blocks dif) in
           if startoff \<le> pa \<and> pa < startoff + len then Inr (pa - startoff)
           else map_dev_loop sbi n ds pa)"

definition erofs_map_dev :: "erofs_sb_info \<Rightarrow> erofs_map_dev \<Rightarrow> erofs_map_dev result" where
  "erofs_map_dev sbi md =
     (if md_deviceid md \<noteq> 0
      then if extra_devices sbi < md_deviceid md then Err ENODEV else Inr md
      else if extra_devices sbi \<noteq> 0
      then case devs sbi of
             None \<Rightarrow> Inl OutOfBounds
           | Some ds \<Rightarrow> bindR (map_dev_loop sbi (unat (extra_devices sbi)) ds (md_pa md))
                          (\<lambda>pa. Inr (md\<lparr>md_pa := pa\<rparr>))
      else Inr md)"

section \<open>Uncompressed data\<close>

definition erofs_read_one_data ::
    "erofs_sb_info \<Rightarrow> erofs_map_blocks \<Rightarrow> u64 \<Rightarrow> nat \<Rightarrow> bytes result" where
  "erofs_read_one_data sbi mp offset len =
     bindR (erofs_map_dev sbi \<lparr>md_pa = m_pa mp, md_deviceid = m_deviceid mp\<rparr>) (\<lambda>mdev.
       mapErr toEIO (erofs_dev_read sbi (unat (md_deviceid mdev)) (md_pa mdev + offset) len))"

fun raw_loop ::
    "nat \<Rightarrow> erofs_sb_info \<Rightarrow> erofs_inode \<Rightarrow> erofs_map_blocks \<Rightarrow> bytes \<Rightarrow> u64 \<Rightarrow> u64 \<Rightarrow> bytes result" where
  "raw_loop 0 sbi vi mp buffer offset ptr = Inl OutOfFuel"
| "raw_loop (Suc n) sbi vi mp buffer offset ptr =
     (let stop = offset + of_nat (length buffer); estart = unat (ptr - offset) in
      if \<not> ptr < stop then Inr buffer
      else bindR (erofs_map_blocks sbi vi (mp\<lparr>m_la := ptr\<rparr>)) (\<lambda>mp.
        let eend = min stop (m_la mp + m_llen mp) in
        if m_flags mp AND EROFS_MAP_MAPPED = 0
        then if m_llen mp = 0
             then bindR (memput buffer estart (replicate (unat (stop - ptr)) 0))
                    (\<lambda>buffer. raw_loop n sbi vi mp buffer offset stop)
             else bindR (memput buffer estart (replicate (unat (eend - ptr)) 0))
                    (\<lambda>buffer. raw_loop n sbi vi mp buffer offset eend)
        else
          let moff = (if m_la mp < ptr then ptr - m_la mp else 0);
              mp = (if m_la mp < ptr then mp\<lparr>m_la := ptr\<rparr> else mp)
          in bindR (erofs_read_one_data sbi mp moff (unat (eend - m_la mp))) (\<lambda>d.
               bindR (memput buffer estart d) (\<lambda>buffer. raw_loop n sbi vi mp buffer offset eend))))"

definition erofs_read_raw_data ::
    "nat \<Rightarrow> erofs_sb_info \<Rightarrow> erofs_inode \<Rightarrow> bytes \<Rightarrow> u64 \<Rightarrow> bytes result" where
  "erofs_read_raw_data n sbi vi buffer offset = raw_loop n sbi vi init_map buffer offset offset"

section \<open>Compressed data\<close>

text \<open>
  The part of \<^verbatim>\<open>z_erofs_read_one_data\<close> that reads and decompresses one pcluster, and the request it builds;
  64-bit lengths are cut to the \<^verbatim>\<open>unsigned int\<close> members of the request.
\<close>

definition pcluster_req ::
    "erofs_sb_info \<Rightarrow> erofs_map_blocks \<Rightarrow> bytes \<Rightarrow> u64 \<Rightarrow> u64 \<Rightarrow> bool \<Rightarrow> z_erofs_decompress_req" where
  "pcluster_req sbi mp raw skip len trimmed =
     \<lparr>rq_in = raw, decodedskip = ucast skip, inputsize = ucast (m_plen mp), decodedlength = ucast len,
      interlaced_offset = (if m_algorithmformat mp = Z_EROFS_COMPRESSION_INTERLACED
                           then ucast (erofs_blkoff sbi (m_la mp)) else 0),
      rq_alg = ucast (m_algorithmformat mp),
      partial_decoding = (trimmed \<or> m_flags mp AND EROFS_MAP_FULL_MAPPED = 0 \<or>
                          m_flags mp AND EROFS_MAP_PARTIAL_REF \<noteq> 0)\<rparr>"

definition read_pcluster ::
    "decompress_lib \<Rightarrow> erofs_sb_info \<Rightarrow> erofs_map_blocks \<Rightarrow> bytes \<Rightarrow> u64 \<Rightarrow> u64 \<Rightarrow> bool \<Rightarrow> bytes result" where
  "read_pcluster lib sbi mp out skip len trimmed =
     bindR (erofs_map_dev sbi \<lparr>md_pa = m_pa mp, md_deviceid = 0\<rparr>) (\<lambda>mdev.
       bindR (erofs_dev_read sbi (unat (md_deviceid mdev)) (md_pa mdev) (unat (m_plen mp))) (\<lambda>raw.
         z_erofs_decompress lib sbi (pcluster_req sbi mp raw skip len trimmed) out))"

text \<open>
  \<^verbatim>\<open>z_erofs_read_one_data\<close>: a fragment is read out of the packed inode by the reader \<^verbatim>\<open>pread\<close>, which is
  \<^verbatim>\<open>erofs_pread\<close>; anything else is one pcluster.  \<^verbatim>\<open>out\<close> is the destination, \<^verbatim>\<open>len - skip\<close> bytes are wanted.
\<close>

definition z_erofs_read_one_data ::
    "(erofs_inode \<Rightarrow> bytes \<Rightarrow> u64 \<Rightarrow> (erofs_inode \<times> bytes) result) \<Rightarrow> decompress_lib \<Rightarrow> erofs_sb_info \<Rightarrow>
     erofs_inode \<Rightarrow> erofs_map_blocks \<Rightarrow> bytes \<Rightarrow> u64 \<Rightarrow> u64 \<Rightarrow> bool \<Rightarrow> bytes result" where
  "z_erofs_read_one_data pread lib sbi vi mp out skip len trimmed =
     (if m_flags mp AND EROFS_MAP_FRAGMENT \<noteq> 0
      then bindR (erofs_read_inode_from_disk sbi (zero_inode (packed_nid sbi))) (\<lambda>packed_inode.
             bindR (slice out 0 (unat (len - skip))) (\<lambda>dest.
               bindR (pread packed_inode dest (fragmentoff vi + skip)) (\<lambda>(_, d). memput out 0 d)))
      else read_pcluster lib sbi mp out skip len trimmed)"

text \<open>
  One iteration of \<^verbatim>\<open>z_erofs_read_data\<close> works backwards from \<^verbatim>\<open>end\<close>: it maps the last byte that is still
  missing and fills \<^verbatim>\<open>buffer\<close> from where that extent, or the request, begins.  The result is the new
  \<^verbatim>\<open>end\<close> and the buffer.
\<close>

definition z_step ::
    "(erofs_inode \<Rightarrow> bytes \<Rightarrow> u64 \<Rightarrow> (erofs_inode \<times> bytes) result) \<Rightarrow> decompress_lib \<Rightarrow> erofs_sb_info \<Rightarrow>
     erofs_inode \<Rightarrow> erofs_map_blocks \<Rightarrow> bytes \<Rightarrow> u64 \<Rightarrow> u64 \<Rightarrow> (bytes \<times> u64) result" where
  "z_step pread lib sbi vi mp buffer offset fin =
     (let trimmed = (fin < m_la mp + m_llen mp);
          len = (if trimmed then fin - m_la mp else m_llen mp);
          skip = (if m_la mp < offset then offset - m_la mp else 0);
          fin' = (if m_la mp < offset then offset else m_la mp);
          at = unat (fin' - offset)
      in if m_flags mp AND EROFS_MAP_MAPPED = 0
         then bindR (memput buffer at (replicate (unat (len - skip)) 0)) (\<lambda>buffer. Inr (buffer, m_la mp))
         else if length buffer < at then Inl OutOfBounds
         else bindR (z_erofs_read_one_data pread lib sbi vi mp (drop at buffer) skip len trimmed) (\<lambda>d.
                Inr (take at buffer @ d, fin')))"

fun erofs_pread ::
    "nat \<Rightarrow> decompress_lib \<Rightarrow> erofs_sb_info \<Rightarrow> erofs_inode \<Rightarrow> bytes \<Rightarrow> u64 \<Rightarrow> (erofs_inode \<times> bytes) result"
and z_loop ::
    "nat \<Rightarrow> decompress_lib \<Rightarrow> erofs_sb_info \<Rightarrow> erofs_inode \<Rightarrow> erofs_map_blocks \<Rightarrow> bytes \<Rightarrow> u64 \<Rightarrow> u64 \<Rightarrow>
     (erofs_inode \<times> bytes) result" where
  "erofs_pread 0 lib sbi vi buf offset = Inl OutOfFuel"
| "erofs_pread (Suc n) lib sbi vi buf offset =
     (if erofs_inode_is_data_compressed (datalayout vi)
      then z_loop n lib sbi vi init_map buf offset (offset + of_nat (length buf))
      else bindR (erofs_read_raw_data n sbi vi buf offset) (\<lambda>buf. Inr (vi, buf)))"
| "z_loop 0 lib sbi vi mp buffer offset fin = Inl OutOfFuel"
| "z_loop (Suc n) lib sbi vi mp buffer offset fin =
     (if \<not> offset < fin then Inr (vi, buffer)
      else bindR (z_erofs_map_blocks_iter sbi vi (mp\<lparr>m_la := fin - 1\<rparr>) 0) (\<lambda>(vi, mp).
        bindR (z_step (erofs_pread n lib sbi) lib sbi vi mp buffer offset fin) (\<lambda>(buffer, fin).
          z_loop n lib sbi vi mp buffer offset fin)))"

definition z_erofs_read_data ::
    "nat \<Rightarrow> decompress_lib \<Rightarrow> erofs_sb_info \<Rightarrow> erofs_inode \<Rightarrow> bytes \<Rightarrow> u64 \<Rightarrow> (erofs_inode \<times> bytes) result" where
  "z_erofs_read_data n lib sbi vi buffer offset =
     z_loop n lib sbi vi init_map buffer offset (offset + of_nat (length buffer))"

section \<open>Metadata\<close>

definition erofs_read_metadata_nid ::
    "nat \<Rightarrow> decompress_lib \<Rightarrow> erofs_sb_info \<Rightarrow> u64 \<Rightarrow> u64 \<Rightarrow> (bytes \<times> u64) result" where
  "erofs_read_metadata_nid n lib sbi nd offset0 =
     bindR (erofs_read_inode_from_disk sbi (zero_inode nd)) (\<lambda>vi.
       let offset = round_up offset0 4 in
       bindR (erofs_pread n lib sbi vi [0, 0] offset) (\<lambda>(vi, raw).
         let len = le_get raw :: u16 in
         if len = 0 then Err EFSCORRUPTED
         else bindR (erofs_pread n lib sbi vi (replicate (unat len) 0) (offset + 2)) (\<lambda>(_, buffer).
                Inr (buffer, offset + 2 + ucast len))))"

text \<open>The loop over blocks; every iteration but the last copies up to the end of a block.\<close>

fun metadata_loop :: "nat \<Rightarrow> erofs_sb_info \<Rightarrow> u64 \<Rightarrow> nat \<Rightarrow> bytes \<Rightarrow> (bytes \<times> u64) result" where
  "metadata_loop 0 sbi offset left buffer = Inl OutOfFuel"
| "metadata_loop (Suc n) sbi offset left buffer =
     (if left = 0 then Inr (buffer, offset)
      else let cnt = min (unat (erofs_blksiz sbi - ucast (erofs_blkoff sbi offset))) left in
           bindR (erofs_blk_read sbi 0 (ucast (erofs_blknr sbi offset)) 1) (\<lambda>data.
             bindR (slice data (unat (erofs_blkoff sbi offset)) cnt) (\<lambda>d.
               metadata_loop n sbi (offset + of_nat cnt) (left - cnt) (buffer @ d))))"

definition erofs_read_metadata_bdi ::
    "nat \<Rightarrow> erofs_sb_info \<Rightarrow> u64 \<Rightarrow> (bytes \<times> u64) result" where
  "erofs_read_metadata_bdi n sbi offset0 =
     (let offset = round_up offset0 4 in
      bindR (erofs_blk_read sbi 0 (ucast (erofs_blknr sbi offset)) 1) (\<lambda>data.
        bindR (slice data (unat (erofs_blkoff sbi offset)) 2) (\<lambda>s.
          let len = le_get s :: u16 in
          if len = 0 then Err EFSCORRUPTED
          else metadata_loop n sbi (offset + 2) (unat len) [])))"

definition erofs_read_metadata ::
    "nat \<Rightarrow> decompress_lib \<Rightarrow> erofs_sb_info \<Rightarrow> u64 \<Rightarrow> u64 \<Rightarrow> (bytes \<times> u64) result" where
  "erofs_read_metadata n lib sbi nd offset =
     (if nd \<noteq> 0 then erofs_read_metadata_nid n lib sbi nd offset else erofs_read_metadata_bdi n sbi offset)"

section \<open>Reading uncompressed files\<close>

text \<open>
  What the reader needs of a mapping at \<^verbatim>\<open>ptr\<close>: the extent contains \<^verbatim>\<open>ptr\<close>, and its part of the file
  \<^verbatim>\<open>F\<close> is zero if it is a hole and otherwise what the device returns there.
\<close>

definition extent_reads ::
    "erofs_sb_info \<Rightarrow> (nat \<Rightarrow> u8) \<Rightarrow> u64 \<Rightarrow> erofs_map_blocks \<Rightarrow> bool" where
  "extent_reads sbi F ptr mp \<longleftrightarrow>
     m_la mp \<le> ptr \<and> unat ptr < unat (m_la mp) + unat (m_llen mp) \<and>
     unat (m_la mp) + unat (m_llen mp) < 2 ^ 64 \<and>
     (if m_flags mp AND EROFS_MAP_MAPPED = 0
      then \<forall>k < unat (m_llen mp). F (unat (m_la mp) + k) = 0
      else \<forall>k n. unat k + n \<le> unat (m_llen mp) \<longrightarrow>
             erofs_read_one_data sbi mp k n = Inr (map F [unat (m_la mp) + unat k ..< unat (m_la mp) + unat k + n]))"

locale extent_provider =
  fixes ok :: "erofs_sb_info \<Rightarrow> erofs_inode \<Rightarrow> bool"
    and content :: "erofs_sb_info \<Rightarrow> erofs_inode \<Rightarrow> nat \<Rightarrow> u8"
  assumes extent: "ok sbi vi \<Longrightarrow> ptr < i_size vi \<Longrightarrow>
    \<exists>mp'. erofs_map_blocks sbi vi (mp\<lparr>m_la := ptr\<rparr>) = Inr mp' \<and> extent_reads sbi (content sbi vi) ptr mp'"
begin

lemma extent_obtain:
  assumes "ok sbi vi" "ptr < i_size vi"
  obtains mp' where "erofs_map_blocks sbi vi (mp\<lparr>m_la := ptr\<rparr>) = Inr mp'"
    "extent_reads sbi (content sbi vi) ptr mp'"
  using extent [OF assms] by blast

end

lemma erofs_read_one_data_la [simp]:
  "erofs_read_one_data sbi (mp\<lparr>m_la := x\<rparr>) off n = erofs_read_one_data sbi mp off n"
  by (simp add: erofs_read_one_data_def)

text \<open>One iteration of the loop: it fills the buffer up to \<^verbatim>\<open>eend\<close> and goes on there.\<close>

lemma raw_step:
  assumes m: "erofs_map_blocks sbi vi (mp\<lparr>m_la := ptr\<rparr>) = Inr mp'"
    and e: "extent_reads sbi F ptr mp'"
    and b: "offset \<le> ptr" "unat ptr < unat offset + length buffer" "unat offset + length buffer < 2 ^ 64"
    and eend: "eend = min (unat offset + length buffer) (unat (m_la mp') + unat (m_llen mp'))"
  shows "\<exists>mp2. raw_loop (Suc n) sbi vi mp buffer offset ptr =
    raw_loop n sbi vi mp2 (take (unat ptr - unat offset) buffer @ map F [unat ptr ..< eend] @
      drop (eend - unat offset) buffer) offset (of_nat eend)"
proof -
  let ?stop = "offset + of_nat (length buffer)" and ?fin = "m_la mp' + m_llen mp'"
  have stop: "unat ?stop = unat offset + length buffer"
    using b(3) by (simp add: unat_word_ariths unat_of_nat)
  have ext: "unat (m_la mp') \<le> unat ptr" "unat ptr < unat (m_la mp') + unat (m_llen mp')"
    and en: "unat ?fin = unat (m_la mp') + unat (m_llen mp')"
    using e by (auto simp: extent_reads_def word_le_nat_alt unat_word_ariths)
  have ee: "unat (min ?stop ?fin) = eend"
    by (simp add: min_def word_le_nat_alt stop en eend)
  then have eew: "min ?stop ?fin = of_nat eend" by (metis of_nat_unat ucast_id)
  have lt: "ptr < ?stop" using stop b(2) by (simp add: word_less_nat_alt)
  have pe: "unat ptr < eend" "eend \<le> unat offset + length buffer" using ext b(2) by (simp_all add: eend)
  have es: "unat (ptr - offset) = unat ptr - unat offset" using b(1) by (simp add: unat_sub word_le_nat_alt)
  have le: "unat offset \<le> unat ptr" using b(1) by (simp add: word_le_nat_alt)
  have put: "memput buffer (unat (ptr - offset)) (map F [unat ptr ..< eend]) =
      Inr (take (unat ptr - unat offset) buffer @ map F [unat ptr ..< eend] @ drop (eend - unat offset) buffer)"
    using pe le by (simp add: es memput_inside)
  show ?thesis
  proof (cases "m_flags mp' AND EROFS_MAP_MAPPED = 0")
    case True
    have "F k = 0" if "unat ptr \<le> k" "k < eend" for k
    proof -
      have "k - unat (m_la mp') < unat (m_llen mp')" using that ext by (auto simp: eend)
      then show ?thesis using e True that ext by (auto simp: extent_reads_def dest!: spec [of _ "k - unat (m_la mp')"])
    qed
    then have z: "replicate (unat (min ?stop ?fin - ptr)) 0 = map F [unat ptr ..< eend]"
      using pe by (intro nth_equalityI) (auto simp: unat_sub word_le_nat_alt ee)
    have "m_llen mp' \<noteq> 0" using ext by auto
    then show ?thesis
      unfolding raw_loop.simps Let_def m bindR.simps z put
      using True lt by (auto simp: eew)
  next
    case False
    define moff where "moff = (if m_la mp' < ptr then ptr - m_la mp' else 0)"
    have mo: "unat moff = unat ptr - unat (m_la mp')"
      using ext by (auto simp: moff_def unat_sub word_le_nat_alt word_less_nat_alt)
    have "erofs_read_one_data sbi mp' moff (eend - unat ptr) =
        Inr (map F [unat (m_la mp') + unat moff ..< unat (m_la mp') + unat moff + (eend - unat ptr)])"
      using e False ext pe by (simp add: extent_reads_def mo eend)
    then have rd: "erofs_read_one_data sbi mp' moff (eend - unat ptr) = Inr (map F [unat ptr ..< eend])"
      using ext pe by (simp add: mo)
    have la: "m_la (if m_la mp' < ptr then mp'\<lparr>m_la := ptr\<rparr> else mp') = ptr"
      using ext by (auto simp: word_less_nat_alt word_unat_eq_iff)
    have len: "unat (min ?stop ?fin - ptr) = eend - unat ptr"
      using pe by (subst unat_sub) (simp_all add: word_le_nat_alt ee)
    have rd': "erofs_read_one_data sbi (if m_la mp' < ptr then mp'\<lparr>m_la := ptr\<rparr> else mp') moff (eend - unat ptr) =
        Inr (map F [unat ptr ..< eend])"
      using rd by simp
    show ?thesis
      unfolding raw_loop.simps Let_def m bindR.simps moff_def [symmetric] la len rd' put
      using False lt by (auto simp: eew)
  qed
qed

context extent_provider
begin

text \<open>The loop ends and fills the whole buffer: one unit of fuel per missing byte is enough.\<close>

lemma raw_loop_reads:
  assumes "ok sbi vi" and "unat offset + length buffer \<le> unat (i_size vi)"
    and "offset \<le> ptr" and "unat ptr \<le> unat offset + length buffer"
    and "unat offset + length buffer - unat ptr < n"
  shows "raw_loop n sbi vi mp buffer offset ptr =
    Inr (take (unat ptr - unat offset) buffer @ map (content sbi vi) [unat ptr ..< unat offset + length buffer])"
  using assms(2-)
proof (induction n arbitrary: mp buffer ptr)
  case 0
  then show ?case by simp
next
  case (Suc n)
  let ?S = "unat offset + length buffer"
  have S64: "?S < 2 ^ 64" using Suc.prems(1) unsigned_less [of "i_size vi", where 'a = nat] by simp
  show ?case
  proof (cases "unat ptr = ?S")
    case True
    have "unat (offset + of_nat (length buffer)) = ?S"
      using S64 by (simp add: unat_word_ariths unat_of_nat)
    then show ?thesis using True by (simp add: word_less_nat_alt Let_def)
  next
    case False
    then have lt: "unat ptr < ?S" using Suc.prems(3) by simp
    then have "ptr < i_size vi" using Suc.prems(1) by (simp add: word_less_nat_alt)
    then obtain mp' where m: "erofs_map_blocks sbi vi (mp\<lparr>m_la := ptr\<rparr>) = Inr mp'"
      and e: "extent_reads sbi (content sbi vi) ptr mp'"
      using extent_obtain [OF assms(1)] by blast
    define eend where "eend = min ?S (unat (m_la mp') + unat (m_llen mp'))"
    have pe: "unat ptr < eend" "eend \<le> ?S" using e lt by (auto simp: eend_def extent_reads_def)
    have ue: "unat (of_nat eend :: u64) = eend" using pe S64 by (simp add: unat_of_nat)
    have le: "unat offset \<le> unat ptr" using Suc.prems(2) by (simp add: word_le_nat_alt)
    obtain mp2 where st: "raw_loop (Suc n) sbi vi mp buffer offset ptr =
        raw_loop n sbi vi mp2 (take (unat ptr - unat offset) buffer @ map (content sbi vi) [unat ptr ..< eend] @
          drop (eend - unat offset) buffer) offset (of_nat eend)"
      using raw_step [OF m e Suc.prems(2) lt S64 eend_def] by blast
    let ?b = "take (unat ptr - unat offset) buffer @ map (content sbi vi) [unat ptr ..< eend] @ drop (eend - unat offset) buffer"
    have lb: "length ?b = length buffer" using pe le lt by simp
    have "raw_loop n sbi vi mp2 ?b offset (of_nat eend) =
        Inr (take (eend - unat offset) ?b @ map (content sbi vi) [eend ..< ?S])"
      using Suc.IH [of ?b "of_nat eend" mp2] Suc.prems(1,4) pe le
      by (simp only: lb ue word_le_nat_alt)
    moreover have "take (eend - unat offset) ?b = take (unat ptr - unat offset) buffer @ map (content sbi vi) [unat ptr ..< eend]"
      using pe le lt by (simp add: min_def)
    moreover have "[unat ptr ..< eend] @ [eend ..< ?S] = [unat ptr ..< ?S]"
      using pe upt_add_eq_append [of "unat ptr" eend "?S - eend"] by simp
    ultimately show ?thesis by (simp only: st append_assoc map_append [symmetric])
  qed
qed

lemma pread_reads:
  assumes "ok sbi vi" and "\<not> erofs_inode_is_data_compressed (datalayout vi)"
    and "unat offset + length buffer \<le> unat (i_size vi)" and "length buffer + 2 \<le> n"
  shows "erofs_pread n lib sbi vi buffer offset =
    Inr (vi, map (content sbi vi) [unat offset ..< unat offset + length buffer])"
proof -
  obtain k where n: "n = Suc k" using assms(4) by (cases n) auto
  then show ?thesis
    using raw_loop_reads [OF assms(1,3), of offset k] assms(2,4)
    by (simp add: erofs_read_raw_data_def)
qed

end

subsection \<open>Flat files\<close>

definition zbyte :: "bytes \<Rightarrow> nat \<Rightarrow> u8" where
  "zbyte dat p = (if p < length dat then dat ! p else 0)"

lemma zread_zbyte: "zread dat p n = map (zbyte dat) [p ..< p + n]"
  by (rule nth_equalityI) (auto simp: nth_zread zbyte_def)

definition flat_lastblk :: "erofs_sb_info \<Rightarrow> erofs_inode \<Rightarrow> nat" where
  "flat_lastblk sbi vi =
     (unat (i_size vi) + 2 ^ blkbits sbi - 1) div 2 ^ blkbits sbi -
     (if datalayout vi = EROFS_INODE_FLAT_INLINE then 1 else 0)"

definition inline_pos :: "erofs_sb_info \<Rightarrow> erofs_inode \<Rightarrow> u64" where
  "inline_pos sbi vi = erofs_iloc sbi vi + ucast (inode_isize vi) + ucast (xattr_isize vi)"

text \<open>The contents of a flat file: whole blocks at its block address, the inline tail after the inode.\<close>

definition flat_byte :: "erofs_sb_info \<Rightarrow> erofs_inode \<Rightarrow> nat \<Rightarrow> u8" where
  "flat_byte sbi vi k =
     (if k < flat_lastblk sbi vi * 2 ^ blkbits sbi
      then zbyte (vf_bytes (bdev sbi)) (unat (i_u vi) * 2 ^ blkbits sbi + k)
      else zbyte (vf_bytes (bdev sbi)) (unat (inline_pos sbi vi) + k mod 2 ^ blkbits sbi))"

definition flat_ok :: "erofs_sb_info \<Rightarrow> erofs_inode \<Rightarrow> bool" where
  "flat_ok sbi vi \<longleftrightarrow>
     quiet (bdev sbi) \<and> extra_devices sbi = 0 \<and> blkbits sbi \<le> 12 \<and>
     (datalayout vi = EROFS_INODE_FLAT_PLAIN \<or> datalayout vi = EROFS_INODE_FLAT_INLINE) \<and>
     unat (i_size vi) \<le> (2 ^ 32 - 1) * 2 ^ blkbits sbi \<and>
     unat (inline_pos sbi vi) + 2 ^ blkbits sbi < 2 ^ 64 \<and>
     (datalayout vi = EROFS_INODE_FLAT_INLINE \<longrightarrow>
        unat (inline_pos sbi vi) mod 2 ^ blkbits sbi + unat (i_size vi) \<le>
          (flat_lastblk sbi vi + 1) * 2 ^ blkbits sbi)"

lemma read_one_quiet:
  assumes "quiet (bdev sbi)" "extra_devices sbi = 0" "m_deviceid mp = 0"
    and "unat (m_pa mp) + unat k < 2 ^ 64"
  shows "erofs_read_one_data sbi mp k n =
    Inr (map (zbyte (vf_bytes (bdev sbi))) [unat (m_pa mp) + unat k ..< unat (m_pa mp) + unat k + n])"
proof -
  have "unat (m_pa mp + k) = unat (m_pa mp) + unat k" using assms(4) by (simp add: unat_word_ariths)
  then show ?thesis
    using assms by (simp add: erofs_read_one_data_def erofs_map_dev_def erofs_dev_read_quiet zread_zbyte)
qed

lemma flat_lastblk_word:
  assumes "flat_ok sbi vi" "0 < unat (i_size vi)"
  shows "unat (ucast (BLK_ROUND_UP sbi (i_size vi)) -
            (if datalayout vi = EROFS_INODE_FLAT_INLINE then 1 else 0) :: u32) = flat_lastblk sbi vi"
    and "flat_lastblk sbi vi * 2 ^ blkbits sbi < unat (i_size vi) + 2 ^ blkbits sbi"
    and "datalayout vi = EROFS_INODE_FLAT_INLINE \<Longrightarrow> flat_lastblk sbi vi * 2 ^ blkbits sbi < unat (i_size vi)"
    and "datalayout vi \<noteq> EROFS_INODE_FLAT_INLINE \<Longrightarrow> unat (i_size vi) \<le> flat_lastblk sbi vi * 2 ^ blkbits sbi"
    and "unat (i_size vi) \<le> (flat_lastblk sbi vi + 1) * 2 ^ blkbits sbi"
    and "flat_lastblk sbi vi < 2 ^ 32"
proof -
  let ?B = "2 ^ blkbits sbi :: nat" and ?q = "(unat (i_size vi) + 2 ^ blkbits sbi - 1) div 2 ^ blkbits sbi"
  have sz: "unat (i_size vi) \<le> (2 ^ 32 - 1) * ?B" and b: "blkbits sbi \<le> 12"
    using assms(1) by (simp_all add: flat_ok_def)
  have Bb: "?B \<le> 2 ^ 12" using b by (intro power_increasing) auto
  have q: "?q * ?B < unat (i_size vi) + ?B" "unat (i_size vi) \<le> ?q * ?B" "0 < ?q"
    using assms(2) ceil_div_bounds [of ?B "unat (i_size vi)"] by (auto simp: div_greater_zero_iff)
  have "?q * ?B < (2 ^ 32 - 1) * ?B + ?B" using q(1) sz by linarith
  also have "\<dots> = 2 ^ 32 * ?B" by (simp add: algebra_simps)
  finally have q32: "?q < 2 ^ 32" by (simp only: mult_less_cancel2)
  have "unat (BLK_ROUND_UP sbi (i_size vi)) = ?q"
  proof (rule unat_BLK_ROUND_UP)
    show "blkbits sbi < 32" using b by simp
    have "(2 ^ 32 - 1) * ?B + ?B \<le> 2 ^ 64" using Bb by simp
    then show "unat (i_size vi) + ?B \<le> 2 ^ 64" using sz by linarith
  qed
  then have u: "unat (ucast (BLK_ROUND_UP sbi (i_size vi)) :: u32) = ?q"
    using q32 by (simp only: unsigned_ucast_eq unsigned_take_bit_eq) (simp add: take_bit_nat_eq_self)
  show "unat (ucast (BLK_ROUND_UP sbi (i_size vi)) -
            (if datalayout vi = EROFS_INODE_FLAT_INLINE then 1 else 0) :: u32) = flat_lastblk sbi vi"
    using u q(3) by (simp add: flat_lastblk_def unat_sub word_le_nat_alt)
  show "flat_lastblk sbi vi * ?B < unat (i_size vi) + ?B"
    using q(1) by (simp add: flat_lastblk_def diff_mult_distrib)
  show "flat_lastblk sbi vi * ?B < unat (i_size vi)" if "datalayout vi = EROFS_INODE_FLAT_INLINE"
    using q(1,3) that assms(2) by (simp add: flat_lastblk_def diff_mult_distrib)
  show "unat (i_size vi) \<le> flat_lastblk sbi vi * ?B" if "datalayout vi \<noteq> EROFS_INODE_FLAT_INLINE"
    using q(2) that by (simp add: flat_lastblk_def)
  show "unat (i_size vi) \<le> (flat_lastblk sbi vi + 1) * ?B"
    using q(2,3) by (simp add: flat_lastblk_def add_mult_distrib diff_mult_distrib)
  show "flat_lastblk sbi vi < 2 ^ 32" using q32 by (simp add: flat_lastblk_def)
qed

lemma flat_facts:
  assumes ok: "flat_ok sbi vi" and p: "ptr < i_size vi"
  shows "quiet (bdev sbi)" "extra_devices sbi = 0" "blkbits sbi \<le> 12" "(2::nat) ^ blkbits sbi \<le> 2 ^ 12"
    and "datalayout vi = EROFS_INODE_FLAT_PLAIN \<or> datalayout vi = EROFS_INODE_FLAT_INLINE"
    and "unat (inline_pos sbi vi) + 2 ^ blkbits sbi < 2 ^ 64"
    and "unat ptr < unat (i_size vi)" "0 < unat (i_size vi)" "(i_size vi \<le> ptr) = False"
  using assms power_increasing [of "blkbits sbi" 12 "2::nat"]
  by (auto simp: flat_ok_def word_less_nat_alt word_le_nat_alt)

lemma flat_block_range:
  assumes "blkbits sbi \<le> 12" "k < 2 ^ 32"
  shows "k * 2 ^ blkbits sbi < (2 ^ 44 :: nat)"
proof -
  have "k * 2 ^ blkbits sbi \<le> k * 2 ^ 12" using assms(1) by (intro mult_left_mono power_increasing) auto
  also have "\<dots> < 2 ^ 44" using assms(2) by simp
  finally show ?thesis .
qed

lemma flat_lastblk_pos:
  assumes "flat_ok sbi vi" "ptr < i_size vi"
  shows "unat (erofs_pos sbi (ucast (BLK_ROUND_UP sbi (i_size vi)) -
           (if datalayout vi = EROFS_INODE_FLAT_INLINE then 1 else 0) :: u32)) = flat_lastblk sbi vi * 2 ^ blkbits sbi"
  using flat_lastblk_word(1) [OF assms(1) flat_facts(8) [OF assms]] flat_facts(3) [OF assms]
  by (subst unat_erofs_pos32) (simp_all split del: if_split)

text \<open>An offset in the whole blocks.\<close>

lemma flat_extent_blocks:
  assumes ok: "flat_ok sbi vi" and p: "ptr < i_size vi"
    and True: "unat ptr < flat_lastblk sbi vi * 2 ^ blkbits sbi"
  shows "\<exists>mp'. erofs_map_blocks sbi vi (mp\<lparr>m_la := ptr\<rparr>) = Inr mp' \<and> extent_reads sbi (flat_byte sbi vi) ptr mp'"
proof -
  let ?B = "2 ^ blkbits sbi :: nat" and ?S = "unat (i_size vi)" and ?l = "flat_lastblk sbi vi"
  let ?lw = "ucast (BLK_ROUND_UP sbi (i_size vi)) - (if datalayout vi = EROFS_INODE_FLAT_INLINE then 1 else 0) :: u32"
  note ff = flat_facts [OF ok p]
  note q = ff(1,2) and b = ff(3) and Bb = ff(4) and lay = ff(5) and ip = ff(6) and pS = ff(7) and S0 = ff(8) and c1 = ff(9)
  note lb = flat_lastblk_word [OF ok S0] and m44 = flat_block_range [OF b] and pl = flat_lastblk_pos [OF ok p]
  have pu: "unat (erofs_pos sbi (i_u vi)) = unat (i_u vi) * ?B" using b by (simp add: unat_erofs_pos32)
  have nc: "datalayout vi \<noteq> EROFS_INODE_CHUNK_BASED" using lay by auto
  let ?pa = "erofs_pos sbi (i_u vi) + ptr" and ?len = "erofs_pos sbi ?lw - ptr"
  have iu: "unat (i_u vi) * ?B < 2 ^ 44" using m44 unsigned_less [of "i_u vi"] by simp
  have lB: "?l * ?B < 2 ^ 44" using m44 lb(6) by simp
  have pa: "unat ?pa = unat (i_u vi) * ?B + unat ptr" using iu lB True pu by (simp add: unat_word_ariths)
  have len: "unat ?len = ?l * ?B - unat ptr" using True pl by (simp add: unat_sub word_le_nat_alt)
  let ?mp = "mp\<lparr>m_la := ptr, m_deviceid := 0, m_flags := EROFS_MAP_MAPPED, m_pa := ?pa, m_plen := ?len, m_llen := ?len\<rparr>"
  have "erofs_map_blocks sbi vi (mp\<lparr>m_la := ptr\<rparr>) = Inr ?mp"
    using c1 nc True pl
    by (simp add: erofs_map_blocks_def erofs_map_blocks_flatmode_def Let_def word_less_nat_alt [of ptr]
        split del: if_split)
  moreover have "extent_reads sbi (flat_byte sbi vi) ptr ?mp"
  proof -
    have "erofs_read_one_data sbi ?mp k n = Inr (map (flat_byte sbi vi) [unat ptr + unat k ..< unat ptr + unat k + n])"
      if "unat k + n \<le> unat ?len" for k n
    proof -
      have "unat ptr + unat k + n \<le> ?l * ?B" using that len True by simp
      then show ?thesis
        using read_one_quiet [OF q, of ?mp k n] pa iu lB
        by (auto simp: flat_byte_def add.assoc intro!: nth_equalityI)
    qed
    then show ?thesis using True len lB by (simp add: extent_reads_def)
  qed
  ultimately show ?thesis by blast
qed

text \<open>An offset in the inline tail, whose position in its block is the offset in the last block.\<close>

lemma flat_inline_mod:
  assumes ok: "flat_ok sbi vi" and "flat_lastblk sbi vi * 2 ^ blkbits sbi \<le> k" "k < unat (i_size vi)"
  shows "k mod 2 ^ blkbits sbi = k - flat_lastblk sbi vi * 2 ^ blkbits sbi"
proof -
  have S0: "0 < unat (i_size vi)" using assms(3) by simp
  have "k - flat_lastblk sbi vi * 2 ^ blkbits sbi < 2 ^ blkbits sbi"
    using assms flat_lastblk_word(5) [OF ok S0] by (simp add: add_mult_distrib)
  moreover have "k = (k - flat_lastblk sbi vi * 2 ^ blkbits sbi) + flat_lastblk sbi vi * 2 ^ blkbits sbi"
    using assms by simp
  ultimately show ?thesis by (metis mod_less mod_mult_self1)
qed

lemma flat_extent_inline:
  assumes ok: "flat_ok sbi vi" and p: "ptr < i_size vi"
    and False: "\<not> unat ptr < flat_lastblk sbi vi * 2 ^ blkbits sbi"
  shows "\<exists>mp'. erofs_map_blocks sbi vi (mp\<lparr>m_la := ptr\<rparr>) = Inr mp' \<and> extent_reads sbi (flat_byte sbi vi) ptr mp'"
proof -
  let ?B = "2 ^ blkbits sbi :: nat" and ?S = "unat (i_size vi)" and ?l = "flat_lastblk sbi vi"
  let ?lw = "ucast (BLK_ROUND_UP sbi (i_size vi)) - (if datalayout vi = EROFS_INODE_FLAT_INLINE then 1 else 0) :: u32"
  note ff = flat_facts [OF ok p]
  note q = ff(1,2) and b = ff(3) and Bb = ff(4) and lay = ff(5) and ip = ff(6) and pS = ff(7) and S0 = ff(8) and c1 = ff(9)
  note lb = flat_lastblk_word [OF ok S0] and m44 = flat_block_range [OF b] and pl = flat_lastblk_pos [OF ok p]
  have il: "datalayout vi = EROFS_INODE_FLAT_INLINE" using False lb(4) pS lay by fastforce
  have ge: "?l * ?B \<le> unat ptr" using False by simp
  note md = flat_inline_mod [OF ok]
  have fit: "unat (inline_pos sbi vi) mod ?B + (?S - ?l * ?B) \<le> ?B"
    using ok il lb(3) by (auto simp: flat_ok_def add_mult_distrib)
  let ?pa = "inline_pos sbi vi + erofs_blkoff sbi ptr" and ?len = "i_size vi - ptr"
  have bo: "unat (erofs_blkoff sbi ptr) = unat ptr - ?l * ?B"
    using b md [OF ge pS] by (simp add: unat_erofs_blkoff)
  have small: "unat ptr - ?l * ?B < ?B" using pS lb(5) ge by (simp add: add_mult_distrib)
  have pa: "unat ?pa = unat (inline_pos sbi vi) + (unat ptr - ?l * ?B)"
    using ip small bo by (simp add: unat_word_ariths)
  have len: "unat ?len = ?S - unat ptr" using pS by (simp add: unat_sub word_le_nat_alt)
  have "unat (erofs_blkoff sbi ?pa) = unat (inline_pos sbi vi) mod ?B + (unat ptr - ?l * ?B)"
  proof -
    have "(unat (inline_pos sbi vi) + (unat ptr - ?l * ?B)) mod ?B =
          (unat (inline_pos sbi vi) mod ?B + (unat ptr - ?l * ?B)) mod ?B" by (simp add: mod_add_left_eq)
    also have "\<dots> = unat (inline_pos sbi vi) mod ?B + (unat ptr - ?l * ?B)"
      using fit pS ge by (intro mod_less) linarith
    finally show ?thesis using b pa by (simp add: unat_erofs_blkoff)
  qed
  then have "unat (erofs_blkoff sbi ?pa + ?len) \<le> ?B"
    using fit len pS ge Bb by (simp add: unat_word_ariths)
  then have chk: "\<not> ucast (erofs_blksiz sbi) < erofs_blkoff sbi ?pa + ?len"
    using b by (simp add: word_less_nat_alt unat_ucast_up unat_erofs_blksiz)
  let ?mp = "mp\<lparr>m_la := ptr, m_deviceid := 0, m_flags := EROFS_MAP_MAPPED OR EROFS_MAP_META, m_pa := ?pa, m_plen := ?len, m_llen := ?len\<rparr>"
  have "erofs_map_blocks sbi vi (mp\<lparr>m_la := ptr\<rparr>) = Inr ?mp"
    using c1 False pl il chk
    by (simp add: erofs_map_blocks_def erofs_map_blocks_flatmode_def Let_def word_less_nat_alt [of ptr] inline_pos_def)
  moreover have "extent_reads sbi (flat_byte sbi vi) ptr ?mp"
  proof -
    have "erofs_read_one_data sbi ?mp k n = Inr (map (flat_byte sbi vi) [unat ptr + unat k ..< unat ptr + unat k + n])"
      if "unat k + n \<le> unat ?len" for k n
    proof -
      have "flat_byte sbi vi (unat ptr + unat k + i) =
          zbyte (vf_bytes (bdev sbi)) (unat ?pa + unat k + i)" if "i < n" for i
      proof -
        let ?j = "unat ptr + unat k + i"
        have j: "?l * ?B \<le> ?j" "?j < ?S" using that \<open>unat k + n \<le> unat ?len\<close> len ge by linarith+
        have "unat (inline_pos sbi vi) + ?j mod ?B = unat ?pa + unat k + i"
          using md [OF j] j ge pa by simp
        then show ?thesis using j(1) by (simp add: flat_byte_def)
      qed
      moreover have "unat ?pa + unat k < 2 ^ 64"
      proof -
        have "?S \<le> ?l * ?B + ?B" using lb(5) by (simp add: add_mult_distrib)
        then show ?thesis using pa that len ge ip pS by linarith
      qed
      ultimately show ?thesis
        by (subst read_one_quiet [OF q]) (auto intro!: nth_equalityI)
    qed
    moreover have "?S < 2 ^ 64" using unsigned_less [of "i_size vi", where 'a = nat] by simp
    ultimately show ?thesis using len pS by (simp add: extent_reads_def)
  qed
  ultimately show ?thesis by blast
qed

lemma flat_extent:
  assumes "flat_ok sbi vi" "ptr < i_size vi"
  shows "\<exists>mp'. erofs_map_blocks sbi vi (mp\<lparr>m_la := ptr\<rparr>) = Inr mp' \<and> extent_reads sbi (flat_byte sbi vi) ptr mp'"
  using flat_extent_blocks [OF assms] flat_extent_inline [OF assms] by blast

interpretation flat: extent_provider flat_ok flat_byte
  by unfold_locales (rule flat_extent)

text \<open>
  C6.  Reading an uncompressed flat file returns its contents: every byte asked for inside the file is the byte of the
  file's blocks or of the tail stored after the inode, and the loop of \<^verbatim>\<open>erofs_read_raw_data\<close> ends
  after at most one iteration per byte.
\<close>

theorem flat_pread_correct:
  assumes "flat_ok sbi vi" and "unat offset + length buffer \<le> unat (i_size vi)" and "length buffer + 2 \<le> n"
  shows "erofs_pread n lib sbi vi buffer offset =
    Inr (vi, map (flat_byte sbi vi) [unat offset ..< unat offset + length buffer])"
proof (rule flat.pread_reads [OF assms(1) _ assms(2,3)])
  show "\<not> erofs_inode_is_data_compressed (datalayout vi)"
    using assms(1) by (auto simp: flat_ok_def erofs_inode_is_data_compressed_def)
qed

definition flat_img :: erofs_sb_info where
  "flat_img = (zero_sbi (plain_file [5, 6, 7]))\<lparr>blkszbits := 9\<rparr>"

definition flat_vi :: erofs_inode where
  "flat_vi = (zero_inode 0)\<lparr>i_size := 3\<rparr>"

theorem flat_pread_correct_witness:
  "erofs_pread 4 no_lib flat_img flat_vi [0, 0] 1 = Inr (flat_vi, [6, 7])"
proof -
  have ok: "flat_ok flat_img flat_vi"
    by (simp add: flat_ok_def flat_img_def flat_vi_def zero_inode_def inline_pos_def erofs_iloc_def zero_sbi_def erofs_pos_def)
  have sz: "unat (i_size flat_vi) = 3" by (simp add: flat_vi_def)
  have "erofs_pread 4 no_lib flat_img flat_vi [0, 0] 1 = Inr (flat_vi, map (flat_byte flat_img flat_vi) [1 ..< 3])"
    using flat_pread_correct [OF ok, of 1 "[0, 0]" 4 no_lib] sz by (simp add: numeral_3_eq_3)
  moreover have "map (flat_byte flat_img flat_vi) [1 ..< 3] = [6, 7]"
    by (simp add: flat_byte_def flat_img_def flat_vi_def zero_inode_def flat_lastblk_def zbyte_def upt_rec)
  ultimately show ?thesis by simp
qed

subsection \<open>Chunk-based files\<close>

definition chunk_unitn :: "erofs_inode \<Rightarrow> nat" where
  "chunk_unitn vi = (if chunkformat vi AND EROFS_CHUNK_FORMAT_INDEXES \<noteq> 0 then 8 else 4)"

definition chunk_entry_pos :: "erofs_sb_info \<Rightarrow> erofs_inode \<Rightarrow> nat \<Rightarrow> nat" where
  "chunk_entry_pos sbi vi c =
     (unat (inline_pos sbi vi) + chunk_unitn vi - 1) div chunk_unitn vi * chunk_unitn vi + chunk_unitn vi * c"

text \<open>The block address of a chunk: the whole entry of a block map, the last word of a chunk index.\<close>

definition chunk_addr :: "erofs_sb_info \<Rightarrow> erofs_inode \<Rightarrow> nat \<Rightarrow> u32" where
  "chunk_addr sbi vi c =
     (if chunkformat vi AND EROFS_CHUNK_FORMAT_INDEXES = 0
      then le_get (zread (vf_bytes (bdev sbi)) (chunk_entry_pos sbi vi c) 4)
      else ci_blkaddr (dec_chunk_index (zread (vf_bytes (bdev sbi)) (chunk_entry_pos sbi vi c) 8)))"

definition chunk_byte :: "erofs_sb_info \<Rightarrow> erofs_inode \<Rightarrow> nat \<Rightarrow> u8" where
  "chunk_byte sbi vi k =
     (let cb = unat (chunkbits vi); addr = chunk_addr sbi vi (k div 2 ^ cb) in
      if addr = EROFS_NULL_ADDR then 0
      else zbyte (vf_bytes (bdev sbi)) (unat addr * 2 ^ blkbits sbi + k mod 2 ^ cb))"

definition chunk_ok :: "erofs_sb_info \<Rightarrow> erofs_inode \<Rightarrow> bool" where
  "chunk_ok sbi vi \<longleftrightarrow>
     quiet (bdev sbi) \<and> extra_devices sbi = 0 \<and> device_id_mask sbi = 0 \<and>
     9 \<le> blkbits sbi \<and> blkbits sbi \<le> 12 \<and> datalayout vi = EROFS_INODE_CHUNK_BASED \<and>
     blkbits sbi \<le> unat (chunkbits vi) \<and> unat (chunkbits vi) \<le> 43 \<and> unat (i_size vi) < 2 ^ 62 \<and>
     unat (inline_pos sbi vi) + 16 + 8 * (unat (i_size vi) div 2 ^ unat (chunkbits vi)) < 2 ^ 32 * 2 ^ blkbits sbi"

lemma chunk_unit_value: "unat (chunk_unit vi) = chunk_unitn vi"
  by (simp add: chunk_unit_def chunk_unitn_def)

lemma chunk_index_pos_value:
  assumes ok: "chunk_ok sbi vi" and c: "unat c \<le> unat (i_size vi) div 2 ^ unat (chunkbits vi)"
  shows "unat (chunk_index_pos sbi vi c) = chunk_entry_pos sbi vi (unat c)"
    and "chunk_entry_pos sbi vi (unat c) < 2 ^ 32 * 2 ^ blkbits sbi"
    and "chunk_entry_pos sbi vi (unat c) mod 2 ^ blkbits sbi + chunk_unitn vi \<le> 2 ^ blkbits sbi"
proof -
  let ?u = "chunk_unitn vi" and ?ip = "unat (inline_pos sbi vi)" and ?B = "2 ^ blkbits sbi :: nat"
  let ?r = "(?ip + ?u - 1) div ?u * ?u"
  have u: "?u = 4 \<or> ?u = 8" by (simp add: chunk_unitn_def)
  have lim: "?ip + 16 + 8 * (unat (i_size vi) div 2 ^ unat (chunkbits vi)) < 2 ^ 32 * ?B"
    and b: "9 \<le> blkbits sbi" "blkbits sbi \<le> 12"
    using ok by (simp_all add: chunk_ok_def)
  have "?B \<le> 2 ^ 12" using b by (intro power_increasing) auto
  then have "2 ^ 32 * ?B \<le> 2 ^ 44" by simp
  have r: "?r < ?ip + ?u" using u by (intro ceil_div_bounds) auto
  have uc: "?u * unat c \<le> 8 * (unat (i_size vi) div 2 ^ unat (chunkbits vi))"
    using u c by (intro mult_mono) auto
  show lt: "chunk_entry_pos sbi vi (unat c) < 2 ^ 32 * ?B"
    using r uc lim u unfolding chunk_entry_pos_def by linarith
  have "unat (roundup (inline_pos sbi vi) (chunk_unit vi)) = ?r"
    using lim u \<open>2 ^ 32 * ?B \<le> 2 ^ 44\<close> by (subst unat_roundup) (auto simp: chunk_unit_value)
  moreover have "unat (chunk_unit vi * c) = ?u * unat c"
    using uc lim \<open>2 ^ 32 * ?B \<le> 2 ^ 44\<close> by (simp add: unat_word_ariths chunk_unit_value)
  ultimately show "unat (chunk_index_pos sbi vi c) = chunk_entry_pos sbi vi (unat c)"
    using lt \<open>2 ^ 32 * ?B \<le> 2 ^ 44\<close>
    by (simp add: chunk_index_pos_def inline_pos_def [symmetric] chunk_entry_pos_def unat_word_ariths)
  have "?u dvd ?B"
  proof -
    have "(4::nat) dvd ?B" "(8::nat) dvd ?B"
      using b le_imp_power_dvd [of 2 "blkbits sbi" "2::nat"] le_imp_power_dvd [of 3 "blkbits sbi" "2::nat"] by simp_all
    then show ?thesis using u by auto
  qed
  then obtain q where q: "?B = ?u * q" by blast
  obtain t where t: "chunk_entry_pos sbi vi (unat c) = ?u * t"
    by (simp add: chunk_entry_pos_def) (metis add_mult_distrib2 mult.commute)
  have "t mod q < q" using q b by (metis mod_less_divisor mult_0_right neq0_conv power_not_zero zero_neq_numeral)
  then have "?u * (t mod q) + ?u \<le> ?u * q" by (metis Suc_leI mult_Suc_right mult_le_mono2 add.commute)
  then show "chunk_entry_pos sbi vi (unat c) mod ?B + ?u \<le> ?B"
    unfolding q t by simp
qed

text \<open>The entry as the mapping reads it: the block that holds it, and its bytes in the block.\<close>

lemma chunk_entry_read:
  assumes ok: "chunk_ok sbi vi" and c: "unat c \<le> unat (i_size vi) div 2 ^ unat (chunkbits vi)"
  shows "\<exists>buf. erofs_blk_read sbi 0 (ucast (erofs_blknr sbi (chunk_index_pos sbi vi c))) 1 = Inr buf \<and>
    slice buf (unat (erofs_blkoff sbi (chunk_index_pos sbi vi c))) (chunk_unitn vi) =
      Inr (zread (vf_bytes (bdev sbi)) (chunk_entry_pos sbi vi (unat c)) (chunk_unitn vi))"
proof -
  let ?B = "2 ^ blkbits sbi :: nat" and ?e = "chunk_entry_pos sbi vi (unat c)" and ?d = "vf_bytes (bdev sbi)"
  note v = chunk_index_pos_value [OF ok c]
  have b: "blkbits sbi \<le> 12" and q: "quiet (bdev sbi)" using ok by (simp_all add: chunk_ok_def)
  let ?blk = "ucast (erofs_blknr sbi (chunk_index_pos sbi vi c)) :: u32"
  have "?e div ?B < 2 ^ 32" using v(2) by (simp add: less_mult_imp_div_less)
  then have blk: "unat ?blk = ?e div ?B"
    by (simp only: unsigned_ucast_eq unsigned_take_bit_eq unat_erofs_blknr v(1)) (simp add: take_bit_nat_eq_self)
  have pos: "unat (erofs_pos sbi ?blk) = ?e div ?B * ?B" using b blk by (subst unat_erofs_pos32) auto
  have one: "unat (erofs_pos sbi (1 :: u32)) = ?B" using b by (subst unat_erofs_pos32) auto
  have off: "unat (erofs_blkoff sbi (chunk_index_pos sbi vi c)) = ?e mod ?B"
    using b v(1) by (simp add: unat_erofs_blkoff)
  have "erofs_blk_read sbi 0 ?blk 1 = Inr (zread ?d (?e div ?B * ?B) ?B)"
    using q by (simp add: erofs_blk_read_def erofs_dev_read_quiet pos one)
  moreover have "slice (zread ?d (?e div ?B * ?B) ?B) (?e mod ?B) (chunk_unitn vi) =
      Inr (zread ?d ?e (chunk_unitn vi))"
    using v(3) by (simp add: slice_def zread_sub) (simp only: div_mult_mod_eq)
  ultimately show ?thesis by (auto simp: off)
qed

text \<open>The mapping of an offset: its chunk, cut at the end of the file's last block.\<close>

lemma chunk_map:
  assumes ok: "chunk_ok sbi vi" and p: "ptr < i_size vi"
    and c: "c = drop_bit (unat (chunkbits vi)) ptr"
    and la: "la = push_bit (unat (chunkbits vi)) c"
    and pl: "plen = min (push_bit (unat (chunkbits vi)) 1) (roundup (i_size vi - la) (ucast (erofs_blksiz sbi)))"
  shows "\<exists>mp'. erofs_map_blocks sbi vi (mp\<lparr>m_la := ptr\<rparr>) = Inr mp' \<and>
    m_la mp' = la \<and> m_llen mp' = plen \<and> m_deviceid mp' = 0 \<and>
    m_flags mp' = (if chunk_addr sbi vi (unat c) = EROFS_NULL_ADDR then 0 else EROFS_MAP_MAPPED) \<and>
    (chunk_addr sbi vi (unat c) \<noteq> EROFS_NULL_ADDR \<longrightarrow> m_pa mp' = erofs_pos sbi (chunk_addr sbi vi (unat c)))"
proof -
  have lay: "datalayout vi = EROFS_INODE_CHUNK_BASED" "device_id_mask sbi = 0" using ok by (simp_all add: chunk_ok_def)
  have c1: "(i_size vi \<le> ptr) = False" using p by simp
  have "unat ptr div 2 ^ unat (chunkbits vi) \<le> unat (i_size vi) div 2 ^ unat (chunkbits vi)"
    using p by (intro div_le_mono) (simp add: word_less_nat_alt)
  then have "unat c \<le> unat (i_size vi) div 2 ^ unat (chunkbits vi)"
    unfolding c by (simp only: unat_drop_bit_eq) (simp only: drop_bit_eq_div)
  then obtain buf where rd: "erofs_blk_read sbi 0 (ucast (erofs_blknr sbi (chunk_index_pos sbi vi c))) 1 = Inr buf"
    and sl: "slice buf (unat (erofs_blkoff sbi (chunk_index_pos sbi vi c))) (chunk_unitn vi) =
      Inr (zread (vf_bytes (bdev sbi)) (chunk_entry_pos sbi vi (unat c)) (chunk_unitn vi))"
    using chunk_entry_read [OF ok] by blast
  define mpc where "mpc = mp\<lparr>m_deviceid := 0, m_la := la, m_plen := plen, m_llen := plen\<rparr>"
  have "erofs_map_blocks sbi vi (mp\<lparr>m_la := ptr\<rparr>) =
      Inr (chunk_extent sbi (chunk_addr sbi vi (unat c))
        (if chunkformat vi AND EROFS_CHUNK_FORMAT_INDEXES = 0 then None
         else Some (ci_device_id (dec_chunk_index (zread (vf_bytes (bdev sbi)) (chunk_entry_pos sbi vi (unat c)) 8)))) mpc)"
    using lay c1 rd sl
    by (simp add: erofs_map_blocks_def Let_def c [symmetric] la [symmetric] pl chunk_addr_def chunk_unitn_def mpc_def
        del: slice_eq_Inr split: if_splits)
  then show ?thesis by (auto simp: chunk_extent_def mpc_def lay split: option.splits)
qed

lemma chunk_bounds:
  assumes ok: "chunk_ok sbi vi" and p: "ptr < i_size vi"
    and c: "c = drop_bit (unat (chunkbits vi)) ptr"
    and la: "la = push_bit (unat (chunkbits vi)) c"
    and pl: "plen = min (push_bit (unat (chunkbits vi)) 1) (roundup (i_size vi - la) (ucast (erofs_blksiz sbi)))"
  shows "unat la = unat c * 2 ^ unat (chunkbits vi)" "la \<le> ptr" "unat ptr < unat la + unat plen"
    and "unat plen \<le> 2 ^ unat (chunkbits vi)" "unat la + unat plen < 2 ^ 64"
proof -
  let ?cb = "unat (chunkbits vi)" and ?B = "2 ^ blkbits sbi :: nat"
  have cb: "?cb \<le> 43" and b: "blkbits sbi \<le> 12" and sz: "unat (i_size vi) < 2 ^ 62"
    using ok by (simp_all add: chunk_ok_def)
  have C: "(2::nat) ^ ?cb \<le> 2 ^ 43" and B: "?B \<le> 2 ^ 12"
    using power_increasing [OF cb, of "2::nat"] power_increasing [OF b, of "2::nat"] by simp_all
  have ps: "unat ptr < unat (i_size vi)" using p by (simp add: word_less_nat_alt)
  note sp = unat_take_drop_split [where x = ptr and b = ?cb]
  have cle: "unat c * 2 ^ ?cb \<le> unat ptr" using sp(1) unfolding c by linarith
  show la': "unat la = unat c * 2 ^ ?cb"
    unfolding la using cle ps sz by (subst unat_push_small) auto
  show "la \<le> ptr" using la' cle by (simp add: word_le_nat_alt)
  have one: "unat (push_bit ?cb 1 :: u64) = 2 ^ ?cb" using C by (subst unat_push_small) auto
  have d: "unat (i_size vi - la) = unat (i_size vi) - unat la"
    using la' cle ps by (subst unat_sub) (simp_all add: word_le_nat_alt)
  have z: "unat (ucast (erofs_blksiz sbi) :: u64) = ?B" using b by (simp add: unat_ucast_up unat_erofs_blksiz)
  have r: "unat (roundup (i_size vi - la) (ucast (erofs_blksiz sbi))) = (unat (i_size vi) - unat la + ?B - 1) div ?B * ?B"
    using sz B by (subst unat_roundup) (simp_all add: z d)
  have rb: "unat (i_size vi) - unat la \<le> (unat (i_size vi) - unat la + ?B - 1) div ?B * ?B"
    by (rule ceil_div_bounds) simp
  have up: "unat plen = min (2 ^ ?cb) ((unat (i_size vi) - unat la + ?B - 1) div ?B * ?B)"
    unfolding pl min_def word_le_nat_alt one r by (simp only: one r if_distrib [of unat])
  have "unat ptr - unat la < 2 ^ ?cb" using sp la' unfolding c by linarith
  then show "unat ptr < unat la + unat plen" using up rb ps la' cle by auto
  show ple: "unat plen \<le> 2 ^ ?cb" using up by simp
  show "unat la + unat plen < 2 ^ 64" using ple C la' cle ps sz by simp
qed

lemma chunk_extent_reads:
  assumes ok: "chunk_ok sbi vi" and p: "ptr < i_size vi"
  shows "\<exists>mp'. erofs_map_blocks sbi vi (mp\<lparr>m_la := ptr\<rparr>) = Inr mp' \<and> extent_reads sbi (chunk_byte sbi vi) ptr mp'"
proof -
  let ?cb = "unat (chunkbits vi)"
  define c where "c = drop_bit ?cb ptr"
  define la where "la = push_bit ?cb c"
  define plen where "plen = min (push_bit ?cb 1) (roundup (i_size vi - la) (ucast (erofs_blksiz sbi)))"
  note bd = chunk_bounds [OF ok p c_def la_def plen_def]
  let ?a = "chunk_addr sbi vi (unat c)"
  obtain mp' where mp': "erofs_map_blocks sbi vi (mp\<lparr>m_la := ptr\<rparr>) = Inr mp'" "m_la mp' = la" "m_llen mp' = plen"
    "m_deviceid mp' = 0" "m_flags mp' = (if ?a = EROFS_NULL_ADDR then 0 else EROFS_MAP_MAPPED)"
    "?a \<noteq> EROFS_NULL_ADDR \<longrightarrow> m_pa mp' = erofs_pos sbi ?a"
    using chunk_map [OF ok p c_def la_def plen_def] by blast
  have q: "quiet (bdev sbi)" "extra_devices sbi = 0" and b: "blkbits sbi \<le> 12" and cb: "?cb \<le> 43"
    using ok by (simp_all add: chunk_ok_def)
  have C: "(2::nat) ^ ?cb \<le> 2 ^ 43" using cb by (intro power_increasing) auto
  have F: "chunk_byte sbi vi (unat la + i) =
      (if ?a = EROFS_NULL_ADDR then 0 else zbyte (vf_bytes (bdev sbi)) (unat ?a * 2 ^ blkbits sbi + i))"
    if "i < unat plen" for i
    using that bd(1,4) by (simp add: chunk_byte_def Let_def)
  have "extent_reads sbi (chunk_byte sbi vi) ptr mp'"
  proof (cases "?a = EROFS_NULL_ADDR")
    case True
    then show ?thesis using bd F by (simp add: extent_reads_def mp')
  next
    case False
    have pa: "unat (m_pa mp') = unat ?a * 2 ^ blkbits sbi"
      using False mp'(6) b by (simp add: unat_erofs_pos32)
    have pa44: "unat (m_pa mp') < 2 ^ 44"
      unfolding pa using b unsigned_less [of ?a] by (intro flat_block_range) auto
    have "erofs_read_one_data sbi mp' k n =
        Inr (map (chunk_byte sbi vi) [unat la + unat k ..< unat la + unat k + n])" if "unat k + n \<le> unat plen" for k n
    proof -
      have "unat (m_pa mp') + unat k < 2 ^ 64" using pa44 that bd(4) C by simp
      then show ?thesis
        using F that False by (subst read_one_quiet [OF q mp'(4)]) (auto simp: pa add.assoc intro!: nth_equalityI)
    qed
    then show ?thesis using bd False by (simp add: extent_reads_def mp')
  qed
  then show ?thesis using mp'(1) by blast
qed

interpretation chunked: extent_provider chunk_ok chunk_byte
  by unfold_locales (rule chunk_extent_reads)

text \<open>
  C10.  Reading a chunk-based file returns its contents: the bytes of the block each chunk's entry names, zeroes for
  chunks without a block.
\<close>

theorem chunk_pread_correct:
  assumes "chunk_ok sbi vi" and "unat offset + length buffer \<le> unat (i_size vi)" and "length buffer + 2 \<le> n"
  shows "erofs_pread n lib sbi vi buffer offset =
    Inr (vi, map (chunk_byte sbi vi) [unat offset ..< unat offset + length buffer])"
proof (rule chunked.pread_reads [OF assms(1) _ assms(2,3)])
  show "\<not> erofs_inode_is_data_compressed (datalayout vi)"
    using assms(1) by (auto simp: chunk_ok_def erofs_inode_is_data_compressed_def)
qed

text \<open>A block map with one hole and one block, which is the first block of the image itself.\<close>

definition chunk_img :: erofs_sb_info where
  "chunk_img = (zero_sbi (plain_file [255, 255, 255, 255, 0, 0, 0, 0]))\<lparr>blkszbits := 9\<rparr>"

definition chunk_vi :: erofs_inode where
  "chunk_vi = (zero_inode 0)\<lparr>i_size := 1024, datalayout := EROFS_INODE_CHUNK_BASED, chunkbits := 9\<rparr>"

theorem chunk_pread_correct_witness:
  "erofs_pread 5 no_lib chunk_img chunk_vi [1, 1, 1] 510 = Inr (chunk_vi, [0, 0, 255])"
proof -
  have ip: "inline_pos chunk_img chunk_vi = 0"
    by (simp add: inline_pos_def erofs_iloc_def chunk_img_def chunk_vi_def zero_sbi_def zero_inode_def erofs_pos_def)
  have ok: "chunk_ok chunk_img chunk_vi"
    by (simp add: chunk_ok_def ip) (simp add: chunk_img_def chunk_vi_def zero_sbi_def)
  have sz: "unat (i_size chunk_vi) = 1024" by (simp add: chunk_vi_def)
  have "erofs_pread 5 no_lib chunk_img chunk_vi [1, 1, 1] 510 = Inr (chunk_vi, map (chunk_byte chunk_img chunk_vi) [510 ..< 513])"
    using chunk_pread_correct [OF ok, of 510 "[1, 1, 1]" 5 no_lib] sz by simp
  moreover have f: "chunkformat chunk_vi = 0" "vf_bytes (bdev chunk_img) = [255, 255, 255, 255, 0, 0, 0, 0]"
    by (simp_all add: chunk_vi_def chunk_img_def zero_inode_def)
  have "chunk_entry_pos chunk_img chunk_vi 0 = 0" "chunk_entry_pos chunk_img chunk_vi (Suc 0) = 4"
    by (simp_all add: chunk_entry_pos_def ip chunk_unitn_def f)
  then have "chunk_addr chunk_img chunk_vi 0 = 0xffffffff" "chunk_addr chunk_img chunk_vi (Suc 0) = 0"
    by (simp_all add: chunk_addr_def f zread_def codec_eval)
  then have "map (chunk_byte chunk_img chunk_vi) [510 ..< 513] = [0, 0, 255]"
    by (simp add: chunk_byte_def Let_def upt_rec chunk_vi_def chunk_img_def zbyte_def)
  ultimately show ?thesis by simp
qed
section \<open>Metadata and devices\<close>

lemma metadata_loop_reads:
  assumes "quiet (bdev sbi)" and "3 \<le> blkbits sbi" "blkbits sbi \<le> 12"
    and "unat offset + left < 2 ^ 32 * 2 ^ blkbits sbi" and "left < n"
  shows "metadata_loop n sbi offset left buffer =
    Inr (buffer @ zread (vf_bytes (bdev sbi)) (unat offset) left, offset + of_nat left)"
  using assms(4,5)
proof (induction n arbitrary: offset left buffer)
  case 0
  then show ?case by simp
next
  case (Suc n)
  let ?B = "2 ^ blkbits sbi :: nat" and ?o = "unat offset" and ?d = "vf_bytes (bdev sbi)"
  show ?case
  proof (cases "left = 0")
    case True
    then show ?thesis by (simp add: zread_def)
  next
    case False
    have b: "blkbits sbi < 32" using assms(3) by simp
    have bo: "unat (erofs_blkoff sbi offset) = ?o mod ?B" using b by (simp add: unat_erofs_blkoff)
    have bw: "unat (ucast (erofs_blkoff sbi offset) :: u32) = ?o mod ?B"
    proof -
      have "?o mod ?B < ?B" by simp
      also have "?B \<le> 2 ^ 12" using power_increasing [OF assms(3), of "2::nat"] by simp
      also have "(2 ^ 12 :: nat) < 2 ^ 32" by simp
      finally have "?o mod ?B < 2 ^ 32" .
      then show ?thesis by (subst unat_ucast_small) (simp_all add: bo)
    qed
    define cnt where "cnt = min (?B - ?o mod ?B) left"
    have cw: "min (unat (erofs_blksiz sbi - ucast (erofs_blkoff sbi offset))) left = cnt"
      using b by (subst unat_sub) (simp_all add: word_le_nat_alt bw unat_erofs_blksiz cnt_def)
    have mB: "?o mod ?B < ?B" by simp
    have c0: "0 < cnt" "cnt \<le> left" using False by (simp_all add: cnt_def)
    have c3: "?o mod ?B + cnt \<le> ?B" using mB unfolding cnt_def min_def by (auto split: if_splits)
    have "?o div ?B < 2 ^ 32" using Suc.prems(1) by (simp add: less_mult_imp_div_less)
    then have "unat (ucast (erofs_blknr sbi offset) :: u32) = ?o div ?B"
      by (simp only: unsigned_ucast_eq unsigned_take_bit_eq unat_erofs_blknr) (simp add: take_bit_nat_eq_self)
    then have rd: "erofs_blk_read sbi 0 (ucast (erofs_blknr sbi offset)) 1 = Inr (zread ?d (?o div ?B * ?B) ?B)"
      using assms(1,3) by (simp add: erofs_blk_read_def erofs_dev_read_quiet unat_erofs_pos32)
    have sl: "slice (zread ?d (?o div ?B * ?B) ?B) (?o mod ?B) cnt = Inr (zread ?d ?o cnt)"
      using c3 by (simp add: slice_def zread_sub) (simp only: div_mult_mod_eq)
    have oc: "unat (offset + of_nat cnt) = ?o + cnt"
    proof -
      have "?B \<le> 2 ^ 12" using power_increasing [OF assms(3), of "2::nat"] by simp
      then have "?o + cnt < 2 ^ 64" using Suc.prems(1) c0(2) by simp
      then show ?thesis by (simp add: unat_word_ariths unat_of_nat)
    qed
    have "metadata_loop (Suc n) sbi offset left buffer =
        metadata_loop n sbi (offset + of_nat cnt) (left - cnt) (buffer @ zread ?d ?o cnt)"
      using False by (simp add: Let_def cw rd bo sl del: slice_eq_Inr)
    also have "\<dots> = Inr ((buffer @ zread ?d ?o cnt) @ zread ?d (?o + cnt) (left - cnt), offset + of_nat cnt + of_nat (left - cnt))"
      using Suc.IH [of "offset + of_nat cnt" "left - cnt"] Suc.prems c0 by (simp add: oc)
    also have "\<dots> = Inr (buffer @ zread ?d ?o left, offset + of_nat left)"
      using c0(2) zread_append_zread [of ?d ?o cnt "left - cnt"]
      by (simp add: add.assoc of_nat_diff)
    finally show ?thesis .
  qed
qed

lemma aligned_fits:
  assumes "2 \<le> b" and "4 dvd (p :: nat)"
  shows "p mod 2 ^ b + 2 \<le> 2 ^ b"
proof -
  have d: "4 dvd (2 :: nat) ^ b" using assms(1) le_imp_power_dvd [of 2 b "2::nat"] by simp
  have "4 dvd 2 ^ b - p mod 2 ^ b"
    using d assms(2) by (intro dvd_diff_nat) (simp_all add: dvd_mod)
  moreover have "0 < 2 ^ b - p mod 2 ^ b" by simp
  ultimately have "4 \<le> 2 ^ b - p mod 2 ^ b" by (rule dvd_imp_le)
  then show ?thesis by simp
qed

text \<open>
  C17.  A metadata record stored on the primary device, a 16-bit length and that many bytes at the next 4-byte boundary
  behind any offset, is read back whole whatever block boundaries it crosses, and the offset moves just behind it.
\<close>

theorem metadata_bdi_record:
  assumes "quiet (bdev sbi)" and "9 \<le> blkbits sbi" "blkbits sbi \<le> 12"
    and at: "at = (unat offset + 3) div 4 * 4" and "at + 2 + length payload < 2 ^ 32 * 2 ^ blkbits sbi"
    and "payload \<noteq> []" "length payload < 2 ^ 16"
    and "zread (vf_bytes (bdev sbi)) at (2 + length payload) = le_put 2 (of_nat (length payload) :: u16) @ payload"
    and "length payload < n"
  shows "erofs_read_metadata_bdi n sbi offset = Inr (payload, of_nat (at + 2 + length payload))"
proof -
  let ?B = "2 ^ blkbits sbi :: nat" and ?d = "vf_bytes (bdev sbi)" and ?L = "length payload"
  let ?off = "round_up offset 4"
  have B: "?B \<le> 2 ^ 12" using power_increasing [OF assms(3), of "2::nat"] by simp
  have o64: "at + 2 + ?L < 2 ^ 64" using assms(5) B by simp
  have o: "unat ?off = at"
  proof -
    have "unat offset \<le> at" unfolding at by linarith
    then have "unat (round_up offset (2 ^ 2)) = (unat offset + 4 - 1) div 4 * 4"
      using assms(5) B by (subst unat_round_up) auto
    then show ?thesis by (simp add: at)
  qed
  have b: "blkbits sbi < 32" using assms(3) by simp
  have "at div ?B < 2 ^ 32" using assms(5) by (intro less_mult_imp_div_less) simp
  then have "unat (ucast (erofs_blknr sbi ?off) :: u32) = at div ?B"
    by (subst unat_ucast_small) (simp_all add: unat_erofs_blknr o)
  then have rd: "erofs_blk_read sbi 0 (ucast (erofs_blknr sbi ?off)) 1 = Inr (zread ?d (at div ?B * ?B) ?B)"
    using assms(1,3) by (simp add: erofs_blk_read_def erofs_dev_read_quiet unat_erofs_pos32)
  have fit: "at mod ?B + 2 \<le> ?B" by (rule aligned_fits) (use assms(2) at in simp_all)
  have sl: "slice (zread ?d (at div ?B * ?B) ?B) (at mod ?B) 2 = Inr (zread ?d at 2)"
    using fit by (simp add: slice_def zread_sub) (simp only: div_mult_mod_eq)
  have hd: "zread ?d at 2 = le_put 2 (of_nat ?L :: u16)" "zread ?d (at + 2) ?L = payload"
    using zread_sub [of 0 2 "2 + ?L" ?d at] zread_sub [of 2 ?L "2 + ?L" ?d at] assms(8) by simp_all
  have L: "unat (of_nat ?L :: u16) = ?L" "(of_nat ?L :: u16) \<noteq> 0"
  proof -
    show u: "unat (of_nat ?L :: u16) = ?L" using assms(7) by (simp add: unat_of_nat)
    show "(of_nat ?L :: u16) \<noteq> 0" using u assms(6) by (metis length_0_conv unsigned_0)
  qed
  have o2: "unat (?off + 2) = at + 2" using o o64 by (simp add: unat_word_ariths)
  have "erofs_read_metadata_bdi n sbi offset = metadata_loop n sbi (?off + 2) ?L []"
    using b L by (simp add: erofs_read_metadata_bdi_def Let_def rd unat_erofs_blkoff o sl hd del: slice_eq_Inr)
  also have "\<dots> = Inr (zread ?d (at + 2) ?L, ?off + 2 + of_nat ?L)"
    using metadata_loop_reads [OF assms(1) _ assms(3), of "?off + 2" ?L n "[]"] assms(2,5,9) by (simp add: o2)
  also have "?off + 2 + of_nat ?L = of_nat (at + 2 + ?L)" by (simp flip: o)
  finally show ?thesis by (simp only: hd)
qed

text \<open>From the offset 505 the record lies at 508, and its payload goes over the end of the first block.\<close>

definition record_img :: erofs_sb_info where
  "record_img = (zero_sbi (plain_file (replicate 508 0 @ [4, 0, 6, 7, 8, 9])))\<lparr>blkszbits := 9\<rparr>"

lemma record_img_sel:
  "quiet (bdev record_img)" "blkszbits record_img = 9" "zread (vf_bytes (bdev record_img)) 508 6 = [4, 0, 6, 7, 8, 9]"
proof -
  show "quiet (bdev record_img)" "blkszbits record_img = 9" by (simp_all add: record_img_def)
  have d: "vf_bytes (bdev record_img) = replicate 508 0 @ [4, 0, 6, 7, 8, 9]"
    by (simp only: record_img_def zero_sbi_def plain_file_def erofs_vfile.simps erofs_sb_info.simps)
  show "zread (vf_bytes (bdev record_img)) 508 6 = [4, 0, 6, 7, 8, 9]"
    unfolding d zread_def drop_append length_replicate drop_replicate by simp
qed

theorem metadata_bdi_record_witness:
  "erofs_read_metadata_bdi 5 record_img 505 = Inr ([6, 7, 8, 9], 514)"
  using metadata_bdi_record [of record_img 508 505 "[6, 7, 8, 9]" 5] record_img_sel by (simp add: le_put_2)

text \<open>
  \<^verbatim>\<open>erofs_map_dev\<close> never redirects a request to another device: an address inside the range mapped for an
  extra device is made relative to that device, but the request stays on the primary device.
\<close>

theorem map_dev_keeps_device:
  "okR (\<lambda>md'. md_deviceid md' = md_deviceid md) (erofs_map_dev sbi md)"
  by (simp add: erofs_map_dev_def split: option.split)

end
