(* ===== verification/Erofs_Super.thy ===== *)
theory Erofs_Super
  imports Erofs_Data
begin

text \<open>
  The superblock: \<^verbatim>\<open>lib/super.c\<close>, the parsing of compression configurations of
  \<^verbatim>\<open>lib/decompress.c\<close>, the long xattr prefixes of \<^verbatim>\<open>lib/xattr.c\<close>, the checksum of
  \<^verbatim>\<open>internal.h\<close> and its verification in \<^verbatim>\<open>fsck/main.c\<close>.  A reader that fails leaves the caller with the error
  only.  The fuel of the metadata reader is an argument; a record holds at most 65535
  bytes, so 65537 units are always enough (\<^verbatim>\<open>metadata_loop_reads\<close>).
\<close>

section \<open>CRC-32C\<close>

abbreviation (input) CRC32C_POLY_LE :: u32 where "CRC32C_POLY_LE \<equiv> 0x82F63B78"

definition crc32c_bit :: "u32 \<Rightarrow> u32" where
  "crc32c_bit crc = drop_bit 1 crc XOR (if crc AND 1 \<noteq> 0 then CRC32C_POLY_LE else 0)"

definition crc32c_byte :: "u32 \<Rightarrow> u8 \<Rightarrow> u32" where
  "crc32c_byte crc b = (crc32c_bit ^^ 8) (crc XOR ucast b)"

fun erofs_crc32c :: "u32 \<Rightarrow> bytes \<Rightarrow> u32" where
  "erofs_crc32c crc [] = crc"
| "erofs_crc32c crc (b # bs) = erofs_crc32c (crc32c_byte crc b) bs"

section \<open>Compression configurations\<close>

definition z_erofs_load_lz4_config ::
    "erofs_sb_info \<Rightarrow> erofs_super_block \<Rightarrow> bytes option \<Rightarrow> erofs_sb_info result" where
  "z_erofs_load_lz4_config sbi dsb data =
     (case data of
        Some d \<Rightarrow>
          if length d < 14 then Err EINVAL
          else let c = dec_lz4_cfgs (take 14 d) in
               Inr (sbi\<lparr>lz4 := \<lparr>lz4_max_distance = lz4c_max_distance c,
                               lz4_max_pclusterblks = (if lz4c_max_pclusterblks c = 0 then 1
                                                       else lz4c_max_pclusterblks c)\<rparr>\<rparr>)
      | None \<Rightarrow> Inr (sbi\<lparr>lz4 := \<lparr>lz4_max_distance = dsb_u1 dsb, lz4_max_pclusterblks = 1\<rparr>\<rparr>))"

text \<open>The loop over the algorithm bits; the deflate configuration is used by the QPL build only.\<close>

function cfgs_loop ::
    "nat \<Rightarrow> decompress_lib \<Rightarrow> erofs_super_block \<Rightarrow> erofs_sb_info \<Rightarrow> u32 \<Rightarrow> nat \<Rightarrow> u64 \<Rightarrow> erofs_sb_info result" where
  "cfgs_loop n lib dsb sbi algs alg offset =
     (if algs = 0 then Inr sbi
      else if algs AND 1 = 0 then cfgs_loop n lib dsb sbi (drop_bit 1 algs) (Suc alg) offset
      else bindR (erofs_read_metadata n lib sbi 0 offset) (\<lambda>(data, offset).
             bindR (if alg = 0 then z_erofs_load_lz4_config sbi dsb (Some data) else Inr sbi) (\<lambda>sbi.
               cfgs_loop n lib dsb sbi (drop_bit 1 algs) (Suc alg) offset)))"
  by pat_completeness auto
termination
proof (relation "measure (\<lambda>(n, lib, dsb, sbi, algs, alg, offset). unat algs)", goal_cases)
  case 1
  then show ?case by simp
next
  case (2 n lib dsb sbi algs alg offset)
  then have "0 < unat algs" by (simp add: unat_gt_0)
  then show ?case by (simp only: unat_drop_bit_eq in_measure case_prod_conv) (simp add: drop_bit_eq_div)
next
  case (3 n lib dsb sbi algs alg offset)
  then have "0 < unat algs" by (simp add: unat_gt_0)
  then show ?case by (simp only: unat_drop_bit_eq in_measure case_prod_conv) (simp add: drop_bit_eq_div)
qed

declare cfgs_loop.simps [simp del]

definition z_erofs_parse_cfgs ::
    "nat \<Rightarrow> decompress_lib \<Rightarrow> erofs_sb_info \<Rightarrow> erofs_super_block \<Rightarrow> erofs_sb_info result" where
  "z_erofs_parse_cfgs n lib sbi dsb =
     (if \<not> erofs_sb_has_compr_cfgs sbi
      then z_erofs_load_lz4_config (sbi\<lparr>available_compr_algs := 1\<rparr>) dsb None
      else let sbi = sbi\<lparr>available_compr_algs := dsb_u1 dsb\<rparr> in
           if available_compr_algs sbi AND NOT 15 \<noteq> 0 then Err EOPNOTSUPP
           else cfgs_loop n lib dsb sbi (ucast (available_compr_algs sbi)) 0
                  (of_nat EROFS_SUPER_OFFSET + ucast (sb_size sbi)))"

section \<open>Device table and xattr prefixes\<close>

definition check_layout_compatibility :: "erofs_super_block \<Rightarrow> bool" where
  "check_layout_compatibility dsb \<longleftrightarrow> dsb_feature_incompat dsb AND NOT EROFS_ALL_FEATURE_INCOMPAT = 0"

fun devices_loop :: "erofs_sb_info \<Rightarrow> nat \<Rightarrow> u64 \<Rightarrow> (erofs_device_info list) result" where
  "devices_loop sbi 0 pos = Inr []"
| "devices_loop sbi (Suc n) pos =
     bindR (erofs_dev_read sbi 0 pos 128) (\<lambda>raw.
       let dis = dec_deviceslot raw in
       bindR (devices_loop sbi n (pos + 128)) (\<lambda>ds.
         Inr (\<lparr>dif_tag = ds_tag dis, dif_blocks = ds_blocks dis, dif_mapped_blkaddr = ds_mapped_blkaddr dis\<rparr> # ds)))"

definition erofs_init_devices :: "erofs_sb_info \<Rightarrow> erofs_super_block \<Rightarrow> erofs_sb_info result" where
  "erofs_init_devices sbi0 dsb =
     (let sbi = sbi0\<lparr>total_blocks := primarydevice_blocks sbi0\<rparr>;
          ondisk_extradevs = (if erofs_sb_has_device_table sbi then dsb_extra_devices dsb else 0)
      in if extra_devices sbi \<noteq> 0 \<and> ondisk_extradevs \<noteq> extra_devices sbi then Err EINVAL
         else if ondisk_extradevs = 0 then Inr sbi
         else let sbi = sbi\<lparr>extra_devices := ondisk_extradevs,
                            devt_u := ucast (roundup_pow_of_two (ucast ondisk_extradevs + 1) - 1)\<rparr>
              in bindR (devices_loop sbi (unat ondisk_extradevs) (ucast (dsb_devt_slotoff dsb) * of_nat EROFS_DEVT_SLOT_SIZE))
                   (\<lambda>ds. Inr (sbi\<lparr>devs := Some ds,
                                  total_blocks := total_blocks sbi + sum_list (map (\<lambda>d. ucast (dif_blocks d)) ds)\<rparr>)))"

fun prefixes_loop :: "nat \<Rightarrow> decompress_lib \<Rightarrow> erofs_sb_info \<Rightarrow> u64 \<Rightarrow> nat \<Rightarrow> u64 \<Rightarrow> (bytes list) result" where
  "prefixes_loop n lib sbi nd 0 pos = Inr []"
| "prefixes_loop n lib sbi nd (Suc k) pos =
     bindR (erofs_read_metadata n lib sbi nd pos) (\<lambda>(buf, pos).
       if length buf < 1 \<or> EROFS_NAME_LEN + 1 < length buf then Err EFSCORRUPTED
       else bindR (prefixes_loop n lib sbi nd k pos) (\<lambda>ps. Inr (buf # ps)))"

definition erofs_xattr_prefixes_init :: "nat \<Rightarrow> decompress_lib \<Rightarrow> erofs_sb_info \<Rightarrow> erofs_sb_info result" where
  "erofs_xattr_prefixes_init n lib sbi =
     (if xattr_prefix_count sbi = 0 then Inr sbi
      else bindR (prefixes_loop n lib sbi (packed_nid sbi) (unat (xattr_prefix_count sbi))
                    (push_bit 2 (ucast (xattr_prefix_start sbi))))
             (\<lambda>ps. Inr (sbi\<lparr>xattr_prefixes := Some ps\<rparr>)))"

section \<open>Reading the superblock\<close>

text \<open>The members copied from the on-disk superblock.\<close>

definition load_super :: "erofs_super_block \<Rightarrow> erofs_sb_info \<Rightarrow> erofs_sb_info" where
  "load_super dsb sbi =
     sbi\<lparr>primarydevice_blocks := ucast (dsb_blocks dsb), meta_blkaddr := dsb_meta_blkaddr dsb,
         xattr_blkaddr := dsb_xattr_blkaddr dsb, xattr_prefix_start := dsb_xattr_prefix_start dsb,
         xattr_prefix_count := dsb_xattr_prefix_count dsb, islotbits := EROFS_ISLOTBITS,
         root_nid := ucast (dsb_root_nid dsb), packed_nid := dsb_packed_nid dsb, inos := dsb_inos dsb,
         checksum := dsb_checksum dsb, build_time := dsb_build_time dsb,
         build_time_nsec := dsb_build_time_nsec dsb, uuid := dsb_uuid dsb\<rparr>"

definition sb_extslots_fit :: "u32 \<Rightarrow> u8 \<Rightarrow> bool" where
  "sb_extslots_fit sz bits \<longleftrightarrow> sz \<le> push_bit (unat bits) 1 - 1024"

definition erofs_read_superblock :: "nat \<Rightarrow> decompress_lib \<Rightarrow> erofs_sb_info \<Rightarrow> erofs_sb_info result" where
  "erofs_read_superblock n lib sbi0 =
     (let sbi = sbi0\<lparr>blkszbits := 12\<rparr> in
      bindR (mapErr toEIO (erofs_blk_read sbi 0 0 (ucast (erofs_blknr sbi (of_nat EROFS_MAX_BLOCK_SIZE :: u64)))))
        (\<lambda>data.
          bindR (slice data EROFS_SUPER_OFFSET 128) (\<lambda>raw.
            let dsb = dec_super_block raw in
            if dsb_magic dsb \<noteq> EROFS_SUPER_MAGIC_V1 then Err EINVAL
            else let sbi = sbi\<lparr>feature_compat := dsb_feature_compat dsb, blkszbits := dsb_blkszbits dsb\<rparr> in
              if blkszbits sbi < 9 \<or> 12 < blkszbits sbi then Err EINVAL
              else if \<not> check_layout_compatibility dsb then Err EINVAL
              else let sbi = sbi\<lparr>feature_incompat := dsb_feature_incompat dsb,
                                 sb_size := 128 + ucast (dsb_sb_extslots dsb) * of_nat EROFS_SB_EXTSLOT_SIZE\<rparr> in
                if \<not> sb_extslots_fit (sb_size sbi) (blkszbits sbi) then Err EINVAL
                else bindR (z_erofs_parse_cfgs n lib (load_super dsb sbi) dsb) (\<lambda>sbi.
                       bindR (erofs_init_devices sbi dsb) (erofs_xattr_prefixes_init n lib)))))"

section \<open>Writing the superblock\<close>

text \<open>\<^verbatim>\<open>blocks\<close> is what \<^verbatim>\<open>erofs_mapbh\<close> returns, \<^verbatim>\<open>off\<close> the position of the reserved buffer head.\<close>

definition super_of_sbi :: "erofs_sb_info \<Rightarrow> u32 \<Rightarrow> erofs_super_block" where
  "super_of_sbi sbi blocks =
     \<lparr>dsb_magic = EROFS_SUPER_MAGIC_V1, dsb_checksum = 0,
      dsb_feature_compat = feature_compat sbi AND NOT EROFS_FEATURE_COMPAT_SB_CHKSUM,
      dsb_blkszbits = blkszbits sbi, dsb_sb_extslots = 0, dsb_root_nid = ucast (root_nid sbi),
      dsb_inos = inos sbi, dsb_build_time = build_time sbi, dsb_build_time_nsec = build_time_nsec sbi,
      dsb_blocks = blocks, dsb_meta_blkaddr = meta_blkaddr sbi, dsb_xattr_blkaddr = xattr_blkaddr sbi,
      dsb_uuid = uuid sbi, dsb_volume_name = volume_name sbi, dsb_feature_incompat = feature_incompat sbi,
      dsb_u1 = (if erofs_sb_has_compr_cfgs sbi then available_compr_algs sbi else lz4_max_distance (lz4 sbi)),
      dsb_extra_devices = extra_devices sbi, dsb_devt_slotoff = devt_slotoff sbi, dsb_dirblkbits = 0,
      dsb_xattr_prefix_count = xattr_prefix_count sbi, dsb_xattr_prefix_start = xattr_prefix_start sbi,
      dsb_packed_nid = packed_nid sbi, dsb_xattr_filter_reserved = 0, dsb_reserved2 = replicate 23 0\<rparr>"

definition erofs_writesb :: "erofs_sb_info \<Rightarrow> u32 \<Rightarrow> u64 \<Rightarrow> erofs_sb_info result" where
  "erofs_writesb sbi blocks off =
     (let sb_blksize = round_up (of_nat EROFS_SUPER_END) (erofs_blksiz sbi);
          buf = replicate (unat sb_blksize) 0
      in bindR (memput buf EROFS_SUPER_OFFSET (enc_super_block (super_of_sbi sbi blocks))) (\<lambda>buf.
           bindR (slice buf 0 EROFS_SUPER_END) (\<lambda>b. erofs_dev_write sbi b off)))"

text \<open>\<^verbatim>\<open>buf\<close> is an array of \<^verbatim>\<open>EROFS_MAX_BLOCK_SIZE\<close> bytes of which the read fills the first blocks.\<close>

definition sb_chksum_len :: "erofs_sb_info \<Rightarrow> nat" where
  "sb_chksum_len sbi =
     (if EROFS_SUPER_OFFSET < unat (erofs_blksiz sbi) then unat (erofs_blksiz sbi) - EROFS_SUPER_OFFSET
      else unat (erofs_blksiz sbi))"

definition erofs_enable_sb_chksum :: "erofs_sb_info \<Rightarrow> (erofs_sb_info \<times> u32) result" where
  "erofs_enable_sb_chksum sbi =
     bindR (erofs_blk_read sbi 0 0 (ucast (erofs_blknr sbi (of_nat EROFS_SUPER_END :: u64)) + 1)) (\<lambda>buf.
       if EROFS_MAX_BLOCK_SIZE < length buf then Inl OutOfBounds
       else bindR (slice buf EROFS_SUPER_OFFSET 128) (\<lambda>raw.
         let sb = dec_super_block raw in
         if dsb_magic sb \<noteq> EROFS_SUPER_MAGIC_V1 then Err EFAULT
         else let sb = sb\<lparr>dsb_feature_compat := dsb_feature_compat sb OR EROFS_FEATURE_COMPAT_SB_CHKSUM\<rparr> in
           bindR (memput buf EROFS_SUPER_OFFSET (enc_super_block sb)) (\<lambda>buf.
             bindR (slice buf EROFS_SUPER_OFFSET (sb_chksum_len sbi)) (\<lambda>d.
               let crc = erofs_crc32c (NOT 0) d in
               bindR (memput buf EROFS_SUPER_OFFSET (enc_super_block (sb\<lparr>dsb_checksum := crc\<rparr>))) (\<lambda>buf.
                 bindR (erofs_blk_write sbi buf 0 1) (\<lambda>sbi. Inr (sbi, crc)))))))"

text \<open>
  The check of \<^verbatim>\<open>fsck/main.c\<close>: \<^verbatim>\<open>Inr True\<close> when the stored and the computed value agree, \<^verbatim>\<open>Inr False\<close>
  when the image is marked corrupted.
\<close>

definition erofs_check_sb_chksum :: "erofs_sb_info \<Rightarrow> bool result" where
  "erofs_check_sb_chksum sbi =
     bindR (erofs_blk_read sbi 0 0 1) (\<lambda>buf.
       bindR (slice buf EROFS_SUPER_OFFSET 128) (\<lambda>raw.
         bindR (memput buf EROFS_SUPER_OFFSET (enc_super_block ((dec_super_block raw)\<lparr>dsb_checksum := 0\<rparr>))) (\<lambda>buf.
           bindR (slice buf EROFS_SUPER_OFFSET (unat (erofs_blksiz sbi - 1024))) (\<lambda>d.
             Inr (erofs_crc32c (NOT 0) d = checksum sbi)))))"

section \<open>Superblock round trip and checksum\<close>

definition sb_writable :: "erofs_sb_info \<Rightarrow> bool" where
  "sb_writable sbi \<longleftrightarrow>
     quiet (bdev sbi) \<and> (blkszbits sbi = 11 \<or> blkszbits sbi = 12) \<and>
     length (uuid sbi) = 16 \<and> length (volume_name sbi) = 16"

lemma super_of_sbi_wf: "sb_writable sbi \<Longrightarrow> super_block_wf (super_of_sbi sbi blocks)"
  by (simp add: sb_writable_def super_block_wf_def super_of_sbi_def)

lemma super_of_sbi_sel:
  "dsb_magic (super_of_sbi sbi b) = EROFS_SUPER_MAGIC_V1" "dsb_blkszbits (super_of_sbi sbi b) = blkszbits sbi"
  "dsb_sb_extslots (super_of_sbi sbi b) = 0" "dsb_feature_incompat (super_of_sbi sbi b) = feature_incompat sbi"
  "dsb_feature_compat (super_of_sbi sbi b) = feature_compat sbi AND NOT EROFS_FEATURE_COMPAT_SB_CHKSUM"
  by (simp_all add: super_of_sbi_def)

lemma length_enc_super: "super_block_wf b \<Longrightarrow> length (enc_super_block b) = 128"
  by (rule super_block.length_enc)

lemma writesb_image:
  assumes "sb_writable sbi"
  shows "erofs_writesb sbi blocks off =
    Inr (sbi\<lparr>bdev := (bdev sbi)\<lparr>vf_bytes := fsplice (vf_bytes (bdev sbi)) (unat off)
      (replicate 1024 0 @ enc_super_block (super_of_sbi sbi blocks))\<rparr>\<rparr>)"
proof -
  have l: "length (enc_super_block (super_of_sbi sbi blocks)) = 128"
    using super_of_sbi_wf [OF assms] by (rule length_enc_super)
  have sz: "unat (round_up 1152 (erofs_blksiz sbi)) = (if blkszbits sbi = 11 then 2048 else 4096)"
    using assms by (auto simp: sb_writable_def erofs_blksiz_def round_up_def)
  have q: "quiet (bdev sbi)" using assms by (simp add: sb_writable_def)
  show ?thesis
    using l sz by (auto simp: erofs_writesb_def Let_def memput_def slice_def erofs_dev_write_quiet [OF q])
qed

text \<open>What \<^verbatim>\<open>erofs_read_superblock\<close> finds in an image: the first 4 KiB and the superblock in them.\<close>

lemma read_superblock_raw:
  assumes "quiet (bdev sbi)"
  shows "mapErr toEIO (erofs_blk_read (sbi\<lparr>blkszbits := 12\<rparr>) 0 0 (ucast (erofs_blknr (sbi\<lparr>blkszbits := 12\<rparr>) (4096 :: u64)))) =
    Inr (zread (vf_bytes (bdev sbi)) 0 4096)"
  using assms by (simp add: erofs_blk_read_def erofs_blknr_def erofs_pos_def erofs_dev_read_quiet)

text \<open>
  C11.  Writing the superblock of an image without compression configurations, device table and long
  prefixes, and reading it back, restores every member that is stored.
\<close>

theorem superblock_roundtrip:
  assumes w: "sb_writable sbi" and "erofs_writesb sbi blocks 0 = Inr sbi1"
    and "feature_incompat sbi AND NOT EROFS_ALL_FEATURE_INCOMPAT = 0"
    and "\<not> erofs_sb_has_compr_cfgs sbi" "\<not> erofs_sb_has_device_table sbi" "xattr_prefix_count sbi = 0"
    and "unat (root_nid sbi) < 2 ^ 16"
  shows "erofs_read_superblock n lib (zero_sbi (bdev sbi1)) =
    Inr ((zero_sbi (bdev sbi1))\<lparr>blkszbits := blkszbits sbi, sb_size := 128, islotbits := 5,
      feature_compat := feature_compat sbi AND NOT EROFS_FEATURE_COMPAT_SB_CHKSUM,
      feature_incompat := feature_incompat sbi, primarydevice_blocks := ucast blocks,
      total_blocks := ucast blocks, meta_blkaddr := meta_blkaddr sbi, xattr_blkaddr := xattr_blkaddr sbi,
      xattr_prefix_start := xattr_prefix_start sbi, root_nid := root_nid sbi, packed_nid := packed_nid sbi,
      inos := inos sbi, build_time := build_time sbi, build_time_nsec := build_time_nsec sbi,
      uuid := uuid sbi, available_compr_algs := 1,
      lz4 := \<lparr>lz4_max_distance = lz4_max_distance (lz4 sbi), lz4_max_pclusterblks = 1\<rparr>\<rparr>)"
proof -
  let ?sb = "super_of_sbi sbi blocks"
  define vf where "vf = (bdev sbi)\<lparr>vf_bytes := fsplice (vf_bytes (bdev sbi)) 0 (replicate 1024 0 @ enc_super_block ?sb)\<rparr>"
  have s1: "bdev sbi1 = vf" using assms(2) writesb_image [OF w, of blocks 0] by (auto simp: vf_def)
  have wf: "super_block_wf ?sb" using super_of_sbi_wf [OF w] .
  have l: "length (enc_super_block ?sb) = 128" using wf by (rule super_block.length_enc)
  have q: "quiet vf" using w by (simp add: sb_writable_def vf_def)
  have raw: "zread (vf_bytes vf) 1024 128 = enc_super_block ?sb"
  proof -
    have "zread (vf_bytes vf) 0 1152 = replicate 1024 0 @ enc_super_block ?sb"
      unfolding vf_def using l by (simp add: zread_fsplice_same)
    then show ?thesis using zread_sub [of 1024 128 1152 "vf_bytes vf" 0] l by simp
  qed
  have sl: "slice (zread (vf_bytes vf) 0 4096) 1024 128 = Inr (enc_super_block ?sb)"
    using raw zread_sub [of 1024 128 4096 "vf_bytes vf" 0] by (simp add: slice_def)
  have rn: "ucast (ucast (root_nid sbi) :: u16) = root_nid sbi"
    using assms(7) by (intro ucast_down_up) simp_all
  have bits: "blkszbits sbi = 11 \<or> blkszbits sbi = 12" using w by (simp add: sb_writable_def)
  have inc: "\<not> has_feature (feature_incompat sbi) EROFS_FEATURE_INCOMPAT_COMPR_CFGS"
    "\<not> has_feature (feature_incompat sbi) EROFS_FEATURE_INCOMPAT_DEVICE_TABLE"
    using assms(4,5) by (simp_all add: erofs_sb_has_compr_cfgs_def erofs_sb_has_device_table_def)
  have rd: "mapErr toEIO (erofs_blk_read ((zero_sbi vf)\<lparr>blkszbits := 12\<rparr>) 0 0
      (ucast (erofs_blknr ((zero_sbi vf)\<lparr>blkszbits := 12\<rparr>) (4096 :: u64)))) = Inr (zread (vf_bytes vf) 0 4096)"
    using read_superblock_raw [of "zero_sbi vf"] q by simp
  have bt: "(blkszbits sbi < 9 \<or> 12 < blkszbits sbi) = False" "sb_extslots_fit 128 (blkszbits sbi)"
    using bits by (auto simp: sb_extslots_fit_def word_less_def word_le_def)
  have "erofs_read_superblock n lib (zero_sbi vf) =
     bindR (z_erofs_parse_cfgs n lib (load_super ?sb ((zero_sbi vf)\<lparr>feature_compat := feature_compat sbi AND NOT EROFS_FEATURE_COMPAT_SB_CHKSUM,
         blkszbits := blkszbits sbi, feature_incompat := feature_incompat sbi, sb_size := 128\<rparr>)) ?sb)
       (\<lambda>sbi. bindR (erofs_init_devices sbi ?sb) (erofs_xattr_prefixes_init n lib))"
    unfolding erofs_read_superblock_def Let_def
    using assms(3) rd sl bt
    by (simp add: super_block.dec_enc [OF wf] super_of_sbi_sel check_layout_compatibility_def del: slice_eq_Inr)
  then show ?thesis
    unfolding s1 using assms(6) rn inc
    by (simp add: z_erofs_parse_cfgs_def erofs_sb_has_compr_cfgs_def z_erofs_load_lz4_config_def load_super_def
        super_of_sbi_def erofs_init_devices_def erofs_sb_has_device_table_def erofs_xattr_prefixes_init_def
        Let_def zero_sbi_def)
qed

definition demo_sbi :: erofs_sb_info where
  "demo_sbi = (zero_sbi (plain_file []))\<lparr>blkszbits := 12, root_nid := 36, build_time := 7, feature_compat := 3\<rparr>"

theorem superblock_roundtrip_witness:
  "\<exists>sbi1. erofs_writesb demo_sbi 5 0 = Inr sbi1 \<and>
     (\<exists>sbi2. erofs_read_superblock 9 no_lib (zero_sbi (bdev sbi1)) = Inr sbi2 \<and>
        root_nid sbi2 = 36 \<and> build_time sbi2 = 7 \<and> feature_compat sbi2 = 2 \<and> total_blocks sbi2 = 5)"
proof -
  have w: "sb_writable demo_sbi" by (simp add: sb_writable_def demo_sbi_def zero_sbi_def)
  obtain sbi1 where s: "erofs_writesb demo_sbi 5 0 = Inr sbi1" using writesb_image [OF w] by blast
  have "erofs_read_superblock 9 no_lib (zero_sbi (bdev sbi1)) = Inr ((zero_sbi (bdev sbi1))\<lparr>blkszbits := blkszbits demo_sbi, sb_size := 128, islotbits := 5,
      feature_compat := feature_compat demo_sbi AND NOT EROFS_FEATURE_COMPAT_SB_CHKSUM,
      feature_incompat := feature_incompat demo_sbi, primarydevice_blocks := ucast (5 :: u32),
      total_blocks := ucast (5 :: u32), meta_blkaddr := meta_blkaddr demo_sbi, xattr_blkaddr := xattr_blkaddr demo_sbi,
      xattr_prefix_start := xattr_prefix_start demo_sbi, root_nid := root_nid demo_sbi, packed_nid := packed_nid demo_sbi,
      inos := inos demo_sbi, build_time := build_time demo_sbi, build_time_nsec := build_time_nsec demo_sbi,
      uuid := uuid demo_sbi, available_compr_algs := 1,
      lz4 := \<lparr>lz4_max_distance = lz4_max_distance (lz4 demo_sbi), lz4_max_pclusterblks = 1\<rparr>\<rparr>)"
    by (rule superblock_roundtrip [OF w s])
      (simp_all add: demo_sbi_def zero_sbi_def erofs_sb_has_compr_cfgs_def erofs_sb_has_device_table_def has_feature_def)
  then show ?thesis using s by (simp add: demo_sbi_def)
qed

lemma memput_again:
  assumes "memput buf off a = Inr buf1" "length b = length a"
  shows "memput buf1 off b = memput buf off b"
  using assms by (auto simp: memput_def split: if_splits)

lemma slice_memput:
  assumes "memput buf off a = Inr buf1" "length a = n"
  shows "slice buf1 off n = Inr a"
  using assms by (auto simp: memput_def slice_def split: if_splits)

lemma sb_block_facts:
  assumes q: "quiet (bdev sbi)" and bits: "blkszbits sbi = 11 \<or> blkszbits sbi = 12"
  shows "1152 \<le> (2::nat) ^ blkbits sbi" "(2::nat) ^ blkbits sbi \<le> 4096"
    and "unat (erofs_blksiz sbi - 1024) = 2 ^ blkbits sbi - 1024" "sb_chksum_len sbi = 2 ^ blkbits sbi - 1024"
    and "erofs_blk_read sbi 0 0 (ucast (erofs_blknr sbi (1152 :: u64)) + 1) = Inr (zread (vf_bytes (bdev sbi)) 0 (2 ^ blkbits sbi))"
    and "erofs_blk_read sbi 0 0 1 = Inr (zread (vf_bytes (bdev sbi)) 0 (2 ^ blkbits sbi))"
    and "slice (zread (vf_bytes (bdev sbi)) 0 (2 ^ blkbits sbi)) 1024 128 = Inr (zread (vf_bytes (bdev sbi)) 1024 128)"
    and "length buf = 2 ^ blkbits sbi \<Longrightarrow> erofs_blk_write sbi buf 0 1 =
      Inr (sbi\<lparr>bdev := (bdev sbi)\<lparr>vf_bytes := fsplice (vf_bytes (bdev sbi)) 0 buf\<rparr>\<rparr>)"
proof -
  show B: "1152 \<le> (2::nat) ^ blkbits sbi" "(2::nat) ^ blkbits sbi \<le> 4096"
    and "unat (erofs_blksiz sbi - 1024) = 2 ^ blkbits sbi - 1024" "sb_chksum_len sbi = 2 ^ blkbits sbi - 1024"
    and "erofs_blk_read sbi 0 0 (ucast (erofs_blknr sbi (1152 :: u64)) + 1) = Inr (zread (vf_bytes (bdev sbi)) 0 (2 ^ blkbits sbi))"
    and "erofs_blk_read sbi 0 0 1 = Inr (zread (vf_bytes (bdev sbi)) 0 (2 ^ blkbits sbi))"
    using bits q
    by (auto simp: erofs_blk_read_def erofs_blknr_def erofs_pos_def erofs_dev_read_quiet erofs_blksiz_def sb_chksum_len_def)
  show "slice (zread (vf_bytes (bdev sbi)) 0 (2 ^ blkbits sbi)) 1024 128 = Inr (zread (vf_bytes (bdev sbi)) 1024 128)"
    using B zread_sub [of 1024 128 "2 ^ blkbits sbi" "vf_bytes (bdev sbi)" 0] by (simp add: slice_def)
  show "erofs_blk_write sbi buf 0 1 = Inr (sbi\<lparr>bdev := (bdev sbi)\<lparr>vf_bytes := fsplice (vf_bytes (bdev sbi)) 0 buf\<rparr>\<rparr>)"
    if "length buf = 2 ^ blkbits sbi"
  proof -
    have "buf \<noteq> []" using that B by auto
    moreover have "unat (erofs_pos sbi (1 :: u32)) = 2 ^ blkbits sbi" using bits by (auto simp: erofs_pos_def)
    ultimately show ?thesis
      using that by (simp add: erofs_blk_write_def slice_def erofs_dev_write_quiet [OF q]) (simp add: erofs_pos_def)
  qed
qed

text \<open>The block that \<^verbatim>\<open>erofs_enable_sb_chksum\<close> writes: \<^verbatim>\<open>sb_put blk sb\<close> is \<^verbatim>\<open>blk\<close> with the superblock \<^verbatim>\<open>sb\<close>.\<close>

definition sb_put :: "bytes \<Rightarrow> erofs_super_block \<Rightarrow> bytes" where
  "sb_put blk sb = take 1024 blk @ enc_super_block sb @ drop 1152 blk"

lemma sb_put_laws:
  assumes "super_block_wf sb" "1152 \<le> length blk"
  shows "length (sb_put blk sb) = length blk" "memput blk 1024 (enc_super_block sb) = Inr (sb_put blk sb)"
    and "take 128 (drop 1024 (sb_put blk sb)) = enc_super_block sb" "sb_put (sb_put blk sb) sb' = sb_put blk sb'"
  using super_block.length_enc [OF assms(1)] assms(2) by (simp_all add: sb_put_def memput_inside)

lemma enable_sb_chksum_image:
  assumes q: "quiet (bdev sbi)" and bits: "blkszbits sbi = 11 \<or> blkszbits sbi = 12"
    and mg: "dsb_magic (dec_super_block (zread (vf_bytes (bdev sbi)) 1024 128)) = EROFS_SUPER_MAGIC_V1"
    and sb: "sb = (dec_super_block (zread (vf_bytes (bdev sbi)) 1024 128))\<lparr>dsb_feature_compat :=
      dsb_feature_compat (dec_super_block (zread (vf_bytes (bdev sbi)) 1024 128)) OR EROFS_FEATURE_COMPAT_SB_CHKSUM\<rparr>"
    and blk: "blk = zread (vf_bytes (bdev sbi)) 0 (2 ^ blkbits sbi)"
    and crc: "crc = erofs_crc32c (NOT 0) (drop 1024 (sb_put blk sb))"
  shows "erofs_enable_sb_chksum sbi =
    Inr (sbi\<lparr>bdev := (bdev sbi)\<lparr>vf_bytes := fsplice (vf_bytes (bdev sbi)) 0 (sb_put blk (sb\<lparr>dsb_checksum := crc\<rparr>))\<rparr>\<rparr>, crc)"
proof -
  note f = sb_block_facts [OF q bits]
  have wf: "super_block_wf sb" "super_block_wf (sb\<lparr>dsb_checksum := crc\<rparr>)"
    using super_block.wf_dec [of "zread (vf_bytes (bdev sbi)) 1024 128"] by (simp_all add: sb super_block_wf_def)
  have lb: "length blk = 2 ^ blkbits sbi" by (simp add: blk)
  have "1152 \<le> length blk" using f(1) lb by simp
  note p1 = sb_put_laws [OF wf(1) this]
  have "1152 \<le> length (sb_put blk sb)" using p1(1) f(1) lb by simp
  note p2 = sb_put_laws [OF wf(2) this]
  have d: "slice (sb_put blk sb) 1024 (2 ^ blkbits sbi - 1024) = Inr (drop 1024 (sb_put blk sb))"
    using p1(1) lb f(1) by (simp add: slice_def)
  have raw: "slice blk 1024 128 = Inr (zread (vf_bytes (bdev sbi)) 1024 128)" using f(7) by (simp only: blk)
  have rd: "erofs_blk_read sbi 0 0 (ucast (erofs_blknr sbi (1152 :: u64)) + 1) = Inr blk" using f(5) by (simp only: blk)
  have m2: "memput (sb_put blk sb) 1024 (enc_super_block (sb\<lparr>dsb_checksum := crc\<rparr>)) = Inr (sb_put blk (sb\<lparr>dsb_checksum := crc\<rparr>))"
    using p2(2) p1(4) by simp
  have "erofs_enable_sb_chksum sbi = bindR (erofs_blk_write sbi (sb_put blk (sb\<lparr>dsb_checksum := crc\<rparr>)) 0 1) (\<lambda>s. Inr (s, crc))"
  proof -
    have c: "erofs_crc32c (- 1) (drop 1024 (sb_put blk sb)) = crc" by (simp add: crc)
    show ?thesis
      using f(2) lb by (simp add: erofs_enable_sb_chksum_def rd raw Let_def mg sb [symmetric] p1(2) f(4) d c m2 del: slice_eq_Inr)
  qed
  then show ?thesis using f(8) p2(1) p1 lb by simp
qed

lemma checksum_irrelevant:
  "erofs_blk_read (sbi\<lparr>checksum := c\<rparr>) dev start nblocks = erofs_blk_read sbi dev start nblocks"
  "erofs_blksiz (sbi\<lparr>checksum := c\<rparr>) = erofs_blksiz sbi"
  by (simp_all add: erofs_blk_read_def erofs_dev_read_def erofs_pos_def erofs_blksiz_def)

text \<open>
  C12.  With blocks of 2 KiB or more, the checksum that \<^verbatim>\<open>erofs_enable_sb_chksum\<close> stores is the one that the superblock
  holds afterwards and that \<^verbatim>\<open>fsck\<close> accepts.
\<close>

theorem sb_chksum_verifies:
  assumes q: "quiet (bdev sbi)" and bits: "blkszbits sbi = 11 \<or> blkszbits sbi = 12"
    and mg: "dsb_magic (dec_super_block (zread (vf_bytes (bdev sbi)) 1024 128)) = EROFS_SUPER_MAGIC_V1"
    and z: "dsb_checksum (dec_super_block (zread (vf_bytes (bdev sbi)) 1024 128)) = 0"
  shows "\<exists>sbi1 crc. erofs_enable_sb_chksum sbi = Inr (sbi1, crc) \<and>
    dsb_checksum (dec_super_block (zread (vf_bytes (bdev sbi1)) 1024 128)) = crc \<and>
    erofs_check_sb_chksum (sbi1\<lparr>checksum := crc\<rparr>) = Inr True"
proof -
  let ?d = "vf_bytes (bdev sbi)" and ?B = "2 ^ blkbits sbi :: nat"
  define sb where "sb = (dec_super_block (zread ?d 1024 128))\<lparr>dsb_feature_compat :=
      dsb_feature_compat (dec_super_block (zread ?d 1024 128)) OR EROFS_FEATURE_COMPAT_SB_CHKSUM\<rparr>"
  define blk where "blk = zread ?d 0 ?B"
  define crc where "crc = erofs_crc32c (NOT 0) (drop 1024 (sb_put blk sb))"
  let ?out = "sb_put blk (sb\<lparr>dsb_checksum := crc\<rparr>)"
  define sbi1 where "sbi1 = sbi\<lparr>bdev := (bdev sbi)\<lparr>vf_bytes := fsplice ?d 0 ?out\<rparr>\<rparr>"
  have en: "erofs_enable_sb_chksum sbi = Inr (sbi1, crc)"
    using enable_sb_chksum_image [OF q bits mg sb_def blk_def crc_def] by (simp add: sbi1_def)
  have wf: "super_block_wf (sb\<lparr>dsb_checksum := c\<rparr>)" for c
    using super_block.wf_dec [of "zread ?d 1024 128"] by (simp add: sb_def super_block_wf_def)
  have sb0: "sb\<lparr>dsb_checksum := 0\<rparr> = sb" using z by (simp add: sb_def)
  have q1: "quiet (bdev sbi1)" and bits1: "blkszbits sbi1 = 11 \<or> blkszbits sbi1 = 12"
    using q bits by (simp_all add: sbi1_def)
  note f = sb_block_facts [OF q1 bits1] and f0 = sb_block_facts [OF q bits]
  have lb: "length blk = ?B" by (simp add: blk_def)
  have "1152 \<le> length blk" using f0(1) lb by simp
  note p = sb_put_laws [OF wf this]
  have rd: "zread (vf_bytes (bdev sbi1)) 0 ?B = ?out"
    using p(1) lb by (simp add: sbi1_def zread_fsplice_same)
  have raw: "zread (vf_bytes (bdev sbi1)) 1024 128 = enc_super_block (sb\<lparr>dsb_checksum := crc\<rparr>)"
    using zread_sub [of 1024 128 ?B "vf_bytes (bdev sbi1)" 0] rd p(3) [of crc] f0(1) by simp
  have "1152 \<le> length ?out" using p(1) lb f0(1) by simp
  note p2 = sb_put_laws [OF wf [of 0] this]
  have chk: "memput ?out 1024 (enc_super_block sb) = Inr (sb_put blk sb)"
    using p2(2) p(4) by (simp add: sb0)
  have d: "slice (sb_put blk sb) 1024 (?B - 1024) = Inr (drop 1024 (sb_put blk sb))"
    using p(1) [of 0] lb f0(1) by (simp add: slice_def sb0)
  have rd1: "erofs_blk_read sbi1 0 0 1 = Inr ?out" using f(6) rd by (simp add: sbi1_def)
  have sl: "slice ?out 1024 128 = Inr (enc_super_block (sb\<lparr>dsb_checksum := crc\<rparr>))"
    using p(1) [of crc] p(3) [of crc] lb f0(1) by (simp add: slice_def)
  have bz: "unat (erofs_blksiz sbi1 - 1024) = ?B - 1024" using f(3) by (simp add: sbi1_def)
  have c: "erofs_crc32c (- 1) (drop 1024 (sb_put blk sb)) = crc" by (simp add: crc_def)
  have ck: "erofs_check_sb_chksum (sbi1\<lparr>checksum := crc\<rparr>) = Inr True"
    by (simp add: erofs_check_sb_chksum_def checksum_irrelevant rd1 sl super_block.dec_enc [OF wf] sb0 chk bz d c
        del: slice_eq_Inr)
  show ?thesis using en raw ck super_block.dec_enc [OF wf] by simp
qed

theorem sb_chksum_verifies_witness:
  "\<exists>sbi1 crc. erofs_enable_sb_chksum ((zero_sbi (plain_file (replicate 1024 0 @ [0xE2, 0xE1, 0xF5, 0xE0])))\<lparr>blkszbits := 12\<rparr>) =
     Inr (sbi1, crc) \<and> erofs_check_sb_chksum (sbi1\<lparr>checksum := crc\<rparr>) = Inr True"
proof -
  let ?s = "(zero_sbi (plain_file (replicate 1024 0 @ [0xE2, 0xE1, 0xF5, 0xE0])))\<lparr>blkszbits := 12\<rparr>"
  have z: "zread (replicate 1024 0 @ [0xE2, 0xE1, 0xF5, 0xE0]) 1024 128 = [0xE2, 0xE1, 0xF5, 0xE0] @ replicate 124 0"
    by (simp add: zread_def)
  have m: "dsb_magic (dec_super_block ([0xE2, 0xE1, 0xF5, 0xE0] @ replicate 124 0)) = 0xE0F5E1E2"
    "dsb_checksum (dec_super_block ([0xE2, 0xE1, 0xF5, 0xE0] @ replicate 124 0)) = 0"
    by (simp_all add: dec_super_block_def field_def codec_eval)
  then show ?thesis
    using sb_chksum_verifies [of ?s] z by (auto simp: m)
qed

text \<open>
  C22.  An image with 1 KiB blocks is never accepted, although 9 to 12 block size bits are: the room for superblock slots is
  computed as zero there.
\<close>

theorem super_1k_blocks_rejected:
  assumes "quiet (bdev sbi)"
    and "dsb_magic (dec_super_block (zread (vf_bytes (bdev sbi)) 1024 128)) = EROFS_SUPER_MAGIC_V1"
    and "dsb_blkszbits (dec_super_block (zread (vf_bytes (bdev sbi)) 1024 128)) = 10"
  shows "erofs_read_superblock n lib sbi = Err EINVAL"
proof -
  let ?dsb = "dec_super_block (zread (vf_bytes (bdev sbi)) 1024 128)"
  have sl: "slice (zread (vf_bytes (bdev sbi)) 0 4096) 1024 128 = Inr (zread (vf_bytes (bdev sbi)) 1024 128)"
    using zread_sub [of 1024 128 4096 "vf_bytes (bdev sbi)" 0] by (simp add: slice_def)
  have "unat (128 + ucast (x :: u8) * 16 :: u32) = 128 + 16 * unat x" for x
    using unsigned_less [of x, where 'a = nat] by (simp add: unat_word_ariths unat_ucast_up)
  then have nf: "\<not> sb_extslots_fit (128 + ucast (x :: u8) * 16) 10" for x
    by (simp add: sb_extslots_fit_def word_le_nat_alt)
  show ?thesis
    using read_superblock_raw [OF assms(1)] assms(2,3) nf sl
    by (simp add: erofs_read_superblock_def Let_def word_less_def del: slice_eq_Inr)
qed

theorem super_1k_blocks_rejected_witness:
  "erofs_read_superblock 9 no_lib (zero_sbi (plain_file (replicate 1024 0 @
     [0xE2, 0xE1, 0xF5, 0xE0, 0, 0, 0, 0, 0, 0, 0, 0, 10]))) = Err EINVAL"
proof -
  let ?sb = "[0xE2, 0xE1, 0xF5, 0xE0, 0, 0, 0, 0, 0, 0, 0, 0, 10] :: bytes"
  have z: "zread (replicate 1024 0 @ ?sb) 1024 128 = ?sb @ replicate 115 0" by (simp add: zread_def)
  have "dsb_magic (dec_super_block (?sb @ replicate 115 0)) = 0xE0F5E1E2"
    "dsb_blkszbits (dec_super_block (?sb @ replicate 115 0)) = 10"
    by (simp_all add: dec_super_block_def field_def codec_eval)
  then show ?thesis
    using super_1k_blocks_rejected [of "zero_sbi (plain_file (replicate 1024 0 @ ?sb))" 9 no_lib] z by simp
qed

text \<open>
  With blocks of at most 1 KiB \<^verbatim>\<open>erofs_enable_sb_chksum\<close> rewrites only the first block, which does not hold the
  superblock: it reports success and a checksum, and the superblock is unchanged.
\<close>

theorem sb_chksum_small_blocks_lost:
  assumes q: "quiet (bdev sbi)" and bits: "blkszbits sbi = 9 \<or> blkszbits sbi = 10"
    and en: "erofs_enable_sb_chksum sbi = Inr (sbi1, crc)"
  shows "zread (vf_bytes (bdev sbi1)) 1024 128 = zread (vf_bytes (bdev sbi)) 1024 128"
proof -
  obtain buf where "erofs_blk_write sbi buf 0 1 = Inr sbi1"
    using en by (auto simp: erofs_enable_sb_chksum_def Let_def split: if_splits)
  moreover have B: "unat (erofs_pos sbi (1 :: u32)) = 2 ^ blkbits sbi" "(2::nat) ^ blkbits sbi \<le> 1024"
    using bits by (auto simp: erofs_pos_def)
  ultimately obtain b where b: "erofs_dev_write sbi b 0 = Inr sbi1" "length b = 2 ^ blkbits sbi"
    by (auto simp: erofs_blk_write_def slice_def erofs_pos_def split: if_splits)
  then have "b \<noteq> []" by auto
  then have "vf_bytes (bdev sbi1) = fsplice (vf_bytes (bdev sbi)) 0 b"
    using b(1) erofs_dev_write_quiet [OF q] by auto
  then show ?thesis using b(2) B(2) by (simp add: zread_fsplice_other)
qed

lemma enable_sb_chksum_1k:
  assumes q: "quiet (bdev sbi)" and bits: "blkszbits sbi = 10"
    and mg: "dsb_magic (dec_super_block (zread (vf_bytes (bdev sbi)) 1024 128)) = EROFS_SUPER_MAGIC_V1"
  shows "\<exists>sbi1 crc. erofs_enable_sb_chksum sbi = Inr (sbi1, crc)"
proof -
  let ?d = "vf_bytes (bdev sbi)"
  define blk where "blk = zread ?d 0 2048"
  define sb where "sb = (dec_super_block (zread ?d 1024 128))\<lparr>dsb_feature_compat :=
      dsb_feature_compat (dec_super_block (zread ?d 1024 128)) OR EROFS_FEATURE_COMPAT_SB_CHKSUM\<rparr>"
  have rd: "erofs_blk_read sbi 0 0 (ucast (erofs_blknr sbi (1152 :: u64)) + 1) = Inr blk"
    using bits q by (simp add: erofs_blk_read_def erofs_blknr_def erofs_pos_def erofs_dev_read_quiet blk_def)
  have sl: "slice blk 1024 128 = Inr (zread ?d 1024 128)"
    using zread_sub [of 1024 128 2048 ?d 0] by (simp add: slice_def blk_def)
  have lb: "length blk = 2048" by (simp add: blk_def)
  have wf: "super_block_wf sb" "super_block_wf (sb\<lparr>dsb_checksum := c\<rparr>)" for c
    using super_block.wf_dec [of "zread ?d 1024 128"] by (simp_all add: sb_def super_block_wf_def)
  have p: "memput blk 1024 (enc_super_block sb) = Inr (sb_put blk sb)" "length (sb_put blk sb) = 2048"
    using sb_put_laws [OF wf(1), of blk] lb by simp_all
  have p2: "memput (sb_put blk sb) 1024 (enc_super_block (sb\<lparr>dsb_checksum := c\<rparr>)) =
      Inr (sb_put (sb_put blk sb) (sb\<lparr>dsb_checksum := c\<rparr>))"
    "length (sb_put (sb_put blk sb) (sb\<lparr>dsb_checksum := c\<rparr>)) = 2048" for c
    using sb_put_laws [OF wf(2), of "sb_put blk sb"] p(2) by simp_all
  have cl: "sb_chksum_len sbi = 1024" using bits by (simp add: sb_chksum_len_def erofs_blksiz_def)
  have wr: "\<exists>s. erofs_blk_write sbi b 0 1 = Inr s" if "length b = 2048" for b
  proof -
    have "take 1024 b \<noteq> []" using that by auto
    then show ?thesis
      using that bits by (simp add: erofs_blk_write_def erofs_pos_def slice_def erofs_dev_write_quiet [OF q])
  qed
  have sl2: "slice (sb_put blk sb) 1024 1024 = Inr (drop 1024 (sb_put blk sb))" using p(2) by (simp add: slice_def)
  show ?thesis
    using wr [OF p2(2)]
    by (simp add: erofs_enable_sb_chksum_def rd sl Let_def mg sb_def [symmetric] p lb cl sl2 p2 del: slice_eq_Inr)
qed

theorem sb_chksum_small_blocks_lost_witness:
  "\<exists>sbi1 crc. erofs_enable_sb_chksum ((zero_sbi (plain_file (replicate 1024 0 @ [0xE2, 0xE1, 0xF5, 0xE0])))\<lparr>blkszbits := 10\<rparr>) =
     Inr (sbi1, crc) \<and> zread (vf_bytes (bdev sbi1)) 1024 128 = [0xE2, 0xE1, 0xF5, 0xE0] @ replicate 124 0"
proof -
  let ?d = "replicate 1024 0 @ [0xE2, 0xE1, 0xF5, 0xE0] :: bytes"
  let ?s = "(zero_sbi (plain_file ?d))\<lparr>blkszbits := 10\<rparr>"
  have z: "zread ?d 1024 128 = [0xE2, 0xE1, 0xF5, 0xE0] @ replicate 124 0" by (simp add: zread_def)
  have "dsb_magic (dec_super_block ([0xE2, 0xE1, 0xF5, 0xE0] @ replicate 124 0)) = 0xE0F5E1E2"
    by (simp add: dec_super_block_def field_def codec_eval)
  then obtain sbi1 crc where en: "erofs_enable_sb_chksum ?s = Inr (sbi1, crc)"
    using enable_sb_chksum_1k [of ?s] z by auto
  have "zread (vf_bytes (bdev sbi1)) 1024 128 = zread (vf_bytes (bdev ?s)) 1024 128"
    by (rule sb_chksum_small_blocks_lost [OF _ _ en]) simp_all
  then show ?thesis using en z by auto
qed
end
