(* ===== verification/Erofs_Dir.thy ===== *)
theory Erofs_Dir
  imports Erofs_Data "HOL-Library.List_Lexorder"
begin

text \<open>
  Directories.  Reading: \<^verbatim>\<open>lib/dir.c\<close> (iteration with the checks of \<^verbatim>\<open>fsck\<close>, path names) and the lookup
  half of \<^verbatim>\<open>lib/namei.c\<close>.  Writing: the directory part of \<^verbatim>\<open>lib/inode.c\<close>.

  C strings are lists of non-zero bytes without their terminator.  The block buffer of a reader
  starts with no contents and keeps what earlier, longer blocks left in it, as the array on the C
  stack does; reading bytes that were never stored is \<^verbatim>\<open>OutOfBounds\<close>.  Callbacks get the entry
  and a state of their own and, as \<^verbatim>\<open>dir.h\<close> asks of them, leave the context alone.
\<close>

section \<open>Directory entries in a block\<close>

definition de_nameoff_at :: "bytes \<Rightarrow> nat \<Rightarrow> u32 result" where
  "de_nameoff_at buf i = bindR (slice buf (12 * i + 8) 2) (\<lambda>s. Inr (ucast (le_get s :: u16)))"

definition de_nid_at :: "bytes \<Rightarrow> nat \<Rightarrow> u64 result" where
  "de_nid_at buf i = bindR (slice buf (12 * i) 8) (\<lambda>s. Inr (le_get s))"

definition de_ftype_at :: "bytes \<Rightarrow> nat \<Rightarrow> u8 result" where
  "de_ftype_at buf i = bindR (slice buf (12 * i + 10) 1) (\<lambda>s. Inr (le_get s))"

text \<open>
  The length of the name of entry \<^verbatim>\<open>i\<close>: up to the next entry's name, or for the last entry up to the
  first zero byte or \<^verbatim>\<open>maxsize\<close>.  \<^verbatim>\<open>maxsize - nameoff\<close> is unsigned.
\<close>

definition de_namelen_at :: "bytes \<Rightarrow> u32 \<Rightarrow> u32 \<Rightarrow> nat \<Rightarrow> u32 \<Rightarrow> u32 result" where
  "de_namelen_at buf tableend maxsize i nameoff =
     (if unat tableend \<le> 12 * Suc i
      then bindR (strnlen (drop (unat nameoff) buf) (unat (maxsize - nameoff))) (\<lambda>k. Inr (of_nat k))
      else bindR (de_nameoff_at buf (Suc i)) (\<lambda>next. Inr (next - nameoff)))"

section \<open>Lookup\<close>

function find_target_dirent ::
    "bytes \<Rightarrow> bytes \<Rightarrow> u32 \<Rightarrow> u32 \<Rightarrow> nat \<Rightarrow> (nat option) result" where
  "find_target_dirent buf name tableend maxsize i =
     (if 12 * i < unat tableend
      then bindR (de_nameoff_at buf i) (\<lambda>nameoff.
             bindR (de_namelen_at buf tableend maxsize i nameoff) (\<lambda>de_namelen.
               if maxsize < nameoff + de_namelen \<or> of_nat EROFS_NAME_LEN < de_namelen then Err EFSCORRUPTED
               else if of_nat (length name) = de_namelen
               then bindR (slice buf (unat nameoff) (unat de_namelen)) (\<lambda>de_name.
                      if de_name = name then Inr (Some i)
                      else find_target_dirent buf name tableend maxsize (Suc i))
               else find_target_dirent buf name tableend maxsize (Suc i)))
      else Inr None)"
  by pat_completeness auto
termination
  by (relation "measure (\<lambda>(buf, name, tableend, maxsize, i). unat tableend - i)") auto

declare find_target_dirent.simps [simp del]

text \<open>The loop of \<^verbatim>\<open>erofs_namei\<close> over the blocks of a directory; the fuel counts blocks.\<close>

fun namei_loop ::
    "nat \<Rightarrow> nat \<Rightarrow> decompress_lib \<Rightarrow> erofs_sb_info \<Rightarrow> erofs_inode \<Rightarrow> bytes \<Rightarrow> bytes \<Rightarrow> u64 \<Rightarrow> u64 result" where
  "namei_loop 0 n lib sbi vi buf name offset = Inl OutOfFuel"
| "namei_loop (Suc k) n lib sbi vi buf name offset =
     (if \<not> offset < i_size vi then Err ENOENT
      else let maxsize = min (i_size vi - offset) (ucast (erofs_blksiz sbi)) in
        bindR (erofs_pread n lib sbi vi (replicate (unat maxsize) 0) offset) (\<lambda>(vi, d).
          let buf = fsplice buf 0 d in
          bindR (de_nameoff_at buf 0) (\<lambda>nameoff.
            if nameoff < 12 \<or> erofs_blksiz sbi \<le> nameoff then Err EFSCORRUPTED
            else bindR (find_target_dirent buf name nameoff (ucast maxsize) 0) (\<lambda>r.
              case r of
                Some i \<Rightarrow> de_nid_at buf i
              | None \<Rightarrow> namei_loop k n lib sbi vi buf name (offset + maxsize)))))"

definition erofs_namei ::
    "nat \<Rightarrow> decompress_lib \<Rightarrow> erofs_sb_info \<Rightarrow> u64 \<Rightarrow> bytes \<Rightarrow> u64 result" where
  "erofs_namei n lib sbi nd name =
     bindR (erofs_read_inode_from_disk sbi (zero_inode nd)) (\<lambda>vi. namei_loop n n lib sbi vi [] name 0)"

text \<open>\<^verbatim>\<open>link_path_walk\<close>: components are separated by any number of slashes.\<close>

abbreviation (input) slash :: u8 where "slash \<equiv> 47"
abbreviation (input) dot :: u8 where "dot \<equiv> 46"

function walk_loop ::
    "nat \<Rightarrow> decompress_lib \<Rightarrow> erofs_sb_info \<Rightarrow> u64 \<Rightarrow> bytes \<Rightarrow> u64 result" where
  "walk_loop n lib sbi nd name =
     (if name = [] then Inr nd
      else let comp = hd name # takeWhile (\<lambda>c. c \<noteq> slash) (tl name);
               rest = dropWhile (\<lambda>c. c = slash) (drop (length comp) name)
           in bindR (erofs_namei n lib sbi nd comp) (\<lambda>nd. walk_loop n lib sbi nd rest))"
  by pat_completeness auto
termination
proof (relation "measure (\<lambda>(n, lib, sbi, nd, name). length name)", goal_cases)
  case 1
  then show ?case by simp
next
  case (2 n lib sbi nd name comp rest)
  have "length rest \<le> length name - length comp"
    using 2(3) length_dropWhile_le [of "\<lambda>c. c = slash" "drop (length comp) name"] by simp
  moreover have "0 < length comp" using 2(2) by simp
  moreover have "0 < length name" using 2(1) by simp
  ultimately show ?case by (simp add: le_less_trans)
qed

declare walk_loop.simps [simp del]

definition link_path_walk ::
    "nat \<Rightarrow> decompress_lib \<Rightarrow> erofs_sb_info \<Rightarrow> bytes \<Rightarrow> u64 result" where
  "link_path_walk n lib sbi name =
     walk_loop n lib sbi (root_nid sbi) (dropWhile (\<lambda>c. c = slash) name)"

definition erofs_ilookup ::
    "nat \<Rightarrow> decompress_lib \<Rightarrow> erofs_sb_info \<Rightarrow> bytes \<Rightarrow> erofs_inode \<Rightarrow> erofs_inode result" where
  "erofs_ilookup n lib sbi path vi =
     bindR (link_path_walk n lib sbi path) (\<lambda>nd. erofs_read_inode_from_disk sbi (vi\<lparr>nid := nd\<rparr>))"

section \<open>Iteration\<close>

abbreviation (input) EROFS_READDIR_VALID_PNID :: u8 where "EROFS_READDIR_VALID_PNID \<equiv> 1"
abbreviation (input) EROFS_READDIR_DOTDOT_FOUND :: u8 where "EROFS_READDIR_DOTDOT_FOUND \<equiv> 2"
abbreviation (input) EROFS_READDIR_DOT_FOUND :: u8 where "EROFS_READDIR_DOT_FOUND \<equiv> 4"
abbreviation (input) EROFS_READDIR_ALL_SPECIAL_FOUND :: u8 where "EROFS_READDIR_ALL_SPECIAL_FOUND \<equiv> 6"

text \<open>
  The directory being read and the members of \<^verbatim>\<open>struct erofs_dir_context\<close> that last over the iteration;
  the members that describe the current entry are passed to the callback.
\<close>

record erofs_dir_context =
  ctx_dir :: erofs_inode
  ctx_pnid :: u64
  ctx_flags :: u8

record dirent_info =
  dname :: bytes
  di_nid :: u64
  di_ftype :: u8
  dot_dotdot :: bool

text \<open>Return values: 0, a positive number (the only one in use is \<^verbatim>\<open>EROFS_PATHNAME_FOUND\<close>), an error.\<close>

datatype dir_ret = RetOk | RetFound | RetErr error

type_synonym 's dir_cb = "dirent_info \<Rightarrow> 's \<Rightarrow> dir_ret \<times> 's"

fun erofs_validate_filename :: "bytes \<Rightarrow> bool" where
  "erofs_validate_filename [] = True"
| "erofs_validate_filename (c # cs) =
     (if c = 0 then True else if c = slash then False else erofs_validate_filename cs)"

fun is_dot_dotdot_len :: "bytes \<Rightarrow> bool" where
  "is_dot_dotdot_len [] = False"
| "is_dot_dotdot_len (c # cs) =
     (if c \<noteq> dot then False
      else length (c # cs) = 1 \<or> (length (c # cs) = 2 \<and> hd cs = dot))"

fun strncmp :: "nat \<Rightarrow> bytes \<Rightarrow> bytes \<Rightarrow> int" where
  "strncmp (Suc n) (a # as) (b # bs) =
     (if a < b then -1 else if b < a then 1 else if a = 0 then 0 else strncmp n as bs)"
| "strncmp _ _ _ = 0"

text \<open>The checks on \<^verbatim>\<open>.\<close> and \<^verbatim>\<open>..\<close>, and on any other name; \<^verbatim>\<open>None\<close> is a corrupted directory.\<close>

definition check_special ::
    "erofs_sb_info \<Rightarrow> bool \<Rightarrow> erofs_dir_context \<Rightarrow> u64 \<Rightarrow> bytes \<Rightarrow> erofs_dir_context option" where
  "check_special sbi fsck ctx nd name =
     (if is_dot_dotdot_len name
      then if length name = 2
           then if fsck \<and> ctx_flags ctx AND EROFS_READDIR_DOTDOT_FOUND \<noteq> 0 then None
                else let ctx = ctx\<lparr>ctx_flags := ctx_flags ctx OR EROFS_READDIR_DOTDOT_FOUND\<rparr>;
                         ctx = (if root_nid sbi = nid (ctx_dir ctx)
                                then ctx\<lparr>ctx_pnid := root_nid sbi,
                                         ctx_flags := ctx_flags ctx OR EROFS_READDIR_VALID_PNID\<rparr> else ctx)
                     in if fsck \<and> ctx_flags ctx AND EROFS_READDIR_VALID_PNID \<noteq> 0 \<and> nd \<noteq> ctx_pnid ctx
                        then None else Some ctx
           else if fsck \<and> ctx_flags ctx AND EROFS_READDIR_DOT_FOUND \<noteq> 0 then None
                else let ctx = ctx\<lparr>ctx_flags := ctx_flags ctx OR EROFS_READDIR_DOT_FOUND\<rparr> in
                     if fsck \<and> nd \<noteq> nid (ctx_dir ctx) then None else Some ctx
      else if fsck \<and> \<not> erofs_validate_filename name then None else Some ctx)"

definition name_order_ok :: "bytes option \<Rightarrow> bytes \<Rightarrow> bool" where
  "name_order_ok prev name =
     (case prev of
        None \<Rightarrow> True
      | Some p \<Rightarrow>
          let cmp = strncmp (min (length p) (length name)) p name in
          \<not> (0 < cmp \<or> (cmp = 0 \<and> length name \<le> length p)))"

text \<open>
  One entry: what is read and checked before the callback runs.  \<^verbatim>\<open>next_nameoff\<close> is where the name has to
  begin.
\<close>

definition dirent_checked ::
    "erofs_sb_info \<Rightarrow> bool \<Rightarrow> erofs_dir_context \<Rightarrow> bytes \<Rightarrow> u32 \<Rightarrow> u32 \<Rightarrow> u32 \<Rightarrow> bytes option \<Rightarrow> nat \<Rightarrow>
     (dirent_info \<times> erofs_dir_context) result" where
  "dirent_checked sbi fsck ctx buf tableend maxsize next_nameoff prev i =
     bindR (de_nameoff_at buf i) (\<lambda>nameoff.
       bindR (de_namelen_at buf tableend maxsize i nameoff) (\<lambda>de_namelen.
         bindR (de_nid_at buf i) (\<lambda>nd.
           if nameoff \<noteq> next_nameoff then Err EFSCORRUPTED
           else if maxsize < nameoff + de_namelen \<or> de_namelen = 0 \<or> of_nat EROFS_NAME_LEN < de_namelen
           then Err EFSCORRUPTED
           else bindR (slice buf (unat nameoff) (unat de_namelen)) (\<lambda>name.
             if fsck \<and> \<not> name_order_ok prev name then Err EFSCORRUPTED
             else bindR (de_ftype_at buf i) (\<lambda>ft.
               if fsck \<and> EROFS_FT_MAX \<le> ft then Err EFSCORRUPTED
               else case check_special sbi fsck ctx nd name of
                      None \<Rightarrow> Err EFSCORRUPTED
                    | Some ctx \<Rightarrow>
                        Inr (\<lparr>dname = name, di_nid = nd, di_ftype = ft,
                              dot_dotdot = is_dot_dotdot_len name\<rparr>, ctx))))))"

function traverse_dirents ::
    "'s dir_cb \<Rightarrow> erofs_sb_info \<Rightarrow> bool \<Rightarrow> bytes \<Rightarrow> u32 \<Rightarrow> u32 \<Rightarrow> u32 \<Rightarrow> bytes option \<Rightarrow> nat \<Rightarrow>
     erofs_dir_context \<Rightarrow> 's \<Rightarrow> dir_ret \<times> erofs_dir_context \<times> 's" where
  "traverse_dirents cb sbi fsck buf tableend maxsize next_nameoff prev i ctx s =
     (if 12 * i < unat tableend
      then case dirent_checked sbi fsck ctx buf tableend maxsize next_nameoff prev i of
             Inl e \<Rightarrow> (RetErr e, ctx, s)
           | Inr (info, ctx) \<Rightarrow>
               (case cb info s of
                  (RetOk, s) \<Rightarrow>
                    traverse_dirents cb sbi fsck buf tableend maxsize
                      (next_nameoff + of_nat (length (dname info))) (Some (dname info)) (Suc i) ctx s
                | (r, s) \<Rightarrow> (r, ctx, s))
      else (RetOk, ctx, s))"
  by pat_completeness auto
termination
  by (relation "measure (\<lambda>(cb, sbi, fsck, buf, tableend, maxsize, next_nameoff, prev, i, ctx, s). unat tableend - i)") auto

declare traverse_dirents.simps [simp del]

fun iterate_loop ::
    "nat \<Rightarrow> nat \<Rightarrow> decompress_lib \<Rightarrow> 's dir_cb \<Rightarrow> erofs_sb_info \<Rightarrow> bool \<Rightarrow> bytes \<Rightarrow> u64 \<Rightarrow>
     erofs_dir_context \<Rightarrow> 's \<Rightarrow> dir_ret \<times> bool \<times> erofs_dir_context \<times> 's" where
  "iterate_loop 0 n lib cb sbi fsck buf pos ctx s = (RetErr OutOfFuel, True, ctx, s)"
| "iterate_loop (Suc k) n lib cb sbi fsck buf pos ctx s =
     (if \<not> pos < i_size (ctx_dir ctx) then (RetOk, False, ctx, s)
      else let maxsize = min (i_size (ctx_dir ctx) - pos) (ucast (erofs_blksiz sbi)) in
        case erofs_pread n lib sbi (ctx_dir ctx) (replicate (unat maxsize) 0) pos of
          Inl e \<Rightarrow> (RetErr e, True, ctx, s)
        | Inr (vi, d) \<Rightarrow>
            let ctx = ctx\<lparr>ctx_dir := vi\<rparr>; buf = fsplice buf 0 d in
            case de_nameoff_at buf 0 of
              Inl e \<Rightarrow> (RetErr e, True, ctx, s)
            | Inr nameoff \<Rightarrow>
                if nameoff < 12 \<or> erofs_blksiz sbi \<le> nameoff then (RetErr (Errno EFSCORRUPTED), True, ctx, s)
                else (case traverse_dirents cb sbi fsck buf nameoff (ucast maxsize) nameoff None 0 ctx s of
                        (RetOk, ctx, s) \<Rightarrow> iterate_loop k n lib cb sbi fsck buf (pos + maxsize) ctx s
                      | (r, ctx, s) \<Rightarrow> (r, False, ctx, s)))"

text \<open>
  The flag of the loop's result tells a \<^verbatim>\<open>return\<close> out of it from a \<^verbatim>\<open>break\<close>: after a \<^verbatim>\<open>break\<close>, with or
  without an error, the check for \<^verbatim>\<open>.\<close> and \<^verbatim>\<open>..\<close> still runs.
\<close>

definition erofs_iterate_dir ::
    "nat \<Rightarrow> decompress_lib \<Rightarrow> 's dir_cb \<Rightarrow> erofs_sb_info \<Rightarrow> bool \<Rightarrow> erofs_dir_context \<Rightarrow> 's \<Rightarrow>
     dir_ret \<times> erofs_dir_context \<times> 's" where
  "erofs_iterate_dir n lib cb sbi fsck ctx s =
     (if \<not> S_ISDIR (i_mode (ctx_dir ctx)) then (RetErr (Errno ENOTDIR), ctx, s)
      else case iterate_loop n n lib cb sbi fsck [] 0
                  (ctx\<lparr>ctx_flags := ctx_flags ctx AND NOT EROFS_READDIR_ALL_SPECIAL_FOUND\<rparr>) s of
             (r, returned, ctx, s) \<Rightarrow>
               if returned then (r, ctx, s)
               else if fsck \<and> ctx_flags ctx AND EROFS_READDIR_ALL_SPECIAL_FOUND \<noteq> EROFS_READDIR_ALL_SPECIAL_FOUND
               then (RetErr (Errno EFSCORRUPTED), ctx, s)
               else (r, ctx, s))"

section \<open>Path names\<close>

definition strncpy :: "nat \<Rightarrow> bytes \<Rightarrow> bytes" where
  "strncpy n s = (let k = takeWhile (\<lambda>c. c \<noteq> 0) (take n s) in k @ replicate (n - length k) 0)"

definition put_component :: "bytes \<Rightarrow> nat \<Rightarrow> bytes \<Rightarrow> bytes result" where
  "put_component buf pos name = memput buf pos (slash # strncpy (length name) name)"

text \<open>The state of the callback is the buffer for the path name.\<close>

fun erofs_get_pathname_iter ::
    "nat \<Rightarrow> decompress_lib \<Rightarrow> erofs_sb_info \<Rightarrow> u64 \<Rightarrow> nat \<Rightarrow> bytes dir_cb" where
  "erofs_get_pathname_iter 0 lib sbi target pos info buf = (RetErr OutOfFuel, buf)"
| "erofs_get_pathname_iter (Suc n) lib sbi target pos info buf =
     (let len = length (dname info) in
      if dot_dotdot info then (RetOk, buf)
      else if di_nid info = target
      then if length buf < pos + len + 2 then (RetErr (Errno ERANGE), buf)
           else (case bindR (put_component buf pos (dname info)) (\<lambda>buf. memput buf (pos + 1 + len) [0]) of
                   Inl e \<Rightarrow> (RetErr e, buf)
                 | Inr buf \<Rightarrow> (RetFound, buf))
      else if di_ftype info = EROFS_FT_DIR \<or> di_ftype info = EROFS_FT_UNKNOWN
      then case erofs_read_inode_from_disk sbi (zero_inode (di_nid info)) of
             Inl e \<Rightarrow> (RetErr e, buf)
           | Inr dir \<Rightarrow>
               if S_ISDIR (i_mode dir)
               then (case erofs_iterate_dir n lib (erofs_get_pathname_iter n lib sbi target (pos + len + 1)) sbi False
                            \<lparr>ctx_dir = dir, ctx_pnid = 0, ctx_flags = 0\<rparr> buf of
                       (RetFound, _, buf) \<Rightarrow>
                         (case put_component buf pos (dname info) of
                            Inl e \<Rightarrow> (RetErr e, buf)
                          | Inr buf \<Rightarrow> (RetFound, buf))
                     | (r, _, buf) \<Rightarrow> (r, buf))
               else (RetOk, buf)
      else (RetOk, buf))"

definition erofs_get_pathname ::
    "nat \<Rightarrow> decompress_lib \<Rightarrow> erofs_sb_info \<Rightarrow> u64 \<Rightarrow> bytes \<Rightarrow> bytes result" where
  "erofs_get_pathname n lib sbi nd buf =
     (if nd = root_nid sbi
      then if length buf < 2 then Err ERANGE else memput buf 0 [slash, 0]
      else bindR (erofs_read_inode_from_disk sbi (zero_inode (root_nid sbi))) (\<lambda>root.
             case erofs_iterate_dir n lib (erofs_get_pathname_iter n lib sbi nd 0) sbi False
                    \<lparr>ctx_dir = root, ctx_pnid = 0, ctx_flags = 0\<rparr> buf of
               (RetFound, _, buf) \<Rightarrow> Inr buf
             | (RetOk, _, _) \<Rightarrow> Err ENOENT
             | (RetErr e, _, _) \<Rightarrow> Inl e))"

end
