(* ===== verification/Erofs_Dirwrite.thy ===== *)
theory Erofs_Dirwrite
  imports Erofs_Dir
begin

text \<open>
  Writing directories: the directory part of \<^verbatim>\<open>lib/inode.c\<close>, and the theorems that the readers of
  \<^verbatim>\<open>Erofs_Dir\<close> find what it writes.  A dentry carries the node number that \<^verbatim>\<open>erofs_d_invalidate\<close> has put into
  it.  The block address of the directory data is an argument: it is what
  \<^verbatim>\<open>erofs_allocate_inode_bh_data\<close> got from the buffer allocator.
\<close>

section \<open>Dentries and the size of a directory\<close>

record erofs_dentry =
  d_nid :: u64
  d_name :: bytes
  d_type :: u8
  d_validnid :: bool

definition erofs_d_alloc :: "bytes \<Rightarrow> erofs_dentry" where
  "erofs_d_alloc name =
     \<lparr>d_nid = 0, d_name = take (EROFS_NAME_LEN - 1) name, d_type = EROFS_FT_UNKNOWN, d_validnid = False\<rparr>"

definition erofs_init_empty_dir :: "u64 \<Rightarrow> u64 \<Rightarrow> erofs_dentry list" where
  "erofs_init_empty_dir self parent =
     [(erofs_d_alloc [dot])\<lparr>d_nid := self, d_type := EROFS_FT_DIR\<rparr>,
      (erofs_d_alloc [dot, dot])\<lparr>d_nid := parent, d_type := EROFS_FT_DIR\<rparr>]"

text \<open>\<^verbatim>\<open>off\<close> is where the buffer head of the inode ended up, if it has one.\<close>

definition erofs_lookupnid :: "erofs_sb_info \<Rightarrow> bool \<Rightarrow> u64 option \<Rightarrow> u64 \<Rightarrow> u64" where
  "erofs_lookupnid sbi is_root off nd =
     (let nd = (case off of
                  Some o1 \<Rightarrow> if sint nd \<le> 0
                            then drop_bit (unat EROFS_ISLOTBITS) (o1 - erofs_pos sbi (meta_blkaddr sbi)) else nd
                | None \<Rightarrow> nd)
      in if is_root \<and> 0xffff < nd then root_nid sbi else nd)"

text \<open>\<^verbatim>\<open>strcmp\<close> orders names as lists of bytes are ordered; \<^verbatim>\<open>qsort\<close> sorts by it.\<close>

definition comp_subdir :: "erofs_dentry \<Rightarrow> erofs_dentry \<Rightarrow> int" where
  "comp_subdir a b = (if d_name a < d_name b then -1 else if d_name a = d_name b then 0 else 1)"

fun dir_size :: "erofs_sb_info \<Rightarrow> u32 \<Rightarrow> erofs_dentry list \<Rightarrow> u32" where
  "dir_size sbi d_size [] = d_size"
| "dir_size sbi d_size (d # ds) =
     (let len = of_nat (length (d_name d) + 12);
          d_size = (if erofs_blksiz sbi < erofs_blkoff sbi d_size + len
                    then round_up d_size (erofs_blksiz sbi) else d_size)
      in dir_size sbi (d_size + len) ds)"

definition erofs_prepare_dir_file ::
    "erofs_sb_info \<Rightarrow> erofs_inode \<Rightarrow> erofs_dentry list \<Rightarrow> erofs_inode \<times> erofs_dentry list" where
  "erofs_prepare_dir_file sbi dir subdirs =
     (let sorted_d = sort_key d_name subdirs; d_size = dir_size sbi 0 sorted_d in
      (dir\<lparr>i_size := ucast d_size, datalayout := EROFS_INODE_FLAT_INLINE,
           idata_size := ucast (d_size mod erofs_blksiz sbi)\<rparr>, sorted_d))"

section \<open>Filling blocks\<close>

definition dirent_of :: "erofs_dentry \<Rightarrow> nat \<Rightarrow> erofs_dirent" where
  "dirent_of d q = \<lparr>de_nid = d_nid d, de_nameoff = of_nat q, de_file_type = d_type d, de_reserved = 0\<rparr>"

fun fill_loop :: "bytes \<Rightarrow> nat \<Rightarrow> nat \<Rightarrow> erofs_dentry list \<Rightarrow> (bytes \<times> nat) result" where
  "fill_loop buf p q [] = Inr (buf, q)"
| "fill_loop buf p q (d # ds) =
     bindR (memput buf p (enc_dirent (dirent_of d q))) (\<lambda>buf.
       bindR (memput buf q (d_name d)) (\<lambda>buf. fill_loop buf (p + 12) (q + length (d_name d)) ds))"

definition fill_dirblock :: "bytes \<Rightarrow> nat \<Rightarrow> nat \<Rightarrow> erofs_dentry list \<Rightarrow> bytes result" where
  "fill_dirblock buf sz q ds =
     bindR (fill_loop buf 0 q ds) (\<lambda>(buf, q).
       if sz < q then Inl OutOfBounds else memput buf q (replicate (sz - q) 0))"

definition write_dirblock ::
    "erofs_sb_info \<Rightarrow> bytes \<Rightarrow> nat \<Rightarrow> erofs_dentry list \<Rightarrow> u32 \<Rightarrow> erofs_sb_info result" where
  "write_dirblock sbi buf q ds blkaddr =
     bindR (fill_dirblock buf (unat (erofs_blksiz sbi)) q ds) (\<lambda>buf. erofs_blk_write sbi buf blkaddr 1)"

section \<open>Updating the parent of an existing directory\<close>

text \<open>The entry \<^verbatim>\<open>..\<close> of a block, by its index; the last name is measured with \<^verbatim>\<open>strnlen\<close>.\<close>

function find_dotdot :: "bytes \<Rightarrow> u32 \<Rightarrow> u32 \<Rightarrow> nat \<Rightarrow> (nat option) result" where
  "find_dotdot buf nameoff count i =
     (if 12 * i < unat nameoff
      then bindR (de_nameoff_at buf i) (\<lambda>de_nameoff.
             bindR (if unat nameoff \<le> 12 * Suc i
                    then bindR (strnlen (drop (unat de_nameoff) buf) (unat (count - de_nameoff))) (\<lambda>k. Inr (k = 2))
                    else bindR (de_nameoff_at buf (Suc i)) (\<lambda>o1. Inr (o1 = de_nameoff + 2))) (\<lambda>two.
               if two
               then bindR (slice buf (unat de_nameoff) 2) (\<lambda>s.
                      if s = [dot, dot] then Inr (Some i) else find_dotdot buf nameoff count (Suc i))
               else find_dotdot buf nameoff count (Suc i)))
      else Inr None)"
  by pat_completeness auto
termination
  by (relation "measure (\<lambda>(buf, nameoff, count, i). unat nameoff - i)") auto

declare find_dotdot.simps [simp del]

fun fix_pnid_loop ::
    "nat \<Rightarrow> nat \<Rightarrow> decompress_lib \<Rightarrow> erofs_sb_info \<Rightarrow> erofs_inode \<Rightarrow> u64 \<Rightarrow> bytes \<Rightarrow> u64 \<Rightarrow> erofs_sb_info result" where
  "fix_pnid_loop 0 n lib sbi dir pnid buf off = Inl OutOfFuel"
| "fix_pnid_loop (Suc k) n lib sbi dir pnid buf off =
     (if \<not> off < i_size dir then Err EFSCORRUPTED
      else let bsz = ucast (erofs_blksiz sbi); count = min bsz (i_size dir - off) in
        bindR (erofs_pread n lib sbi dir (replicate (unat count) 0) off) (\<lambda>(dir, d).
          let buf = fsplice buf 0 d in
          bindR (de_nameoff_at buf 0) (\<lambda>nameoff.
            if nameoff < 12 \<or> ucast count \<le> nameoff then Err EFSCORRUPTED
            else bindR (find_dotdot buf nameoff (ucast count) 0) (\<lambda>r.
              case r of
                None \<Rightarrow> fix_pnid_loop k n lib sbi dir pnid buf (off + bsz)
              | Some i \<Rightarrow>
                  bindR (de_nid_at buf i) (\<lambda>old.
                    if old = pnid then Inr sbi
                    else bindR (memput buf (12 * i) (cpu_to_le64 pnid)) (\<lambda>buf.
                      bindR (slice buf 0 (unat count)) (\<lambda>b.
                        erofs_dev_write sbi b
                          (if i_size dir < off + bsz \<and> datalayout dir = EROFS_INODE_FLAT_INLINE
                           then erofs_iloc sbi dir + ucast (inode_isize dir) + ucast (xattr_isize dir)
                           else erofs_pos sbi (i_u dir) + off))))))))"

definition erofs_rebuild_inode_fix_pnid ::
    "nat \<Rightarrow> decompress_lib \<Rightarrow> erofs_sb_info \<Rightarrow> u64 \<Rightarrow> u64 \<Rightarrow> erofs_sb_info result" where
  "erofs_rebuild_inode_fix_pnid n lib sbi pnid nd =
     bindR (erofs_read_inode_from_disk sbi (zero_inode nd)) (\<lambda>dir.
       if \<not> S_ISDIR (i_mode dir) then Err ENOTDIR
       else if datalayout dir \<noteq> EROFS_INODE_FLAT_INLINE \<and> datalayout dir \<noteq> EROFS_INODE_FLAT_PLAIN
       then Err EOPNOTSUPP
       else fix_pnid_loop n n lib sbi dir pnid [] 0)"

section \<open>Writing a directory\<close>

text \<open>
  The loop keeps the entries since the last full block, \<^verbatim>\<open>q\<close> and \<^verbatim>\<open>used\<close> of the source, and the number of
  blocks written.  \<^verbatim>\<open>junk\<close> is what the uninitialised block buffer of \<^verbatim>\<open>write_dirblock\<close> holds.
\<close>

fun write_dir_loop ::
    "(erofs_sb_info \<Rightarrow> u64 \<Rightarrow> erofs_sb_info result) \<Rightarrow> bytes \<Rightarrow> u32 \<Rightarrow> erofs_sb_info \<Rightarrow>
     erofs_dentry list \<Rightarrow> nat \<Rightarrow> nat \<Rightarrow> nat \<Rightarrow> erofs_dentry list \<Rightarrow>
     (erofs_sb_info \<times> erofs_dentry list \<times> nat \<times> nat \<times> nat) result" where
  "write_dir_loop fix_pnid junk blkaddr sbi cur q used blkno [] = Inr (sbi, cur, q, used, blkno)"
| "write_dir_loop fix_pnid junk blkaddr sbi cur q used blkno (d # ds) =
     (let len = length (d_name d) + 12 in
      bindR (if d_validnid d \<and> d_type d = EROFS_FT_DIR then fix_pnid sbi (d_nid d) else Inr sbi) (\<lambda>sbi.
        if unat (erofs_blksiz sbi) < used + len
        then bindR (write_dirblock sbi junk q cur (blkaddr + of_nat blkno)) (\<lambda>sbi.
               write_dir_loop fix_pnid junk blkaddr sbi [d] 12 len (Suc blkno) ds)
        else write_dir_loop fix_pnid junk blkaddr sbi (cur @ [d]) (q + 12) (used + len) blkno ds))"

text \<open>The result is the image and the tail kept in \<^verbatim>\<open>dir->idata\<close>, if any.\<close>

definition erofs_write_dir_file ::
    "(erofs_sb_info \<Rightarrow> u64 \<Rightarrow> erofs_sb_info result) \<Rightarrow> bytes \<Rightarrow> u32 \<Rightarrow> erofs_sb_info \<Rightarrow> erofs_inode \<Rightarrow>
     erofs_dentry list \<Rightarrow> (erofs_sb_info \<times> bytes option) result" where
  "erofs_write_dir_file fix_pnid junk blkaddr sbi dir subdirs =
     bindR (write_dir_loop fix_pnid junk blkaddr sbi [] 0 0 0 subdirs) (\<lambda>(sbi, cur, q, used, blkno).
       if used = unat (erofs_blksiz sbi)
       then bindR (write_dirblock sbi junk q cur (blkaddr + of_nat blkno)) (\<lambda>sbi. Inr (sbi, None))
       else if used \<noteq> 0
       then bindR (fill_dirblock (replicate used 0) (unat (idata_size dir)) q cur) (\<lambda>idata. Inr (sbi, Some idata))
       else Inr (sbi, None))"

section \<open>What a block holds\<close>

primrec dirents_of :: "nat \<Rightarrow> erofs_dentry list \<Rightarrow> bytes" where
  "dirents_of q [] = []"
| "dirents_of q (d # ds) = enc_dirent (dirent_of d q) @ dirents_of (q + length (d_name d)) ds"

definition names_of :: "erofs_dentry list \<Rightarrow> bytes" where
  "names_of ds = concat (map d_name ds)"

definition dirblock_used :: "erofs_dentry list \<Rightarrow> nat" where
  "dirblock_used ds = 12 * length ds + length (names_of ds)"

definition dirblock_image :: "nat \<Rightarrow> erofs_dentry list \<Rightarrow> bytes" where
  "dirblock_image sz ds =
     dirents_of (12 * length ds) ds @ names_of ds @ replicate (sz - dirblock_used ds) 0"

lemma names_of_simps [simp]:
  "names_of [] = []" "names_of (d # ds) = d_name d @ names_of ds" "names_of (as @ bs) = names_of as @ names_of bs"
  by (simp_all add: names_of_def)

lemma length_enc_dirent [simp]: "length (enc_dirent d) = 12"
  by (simp add: enc_dirent_def)

lemma length_dirents_of [simp]: "length (dirents_of q ds) = 12 * length ds"
  by (induction ds arbitrary: q) simp_all

lemma length_dirblock_image: "dirblock_used ds \<le> sz \<Longrightarrow> length (dirblock_image sz ds) = sz"
  by (simp add: dirblock_image_def dirblock_used_def)

lemma memput_here:
  "off = length pre \<Longrightarrow> length old = length new \<Longrightarrow> memput (pre @ old @ post) off new = Inr (pre @ new @ post)"
  by (simp add: memput_def)

lemma fill_loop_spec:
  "length gap = 12 * length ds \<Longrightarrow> length old = length (names_of ds) \<Longrightarrow> q = length (pre @ gap @ mid) \<Longrightarrow>
     fill_loop (pre @ gap @ mid @ old @ post) (length pre) q ds =
       Inr (pre @ dirents_of q ds @ mid @ names_of ds @ post, q + length (names_of ds))"
proof (induction ds arbitrary: pre gap mid old q)
  case Nil
  then show ?case by simp
next
  case (Cons d ds)
  define g1 g2 where g: "g1 = take 12 gap" "g2 = drop 12 gap"
  define o1 o2 where o: "o1 = take (length (d_name d)) old" "o2 = drop (length (d_name d)) old"
  have lens: "length g1 = 12" "length g2 = 12 * length ds" "length o1 = length (d_name d)"
      "length o2 = length (names_of ds)" "gap = g1 @ g2" "old = o1 @ o2"
    using Cons.prems by (simp_all add: g o)
  let ?e = "enc_dirent (dirent_of d q)"
  have "memput (pre @ gap @ mid @ old @ post) (length pre) ?e = Inr (pre @ ?e @ g2 @ mid @ old @ post)"
    using memput_here [of "length pre" pre g1 ?e "g2 @ mid @ old @ post"] lens by simp
  moreover have "memput (pre @ ?e @ g2 @ mid @ old @ post) q (d_name d) =
      Inr (pre @ ?e @ g2 @ mid @ d_name d @ o2 @ post)"
    using memput_here [of q "pre @ ?e @ g2 @ mid" o1 "d_name d" "o2 @ post"] lens Cons.prems(3) by simp
  moreover have "fill_loop ((pre @ ?e) @ g2 @ (mid @ d_name d) @ o2 @ post) (length (pre @ ?e)) (q + length (d_name d)) ds =
      Inr ((pre @ ?e) @ dirents_of (q + length (d_name d)) ds @ (mid @ d_name d) @ names_of ds @ post,
           q + length (d_name d) + length (names_of ds))"
    by (rule Cons.IH) (use lens Cons.prems(3) in auto)
  ultimately show ?case by (simp add: add.assoc)
qed

text \<open>Whatever the buffer held, the block is the entries, the names and zeroes up to its size.\<close>

lemma fill_dirblock_image:
  assumes "dirblock_used ds \<le> sz" and "sz \<le> length buf"
  shows "fill_dirblock buf sz (12 * length ds) ds = Inr (dirblock_image sz ds @ drop sz buf)"
proof -
  let ?n = "12 * length ds" and ?u = "dirblock_used ds"
  have u: "?u = ?n + length (names_of ds)" by (simp add: dirblock_used_def)
  define gap old where go: "gap = take ?n buf" "old = take (length (names_of ds)) (drop ?n buf)"
  have l: "length gap = ?n" "length old = length (names_of ds)" "buf = [] @ gap @ [] @ old @ drop ?u buf"
    using assms u by (simp_all add: go u append_take_drop_id flip: drop_drop)
     (metis add.commute append_take_drop_id drop_drop u)
  have "fill_loop buf 0 ?n ds = Inr (dirents_of ?n ds @ names_of ds @ drop ?u buf, ?u)"
    using fill_loop_spec [OF l(1,2), of ?n "[]" "[]" "drop ?u buf"] l by (simp add: u)
  moreover have "drop ?u buf = take (sz - ?u) (drop ?u buf) @ drop sz buf"
    using assms by (metis append_take_drop_id drop_drop le_add_diff_inverse2)
  then have "memput (dirents_of ?n ds @ names_of ds @ drop ?u buf) ?u (replicate (sz - ?u) 0) =
      Inr ((dirents_of ?n ds @ names_of ds) @ replicate (sz - ?u) 0 @ drop sz buf)"
    using memput_here [of ?u "dirents_of ?n ds @ names_of ds" "take (sz - ?u) (drop ?u buf)" "replicate (sz - ?u) 0" "drop sz buf"]
      assms by (simp add: u)
  ultimately show ?thesis using assms(1) by (simp add: fill_dirblock_def dirblock_image_def)
qed

section \<open>Reading a block back\<close>

definition dentry_ok :: "erofs_dentry \<Rightarrow> bool" where
  "dentry_ok d \<longleftrightarrow> d_name d \<noteq> [] \<and> length (d_name d) \<le> EROFS_NAME_LEN \<and> 0 \<notin> set (d_name d)"

definition block_ok :: "nat \<Rightarrow> erofs_dentry list \<Rightarrow> bool" where
  "block_ok sz ds \<longleftrightarrow> list_all dentry_ok ds \<and> ds \<noteq> [] \<and> dirblock_used ds \<le> sz \<and> sz < 2 ^ 16"

definition name_pos :: "erofs_dentry list \<Rightarrow> nat \<Rightarrow> nat" where
  "name_pos ds i = 12 * length ds + length (names_of (take i ds))"

lemma dirents_of_split:
  "i < length ds \<Longrightarrow>
     dirents_of q ds = dirents_of q (take i ds) @ enc_dirent (dirent_of (ds ! i) (q + length (names_of (take i ds)))) @
       dirents_of (q + length (names_of (take (Suc i) ds))) (drop (Suc i) ds)"
proof (induction ds arbitrary: q i)
  case Nil
  then show ?case by simp
next
  case (Cons d ds)
  then show ?case by (cases i) (simp_all add: add.assoc)
qed

lemma slice_mid: "off = length pre \<Longrightarrow> n = length s \<Longrightarrow> slice (pre @ s @ post) off n = Inr s"
  by (simp add: slice_def)

lemma name_pos_bounds:
  assumes "i < length ds"
  shows "name_pos ds i + length (d_name (ds ! i)) \<le> dirblock_used ds"
    and "name_pos ds (Suc i) = name_pos ds i + length (d_name (ds ! i))"
proof -
  show s: "name_pos ds (Suc i) = name_pos ds i + length (d_name (ds ! i))"
    using assms by (simp add: name_pos_def take_Suc_conv_app_nth)
  have "names_of ds = names_of (take (Suc i) ds) @ names_of (drop (Suc i) ds)"
    by (metis append_take_drop_id names_of_simps(3))
  then show "name_pos ds i + length (d_name (ds ! i)) \<le> dirblock_used ds"
    by (simp add: s [symmetric] name_pos_def [of ds "Suc i"] dirblock_used_def)
qed

lemma entry_reads:
  assumes ok: "block_ok sz ds" and i: "i < length ds"
  shows "de_nameoff_at (dirblock_image sz ds @ rest) i = Inr (of_nat (name_pos ds i))"
    and "de_nid_at (dirblock_image sz ds @ rest) i = Inr (d_nid (ds ! i))"
    and "de_ftype_at (dirblock_image sz ds @ rest) i = Inr (d_type (ds ! i))"
proof -
  let ?q = "12 * length ds" and ?d = "dirent_of (ds ! i) (name_pos ds i)"
  let ?pre = "dirents_of ?q (take i ds)"
  obtain post where blk: "dirblock_image sz ds @ rest = ?pre @ enc_dirent ?d @ post"
    using dirents_of_split [OF i, of ?q] by (auto simp: dirblock_image_def name_pos_def)
  have l: "length ?pre = 12 * i" using i by simp
  have np: "name_pos ds i < 2 ^ 16"
    using name_pos_bounds(1) [OF i] ok by (simp add: block_ok_def)
  note e = enc_dirent_def dirent_of_def
  have "slice (dirblock_image sz ds @ rest) (12 * i + 8) 2 = Inr (cpu_to_le16 (of_nat (name_pos ds i)))"
    using slice_mid [of "12 * i + 8" "?pre @ cpu_to_le64 (d_nid (ds ! i))" 2 "cpu_to_le16 (of_nat (name_pos ds i))"
      "le_put 1 (d_type (ds ! i)) @ le_put 1 (0::u8) @ post"] l by (simp add: blk e del: slice_eq_Inr)
  moreover have "(ucast (of_nat (name_pos ds i) :: u16) :: u32) = of_nat (name_pos ds i)"
    using np by (simp add: word_unat_eq_iff unat_ucast_up unat_of_nat)
  ultimately show "de_nameoff_at (dirblock_image sz ds @ rest) i = Inr (of_nat (name_pos ds i))"
    by (simp add: de_nameoff_at_def del: slice_eq_Inr)
  have "slice (dirblock_image sz ds @ rest) (12 * i) 8 = Inr (cpu_to_le64 (d_nid (ds ! i)))"
    using slice_mid [of "12 * i" ?pre 8 "cpu_to_le64 (d_nid (ds ! i))"
      "cpu_to_le16 (of_nat (name_pos ds i)) @ le_put 1 (d_type (ds ! i)) @ le_put 1 (0::u8) @ post"] l
    by (simp add: blk e del: slice_eq_Inr)
  then show "de_nid_at (dirblock_image sz ds @ rest) i = Inr (d_nid (ds ! i))"
    by (simp add: de_nid_at_def del: slice_eq_Inr)
  have "slice (dirblock_image sz ds @ rest) (12 * i + 10) 1 = Inr (le_put 1 (d_type (ds ! i)))"
    using slice_mid [of "12 * i + 10" "?pre @ cpu_to_le64 (d_nid (ds ! i)) @ cpu_to_le16 (of_nat (name_pos ds i))" 1
      "le_put 1 (d_type (ds ! i))" "le_put 1 (0::u8) @ post"] l by (simp add: blk e del: slice_eq_Inr)
  then show "de_ftype_at (dirblock_image sz ds @ rest) i = Inr (d_type (ds ! i))"
    by (simp add: de_ftype_at_def del: slice_eq_Inr)
qed

lemma image_name_split:
  assumes "i < length ds"
  shows "\<exists>pre. length pre = name_pos ds i \<and> dirblock_image sz ds =
    pre @ d_name (ds ! i) @ names_of (drop (Suc i) ds) @ replicate (sz - dirblock_used ds) 0"
proof -
  have "names_of ds = names_of (take i ds) @ d_name (ds ! i) @ names_of (drop (Suc i) ds)"
    using assms by (metis id_take_nth_drop names_of_simps(2,3))
  then show ?thesis
    by (intro exI [of _ "dirents_of (12 * length ds) ds @ names_of (take i ds)"])
      (simp add: dirblock_image_def name_pos_def)
qed

lemma strnlen_zeros:
  assumes "0 \<notin> set xs" and "length xs \<le> n" and "n \<le> length xs + k"
  shows "strnlen (xs @ replicate k 0 @ rest) n = Inr (length xs)"
proof (cases "length xs = n")
  case True
  then show ?thesis using strnlen_no_zero [of n "xs @ replicate k 0 @ rest"] assms by simp
next
  case False
  then have "k = Suc (k - 1)" using assms(2,3) by simp
  then show ?thesis
    using strnlen_append_zero [OF assms(1), of n "replicate (k - 1) 0 @ rest"] assms(2) False
    by (metis append_Cons le_neq_implies_less replicate_Suc)
qed

lemma entry_name:
  assumes ok: "block_ok sz ds" and i: "i < length ds"
  shows "de_namelen_at (dirblock_image sz ds @ rest) (of_nat (12 * length ds)) (of_nat sz) i (of_nat (name_pos ds i)) =
      Inr (of_nat (length (d_name (ds ! i))))"
    and "slice (dirblock_image sz ds @ rest) (name_pos ds i) (length (d_name (ds ! i))) = Inr (d_name (ds ! i))"
proof -
  let ?blk = "dirblock_image sz ds @ rest" and ?nm = "d_name (ds ! i)"
  obtain pre where pre: "length pre = name_pos ds i"
      "?blk = pre @ ?nm @ names_of (drop (Suc i) ds) @ replicate (sz - dirblock_used ds) 0 @ rest"
    using image_name_split [OF i, of sz] by auto
  show "slice ?blk (name_pos ds i) (length ?nm) = Inr ?nm"
    using pre slice_mid [of "name_pos ds i" pre "length ?nm" ?nm] by (simp del: slice_eq_Inr)
  have b: "dirblock_used ds \<le> sz" "sz < 2 ^ 16" using ok by (simp_all add: block_ok_def)
  note np = name_pos_bounds [OF i]
  have te: "unat (of_nat (12 * length ds) :: u32) = 12 * length ds"
    using b by (simp add: unat_of_nat dirblock_used_def del: of_nat_mult)
  show "de_namelen_at ?blk (of_nat (12 * length ds)) (of_nat sz) i (of_nat (name_pos ds i)) = Inr (of_nat (length ?nm))"
  proof (cases "Suc i < length ds")
    case True
    have "(of_nat (name_pos ds (Suc i)) :: u32) - of_nat (name_pos ds i) = of_nat (length ?nm)"
      by (simp add: np(2))
    then show ?thesis
      using True te entry_reads(1) [OF ok True, of rest] by (simp add: de_namelen_at_def del: of_nat_mult)
  next
    case False
    then have last: "Suc i = length ds" using i by simp
    have nz: "0 \<notin> set ?nm" using ok i by (auto simp: block_ok_def dentry_ok_def list_all_length)
    have "name_pos ds (length ds) = dirblock_used ds" by (simp add: name_pos_def dirblock_used_def)
    then have u: "dirblock_used ds = name_pos ds i + length ?nm" using np(2) last by simp
    have "unat (of_nat sz - of_nat (name_pos ds i) :: u32) = sz - name_pos ds i"
      using b u by (simp add: unat_sub word_le_nat_alt unat_of_nat)
    moreover have "unat (of_nat (name_pos ds i) :: u32) = name_pos ds i"
      using b u by (simp add: unat_of_nat)
    moreover have "strnlen (?nm @ replicate (sz - dirblock_used ds) 0 @ rest) (sz - name_pos ds i) = Inr (length ?nm)"
      by (rule strnlen_zeros [OF nz]) (use b u in auto)
    ultimately show ?thesis
      using last te pre by (simp add: de_namelen_at_def del: of_nat_mult)
  qed
qed


text \<open>The entry a lookup has to find.\<close>

primrec name_index :: "bytes \<Rightarrow> nat \<Rightarrow> erofs_dentry list \<Rightarrow> nat option" where
  "name_index name i [] = None"
| "name_index name i (d # ds) = (if d_name d = name then Some i else name_index name (Suc i) ds)"

lemma entry_word_bounds:
  assumes ok: "block_ok sz ds" and i: "i < length ds"
  shows "\<not> (of_nat sz :: u32) < of_nat (name_pos ds i) + of_nat (length (d_name (ds ! i)))"
    and "\<not> (of_nat EROFS_NAME_LEN :: u32) < of_nat (length (d_name (ds ! i)))"
    and "(of_nat (length (d_name (ds ! i))) :: u32) \<noteq> 0"
    and "unat (of_nat (name_pos ds i) :: u32) = name_pos ds i"
    and "unat (of_nat (length (d_name (ds ! i))) :: u32) = length (d_name (ds ! i))"
    and "unat (of_nat (12 * length ds) :: u32) = 12 * length ds"
proof -
  let ?l = "length (d_name (ds ! i))"
  have b: "dirblock_used ds \<le> sz" "sz < 2 ^ 16" "?l \<noteq> 0" "?l \<le> EROFS_NAME_LEN"
    using ok i by (auto simp: block_ok_def dentry_ok_def list_all_length)
  note np = name_pos_bounds(1) [OF i]
  show l: "unat (of_nat ?l :: u32) = ?l" and n: "unat (of_nat (name_pos ds i) :: u32) = name_pos ds i"
    using b np by (simp_all add: unat_of_nat)
  show "unat (of_nat (12 * length ds) :: u32) = 12 * length ds"
    using b by (simp add: unat_of_nat dirblock_used_def del: of_nat_mult)
  have s: "unat (of_nat (name_pos ds i) + of_nat ?l :: u32) = name_pos ds i + ?l"
    using b np by (simp add: unat_word_ariths l n)
  show "\<not> (of_nat sz :: u32) < of_nat (name_pos ds i) + of_nat ?l"
    using b np by (simp add: word_less_nat_alt s unat_of_nat)
  show "\<not> (of_nat EROFS_NAME_LEN :: u32) < of_nat ?l"
    using b(4) by (simp add: word_less_nat_alt l unat_of_nat)
  show "(of_nat ?l :: u32) \<noteq> 0" using l b(3) by (metis unat_0)
qed

lemma name_length_word:
  assumes "length name \<le> EROFS_NAME_LEN" and "unat (of_nat k :: u32) = k"
  shows "(of_nat (length name) :: u32) = of_nat k \<longleftrightarrow> length name = k"
  using assms by (simp add: word_unat_eq_iff unat_of_nat)

lemma find_target_dirent_spec:
  assumes ok: "block_ok sz ds" and name: "length name \<le> EROFS_NAME_LEN"
  shows "find_target_dirent (dirblock_image sz ds @ rest) name (of_nat (12 * length ds)) (of_nat sz) i =
    Inr (name_index name i (drop i ds))"
proof (induction "length ds - i" arbitrary: i)
  case 0
  have "ds \<noteq> []" using ok by (simp add: block_ok_def)
  then have "unat (of_nat (12 * length ds) :: u32) = 12 * length ds"
    using entry_word_bounds(6) [OF ok, of 0] by simp
  then show ?case using 0 by (simp add: find_target_dirent.simps [of _ _ _ _ i] del: of_nat_mult)
next
  case (Suc k)
  then have i: "i < length ds" by simp
  have IH: "find_target_dirent (dirblock_image sz ds @ rest) name (of_nat (12 * length ds)) (of_nat sz) (Suc i) =
      Inr (name_index name (Suc i) (drop (Suc i) ds))"
    using Suc by (metis Suc_diff_Suc diff_Suc_Suc i old.nat.inject)
  have d: "drop i ds = ds ! i # drop (Suc i) ds" using i by (simp add: Cons_nth_drop_Suc)
  show ?case
    using i entry_word_bounds [OF ok i] entry_reads(1) [OF ok i, of rest] entry_name [OF ok i, of rest] IH
      name_length_word [OF name entry_word_bounds(5) [OF ok i]]
    by (subst find_target_dirent.simps) (auto simp: d simp del: of_nat_mult slice_eq_Inr)
qed

lemma name_index_Some:
  "name_index name i ds = Some j \<Longrightarrow> i \<le> j \<and> j < i + length ds \<and> d_name (ds ! (j - i)) = name"
  by (induction ds arbitrary: i) (fastforce split: if_splits simp: nth_Cons' Suc_le_eq)+

lemma name_index_None: "name_index name i ds = None \<longleftrightarrow> name \<notin> d_name ` set ds"
  by (induction ds arbitrary: i) (auto split: if_splits)

section \<open>The order check\<close>

lemma strncmp_take:
  "strncmp n as bs = strncmp n (take n as) (take n bs)"
  by (induction n as bs rule: strncmp.induct) auto

lemma less_strncmp:
  fixes as bs :: bytes
  assumes "as < bs" and "0 \<notin> set as"
  shows "strncmp (min (length as) (length bs)) as bs < 0 \<or>
         (strncmp (min (length as) (length bs)) as bs = 0 \<and> length as < length bs)"
  using assms
proof (induction as arbitrary: bs)
  case Nil
  then show ?case by (cases bs) auto
next
  case (Cons a as)
  then obtain b bs' where bs: "bs = b # bs'" by (cases bs) auto
  show ?case using Cons.prems Cons.IH [of bs'] by (auto simp: bs)
qed

lemma name_order_sorted:
  "a < b \<Longrightarrow> 0 \<notin> set a \<Longrightarrow> name_order_ok (Some a) b"
  using less_strncmp [of a b] by (auto simp: name_order_ok_def Let_def)

section \<open>Iterating over a block\<close>

text \<open>What iteration over the entries has to do: check the special entries and call back for each.\<close>

definition info_of :: "erofs_dentry \<Rightarrow> dirent_info" where
  "info_of d = \<lparr>dname = d_name d, di_nid = d_nid d, di_ftype = d_type d,
                dot_dotdot = is_dot_dotdot_len (d_name d)\<rparr>"

primrec visit ::
    "'s dir_cb \<Rightarrow> erofs_sb_info \<Rightarrow> bool \<Rightarrow> erofs_dentry list \<Rightarrow> erofs_dir_context \<Rightarrow> 's \<Rightarrow>
     dir_ret \<times> erofs_dir_context \<times> 's" where
  "visit cb sbi fsck [] ctx s = (RetOk, ctx, s)"
| "visit cb sbi fsck (d # ds) ctx s =
     (case check_special sbi fsck ctx (d_nid d) (d_name d) of
        None \<Rightarrow> (RetErr (Errno EFSCORRUPTED), ctx, s)
      | Some ctx \<Rightarrow>
          (case cb (info_of d) s of
             (RetOk, s) \<Rightarrow> visit cb sbi fsck ds ctx s
           | (r, s) \<Rightarrow> (r, ctx, s)))"

definition prev_name :: "erofs_dentry list \<Rightarrow> nat \<Rightarrow> bytes option" where
  "prev_name ds i = (if i = 0 then None else Some (d_name (ds ! (i - 1))))"

lemma sorted_prev_ok:
  assumes "block_ok sz ds" "sorted_wrt (<) (map d_name ds)" "i < length ds"
  shows "name_order_ok (prev_name ds i) (d_name (ds ! i))"
proof (cases i)
  case 0
  then show ?thesis by (simp add: prev_name_def name_order_ok_def)
next
  case (Suc k)
  have "d_name (ds ! k) < d_name (ds ! i)"
    using assms(2,3) Suc sorted_wrt_nth_less [of "(<)" "map d_name ds" k i] by simp
  moreover have "0 \<notin> set (d_name (ds ! k))"
    using assms(1,3) Suc by (auto simp: block_ok_def dentry_ok_def list_all_length)
  ultimately show ?thesis using name_order_sorted by (simp add: Suc prev_name_def)
qed

lemma dirent_checked_spec:
  assumes ok: "block_ok sz ds" and so: "sorted_wrt (<) (map d_name ds)" and ft: "list_all (\<lambda>d. d_type d < EROFS_FT_MAX) ds"
    and i: "i < length ds"
  shows "dirent_checked sbi fsck ctx (dirblock_image sz ds @ rest) (of_nat (12 * length ds)) (of_nat sz)
      (of_nat (name_pos ds i)) (prev_name ds i) i =
    (case check_special sbi fsck ctx (d_nid (ds ! i)) (d_name (ds ! i)) of
       None \<Rightarrow> Err EFSCORRUPTED | Some ctx \<Rightarrow> Inr (info_of (ds ! i), ctx))"
proof -
  have "d_type (ds ! i) < EROFS_FT_MAX" using ft i by (simp add: list_all_length)
  then show ?thesis
    using entry_word_bounds [OF ok i] entry_reads [OF ok i, of rest] entry_name [OF ok i, of rest]
      sorted_prev_ok [OF ok so i]
    by (simp add: dirent_checked_def info_of_def not_le [symmetric] del: of_nat_mult slice_eq_Inr split: option.split)
qed

lemma traverse_dirents_spec:
  assumes ok: "block_ok sz ds" and so: "sorted_wrt (<) (map d_name ds)" and ft: "list_all (\<lambda>d. d_type d < EROFS_FT_MAX) ds"
  shows "i \<le> length ds \<Longrightarrow>
    traverse_dirents cb sbi fsck (dirblock_image sz ds @ rest) (of_nat (12 * length ds)) (of_nat sz)
      (of_nat (name_pos ds i)) (prev_name ds i) i ctx s = visit cb sbi fsck (drop i ds) ctx s"
proof (induction "length ds - i" arbitrary: i ctx s)
  case 0
  have "ds \<noteq> []" using ok by (simp add: block_ok_def)
  then have "unat (of_nat (12 * length ds) :: u32) = 12 * length ds"
    using entry_word_bounds(6) [OF ok, of 0] by simp
  then show ?case using 0 by (simp add: traverse_dirents.simps [of _ _ _ _ _ _ _ _ i] del: of_nat_mult)
next
  case (Suc k)
  then have i: "i < length ds" by simp
  have IH: "traverse_dirents cb sbi fsck (dirblock_image sz ds @ rest) (of_nat (12 * length ds)) (of_nat sz)
      (of_nat (name_pos ds i) + of_nat (length (d_name (ds ! i)))) (Some (d_name (ds ! i))) (Suc i) ctx s =
      visit cb sbi fsck (drop (Suc i) ds) ctx s" for ctx s
    using Suc.hyps(1) [of "Suc i" ctx s] Suc.hyps(2) i name_pos_bounds(2) [OF i]
    by (simp add: prev_name_def)
  have d: "drop i ds = ds ! i # drop (Suc i) ds" using i by (simp add: Cons_nth_drop_Suc)
  show ?case
    using i entry_word_bounds(6) [OF ok i] dirent_checked_spec [OF ok so ft i, of sbi fsck ctx rest]
    by (subst traverse_dirents.simps)
      (simp add: d IH info_of_def del: of_nat_mult split: option.split dir_ret.split prod.split)
qed

section \<open>Directories of several blocks\<close>

text \<open>How the entries are distributed over blocks, and the contents of the whole directory: blocks of
  full size, the last one only as long as what it holds.\<close>

fun dir_groups :: "nat \<Rightarrow> erofs_dentry list \<Rightarrow> erofs_dentry list \<Rightarrow> erofs_dentry list list" where
  "dir_groups B cur [] = (if cur = [] then [] else [cur])"
| "dir_groups B cur (d # ds) =
     (if B < dirblock_used (cur @ [d]) then cur # dir_groups B [d] ds else dir_groups B (cur @ [d]) ds)"

fun dir_contents :: "nat \<Rightarrow> erofs_dentry list list \<Rightarrow> bytes" where
  "dir_contents B [] = []"
| "dir_contents B [g] = dirblock_image (dirblock_used g) g"
| "dir_contents B (g # gs) = dirblock_image B g @ dir_contents B gs"

lemma dir_contents_Cons: "gs \<noteq> [] \<Longrightarrow> dir_contents B (g # gs) = dirblock_image B g @ dir_contents B gs"
  by (cases gs) simp_all

lemma dir_groups_nonempty [simp]: "dir_groups B cur ds = [] \<longleftrightarrow> cur = [] \<and> ds = []"
proof (induction ds arbitrary: cur)
  case Nil
  then show ?case by simp
next
  case (Cons d ds)
  then show ?case by simp
qed

lemma dir_groups_concat: "concat (dir_groups B cur ds) = cur @ ds"
  by (induction ds arbitrary: cur) auto

lemma dirblock_used_simps [simp]:
  "dirblock_used [] = 0" "dirblock_used (as @ [d]) = dirblock_used as + (length (d_name d) + 12)"
  "dirblock_used [d] = length (d_name d) + 12"
  by (simp_all add: dirblock_used_def)

lemma dirblock_used_pos: "g \<noteq> [] \<Longrightarrow> 12 \<le> dirblock_used g"
  by (cases g) (simp_all add: dirblock_used_def)

lemma dentry_fits: "dentry_ok d \<Longrightarrow> 512 \<le> B \<Longrightarrow> length (d_name d) + 12 \<le> B"
  by (simp add: dentry_ok_def)

lemma dir_groups_ok:
  assumes "list_all dentry_ok cur" "list_all dentry_ok ds" "dirblock_used cur \<le> B" "512 \<le> B" "B < 2 ^ 16"
  shows "list_all (block_ok B) (dir_groups B cur ds)"
  using assms
proof (induction ds arbitrary: cur)
  case Nil
  then show ?case by (simp add: block_ok_def)
next
  case (Cons d ds)
  have d: "length (d_name d) + 12 \<le> B" using Cons.prems by (intro dentry_fits) simp_all
  show ?case
  proof (cases "B < dirblock_used (cur @ [d])")
    case True
    then have "cur \<noteq> []" using d by auto
    then show ?thesis using True Cons.IH [of "[d]"] Cons.prems d by (simp add: block_ok_def)
  next
    case False
    then show ?thesis using Cons.IH [of "cur @ [d]"] Cons.prems by simp
  qed
qed

lemma block_ok_used: "block_ok B g \<Longrightarrow> block_ok (dirblock_used g) g"
  by (simp add: block_ok_def)

subsection \<open>The size\<close>

definition dir_len :: "nat \<Rightarrow> erofs_dentry list \<Rightarrow> erofs_dentry list \<Rightarrow> nat" where
  "dir_len B cur ds = length (dir_contents B (dir_groups B cur ds))"

lemma dir_len_Nil [simp]: "dir_len B cur [] = dirblock_used cur"
  by (simp add: dir_len_def length_dirblock_image)

lemma dir_len_Cons:
  "dirblock_used cur \<le> B \<Longrightarrow>
   dir_len B cur (d # ds) = (if B < dirblock_used (cur @ [d]) then B + dir_len B [d] ds else dir_len B (cur @ [d]) ds)"
  by (simp add: dir_len_def dir_contents_Cons length_dirblock_image)

lemma dir_len_ge:
  assumes "list_all dentry_ok ds" "dirblock_used cur \<le> B" "512 \<le> B"
  shows "dirblock_used cur \<le> dir_len B cur ds"
  using assms
proof (induction ds arbitrary: cur)
  case Nil
  then show ?case by simp
next
  case (Cons d ds)
  have "length (d_name d) + 12 \<le> B" using Cons.prems by (intro dentry_fits) simp_all
  then show ?case
    using Cons.IH [of "[d]"] Cons.IH [of "cur @ [d]"] Cons.prems by (auto simp: dir_len_Cons)
qed

lemma dir_size_step:
  fixes k u len :: nat
  assumes b: "blkbits sbi \<le> 12" and u: "u \<le> 2 ^ blkbits sbi" and len: "len \<le> 2 ^ blkbits sbi"
    and bound: "k * 2 ^ blkbits sbi + u + 2 ^ blkbits sbi < 2 ^ 32" and u0: "u = 0 \<Longrightarrow> k = 0"
  shows "(if erofs_blksiz sbi < erofs_blkoff sbi (of_nat (k * 2 ^ blkbits sbi + u)) + of_nat len
          then round_up (of_nat (k * 2 ^ blkbits sbi + u)) (erofs_blksiz sbi)
          else of_nat (k * 2 ^ blkbits sbi + u)) =
    (of_nat (if 2 ^ blkbits sbi < u + len then Suc k * 2 ^ blkbits sbi else k * 2 ^ blkbits sbi + u) :: u32)"
proof -
  let ?B = "2 ^ blkbits sbi :: nat" and ?x = "of_nat (k * 2 ^ blkbits sbi + u) :: u32"
  have B12: "?B \<le> 2 ^ 12" using b by (intro power_increasing) auto
  have B: "unat (erofs_blksiz sbi) = ?B" using b by (intro unat_erofs_blksiz) simp
  have x: "unat ?x = k * ?B + u" using bound by (simp add: unat_of_nat del: of_nat_add of_nat_mult)
  have bo: "unat (erofs_blkoff sbi ?x) = (if u = ?B then 0 else u)"
    using b u by (subst unat_erofs_blkoff) (simp_all add: x del: of_nat_add of_nat_mult)
  have lw: "unat (of_nat len :: u32) = len" using len B12 by (simp add: unat_of_nat)
  have sm: "unat (erofs_blkoff sbi ?x + of_nat len) = (if u = ?B then 0 else u) + len"
    using u len B12 by (simp add: unat_word_ariths bo lw del: of_nat_add of_nat_mult)
  have cnd: "erofs_blksiz sbi < erofs_blkoff sbi ?x + of_nat len \<longleftrightarrow> u \<noteq> ?B \<and> ?B < u + len"
    using len by (simp add: word_less_nat_alt B sm del: of_nat_add of_nat_mult)
  have blk: "erofs_blksiz sbi = 2 ^ blkbits sbi"
    by (simp add: erofs_blksiz_def push_bit_eq_mult)
  show ?thesis
  proof (cases "u \<noteq> ?B \<and> ?B < u + len")
    case True
    have "unat (round_up ?x (erofs_blksiz sbi)) = (unat ?x + ?B - 1) div ?B * ?B"
      unfolding blk by (rule unat_round_up) (use b bound x in \<open>simp_all del: of_nat_add of_nat_mult\<close>)
    also have "(unat ?x + ?B - 1) div ?B = Suc k"
    proof (rule div_nat_eqI)
      have "0 < u" using True len by linarith
      then show "?B * Suc k \<le> unat ?x + ?B - 1" unfolding x by (simp add: mult.commute)
      have "u < ?B" using True u by linarith
      moreover have "?B * Suc (Suc k) = k * ?B + ?B + ?B" by (simp add: algebra_simps)
      ultimately show "unat ?x + ?B - 1 < ?B * Suc (Suc k)" unfolding x by linarith
    qed
    finally have "unat (round_up ?x (erofs_blksiz sbi)) = Suc k * ?B" .
    moreover have "Suc k * ?B < 2 ^ 32" using bound by simp
    ultimately have "round_up ?x (erofs_blksiz sbi) = of_nat (Suc k * ?B)"
      by (simp add: word_unat_eq_iff unat_of_nat del: of_nat_add of_nat_mult of_nat_Suc mult_Suc)
    then show ?thesis using True cnd by (simp del: of_nat_add of_nat_mult of_nat_Suc)
  next
    case False
    then show ?thesis using cnd by (auto simp del: of_nat_add of_nat_mult of_nat_Suc simp: add.commute)
  qed
qed

lemma dir_size_len:
  assumes b: "valid_blkszbits sbi"
  shows "list_all dentry_ok ds \<Longrightarrow> dirblock_used cur \<le> 2 ^ blkbits sbi \<Longrightarrow> (cur = [] \<Longrightarrow> k = 0) \<Longrightarrow>
    k * 2 ^ blkbits sbi + dir_len (2 ^ blkbits sbi) cur ds + 2 ^ blkbits sbi < 2 ^ 32 \<Longrightarrow>
    dir_size sbi (of_nat (k * 2 ^ blkbits sbi + dirblock_used cur)) ds =
      of_nat (k * 2 ^ blkbits sbi + dir_len (2 ^ blkbits sbi) cur ds)"
proof (induction ds arbitrary: cur k)
  case Nil
  then show ?case by simp
next
  case (Cons d ds)
  let ?B = "2 ^ blkbits sbi :: nat" and ?u = "dirblock_used cur" and ?l = "length (d_name d) + 12"
  have B: "512 \<le> ?B" "blkbits sbi \<le> 12"
    using b power_increasing [of 9 "blkbits sbi" "2::nat"] by (simp_all add: valid_blkszbits_def)
  have l: "?l \<le> ?B" using Cons.prems(1) B by (intro dentry_fits) simp_all
  have ge: "?u \<le> dir_len ?B cur (d # ds)" using Cons.prems B by (intro dir_len_ge) simp_all
  have u0: "?u = 0 \<Longrightarrow> k = 0" using Cons.prems(3) dirblock_used_pos [of cur] by fastforce
  have bnd: "k * ?B + ?u + ?B < 2 ^ 32" using Cons.prems(4) ge by linarith
  have step: "dir_size sbi (of_nat (k * ?B + ?u)) (d # ds) =
      dir_size sbi (of_nat ((if ?B < ?u + ?l then Suc k * ?B else k * ?B + ?u) + ?l)) ds"
    by (simp only: dir_size.simps Let_def dir_size_step [OF B(2) Cons.prems(2) l bnd u0] of_nat_add [symmetric])
  show ?case
  proof (cases "?B < ?u + ?l")
    case True
    then have "dir_len ?B cur (d # ds) = ?B + dir_len ?B [d] ds" using Cons.prems(2) by (simp add: dir_len_Cons)
    then show ?thesis
      using step True Cons.IH [of "[d]" "Suc k"] Cons.prems l by (simp add: algebra_simps)
  next
    case False
    then have "dir_len ?B cur (d # ds) = dir_len ?B (cur @ [d]) ds" using Cons.prems(2) by (simp add: dir_len_Cons)
    then show ?thesis
      using step False Cons.IH [of "cur @ [d]" k] Cons.prems by (simp add: algebra_simps)
  qed
qed


subsection \<open>Writing the blocks\<close>

primrec dir_store :: "nat \<Rightarrow> bytes \<Rightarrow> nat \<Rightarrow> erofs_dentry list list \<Rightarrow> bytes" where
  "dir_store B f a [] = f"
| "dir_store B f a (g # gs) = dir_store B (fsplice f (a * B) (dirblock_image B g)) (Suc a) gs"

lemma write_dirblock_quiet:
  assumes q: "quiet (bdev sbi)" and b: "valid_blkszbits sbi" and g: "block_ok (2 ^ blkbits sbi) g"
    and junk: "2 ^ blkbits sbi \<le> length junk"
  shows "write_dirblock sbi junk (12 * length g) g a =
    Inr (sbi\<lparr>bdev := bdev sbi\<lparr>vf_bytes := dir_store (2 ^ blkbits sbi) (vf_bytes (bdev sbi)) (unat a) [g]\<rparr>\<rparr>)"
proof -
  let ?B = "2 ^ blkbits sbi :: nat"
  have b12: "blkbits sbi \<le> 12" using b by (simp add: valid_blkszbits_def)
  have B: "unat (erofs_blksiz sbi) = ?B" using b12 by (intro unat_erofs_blksiz) simp
  have u: "dirblock_used g \<le> ?B" using g by (simp add: block_ok_def)
  have l: "length (dirblock_image ?B g) = ?B" by (rule length_dirblock_image [OF u])
  have p1: "unat (erofs_pos sbi (1 :: u32)) = ?B" using b12 by (subst unat_erofs_pos32) simp_all
  have pa: "unat (erofs_pos sbi a) = unat a * ?B" using b12 by (intro unat_erofs_pos32) simp
  have "slice (dirblock_image ?B g @ drop ?B junk) 0 ?B = Inr (dirblock_image ?B g)"
    using l slice_mid [of 0 "[]" ?B "dirblock_image ?B g" "drop ?B junk"] by (simp del: slice_eq_Inr)
  moreover have "dirblock_image ?B g \<noteq> []" using l by auto
  ultimately show ?thesis
    using erofs_dev_write_quiet [OF q, of "dirblock_image ?B g" "erofs_pos sbi a"]
    by (simp add: write_dirblock_def B fill_dirblock_image [OF u junk] erofs_blk_write_def p1 pa del: slice_eq_Inr)
qed


lemma write_dir_loop_spec:
  fixes B :: nat and sbi :: erofs_sb_info
  defines "B \<equiv> 2 ^ blkbits sbi"
  assumes q: "quiet (bdev sbi)" and b: "valid_blkszbits sbi" and junk: "B \<le> length junk"
    and ok: "list_all dentry_ok cur" "list_all dentry_ok ds" "dirblock_used cur \<le> B" "list_all (\<lambda>d. \<not> d_validnid d) ds"
    and ne: "cur \<noteq> [] \<or> ds \<noteq> []" and a: "unat addr + k + length (dir_groups B cur ds) \<le> 2 ^ 32"
  shows "write_dir_loop fix_pnid junk addr sbi cur (12 * length cur) (dirblock_used cur) k ds =
    (let gs = dir_groups B cur ds in
     Inr (sbi\<lparr>bdev := bdev sbi\<lparr>vf_bytes := dir_store B (vf_bytes (bdev sbi)) (unat addr + k) (butlast gs)\<rparr>\<rparr>,
          last gs, 12 * length (last gs), dirblock_used (last gs), k + length (butlast gs)))"
  using q b ok ne a junk unfolding B_def
proof (induction ds arbitrary: sbi cur k)
  case Nil
  then show ?case by simp
next
  case (Cons d ds)
  let ?B = "2 ^ blkbits sbi :: nat"
  have B: "512 \<le> ?B" "?B < 2 ^ 16" "blkbits sbi \<le> 12"
    using Cons.prems(2) power_increasing [of 9 "blkbits sbi" "2::nat"]
      power_strict_increasing [of "blkbits sbi" 16 "2::nat"] by (simp_all add: valid_blkszbits_def)
  have Bu: "unat (erofs_blksiz sbi) = ?B" using B(3) by (intro unat_erofs_blksiz) simp
  have l: "length (d_name d) + 12 \<le> ?B" using Cons.prems(4) B(1) by (intro dentry_fits) simp_all
  show ?case
  proof (cases "?B < dirblock_used (cur @ [d])")
    case True
    have cur: "block_ok ?B cur" using True l Cons.prems(3,5) B(2) by (auto simp: block_ok_def)
    have gs: "dir_groups ?B [d] ds \<noteq> []" by simp
    have k: "unat addr + k < 2 ^ 32" using Cons.prems(8) True by simp
    then have ak: "unat (addr + of_nat k) = unat addr + k" by (simp add: unat_word_ariths unat_of_nat)
    let ?sbi = "sbi\<lparr>bdev := bdev sbi\<lparr>vf_bytes := dir_store ?B (vf_bytes (bdev sbi)) (unat addr + k) [cur]\<rparr>\<rparr>"
    have "write_dirblock sbi junk (12 * length cur) cur (addr + of_nat k) = Inr ?sbi"
      using write_dirblock_quiet [OF Cons.prems(1,2) cur Cons.prems(9), of "addr + of_nat k"] by (simp add: ak)
    moreover have "write_dir_loop fix_pnid junk addr ?sbi [d] (12 * length [d]) (dirblock_used [d]) (Suc k) ds =
      (let gs = dir_groups (2 ^ blkbits ?sbi) [d] ds in
       Inr (?sbi\<lparr>bdev := bdev ?sbi\<lparr>vf_bytes := dir_store (2 ^ blkbits ?sbi) (vf_bytes (bdev ?sbi)) (unat addr + Suc k) (butlast gs)\<rparr>\<rparr>,
          last gs, 12 * length (last gs), dirblock_used (last gs), Suc k + length (butlast gs)))"
      by (rule Cons.IH) (use Cons.prems True l in \<open>simp_all add: valid_blkszbits_def\<close>)
    ultimately show ?thesis
      using True Cons.prems(6) gs by (simp add: Bu Let_def add.commute add.left_commute)
  next
    case False
    then show ?thesis
      using Cons.IH [of sbi "cur @ [d]" k] Cons.prems by (simp add: Bu Let_def add.commute add.left_commute)
  qed
qed

lemma dir_store_below:
  "list_all (\<lambda>g. dirblock_used g \<le> B) gs \<Longrightarrow> p + n \<le> a * B \<Longrightarrow> zread (dir_store B f a gs) p n = zread f p n"
proof (induction gs arbitrary: f a)
  case Nil
  then show ?case by simp
next
  case (Cons g gs)
  have "p + n \<le> Suc a * B" using Cons.prems by simp
  then show ?case using Cons by (simp add: zread_fsplice_other)
qed

lemma dir_store_reads:
  "list_all (\<lambda>g. dirblock_used g \<le> B) gs \<Longrightarrow>
     zread (dir_store B f a gs) (a * B) (length gs * B) = concat (map (dirblock_image B) gs)"
proof (induction gs arbitrary: f a)
  case Nil
  then show ?case by (simp add: zread_def)
next
  case (Cons g gs)
  let ?f = "fsplice f (a * B) (dirblock_image B g)"
  have l: "length (dirblock_image B g) = B" using Cons.prems by (simp add: length_dirblock_image)
  have "zread (dir_store B ?f (Suc a) gs) (a * B) B = zread ?f (a * B) B"
    using Cons.prems by (intro dir_store_below) simp_all
  also have "\<dots> = dirblock_image B g" by (rule zread_fsplice_same [OF l])
  finally have "zread (dir_store B ?f (Suc a) gs) (a * B) (B + length gs * B) =
      dirblock_image B g @ concat (map (dirblock_image B) gs)"
    using Cons.IH [of ?f "Suc a"] Cons.prems by (simp add: zread_append_zread [symmetric] add.commute)
  then show ?case by simp
qed

lemma dir_store_append: "dir_store B f a (gs @ hs) = dir_store B (dir_store B f a gs) (a + length gs) hs"
  by (induction gs arbitrary: f a) simp_all

lemma dir_contents_butlast:
  "gs \<noteq> [] \<Longrightarrow> dir_contents B gs =
     concat (map (dirblock_image B) (butlast gs)) @ dirblock_image (dirblock_used (last gs)) (last gs)"
  by (induction gs rule: induct_list012) (auto simp: dir_contents_Cons)

lemma length_blocks:
  "list_all (\<lambda>g. dirblock_used g \<le> B) gs \<Longrightarrow> length (concat (map (dirblock_image B) gs)) = length gs * B"
  by (induction gs) (simp_all add: length_dirblock_image)

lemma length_dir_contents:
  assumes "list_all (\<lambda>g. dirblock_used g \<le> B) gs" "gs \<noteq> []"
  shows "length (dir_contents B gs) = length (butlast gs) * B + dirblock_used (last gs)"
proof -
  have "list_all (\<lambda>g. dirblock_used g \<le> B) (butlast gs)" using assms(1) by (auto simp: list_all_iff dest: in_set_butlastD)
  then show ?thesis using assms(2) by (simp add: dir_contents_butlast length_blocks length_dirblock_image)
qed

lemma sort_key_ok:
  "list_all P ds \<Longrightarrow> list_all P (sort_key f ds)" "ds \<noteq> [] \<Longrightarrow> sort_key f ds \<noteq> []"
  by (auto simp: list_all_iff) (metis set_empty set_sort)

text \<open>The size and the inline size that \<^verbatim>\<open>erofs_prepare_dir_file\<close> announces.\<close>

lemma prepare_dir_sizes:
  assumes b: "valid_blkszbits sbi" and ok: "list_all dentry_ok ds"
    and prep: "erofs_prepare_dir_file sbi dir0 ds = (dir, ds')"
    and bound: "dir_len (2 ^ blkbits sbi) [] ds' + 2 ^ blkbits sbi < 2 ^ 32"
  shows "ds' = sort_key d_name ds" and "unat (i_size dir) = dir_len (2 ^ blkbits sbi) [] ds'"
    and "unat (idata_size dir) = dir_len (2 ^ blkbits sbi) [] ds' mod 2 ^ blkbits sbi"
proof -
  let ?B = "2 ^ blkbits sbi :: nat"
  show ds': "ds' = sort_key d_name ds" using prep by (simp add: erofs_prepare_dir_file_def Let_def)
  have szd: "i_size dir = ucast (dir_size sbi 0 ds')" and idd: "idata_size dir = ucast (dir_size sbi 0 ds' mod erofs_blksiz sbi)"
    using prep by (auto simp: erofs_prepare_dir_file_def Let_def)
  have B: "?B < 2 ^ 16" "blkbits sbi \<le> 12"
    using b power_strict_increasing [of "blkbits sbi" 16 "2::nat"] by (simp_all add: valid_blkszbits_def)
  have Bu: "unat (erofs_blksiz sbi) = ?B" using B by (intro unat_erofs_blksiz) simp
  have "dir_size sbi 0 ds' = of_nat (dir_len ?B [] ds')"
    using dir_size_len [OF b, of ds' "[]" 0] sort_key_ok(1) [OF ok, of d_name] ds' bound by simp
  moreover have "dir_len ?B [] ds' < 2 ^ 32" using bound by linarith
  ultimately have sz: "unat (dir_size sbi 0 ds') = dir_len ?B [] ds'" by (simp add: unat_of_nat)
  then show "unat (i_size dir) = dir_len ?B [] ds'" by (simp add: szd unat_ucast_up)
  have "unat (dir_size sbi 0 ds' mod erofs_blksiz sbi) = dir_len ?B [] ds' mod ?B"
    by (simp add: unat_mod sz Bu)
  moreover have "dir_len ?B [] ds' mod ?B < 2 ^ 16" by (rule less_trans [OF mod_less_divisor B(1)]) simp
  ultimately show "unat (idata_size dir) = dir_len ?B [] ds' mod ?B" by (simp add: idd unat_ucast_small)
qed

text \<open>The groups of a directory: blocks that are full as far as the next entry goes, and a last one.\<close>

lemma dir_groups_split:
  assumes ok: "list_all dentry_ok ds" "ds \<noteq> []" and B: "512 \<le> B" "B < 2 ^ 16"
  obtains hs g where "dir_groups B [] ds = hs @ [g]" and "block_ok B g"
    and "list_all (\<lambda>g. dirblock_used g \<le> B) hs" and "0 < dirblock_used g" and "dirblock_used g \<le> B"
    and "dir_len B [] ds = length hs * B + dirblock_used g"
    and "dir_contents B (hs @ [g]) = concat (map (dirblock_image B) hs) @ dirblock_image (dirblock_used g) g"
proof -
  have gs: "list_all (block_ok B) (dir_groups B [] ds)" "dir_groups B [] ds \<noteq> []"
    using dir_groups_ok [of "[]" ds B] ok B by simp_all
  then obtain hs g where hg: "dir_groups B [] ds = hs @ [g]" by (metis append_butlast_last_id)
  have g: "block_ok B g" "list_all (\<lambda>g. dirblock_used g \<le> B) (hs @ [g])"
    using gs(1) by (auto simp: hg list_all_iff block_ok_def)
  have "dir_len B [] ds = length hs * B + dirblock_used g"
    using length_dir_contents [OF g(2)] by (simp add: dir_len_def hg)
  moreover have "0 < dirblock_used g"
    using g(1) dirblock_used_pos [of g] by (auto simp: block_ok_def)
  moreover have "dir_contents B (hs @ [g]) = concat (map (dirblock_image B) hs) @ dirblock_image (dirblock_used g) g"
    using dir_contents_butlast [of "hs @ [g]" B] by simp
  ultimately show ?thesis using that [OF hg g(1)] g(2) by simp
qed

text \<open>
  C8. \<^verbatim>\<open>erofs_write_dir_file\<close> on a device that answers every request: it succeeds, and the blocks it has stored
  followed by the tail it keeps for the inode are the directory contents, as long as
  \<^verbatim>\<open>erofs_prepare_dir_file\<close> has announced.  What the block buffer held before does not matter.
\<close>

theorem write_dir_file_contents:
  assumes q: "quiet (bdev sbi)" and b: "valid_blkszbits sbi" and junk: "2 ^ blkbits sbi \<le> length junk"
    and ok: "list_all dentry_ok ds" "list_all (\<lambda>d. \<not> d_validnid d) ds" "ds \<noteq> []"
    and prep: "erofs_prepare_dir_file sbi dir0 ds = (dir, ds')"
    and bound: "dir_len (2 ^ blkbits sbi) [] ds' + 2 ^ blkbits sbi < 2 ^ 32"
    and addr: "unat addr + length (dir_groups (2 ^ blkbits sbi) [] ds') \<le> 2 ^ 32"
  shows "\<exists>sbi' tail. erofs_write_dir_file fix_pnid junk addr sbi dir ds' = Inr (sbi', tail) \<and>
    zread (vf_bytes (bdev sbi')) (unat addr * 2 ^ blkbits sbi) (unat (i_size dir) div 2 ^ blkbits sbi * 2 ^ blkbits sbi) @
      (case tail of None \<Rightarrow> [] | Some t \<Rightarrow> t) = dir_contents (2 ^ blkbits sbi) (dir_groups (2 ^ blkbits sbi) [] ds') \<and>
    unat (i_size dir) = length (dir_contents (2 ^ blkbits sbi) (dir_groups (2 ^ blkbits sbi) [] ds')) \<and>
    ds' = sort_key d_name ds"
proof -
  let ?B = "2 ^ blkbits sbi :: nat" and ?gs = "dir_groups (2 ^ blkbits sbi) [] ds'" and ?f = "vf_bytes (bdev sbi)"
  note pd = prepare_dir_sizes [OF b ok(1) prep bound]
  have ok': "list_all dentry_ok ds'" "list_all (\<lambda>d. \<not> d_validnid d) ds'" "ds' \<noteq> []"
    using sort_key_ok ok by (simp_all add: pd(1))
  have B: "512 \<le> ?B" "?B < 2 ^ 16" "blkbits sbi \<le> 12"
    using b power_increasing [of 9 "blkbits sbi" "2::nat"]
      power_strict_increasing [of "blkbits sbi" 16 "2::nat"] by (simp_all add: valid_blkszbits_def)
  have Bu: "unat (erofs_blksiz sbi) = ?B" using B by (intro unat_erofs_blksiz) simp
  obtain hs g where hg: "?gs = hs @ [g]" and g: "block_ok ?B g" "list_all (\<lambda>g. dirblock_used g \<le> ?B) hs"
    and u: "0 < dirblock_used g" "dirblock_used g \<le> ?B" and len: "dir_len ?B [] ds' = length hs * ?B + dirblock_used g"
    and con: "dir_contents ?B (hs @ [g]) = concat (map (dirblock_image ?B) hs) @ dirblock_image (dirblock_used g) g"
    using dir_groups_split [OF ok'(1,3) B(1,2)] .
  let ?k = "length hs"
  let ?sbi = "\<lambda>f. sbi\<lparr>bdev := bdev sbi\<lparr>vf_bytes := f\<rparr>\<rparr>"
  let ?s1 = "?sbi (dir_store ?B ?f (unat addr) hs)"
  have loop: "write_dir_loop fix_pnid junk addr sbi [] 0 0 0 ds' = Inr (?s1, g, 12 * length g, dirblock_used g, ?k)"
    using write_dir_loop_spec [OF q b junk, of "[]" ds' addr 0] ok' addr by (simp add: Let_def hg)
  have bl: "blkbits ?s1 = blkbits sbi" "erofs_blksiz ?s1 = erofs_blksiz sbi" by (simp_all add: erofs_blksiz_def)
  show ?thesis
  proof (cases "dirblock_used g = ?B")
    case True
    have "unat addr + ?k < 2 ^ 32" using addr by (simp add: hg)
    then have ak: "unat (addr + of_nat ?k) = unat addr + ?k" by (simp add: unat_word_ariths unat_of_nat)
    have "write_dirblock ?s1 junk (12 * length g) g (addr + of_nat ?k) =
        Inr (?sbi (dir_store ?B ?f (unat addr) (hs @ [g])))"
      using write_dirblock_quiet [of ?s1 g junk "addr + of_nat ?k"] q b g(1) junk
      by (simp add: ak valid_blkszbits_def dir_store_append)
    then have w: "erofs_write_dir_file fix_pnid junk addr sbi dir ds' = Inr (?sbi (dir_store ?B ?f (unat addr) ?gs), None)"
      using True by (simp add: erofs_write_dir_file_def loop bl Bu hg)
    have "dir_len ?B [] ds' div ?B = length ?gs" using len True by (simp add: hg)
    moreover have "concat (map (dirblock_image ?B) ?gs) = dir_contents ?B ?gs"
      using True con by (simp add: hg)
    moreover have "zread (dir_store ?B ?f (unat addr) ?gs) (unat addr * ?B) (length ?gs * ?B) = concat (map (dirblock_image ?B) ?gs)"
      using g(2) u(2) by (intro dir_store_reads) (simp add: hg)
    ultimately show ?thesis using w pd by (simp add: dir_len_def)
  next
    case False
    have lt: "dirblock_used g < ?B" using u False by simp
    have "unat (idata_size dir) = dirblock_used g" using pd(3) len lt by simp
    then have "fill_dirblock (replicate (dirblock_used g) 0) (unat (idata_size dir)) (12 * length g) g =
        Inr (dirblock_image (dirblock_used g) g)"
      using fill_dirblock_image [of g "dirblock_used g" "replicate (dirblock_used g) 0"] by simp
    then have w: "erofs_write_dir_file fix_pnid junk addr sbi dir ds' =
        Inr (?s1, Some (dirblock_image (dirblock_used g) g))"
      using False u by (simp add: erofs_write_dir_file_def loop bl Bu)
    have "dir_len ?B [] ds' div ?B = ?k" using len lt by simp
    moreover have "dir_contents ?B ?gs = concat (map (dirblock_image ?B) hs) @ dirblock_image (dirblock_used g) g"
      using con by (simp add: hg)
    ultimately show ?thesis
      using w pd dir_store_reads [OF g(2), of ?f "unat addr"] by (simp add: dir_len_def)
  qed
qed


section \<open>Reading a directory back\<close>

text \<open>An inode whose data are the given bytes.\<close>

definition holds_dir :: "erofs_sb_info \<Rightarrow> erofs_inode \<Rightarrow> bytes \<Rightarrow> bool" where
  "holds_dir sbi vi c \<longleftrightarrow>
     flat_ok sbi vi \<and> valid_blkszbits sbi \<and> map (flat_byte sbi vi) [0 ..< unat (i_size vi)] = c"

lemma holds_dir_length: "holds_dir sbi vi c \<Longrightarrow> unat (i_size vi) = length c"
  by (auto simp: holds_dir_def)

lemma pread_dir:
  assumes "holds_dir sbi vi (pre @ d @ post)" and "unat offset = length pre" and "length d + 2 \<le> n"
  shows "erofs_pread n lib sbi vi (replicate (length d) 0) offset = Inr (vi, d)"
proof -
  let ?F = "flat_byte sbi vi" and ?n = "length pre + length d"
  have c: "map ?F [0 ..< unat (i_size vi)] = pre @ d @ post" and ok: "flat_ok sbi vi"
    using assms(1) by (simp_all add: holds_dir_def)
  have len: "unat (i_size vi) = length pre + length d + length post"
    using holds_dir_length [OF assms(1)] by simp
  have "map ?F [length pre ..< ?n] = take (length d) (drop (length pre) (map ?F [0 ..< unat (i_size vi)]))"
    by (simp add: take_map drop_map len take_upt)
  also have "\<dots> = d" by (simp only: c) simp
  finally show ?thesis
    using flat_pread_correct [OF ok, of offset "replicate (length d) 0" n lib] assms(2,3) len by simp
qed

text \<open>One block of the directory: what the readers compute before they look at its entries.\<close>

definition blk_len :: "nat \<Rightarrow> erofs_dentry list \<Rightarrow> erofs_dentry list list \<Rightarrow> nat" where
  "blk_len B g gs = (if gs = [] then dirblock_used g else B)"

lemma dir_contents_step: "dir_contents B (g # gs) = dirblock_image (blk_len B g gs) g @ dir_contents B gs"
  by (cases gs) (simp_all add: blk_len_def)

lemma dir_contents_pos: "list_all (block_ok B) gs \<Longrightarrow> gs \<noteq> [] \<Longrightarrow> 12 \<le> length (dir_contents B gs)"
proof (cases gs)
  case (Cons g hs)
  assume "list_all (block_ok B) gs"
  then have "block_ok B g" "12 \<le> dirblock_used g"
    using dirblock_used_pos [of g] by (simp_all add: Cons block_ok_def)
  then show ?thesis by (simp add: Cons dir_contents_step length_dirblock_image blk_len_def block_ok_def)
qed simp

lemma dir_block_read:
  fixes sbi vi
  defines "B \<equiv> 2 ^ blkbits sbi"
  assumes h: "holds_dir sbi vi (pre @ dir_contents B (g # gs))" and ok: "list_all (block_ok B) (g # gs)"
    and off: "unat offset = length pre" and n: "B + 2 \<le> n"
    and mx: "mx = min (i_size vi - offset) (ucast (erofs_blksiz sbi))"
    and sz: "sz = blk_len B g gs"
  shows "offset < i_size vi" and "unat mx = sz" and "block_ok sz g"
    and "erofs_pread n lib sbi vi (replicate (unat mx) 0) offset = Inr (vi, dirblock_image sz g)"
    and "unat (offset + mx) = length (pre @ dirblock_image sz g)"
    and "(ucast mx :: u32) = of_nat sz"
    and "\<not> erofs_blksiz sbi \<le> of_nat (12 * length g)" and "\<not> (of_nat (12 * length g) :: u32) < 12"
proof -
  have b: "blkbits sbi \<le> 12" using h by (simp add: holds_dir_def valid_blkszbits_def)
  have B16: "B < 2 ^ 16" using b power_strict_increasing [of "blkbits sbi" 16 "2::nat"] by (simp add: B_def)
  have Bu: "unat (erofs_blksiz sbi) = B" using b unfolding B_def by (intro unat_erofs_blksiz) simp
  have c: "holds_dir sbi vi (pre @ dirblock_image sz g @ dir_contents B gs)"
    using h by (simp add: dir_contents_step sz)
  have g: "block_ok B g" using ok by simp
  then have u: "12 * length g < dirblock_used g" "dirblock_used g \<le> sz" "sz \<le> B" "0 < length g"
  proof -
    have "names_of g \<noteq> []" using g by (cases g) (auto simp: block_ok_def dentry_ok_def)
    then show "12 * length g < dirblock_used g" by (simp add: dirblock_used_def)
  qed (use g in \<open>auto simp: sz blk_len_def block_ok_def\<close>)
  show "block_ok sz g" using g u(2,3) by (auto simp: block_ok_def)
  have l: "length (dirblock_image sz g) = sz" by (rule length_dirblock_image [OF u(2)])
  have isz: "unat (i_size vi) = length pre + sz + length (dir_contents B gs)"
    using holds_dir_length [OF c] l by simp
  have sp: "0 < sz" using u by linarith
  then show lt: "offset < i_size vi" using isz off by (simp add: word_less_nat_alt)
  have rest: "unat (i_size vi - offset) = sz + length (dir_contents B gs)"
    using lt isz off by (simp add: unat_sub word_less_nat_alt word_le_nat_alt)
  show um: "unat mx = sz"
    using u(3) sz dir_contents_pos [of B gs] ok
    by (cases "gs = []") (auto simp: mx min_def word_le_nat_alt rest Bu unat_ucast_up blk_len_def)
  show "erofs_pread n lib sbi vi (replicate (unat mx) 0) offset = Inr (vi, dirblock_image sz g)"
    using pread_dir [OF c off, of n lib] l n u(3) by (simp add: um)
  have "unat (i_size vi) < 2 ^ 64" using unsigned_less [where w = "i_size vi"] by simp
  then show "unat (offset + mx) = length (pre @ dirblock_image sz g)"
    using isz off um l by (simp add: unat_word_ariths)
  have "unat mx < 2 ^ 32" using um u(3) B16 by simp
  then show "(ucast mx :: u32) = of_nat sz"
    using u(3) B16 by (simp add: word_unat_eq_iff unat_ucast_small um unat_of_nat)
  have w: "unat (of_nat (12 * length g) :: u32) = 12 * length g"
    using u B16 by (simp add: unat_of_nat del: of_nat_mult)
  show "\<not> erofs_blksiz sbi \<le> of_nat (12 * length g)"
    using u by (simp add: word_le_nat_alt w Bu del: of_nat_mult)
  show "\<not> (of_nat (12 * length g) :: u32) < 12"
    using u(4) by (simp add: word_less_nat_alt w del: of_nat_mult)
qed

lemma fsplice_0: "fsplice buf 0 d = d @ drop (length d) buf"
  by (simp add: fsplice_def)

definition dir_map :: "erofs_dentry list \<Rightarrow> (bytes \<times> u64) list" where
  "dir_map ds = map (\<lambda>d. (d_name d, d_nid d)) ds"

lemma name_index_map_of:
  "map_of (dir_map ds) name = map_option (\<lambda>j. d_nid (ds ! (j - i))) (name_index name i ds)"
proof (induction ds arbitrary: i)
  case Nil
  then show ?case by (simp add: dir_map_def)
next
  case (Cons d ds)
  show ?case
    using Cons.IH [of "Suc i"] name_index_Some [of name "Suc i" ds]
    by (cases "name_index name (Suc i) ds") (auto simp: dir_map_def nth_Cons' Suc_le_eq)
qed

lemma namei_groups:
  assumes n: "2 ^ blkbits sbi + 2 \<le> n" and name: "length name \<le> EROFS_NAME_LEN"
  shows "holds_dir sbi vi (pre @ dir_contents (2 ^ blkbits sbi) gs) \<Longrightarrow> list_all (block_ok (2 ^ blkbits sbi)) gs \<Longrightarrow>
    unat offset = length pre \<Longrightarrow> length gs < k \<Longrightarrow>
    namei_loop k n lib sbi vi buf name offset =
      (case map_of (dir_map (concat gs)) name of Some nd \<Rightarrow> Inr nd | None \<Rightarrow> Err ENOENT)"
proof (induction gs arbitrary: pre offset buf k)
  case Nil
  then have "unat (i_size vi) = length pre" using holds_dir_length [OF Nil(1)] by simp
  then have "\<not> offset < i_size vi" using Nil by (simp add: word_less_nat_alt)
  moreover obtain k' where "k = Suc k'" using Nil(4) by (cases k) auto
  ultimately show ?case by (simp add: dir_map_def)
next
  case (Cons g gs)
  let ?B = "2 ^ blkbits sbi :: nat" and ?mx = "min (i_size vi - offset) (ucast (erofs_blksiz sbi))"
  obtain k' where k: "k = Suc k'" "length gs < k'" using Cons.prems(4) by (cases k) auto
  define sz where "sz = blk_len ?B g gs"
  note r = dir_block_read [OF Cons.prems(1,2,3) n refl sz_def]
  let ?buf = "dirblock_image sz g @ drop (length (dirblock_image sz g)) buf"
  have g0: "0 < length g" using r(3) by (simp add: block_ok_def)
  have np: "de_nameoff_at ?buf 0 = Inr (of_nat (12 * length g))"
    using entry_reads(1) [OF r(3) g0] by (simp add: name_pos_def)
  have IH: "namei_loop k' n lib sbi vi ?buf name (offset + ?mx) =
      (case map_of (dir_map (concat gs)) name of Some nd \<Rightarrow> Inr nd | None \<Rightarrow> Err ENOENT)"
    using Cons.IH [OF _ _ r(5) k(2)] Cons.prems(1,2) by (simp add: dir_contents_step sz_def)
  note fi = find_target_dirent_spec [OF r(3) name, of "drop (length (dirblock_image sz g)) buf" 0]
  have body: "namei_loop k n lib sbi vi buf name offset =
      (case name_index name 0 g of Some i \<Rightarrow> de_nid_at ?buf i
       | None \<Rightarrow> namei_loop k' n lib sbi vi ?buf name (offset + ?mx))"
    using r np fi by (simp add: k(1) Let_def fsplice_0 del: of_nat_mult)
  show ?case
  proof (cases "name_index name 0 g")
    case None
    then have "map_of (dir_map g) name = None" using name_index_map_of [of g name 0] by simp
    then show ?thesis using body None IH by (simp add: dir_map_def map_add_def)
  next
    case (Some i)
    then have "i < length g" using name_index_Some [OF Some] by simp
    moreover have "map_of (dir_map g) name = Some (d_nid (g ! i))" using name_index_map_of [of g name 0] Some by simp
    ultimately show ?thesis
      using body Some entry_reads(2) [OF r(3)] by (simp add: dir_map_def map_add_def)
  qed
qed

end
