(* ===== verification/Erofs_Dircheck.thy ===== *)
theory Erofs_Dircheck
  imports Erofs_Dirwrite
begin

text \<open>
  Directories from the writer to the readers: lookup with \<^verbatim>\<open>erofs_namei\<close> and iteration with the checks of
  \<^verbatim>\<open>fsck\<close> over an inode that holds the contents \<^verbatim>\<open>erofs_write_dir_file\<close> stores, an example directory, and what
  the readers do with a corrupted last entry.
\<close>

text \<open>
  C5. Lookup in a directory: \<^verbatim>\<open>erofs_namei\<close> on an inode whose data are the contents \<^verbatim>\<open>erofs_write_dir_file\<close> stores
  for the entries \<^verbatim>\<open>ds\<close> returns the node number of the entry with that name, and \<^verbatim>\<open>ENOENT\<close> if there is none.
  Fuel for the blocks of the directory and for the bytes of one block is enough.
\<close>

theorem namei_finds_entries:
  assumes inode: "erofs_read_inode_from_disk sbi (zero_inode nd) = Inr vi"
    and h: "holds_dir sbi vi (dir_contents (2 ^ blkbits sbi) (dir_groups (2 ^ blkbits sbi) [] ds))"
    and ok: "list_all dentry_ok ds" and name: "length name \<le> EROFS_NAME_LEN"
    and n: "2 ^ blkbits sbi + 2 \<le> n" "length (dir_groups (2 ^ blkbits sbi) [] ds) < n"
  shows "erofs_namei n lib sbi nd name =
    (case map_of (dir_map ds) name of Some i \<Rightarrow> Inr i | None \<Rightarrow> Err ENOENT)"
proof -
  let ?B = "2 ^ blkbits sbi :: nat"
  have B: "512 \<le> ?B" "?B < 2 ^ 16"
    using h power_increasing [of 9 "blkbits sbi" "2::nat"]
      power_strict_increasing [of "blkbits sbi" 16 "2::nat"] by (simp_all add: holds_dir_def valid_blkszbits_def)
  have "list_all (block_ok ?B) (dir_groups ?B [] ds)" using ok B by (intro dir_groups_ok) simp_all
  then show ?thesis
    using namei_groups [OF n(1) name, of vi "[]" "dir_groups ?B [] ds" 0 n lib "[]"] h n(2) inode
    by (simp add: erofs_namei_def dir_groups_concat)
qed

text \<open>Iteration.\<close>

lemma check_special_dir: "check_special sbi fsck ctx nd name = Some ctx' \<Longrightarrow> ctx_dir ctx' = ctx_dir ctx"
  by (auto simp: check_special_def Let_def split: if_splits)

lemma visit_dir: "visit cb sbi fsck ds ctx s = (r, ctx', s') \<Longrightarrow> ctx_dir ctx' = ctx_dir ctx"
  by (induction ds arbitrary: ctx s)
    (auto split: option.splits prod.splits dir_ret.splits dest: check_special_dir)

lemma visit_append:
  "visit cb sbi fsck (as @ bs) ctx s =
     (case visit cb sbi fsck as ctx s of
        (RetOk, ctx, s) \<Rightarrow> visit cb sbi fsck bs ctx s
      | res \<Rightarrow> res)"
  by (induction as arbitrary: ctx s) (auto split: option.splits prod.splits dir_ret.splits)

lemma ctx_dir_same: "(ctx :: erofs_dir_context)\<lparr>ctx_dir := ctx_dir ctx\<rparr> = ctx"
  by simp

lemma iterate_groups:
  assumes n: "2 ^ blkbits sbi + 2 \<le> n"
  shows "holds_dir sbi (ctx_dir ctx) (pre @ dir_contents (2 ^ blkbits sbi) gs) \<Longrightarrow>
    list_all (block_ok (2 ^ blkbits sbi)) gs \<Longrightarrow> list_all (\<lambda>g. sorted_wrt (<) (map d_name g)) gs \<Longrightarrow>
    list_all (list_all (\<lambda>d. d_type d < EROFS_FT_MAX)) gs \<Longrightarrow> unat pos = length pre \<Longrightarrow> length gs < k \<Longrightarrow>
    iterate_loop k n lib cb sbi fsck buf pos ctx s =
      (case visit cb sbi fsck (concat gs) ctx s of (r, ctx, s) \<Rightarrow> (r, False, ctx, s))"
proof (induction gs arbitrary: pre pos buf k ctx s)
  case Nil
  then have "unat (i_size (ctx_dir ctx)) = length pre" using holds_dir_length [OF Nil(1)] by simp
  then have "\<not> pos < i_size (ctx_dir ctx)" using Nil by (simp add: word_less_nat_alt)
  moreover obtain k' where "k = Suc k'" using Nil(6) by (cases k) auto
  ultimately show ?case by simp
next
  case (Cons g gs)
  let ?B = "2 ^ blkbits sbi :: nat" and ?mx = "min (i_size (ctx_dir ctx) - pos) (ucast (erofs_blksiz sbi))"
  obtain k' where k: "k = Suc k'" "length gs < k'" using Cons.prems(6) by (cases k) auto
  define sz where "sz = blk_len ?B g gs"
  note r = dir_block_read [OF Cons.prems(1,2,5) n refl sz_def]
  define buf' where "buf' = dirblock_image sz g @ drop (length (dirblock_image sz g)) buf"
  have fs: "fsplice buf 0 (dirblock_image sz g) = buf'" by (simp add: fsplice_0 buf'_def)
  have g0: "0 < length g" using r(3) by (simp add: block_ok_def)
  have np: "de_nameoff_at buf' 0 = Inr (of_nat (12 * length g))"
    using entry_reads(1) [OF r(3) g0] by (simp add: name_pos_def buf'_def)
  have IH: "iterate_loop k' n lib cb sbi fsck buf' (pos + ?mx) ctx' s' =
      (case visit cb sbi fsck (concat gs) ctx' s' of (r, ctx, s) \<Rightarrow> (r, False, ctx, s))"
    if "ctx_dir ctx' = ctx_dir ctx" for ctx' s'
    using Cons.IH [of ctx' "pre @ dirblock_image sz g" "pos + ?mx" k' buf' s'] Cons.prems r(5) k(2) that
    by (simp add: dir_contents_step sz_def)
  have tr: "traverse_dirents cb sbi fsck buf' (of_nat (12 * length g)) (of_nat sz) (of_nat (12 * length g)) None 0 ctx s =
      visit cb sbi fsck g ctx s"
    using traverse_dirents_spec [OF r(3), of 0 cb sbi fsck "drop (length (dirblock_image sz g)) buf" ctx s] Cons.prems(3,4)
    by (simp add: name_pos_def prev_name_def buf'_def)
  obtain r1 c1 s1 where v: "visit cb sbi fsck g ctx s = (r1, c1, s1)" by (metis prod_cases3)
  show ?case
    using r(1,2,4,6,7,8) np tr v IH [OF visit_dir [OF v]]
    by (cases r1) (simp_all add: k(1) Let_def fs ctx_dir_same visit_append del: of_nat_mult)
qed


text \<open>Flags, and the two special names.\<close>

lemma flag_bits:
  "(x :: u8) AND 1 = 0 \<longleftrightarrow> \<not> bit x 0" "(x :: u8) AND 2 = 0 \<longleftrightarrow> \<not> bit x 1" "(x :: u8) AND 4 = 0 \<longleftrightarrow> \<not> bit x 2"
  "(x :: u8) AND 6 = 6 \<longleftrightarrow> bit x 1 \<and> bit x 2"
proof -
  show "x AND 1 = 0 \<longleftrightarrow> \<not> bit x 0" "x AND 2 = 0 \<longleftrightarrow> \<not> bit x 1" "x AND 4 = 0 \<longleftrightarrow> \<not> bit x 2"
    using and_exp_eq_0_iff_not_bit [of x 0] and_exp_eq_0_iff_not_bit [of x 1] and_exp_eq_0_iff_not_bit [of x 2] by simp_all
  have "(6 :: u8) = 2 ^ 1 OR 2 ^ 2" by simp
  then have b6: "bit (6 :: u8) n \<longleftrightarrow> n = 1 \<or> n = 2" for n
    by (simp only: bit_or_iff bit_exp_iff) auto
  show "x AND 6 = 6 \<longleftrightarrow> bit x 1 \<and> bit x 2"
    unfolding bit_eq_iff [of "x AND 6" 6] bit_and_iff b6
    by (auto dest: spec [where x = "Suc 0"] spec [where x = 2])
qed

lemma is_dot_dotdot_iff: "is_dot_dotdot_len name \<longleftrightarrow> name = [dot] \<or> name = [dot, dot]"
proof (cases name rule: is_dot_dotdot_len.cases)
  case (2 c cs)
  then show ?thesis by (cases cs rule: remdups_adj.cases) auto
qed simp


text \<open>A callback that records the entries it is called with.\<close>

definition record_entries :: "(dirent_info list) dir_cb" where
  "record_entries info s = (RetOk, s @ [info])"

text \<open>The entries of a directory \<^verbatim>\<open>self\<close> below \<^verbatim>\<open>parent\<close> as far as \<^verbatim>\<open>fsck\<close> is concerned.\<close>

definition dir_entry_ok :: "u64 \<Rightarrow> u64 \<Rightarrow> erofs_dentry \<Rightarrow> bool" where
  "dir_entry_ok self parent d \<longleftrightarrow>
     (if d_name d = [dot] then d_nid d = self
      else if d_name d = [dot, dot] then d_nid d = parent
      else erofs_validate_filename (d_name d))"

definition parent_ok :: "erofs_sb_info \<Rightarrow> u64 \<Rightarrow> erofs_dir_context \<Rightarrow> bool" where
  "parent_ok sbi parent ctx \<longleftrightarrow>
     (bit (ctx_flags ctx) 0 \<longrightarrow> ctx_pnid ctx = parent) \<and> (root_nid sbi = nid (ctx_dir ctx) \<longrightarrow> parent = root_nid sbi)"

lemma check_special_accepts:
  assumes "parent_ok sbi parent ctx" and "dir_entry_ok (nid (ctx_dir ctx)) parent d"
    and "d_name d = [dot] \<Longrightarrow> \<not> bit (ctx_flags ctx) 2" and "d_name d = [dot, dot] \<Longrightarrow> \<not> bit (ctx_flags ctx) 1"
  shows "\<exists>ctx'. check_special sbi True ctx (d_nid d) (d_name d) = Some ctx' \<and> ctx_dir ctx' = ctx_dir ctx \<and>
    parent_ok sbi parent ctx' \<and>
    (bit (ctx_flags ctx') 2 \<longleftrightarrow> bit (ctx_flags ctx) 2 \<or> d_name d = [dot]) \<and>
    (bit (ctx_flags ctx') 1 \<longleftrightarrow> bit (ctx_flags ctx) 1 \<or> d_name d = [dot, dot])"
  using assms
  by (auto simp: check_special_def Let_def is_dot_dotdot_iff flag_bits dir_entry_ok_def parent_ok_def bit_or_iff bit_1_iff)

lemma visit_accepts:
  "parent_ok sbi parent ctx \<Longrightarrow> list_all (dir_entry_ok (nid (ctx_dir ctx)) parent) ds \<Longrightarrow> distinct (map d_name ds) \<Longrightarrow>
   (bit (ctx_flags ctx) 2 \<Longrightarrow> [dot] \<notin> d_name ` set ds) \<Longrightarrow> (bit (ctx_flags ctx) 1 \<Longrightarrow> [dot, dot] \<notin> d_name ` set ds) \<Longrightarrow>
   \<exists>ctx'. visit record_entries sbi True ds ctx s = (RetOk, ctx', s @ map info_of ds) \<and>
     (bit (ctx_flags ctx') 2 \<longleftrightarrow> bit (ctx_flags ctx) 2 \<or> [dot] \<in> d_name ` set ds) \<and>
     (bit (ctx_flags ctx') 1 \<longleftrightarrow> bit (ctx_flags ctx) 1 \<or> [dot, dot] \<in> d_name ` set ds)"
proof (induction ds arbitrary: ctx s)
  case Nil
  then show ?case by simp
next
  case (Cons d ds)
  have e: "dir_entry_ok (nid (ctx_dir ctx)) parent d" using Cons.prems(2) by simp
  have f: "d_name d = [dot] \<Longrightarrow> \<not> bit (ctx_flags ctx) 2" "d_name d = [dot, dot] \<Longrightarrow> \<not> bit (ctx_flags ctx) 1"
    using Cons.prems(4,5) by (auto simp: image_iff)
  obtain ctx1 where c: "check_special sbi True ctx (d_nid d) (d_name d) = Some ctx1" "ctx_dir ctx1 = ctx_dir ctx"
      "parent_ok sbi parent ctx1" "bit (ctx_flags ctx1) 2 \<longleftrightarrow> bit (ctx_flags ctx) 2 \<or> d_name d = [dot]"
      "bit (ctx_flags ctx1) 1 \<longleftrightarrow> bit (ctx_flags ctx) 1 \<or> d_name d = [dot, dot]"
    using check_special_accepts [OF Cons.prems(1) e f] by blast
  have "\<exists>ctx'. visit record_entries sbi True ds ctx1 (s @ [info_of d]) = (RetOk, ctx', (s @ [info_of d]) @ map info_of ds) \<and>
     (bit (ctx_flags ctx') 2 \<longleftrightarrow> bit (ctx_flags ctx1) 2 \<or> [dot] \<in> d_name ` set ds) \<and>
     (bit (ctx_flags ctx') 1 \<longleftrightarrow> bit (ctx_flags ctx1) 1 \<or> [dot, dot] \<in> d_name ` set ds)"
    using Cons.prems c by (intro Cons.IH) auto
  moreover have "record_entries (info_of d) s = (RetOk, s @ [info_of d])" by (simp add: record_entries_def)
  ultimately show ?case using c(1,4,5) by auto
qed


lemma dir_groups_sorted:
  assumes "sorted_wrt P (concat gs)"
  shows "list_all (sorted_wrt P) gs"
  using assms by (induction gs) (auto simp: sorted_wrt_append)

lemma iterate_dir_visits:
  assumes dir: "S_ISDIR (i_mode (ctx_dir ctx))"
    and h: "holds_dir sbi (ctx_dir ctx) (dir_contents (2 ^ blkbits sbi) (dir_groups (2 ^ blkbits sbi) [] ds))"
    and ok: "list_all dentry_ok ds" "sorted_wrt (<) (map d_name ds)" "list_all (\<lambda>d. d_type d < EROFS_FT_MAX) ds"
    and n: "2 ^ blkbits sbi + 2 \<le> n" "length (dir_groups (2 ^ blkbits sbi) [] ds) < n"
  shows "erofs_iterate_dir n lib cb sbi fsck ctx s =
    (case visit cb sbi fsck ds (ctx\<lparr>ctx_flags := ctx_flags ctx AND NOT 6\<rparr>) s of
       (r, ctx, s) \<Rightarrow>
         if fsck \<and> ctx_flags ctx AND 6 \<noteq> 6 then (RetErr (Errno EFSCORRUPTED), ctx, s) else (r, ctx, s))"
proof -
  let ?B = "2 ^ blkbits sbi :: nat" and ?ctx = "ctx\<lparr>ctx_flags := ctx_flags ctx AND NOT 6\<rparr>"
  let ?gs = "dir_groups ?B [] ds"
  have B: "512 \<le> ?B" "?B < 2 ^ 16"
    using h power_increasing [of 9 "blkbits sbi" "2::nat"]
      power_strict_increasing [of "blkbits sbi" 16 "2::nat"] by (simp_all add: holds_dir_def valid_blkszbits_def)
  have con: "concat ?gs = ds" by (simp add: dir_groups_concat)
  have "list_all (sorted_wrt (\<lambda>a b. d_name a < d_name b)) ?gs"
    using ok(2) by (intro dir_groups_sorted) (simp add: con sorted_wrt_map)
  then have so: "list_all (\<lambda>g. sorted_wrt (<) (map d_name g)) ?gs" by (simp add: sorted_wrt_map)
  have ft: "list_all (list_all (\<lambda>d. d_type d < EROFS_FT_MAX)) ?gs"
    using ok(3) con by (auto simp: list_all_iff) (metis UN_I set_concat)
  have bo: "list_all (block_ok ?B) ?gs" using ok(1) B by (intro dir_groups_ok) simp_all
  have "iterate_loop n n lib cb sbi fsck [] 0 ?ctx s = (case visit cb sbi fsck ds ?ctx s of (r, ctx, s) \<Rightarrow> (r, False, ctx, s))"
    using iterate_groups [OF n(1), of ?ctx "[]" ?gs 0 n lib cb fsck "[]" s] h so ft bo n(2) by (simp add: con)
  then show ?thesis using dir by (simp add: erofs_iterate_dir_def split: prod.split)
qed

text \<open>
  C9. The directory check of \<^verbatim>\<open>fsck\<close> accepts what the writer stores: over an inode that holds the contents for the
  sorted entries \<^verbatim>\<open>ds\<close>, among them \<^verbatim>\<open>.\<close> and \<^verbatim>\<open>..\<close> with the right node numbers, \<^verbatim>\<open>erofs_iterate_dir\<close> succeeds with
  every check on and calls back once for each entry, in order.
\<close>

theorem fsck_accepts_written_dir:
  assumes dir: "S_ISDIR (i_mode (ctx_dir ctx))"
    and h: "holds_dir sbi (ctx_dir ctx) (dir_contents (2 ^ blkbits sbi) (dir_groups (2 ^ blkbits sbi) [] ds))"
    and ok: "list_all dentry_ok ds" "sorted_wrt (<) (map d_name ds)" "list_all (\<lambda>d. d_type d < EROFS_FT_MAX) ds"
    and n: "2 ^ blkbits sbi + 2 \<le> n" "length (dir_groups (2 ^ blkbits sbi) [] ds) < n"
    and ent: "list_all (dir_entry_ok (nid (ctx_dir ctx)) parent) ds" "{[dot], [dot, dot]} \<subseteq> d_name ` set ds"
    and parent: "parent_ok sbi parent ctx"
  shows "\<exists>ctx'. erofs_iterate_dir n lib record_entries sbi True ctx [] = (RetOk, ctx', map info_of ds)"
proof -
  let ?ctx = "ctx\<lparr>ctx_flags := ctx_flags ctx AND NOT 6\<rparr>"
  have "(ctx_flags ctx AND NOT 6) AND 2 = 0" "(ctx_flags ctx AND NOT 6) AND 4 = 0"
    by (simp_all add: and.assoc)
  then have fl: "\<not> bit (ctx_flags ?ctx) 1" "\<not> bit (ctx_flags ?ctx) 2" by (simp_all add: flag_bits)
  have p: "parent_ok sbi parent ?ctx" using parent by (auto simp: parent_ok_def bit_and_iff)
  have "distinct (map d_name ds)" using ok(2) by (simp add: strict_sorted_iff)
  then obtain ctx' where v: "visit record_entries sbi True ds ?ctx [] = (RetOk, ctx', map info_of ds)"
      "bit (ctx_flags ctx') 2" "bit (ctx_flags ctx') 1"
    using visit_accepts [OF p, of ds "[]"] fl ent by auto
  then have "ctx_flags ctx' AND 6 = 6" by (simp add: flag_bits)
  then show ?thesis unfolding iterate_dir_visits [OF dir h ok n] v(1) by simp
qed


subsection \<open>An example directory\<close>

definition demo_dentries :: "erofs_dentry list" where
  "demo_dentries =
     [\<lparr>d_nid = 0, d_name = [dot], d_type = EROFS_FT_DIR, d_validnid = False\<rparr>,
      \<lparr>d_nid = 0, d_name = [dot, dot], d_type = EROFS_FT_DIR, d_validnid = False\<rparr>,
      \<lparr>d_nid = 7, d_name = [97], d_type = 1, d_validnid = False\<rparr>]"

definition demo_dir_dic :: erofs_inode_compact where
  "demo_dir_dic = \<lparr>dic_i_format = push_bit 1 (datalayout_code EROFS_INODE_FLAT_INLINE), dic_i_xattr_icount = 0,
     dic_i_mode = 0x41ED, dic_i_nlink = 2, dic_i_size = 40, dic_i_reserved = 0, dic_i_u = 0, dic_i_ino = 1,
     dic_i_uid = 0, dic_i_gid = 0, dic_i_reserved2 = 0\<rparr>"

definition demo_dir_img :: erofs_sb_info where
  "demo_dir_img = (zero_sbi (plain_file (enc_inode_compact demo_dir_dic @ dirblock_image 40 demo_dentries)))
     \<lparr>blkszbits := 9, islotbits := 5\<rparr>"

definition demo_dir :: erofs_inode where
  "demo_dir = (zero_inode 0)\<lparr>datalayout := EROFS_INODE_FLAT_INLINE, inode_isize := 32, i_mode := 0x41ED, i_ino := 1,
     i_nlink := 2, i_size := 40\<rparr>"

lemma demo_dentries_used: "dirblock_used demo_dentries = 40"
  by (simp add: demo_dentries_def dirblock_used_def)

lemma demo_dentries_groups: "dir_groups 512 [] demo_dentries = [demo_dentries]"
  by (simp add: demo_dentries_def dirblock_used_def)

lemma demo_dir_sel:
  "blkbits demo_dir_img = 9" "i_size demo_dir = 40" "datalayout demo_dir = EROFS_INODE_FLAT_INLINE"
  "erofs_iloc demo_dir_img (zero_inode 0) = 0" "erofs_iloc demo_dir_img demo_dir = 0" "inode_isize demo_dir = 32" "xattr_isize demo_dir = 0"
  "bdev demo_dir_img = plain_file (enc_inode_compact demo_dir_dic @ dirblock_image 40 demo_dentries)" "extra_devices demo_dir_img = 0"
  "root_nid demo_dir_img = 0" "nid demo_dir = 0" "S_ISDIR (i_mode demo_dir)" "build_time demo_dir_img = 0" "build_time_nsec demo_dir_img = 0"
  by (simp_all add: demo_dir_img_def demo_dir_def zero_sbi_def zero_inode_def erofs_iloc_def erofs_pos_def S_ISDIR_def)

lemma demo_dir_read: "erofs_read_inode_from_disk demo_dir_img (zero_inode 0) = Inr demo_dir"
proof -
  have l: "length (enc_inode_compact demo_dir_dic) = 32" by (rule inode_compact.length_enc) simp
  have "zread (vf_bytes (bdev demo_dir_img)) (unat (erofs_iloc demo_dir_img (zero_inode 0))) 32 = enc_inode_compact demo_dir_dic"
    using l by (simp add: demo_dir_sel zread_def)
  then have "erofs_read_inode_from_disk demo_dir_img (zero_inode 0) =
      bindR (fill_compact demo_dir_img demo_dir_dic ((zero_inode 0)\<lparr>datalayout := EROFS_INODE_FLAT_INLINE\<rparr>)) (fill_layout demo_dir_img)"
    by (intro read_inode_compact) (simp_all add: demo_dir_sel demo_dir_dic_def)
  also have "\<dots> = Inr demo_dir"
    by (simp add: fill_compact_def read_i_u_def imode_class_def demo_dir_dic_def fill_layout_def Let_def demo_dir_def
        erofs_inode_is_data_compressed_def erofs_xattr_ibody_size_def zero_inode_def demo_dir_sel)
  finally show ?thesis .
qed

lemma demo_dir_holds: "holds_dir demo_dir_img demo_dir (dir_contents 512 (dir_groups 512 [] demo_dentries))"
proof -
  have lb: "length (dirblock_image 40 demo_dentries) = 40" by (simp add: length_dirblock_image demo_dentries_used)
  have l: "length (enc_inode_compact demo_dir_dic) = 32" by (rule inode_compact.length_enc) simp
  have ip: "inline_pos demo_dir_img demo_dir = 32" by (simp add: inline_pos_def demo_dir_sel)
  have lk: "flat_lastblk demo_dir_img demo_dir = 0" by (simp add: flat_lastblk_def demo_dir_sel)
  have "flat_ok demo_dir_img demo_dir"
    by (simp add: flat_ok_def demo_dir_sel ip lk)
  moreover have "map (flat_byte demo_dir_img demo_dir) [0 ..< 40] = dirblock_image 40 demo_dentries"
    by (rule nth_equalityI) (simp_all add: lb l flat_byte_def lk ip demo_dir_sel zbyte_def nth_append)
  ultimately show ?thesis
    by (simp add: holds_dir_def valid_blkszbits_def demo_dir_sel demo_dentries_groups demo_dentries_used)
qed

theorem namei_finds_entries_witness:
  "erofs_namei 600 no_lib demo_dir_img 0 [97] = Inr 7 \<and> erofs_namei 600 no_lib demo_dir_img 0 [98] = Err ENOENT"
proof -
  have d: "list_all dentry_ok demo_dentries" by (simp add: demo_dentries_def dentry_ok_def)
  have "erofs_namei 600 no_lib demo_dir_img 0 name =
      (case map_of (dir_map demo_dentries) name of Some i \<Rightarrow> Inr i | None \<Rightarrow> Err ENOENT)" if "length name = 1" for name
    using that demo_dir_holds d by (intro namei_finds_entries [OF demo_dir_read]) (simp_all add: demo_dir_sel demo_dentries_groups)
  from this [of "[97]"] this [of "[98]"] show ?thesis by (simp add: dir_map_def demo_dentries_def)
qed

theorem fsck_accepts_written_dir_witness:
  "\<exists>ctx'. erofs_iterate_dir 600 no_lib record_entries demo_dir_img True \<lparr>ctx_dir = demo_dir, ctx_pnid = 0, ctx_flags = 0\<rparr> [] =
     (RetOk, ctx', map info_of demo_dentries)"
proof (rule fsck_accepts_written_dir [where parent = 0])
  show "list_all dentry_ok demo_dentries" by (simp add: demo_dentries_def dentry_ok_def)
  show "sorted_wrt (<) (map d_name demo_dentries)" by (simp add: demo_dentries_def)
  show "list_all (\<lambda>d. d_type d < EROFS_FT_MAX) demo_dentries" by (simp add: demo_dentries_def)
  show "{[dot], [dot, dot]} \<subseteq> d_name ` set demo_dentries" by (simp add: demo_dentries_def)
  show "parent_ok demo_dir_img 0 \<lparr>ctx_dir = demo_dir, ctx_pnid = 0, ctx_flags = 0\<rparr>" by (simp add: parent_ok_def demo_dir_sel)
  show "list_all (dir_entry_ok (nid (ctx_dir \<lparr>ctx_dir = demo_dir, ctx_pnid = 0, ctx_flags = 0\<rparr>)) 0) demo_dentries"
    by (simp add: demo_dentries_def dir_entry_ok_def demo_dir_sel)
qed (use demo_dir_holds in \<open>simp_all add: demo_dir_sel demo_dentries_groups\<close>)


lemma demo_dentries_sorted: "sort_key d_name demo_dentries = demo_dentries"
  by (simp add: demo_dentries_def sort_key_def)

theorem write_dir_file_contents_witness:
  "\<exists>dir sbi' tail. erofs_prepare_dir_file demo_dir_img demo_dir demo_dentries = (dir, demo_dentries) \<and>
     erofs_write_dir_file (\<lambda>s n. Inr s) (replicate 4096 1) 5 demo_dir_img dir demo_dentries = Inr (sbi', tail) \<and>
     (case tail of None \<Rightarrow> [] | Some t \<Rightarrow> t) = dirblock_image 40 demo_dentries"
proof -
  obtain dir where prep: "erofs_prepare_dir_file demo_dir_img demo_dir demo_dentries = (dir, demo_dentries)"
    by (simp add: erofs_prepare_dir_file_def Let_def demo_dentries_sorted)
  have con: "dir_contents 512 (dir_groups 512 [] demo_dentries) = dirblock_image 40 demo_dentries"
    by (simp add: demo_dentries_groups demo_dentries_used)
  have "\<exists>sbi' tail. erofs_write_dir_file (\<lambda>s n. Inr s) (replicate 4096 1) 5 demo_dir_img dir demo_dentries = Inr (sbi', tail) \<and>
    zread (vf_bytes (bdev sbi')) (unat (5 :: u32) * 2 ^ blkbits demo_dir_img)
      (unat (i_size dir) div 2 ^ blkbits demo_dir_img * 2 ^ blkbits demo_dir_img) @ (case tail of None \<Rightarrow> [] | Some t \<Rightarrow> t) =
      dir_contents (2 ^ blkbits demo_dir_img) (dir_groups (2 ^ blkbits demo_dir_img) [] demo_dentries) \<and>
    unat (i_size dir) = length (dir_contents (2 ^ blkbits demo_dir_img) (dir_groups (2 ^ blkbits demo_dir_img) [] demo_dentries)) \<and>
    demo_dentries = sort_key d_name demo_dentries"
    by (rule write_dir_file_contents [OF _ _ _ _ _ _ prep])
      (simp_all add: demo_dir_sel valid_blkszbits_def dir_len_def con demo_dentries_groups
        length_dirblock_image demo_dentries_used, simp_all add: demo_dentries_def dentry_ok_def)
  moreover have "length (dirblock_image 40 demo_dentries) = 40" by (simp add: length_dirblock_image demo_dentries_used)
  ultimately show ?thesis using prep by (auto simp: demo_dir_sel con zread_def)
qed

section \<open>A corrupted last entry\<close>

text \<open>
  C21. The length of the last name of a block is measured before its offset has been checked: if the offset
  lies beyond the data, \<^verbatim>\<open>maxsize - nameoff\<close> wraps around and \<^verbatim>\<open>strnlen\<close> runs outside the block buffer, both in
  \<^verbatim>\<open>find_target_dirent\<close> and in \<^verbatim>\<open>traverse_dirents\<close>.
\<close>

theorem last_dirent_overread:
  assumes last: "12 * i < unat tableend" "unat tableend \<le> 12 * Suc i"
    and off: "de_nameoff_at buf i = Inr nameoff" "maxsize < nameoff" "length buf \<le> unat nameoff"
  shows "find_target_dirent buf name tableend maxsize i = Inl OutOfBounds \<and>
    dirent_checked sbi fsck ctx buf tableend maxsize next_nameoff prev i = Inl OutOfBounds"
proof -
  have "maxsize - nameoff \<noteq> 0" using off(2) by auto
  then obtain k where "unat (maxsize - nameoff) = Suc k" by (metis not0_implies_Suc unat_eq_zero)
  then have "de_namelen_at buf tableend maxsize i nameoff = Inl OutOfBounds"
    using last(2) off(3) by (simp add: de_namelen_at_def)
  then show ?thesis
    using last(1) off(1) by (simp add: find_target_dirent.simps [of _ _ _ _ i] dirent_checked_def)
qed

theorem last_dirent_overread_witness:
  "find_target_dirent (replicate 20 0 @ [0x60, 0xea, 1, 0]) [97] 24 24 1 = Inl OutOfBounds"
proof -
  have "de_nameoff_at (replicate 20 0 @ [0x60, 0xea, 1, 0]) 1 = Inr 60000"
    by (simp add: de_nameoff_at_def slice_def codec_eval)
  then show ?thesis using last_dirent_overread [of 1 24 "replicate 20 0 @ [0x60, 0xea, 1, 0]" 60000 24 "[97]"] by simp
qed

end
