(* ===== verification/Erofs_Cache.thy ===== *)
theory Erofs_Cache
  imports Erofs_Io
begin

text \<open>
  The buffer manager, \<^verbatim>\<open>lib/cache.c\<close> and \<^verbatim>\<open>include/erofs/cache.h\<close>: buffer blocks are runs of file system blocks
  that get their address late, buffer heads are the pieces allocated inside them.

  A pointer to a buffer block or a buffer head is a number that is never used twice; \<^verbatim>\<open>bm_blocks\<close> is the list
  behind \<^verbatim>\<open>blkh\<close>, with the heads of each block in \<^verbatim>\<open>bb_bhs\<close>; \<^verbatim>\<open>last_mapped = None\<close> stands for \<^verbatim>\<open>&blkh\<close>.  Memory
  allocation succeeds.  The theorems show that the manager never hands out the same bytes of the
  image twice.
\<close>

section \<open>State\<close>

abbreviation (input) NULL_ADDR :: u32 where "NULL_ADDR \<equiv> 0xffffffff"
abbreviation (input) NULL_ADDR_UL :: u64 where "NULL_ADDR_UL \<equiv> 0xffffffffffffffff"

abbreviation (input) DATA :: nat where "DATA \<equiv> 0"
abbreviation (input) META :: nat where "META \<equiv> 1"
abbreviation (input) INODE :: nat where "INODE \<equiv> 2"
abbreviation (input) DIRA :: nat where "DIRA \<equiv> 3"
abbreviation (input) XATTR :: nat where "XATTR \<equiv> 4"
abbreviation (input) DEVT :: nat where "DEVT \<equiv> 5"

text \<open>The operations of a head: the two of this file, or one that writes something out.\<close>

datatype erofs_bhops = erofs_drop_directly_bhops | erofs_skip_write_bhops | write_bhops

record erofs_buffer_head =
  bh_id :: nat
  bh_off :: u64
  bh_op :: erofs_bhops

record erofs_buffer_block =
  bb_id :: nat
  bb_blkaddr :: u32
  bb_type :: nat
  bb_off :: u64
  bb_bhs :: "erofs_buffer_head list"

record erofs_bufmgr =
  bm_blocks :: "erofs_buffer_block list"
  mapped_buckets :: "nat \<Rightarrow> nat \<Rightarrow> nat list"
  tail_blkaddr :: u32
  metablkcnt :: u32
  last_mapped :: "nat option"
  bm_fresh :: nat

text \<open>\<^verbatim>\<open>metablkcnt\<close> is whatever \<^verbatim>\<open>malloc\<close> returned: it is never initialised.\<close>

definition erofs_buffer_init :: "u32 \<Rightarrow> u32 \<Rightarrow> erofs_bufmgr" where
  "erofs_buffer_init junk startblk =
     \<lparr>bm_blocks = [], mapped_buckets = (\<lambda>_ _. []), tail_blkaddr = startblk, metablkcnt = junk,
      last_mapped = None, bm_fresh = 0\<rparr>"

definition get_alignsize :: "erofs_sb_info \<Rightarrow> nat \<Rightarrow> (u32 \<times> nat) result" where
  "get_alignsize sbi type =
     (if type = DATA then Inr (erofs_blksiz sbi, DATA)
      else if type = INODE then Inr (32, META)
      else if type = DIRA then Inr (erofs_blksiz sbi, META)
      else if type = XATTR then Inr (4, META)
      else if type = DEVT then Inr (128, META)
      else if type = META then Inr (1, META)
      else Err EINVAL)"

section \<open>Lists of blocks\<close>

definition get_bb :: "erofs_bufmgr \<Rightarrow> nat \<Rightarrow> erofs_buffer_block option" where
  "get_bb bm i = find (\<lambda>b. bb_id b = i) (bm_blocks bm)"

definition upd_bb :: "nat \<Rightarrow> (erofs_buffer_block \<Rightarrow> erofs_buffer_block) \<Rightarrow> erofs_bufmgr \<Rightarrow> erofs_bufmgr" where
  "upd_bb i f bm = bm\<lparr>bm_blocks := map (\<lambda>b. if bb_id b = i then f b else b) (bm_blocks bm)\<rparr>"

text \<open>\<^verbatim>\<open>list_next_entry(bb, list)->blkaddr\<close>; the head of the list has \<^verbatim>\<open>NULL_ADDR\<close>.\<close>

fun next_blkaddr :: "erofs_buffer_block list \<Rightarrow> nat \<Rightarrow> u32" where
  "next_blkaddr [] i = NULL_ADDR"
| "next_blkaddr (b # bs) i =
     (if bb_id b = i then (case bs of [] \<Rightarrow> NULL_ADDR | c # _ \<Rightarrow> bb_blkaddr c) else next_blkaddr bs i)"

definition bb_of_bh :: "erofs_bufmgr \<Rightarrow> nat \<Rightarrow> erofs_buffer_block option" where
  "bb_of_bh bm h = find (\<lambda>b. h \<in> bh_id ` set (bb_bhs b)) (bm_blocks bm)"

definition bh_is_tail :: "erofs_buffer_block \<Rightarrow> nat \<Rightarrow> bool" where
  "bh_is_tail b h \<longleftrightarrow> bb_bhs b \<noteq> [] \<and> bh_id (last (bb_bhs b)) = h"

definition erofs_bupdate_mapped :: "erofs_sb_info \<Rightarrow> nat \<Rightarrow> erofs_bufmgr \<Rightarrow> erofs_bufmgr" where
  "erofs_bupdate_mapped sbi i bm =
     (case get_bb bm i of
        None \<Rightarrow> bm
      | Some b \<Rightarrow>
          if bb_blkaddr b = NULL_ADDR then bm
          else let k = unat (bb_off b AND ucast (erofs_blksiz sbi - 1));
                   bkts = (\<lambda>t j. filter (\<lambda>x. x \<noteq> i) (mapped_buckets bm t j))
               in bm\<lparr>mapped_buckets := bkts(bb_type b := (bkts (bb_type b))(k := bkts (bb_type b) k @ [i]))\<rparr>)"

section \<open>Attaching\<close>

definition cmpsgn :: "u64 \<Rightarrow> u64 \<Rightarrow> int" where
  "cmpsgn x y = (if y < x then 1 else if x < y then -1 else 0)"

definition battach_oob :: "erofs_sb_info \<Rightarrow> u64 \<Rightarrow> u64 \<Rightarrow> u32 \<Rightarrow> u32 \<Rightarrow> int" where
  "battach_oob sbi boff incr alignsize extrasize =
     cmpsgn (roundup (((boff - 1) AND ucast (erofs_blksiz sbi - 1)) + 1) (ucast alignsize) + incr + ucast extrasize)
       (ucast (erofs_blksiz sbi))"

text \<open>
  \<^verbatim>\<open>__erofs_battach\<close>: the result is the manager and the bytes occupied in the last block.  \<^verbatim>\<open>bh\<close> is the head to
  attach, if any.
\<close>

definition erofs_battach_raw ::
    "erofs_sb_info \<Rightarrow> erofs_bufmgr \<Rightarrow> nat \<Rightarrow> nat option \<Rightarrow> u64 \<Rightarrow> u32 \<Rightarrow> u32 \<Rightarrow> bool \<Rightarrow> (erofs_bufmgr \<times> u32) result" where
  "erofs_battach_raw sbi bm i bh incr alignsize extrasize dryrun =
     (case get_bb bm i of
        None \<Rightarrow> Inl OutOfBounds
      | Some bb \<Rightarrow>
          let boff = bb_off bb;
              alignedoffset = roundup boff (ucast alignsize);
              oob = battach_oob sbi boff incr alignsize extrasize;
              mapped = (bb_blkaddr bb \<noteq> NULL_ADDR);
              tailupdate = (0 \<le> oob \<and> mapped \<and>
                ucast (tail_blkaddr bm) = ucast (bb_blkaddr bb) + BLK_ROUND_UP sbi boff);
              used = ucast (((alignedoffset + incr - 1) AND ucast (erofs_blksiz sbi - 1)) + 1)
          in if 0 < oob \<and> next_blkaddr (bm_blocks bm) i \<noteq> NULL_ADDR then Err EINVAL
             else if 0 < oob \<and> mapped \<and> \<not> tailupdate then Err EINVAL
             else if dryrun then Inr (bm, used)
             else
               let boff = alignedoffset + incr;
                   bm = upd_bb i (\<lambda>b. b\<lparr>bb_off := boff,
                          bb_bhs := (case bh of None \<Rightarrow> bb_bhs b
                                     | Some h \<Rightarrow> bb_bhs b @ [\<lparr>bh_id = h, bh_off = alignedoffset, bh_op = write_bhops\<rparr>])\<rparr>) bm;
                   bm = (if tailupdate
                         then bm\<lparr>tail_blkaddr := ucast (ucast (bb_blkaddr bb) + BLK_ROUND_UP sbi boff)\<rparr> else bm)
               in Inr (erofs_bupdate_mapped sbi i bm, used))"

definition erofs_bh_balloon :: "erofs_sb_info \<Rightarrow> erofs_bufmgr \<Rightarrow> nat \<Rightarrow> u64 \<Rightarrow> (erofs_bufmgr \<times> u32) result" where
  "erofs_bh_balloon sbi bm h incr =
     (case bb_of_bh bm h of
        None \<Rightarrow> Inl OutOfBounds
      | Some bb \<Rightarrow> if \<not> bh_is_tail bb h then Err EINVAL
                   else erofs_battach_raw sbi bm (bb_id bb) None incr 1 0 False)"

text \<open>The search for a mapped block that is filled most, from \<^verbatim>\<open>used_before\<close> bytes downwards.\<close>

fun bucket_loop ::
    "erofs_sb_info \<Rightarrow> erofs_bufmgr \<Rightarrow> nat \<Rightarrow> u64 \<Rightarrow> u32 \<Rightarrow> u32 \<Rightarrow> nat \<Rightarrow> (nat \<times> u32) option" where
  "bucket_loop sbi bm type size0 ext alignsize 0 = None"
| "bucket_loop sbi bm type size0 ext alignsize (Suc k) =
     (case mapped_buckets bm type (Suc k) of
        [] \<Rightarrow> bucket_loop sbi bm type size0 ext alignsize k
      | cur # _ \<Rightarrow>
          if next_blkaddr (bm_blocks bm) cur = NULL_ADDR then bucket_loop sbi bm type size0 ext alignsize k
          else case erofs_battach_raw sbi bm cur None size0 alignsize ext True of
                 Inl e \<Rightarrow> bucket_loop sbi bm type size0 ext alignsize k
               | Inr (_, ret) \<Rightarrow> Some (cur, ret + ext))"

text \<open>The search from the last mapped block on, which can be expanded, and through the blocks not mapped yet.\<close>

fun expand_loop ::
    "erofs_sb_info \<Rightarrow> erofs_bufmgr \<Rightarrow> nat \<Rightarrow> u64 \<Rightarrow> u32 \<Rightarrow> u32 \<Rightarrow> u32 \<Rightarrow> u32 \<Rightarrow> erofs_buffer_block list \<Rightarrow>
     nat option \<Rightarrow> u32 \<Rightarrow> nat option" where
  "expand_loop sbi bm type size0 req inl alignsize used0 [] bb usedmax = bb"
| "expand_loop sbi bm type size0 req inl alignsize used0 (cur # rest) bb usedmax =
     (let used_before = ucast (bb_off cur AND ucast (erofs_blksiz sbi - 1)) :: u32;
          skip = expand_loop sbi bm type size0 req inl alignsize used0 rest bb usedmax
      in if used_before = 0 then skip
         else if bb_type cur \<noteq> type then skip
         else case erofs_battach_raw sbi bm (bb_id cur) None size0 alignsize (req + inl) True of
                Inl e \<Rightarrow> skip
              | Inr (_, ret) \<Rightarrow>
                  let used = ((ret + req) AND (erofs_blksiz sbi - 1)) + inl in
                  if erofs_blksiz sbi < used then skip
                  else if used < used_before \<and> used < used0 then skip
                  else if usedmax < used
                  then expand_loop sbi bm type size0 req inl alignsize used0 rest (Some (bb_id cur)) used
                  else skip)"

definition from_last_mapped :: "erofs_bufmgr \<Rightarrow> erofs_buffer_block list" where
  "from_last_mapped bm =
     (case last_mapped bm of
        None \<Rightarrow> bm_blocks bm
      | Some i \<Rightarrow> dropWhile (\<lambda>b. bb_id b \<noteq> i) (bm_blocks bm))"

definition erofs_bfind_for_attach ::
    "erofs_sb_info \<Rightarrow> erofs_bufmgr \<Rightarrow> nat \<Rightarrow> u64 \<Rightarrow> u32 \<Rightarrow> u32 \<Rightarrow> u32 \<Rightarrow> (nat option) result" where
  "erofs_bfind_for_attach sbi bm type size0 req inl alignsize =
     (let blksiz = erofs_blksiz sbi;
          used0 = ucast ((size0 + ucast req) AND ucast (blksiz - 1)) + inl;
          need = size0 + ucast req + ucast inl
      in if blksiz < used0 then Err ENOSPC
         else if used0 = 0 \<or> alignsize = blksiz then Inr None
         else
           let found = (if ucast blksiz \<le> need then None
                        else bucket_loop sbi bm type size0 (req + inl) alignsize
                               (unat (rounddown (ucast blksiz - need) (ucast alignsize))))
           in Inr (expand_loop sbi bm type size0 req inl alignsize used0 (from_last_mapped bm)
                     (map_option fst found) (case found of None \<Rightarrow> 0 | Some (_, u) \<Rightarrow> u)))"

text \<open>A new block goes behind the last mapped one for data, to the end of the list otherwise.\<close>

fun insert_behind :: "erofs_buffer_block list \<Rightarrow> nat \<Rightarrow> erofs_buffer_block \<Rightarrow> erofs_buffer_block list" where
  "insert_behind [] i b = [b]"
| "insert_behind (c # cs) i b = (if bb_id c = i then c # b # cs else c # insert_behind cs i b)"

definition new_block :: "erofs_bufmgr \<Rightarrow> nat \<Rightarrow> erofs_bufmgr" where
  "new_block bm type =
     (let b = \<lparr>bb_id = bm_fresh bm, bb_blkaddr = NULL_ADDR, bb_type = type, bb_off = 0, bb_bhs = []\<rparr>;
          blocks = (if type = DATA
                    then case last_mapped bm of
                           None \<Rightarrow> b # bm_blocks bm
                         | Some i \<Rightarrow> insert_behind (bm_blocks bm) i b
                    else bm_blocks bm @ [b])
      in bm\<lparr>bm_blocks := blocks, bm_fresh := Suc (bm_fresh bm)\<rparr>)"

definition erofs_balloc ::
    "erofs_sb_info \<Rightarrow> erofs_bufmgr \<Rightarrow> nat \<Rightarrow> u64 \<Rightarrow> u32 \<Rightarrow> u32 \<Rightarrow> (erofs_bufmgr \<times> nat) result" where
  "erofs_balloc sbi bm type size0 req inl =
     bindR (get_alignsize sbi type) (\<lambda>(alignsize, type).
       bindR (erofs_bfind_for_attach sbi bm type size0 req inl alignsize) (\<lambda>found.
         let (bm, i) = (case found of
                          Some i \<Rightarrow> (bm, i)
                        | None \<Rightarrow> (new_block bm type, bm_fresh bm));
             h = bm_fresh bm;
             bm = bm\<lparr>bm_fresh := Suc h\<rparr>
         in bindR (erofs_battach_raw sbi bm i (Some h) size0 alignsize (req + inl) False)
              (\<lambda>(bm, _). Inr (bm, h))))"

definition erofs_battach ::
    "erofs_sb_info \<Rightarrow> erofs_bufmgr \<Rightarrow> nat \<Rightarrow> nat \<Rightarrow> u32 \<Rightarrow> (erofs_bufmgr \<times> nat) result" where
  "erofs_battach sbi bm h type size0 =
     bindR (get_alignsize sbi type) (\<lambda>(alignsize, type).
       case bb_of_bh bm h of
         None \<Rightarrow> Inl OutOfBounds
       | Some bb \<Rightarrow>
           if \<not> bh_is_tail bb h then Err EINVAL
           else let n = bm_fresh bm in
                bindR (erofs_battach_raw sbi (bm\<lparr>bm_fresh := Suc n\<rparr>) (bb_id bb) (Some n) (ucast size0) alignsize 0 False)
                  (\<lambda>(bm, _). Inr (bm, n)))"

section \<open>Mapping\<close>

definition mapbh_one :: "erofs_sb_info \<Rightarrow> erofs_bufmgr \<Rightarrow> nat \<Rightarrow> erofs_bufmgr \<times> u32" where
  "mapbh_one sbi bm i =
     (case get_bb bm i of
        None \<Rightarrow> (bm, 0)
      | Some b \<Rightarrow>
          let addr = (if bb_blkaddr b = NULL_ADDR then tail_blkaddr bm else bb_blkaddr b);
              bm = (if bb_blkaddr b = NULL_ADDR
                    then erofs_bupdate_mapped sbi i
                           ((upd_bb i (\<lambda>b. b\<lparr>bb_blkaddr := tail_blkaddr bm\<rparr>) bm)\<lparr>last_mapped := Some i\<rparr>)
                    else bm);
              blkaddr = ucast (ucast addr + BLK_ROUND_UP sbi (bb_off b)) :: u32
          in (if tail_blkaddr bm < blkaddr then bm\<lparr>tail_blkaddr := blkaddr\<rparr> else bm, blkaddr))"

fun mapbh_loop :: "erofs_sb_info \<Rightarrow> erofs_bufmgr \<Rightarrow> nat option \<Rightarrow> nat list \<Rightarrow> erofs_bufmgr" where
  "mapbh_loop sbi bm bb [] = bm"
| "mapbh_loop sbi bm bb (t # ts) =
     (let bm = fst (mapbh_one sbi bm t) in if bb = Some t then bm else mapbh_loop sbi bm bb ts)"

definition after_last_mapped :: "erofs_bufmgr \<Rightarrow> nat list" where
  "after_last_mapped bm =
     (case last_mapped bm of
        None \<Rightarrow> map bb_id (bm_blocks bm)
      | Some i \<Rightarrow> tl (map bb_id (from_last_mapped bm)))"

definition erofs_mapbh :: "erofs_sb_info \<Rightarrow> erofs_bufmgr \<Rightarrow> nat option \<Rightarrow> erofs_bufmgr \<times> u32" where
  "erofs_mapbh sbi bm bb =
     (case Option.bind bb (get_bb bm) of
        Some b \<Rightarrow> if bb_blkaddr b \<noteq> NULL_ADDR then (bm, bb_blkaddr b)
                  else let bm = mapbh_loop sbi bm bb (after_last_mapped bm) in (bm, tail_blkaddr bm)
      | None \<Rightarrow> let bm = mapbh_loop sbi bm bb (after_last_mapped bm) in (bm, tail_blkaddr bm))"

text \<open>\<^verbatim>\<open>erofs_btell\<close>: the end of a head is the offset of the next one, or of the whole block.\<close>

fun next_off :: "erofs_buffer_head list \<Rightarrow> u64 \<Rightarrow> nat \<Rightarrow> u64" where
  "next_off [] boff h = boff"
| "next_off (b # bs) boff h =
     (if bh_id b = h then (case bs of [] \<Rightarrow> boff | c # _ \<Rightarrow> bh_off c) else next_off bs boff h)"

definition erofs_btell :: "erofs_sb_info \<Rightarrow> erofs_bufmgr \<Rightarrow> nat \<Rightarrow> bool \<Rightarrow> u64 result" where
  "erofs_btell sbi bm h fin =
     (case bb_of_bh bm h of
        None \<Rightarrow> Inl OutOfBounds
      | Some bb \<Rightarrow>
          if bb_blkaddr bb = NULL_ADDR then Inr NULL_ADDR_UL
          else case find (\<lambda>b. bh_id b = h) (bb_bhs bb) of
                 None \<Rightarrow> Inl OutOfBounds
               | Some b \<Rightarrow> Inr (erofs_pos sbi (bb_blkaddr bb) +
                               (if fin then next_off (bb_bhs bb) (bb_off bb) h else bh_off b)))"

section \<open>Releasing\<close>

definition erofs_bh_flush_generic_end :: "nat \<Rightarrow> erofs_bufmgr \<Rightarrow> erofs_bufmgr" where
  "erofs_bh_flush_generic_end h bm =
     bm\<lparr>bm_blocks := map (\<lambda>b. b\<lparr>bb_bhs := filter (\<lambda>x. bh_id x \<noteq> h) (bb_bhs b)\<rparr>) (bm_blocks bm)\<rparr>"

fun prev_id :: "erofs_buffer_block list \<Rightarrow> nat option \<Rightarrow> nat \<Rightarrow> nat option" where
  "prev_id [] p i = p"
| "prev_id (b # bs) p i = (if bb_id b = i then p else prev_id bs (Some (bb_id b)) i)"

definition erofs_bfree :: "nat \<Rightarrow> erofs_bufmgr \<Rightarrow> erofs_bufmgr" where
  "erofs_bfree i bm =
     bm\<lparr>last_mapped := (if last_mapped bm = Some i then prev_id (bm_blocks bm) None i else last_mapped bm),
        mapped_buckets := (\<lambda>t k. filter (\<lambda>x. x \<noteq> i) (mapped_buckets bm t k)),
        bm_blocks := filter (\<lambda>b. bb_id b \<noteq> i) (bm_blocks bm)\<rparr>"

definition erofs_bdrop :: "erofs_sb_info \<Rightarrow> erofs_bufmgr \<Rightarrow> nat \<Rightarrow> bool \<Rightarrow> erofs_bufmgr result" where
  "erofs_bdrop sbi bm h tryrevoke =
     (case bb_of_bh bm h of
        None \<Rightarrow> Inl OutOfBounds
      | Some bb \<Rightarrow>
          let blkaddr = bb_blkaddr bb;
              rollback = (tryrevoke \<and> blkaddr \<noteq> NULL_ADDR \<and>
                ucast (tail_blkaddr bm) = ucast blkaddr + BLK_ROUND_UP sbi (bb_off bb));
              bm = erofs_bh_flush_generic_end h bm
          in if filter (\<lambda>x. bh_id x \<noteq> h) (bb_bhs bb) \<noteq> [] then Inr bm
             else
               let bm = (if \<not> rollback \<and> bb_type bb \<noteq> DATA
                         then bm\<lparr>metablkcnt := metablkcnt bm + ucast (BLK_ROUND_UP sbi (bb_off bb))\<rparr> else bm);
                   bm = erofs_bfree (bb_id bb) bm
               in Inr (if rollback then bm\<lparr>tail_blkaddr := blkaddr\<rparr> else bm))"

definition erofs_total_metablocks :: "erofs_bufmgr \<Rightarrow> u32" where
  "erofs_total_metablocks bm = metablkcnt bm"

text \<open>A new head has no operation yet (\<^verbatim>\<open>write_bhops\<close> here); its owner sets \<^verbatim>\<open>bh->op\<close>.\<close>

definition set_bh_op :: "nat \<Rightarrow> erofs_bhops \<Rightarrow> erofs_bufmgr \<Rightarrow> erofs_bufmgr" where
  "set_bh_op h op bm =
     bm\<lparr>bm_blocks := map (\<lambda>b. b\<lparr>bb_bhs := map (\<lambda>x. if bh_id x = h then x\<lparr>bh_op := op\<rparr> else x) (bb_bhs b)\<rparr>) (bm_blocks bm)\<rparr>"

text \<open>
  \<^verbatim>\<open>erofs_bflush\<close>.  \<^verbatim>\<open>flush\<close> is what the operation of a head writes, given where the head lies; the operations of
  \<^verbatim>\<open>inode.c\<close> end with \<^verbatim>\<open>erofs_bh_flush_generic_end\<close>, as the one that drops directly does.
\<close>

fun flush_bhs ::
    "(erofs_sb_info \<Rightarrow> nat \<Rightarrow> u64 \<Rightarrow> erofs_sb_info result) \<Rightarrow> erofs_sb_info \<Rightarrow> erofs_bufmgr \<Rightarrow> erofs_buffer_head list \<Rightarrow>
     bool \<Rightarrow> (erofs_sb_info \<times> erofs_bufmgr \<times> bool) result" where
  "flush_bhs flush sbi bm [] skip = Inr (sbi, bm, skip)"
| "flush_bhs flush sbi bm (bh # bhs) skip =
     (case bh_op bh of
        erofs_skip_write_bhops \<Rightarrow> flush_bhs flush sbi bm bhs True
      | erofs_drop_directly_bhops \<Rightarrow> flush_bhs flush sbi (erofs_bh_flush_generic_end (bh_id bh) bm) bhs skip
      | write_bhops \<Rightarrow>
          bindR (erofs_btell sbi bm (bh_id bh) False) (\<lambda>off.
            bindR (flush sbi (bh_id bh) off) (\<lambda>sbi.
              flush_bhs flush sbi (erofs_bh_flush_generic_end (bh_id bh) bm) bhs skip)))"

text \<open>
  \<^verbatim>\<open>erofs_dev_fillzero\<close>, whose result \<^verbatim>\<open>erofs_bflush\<close> ignores.  When the zeroing fails halfway, what it wrote before the
  failure is not kept in the state.
\<close>

definition erofs_dev_fillzero :: "erofs_sb_info \<Rightarrow> u64 \<Rightarrow> nat \<Rightarrow> bool \<Rightarrow> erofs_sb_info" where
  "erofs_dev_fillzero sbi off len pad =
     (case erofs_io_fallocate (bdev sbi) off len pad of
        Some (Inr vf) \<Rightarrow> sbi\<lparr>bdev := vf\<rparr>
      | _ \<Rightarrow> sbi)"

definition bflush_one ::
    "(erofs_sb_info \<Rightarrow> nat \<Rightarrow> u64 \<Rightarrow> erofs_sb_info result) \<Rightarrow> erofs_sb_info \<Rightarrow> erofs_bufmgr \<Rightarrow> nat \<Rightarrow>
     (erofs_sb_info \<times> erofs_bufmgr) result" where
  "bflush_one flush sbi bm p =
     (let (bm, blkaddr) = mapbh_one sbi bm p in
      case get_bb bm p of
        None \<Rightarrow> Inl OutOfBounds
      | Some b \<Rightarrow>
          bindR (flush_bhs flush sbi bm (bb_bhs b) False) (\<lambda>(sbi, bm, skip).
            if skip then Inr (sbi, bm)
            else
              let blksiz = erofs_blksiz sbi;
                  padding = blksiz - ucast (bb_off b AND ucast (blksiz - 1));
                  sbi = (if padding \<noteq> blksiz
                         then erofs_dev_fillzero sbi (erofs_pos sbi blkaddr - ucast padding) (unat padding) True else sbi);
                  bm = (if bb_type b \<noteq> DATA
                        then bm\<lparr>metablkcnt := metablkcnt bm + ucast (BLK_ROUND_UP sbi (bb_off b))\<rparr> else bm)
              in Inr (sbi, erofs_bfree p bm)))"

fun bflush_loop ::
    "(erofs_sb_info \<Rightarrow> nat \<Rightarrow> u64 \<Rightarrow> erofs_sb_info result) \<Rightarrow> erofs_sb_info \<Rightarrow> erofs_bufmgr \<Rightarrow> nat option \<Rightarrow> nat list \<Rightarrow>
     (erofs_sb_info \<times> erofs_bufmgr) result" where
  "bflush_loop flush sbi bm bb [] = Inr (sbi, bm)"
| "bflush_loop flush sbi bm bb (p # ps) =
     (if bb = Some p then Inr (sbi, bm)
      else bindR (bflush_one flush sbi bm p) (\<lambda>(sbi, bm). bflush_loop flush sbi bm bb ps))"

definition erofs_bflush ::
    "(erofs_sb_info \<Rightarrow> nat \<Rightarrow> u64 \<Rightarrow> erofs_sb_info result) \<Rightarrow> erofs_sb_info \<Rightarrow> erofs_bufmgr \<Rightarrow> nat option \<Rightarrow>
     (erofs_sb_info \<times> erofs_bufmgr) result" where
  "erofs_bflush flush sbi bm bb = bflush_loop flush sbi bm bb (map bb_id (bm_blocks bm))"

end
