(* ===== verification/Erofs_Bufmgr.thy ===== *)
theory Erofs_Bufmgr
  imports Erofs_Cache
begin

text \<open>
  The invariant of the buffer manager of \<^theory_text>\<open>Erofs_Cache\<close>: mapped buffer blocks lie one behind the other below
  \<^verbatim>\<open>tail_blkaddr\<close>, and every operation of \<^verbatim>\<open>lib/cache.c\<close> keeps it so.  From it follow the promises the rest of
  mkfs relies on: two allocations never share a byte of the image, and inline data fit into the block
  of their inode.
\<close>

section \<open>Arithmetic of block counts\<close>

definition nceil :: "nat \<Rightarrow> nat \<Rightarrow> nat" where
  "nceil B n = (n + B - 1) div B"

definition nround :: "nat \<Rightarrow> nat \<Rightarrow> nat" where
  "nround a n = nceil a n * a"

lemma nceil_bounds:
  assumes "0 < B"
  shows "n \<le> nceil B n * B" and "nceil B n * B < n + B"
  using ceil_div_bounds [OF assms, of n] by (simp_all add: nceil_def)

lemma nceil_eqI:
  assumes "0 < B" "n \<le> k * B" "k * B < n + B"
  shows "nceil B n = k"
proof -
  note b = nceil_bounds [OF assms(1), of n]
  have "nceil B n * B < (k + 1) * B" "k * B < (nceil B n + 1) * B" using assms b by (simp_all add: algebra_simps)
  then have "nceil B n < k + 1" "k < nceil B n + 1" by (simp_all only: mult_less_cancel2)
  then show ?thesis by simp
qed

lemma nceil_le:
  assumes "0 < B" "n \<le> k * B"
  shows "nceil B n \<le> k"
proof -
  have "nceil B n * B < (k + 1) * B" using nceil_bounds(2) [OF assms(1), of n] assms(2) by simp
  then have "nceil B n < k + 1" by (simp only: mult_less_cancel2)
  then show ?thesis by simp
qed

lemma nceil_mono: "0 < B \<Longrightarrow> m \<le> n \<Longrightarrow> nceil B m \<le> nceil B n"
  by (simp add: nceil_def div_le_mono)

lemma nceil_0 [simp]: "0 < B \<Longrightarrow> nceil B 0 = 0"
  by (simp add: nceil_def)

text \<open>Position of an offset in its last block, from 1 to \<^verbatim>\<open>B\<close>.\<close>

definition lastpos :: "nat \<Rightarrow> nat \<Rightarrow> nat" where
  "lastpos B n = (if n = 0 then B else (n - 1) mod B + 1)"

lemma lastpos_split:
  assumes "0 < B" "0 < n"
  shows "n = (nceil B n - 1) * B + lastpos B n" and "0 < nceil B n" and "lastpos B n \<le> B"
proof -
  have e: "n + B - 1 = (n - 1) + B" using assms by simp
  have c: "nceil B n = (n - 1) div B + 1" using assms(1) unfolding nceil_def e by (subst div_add_self2) simp_all
  show "0 < nceil B n" by (simp add: c)
  have "(n - 1) div B * B + (n - 1) mod B = n - 1" by simp
  then show "n = (nceil B n - 1) * B + lastpos B n" using assms by (simp add: c lastpos_def)
  have "(n - 1) mod B < B" using assms(1) by simp
  then show "lastpos B n \<le> B" by (simp add: lastpos_def)
qed

lemma lastpos_le: "0 < B \<Longrightarrow> lastpos B n \<le> B"
  by (simp add: lastpos_def Suc_le_eq)

lemma nround_bounds: "0 < a \<Longrightarrow> n \<le> nround a n" "0 < a \<Longrightarrow> nround a n < n + a" "a dvd nround a n"
  using nceil_bounds [of a n] by (simp_all add: nround_def)

lemma nround_add_mult:
  assumes "0 < a" "a dvd k"
  shows "nround a (k + n) = k + nround a n"
proof -
  obtain j where j: "k = a * j" using assms(2) by blast
  have "k + n + a - 1 = n + a - 1 + a * j" using assms(1) by (simp add: j)
  then have "(k + n + a - 1) div a = (n + a - 1 + a * j) div a" by (simp only:)
  also have "\<dots> = (n + a - 1) div a + j" using assms(1) by (subst div_mult_self2) simp_all
  finally have "(k + n + a - 1) div a = (n + a - 1) div a + j" .
  then show ?thesis by (simp add: nround_def nceil_def j algebra_simps)
qed

lemma nround_le:
  assumes "0 < a" "a dvd B" "n \<le> B"
  shows "nround a n \<le> B"
proof -
  obtain j where j: "B = a * j" using assms(2) by blast
  have "nceil a n \<le> j" using assms by (intro nceil_le) (simp_all add: j mult.commute)
  then show ?thesis by (simp add: nround_def j mult.commute)
qed

text \<open>The offset after an allocation: in the same block if the data and the extra bytes fit there, at most as
  many more blocks as the data fill otherwise.\<close>

lemma attach_same_block:
  assumes "0 < B" "0 < a" "a dvd B" "nround a (lastpos B n) + incr \<le> B"
  shows "nceil B (nround a n + incr) = nceil B n"
proof (cases "n = 0")
  case True
  have "nround a B = B" using assms(2,3) nround_le [OF assms(2,3), of B] nround_bounds(1) [OF assms(2), of B] by simp
  then have "incr = 0" using assms(4) True by (simp add: lastpos_def)
  then show ?thesis using True assms(2) by (simp add: nround_def)
next
  case False
  let ?k = "nceil B n"
  have s: "n = (?k - 1) * B + lastpos B n" "0 < ?k" using lastpos_split [OF assms(1)] False by auto
  have r: "nround a n = (?k - 1) * B + nround a (lastpos B n)"
    using nround_add_mult [OF assms(2), of "(?k - 1) * B" "lastpos B n"] assms(3) s(1) by simp
  show ?thesis
  proof (rule nceil_eqI [OF assms(1)])
    have "(?k - 1) * B + B = ?k * B" using s(2) by (metis Suc_diff_1 add.commute mult_Suc)
    then show "nround a n + incr \<le> ?k * B" using r assms(4) by linarith
    show "?k * B < nround a n + incr + B"
      using nceil_bounds(2) [OF assms(1), of n] nround_bounds(1) [OF assms(2), of n] by linarith
  qed
qed

lemma attach_more_blocks:
  assumes "0 < B" "0 < a" "a dvd B"
  shows "nceil B (nround a n + incr) \<le> nceil B n + nceil B incr"
proof (rule nceil_le [OF assms(1)])
  have "nround a n \<le> nceil B n * B"
    using nround_le [OF assms(2), of "nceil B n * B" n] assms(3) nceil_bounds(1) [OF assms(1), of n] by simp
  then show "nround a n + incr \<le> (nceil B n + nceil B incr) * B"
    using nceil_bounds(1) [OF assms(1), of incr] by (simp add: algebra_simps)
qed

lemma attach_grows:
  assumes "0 < B" "0 < a"
  shows "nceil B n \<le> nceil B (nround a n + incr)"
  using nround_bounds(1) [OF assms(2), of n] by (intro nceil_mono [OF assms(1)]) simp

section \<open>Values of the words\<close>

lemma unat_BLK_ROUND_UP_nceil:
  assumes "blkbits sbi \<le> 12" "unat x < 2 ^ 60"
  shows "unat (BLK_ROUND_UP sbi x) = nceil (2 ^ blkbits sbi) (unat x)"
proof -
  have "(2 :: nat) ^ blkbits sbi \<le> 2 ^ 12" using assms(1) by (intro power_increasing) auto
  then show ?thesis using assms unat_BLK_ROUND_UP [of sbi x] by (simp add: nceil_def)
qed

lemma unat_roundup_nround:
  assumes "unat x < 2 ^ 60" "0 < unat a"
  shows "unat (roundup (x :: u64) (ucast (a :: u32))) = nround (unat a) (unat x)"
proof -
  have a: "unat (ucast a :: u64) = unat a" by (simp add: unat_ucast_up)
  have "unat a < 2 ^ 32" using unsigned_less [of a] by simp
  then show ?thesis using assms unat_roundup [of "ucast a :: u64" x] by (simp add: a nround_def nceil_def)
qed

lemma unat_lastpos:
  assumes b: "blkbits sbi \<le> 12"
  shows "unat (((x :: u64) - 1 AND ucast (erofs_blksiz sbi - 1)) + 1) = lastpos (2 ^ blkbits sbi) (unat x)"
proof -
  let ?B = "2 ^ blkbits sbi :: nat"
  have B: "?B \<le> 2 ^ 12" using b by (intro power_increasing) auto
  have m: "unat (x - 1 AND ucast (erofs_blksiz sbi - 1)) = unat (x - 1) mod ?B"
    using unat_erofs_blkoff [of sbi "x - 1"] b by (simp add: erofs_blkoff_def)
  have "unat (x - 1) mod ?B < 2 ^ 12" by (rule less_le_trans [OF mod_less_divisor B]) simp
  then have s: "unat ((x - 1 AND ucast (erofs_blksiz sbi - 1)) + 1) = unat (x - 1) mod ?B + 1"
    by (simp add: unat_word_ariths m)
  show ?thesis
  proof (cases "x = 0")
    case True
    have "unat (x - 1) = 2 ^ 64 - 1" using True by (simp add: unsigned_minus_1_eq_mask mask_eq_exp_minus_1)
    moreover have "(2 ^ 64 - 1 :: nat) mod ?B = ?B - 1"
    proof -
      have d: "(2 :: nat) ^ 64 = 2 ^ (64 - blkbits sbi) * ?B" using b by (simp flip: power_add)
      have "(2 :: nat) ^ 64 - 1 = (2 ^ (64 - blkbits sbi) - 1) * ?B + (?B - 1)"
        unfolding d by (simp add: diff_mult_distrib)
      then show ?thesis by (simp only: mod_mult_self3) simp
    qed
    ultimately show ?thesis using s True by (simp add: lastpos_def)
  next
    case False
    then have "unat (x - 1) = unat x - 1" by (simp add: unat_minus_one)
    moreover have "unat x \<noteq> 0" using False by (simp add: unat_eq_0)
    ultimately show ?thesis using s by (simp add: lastpos_def)
  qed
qed


section \<open>The invariant\<close>

definition bb_mapped :: "erofs_buffer_block \<Rightarrow> bool" where
  "bb_mapped b \<longleftrightarrow> bb_blkaddr b \<noteq> NULL_ADDR"

definition bcnt :: "erofs_sb_info \<Rightarrow> erofs_buffer_block \<Rightarrow> nat" where
  "bcnt sbi b = nceil (2 ^ blkbits sbi) (unat (bb_off b))"

definition bend :: "erofs_sb_info \<Rightarrow> erofs_buffer_block \<Rightarrow> nat" where
  "bend sbi b = unat (bb_blkaddr b) + bcnt sbi b"

text \<open>The blocks the image will have once everything is mapped.\<close>

definition bm_need :: "erofs_sb_info \<Rightarrow> erofs_bufmgr \<Rightarrow> nat" where
  "bm_need sbi bm = unat (tail_blkaddr bm) + sum_list (map (bcnt sbi) (filter (\<lambda>b. \<not> bb_mapped b) (bm_blocks bm)))"

text \<open>Mapped blocks come first, in ascending and disjoint runs below \<^verbatim>\<open>tail_blkaddr\<close>.\<close>

definition laid_out ::
    "erofs_sb_info \<Rightarrow> erofs_bufmgr \<Rightarrow> erofs_buffer_block list \<Rightarrow> erofs_buffer_block list \<Rightarrow> bool" where
  "laid_out sbi bm ms us \<longleftrightarrow>
     bm_blocks bm = ms @ us \<and> list_all bb_mapped ms \<and> list_all (\<lambda>b. \<not> bb_mapped b) us \<and>
     last_mapped bm = (if ms = [] then None else Some (bb_id (last ms))) \<and>
     sorted_wrt (\<lambda>a b. bend sbi a \<le> unat (bb_blkaddr b)) ms \<and>
     list_all (\<lambda>b. bend sbi b \<le> unat (tail_blkaddr bm)) ms"

definition bh_ids :: "erofs_bufmgr \<Rightarrow> nat list" where
  "bh_ids bm = map bh_id (concat (map bb_bhs (bm_blocks bm)))"

definition ids_ok :: "erofs_bufmgr \<Rightarrow> bool" where
  "ids_ok bm \<longleftrightarrow> distinct (map bb_id (bm_blocks bm)) \<and> distinct (bh_ids bm) \<and>
     (\<forall>i \<in> set (map bb_id (bm_blocks bm)). i < bm_fresh bm) \<and> (\<forall>i \<in> set (bh_ids bm). i < bm_fresh bm)"

definition heads_ok :: "erofs_buffer_block \<Rightarrow> bool" where
  "heads_ok b \<longleftrightarrow> sorted_wrt (\<lambda>x y. bh_off x \<le> bh_off y) (bb_bhs b) \<and> (\<forall>h \<in> set (bb_bhs b). bh_off h \<le> bb_off b)"

text \<open>A bucket holds mapped blocks of its type that end at its offset.\<close>

definition buckets_ok :: "erofs_sb_info \<Rightarrow> erofs_bufmgr \<Rightarrow> bool" where
  "buckets_ok sbi bm \<longleftrightarrow>
     (\<forall>t k i. i \<in> set (mapped_buckets bm t k) \<longrightarrow>
        (\<exists>b \<in> set (bm_blocks bm). bb_id b = i \<and> bb_mapped b \<and> bb_type b = t \<and> unat (bb_off b) mod 2 ^ blkbits sbi = k))"

definition bm_inv :: "erofs_sb_info \<Rightarrow> erofs_bufmgr \<Rightarrow> bool" where
  "bm_inv sbi bm \<longleftrightarrow>
     (\<exists>ms us. laid_out sbi bm ms us) \<and> ids_ok bm \<and> list_all heads_ok (bm_blocks bm) \<and> buckets_ok sbi bm \<and>
     bm_need sbi bm < 2 ^ 32 - 1"

lemma buckets_okE:
  assumes "buckets_ok sbi bm" "x \<in> set (mapped_buckets bm t j)"
  obtains c where "c \<in> set (bm_blocks bm)" "bb_id c = x" "bb_mapped c" "bb_type c = t" "unat (bb_off c) mod 2 ^ blkbits sbi = j"
  using assms unfolding buckets_ok_def by blast

lemma bcnt_bound:
  assumes "bm_inv sbi bm" and "b \<in> set (bm_blocks bm)"
  shows "bcnt sbi b < 2 ^ 32"
proof -
  obtain ms us where l: "laid_out sbi bm ms us" using assms(1) by (auto simp: bm_inv_def)
  have n: "bm_need sbi bm < 2 ^ 32 - 1" using assms(1) by (simp add: bm_inv_def)
  show ?thesis
  proof (cases "bb_mapped b")
    case True
    then have "bend sbi b \<le> unat (tail_blkaddr bm)"
      using l assms(2) by (auto simp: laid_out_def list_all_iff)
    then show ?thesis using n by (simp add: bend_def bm_need_def)
  next
    case False
    then have "bcnt sbi b \<in> set (map (bcnt sbi) (filter (\<lambda>b. \<not> bb_mapped b) (bm_blocks bm)))" using assms(2) by auto
    then have "bcnt sbi b \<le> sum_list (map (bcnt sbi) (filter (\<lambda>b. \<not> bb_mapped b) (bm_blocks bm)))"
      by (rule member_le_sum_list) simp
    then show ?thesis using n by (simp add: bm_need_def)
  qed
qed

lemma off_bound:
  assumes "bm_inv sbi bm" and "b \<in> set (bm_blocks bm)" and "blkbits sbi \<le> 12"
  shows "unat (bb_off b) < 2 ^ 44"
proof -
  have "unat (bb_off b) \<le> bcnt sbi b * 2 ^ blkbits sbi" by (simp add: bcnt_def nceil_bounds)
  also have "\<dots> \<le> bcnt sbi b * 2 ^ 12" using assms(3) by (intro mult_left_mono power_increasing) auto
  also have "\<dots> < 2 ^ 44" using bcnt_bound [OF assms(1,2)] by simp
  finally show ?thesis .
qed

lemma find_split:
  assumes "distinct (map f xs)" "find (\<lambda>x. f x = i) xs = Some x"
  shows "\<exists>as bs. xs = as @ x # bs \<and> f x = i \<and> i \<notin> f ` set as \<and> i \<notin> f ` set bs"
proof -
  obtain k where k: "k < length xs" "f (xs ! k) = i" "x = xs ! k" using assms(2) by (auto simp: find_Some_iff)
  then have xs: "xs = take k xs @ x # drop (Suc k) xs" by (simp add: id_take_nth_drop)
  then have "distinct (map f (take k xs @ x # drop (Suc k) xs))" using assms(1) by metis
  then have "i \<notin> f ` set (take k xs)" "i \<notin> f ` set (drop (Suc k) xs)" using k by auto
  then show ?thesis using xs k by metis
qed

lemma get_bb_split:
  assumes "ids_ok bm" "get_bb bm i = Some b"
  obtains xs ys where "bm_blocks bm = xs @ b # ys" "bb_id b = i" "i \<notin> bb_id ` set xs" "i \<notin> bb_id ` set ys"
  using find_split [of bb_id "bm_blocks bm" i b] assms by (auto simp: ids_ok_def get_bb_def)

lemma next_blkaddr_split:
  "i \<notin> bb_id ` set xs \<Longrightarrow> bb_id b = i \<Longrightarrow>
     next_blkaddr (xs @ b # ys) i = (case ys of [] \<Rightarrow> NULL_ADDR | c # _ \<Rightarrow> bb_blkaddr c)"
  by (induction xs) auto

lemma upd_bb_split:
  assumes "bm_blocks bm = xs @ b # ys" "bb_id b = i" "i \<notin> bb_id ` set xs" "i \<notin> bb_id ` set ys"
  shows "upd_bb i f bm = bm\<lparr>bm_blocks := xs @ f b # ys\<rparr>"
proof -
  have "map (\<lambda>c. if bb_id c = i then f c else c) zs = zs" if "i \<notin> bb_id ` set zs" for zs
    using that by (induction zs) auto
  then show ?thesis using assms by (simp add: upd_bb_def)
qed

lemma bupdate_mapped_same [simp]:
  "bm_blocks (erofs_bupdate_mapped sbi i bm) = bm_blocks bm"
  "tail_blkaddr (erofs_bupdate_mapped sbi i bm) = tail_blkaddr bm"
  "last_mapped (erofs_bupdate_mapped sbi i bm) = last_mapped bm"
  "bm_fresh (erofs_bupdate_mapped sbi i bm) = bm_fresh bm"
  "metablkcnt (erofs_bupdate_mapped sbi i bm) = metablkcnt bm"
  by (simp_all add: erofs_bupdate_mapped_def Let_def split: option.split)

lemma get_bb_here:
  "bm_blocks bm = xs @ b # ys \<Longrightarrow> bb_id b = i \<Longrightarrow> i \<notin> bb_id ` set xs \<Longrightarrow> get_bb bm i = Some b"
proof -
  have "find (\<lambda>b. bb_id b = i) (zs @ b # ys) = Some b" if "bb_id b = i" "i \<notin> bb_id ` set zs" for zs
    using that by (induction zs) auto
  then show "bm_blocks bm = xs @ b # ys \<Longrightarrow> bb_id b = i \<Longrightarrow> i \<notin> bb_id ` set xs \<Longrightarrow> get_bb bm i = Some b"
    by (simp add: get_bb_def)
qed

text \<open>Buckets after one block has changed, provided it is put into its new bucket.\<close>

lemma buckets_ok_update:
  assumes ok: "buckets_ok sbi bm0" and same: "mapped_buckets bm = mapped_buckets bm0"
    and old: "bm_blocks bm0 = xs @ b # ys" and new: "bm_blocks bm = xs @ b' # ys" and id: "bb_id b' = i" "bb_id b = i"
    and ids: "i \<notin> bb_id ` set xs" "i \<notin> bb_id ` set ys" and m: "bb_mapped b \<Longrightarrow> bb_mapped b'"
    and bits: "blkbits sbi \<le> 12"
  shows "buckets_ok sbi (erofs_bupdate_mapped sbi i bm)"
proof -
  have get: "get_bb bm i = Some b'"
    by (rule get_bb_here [OF new id(1) ids(1)])
  show ?thesis
  proof (cases "bb_mapped b'")
    case False
    then have nb: "\<not> bb_mapped b" using m by blast
    have e: "erofs_bupdate_mapped sbi i bm = bm"
      using False get by (simp add: erofs_bupdate_mapped_def bb_mapped_def)
    show ?thesis
      unfolding e buckets_ok_def same
    proof (intro allI impI)
      fix t j x assume "x \<in> set (mapped_buckets bm0 t j)"
      from buckets_okE [OF ok this, unfolded old]
      obtain c where c: "c \<in> set (xs @ b # ys)" "bb_id c = x" "bb_mapped c" "bb_type c = t" "unat (bb_off c) mod 2 ^ blkbits sbi = j"
        by metis
      then have "c \<in> set xs \<union> set ys" using nb by auto
      then show "\<exists>b \<in> set (bm_blocks bm). bb_id b = x \<and> bb_mapped b \<and> bb_type b = t \<and> unat (bb_off b) mod 2 ^ blkbits sbi = j"
        using c new by auto
    qed
  next
    case True
    let ?k = "unat (bb_off b' AND ucast (erofs_blksiz sbi - 1))"
    have k: "?k = unat (bb_off b') mod 2 ^ blkbits sbi"
      using unat_erofs_blkoff [of sbi "bb_off b'"] bits by (simp add: erofs_blkoff_def)
    have bk: "mapped_buckets (erofs_bupdate_mapped sbi i bm) t j =
        filter (\<lambda>x. x \<noteq> i) (mapped_buckets bm0 t j) @ (if t = bb_type b' \<and> j = ?k then [i] else [])" for t j
      using True get same by (simp add: erofs_bupdate_mapped_def bb_mapped_def Let_def)
    show ?thesis
      unfolding buckets_ok_def
    proof (intro allI impI)
      fix t j x assume "x \<in> set (mapped_buckets (erofs_bupdate_mapped sbi i bm) t j)"
      then consider "x = i" "t = bb_type b'" "j = ?k" | "x \<noteq> i" "x \<in> set (mapped_buckets bm0 t j)"
        by (auto simp: bk split: if_splits)
      then show "\<exists>b \<in> set (bm_blocks (erofs_bupdate_mapped sbi i bm)). bb_id b = x \<and> bb_mapped b \<and> bb_type b = t \<and>
          unat (bb_off b) mod 2 ^ blkbits sbi = j"
      proof cases
        case 1
        then show ?thesis using new id(1) True k by auto
      next
        case 2
        from buckets_okE [OF ok 2(2), unfolded old]
        obtain c where "c \<in> set (xs @ b # ys)" "bb_id c = x" "bb_mapped c" "bb_type c = t" "unat (bb_off c) mod 2 ^ blkbits sbi = j"
          by metis
        then show ?thesis using 2(1) new id by auto
      qed
    qed
  qed
qed


section \<open>Attaching keeps the invariant\<close>

definition align_ok :: "erofs_sb_info \<Rightarrow> u32 \<Rightarrow> bool" where
  "align_ok sbi a \<longleftrightarrow> 0 < unat a \<and> unat a dvd 2 ^ blkbits sbi"

lemma battach_oob_value:
  assumes b: "blkbits sbi \<le> 12" and a: "align_ok sbi a" and incr: "unat incr < 2 ^ 60"
  shows "battach_oob sbi boff incr a extra \<le> 0 \<longleftrightarrow>
    nround (unat a) (lastpos (2 ^ blkbits sbi) (unat boff)) + unat incr + unat extra \<le> 2 ^ blkbits sbi"
proof -
  let ?B = "2 ^ blkbits sbi :: nat" and ?r = "nround (unat a) (lastpos (2 ^ blkbits sbi) (unat boff))"
  let ?x = "roundup (((boff - 1) AND ucast (erofs_blksiz sbi - 1)) + 1) (ucast a) :: u64"
  have B: "?B \<le> 2 ^ 12" using b by (intro power_increasing) auto
  have Bu: "unat (ucast (erofs_blksiz sbi) :: u64) = ?B" using b by (simp add: unat_ucast_up unat_erofs_blksiz)
  have lp: "lastpos ?B (unat boff) \<le> ?B" by (rule lastpos_le) simp
  have r: "?r \<le> ?B" using a lp by (intro nround_le) (auto simp: align_ok_def)
  have x: "unat ?x = ?r"
    using a lp B by (subst unat_roundup_nround) (auto simp: unat_lastpos [OF b] align_ok_def)
  have e: "unat (ucast extra :: u64) = unat extra" by (simp add: unat_ucast_up)
  have "unat extra < 2 ^ 32" using unsigned_less [of extra] by simp
  then have "unat (?x + incr + ucast extra) = ?r + unat incr + unat extra"
    using incr r B x by (simp add: unat_word_ariths e)
  then show ?thesis by (auto simp: battach_oob_def cmpsgn_def word_less_nat_alt Bu)
qed

lemma battach_effect:
  assumes inv: "bm_inv sbi bm" and bits: "blkbits sbi \<le> 12" and a: "align_ok sbi a"
    and room: "bm_need sbi bm + nceil (2 ^ blkbits sbi) (unat incr) < 2 ^ 32 - 1"
    and run: "erofs_battach_raw sbi bm i bh incr a extra False = Inr (bm', used)"
  obtains xs b ys b' tl where "bm_blocks bm = xs @ b # ys" "bb_id b = i" "i \<notin> bb_id ` set xs" "i \<notin> bb_id ` set ys"
    and "b' = b\<lparr>bb_off := roundup (bb_off b) (ucast a) + incr,
          bb_bhs := (case bh of None \<Rightarrow> bb_bhs b
                     | Some h \<Rightarrow> bb_bhs b @ [\<lparr>bh_id = h, bh_off = roundup (bb_off b) (ucast a), bh_op = write_bhops\<rparr>])\<rparr>"
    and "bm' = erofs_bupdate_mapped sbi i (bm\<lparr>bm_blocks := xs @ b' # ys, tail_blkaddr := tl\<rparr>)"
    and "unat (roundup (bb_off b) (ucast a)) = nround (unat a) (unat (bb_off b))"
    and "unat (bb_off b') = nround (unat a) (unat (bb_off b)) + unat incr"
    and "bcnt sbi b \<le> bcnt sbi b'" "bcnt sbi b' \<le> bcnt sbi b + nceil (2 ^ blkbits sbi) (unat incr)"
    and "bcnt sbi b' = bcnt sbi b \<and> tl = tail_blkaddr bm \<or>
         (case ys of [] \<Rightarrow> True | c # _ \<Rightarrow> \<not> bb_mapped c) \<and>
         (if bb_mapped b then unat (tail_blkaddr bm) = bend sbi b \<and> unat tl = bend sbi b' else tl = tail_blkaddr bm)"
proof -
  let ?B = "2 ^ blkbits sbi :: nat"
  obtain b where b: "get_bb bm i = Some b" using run by (auto simp: erofs_battach_raw_def split: option.splits)
  have ids: "ids_ok bm" using inv by (simp add: bm_inv_def)
  obtain xs ys where sp: "bm_blocks bm = xs @ b # ys" "bb_id b = i" "i \<notin> bb_id ` set xs" "i \<notin> bb_id ` set ys"
    using get_bb_split [OF ids b] .
  let ?al = "roundup (bb_off b) (ucast a) :: u64" and ?o = "unat (bb_off b)"
  let ?oob = "battach_oob sbi (bb_off b) incr a extra"
  define b' where "b' = b\<lparr>bb_off := ?al + incr,
      bb_bhs := (case bh of None \<Rightarrow> bb_bhs b | Some h \<Rightarrow> bb_bhs b @ [\<lparr>bh_id = h, bh_off = ?al, bh_op = write_bhops\<rparr>])\<rparr>"
  have a': "0 < unat a" "unat a dvd ?B" using a by (simp_all add: align_ok_def)
  have ob: "?o < 2 ^ 44" using off_bound [OF inv _ bits, of b] sp(1) by simp
  have B12: "?B \<le> 2 ^ 12" using bits by (intro power_increasing) auto
  have "unat incr \<le> nceil ?B (unat incr) * ?B" by (rule nceil_bounds(1)) simp
  also have "\<dots> \<le> nceil ?B (unat incr) * 2 ^ 12" using B12 by (rule mult_left_mono) simp
  also have "\<dots> < 2 ^ 44" using room by simp
  finally have ib: "unat incr < 2 ^ 44" .
  have al: "unat ?al = nround (unat a) ?o" using ob a'(1) by (intro unat_roundup_nround) simp_all
  have "nround (unat a) ?o < ?o + unat a" by (rule nround_bounds(2) [OF a'(1)])
  moreover have "unat a \<le> ?B" using a'(2) by (simp add: dvd_imp_le)
  ultimately have ab: "nround (unat a) ?o < 2 ^ 45" using ob B12 by simp
  have off': "unat (bb_off b') = nround (unat a) ?o + unat incr"
    using ab ib al by (simp add: b'_def unat_word_ariths)
  have cnt: "bcnt sbi b \<le> bcnt sbi b'" "bcnt sbi b' \<le> bcnt sbi b + nceil ?B (unat incr)"
    using attach_grows [of ?B "unat a" ?o "unat incr"] attach_more_blocks [of ?B "unat a" ?o "unat incr"] a'
    by (simp_all add: bcnt_def off')
  have same: "bcnt sbi b' = bcnt sbi b" if "?oob \<le> 0"
    using that ib attach_same_block [of ?B "unat a" ?o "unat incr"] a'
    by (simp add: battach_oob_value [OF bits a] bcnt_def off')
  have rb: "unat (BLK_ROUND_UP sbi (bb_off b)) = bcnt sbi b" "unat (BLK_ROUND_UP sbi (bb_off b')) = bcnt sbi b'"
    using ob ab ib off' by (simp_all add: unat_BLK_ROUND_UP_nceil [OF bits] bcnt_def)
  have ad: "unat (bb_blkaddr b) < 2 ^ 32" using unsigned_less [of "bb_blkaddr b"] by simp
  have cb: "bcnt sbi b < 2 ^ 32" using bcnt_bound [OF inv, of b] sp(1) by simp
  have sum: "unat (ucast (bb_blkaddr b) + BLK_ROUND_UP sbi (bb_off b) :: u64) = bend sbi b"
    using ad cb by (simp add: unat_word_ariths rb unat_ucast_up bend_def)
  define tu where "tu \<longleftrightarrow> 0 \<le> ?oob \<and> bb_mapped b \<and>
    (ucast (tail_blkaddr bm) :: u64) = ucast (bb_blkaddr b) + BLK_ROUND_UP sbi (bb_off b)"
  define tl where "tl = (if tu then ucast (ucast (bb_blkaddr b) + BLK_ROUND_UP sbi (bb_off b') :: u64) else tail_blkaddr bm)"
  have tail: "unat (tail_blkaddr bm) = bend sbi b" "unat tl = bend sbi b'" if tu
  proof -
    have "(ucast (tail_blkaddr bm) :: u64) = ucast (bb_blkaddr b) + BLK_ROUND_UP sbi (bb_off b)" using that by (simp add: tu_def)
    from arg_cong [OF this, of unat] show t: "unat (tail_blkaddr bm) = bend sbi b" by (simp add: sum unat_ucast_up)
    have adr: "bb_blkaddr b' = bb_blkaddr b" by (simp add: b'_def)
    have "bend sbi b' < 2 ^ 32" using cnt(2) t room by (simp add: bend_def bm_need_def adr)
    moreover have "unat (ucast (bb_blkaddr b) + BLK_ROUND_UP sbi (bb_off b') :: u64) = bend sbi b'"
      using calculation by (simp add: unat_word_ariths rb unat_ucast_up bend_def adr)
    ultimately show "unat tl = bend sbi b'" using that by (simp add: tl_def unat_ucast_small)
  qed
  have cond: "\<not> (0 < ?oob \<and> next_blkaddr (bm_blocks bm) i \<noteq> NULL_ADDR)" "\<not> (0 < ?oob \<and> bb_mapped b \<and> \<not> tu)"
    using run b by (auto simp: erofs_battach_raw_def Let_def tu_def bb_mapped_def split: if_splits)
  have "bm' = erofs_bupdate_mapped sbi i (bm\<lparr>bm_blocks := xs @ b' # ys, tail_blkaddr := tl\<rparr>)"
    using run b cond
    by (auto simp: erofs_battach_raw_def Let_def tu_def bb_mapped_def upd_bb_split [OF sp] tl_def b'_def split: if_splits)
  moreover have "bcnt sbi b' = bcnt sbi b \<and> tl = tail_blkaddr bm \<or>
         (case ys of [] \<Rightarrow> True | c # _ \<Rightarrow> \<not> bb_mapped c) \<and>
         (if bb_mapped b then unat (tail_blkaddr bm) = bend sbi b \<and> unat tl = bend sbi b' else tl = tail_blkaddr bm)"
  proof (cases "0 < ?oob")
    case True
    then have "case ys of [] \<Rightarrow> True | c # _ \<Rightarrow> \<not> bb_mapped c"
      using cond(1) next_blkaddr_split [OF sp(3,2), of ys] by (auto simp: sp(1) bb_mapped_def split: list.splits)
    moreover have "bb_mapped b \<Longrightarrow> tu" using cond(2) True by simp
    ultimately show ?thesis using tail by (auto simp: tl_def tu_def)
  next
    case False
    then have "bcnt sbi b' = bcnt sbi b" by (intro same) simp
    moreover from this have "tl = tail_blkaddr bm"
      using tail by (cases tu) (auto simp: word_unat_eq_iff bend_def tl_def b'_def)
    ultimately show ?thesis by simp
  qed
  ultimately show ?thesis using that [OF sp b'_def _ al off' cnt] by blast
qed


lemma laid_out_split:
  assumes "laid_out sbi bm ms us" "bm_blocks bm = xs @ b # ys"
  shows "if bb_mapped b then \<exists>zs. ms = xs @ b # zs \<and> ys = zs @ us else \<exists>zs. us = zs @ b # ys \<and> xs = ms @ zs"
proof -
  have e: "xs @ b # ys = ms @ us" and m: "list_all bb_mapped ms" "list_all (\<lambda>b. \<not> bb_mapped b) us"
    using assms by (simp_all add: laid_out_def)
  from e consider zs where "ms = xs @ b # zs" "ys = zs @ us" | zs where "us = zs @ b # ys" "xs = ms @ zs"
    by (auto simp: append_eq_append_conv2 Cons_eq_append_conv)
  then show ?thesis using m by cases auto
qed

lemma laid_out_update:
  assumes l: "laid_out sbi bm ms us" and sp: "bm_blocks bm = xs @ b # ys"
    and b': "bb_id b' = bb_id b" "bb_blkaddr b' = bb_blkaddr b" and cnt: "bcnt sbi b \<le> bcnt sbi b'"
    and same: "bm_blocks bm' = xs @ b' # ys" "last_mapped bm' = last_mapped bm"
    and dis: "bcnt sbi b' = bcnt sbi b \<and> tail_blkaddr bm' = tail_blkaddr bm \<or>
         (case ys of [] \<Rightarrow> True | c # _ \<Rightarrow> \<not> bb_mapped c) \<and>
         (if bb_mapped b then unat (tail_blkaddr bm) = bend sbi b \<and> unat (tail_blkaddr bm') = bend sbi b'
          else tail_blkaddr bm' = tail_blkaddr bm)"
  shows "\<exists>ms us. laid_out sbi bm' ms us"
proof -
  have m': "bb_mapped b' = bb_mapped b" by (simp add: bb_mapped_def b')
  note lo = l [unfolded laid_out_def]
  show ?thesis
  proof (cases "bb_mapped b")
    case True
    then obtain zs where z: "ms = xs @ b # zs" "ys = zs @ us" using laid_out_split [OF l sp] by auto
    have so: "sorted_wrt (\<lambda>a b. bend sbi a \<le> unat (bb_blkaddr b)) (xs @ b # zs)"
      and tl: "list_all (\<lambda>b. bend sbi b \<le> unat (tail_blkaddr bm)) (xs @ b # zs)"
      and mm: "list_all bb_mapped (xs @ b # zs)"
      using lo z by simp_all
    have key: "zs = [] \<or> bend sbi b' = bend sbi b"
      using dis mm by (cases zs) (auto simp: z bend_def b')
    have "sorted_wrt (\<lambda>a b. bend sbi a \<le> unat (bb_blkaddr b)) (xs @ b' # zs)"
      using so key by (auto simp: sorted_wrt_append b')
    moreover have "list_all (\<lambda>b. bend sbi b \<le> unat (tail_blkaddr bm')) (xs @ b' # zs)"
    proof (cases "bcnt sbi b' = bcnt sbi b \<and> tail_blkaddr bm' = tail_blkaddr bm")
      case True
      then show ?thesis using tl by (simp add: bend_def b')
    next
      case False
      then have d: "unat (tail_blkaddr bm) = bend sbi b" "unat (tail_blkaddr bm') = bend sbi b'"
        using dis True by auto
      have "bend sbi b \<le> bend sbi b'" using cnt by (simp add: bend_def b')
      then show ?thesis using tl d by (auto simp: list_all_iff intro: order_trans)
    qed
    ultimately have "laid_out sbi bm' (xs @ b' # zs) us"
      using lo z mm same m' b' True by (auto simp: laid_out_def)
    then show ?thesis by blast
  next
    case False
    then obtain zs where z: "us = zs @ b # ys" "xs = ms @ zs" using laid_out_split [OF l sp] by auto
    have "tail_blkaddr bm' = tail_blkaddr bm" using dis False by auto
    then have "laid_out sbi bm' ms (zs @ b' # ys)" using lo z same m' False by (auto simp: laid_out_def)
    then show ?thesis by blast
  qed
qed

lemma need_update:
  assumes sp: "bm_blocks bm = xs @ b # ys" and b': "bb_blkaddr b' = bb_blkaddr b"
    and cnt: "bcnt sbi b \<le> bcnt sbi b'" "bcnt sbi b' \<le> bcnt sbi b + n" and same: "bm_blocks bm' = xs @ b' # ys"
    and dis: "bcnt sbi b' = bcnt sbi b \<and> tail_blkaddr bm' = tail_blkaddr bm \<or>
         (if bb_mapped b then unat (tail_blkaddr bm) = bend sbi b \<and> unat (tail_blkaddr bm') = bend sbi b'
          else tail_blkaddr bm' = tail_blkaddr bm)"
  shows "bm_need sbi bm' \<le> bm_need sbi bm + n"
proof -
  have m': "bb_mapped b' = bb_mapped b" by (simp add: bb_mapped_def b')
  show ?thesis using cnt dis by (auto simp: bm_need_def sp same m' bend_def b' split: if_splits)
qed

lemma battach_inv:
  assumes inv: "bm_inv sbi bm" and bits: "blkbits sbi \<le> 12" and a: "align_ok sbi a"
    and room: "bm_need sbi bm + nceil (2 ^ blkbits sbi) (unat incr) < 2 ^ 32 - 1"
    and bh: "case bh of None \<Rightarrow> True | Some h \<Rightarrow> h < bm_fresh bm \<and> h \<notin> set (bh_ids bm)"
    and run: "erofs_battach_raw sbi bm i bh incr a extra False = Inr (bm', used)"
  shows "bm_inv sbi bm'" and "bm_need sbi bm' \<le> bm_need sbi bm + nceil (2 ^ blkbits sbi) (unat incr)"
    and "bm_fresh bm' = bm_fresh bm"
proof -
  let ?B = "2 ^ blkbits sbi :: nat"
  obtain xs b ys b' tl where sp: "bm_blocks bm = xs @ b # ys" "bb_id b = i" "i \<notin> bb_id ` set xs" "i \<notin> bb_id ` set ys"
    and b': "b' = b\<lparr>bb_off := roundup (bb_off b) (ucast a) + incr,
          bb_bhs := (case bh of None \<Rightarrow> bb_bhs b
                     | Some h \<Rightarrow> bb_bhs b @ [\<lparr>bh_id = h, bh_off = roundup (bb_off b) (ucast a), bh_op = write_bhops\<rparr>])\<rparr>"
    and bm': "bm' = erofs_bupdate_mapped sbi i (bm\<lparr>bm_blocks := xs @ b' # ys, tail_blkaddr := tl\<rparr>)"
    and al: "unat (roundup (bb_off b) (ucast a)) = nround (unat a) (unat (bb_off b))"
    and off': "unat (bb_off b') = nround (unat a) (unat (bb_off b)) + unat incr"
    and cnt: "bcnt sbi b \<le> bcnt sbi b'" "bcnt sbi b' \<le> bcnt sbi b + nceil ?B (unat incr)"
    and dis: "bcnt sbi b' = bcnt sbi b \<and> tl = tail_blkaddr bm \<or>
         (case ys of [] \<Rightarrow> True | c # _ \<Rightarrow> \<not> bb_mapped c) \<and>
         (if bb_mapped b then unat (tail_blkaddr bm) = bend sbi b \<and> unat tl = bend sbi b' else tl = tail_blkaddr bm)"
    using battach_effect [OF inv bits a room run] by blast
  have sel: "bb_id b' = bb_id b" "bb_blkaddr b' = bb_blkaddr b" "bb_type b' = bb_type b" by (simp_all add: b')
  have new: "bm_blocks bm' = xs @ b' # ys" "last_mapped bm' = last_mapped bm" "tail_blkaddr bm' = tl" "bm_fresh bm' = bm_fresh bm"
    by (simp_all add: bm')
  show "bm_fresh bm' = bm_fresh bm" by (rule new)
  obtain ms us where l: "laid_out sbi bm ms us" using inv by (auto simp: bm_inv_def)
  have lo: "\<exists>ms us. laid_out sbi bm' ms us"
    by (rule laid_out_update [OF l sp(1) sel(1,2) cnt(1) new(1,2) dis [folded new(3)]])
  show need: "bm_need sbi bm' \<le> bm_need sbi bm + nceil ?B (unat incr)"
    by (rule need_update [OF sp(1) sel(2) cnt new(1)]) (use dis [folded new(3)] in blast)
  have ids: "ids_ok bm'"
    using inv bh by (auto simp: bm_inv_def ids_ok_def bh_ids_def new sp(1) sel(1) b' split: option.splits)
  have hb: "heads_ok b" and hr: "list_all heads_ok xs" "list_all heads_ok ys"
    using inv by (simp_all add: bm_inv_def sp(1))
  have "0 < unat a" using a by (simp add: align_ok_def)
  then have le: "bb_off b \<le> roundup (bb_off b) (ucast a)" "roundup (bb_off b) (ucast a) \<le> bb_off b'"
    using nround_bounds(1) [of "unat a" "unat (bb_off b)"] by (simp_all add: word_le_nat_alt al off')
  then have "heads_ok b'"
    using hb by (auto simp: heads_ok_def b' sorted_wrt_append split: option.splits intro: order_trans)
  then have heads: "list_all heads_ok (bm_blocks bm')" using hr by (simp add: new)
  have "buckets_ok sbi bm" using inv by (simp add: bm_inv_def)
  then have bk: "buckets_ok sbi bm'"
    unfolding bm' by (rule buckets_ok_update [where b' = b', OF _ _ sp(1) _ _ sp(2,3,4) _ bits])
      (simp_all add: sel sp(2) bb_mapped_def)
  show "bm_inv sbi bm'" using lo ids heads bk need room by (simp add: bm_inv_def)
qed


section \<open>The other operations\<close>

lemma init_inv: "unat startblk < 2 ^ 32 - 1 \<Longrightarrow> bm_inv sbi (erofs_buffer_init junk startblk)"
  by (simp add: bm_inv_def erofs_buffer_init_def laid_out_def ids_ok_def bh_ids_def buckets_ok_def bm_need_def)

lemma fresh_ids: "ids_ok bm \<Longrightarrow> ids_ok (bm\<lparr>bm_fresh := Suc (bm_fresh bm)\<rparr>)"
  by (auto simp: ids_ok_def bh_ids_def less_Suc_eq)

lemma fresh_inv:
  assumes "bm_inv sbi bm"
  shows "bm_inv sbi (bm\<lparr>bm_fresh := Suc (bm_fresh bm)\<rparr>)"
proof -
  have "laid_out sbi (bm\<lparr>bm_fresh := Suc (bm_fresh bm)\<rparr>) = laid_out sbi bm" by (intro ext) (simp add: laid_out_def)
  moreover have "buckets_ok sbi (bm\<lparr>bm_fresh := Suc (bm_fresh bm)\<rparr>) = buckets_ok sbi bm" by (simp add: buckets_ok_def)
  moreover have "bm_need sbi (bm\<lparr>bm_fresh := Suc (bm_fresh bm)\<rparr>) = bm_need sbi bm" by (simp add: bm_need_def)
  ultimately show ?thesis using assms fresh_ids by (simp add: bm_inv_def)
qed

lemma fresh_need [simp]: "bm_need sbi (bm\<lparr>bm_fresh := n\<rparr>) = bm_need sbi bm"
  by (simp add: bm_need_def)

lemma insert_behind_last: "i \<notin> bb_id ` set xs \<Longrightarrow> insert_behind (xs @ c # ys) (bb_id c) b = xs @ c # b # ys" if "bb_id c = i"
  using that by (induction xs) auto

text \<open>A new block is not mapped, and the mapped ones stay in front of it.\<close>

lemma new_block_blocks:
  assumes "laid_out sbi bm ms us" "ids_ok bm"
  obtains vs ws where "us = vs @ ws"
    "bm_blocks (new_block bm type) = ms @ vs @ \<lparr>bb_id = bm_fresh bm, bb_blkaddr = NULL_ADDR, bb_type = type, bb_off = 0, bb_bhs = []\<rparr> # ws"
proof (cases "type = DATA")
  case False
  then show ?thesis using that [of us "[]"] assms(1) by (simp add: new_block_def Let_def laid_out_def)
next
  case True
  let ?b = "\<lparr>bb_id = bm_fresh bm, bb_blkaddr = NULL_ADDR, bb_type = type, bb_off = 0, bb_bhs = []\<rparr>"
  show ?thesis
  proof (cases ms rule: rev_cases)
    case Nil
    then show ?thesis using that [of "[]" us] assms(1) True by (simp add: new_block_def Let_def laid_out_def)
  next
    case (snoc xs c)
    have "bb_id c \<notin> bb_id ` set xs" using assms snoc by (auto simp: ids_ok_def laid_out_def)
    then have "insert_behind (ms @ us) (bb_id c) ?b = ms @ ?b # us"
      using insert_behind_last [of c "bb_id c" xs us ?b] by (simp add: snoc)
    then show ?thesis using that [of "[]" us] assms(1) True snoc by (simp add: new_block_def Let_def laid_out_def)
  qed
qed

lemma new_block_inv:
  assumes inv: "bm_inv sbi bm"
  shows "bm_inv sbi (new_block bm type)" and "bm_need sbi (new_block bm type) = bm_need sbi bm"
proof -
  let ?b = "\<lparr>bb_id = bm_fresh bm, bb_blkaddr = NULL_ADDR, bb_type = type, bb_off = 0, bb_bhs = []\<rparr>" and ?bm = "new_block bm type"
  obtain ms us where l: "laid_out sbi bm ms us" and ids: "ids_ok bm" using inv by (auto simp: bm_inv_def)
  obtain vs ws where u: "us = vs @ ws" and new: "bm_blocks ?bm = ms @ vs @ ?b # ws"
    using new_block_blocks [OF l ids] .
  have old: "bm_blocks bm = ms @ vs @ ws" using l u by (simp add: laid_out_def)
  have sel: "tail_blkaddr ?bm = tail_blkaddr bm" "last_mapped ?bm = last_mapped bm" "bm_fresh ?bm = Suc (bm_fresh bm)"
      "mapped_buckets ?bm = mapped_buckets bm"
    by (simp_all add: new_block_def Let_def)
  have nm: "\<not> bb_mapped ?b" and c0: "bcnt sbi ?b = 0" by (simp_all add: bb_mapped_def bcnt_def)
  show need: "bm_need sbi ?bm = bm_need sbi bm" using nm c0 by (simp add: bm_need_def new old sel)
  have "laid_out sbi ?bm ms (vs @ ?b # ws)" using l u nm by (auto simp: laid_out_def new sel)
  moreover have "ids_ok ?bm"
  proof -
    have "bm_fresh bm \<notin> bb_id ` set (ms @ vs @ ws)" using ids by (auto simp: ids_ok_def old)
    then show ?thesis using ids by (auto simp: ids_ok_def bh_ids_def new old sel less_Suc_eq)
  qed
  moreover have "list_all heads_ok (bm_blocks ?bm)" using inv by (simp add: bm_inv_def new old heads_ok_def)
  moreover have "buckets_ok sbi ?bm" using inv by (auto simp: bm_inv_def buckets_ok_def new old sel)
  ultimately show "bm_inv sbi ?bm" using inv need unfolding bm_inv_def by metis
qed

lemma align_ok_type:
  assumes "valid_blkszbits sbi" "get_alignsize sbi type = Inr (a, t)"
  shows "align_ok sbi a"
proof -
  have b: "9 \<le> blkbits sbi" "blkbits sbi \<le> 12" using assms(1) by (simp_all add: valid_blkszbits_def)
  have B: "unat (erofs_blksiz sbi) = 2 ^ blkbits sbi" using b by (intro unat_erofs_blksiz) simp
  have d: "(2 :: nat) ^ k dvd 2 ^ blkbits sbi" if "k \<le> 9" for k using that b(1) by (intro le_imp_power_dvd) simp
  have "(1 :: nat) dvd 2 ^ blkbits sbi" "(4 :: nat) dvd 2 ^ blkbits sbi" "(32 :: nat) dvd 2 ^ blkbits sbi" "(128 :: nat) dvd 2 ^ blkbits sbi"
    using d [of 0] d [of 2] d [of 5] d [of 7] by simp_all
  then show ?thesis using assms(2) B by (auto simp: get_alignsize_def align_ok_def split: if_splits)
qed

lemma align_ok_1: "align_ok sbi 1"
  by (simp add: align_ok_def)

lemma balloc_runs:
  assumes "erofs_balloc sbi bm type size0 req inl = Inr (bm', h)"
  obtains a t found bm1 i u where "get_alignsize sbi type = Inr (a, t)"
    "erofs_bfind_for_attach sbi bm t size0 req inl a = Inr found"
    "(bm1, i) = (case found of Some i \<Rightarrow> (bm, i) | None \<Rightarrow> (new_block bm t, bm_fresh bm))" "h = bm_fresh bm1"
    "erofs_battach_raw sbi (bm1\<lparr>bm_fresh := Suc h\<rparr>) i (Some h) size0 a (req + inl) False = Inr (bm', u)"
proof -
  obtain a t found where al: "get_alignsize sbi type = Inr (a, t)"
      and f: "erofs_bfind_for_attach sbi bm t size0 req inl a = Inr found"
    using assms by (auto simp: erofs_balloc_def)
  obtain bm1 i where c: "(case found of Some i \<Rightarrow> (bm, i) | None \<Rightarrow> (new_block bm t, bm_fresh bm)) = (bm1, i)"
    by (cases "case found of Some i \<Rightarrow> (bm, i) | None \<Rightarrow> (new_block bm t, bm_fresh bm)") blast
  have "bindR (erofs_battach_raw sbi (bm1\<lparr>bm_fresh := Suc (bm_fresh bm1)\<rparr>) i (Some (bm_fresh bm1)) size0 a (req + inl) False)
      (\<lambda>(bm, _). Inr (bm, bm_fresh bm1)) = Inr (bm', h)"
    using assms by (auto simp: erofs_balloc_def al f c Let_def)
  then obtain u where h: "h = bm_fresh bm1"
      and at: "erofs_battach_raw sbi (bm1\<lparr>bm_fresh := Suc (bm_fresh bm1)\<rparr>) i (Some (bm_fresh bm1)) size0 a (req + inl) False = Inr (bm', u)"
    by auto
  show ?thesis by (rule that [OF al f c [symmetric] h at [folded h]])
qed

lemma balloc_target_inv:
  assumes inv: "bm_inv sbi bm" and c: "(bm1, i) = (case found of Some i \<Rightarrow> (bm, i) | None \<Rightarrow> (new_block bm t, bm_fresh bm))"
  shows "bm_inv sbi bm1" and "bm_need sbi bm1 = bm_need sbi bm" and "bm_fresh bm1 \<notin> set (bh_ids bm1)"
proof -
  have "bm1 = bm \<or> bm1 = new_block bm t" using c by (auto split: option.splits)
  then show i: "bm_inv sbi bm1" and "bm_need sbi bm1 = bm_need sbi bm" using inv new_block_inv [OF inv] by auto
  show "bm_fresh bm1 \<notin> set (bh_ids bm1)" using i by (auto simp: bm_inv_def ids_ok_def)
qed

lemma balloc_inv:
  assumes inv: "bm_inv sbi bm" and v: "valid_blkszbits sbi"
    and room: "bm_need sbi bm + nceil (2 ^ blkbits sbi) (unat size0) < 2 ^ 32 - 1"
    and run: "erofs_balloc sbi bm type size0 req inl = Inr (bm', h)"
  shows "bm_inv sbi bm'"
proof -
  obtain a t found bm1 i u where al: "get_alignsize sbi type = Inr (a, t)"
      and c: "(bm1, i) = (case found of Some i \<Rightarrow> (bm, i) | None \<Rightarrow> (new_block bm t, bm_fresh bm))" and h: "h = bm_fresh bm1"
      and at: "erofs_battach_raw sbi (bm1\<lparr>bm_fresh := Suc h\<rparr>) i (Some h) size0 a (req + inl) False = Inr (bm', u)"
    using balloc_runs [OF run] .
  note t = balloc_target_inv [OF inv c]
  show ?thesis
    using battach_inv(1) [OF fresh_inv [OF t(1)] _ align_ok_type [OF v al] _ _ at [unfolded h]] room t v
    by (simp add: valid_blkszbits_def bh_ids_def)
qed

lemma battach_op_inv:
  assumes inv: "bm_inv sbi bm" and v: "valid_blkszbits sbi"
    and room: "bm_need sbi bm + nceil (2 ^ blkbits sbi) (unat size0) < 2 ^ 32 - 1"
    and run: "erofs_battach sbi bm h type size0 = Inr (bm', n)"
  shows "bm_inv sbi bm'"
proof -
  obtain a t i u where al: "get_alignsize sbi type = Inr (a, t)"
      and at: "erofs_battach_raw sbi (bm\<lparr>bm_fresh := Suc (bm_fresh bm)\<rparr>) i (Some (bm_fresh bm)) (ucast size0) a 0 False = Inr (bm', u)"
    using run by (auto simp: erofs_battach_def Let_def split: option.splits if_splits)
  have "bm_fresh bm \<notin> set (bh_ids bm)" using inv by (auto simp: bm_inv_def ids_ok_def)
  then show ?thesis
    using battach_inv(1) [OF fresh_inv [OF inv] _ align_ok_type [OF v al] _ _ at] room v
    by (simp add: valid_blkszbits_def bh_ids_def unat_ucast_up)
qed

lemma balloon_inv:
  assumes inv: "bm_inv sbi bm" and v: "valid_blkszbits sbi"
    and room: "bm_need sbi bm + nceil (2 ^ blkbits sbi) (unat incr) < 2 ^ 32 - 1"
    and run: "erofs_bh_balloon sbi bm h incr = Inr (bm', u)"
  shows "bm_inv sbi bm'"
proof -
  obtain i where at: "erofs_battach_raw sbi bm i None incr 1 0 False = Inr (bm', u)"
    using run by (auto simp: erofs_bh_balloon_def split: option.splits if_splits)
  show ?thesis using battach_inv(1) [OF inv _ align_ok_1 room _ at] v by (simp add: valid_blkszbits_def)
qed

section \<open>Mapping keeps the invariant\<close>

lemma laid_out_blocks: "laid_out sbi bm ms us \<Longrightarrow> bm_blocks bm = ms @ us"
  by (simp add: laid_out_def)

text \<open>\<^verbatim>\<open>__erofs_mapbh\<close> on the first block without an address.\<close>

lemma mapbh_first:
  assumes inv: "bm_inv sbi bm" and bits: "blkbits sbi \<le> 12" and l: "laid_out sbi bm ms (b # us)"
    and run: "mapbh_one sbi bm (bb_id b) = (bm', e)" and b': "b' = b\<lparr>bb_blkaddr := tail_blkaddr bm\<rparr>"
  shows "laid_out sbi bm' (ms @ [b']) us" and "bm_inv sbi bm'" and "bm_need sbi bm' = bm_need sbi bm"
    and "bm_fresh bm' = bm_fresh bm" and "unat e = bend sbi b'" and "tail_blkaddr bm' = e"
proof -
  have blocks: "bm_blocks bm = ms @ b # us" using l by (simp add: laid_out_def)
  have um: "bb_blkaddr b = NULL_ADDR" using l by (simp add: laid_out_def bb_mapped_def)
  have ids: "ids_ok bm" and need: "bm_need sbi bm < 2 ^ 32 - 1" using inv by (simp_all add: bm_inv_def)
  have n1: "bb_id b \<notin> bb_id ` set ms" "bb_id b \<notin> bb_id ` set us" using ids blocks by (auto simp: ids_ok_def)
  have get: "get_bb bm (bb_id b) = Some b" by (rule get_bb_here [OF blocks refl n1(1)])
  have "bcnt sbi b \<le> sum_list (map (bcnt sbi) (filter (\<lambda>b. \<not> bb_mapped b) (bm_blocks bm)))"
    using um by (simp add: blocks bb_mapped_def)
  then have tb: "unat (tail_blkaddr bm) + bcnt sbi b < 2 ^ 32 - 1" using need by (simp add: bm_need_def)
  have c': "bcnt sbi b' = bcnt sbi b" by (simp add: bcnt_def b')
  have end': "bend sbi b' = unat (tail_blkaddr bm) + bcnt sbi b" by (simp add: bend_def c') (simp add: b')
  have "unat (bb_off b) < 2 ^ 60" using off_bound [OF inv _ bits, of b] by (simp add: blocks)
  then have "unat (BLK_ROUND_UP sbi (bb_off b)) = bcnt sbi b" by (simp add: unat_BLK_ROUND_UP_nceil [OF bits] bcnt_def)
  then have "unat (ucast (tail_blkaddr bm) + BLK_ROUND_UP sbi (bb_off b) :: u64) = unat (tail_blkaddr bm) + bcnt sbi b"
    using tb by (simp add: unat_word_ariths unat_ucast_up)
  then have e': "unat (ucast (ucast (tail_blkaddr bm) + BLK_ROUND_UP sbi (bb_off b) :: u64) :: u32) = bend sbi b'"
    using tb by (simp add: unat_ucast_small end')
  have e: "e = ucast (ucast (tail_blkaddr bm) + BLK_ROUND_UP sbi (bb_off b) :: u64)"
    using run um by (auto simp: mapbh_one_def get Let_def)
  show ee: "unat e = bend sbi b'" using e e' by simp
  have tl: "unat (tail_blkaddr bm) \<le> unat e" by (simp add: ee end')
  let ?bm = "bm\<lparr>bm_blocks := ms @ b' # us, last_mapped := Some (bb_id b)\<rparr>"
  have bm': "bm' = (erofs_bupdate_mapped sbi (bb_id b) ?bm)\<lparr>tail_blkaddr := e\<rparr>"
    using run um e tl upd_bb_split [OF blocks refl n1]
    by (auto simp: mapbh_one_def get Let_def b' word_less_nat_alt word_unat_eq_iff split: if_splits)
  show "tail_blkaddr bm' = e" and fr: "bm_fresh bm' = bm_fresh bm" by (simp_all add: bm')
  have m': "bb_mapped b'" using tb by (auto simp: bb_mapped_def b')
  have so: "sorted_wrt (\<lambda>a b. bend sbi a \<le> unat (bb_blkaddr b)) (ms @ [b'])"
    using l by (simp add: laid_out_def sorted_wrt_append b' list_all_iff)
  have tls: "list_all (\<lambda>b. bend sbi b \<le> unat e) (ms @ [b'])"
    using l tl ee by (auto simp: laid_out_def list_all_iff intro: order_trans)
  show lo: "laid_out sbi bm' (ms @ [b']) us"
    using l so tls m' by (simp add: laid_out_def bm' b')
  show nd: "bm_need sbi bm' = bm_need sbi bm"
    using um ee end' m' by (simp add: bm_need_def bm' blocks bb_mapped_def)
  have "ids_ok bm'" using ids by (simp add: ids_ok_def bh_ids_def bm' blocks) (simp add: b')
  moreover have "list_all heads_ok (bm_blocks bm')" using inv by (simp add: bm_inv_def bm' blocks) (simp add: b' heads_ok_def)
  moreover have "buckets_ok sbi bm'"
  proof -
    have "buckets_ok sbi (erofs_bupdate_mapped sbi (bb_id b) ?bm)"
      by (rule buckets_ok_update [where b' = b', OF _ _ blocks _ _ refl n1 _ bits])
        (use inv m' in \<open>simp_all add: bm_inv_def b'\<close>)
    then show ?thesis by (simp add: bm' buckets_ok_def)
  qed
  ultimately show "bm_inv sbi bm'" using lo nd need unfolding bm_inv_def by metis
qed

text \<open>On a block that has its address already it changes nothing.\<close>

lemma mapbh_again:
  assumes inv: "bm_inv sbi bm" and bits: "blkbits sbi \<le> 12" and get: "get_bb bm i = Some b" and m: "bb_mapped b"
  shows "mapbh_one sbi bm i = (bm, of_nat (bend sbi b))"
proof -
  obtain ms us where l: "laid_out sbi bm ms us" and ids: "ids_ok bm" and need: "bm_need sbi bm < 2 ^ 32 - 1"
    using inv by (auto simp: bm_inv_def)
  have mem: "b \<in> set (bm_blocks bm)" using get_bb_split [OF ids get] by (metis in_set_conv_decomp)
  then have en: "bend sbi b \<le> unat (tail_blkaddr bm)" using l m by (auto simp: laid_out_def list_all_iff)
  have tb: "unat (tail_blkaddr bm) < 2 ^ 32" using need by (simp add: bm_need_def)
  have "unat (bb_off b) < 2 ^ 60" using off_bound [OF inv mem bits] by simp
  then have "unat (BLK_ROUND_UP sbi (bb_off b)) = bcnt sbi b" by (simp add: unat_BLK_ROUND_UP_nceil [OF bits] bcnt_def)
  then have "unat (ucast (bb_blkaddr b) + BLK_ROUND_UP sbi (bb_off b) :: u64) = bend sbi b"
    using en tb by (simp add: unat_word_ariths unat_ucast_up bend_def)
  then have e: "unat (ucast (ucast (bb_blkaddr b) + BLK_ROUND_UP sbi (bb_off b) :: u64) :: u32) = bend sbi b"
    using en tb by (simp add: unat_ucast_small)
  then have "(ucast (ucast (bb_blkaddr b) + BLK_ROUND_UP sbi (bb_off b) :: u64) :: u32) = of_nat (bend sbi b)"
    using en tb by (simp add: word_unat_eq_iff unat_of_nat)
  then show ?thesis using m e en by (auto simp: mapbh_one_def get Let_def bb_mapped_def word_less_nat_alt)
qed

lemma after_last_mapped_eq:
  assumes l: "laid_out sbi bm ms us" and ids: "ids_ok bm"
  shows "after_last_mapped bm = map bb_id us"
proof (cases ms rule: rev_cases)
  case Nil
  then show ?thesis using l by (simp add: after_last_mapped_def laid_out_def)
next
  case (snoc xs c)
  have "bb_id c \<notin> bb_id ` set xs" using l ids snoc by (auto simp: ids_ok_def laid_out_def)
  then have "dropWhile (\<lambda>b. bb_id b \<noteq> bb_id c) (xs @ c # us) = c # us" by (induction xs) auto
  then show ?thesis using l snoc by (simp add: after_last_mapped_def from_last_mapped_def laid_out_def)
qed

lemma mapbh_loop_inv:
  assumes "bm_inv sbi bm" "blkbits sbi \<le> 12" "laid_out sbi bm ms us"
  shows "bm_inv sbi (mapbh_loop sbi bm bb (map bb_id us)) \<and>
    bm_need sbi (mapbh_loop sbi bm bb (map bb_id us)) = bm_need sbi bm \<and>
    (bb \<notin> Some ` bb_id ` set us \<longrightarrow> (\<exists>ns. laid_out sbi (mapbh_loop sbi bm bb (map bb_id us)) ns []))"
  using assms
proof (induction us arbitrary: bm ms)
  case Nil
  then show ?case by auto
next
  case (Cons b us)
  obtain bm' e where r: "mapbh_one sbi bm (bb_id b) = (bm', e)" by (cases "mapbh_one sbi bm (bb_id b)")
  note f = mapbh_first [OF Cons.prems r refl]
  show ?case using Cons.IH [OF f(2) Cons.prems(2) f(1)] f(2,3) by (simp add: r)
qed

lemma mapbh_inv:
  assumes inv: "bm_inv sbi bm" and bits: "blkbits sbi \<le> 12" and run: "erofs_mapbh sbi bm bb = (bm', a)"
  shows "bm_inv sbi bm'" and "bm_need sbi bm' = bm_need sbi bm"
proof -
  obtain ms us where l: "laid_out sbi bm ms us" and ids: "ids_ok bm" using inv by (auto simp: bm_inv_def)
  have "bm' = bm \<or> bm' = mapbh_loop sbi bm bb (map bb_id us)"
    using run by (auto simp: erofs_mapbh_def after_last_mapped_eq [OF l ids] Let_def split: option.splits if_splits)
  then show "bm_inv sbi bm'" and "bm_need sbi bm' = bm_need sbi bm"
    using inv mapbh_loop_inv [OF inv bits l] by auto
qed

text \<open>After \<^verbatim>\<open>erofs_mapbh (bmgr, NULL)\<close> every block has an address.\<close>

lemma mapbh_all:
  assumes inv: "bm_inv sbi bm" and bits: "blkbits sbi \<le> 12" and run: "erofs_mapbh sbi bm None = (bm', a)"
  shows "list_all bb_mapped (bm_blocks bm')"
proof -
  obtain ms us where l: "laid_out sbi bm ms us" and ids: "ids_ok bm" using inv by (auto simp: bm_inv_def)
  have "bm' = mapbh_loop sbi bm None (map bb_id us)"
    using run by (simp add: erofs_mapbh_def after_last_mapped_eq [OF l ids] Let_def)
  then obtain ns where "laid_out sbi bm' ns []" using mapbh_loop_inv [OF inv bits l, of None] by auto
  then show ?thesis by (simp add: laid_out_def)
qed

section \<open>Releasing keeps the invariant\<close>

lemma heads_ok_filter: "heads_ok b \<Longrightarrow> heads_ok (b\<lparr>bb_bhs := filter P (bb_bhs b)\<rparr>)"
  by (auto simp: heads_ok_def intro: sorted_wrt_filter)

text \<open>An update that keeps the blocks' addresses, types and sizes and only removes or renames nothing.\<close>

lemma map_bhs_inv:
  assumes inv: "bm_inv sbi bm" and f: "\<And>b. heads_ok b \<Longrightarrow> heads_ok (b\<lparr>bb_bhs := f (bb_bhs b)\<rparr>)"
    and g: "\<And>bhs. \<exists>P. map bh_id (f bhs) = filter P (map bh_id bhs)"
  shows "bm_inv sbi (bm\<lparr>bm_blocks := map (\<lambda>b. b\<lparr>bb_bhs := f (bb_bhs b)\<rparr>) (bm_blocks bm)\<rparr>)"
    and "bm_need sbi (bm\<lparr>bm_blocks := map (\<lambda>b. b\<lparr>bb_bhs := f (bb_bhs b)\<rparr>) (bm_blocks bm)\<rparr>) = bm_need sbi bm"
proof -
  let ?g = "\<lambda>b. b\<lparr>bb_bhs := f (bb_bhs b)\<rparr>" and ?bm = "bm\<lparr>bm_blocks := map (\<lambda>b. b\<lparr>bb_bhs := f (bb_bhs b)\<rparr>) (bm_blocks bm)\<rparr>"
  have sel: "bb_mapped (?g b) = bb_mapped b" "bcnt sbi (?g b) = bcnt sbi b" "bend sbi (?g b) = bend sbi b" for b
    by (simp_all add: bb_mapped_def bcnt_def bend_def)
  obtain ms us where l: "laid_out sbi bm ms us" using inv by (auto simp: bm_inv_def)
  have lo: "laid_out sbi ?bm (map ?g ms) (map ?g us)"
    using l by (auto simp: laid_out_def list_all_iff sel sorted_wrt_map last_map)
  show need: "bm_need sbi ?bm = bm_need sbi bm"
    by (simp add: bm_need_def filter_map comp_def sel)
  have sub: "distinct (map bh_id (concat (map (\<lambda>b. f (bb_bhs b)) bs))) \<and>
      set (map bh_id (concat (map (\<lambda>b. f (bb_bhs b)) bs))) \<subseteq> set (map bh_id (concat (map bb_bhs bs)))"
    if "distinct (map bh_id (concat (map bb_bhs bs)))" for bs
    using that
  proof (induction bs)
    case (Cons b bs)
    obtain P where P: "map bh_id (f (bb_bhs b)) = filter P (map bh_id (bb_bhs b))" using g by blast
    then have "set (map bh_id (f (bb_bhs b))) \<subseteq> set (map bh_id (bb_bhs b))" by simp
    moreover have "distinct (map bh_id (f (bb_bhs b)))" using Cons.prems P by simp
    ultimately show ?case using Cons by (simp del: set_map) (auto simp: image_iff, blast+)
  qed simp
  have ids: "ids_ok bm" using inv by (simp add: bm_inv_def)
  have new: "bh_ids ?bm = map bh_id (concat (map (\<lambda>b. f (bb_bhs b)) (bm_blocks bm)))" "map bb_id (bm_blocks ?bm) = map bb_id (bm_blocks bm)"
    by (simp_all add: bh_ids_def comp_def)
  have "distinct (bh_ids ?bm)" "set (bh_ids ?bm) \<subseteq> set (bh_ids bm)"
    using sub [of "bm_blocks bm"] ids unfolding new ids_ok_def by (simp_all only: bh_ids_def)
  then have "ids_ok ?bm" using ids unfolding ids_ok_def new(2) by auto
  moreover have "list_all heads_ok (bm_blocks ?bm)" using inv f by (auto simp: bm_inv_def list_all_iff)
  moreover have "buckets_ok sbi ?bm"
    unfolding buckets_ok_def
  proof (intro allI impI)
    fix t k i assume "i \<in> set (mapped_buckets ?bm t k)"
    then have "i \<in> set (mapped_buckets bm t k)" by simp
    with inv obtain b where "b \<in> set (bm_blocks bm)" "bb_id b = i" "bb_mapped b" "bb_type b = t" "unat (bb_off b) mod 2 ^ blkbits sbi = k"
      unfolding bm_inv_def by (blast elim: buckets_okE)
    then show "\<exists>b \<in> set (bm_blocks ?bm). bb_id b = i \<and> bb_mapped b \<and> bb_type b = t \<and> unat (bb_off b) mod 2 ^ blkbits sbi = k"
      by (intro bexI [of _ "?g b"]) (simp_all add: sel)
  qed
  moreover have "bm_need sbi ?bm < 2 ^ 32 - 1" using inv unfolding need by (simp add: bm_inv_def)
  ultimately show "bm_inv sbi ?bm" unfolding bm_inv_def using lo by blast
qed

lemma flush_end_inv:
  assumes "bm_inv sbi bm"
  shows "bm_inv sbi (erofs_bh_flush_generic_end h bm)" and "bm_need sbi (erofs_bh_flush_generic_end h bm) = bm_need sbi bm"
proof -
  have "\<exists>P. map bh_id (filter (\<lambda>x. bh_id x \<noteq> h) bhs) = filter P (map bh_id bhs)" for bhs
    by (rule exI [of _ "\<lambda>i. i \<noteq> h"]) (simp add: filter_map comp_def)
  note m = map_bhs_inv [OF assms heads_ok_filter this]
  show "bm_inv sbi (erofs_bh_flush_generic_end h bm)" and "bm_need sbi (erofs_bh_flush_generic_end h bm) = bm_need sbi bm"
    unfolding erofs_bh_flush_generic_end_def using m by blast+
qed

lemma set_op_inv:
  assumes "bm_inv sbi bm"
  shows "bm_inv sbi (set_bh_op h op bm)" and "bm_need sbi (set_bh_op h op bm) = bm_need sbi bm"
proof -
  let ?f = "map (\<lambda>x. if bh_id x = h then x\<lparr>bh_op := op\<rparr> else x)"
  have "\<exists>P. map bh_id (?f bhs) = filter P (map bh_id bhs)" for bhs
    by (rule exI [of _ "\<lambda>i. True"]) (simp add: comp_def if_distrib cong: if_cong)
  moreover have "heads_ok (b\<lparr>bb_bhs := ?f (bb_bhs b)\<rparr>)" if "heads_ok b" for b
    using that by (auto simp: heads_ok_def sorted_wrt_map elim: sorted_wrt_mono_rel [rotated])
  ultimately show "bm_inv sbi (set_bh_op h op bm)" and "bm_need sbi (set_bh_op h op bm) = bm_need sbi bm"
    using map_bhs_inv [OF assms, of ?f] unfolding set_bh_op_def by blast+
qed

lemma prev_id_split:
  "i \<notin> bb_id ` set xs \<Longrightarrow> bb_id b = i \<Longrightarrow> prev_id (xs @ b # ys) p i = (if xs = [] then p else Some (bb_id (last xs)))"
  by (induction xs arbitrary: p) auto

lemma bfree_blocks:
  assumes "bm_blocks bm = xs @ b # ys" "i \<notin> bb_id ` set xs" "i \<notin> bb_id ` set ys" "bb_id b = i"
  shows "bm_blocks (erofs_bfree i bm) = xs @ ys"
proof -
  have "filter (\<lambda>b. bb_id b \<noteq> i) zs = zs" if "i \<notin> bb_id ` set zs" for zs using that by (induction zs) auto
  from this [OF assms(2)] this [OF assms(3)] show ?thesis using assms(1,4) by (simp add: erofs_bfree_def)
qed

lemma bfree_laid_out:
  assumes l: "laid_out sbi bm ms us" and ids: "ids_ok bm" and get: "get_bb bm i = Some b"
  shows "if bb_mapped b then \<exists>xs zs. ms = xs @ b # zs \<and> laid_out sbi (erofs_bfree i bm) (xs @ zs) us
         else \<exists>vs. laid_out sbi (erofs_bfree i bm) ms vs"
proof -
  obtain xs ys where sp: "bm_blocks bm = xs @ b # ys" "bb_id b = i" "i \<notin> bb_id ` set xs" "i \<notin> bb_id ` set ys"
    using get_bb_split [OF ids get] .
  have blk: "bm_blocks (erofs_bfree i bm) = xs @ ys" by (rule bfree_blocks [OF sp(1,3,4,2)])
  have tl: "tail_blkaddr (erofs_bfree i bm) = tail_blkaddr bm" by (simp add: erofs_bfree_def)
  have lm: "last_mapped (erofs_bfree i bm) =
      (if last_mapped bm = Some i then (if xs = [] then None else Some (bb_id (last xs))) else last_mapped bm)"
    using prev_id_split [OF sp(3,2)] by (simp add: erofs_bfree_def sp(1))
  note lo = l [unfolded laid_out_def]
  show ?thesis
  proof (cases "bb_mapped b")
    case True
    then obtain zs where z: "ms = xs @ b # zs" "ys = zs @ us" using laid_out_split [OF l sp(1)] by auto
    have "last_mapped bm = Some i \<longleftrightarrow> zs = []"
    proof (cases zs rule: rev_cases)
      case (snoc ws w)
      then have "bb_id w \<noteq> i" using sp(4) z by auto
      then show ?thesis using lo z snoc by simp
    qed (use lo z sp(2) in simp)
    then have "laid_out sbi (erofs_bfree i bm) (xs @ zs) us"
      using lo z lm blk tl by (auto simp: laid_out_def sorted_wrt_append)
    then show ?thesis using True z by auto
  next
    case False
    then obtain zs where z: "us = zs @ b # ys" "xs = ms @ zs" using laid_out_split [OF l sp(1)] by auto
    have "last_mapped bm \<noteq> Some i"
      using lo sp(3) z by (cases ms rule: rev_cases) auto
    then have "laid_out sbi (erofs_bfree i bm) ms (zs @ ys)" using lo z lm blk tl by (auto simp: laid_out_def)
    then show ?thesis using False by auto
  qed
qed

lemma bfree_rest:
  assumes inv: "bm_inv sbi bm" and get: "get_bb bm i = Some b"
  shows "ids_ok (erofs_bfree i bm)" and "list_all heads_ok (bm_blocks (erofs_bfree i bm))" and "buckets_ok sbi (erofs_bfree i bm)"
    and "bm_need sbi (erofs_bfree i bm) + (if bb_mapped b then 0 else bcnt sbi b) = bm_need sbi bm"
proof -
  have ids: "ids_ok bm" and bk: "buckets_ok sbi bm" using inv by (simp_all add: bm_inv_def)
  obtain xs ys where sp: "bm_blocks bm = xs @ b # ys" "bb_id b = i" "i \<notin> bb_id ` set xs" "i \<notin> bb_id ` set ys"
    using get_bb_split [OF ids get] .
  have blk: "bm_blocks (erofs_bfree i bm) = xs @ ys" by (rule bfree_blocks [OF sp(1,3,4,2)])
  have fr: "bm_fresh (erofs_bfree i bm) = bm_fresh bm" "tail_blkaddr (erofs_bfree i bm) = tail_blkaddr bm" by (simp_all add: erofs_bfree_def)
  obtain A B C where "bh_ids bm = A @ B @ C" "bh_ids (erofs_bfree i bm) = A @ C" by (simp add: bh_ids_def blk sp(1))
  then show "ids_ok (erofs_bfree i bm)" using ids by (auto simp: ids_ok_def blk fr sp(1))
  show "list_all heads_ok (bm_blocks (erofs_bfree i bm))" using inv by (simp add: bm_inv_def blk sp(1))
  show "bm_need sbi (erofs_bfree i bm) + (if bb_mapped b then 0 else bcnt sbi b) = bm_need sbi bm"
    by (simp add: bm_need_def blk fr sp(1))
  show "buckets_ok sbi (erofs_bfree i bm)"
    unfolding buckets_ok_def
  proof (intro allI impI)
    fix t k x assume "x \<in> set (mapped_buckets (erofs_bfree i bm) t k)"
    then have x: "x \<noteq> i" "x \<in> set (mapped_buckets bm t k)" by (simp_all add: erofs_bfree_def)
    from buckets_okE [OF bk x(2)] obtain c where c: "c \<in> set (bm_blocks bm)" "bb_id c = x" "bb_mapped c" "bb_type c = t"
        "unat (bb_off c) mod 2 ^ blkbits sbi = k" .
    have "c \<in> set (xs @ ys)" using c(1,2) x(1) sp(1,2) by auto
    with c(2-5) show "\<exists>b \<in> set (bm_blocks (erofs_bfree i bm)). bb_id b = x \<and> bb_mapped b \<and> bb_type b = t \<and>
        unat (bb_off b) mod 2 ^ blkbits sbi = k"
      unfolding blk by blast
  qed
qed

lemma bfree_inv:
  assumes inv: "bm_inv sbi bm" and get: "get_bb bm i = Some b"
  shows "bm_inv sbi (erofs_bfree i bm)" and "bm_need sbi (erofs_bfree i bm) \<le> bm_need sbi bm"
proof -
  obtain ms us where l: "laid_out sbi bm ms us" and ids: "ids_ok bm" using inv by (auto simp: bm_inv_def)
  have lo: "\<exists>ms us. laid_out sbi (erofs_bfree i bm) ms us"
    using bfree_laid_out [OF l ids get] by (auto split: if_splits)
  note r = bfree_rest [OF inv get]
  show n: "bm_need sbi (erofs_bfree i bm) \<le> bm_need sbi bm" using r(4) by linarith
  have "bm_need sbi bm < 2 ^ 32 - 1" using inv by (simp add: bm_inv_def)
  then have "bm_need sbi (erofs_bfree i bm) < 2 ^ 32 - 1" using n by linarith
  then show "bm_inv sbi (erofs_bfree i bm)" using lo r(1,2,3) unfolding bm_inv_def by blast
qed

text \<open>Rolling \<^verbatim>\<open>tail_blkaddr\<close> back to a freed block is safe when no empty block is mapped behind it.\<close>

lemma bfree_rollback_inv:
  assumes inv: "bm_inv sbi bm" and get: "get_bb bm i = Some b" and m: "bb_mapped b"
    and tl: "unat (tail_blkaddr bm) = bend sbi b"
    and last: "last_mapped bm = Some i \<or> list_all (\<lambda>c. bb_id c = i \<or> bb_off c \<noteq> 0) (bm_blocks bm)"
  shows "bm_inv sbi ((erofs_bfree i bm)\<lparr>tail_blkaddr := bb_blkaddr b\<rparr>)" (is "bm_inv sbi ?bm")
    and "bm_need sbi ((erofs_bfree i bm)\<lparr>tail_blkaddr := bb_blkaddr b\<rparr>) \<le> bm_need sbi bm"
proof -
  obtain ms us where l: "laid_out sbi bm ms us" and ids: "ids_ok bm" using inv by (auto simp: bm_inv_def)
  obtain xs zs where z: "ms = xs @ b # zs" and lo: "laid_out sbi (erofs_bfree i bm) (xs @ zs) us"
    using bfree_laid_out [OF l ids get] m by auto
  have bi: "bb_id b = i" using get_bb_split [OF ids get] by metis
  have "zs = []"
  proof (rule ccontr)
    assume "zs \<noteq> []"
    then obtain ws w where w: "zs = ws @ [w]" by (metis rev_exhaust)
    have "bb_id w \<noteq> i" using ids l z w bi by (auto simp: ids_ok_def laid_out_def)
    moreover have "last_mapped bm = Some (bb_id w)" using l z w by (simp add: laid_out_def)
    moreover have "w \<in> set (bm_blocks bm)" using l z w by (simp add: laid_out_def)
    ultimately have "bb_off w \<noteq> 0" using last by (auto simp: list_all_iff)
    then have "0 < bcnt sbi w" using lastpos_split(2) [of "2 ^ blkbits sbi" "unat (bb_off w)"]
      by (simp add: bcnt_def unat_gt_0)
    moreover have "bend sbi b \<le> unat (bb_blkaddr w)" "bend sbi w \<le> unat (tail_blkaddr bm)"
      using l z w by (auto simp: laid_out_def sorted_wrt_append)
    ultimately show False using tl by (simp add: bend_def)
  qed
  then have "laid_out sbi ?bm xs us"
    using lo l z by (auto simp: laid_out_def sorted_wrt_append list_all_iff)
  moreover note r = bfree_rest [OF inv get]
  have n: "bm_need sbi ?bm \<le> bm_need sbi bm"
    using r(4) tl m by (simp add: bm_need_def bend_def erofs_bfree_def)
  moreover have "bm_need sbi bm < 2 ^ 32 - 1" using inv by (simp add: bm_inv_def)
  then have "bm_need sbi ?bm < 2 ^ 32 - 1" using n by linarith
  moreover have "ids_ok ?bm" "list_all heads_ok (bm_blocks ?bm)" "buckets_ok sbi ?bm"
    using r(1,2,3) by (simp_all add: ids_ok_def bh_ids_def buckets_ok_def)
  ultimately show "bm_inv sbi ?bm" "bm_need sbi ?bm \<le> bm_need sbi bm" unfolding bm_inv_def by blast+
qed

lemma metablkcnt_inv [simp]:
  "bm_inv sbi (bm\<lparr>metablkcnt := n\<rparr>) = bm_inv sbi bm" "bm_need sbi (bm\<lparr>metablkcnt := n\<rparr>) = bm_need sbi bm"
  "get_bb (bm\<lparr>metablkcnt := n\<rparr>) i = get_bb bm i"
  by (simp_all add: bm_inv_def laid_out_def ids_ok_def bh_ids_def buckets_ok_def bm_need_def get_bb_def)

lemma find_map_id: "(\<And>x. f (g x) = f x) \<Longrightarrow> find (\<lambda>x. f x = i) (map g xs) = map_option g (find (\<lambda>x. f x = i) xs)"
  by (induction xs) auto

lemma flush_end_get:
  "get_bb (erofs_bh_flush_generic_end h bm) i =
     map_option (\<lambda>b. b\<lparr>bb_bhs := filter (\<lambda>x. bh_id x \<noteq> h) (bb_bhs b)\<rparr>) (get_bb bm i)"
  by (simp add: get_bb_def erofs_bh_flush_generic_end_def find_map_id)

lemma bb_of_bh_get:
  assumes "ids_ok bm" "bb_of_bh bm h = Some b"
  shows "get_bb bm (bb_id b) = Some b" and "h \<in> bh_id ` set (bb_bhs b)"
proof -
  have "b \<in> set (bm_blocks bm)" and h: "h \<in> bh_id ` set (bb_bhs b)" using assms(2) by (auto simp: bb_of_bh_def find_Some_iff)
  then obtain xs ys where x: "bm_blocks bm = xs @ b # ys" by (auto simp: in_set_conv_decomp)
  then have "bb_id b \<notin> bb_id ` set xs" using assms(1) by (auto simp: ids_ok_def)
  then show "get_bb bm (bb_id b) = Some b" by (rule get_bb_here [OF x refl])
  show "h \<in> bh_id ` set (bb_bhs b)" by (rule h)
qed

text \<open>When the caller may ask to take the space of a head back.\<close>

definition revocable :: "erofs_bufmgr \<Rightarrow> nat \<Rightarrow> bool" where
  "revocable bm h \<longleftrightarrow>
     (case bb_of_bh bm h of
        None \<Rightarrow> True
      | Some bb \<Rightarrow> last_mapped bm = Some (bb_id bb) \<or> list_all (\<lambda>c. bb_id c = bb_id bb \<or> bb_off c \<noteq> 0) (bm_blocks bm))"

lemma bdrop_inv:
  assumes inv: "bm_inv sbi bm" and bits: "blkbits sbi \<le> 12" and rev: "tryrevoke \<Longrightarrow> revocable bm h"
    and run: "erofs_bdrop sbi bm h tryrevoke = Inr bm'"
  shows "bm_inv sbi bm'" and "bm_need sbi bm' \<le> bm_need sbi bm"
proof -
  have ids: "ids_ok bm" using inv by (simp add: bm_inv_def)
  obtain b where b: "bb_of_bh bm h = Some b" using run by (auto simp: erofs_bdrop_def split: option.splits)
  note get = bb_of_bh_get(1) [OF ids b]
  let ?b = "b\<lparr>bb_bhs := filter (\<lambda>x. bh_id x \<noteq> h) (bb_bhs b)\<rparr>"
  define bm1 where "bm1 = erofs_bh_flush_generic_end h bm"
  have i1: "bm_inv sbi bm1" and n1: "bm_need sbi bm1 = bm_need sbi bm" using flush_end_inv [OF inv] by (simp_all add: bm1_def)
  have g1: "get_bb bm1 (bb_id b) = Some ?b" using get by (simp add: bm1_def flush_end_get)
  define rb where "rb \<longleftrightarrow> tryrevoke \<and> bb_blkaddr b \<noteq> NULL_ADDR \<and>
      (ucast (tail_blkaddr bm) :: u64) = ucast (bb_blkaddr b) + BLK_ROUND_UP sbi (bb_off b)"
  define bm2 where "bm2 = (if \<not> rb \<and> bb_type b \<noteq> DATA
      then bm1\<lparr>metablkcnt := metablkcnt bm1 + ucast (BLK_ROUND_UP sbi (bb_off b))\<rparr> else bm1)"
  have i2: "bm_inv sbi bm2" and n2: "bm_need sbi bm2 = bm_need sbi bm" and g2: "get_bb bm2 (bb_id b) = Some ?b"
    using i1 n1 g1 by (simp_all add: bm2_def)
  have r: "bm' = bm1 \<or> bm' = (if rb then (erofs_bfree (bb_id b) bm2)\<lparr>tail_blkaddr := bb_blkaddr b\<rparr> else erofs_bfree (bb_id b) bm2)"
    using run by (auto simp: erofs_bdrop_def b Let_def bm1_def [symmetric] rb_def [symmetric] bm2_def split: if_splits)
  have roll: "bm_inv sbi ((erofs_bfree (bb_id b) bm2)\<lparr>tail_blkaddr := bb_blkaddr b\<rparr>) \<and>
      bm_need sbi ((erofs_bfree (bb_id b) bm2)\<lparr>tail_blkaddr := bb_blkaddr b\<rparr>) \<le> bm_need sbi bm" if rb: rb
  proof -
    have m: "bb_mapped ?b" using rb by (simp add: rb_def bb_mapped_def)
    have "unat (bb_off b) < 2 ^ 60" using off_bound [OF inv _ bits, of b] get_bb_split [OF ids get] by fastforce
    then have "unat (BLK_ROUND_UP sbi (bb_off b)) = bcnt sbi b" by (simp add: unat_BLK_ROUND_UP_nceil [OF bits] bcnt_def)
    moreover have "bcnt sbi b < 2 ^ 32" using bcnt_bound [OF inv, of b] get_bb_split [OF ids get] by fastforce
    moreover have "unat (bb_blkaddr b) < 2 ^ 32" using unsigned_less [of "bb_blkaddr b"] by simp
    ultimately have "unat (ucast (bb_blkaddr b) + BLK_ROUND_UP sbi (bb_off b) :: u64) = bend sbi b"
      by (simp add: unat_word_ariths unat_ucast_up bend_def)
    moreover have "(ucast (tail_blkaddr bm) :: u64) = ucast (bb_blkaddr b) + BLK_ROUND_UP sbi (bb_off b)" using rb by (simp add: rb_def)
    ultimately have "unat (ucast (tail_blkaddr bm) :: u64) = bend sbi b" by simp
    then have "unat (tail_blkaddr bm) = bend sbi b" by (simp add: unat_ucast_up)
    then have tl: "unat (tail_blkaddr bm2) = bend sbi ?b" by (simp add: bm2_def bm1_def erofs_bh_flush_generic_end_def bend_def bcnt_def)
    have "revocable bm h" using rb rev by (simp add: rb_def)
    then have "last_mapped bm2 = Some (bb_id b) \<or> list_all (\<lambda>c. bb_id c = bb_id b \<or> bb_off c \<noteq> 0) (bm_blocks bm2)"
      by (auto simp: revocable_def b bm2_def bm1_def erofs_bh_flush_generic_end_def list_all_iff)
    from bfree_rollback_inv [OF i2 g2 m tl this] n2 show ?thesis by simp
  qed
  note fr = bfree_inv [OF i2 g2]
  show "bm_inv sbi bm'" using r i1 fr(1) roll by (auto split: if_splits)
  show "bm_need sbi bm' \<le> bm_need sbi bm" using r n1 fr(2) n2 roll by (auto split: if_splits)
qed

section \<open>Flushing keeps the invariant\<close>

lemma bm_inv_cong:
  assumes "blkbits sbi' = blkbits sbi"
  shows "bm_inv sbi' bm = bm_inv sbi bm" and "bm_need sbi' bm = bm_need sbi bm"
proof -
  have c: "bcnt sbi' = bcnt sbi" by (intro ext) (simp add: bcnt_def assms)
  then have "bend sbi' = bend sbi" by (intro ext) (simp add: bend_def)
  then show "bm_inv sbi' bm = bm_inv sbi bm" and "bm_need sbi' bm = bm_need sbi bm"
    unfolding bm_inv_def laid_out_def buckets_ok_def bm_need_def assms c by simp_all
qed

text \<open>What an operation that writes a head out may change: the device, never the block size.\<close>

definition keeps_blksz :: "(erofs_sb_info \<Rightarrow> nat \<Rightarrow> u64 \<Rightarrow> erofs_sb_info result) \<Rightarrow> bool" where
  "keeps_blksz flush \<longleftrightarrow> (\<forall>sbi h off sbi'. flush sbi h off = Inr sbi' \<longrightarrow> blkbits sbi' = blkbits sbi)"

abbreviation addrs :: "erofs_bufmgr \<Rightarrow> (nat \<times> u32) list" where
  "addrs bm \<equiv> map (\<lambda>b. (bb_id b, bb_blkaddr b)) (bm_blocks bm)"

lemma flush_end_addrs [simp]: "addrs (erofs_bh_flush_generic_end h bm) = addrs bm"
  by (simp add: erofs_bh_flush_generic_end_def)

lemma flush_bhs_inv:
  assumes "flush_bhs flush sbi bm bhs skip = Inr (sbi', bm', skip')" "bm_inv sbi bm" "keeps_blksz flush"
  shows "blkbits sbi' = blkbits sbi \<and> bm_inv sbi bm' \<and> addrs bm' = addrs bm \<and> bm_need sbi bm' = bm_need sbi bm"
  using assms(1,2)
proof (induction bhs arbitrary: sbi bm skip)
  case (Cons bh bhs)
  note fe = flush_end_inv [OF Cons.prems(2)]
  show ?case
  proof (cases "bh_op bh")
    case erofs_drop_directly_bhops
    then show ?thesis using Cons.IH [OF _ fe(1)] Cons.prems fe(2) by auto
  next
    case erofs_skip_write_bhops
    then show ?thesis using Cons.IH [OF _ Cons.prems(2)] Cons.prems(1) by auto
  next
    case write_bhops
    then obtain off sbi1 where f: "flush sbi (bh_id bh) off = Inr sbi1"
        and r: "flush_bhs flush sbi1 (erofs_bh_flush_generic_end (bh_id bh) bm) bhs skip = Inr (sbi', bm', skip')"
      using Cons.prems(1) by auto
    have k: "blkbits sbi1 = blkbits sbi" using assms(3) f by (auto simp: keeps_blksz_def)
    have "bm_inv sbi1 (erofs_bh_flush_generic_end (bh_id bh) bm)" using fe(1) bm_inv_cong [OF k] by simp
    from Cons.IH [OF r this] have ih: "blkbits sbi' = blkbits sbi1" "bm_inv sbi1 bm'" "addrs bm' = addrs bm"
        "bm_need sbi1 bm' = bm_need sbi1 (erofs_bh_flush_generic_end (bh_id bh) bm)"
      by simp_all
    then show ?thesis using k bm_inv_cong [OF k] fe(2) by simp
  qed
qed simp

lemma fillzero_blksz [simp]: "blkszbits (erofs_dev_fillzero sbi off len pad) = blkszbits sbi"
  by (simp add: erofs_dev_fillzero_def split: option.split sum.split)

text \<open>Before the loop looks at \<^verbatim>\<open>p\<close>, all blocks in front of it have their address.\<close>

definition flush_front :: "erofs_bufmgr \<Rightarrow> nat list \<Rightarrow> bool" where
  "flush_front bm ps \<longleftrightarrow> (\<exists>xs ys. bm_blocks bm = xs @ ys \<and> list_all bb_mapped xs \<and> map bb_id ys = ps)"

lemma flush_front_addrs:
  assumes "addrs bm' = addrs bm" shows "flush_front bm' ps = flush_front bm ps"
proof -
  have "flush_front bm' ps" if a: "addrs bm' = addrs bm" and f: "flush_front bm ps" for bm bm'
  proof -
    obtain xs ys where x: "bm_blocks bm = xs @ ys" "list_all bb_mapped xs" "map bb_id ys = ps" using f by (auto simp: flush_front_def)
    let ?g = "\<lambda>b. (bb_id b, bb_blkaddr b)"
    have "map ?g (bm_blocks bm') = map ?g xs @ map ?g ys" using a x(1) by simp
    then obtain xs' ys' where y: "bm_blocks bm' = xs' @ ys'" "map ?g xs' = map ?g xs" "map ?g ys' = map ?g ys"
      by (auto simp: map_eq_append_conv)
    have "map fst (map ?g ys') = map fst (map ?g ys)" "map snd (map ?g xs') = map snd (map ?g xs)" using y by simp_all
    then have "map bb_id ys' = ps" "map bb_blkaddr xs' = map bb_blkaddr xs" using x(3) by (simp_all add: comp_def)
    moreover from this have "list_all (\<lambda>a. a \<noteq> NULL_ADDR) (map bb_blkaddr xs')"
      using x(2) by (simp add: list_all_iff bb_mapped_def)
    then have "list_all bb_mapped xs'" by (simp add: list_all_iff bb_mapped_def)
    ultimately show ?thesis using y(1) unfolding flush_front_def by blast
  qed
  from this [OF assms] this [OF assms [symmetric]] show ?thesis by blast
qed

lemma mapbh_front:
  assumes inv: "bm_inv sbi bm" and bits: "blkbits sbi \<le> 12" and f: "flush_front bm (p # ps)"
    and run: "mapbh_one sbi bm p = (bm', e)"
  shows "bm_inv sbi bm'" and "bm_need sbi bm' = bm_need sbi bm"
    and "\<exists>b. get_bb bm' p = Some b \<and> bb_mapped b \<and> (\<exists>xs ys. bm_blocks bm' = xs @ b # ys \<and> list_all bb_mapped xs \<and> map bb_id ys = ps)"
proof -
  obtain ms us where l: "laid_out sbi bm ms us" and ids: "ids_ok bm" using inv by (auto simp: bm_inv_def)
  obtain xs b ys where x: "bm_blocks bm = xs @ b # ys" "list_all bb_mapped xs" "bb_id b = p" "map bb_id ys = ps"
    using f by (auto simp: flush_front_def)
  have n: "p \<notin> bb_id ` set xs" using ids x by (auto simp: ids_ok_def)
  have g: "get_bb bm p = Some b" by (rule get_bb_here [OF x(1,3) n])
  have "bm_inv sbi bm' \<and> bm_need sbi bm' = bm_need sbi bm \<and>
    (\<exists>b. get_bb bm' p = Some b \<and> bb_mapped b \<and> (\<exists>xs ys. bm_blocks bm' = xs @ b # ys \<and> list_all bb_mapped xs \<and> map bb_id ys = ps))"
  proof (cases "bb_mapped b")
    case True
    then have "bm' = bm" using run mapbh_again [OF inv bits g] by simp
    then show ?thesis using inv g True x by blast
  next
    case False
    then obtain zs where z: "us = zs @ b # ys" "xs = ms @ zs" using laid_out_split [OF l x(1)] by auto
    have "list_all bb_mapped zs" "list_all (\<lambda>b. \<not> bb_mapped b) zs" using x(2) z l by (simp_all add: laid_out_def)
    then have "zs = []" by (cases zs) auto
    then have us: "us = b # ys" "xs = ms" using z by simp_all
    let ?b = "b\<lparr>bb_blkaddr := tail_blkaddr bm\<rparr>"
    note m = mapbh_first [OF inv bits l [unfolded us] run [folded x(3)] refl]
    have blk: "bm_blocks bm' = ms @ ?b # ys" and mm: "bb_mapped ?b" and mms: "list_all bb_mapped ms" using m(1) by (auto simp: laid_out_def)
    have "get_bb bm' p = Some ?b" by (rule get_bb_here [OF blk]) (use n us x(3) in simp_all)
    then show ?thesis using m(2,3) blk mm mms x(4) by blast
  qed
  then show "bm_inv sbi bm'" and "bm_need sbi bm' = bm_need sbi bm"
    and "\<exists>b. get_bb bm' p = Some b \<and> bb_mapped b \<and> (\<exists>xs ys. bm_blocks bm' = xs @ b # ys \<and> list_all bb_mapped xs \<and> map bb_id ys = ps)"
    by blast+
qed

lemma front_after_free:
  assumes "bm_blocks bm = xs @ b # ys" "list_all bb_mapped xs" "map bb_id ys = ps" "bb_id b = p" "ids_ok bm"
  shows "flush_front (erofs_bfree p bm) ps"
proof -
  have "p \<notin> bb_id ` set xs" "p \<notin> bb_id ` set ys" using assms by (auto simp: ids_ok_def)
  then have "bm_blocks (erofs_bfree p bm) = xs @ ys" using bfree_blocks [OF assms(1) _ _ assms(4)] by simp
  then show ?thesis using assms by (auto simp: flush_front_def)
qed

lemma bflush_one_inv:
  assumes inv: "bm_inv sbi bm" and bits: "blkbits sbi \<le> 12" and k: "keeps_blksz flush" and f: "flush_front bm (p # ps)"
    and run: "bflush_one flush sbi bm p = Inr (sbi', bm')"
  shows "blkbits sbi' = blkbits sbi" and "bm_inv sbi bm'" and "flush_front bm' ps" and "bm_need sbi bm' \<le> bm_need sbi bm"
proof -
  obtain bm1 e where m: "mapbh_one sbi bm p = (bm1, e)" by (cases "mapbh_one sbi bm p")
  note mf = mapbh_front [OF inv bits f m]
  obtain b xs ys where b: "get_bb bm1 p = Some b" "bb_mapped b" "bm_blocks bm1 = xs @ b # ys" "list_all bb_mapped xs" "map bb_id ys = ps"
    using mf(3) by blast
  obtain sbi2 bm2 skip where fl: "flush_bhs flush sbi bm1 (bb_bhs b) False = Inr (sbi2, bm2, skip)"
      and r: "bm' = bm2 \<and> sbi' = sbi2 \<or> (\<exists>n. bm' = erofs_bfree p (bm2\<lparr>metablkcnt := n\<rparr>)) \<and> blkbits sbi' = blkbits sbi2"
  proof -
    obtain sbi2 bm2 skip where fl: "flush_bhs flush sbi bm1 (bb_bhs b) False = Inr (sbi2, bm2, skip)"
      using run by (auto simp: bflush_one_def m b(1))
    have "bm' = bm2 \<and> sbi' = sbi2 \<or> bm' = erofs_bfree p (bm2\<lparr>metablkcnt := metablkcnt bm'\<rparr>) \<and> blkbits sbi' = blkbits sbi2"
      using run by (cases skip) (auto simp: bflush_one_def m b(1) fl Let_def erofs_bfree_def)
    then show ?thesis using that fl by blast
  qed
  note fi = flush_bhs_inv [OF fl mf(1) k]
  have ids: "ids_ok bm1" "ids_ok bm2" using mf(1) fi by (simp_all add: bm_inv_def)
  have bp: "bb_id b = p" using get_bb_split [OF ids(1) b(1)] by metis
  have "flush_front bm1 (p # ps)" using b bp unfolding flush_front_def by (intro exI [of _ xs] exI [of _ "b # ys"]) simp
  then have "flush_front bm2 (p # ps)" using flush_front_addrs [OF fi [THEN conjunct2, THEN conjunct2, THEN conjunct1]] by blast
  then obtain xs' b' ys' where c: "bm_blocks bm2 = xs' @ b' # ys'" "list_all bb_mapped xs'" "map bb_id ys' = ps" "bb_id b' = p"
    by (auto simp: flush_front_def)
  have n: "p \<notin> bb_id ` set xs'" using ids(2) c by (auto simp: ids_ok_def)
  have g: "get_bb bm2 p = Some b'" by (rule get_bb_here [OF c(1,4) n])
  show "blkbits sbi' = blkbits sbi" using r fi by auto
  have m': "bb_mapped b'"
  proof -
    have "(p, bb_blkaddr b') \<in> set (addrs bm2)" using c by force
    then have "(p, bb_blkaddr b') \<in> set (addrs bm1)" using fi by simp
    then obtain d where d: "d \<in> set (bm_blocks bm1)" "bb_id d = p" "bb_blkaddr d = bb_blkaddr b'" by auto
    have "inj_on bb_id (set (bm_blocks bm1))" using ids(1) by (simp add: ids_ok_def distinct_map)
    then have "d = b" using d b(3) bp by (auto dest: inj_onD)
    then show ?thesis using d b(2) by (simp add: bb_mapped_def)
  qed
  have ff: "flush_front bm2 ps" using c m' unfolding flush_front_def by (intro exI [of _ "xs' @ [b']"] exI [of _ ys']) simp
  have fr: "bm_inv sbi (erofs_bfree p (bm2\<lparr>metablkcnt := n\<rparr>))" "bm_need sbi (erofs_bfree p (bm2\<lparr>metablkcnt := n\<rparr>)) \<le> bm_need sbi bm2"
      "flush_front (erofs_bfree p (bm2\<lparr>metablkcnt := n\<rparr>)) ps" for n
    using bfree_inv [of sbi "bm2\<lparr>metablkcnt := n\<rparr>" p b'] fi g
      front_after_free [of "bm2\<lparr>metablkcnt := n\<rparr>" xs' b' ys' ps p] c ids(2) by (simp_all add: ids_ok_def bh_ids_def)
  show "bm_inv sbi bm'" "flush_front bm' ps" "bm_need sbi bm' \<le> bm_need sbi bm"
    using r fi ff fr mf(2) by auto
qed

lemma bflush_loop_inv:
  assumes "bflush_loop flush sbi bm bb ps = Inr (sbi', bm')" "bm_inv sbi bm" "blkbits sbi \<le> 12" "keeps_blksz flush" "flush_front bm ps"
  shows "bm_inv sbi bm' \<and> bm_need sbi bm' \<le> bm_need sbi bm"
  using assms
proof (induction ps arbitrary: sbi bm)
  case (Cons p ps)
  show ?case
  proof (cases "bb = Some p")
    case False
    then obtain sbi1 bm1 where o: "bflush_one flush sbi bm p = Inr (sbi1, bm1)" and r: "bflush_loop flush sbi1 bm1 bb ps = Inr (sbi', bm')"
      using Cons.prems(1) by auto
    note i = bflush_one_inv [OF Cons.prems(2-5) o]
    have "bm_inv sbi1 bm1" using i(1,2) bm_inv_cong(1) by metis
    from Cons.IH [OF r this _ Cons.prems(4) i(3)] have "bm_inv sbi1 bm'" "bm_need sbi1 bm' \<le> bm_need sbi1 bm1"
      using i(1) Cons.prems(3) by simp_all
    then show ?thesis using bm_inv_cong [OF i(1)] i(4) by simp
  qed (use Cons.prems in auto)
qed simp

lemma bflush_inv:
  assumes "erofs_bflush flush sbi bm bb = Inr (sbi', bm')" "bm_inv sbi bm" "blkbits sbi \<le> 12" "keeps_blksz flush"
  shows "bm_inv sbi bm'" and "bm_need sbi bm' \<le> bm_need sbi bm"
proof -
  have "flush_front bm (map bb_id (bm_blocks bm))" unfolding flush_front_def by (intro exI [of _ "[]"] exI [of _ "bm_blocks bm"]) simp
  then show "bm_inv sbi bm'" and "bm_need sbi bm' \<le> bm_need sbi bm"
    using bflush_loop_inv [OF assms(1) [unfolded erofs_bflush_def] assms(2,3,4)] by blast+
qed

section \<open>Runs of the buffer manager\<close>

text \<open>
  What mkfs does with its buffer manager: any sequence of the calls below, as long as the image stays
  below \<^verbatim>\<open>NULL_ADDR\<close> blocks and the space of a head is only taken back at the end of the image.
\<close>

inductive bm_step :: "erofs_sb_info \<Rightarrow> erofs_bufmgr \<Rightarrow> erofs_bufmgr \<Rightarrow> bool" for sbi where
  balloc: "\<lbrakk>bm_need sbi bm + nceil (2 ^ blkbits sbi) (unat size0) < 2 ^ 32 - 1;
     erofs_balloc sbi bm type size0 req inl = Inr (bm', h)\<rbrakk> \<Longrightarrow> bm_step sbi bm bm'"
| battach: "\<lbrakk>bm_need sbi bm + nceil (2 ^ blkbits sbi) (unat size0) < 2 ^ 32 - 1;
     erofs_battach sbi bm h type size0 = Inr (bm', n)\<rbrakk> \<Longrightarrow> bm_step sbi bm bm'"
| balloon: "\<lbrakk>bm_need sbi bm + nceil (2 ^ blkbits sbi) (unat incr) < 2 ^ 32 - 1;
     erofs_bh_balloon sbi bm h incr = Inr (bm', used)\<rbrakk> \<Longrightarrow> bm_step sbi bm bm'"
| mapbh: "erofs_mapbh sbi bm bb = (bm', a) \<Longrightarrow> bm_step sbi bm bm'"
| set_op: "bm_step sbi bm (set_bh_op h op bm)"
| bdrop: "\<lbrakk>tryrevoke \<longrightarrow> revocable bm h; erofs_bdrop sbi bm h tryrevoke = Inr bm'\<rbrakk> \<Longrightarrow> bm_step sbi bm bm'"
| bflush: "\<lbrakk>keeps_blksz flush; blkbits sbi' = blkbits sbi; erofs_bflush flush sbi' bm bb = Inr (sbi'', bm')\<rbrakk> \<Longrightarrow>
     bm_step sbi bm bm'"

inductive bm_reach :: "erofs_sb_info \<Rightarrow> erofs_bufmgr \<Rightarrow> bool" for sbi where
  init: "unat startblk < 2 ^ 32 - 1 \<Longrightarrow> bm_reach sbi (erofs_buffer_init junk startblk)"
| step: "bm_reach sbi bm \<Longrightarrow> bm_step sbi bm bm' \<Longrightarrow> bm_reach sbi bm'"

lemma bm_step_inv: "bm_step sbi bm bm' \<Longrightarrow> valid_blkszbits sbi \<Longrightarrow> bm_inv sbi bm \<Longrightarrow> bm_inv sbi bm'"
proof (induction rule: bm_step.induct)
  case (balloc bm size0 type req inl bm' h)
  then show ?case by (intro balloc_inv [OF balloc.prems(2,1) balloc.hyps])
next
  case (battach bm size0 h type bm' n)
  then show ?case by (intro battach_op_inv [OF battach.prems(2,1) battach.hyps])
next
  case (balloon bm incr h bm' used)
  then show ?case by (intro balloon_inv [OF balloon.prems(2,1) balloon.hyps])
next
  case (mapbh bm bb bm' a)
  then show ?case by (intro mapbh_inv(1) [OF mapbh.prems(2) _ mapbh.hyps]) (simp add: valid_blkszbits_def)
next
  case (set_op bm h op)
  then show ?case by (intro set_op_inv(1))
next
  case (bdrop tryrevoke bm h bm')
  then show ?case by (intro bdrop_inv(1) [OF bdrop.prems(2) _ _ bdrop.hyps(2)]) (simp_all add: valid_blkszbits_def)
next
  case (bflush flush sbi' bm bb sbi'' bm')
  have "bm_inv sbi' bm'"
    by (rule bflush_inv(1) [OF bflush.hyps(3) _ _ bflush.hyps(1)])
      (use bflush bm_inv_cong [of sbi' sbi bm] in \<open>simp_all add: valid_blkszbits_def\<close>)
  then show ?case using bm_inv_cong [OF bflush.hyps(2)] by simp
qed

lemma bm_reach_inv:
  assumes "bm_reach sbi bm" and "valid_blkszbits sbi"
  shows "bm_inv sbi bm"
  using assms by (induction rule: bm_reach.induct) (auto intro: init_inv bm_step_inv)

section \<open>Two heads never share a byte\<close>

text \<open>The offsets a head covers inside its block.\<close>

lemma next_off_split:
  assumes "bb_bhs b = xs @ x # ys" "bh_id x = h" "h \<notin> bh_id ` set xs"
  shows "next_off (bb_bhs b) boff h = (case ys of [] \<Rightarrow> boff | y # _ \<Rightarrow> bh_off y)"
proof -
  have "next_off (zs @ x # ys) boff h = (case ys of [] \<Rightarrow> boff | y # _ \<Rightarrow> bh_off y)" if "h \<notin> bh_id ` set zs" for zs
    using that assms(2) by (induction zs) auto
  then show ?thesis using assms by simp
qed

lemma head_in_block:
  assumes ids: "ids_ok bm" and ok: "list_all heads_ok (bm_blocks bm)" and b: "bb_of_bh bm h = Some b"
  obtains xs x ys where "bb_bhs b = xs @ x # ys" "bh_id x = h" "h \<notin> bh_id ` set xs" "h \<notin> bh_id ` set ys"
    "find (\<lambda>b. bh_id b = h) (bb_bhs b) = Some x" "bh_off x \<le> next_off (bb_bhs b) (bb_off b) h" "next_off (bb_bhs b) (bb_off b) h \<le> bb_off b"
proof -
  have "h \<in> bh_id ` set (bb_bhs b)" and get: "get_bb bm (bb_id b) = Some b" using bb_of_bh_get [OF ids b] by auto
  then obtain x where "find (\<lambda>b. bh_id b = h) (bb_bhs b) = Some x"
    by (cases "find (\<lambda>b. bh_id b = h) (bb_bhs b)") (auto simp: find_None_iff)
  moreover obtain us vs where blk: "bm_blocks bm = us @ b # vs" using get_bb_split [OF ids get] by metis
  then have "distinct (map bh_id (bb_bhs b))" and hb: "heads_ok b" using ids ok by (simp_all add: ids_ok_def bh_ids_def)
  ultimately obtain xs ys where s: "bb_bhs b = xs @ x # ys" "bh_id x = h" "h \<notin> bh_id ` set xs" "h \<notin> bh_id ` set ys"
      and f: "find (\<lambda>b. bh_id b = h) (bb_bhs b) = Some x"
    using find_split [of bh_id "bb_bhs b" h x] by blast
  have "bh_off x \<le> next_off (bb_bhs b) (bb_off b) h" "next_off (bb_bhs b) (bb_off b) h \<le> bb_off b"
    unfolding next_off_split [OF s(1-3)] using hb by (auto simp: heads_ok_def s(1) sorted_wrt_append split: list.split)
  then show ?thesis using that [OF s f] by blast
qed

lemma btell_value:
  assumes inv: "bm_inv sbi bm" and bits: "blkbits sbi \<le> 12" and b: "bb_of_bh bm h = Some b" and m: "bb_mapped b"
  obtains s e where "erofs_btell sbi bm h False = Inr s" "erofs_btell sbi bm h True = Inr e"
    "\<exists>xs x ys. bb_bhs b = xs @ x # ys \<and> bh_id x = h \<and> unat s = unat (bb_blkaddr b) * 2 ^ blkbits sbi + unat (bh_off x)"
    "unat e = unat (bb_blkaddr b) * 2 ^ blkbits sbi + unat (next_off (bb_bhs b) (bb_off b) h)"
    "s \<le> e" "unat e \<le> bend sbi b * 2 ^ blkbits sbi"
proof -
  let ?B = "2 ^ blkbits sbi :: nat"
  have ids: "ids_ok bm" and hd: "list_all heads_ok (bm_blocks bm)" using inv by (simp_all add: bm_inv_def)
  obtain xs x ys where x: "bb_bhs b = xs @ x # ys" "bh_id x = h" "find (\<lambda>b. bh_id b = h) (bb_bhs b) = Some x"
      "bh_off x \<le> next_off (bb_bhs b) (bb_off b) h" "next_off (bb_bhs b) (bb_off b) h \<le> bb_off b"
    using head_in_block [OF ids hd b] by metis
  have mem: "b \<in> set (bm_blocks bm)" using get_bb_split [OF ids bb_of_bh_get(1) [OF ids b]] by (metis in_set_conv_decomp)
  have ob: "unat (bb_off b) < 2 ^ 44" by (rule off_bound [OF inv mem bits])
  have B12: "?B \<le> 2 ^ 12" using bits by (intro power_increasing) auto
  have ad: "unat (bb_blkaddr b) < 2 ^ 32" using unsigned_less [of "bb_blkaddr b"] by simp
  have "unat (bb_blkaddr b) * ?B \<le> unat (bb_blkaddr b) * 2 ^ 12" using B12 by (rule mult_left_mono) simp
  also have "\<dots> < 2 ^ 44" using ad by simp
  finally have pb: "unat (bb_blkaddr b) * ?B < 2 ^ 44" .
  have ps: "unat (erofs_pos sbi (bb_blkaddr b)) = unat (bb_blkaddr b) * ?B" using bits by (simp add: unat_erofs_pos32)
  have w: "unat (erofs_pos sbi (bb_blkaddr b) + o1) = unat (bb_blkaddr b) * ?B + unat o1" if "o1 \<le> bb_off b" for o1
    using that ob pb by (simp add: unat_word_ariths ps word_le_nat_alt)
  have eqs: "erofs_btell sbi bm h False = Inr (erofs_pos sbi (bb_blkaddr b) + bh_off x)"
      "erofs_btell sbi bm h True = Inr (erofs_pos sbi (bb_blkaddr b) + next_off (bb_bhs b) (bb_off b) h)"
    using m by (simp_all add: erofs_btell_def b bb_mapped_def x(3))
  note w1 = w [OF order_trans [OF x(4,5)]] and w2 = w [OF x(5)]
  have "unat (bb_off b) \<le> bcnt sbi b * ?B" by (simp add: bcnt_def nceil_bounds)
  then have "unat (erofs_pos sbi (bb_blkaddr b) + next_off (bb_bhs b) (bb_off b) h) \<le> bend sbi b * ?B"
    using x(5) by (simp add: w2 bend_def add_mult_distrib word_le_nat_alt)
  moreover have "erofs_pos sbi (bb_blkaddr b) + bh_off x \<le> erofs_pos sbi (bb_blkaddr b) + next_off (bb_bhs b) (bb_off b) h"
    using x(4) by (simp add: word_le_nat_alt w1 w2)
  ultimately show ?thesis using that [OF eqs _ w2] w1 x(1,2) by blast
qed

lemma sorted_wrt_pick:
  assumes "sorted_wrt R xs" "a \<in> set xs" "b \<in> set xs" "a \<noteq> b"
  shows "R a b \<or> R b a"
  using assms by (induction xs) auto

lemma heads_of_block_disjoint:
  assumes ids: "ids_ok bm" and ok: "list_all heads_ok (bm_blocks bm)" and g: "bb_of_bh bm g = Some b" and h: "bb_of_bh bm h = Some b"
    and ne: "g \<noteq> h" and x: "bb_bhs b = xs @ x # ys" "bh_id x = g" and y: "bb_bhs b = us @ y # vs" "bh_id y = h"
  shows "next_off (bb_bhs b) (bb_off b) g \<le> bh_off y \<or> next_off (bb_bhs b) (bb_off b) h \<le> bh_off x"
proof -
  have get: "get_bb bm (bb_id b) = Some b" using bb_of_bh_get [OF ids g] by auto
  then obtain bs cs where blk: "bm_blocks bm = bs @ b # cs" using get_bb_split [OF ids get] by metis
  then have d: "distinct (map bh_id (bb_bhs b))" and hb: "heads_ok b" using ids ok by (simp_all add: ids_ok_def bh_ids_def)
  have ng: "g \<notin> bh_id ` set xs" using d x by auto
  have so: "sorted_wrt (\<lambda>x y. bh_off x \<le> bh_off y) (bb_bhs b)" using hb by (simp add: heads_ok_def)
  have "y \<in> set xs \<or> y \<in> set ys" using x y ne by (metis in_set_conv_decomp append_Cons append_assoc Un_iff set_append set_ConsD)
  then show ?thesis
  proof
    assume "y \<in> set ys"
    then obtain w ws where w: "ys = w # ws" by (cases ys) auto
    have "sorted_wrt (\<lambda>x y. bh_off x \<le> bh_off y) (w # ws)" using so by (simp add: x w sorted_wrt_append)
    then have "bh_off w \<le> bh_off y" using \<open>y \<in> set ys\<close> w by auto
    then show ?thesis using next_off_split [OF x ng] w by simp
  next
    assume "y \<in> set xs"
    then obtain ps qs where p: "xs = ps @ y # qs" by (auto simp: in_set_conv_decomp)
    have "h \<notin> bh_id ` set ps" using d x p y(2) by auto
    from next_off_split [OF x(1) [unfolded p, simplified append_assoc append_Cons] y(2) this]
    have n: "next_off (bb_bhs b) (bb_off b) h = (case qs @ x # ys of [] \<Rightarrow> bb_off b | y # _ \<Rightarrow> bh_off y)" .
    have "sorted_wrt (\<lambda>x y. bh_off x \<le> bh_off y) (qs @ x # ys)" using so by (simp add: x p sorted_wrt_append)
    then have "next_off (bb_bhs b) (bb_off b) h \<le> bh_off x" unfolding n by (cases qs) auto
    then show ?thesis by blast
  qed
qed

lemma btell_mapped:
  assumes "erofs_btell sbi bm h fin = Inr s" "s \<noteq> NULL_ADDR_UL"
  obtains b where "bb_of_bh bm h = Some b" "bb_mapped b"
  using assms by (auto simp: erofs_btell_def bb_mapped_def split: option.splits if_splits)

lemma mapped_in_run:
  assumes "laid_out sbi bm ms us" "bb_of_bh bm h = Some b" "bb_mapped b"
  shows "b \<in> set ms"
proof -
  have "b \<in> set (bm_blocks bm)" using assms(2) by (auto simp: bb_of_bh_def find_Some_iff)
  then show ?thesis using assms(1,3) by (auto simp: laid_out_def list_all_iff)
qed

text \<open>
  C1. Whatever sequence of allocations, attachments, growths, mappings, drops and flushes mkfs has run on its buffer manager,
  the byte ranges that \<^verbatim>\<open>erofs_btell\<close> reports for two different buffer heads never overlap, and all of them
  lie below \<^verbatim>\<open>tail_blkaddr\<close>.
\<close>

theorem bm_heads_disjoint:
  assumes reach: "bm_reach sbi bm" and v: "valid_blkszbits sbi" and ne: "g \<noteq> h"
    and tg: "erofs_btell sbi bm g False = Inr s1" "erofs_btell sbi bm g True = Inr e1" "s1 \<noteq> NULL_ADDR_UL"
    and th: "erofs_btell sbi bm h False = Inr s2" "erofs_btell sbi bm h True = Inr e2" "s2 \<noteq> NULL_ADDR_UL"
  shows "(e1 \<le> s2 \<or> e2 \<le> s1) \<and> s1 \<le> e1 \<and> unat e1 \<le> unat (tail_blkaddr bm) * 2 ^ blkbits sbi"
proof -
  let ?B = "2 ^ blkbits sbi :: nat"
  have inv: "bm_inv sbi bm" by (rule bm_reach_inv [OF reach v])
  have bits: "blkbits sbi \<le> 12" using v by (simp add: valid_blkszbits_def)
  have ids: "ids_ok bm" and hd: "list_all heads_ok (bm_blocks bm)" using inv by (simp_all add: bm_inv_def)
  obtain ms us where l: "laid_out sbi bm ms us" using inv by (auto simp: bm_inv_def)
  obtain b where b: "bb_of_bh bm g = Some b" "bb_mapped b" using btell_mapped [OF tg(1,3)] .
  obtain c where c: "bb_of_bh bm h = Some c" "bb_mapped c" using btell_mapped [OF th(1,3)] .
  obtain xs x ys where x: "bb_bhs b = xs @ x # ys" "bh_id x = g" and sx: "unat s1 = unat (bb_blkaddr b) * ?B + unat (bh_off x)"
      and ex: "unat e1 = unat (bb_blkaddr b) * ?B + unat (next_off (bb_bhs b) (bb_off b) g)" "s1 \<le> e1" "unat e1 \<le> bend sbi b * ?B"
    using btell_value [OF inv bits b] tg(1,2) by (metis sum.inject(2))
  obtain zs y ws where y: "bb_bhs c = zs @ y # ws" "bh_id y = h" and sy: "unat s2 = unat (bb_blkaddr c) * ?B + unat (bh_off y)"
      and ey: "unat e2 = unat (bb_blkaddr c) * ?B + unat (next_off (bb_bhs c) (bb_off c) h)" "s2 \<le> e2" "unat e2 \<le> bend sbi c * ?B"
    using btell_value [OF inv bits c] th(1,2) by (metis sum.inject(2))
  note mem = mapped_in_run [OF l b] mapped_in_run [OF l c]
  have "bend sbi b \<le> unat (tail_blkaddr bm)" using l mem by (simp add: laid_out_def list_all_iff)
  then have "bend sbi b * ?B \<le> unat (tail_blkaddr bm) * ?B" by simp
  then have tl: "unat e1 \<le> unat (tail_blkaddr bm) * ?B" using ex(3) by linarith
  have "e1 \<le> s2 \<or> e2 \<le> s1"
  proof (cases "b = c")
    case True
    from heads_of_block_disjoint [OF ids hd b(1) c(1) [folded True] ne x y [folded True]] show ?thesis
      using sx sy ex(1) ey(1) by (auto simp: word_le_nat_alt True)
  next
    case False
    have "sorted_wrt (\<lambda>a b. bend sbi a \<le> unat (bb_blkaddr b)) ms" using l by (simp add: laid_out_def)
    from sorted_wrt_pick [OF this mem False] have "bend sbi b * ?B \<le> unat (bb_blkaddr c) * ?B \<or> bend sbi c * ?B \<le> unat (bb_blkaddr b) * ?B"
      by auto
    then show ?thesis unfolding word_le_nat_alt using sx sy ex(3) ey(3) by linarith
  qed
  then show ?thesis using ex(2) tl by blast
qed

section \<open>Allocation\<close>

lemma battach_dry_run:
  assumes "erofs_battach_raw sbi bm i None incr a extra True = Inr (bm1, u)"
    and "get_bb bm' i = get_bb bm i" "tail_blkaddr bm' = tail_blkaddr bm" "bm_blocks bm' = bm_blocks bm"
  shows "\<exists>bm2. erofs_battach_raw sbi bm' i bh incr a extra False = Inr (bm2, u)"
  using assms by (auto simp: erofs_battach_raw_def Let_def split: option.splits if_splits)

text \<open>Where the data that follow the new bytes at a distance of \<^verbatim>\<open>req\<close> bytes end in their block.\<close>

definition inline_fits :: "erofs_sb_info \<Rightarrow> nat \<Rightarrow> nat \<Rightarrow> nat \<Rightarrow> bool" where
  "inline_fits sbi fin req inl \<longleftrightarrow> (fin + req) mod 2 ^ blkbits sbi + inl \<le> 2 ^ blkbits sbi"

lemma inline_fits_same_block:
  assumes a: "0 < a" "a dvd 2 ^ blkbits sbi" and le: "nround a (lastpos (2 ^ blkbits sbi) n) + incr + (req + inl) \<le> 2 ^ blkbits sbi"
    and n: "0 < n"
  shows "inline_fits sbi (nround a n + incr) req inl"
proof -
  let ?B = "2 ^ blkbits sbi :: nat"
  define q where "q = (nceil ?B n - 1) * ?B"
  have q: "n = q + lastpos ?B n" using lastpos_split(1) [of ?B n] n by (simp add: q_def)
  have "a dvd q" unfolding q_def by (rule dvd_mult [OF a(2)])
  from nround_add_mult [OF a(1) this, of "lastpos ?B n"] have r: "nround a n = q + nround a (lastpos ?B n)" using q by simp
  have m: "(nround a n + incr + req) mod ?B = (nround a (lastpos ?B n) + incr + req) mod ?B"
    by (simp add: r q_def add.assoc)
  have "(nround a (lastpos ?B n) + incr + req) mod ?B \<le> nround a (lastpos ?B n) + incr + req" by (rule mod_less_eq_dividend)
  then show ?thesis unfolding inline_fits_def m using le by linarith
qed

text \<open>A block that the search may return.\<close>

definition attachable :: "erofs_sb_info \<Rightarrow> erofs_bufmgr \<Rightarrow> u64 \<Rightarrow> u32 \<Rightarrow> u32 \<Rightarrow> u32 \<Rightarrow> nat \<Rightarrow> bool" where
  "attachable sbi bm size0 req inl a i \<longleftrightarrow>
     (\<exists>b u. get_bb bm i = Some b \<and> erofs_battach_raw sbi bm i None size0 a (req + inl) True = Inr (bm, u) \<and>
        inline_fits sbi (nround (unat a) (unat (bb_off b)) + unat size0) (unat req) (unat inl))"

lemma battach_get:
  assumes "erofs_battach_raw sbi bm i bh incr a extra True = Inr r"
  obtains b where "get_bb bm i = Some b"
    "r = (bm, ucast (((roundup (bb_off b) (ucast a) + incr - 1) AND ucast (erofs_blksiz sbi - 1)) + 1))"
    "battach_oob sbi (bb_off b) incr a extra \<le> 0 \<or> next_blkaddr (bm_blocks bm) i = NULL_ADDR"
  using assms by (auto simp: erofs_battach_raw_def Let_def split: option.splits if_splits)

lemma unat_req_inl: "unat (req :: u32) + unat (inl :: u32) < 2 ^ 31 \<Longrightarrow> unat (req + inl) = unat req + unat inl"
  by (simp add: unat_word_ariths)

lemma bucket_loop_attachable:
  assumes inv: "bm_inv sbi bm" and bits: "blkbits sbi \<le> 12" and a: "align_ok sbi a"
    and sz: "unat size0 < 2 ^ 44" and ext: "unat req + unat inl < 2 ^ 31"
    and k: "k < 2 ^ blkbits sbi" and run: "bucket_loop sbi bm type size0 (req + inl) a k = Some (i, u)"
  shows "attachable sbi bm size0 req inl a i"
  using k run
proof (induction k)
  case (Suc k)
  show ?case
  proof (cases "mapped_buckets bm type (Suc k)")
    case Nil
    then show ?thesis using Suc by simp
  next
    case (Cons cur rest)
    show ?thesis
    proof (cases "next_blkaddr (bm_blocks bm) cur = NULL_ADDR \<or> (\<exists>e. erofs_battach_raw sbi bm cur None size0 a (req + inl) True = Inl e)")
      case True
      then have "bucket_loop sbi bm type size0 (req + inl) a (Suc k) = bucket_loop sbi bm type size0 (req + inl) a k"
        using Cons by auto
      then show ?thesis using Suc by simp
    next
      case False
      then obtain r where r: "erofs_battach_raw sbi bm cur None size0 a (req + inl) True = Inr r" by (meson sum.exhaust)
      with False have i: "i = cur" using Suc.prems(2) Cons by (cases r) auto
      obtain b where b: "get_bb bm i = Some b" and oob: "battach_oob sbi (bb_off b) size0 a (req + inl) \<le> 0" and rr: "fst r = bm"
        using battach_get [OF r] False i by (metis fst_conv)
      have "buckets_ok sbi bm" and ids: "ids_ok bm" using inv by (simp_all add: bm_inv_def)
      then obtain c where c: "c \<in> set (bm_blocks bm)" "bb_id c = i" "unat (bb_off c) mod 2 ^ blkbits sbi = Suc k"
        using buckets_okE [of sbi bm i type "Suc k"] Cons i by auto
      have "c = b" using get_bb_split [OF ids b] c(1,2) ids by (metis (no_types, lifting) Un_iff image_eqI set_ConsD set_append)
      then have pos: "0 < unat (bb_off b)" using c(3) by (metis bot_nat_0.not_eq_extremum mod_0 nat.distinct(1))
      have a': "0 < unat a" "unat a dvd 2 ^ blkbits sbi" using a by (simp_all add: align_ok_def)
      have "inline_fits sbi (nround (unat a) (unat (bb_off b)) + unat size0) (unat req) (unat inl)"
        by (rule inline_fits_same_block [OF a' _ pos])
          (use oob sz battach_oob_value [OF bits a, of size0 "bb_off b" "req + inl"] unat_req_inl [OF ext] in \<open>simp add: add.assoc\<close>)
      then show ?thesis using b r rr i unfolding attachable_def by (metis prod.collapse)
    qed
  qed
qed simp

lemma unat_and_blkmask:
  assumes "blkbits sbi \<le> 12"
  shows "unat ((x :: u32) AND (erofs_blksiz sbi - 1)) = unat x mod 2 ^ blkbits sbi"
proof -
  have m: "erofs_blksiz sbi - 1 = mask (blkbits sbi)" using assms by (simp add: erofs_blksiz_def mask_eq_exp_minus_1)
  show ?thesis unfolding m take_bit_eq_mask [symmetric] unsigned_take_bit_eq by (simp add: take_bit_eq_mod)
qed

lemma unat_used_pos:
  assumes bits: "blkbits sbi \<le> 12" and ext: "unat req + unat inl < 2 ^ 31" and x: "unat x = n"
  shows "unat (((ucast (((x :: u64) - 1 AND ucast (erofs_blksiz sbi - 1)) + 1) + req) AND (erofs_blksiz sbi - 1)) + inl :: u32) =
    (n + unat req) mod 2 ^ blkbits sbi + unat inl"
proof -
  let ?B = "2 ^ blkbits sbi :: nat" and ?r = "ucast ((x - 1 AND ucast (erofs_blksiz sbi - 1)) + 1) :: u32"
  have B12: "?B \<le> 2 ^ 12" using bits by (intro power_increasing) auto
  have lp: "lastpos ?B n \<le> ?B" by (rule lastpos_le) simp
  have "unat ?r = lastpos ?B n" using lp B12 by (simp add: unat_ucast_small unat_lastpos [OF bits] x)
  then have s: "unat (?r + req) = lastpos ?B n + unat req" using lp B12 ext by (simp add: unat_word_ariths)
  have "(lastpos ?B n + unat req) mod ?B = (n + unat req) mod ?B"
  proof (cases "n = 0")
    case True
    then show ?thesis by (simp add: lastpos_def)
  next
    case False
    then have "n = (nceil ?B n - 1) * ?B + lastpos ?B n" by (intro lastpos_split) simp_all
    then show ?thesis by (metis add.assoc mod_mult_self3)
  qed
  moreover have "unat ((?r + req) AND (erofs_blksiz sbi - 1)) = (lastpos ?B n + unat req) mod ?B"
    using unat_and_blkmask [OF bits, of "?r + req"] s by simp
  moreover have "(n + unat req) mod ?B < 2 ^ 12" by (rule less_le_trans [OF mod_less_divisor B12]) simp
  ultimately show ?thesis using ext by (simp add: unat_word_ariths)
qed

lemma expand_loop_attachable:
  assumes inv: "bm_inv sbi bm" and bits: "blkbits sbi \<le> 12" and a: "align_ok sbi a"
    and sz: "unat size0 < 2 ^ 44" and ext: "unat req + unat inl < 2 ^ 31"
    and bb: "\<And>i. bb = Some i \<Longrightarrow> attachable sbi bm size0 req inl a i" and run: "expand_loop sbi bm type size0 req inl a used0 bs bb m = Some i"
  shows "attachable sbi bm size0 req inl a i"
  using bb run
proof (induction bs arbitrary: bb m)
  case (Cons cur bs)
  let ?u0 = "ucast (bb_off cur AND ucast (erofs_blksiz sbi - 1)) :: u32"
  consider "expand_loop sbi bm type size0 req inl a used0 bs bb m = Some i"
    | ret used where "erofs_battach_raw sbi bm (bb_id cur) None size0 a (req + inl) True = Inr (bm, ret)"
        "used = ((ret + req) AND (erofs_blksiz sbi - 1)) + inl" "\<not> erofs_blksiz sbi < used"
        "expand_loop sbi bm type size0 req inl a used0 bs (Some (bb_id cur)) used = Some i"
  proof (cases "erofs_battach_raw sbi bm (bb_id cur) None size0 a (req + inl) True")
    case (Inl e)
    then show ?thesis using Cons.prems(2) that(1) by (simp add: Let_def split: if_splits)
  next
    case (Inr r)
    obtain ret where r: "r = (bm, ret)" using battach_get [OF Inr] by blast
    show ?thesis using Cons.prems(2) that(1) that(2) [OF Inr [unfolded r] refl] by (auto simp: Let_def Inr r split: if_splits)
  qed
  then show ?case
  proof cases
    case 1
    then show ?thesis using Cons.IH Cons.prems(1) by blast
  next
    case (2 ret used)
    obtain b where b: "get_bb bm (bb_id cur) = Some b"
        and ret: "ret = ucast (((roundup (bb_off b) (ucast a) + size0 - 1) AND ucast (erofs_blksiz sbi - 1)) + 1)"
      using battach_get [OF 2(1)] by auto
    have ids: "ids_ok bm" using inv by (simp add: bm_inv_def)
    have mem: "b \<in> set (bm_blocks bm)" using get_bb_split [OF ids b] by (metis in_set_conv_decomp)
    have ob: "unat (bb_off b) < 2 ^ 44" by (rule off_bound [OF inv mem bits])
    have a0: "0 < unat a" using a by (simp add: align_ok_def)
    have "unat a \<le> 2 ^ blkbits sbi" using a by (simp add: align_ok_def dvd_imp_le)
    also have "\<dots> \<le> 2 ^ 12" using bits by (intro power_increasing) auto
    finally have a12: "unat a \<le> 2 ^ 12" .
    have al: "unat (roundup (bb_off b) (ucast a) :: u64) = nround (unat a) (unat (bb_off b))"
      using ob a0 by (intro unat_roundup_nround) simp_all
    have "nround (unat a) (unat (bb_off b)) < 2 ^ 45" using nround_bounds(2) [OF a0, of "unat (bb_off b)"] ob a12 by simp
    then have x: "unat (roundup (bb_off b) (ucast a) + size0) = nround (unat a) (unat (bb_off b)) + unat size0"
      using sz al by (simp add: unat_word_ariths)
    have "unat used \<le> 2 ^ blkbits sbi" using 2(3) bits by (simp add: word_less_nat_alt unat_erofs_blksiz)
    then have "inline_fits sbi (nround (unat a) (unat (bb_off b)) + unat size0) (unat req) (unat inl)"
      using unat_used_pos [OF bits ext x] by (simp add: inline_fits_def 2(2) ret)
    then have "attachable sbi bm size0 req inl a (bb_id cur)" using b 2(1) unfolding attachable_def by blast
    then show ?thesis using Cons.IH [OF _ 2(4)] by blast
  qed
qed simp

lemma new_block_attach:
  assumes inv: "bm_inv sbi bm"
  obtains b where "get_bb (new_block bm t) (bm_fresh bm) = Some b" "bb_off b = 0"
    "\<exists>bm2 u. erofs_battach_raw sbi ((new_block bm t)\<lparr>bm_fresh := n\<rparr>) (bm_fresh bm) bh size0 a extra False = Inr (bm2, u)"
proof -
  obtain ms us where l: "laid_out sbi bm ms us" and ids: "ids_ok bm" using inv by (auto simp: bm_inv_def)
  let ?b = "\<lparr>bb_id = bm_fresh bm, bb_blkaddr = NULL_ADDR, bb_type = t, bb_off = 0, bb_bhs = []\<rparr>"
  obtain vs ws where u: "us = vs @ ws" and new: "bm_blocks (new_block bm t) = ms @ vs @ ?b # ws"
    using new_block_blocks [OF l ids] .
  have f: "bm_fresh bm \<notin> bb_id ` set (ms @ vs)" using ids l u by (auto simp: ids_ok_def laid_out_def)
  have new': "bm_blocks (new_block bm t) = (ms @ vs) @ ?b # ws" by (simp add: new)
  have g: "get_bb (new_block bm t) (bm_fresh bm) = Some ?b" by (rule get_bb_here [OF new' _ f]) simp
  have nx: "next_blkaddr (bm_blocks (new_block bm t)) (bm_fresh bm) = NULL_ADDR"
    unfolding new' using next_blkaddr_split [OF f, of ?b ws] l u by (cases ws) (simp_all add: laid_out_def bb_mapped_def)
  have "get_bb ((new_block bm t)\<lparr>bm_fresh := n\<rparr>) (bm_fresh bm) = Some ?b" using g by (simp add: get_bb_def)
  then have "\<exists>bm2 u. erofs_battach_raw sbi ((new_block bm t)\<lparr>bm_fresh := n\<rparr>) (bm_fresh bm) bh size0 a extra False = Inr (bm2, u)"
    using nx by (simp add: erofs_battach_raw_def Let_def)
  then show ?thesis using that [OF g] by simp
qed

lemma unat_rounddown_le: "unat (rounddown x y) \<le> unat x"
proof -
  have "x mod y \<le> x" by (simp add: word_le_nat_alt unat_mod)
  then show ?thesis by (simp add: rounddown_def unat_sub)
qed

lemma unat_used0:
  fixes req :: u32
  assumes bits: "blkbits sbi \<le> 12" and sz: "unat size0 < 2 ^ 44" and ext: "unat req + unat inl < 2 ^ 31"
  shows "unat (ucast ((size0 + ucast req) AND ucast (erofs_blksiz sbi - 1) :: u64) + inl :: u32) =
    (unat size0 + unat req) mod 2 ^ blkbits sbi + unat inl"
proof -
  let ?B = "2 ^ blkbits sbi :: nat"
  have B12: "?B \<le> 2 ^ 12" using bits by (intro power_increasing) auto
  have "unat (size0 + ucast req) = unat size0 + unat req" using sz ext by (simp add: unat_word_ariths unat_ucast_up)
  then have m: "unat ((size0 + ucast req) AND ucast (erofs_blksiz sbi - 1) :: u64) = (unat size0 + unat req) mod ?B"
    using unat_erofs_blkoff [of sbi "size0 + ucast req"] bits by (simp add: erofs_blkoff_def)
  have "(unat size0 + unat req) mod ?B < 2 ^ 12" by (rule less_le_trans [OF mod_less_divisor B12]) simp
  then show ?thesis using m ext by (simp add: unat_word_ariths unat_ucast_small)
qed

lemma bfind_attachable:
  assumes inv: "bm_inv sbi bm" and bits: "blkbits sbi \<le> 12" and a: "align_ok sbi a"
    and sz: "unat size0 < 2 ^ 44" and ext: "unat req + unat inl < 2 ^ 31"
    and fits: "(unat size0 + unat req) mod 2 ^ blkbits sbi + unat inl \<le> 2 ^ blkbits sbi"
  obtains found where "erofs_bfind_for_attach sbi bm t size0 req inl a = Inr found"
    "\<And>i. found = Some i \<Longrightarrow> attachable sbi bm size0 req inl a i"
proof -
  let ?B = "2 ^ blkbits sbi :: nat" and ?need = "size0 + ucast req + ucast inl :: u64"
  let ?used0 = "ucast ((size0 + ucast req) AND ucast (erofs_blksiz sbi - 1)) + inl :: u32"
  let ?k = "unat (rounddown (ucast (erofs_blksiz sbi) - ?need) (ucast a))"
  have B: "unat (erofs_blksiz sbi) = ?B" using bits by (intro unat_erofs_blksiz) simp
  have ok: "\<not> erofs_blksiz sbi < ?used0" using unat_used0 [OF bits sz ext] fits by (simp add: word_less_nat_alt B)
  show ?thesis
  proof (cases "?used0 = 0 \<or> a = erofs_blksiz sbi")
    case True
    then show ?thesis using that [of None] ok by (auto simp: erofs_bfind_for_attach_def Let_def)
  next
    case False
    define bk where "bk = (if ucast (erofs_blksiz sbi) \<le> ?need then None else bucket_loop sbi bm t size0 (req + inl) a ?k)"
    have bk: "attachable sbi bm size0 req inl a i" if "map_option fst bk = Some i" for i
    proof -
      have nle: "\<not> ucast (erofs_blksiz sbi) \<le> ?need" using that by (auto simp: bk_def)
      have "map_option fst (bucket_loop sbi bm t size0 (req + inl) a ?k) = Some i" using that nle by (simp add: bk_def)
      then obtain u where "bucket_loop sbi bm t size0 (req + inl) a ?k = Some (i, u)" by auto
      moreover have "?k < ?B"
      proof (cases "?need = 0")
        case True
        have "unat size0 = 0 \<and> unat req = 0 \<and> unat inl = 0"
          using True sz ext by (simp add: unat_eq_0 [symmetric] unat_word_ariths unat_ucast_up)
        then have "?used0 = 0" by (simp add: unat_eq_0)
        then show ?thesis using False by simp
      next
        case nz: False
        have "unat (ucast (erofs_blksiz sbi) - ?need) < ?B"
          using nle nz B by (subst unat_sub) (simp_all add: unat_ucast_up word_less_nat_alt unat_gt_0 not_le order_less_imp_le)
        moreover have "?k \<le> unat (ucast (erofs_blksiz sbi) - ?need)" by (rule unat_rounddown_le)
        ultimately show ?thesis by simp
      qed
      ultimately show ?thesis using bucket_loop_attachable [OF inv bits a sz ext] by blast
    qed
    let ?res = "expand_loop sbi bm t size0 req inl a ?used0 (from_last_mapped bm) (map_option fst bk) (case bk of None \<Rightarrow> 0 | Some (_, u) \<Rightarrow> u)"
    have "erofs_bfind_for_attach sbi bm t size0 req inl a = Inr ?res"
      using False ok by (simp add: erofs_bfind_for_attach_def Let_def bk_def)
    then show ?thesis using that expand_loop_attachable [OF inv bits a sz ext bk] by blast
  qed
qed

lemma bb_of_bh_here:
  assumes "bm_blocks bm = xs @ b # ys" "h \<in> bh_id ` set (bb_bhs b)" "\<And>c. c \<in> set xs \<Longrightarrow> h \<notin> bh_id ` set (bb_bhs c)"
  shows "bb_of_bh bm h = Some b"
proof -
  have "find (\<lambda>b. h \<in> bh_id ` set (bb_bhs b)) (zs @ b # ys) = Some b" if "\<And>c. c \<in> set zs \<Longrightarrow> h \<notin> bh_id ` set (bb_bhs c)" for zs
    using that assms(2) by (induction zs) auto
  then show ?thesis using assms(1,3) by (simp add: bb_of_bh_def)
qed

text \<open>Where a successful attachment puts the new head.\<close>

lemma battach_places:
  assumes inv: "bm_inv sbi bm" and bits: "blkbits sbi \<le> 12" and a: "align_ok sbi a"
    and room: "bm_need sbi bm + nceil (2 ^ blkbits sbi) (unat incr) < 2 ^ 32 - 1" and h: "h \<notin> set (bh_ids bm)"
    and get: "get_bb bm i = Some b"
    and run: "erofs_battach_raw sbi bm i (Some h) incr a extra False = Inr (bm', used)"
  shows "\<exists>b' xs x. bb_of_bh bm' h = Some b' \<and> bb_bhs b' = xs @ [x] \<and> bh_id x = h \<and> unat a dvd unat (bh_off x) \<and>
    unat (bb_off b') = unat (bh_off x) + unat incr \<and> unat (bh_off x) = nround (unat a) (unat (bb_off b))"
proof -
  obtain xs c ys c' tl where sp: "bm_blocks bm = xs @ c # ys" "bb_id c = i" "i \<notin> bb_id ` set xs"
    and c'': "c' = c\<lparr>bb_off := roundup (bb_off c) (ucast a) + incr,
          bb_bhs := (case Some h of None \<Rightarrow> bb_bhs c
                     | Some h \<Rightarrow> bb_bhs c @ [\<lparr>bh_id = h, bh_off = roundup (bb_off c) (ucast a), bh_op = write_bhops\<rparr>])\<rparr>"
    and bm': "bm' = erofs_bupdate_mapped sbi i (bm\<lparr>bm_blocks := xs @ c' # ys, tail_blkaddr := tl\<rparr>)"
    and al: "unat (roundup (bb_off c) (ucast a)) = nround (unat a) (unat (bb_off c))"
    and off': "unat (bb_off c') = nround (unat a) (unat (bb_off c)) + unat incr"
    using battach_effect [OF inv bits a room run] .
  note c' = c'' [unfolded option.case]
  have cb: "c = b" using get_bb_here [OF sp] get by simp
  have blk: "bm_blocks bm' = xs @ c' # ys" by (simp add: bm')
  have "bb_of_bh bm' h = Some c'"
    by (rule bb_of_bh_here [OF blk]) (use h in \<open>auto simp: c' bh_ids_def sp(1)\<close>)
  moreover have "unat a dvd nround (unat a) (unat (bb_off c))" by (rule nround_bounds(3))
  ultimately show ?thesis using al off' cb
    by (intro exI [of _ c'] exI [of _ "bb_bhs c"] exI [of _ "\<lparr>bh_id = h, bh_off = roundup (bb_off c) (ucast a), bh_op = write_bhops\<rparr>"])
      (simp add: c')
qed

text \<open>
  C7. \<^verbatim>\<open>erofs_balloc\<close> on any manager mkfs can have built: it fails with \<^verbatim>\<open>EINVAL\<close> for an unknown type and with \<^verbatim>\<open>ENOSPC\<close> when
  data and inline extension cannot share a block, and succeeds in every other case.  It then returns a
  new buffer head that is the last of its block, aligned as the type demands, as long as asked for, and
  placed so that the inline extension of \<^verbatim>\<open>inl\<close> bytes that will follow after \<^verbatim>\<open>req\<close> bytes does not cross a block boundary.
\<close>

theorem balloc_spec:
  assumes reach: "bm_reach sbi bm" and v: "valid_blkszbits sbi" and ext: "unat req + unat inl < 2 ^ 31"
    and room: "bm_need sbi bm + nceil (2 ^ blkbits sbi) (unat size0) < 2 ^ 32 - 1"
  shows "case get_alignsize sbi type of
           Inl e \<Rightarrow> erofs_balloc sbi bm type size0 req inl = Inl e
         | Inr (a, t) \<Rightarrow>
             if 2 ^ blkbits sbi < (unat size0 + unat req) mod 2 ^ blkbits sbi + unat inl
             then erofs_balloc sbi bm type size0 req inl = Err ENOSPC
             else \<exists>bm' h b xs x. erofs_balloc sbi bm type size0 req inl = Inr (bm', h) \<and> h \<notin> set (bh_ids bm) \<and>
               bb_of_bh bm' h = Some b \<and> bb_bhs b = xs @ [x] \<and> bh_id x = h \<and> unat a dvd unat (bh_off x) \<and>
               unat (bb_off b) = unat (bh_off x) + unat size0 \<and>
               (unat (bb_off b) + unat req) mod 2 ^ blkbits sbi + unat inl \<le> 2 ^ blkbits sbi"
proof (cases "get_alignsize sbi type")
  case (Inl e)
  then show ?thesis by (simp add: erofs_balloc_def)
next
  case (Inr r)
  obtain a t where r: "r = (a, t)" by (cases r)
  note al = Inr [unfolded r]
  let ?B = "2 ^ blkbits sbi :: nat"
  have inv: "bm_inv sbi bm" by (rule bm_reach_inv [OF reach v])
  have bits: "blkbits sbi \<le> 12" using v by (simp add: valid_blkszbits_def)
  have ao: "align_ok sbi a" by (rule align_ok_type [OF v al])
  have B: "unat (erofs_blksiz sbi) = ?B" using bits by (intro unat_erofs_blksiz) simp
  have "unat size0 \<le> nceil ?B (unat size0) * ?B" by (rule nceil_bounds) simp
  also have "\<dots> \<le> nceil ?B (unat size0) * 2 ^ 12" using bits by (intro mult_left_mono power_increasing) auto
  also have "\<dots> < 2 ^ 44" using room by simp
  finally have sz: "unat size0 < 2 ^ 44" .
  show ?thesis
  proof (cases "?B < (unat size0 + unat req) mod ?B + unat inl")
    case True
    then show ?thesis using unat_used0 [OF bits sz ext]
      by (simp add: al erofs_balloc_def erofs_bfind_for_attach_def Let_def word_less_nat_alt B)
  next
    case False
    then obtain found where f: "erofs_bfind_for_attach sbi bm t size0 req inl a = Inr found"
        and ok: "\<And>i. found = Some i \<Longrightarrow> attachable sbi bm size0 req inl a i"
      using bfind_attachable [OF inv bits ao sz ext] by (metis not_le)
    obtain bm1 i where c: "(bm1, i) = (case found of Some i \<Rightarrow> (bm, i) | None \<Rightarrow> (new_block bm t, bm_fresh bm))"
      by (metis surj_pair)
    note ti = balloc_target_inv [OF inv c]
    let ?bm1 = "bm1\<lparr>bm_fresh := Suc (bm_fresh bm1)\<rparr>"
    obtain b where g: "get_bb bm1 i = Some b"
        and fit: "inline_fits sbi (nround (unat a) (unat (bb_off b)) + unat size0) (unat req) (unat inl)"
        and at: "\<exists>bm2 u. erofs_battach_raw sbi ?bm1 i (Some (bm_fresh bm1)) size0 a (req + inl) False = Inr (bm2, u)"
    proof (cases found)
      case None
      then have e: "bm1 = new_block bm t" "i = bm_fresh bm" using c by simp_all
      obtain b where "get_bb bm1 i = Some b" "bb_off b = 0"
          "\<exists>bm2 u. erofs_battach_raw sbi ?bm1 i (Some (bm_fresh bm1)) size0 a (req + inl) False = Inr (bm2, u)"
        using new_block_attach [OF inv, where n = "Suc (bm_fresh bm1)"] unfolding e by metis
      moreover have "0 < unat a" using ao by (simp add: align_ok_def)
      then have "nround (unat a) 0 = 0" by (simp add: nround_def)
      ultimately show ?thesis using that False by (simp add: inline_fits_def)
    next
      case (Some j)
      then have e: "bm1 = bm" "i = j" using c by simp_all
      obtain b u where b: "get_bb bm i = Some b" "erofs_battach_raw sbi bm i None size0 a (req + inl) True = Inr (bm, u)"
          "inline_fits sbi (nround (unat a) (unat (bb_off b)) + unat size0) (unat req) (unat inl)"
        using ok [OF Some] e by (auto simp: attachable_def)
      have "\<exists>bm2. erofs_battach_raw sbi ?bm1 i (Some (bm_fresh bm1)) size0 a (req + inl) False = Inr (bm2, u)"
        by (rule battach_dry_run [OF b(2)]) (simp_all add: e get_bb_def)
      then show ?thesis using that b(1,3) e by blast
    qed
    then obtain bm2 u where at: "erofs_battach_raw sbi ?bm1 i (Some (bm_fresh bm1)) size0 a (req + inl) False = Inr (bm2, u)" by blast
    have run: "erofs_balloc sbi bm type size0 req inl = Inr (bm2, bm_fresh bm1)"
      using at by (simp add: erofs_balloc_def al f c [symmetric] Let_def)
    have le: "bm_fresh bm \<le> bm_fresh bm1"
      using c by (cases found) (simp_all add: new_block_def Let_def)
    have "\<forall>j \<in> set (bh_ids bm). j < bm_fresh bm" using inv by (simp add: bm_inv_def ids_ok_def)
    then have new: "bm_fresh bm1 \<notin> set (bh_ids bm)" using le by (meson leD)
    have g1: "get_bb ?bm1 i = Some b" using g by (simp add: get_bb_def)
    have pl: "\<exists>b' xs x. bb_of_bh bm2 (bm_fresh bm1) = Some b' \<and> bb_bhs b' = xs @ [x] \<and> bh_id x = bm_fresh bm1 \<and>
        unat a dvd unat (bh_off x) \<and> unat (bb_off b') = unat (bh_off x) + unat size0 \<and>
        unat (bh_off x) = nround (unat a) (unat (bb_off b))"
      by (rule battach_places [OF fresh_inv [OF ti(1)] bits ao _ _ g1 at]) (use ti room in \<open>simp_all add: bh_ids_def\<close>)
    show ?thesis using False pl fit run new by (auto simp: al inline_fits_def)
  qed
qed

section \<open>A small image\<close>

text \<open>Blocks 1 and 2 hold an inode with its extents, followed by a shared extended attribute.\<close>

definition small_sbi :: erofs_sb_info where
  "small_sbi = (zero_sbi (plain_file []))\<lparr>blkszbits := 12\<rparr>"

definition small_bm :: "u32 \<Rightarrow> erofs_buffer_head list \<Rightarrow> u64 \<Rightarrow> erofs_bufmgr" where
  "small_bm addr bhs off =
     \<lparr>bm_blocks = [\<lparr>bb_id = 0, bb_blkaddr = addr, bb_type = META, bb_off = off, bb_bhs = bhs\<rparr>],
      mapped_buckets = (\<lambda>t k. if addr \<noteq> NULL_ADDR \<and> t = 1 \<and> k = unat (off AND 0xfff) then [0] else []),
      tail_blkaddr = (if addr = NULL_ADDR then 1 else 3), metablkcnt = 0,
      last_mapped = (if addr = NULL_ADDR then None else Some 0), bm_fresh = Suc (length bhs)\<rparr>"

abbreviation (input) head_at :: "nat \<Rightarrow> u64 \<Rightarrow> erofs_buffer_head" where
  "head_at i off \<equiv> \<lparr>bh_id = i, bh_off = off, bh_op = write_bhops\<rparr>"

lemma small_blksiz [simp]: "erofs_blksiz small_sbi = 4096" "blkbits small_sbi = 12"
  by (simp_all add: small_sbi_def erofs_blksiz_def)

lemma small_balloc:
  "erofs_balloc small_sbi (erofs_buffer_init 0 1) INODE 5000 0 100 = Inr (small_bm NULL_ADDR [head_at 1 0] 5000, 1)"
  by (simp add: erofs_balloc_def get_alignsize_def erofs_bfind_for_attach_def erofs_buffer_init_def Let_def from_last_mapped_def
      new_block_def erofs_battach_raw_def get_bb_def upd_bb_def erofs_bupdate_mapped_def roundup_def battach_oob_def cmpsgn_def small_bm_def)

lemma small_battach:
  "erofs_battach small_sbi (small_bm NULL_ADDR [head_at 1 0] 5000) 1 XATTR 8 = Inr (small_bm NULL_ADDR [head_at 1 0, head_at 2 5000] 5008, 2)"
  by (simp add: erofs_battach_def get_alignsize_def bb_of_bh_def bh_is_tail_def Let_def erofs_battach_raw_def get_bb_def upd_bb_def
      erofs_bupdate_mapped_def roundup_def battach_oob_def cmpsgn_def small_bm_def)

lemma small_mapbh:
  "fst (erofs_mapbh small_sbi (small_bm NULL_ADDR [head_at 1 0, head_at 2 5000] 5008) None) = small_bm 1 [head_at 1 0, head_at 2 5000] 5008"
  by (auto simp add: erofs_mapbh_def after_last_mapped_def mapbh_one_def Let_def get_bb_def upd_bb_def
      erofs_bupdate_mapped_def BLK_ROUND_UP_def roundup_def small_bm_def fun_eq_iff)

lemma small_valid: "valid_blkszbits small_sbi"
  by (simp add: valid_blkszbits_def)

lemma small_need: "bm_need small_sbi (erofs_buffer_init 0 1) = 1" "bm_need small_sbi (small_bm NULL_ADDR [head_at 1 0] 5000) = 3"
  by (simp_all add: bm_need_def erofs_buffer_init_def small_bm_def bb_mapped_def bcnt_def nceil_def)

lemma small_reach: "bm_reach small_sbi (small_bm 1 [head_at 1 0, head_at 2 5000] 5008)"
proof -
  have a: "bm_reach small_sbi (erofs_buffer_init 0 1)" by (rule bm_reach.init) simp
  have b: "bm_reach small_sbi (small_bm NULL_ADDR [head_at 1 0] 5000)"
    by (rule bm_reach.step [OF a bm_step.balloc [OF _ small_balloc]]) (subst small_need, simp add: nceil_def)
  have c: "bm_reach small_sbi (small_bm NULL_ADDR [head_at 1 0, head_at 2 5000] 5008)"
    by (rule bm_reach.step [OF b bm_step.battach [OF _ small_battach]]) (subst small_need, simp add: nceil_def)
  show ?thesis
    by (rule bm_reach.step [OF c bm_step.mapbh [where bb = None]]) (rule prod_eqI, simp only: small_mapbh fst_conv, rule snd_conv [symmetric])
qed

lemma small_btell:
  "erofs_btell small_sbi (small_bm 1 [head_at 1 0, head_at 2 5000] 5008) 1 False = Inr 4096"
  "erofs_btell small_sbi (small_bm 1 [head_at 1 0, head_at 2 5000] 5008) 1 True = Inr 9096"
  "erofs_btell small_sbi (small_bm 1 [head_at 1 0, head_at 2 5000] 5008) 2 False = Inr 9096"
  "erofs_btell small_sbi (small_bm 1 [head_at 1 0, head_at 2 5000] 5008) 2 True = Inr 9104"
  by (simp_all add: erofs_btell_def bb_of_bh_def small_bm_def erofs_pos_def)

theorem bm_heads_disjoint_witness:
  "((9096 :: u64) \<le> 9096 \<or> (9104 :: u64) \<le> 4096) \<and> (4096 :: u64) \<le> 9096 \<and>
   unat (9096 :: u64) \<le> unat (tail_blkaddr (small_bm 1 [head_at 1 0, head_at 2 5000] 5008)) * 2 ^ blkbits small_sbi"
  by (rule bm_heads_disjoint [OF small_reach small_valid _ small_btell(1,2) _ small_btell(3,4)]) simp_all

theorem balloc_spec_witness:
  "\<exists>bm' h b xs x. erofs_balloc small_sbi (small_bm 1 [head_at 1 0, head_at 2 5000] 5008) INODE 64 32 200 = Inr (bm', h) \<and>
     bb_of_bh bm' h = Some b \<and> bb_bhs b = xs @ [x] \<and> bh_id x = h \<and> 32 dvd unat (bh_off x) \<and>
     unat (bb_off b) = unat (bh_off x) + 64 \<and> (unat (bb_off b) + 32) mod 4096 + 200 \<le> 4096"
proof -
  have "bm_need small_sbi (small_bm 1 [head_at 1 0, head_at 2 5000] 5008) = 3" by (simp add: bm_need_def small_bm_def bb_mapped_def)
  then show ?thesis
    using balloc_spec [OF small_reach small_valid, of 32 200 64 INODE] by (auto simp: get_alignsize_def nceil_def)
qed

text \<open>
  C13. The buffer manager keeps its blocks in order: the blocks that have an address come first in the list, each run of
  blocks ends before the next one begins and before \<^verbatim>\<open>tail_blkaddr\<close>, \<^verbatim>\<open>last_mapped_block\<close> is the last of them, and the heads
  of a block are sorted by offset and lie inside it.
\<close>

theorem bufmgr_invariant:
  assumes "bm_reach sbi bm" and "valid_blkszbits sbi"
  shows "\<exists>ms us. bm_blocks bm = ms @ us \<and>
     (\<forall>b \<in> set ms. bb_blkaddr b \<noteq> NULL_ADDR \<and>
        unat (bb_blkaddr b) + nceil (2 ^ blkbits sbi) (unat (bb_off b)) \<le> unat (tail_blkaddr bm)) \<and>
     (\<forall>b \<in> set us. bb_blkaddr b = NULL_ADDR) \<and>
     sorted_wrt (\<lambda>a b. unat (bb_blkaddr a) + nceil (2 ^ blkbits sbi) (unat (bb_off a)) \<le> unat (bb_blkaddr b)) ms \<and>
     last_mapped bm = (if ms = [] then None else Some (bb_id (last ms))) \<and>
     (\<forall>b \<in> set (bm_blocks bm). sorted_wrt (\<lambda>x y. bh_off x \<le> bh_off y) (bb_bhs b) \<and> (\<forall>x \<in> set (bb_bhs b). bh_off x \<le> bb_off b))"
proof -
  have inv: "bm_inv sbi bm" by (rule bm_reach_inv [OF assms])
  then obtain ms us where l: "laid_out sbi bm ms us" by (auto simp: bm_inv_def)
  have "\<forall>b \<in> set (bm_blocks bm). heads_ok b" using inv by (simp add: bm_inv_def list_all_iff)
  then show ?thesis
    using l [unfolded laid_out_def list_all_iff bend_def bcnt_def bb_mapped_def] unfolding heads_ok_def
    by (intro exI [of _ ms] exI [of _ us]) blast
qed

theorem bufmgr_invariant_witness:
  "\<exists>ms us. bm_blocks (small_bm 1 [head_at 1 0, head_at 2 5000] 5008) = ms @ us \<and> (\<forall>b \<in> set us. bb_blkaddr b = NULL_ADDR) \<and> ms \<noteq> []"
proof -
  have m: "\<forall>b \<in> set (bm_blocks (small_bm 1 [head_at 1 0, head_at 2 5000] 5008)). bb_blkaddr b \<noteq> NULL_ADDR"
      and n: "bm_blocks (small_bm 1 [head_at 1 0, head_at 2 5000] 5008) \<noteq> []" by (simp_all add: small_bm_def)
  obtain ms us where "bm_blocks (small_bm 1 [head_at 1 0, head_at 2 5000] 5008) = ms @ us" "\<forall>b \<in> set us. bb_blkaddr b = NULL_ADDR"
    using bufmgr_invariant [OF small_reach small_valid] by blast
  moreover from this m n have "ms \<noteq> []" by (cases us) auto
  ultimately show ?thesis by blast
qed

end
