(* ===== verification/Erofs_Hash.thy ===== *)
theory Erofs_Hash
  imports Erofs_Prelude
begin

text \<open>
  The hash functions of the library: \<^verbatim>\<open>lib/sha256.c\<close>, \<^verbatim>\<open>lib/xxhash.c\<close> and \<^verbatim>\<open>lib/rolling_hash.h\<close>.  SHA-256 is compared
  with the definition of the standard, over any division of the message into pieces; the rolling
  hash with the hash of the whole window.
\<close>

section \<open>SHA-256: the code\<close>

record sha256_state =
  sha_length :: u64
  sha_state :: "u32 list"
  sha_curlen :: nat
  sha_buf :: bytes

text \<open>The round constants, in decimal.\<close>

definition sha_K :: "u32 list" where
  "sha_K =
    [1116352408, 1899447441, 3049323471, 3921009573, 961987163, 1508970993, 2453635748, 2870763221,
     3624381080, 310598401, 607225278, 1426881987, 1925078388, 2162078206, 2614888103, 3248222580,
     3835390401, 4022224774, 264347078, 604807628, 770255983, 1249150122, 1555081692, 1996064986,
     2554220882, 2821834349, 2952996808, 3210313671, 3336571891, 3584528711, 113926993, 338241895,
     666307205, 773529912, 1294757372, 1396182291, 1695183700, 1986661051, 2177026350, 2456956037,
     2730485921, 2820302411, 3259730800, 3345764771, 3516065817, 3600352804, 4094571909, 275423344,
     430227734, 506948616, 659060556, 883997877, 958139571, 1322822218, 1537002063, 1747873779,
     1955562222, 2024104815, 2227730452, 2361852424, 2428436474, 2756734187, 3204031479, 3329325298]"

definition RORc :: "u32 \<Rightarrow> nat \<Rightarrow> u32" where
  "RORc x y = drop_bit (y mod 32) x OR push_bit (32 - y mod 32) x"

definition sha_Ch :: "u32 \<Rightarrow> u32 \<Rightarrow> u32 \<Rightarrow> u32" where "sha_Ch x y z = z XOR (x AND (y XOR z))"
definition sha_Maj :: "u32 \<Rightarrow> u32 \<Rightarrow> u32 \<Rightarrow> u32" where "sha_Maj x y z = ((x OR y) AND z) OR (x AND y)"
definition sha_Sigma0 :: "u32 \<Rightarrow> u32" where "sha_Sigma0 x = RORc x 2 XOR RORc x 13 XOR RORc x 22"
definition sha_Sigma1 :: "u32 \<Rightarrow> u32" where "sha_Sigma1 x = RORc x 6 XOR RORc x 11 XOR RORc x 25"
definition sha_Gamma0 :: "u32 \<Rightarrow> u32" where "sha_Gamma0 x = RORc x 7 XOR RORc x 18 XOR drop_bit 3 x"
definition sha_Gamma1 :: "u32 \<Rightarrow> u32" where "sha_Gamma1 x = RORc x 17 XOR RORc x 19 XOR drop_bit 10 x"

definition LOAD32H :: "bytes \<Rightarrow> u32" where
  "LOAD32H y = push_bit 24 (ucast (y ! 0)) OR push_bit 16 (ucast (y ! 1)) OR push_bit 8 (ucast (y ! 2)) OR ucast (y ! 3)"

definition STORE32H :: "u32 \<Rightarrow> bytes" where
  "STORE32H x = [ucast (drop_bit 24 x), ucast (drop_bit 16 x), ucast (drop_bit 8 x), ucast x]"

definition STORE64H :: "u64 \<Rightarrow> bytes" where
  "STORE64H x = [ucast (drop_bit 56 x), ucast (drop_bit 48 x), ucast (drop_bit 40 x), ucast (drop_bit 32 x),
     ucast (drop_bit 24 x), ucast (drop_bit 16 x), ucast (drop_bit 8 x), ucast x]"

text \<open>Filling \<^verbatim>\<open>W[16..63]\<close>, and one round together with the rotation of \<^verbatim>\<open>S\<close> that follows it.\<close>

fun fill_W :: "nat \<Rightarrow> u32 list \<Rightarrow> u32 list" where
  "fill_W 0 W = W"
| "fill_W (Suc n) W =
     (let i = length W in
      fill_W n (W @ [sha_Gamma1 (W ! (i - 2)) + W ! (i - 7) + sha_Gamma0 (W ! (i - 15)) + W ! (i - 16)]))"

fun sha_RND :: "u32 \<Rightarrow> u32 \<Rightarrow> u32 list \<Rightarrow> u32 list" where
  "sha_RND k w [a, b, c, d, e, f, g, h] =
     (let t0 = h + sha_Sigma1 e + sha_Ch e f g + k + w;
          t1 = sha_Sigma0 a + sha_Maj a b c
      in [t0 + t1, a, b, c, d + t0, e, f, g])"
| "sha_RND k w S = S"

definition sha256_compress :: "u32 list \<Rightarrow> bytes \<Rightarrow> u32 list" where
  "sha256_compress state buf =
     (let W = fill_W 48 (map (\<lambda>i. LOAD32H (drop (4 * i) buf)) [0..<16]);
          S = fold (\<lambda>(k, w). sha_RND k w) (zip sha_K W) state
      in map2 (+) state S)"

definition erofs_sha256_init :: "bytes \<Rightarrow> sha256_state" where
  "erofs_sha256_init junk =
     \<lparr>sha_length = 0,
      sha_state = [0x6A09E667, 0xBB67AE85, 0x3C6EF372, 0xA54FF53A, 0x510E527F, 0x9B05688C, 0x1F83D9AB, 0x5BE0CD19],
      sha_curlen = 0, sha_buf = junk\<rparr>"

function sha256_process_loop :: "sha256_state \<Rightarrow> bytes \<Rightarrow> sha256_state" where
  "sha256_process_loop md inp =
     (if inp = [] \<or> 64 \<le> sha_curlen md then md
      else if sha_curlen md = 0 \<and> 64 \<le> length inp
      then sha256_process_loop
             (md\<lparr>sha_state := sha256_compress (sha_state md) (take 64 inp), sha_length := sha_length md + 512\<rparr>) (drop 64 inp)
      else
        let n = min (length inp) (64 - sha_curlen md);
            md = md\<lparr>sha_buf := take (sha_curlen md) (sha_buf md) @ take n inp @ drop (sha_curlen md + n) (sha_buf md),
                    sha_curlen := sha_curlen md + n\<rparr>;
            md = (if sha_curlen md = 64
                  then md\<lparr>sha_state := sha256_compress (sha_state md) (sha_buf md), sha_length := sha_length md + 512,
                          sha_curlen := 0\<rparr>
                  else md)
        in sha256_process_loop md (drop n inp))"
  by pat_completeness auto
termination
  by (relation "measure (\<lambda>(md, inp). length inp)") (auto simp: Let_def)

declare sha256_process_loop.simps [simp del]

text \<open>With \<^verbatim>\<open>curlen = 64\<close>, which no call leaves behind, the loop of the source would not end; \<^verbatim>\<open>None\<close> stands for that
  and for the -1 of a larger value.\<close>

definition erofs_sha256_process :: "sha256_state \<Rightarrow> bytes \<Rightarrow> sha256_state option" where
  "erofs_sha256_process md inp =
     (if 64 < sha_curlen md \<or> sha_curlen md = 64 \<and> inp \<noteq> [] then None else Some (sha256_process_loop md inp))"

definition erofs_sha256_done :: "sha256_state \<Rightarrow> bytes option" where
  "erofs_sha256_done md =
     (if 64 \<le> sha_curlen md then None
      else
        let len = sha_length md + of_nat (sha_curlen md) * 8;
            buf = take (sha_curlen md) (sha_buf md) @ [0x80] @ drop (Suc (sha_curlen md)) (sha_buf md);
            cur = Suc (sha_curlen md);
            (state, buf, cur) =
              (if 56 < cur then (sha256_compress (sha_state md) (take cur buf @ replicate (64 - cur) 0),
                                 take cur buf @ replicate (64 - cur) 0, 0)
               else (sha_state md, buf, cur));
            buf = take cur buf @ replicate (56 - cur) 0 @ STORE64H len
        in Some (concat (map STORE32H (sha256_compress state buf))))"

definition erofs_sha256 :: "bytes \<Rightarrow> bytes \<Rightarrow> bytes option" where
  "erofs_sha256 junk inp =
     Option.bind (erofs_sha256_process (erofs_sha256_init junk) inp) erofs_sha256_done"

section \<open>SHA-256: the standard\<close>

text \<open>FIPS 180-4: rotations, the choice and majority functions, the message schedule by recursion on its
  index, the round on eight working variables, padding and blocks.\<close>

definition fips_Ch :: "u32 \<Rightarrow> u32 \<Rightarrow> u32 \<Rightarrow> u32" where "fips_Ch x y z = (x AND y) XOR (NOT x AND z)"
definition fips_Maj :: "u32 \<Rightarrow> u32 \<Rightarrow> u32 \<Rightarrow> u32" where "fips_Maj x y z = (x AND y) XOR (x AND z) XOR (y AND z)"
definition fips_S0 :: "u32 \<Rightarrow> u32" where "fips_S0 x = word_rotr 2 x XOR word_rotr 13 x XOR word_rotr 22 x"
definition fips_S1 :: "u32 \<Rightarrow> u32" where "fips_S1 x = word_rotr 6 x XOR word_rotr 11 x XOR word_rotr 25 x"
definition fips_s0 :: "u32 \<Rightarrow> u32" where "fips_s0 x = word_rotr 7 x XOR word_rotr 18 x XOR drop_bit 3 x"
definition fips_s1 :: "u32 \<Rightarrow> u32" where "fips_s1 x = word_rotr 17 x XOR word_rotr 19 x XOR drop_bit 10 x"

text \<open>
  The constants of the standard: the first 32 bits of the fractional parts of the cube roots of the first 64
  primes, and of the square roots of the first 8 of them.
\<close>

definition first_primes :: "nat list" where
  "first_primes =
     [2, 3, 5, 7, 11, 13, 17, 19] @
     [23, 29, 31, 37, 41, 43, 47, 53] @
     [59, 61, 67, 71, 73, 79, 83, 89] @
     [97, 101, 103, 107, 109, 113, 127, 131] @
     [137, 139, 149, 151, 157, 163, 167, 173] @
     [179, 181, 191, 193, 197, 199, 211, 223] @
     [227, 229, 233, 239, 241, 251, 257, 263] @
     [269, 271, 277, 281, 283, 293, 307, 311]"

definition fips_K :: "u32 list" where
  "fips_K = map (\<lambda>p. word_of_nat ((GREATEST n. n ^ 3 \<le> p * 2 ^ 96) mod 2 ^ 32)) first_primes"

definition fips_H0 :: "u32 list" where
  "fips_H0 = map (\<lambda>p. word_of_nat ((GREATEST n. n ^ 2 \<le> p * 2 ^ 64) mod 2 ^ 32)) (take 8 first_primes)"

definition fips_M :: "bytes \<Rightarrow> nat \<Rightarrow> u32" where
  "fips_M blk t = word_of_nat (unat (blk ! (4 * t)) * 2 ^ 24 + unat (blk ! (4 * t + 1)) * 2 ^ 16 +
     unat (blk ! (4 * t + 2)) * 2 ^ 8 + unat (blk ! (4 * t + 3)))"

fun fips_W :: "bytes \<Rightarrow> nat \<Rightarrow> u32" where
  "fips_W blk t =
     (if t < 16 then fips_M blk t
      else fips_s1 (fips_W blk (t - 2)) + fips_W blk (t - 7) + fips_s0 (fips_W blk (t - 15)) + fips_W blk (t - 16))"

declare fips_W.simps [simp del]

fun fips_rounds :: "bytes \<Rightarrow> nat \<Rightarrow> u32 list \<Rightarrow> u32 list" where
  "fips_rounds blk 0 s = s"
| "fips_rounds blk (Suc t) s =
     (case fips_rounds blk t s of
        [a, b, c, d, e, f, g, h] \<Rightarrow>
          let T1 = h + fips_S1 e + fips_Ch e f g + fips_K ! t + fips_W blk t; T2 = fips_S0 a + fips_Maj a b c
          in [T1 + T2, a, b, c, d + T1, e, f, g]
      | s \<Rightarrow> s)"

definition fips_compress :: "u32 list \<Rightarrow> bytes \<Rightarrow> u32 list" where
  "fips_compress H blk = map2 (+) H (fips_rounds blk 64 H)"

function fips_blocks :: "u32 list \<Rightarrow> bytes \<Rightarrow> u32 list" where
  "fips_blocks H xs = (if 64 \<le> length xs then fips_blocks (fips_compress H (take 64 xs)) (drop 64 xs) else H)"
  by pat_completeness auto
termination
  by (relation "measure (\<lambda>(H, xs). length xs)") auto

declare fips_blocks.simps [simp del]

definition fips_pad :: "bytes \<Rightarrow> bytes" where
  "fips_pad msg = msg @ [0x80] @ replicate ((119 - length msg mod 64) mod 64) 0 @ rev (le_put 8 (of_nat (8 * length msg) :: u64))"

definition fips_sha256 :: "bytes \<Rightarrow> bytes" where
  "fips_sha256 msg = concat (map (\<lambda>w. rev (le_put 4 w)) (fips_blocks fips_H0 (fips_pad msg)))"

section \<open>The code meets the standard\<close>

lemma RORc_rotr:
  assumes "0 < n" "n < 32"
  shows "RORc x n = word_rotr n x"
proof (rule bit_word_eqI)
  fix i assume "i < LENGTH(32)"
  then have i: "i < 32" by simp
  show "bit (RORc x n) i = bit (word_rotr n x) i"
  proof (cases "i + n < 32")
    case True
    then have "\<not> 32 - n \<le> i" by simp
    then show ?thesis using assms i True by (simp add: RORc_def bit_word_rotr_iff bit_or_iff bit_drop_bit_eq bit_push_bit_iff add.commute)
  next
    case False
    then have m: "(i + n) mod 32 = i + n - 32" using assms i by (simp add: mod_if)
    have "\<not> bit x (n + i)" "32 - n \<le> i" using False by (simp_all add: not_bit_length)
    then show ?thesis using assms i False m
      by (simp add: RORc_def bit_word_rotr_iff bit_or_iff bit_drop_bit_eq bit_push_bit_iff add.commute)
  qed
qed

lemma Ch_fips: "sha_Ch x y z = fips_Ch x y z"
  by (rule bit_word_eqI) (auto simp: sha_Ch_def fips_Ch_def bit_simps)

lemma Maj_fips: "sha_Maj x y z = fips_Maj x y z"
  by (rule bit_word_eqI) (auto simp: sha_Maj_def fips_Maj_def bit_simps)

lemma sigma_fips:
  "sha_Sigma0 = fips_S0" "sha_Sigma1 = fips_S1" "sha_Gamma0 = fips_s0" "sha_Gamma1 = fips_s1"
  by (auto simp: sha_Sigma0_def sha_Sigma1_def sha_Gamma0_def sha_Gamma1_def fips_S0_def fips_S1_def fips_s0_def fips_s1_def RORc_rotr)

lemma LOAD32H_fips: "LOAD32H (drop (4 * t) blk) = fips_M blk t" if "4 * t + 3 < length blk"
proof -
  let ?a = "blk ! (4 * t)" and ?b = "blk ! (4 * t + 1)" and ?c = "blk ! (4 * t + 2)" and ?d = "blk ! (4 * t + 3)"
  have l: "LOAD32H (drop (4 * t) blk) = push_bit 24 (ucast ?a) OR push_bit 16 (ucast ?b) OR push_bit 8 (ucast ?c) OR ucast ?d"
    using that by (simp add: LOAD32H_def add.commute)
  have lt: "unat x < 2 ^ 8" for x :: u8 using unsigned_less [of x] by simp
  have dis: "push_bit 24 (ucast ?a) AND (push_bit 16 (ucast ?b) OR push_bit 8 (ucast ?c) OR ucast ?d) = (0 :: u32)"
     "push_bit 16 (ucast ?b) AND (push_bit 8 (ucast ?c) OR ucast ?d) = (0 :: u32)"
     "push_bit 8 (ucast ?c) AND ucast ?d = (0 :: u32)"
    by (rule bit_word_eqI; auto simp: bit_simps dest: bit_imp_le_length)+
  have "LOAD32H (drop (4 * t) blk) = push_bit 24 (ucast ?a) + (push_bit 16 (ucast ?b) + (push_bit 8 (ucast ?c) + ucast ?d))"
    unfolding l using dis by (simp add: or.assoc disjunctive_add_eq_or)
  then show ?thesis
    by (simp add: fips_M_def push_bit_eq_mult of_nat_add of_nat_mult unsigned_ucast_eq)
qed

lemma fill_W_fips:
  assumes "16 \<le> m"
  shows "fill_W n (map (fips_W blk) [0..<m]) = map (fips_W blk) [0..<m + n]"
  using assms
proof (induction n arbitrary: m)
  case (Suc n)
  have "map (fips_W blk) [0..<m] @ [fips_W blk m] = map (fips_W blk) [0..<Suc m]" by simp
  moreover have "fips_W blk m = fips_s1 (fips_W blk (m - 2)) + fips_W blk (m - 7) + fips_s0 (fips_W blk (m - 15)) + fips_W blk (m - 16)"
    using Suc.prems by (subst fips_W.simps) simp
  ultimately show ?case
    using Suc.IH [of "Suc m"] Suc.prems by (simp add: Let_def sigma_fips)
qed simp

lemma length_RND: "length S = 8 \<Longrightarrow> length (sha_RND k w S) = 8"
  by (auto simp: length_Suc_conv numeral_eq_Suc Let_def)

lemma Greatest_root:
  fixes P :: nat
  assumes "r ^ k \<le> P" and "P < (r + 1) ^ k"
  shows "(GREATEST n. n ^ k \<le> P) = r"
proof (rule Greatest_equality)
  fix n assume "n ^ k \<le> P"
  then have "n ^ k < (r + 1) ^ k" using assms(2) by simp
  then have "n < r + 1" by (rule power_less_imp_less_base) simp
  then show "n \<le> r" by simp
qed (rule assms(1))

lemma map_Greatest_root:
  fixes M :: nat
  assumes "list_all2 (\<lambda>p r. r ^ k \<le> p * M \<and> p * M < (r + 1) ^ k) ps rs"
  shows "map (\<lambda>p. f (GREATEST n. n ^ k \<le> p * M)) ps = map f rs"
  using assms
proof (induction rule: list_all2_induct)
  case (Cons p ps r rs)
  then have "(GREATEST n. n ^ k \<le> p * M) = r" by (intro Greatest_root) simp_all
  with Cons show ?case by simp
qed simp

lemma fips_K_eq: "fips_K = sha_K"
proof -
  have "list_all2 (\<lambda>p r. r ^ 3 \<le> p * 2 ^ 96 \<and> p * 2 ^ 96 < (r + 1) ^ 3) first_primes
    [5411319704, 6194414737, 7344290767, 8215976869, 9551921755, 10098905585,
     11043570340, 11460697813, 12214315672, 13195500289, 13492127166, 14311783875,
     14809980276, 15046980094, 15499789991, 16133124468, 16720292289, 16907126662,
     17444216262, 17784676812, 17950125167, 18429019306, 18734950876, 19175934170,
     19734090066, 20001703533, 20132865992, 20390182855, 20516441075, 20764397895,
     21588763473, 21813078375, 22141143685, 22248366392, 22769593852, 22871018771,
     23170020180, 23461497531, 23651862830, 23931792517, 24205322401, 24295138891,
     24734567280, 24820601251, 24990902297, 25075189284, 25569408389, 26045227120,
     26200031510, 26276752392, 26428864332, 26653801653, 26727943347, 27092625994,
     27306805839, 27517677555, 27725365998, 27793908591, 27997534228, 28131656200,
     28198240250, 28526537963, 28973835255, 29099129074]"
    by (simp add: first_primes_def)
  from map_Greatest_root [OF this, of "\<lambda>r. word_of_nat (r mod 2 ^ 32)"] show ?thesis
    unfolding fips_K_def by (simp add: sha_K_def)
qed

lemma fips_H0_eq:
  "fips_H0 = [0x6A09E667, 0xBB67AE85, 0x3C6EF372, 0xA54FF53A, 0x510E527F, 0x9B05688C, 0x1F83D9AB, 0x5BE0CD19]"
proof -
  have "list_all2 (\<lambda>p r. r ^ 2 \<le> p * 2 ^ 64 \<and> p * 2 ^ 64 < (r + 1) ^ 2) (take 8 first_primes)
    [6074000999, 7439101573, 9603838834, 11363415354, 14244795007, 15485724812, 17708603819, 18721328409]"
    by (simp add: first_primes_def)
  from map_Greatest_root [OF this, of "\<lambda>r. word_of_nat (r mod 2 ^ 32)"] show ?thesis
    unfolding fips_H0_def by simp
qed

lemma length_sha_K: "length sha_K = 64"
  by (simp add: sha_K_def)

lemma rounds_fips:
  assumes "length S = 8" "n \<le> 64"
  shows "fold (\<lambda>(k, w). sha_RND k w) (zip (take n sha_K) (map (fips_W blk) [0..<n])) S = fips_rounds blk n S \<and>
    length (fips_rounds blk n S) = 8"
  using assms(2)
proof (induction n)
  case 0
  then show ?case using assms(1) by simp
next
  case (Suc n)
  have k: "take (Suc n) sha_K = take n sha_K @ [sha_K ! n]" using Suc.prems by (intro take_Suc_conv_app_nth) (simp add: length_sha_K)
  have "length (take n sha_K) = n" using Suc.prems by (simp add: length_sha_K)
  then have z: "zip (take (Suc n) sha_K) (map (fips_W blk) [0..<Suc n]) =
      zip (take n sha_K) (map (fips_W blk) [0..<n]) @ [(sha_K ! n, fips_W blk n)]" by (simp add: k)
  have ih: "fold (\<lambda>(k, w). sha_RND k w) (zip (take n sha_K) (map (fips_W blk) [0..<n])) S = fips_rounds blk n S"
      "length (fips_rounds blk n S) = 8" using Suc by simp_all
  from ih(2) obtain a b c d e f g h where r: "fips_rounds blk n S = [a, b, c, d, e, f, g, h]"
    by (auto simp: length_Suc_conv numeral_eq_Suc)
  show ?case unfolding z by (simp add: ih(1) r Let_def sigma_fips Ch_fips Maj_fips fips_K_eq)
qed

lemma compress_fips:
  assumes "length H = 8" "length blk = 64"
  shows "sha256_compress H blk = fips_compress H blk"
proof -
  have "map (\<lambda>i. LOAD32H (drop (4 * i) blk)) [0..<16] = map (fips_W blk) [0..<16]"
    using assms(2) by (intro map_cong refl) (simp add: LOAD32H_fips fips_W.simps)
  then have "fill_W 48 (map (\<lambda>i. LOAD32H (drop (4 * i) blk)) [0..<16]) = fill_W 48 (map (fips_W blk) [0..<16])" by (simp only:)
  also have "\<dots> = map (fips_W blk) [0..<64]" using fill_W_fips [of 16 48 blk] by simp
  finally have "fill_W 48 (map (\<lambda>i. LOAD32H (drop (4 * i) blk)) [0..<16]) = map (fips_W blk) [0..<64]" .
  then show ?thesis
    using rounds_fips [OF assms(1), of 64 blk] by (simp add: sha256_compress_def fips_compress_def length_sha_K Let_def del: upt_conv_Cons)
qed

lemma length_fips_compress [simp]: "length H = 8 \<Longrightarrow> length (fips_compress H blk) = 8"
  using rounds_fips [of H 64 blk] by (simp add: fips_compress_def)

lemma length_fips_blocks: "length H = 8 \<Longrightarrow> length (fips_blocks H xs) = 8"
  by (induction H xs rule: fips_blocks.induct) (subst fips_blocks.simps, simp)

lemma fips_blocks_append:
  assumes "64 dvd length xs"
  shows "fips_blocks H (xs @ ys) = fips_blocks (fips_blocks H xs) ys"
  using assms
proof (induction H xs rule: fips_blocks.induct)
  case (1 H xs)
  show ?case
  proof (cases "64 \<le> length xs")
    case True
    have "64 dvd length (drop 64 xs)" using 1(2) True by (simp add: dvd_diff_nat)
    then show ?thesis using 1(1) True
      by (subst fips_blocks.simps, subst (2) fips_blocks.simps) simp
  next
    case False
    then have "xs = []" using 1(2) by (metis dvd_imp_le length_greater_0_conv)
    then show ?thesis by (subst (2) fips_blocks.simps) simp
  qed
qed

lemma fips_blocks_one: "length xs = 64 \<Longrightarrow> fips_blocks H xs = fips_compress H xs"
  by (subst fips_blocks.simps, subst fips_blocks.simps) simp

text \<open>What the state holds after the bytes \<^verbatim>\<open>msg\<close>: whole blocks in the hash value, the rest in the buffer.\<close>

definition sha_absorbed :: "sha256_state \<Rightarrow> bytes \<Rightarrow> bool" where
  "sha_absorbed md msg \<longleftrightarrow>
     (let whole = length msg div 64 * 64 in
      sha_state md = fips_blocks fips_H0 (take whole msg) \<and> sha_curlen md = length msg mod 64 \<and>
      length (sha_buf md) = 64 \<and> take (sha_curlen md) (sha_buf md) = drop whole msg \<and> sha_length md = of_nat (8 * whole))"

lemma absorbed_len: "sha_absorbed md msg \<Longrightarrow> length (sha_state md) = 8 \<and> sha_curlen md < 64"
  by (simp add: sha_absorbed_def Let_def length_fips_blocks fips_H0_eq)

lemma absorbed_init: "length junk = 64 \<Longrightarrow> sha_absorbed (erofs_sha256_init junk) []"
  by (simp add: sha_absorbed_def erofs_sha256_init_def fips_blocks.simps fips_H0_eq)

lemma absorbed_block:
  assumes a: "sha_absorbed md msg" and c: "sha_curlen md + length xs = 64"
    and b: "blk = take (sha_curlen md) (sha_buf md) @ xs"
    and m: "md' = md\<lparr>sha_state := sha256_compress (sha_state md) blk, sha_length := sha_length md + 512, sha_curlen := 0, sha_buf := buf\<rparr>"
    and l: "length buf = 64"
  shows "sha_absorbed md' (msg @ xs)"
proof -
  define w where "w = length msg div 64 * 64"
  have cur: "sha_curlen md = length msg mod 64" and st: "sha_state md = fips_blocks fips_H0 (take w msg)"
      and bf: "take (sha_curlen md) (sha_buf md) = drop w msg" and ln: "sha_length md = of_nat (8 * w)"
    using a unfolding sha_absorbed_def Let_def w_def by blast+
  have wm: "w + length msg mod 64 = length msg" by (simp add: w_def)
  have ww: "length (msg @ xs) = w + 64" using c cur wm by simp
  have "64 dvd w" by (simp add: w_def)
  then have d: "(w + 64) div 64 * 64 = w + 64" by (simp add: dvd_div_mult_self)
  have blk: "blk = drop w msg @ xs" and bl: "length blk = 64" using b bf c cur wm by (simp_all add: b)
  have "length (take w msg) = w" using wm by simp
  then have "fips_blocks fips_H0 (take w msg @ blk) = fips_compress (fips_blocks fips_H0 (take w msg)) blk"
    using fips_blocks_append [of "take w msg" fips_H0 blk] \<open>64 dvd w\<close> bl by (simp only: fips_blocks_one)
  moreover have "take w msg @ blk = msg @ xs" by (simp add: blk)
  ultimately have "fips_blocks fips_H0 (msg @ xs) = sha256_compress (sha_state md) blk"
    using compress_fips [OF _ bl, of "sha_state md"] absorbed_len [OF a] by (simp add: st)
  moreover have "length (msg @ xs) div 64 * 64 = w + 64" "length (msg @ xs) mod 64 = 0"
    using ww d \<open>64 dvd w\<close> by (simp_all only: ww) (simp_all add: mod_eq_0_iff_dvd)
  moreover have "take (w + 64) (msg @ xs) = msg @ xs" "drop (w + 64) (msg @ xs) = []"
    by (rule take_all, simp only: ww, rule drop_all, simp only: ww)
  ultimately show ?thesis
    using l ln unfolding sha_absorbed_def Let_def m by (simp del: length_append take_append drop_append)
qed

lemma absorbed_partial:
  assumes a: "sha_absorbed md msg" and c: "sha_curlen md + length xs < 64"
    and m: "md' = md\<lparr>sha_buf := take (sha_curlen md) (sha_buf md) @ xs @ drop (sha_curlen md + length xs) (sha_buf md),
      sha_curlen := sha_curlen md + length xs\<rparr>"
  shows "sha_absorbed md' (msg @ xs)"
proof -
  define w where "w = length msg div 64 * 64"
  have cur: "sha_curlen md = length msg mod 64" and st: "sha_state md = fips_blocks fips_H0 (take w msg)" and lb: "length (sha_buf md) = 64"
      and bf: "take (sha_curlen md) (sha_buf md) = drop w msg" and ln: "sha_length md = of_nat (8 * w)"
    using a unfolding sha_absorbed_def Let_def w_def by blast+
  have wm: "w + length msg mod 64 = length msg" by (simp add: w_def)
  have "length (msg @ xs) = w + (sha_curlen md + length xs)" using cur wm by simp
  moreover have "64 dvd w" by (simp add: w_def)
  then obtain q where q: "w = 64 * q" by blast
  ultimately have dm: "length (msg @ xs) div 64 * 64 = w" "length (msg @ xs) mod 64 = sha_curlen md + length xs"
    using c by (simp_all add: add.assoc)
  have wl: "w \<le> length msg" using wm by linarith
  then have "take w (msg @ xs) = take w msg" "drop w (msg @ xs) = drop w msg @ xs" by simp_all
  moreover have "take (sha_curlen md + length xs) (take (sha_curlen md) (sha_buf md) @ xs @ drop (sha_curlen md + length xs) (sha_buf md)) = drop w msg @ xs"
  proof -
    have "length msg - w = sha_curlen md" using wm cur by linarith
    then show ?thesis using lb c bf by simp
  qed
  ultimately show ?thesis
    using st lb ln c unfolding sha_absorbed_def Let_def dm m by (simp del: take_append drop_append)
qed

lemma process_absorbs: "sha_absorbed md msg \<Longrightarrow> sha_absorbed (sha256_process_loop md inp) (msg @ inp)"
proof (induction md inp arbitrary: msg rule: sha256_process_loop.induct)
  case (1 md inp)
  note cl = absorbed_len [OF 1(3)]
  have lb: "length (sha_buf md) = 64" using 1(3) by (simp add: sha_absorbed_def Let_def)
  consider "inp = []" | "inp \<noteq> []" "sha_curlen md = 0 \<and> 64 \<le> length inp" | "inp \<noteq> []" "\<not> (sha_curlen md = 0 \<and> 64 \<le> length inp)" by blast
  then show ?case
  proof cases
    case 1
    then show ?thesis using "1.prems" by (subst sha256_process_loop.simps) simp
  next
    case 2
    let ?md = "md\<lparr>sha_state := sha256_compress (sha_state md) (take 64 inp), sha_length := sha_length md + 512\<rparr>"
    have "?md = md\<lparr>sha_state := sha256_compress (sha_state md) (take 64 inp), sha_length := sha_length md + 512, sha_curlen := 0, sha_buf := sha_buf md\<rparr>"
      using 2 by (cases md) simp
    then have "sha_absorbed ?md (msg @ take 64 inp)"
      using 2 lb by (intro absorbed_block [OF "1.prems", where blk = "take 64 inp"]) simp_all
    from "1.IH"(1) [OF _ 2(2) this] 2(1) cl
    have "sha_absorbed (sha256_process_loop ?md (drop 64 inp)) (msg @ inp)" by simp
    then show ?thesis using 2 cl by (subst sha256_process_loop.simps) simp
  next
    case 3
    define n where "n = min (length inp) (64 - sha_curlen md)"
    define md1 where "md1 = md\<lparr>sha_buf := take (sha_curlen md) (sha_buf md) @ take n inp @ drop (sha_curlen md + n) (sha_buf md),
      sha_curlen := sha_curlen md + n\<rparr>"
    define md2 where "md2 = (if sha_curlen md1 = 64
      then md1\<lparr>sha_state := sha256_compress (sha_state md1) (sha_buf md1), sha_length := sha_length md1 + 512, sha_curlen := 0\<rparr> else md1)"
    have n: "n \<le> length inp" "sha_curlen md + n \<le> 64" using cl by (auto simp: n_def min_def)
    have tn: "length (take n inp) = n" using n by simp
    have "sha_absorbed md2 (msg @ take n inp)"
    proof (cases "sha_curlen md + n = 64")
      case True
      have "md2 = md\<lparr>sha_state := sha256_compress (sha_state md) (take (sha_curlen md) (sha_buf md) @ take n inp),
          sha_length := sha_length md + 512, sha_curlen := 0, sha_buf := sha_buf md1\<rparr>"
        using True lb by (simp add: md2_def md1_def)
      from absorbed_block [OF "1.prems" _ refl this] True n lb show ?thesis by (simp add: md1_def)
    next
      case False
      then have "md2 = md1" by (simp add: md2_def md1_def)
      then show ?thesis using False n tn by (intro absorbed_partial [OF "1.prems"]) (simp_all add: md1_def)
    qed
    from "1.IH"(2) [OF _ 3(2) n_def md1_def md2_def this] 3(1) cl
    have "sha_absorbed (sha256_process_loop md2 (drop n inp)) (msg @ inp)" by simp
    moreover have "sha256_process_loop md inp = sha256_process_loop md2 (drop n inp)"
    proof -
      have "\<not> (inp = [] \<or> 64 \<le> sha_curlen md)" using 3(1) cl by simp
      then show ?thesis
        using 3(2) by (subst sha256_process_loop.simps) (simp only: Let_def n_def md1_def md2_def if_False)
    qed
    ultimately show ?thesis by simp
  qed
qed

lemma le_put_numeral: "le_put (numeral k) w = ucast w # le_put (pred_numeral k) (drop_bit 8 w)"
  by (simp add: numeral_eq_Suc le_put.simps)

lemma STORE_fips: "STORE32H w = rev (le_put 4 w)" "STORE64H x = rev (le_put 8 x)"
  by (simp_all add: STORE32H_def STORE64H_def le_put_numeral le_put.simps)

lemma done_fips:
  assumes a: "sha_absorbed md msg"
  shows "erofs_sha256_done md = Some (fips_sha256 msg)"
proof -
  define w where "w = length msg div 64 * 64"
  define r where "r = length msg mod 64"
  have cur: "sha_curlen md = r" and st: "sha_state md = fips_blocks fips_H0 (take w msg)" and lb: "length (sha_buf md) = 64"
      and bf: "take r (sha_buf md) = drop w msg" and ln: "sha_length md = of_nat (8 * w)"
    using a unfolding sha_absorbed_def Let_def w_def r_def by (metis, metis, metis, metis, metis)
  have r64: "r < 64" by (simp add: r_def)
  have wm: "w + r = length msg" by (simp add: w_def r_def)
  have w64: "64 dvd w" by (simp add: w_def)
  let ?bits = "of_nat (8 * length msg) :: u64" and ?k = "(119 - r) mod 64"
  have len: "sha_length md + of_nat r * 8 = ?bits" unfolding ln wm [symmetric] by (simp add: algebra_simps)
  have l8: "length (fips_blocks fips_H0 (take w msg)) = 8" by (rule length_fips_blocks) (simp add: fips_H0_eq)
  have pad: "fips_pad msg = take w msg @ drop w msg @ [0x80] @ replicate ?k 0 @ STORE64H ?bits"
    by (simp add: fips_pad_def r_def STORE_fips)
  have spec: "fips_blocks fips_H0 (fips_pad msg) =
      fips_blocks (fips_blocks fips_H0 (take w msg)) (drop w msg @ [0x80] @ replicate ?k 0 @ STORE64H ?bits)"
  proof -
    have "length (take w msg) = w" using wm by simp
    then show ?thesis unfolding pad using w64 fips_blocks_append [of "take w msg"] by (simp only:)
  qed
  have dl: "length (drop w msg) = r" using wm by simp
  have sl: "length (STORE64H x) = 8" for x by (simp add: STORE64H_def)
  let ?buf = "take r (sha_buf md) @ [0x80] @ drop (Suc r) (sha_buf md)"
  have tb: "take (Suc r) ?buf = drop w msg @ [0x80]" using bf dl by simp
  show ?thesis
  proof (cases "r < 56")
    case True
    then have k: "?k = 55 - r" by (simp add: mod_if)
    have e: "drop w msg @ [0x80] @ replicate ?k 0 @ STORE64H ?bits = take (Suc r) ?buf @ replicate (56 - Suc r) 0 @ STORE64H ?bits"
    proof -
      have "56 - Suc r = 55 - r" by simp
      then show ?thesis unfolding tb k by simp
    qed
    have b: "length (take (Suc r) ?buf @ replicate (56 - Suc r) 0 @ STORE64H ?bits) = 64"
      unfolding tb using True dl sl by simp
    have "erofs_sha256_done md = Some (concat (map STORE32H (sha256_compress (sha_state md)
        (take (Suc r) ?buf @ replicate (56 - Suc r) 0 @ STORE64H ?bits))))"
      using True r64 len by (simp add: erofs_sha256_done_def cur Let_def)
    then show ?thesis
      unfolding fips_sha256_def spec e fips_blocks_one [OF b] st compress_fips [OF l8 b] STORE_fips(1) .
  next
    case False
    then have k: "?k = (63 - r) + 56" using r64 by (simp add: mod_if)
    let ?b1 = "take (Suc r) ?buf @ replicate (64 - Suc r) 0" and ?b2 = "replicate 56 0 @ STORE64H ?bits"
    have "replicate ?k (0 :: u8) = replicate (64 - Suc r) 0 @ replicate 56 0"
      unfolding k by (simp add: replicate_add [symmetric])
    then have e: "drop w msg @ [0x80] @ replicate ?k 0 @ STORE64H ?bits = ?b1 @ ?b2" unfolding tb by simp
    have l1: "length ?b1 = 64" unfolding tb using r64 dl by simp
    have l2: "length ?b2 = 64" using sl by simp
    have "erofs_sha256_done md = Some (concat (map STORE32H (sha256_compress (sha256_compress (sha_state md) ?b1) ?b2)))"
      using False r64 len by (simp add: erofs_sha256_done_def cur Let_def)
    moreover have "fips_blocks (fips_blocks fips_H0 (take w msg)) (?b1 @ ?b2) =
        fips_compress (fips_compress (fips_blocks fips_H0 (take w msg)) ?b1) ?b2"
      using l1 l2 by (subst fips_blocks_append) (simp_all only: fips_blocks_one dvd_refl)
    ultimately show ?thesis
      unfolding fips_sha256_def spec e st STORE_fips(1)
      using compress_fips [OF l8 l1] compress_fips [OF _ l2] length_fips_compress [OF l8] by simp
  qed
qed

text \<open>The pieces of a message, one call of \<^verbatim>\<open>erofs_sha256_process\<close> each.\<close>

fun sha256_feed :: "sha256_state \<Rightarrow> bytes list \<Rightarrow> sha256_state option" where
  "sha256_feed md [] = Some md"
| "sha256_feed md (p # ps) = Option.bind (erofs_sha256_process md p) (\<lambda>md. sha256_feed md ps)"

lemma feed_absorbs:
  "sha_absorbed md msg \<Longrightarrow> \<exists>md'. sha256_feed md ps = Some md' \<and> sha_absorbed md' (msg @ concat ps)"
proof (induction ps arbitrary: md msg)
  case (Cons p ps)
  have "erofs_sha256_process md p = Some (sha256_process_loop md p)"
    using absorbed_len [OF Cons.prems] by (simp add: erofs_sha256_process_def)
  then show ?case using Cons.IH [OF process_absorbs [OF Cons.prems, of p]] by simp
qed simp

text \<open>
  C25. SHA-256 as coded computes the hash of the standard, whatever the pieces a message is fed in and whatever
  the buffer held before; in particular \<^verbatim>\<open>erofs_sha256\<close> does.
\<close>

theorem sha256_fips:
  assumes "length junk = 64"
  shows "Option.bind (sha256_feed (erofs_sha256_init junk) ps) erofs_sha256_done = Some (fips_sha256 (concat ps)) \<and>
    erofs_sha256 junk msg = Some (fips_sha256 msg)"
proof -
  have "Option.bind (sha256_feed (erofs_sha256_init junk) ps) erofs_sha256_done = Some (fips_sha256 (concat ps))" for ps
    using feed_absorbs [OF absorbed_init [OF assms], of ps] done_fips by auto
  from this [of ps] this [of "[msg]"] show ?thesis
    by (auto simp: erofs_sha256_def bind_eq_Some_conv split: bind_splits)
qed

theorem sha256_fips_witness:
  "Option.bind (sha256_feed (erofs_sha256_init (replicate 64 7)) [[97], [98, 99]]) erofs_sha256_done = Some (fips_sha256 [97, 98, 99]) \<and>
   erofs_sha256 (replicate 64 7) [97, 98, 99] = Some (fips_sha256 [97, 98, 99])"
  using sha256_fips [of "replicate 64 7" "[[97], [98, 99]]" "[97, 98, 99]"] by simp

section \<open>xxHash\<close>

definition xxh_rotl32 :: "u32 \<Rightarrow> nat \<Rightarrow> u32" where "xxh_rotl32 x r = push_bit r x OR drop_bit (32 - r) x"
definition xxh_rotl64 :: "u64 \<Rightarrow> nat \<Rightarrow> u64" where "xxh_rotl64 x r = push_bit r x OR drop_bit (64 - r) x"

abbreviation (input) PRIME32_1 :: u32 where "PRIME32_1 \<equiv> 2654435761"
abbreviation (input) PRIME32_2 :: u32 where "PRIME32_2 \<equiv> 2246822519"
abbreviation (input) PRIME32_3 :: u32 where "PRIME32_3 \<equiv> 3266489917"
abbreviation (input) PRIME32_4 :: u32 where "PRIME32_4 \<equiv> 668265263"
abbreviation (input) PRIME32_5 :: u32 where "PRIME32_5 \<equiv> 374761393"
abbreviation (input) PRIME64_1 :: u64 where "PRIME64_1 \<equiv> 11400714785074694791"
abbreviation (input) PRIME64_2 :: u64 where "PRIME64_2 \<equiv> 14029467366897019727"
abbreviation (input) PRIME64_3 :: u64 where "PRIME64_3 \<equiv> 1609587929392839161"
abbreviation (input) PRIME64_4 :: u64 where "PRIME64_4 \<equiv> 9650029242287828579"
abbreviation (input) PRIME64_5 :: u64 where "PRIME64_5 \<equiv> 2870177450012600261"

definition xxh32_round :: "u32 \<Rightarrow> u32 \<Rightarrow> u32" where
  "xxh32_round seed input = xxh_rotl32 (seed + input * PRIME32_2) 13 * PRIME32_1"

text \<open>The pointer \<^verbatim>\<open>p\<close> of the source is the rest of the input here.\<close>

function xxh32_stripes :: "u32 \<times> u32 \<times> u32 \<times> u32 \<Rightarrow> bytes \<Rightarrow> (u32 \<times> u32 \<times> u32 \<times> u32) \<times> bytes" where
  "xxh32_stripes v p =
     (if 16 \<le> length p
      then case v of (v1, v2, v3, v4) \<Rightarrow>
             xxh32_stripes (xxh32_round v1 (le_get (take 4 p)), xxh32_round v2 (le_get (take 4 (drop 4 p))),
                            xxh32_round v3 (le_get (take 4 (drop 8 p))), xxh32_round v4 (le_get (take 4 (drop 12 p)))) (drop 16 p)
      else (v, p))"
  by pat_completeness auto
termination
  by (relation "measure (\<lambda>(v, p). length p)") auto

function xxh32_words :: "u32 \<Rightarrow> bytes \<Rightarrow> u32 \<times> bytes" where
  "xxh32_words h p =
     (if 4 \<le> length p then xxh32_words (xxh_rotl32 (h + le_get (take 4 p) * PRIME32_3) 17 * PRIME32_4) (drop 4 p) else (h, p))"
  by pat_completeness auto
termination
  by (relation "measure (\<lambda>(h, p). length p)") auto

definition xxh32_bytes :: "u32 \<Rightarrow> bytes \<Rightarrow> u32" where
  "xxh32_bytes = foldl (\<lambda>h b. xxh_rotl32 (h + ucast b * PRIME32_5) 11 * PRIME32_1)"

definition xxh32 :: "bytes \<Rightarrow> u32 \<Rightarrow> u32" where
  "xxh32 input seed =
     (let (h, p) = (if 16 \<le> length input
                    then let ((v1, v2, v3, v4), p) =
                               xxh32_stripes (seed + PRIME32_1 + PRIME32_2, seed + PRIME32_2, seed, seed - PRIME32_1) input
                         in (xxh_rotl32 v1 1 + xxh_rotl32 v2 7 + xxh_rotl32 v3 12 + xxh_rotl32 v4 18, p)
                    else (seed + PRIME32_5, input));
          (h, p) = xxh32_words (h + of_nat (length input)) p;
          h = xxh32_bytes h p;
          h = (h XOR drop_bit 15 h) * PRIME32_2;
          h = (h XOR drop_bit 13 h) * PRIME32_3
      in h XOR drop_bit 16 h)"

definition xxh64_round :: "u64 \<Rightarrow> u64 \<Rightarrow> u64" where
  "xxh64_round acc input = xxh_rotl64 (acc + input * PRIME64_2) 31 * PRIME64_1"

definition xxh64_merge_round :: "u64 \<Rightarrow> u64 \<Rightarrow> u64" where
  "xxh64_merge_round acc val = (acc XOR xxh64_round 0 val) * PRIME64_1 + PRIME64_4"

function xxh64_stripes :: "u64 \<times> u64 \<times> u64 \<times> u64 \<Rightarrow> bytes \<Rightarrow> (u64 \<times> u64 \<times> u64 \<times> u64) \<times> bytes" where
  "xxh64_stripes v p =
     (if 32 \<le> length p
      then case v of (v1, v2, v3, v4) \<Rightarrow>
             xxh64_stripes (xxh64_round v1 (le_get (take 8 p)), xxh64_round v2 (le_get (take 8 (drop 8 p))),
                            xxh64_round v3 (le_get (take 8 (drop 16 p))), xxh64_round v4 (le_get (take 8 (drop 24 p)))) (drop 32 p)
      else (v, p))"
  by pat_completeness auto
termination
  by (relation "measure (\<lambda>(v, p). length p)") auto

function xxh64_words :: "u64 \<Rightarrow> bytes \<Rightarrow> u64 \<times> bytes" where
  "xxh64_words h p =
     (if 8 \<le> length p
      then xxh64_words (xxh_rotl64 (h XOR xxh64_round 0 (le_get (take 8 p))) 27 * PRIME64_1 + PRIME64_4) (drop 8 p)
      else (h, p))"
  by pat_completeness auto
termination
  by (relation "measure (\<lambda>(h, p). length p)") auto

declare xxh32_stripes.simps [simp del] xxh32_words.simps [simp del] xxh64_stripes.simps [simp del] xxh64_words.simps [simp del]

definition xxh64_bytes :: "u64 \<Rightarrow> bytes \<Rightarrow> u64" where
  "xxh64_bytes = foldl (\<lambda>h b. xxh_rotl64 (h XOR ucast b * PRIME64_5) 11 * PRIME64_1)"

definition xxh64 :: "bytes \<Rightarrow> u64 \<Rightarrow> u64" where
  "xxh64 input seed =
     (let (h, p) = (if 32 \<le> length input
                    then let ((v1, v2, v3, v4), p) =
                               xxh64_stripes (seed + PRIME64_1 + PRIME64_2, seed + PRIME64_2, seed, seed - PRIME64_1) input;
                             h = xxh_rotl64 v1 1 + xxh_rotl64 v2 7 + xxh_rotl64 v3 12 + xxh_rotl64 v4 18
                         in (xxh64_merge_round (xxh64_merge_round (xxh64_merge_round (xxh64_merge_round h v1) v2) v3) v4, p)
                    else (seed + PRIME64_5, input));
          (h, p) = xxh64_words (h + of_nat (length input)) p;
          (h, p) = (if 4 \<le> length p
                    then (xxh_rotl64 (h XOR ucast (le_get (take 4 p) :: u32) * PRIME64_1) 23 * PRIME64_2 + PRIME64_3, drop 4 p)
                    else (h, p));
          h = xxh64_bytes h p;
          h = (h XOR drop_bit 33 h) * PRIME64_2;
          h = (h XOR drop_bit 29 h) * PRIME64_3
      in h XOR drop_bit 32 h)"

text \<open>The published values for the empty input.\<close>

lemma xxh_empty: "xxh32 [] 0 = 0x02cc5d05" "xxh64 [] 0 = 0xef46db3751d8e999"
  by (simp_all add: xxh32_def xxh64_def xxh32_words.simps xxh64_words.simps xxh32_bytes_def xxh64_bytes_def)

section \<open>The rolling hash\<close>

text \<open>A hash is a \<^verbatim>\<open>long long\<close>; every intermediate value stays below \<^verbatim>\<open>2^41\<close> in size, so it is an integer here.  The
  remainder of C has the sign of its first operand.\<close>

abbreviation (input) PRIME_NUMBER :: int where "PRIME_NUMBER \<equiv> 4294967295"
abbreviation (input) RADIX :: int where "RADIX \<equiv> 256"

definition c_rem :: "int \<Rightarrow> int \<Rightarrow> int" where
  "c_rem a b = sgn a * (\<bar>a\<bar> mod b)"

definition hash_step :: "u8 \<Rightarrow> int \<Rightarrow> int" where
  "hash_step b h = c_rem (RADIX * h + uint b) PRIME_NUMBER"

definition erofs_rolling_hash_init :: "bytes \<Rightarrow> bool \<Rightarrow> int" where
  "erofs_rolling_hash_init input backwards = (if backwards then foldr hash_step input 0 else fold hash_step input 0)"

definition erofs_rolling_hash_advance :: "int \<Rightarrow> int \<Rightarrow> u8 \<Rightarrow> u8 \<Rightarrow> int" where
  "erofs_rolling_hash_advance old_hash RM to_remove to_add =
     (let to_remove_val = (uint to_remove * RM) mod PRIME_NUMBER;
          hash = c_rem (RADIX * (old_hash - to_remove_val)) PRIME_NUMBER;
          hash = c_rem (hash + uint to_add) PRIME_NUMBER
      in if hash < 0 then hash + PRIME_NUMBER else hash)"

fun calc_rm_loop :: "nat \<Rightarrow> int \<Rightarrow> int" where
  "calc_rm_loop 0 RM = RM"
| "calc_rm_loop (Suc n) RM = calc_rm_loop n (c_rem (RM * RADIX) PRIME_NUMBER)"

definition erofs_rollinghash_calc_rm :: "nat \<Rightarrow> int" where
  "erofs_rollinghash_calc_rm window_size = calc_rm_loop (window_size - 1) 1"

lemma c_rem_cong: "c_rem a b mod b = a mod b" if "0 < b"
  using that by (cases "0 \<le> a") (auto simp: c_rem_def sgn_if mod_minus_eq)

lemma c_rem_nonneg: "0 \<le> a \<Longrightarrow> c_rem a b = a mod b"
  by (simp add: c_rem_def sgn_if)

lemma c_rem_range: "0 < b \<Longrightarrow> - b < c_rem a b \<and> c_rem a b < b"
proof -
  assume b: "0 < b"
  define m where "m = \<bar>a\<bar> mod b"
  have "0 \<le> m" "m < b" using b by (simp_all add: m_def)
  then show ?thesis unfolding c_rem_def m_def [symmetric] by (auto simp: sgn_if)
qed

lemma hash_foldr_range: "0 \<le> foldr hash_step xs 0 \<and> foldr hash_step xs 0 < PRIME_NUMBER"
  by (induction xs) (simp_all add: hash_step_def c_rem_nonneg)

lemma hash_foldr_value: "foldr hash_step xs 0 = (\<Sum>i<length xs. uint (xs ! i) * RADIX ^ i) mod PRIME_NUMBER"
proof (induction xs)
  case (Cons b xs)
  have "foldr hash_step (b # xs) 0 = (RADIX * foldr hash_step xs 0 + uint b) mod PRIME_NUMBER"
    using hash_foldr_range [of xs] by (simp add: hash_step_def c_rem_nonneg)
  also have "\<dots> = (RADIX * (\<Sum>i<length xs. uint (xs ! i) * RADIX ^ i) + uint b) mod PRIME_NUMBER"
    unfolding Cons.IH by (rule mod_add_cong) (simp_all only: mod_mult_right_eq)
  also have "RADIX * (\<Sum>i<length xs. uint (xs ! i) * RADIX ^ i) + uint b = (\<Sum>i<length (b # xs). uint ((b # xs) ! i) * RADIX ^ i)"
    by (simp add: sum.lessThan_Suc_shift sum_distrib_left algebra_simps del: sum.lessThan_Suc)
  finally show ?case .
qed simp

lemma calc_rm_value: "0 \<le> RM \<Longrightarrow> calc_rm_loop n RM mod PRIME_NUMBER = (RM * RADIX ^ n) mod PRIME_NUMBER"
proof (induction n arbitrary: RM)
  case (Suc n)
  have "calc_rm_loop (Suc n) RM mod PRIME_NUMBER = ((RM * RADIX) mod PRIME_NUMBER * RADIX ^ n) mod PRIME_NUMBER"
    using Suc by (simp add: c_rem_nonneg)
  also have "\<dots> = (RM * RADIX * RADIX ^ n) mod PRIME_NUMBER" by (rule mod_mult_left_eq)
  finally show ?case by (simp add: mult.assoc)
qed simp

lemma wrap_negative: "- b < h \<Longrightarrow> h < b \<Longrightarrow> (if h < 0 then h + b else h) = h mod (b :: int)"
  using mod_pos_pos_trivial [of "h + b" b] by (auto simp: mod_pos_pos_trivial)

text \<open>
  Rolling the hash: dropping the last byte of a window and putting a new one in front with
  \<^verbatim>\<open>erofs_rolling_hash_advance\<close> gives exactly the hash that \<^verbatim>\<open>erofs_rolling_hash_init\<close> computes of the new window.
\<close>

lemma rolling_hash_step:
  "erofs_rolling_hash_advance (erofs_rolling_hash_init (xs @ [r]) True) (erofs_rollinghash_calc_rm (Suc (length xs))) r a =
   erofs_rolling_hash_init (a # xs) True"
proof -
  let ?P = PRIME_NUMBER and ?sum = "\<Sum>i<length xs. uint (xs ! i) * RADIX ^ i" and ?R = "RADIX ^ length xs"
  let ?old = "erofs_rolling_hash_init (xs @ [r]) True" and ?rm = "erofs_rollinghash_calc_rm (Suc (length xs))"
  have old: "?old mod ?P = (?sum + uint r * ?R) mod ?P"
    by (simp add: erofs_rolling_hash_init_def hash_foldr_value nth_append del: foldr_append)
  have P0: "0 < ?P" by simp
  have rm: "?rm mod ?P = ?R mod ?P" by (simp add: erofs_rollinghash_calc_rm_def calc_rm_value)
  let ?v = "(uint r * ?rm) mod ?P"
  have v: "?v mod ?P = (uint r * ?R) mod ?P" by (simp only: mod_mod_trivial) (rule mod_mult_cong [OF refl rm])
  let ?h1 = "c_rem (RADIX * (?old - ?v)) ?P" and ?h = "c_rem (c_rem (RADIX * (?old - ?v)) ?P + uint a) ?P"
  have "(?old - ?v) mod ?P = ?sum mod ?P"
    using mod_diff_cong [OF old v] by simp
  then have "?h1 mod ?P = (RADIX * ?sum) mod ?P" unfolding c_rem_cong [OF P0] by (rule mod_mult_cong [OF refl])
  then have "(?h1 + uint a) mod ?P = (RADIX * ?sum + uint a) mod ?P" by (rule mod_add_cong [OF _ refl])
  then have h: "?h mod ?P = (RADIX * ?sum + uint a) mod ?P" unfolding c_rem_cong [OF P0] .
  have new: "erofs_rolling_hash_init (a # xs) True = (RADIX * ?sum + uint a) mod ?P"
    by (simp add: erofs_rolling_hash_init_def hash_foldr_value sum.lessThan_Suc_shift sum_distrib_left algebra_simps
        del: sum.lessThan_Suc foldr.simps)
  have "- ?P < ?h" "?h < ?P" using c_rem_range [OF P0] by blast+
  then have "(if ?h < 0 then ?h + ?P else ?h) = ?h mod ?P" by (rule wrap_negative)
  then show ?thesis unfolding new h [symmetric] erofs_rolling_hash_advance_def Let_def .
qed

end
