(* ===== verification/Erofs_Dedupe.thy ===== *)
theory Erofs_Dedupe
  imports Erofs_Hash
begin

text \<open>
  Deduplication of compressed data, \<^verbatim>\<open>lib/dedupe.c\<close>: extents that have been written are remembered by the hashes
  of their first \<^verbatim>\<open>window_size\<close> bytes; a later occurrence of the same bytes refers to the old extent.  A pointer
  to an item is a number; \<^verbatim>\<open>dedupe_tree\<close> maps a bucket to its list.  The theorems: the word-wise comparison is the
  longest common prefix, and a match never refers to data that differ.
\<close>

section \<open>Comparing bytes\<close>

fun memcmp2_align :: "nat \<Rightarrow> bytes \<Rightarrow> bytes \<Rightarrow> nat \<Rightarrow> bytes \<times> bytes \<times> nat" where
  "memcmp2_align addr (x # xs) (y # ys) sz =
     (if addr mod 8 = 0 \<or> x \<noteq> y then (x # xs, y # ys, sz) else memcmp2_align (Suc addr) xs ys (sz - 1))"
| "memcmp2_align addr xs ys sz = (xs, ys, sz)"

function memcmp2_words :: "bytes \<Rightarrow> bytes \<Rightarrow> nat \<Rightarrow> bytes \<times> bytes \<times> nat" where
  "memcmp2_words xs ys sz =
     (if 8 \<le> sz \<and> (le_get (take 8 xs) :: u64) = le_get (take 8 ys) then memcmp2_words (drop 8 xs) (drop 8 ys) (sz - 8)
      else (xs, ys, sz))"
  by pat_completeness auto
termination
  by (relation "measure (\<lambda>(xs, ys, sz). sz)") auto

declare memcmp2_words.simps [simp del]

fun memcmp2_bytes :: "bytes \<Rightarrow> bytes \<Rightarrow> nat \<Rightarrow> nat" where
  "memcmp2_bytes (x # xs) (y # ys) (Suc sz) = (if x \<noteq> y then Suc sz else memcmp2_bytes xs ys sz)"
| "memcmp2_bytes xs ys sz = sz"

text \<open>\<^verbatim>\<open>a1\<close> and \<^verbatim>\<open>a2\<close> are the addresses of the two buffers, which decide whether words are compared aligned.  The loop that
  compares unaligned words is entered with at least one word and is the same loop otherwise.\<close>

definition erofs_memcmp2 :: "nat \<Rightarrow> bytes \<Rightarrow> nat \<Rightarrow> bytes \<Rightarrow> nat \<Rightarrow> nat" where
  "erofs_memcmp2 a1 s1 a2 s2 sz =
     (let (t1, t2, rest) =
            (if sz < 8 then (s1, s2, sz)
             else if a1 mod 8 = a2 mod 8
             then (case memcmp2_align a1 s1 s2 sz of (t1, t2, rest) \<Rightarrow> memcmp2_words t1 t2 rest)
             else memcmp2_words s1 s2 sz)
      in sz - memcmp2_bytes t1 t2 rest)"

section \<open>Items and matches\<close>

record z_erofs_inmem_extent =
  e_blkaddr :: u32
  e_compressedblks :: u32
  e_length :: u32
  e_raw :: bool
  e_partial :: bool
  e_inlined :: bool

record z_erofs_dedupe_item =
  it_id :: nat
  it_addr :: nat
  it_hash :: int
  prefix_sha256 :: bytes
  prefix_xxh64 :: u64
  compressed_blkaddr :: u32
  compressed_blks :: u32
  original_length :: nat
  it_partial :: bool
  it_raw :: bool
  extra_data :: bytes

record dedupe_state =
  window_size :: nat
  rollinghash_rm :: int
  dedupe_tree :: "nat \<Rightarrow> z_erofs_dedupe_item list"
  dedupe_subtree :: "nat list"
  dd_fresh :: nat

record z_erofs_dedupe_ctx =
  dc_start :: nat
  dc_end :: nat
  dc_cur :: nat
  dc_e :: z_erofs_inmem_extent

definition dedupe_bucket :: "int \<Rightarrow> nat" where
  "dedupe_bucket h = nat h mod 65536"

text \<open>The digest in \<^verbatim>\<open>u8 sha256[32]\<close>; \<^verbatim>\<open>erofs_sha256\<close> never fails, whatever its stack held.\<close>

definition sha256_of :: "bytes \<Rightarrow> bytes" where
  "sha256_of w = (case erofs_sha256 (replicate 64 0) w of Some d \<Rightarrow> d | None \<Rightarrow> [])"

definition find_item :: "dedupe_state \<Rightarrow> int \<Rightarrow> bytes \<Rightarrow> z_erofs_dedupe_item option" where
  "find_item st hash w = find (\<lambda>e. it_hash e = hash \<and> prefix_xxh64 e = xxh64 w 0) (dedupe_tree st (dedupe_bucket hash))"

text \<open>
  The loop of \<^verbatim>\<open>z_erofs_dedupe_match\<close>: \<^verbatim>\<open>k\<close> positions are left, from \<^verbatim>\<open>start + k - 1\<close> down to \<^verbatim>\<open>start\<close>; \<^verbatim>\<open>old\<close> is the hash of the
  window one position higher, if there was one.  \<^verbatim>\<open>q\<close> is the buffer, at address \<^verbatim>\<open>qa\<close>.
\<close>

fun dedupe_match_loop ::
    "dedupe_state \<Rightarrow> nat \<Rightarrow> bytes \<Rightarrow> z_erofs_dedupe_ctx \<Rightarrow> int option \<Rightarrow> nat \<Rightarrow> z_erofs_dedupe_ctx result" where
  "dedupe_match_loop st qa q ctx old 0 = Err ENOENT"
| "dedupe_match_loop st qa q ctx old (Suc k) =
     (let cur = dc_start ctx + k;
          ws = window_size st;
          w = take ws (drop cur q);
          hash = (case old of
                    None \<Rightarrow> erofs_rolling_hash_init w True
                  | Some h \<Rightarrow> erofs_rolling_hash_advance h (rollinghash_rm st) (q ! (cur + ws)) (q ! cur));
          again = dedupe_match_loop st qa q ctx (Some hash) k
      in case find_item st hash w of
           None \<Rightarrow> again
         | Some e \<Rightarrow>
             if sha256_of w \<noteq> prefix_sha256 e then again
             else
               let extra = min (dc_end ctx - cur - ws) (original_length e - ws);
                   extra = erofs_memcmp2 (qa + cur + ws) (drop (cur + ws) q) (it_addr e) (extra_data e) extra
               in if ws + extra \<le> dc_cur ctx - cur then again
                  else Inr (ctx\<lparr>dc_cur := cur,
                             dc_e := \<lparr>e_blkaddr = compressed_blkaddr e, e_compressedblks = compressed_blks e,
                                     e_length = of_nat (ws + extra), e_raw = it_raw e,
                                     e_partial = (it_partial e \<or> ws + extra < original_length e), e_inlined = False\<rparr>\<rparr>))"

definition z_erofs_dedupe_match ::
    "dedupe_state \<Rightarrow> nat \<Rightarrow> bytes \<Rightarrow> z_erofs_dedupe_ctx \<Rightarrow> z_erofs_dedupe_ctx result" where
  "z_erofs_dedupe_match st qa q ctx =
     (if window_size st = 0 then Err ENOENT
      else let cur = (if int (dc_end ctx) - int (window_size st) < int (dc_cur ctx)
                      then int (dc_end ctx) - int (window_size st) else int (dc_cur ctx))
           in dedupe_match_loop st qa q ctx None (nat (cur - int (dc_start ctx) + 1)))"

text \<open>\<^verbatim>\<open>addr\<close> is where \<^verbatim>\<open>malloc\<close> puts the copy of the data.\<close>

definition z_erofs_dedupe_insert ::
    "dedupe_state \<Rightarrow> nat \<Rightarrow> z_erofs_inmem_extent \<Rightarrow> bytes \<Rightarrow> dedupe_state" where
  "z_erofs_dedupe_insert st addr e data =
     (let ws = window_size st; len = unat (e_length e) in
      if ws = 0 \<or> len < ws then st
      else
        let w = take ws data;
            di = \<lparr>it_id = dd_fresh st, it_addr = addr, it_hash = erofs_rolling_hash_init w True, prefix_sha256 = sha256_of w,
                  prefix_xxh64 = xxh64 w 0, compressed_blkaddr = e_blkaddr e, compressed_blks = e_compressedblks e,
                  original_length = len, it_partial = e_partial e, it_raw = e_raw e,
                  extra_data = take (len - ws) (drop ws data)\<rparr>;
            p = dedupe_bucket (it_hash di)
        in if list_ex (\<lambda>k. prefix_xxh64 k = prefix_xxh64 di) (dedupe_tree st p) then st
           else st\<lparr>dedupe_subtree := it_id di # dedupe_subtree st,
                   dedupe_tree := (dedupe_tree st)(p := dedupe_tree st p @ [di]), dd_fresh := Suc (dd_fresh st)\<rparr>)"

definition z_erofs_dedupe_commit :: "bool \<Rightarrow> dedupe_state \<Rightarrow> dedupe_state" where
  "z_erofs_dedupe_commit drp st =
     (if dedupe_subtree st = [] then st
      else if drp
      then st\<lparr>dedupe_tree := (\<lambda>p. filter (\<lambda>k. it_id k \<notin> set (dedupe_subtree st)) (dedupe_tree st p)), dedupe_subtree := []\<rparr>
      else st\<lparr>dedupe_subtree := []\<rparr>)"

definition z_erofs_dedupe_init :: "nat \<Rightarrow> dedupe_state" where
  "z_erofs_dedupe_init wsiz =
     \<lparr>window_size = wsiz, rollinghash_rm = erofs_rollinghash_calc_rm wsiz, dedupe_tree = (\<lambda>_. []), dedupe_subtree = [], dd_fresh = 0\<rparr>"

definition z_erofs_dedupe_exit :: "dedupe_state \<Rightarrow> dedupe_state" where
  "z_erofs_dedupe_exit st =
     (if window_size st = 0 then st
      else (z_erofs_dedupe_commit True st)\<lparr>dedupe_tree := (\<lambda>_. []), dedupe_subtree := []\<rparr>)"

section \<open>The comparison is the longest common prefix\<close>

fun lcp :: "'a list \<Rightarrow> 'a list \<Rightarrow> nat" where
  "lcp (x # xs) (y # ys) = (if x = y then Suc (lcp xs ys) else 0)"
| "lcp xs ys = 0"

lemma lcp_take: "take (lcp xs ys) xs = take (lcp xs ys) ys"
  by (induction xs ys rule: lcp.induct) auto

lemma lcp_le: "lcp xs ys \<le> length xs" "lcp xs ys \<le> length ys"
  by (induction xs ys rule: lcp.induct) auto

lemma lcp_append: "lcp (zs @ xs) (zs @ ys) = length zs + lcp xs ys"
  by (induction zs) auto

lemma memcmp2_bytes_lcp:
  "sz \<le> length xs \<Longrightarrow> sz \<le> length ys \<Longrightarrow> memcmp2_bytes xs ys sz = sz - lcp (take sz xs) (take sz ys)"
  by (induction xs ys sz rule: memcmp2_bytes.induct) auto

text \<open>Both loops move over an equal prefix.\<close>

definition advanced :: "bytes \<Rightarrow> bytes \<Rightarrow> nat \<Rightarrow> bytes \<times> bytes \<times> nat \<Rightarrow> bool" where
  "advanced xs ys sz r \<longleftrightarrow> (\<exists>n \<le> sz. r = (drop n xs, drop n ys, sz - n) \<and> take n xs = take n ys)"

lemma advanced_refl: "advanced xs ys sz (xs, ys, sz)"
  by (auto simp: advanced_def)

lemma advanced_step:
  assumes "advanced (drop n xs) (drop n ys) (sz - n) r" "n \<le> sz" "take n xs = take n ys"
  shows "advanced xs ys sz r"
proof -
  obtain m where m: "m \<le> sz - n" "r = (drop m (drop n xs), drop m (drop n ys), sz - n - m)" "take m (drop n xs) = take m (drop n ys)"
    using assms(1) by (auto simp: advanced_def)
  have "take (n + m) xs = take (n + m) ys" using assms(3) m(3) by (simp add: take_add)
  then show ?thesis using m assms(2) unfolding advanced_def
    by (intro exI [of _ "n + m"]) (simp add: add.commute)
qed

lemma words_advanced: "sz \<le> length xs \<Longrightarrow> sz \<le> length ys \<Longrightarrow> advanced xs ys sz (memcmp2_words xs ys sz)"
proof (induction xs ys sz rule: memcmp2_words.induct)
  case (1 xs ys sz)
  show ?case
  proof (cases "8 \<le> sz \<and> (le_get (take 8 xs) :: u64) = le_get (take 8 ys)")
    case True
    have "take 8 xs = take 8 ys"
    proof -
      have "le_put 8 (le_get (take 8 xs) :: u64) = take 8 xs" "le_put 8 (le_get (take 8 ys) :: u64) = take 8 ys"
        by (rule le_put_get_id; use True "1.prems" in simp)+
      then show ?thesis using True by metis
    qed
    moreover have "advanced (drop 8 xs) (drop 8 ys) (sz - 8) (memcmp2_words (drop 8 xs) (drop 8 ys) (sz - 8))"
      using "1.prems" by (intro "1.IH" [OF True]) simp_all
    ultimately have "advanced xs ys sz (memcmp2_words (drop 8 xs) (drop 8 ys) (sz - 8))" using True advanced_step by blast
    then show ?thesis using True by (subst memcmp2_words.simps) simp
  next
    case False
    then show ?thesis by (subst memcmp2_words.simps) (simp only: if_False advanced_refl)
  qed
qed

lemma align_advanced:
  "sz \<le> length xs \<Longrightarrow> sz \<le> length ys \<Longrightarrow> (addr mod 8 = 0 \<or> 8 - addr mod 8 \<le> sz) \<Longrightarrow> advanced xs ys sz (memcmp2_align addr xs ys sz)"
proof (induction addr xs ys sz rule: memcmp2_align.induct)
  case (1 addr x xs y ys sz)
  show ?case
  proof (cases "addr mod 8 = 0 \<or> x \<noteq> y")
    case True
    then show ?thesis by (simp add: advanced_refl)
  next
    case False
    have lt: "addr mod 8 < 8" by simp
    have "Suc addr mod 8 = 0 \<or> 8 - Suc addr mod 8 \<le> sz - 1"
      using "1.prems"(3) False lt by (auto simp: mod_Suc)
    moreover have "1 \<le> sz" using "1.prems"(3) False lt by linarith
    ultimately show ?thesis
      using "1.IH" "1.prems" False advanced_step [of 1 "x # xs" "y # ys" sz] by simp
  qed
qed (simp_all add: advanced_refl)

text \<open>
  \<^verbatim>\<open>erofs_memcmp2\<close> returns the length of the longest common prefix of its two buffers, whatever their alignment.
\<close>

lemma memcmp2_eq:
  assumes "sz \<le> length s1" "sz \<le> length s2"
  shows "erofs_memcmp2 a1 s1 a2 s2 sz = lcp (take sz s1) (take sz s2)"
proof -
  define r where "r = (if sz < 8 then (s1, s2, sz)
      else if a1 mod 8 = a2 mod 8 then (case memcmp2_align a1 s1 s2 sz of (t1, t2, rest) \<Rightarrow> memcmp2_words t1 t2 rest)
      else memcmp2_words s1 s2 sz)"
  have "advanced s1 s2 sz r"
  proof -
    have al: "advanced s1 s2 sz (case memcmp2_align a1 s1 s2 sz of (t1, t2, rest) \<Rightarrow> memcmp2_words t1 t2 rest)" if "8 \<le> sz"
    proof -
      have "advanced s1 s2 sz (memcmp2_align a1 s1 s2 sz)"
        using that by (intro align_advanced [OF assms]) (auto intro: order_trans [OF _ that])
      then obtain n where n: "n \<le> sz" "memcmp2_align a1 s1 s2 sz = (drop n s1, drop n s2, sz - n)" "take n s1 = take n s2"
        by (auto simp: advanced_def)
      have "advanced (drop n s1) (drop n s2) (sz - n) (memcmp2_words (drop n s1) (drop n s2) (sz - n))"
        using assms by (intro words_advanced) simp_all
      then show ?thesis using n by (simp add: advanced_step)
    qed
    show ?thesis unfolding r_def using al words_advanced [OF assms] advanced_refl [of s1 s2 sz] by (simp add: not_less)
  qed
  then obtain n where n: "n \<le> sz" "r = (drop n s1, drop n s2, sz - n)" "take n s1 = take n s2" by (auto simp: advanced_def)
  have sp: "take sz s1 = take n s1 @ take (sz - n) (drop n s1)" "take sz s2 = take n s1 @ take (sz - n) (drop n s2)"
    using take_add [of n "sz - n" s1] take_add [of n "sz - n" s2] n by simp_all
  have "erofs_memcmp2 a1 s1 a2 s2 sz = sz - memcmp2_bytes (drop n s1) (drop n s2) (sz - n)"
    using n(2) by (simp add: erofs_memcmp2_def r_def [symmetric])
  also have "\<dots> = n + lcp (take (sz - n) (drop n s1)) (take (sz - n) (drop n s2))"
    using n(1) assms lcp_le(1) [of "take (sz - n) (drop n s1)" "take (sz - n) (drop n s2)"]
    by (subst memcmp2_bytes_lcp) simp_all
  also have "\<dots> = lcp (take sz s1) (take sz s2)"
    unfolding sp lcp_append using n(1) assms(1) by simp
  finally show ?thesis .
qed

lemma memcmp2_example:
  "erofs_memcmp2 3 [1, 2, 3, 4, 5, 6, 7, 8, 9, 10] 11 [1, 2, 3, 4, 5, 6, 7, 8, 9, 11] 10 = 9"
  using memcmp2_eq [of 10 "[1, 2, 3, 4, 5, 6, 7, 8, 9, 10]" "[1, 2, 3, 4, 5, 6, 7, 8, 9, 11]" 3 11] by simp

section \<open>Matches are sound\<close>

text \<open>What an item promises: it describes an extent that was inserted, with the data it was inserted for.\<close>

definition item_of :: "nat \<Rightarrow> z_erofs_dedupe_item \<Rightarrow> z_erofs_inmem_extent \<times> bytes \<Rightarrow> bool" where
  "item_of ws di ed \<longleftrightarrow>
     (case ed of (e, data) \<Rightarrow>
        unat (e_length e) = length data \<and> ws \<le> length data \<and> original_length di = length data \<and>
        prefix_sha256 di = sha256_of (take ws data) \<and> extra_data di = drop ws data \<and>
        compressed_blkaddr di = e_blkaddr e \<and> compressed_blks di = e_compressedblks e \<and>
        it_partial di = e_partial e \<and> it_raw di = e_raw e)"

text \<open>
  The extents of the files written so far (\<^verbatim>\<open>old\<close>) and of the file being written (\<^verbatim>\<open>new\<close>).  A file that turns out not to be
  worth compressing takes its extents back; their blocks are revoked.
\<close>

inductive dedupe_reach ::
    "dedupe_state \<Rightarrow> (z_erofs_inmem_extent \<times> bytes) list \<Rightarrow> (z_erofs_inmem_extent \<times> bytes) list \<Rightarrow> bool" where
  init: "dedupe_reach (z_erofs_dedupe_init wsiz) [] []"
| insert: "\<lbrakk>dedupe_reach st old new; unat (e_length e) = length data\<rbrakk> \<Longrightarrow>
     dedupe_reach (z_erofs_dedupe_insert st addr e data) old ((e, data) # new)"
| keep: "dedupe_reach st old new \<Longrightarrow> dedupe_reach (z_erofs_dedupe_commit False st) (new @ old) []"
| revoke: "dedupe_reach st old new \<Longrightarrow> dedupe_reach (z_erofs_dedupe_commit True st) old []"

definition dedupe_inv ::
    "dedupe_state \<Rightarrow> (z_erofs_inmem_extent \<times> bytes) list \<Rightarrow> (z_erofs_inmem_extent \<times> bytes) list \<Rightarrow> bool" where
  "dedupe_inv st old new \<longleftrightarrow>
     (\<forall>p. \<forall>di \<in> set (dedupe_tree st p). it_id di < dd_fresh st \<and>
        (\<exists>ed \<in> set (if it_id di \<in> set (dedupe_subtree st) then new else old). item_of (window_size st) di ed)) \<and>
     (\<forall>i \<in> set (dedupe_subtree st). i < dd_fresh st)"

lemma dedupe_invD:
  assumes "dedupe_inv st old new" "di \<in> set (dedupe_tree st p)"
  obtains ed where "ed \<in> set (if it_id di \<in> set (dedupe_subtree st) then new else old)" "item_of (window_size st) di ed" "it_id di < dd_fresh st"
  using assms unfolding dedupe_inv_def by blast

lemma dedupe_inv_more:
  assumes "dedupe_inv st old new"
  shows "dedupe_inv st old (ed # new)"
  unfolding dedupe_inv_def
proof (intro conjI allI ballI)
  fix p di assume "di \<in> set (dedupe_tree st p)"
  from dedupe_invD [OF assms this] obtain x where
    x: "x \<in> set (if it_id di \<in> set (dedupe_subtree st) then new else old)" "item_of (window_size st) di x" "it_id di < dd_fresh st" .
  show "it_id di < dd_fresh st" by (rule x)
  show "\<exists>x \<in> set (if it_id di \<in> set (dedupe_subtree st) then ed # new else old). item_of (window_size st) di x"
    using x(1,2) by (intro bexI [of _ x]) (auto split: if_splits)
qed (use assms in \<open>simp add: dedupe_inv_def\<close>)

lemma insert_inv:
  assumes inv: "dedupe_inv st old new" and len: "unat (e_length e) = length data"
  shows "dedupe_inv (z_erofs_dedupe_insert st addr e data) old ((e, data) # new)"
proof (cases "z_erofs_dedupe_insert st addr e data = st")
  case True
  then show ?thesis using dedupe_inv_more [OF inv] by simp
next
  case False
  let ?ws = "window_size st" and ?w = "take (window_size st) data"
  define di where "di = \<lparr>it_id = dd_fresh st, it_addr = addr, it_hash = erofs_rolling_hash_init ?w True, prefix_sha256 = sha256_of ?w,
      prefix_xxh64 = xxh64 ?w 0, compressed_blkaddr = e_blkaddr e, compressed_blks = e_compressedblks e,
      original_length = length data, it_partial = e_partial e, it_raw = e_raw e, extra_data = drop ?ws data\<rparr>"
  let ?p = "dedupe_bucket (it_hash di)"
  have ws: "\<not> (?ws = 0 \<or> length data < ?ws)"
  proof
    assume "?ws = 0 \<or> length data < ?ws"
    then have "z_erofs_dedupe_insert st addr e data = st" unfolding z_erofs_dedupe_insert_def Let_def len by simp
    then show False using False by simp
  qed
  have st': "z_erofs_dedupe_insert st addr e data = st\<lparr>dedupe_subtree := it_id di # dedupe_subtree st,
      dedupe_tree := (dedupe_tree st)(?p := dedupe_tree st ?p @ [di]), dd_fresh := Suc (dd_fresh st)\<rparr>"
  proof -
    let ?dup = "list_ex (\<lambda>k. prefix_xxh64 k = prefix_xxh64 di) (dedupe_tree st ?p)"
    have "take (length data - ?ws) (drop ?ws data) = drop ?ws data" by simp
    then have eq: "z_erofs_dedupe_insert st addr e data = (if ?dup then st else st\<lparr>dedupe_subtree := it_id di # dedupe_subtree st,
        dedupe_tree := (dedupe_tree st)(?p := dedupe_tree st ?p @ [di]), dd_fresh := Suc (dd_fresh st)\<rparr>)"
      unfolding z_erofs_dedupe_insert_def Let_def len di_def by (simp only: ws if_False)
    then show ?thesis using False by (simp split: if_splits)
  qed
  have it: "item_of ?ws di (e, data)" "it_id di = dd_fresh st" using ws len by (simp_all add: item_of_def di_def)
  show ?thesis
    unfolding dedupe_inv_def
  proof (intro conjI allI ballI)
    fix i assume "i \<in> set (dedupe_subtree (z_erofs_dedupe_insert st addr e data))"
    then show "i < dd_fresh (z_erofs_dedupe_insert st addr e data)"
      using inv it(2) unfolding st' dedupe_inv_def by (auto simp: less_Suc_eq)
  next
    fix p k assume k: "k \<in> set (dedupe_tree (z_erofs_dedupe_insert st addr e data) p)"
    have both: "it_id k < dd_fresh (z_erofs_dedupe_insert st addr e data) \<and>
        (\<exists>ed \<in> set (if it_id k \<in> set (dedupe_subtree (z_erofs_dedupe_insert st addr e data)) then (e, data) # new else old).
           item_of (window_size (z_erofs_dedupe_insert st addr e data)) k ed)"
    proof (cases "k \<in> set (dedupe_tree st p)")
      case True
      then have "it_id k < dd_fresh st" "\<exists>ed \<in> set (if it_id k \<in> set (dedupe_subtree st) then new else old). item_of ?ws k ed"
        using inv by (auto simp: dedupe_inv_def)
      then show ?thesis unfolding st' using it(2) by (auto split: if_splits)
    next
      case False
      then have "k = di" using k unfolding st' by (auto split: if_splits)
      then show ?thesis unfolding st' using it by simp
    qed
    then show "it_id k < dd_fresh (z_erofs_dedupe_insert st addr e data)" by (rule conjunct1)
    show "\<exists>ed \<in> set (if it_id k \<in> set (dedupe_subtree (z_erofs_dedupe_insert st addr e data)) then (e, data) # new else old).
           item_of (window_size (z_erofs_dedupe_insert st addr e data)) k ed"
      using both by (rule conjunct2)
  qed
qed

lemma dedupe_inv_item:
  assumes "dedupe_inv st old new" "di \<in> set (dedupe_tree st p)"
  obtains e data where "(e, data) \<in> set (new @ old)" "item_of (window_size st) di (e, data)"
proof -
  from dedupe_invD [OF assms] obtain ed where "ed \<in> set (if it_id di \<in> set (dedupe_subtree st) then new else old)" "item_of (window_size st) di ed" .
  then have "ed \<in> set (new @ old)" "item_of (window_size st) di ed" by (auto split: if_splits)
  moreover obtain e data where "ed = (e, data)" by (rule prod.exhaust)
  ultimately show ?thesis using that by blast
qed

lemma commit_inv:
  assumes inv: "dedupe_inv st old new"
  shows "dedupe_inv (z_erofs_dedupe_commit False st) (new @ old) []" and "dedupe_inv (z_erofs_dedupe_commit True st) old []"
proof -
  show "dedupe_inv (z_erofs_dedupe_commit False st) (new @ old) []"
    unfolding dedupe_inv_def
  proof (intro conjI allI ballI)
    fix p di assume "di \<in> set (dedupe_tree (z_erofs_dedupe_commit False st) p)"
    then have d: "di \<in> set (dedupe_tree st p)" by (simp add: z_erofs_dedupe_commit_def split: if_splits)
    have c: "dedupe_subtree (z_erofs_dedupe_commit False st) = []" "dd_fresh (z_erofs_dedupe_commit False st) = dd_fresh st"
        "window_size (z_erofs_dedupe_commit False st) = window_size st"
      by (simp_all add: z_erofs_dedupe_commit_def)
    show "it_id di < dd_fresh (z_erofs_dedupe_commit False st)" using dedupe_invD [OF inv d] c(2) by metis
    show "\<exists>ed \<in> set (if it_id di \<in> set (dedupe_subtree (z_erofs_dedupe_commit False st)) then [] else new @ old).
        item_of (window_size (z_erofs_dedupe_commit False st)) di ed"
    proof -
      obtain e data where "(e, data) \<in> set (new @ old)" "item_of (window_size st) di (e, data)" using dedupe_inv_item [OF inv d] .
      then show ?thesis unfolding c by (simp only: list.set empty_iff if_False) blast
    qed
  qed (simp add: z_erofs_dedupe_commit_def split: if_splits)
  show "dedupe_inv (z_erofs_dedupe_commit True st) old []"
    unfolding dedupe_inv_def
  proof (intro conjI allI ballI)
    have c: "dedupe_subtree (z_erofs_dedupe_commit True st) = []" "dd_fresh (z_erofs_dedupe_commit True st) = dd_fresh st"
        "window_size (z_erofs_dedupe_commit True st) = window_size st"
      by (simp_all add: z_erofs_dedupe_commit_def)
    fix p di assume "di \<in> set (dedupe_tree (z_erofs_dedupe_commit True st) p)"
    then have d: "di \<in> set (dedupe_tree st p)" "it_id di \<notin> set (dedupe_subtree st)"
      by (auto simp: z_erofs_dedupe_commit_def split: if_splits)
    show "it_id di < dd_fresh (z_erofs_dedupe_commit True st)" using dedupe_invD [OF inv d(1)] c(2) by metis
    show "\<exists>ed \<in> set (if it_id di \<in> set (dedupe_subtree (z_erofs_dedupe_commit True st)) then [] else old).
        item_of (window_size (z_erofs_dedupe_commit True st)) di ed"
    proof -
      obtain ed where "ed \<in> set (if it_id di \<in> set (dedupe_subtree st) then new else old)" "item_of (window_size st) di ed"
        using dedupe_invD [OF inv d(1)] .
      then show ?thesis using d(2) unfolding c by (simp only: list.set empty_iff if_False) blast
    qed
  qed (simp add: z_erofs_dedupe_commit_def split: if_splits)
qed

lemma reach_inv: "dedupe_reach st old new \<Longrightarrow> dedupe_inv st old new"
proof (induction rule: dedupe_reach.induct)
  case (init wsiz)
  then show ?case by (simp add: dedupe_inv_def z_erofs_dedupe_init_def)
qed (simp_all add: insert_inv commit_inv)

text \<open>The digests in use tell different data apart.\<close>

definition no_collision :: "nat \<Rightarrow> bytes \<Rightarrow> (z_erofs_inmem_extent \<times> bytes) list \<Rightarrow> bool" where
  "no_collision ws q eds \<longleftrightarrow>
     (\<forall>cur. \<forall>(e, data) \<in> set eds. sha256_of (take ws (drop cur q)) = sha256_of (take ws data) \<longrightarrow>
        ws \<le> length data \<longrightarrow> cur + ws \<le> length q \<longrightarrow> take ws (drop cur q) = take ws data)"

lemma no_collisionD:
  assumes "no_collision ws q eds" "(e, data) \<in> set eds"
    and "sha256_of (take ws (drop cur q)) = sha256_of (take ws data)" "ws \<le> length data" "cur + ws \<le> length q"
  shows "take ws (drop cur q) = take ws data"
  using assms unfolding no_collision_def by blast

definition match_ok ::
    "bytes \<Rightarrow> (z_erofs_inmem_extent \<times> bytes) list \<Rightarrow> z_erofs_dedupe_ctx \<Rightarrow> z_erofs_dedupe_ctx \<Rightarrow> bool" where
  "match_ok q eds ctx ctx' \<longleftrightarrow>
     (\<exists>(e, data) \<in> set eds. let len = unat (e_length (dc_e ctx')) in
        len \<le> length data \<and> take len (drop (dc_cur ctx') q) = take len data \<and>
        e_blkaddr (dc_e ctx') = e_blkaddr e \<and> e_compressedblks (dc_e ctx') = e_compressedblks e \<and>
        e_raw (dc_e ctx') = e_raw e \<and> (e_partial (dc_e ctx') \<longleftrightarrow> e_partial e \<or> len < length data) \<and>
        dc_start ctx \<le> dc_cur ctx' \<and> dc_cur ctx' \<le> dc_cur ctx \<and> dc_cur ctx < dc_cur ctx' + len \<and> dc_cur ctx' + len \<le> dc_end ctx)"

lemma extend_match:
  assumes w: "take ws (drop cur q) = take ws data" "cur + ws \<le> fin" "fin \<le> length q" "ws \<le> length data"
    and x: "x = erofs_memcmp2 a1 (drop (cur + ws) q) a2 (drop ws data) (min (fin - cur - ws) (length data - ws))"
  shows "take (ws + x) (drop cur q) = take (ws + x) data" and "ws + x \<le> length data" and "cur + (ws + x) \<le> fin"
proof -
  let ?m = "min (fin - cur - ws) (length data - ws)"
  have x': "x = lcp (take ?m (drop (cur + ws) q)) (take ?m (drop ws data))"
    unfolding x using w by (intro memcmp2_eq) auto
  have le: "x \<le> ?m" using lcp_le(1) [of "take ?m (drop (cur + ws) q)" "take ?m (drop ws data)"] x' by (simp add: min_def split: if_splits)
  then show "ws + x \<le> length data" "cur + (ws + x) \<le> fin" using w by auto
  have "take x (take ?m (drop (cur + ws) q)) = take x (take ?m (drop ws data))" unfolding x' by (rule lcp_take)
  then have "take x (drop (cur + ws) q) = take x (drop ws data)" using le by (simp add: min_absorb1)
  then show "take (ws + x) (drop cur q) = take (ws + x) data"
    using w(1) by (simp add: take_add add.commute)
qed

lemma match_loop_ok:
  assumes inv: "dedupe_inv st old new" and nc: "no_collision (window_size st) q (new @ old)" and q: "dc_end ctx \<le> length q"
    and big: "length q < 2 ^ 32"
    and run: "dedupe_match_loop st qa q ctx h k = Inr ctx'" and k: "int k \<le> int (dc_end ctx) - int (window_size st) - int (dc_start ctx) + 1"
       "int k \<le> int (dc_cur ctx) - int (dc_start ctx) + 1"
  shows "match_ok q (new @ old) ctx ctx'"
  using run k
proof (induction k arbitrary: h)
  case (Suc k)
  let ?cur = "dc_start ctx + k" and ?ws = "window_size st"
  let ?w = "take ?ws (drop ?cur q)"
  define hash where "hash = (case h of None \<Rightarrow> erofs_rolling_hash_init ?w True
      | Some h \<Rightarrow> erofs_rolling_hash_advance h (rollinghash_rm st) (q ! (?cur + ?ws)) (q ! ?cur))"
  have cw: "?cur + ?ws \<le> dc_end ctx" "?cur \<le> dc_cur ctx" using Suc.prems(2,3) by linarith+
  have ih: "dedupe_match_loop st qa q ctx (Some hash) k = Inr ctx' \<Longrightarrow> match_ok q (new @ old) ctx ctx'"
    using Suc.IH Suc.prems(2,3) by simp
  show ?case
  proof (cases "find_item st hash ?w")
    case None
    then show ?thesis using Suc.prems(1) ih by (simp add: Let_def hash_def [symmetric])
  next
    case (Some di)
    then have mem: "di \<in> set (dedupe_tree st (dedupe_bucket hash))" by (auto simp: find_item_def find_Some_iff)
    obtain e data where ed: "(e, data) \<in> set (new @ old)" "item_of ?ws di (e, data)" using dedupe_inv_item [OF inv mem] .
    then have it: "unat (e_length e) = length data" "?ws \<le> length data" "original_length di = length data"
        "prefix_sha256 di = sha256_of (take ?ws data)" "extra_data di = drop ?ws data" "compressed_blkaddr di = e_blkaddr e"
        "compressed_blks di = e_compressedblks e" "it_partial di = e_partial e" "it_raw di = e_raw e"
      by (simp_all add: item_of_def)
    show ?thesis
    proof (cases "sha256_of ?w \<noteq> prefix_sha256 di")
      case True
      then show ?thesis using Suc.prems(1) ih Some by (simp add: Let_def hash_def [symmetric])
    next
      case False
      then have w: "?w = take ?ws data"
        using no_collisionD [OF nc ed(1), of ?cur] it(2,4) cw(1) q by simp
      define x where "x = erofs_memcmp2 (qa + ?cur + ?ws) (drop (?cur + ?ws) q) (it_addr di) (drop ?ws data)
          (min (dc_end ctx - ?cur - ?ws) (length data - ?ws))"
      note em = extend_match [OF w cw(1) q it(2) x_def]
      note run = Suc.prems(1) [unfolded dedupe_match_loop.simps Let_def, folded hash_def, unfolded Some option.case it(3,5), folded x_def]
      show ?thesis
      proof (cases "?ws + x \<le> dc_cur ctx - ?cur")
        case True
        then show ?thesis using run ih False by simp
      next
        case far: False
        have ctx': "ctx' = ctx\<lparr>dc_cur := ?cur, dc_e := \<lparr>e_blkaddr = e_blkaddr e, e_compressedblks = e_compressedblks e,
              e_length = of_nat (?ws + x), e_raw = e_raw e, e_partial = (e_partial e \<or> ?ws + x < length data), e_inlined = False\<rparr>\<rparr>"
          using run False far by (simp add: it)
        have "?ws + x < 2 ^ 32" using em(3) q big by linarith
        then have len: "unat (e_length (dc_e ctx')) = ?ws + x" by (simp add: ctx' unat_of_nat del: of_nat_add)
        have "dc_cur ctx < ?cur + (?ws + x)" using far cw(2) by linarith
        then show ?thesis unfolding match_ok_def Let_def len using em ed(1) cw(2)
          by (intro bexI [of _ "(e, data)"]) (simp_all add: ctx')
      qed
    qed
  qed
qed simp

text \<open>
  C23. A match of \<^verbatim>\<open>z_erofs_dedupe_match\<close> refers to an extent of this or an earlier file, never to one that was revoked, and the bytes
  it covers are the first bytes of that extent; it covers the current position and stays inside the
  buffer.  The hypothesis is that SHA-256 tells the windows at hand from the windows remembered.
\<close>

theorem dedupe_match_sound:
  assumes "dedupe_reach st old new" and "no_collision (window_size st) q (new @ old)"
    and "dc_end ctx \<le> length q" and "length q < 2 ^ 32"
    and "z_erofs_dedupe_match st qa q ctx = Inr ctx'"
  shows "\<exists>(e, data) \<in> set (new @ old). let len = unat (e_length (dc_e ctx')) in
        len \<le> length data \<and> take len (drop (dc_cur ctx') q) = take len data \<and>
        e_blkaddr (dc_e ctx') = e_blkaddr e \<and> e_compressedblks (dc_e ctx') = e_compressedblks e \<and>
        e_raw (dc_e ctx') = e_raw e \<and> (e_partial (dc_e ctx') \<longleftrightarrow> e_partial e \<or> len < length data) \<and>
        dc_start ctx \<le> dc_cur ctx' \<and> dc_cur ctx' \<le> dc_cur ctx \<and> dc_cur ctx < dc_cur ctx' + len \<and> dc_cur ctx' + len \<le> dc_end ctx"
proof -
  define c where "c = (if int (dc_end ctx) - int (window_size st) < int (dc_cur ctx)
      then int (dc_end ctx) - int (window_size st) else int (dc_cur ctx))"
  have run: "dedupe_match_loop st qa q ctx None (nat (c - int (dc_start ctx) + 1)) = Inr ctx'"
    using assms(5) by (simp add: z_erofs_dedupe_match_def Let_def c_def split: if_splits)
  then have "0 < nat (c - int (dc_start ctx) + 1)" by (cases "nat (c - int (dc_start ctx) + 1)") auto
  then have k: "int (nat (c - int (dc_start ctx) + 1)) = c - int (dc_start ctx) + 1" by simp
  have "match_ok q (new @ old) ctx ctx'"
    by (rule match_loop_ok [OF reach_inv [OF assms(1)] assms(2,3,4) run]) (unfold k, simp_all add: c_def)
  then show ?thesis by (simp only: match_ok_def)
qed

section \<open>The rolling hash finds the same matches\<close>

text \<open>The loop with the hash of every window computed from scratch.\<close>

fun dedupe_match_ref :: "dedupe_state \<Rightarrow> nat \<Rightarrow> bytes \<Rightarrow> z_erofs_dedupe_ctx \<Rightarrow> nat \<Rightarrow> z_erofs_dedupe_ctx result" where
  "dedupe_match_ref st qa q ctx 0 = Err ENOENT"
| "dedupe_match_ref st qa q ctx (Suc k) =
     (let cur = dc_start ctx + k;
          ws = window_size st;
          w = take ws (drop cur q)
      in case find_item st (erofs_rolling_hash_init w True) w of
           None \<Rightarrow> dedupe_match_ref st qa q ctx k
         | Some e \<Rightarrow>
             if sha256_of w \<noteq> prefix_sha256 e then dedupe_match_ref st qa q ctx k
             else
               let extra = lcp (take (min (dc_end ctx - cur - ws) (original_length e - ws)) (drop (cur + ws) q))
                               (take (min (dc_end ctx - cur - ws) (original_length e - ws)) (extra_data e))
               in if ws + extra \<le> dc_cur ctx - cur then dedupe_match_ref st qa q ctx k
                  else Inr (ctx\<lparr>dc_cur := cur,
                             dc_e := \<lparr>e_blkaddr = compressed_blkaddr e, e_compressedblks = compressed_blks e,
                                     e_length = of_nat (ws + extra), e_raw = it_raw e,
                                     e_partial = (it_partial e \<or> ws + extra < original_length e), e_inlined = False\<rparr>\<rparr>))"

lemma window_roll:
  assumes "0 < ws" "cur + ws < length q"
  shows "erofs_rolling_hash_advance (erofs_rolling_hash_init (take ws (drop (Suc cur) q)) True) (erofs_rollinghash_calc_rm ws)
      (q ! (cur + ws)) (q ! cur) = erofs_rolling_hash_init (take ws (drop cur q)) True"
proof -
  obtain n where n: "ws = Suc n" using assms(1) by (cases ws) auto
  have a: "take ws (drop (Suc cur) q) = take n (drop (Suc cur) q) @ [q ! (cur + ws)]"
    using assms(2) by (simp add: n take_Suc_conv_app_nth)
  have b: "take ws (drop cur q) = q ! cur # take n (drop (Suc cur) q)"
    using assms(2) by (simp add: n Cons_nth_drop_Suc [symmetric])
  have "Suc (length (take n (drop (Suc cur) q))) = ws" using assms(2) n by simp
  then show ?thesis using rolling_hash_step [of "take n (drop (Suc cur) q)" "q ! (cur + ws)" "q ! cur"] unfolding a b by simp
qed

lemma match_loop_ref:
  assumes inv: "dedupe_inv st old new" and rm: "rollinghash_rm st = erofs_rollinghash_calc_rm (window_size st)"
    and q: "dc_end ctx \<le> length q" and ws: "0 < window_size st"
    and k: "int k \<le> int (dc_end ctx) - int (window_size st) - int (dc_start ctx) + 1"
    and h: "\<And>x. h = Some x \<Longrightarrow> dc_start ctx + k + window_size st \<le> length q \<and>
        x = erofs_rolling_hash_init (take (window_size st) (drop (dc_start ctx + k) q)) True"
  shows "dedupe_match_loop st qa q ctx h k = dedupe_match_ref st qa q ctx k"
  using k h
proof (induction k arbitrary: h)
  case (Suc k)
  let ?cur = "dc_start ctx + k" and ?ws = "window_size st"
  let ?w = "take ?ws (drop ?cur q)"
  have hash: "(case h of None \<Rightarrow> erofs_rolling_hash_init ?w True
      | Some h \<Rightarrow> erofs_rolling_hash_advance h (rollinghash_rm st) (q ! (?cur + ?ws)) (q ! ?cur)) = erofs_rolling_hash_init ?w True"
    using Suc.prems(2) ws window_roll [of ?ws ?cur q] by (cases h) (auto simp: rm)
  have ih: "dedupe_match_loop st qa q ctx (Some (erofs_rolling_hash_init ?w True)) k = dedupe_match_ref st qa q ctx k"
    using Suc.IH [of "Some (erofs_rolling_hash_init ?w True)"] Suc.prems(1) q by simp
  have cmp: "erofs_memcmp2 a1 (drop (?cur + ?ws) q) (it_addr e) (extra_data e) (min (dc_end ctx - ?cur - ?ws) (original_length e - ?ws)) =
      lcp (take (min (dc_end ctx - ?cur - ?ws) (original_length e - ?ws)) (drop (?cur + ?ws) q))
          (take (min (dc_end ctx - ?cur - ?ws) (original_length e - ?ws)) (extra_data e))"
    if e: "find_item st (erofs_rolling_hash_init ?w True) ?w = Some e" for a1 e
  proof -
    have "e \<in> set (dedupe_tree st (dedupe_bucket (erofs_rolling_hash_init ?w True)))" using e by (auto simp: find_item_def find_Some_iff)
    from dedupe_inv_item [OF inv this] obtain x data where "item_of ?ws e (x, data)" .
    then have "length (extra_data e) = original_length e - ?ws" by (simp add: item_of_def)
    then show ?thesis using q by (intro memcmp2_eq) auto
  qed
  show ?case
    unfolding dedupe_match_loop.simps dedupe_match_ref.simps Let_def hash ih
    by (cases "find_item st (erofs_rolling_hash_init ?w True) ?w") (simp_all only: option.case cmp)
qed simp

lemma reach_rm: "dedupe_reach st old new \<Longrightarrow> rollinghash_rm st = erofs_rollinghash_calc_rm (window_size st)"
proof (induction rule: dedupe_reach.induct)
  case (insert st old new e data addr)
  then show ?case by (simp add: z_erofs_dedupe_insert_def Let_def)
qed (simp_all add: z_erofs_dedupe_init_def z_erofs_dedupe_commit_def)

text \<open>
  C24. \<^verbatim>\<open>z_erofs_dedupe_match\<close> with its rolling hash and its word-wise comparison is the search that hashes every window
  from scratch and compares byte by byte, over the positions from the last one with a whole window
  (or the current one) down to the start.
\<close>

theorem dedupe_match_reference:
  assumes "dedupe_reach st old new" and "dc_end ctx \<le> length q" and "0 < window_size st"
  shows "z_erofs_dedupe_match st qa q ctx =
    dedupe_match_ref st qa q ctx (nat (min (int (dc_end ctx) - int (window_size st)) (int (dc_cur ctx)) - int (dc_start ctx) + 1))"
proof -
  let ?c = "min (int (dc_end ctx) - int (window_size st)) (int (dc_cur ctx))"
  have c: "(if int (dc_end ctx) - int (window_size st) < int (dc_cur ctx)
      then int (dc_end ctx) - int (window_size st) else int (dc_cur ctx)) = ?c" by simp
  have m: "z_erofs_dedupe_match st qa q ctx = dedupe_match_loop st qa q ctx None (nat (?c - int (dc_start ctx) + 1))"
    using assms(3) unfolding z_erofs_dedupe_match_def Let_def c by simp
  show ?thesis
  proof (cases "0 \<le> ?c - int (dc_start ctx) + 1")
    case True
    then show ?thesis unfolding m
      by (intro match_loop_ref [OF reach_inv [OF assms(1)] reach_rm [OF assms(1)] assms(2,3)]) simp_all
  next
    case False
    then have "nat (?c - int (dc_start ctx) + 1) = 0" by simp
    then show ?thesis unfolding m by (simp only: dedupe_match_loop.simps dedupe_match_ref.simps)
  qed
qed

section \<open>An example\<close>

text \<open>A window of two bytes; the second file repeats three of the four bytes of the first.\<close>

definition two_extent :: z_erofs_inmem_extent where
  "two_extent = \<lparr>e_blkaddr = 9, e_compressedblks = 1, e_length = 4, e_raw = False, e_partial = False, e_inlined = False\<rparr>"

definition two_st :: dedupe_state where
  "two_st = z_erofs_dedupe_commit False (z_erofs_dedupe_insert (z_erofs_dedupe_init 2) 0 two_extent [5, 5, 5, 5])"

definition two_ctx :: z_erofs_dedupe_ctx where
  "two_ctx = \<lparr>dc_start = 0, dc_end = 3, dc_cur = 0, dc_e = two_extent\<rparr>"

lemma two_hash: "erofs_rolling_hash_init [5, 5] True = 1285"
  by (simp add: erofs_rolling_hash_init_def hash_step_def c_rem_def)

lemma two_st_sel: "window_size two_st = 2"
  "dedupe_tree two_st p = (if p = 1285
     then [\<lparr>it_id = 0, it_addr = 0, it_hash = 1285, prefix_sha256 = sha256_of [5, 5], prefix_xxh64 = xxh64 [5, 5] 0,
            compressed_blkaddr = 9, compressed_blks = 1, original_length = 4, it_partial = False, it_raw = False, extra_data = [5, 5]\<rparr>]
     else [])"
  by (simp_all add: two_st_def z_erofs_dedupe_init_def z_erofs_dedupe_insert_def z_erofs_dedupe_commit_def two_extent_def Let_def
      two_hash dedupe_bucket_def)

lemma two_match: "z_erofs_dedupe_match two_st 0 [5, 5, 5] two_ctx = Inr (two_ctx\<lparr>dc_e := two_extent\<lparr>e_length := 3, e_partial := True\<rparr>\<rparr>)"
proof -
  have m: "erofs_memcmp2 (Suc (Suc 0)) [5] 0 [5, 5] (Suc 0) = Suc 0" by (simp add: erofs_memcmp2_def)
  have "nat (int 0 - int 0 + 1) = Suc 0" by simp
  then show ?thesis
    by (simp add: z_erofs_dedupe_match_def two_ctx_def two_st_sel find_item_def two_hash dedupe_bucket_def Let_def m two_extent_def)
qed

theorem dedupe_match_sound_witness:
  "take 3 (drop (dc_cur two_ctx) [5, 5, 5]) = take 3 [5, 5, 5, 5 :: u8] \<and> unat (e_length (two_extent\<lparr>e_length := 3, e_partial := True\<rparr>)) = 3"
proof -
  have "dedupe_reach (z_erofs_dedupe_insert (z_erofs_dedupe_init 2) 0 two_extent [5, 5, 5, 5]) [] [(two_extent, [5, 5, 5, 5])]"
    by (rule dedupe_reach.insert [OF dedupe_reach.init]) (simp add: two_extent_def)
  from dedupe_reach.keep [OF this] have r: "dedupe_reach two_st [(two_extent, [5, 5, 5, 5])] []" by (simp add: two_st_def)
  have c: "no_collision (window_size two_st) [5, 5, 5] ([] @ [(two_extent, [5, 5, 5, 5])])"
    by (auto simp: no_collision_def two_st_sel le_Suc_eq numeral_3_eq_3 numeral_2_eq_2)
  show ?thesis
    using dedupe_match_sound [OF r c _ _ two_match] by (simp add: two_ctx_def two_extent_def)
qed

theorem dedupe_match_reference_witness:
  "z_erofs_dedupe_match two_st 0 [5, 5, 5] two_ctx = dedupe_match_ref two_st 0 [5, 5, 5] two_ctx 1"
proof -
  have "dedupe_reach (z_erofs_dedupe_insert (z_erofs_dedupe_init 2) 0 two_extent [5, 5, 5, 5]) [] [(two_extent, [5, 5, 5, 5])]"
    by (rule dedupe_reach.insert [OF dedupe_reach.init]) (simp add: two_extent_def)
  from dedupe_reach.keep [OF this] have r: "dedupe_reach two_st [(two_extent, [5, 5, 5, 5])] []" by (simp add: two_st_def)
  show ?thesis using dedupe_match_reference [OF r, of two_ctx "[5, 5, 5]" 0] by (simp add: two_ctx_def two_st_sel)
qed

end
