(* ===== verification/Zindex.thy ===== *)
theory Zindex
  imports Zmap Erofs_Dedupe
begin

text \<open>
  The extent indexes of compressed files as \<^verbatim>\<open>lib/compress.c\<close> writes them: one full index per logical cluster,
  the conversion to compact indexes, and the map header.  The theorems take the full indexes of a list of
  extents through the reader of \<^verbatim>\<open>lib/zmap.c\<close> and get the extents back.

  The operations keep the widths of the source; in the lemmas, lengths and positions inside a file are natural numbers.
\<close>

section \<open>Full indexes\<close>

definition head_type :: "z_erofs_inmem_extent \<Rightarrow> lcluster_type" where
  "head_type e = (if e_raw e then Z_EROFS_LCLUSTER_TYPE_PLAIN else Z_EROFS_LCLUSTER_TYPE_HEAD1)"

text \<open>\<^verbatim>\<open>di.di_u.blkaddr\<close> of the first index of an extent; an extent without blocks is a fragment.\<close>

definition head_blkaddr :: "erofs_inode \<Rightarrow> z_erofs_inmem_extent \<Rightarrow> u32" where
  "head_blkaddr vi e =
     (if datalayout vi = EROFS_INODE_COMPRESSED_FULL \<and> e_compressedblks e = 0 then ucast (drop_bit 32 (fragmentoff vi))
      else e_blkaddr e)"

text \<open>The index of the \<^verbatim>\<open>d0\<close>-th cluster of an extent that reaches into \<^verbatim>\<open>d1\<close> more.\<close>

definition extent_index ::
    "erofs_sb_info \<Rightarrow> erofs_inode \<Rightarrow> z_erofs_inmem_extent \<Rightarrow> u16 \<Rightarrow> nat \<Rightarrow> nat \<Rightarrow> z_erofs_lcluster_index" where
  "extent_index sbi vi e cofs d0 d1 =
     (if d0 = 1 \<and> erofs_sb_has_big_pcluster sbi
      then \<lparr>di_advise = of_nat (lcluster_type_code Z_EROFS_LCLUSTER_TYPE_NONHEAD), di_clusterofs = cofs,
            di_u = di_u_of_delta (ucast (e_compressedblks e) OR of_nat Z_EROFS_LI_D0_CBLKCNT) (of_nat d1)\<rparr>
      else if d0 \<noteq> 0
      then \<lparr>di_advise = of_nat (lcluster_type_code Z_EROFS_LCLUSTER_TYPE_NONHEAD), di_clusterofs = cofs,
            di_u = di_u_of_delta (if Z_EROFS_LI_D0_CBLKCNT \<le> d0 then of_nat (Z_EROFS_LI_D0_CBLKCNT - 1) else of_nat d0) (of_nat d1)\<rparr>
      else \<lparr>di_advise = (if e_partial e then Z_EROFS_LI_PARTIAL_REF else 0) OR of_nat (lcluster_type_code (head_type e)),
            di_clusterofs = cofs, di_u = head_blkaddr vi e\<rparr>)"

text \<open>
  The loop over the clusters of an extent.  \<^verbatim>\<open>count\<close>, \<^verbatim>\<open>clusterofs\<close> and the two distances are \<^verbatim>\<open>unsigned int\<close> and wrap
  as in the source.
\<close>

function extent_loop ::
    "erofs_sb_info \<Rightarrow> erofs_inode \<Rightarrow> z_erofs_inmem_extent \<Rightarrow> u16 \<Rightarrow> u32 \<Rightarrow> u32 \<Rightarrow> u32 \<Rightarrow> u32 \<Rightarrow> z_erofs_lcluster_index list \<times> u16" where
  "extent_loop sbi vi e cofs d0 d1 clusterofs count =
     (let di = extent_index sbi vi e cofs (unat d0) (unat d1);
          count = count - (erofs_blksiz sbi - clusterofs)
      in if erofs_blksiz sbi \<le> count \<and> 0 < erofs_blksiz sbi
         then (case extent_loop sbi vi e cofs (d0 + 1) (d1 - 1) 0 count of (ds, c) \<Rightarrow> (di # ds, c))
         else ([di], ucast count))"
  by pat_completeness auto
termination
proof (relation "measures [\<lambda>(sbi, vi, e, cofs, d0, d1, clusterofs, count). if clusterofs = 0 \<and> erofs_blksiz sbi \<le> count then 0 else 1 :: nat,
    \<lambda>(sbi, vi, e, cofs, d0, d1, clusterofs, count). unat count]", goal_cases)
  case 1
  then show ?case by simp
next
  case (2 sbi vi e cofs d0 d1 clusterofs count di count')
  then show ?case by (auto simp: word_less_nat_alt word_le_nat_alt unat_sub)
qed

declare extent_loop.simps [simp del]

definition z_erofs_write_extent ::
    "erofs_sb_info \<Rightarrow> erofs_inode \<Rightarrow> u16 \<Rightarrow> z_erofs_inmem_extent \<Rightarrow> z_erofs_lcluster_index list \<times> u16" where
  "z_erofs_write_extent sbi vi cofs e =
     (let clusterofs = ucast cofs :: u32; count = e_length e; d1 = (clusterofs + count) div erofs_blksiz sbi in
      if d1 = 0
      then ([\<lparr>di_advise = of_nat (lcluster_type_code (head_type e)), di_clusterofs = cofs, di_u = head_blkaddr vi e\<rparr>], 0)
      else extent_loop sbi vi e cofs 0 d1 clusterofs count)"

definition z_erofs_write_indexes_final :: "u16 \<Rightarrow> z_erofs_lcluster_index list" where
  "z_erofs_write_indexes_final cofs =
     (if cofs = 0 then []
      else [\<lparr>di_advise = of_nat (lcluster_type_code Z_EROFS_LCLUSTER_TYPE_PLAIN), di_clusterofs = cofs, di_u = 0\<rparr>])"

fun write_indexes_loop ::
    "erofs_sb_info \<Rightarrow> erofs_inode \<Rightarrow> u16 \<Rightarrow> z_erofs_inmem_extent list \<Rightarrow> z_erofs_lcluster_index list" where
  "write_indexes_loop sbi vi cofs [] = z_erofs_write_indexes_final cofs"
| "write_indexes_loop sbi vi cofs (e # es) =
     (case z_erofs_write_extent sbi vi cofs e of (ds, c) \<Rightarrow> ds @ write_indexes_loop sbi vi c es)"

definition z_erofs_write_indexes :: "erofs_sb_info \<Rightarrow> erofs_inode \<Rightarrow> z_erofs_inmem_extent list \<Rightarrow> z_erofs_lcluster_index list" where
  "z_erofs_write_indexes sbi vi es = write_indexes_loop sbi vi 0 es"

section \<open>Compact indexes\<close>

record z_erofs_compressindex_vec =
  cv_u :: u32
  cv_clusterofs :: u16
  cv_clustertype :: lcluster_type

definition cv_delta0 :: "z_erofs_compressindex_vec \<Rightarrow> u16" where "cv_delta0 cv = ucast (cv_u cv)"
definition cv_delta1 :: "z_erofs_compressindex_vec \<Rightarrow> u16" where "cv_delta1 cv = ucast (drop_bit 16 (cv_u cv))"

text \<open>Both members of the union are read as they are stored, so it is copied as one number.\<close>

definition parse_legacy_index :: "z_erofs_lcluster_index \<Rightarrow> z_erofs_compressindex_vec" where
  "parse_legacy_index di =
     \<lparr>cv_u = di_u di, cv_clusterofs = di_clusterofs di,
      cv_clustertype = lcluster_type_of (unat (drop_bit Z_EROFS_LI_LCLUSTER_TYPE_BIT (di_advise di) AND 3))\<rparr>"

record pack_state =
  pk_out :: bytes
  pk_blkaddr :: u32
  pk_ret :: u32
  pk_dummy :: bool
  pk_update :: bool

text \<open>The value stored for an entry, and what it does to the block counters.\<close>

definition pack_value :: "nat \<Rightarrow> nat \<Rightarrow> nat \<Rightarrow> z_erofs_compressindex_vec \<Rightarrow> pack_state \<Rightarrow> u32 \<times> pack_state" where
  "pack_value vcnt lobits i cv st =
     (if cv_clustertype cv = Z_EROFS_LCLUSTER_TYPE_NONHEAD
      then if cv_delta0 cv AND 0x800 \<noteq> 0
           then (ucast (cv_delta0 cv), st\<lparr>pk_blkaddr := pk_blkaddr st + ucast (cv_delta0 cv AND NOT 0x800), pk_dummy := False\<rparr>)
           else if i + 1 = vcnt then (ucast (min (cv_delta1 cv) (ucast (push_bit lobits 1 - 1 :: u32))), st)
           else (ucast (cv_delta0 cv), st)
      else
        let st = (if pk_dummy st
                  then let b = pk_blkaddr st + 1 in
                       st\<lparr>pk_blkaddr := b, pk_ret := (if pk_update st then b else pk_ret st)\<rparr>
                  else st)
        in (ucast (cv_clusterofs cv), st\<lparr>pk_dummy := True, pk_update := False\<rparr>))"

definition pack_put :: "nat \<Rightarrow> u32 \<Rightarrow> bytes \<Rightarrow> bytes" where
  "pack_put pos v out =
     (let rem = pos mod 8;
          ch = (out ! (pos div 8)) AND (push_bit rem 1 - 1)
      in out[pos div 8 := ucast (push_bit rem v) OR ch, pos div 8 + 1 := ucast (drop_bit (8 - rem) v),
             pos div 8 + 2 := ucast (drop_bit (16 - rem) v)])"

fun pack_loop :: "nat \<Rightarrow> nat \<Rightarrow> nat \<Rightarrow> nat \<Rightarrow> z_erofs_compressindex_vec list \<Rightarrow> pack_state \<Rightarrow> pack_state" where
  "pack_loop vcnt lobits encodebits i [] st = st"
| "pack_loop vcnt lobits encodebits i (cv # cvs) st =
     (case pack_value vcnt lobits i cv st of
        (offset, st) \<Rightarrow>
          let v = push_bit lobits (of_nat (lcluster_type_code (cv_clustertype cv))) OR offset in
          pack_loop vcnt lobits encodebits (Suc i) cvs (st\<lparr>pk_out := pack_put (encodebits * i) v (pk_out st)\<rparr>))"

text \<open>
  One pack of entries.  Every byte of the pack is written before it is read, so what the buffer held
  before does not matter.  The result is the pack, the next block address and \<^verbatim>\<open>dummy_head\<close>.
\<close>

definition write_compacted_indexes ::
    "z_erofs_compressindex_vec list \<Rightarrow> u32 \<Rightarrow> nat \<Rightarrow> nat \<Rightarrow> bool \<Rightarrow> bool \<Rightarrow> (bytes \<times> u32 \<times> bool) result" where
  "write_compacted_indexes cvs blkaddr destsize lclusterbits dummy_head update_blkaddr =
     (let vcnt = (if destsize = 4 then 2 else if destsize = 2 \<and> lclusterbits \<le> 12 then 16 else 0) in
      if vcnt = 0 then Err EINVAL
      else
        let lobits = max lclusterbits 12;
            encodebits = (vcnt * destsize * 8 - 32) div vcnt;
            st = pack_loop vcnt lobits encodebits 0 cvs
                   \<lparr>pk_out = replicate (destsize * vcnt) 0, pk_blkaddr = blkaddr, pk_ret = blkaddr,
                    pk_dummy = dummy_head, pk_update = update_blkaddr\<rparr>
        in Inr (take (destsize * vcnt - 4) (pk_out st) @ cpu_to_le32 (pk_ret st), pk_blkaddr st, pk_dummy st))"

text \<open>\<^verbatim>\<open>n\<close> packs of \<^verbatim>\<open>vcnt\<close> entries each.\<close>

fun write_packs ::
    "nat \<Rightarrow> nat \<Rightarrow> nat \<Rightarrow> nat \<Rightarrow> bool \<Rightarrow> z_erofs_compressindex_vec list \<Rightarrow> u32 \<Rightarrow> bool \<Rightarrow>
     (bytes \<times> z_erofs_compressindex_vec list \<times> u32 \<times> bool) result" where
  "write_packs 0 vcnt destsize lcb big cvs blkaddr dummy = Inr ([], cvs, blkaddr, dummy)"
| "write_packs (Suc n) vcnt destsize lcb big cvs blkaddr dummy =
     bindR (write_compacted_indexes (take vcnt cvs) blkaddr destsize lcb dummy big) (\<lambda>(out, blkaddr, dummy).
       bindR (write_packs n vcnt destsize lcb big (drop vcnt cvs) blkaddr dummy) (\<lambda>(outs, r). Inr (out @ outs, r)))"

definition compacted_split :: "erofs_inode \<Rightarrow> nat \<Rightarrow> nat \<times> nat \<times> nat" where
  "compacted_split vi totalidx =
     (if has_advise vi Z_EROFS_ADVISE_COMPACTED_2B
      then let mpos = unat (roundup (ucast (inode_isize vi) + xattr_isize vi) 8 + 8);
               initial = (32 - mpos mod 32) div 4;
               initial = (if initial = 8 then 0 else initial)
           in if totalidx < initial then (0, 0, totalidx)
              else let c2b = (totalidx - initial) div 16 * 16 in (initial, c2b, totalidx - initial - c2b)
      else (0, 0, totalidx))"

text \<open>\<^verbatim>\<open>memset\<close> clears the second entry of a last pack that is only half used.\<close>

definition empty_cv :: z_erofs_compressindex_vec where
  "empty_cv = \<lparr>cv_u = 0, cv_clusterofs = 0, cv_clustertype = Z_EROFS_LCLUSTER_TYPE_PLAIN\<rparr>"

definition z_erofs_convert_to_compacted_format ::
    "erofs_sb_info \<Rightarrow> erofs_inode \<Rightarrow> u32 \<Rightarrow> z_erofs_lcluster_index list \<Rightarrow> bytes result" where
  "z_erofs_convert_to_compacted_format sbi vi blkaddr idx =
     (let lcb = lcbits vi; big = erofs_sb_has_big_pcluster sbi; totalidx = length idx in
      if lcb < blkbits sbi then Err EINVAL
      else if 14 < lcb then Err EOPNOTSUPP
      else if has_advise vi Z_EROFS_ADVISE_COMPACTED_2B \<and> 12 < lcb then Err EINVAL
      else
        let (c4i, c2b, c4e) = compacted_split vi totalidx;
            blkaddr = (if big then blkaddr else blkaddr - 1);
            cvs = map parse_legacy_index idx
        in bindR (write_packs (c4i div 2) 2 4 lcb big cvs blkaddr (\<not> big)) (\<lambda>(o1, cvs, blkaddr, dummy).
             bindR (write_packs (c2b div 16) 16 2 lcb big cvs blkaddr dummy) (\<lambda>(o2, cvs, blkaddr, dummy).
               bindR (write_packs (c4e div 2) 2 4 lcb big cvs blkaddr dummy) (\<lambda>(o3, cvs, blkaddr, dummy).
                 if odd c4e
                 then bindR (write_compacted_indexes (take 1 cvs @ [empty_cv]) blkaddr 4 lcb dummy big)
                        (\<lambda>(o4, _). Inr (o1 @ o2 @ o3 @ o4))
                 else Inr (o1 @ o2 @ o3)))))"

section \<open>The map header\<close>

definition z_erofs_write_mapheader :: "erofs_sb_info \<Rightarrow> erofs_inode \<Rightarrow> bytes" where
  "z_erofs_write_mapheader sbi vi =
     (let h = \<lparr>h_fragmentoff = (if has_advise vi Z_EROFS_ADVISE_FRAGMENT_PCLUSTER then ucast (fragmentoff vi)
                                else push_bit 16 (ucast (idata_size vi))),
               h_advise = z_advise vi,
               h_algorithmtype = push_bit 4 (z_algorithmtype1 vi) OR z_algorithmtype0 vi,
               h_clusterbits = z_logical_clusterbits vi - blkszbits sbi\<rparr>
      in enc_map_header h @ replicate 8 0)"

section \<open>The shape of the table\<close>

text \<open>Block and cluster size as a number.\<close>

abbreviation bsize :: "erofs_sb_info \<Rightarrow> nat" where
  "bsize sbi \<equiv> 2 ^ blkbits sbi"

abbreviation e_len :: "z_erofs_inmem_extent \<Rightarrow> nat" where
  "e_len e \<equiv> unat (e_length e)"

lemma of_nat_less_iff:
  "m < 2 ^ LENGTH('a) \<Longrightarrow> n < 2 ^ LENGTH('a) \<Longrightarrow> ((of_nat m :: 'a::len word) \<le> of_nat n) = (m \<le> n)"
  by (simp add: word_le_nat_alt unat_of_nat)

lemma blksiz_of_nat: "blkbits sbi < 32 \<Longrightarrow> erofs_blksiz sbi = of_nat (bsize sbi)"
  by (simp add: erofs_blksiz_def push_bit_eq_mult)

lemma bsize_32: "blkbits sbi \<le> 16 \<Longrightarrow> bsize sbi \<le> 2 ^ 16"
  by (rule power_increasing) simp_all

lemma unat_of_nat_small: "n < 2 ^ LENGTH('a) \<Longrightarrow> unat (of_nat n :: 'a::len word) = n"
  by (simp only: unat_of_nat mod_less)

lemma unat_bsize: "blkbits sbi \<le> 16 \<Longrightarrow> unat (of_nat (bsize sbi) :: u32) = bsize sbi"
  using bsize_32 [of sbi] by (intro unat_of_nat_small) simp

text \<open>The loop on an extent that reaches over the end of its first cluster and does not wrap.\<close>

lemma extent_loop_shape:
  assumes "blkbits sbi \<le> 16" and "c < bsize sbi" and "bsize sbi \<le> c + n" and "c + n < 2 ^ 32"
    and "d0 + (c + n) div bsize sbi < 2 ^ 32"
  shows "extent_loop sbi vi e cofs (of_nat d0) (of_nat ((c + n) div bsize sbi)) (of_nat c) (of_nat n) =
     (map (\<lambda>k. extent_index sbi vi e cofs (d0 + k) ((c + n) div bsize sbi - k)) [0..<(c + n) div bsize sbi],
      of_nat ((c + n) mod bsize sbi))"
  using assms
proof (induction n arbitrary: c d0 rule: less_induct)
  case (less n)
  let ?B = "bsize sbi"
  define m where "m = n - (?B - c)"
  have sum: "c + n = m + ?B" using less.prems by (simp add: m_def)
  then have q: "(c + n) div ?B = Suc (m div ?B)" and r: "(c + n) mod ?B = m mod ?B" by (simp_all add: div_add_self2)
  have B16: "?B \<le> 2 ^ 16" by (rule bsize_32 [OF less.prems(1)])
  have B: "erofs_blksiz sbi = of_nat ?B" using less.prems by (simp add: blksiz_of_nat)
  have cnt: "(of_nat n :: u32) - (of_nat ?B - of_nat c) = of_nat m"
  proof -
    have "(of_nat ?B - of_nat c :: u32) = of_nat (?B - c)" using less.prems(2) by (simp only: of_nat_diff less_imp_le)
    moreover have "?B - c \<le> n" using less.prems(3) by linarith
    ultimately show ?thesis unfolding m_def by (simp only: of_nat_diff)
  qed
  have cmp: "((of_nat ?B :: u32) \<le> of_nat m) = (?B \<le> m)"
    using B16 less.prems(4) sum by (intro of_nat_less_iff) simp_all
  have B0: "(0 :: u32) < of_nat ?B" unfolding word_less_nat_alt unat_bsize [OF less.prems(1)] by simp
  have un: "unat (of_nat d0 :: u32) = d0" "unat (of_nat ((c + n) div ?B) :: u32) = (c + n) div ?B"
    using less.prems(5) by (simp_all add: unat_of_nat)
  have u: "[0..<Suc (m div ?B)] = 0 # map Suc [0..<m div ?B]" by (simp add: map_Suc_upt upt_conv_Cons del: upt_Suc)
  show ?case
  proof (cases "?B \<le> m")
    case True
    have "m < n" using less.prems by (simp add: m_def)
    then have ih: "extent_loop sbi vi e cofs (of_nat (Suc d0)) (of_nat (m div ?B)) 0 (of_nat m) =
        (map (\<lambda>k. extent_index sbi vi e cofs (Suc d0 + k) (m div ?B - k)) [0..<m div ?B], of_nat (m mod ?B))"
      using less.IH [of m 0 "Suc d0"] less.prems True sum q by simp
    have d: "(of_nat d0 :: u32) + 1 = of_nat (Suc d0)" "(of_nat (Suc (m div ?B)) :: u32) - 1 = of_nat (m div ?B)" by simp_all
    show ?thesis
      unfolding q r u
      by (subst extent_loop.simps)
        (simp only: B Let_def cnt cmp True B0 simp_thms if_True d ih un [unfolded q] prod.case list.map map_map o_def add_0_right diff_zero
           add_Suc_right add_Suc diff_Suc_Suc)
  next
    case False
    then have "m div ?B = 0" "m mod ?B = m" by simp_all
    moreover have "ucast (of_nat m :: u32) = (of_nat m :: u16)"
      using False B16 by (simp add: word_unat_eq_iff unat_of_nat unat_ucast_small)
    ultimately show ?thesis
      unfolding q r using un [unfolded q]
      by (subst extent_loop.simps) (simp only: B Let_def cnt cmp False simp_thms if_False, simp)
  qed
qed

text \<open>An extent whose end is a 32-bit number even from the last byte of a cluster on.\<close>

definition no_wrap :: "erofs_sb_info \<Rightarrow> z_erofs_inmem_extent \<Rightarrow> bool" where
  "no_wrap sbi e \<longleftrightarrow> bsize sbi + e_len e \<le> 2 ^ 32"

lemma write_extent_shape:
  assumes "blkbits sbi \<le> 16" and "c < bsize sbi" and "no_wrap sbi e"
  shows "z_erofs_write_extent sbi vi (of_nat c) e =
     (let f = (c + e_len e) div bsize sbi in
      if f = 0
      then ([\<lparr>di_advise = of_nat (lcluster_type_code (head_type e)), di_clusterofs = of_nat c, di_u = head_blkaddr vi e\<rparr>], 0)
      else (map (\<lambda>k. extent_index sbi vi e (of_nat c) k (f - k)) [0..<f], of_nat ((c + e_len e) mod bsize sbi)))"
proof -
  let ?f = "(c + e_len e) div bsize sbi"
  have l: "c + e_len e < 2 ^ 32" using assms(2,3) by (simp add: no_wrap_def)
  have fl: "?f < 2 ^ 32" using l div_le_dividend [of "c + e_len e" "bsize sbi"] by linarith
  have c: "(ucast (of_nat c :: u16) :: u32) = of_nat c"
    using assms(2) bsize_32 [OF assms(1)] by (simp add: word_unat_eq_iff unat_ucast_up unat_of_nat)
  have "(of_nat c + e_length e :: u32) = of_nat (c + e_len e)" by simp
  moreover have "(of_nat (c + e_len e) :: u32) div of_nat (bsize sbi) = of_nat ?f"
  proof -
    have "unat (of_nat (c + e_len e) :: u32) = c + e_len e" "unat (of_nat ?f :: u32) = ?f"
      using l fl by (intro unat_of_nat_small; simp)+
    then show ?thesis by (simp only: word_unat_eq_iff unat_div_distrib unat_bsize [OF assms(1)])
  qed
  ultimately have d1: "(of_nat c + e_length e) div erofs_blksiz sbi = of_nat ?f"
    using assms(1) by (simp add: blksiz_of_nat)
  have z: "(of_nat ?f :: u32) = 0 \<longleftrightarrow> ?f = 0" using fl by (simp add: word_unat_eq_iff unat_of_nat)
  have "extent_loop sbi vi e (of_nat c) 0 (of_nat ?f) (of_nat c) (e_length e) =
      (map (\<lambda>k. extent_index sbi vi e (of_nat c) k (?f - k)) [0..<?f], of_nat ((c + e_len e) mod bsize sbi))" if "?f \<noteq> 0"
    using extent_loop_shape [OF assms(1,2), of "e_len e" 0 vi e "of_nat c"] that l fl by (simp add: div_eq_0_iff not_less)
  then show ?thesis by (simp add: z_erofs_write_extent_def Let_def d1 z c)
qed

text \<open>The type of an index.\<close>

definition di_type :: "z_erofs_lcluster_index \<Rightarrow> lcluster_type" where
  "di_type di = lcluster_type_of (unat (drop_bit Z_EROFS_LI_LCLUSTER_TYPE_BIT (di_advise di) AND 3))"

definition head_index :: "z_erofs_lcluster_index \<Rightarrow> lcluster_type \<Rightarrow> nat \<Rightarrow> u32 \<Rightarrow> bool" where
  "head_index di ty c blk \<longleftrightarrow> di_type di = ty \<and> di_clusterofs di = of_nat c \<and> di_u di = blk"

lemma head_index_plain:
  "head_index \<lparr>di_advise = of_nat (lcluster_type_code ty), di_clusterofs = of_nat c, di_u = b\<rparr> ty c b"
  by (cases ty) (simp_all add: head_index_def di_type_def lcluster_type_of_def)

lemma head_index_extent: "head_index (extent_index sbi vi e (of_nat c) 0 d1) (head_type e) c (head_blkaddr vi e)"
  by (simp add: head_index_def di_type_def extent_index_def head_type_def lcluster_type_of_def)

text \<open>
  The indexes of the extent \<^verbatim>\<open>e\<close> that starts at \<^verbatim>\<open>s\<close>: its head is where it starts, the clusters it covers completely behind
  that one are not heads, and where it ends the next head begins, if the file does not end there.
\<close>

definition extent_indexed ::
    "erofs_sb_info \<Rightarrow> erofs_inode \<Rightarrow> z_erofs_lcluster_index list \<Rightarrow> nat \<Rightarrow> z_erofs_inmem_extent \<Rightarrow> bool" where
  "extent_indexed sbi vi t s e \<longleftrightarrow>
     (let B = bsize sbi; h = s div B; f = (s + e_len e) div B in
      h < length t \<and> head_index (t ! h) (head_type e) (s mod B) (head_blkaddr vi e) \<and>
      (\<forall>l. h < l \<longrightarrow> l < f \<longrightarrow> l < length t \<and> t ! l = extent_index sbi vi e (of_nat (s mod B)) (l - h) (f - l)) \<and>
      (if f = h then length t = Suc h
       else if length t \<le> f then length t = f \<and> (s + e_len e) mod B = 0
       else \<exists>ty b. is_head ty \<and> head_index (t ! f) ty ((s + e_len e) mod B) b))"

text \<open>Positions of the extents of a file.\<close>

fun placed :: "nat \<Rightarrow> z_erofs_inmem_extent list \<Rightarrow> (nat \<times> z_erofs_inmem_extent) list" where
  "placed s [] = []"
| "placed s (e # es) = (s, e) # placed (s + e_len e) es"

text \<open>No extent is empty, and only the last one may end in the cluster in which it begins.\<close>

fun chained :: "nat \<Rightarrow> nat \<Rightarrow> z_erofs_inmem_extent list \<Rightarrow> bool" where
  "chained B s [] = True"
| "chained B s (e # es) =
     (0 < e_len e \<and> (es \<noteq> [] \<longrightarrow> s div B < (s + e_len e) div B) \<and> chained B (s + e_len e) es)"

definition file_len :: "z_erofs_inmem_extent list \<Rightarrow> nat" where
  "file_len es = sum_list (map e_len es)"

lemma file_len_simps [simp]: "file_len [] = 0" "file_len (e # es) = e_len e + file_len es"
  by (simp_all add: file_len_def)

lemma div_shift: "0 < B \<Longrightarrow> s div B + (s mod B + n) div B = (s + n) div (B::nat)"
  using div_mult_self3 [of B "s div B" "s mod B + n"] by (simp flip: add.assoc)

lemma of_nat_offset_0: "blkbits sbi \<le> 16 \<Longrightarrow> c < bsize sbi \<Longrightarrow> (of_nat c :: u16) = 0 \<longleftrightarrow> c = 0"
  using bsize_32 [of sbi] by (simp add: word_unat_eq_iff unat_of_nat_small)

lemma write_indexes_loop_head:
  assumes "blkbits sbi \<le> 16" and "c < bsize sbi" and "0 < length (write_indexes_loop sbi vi (of_nat c) es)"
    and "es = [] \<or> 0 < e_len (hd es)" and "list_all (no_wrap sbi) es"
  shows "\<exists>ty b. is_head ty \<and> head_index (write_indexes_loop sbi vi (of_nat c) es ! 0) ty c b"
proof (cases es)
  case Nil
  then show ?thesis
    using assms head_index_plain [of Z_EROFS_LCLUSTER_TYPE_PLAIN c 0]
    by (auto simp: z_erofs_write_indexes_final_def is_head_def split: if_splits)
next
  case (Cons e es')
  have "is_head (head_type e)" by (simp add: is_head_def head_type_def)
  moreover have "head_index (write_indexes_loop sbi vi (of_nat c) es ! 0) (head_type e) c (head_blkaddr vi e)"
    using Cons assms
    by (auto simp: write_extent_shape Let_def head_index_plain nth_append intro: head_index_extent)
  ultimately show ?thesis by blast
qed

lemma write_indexes_loop_nonempty:
  assumes "blkbits sbi \<le> 16" and "c < bsize sbi" and "list_all (no_wrap sbi) es" and "write_indexes_loop sbi vi (of_nat c) es = []"
  shows "es = [] \<and> c = 0"
  using assms
  by (cases es) (auto simp: z_erofs_write_indexes_final_def write_extent_shape Let_def of_nat_offset_0 split: if_splits)

lemma write_indexes_loop_indexed:
  assumes b: "blkbits sbi \<le> 16" and "chained (bsize sbi) s es" and "length p = s div bsize sbi"
    and "(s', e) \<in> set (placed s es)" and "list_all (no_wrap sbi) es"
  shows "extent_indexed sbi vi (p @ write_indexes_loop sbi vi (of_nat (s mod bsize sbi)) es) s' e"
  using assms(2-5)
proof (induction es arbitrary: s p)
  case (Cons e1 es)
  let ?B = "bsize sbi"
  define h f where "h = s div ?B" and "f = (s + e_len e1) div ?B"
  define c where "c = (if f = h then 0 else (s + e_len e1) mod ?B)"
  obtain ds c' where w: "z_erofs_write_extent sbi vi (of_nat (s mod ?B)) e1 = (ds, c')"
    by (cases "z_erofs_write_extent sbi vi (of_nat (s mod ?B)) e1")
  define rest where "rest = write_indexes_loop sbi vi (of_nat c) es"
  have nw: "no_wrap sbi e1" "list_all (no_wrap sbi) es" using Cons.prems(4) by simp_all
  have F: "(s mod ?B + e_len e1) div ?B = f - h" and hf: "h \<le> f"
    using div_shift [of ?B s "e_len e1"] by (simp_all add: h_def f_def)
  note shape = write_extent_shape [OF b _ nw(1), of "s mod ?B" vi, unfolded w F Let_def, simplified]
  have "c' = of_nat c" using shape hf by (auto simp: c_def mod_add_left_eq split: if_splits)
  then have t: "write_indexes_loop sbi vi (of_nat (s mod ?B)) (e1 # es) = ds @ rest" by (simp add: w rest_def)
  show ?case
  proof (cases "f = h")
    case True
    then have es: "es = []" and d: "c = 0"
        "ds = [\<lparr>di_advise = of_nat (lcluster_type_code (head_type e1)), di_clusterofs = of_nat (s mod ?B), di_u = head_blkaddr vi e1\<rparr>]"
      using Cons.prems shape by (auto simp: h_def f_def c_def)
    then have "s' = s" "e = e1" "rest = []" using Cons.prems by (auto simp: rest_def z_erofs_write_indexes_final_def)
    then show ?thesis
      using True Cons.prems(2) unfolding t extent_indexed_def Let_def
      by (simp add: h_def [symmetric] f_def [symmetric] nth_append d head_index_plain)
  next
    case False
    then have d: "ds = map (\<lambda>k. extent_index sbi vi e1 (of_nat (s mod ?B)) k (f - h - k)) [0..<f - h]"
        and c: "c = (s + e_len e1) mod ?B"
      using shape hf by (simp_all add: c_def)
    have len: "length (p @ ds) = f" using Cons.prems(2) hf by (simp add: d h_def)
    show ?thesis
    proof (cases "(s', e) = (s, e1)")
      case True
      have nth: "(p @ ds @ rest) ! l = extent_index sbi vi e1 (of_nat (s mod ?B)) (l - h) (f - l)" if "h \<le> l" "l < f" for l
        using that Cons.prems(2) by (simp add: nth_append d h_def)
      have fin: "if length (p @ ds @ rest) \<le> f then length (p @ ds @ rest) = f \<and> (s + e_len e1) mod ?B = 0
           else \<exists>ty b. is_head ty \<and> head_index ((p @ ds @ rest) ! f) ty ((s + e_len e1) mod ?B) b"
      proof (cases "rest = []")
        case True
        then show ?thesis using len write_indexes_loop_nonempty [OF b _ nw(2), of c vi] by (simp add: c rest_def)
      next
        case False
        have "es = [] \<or> 0 < e_len (hd es)" using Cons.prems(1) by (cases es) auto
        then obtain ty b where "is_head ty" "head_index (rest ! 0) ty c b"
          using write_indexes_loop_head [OF b _ _ _ nw(2), of c vi] False by (auto simp: c rest_def)
        moreover have "(p @ ds @ rest) ! f = rest ! 0" using len by (auto simp: nth_append)
        ultimately show ?thesis using False len c by auto
      qed
      have "head_index ((p @ ds @ rest) ! h) (head_type e1) (s mod ?B) (head_blkaddr vi e1)"
        using nth [of h] False hf head_index_extent by simp
      then show ?thesis
        using True False hf nth fin len unfolding t extent_indexed_def Let_def h_def [symmetric] f_def [symmetric]
        by (auto simp: h_def [symmetric] f_def [symmetric])
    next
      case False
      then have "(s', e) \<in> set (placed (s + e_len e1) es)" using Cons.prems(3) by auto
      then show ?thesis
        using Cons.IH [of "s + e_len e1" "p @ ds"] Cons.prems(1) nw(2) len unfolding t by (simp add: rest_def c f_def)
    qed
  qed
qed simp

lemma write_indexes_indexed:
  assumes "blkbits sbi \<le> 16" and "chained (bsize sbi) 0 es" and "(s, e) \<in> set (placed 0 es)" and "list_all (no_wrap sbi) es"
  shows "extent_indexed sbi vi (z_erofs_write_indexes sbi vi es) s e"
  using write_indexes_loop_indexed [of sbi 0 es "[]"] assms by (simp add: z_erofs_write_indexes_def)

lemma ceil_div:
  fixes B :: nat
  assumes "0 < B"
  shows "(s + B - 1) div B = s div B + (if s mod B = 0 then 0 else 1)"
proof (cases "s mod B = 0")
  case True
  then have "s + B - 1 = s div B * B + (B - 1)" using assms by (metis Nat.add_diff_assoc Suc_leI One_nat_def add.right_neutral div_mult_mod_eq)
  moreover have "(s div B * B + (B - 1)) div B = s div B" using assms by (subst div_mult_self3) simp_all
  ultimately show ?thesis using True by simp
next
  case False
  have "s div B * B + s mod B = s" by simp
  moreover have "0 < s mod B" using False by simp
  ultimately have "s + B - 1 = (s div B + 1) * B + (s mod B - 1)" using assms unfolding add_mult_distrib by linarith
  moreover have "((s div B + 1) * B + (s mod B - 1)) div B = s div B + 1"
    using assms by (subst div_mult_self3) (simp_all add: less_imp_diff_less)
  ultimately show ?thesis using False by simp
qed

lemma write_indexes_loop_length:
  assumes b: "blkbits sbi \<le> 16" and "chained (bsize sbi) s es" and "list_all (no_wrap sbi) es"
  shows "s div bsize sbi + length (write_indexes_loop sbi vi (of_nat (s mod bsize sbi)) es) = (s + file_len es + bsize sbi - 1) div bsize sbi"
  using assms(2,3)
proof (induction es arbitrary: s)
  case Nil
  then show ?case using ceil_div [of "bsize sbi" s] of_nat_offset_0 [OF b, of "s mod bsize sbi"] by (simp add: z_erofs_write_indexes_final_def)
next
  case (Cons e es)
  let ?B = "bsize sbi"
  have F: "s div ?B + (s mod ?B + e_len e) div ?B = (s + e_len e) div ?B" by (rule div_shift) simp
  show ?case
  proof (cases "(s mod ?B + e_len e) div ?B = 0")
    case True
    then have es: "es = []" using Cons.prems F by auto
    have lt: "s mod ?B + e_len e < ?B" using True by (simp add: div_eq_0_iff)
    then have "(s + e_len e) mod ?B = s mod ?B + e_len e" by (metis mod_add_left_eq mod_less)
    then show ?thesis
      using es True F Cons.prems ceil_div [of ?B "s + e_len e"] lt
      by (simp add: write_extent_shape [OF b] z_erofs_write_indexes_final_def)
  next
    case False
    then show ?thesis
      using Cons.IH [of "s + e_len e"] Cons.prems F
      by (simp add: write_extent_shape [OF b] Let_def mod_add_left_eq add.assoc)
  qed
qed
end
