(* ===== verification/Zindex_Map.thy ===== *)
theory Zindex_Map
  imports Zindex
begin

text \<open>
  The full indexes that \<^verbatim>\<open>lib/compress.c\<close> writes for a list of extents, read back by \<^verbatim>\<open>lib/zmap.c\<close>: every offset of
  the file is mapped to the extent that contains it.
\<close>

section \<open>Loading an index of a stored table\<close>

text \<open>A compressed file with full indexes, one cluster per block, and its table on the device.\<close>

definition full_indexed :: "erofs_sb_info \<Rightarrow> erofs_inode \<Rightarrow> z_erofs_lcluster_index list \<Rightarrow> bool" where
  "full_indexed sbi vi t \<longleftrightarrow>
     quiet (bdev sbi) \<and> valid_blkszbits sbi \<and> datalayout vi = EROFS_INODE_COMPRESSED_FULL \<and> lcbits vi = blkbits sbi \<and>
     length t < 2 ^ 32 \<and>
     unat (legacy_index_pos sbi vi 0) + 8 * length t < (2 ^ 32 - 1) * bsize sbi \<and>
     zread (vf_bytes (bdev sbi)) (unat (legacy_index_pos sbi vi 0)) (8 * length t) = concat (map enc_lcluster_index t)"

lemma concat_map_slice:
  assumes "\<And>x. length (f x) = k" and "l < length xs"
  shows "take k (drop (k * l) (concat (map f xs))) = f (xs ! l)"
  using assms(2)
proof (induction xs arbitrary: l)
  case (Cons x xs)
  then show ?case by (cases l) (simp_all add: assms(1))
qed simp

lemma length_enc_index [simp]: "length (enc_lcluster_index d) = 8"
  by (simp add: enc_lcluster_index_def)

lemma unat_plus_mod_8: "unat (x + y :: u64) mod 8 = (unat x + unat y) mod 8"
proof -
  have "unat (x + y) = (unat x + unat y) mod 2 ^ 64" by (simp add: unat_word_ariths)
  moreover have "(8::nat) dvd 2 ^ 64" by simp
  ultimately show ?thesis by (simp only: mod_mod_cancel)
qed

lemma round_up_8_aligned: "unat (round_up (x :: u64) 8) mod 8 = 0"
proof -
  have m: "(7 :: u64) = mask 3" by (simp add: mask_eq_exp_minus_1)
  have "take_bit 3 ((x - 1) OR 7) = (mask 3 :: u64)"
    unfolding m by (rule bit_word_eqI) (auto simp: bit_take_bit_iff bit_or_iff bit_mask_iff)
  from arg_cong [OF this, of unat] have "unat ((x - 1) OR 7) mod 8 = 7"
    by (simp only: unsigned_take_bit_eq) (simp add: take_bit_eq_mod mask_eq_exp_minus_1)
  then show ?thesis
    using unat_plus_mod_8 [of "(x - 1) OR 7" 1] mod_add_left_eq [of "unat ((x - 1) OR 7)" 8 1] by (simp add: round_up_def)
qed

lemma index_pos_aligned: "unat (legacy_index_pos sbi vi 0) mod 8 = 0"
proof -
  have "unat (x + 8 + 8) mod 8 = unat (x :: u64) mod 8" for x
    using unat_plus_mod_8 [of "x + 8" 8] unat_plus_mod_8 [of x 8] by simp
  then show ?thesis
    by (simp only: legacy_index_pos_def Z_EROFS_FULL_INDEX_ALIGN_def mult_zero_left add_0_right round_up_8_aligned)
qed

lemma fits_8: "x < B \<Longrightarrow> x mod 8 = 0 \<Longrightarrow> 8 dvd B \<Longrightarrow> x + 8 \<le> (B :: nat)"
  by presburger

lemma full_indexed_pos:
  assumes "full_indexed sbi vi t" and "l \<le> length t"
  shows "unat (legacy_index_pos sbi vi (of_nat l)) = unat (legacy_index_pos sbi vi 0) + 8 * l"
proof -
  have b: "unat (legacy_index_pos sbi vi 0) + 8 * length t < (2 ^ 32 - 1) * bsize sbi" "blkbits sbi \<le> 12"
    using assms(1) by (simp_all add: full_indexed_def valid_blkszbits_def)
  have "bsize sbi \<le> 2 ^ 12" using b(2) by (intro power_increasing) simp_all
  then have "(2 ^ 32 - 1) * bsize sbi \<le> (2 ^ 32 - 1) * 2 ^ 12" by (intro mult_left_mono) simp_all
  then have s: "unat (legacy_index_pos sbi vi 0) + 8 * l < 2 ^ 64" using b assms(2) by simp
  have l: "unat (of_nat l * 8 :: u64) = 8 * l"
    using s by (simp add: unat_word_ariths unat_of_nat mod_mult_left_eq)
  have e: "legacy_index_pos sbi vi (of_nat l) = legacy_index_pos sbi vi 0 + of_nat l * 8"
    by (simp add: legacy_index_pos_def)
  show ?thesis unfolding e using s l by (simp add: unat_word_ariths(1))
qed

lemma reload_page:
  assumes "quiet (bdev sbi)" and "valid_blkszbits sbi" and c: "cached sbi (mr_map m)" and "eblk \<noteq> 0xffffffff"
  obtains mp where "z_erofs_reload_indexes sbi eblk m = Inr (m\<lparr>mr_map := mp\<rparr>)" "cached sbi mp"
    "map_core mp = map_core (mr_map m)"
    "take (bsize sbi) (mpage mp) = zread (vf_bytes (bdev sbi)) (unat eblk * bsize sbi) (bsize sbi)"
proof -
  have b: "9 \<le> blkbits sbi" "blkbits sbi \<le> 12" using assms(2) by (simp_all add: valid_blkszbits_def)
  have B: "bsize sbi \<le> 2 ^ 12" using b by (intro power_increasing) simp_all
  have "unat eblk * bsize sbi \<le> unat eblk * 2 ^ 12" using B by (intro mult_left_mono) simp_all
  also have "\<dots> < 2 ^ 64" using unsigned_less [of eblk, where ?'a = nat] by simp
  finally have p: "unat (erofs_pos sbi eblk) = unat eblk * bsize sbi"
    unfolding erofs_pos_def by (subst unat_push_small) (simp_all add: unat_ucast_up)
  have p1: "unat (erofs_pos sbi (1 :: u32)) = bsize sbi"
    using B unfolding erofs_pos_def by (subst unat_push_small) (simp_all add: unat_ucast_up)
  define pg where "pg = zread (vf_bytes (bdev sbi)) (unat eblk * bsize sbi) (bsize sbi)"
  have rd: "erofs_blk_read sbi 0 eblk 1 = Inr pg"
    by (simp add: erofs_blk_read_def erofs_dev_read_quiet [OF assms(1)] p p1 pg_def)
  have len: "length pg = bsize sbi" by (simp add: pg_def)
  show thesis
  proof (cases "map_index (mr_map m) = eblk")
    case True
    then have "take (length pg) (mpage (mr_map m)) = pg" using c rd assms(4) by (auto simp: cached_def)
    then show thesis
      using that [of "mr_map m"] True c len by (simp add: z_erofs_reload_indexes_def pg_def)
  next
    case False
    let ?mp = "(mr_map m)\<lparr>mpage := fsplice (mpage (mr_map m)) 0 pg, map_index := eblk\<rparr>"
    have "z_erofs_reload_indexes sbi eblk m = Inr (m\<lparr>mr_map := ?mp\<rparr>)"
      using False B len by (simp add: z_erofs_reload_indexes_def rd)
    moreover have "cached sbi ?mp" using rd by (simp add: cached_def fsplice_def)
    moreover have "take (bsize sbi) (mpage ?mp) = pg" using len by (simp add: fsplice_def)
    ultimately show thesis using that [of ?mp] by (simp add: map_core_def pg_def)
  qed
qed

lemma load_index:
  assumes f: "full_indexed sbi vi t" and l: "l < length t" and c: "cached sbi (mr_map m)"
  obtains mp np where "z_erofs_load_cluster_from_disk sbi vi (of_nat l) la m =
      legacy_decode vi (t ! l) (m\<lparr>mr_map := mp, mr_nextpackoff := np, mr_lcn := of_nat l\<rparr>)"
    "cached sbi mp" "map_core mp = map_core (mr_map m)"
proof -
  let ?B = "bsize sbi" and ?p = "unat (legacy_index_pos sbi vi 0) + 8 * l"
  define pos where "pos = legacy_index_pos sbi vi (of_nat l)"
  have fd: "quiet (bdev sbi)" "valid_blkszbits sbi" "datalayout vi = EROFS_INODE_COMPRESSED_FULL" "length t < 2 ^ 32"
    "unat (legacy_index_pos sbi vi 0) + 8 * length t < (2 ^ 32 - 1) * ?B"
    "zread (vf_bytes (bdev sbi)) (unat (legacy_index_pos sbi vi 0)) (8 * length t) = concat (map enc_lcluster_index t)"
    using f by (simp_all add: full_indexed_def)
  have b: "3 \<le> blkbits sbi" "blkbits sbi < 32" using fd(2) by (simp_all add: valid_blkszbits_def)
  have pos: "unat pos = ?p" unfolding pos_def using full_indexed_pos [OF f] l by simp
  have blk: "?p div ?B < 2 ^ 32 - 1"
    using fd(5) l by (intro div_less_iff_less_mult [THEN iffD2]) (simp_all add: mult.commute)
  have ub: "unat (ucast (erofs_blknr sbi pos) :: u32) = ?p div ?B"
    using blk by (simp only: unsigned_ucast_eq unsigned_take_bit_eq unat_erofs_blknr pos)
      (simp add: unat_erofs_blknr pos take_bit_nat_eq_self)
  then have "ucast (erofs_blknr sbi pos) \<noteq> (0xffffffff :: u32)" using blk by auto
  from reload_page [OF fd(1,2) c this] obtain mp where r: "z_erofs_reload_indexes sbi (ucast (erofs_blknr sbi pos)) m = Inr (m\<lparr>mr_map := mp\<rparr>)"
    and mp: "cached sbi mp" "map_core mp = map_core (mr_map m)"
    and pg: "take ?B (mpage mp) = zread (vf_bytes (bdev sbi)) (?p div ?B * ?B) ?B"
    unfolding ub by blast
  have d8: "8 dvd ?B" using b(1) le_imp_power_dvd [of 3 "blkbits sbi" "2::nat"] by simp
  have m8: "?p mod ?B mod 8 = 0" using index_pos_aligned by (simp add: mod_mod_cancel [OF d8])
  have "?p mod ?B < ?B" by simp
  then have fit: "?p mod ?B + 8 \<le> ?B" using m8 d8 by (rule fits_8)
  have len: "?B \<le> length (mpage mp)" using arg_cong [OF pg, of length] by simp
  have "take 8 (drop (?p mod ?B) (mpage mp)) = take 8 (drop (?p mod ?B) (take ?B (mpage mp)))"
    using fit by (simp add: drop_take min_def)
  also have "\<dots> = zread (vf_bytes (bdev sbi)) ?p 8" unfolding pg using zread_sub [OF fit] by (simp only: div_mult_mod_eq)
  also have "\<dots> = take 8 (drop (8 * l) (concat (map enc_lcluster_index t)))"
    using l by (simp flip: fd(6)) (subst zread_sub, simp_all)
  also have "\<dots> = enc_lcluster_index (t ! l)" by (rule concat_map_slice) (simp_all add: l)
  finally have s: "slice (mpage mp) (unat (erofs_blkoff sbi pos)) 8 = Inr (enc_lcluster_index (t ! l))"
    using fit len b by (simp add: unat_erofs_blkoff pos slice_def)
  have lc: "ucast (ucast (of_nat l :: u64) :: u32) = (of_nat l :: u64)"
    using l fd(4) by (intro ucast_ucast_small) (simp add: unat_of_nat)
  have "z_erofs_load_cluster_from_disk sbi vi (of_nat l) la m =
      legacy_decode vi (t ! l) (m\<lparr>mr_map := mp, mr_nextpackoff := pos + 8, mr_lcn := of_nat l\<rparr>)"
    using s by (simp add: z_erofs_load_cluster_from_disk_def lc fd(3) legacy_load_cluster_from_disk_def
        pos_def [symmetric] r Let_def lcluster_index.dec_enc del: slice_eq_Inr)
  then show thesis using that mp by blast
qed

section \<open>Decoding the two kinds of index\<close>

text \<open>What a load leaves alone.\<close>

definition loaded :: "erofs_sb_info \<Rightarrow> z_erofs_maprecorder \<Rightarrow> nat \<Rightarrow> z_erofs_maprecorder \<Rightarrow> bool" where
  "loaded sbi m l m' \<longleftrightarrow> cached sbi (mr_map m') \<and> framed m m' \<and> mr_lcn m' = of_nat l"

lemma load_head:
  assumes f: "full_indexed sbi vi t" and l: "l < length t" and c: "cached sbi (mr_map m)"
    and h: "head_index (t ! l) ty k b" "is_head ty"
  obtains m' where "z_erofs_load_cluster_from_disk sbi vi (of_nat l) la m = Inr m'" "loaded sbi m l m'"
    "mr_type m' = ty" "mr_clusterofs m' = of_nat k" "mr_pblk m' = b" "mr_compressedblks m' = mr_compressedblks m"
proof -
  from load_index [OF f l c] obtain mp np where r: "z_erofs_load_cluster_from_disk sbi vi (of_nat l) la m =
      legacy_decode vi (t ! l) (m\<lparr>mr_map := mp, mr_nextpackoff := np, mr_lcn := of_nat l\<rparr>)"
    and mp: "cached sbi mp" "map_core mp = map_core (mr_map m)" by blast
  have ty: "lcluster_type_of (unat (drop_bit Z_EROFS_LI_LCLUSTER_TYPE_BIT (di_advise (t ! l)) AND 3)) = ty"
    using h(1) by (simp only: head_index_def di_type_def)
  have "\<exists>m'. legacy_decode vi (t ! l) (m\<lparr>mr_map := mp, mr_nextpackoff := np, mr_lcn := of_nat l\<rparr>) = Inr m' \<and> loaded sbi m l m' \<and>
      mr_type m' = ty \<and> mr_clusterofs m' = of_nat k \<and> mr_pblk m' = b \<and> mr_compressedblks m' = mr_compressedblks m"
    using h mp unfolding legacy_decode_def ty Let_def
    by (auto simp: is_head_def loaded_def framed_def head_index_def)
  then show thesis using that r by auto
qed

lemma bit_800: "bit (0x800 :: 'a::len word) n \<longleftrightarrow> n = 11 \<and> 11 < LENGTH('a)"
proof -
  have "(0x800 :: 'a word) = push_bit 11 1" by (simp add: push_bit_eq_mult)
  then show ?thesis by (auto simp only: bit_push_bit_iff bit_1_iff) auto
qed

lemma small_bits: "unat (c :: 'a::len word) < 2 ^ 11 \<Longrightarrow> bit c n \<Longrightarrow> n < 11"
  by (metis bit_take_bit_iff take_bit_nat_eq_self unsigned_take_bit_eq word_eq_iff_unsigned)

lemma small_and_800:
  fixes c :: "'a::len word"
  assumes "unat c < 2 ^ 11"
  shows "c AND 0x800 = 0"
proof (rule bit_word_eqI)
  fix n
  show "bit (c AND 0x800) n \<longleftrightarrow> bit (0 :: 'a word) n"
    unfolding bit_and_iff bit_800 using small_bits [OF assms, of n] by auto
qed

lemma cblkcnt_bits:
  fixes c :: u32
  assumes "unat c < 2 ^ 11"
  shows "(ucast c OR 0x800 :: u16) AND 0x800 \<noteq> 0" and "ucast ((ucast c OR 0x800 :: u16) AND NOT 0x800) = c"
proof -
  have "bit ((ucast c OR 0x800 :: u16) AND 0x800) 11" unfolding bit_and_iff bit_or_iff bit_800 by simp
  then show "(ucast c OR 0x800 :: u16) AND 0x800 \<noteq> 0" by (metis bit_0_eq bot_apply bot_bool_def)
  show "ucast ((ucast c OR 0x800 :: u16) AND NOT 0x800) = c"
  proof (rule bit_word_eqI)
    fix n
    show "bit (ucast ((ucast c OR 0x800 :: u16) AND NOT 0x800) :: u32) n \<longleftrightarrow> bit c n" if "n < LENGTH(32)"
      using small_bits [OF assms, of n] that
      unfolding bit_ucast_iff bit_and_iff bit_or_iff bit_not_iff bit_800 by (auto simp: possible_bit_def)
  qed
qed

lemma load_nonhead:
  assumes f: "full_indexed sbi vi t" and l: "l < length t" and c: "cached sbi (mr_map m)"
    and e: "t ! l = extent_index sbi vi e cofs d0 d1" and d: "0 < d0"
    and big: "has_advise vi Z_EROFS_ADVISE_BIG_PCLUSTER_1 = erofs_sb_has_big_pcluster sbi"
    and cb: "unat (e_compressedblks e) < 2 ^ 11"
  obtains m' where "z_erofs_load_cluster_from_disk sbi vi (of_nat l) la m = Inr m'" "loaded sbi m l m'"
    "mr_type m' = Z_EROFS_LCLUSTER_TYPE_NONHEAD" "mr_delta0 m' = of_nat (min d0 0x7ff)" "mr_delta1 m' = of_nat d1"
    "mr_compressedblks m' = (if d0 = 1 \<and> erofs_sb_has_big_pcluster sbi then e_compressedblks e else mr_compressedblks m)"
proof -
  from load_index [OF f l c] obtain mp np where r: "z_erofs_load_cluster_from_disk sbi vi (of_nat l) la m =
      legacy_decode vi (t ! l) (m\<lparr>mr_map := mp, mr_nextpackoff := np, mr_lcn := of_nat l\<rparr>)"
    and mp: "cached sbi mp" "map_core mp = map_core (mr_map m)" by blast
  let ?m = "m\<lparr>mr_map := mp, mr_nextpackoff := np, mr_lcn := of_nat l\<rparr>"
  define v where "v = (if d0 = 1 \<and> erofs_sb_has_big_pcluster sbi then ucast (e_compressedblks e) OR 0x800
    else of_nat (min d0 0x7ff) :: u16)"
  have adv: "di_advise (t ! l) = 2" and u: "di_u (t ! l) = di_u_of_delta v (of_nat d1)"
    using d by (auto simp: e extent_index_def v_def min_def)
  have dl: "di_delta0 (t ! l) = v" "di_delta1 (t ! l) = of_nat d1" using u by simp_all
  have "\<exists>m'. legacy_decode vi (t ! l) ?m = Inr m' \<and> loaded sbi m l m' \<and> mr_type m' = Z_EROFS_LCLUSTER_TYPE_NONHEAD \<and>
      mr_delta0 m' = of_nat (min d0 0x7ff) \<and> mr_delta1 m' = of_nat d1 \<and>
      mr_compressedblks m' = (if d0 = 1 \<and> erofs_sb_has_big_pcluster sbi then e_compressedblks e else mr_compressedblks m)"
  proof (cases "d0 = 1 \<and> erofs_sb_has_big_pcluster sbi")
    case True
    then have v: "v = ucast (e_compressedblks e) OR 0x800" by (simp add: v_def)
    show ?thesis
      using True big mp cblkcnt_bits [OF cb] unfolding legacy_decode_def adv dl v Let_def
      by (simp add: lcluster_type_of_def loaded_def framed_def)
  next
    case False
    then have v: "v = of_nat (min d0 0x7ff)" unfolding v_def by (simp only: if_False)
    have "unat v < 2 ^ 11" unfolding v by (simp add: unat_of_nat min_def)
    then have "v AND 0x800 = 0" by (rule small_and_800)
    then show ?thesis
      using False mp unfolding legacy_decode_def adv dl Let_def
      by (auto simp: lcluster_type_of_def loaded_def framed_def v)
  qed
  then show thesis using that r by auto
qed

section \<open>From an offset to its extent\<close>

text \<open>
  What the compressor promises of an extent: it is not empty; raw data fit one block; compressed data take
  fewer blocks than the plain data, only one of them without big pclusters, and less than 2048.
\<close>

definition extent_ok :: "erofs_sb_info \<Rightarrow> nat \<Rightarrow> z_erofs_inmem_extent \<Rightarrow> bool" where
  "extent_ok sbi s e \<longleftrightarrow>
     0 < e_len e \<and> (s mod bsize sbi + e_len e) div bsize sbi < 2 ^ 16 \<and> unat (e_compressedblks e) < 2 ^ 11 \<and>
     e_compressedblks e \<noteq> 0 \<and>
     (if e_raw e then e_len e \<le> bsize sbi \<and> e_compressedblks e = 1
      else unat (e_compressedblks e) * bsize sbi < e_len e \<and> (erofs_sb_has_big_pcluster sbi \<or> e_compressedblks e = 1))"

definition cblks_known :: "erofs_sb_info \<Rightarrow> z_erofs_inmem_extent \<Rightarrow> z_erofs_maprecorder \<Rightarrow> bool" where
  "cblks_known sbi e m \<longleftrightarrow>
     mr_compressedblks m = 0 \<or> erofs_sb_has_big_pcluster sbi \<and> mr_compressedblks m = e_compressedblks e"

definition at_head :: "erofs_sb_info \<Rightarrow> erofs_inode \<Rightarrow> nat \<Rightarrow> z_erofs_inmem_extent \<Rightarrow> z_erofs_maprecorder \<Rightarrow> bool" where
  "at_head sbi vi s e m \<longleftrightarrow>
     cached sbi (mr_map m) \<and> cblks_known sbi e m \<and> mr_lcn m = of_nat (s div bsize sbi) \<and> mr_headtype m = head_type e \<and>
     m_la (mr_map m) = of_nat s \<and> mr_pblk m = head_blkaddr vi e"

lemma head_type_head: "is_head (head_type e)" "head_type e \<noteq> Z_EROFS_LCLUSTER_TYPE_NONHEAD" "head_type e \<noteq> Z_EROFS_LCLUSTER_TYPE_HEAD2"
  by (simp_all add: is_head_def head_type_def)

lemma full_indexedD:
  assumes "full_indexed sbi vi t"
  shows "blkbits sbi \<le> 12" "lcbits vi = blkbits sbi" "length t < 2 ^ 32" "bsize sbi \<le> 2 ^ 12" "512 \<le> bsize sbi"
proof -
  show b: "blkbits sbi \<le> 12" "lcbits vi = blkbits sbi" "length t < 2 ^ 32"
    using assms by (simp_all add: full_indexed_def valid_blkszbits_def)
  show "bsize sbi \<le> 2 ^ 12" using b(1) by (intro power_increasing) simp_all
  have "(2::nat) ^ 9 \<le> bsize sbi" using assms by (intro power_increasing) (simp_all add: full_indexed_def valid_blkszbits_def)
  then show "512 \<le> bsize sbi" by simp
qed

lemma la_word:
  assumes f: "full_indexed sbi vi t" and l: "s div bsize sbi \<le> length t"
  shows "push_bit (lcbits vi) (of_nat (s div bsize sbi)) OR ucast (of_nat (s mod bsize sbi) :: u16) = (of_nat s :: u64)"
    and "s < 2 ^ 45"
proof -
  note D = full_indexedD [OF f]
  let ?B = "bsize sbi"
  have h: "unat (of_nat (s div ?B) :: u64) = s div ?B" using l D(3) by (simp add: unat_of_nat)
  have c: "s mod ?B < ?B" by simp
  then have "s mod ?B < 2 ^ 16" using D(4) by (rule less_le_trans [OF less_le_trans]) simp
  then have u: "unat (ucast (of_nat (s mod ?B) :: u16) :: u64) = s mod ?B"
    by (simp add: unat_ucast_up unat_of_nat)
  have "s div ?B * ?B \<le> 2 ^ 32 * 2 ^ 12" using l D(3,4) by (intro mult_mono) simp_all
  then have "s div ?B * ?B + s mod ?B < 2 ^ 32 * 2 ^ 12 + 2 ^ 12"
    using less_le_trans [OF c D(4)] by (rule add_le_less_mono)
  then have "s < 2 ^ 32 * 2 ^ 12 + 2 ^ 12" by (simp only: div_mult_mod_eq)
  then show s: "s < 2 ^ 45" by simp
  have "s < 2 ^ 64" using s by simp
  with div_times_less_eq_dividend have le64: "s div ?B * ?B < 2 ^ 64" by (rule le_less_trans)
  have "unat (push_bit (lcbits vi) (of_nat (s div ?B)) OR ucast (of_nat (s mod ?B) :: u16) :: u64) = s div ?B * ?B + s mod ?B"
    using le64 c by (subst unat_push_or) (simp_all only: h u D(2) word_size len_of_numeral_defs, simp_all)
  then show "push_bit (lcbits vi) (of_nat (s div ?B)) OR ucast (of_nat (s mod ?B) :: u16) = (of_nat s :: u64)"
    using \<open>s < 2 ^ 64\<close> by (intro word_unat_eq_iff [THEN iffD2]) (simp only: div_mult_mod_eq unat_of_nat, simp)
qed

text \<open>Walking back from a cluster of the extent reaches its head.\<close>

lemma lookback_extent:
  assumes f: "full_indexed sbi vi t" and x: "extent_indexed sbi vi t s e"
    and big: "has_advise vi Z_EROFS_ADVISE_BIG_PCLUSTER_1 = erofs_sb_has_big_pcluster sbi"
    and cb: "unat (e_compressedblks e) < 2 ^ 11"
    and "cached sbi (mr_map m)" "cblks_known sbi e m" "mr_lcn m = of_nat (k + unat d)" "k + unat d < 2 ^ 64"
    and "s div bsize sbi \<le> k" "k = s div bsize sbi \<or> k < (s + e_len e) div bsize sbi"
  shows "\<exists>m'. z_erofs_extent_lookback sbi vi d m = Inr m' \<and> at_head sbi vi s e m'"
  using assms(5-10)
proof (induction k arbitrary: m d rule: less_induct)
  case (less k)
  let ?h = "s div bsize sbi" and ?f = "(s + e_len e) div bsize sbi"
  have xd: "?h < length t" "head_index (t ! ?h) (head_type e) (s mod bsize sbi) (head_blkaddr vi e)"
    "\<And>l. ?h < l \<Longrightarrow> l < ?f \<Longrightarrow> l < length t \<and> t ! l = extent_index sbi vi e (of_nat (s mod bsize sbi)) (l - ?h) (?f - l)"
    using x by (simp_all add: extent_indexed_def Let_def)
  have lcn: "unat (mr_lcn m) = k + unat d" using less.prems(3,4) by (simp only: unat_of_nat) simp
  have nl: "\<not> mr_lcn m < ucast d" by (simp add: word_less_nat_alt lcn unat_ucast_up)
  have kw: "mr_lcn m - ucast d = of_nat k"
    using less.prems(3) by simp
  show ?case
  proof (cases "k = ?h")
    case True
    from load_head [OF f xd(1) less.prems(1) xd(2) head_type_head(1), of False] obtain m1 where
      m1: "z_erofs_load_cluster_from_disk sbi vi (of_nat k) False m = Inr m1" "loaded sbi m k m1" "mr_type m1 = head_type e"
        "mr_clusterofs m1 = of_nat (s mod bsize sbi)" "mr_pblk m1 = head_blkaddr vi e" "mr_compressedblks m1 = mr_compressedblks m"
      unfolding True by blast
    let ?m = "upd_map (\<lambda>mp. mp\<lparr>m_la := push_bit (lcbits vi) (of_nat k) OR ucast (mr_clusterofs m1)\<rparr>) (m1\<lparr>mr_headtype := mr_type m1\<rparr>)"
    have "z_erofs_extent_lookback sbi vi d m = Inr ?m"
      using m1(1,3) head_type_head(2,3) by (subst z_erofs_extent_lookback.simps) (simp add: nl kw Let_def)
    moreover have "push_bit (lcbits vi) (of_nat k) OR ucast (mr_clusterofs m1) = (of_nat s :: u64)"
      unfolding True m1(4) using la_word(1) [OF f, of s] xd(1) by simp
    then have "at_head sbi vi s e ?m"
      using m1(2,3,5,6) less.prems(2) True by (simp add: at_head_def loaded_def cblks_known_def upd_map_def)
    ultimately show ?thesis by blast
  next
    case False
    then have k: "?h < k" "k < ?f" using less.prems(5,6) by auto
    note xk = xd(3) [OF k]
    obtain m1 where m1: "z_erofs_load_cluster_from_disk sbi vi (of_nat k) False m = Inr m1" "loaded sbi m k m1"
      "mr_type m1 = Z_EROFS_LCLUSTER_TYPE_NONHEAD" "mr_delta0 m1 = of_nat (min (k - ?h) 0x7ff)"
      "mr_compressedblks m1 = (if k - ?h = 1 \<and> erofs_sb_has_big_pcluster sbi then e_compressedblks e else mr_compressedblks m)"
      using load_nonhead [OF f xk [THEN conjunct1] less.prems(1) xk [THEN conjunct2] _ big cb, of False] k by auto
    let ?d = "min (k - ?h) 0x7ff"
    have ud: "unat (ucast (mr_delta0 m1) :: u32) = ?d" unfolding m1(4) by (simp add: unat_ucast_up unat_of_nat)
    have d0: "mr_delta0 m1 \<noteq> 0" using ud k by auto
    have "\<exists>m'. z_erofs_extent_lookback sbi vi (ucast (mr_delta0 m1)) m1 = Inr m' \<and> at_head sbi vi s e m'"
    proof (rule less.IH [of "k - ?d"])
      show "k - ?d < k" using k by simp
      show "cached sbi (mr_map m1)" using m1(2) by (simp add: loaded_def)
      show "cblks_known sbi e m1" using m1(5) less.prems(2) by (auto simp: cblks_known_def)
      show "mr_lcn m1 = of_nat (k - ?d + unat (ucast (mr_delta0 m1) :: u32))" using m1(2) k unfolding ud by (simp add: loaded_def)
      show "k - ?d + unat (ucast (mr_delta0 m1) :: u32) < 2 ^ 64" using less.prems(4) unfolding ud by simp
      show "?h \<le> k - ?d" "k - ?d = ?h \<or> k - ?d < ?f" using k by auto
    qed
    then show ?thesis
      using m1(1,3) d0 by (subst z_erofs_extent_lookback.simps) (simp add: nl kw Let_def)
  qed
qed

text \<open>The physical length, found at the head.\<close>

definition behind_head :: "erofs_sb_info \<Rightarrow> nat \<Rightarrow> nat \<Rightarrow> z_erofs_maprecorder \<Rightarrow> bool" where
  "behind_head sbi s n m \<longleftrightarrow>
     (mr_lcn m = of_nat (s div bsize sbi) \<or> mr_lcn m = of_nat (Suc (s div bsize sbi)) \<and> s div bsize sbi < (s + n) div bsize sbi)"

lemma extent_ok_span:
  assumes "extent_ok sbi s e" "\<not> e_raw e"
  shows "s div bsize sbi < (s + e_len e) div bsize sbi"
    and "(s + e_len e) div bsize sbi = Suc (s div bsize sbi) \<Longrightarrow> e_compressedblks e = 1 \<and> (s + e_len e) mod bsize sbi \<noteq> 0"
proof -
  let ?B = "bsize sbi" and ?n = "e_len e" and ?c = "s mod bsize sbi"
  have n: "unat (e_compressedblks e) * ?B < ?n" and c0: "0 < unat (e_compressedblks e)"
    using assms by (auto simp: extent_ok_def unat_gt_0)
  from c0 have "1 * ?B \<le> unat (e_compressedblks e) * ?B" by (intro mult_right_mono) simp_all
  then have nB: "?B < ?n" using n by linarith
  have F: "s div ?B + (?c + ?n) div ?B = (s + ?n) div ?B" by (rule div_shift) simp
  have "0 < (?c + ?n) div ?B" using nB by (simp add: div_greater_zero_iff)
  then show "s div ?B < (s + ?n) div ?B" using F by linarith
  assume "(s + ?n) div ?B = Suc (s div ?B)"
  then have one: "(?c + ?n) div ?B = 1" using F by linarith
  then have "?c + ?n < 2 * ?B" using div_less_iff_less_mult [of ?B "?c + ?n" 2] by simp
  then have "unat (e_compressedblks e) * ?B < 2 * ?B" using n by linarith
  then have "unat (e_compressedblks e) = 1" using c0 by simp
  moreover have "(?c + ?n) mod ?B \<noteq> 0"
  proof
    assume "(?c + ?n) mod ?B = 0"
    then have "?c + ?n = ?B" using one div_mult_mod_eq [of "?c + ?n" ?B] by simp
    then show False using nB by linarith
  qed
  ultimately show "e_compressedblks e = 1 \<and> (s + ?n) mod ?B \<noteq> 0" by (simp add: word_unat_eq_iff mod_add_left_eq)
qed

lemma plen_word:
  fixes c :: u32
  assumes "full_indexed sbi vi t" and c: "unat c < 2 ^ 11"
  shows "ucast (push_bit (blkbits sbi) c) = (of_nat (unat c * bsize sbi) :: u64)"
proof -
  have "unat c * bsize sbi \<le> 2 ^ 11 * 2 ^ 12" using c full_indexedD(4) [OF assms(1)] by (intro mult_mono) simp_all
  then have lt: "unat c * bsize sbi < 2 ^ 32" by (rule le_less_trans) simp
  then have "unat (push_bit (blkbits sbi) c) = unat c * bsize sbi" by (subst unat_push_small) simp_all
  then show ?thesis by (metis of_nat_unat)
qed

lemma compressedlen_extent:
  assumes f: "full_indexed sbi vi t" and x: "extent_indexed sbi vi t s e" and ok: "extent_ok sbi s e"
    and big: "has_advise vi Z_EROFS_ADVISE_BIG_PCLUSTER_1 = erofs_sb_has_big_pcluster sbi"
    and a: "at_head sbi vi s e m"
  shows "\<exists>m'. z_erofs_get_extent_compressedlen sbi vi m = Inr m' \<and> cached sbi (mr_map m') \<and> behind_head sbi s (e_len e) m' \<and>
    m_plen (mr_map m') = of_nat (unat (e_compressedblks e) * bsize sbi)"
proof (cases "e_raw e \<or> \<not> erofs_sb_has_big_pcluster sbi")
  case True
  then have "e_compressedblks e = 1" using ok unfolding extent_ok_def by presburger
  moreover have "mr_headtype m = Z_EROFS_LCLUSTER_TYPE_PLAIN \<or> \<not> has_advise vi Z_EROFS_ADVISE_BIG_PCLUSTER_1"
    using True a big by (auto simp: at_head_def head_type_def)
  ultimately show ?thesis
    using a full_indexedD(2) [OF f]
    by (simp add: z_erofs_get_extent_compressedlen_def behind_head_def at_head_def upd_map_def push_bit_eq_mult cached_def)
next
  case False
  let ?h = "s div bsize sbi" and ?f = "(s + e_len e) div bsize sbi"
  note span = extent_ok_span [OF ok]
  have nx: "\<not> (mr_headtype m = Z_EROFS_LCLUSTER_TYPE_PLAIN \<or> \<not> has_advise vi Z_EROFS_ADVISE_BIG_PCLUSTER_1)"
    using False a big by (simp add: at_head_def head_type_def)
  define fin where "fin = (\<lambda>m'. upd_map (\<lambda>mp. mp\<lparr>m_plen := ucast (push_bit (blkbits sbi) (mr_compressedblks m'))\<rparr>) m')"
  have cb: "unat (e_compressedblks e) < 2 ^ 11" "e_compressedblks e \<noteq> 0" using ok by (simp_all add: extent_ok_def)
  have finish: ?thesis if "z_erofs_get_extent_compressedlen sbi vi m = Inr (fin m')" "cached sbi (mr_map m')"
      "behind_head sbi s (e_len e) m'" "mr_compressedblks m' = e_compressedblks e" for m'
    using that plen_word [OF f cb(1)] unfolding fin_def by (intro exI [of _ "fin m'"]) (simp add: fin_def behind_head_def cached_def)
  have m: "cached sbi (mr_map m)" "mr_lcn m = of_nat ?h" using a by (simp_all add: at_head_def)
  show ?thesis
  proof (cases "mr_compressedblks m = 0")
    case known: False
    then have "mr_compressedblks m = e_compressedblks e" using a by (simp add: at_head_def cblks_known_def)
    with known show ?thesis using m nx by (intro finish [of m]) (simp_all add: z_erofs_get_extent_compressedlen_def fin_def behind_head_def)
  next
    case unknown: True
    have lcn: "mr_lcn m + 1 = of_nat (Suc ?h)" by (simp add: m)
    have raw: "\<not> e_raw e" and bg: "erofs_sb_has_big_pcluster sbi" using False by simp_all
    show ?thesis
    proof (cases "Suc ?h < ?f")
      case True
      then have xk: "Suc ?h < length t" "t ! Suc ?h = extent_index sbi vi e (of_nat (s mod bsize sbi)) 1 (?f - Suc ?h)"
        using x by (simp_all add: extent_indexed_def Let_def)
      from load_nonhead [OF f xk(1) m(1) xk(2) _ big cb(1), of False] obtain m1 where
        m1: "z_erofs_load_cluster_from_disk sbi vi (of_nat (Suc ?h)) False m = Inr m1" "loaded sbi m (Suc ?h) m1"
          "mr_type m1 = Z_EROFS_LCLUSTER_TYPE_NONHEAD" "mr_delta0 m1 = 1" "mr_compressedblks m1 = e_compressedblks e"
        using bg by auto
      show ?thesis
        using m1 cb(2) nx unknown True
        by (intro finish [of m1]) (simp_all add: z_erofs_get_extent_compressedlen_def lcn fin_def loaded_def behind_head_def)
    next
      case False
      then have fh: "?f = Suc ?h" using span(1) [OF raw] by simp
      then have one: "e_compressedblks e = 1" "(s + e_len e) mod bsize sbi \<noteq> 0" using span(2) [OF raw] by simp_all
      then obtain ty b where "Suc ?h < length t" "is_head ty" "head_index (t ! Suc ?h) ty ((s + e_len e) mod bsize sbi) b"
        using x fh by (auto simp: extent_indexed_def Let_def split: if_splits)
      from load_head [OF f this(1) m(1) this(3,2), of False] obtain m1 where
        m1: "z_erofs_load_cluster_from_disk sbi vi (of_nat (Suc ?h)) False m = Inr m1" "loaded sbi m (Suc ?h) m1" "mr_type m1 = ty"
        by blast
      have one': "push_bit (lcbits vi - blkbits sbi) 1 = (1 :: u32)" by (simp add: full_indexedD(2) [OF f])
      show ?thesis
        using m1 \<open>is_head ty\<close> nx unknown fh one one'
        by (intro finish [of "m1\<lparr>mr_compressedblks := 1\<rparr>"])
          (auto simp: z_erofs_get_extent_compressedlen_def lcn fin_def loaded_def behind_head_def is_head_def)
    qed
  qed
qed

section \<open>The decompressed length\<close>

definition measured :: "z_erofs_maprecorder \<Rightarrow> nat \<Rightarrow> z_erofs_maprecorder \<Rightarrow> bool" where
  "measured m n m' \<longleftrightarrow>
     m_llen (mr_map m') = of_nat n \<and> m_la (mr_map m') = m_la (mr_map m) \<and> m_pa (mr_map m') = m_pa (mr_map m) \<and>
     m_plen (mr_map m') = m_plen (mr_map m)"

lemma measured_trans: "framed m m1 \<Longrightarrow> measured m1 n m' \<Longrightarrow> measured m n m'"
  by (auto simp: measured_def dest!: framedD)

text \<open>The file ends in the last cluster of the table, and with the extent if that is the last one.\<close>

definition ends_with :: "erofs_sb_info \<Rightarrow> erofs_inode \<Rightarrow> z_erofs_lcluster_index list \<Rightarrow> nat \<Rightarrow> nat \<Rightarrow> bool" where
  "ends_with sbi vi t s n \<longleftrightarrow>
     (let B = bsize sbi; L = unat (i_size vi) in
      (\<forall>l<length t. l * B < L) \<and> L \<le> length t * B \<and> s + n \<le> L \<and> ((s + n) div B = s div B \<longrightarrow> s + n = L))"

lemma ends_withD:
  assumes "ends_with sbi vi t s n"
  shows "l < length t \<Longrightarrow> \<not> unat (i_size vi) \<le> l * bsize sbi" "unat (i_size vi) \<le> length t * bsize sbi"
    "s + n \<le> unat (i_size vi)" "(s + n) div bsize sbi = s div bsize sbi \<Longrightarrow> unat (i_size vi) = s + n"
  using assms by (auto simp: ends_with_def Let_def not_le)

lemma measured_eof:
  assumes "m_la (mr_map m) = of_nat s" and "unat (i_size vi) = s + n"
  shows "measured m n (upd_map (\<lambda>mp. mp\<lparr>m_llen := i_size vi - m_la mp\<rparr>) m)"
proof -
  have "i_size vi = of_nat (s + n)" using assms(2) by (intro word_unat_eq_iff [THEN iffD2]) (simp only: unat_of_nat, metis mod_less unsigned_less)
  then show ?thesis using assms(1) by (simp add: measured_def)
qed

text \<open>An extent of a file as the reader meets it.\<close>

definition mapped_extent ::
    "erofs_sb_info \<Rightarrow> erofs_inode \<Rightarrow> z_erofs_lcluster_index list \<Rightarrow> nat \<Rightarrow> z_erofs_inmem_extent \<Rightarrow> bool" where
  "mapped_extent sbi vi t s e \<longleftrightarrow>
     full_indexed sbi vi t \<and> extent_indexed sbi vi t s e \<and> extent_ok sbi s e \<and>
     has_advise vi Z_EROFS_ADVISE_BIG_PCLUSTER_1 = erofs_sb_has_big_pcluster sbi \<and> ends_with sbi vi t s (e_len e)"

lemma mapped_extentD:
  assumes "mapped_extent sbi vi t s e"
  shows "full_indexed sbi vi t" "extent_indexed sbi vi t s e" "extent_ok sbi s e" "ends_with sbi vi t s (e_len e)"
    "has_advise vi Z_EROFS_ADVISE_BIG_PCLUSTER_1 = erofs_sb_has_big_pcluster sbi"
    "lcbits vi = blkbits sbi" "unat (e_compressedblks e) < 2 ^ 11" "s div bsize sbi < length t"
proof -
  show E: "full_indexed sbi vi t" "extent_indexed sbi vi t s e" "extent_ok sbi s e" "ends_with sbi vi t s (e_len e)"
    "has_advise vi Z_EROFS_ADVISE_BIG_PCLUSTER_1 = erofs_sb_has_big_pcluster sbi"
    using assms by (simp_all add: mapped_extent_def)
  show "lcbits vi = blkbits sbi" "unat (e_compressedblks e) < 2 ^ 11" "s div bsize sbi < length t"
    using E by (simp_all add: full_indexed_def extent_ok_def extent_indexed_def Let_def)
qed

lemma end_word:
  assumes "full_indexed sbi vi t"
  shows "push_bit (lcbits vi) (of_nat (p div bsize sbi)) + ucast (of_nat (p mod bsize sbi) :: u16) = (of_nat p :: u64)"
proof -
  note D = full_indexedD [OF assms]
  have "p mod bsize sbi < bsize sbi" by simp
  also note D(4)
  finally have "unat (of_nat (p mod bsize sbi) :: u16) = p mod bsize sbi" by (simp add: unat_of_nat)
  then have "ucast (of_nat (p mod bsize sbi) :: u16) = (of_nat (p mod bsize sbi) :: u64)" by (metis of_nat_unat)
  moreover have "push_bit (lcbits vi) (of_nat (p div bsize sbi)) = (of_nat (p div bsize sbi * bsize sbi) :: u64)"
    unfolding D(2) by (simp add: push_bit_eq_mult mult.commute)
  ultimately show ?thesis by (simp only: of_nat_add [symmetric] div_mult_mod_eq)
qed

lemma measure_from_end:
  assumes e: "mapped_extent sbi vi t s e" and c: "cached sbi (mr_map m)" and la: "m_la (mr_map m) = of_nat s"
    and hf: "s div bsize sbi < (s + e_len e) div bsize sbi"
  shows "\<exists>m'. decompressedlen_loop sbi vi (s div bsize sbi) ((s + e_len e) div bsize sbi) m = Inr m' \<and> measured m (e_len e) m'"
proof -
  let ?B = "bsize sbi" and ?h = "s div bsize sbi" and ?f = "(s + e_len e) div bsize sbi"
  note E = mapped_extentD [OF e] and W = ends_withD [OF mapped_extentD(4) [OF e]]
  show ?thesis
  proof (cases "length t \<le> ?f")
    case True
    then have "length t = ?f" "(s + e_len e) mod ?B = 0" using E(2) hf by (auto simp: extent_indexed_def Let_def split: if_splits)
    then have "length t * ?B = s + e_len e" using div_mult_mod_eq [of "s + e_len e" ?B] by simp
    then have "unat (i_size vi) = s + e_len e" "unat (i_size vi) \<le> ?f * ?B" using W(2,3) \<open>length t = ?f\<close> by simp_all
    then show ?thesis
      using measured_eof [OF la] by (subst decompressedlen_loop.simps) (simp add: E(6))
  next
    case False
    then obtain ty b where h: "head_index (t ! ?f) ty ((s + e_len e) mod ?B) b" "is_head ty" and l: "?f < length t"
      using E(2) hf by (auto simp: extent_indexed_def Let_def split: if_splits)
    from load_head [OF E(1) l c h, of True] obtain m1 where m1: "z_erofs_load_cluster_from_disk sbi vi (of_nat ?f) True m = Inr m1"
      "loaded sbi m ?f m1" "mr_type m1 = ty" "mr_clusterofs m1 = of_nat ((s + e_len e) mod ?B)" by blast
    have fr: "framed m m1" using m1(2) by (simp add: loaded_def)
    have "measured m1 (e_len e) (lookahead_done vi ?f m1)"
      using end_word [OF E(1), of "s + e_len e"] m1(4) la framedD [OF fr] by (simp add: measured_def lookahead_done_def)
    then have "measured m (e_len e) (lookahead_done vi ?f m1)" by (rule measured_trans [OF fr])
    moreover have "decompressedlen_loop sbi vi ?h ?f m = Inr (lookahead_done vi ?f m1)"
      using m1(1,3) h(2) W(1) [OF l] hf by (subst decompressedlen_loop.simps) (auto simp: E(6) is_head_def)
    ultimately show ?thesis by blast
  qed
qed

lemma measure_from_next:
  assumes e: "mapped_extent sbi vi t s e" and c: "cached sbi (mr_map m)" and la: "m_la (mr_map m) = of_nat s"
    and hf: "s div bsize sbi < (s + e_len e) div bsize sbi"
  shows "\<exists>m'. decompressedlen_loop sbi vi (s div bsize sbi) (Suc (s div bsize sbi)) m = Inr m' \<and> measured m (e_len e) m'"
proof (cases "Suc (s div bsize sbi) = (s + e_len e) div bsize sbi")
  case True
  then show ?thesis using measure_from_end [OF assms] by simp
next
  case False
  let ?h = "s div bsize sbi" and ?f = "(s + e_len e) div bsize sbi"
  note E = mapped_extentD [OF e] and W = ends_withD [OF mapped_extentD(4) [OF e]]
  have xk: "Suc ?h < length t" "t ! Suc ?h = extent_index sbi vi e (of_nat (s mod bsize sbi)) 1 (?f - Suc ?h)"
    using E(2) hf False by (simp_all add: extent_indexed_def Let_def)
  from load_nonhead [OF E(1) xk(1) c xk(2) _ E(5,7), of True] obtain m1 where
    m1: "z_erofs_load_cluster_from_disk sbi vi (of_nat (Suc ?h)) True m = Inr m1" "loaded sbi m (Suc ?h) m1"
      "mr_type m1 = Z_EROFS_LCLUSTER_TYPE_NONHEAD" "mr_delta1 m1 = of_nat (?f - Suc ?h)" by auto
  have "(s mod bsize sbi + e_len e) div bsize sbi < 2 ^ 16" using E(3) by (simp add: extent_ok_def)
  then have "?f - Suc ?h < 2 ^ 16" using div_shift [of "bsize sbi" s "e_len e"] by simp
  then have d1: "unat (mr_delta1 m1) = ?f - Suc ?h" by (simp add: m1(4) unat_of_nat)
  then have d1': "mr_delta1 m1 \<noteq> 0" using hf False by auto
  have fr: "framed m m1" and c1: "cached sbi (mr_map m1)" using m1(2) by (simp_all add: loaded_def)
  then have "m_la (mr_map m1) = of_nat s" using framedD [OF fr] la by simp
  from measure_from_end [OF e c1 this hf] obtain m' where
    "decompressedlen_loop sbi vi ?h (Suc ?h + unat (mr_delta1 m1)) m1 = Inr m'" "measured m1 (e_len e) m'"
    using d1 hf False by auto
  then show ?thesis
    using m1(1,3) d1' W(1) [OF xk(1)] measured_trans [OF fr] by (subst decompressedlen_loop.simps) (auto simp: E(6))
qed

lemma measure_extent:
  assumes e: "mapped_extent sbi vi t s e" and c: "cached sbi (mr_map m)" and la: "m_la (mr_map m) = of_nat s"
    and b: "behind_head sbi s (e_len e) m"
  shows "\<exists>m'. z_erofs_get_extent_decompressedlen sbi vi m = Inr m' \<and> measured m (e_len e) m'"
proof -
  let ?h = "s div bsize sbi" and ?f = "(s + e_len e) div bsize sbi"
  note E = mapped_extentD [OF e] and W = ends_withD [OF mapped_extentD(4) [OF e]]
  note D = full_indexedD [OF E(1)]
  have "s < 2 ^ 64" using la_word(2) [OF E(1), of s] E(8) by simp
  then have us: "unat (of_nat s :: u64) = s" by (simp only: unat_of_nat) simp
  have hl: "unat (drop_bit (lcbits vi) (m_la (mr_map m))) = ?h"
    unfolding la E(6) by (simp only: unat_drop_bit_eq us) (simp only: drop_bit_eq_div)
  have hw: "unat (of_nat k :: u64) = k" if "k \<le> length t" for k using that D(3) by (simp add: unat_of_nat)
  from b consider "mr_lcn m = of_nat ?h" | "mr_lcn m = of_nat (Suc ?h)" "?h < ?f" by (auto simp: behind_head_def)
  then show ?thesis
  proof cases
    case 2
    then have "unat (mr_lcn m) = Suc ?h" using hw [of "Suc ?h"] E(8) by simp
    then show ?thesis
      unfolding z_erofs_get_extent_decompressedlen_def hl using measure_from_next [OF e c la 2(2)] by simp
  next
    case 1
    then have lcn: "unat (mr_lcn m) = ?h" using hw [of ?h] E(8) by simp
    have "head_index (t ! ?h) (head_type e) (s mod bsize sbi) (head_blkaddr vi e)"
      using E(2) by (simp add: extent_indexed_def Let_def)
    from load_head [OF E(1,8) c this head_type_head(1), of True] obtain m1 where
      m1: "z_erofs_load_cluster_from_disk sbi vi (of_nat ?h) True m = Inr m1" "loaded sbi m ?h m1" "mr_type m1 = head_type e" by blast
    let ?m = "m1\<lparr>mr_delta1 := 1\<rparr>"
    have fr: "framed m ?m" and c1: "cached sbi (mr_map ?m)" using m1(2) by (simp_all add: loaded_def framed_def)
    then have la1: "m_la (mr_map ?m) = of_nat s" using framedD [OF fr] la by simp
    have "\<exists>m'. decompressedlen_loop sbi vi ?h (Suc ?h) ?m = Inr m' \<and> measured ?m (e_len e) m'"
    proof (cases "?h < ?f")
      case True
      then show ?thesis by (rule measure_from_next [OF e c1 la1])
    next
      case False
      then have "?f = ?h" by (simp add: div_le_mono le_antisym)
      then have "length t = Suc ?h" "unat (i_size vi) = s + e_len e"
        using E(2) W(4) by (simp_all add: extent_indexed_def Let_def)
      then show ?thesis
        using W(2) measured_eof [OF la1] by (subst decompressedlen_loop.simps) (simp add: E(6))
    qed
    then show ?thesis
      unfolding z_erofs_get_extent_decompressedlen_def hl lcn
      using m1(1,3) head_type_head(2,3) [of e] W(1) [OF E(8)] measured_trans [OF fr]
      by (subst decompressedlen_loop.simps) (auto simp: E(6))
  qed
qed

section \<open>Mapping an offset\<close>

lemma at_head_upd:
  assumes "at_head sbi vi s e m" and "\<And>mp. mpage (g mp) = mpage mp" "\<And>mp. map_index (g mp) = map_index mp" "\<And>mp. m_la (g mp) = m_la mp"
  shows "at_head sbi vi s e (upd_map g m)"
  using assms by (simp add: at_head_def cblks_known_def cached_def upd_map_def)

lemma find_at_head:
  assumes e: "mapped_extent sbi vi t s e" and c: "cached sbi (mr_map m)" "mr_compressedblks m = 0"
    and p: "p div bsize sbi = s div bsize sbi" "s \<le> p" and eo: "unat endoff = p mod bsize sbi"
    and ni: "\<not> has_advise vi Z_EROFS_ADVISE_INLINE_PCLUSTER"
  shows "\<exists>m1 m2 fin. z_erofs_load_cluster_from_disk sbi vi (of_nat (p div bsize sbi)) False m = Inr m1 \<and>
    do_map_find sbi vi endoff m1 = Inr (m2, fin) \<and> at_head sbi vi s e m2 \<and> unat (fin - of_nat s) \<le> bsize sbi"
proof -
  let ?B = "bsize sbi" and ?h = "s div bsize sbi"
  note E = mapped_extentD [OF e]
  note D = full_indexedD [OF E(1)]
  have "head_index (t ! ?h) (head_type e) (s mod ?B) (head_blkaddr vi e)" using E(2) by (simp add: extent_indexed_def Let_def)
  from load_head [OF E(1,8) c(1) this head_type_head(1), of False] obtain m1 where
    m1: "z_erofs_load_cluster_from_disk sbi vi (of_nat ?h) False m = Inr m1" "loaded sbi m ?h m1" "mr_type m1 = head_type e"
      "mr_clusterofs m1 = of_nat (s mod ?B)" "mr_pblk m1 = head_blkaddr vi e" "mr_compressedblks m1 = mr_compressedblks m" by blast
  have lcn: "mr_lcn m1 = of_nat ?h" using m1(2) by (simp add: loaded_def)
  have sm: "s mod ?B < 2 ^ 16" using less_le_trans [OF mod_less_divisor D(4), of s] by simp
  then have uc: "unat (mr_clusterofs m1) = s mod ?B" by (simp add: m1(4) unat_of_nat)
  have "s mod ?B \<le> p mod ?B" using p div_mult_mod_eq [of s ?B] div_mult_mod_eq [of p ?B] by (metis add_le_cancel_left)
  then have le: "ucast (mr_clusterofs m1) \<le> endoff" by (simp add: word_le_nat_alt unat_ucast_up uc eo)
  let ?m = "upd_map (m_la_update (\<lambda>_. push_bit (lcbits vi) (of_nat ?h) OR ucast (mr_clusterofs m1)))
     ((upd_map (m_flags_update (\<lambda>_. 6)) m1)\<lparr>mr_headtype := head_type e\<rparr>)"
  have "do_map_find sbi vi endoff m1 = Inr (?m, push_bit (lcbits vi) (of_nat ?h + 1))"
    using le ni head_type_head(2,3) [of e] by (simp add: do_map_find_def Let_def m1(3) lcn)
  moreover have "push_bit (lcbits vi) (of_nat ?h) OR ucast (mr_clusterofs m1) = (of_nat s :: u64)"
    unfolding m1(4) using la_word(1) [OF E(1), of s] E(8) by simp
  then have "at_head sbi vi s e ?m"
    using m1(2,5,6) c(2) by (simp add: at_head_def cblks_known_def loaded_def upd_map_def cached_def)
  moreover have "push_bit (lcbits vi) (of_nat ?h + 1) - of_nat s = (of_nat (?B - s mod ?B) :: u64)"
  proof -
    have "push_bit (lcbits vi) (of_nat ?h + 1) = (of_nat (?h * ?B + ?B) :: u64)"
      unfolding E(6) by (simp add: push_bit_eq_mult distrib_left mult.commute)
    moreover have "?h * ?B + ?B = s + (?B - s mod ?B)" using div_mult_mod_eq [of s ?B] mod_less_divisor [of ?B s] by simp
    ultimately have "push_bit (lcbits vi) (of_nat ?h + 1) = (of_nat s + of_nat (?B - s mod ?B) :: u64)" by (simp only: of_nat_add)
    then show ?thesis by (simp only: add_diff_cancel_left')
  qed
  then have "unat (push_bit (lcbits vi) (of_nat ?h + 1) - of_nat s :: u64) \<le> ?B"
    by (simp only: unat_of_nat) (rule le_trans [OF mod_less_eq_dividend diff_le_self])
  ultimately show ?thesis using m1(1) p(1) by (intro exI conjI) simp_all
qed

lemma find_inside:
  assumes e: "mapped_extent sbi vi t s e" and c: "cached sbi (mr_map m)" "mr_compressedblks m = 0"
    and k: "s div bsize sbi < k" "k < (s + e_len e) div bsize sbi"
  shows "\<exists>m1 m2 fin. z_erofs_load_cluster_from_disk sbi vi (of_nat k) False m = Inr m1 \<and>
    do_map_find sbi vi endoff m1 = Inr (m2, fin) \<and> at_head sbi vi s e m2"
proof -
  let ?h = "s div bsize sbi" and ?f = "(s + e_len e) div bsize sbi"
  note E = mapped_extentD [OF e]
  have xk: "k < length t" "t ! k = extent_index sbi vi e (of_nat (s mod bsize sbi)) (k - ?h) (?f - k)"
    using E(2) k by (simp_all add: extent_indexed_def Let_def)
  from load_nonhead [OF E(1) xk(1) c(1) xk(2) _ E(5,7), of False] k obtain m1 where
    m1: "z_erofs_load_cluster_from_disk sbi vi (of_nat k) False m = Inr m1" "loaded sbi m k m1"
      "mr_type m1 = Z_EROFS_LCLUSTER_TYPE_NONHEAD" "mr_delta0 m1 = of_nat (min (k - ?h) 0x7ff)"
      "mr_compressedblks m1 = (if k - ?h = 1 \<and> erofs_sb_has_big_pcluster sbi then e_compressedblks e else mr_compressedblks m)"
    by (metis zero_less_diff)
  let ?m = "upd_map (m_flags_update (\<lambda>_. 6)) m1" and ?d = "ucast (mr_delta0 m1) :: u32"
  have d: "unat ?d = min (k - ?h) 0x7ff" unfolding m1(4) by (simp add: unat_ucast_up unat_of_nat)
  have k64: "k < 2 ^ 64" using xk(1) full_indexedD(3) [OF E(1)] by simp
  have "\<exists>m'. z_erofs_extent_lookback sbi vi ?d ?m = Inr m' \<and> at_head sbi vi s e m'"
  proof (rule lookback_extent [OF E(1,2,5,7), where k = "k - min (k - ?h) 0x7ff"])
    show "cached sbi (mr_map ?m)" using m1(2) by (simp add: loaded_def)
    show "cblks_known sbi e ?m" using m1(5) c(2) by (simp add: cblks_known_def upd_map_def)
    show "mr_lcn ?m = of_nat (k - min (k - ?h) 0x7ff + unat ?d)" using m1(2) k unfolding d by (simp add: loaded_def)
    show "k - min (k - ?h) 0x7ff + unat ?d < 2 ^ 64" using k64 unfolding d by simp
    show "?h \<le> k - min (k - ?h) 0x7ff" "k - min (k - ?h) 0x7ff = ?h \<or> k - min (k - ?h) 0x7ff < ?f" using k by auto
  qed
  then obtain m2 where "z_erofs_extent_lookback sbi vi ?d ?m = Inr m2" "at_head sbi vi s e m2" by blast
  then have "do_map_find sbi vi endoff m1 = Inr (m2, push_bit (lcbits vi) (mr_lcn m1 + 1))"
    by (simp add: do_map_find_def Let_def m1(3)) (simp add: upd_map_def)
  then show ?thesis using m1(1) \<open>at_head sbi vi s e m2\<close> by blast
qed

lemma find_at_end:
  assumes e: "mapped_extent sbi vi t s e" and c: "cached sbi (mr_map m)" "mr_compressedblks m = 0"
    and hf: "s div bsize sbi < (s + e_len e) div bsize sbi"
    and p: "p div bsize sbi = (s + e_len e) div bsize sbi" "p < s + e_len e" and eo: "unat endoff = p mod bsize sbi"
  shows "\<exists>m1 m2. z_erofs_load_cluster_from_disk sbi vi (of_nat (p div bsize sbi)) False m = Inr m1 \<and>
    do_map_find sbi vi endoff m1 = Inr (m2, of_nat (s + e_len e)) \<and> at_head sbi vi s e m2"
proof -
  let ?B = "bsize sbi" and ?h = "s div bsize sbi" and ?f = "(s + e_len e) div bsize sbi"
  note E = mapped_extentD [OF e]
  note D = full_indexedD [OF E(1)]
  have pm: "p mod ?B < (s + e_len e) mod ?B"
    using p div_mult_mod_eq [of "s + e_len e" ?B] div_mult_mod_eq [of p ?B] by (metis nat_add_left_cancel_less)
  then obtain ty b where h: "head_index (t ! ?f) ty ((s + e_len e) mod ?B) b" "is_head ty" and l: "?f < length t"
    using E(2) hf by (auto simp: extent_indexed_def Let_def split: if_splits)
  from load_head [OF E(1) l c(1) h, of False] obtain m1 where m1: "z_erofs_load_cluster_from_disk sbi vi (of_nat ?f) False m = Inr m1"
    "loaded sbi m ?f m1" "mr_type m1 = ty" "mr_clusterofs m1 = of_nat ((s + e_len e) mod ?B)"
    "mr_compressedblks m1 = mr_compressedblks m" by blast
  have lcn: "mr_lcn m1 = of_nat ?f" using m1(2) by (simp add: loaded_def)
  have f64: "?f < 2 ^ 64" using l D(3) by simp
  have "unat (of_nat ?f :: u64) = ?f" using f64 by (simp only: unat_of_nat) simp
  then have f0: "(of_nat ?f :: u64) \<noteq> 0" using hf by auto
  have sm: "(s + e_len e) mod ?B < 2 ^ 16" using less_le_trans [OF mod_less_divisor D(4), of "s + e_len e"] by simp
  have uc: "unat (mr_clusterofs m1) = (s + e_len e) mod ?B" using sm by (simp add: m1(4) unat_of_nat)
  have nle: "\<not> ucast (mr_clusterofs m1) \<le> endoff" using pm by (simp add: word_le_nat_alt unat_ucast_up uc eo)
  define m1' where "m1' = upd_map (\<lambda>mp. mp\<lparr>m_flags := m_flags mp OR 8\<rparr>) ((upd_map (m_flags_update (\<lambda>_. 6)) m1)\<lparr>mr_delta0 := 1\<rparr>)"
  have "\<exists>m'. z_erofs_extent_lookback sbi vi 1 m1' = Inr m' \<and> at_head sbi vi s e m'"
  proof (rule lookback_extent [OF E(1,2,5,7), where k = "?f - 1"])
    show "cached sbi (mr_map m1')" using m1(2) by (simp add: loaded_def m1'_def upd_map_def cached_def)
    show "cblks_known sbi e m1'" using m1(5) c(2) by (simp add: cblks_known_def upd_map_def m1'_def)
    show "mr_lcn m1' = of_nat (?f - 1 + unat (1 :: u32))" using lcn hf by (simp add: m1'_def upd_map_def)
    show "?f - 1 + unat (1 :: u32) < 2 ^ 64" using f64 hf by simp
    show "?h \<le> ?f - 1" "?f - 1 = ?h \<or> ?f - 1 < ?f" using hf by auto
  qed
  then obtain m2 where m2: "z_erofs_extent_lookback sbi vi 1 m1' = Inr m2" "at_head sbi vi s e m2" by blast
  have la: "push_bit (lcbits vi) (mr_lcn m1) OR ucast (mr_clusterofs m1) = (of_nat (s + e_len e) :: u64)"
    unfolding lcn m1(4) using la_word(1) [OF E(1), of "s + e_len e"] l by simp
  have "do_map_find sbi vi endoff m1 = bindR (z_erofs_extent_lookback sbi vi 1 m1') (\<lambda>m. Inr (m, of_nat (s + e_len e)))"
    using h(2) nle f0 la by (auto simp: do_map_find_def Let_def m1(3) is_head_def lcn m1'_def)
  then show ?thesis using m1(1) m2 p(1) by auto
qed

lemma find_extent:
  assumes e: "mapped_extent sbi vi t s e" and c: "cached sbi (mr_map m)" "mr_compressedblks m = 0"
    and p: "s \<le> p" "p < s + e_len e" and eo: "unat endoff = p mod bsize sbi"
    and ni: "\<not> has_advise vi Z_EROFS_ADVISE_INLINE_PCLUSTER"
  obtains m1 m2 fin where "z_erofs_load_cluster_from_disk sbi vi (of_nat (p div bsize sbi)) False m = Inr m1"
    "do_map_find sbi vi endoff m1 = Inr (m2, fin)" "at_head sbi vi s e m2" "e_raw e \<Longrightarrow> unat (fin - of_nat s) \<le> bsize sbi"
proof -
  let ?B = "bsize sbi" and ?h = "s div bsize sbi" and ?f = "(s + e_len e) div bsize sbi"
  have l: "?h \<le> p div ?B" "p div ?B \<le> ?f" using p by (simp_all add: div_le_mono)
  consider "p div ?B = ?h" | "?h < p div ?B" "p div ?B < ?f" | "?h < ?f" "p div ?B = ?f" using l by linarith
  then show thesis
  proof cases
    case 1
    then show ?thesis using find_at_head [OF e c 1 p(1) eo ni] that by blast
  next
    case 2
    have "\<not> e_raw e"
    proof
      assume "e_raw e"
      then have "e_len e \<le> ?B" using mapped_extentD(3) [OF e] by (simp add: extent_ok_def)
      moreover have "s mod ?B < ?B" by simp
      ultimately have "s mod ?B + e_len e < 2 * ?B" by linarith
      then have "(s mod ?B + e_len e) div ?B < 2" using div_less_iff_less_mult [of ?B "s mod ?B + e_len e" 2] by simp
      then show False using 2 div_shift [of ?B s "e_len e"] by simp
    qed
    then show ?thesis using find_inside [OF e c 2, of endoff] that by blast
  next
    case 3
    have "e_raw e \<Longrightarrow> unat (of_nat (s + e_len e) - of_nat s :: u64) \<le> ?B"
      using mapped_extentD(3) [OF e] by (simp add: extent_ok_def unat_ucast_up)
    then show ?thesis using find_at_end [OF e c 3 p(2) eo] that by blast
  qed
qed

lemma map_extent:
  assumes e: "mapped_extent sbi vi t s e" and c: "cached sbi mp"
    and p: "s \<le> unat (m_la mp)" "unat (m_la mp) < s + e_len e"
    and ni: "\<not> has_advise vi Z_EROFS_ADVISE_INLINE_PCLUSTER" "\<not> has_advise vi Z_EROFS_ADVISE_FRAGMENT_PCLUSTER"
  shows "\<exists>mp'. z_erofs_do_map_blocks sbi vi mp EROFS_GET_BLOCKS_FIEMAP = Inr (vi, mp') \<and> m_la mp' = of_nat s \<and>
    m_llen mp' = of_nat (e_len e) \<and> m_pa mp' = erofs_pos sbi (e_blkaddr e) \<and>
    m_plen mp' = of_nat (unat (e_compressedblks e) * bsize sbi)"
proof -
  note E = mapped_extentD [OF e]
  note D = full_indexedD [OF E(1)]
  let ?p = "unat (m_la mp)"
  have dr: "drop_bit (lcbits vi) (m_la mp) = of_nat (?p div bsize sbi)"
  proof (rule word_unat_eq_iff [THEN iffD2])
    have "unat (drop_bit (lcbits vi) (m_la mp)) = ?p div bsize sbi"
      unfolding E(6) by (simp only: unat_drop_bit_eq) (simp only: drop_bit_eq_div)
    moreover have "?p div bsize sbi < 2 ^ 64" using le_less_trans [OF div_le_dividend unsigned_less [of "m_la mp"]] by simp
    ultimately show "unat (drop_bit (lcbits vi) (m_la mp)) = unat (of_nat (?p div bsize sbi) :: u64)"
      by (simp only: unat_of_nat) simp
  qed
  have eo: "unat (ucast (take_bit (lcbits vi) (m_la mp)) :: u32) = ?p mod bsize sbi"
  proof -
    have "unat (take_bit (lcbits vi) (m_la mp)) = ?p mod bsize sbi"
      unfolding E(6) by (simp only: unsigned_take_bit_eq) (simp only: take_bit_eq_mod)
    moreover have "?p mod bsize sbi < 2 ^ 32" using less_le_trans [OF mod_less_divisor D(4), of ?p] by simp
    ultimately show ?thesis by (simp only: unsigned_ucast_eq) (simp add: take_bit_nat_eq_self)
  qed
  have c0: "cached sbi (mr_map (init_recorder mp))" "mr_compressedblks (init_recorder mp) = 0" using c by (simp_all add: init_recorder_def)
  from find_extent [OF e c0 p eo ni(1)] obtain m1 m2 fin where
    l: "z_erofs_load_cluster_from_disk sbi vi (of_nat (?p div bsize sbi)) False (init_recorder mp) = Inr m1"
    and fd: "do_map_find sbi vi (ucast (take_bit (lcbits vi) (m_la mp))) m1 = Inr (m2, fin)" and a2: "at_head sbi vi s e m2"
    and rw: "e_raw e \<Longrightarrow> unat (fin - of_nat s) \<le> bsize sbi" by blast
  define m3 where "m3 = upd_map (\<lambda>mp. mp\<lparr>m_pa := erofs_pos sbi (mr_pblk m2)\<rparr>)
     (upd_map (\<lambda>mp. mp\<lparr>m_flags := (if mr_partialref m2 then m_flags mp OR EROFS_MAP_PARTIAL_REF else m_flags mp), m_llen := fin - m_la mp\<rparr>) m2)"
  have a3: "at_head sbi vi s e m3" unfolding m3_def by (intro at_head_upd a2) simp_all
  have blk: "head_blkaddr vi e = e_blkaddr e" using E(3) by (simp add: head_blkaddr_def extent_ok_def)
  have s3: "m_la (mr_map m3) = of_nat s" "m_llen (mr_map m3) = fin - of_nat s" "m_pa (mr_map m3) = erofs_pos sbi (e_blkaddr e)"
    "mr_headtype m3 = head_type e"
    using a2 a3 blk by (simp_all add: m3_def at_head_def)
  from compressedlen_extent [OF E(1,2,3,5) a3] obtain m4 where m4: "z_erofs_get_extent_compressedlen sbi vi m3 = Inr m4"
    "cached sbi (mr_map m4)" "behind_head sbi s (e_len e) m4" "m_plen (mr_map m4) = of_nat (unat (e_compressedblks e) * bsize sbi)"
    by blast
  note s4 = compressedlen_frame [OF m4(1)]
  obtain alg where al: "do_map_algo vi m4 = Inr (upd_map (m_algorithmformat_update (\<lambda>_. alg)) m4)"
  proof (cases "e_raw e")
    case True
    then have "e_compressedblks e = 1" using E(3) by (simp add: extent_ok_def)
    then have "m_plen (mr_map m4) = of_nat (bsize sbi)" using m4(4) by simp
    moreover have "unat (of_nat (bsize sbi) :: u64) = bsize sbi" using D(4) by (simp only: unat_of_nat) simp
    ultimately have "\<not> m_plen (mr_map m4) < m_llen (mr_map m4)" using rw [OF True] s3 s4 by (simp add: word_less_nat_alt)
    then show thesis
      by (intro that [of "if has_advise vi Z_EROFS_ADVISE_INTERLACED_PCLUSTER then 5 else 4"])
        (use s3 s4 True in \<open>simp add: do_map_algo_def head_type_def\<close>)
  next
    case False
    then show thesis using that s3 s4 by (simp add: do_map_algo_def head_type_def)
  qed
  let ?m5 = "upd_map (m_algorithmformat_update (\<lambda>_. alg)) m4"
  have "\<exists>m'. z_erofs_get_extent_decompressedlen sbi vi ?m5 = Inr m' \<and> measured ?m5 (e_len e) m'"
  proof (rule measure_extent [OF e])
    show "cached sbi (mr_map ?m5)" using m4(2) by (simp add: cached_def)
    show "m_la (mr_map ?m5) = of_nat s" using s3 s4 by simp
    show "behind_head sbi s (e_len e) ?m5" using m4(3) by (simp add: behind_head_def)
  qed
  then obtain m6 where m6: "z_erofs_get_extent_decompressedlen sbi vi ?m5 = Inr m6" "measured ?m5 (e_len e) m6" by blast
  have pl: "do_map_place sbi vi (upd_map (\<lambda>mp. mp\<lparr>m_flags := (if mr_partialref m2 then m_flags mp OR EROFS_MAP_PARTIAL_REF else m_flags mp),
      m_llen := fin - m_la mp\<rparr>) m2) = Inr m4"
    using m4(1) ni by (simp add: do_map_place_def m3_def)
  have "z_erofs_do_map_blocks sbi vi mp EROFS_GET_BLOCKS_FIEMAP =
      Inr (vi, mr_map (upd_map (\<lambda>mp. mp\<lparr>m_flags := m_flags mp OR EROFS_MAP_FULL_MAPPED\<rparr>) m6))"
    using l fd pl al m6(1) by (simp add: z_erofs_do_map_blocks_def dr Let_def do_map_fiemap_def)
  then show ?thesis using m6(2) s3 s4 m4(4) by (simp add: measured_def)
qed

section \<open>The round trip\<close>

lemma placed_bounds:
  assumes "(s, e) \<in> set (placed s0 es)" and "chained B s0 es"
  shows "s + e_len e \<le> s0 + file_len es \<and> ((s + e_len e) div B = s div B \<longrightarrow> s + e_len e = s0 + file_len es)"
  using assms
proof (induction es arbitrary: s0)
  case (Cons e1 es)
  show ?case
  proof (cases "(s, e) = (s0, e1)")
    case True
    then show ?thesis using Cons.prems(2) by (cases "es = []") auto
  next
    case False
    then show ?thesis using Cons.IH [of "s0 + e_len e1"] Cons.prems by (auto simp: add.assoc)
  qed
qed simp

lemma write_indexes_length:
  assumes "blkbits sbi \<le> 16" and "chained (bsize sbi) 0 es" and "list_all (no_wrap sbi) es"
  shows "length (z_erofs_write_indexes sbi vi es) = (file_len es + bsize sbi - 1) div bsize sbi"
  using write_indexes_loop_length [OF assms, of vi] by (simp add: z_erofs_write_indexes_def)

text \<open>
  C26. The table of full indexes has exactly one entry per block of the file, so it fills the buffer that
  \<^verbatim>\<open>erofs_commit_compressed_file\<close> allocates for it, \<^verbatim>\<open>BLK_ROUND_UP(sbi, inode->i_size)\<close> entries, and never overruns it.
  The extents are chained as the compressor chains them, and none is so long that \<^verbatim>\<open>clusterofs + count\<close> could wrap
  around at 32 bits (\<^verbatim>\<open>no_wrap\<close>), since \<^verbatim>\<open>z_erofs_write_extent\<close> would then write a single index for it.
\<close>

theorem write_indexes_fill_buffer:
  assumes "valid_blkszbits sbi" and "chained (bsize sbi) 0 es" and "unat (i_size vi) = file_len es" and "file_len es < 2 ^ 63"
    and "list_all (no_wrap sbi) es"
  shows "length (z_erofs_write_indexes sbi vi es) = unat (BLK_ROUND_UP sbi (i_size vi))"
proof -
  let ?B = "bsize sbi"
  have b: "blkbits sbi \<le> 12" "blkbits sbi < 32" using assms(1) by (simp_all add: valid_blkszbits_def)
  have B: "?B \<le> 2 ^ 12" using b by (intro power_increasing) simp_all
  have u: "unat (ucast (erofs_blksiz sbi) :: u64) = ?B" using b by (simp add: unat_ucast_up unat_erofs_blksiz)
  define q where "q = (file_len es + ?B - 1) div ?B"
  have qB: "q * ?B < 2 ^ 64" using ceil_div_bounds(2) [of ?B "file_len es"] assms(4) B unfolding q_def by simp
  have s: "unat (i_size vi + (ucast (erofs_blksiz sbi) - 1)) = file_len es + (?B - 1)"
  proof -
    have "unat (ucast (erofs_blksiz sbi) - 1 :: u64) = ?B - 1"
      using u by (subst unat_sub) (simp_all add: word_le_nat_alt)
    then show ?thesis using assms(3,4) B by (simp add: unat_word_ariths(1) less_imp_diff_less)
  qed
  have r: "unat (roundup (i_size vi) (ucast (erofs_blksiz sbi))) = q * ?B"
    using qB u s by (simp add: roundup_def unat_word_ariths(2) unat_div q_def)
  have "unat (BLK_ROUND_UP sbi (i_size vi)) = q"
    unfolding BLK_ROUND_UP_def by (simp only: unat_drop_bit_eq r) (simp add: drop_bit_eq_div)
  then show ?thesis using write_indexes_length [OF _ assms(2,5)] b(1) by (simp add: q_def)
qed

lemma ends_with_file:
  assumes t: "length t = (file_len es + bsize sbi - 1) div bsize sbi" and i: "unat (i_size vi) = file_len es"
    and c: "chained (bsize sbi) 0 es" and p: "(s, e) \<in> set (placed 0 es)"
  shows "ends_with sbi vi t s (e_len e)"
proof -
  let ?B = "bsize sbi"
  have b: "file_len es \<le> length t * ?B" "length t * ?B < file_len es + ?B" unfolding t by (rule ceil_div_bounds; simp)+
  have "l * ?B < file_len es" if "l < length t" for l
  proof -
    have "(l + 1) * ?B \<le> length t * ?B" using that by (intro mult_right_mono) simp_all
    then have "l * ?B + ?B \<le> length t * ?B" by (simp only: add_mult_distrib mult_1)
    then show ?thesis using b(2) by linarith
  qed
  then show ?thesis using b(1) placed_bounds [OF p c] by (simp add: ends_with_def Let_def i)
qed

lemma placed_no_wrap:
  assumes "blkbits sbi \<le> 12" and "list_all (\<lambda>(s, e). extent_ok sbi s e) (placed s0 es)"
  shows "list_all (no_wrap sbi) es"
  using assms(2)
proof (induction es arbitrary: s0)
  case (Cons e es)
  let ?B = "bsize sbi"
  have B: "?B \<le> 2 ^ 12" using assms(1) by (intro power_increasing) simp_all
  have "(s0 mod ?B + e_len e) div ?B < 2 ^ 16" using Cons.prems by (simp add: extent_ok_def)
  then have "s0 mod ?B + e_len e < 2 ^ 16 * ?B" by (subst (asm) div_less_iff_less_mult) simp_all
  then have "no_wrap sbi e" using B by (simp add: no_wrap_def)
  then show ?case using Cons by auto
qed simp

text \<open>
  C4. What the compressor stores as full indexes, the reader maps back: every offset of a compressed file leads
  to the extent that contains it, with its exact start, length, block address and number of blocks.  The
  hypotheses say that the table is on the device where the inode's indexes belong, that the extents are the kind
  the compressor produces, and that the file has no inline or fragment tail.
\<close>

theorem full_index_roundtrip:
  assumes "full_indexed sbi vi (z_erofs_write_indexes sbi vi es)" and "chained (bsize sbi) 0 es"
    and "list_all (\<lambda>(s, e). extent_ok sbi s e) (placed 0 es)" and "unat (i_size vi) = file_len es"
    and "has_advise vi Z_EROFS_ADVISE_BIG_PCLUSTER_1 = erofs_sb_has_big_pcluster sbi"
    and "\<not> has_advise vi Z_EROFS_ADVISE_INLINE_PCLUSTER" and "\<not> has_advise vi Z_EROFS_ADVISE_FRAGMENT_PCLUSTER"
    and "cached sbi mp" and "(s, e) \<in> set (placed 0 es)" and "s \<le> unat (m_la mp)" and "unat (m_la mp) < s + e_len e"
  shows "\<exists>mp'. z_erofs_do_map_blocks sbi vi mp EROFS_GET_BLOCKS_FIEMAP = Inr (vi, mp') \<and> m_la mp' = of_nat s \<and>
    m_llen mp' = of_nat (e_len e) \<and> m_pa mp' = erofs_pos sbi (e_blkaddr e) \<and>
    m_plen mp' = of_nat (unat (e_compressedblks e) * bsize sbi)"
proof -
  have b12: "blkbits sbi \<le> 12" using assms(1) by (simp add: full_indexed_def valid_blkszbits_def)
  then have b: "blkbits sbi \<le> 16" by simp
  have nw: "list_all (no_wrap sbi) es" by (rule placed_no_wrap [OF b12 assms(3)])
  have "mapped_extent sbi vi (z_erofs_write_indexes sbi vi es) s e"
    unfolding mapped_extent_def
  proof (intro conjI)
    show "extent_indexed sbi vi (z_erofs_write_indexes sbi vi es) s e" by (rule write_indexes_indexed [OF b assms(2,9) nw])
    show "extent_ok sbi s e" using assms(3,9) by (auto simp: list_all_iff)
    show "ends_with sbi vi (z_erofs_write_indexes sbi vi es) s (e_len e)"
      by (rule ends_with_file [OF write_indexes_length [OF b assms(2) nw] assms(4,2,9)])
  qed (use assms in simp_all)
  then show ?thesis using assms by (intro map_extent)
qed

text \<open>A file of 1100 bytes with 512-byte blocks: 1000 bytes in one compressed block, 100 bytes raw.\<close>

definition two_extents :: "z_erofs_inmem_extent list" where
  "two_extents =
     [\<lparr>e_blkaddr = 7, e_compressedblks = 1, e_length = 1000, e_raw = False, e_partial = False, e_inlined = False\<rparr>,
      \<lparr>e_blkaddr = 8, e_compressedblks = 1, e_length = 100, e_raw = True, e_partial = False, e_inlined = False\<rparr>]"

definition two_vi :: erofs_inode where
  "two_vi = (zero_inode 0)\<lparr>datalayout := EROFS_INODE_COMPRESSED_FULL, i_size := 1100, z_logical_clusterbits := 9\<rparr>"

definition two_dev :: "bytes \<Rightarrow> erofs_sb_info" where
  "two_dev bs = (zero_sbi (plain_file bs))\<lparr>blkszbits := 9\<rparr>"

definition two_img :: erofs_sb_info where
  "two_img = two_dev (replicate 16 0 @ concat (map enc_lcluster_index (z_erofs_write_indexes (two_dev []) two_vi two_extents)))"

lemma two_sel:
  "bdev (two_dev bs) = plain_file bs" "blkszbits (two_dev bs) = 9" "erofs_sb_has_big_pcluster (two_dev bs) = False"
  "datalayout two_vi = EROFS_INODE_COMPRESSED_FULL" "i_size two_vi = 1100" "z_logical_clusterbits two_vi = 9" "has_advise two_vi k = False"
  "legacy_index_pos (two_dev bs) two_vi 0 = 16"
  by (simp_all add: two_dev_def zero_sbi_def two_vi_def zero_inode_def has_advise_def erofs_sb_has_big_pcluster_def has_feature_def
      legacy_index_pos_def Z_EROFS_FULL_INDEX_ALIGN_def round_up_def erofs_iloc_def erofs_pos_def)

lemma two_table:
  "z_erofs_write_indexes (two_dev bs) two_vi two_extents =
     [\<lparr>di_advise = 1, di_clusterofs = 0, di_u = 7\<rparr>, \<lparr>di_advise = 0, di_clusterofs = 488, di_u = 8\<rparr>,
      \<lparr>di_advise = 0, di_clusterofs = 76, di_u = 0\<rparr>]"
  by (simp add: z_erofs_write_indexes_def two_extents_def z_erofs_write_extent_def extent_loop.simps erofs_blksiz_def two_sel
      Let_def extent_index_def head_type_def head_blkaddr_def z_erofs_write_indexes_final_def word_le_def word_less_def)

lemma two_indexed: "full_indexed two_img two_vi (z_erofs_write_indexes two_img two_vi two_extents)"
  unfolding two_img_def two_table
  by (simp add: full_indexed_def two_sel valid_blkszbits_def plain_file_def quiet_def zread_def)

theorem write_indexes_fill_buffer_witness:
  "length (z_erofs_write_indexes two_img two_vi two_extents) = unat (BLK_ROUND_UP two_img 1100)"
proof -
  have "chained (bsize two_img) 0 two_extents" "file_len two_extents = 1100" "list_all (no_wrap two_img) two_extents"
    by (simp_all add: two_extents_def two_img_def two_sel no_wrap_def)
  moreover have "valid_blkszbits two_img" by (simp add: two_img_def two_sel valid_blkszbits_def)
  ultimately show ?thesis using write_indexes_fill_buffer [of two_img two_extents two_vi] by (simp add: two_sel)
qed

theorem full_index_roundtrip_witness:
  "\<exists>mp'. z_erofs_do_map_blocks two_img two_vi (init_map\<lparr>m_la := 1024\<rparr>) EROFS_GET_BLOCKS_FIEMAP = Inr (two_vi, mp') \<and>
    m_la mp' = 1000 \<and> m_llen mp' = 100 \<and> m_pa mp' = 4096 \<and> m_plen mp' = 512"
proof -
  have B: "blkszbits two_img = 9" "erofs_sb_has_big_pcluster two_img = False" by (simp_all add: two_img_def two_sel)
  have "\<exists>mp'. z_erofs_do_map_blocks two_img two_vi (init_map\<lparr>m_la := 1024\<rparr>) EROFS_GET_BLOCKS_FIEMAP = Inr (two_vi, mp') \<and>
    m_la mp' = of_nat 1000 \<and> m_llen mp' = of_nat (e_len (two_extents ! 1)) \<and> m_pa mp' = erofs_pos two_img (e_blkaddr (two_extents ! 1)) \<and>
    m_plen mp' = of_nat (unat (e_compressedblks (two_extents ! 1)) * bsize two_img)"
  proof (rule full_index_roundtrip [OF two_indexed])
    show "chained (bsize two_img) 0 two_extents" by (simp add: two_extents_def B)
    show "list_all (\<lambda>(s, e). extent_ok two_img s e) (placed 0 two_extents)" by (simp add: two_extents_def B extent_ok_def)
    show "unat (i_size two_vi) = file_len two_extents" by (simp add: two_extents_def two_sel)
    show "(1000, two_extents ! 1) \<in> set (placed 0 two_extents)" by (simp add: two_extents_def)
    show "cached two_img (init_map\<lparr>m_la := 1024\<rparr>)" by simp
  qed (simp_all add: two_sel B two_extents_def)
  then show ?thesis by (simp add: two_extents_def B erofs_pos_def)
qed

end
