(* ===== verification/Erofs_Hashmap.thy ===== *)
theory Erofs_Hashmap
  imports Erofs_Prelude "HOL-Library.Multiset"
begin

text \<open>
  The hash map of \<^verbatim>\<open>lib/hashmap.c\<close>: chained buckets that grow and shrink.  An entry is its address, its hash and what it
  is embedded in; a bucket is the list of the entries its chain links.  The table refines a multiset of entries,
  and the locale \<^verbatim>\<open>entry_bag\<close> is what its users rely on.
\<close>

section \<open>Hash functions\<close>

definition fnv_step :: "u8 \<Rightarrow> u32 \<Rightarrow> u32" where
  "fnv_step c hash = (hash * 0x01000193) XOR ucast c"

definition upper :: "u8 \<Rightarrow> u8" where
  "upper c = (if 97 \<le> c \<and> c \<le> 122 then c - 32 else c)"

definition memhash :: "bytes \<Rightarrow> u32" where
  "memhash buf = fold fnv_step buf 0x811c9dc5"

definition memihash :: "bytes \<Rightarrow> u32" where
  "memihash buf = fold (fnv_step \<circ> upper) buf 0x811c9dc5"

definition strhash :: "bytes \<Rightarrow> u32" where
  "strhash s = fold fnv_step (c_str s) 0x811c9dc5"

definition strihash :: "bytes \<Rightarrow> u32" where
  "strihash s = fold (fnv_step \<circ> upper) (c_str s) 0x811c9dc5"

section \<open>The map\<close>

record 'a hashmap_entry =
  he_id :: nat
  he_hash :: u32
  he_data :: 'a

record ('a, 'k) hashmap =
  table :: "'a hashmap_entry list list"
  cmpfn :: "'a hashmap_entry \<Rightarrow> 'a hashmap_entry \<Rightarrow> 'k \<Rightarrow> bool"
  hm_size :: u32
  tablesize :: u32
  grow_at :: u32
  shrink_at :: u32

abbreviation (input) HASHMAP_INITIAL_SIZE :: u32 where "HASHMAP_INITIAL_SIZE \<equiv> 64"
abbreviation (input) HASHMAP_RESIZE_BITS :: nat where "HASHMAP_RESIZE_BITS \<equiv> 2"

definition alloc_table :: "u32 \<Rightarrow> ('a, 'k) hashmap \<Rightarrow> ('a, 'k) hashmap" where
  "alloc_table sz hm =
     (let grow = ucast ((ucast sz :: u64) * 80 div 100) in
      hm\<lparr>table := replicate (unat sz) [], tablesize := sz, grow_at := grow,
          shrink_at := (if sz \<le> HASHMAP_INITIAL_SIZE then 0 else grow div 5)\<rparr>)"

text \<open>\<^verbatim>\<open>cmpfn\<close> is true when the C function returns something else than 0, that is for different entries.\<close>

definition entry_equals :: "('a, 'k) hashmap \<Rightarrow> 'a hashmap_entry \<Rightarrow> 'a hashmap_entry \<Rightarrow> 'k \<Rightarrow> bool" where
  "entry_equals hm e1 e2 kd \<longleftrightarrow> he_id e1 = he_id e2 \<or> he_hash e1 = he_hash e2 \<and> \<not> cmpfn hm e1 e2 kd"

definition bucket :: "('a, 'k) hashmap \<Rightarrow> 'a hashmap_entry \<Rightarrow> nat" where
  "bucket hm key = unat (he_hash key AND (tablesize hm - 1))"

definition push_entry :: "'a hashmap_entry \<Rightarrow> ('a, 'k) hashmap \<Rightarrow> ('a, 'k) hashmap" where
  "push_entry e hm = hm\<lparr>table := (table hm)[bucket hm e := e # (table hm ! bucket hm e)]\<rparr>"

definition rehash :: "u32 \<Rightarrow> ('a, 'k) hashmap \<Rightarrow> ('a, 'k) hashmap" where
  "rehash newsize hm = fold push_entry (concat (table hm)) (alloc_table newsize hm)"

text \<open>The chain from the entry found, or the empty chain at the end.\<close>

definition find_entry_ptr :: "('a, 'k) hashmap \<Rightarrow> 'a hashmap_entry \<Rightarrow> 'k \<Rightarrow> 'a hashmap_entry list" where
  "find_entry_ptr hm key kd = dropWhile (\<lambda>e. \<not> entry_equals hm e key kd) (table hm ! bucket hm key)"

text \<open>Shifting a size of \<^verbatim>\<open>2^30\<close> gives 0, which stays 0: the loop may not end.\<close>

partial_function (option) init_size :: "u32 \<Rightarrow> u32 \<Rightarrow> u32 option" where
  "init_size want sz = (if sz < want then init_size want (push_bit HASHMAP_RESIZE_BITS sz) else Some sz)"

definition hashmap_init ::
    "('a hashmap_entry \<Rightarrow> 'a hashmap_entry \<Rightarrow> 'k \<Rightarrow> bool) option \<Rightarrow> u64 \<Rightarrow> ('a, 'k) hashmap option" where
  "hashmap_init equals_function initial_size =
     (case init_size (ucast (initial_size * 100 div 80)) HASHMAP_INITIAL_SIZE of
        None \<Rightarrow> None
      | Some sz \<Rightarrow>
          Some (alloc_table sz
            \<lparr>table = [], cmpfn = (case equals_function of None \<Rightarrow> \<lambda>_ _ _. False | Some f \<Rightarrow> f), hm_size = 0, tablesize = 0,
             grow_at = 0, shrink_at = 0\<rparr>))"

definition hashmap_get :: "('a, 'k) hashmap \<Rightarrow> 'a hashmap_entry \<Rightarrow> 'k \<Rightarrow> 'a hashmap_entry option" where
  "hashmap_get hm key kd = (case find_entry_ptr hm key kd of [] \<Rightarrow> None | e # _ \<Rightarrow> Some e)"

definition hashmap_get_next :: "('a, 'k) hashmap \<Rightarrow> 'a hashmap_entry \<Rightarrow> 'k \<Rightarrow> 'a hashmap_entry option" where
  "hashmap_get_next hm entry nokey =
     find (\<lambda>e. entry_equals hm entry e nokey) (tl (dropWhile (\<lambda>e. he_id e \<noteq> he_id entry) (table hm ! bucket hm entry)))"

definition hashmap_add :: "'a hashmap_entry \<Rightarrow> ('a, 'k) hashmap \<Rightarrow> ('a, 'k) hashmap" where
  "hashmap_add e hm =
     (let hm = (push_entry e hm)\<lparr>hm_size := hm_size hm + 1\<rparr> in
      if grow_at hm < hm_size hm then rehash (push_bit HASHMAP_RESIZE_BITS (tablesize hm)) hm else hm)"

definition hashmap_remove :: "'a hashmap_entry \<Rightarrow> ('a, 'k) hashmap \<Rightarrow> 'a hashmap_entry option \<times> ('a, 'k) hashmap" where
  "hashmap_remove e hm =
     (let b = bucket hm e; front = takeWhile (\<lambda>x. he_id x \<noteq> he_id e) (table hm ! b);
          rest = dropWhile (\<lambda>x. he_id x \<noteq> he_id e) (table hm ! b) in
      case rest of
        [] \<Rightarrow> (None, hm)
      | old # next \<Rightarrow>
          let hm = hm\<lparr>table := (table hm)[b := front @ next], hm_size := hm_size hm - 1\<rparr> in
          (Some old, if hm_size hm < shrink_at hm then rehash (drop_bit HASHMAP_RESIZE_BITS (tablesize hm)) hm else hm))"

definition hashmap_disable_shrink :: "('a, 'k) hashmap \<Rightarrow> ('a, 'k) hashmap" where
  "hashmap_disable_shrink hm = hm\<lparr>shrink_at := 0\<rparr>"

text \<open>An iterator: the chain behind the entry returned last, and the next bucket.\<close>

record 'a hashmap_iter =
  iter_next :: "'a hashmap_entry list"
  tablepos :: u32

definition hashmap_iter_init :: "'a hashmap_iter" where
  "hashmap_iter_init = \<lparr>iter_next = [], tablepos = 0\<rparr>"

function hashmap_iter_next :: "('a, 'k) hashmap \<Rightarrow> 'a hashmap_iter \<Rightarrow> 'a hashmap_entry option \<times> 'a hashmap_iter" where
  "hashmap_iter_next hm it =
     (case iter_next it of
        e # next \<Rightarrow> (Some e, it\<lparr>iter_next := next\<rparr>)
      | [] \<Rightarrow>
          if tablesize hm \<le> tablepos it then (None, it)
          else hashmap_iter_next hm (it\<lparr>iter_next := table hm ! unat (tablepos it), tablepos := tablepos it + 1\<rparr>))"
  by pat_completeness auto
termination
proof (relation "measure (\<lambda>(hm, it). unat (tablesize hm) - unat (tablepos it))", goal_cases)
  case (2 hm it)
  then have "unat (tablepos it) < unat (tablesize hm)" by (simp add: word_less_nat_alt not_le)
  moreover from this have "unat (tablepos it + 1) = unat (tablepos it) + 1"
    using unsigned_less [of "tablesize hm", where ?'a = nat] by (simp add: unat_word_ariths)
  ultimately show ?case by simp
qed simp

declare hashmap_iter_next.simps [simp del]

text \<open>The map is freed only when it is empty; a freed map is all zeroes.\<close>

definition hashmap_free :: "('a, 'k) hashmap \<Rightarrow> unit result" where
  "hashmap_free hm = (case fst (hashmap_iter_next hm hashmap_iter_init) of None \<Rightarrow> Inr () | Some _ \<Rightarrow> Err EBUSY)"

section \<open>Invariant and abstraction\<close>

text \<open>The entries of a map.\<close>

definition bag :: "('a, 'k) hashmap \<Rightarrow> 'a hashmap_entry multiset" where
  "bag hm = mset (concat (table hm))"

text \<open>
  The number of buckets is \<^verbatim>\<open>64 * 4^j\<close>, every entry is in the bucket of its hash and no entry is linked twice.  With
  at most \<^verbatim>\<open>2^30\<close> buckets no size wraps around.
\<close>

definition shaped :: "nat \<Rightarrow> ('a, 'k) hashmap \<Rightarrow> bool" where
  "shaped j hm \<longleftrightarrow>
     j \<le> 12 \<and> unat (tablesize hm) = 64 * 4 ^ j \<and> length (table hm) = 64 * 4 ^ j \<and>
     unat (grow_at hm) = 64 * 4 ^ j * 80 div 100 \<and>
     unat (shrink_at hm) \<le> (if j = 0 then 0 else 64 * 4 ^ (j - 1) * 80 div 100) \<and>
     (\<forall>i<length (table hm). \<forall>e\<in>set (table hm ! i). bucket hm e = i) \<and> distinct (map he_id (concat (table hm)))"

definition hm_inv :: "('a, 'k) hashmap \<Rightarrow> bool" where
  "hm_inv hm \<longleftrightarrow> (\<exists>j. shaped j hm) \<and> unat (hm_size hm) = size (bag hm) \<and> hm_size hm \<le> grow_at hm"

lemma mask_mod:
  fixes x m :: u32
  assumes "unat m = 2 ^ k" and "k < 32"
  shows "unat (x AND (m - 1)) = unat x mod 2 ^ k"
proof -
  have "unat (push_bit k 1 :: u32) = 2 ^ k" using power_strict_increasing [OF assms(2), of "2::nat"] by (subst unat_push_small) simp_all
  then have "m = 2 ^ k" using assms(1) by (simp add: word_unat_eq_iff push_bit_eq_mult)
  then have "x AND (m - 1) = take_bit k x" by (simp add: take_bit_eq_mask mask_eq_exp_minus_1)
  then show ?thesis by (simp only: unsigned_take_bit_eq) (simp add: take_bit_eq_mod)
qed

lemma shaped_pow: "(64 * 4 ^ j :: nat) = 2 ^ (6 + 2 * j)"
  by (simp add: power_add power_mult)

lemma bucket_mod: "shaped j hm \<Longrightarrow> bucket hm e = unat (he_hash e) mod 2 ^ (6 + 2 * j)"
  unfolding bucket_def shaped_def shaped_pow by (intro mask_mod) auto

lemma bucket_lt: "shaped j hm \<Longrightarrow> bucket hm e < length (table hm)"
  by (simp add: bucket_mod) (simp add: shaped_def shaped_pow)

lemma concat_update:
  assumes "i < length xss"
  shows "mset (concat (xss[i := ys])) + mset (xss ! i) = mset (concat xss) + mset ys"
proof -
  have "concat xss = concat (take i xss) @ xss ! i @ concat (drop (Suc i) xss)"
    using assms by (subst id_take_nth_drop [OF assms]) simp
  moreover have "concat (xss[i := ys]) = concat (take i xss) @ ys @ concat (drop (Suc i) xss)"
    using assms by (subst upd_conv_take_nth_drop [OF assms]) simp
  ultimately show ?thesis by simp
qed

lemma push_entry_sel [simp]:
  "tablesize (push_entry e hm) = tablesize hm" "grow_at (push_entry e hm) = grow_at hm" "shrink_at (push_entry e hm) = shrink_at hm"
  "hm_size (push_entry e hm) = hm_size hm" "cmpfn (push_entry e hm) = cmpfn hm" "bucket (push_entry e hm) = bucket hm"
  by (simp_all add: push_entry_def bucket_def fun_eq_iff)

lemma bag_push:
  assumes "bucket hm e < length (table hm)"
  shows "bag (push_entry e hm) = add_mset e (bag hm)"
  using concat_update [OF assms, of "e # table hm ! bucket hm e"] by (simp add: bag_def push_entry_def)

lemma distinct_ids_add:
  assumes "mset (concat t') = add_mset e (mset (concat t))"
  shows "distinct (map he_id (concat t')) \<longleftrightarrow> he_id e \<notin> he_id ` set (concat t) \<and> distinct (map he_id (concat t))"
proof -
  have "mset (map he_id (concat t')) = mset (map he_id (e # concat t))" using assms by simp
  from mset_eq_imp_distinct_iff [OF this] show ?thesis by simp
qed

lemma shaped_push:
  assumes "shaped j hm" and "he_id e \<notin> he_id ` set_mset (bag hm)"
  shows "shaped j (push_entry e hm)"
proof -
  have b: "bucket hm e < length (table hm)" by (rule bucket_lt [OF assms(1)])
  have "distinct (map he_id (concat (table (push_entry e hm))))"
    using distinct_ids_add [OF bag_push [OF b, unfolded bag_def]] assms by (simp add: shaped_def bag_def)
  then show ?thesis
    using assms(1) b by (auto simp: shaped_def nth_list_update) (auto simp: push_entry_def nth_list_update split: if_splits)
qed

lemma alloc_table_sel [simp]:
  "tablesize (alloc_table n hm) = n" "table (alloc_table n hm) = replicate (unat n) []" "hm_size (alloc_table n hm) = hm_size hm"
  "cmpfn (alloc_table n hm) = cmpfn hm"
  by (simp_all add: alloc_table_def Let_def)

lemma alloc_table_shaped:
  assumes "unat n = 64 * 4 ^ j" and "j \<le> 12"
  shows "shaped j (alloc_table n hm)" and "bag (alloc_table n hm) = {#}"
proof -
  have "(4::nat) ^ j \<le> 4 ^ 12" using assms(2) by (intro power_increasing) simp_all
  then have le: "64 * 4 ^ j * 80 < (2 ^ 64 :: nat)" "64 * 4 ^ j * 80 div 100 < (2 ^ 32 :: nat)" by simp_all
  have u: "unat ((ucast n :: u64) * 80 div 100) = 64 * 4 ^ j * 80 div 100"
    using assms(1) le by (simp add: unat_div unat_word_ariths unat_ucast_up)
  have g: "unat (grow_at (alloc_table n hm)) = 64 * 4 ^ j * 80 div 100"
  proof -
    have "unat (ucast ((ucast n :: u64) * 80 div 100) :: u32) = 64 * 4 ^ j * 80 div 100"
      using le u by (simp only: unsigned_ucast_eq) (simp add: take_bit_nat_eq_self)
    then show ?thesis by (simp add: alloc_table_def Let_def)
  qed
  have s: "unat (shrink_at (alloc_table n hm)) \<le> (if j = 0 then 0 else 64 * 4 ^ (j - 1) * 80 div 100)"
  proof (cases j)
    case 0
    then show ?thesis using assms(1) by (simp add: alloc_table_def Let_def word_le_nat_alt)
  next
    case (Suc i)
    have "unat (shrink_at (alloc_table n hm)) \<le> unat (grow_at (alloc_table n hm)) div 5"
      by (simp add: alloc_table_def Let_def unat_div)
    also have "\<dots> \<le> 64 * 4 ^ i * 80 div 100" unfolding g Suc by simp
    finally show ?thesis by (simp add: Suc)
  qed
  have c: "concat (table (alloc_table n hm)) = []" by simp
  show "bag (alloc_table n hm) = {#}" unfolding bag_def c by simp
  show "shaped j (alloc_table n hm)"
    using assms g s c by (simp add: shaped_def)
qed

lemma fold_push:
  assumes "shaped j hm" and "distinct (map he_id es)" and "he_id ` set es \<inter> he_id ` set_mset (bag hm) = {}"
  shows "shaped j (fold push_entry es hm) \<and> bag (fold push_entry es hm) = mset es + bag hm"
  using assms
proof (induction es arbitrary: hm)
  case (Cons e es)
  have b: "bag (push_entry e hm) = add_mset e (bag hm)" using bag_push bucket_lt [OF Cons.prems(1)] by blast
  have "shaped j (push_entry e hm)" using shaped_push [OF Cons.prems(1)] Cons.prems(3) by auto
  then have "shaped j (fold push_entry es (push_entry e hm)) \<and> bag (fold push_entry es (push_entry e hm)) = mset es + bag (push_entry e hm)"
    using Cons.prems b by (intro Cons.IH) auto
  then show ?case using b by simp
qed simp

lemma fold_push_sel [simp]: "hm_size (fold push_entry es hm) = hm_size hm" "cmpfn (fold push_entry es hm) = cmpfn hm"
  by (induction es arbitrary: hm) simp_all

lemma rehash_ok:
  assumes "unat n = 64 * 4 ^ j" and "j \<le> 12" and "distinct (map he_id (concat (table hm)))"
  shows "shaped j (rehash n hm)" and "bag (rehash n hm) = bag hm" and "hm_size (rehash n hm) = hm_size hm" and "cmpfn (rehash n hm) = cmpfn hm"
  using fold_push [OF alloc_table_shaped(1) [OF assms(1,2)] assms(3), of hm] alloc_table_shaped(2) [OF assms(1,2), of hm]
  by (simp_all add: rehash_def bag_def)

lemma shaped_size_update [simp]: "shaped j (hm\<lparr>hm_size := n\<rparr>) = shaped j hm" "bag (hm\<lparr>hm_size := n\<rparr>) = bag hm"
  by (simp_all add: shaped_def bag_def bucket_def)

lemma grow_at_mono: "j < k \<Longrightarrow> 64 * 4 ^ j * 80 div 100 < (64 * 4 ^ k * 80 div 100 :: nat)"
proof -
  assume "j < k"
  then have "(4::nat) ^ Suc j \<le> 4 ^ k" by (intro power_increasing) simp_all
  then have "64 * 4 ^ j * 80 + 100 \<le> (64 * 4 ^ k * 80 :: nat)" using one_le_power [of "4::nat" j] by (simp only: power_Suc) linarith
  then show ?thesis by linarith
qed

lemma hashmap_add_ok:
  assumes "hm_inv hm" and "he_id e \<notin> he_id ` set_mset (bag hm)" and sz: "size (bag hm) < 64 * 4 ^ 12 * 80 div 100"
  shows "hm_inv (hashmap_add e hm)" and "bag (hashmap_add e hm) = add_mset e (bag hm)" and "cmpfn (hashmap_add e hm) = cmpfn hm"
proof -
  obtain j where j: "shaped j hm" and n: "unat (hm_size hm) = size (bag hm)" and le: "hm_size hm \<le> grow_at hm"
    using assms(1) by (auto simp: hm_inv_def)
  define h1 where "h1 = (push_entry e hm)\<lparr>hm_size := hm_size hm + 1\<rparr>"
  have s1: "shaped j h1" and b1: "bag h1 = add_mset e (bag hm)" and c1: "cmpfn h1 = cmpfn hm"
    using shaped_push [OF j assms(2)] bag_push [OF bucket_lt [OF j]] by (simp_all add: h1_def)
  have n1: "unat (hm_size h1) = size (bag h1)" using n sz by (simp add: h1_def b1 [unfolded h1_def, simplified] unat_word_ariths)
  have add: "hashmap_add e hm = (if grow_at h1 < hm_size h1 then rehash (push_bit 2 (tablesize h1)) h1 else h1)"
    by (simp add: hashmap_add_def h1_def Let_def)
  have *: "hm_inv (hashmap_add e hm) \<and> bag (hashmap_add e hm) = add_mset e (bag hm) \<and> cmpfn (hashmap_add e hm) = cmpfn hm"
  proof (cases "grow_at h1 < hm_size h1")
    case False
    then show ?thesis using s1 b1 c1 n1 add by (auto simp: hm_inv_def not_less)
  next
    case True
    have g: "unat (grow_at hm) = 64 * 4 ^ j * 80 div 100" "unat (tablesize h1) = 64 * 4 ^ j" using j s1 by (simp_all add: shaped_def)
    have "unat (grow_at h1) < size (bag h1)" using True n1 by (simp add: word_less_nat_alt)
    then have "64 * 4 ^ j * 80 div 100 \<le> size (bag hm)" using g by (simp add: h1_def b1 [unfolded h1_def, simplified])
    then have "64 * 4 ^ j * 80 div 100 < (64 * 4 ^ 12 * 80 div 100 :: nat)" using sz by linarith
    then have "j < 12" using j grow_at_mono [of 12 j] by (auto simp: shaped_def le_less)
    then have "(4::nat) ^ j \<le> 4 ^ 11" by (intro power_increasing) simp_all
    then have t: "unat (push_bit 2 (tablesize h1)) = 64 * 4 ^ Suc j" using g(2) by (subst unat_push_small) simp_all
    have r: "shaped (Suc j) (rehash (push_bit 2 (tablesize h1)) h1)" "bag (rehash (push_bit 2 (tablesize h1)) h1) = bag h1"
        "hm_size (rehash (push_bit 2 (tablesize h1)) h1) = hm_size h1" "cmpfn (rehash (push_bit 2 (tablesize h1)) h1) = cmpfn h1"
      using rehash_ok [OF t, of h1] s1 \<open>j < 12\<close> by (simp_all add: shaped_def)
    have "size (bag h1) \<le> 64 * 4 ^ j * 80 div 100 + 1" using n le g b1 by (simp add: word_le_nat_alt)
    then have "size (bag h1) \<le> 64 * 4 ^ Suc j * 80 div 100" using grow_at_mono [of j "Suc j"] by linarith
    then have "hm_size h1 \<le> grow_at (rehash (push_bit 2 (tablesize h1)) h1)" using r(1) n1 by (simp add: word_le_nat_alt shaped_def)
    then show ?thesis using True r n1 b1 c1 add by (auto simp: hm_inv_def)
  qed
  then show "hm_inv (hashmap_add e hm)" "bag (hashmap_add e hm) = add_mset e (bag hm)" "cmpfn (hashmap_add e hm) = cmpfn hm"
    by simp_all
qed

lemma in_bag_bucket:
  assumes "shaped j hm" and "e \<in># bag hm"
  shows "e \<in> set (table hm ! bucket hm e)"
proof -
  obtain xs where xs: "xs \<in> set (table hm)" "e \<in> set xs" using assms(2) by (auto simp: bag_def)
  then obtain i where i: "i < length (table hm)" "table hm ! i = xs" by (auto simp: in_set_conv_nth)
  then have "bucket hm e = i" using assms(1) xs(2) by (auto simp: shaped_def)
  then show ?thesis using i xs by simp
qed

lemma bucket_in_bag: "shaped j hm \<Longrightarrow> e \<in> set (table hm ! bucket hm k) \<Longrightarrow> e \<in># bag hm"
  using nth_mem [OF bucket_lt [of j hm k]] by (auto simp: bag_def)

lemma ids_inj:
  assumes "shaped j hm" and "e \<in># bag hm" and "x \<in># bag hm" and "he_id e = he_id x"
  shows "e = x"
  using assms by (auto simp: shaped_def bag_def distinct_map dest: inj_onD)

lemma dropWhile_ConsD: "dropWhile P xs = y # ys \<Longrightarrow> \<not> P y \<and> y \<in> set xs"
  by (induction xs) (auto split: if_splits)

lemma remove_split:
  assumes "shaped j hm" and "e \<in># bag hm"
  defines "xs \<equiv> table hm ! bucket hm e"
  obtains nxt where "dropWhile (\<lambda>x. he_id x \<noteq> he_id e) xs = e # nxt" "xs = takeWhile (\<lambda>x. he_id x \<noteq> he_id e) xs @ e # nxt"
proof -
  have e: "e \<in> set xs" unfolding xs_def by (rule in_bag_bucket [OF assms(1,2)])
  then obtain y nxt where d: "dropWhile (\<lambda>x. he_id x \<noteq> he_id e) xs = y # nxt"
    by (cases "dropWhile (\<lambda>x. he_id x \<noteq> he_id e) xs") auto
  then have "he_id y = he_id e" "y \<in> set xs" using dropWhile_ConsD [OF d] by simp_all
  then have "y = e" using ids_inj [OF assms(1) bucket_in_bag [OF assms(1)] assms(2)] by (simp add: xs_def)
  then show thesis using that [of nxt] d takeWhile_dropWhile_id [of "\<lambda>x. he_id x \<noteq> he_id e" xs] by simp
qed

lemma hashmap_remove_ok:
  assumes "hm_inv hm" and e: "e \<in># bag hm"
  shows "fst (hashmap_remove e hm) = Some e" and "hm_inv (snd (hashmap_remove e hm))"
    and "bag (snd (hashmap_remove e hm)) = bag hm - {#e#}" and "cmpfn (snd (hashmap_remove e hm)) = cmpfn hm"
proof -
  obtain j where j: "shaped j hm" and n: "unat (hm_size hm) = size (bag hm)" and le: "hm_size hm \<le> grow_at hm"
    using assms(1) by (auto simp: hm_inv_def)
  let ?b = "bucket hm e"
  let ?front = "takeWhile (\<lambda>x. he_id x \<noteq> he_id e) (table hm ! ?b)"
  from remove_split [OF j e] obtain nxt where d: "dropWhile (\<lambda>x. he_id x \<noteq> he_id e) (table hm ! ?b) = e # nxt"
    and split: "table hm ! ?b = ?front @ e # nxt" by blast
  define h1 where "h1 = hm\<lparr>table := (table hm)[?b := ?front @ nxt], hm_size := hm_size hm - 1\<rparr>"
  have rm: "hashmap_remove e hm = (Some e, if hm_size h1 < shrink_at h1 then rehash (drop_bit 2 (tablesize h1)) h1 else h1)"
    by (simp add: hashmap_remove_def Let_def d h1_def)
  have bl: "?b < length (table hm)" by (rule bucket_lt [OF j])
  have "mset (concat ((table hm)[?b := ?front @ nxt])) + mset (table hm ! ?b) = mset (concat (table hm)) + mset (?front @ nxt)"
    by (rule concat_update [OF bl])
  moreover have "mset (table hm ! ?b) = add_mset e (mset (?front @ nxt))" by (subst split) simp
  ultimately have ba: "bag hm = add_mset e (bag h1)" by (simp add: bag_def h1_def)
  have "distinct (map he_id (concat (table h1)))"
    using distinct_ids_add [OF ba [unfolded bag_def]] j by (simp add: shaped_def)
  moreover have "\<forall>i<length (table h1). \<forall>x\<in>set (table h1 ! i). bucket h1 x = i"
  proof (intro allI impI ballI)
    fix i x assume i: "i < length (table h1)" "x \<in> set (table h1 ! i)"
    then have "x \<in> set (table hm ! i)"
      using bl split by (cases "i = ?b") (auto simp: h1_def dest: set_takeWhileD arg_cong [of _ _ set])
    then show "bucket h1 x = i" using i j by (simp add: shaped_def h1_def bucket_def)
  qed
  ultimately have s1: "shaped j h1" using j by (simp add: shaped_def h1_def)
  have n1: "unat (hm_size h1) = size (bag h1)"
  proof -
    have "1 \<le> hm_size hm" using n ba by (simp add: word_le_nat_alt)
    then show ?thesis using n ba by (simp add: h1_def unat_sub)
  qed
  have *: "hm_inv (snd (hashmap_remove e hm)) \<and> bag (snd (hashmap_remove e hm)) = bag h1 \<and> cmpfn (snd (hashmap_remove e hm)) = cmpfn hm"
  proof (cases "hm_size h1 < shrink_at h1")
    case False
    have "unat (grow_at h1) = unat (grow_at hm)" by (simp add: h1_def)
    then have "hm_size h1 \<le> grow_at h1" using n n1 ba le by (simp add: word_le_nat_alt)
    then show ?thesis using False rm s1 n1 by (auto simp: hm_inv_def h1_def)
  next
    case True
    then have lt: "size (bag h1) < unat (shrink_at h1)" using n1 by (simp add: word_less_nat_alt)
    then obtain i where i: "j = Suc i" using s1 by (cases j) (auto simp: shaped_def)
    have t: "unat (drop_bit 2 (tablesize h1)) = 64 * 4 ^ i"
      using s1 unfolding shaped_def i by (simp only: unat_drop_bit_eq) (simp add: drop_bit_eq_div)
    let ?r = "rehash (drop_bit 2 (tablesize h1)) h1"
    have r: "shaped i ?r" "bag ?r = bag h1" "hm_size ?r = hm_size h1" "cmpfn ?r = cmpfn h1"
      using rehash_ok [OF t, of h1] s1 by (simp_all add: shaped_def i)
    have "hm_size h1 \<le> grow_at ?r" using r(1) s1 lt n1 i by (simp add: word_le_nat_alt shaped_def)
    then show ?thesis using True rm r n1 by (auto simp: hm_inv_def h1_def)
  qed
  show "fst (hashmap_remove e hm) = Some e" by (simp add: rm)
  show "hm_inv (snd (hashmap_remove e hm))" "bag (snd (hashmap_remove e hm)) = bag hm - {#e#}" "cmpfn (snd (hashmap_remove e hm)) = cmpfn hm"
    using * ba by simp_all
qed

lemma hashmap_remove_absent:
  assumes "hm_inv hm" and "he_id e \<notin> he_id ` set_mset (bag hm)"
  shows "hashmap_remove e hm = (None, hm)"
proof -
  obtain j where j: "shaped j hm" using assms(1) by (auto simp: hm_inv_def)
  have "dropWhile (\<lambda>x. he_id x \<noteq> he_id e) (table hm ! bucket hm e) = []"
    unfolding dropWhile_eq_Nil_conv using bucket_in_bag [OF j] assms(2) by (metis image_eqI)
  then show ?thesis by (simp only: hashmap_remove_def Let_def list.case)
qed

text \<open>A key is not an entry of the map, unless it is the very entry at that address.\<close>

definition key_ok :: "('a, 'k) hashmap \<Rightarrow> 'a hashmap_entry \<Rightarrow> bool" where
  "key_ok hm key \<longleftrightarrow> (\<forall>e\<in>#bag hm. he_id e = he_id key \<longrightarrow> e = key)"

lemma hashmap_get_Some:
  assumes "hm_inv hm" and "hashmap_get hm key kd = Some e"
  shows "e \<in># bag hm \<and> entry_equals hm e key kd"
proof -
  obtain j where j: "shaped j hm" using assms(1) by (auto simp: hm_inv_def)
  obtain es where d: "dropWhile (\<lambda>e. \<not> entry_equals hm e key kd) (table hm ! bucket hm key) = e # es"
    using assms(2) by (auto simp: hashmap_get_def find_entry_ptr_def split: list.splits)
  then show ?thesis using dropWhile_ConsD [OF d] bucket_in_bag [OF j] by blast
qed

lemma hashmap_get_None:
  assumes "hm_inv hm" and "key_ok hm key" and "hashmap_get hm key kd = None" and "e \<in># bag hm"
  shows "\<not> entry_equals hm e key kd"
proof
  assume eq: "entry_equals hm e key kd"
  obtain j where j: "shaped j hm" using assms(1) by (auto simp: hm_inv_def)
  have "he_hash e = he_hash key" using eq assms(2,4) by (auto simp: entry_equals_def key_ok_def)
  then have "bucket hm e = bucket hm key" by (simp add: bucket_def)
  then have "e \<in> set (table hm ! bucket hm key)" using in_bag_bucket [OF j assms(4)] by simp
  moreover have "dropWhile (\<lambda>e. \<not> entry_equals hm e key kd) (table hm ! bucket hm key) = []"
    using assms(3) by (auto simp: hashmap_get_def find_entry_ptr_def split: list.splits)
  ultimately show False using eq by (auto simp: dropWhile_eq_Nil_conv)
qed

section \<open>Iteration\<close>

text \<open>What an iterator has still to return.\<close>

definition pending :: "('a, 'k) hashmap \<Rightarrow> 'a hashmap_iter \<Rightarrow> 'a hashmap_entry list" where
  "pending hm it = iter_next it @ concat (drop (unat (tablepos it)) (table hm))"

lemma hashmap_iter_next_pending:
  assumes "length (table hm) = unat (tablesize hm)"
  shows "(case hashmap_iter_next hm it of
            (None, _) \<Rightarrow> pending hm it = []
          | (Some e, it') \<Rightarrow> pending hm it = e # pending hm it')"
  using assms
proof (induction hm it rule: hashmap_iter_next.induct)
  case (1 hm it)
  show ?case
  proof (cases "iter_next it")
    case (Cons e nxt)
    then show ?thesis by (subst hashmap_iter_next.simps) (simp add: pending_def)
  next
    case Nil
    show ?thesis
    proof (cases "tablesize hm \<le> tablepos it")
      case True
      then show ?thesis
        using Nil 1(2) by (subst hashmap_iter_next.simps) (simp add: pending_def word_le_nat_alt)
    next
      case False
      let ?it = "it\<lparr>iter_next := table hm ! unat (tablepos it), tablepos := tablepos it + 1\<rparr>"
      have lt: "unat (tablepos it) < unat (tablesize hm)" using False by (simp add: word_less_nat_alt not_le)
      then have u: "unat (tablepos it + 1) = Suc (unat (tablepos it))"
        using unsigned_less [of "tablesize hm", where ?'a = nat] by (simp add: unat_word_ariths)
      have p: "pending hm it = pending hm ?it"
        using Nil lt 1(2) Cons_nth_drop_Suc [of "unat (tablepos it)" "table hm"]
        by (simp add: pending_def u) (metis concat.simps(2))
      have n: "hashmap_iter_next hm it = hashmap_iter_next hm ?it"
        using Nil False by (subst hashmap_iter_next.simps) simp
      show ?thesis unfolding p n by (rule 1(1) [OF Nil False 1(2)])
    qed
  qed
qed

text \<open>The loop of a client that visits every entry.\<close>

function iterate :: "('a, 'k) hashmap \<Rightarrow> 'a hashmap_iter \<Rightarrow> 'a hashmap_entry list" where
  "iterate hm it =
     (if length (table hm) = unat (tablesize hm)
      then case hashmap_iter_next hm it of (None, _) \<Rightarrow> [] | (Some e, it') \<Rightarrow> e # iterate hm it'
      else [])"
  by pat_completeness auto
termination
proof (relation "measure (\<lambda>(hm, it). length (pending hm it))", goal_cases)
  case (2 hm it r it' e)
  then show ?case using hashmap_iter_next_pending [OF 2(1), of it] by (auto split: prod.splits)
qed simp

declare iterate.simps [simp del]

lemma iterate_pending:
  "length (table hm) = unat (tablesize hm) \<Longrightarrow> iterate hm it = pending hm it"
proof (induction hm it rule: iterate.induct)
  case (1 hm it)
  obtain r it' where r: "hashmap_iter_next hm it = (r, it')" by (cases "hashmap_iter_next hm it")
  show ?case
  proof (cases r)
    case None
    then show ?thesis
      using r 1(2) hashmap_iter_next_pending [OF 1(2), of it] by (subst iterate.simps) simp
  next
    case (Some e)
    have "iterate hm it' = pending hm it'" using 1(1) [OF 1(2) r [symmetric] Some 1(2)] .
    then show ?thesis
      using r Some 1(2) hashmap_iter_next_pending [OF 1(2), of it] by (subst iterate.simps) simp
  qed
qed

lemma hm_inv_len: "hm_inv hm \<Longrightarrow> length (table hm) = unat (tablesize hm)"
  by (auto simp: hm_inv_def shaped_def)

lemma iterate_bag: "hm_inv hm \<Longrightarrow> mset (iterate hm hashmap_iter_init) = bag hm"
  using iterate_pending [OF hm_inv_len, of hm hashmap_iter_init] by (simp add: pending_def hashmap_iter_init_def bag_def)

section \<open>Every history of calls\<close>

text \<open>The maps that calls lead to, with the multiset of entries their history left in them.\<close>

inductive hm_reach ::
    "('a hashmap_entry \<Rightarrow> 'a hashmap_entry \<Rightarrow> 'k \<Rightarrow> bool) \<Rightarrow> ('a, 'k) hashmap \<Rightarrow> 'a hashmap_entry multiset \<Rightarrow> bool"
  for cmp where
  init: "hashmap_init (Some cmp) sz = Some hm \<Longrightarrow> sz \<le> 2 ^ 28 \<Longrightarrow> hm_reach cmp hm {#}"
| add: "hm_reach cmp hm M \<Longrightarrow> he_id e \<notin> he_id ` set_mset M \<Longrightarrow> size M < 858993459 \<Longrightarrow> hm_reach cmp (hashmap_add e hm) (add_mset e M)"
| remove: "hm_reach cmp hm M \<Longrightarrow> e \<in># M \<Longrightarrow> hm_reach cmp (snd (hashmap_remove e hm)) (M - {#e#})"
| disable_shrink: "hm_reach cmp hm M \<Longrightarrow> hm_reach cmp (hashmap_disable_shrink hm) M"

lemma init_size_value:
  assumes "unat want \<le> 2 ^ 30" and "unat sz = 64 * 4 ^ j" and "j \<le> 12"
  shows "\<exists>sz' k. init_size want sz = Some sz' \<and> unat sz' = 64 * 4 ^ k \<and> k \<le> 12"
  using assms
proof (induction "12 - j" arbitrary: j sz)
  case 0
  then have "unat sz = 2 ^ 30" by simp
  then have "\<not> sz < want" using 0 by (simp add: word_less_nat_alt)
  then show ?case using 0 by (subst init_size.simps) (intro exI [of _ sz] exI [of _ j], simp)
next
  case (Suc n)
  show ?case
  proof (cases "sz < want")
    case False
    then show ?thesis using Suc by (subst init_size.simps) auto
  next
    case True
    have "j < 12" using Suc.hyps(2) by simp
    then have "(4::nat) ^ j \<le> 4 ^ 11" by (intro power_increasing) simp_all
    then have "unat (push_bit 2 sz) = 64 * 4 ^ Suc j" using Suc.prems(2) by (subst unat_push_small) simp_all
    then show ?thesis
      using Suc.hyps(1) [of "Suc j" "push_bit 2 sz"] Suc.hyps(2) Suc.prems(1) True by (subst init_size.simps) simp
  qed
qed

lemma hashmap_init_ok:
  assumes "sz \<le> 2 ^ 28"
  obtains hm where "hashmap_init (Some cmp) sz = Some hm" "hm_inv hm" "bag hm = {#}" "cmpfn hm = cmp"
proof -
  have s: "unat sz \<le> 2 ^ 28" using assms by (simp add: word_le_nat_alt)
  then have "unat (sz * 100 div 80) = unat sz * 100 div 80" by (simp add: unat_div unat_word_ariths)
  then have "unat (ucast (sz * 100 div 80) :: u32) \<le> 2 ^ 30"
    using s by (simp only: unsigned_ucast_eq) (simp add: take_bit_nat_eq_self)
  from init_size_value [OF this, of 64 0] obtain n k where
    n: "init_size (ucast (sz * 100 div 80)) 64 = Some n" "unat n = 64 * 4 ^ k" "k \<le> 12" by auto
  let ?hm = "alloc_table n \<lparr>table = [], cmpfn = cmp, hm_size = 0, tablesize = 0, grow_at = 0, shrink_at = 0\<rparr>"
  have b: "bag ?hm = {#}" by (rule alloc_table_shaped(2) [OF n(2,3)])
  have "hm_inv ?hm" using alloc_table_shaped(1) [OF n(2,3)] b unfolding hm_inv_def by (intro conjI) (blast, simp_all)
  moreover have "hashmap_init (Some cmp) sz = Some ?hm" using n(1) by (simp add: hashmap_init_def)
  ultimately show thesis using that [of ?hm] b by simp
qed

lemma hm_reach_inv:
  assumes "hm_reach cmp hm M"
  shows "hm_inv hm \<and> bag hm = M \<and> cmpfn hm = cmp"
  using assms
proof induction
  case (init sz hm)
  then show ?case using hashmap_init_ok [OF init(2), of cmp] by (metis option.inject)
next
  case (add hm M e)
  then show ?case using hashmap_add_ok [of hm e] by simp
next
  case (remove hm M e)
  then show ?case using hashmap_remove_ok [of hm e] by simp
next
  case (disable_shrink hm M)
  then obtain j where "shaped j hm" "unat (hm_size hm) = size (bag hm)" "hm_size hm \<le> grow_at hm" by (auto simp: hm_inv_def)
  then have "shaped j (hashmap_disable_shrink hm)" "bag (hashmap_disable_shrink hm) = bag hm"
    by (simp_all add: shaped_def hashmap_disable_shrink_def bag_def bucket_def)
  then show ?case
    using disable_shrink \<open>unat (hm_size hm) = size (bag hm)\<close> \<open>hm_size hm \<le> grow_at hm\<close>
    by (auto simp: hm_inv_def hashmap_disable_shrink_def)
qed

lemma hashmap_free_bag:
  assumes "hm_inv hm"
  shows "hashmap_free hm = (if bag hm = {#} then Inr () else Err EBUSY)"
proof -
  have p: "mset (pending hm hashmap_iter_init) = bag hm" by (simp add: pending_def hashmap_iter_init_def bag_def)
  obtain r it' where r: "hashmap_iter_next hm hashmap_iter_init = (r, it')" by (cases "hashmap_iter_next hm hashmap_iter_init")
  show ?thesis
    using hashmap_iter_next_pending [OF hm_inv_len [OF assms], of hashmap_iter_init] p
    by (cases r) (auto simp: r hashmap_free_def)
qed

text \<open>
  C27. The hash map refines a multiset of entries: after any sequence of additions, removals and resizes, a lookup
  returns an entry of the multiset that equals the key, and returns nothing only if there is none; iterating visits
  every entry exactly once; the size is right, and the map can be freed exactly when it is empty.
\<close>

theorem hashmap_refines_bag:
  assumes "hm_reach cmp hm M" and "\<And>e. e \<in># M \<Longrightarrow> he_id e = he_id key \<Longrightarrow> e = key"
  shows "(case hashmap_get hm key kd of
            Some e \<Rightarrow> e \<in># M \<and> (e = key \<or> he_hash e = he_hash key \<and> \<not> cmp e key kd)
          | None \<Rightarrow> \<forall>e. e \<in># M \<longrightarrow> e \<noteq> key \<and> (he_hash e = he_hash key \<longrightarrow> cmp e key kd)) \<and>
     mset (iterate hm hashmap_iter_init) = M \<and> unat (hm_size hm) = size M \<and>
     hashmap_free hm = (if M = {#} then Inr () else Err EBUSY)"
proof (intro conjI)
  note r = hm_reach_inv [OF assms(1)]
  have k: "key_ok hm key" using r assms(2) by (auto simp: key_ok_def)
  show "case hashmap_get hm key kd of
            Some e \<Rightarrow> e \<in># M \<and> (e = key \<or> he_hash e = he_hash key \<and> \<not> cmp e key kd)
          | None \<Rightarrow> \<forall>e. e \<in># M \<longrightarrow> e \<noteq> key \<and> (he_hash e = he_hash key \<longrightarrow> cmp e key kd)"
  proof (cases "hashmap_get hm key kd")
    case None
    then show ?thesis using hashmap_get_None [of hm key kd] k r by (auto simp: entry_equals_def)
  next
    case (Some e)
    then show ?thesis using hashmap_get_Some [of hm key kd e] assms(2) r by (auto simp: entry_equals_def)
  qed
  show "mset (iterate hm hashmap_iter_init) = M" using iterate_bag [of hm] r by simp
  show "unat (hm_size hm) = size M" using r by (auto simp: hm_inv_def)
  show "hashmap_free hm = (if M = {#} then Inr () else Err EBUSY)" using hashmap_free_bag [of hm] r by simp
qed

definition one_entry :: "nat hashmap_entry" where
  "one_entry = \<lparr>he_id = 1, he_hash = 5, he_data = 42\<rparr>"

theorem hashmap_refines_bag_witness:
  "\<exists>hm. hm_reach (\<lambda>e k d. he_data e \<noteq> (d :: nat)) hm {#one_entry#} \<and> hashmap_get hm (one_entry\<lparr>he_id := 0\<rparr>) 42 = Some one_entry \<and>
     hashmap_get hm (one_entry\<lparr>he_id := 0\<rparr>) 43 = None \<and> hashmap_free hm = Err EBUSY"
proof -
  let ?cmp = "\<lambda>e k d. he_data e \<noteq> (d :: nat)"
  obtain hm where i: "hashmap_init (Some ?cmp) 0 = Some hm" using hashmap_init_ok [of 0] by auto
  have r: "hm_reach ?cmp (hashmap_add one_entry hm) {#one_entry#}"
    using hm_reach.add [OF hm_reach.init [OF i]] by simp
  have k: "e = one_entry\<lparr>he_id := 0\<rparr>" if "e \<in># {#one_entry#}" "he_id e = he_id (one_entry\<lparr>he_id := 0\<rparr>)" for e
    using that by (simp add: one_entry_def)
  note spec = hashmap_refines_bag [OF r k]
  have "hashmap_get (hashmap_add one_entry hm) (one_entry\<lparr>he_id := 0\<rparr>) 42 = Some one_entry"
    using spec [of 42] by (auto simp: one_entry_def split: option.splits)
  moreover have "hashmap_get (hashmap_add one_entry hm) (one_entry\<lparr>he_id := 0\<rparr>) 43 = None"
    using spec [of 43] by (auto simp: one_entry_def split: option.splits)
  ultimately show ?thesis using r spec by (intro exI [of _ "hashmap_add one_entry hm"]) simp
qed

section \<open>The interface\<close>

text \<open>What a client that looks an entry up and adds it if it is missing relies on.\<close>

locale entry_bag =
  fixes inv :: "'m \<Rightarrow> bool"
    and members :: "'m \<Rightarrow> 'e multiset"
    and get :: "'m \<Rightarrow> 'q \<Rightarrow> 'e option"
    and add :: "'e \<Rightarrow> 'm \<Rightarrow> 'm"
    and matches :: "'e \<Rightarrow> 'q \<Rightarrow> bool"
    and addable :: "'e \<Rightarrow> 'm \<Rightarrow> bool"
    and askable :: "'q \<Rightarrow> 'm \<Rightarrow> bool"
  assumes get_Some: "inv m \<Longrightarrow> askable q m \<Longrightarrow> get m q = Some e \<Longrightarrow> e \<in># members m \<and> matches e q"
    and get_None: "inv m \<Longrightarrow> askable q m \<Longrightarrow> get m q = None \<Longrightarrow> e \<in># members m \<Longrightarrow> \<not> matches e q"
    and add_inv: "inv m \<Longrightarrow> addable e m \<Longrightarrow> inv (add e m)"
    and add_members: "inv m \<Longrightarrow> addable e m \<Longrightarrow> members (add e m) = add_mset e (members m)"
begin

lemma get_or_add:
  assumes "inv m" and "askable q m" and "get m q = None \<Longrightarrow> addable e m" and "matches e q"
    and r: "(x, m') = (case get m q of Some x \<Rightarrow> (x, m) | None \<Rightarrow> (e, add e m))"
  shows "inv m'" and "x \<in># members m'" and "matches x q" and "members m \<subseteq># members m'"
    and "members m' = members m \<or> get m q = None \<and> x = e \<and> members m' = add_mset e (members m)"
  using assms get_Some [OF assms(1,2)] add_inv [OF assms(1)] add_members [OF assms(1)]
  by (auto split: option.splits)

lemma get_or_add_unique:
  assumes "inv m" and "askable q m" and "get m q = None \<Longrightarrow> addable e m"
    and "size (filter_mset (\<lambda>y. matches y q) (members m)) \<le> 1"
    and r: "(x, m') = (case get m q of Some x \<Rightarrow> (x, m) | None \<Rightarrow> (e, add e m))"
  shows "size (filter_mset (\<lambda>y. matches y q) (members m')) \<le> 1"
proof (cases "get m q")
  case None
  then have "filter_mset (\<lambda>y. matches y q) (members m) = {#}"
    using get_None [OF assms(1,2)] by (intro multiset_eqI) (auto simp: count_eq_zero_iff)
  then show ?thesis using None r add_members [OF assms(1)] assms(3,4) by simp
next
  case Some
  then show ?thesis using r assms(4) by simp
qed

end

text \<open>The map provides it for keys that live outside the map.\<close>

definition hm_matches :: "('a hashmap_entry \<Rightarrow> 'a hashmap_entry \<Rightarrow> 'k \<Rightarrow> bool) \<Rightarrow> 'a hashmap_entry \<Rightarrow> 'a hashmap_entry \<times> 'k \<Rightarrow> bool" where
  "hm_matches cmp e q \<longleftrightarrow> he_hash e = he_hash (fst q) \<and> \<not> cmp e (fst q) (snd q)"

interpretation hmap: entry_bag "\<lambda>hm. hm_inv hm \<and> cmpfn hm = cmp" bag "\<lambda>hm q. hashmap_get hm (fst q) (snd q)" hashmap_add "hm_matches cmp"
    "\<lambda>e hm. he_id e \<notin> he_id ` set_mset (bag hm) \<and> size (bag hm) < 858993459" "\<lambda>q hm. he_id (fst q) \<notin> he_id ` set_mset (bag hm)"
  for cmp :: "'a hashmap_entry \<Rightarrow> 'a hashmap_entry \<Rightarrow> 'k \<Rightarrow> bool"
proof unfold_locales
  fix hm :: "('a, 'k) hashmap" and q :: "'a hashmap_entry \<times> 'k" and e
  assume i: "hm_inv hm \<and> cmpfn hm = cmp" and q: "he_id (fst q) \<notin> he_id ` set_mset (bag hm)"
  have k: "key_ok hm (fst q)" using q by (auto simp: key_ok_def image_iff)
  show "e \<in># bag hm \<and> hm_matches cmp e q" if "hashmap_get hm (fst q) (snd q) = Some e"
    using hashmap_get_Some [OF _ that] i q by (auto simp: entry_equals_def hm_matches_def image_iff)
  show "\<not> hm_matches cmp e q" if "hashmap_get hm (fst q) (snd q) = None" "e \<in># bag hm"
    using hashmap_get_None [OF _ k that] i by (auto simp: entry_equals_def hm_matches_def)
next
  fix hm :: "('a, 'k) hashmap" and e :: "'a hashmap_entry"
  assume "hm_inv hm \<and> cmpfn hm = cmp" and "he_id e \<notin> he_id ` set_mset (bag hm) \<and> size (bag hm) < 858993459"
  then show "hm_inv (hashmap_add e hm) \<and> cmpfn (hashmap_add e hm) = cmp" "bag (hashmap_add e hm) = add_mset e (bag hm)"
    using hashmap_add_ok [of hm e] by simp_all
qed

section \<open>Interning\<close>

text \<open>
  \<^verbatim>\<open>memintern\<close> keeps one copy of every byte string.  The key data are a pointer and the bytes there; the data of a pool entry
  are at the entry's own address.  Address 0 stands for the key on the stack.
\<close>

definition pool_entry_cmp :: "bytes hashmap_entry \<Rightarrow> bytes hashmap_entry \<Rightarrow> nat \<times> bytes \<Rightarrow> bool" where
  "pool_entry_cmp e1 e2 kd \<longleftrightarrow>
     he_id e1 \<noteq> fst kd \<and> (length (he_data e1) \<noteq> length (he_data e2) \<or> he_data e1 \<noteq> take (length (he_data e1)) (snd kd))"

definition memintern ::
    "nat \<times> bytes \<Rightarrow> nat \<Rightarrow> (bytes, nat \<times> bytes) hashmap option \<Rightarrow> (bytes hashmap_entry \<times> (bytes, nat \<times> bytes) hashmap) option" where
  "memintern data fresh pool =
     (case (case pool of None \<Rightarrow> hashmap_init (Some pool_entry_cmp) 0 | Some hm \<Rightarrow> Some hm) of
        None \<Rightarrow> None
      | Some hm \<Rightarrow>
          let key = \<lparr>he_id = 0, he_hash = memhash (snd data), he_data = snd data\<rparr> in
          Some (case hashmap_get hm key data of
                  Some e \<Rightarrow> (e, hm)
                | None \<Rightarrow> let e = key\<lparr>he_id := fresh\<rparr> in (e, hashmap_add e hm)))"

text \<open>A pool holds every string once.\<close>

definition pool_ok :: "(bytes, nat \<times> bytes) hashmap \<Rightarrow> bool" where
  "pool_ok hm \<longleftrightarrow>
     (hm_inv hm \<and> cmpfn hm = pool_entry_cmp) \<and> (\<forall>e\<in>#bag hm. 0 < he_id e \<and> he_hash e = memhash (he_data e)) \<and>
     (\<forall>e\<in>#bag hm. \<forall>x\<in>#bag hm. he_data e = he_data x \<longrightarrow> e = x)"

lemma pool_matches:
  assumes "he_hash e = memhash (he_data e)" and "he_id e = fst q \<Longrightarrow> he_data e = snd q"
  shows "hm_matches pool_entry_cmp e (\<lparr>he_id = 0, he_hash = memhash (snd q), he_data = snd q\<rparr>, q) \<longleftrightarrow> he_data e = snd q"
  using assms by (auto simp: hm_matches_def pool_entry_cmp_def)

lemma memintern_ok:
  assumes p: "pool_ok hm" and f: "0 < fresh" "fresh \<notin> he_id ` set_mset (bag hm)" "size (bag hm) < 858993459"
    and ptr: "\<And>e. e \<in># bag hm \<Longrightarrow> he_id e = fst data \<Longrightarrow> he_data e = snd data" and nf: "fst data \<noteq> fresh"
  obtains e hm' where "memintern data fresh (Some hm) = Some (e, hm')" "pool_ok hm'" "he_data e = snd data" "e \<in># bag hm'"
    "bag hm \<subseteq># bag hm'"
proof -
  define key where "key = \<lparr>he_id = 0, he_hash = memhash (snd data), he_data = snd data\<rparr>"
  define new where "new = key\<lparr>he_id := fresh\<rparr>"
  obtain e hm' where r: "(e, hm') = (case hashmap_get hm (fst (key, data)) (snd (key, data)) of Some x \<Rightarrow> (x, hm) | None \<Rightarrow> (new, hashmap_add new hm))"
    by (metis surj_pair)
  have i: "hm_inv hm \<and> cmpfn hm = pool_entry_cmp" using p by (simp add: pool_ok_def)
  have k: "he_id (fst (key, data)) \<notin> he_id ` set_mset (bag hm)" using p by (auto simp: pool_ok_def key_def)
  have a: "he_id new \<notin> he_id ` set_mset (bag hm) \<and> size (bag hm) < 858993459" using f by (simp add: new_def)
  have m: "hm_matches pool_entry_cmp new (key, data)"
    using nf by (simp add: hm_matches_def pool_entry_cmp_def new_def key_def)
  note g = hmap.get_or_add [OF i k a m r]
  have old: "hm_matches pool_entry_cmp x (key, data) \<longleftrightarrow> he_data x = snd data" if "x \<in># bag hm" for x
    unfolding key_def using that p ptr by (intro pool_matches) (auto simp: pool_ok_def)
  have data: "he_data e = snd data"
    using g(5) g(2,3) old by (auto simp: new_def key_def)
  have "pool_ok hm'"
    using g(5)
  proof
    assume "bag hm' = bag hm"
    then show ?thesis using p g(1) by (simp add: pool_ok_def)
  next
    assume n: "hashmap_get hm (fst (key, data)) (snd (key, data)) = None \<and> e = new \<and> bag hm' = add_mset new (bag hm)"
    have ne: False if "x \<in># bag hm" "he_data x = snd data" for x
      using that(2) hmap.get_None [OF i k n [THEN conjunct1] that(1)] old [OF that(1)] by simp
    show ?thesis using p g(1) n f(1) by (auto simp: pool_ok_def new_def key_def dest: ne)
  qed
  moreover have "memintern data fresh (Some hm) = Some (e, hm')"
    using r by (simp add: memintern_def key_def new_def Let_def split: option.splits)
  ultimately show thesis using that data g(2,4) by blast
qed
end
