(* ===== verification/Erofs_Xattr.thy ===== *)
theory Erofs_Xattr
  imports Erofs_Cache Erofs_Inode Erofs_Hash
begin

unbundle bit_operations_syntax

text \<open>
  Extended attributes on the writing side, \<^verbatim>\<open>lib/xattr.c\<close>: the table of predefined name prefixes, the hash table of
  reference-counted key/value items, the attribute list of an inode, the shared attribute area, the sizing and the
  export of the inline body, and the long name prefixes.

  An item is a heap object: the model has a heap from addresses to items, a freed address is unmapped, and a
  dereference of it is the outcome \<^verbatim>\<open>OutOfBounds\<close>.  Memory allocation succeeds.  The answers of \<^verbatim>\<open>llistxattr\<close>, \<^verbatim>\<open>lgetxattr\<close>,
  \<^verbatim>\<open>selabel_lookup\<close>, \<^verbatim>\<open>readdir\<close> and \<^verbatim>\<open>lstat\<close> are arguments.  \<^verbatim>\<open>char\<close> is signed, as on x86.
\<close>

section \<open>Predefined name prefixes\<close>

definition XATTR_NAME_SECURITY_SELINUX :: bytes where
  "XATTR_NAME_SECURITY_SELINUX = literal ''security.selinux''"

definition OVL_XATTR_OPAQUE :: bytes where
  "OVL_XATTR_OPAQUE = literal ''trusted.overlay.opaque''"

definition OVL_XATTR_ORIGIN :: bytes where
  "OVL_XATTR_ORIGIN = literal ''trusted.overlay.origin''"

text \<open>\<^verbatim>\<open>xattr_types\<close> by index; 0 and \<^verbatim>\<open>EROFS_XATTR_INDEX_LUSTRE\<close> have the null pointer.\<close>

definition xattr_types :: "bytes option list" where
  "xattr_types =
     [None, Some (literal ''user.''), Some (literal ''system.posix_acl_access''), Some (literal ''system.posix_acl_default''),
      Some (literal ''trusted.''), None, Some (literal ''security.'')]"

fun prefix_scan :: "bytes option list \<Rightarrow> nat \<Rightarrow> bytes \<Rightarrow> (nat \<times> nat) option" where
  "prefix_scan [] i key = None"
| "prefix_scan (p # ps) i key =
     (case p of
        None \<Rightarrow> prefix_scan ps (Suc i) key
      | Some pre \<Rightarrow> if strncmp_eq pre key (length pre) then Some (i, length pre) else prefix_scan ps (Suc i) key)"

definition erofs_xattr_prefix_matches :: "bytes \<Rightarrow> (nat \<times> nat) option" where
  "erofs_xattr_prefix_matches key = prefix_scan xattr_types 0 key"

section \<open>Items\<close>

text \<open>\<^verbatim>\<open>kvbuf\<close> holds the key, a zero byte and the value; the pairs \<^verbatim>\<open>hash\<close> and \<^verbatim>\<open>len\<close> are of the key and of the value.\<close>

record xattr_item =
  kvbuf :: bytes
  xi_hash :: "u32 \<times> u32"
  xi_len :: "u32 \<times> u32"
  xi_count :: u32
  shared_xattr_id :: u32
  xi_prefix :: u32
  base_index :: u32
  prefix_len :: u32

record ea_type_node =
  tn_prefix :: bytes
  tn_index :: u32
  tn_base_index :: u32
  tn_base_len :: u32

text \<open>
  The static variables of \<^verbatim>\<open>xattr.c\<close>.  A bucket of \<^verbatim>\<open>ea_hashtable\<close> is the list of the addresses chained there;
  \<^verbatim>\<open>shared_xattrs_list\<close> the addresses along \<^verbatim>\<open>next_shared_xattr\<close>.
\<close>

record xattr_state =
  xs_heap :: "nat \<Rightarrow> xattr_item option"
  xs_fresh :: nat
  ea_hashtable :: "u32 \<Rightarrow> nat list"
  shared_xattrs_list :: "nat list"
  shared_xattrs_count :: u32
  ea_name_prefixes :: "ea_type_node list"
  ea_prefix_count :: u32

definition xattr_state_init :: xattr_state where
  "xattr_state_init =
     \<lparr>xs_heap = (\<lambda>_. None), xs_fresh = 0, ea_hashtable = (\<lambda>_. []), shared_xattrs_list = [], shared_xattrs_count = 0,
      ea_name_prefixes = [], ea_prefix_count = 0\<rparr>"

definition deref :: "xattr_state \<Rightarrow> nat \<Rightarrow> xattr_item result" where
  "deref st a = (case xs_heap st a of None \<Rightarrow> Inl OutOfBounds | Some it \<Rightarrow> Inr it)"

fun BKDRHash_loop :: "u32 \<Rightarrow> bytes \<Rightarrow> u32" where
  "BKDRHash_loop hash [] = hash"
| "BKDRHash_loop hash (c # cs) = BKDRHash_loop (hash * 131313 + scast c) cs"

definition BKDRHash :: "bytes \<Rightarrow> u32" where
  "BKDRHash s = BKDRHash_loop 0 s"

definition hash_32 :: "u32 \<Rightarrow> nat \<Rightarrow> u32" where
  "hash_32 val bits = drop_bit (32 - bits) (val * 0x61C88647)"

text \<open>\<^verbatim>\<open>EROFS_XATTR_KVSIZE\<close>, in \<^verbatim>\<open>unsigned int\<close>.\<close>

definition EROFS_XATTR_KVSIZE :: "u32 \<times> u32 \<Rightarrow> u32" where
  "EROFS_XATTR_KVSIZE len = fst len + 1 + snd len"

definition put_xattritem :: "nat \<Rightarrow> xattr_state \<Rightarrow> (u32 \<times> xattr_state) result" where
  "put_xattritem a st =
     bindR (deref st a) (\<lambda>it.
       if 1 < xi_count it
       then let it = it\<lparr>xi_count := xi_count it - 1\<rparr> in Inr (xi_count it, st\<lparr>xs_heap := (xs_heap st)(a := Some it)\<rparr>)
       else Inr (0, st\<lparr>xs_heap := (xs_heap st)(a := None)\<rparr>))"

text \<open>\<^verbatim>\<open>hash_for_each_possible\<close>: every item on the chain is read until one matches.\<close>

fun find_item :: "xattr_state \<Rightarrow> nat list \<Rightarrow> bytes \<Rightarrow> u32 \<times> u32 \<Rightarrow> u32 \<times> u32 \<Rightarrow> (nat option) result" where
  "find_item st [] kv len hash = Inr None"
| "find_item st (a # as) kv len hash =
     bindR (deref st a) (\<lambda>it.
       if xi_len it = len \<and> xi_hash it = hash
          \<and> take (unat (EROFS_XATTR_KVSIZE len)) kv = take (unat (EROFS_XATTR_KVSIZE len)) (kvbuf it)
       then Inr (Some a) else find_item st as kv len hash)"

definition long_prefix_of :: "ea_type_node list \<Rightarrow> u32 \<Rightarrow> bytes \<Rightarrow> ea_type_node option" where
  "long_prefix_of ts bi key =
     find (\<lambda>t. bi = tn_base_index t \<and> strncmp_eq (tn_prefix t) key (length (tn_prefix t))) ts"

definition get_xattritem :: "bytes \<Rightarrow> u32 \<times> u32 \<Rightarrow> xattr_state \<Rightarrow> (nat \<times> xattr_state) result" where
  "get_xattritem kv len st =
     bindR (slice kv 0 (unat (fst len))) (\<lambda>k.
     bindR (slice kv (unat (fst len) + 1) (unat (snd len))) (\<lambda>v.
       let hash = (BKDRHash k, BKDRHash v); hkey = hash_32 (fst hash XOR snd hash) 16 in
       bindR (find_item st (ea_hashtable st hkey) kv len hash) (\<lambda>found.
         case found of
           Some a \<Rightarrow> bindR (deref st a) (\<lambda>it.
             Inr (a, st\<lparr>xs_heap := (xs_heap st)(a := Some (it\<lparr>xi_count := xi_count it + 1\<rparr>))\<rparr>))
         | None \<Rightarrow>
             (case erofs_xattr_prefix_matches (c_str kv) of
                None \<Rightarrow> Err ENODATA
              | Some (bi, pl) \<Rightarrow>
                  let (prefix, plen) = (case long_prefix_of (ea_name_prefixes st) (of_nat bi) (c_str kv) of
                                          None \<Rightarrow> (of_nat bi, of_nat pl)
                                        | Some t \<Rightarrow> (tn_index t, of_nat (length (tn_prefix t))));
                      it = \<lparr>kvbuf = kv, xi_hash = hash, xi_len = len, xi_count = 1, shared_xattr_id = -1, xi_prefix = prefix,
                            base_index = of_nat bi, prefix_len = plen\<rparr>;
                      a = xs_fresh st
                  in Inr (a, st\<lparr>xs_heap := (xs_heap st)(a := Some it), xs_fresh := Suc a,
                                ea_hashtable := (ea_hashtable st)(hkey := a # ea_hashtable st hkey)\<rparr>)))))"

section \<open>Adding attributes to an inode\<close>

text \<open>
  The members of \<^verbatim>\<open>struct erofs_inode\<close> only this file uses, beside the inode: its list of items (the head is the latest
  addition), the shared ids read from an image, and two flags of overlayfs.
\<close>

record inode_ea =
  ea_inode :: erofs_inode
  i_xattrs :: "nat list"
  xattr_shared_xattrs :: "u32 list"
  ea_opaque :: bool
  ea_whiteouts :: bool

record xattr_cfg =
  c_inline_xattr_tolerance :: int
  c_xattr_name_filter :: bool
  c_sehnd :: "(bytes \<Rightarrow> u16 \<Rightarrow> bytes result) option"
  c_mount_point :: "bytes option"
  c_fullpath_prefix :: nat

definition inode_xattr_add :: "nat list \<Rightarrow> nat \<Rightarrow> nat list" where
  "inode_xattr_add hlist item = item # hlist"

definition shared_xattr_add :: "nat \<Rightarrow> xattr_state \<Rightarrow> xattr_state" where
  "shared_xattr_add item st =
     st\<lparr>shared_xattrs_list := item # shared_xattrs_list st, shared_xattrs_count := shared_xattrs_count st + 1\<rparr>"

text \<open>
  \<^verbatim>\<open>ixattrs\<close> is \<^verbatim>\<open>None\<close> when attributes are only counted.  The check of the returned count for a negative value is left out: it needs
  more than two billion items.
\<close>

definition erofs_xattr_add :: "xattr_cfg \<Rightarrow> nat list option \<Rightarrow> nat \<Rightarrow> xattr_state \<Rightarrow> (nat list option \<times> xattr_state) result" where
  "erofs_xattr_add cfg ixattrs item st =
     (case ixattrs of
        Some l \<Rightarrow> Inr (Some (inode_xattr_add l item), st)
      | None \<Rightarrow> bindR (deref st item) (\<lambda>it.
          if xi_count it = of_int (c_inline_xattr_tolerance cfg + 1)
          then Inr (None, shared_xattr_add item st) else Inr (None, st)))"

definition erofs_setxattr :: "xattr_cfg \<Rightarrow> bytes \<Rightarrow> bytes \<Rightarrow> inode_ea \<Rightarrow> xattr_state \<Rightarrow> (inode_ea \<times> xattr_state) result" where
  "erofs_setxattr cfg key val inode st =
     (let len = (of_nat (length key), of_nat (length val)) in
      bindR (memput (replicate (unat (EROFS_XATTR_KVSIZE len)) 0) 0 (key @ [0])) (\<lambda>kv.
      bindR (memput kv (unat (fst len + 1)) val) (\<lambda>kv.
      bindR (get_xattritem kv len st) (\<lambda>(item, st).
      bindR (erofs_xattr_add cfg (Some (i_xattrs inode)) item st) (\<lambda>(l, st).
        Inr (inode\<lparr>i_xattrs := the l\<rparr>, st))))))"

fun removexattr_loop :: "bytes \<Rightarrow> nat list \<Rightarrow> xattr_state \<Rightarrow> (nat list \<times> xattr_state) result" where
  "removexattr_loop key [] st = Inr ([], st)"
| "removexattr_loop key (a # as) st =
     bindR (deref st a) (\<lambda>it.
       if c_str (kvbuf it) = key
       then bindR (put_xattritem a st) (\<lambda>(_, st). removexattr_loop key as st)
       else bindR (removexattr_loop key as st) (\<lambda>(l, st). Inr (a # l, st)))"

definition erofs_removexattr :: "bytes \<Rightarrow> inode_ea \<Rightarrow> xattr_state \<Rightarrow> (inode_ea \<times> xattr_state) result" where
  "erofs_removexattr key inode st =
     bindR (removexattr_loop key (i_xattrs inode) st) (\<lambda>(l, st). Inr (inode\<lparr>i_xattrs := l\<rparr>, st))"

definition erofs_set_opaque_xattr :: "xattr_cfg \<Rightarrow> inode_ea \<Rightarrow> xattr_state \<Rightarrow> (inode_ea \<times> xattr_state) result" where
  "erofs_set_opaque_xattr cfg = erofs_setxattr cfg OVL_XATTR_OPAQUE (literal ''y'')"

definition erofs_clear_opaque_xattr :: "inode_ea \<Rightarrow> xattr_state \<Rightarrow> (inode_ea \<times> xattr_state) result" where
  "erofs_clear_opaque_xattr = erofs_removexattr OVL_XATTR_OPAQUE"

definition erofs_set_origin_xattr :: "xattr_cfg \<Rightarrow> inode_ea \<Rightarrow> xattr_state \<Rightarrow> (inode_ea \<times> xattr_state) result" where
  "erofs_set_origin_xattr cfg = erofs_setxattr cfg OVL_XATTR_ORIGIN []"

section \<open>Attributes of a source file\<close>

text \<open>
  The answers of the kernel for one path: the size and the bytes of the key list, and for a key the size of its value
  and, for a buffer size, the value.
\<close>

record xattr_os =
  os_llist_size :: "nat result"
  os_llist :: "nat \<Rightarrow> bytes result"
  os_lget_size :: "bytes \<Rightarrow> nat result"
  os_lget :: "bytes \<Rightarrow> nat \<Rightarrow> bytes result"

text \<open>\<^verbatim>\<open>parse_one_xattr\<close> returns the null pointer, \<^verbatim>\<open>None\<close>, for a name with an unknown prefix.\<close>

definition parse_one_xattr :: "xattr_os \<Rightarrow> bytes \<Rightarrow> xattr_state \<Rightarrow> (nat option \<times> xattr_state) result" where
  "parse_one_xattr os key st =
     bindR (os_lget_size os key) (\<lambda>sz.
       let len0 = of_nat (length key); len1 = of_nat sz in
       bindR (memput (replicate (unat (EROFS_XATTR_KVSIZE (len0, len1))) 0) 0 (key @ [0])) (\<lambda>kv.
       bindR (if len1 = 0 then Inr (kv, len1)
              else bindR (os_lget os key (unat len1)) (\<lambda>val.
                   bindR (memput kv (length key + 1) val) (\<lambda>kv. Inr (kv, of_nat (length val))))) (\<lambda>(kv, len1).
         case get_xattritem kv (len0, len1) st of
           Inr (item, st) \<Rightarrow> Inr (Some item, st)
         | Inl e \<Rightarrow> if e = Errno ENODATA then Inr (None, st) else Inl e)))"

text \<open>\<^verbatim>\<open>erofs_fspath\<close> of \<^verbatim>\<open>lib/config.c\<close>.\<close>

definition erofs_fspath :: "xattr_cfg \<Rightarrow> bytes \<Rightarrow> bytes" where
  "erofs_fspath cfg fullpath = dropWhile (\<lambda>c. c = 47) (drop (c_fullpath_prefix cfg) fullpath)"

definition erofs_get_selabel_xattr ::
    "xattr_cfg \<Rightarrow> bytes \<Rightarrow> u16 \<Rightarrow> xattr_state \<Rightarrow> (nat option \<times> xattr_state) result" where
  "erofs_get_selabel_xattr cfg srcpath mode st =
     (case c_sehnd cfg of
        None \<Rightarrow> Inr (None, st)
      | Some selabel_lookup \<Rightarrow>
          let fspath = (case c_mount_point cfg of
                          Some mp \<Rightarrow> [47] @ mp @ [47] @ erofs_fspath cfg srcpath
                        | None \<Rightarrow> [47] @ erofs_fspath cfg srcpath)
          in case selabel_lookup fspath mode of
               Inl e \<Rightarrow> if e = Errno ENOENT then Inr (None, st) else Inl e
             | Inr secontext \<Rightarrow>
                 let len = (of_nat (length XATTR_NAME_SECURITY_SELINUX), of_nat (length secontext)) in
                 bindR (memput (replicate (unat (EROFS_XATTR_KVSIZE len)) 0) 0 (XATTR_NAME_SECURITY_SELINUX @ [0])) (\<lambda>kv.
                 bindR (memput kv (unat (fst len + 1)) secontext) (\<lambda>kv.
                 bindR (get_xattritem kv len st) (\<lambda>(item, st). Inr (Some item, st)))))"

definition erofs_is_skipped_xattr :: "xattr_cfg \<Rightarrow> bytes \<Rightarrow> bool" where
  "erofs_is_skipped_xattr cfg key \<longleftrightarrow> c_sehnd cfg \<noteq> None \<and> key = XATTR_NAME_SECURITY_SELINUX"

text \<open>The loop over the zero-terminated keys; the last key has to end inside the list.\<close>

function keys_loop ::
    "xattr_cfg \<Rightarrow> xattr_os \<Rightarrow> bytes \<Rightarrow> nat list option \<Rightarrow> xattr_state \<Rightarrow> (nat list option \<times> xattr_state) result" where
  "keys_loop cfg os kl ixattrs st =
     (if kl = [] then Inr (ixattrs, st)
      else if 0 \<notin> set kl then Inl OutOfBounds
      else let key = c_str kl; rest = drop (length key + 1) kl in
           if erofs_is_skipped_xattr cfg key then keys_loop cfg os rest ixattrs st
           else bindR (parse_one_xattr os key st) (\<lambda>(item, st).
                  case item of
                    None \<Rightarrow> keys_loop cfg os rest ixattrs st
                  | Some a \<Rightarrow> bindR (erofs_xattr_add cfg ixattrs a st) (\<lambda>(ixattrs, st).
                                keys_loop cfg os rest ixattrs st)))"
  by pat_completeness auto
termination by (relation "measure (\<lambda>(_, _, kl, _, _). length kl)") auto

text \<open>
  \<^verbatim>\<open>read_xattrs_from_file\<close>.  The result of the second \<^verbatim>\<open>llistxattr\<close> is not checked: on failure the end pointer lies in front of the
  list and the loop runs over memory nobody has written.
\<close>

definition read_xattrs_from_file ::
    "xattr_cfg \<Rightarrow> xattr_os \<Rightarrow> bytes \<Rightarrow> u16 \<Rightarrow> nat list option \<Rightarrow> xattr_state \<Rightarrow> (nat list option \<times> xattr_state) result" where
  "read_xattrs_from_file cfg os path mode ixattrs st =
     bindR (case os_llist_size os of
              Inl e \<Rightarrow> if e \<noteq> Errno ENODATA \<and> e \<noteq> Errno EOPNOTSUPP then Inl e else Inr (ixattrs, st)
            | Inr kllen \<Rightarrow>
                if kllen \<le> 1 then Inr (ixattrs, st)
                else case os_llist os kllen of
                       Inl e \<Rightarrow> Inl OutOfBounds
                     | Inr keylst \<Rightarrow> keys_loop cfg os keylst ixattrs st) (\<lambda>(ixattrs, st).
     bindR (erofs_get_selabel_xattr cfg path mode st) (\<lambda>(item, st).
       case item of None \<Rightarrow> Inr (ixattrs, st) | Some a \<Rightarrow> erofs_xattr_add cfg ixattrs a st))"

text \<open>Without \<^verbatim>\<open>WITH_ANDROID\<close> there are no capabilities to add.\<close>

definition erofs_scan_file_xattrs ::
    "xattr_cfg \<Rightarrow> xattr_os \<Rightarrow> bytes \<Rightarrow> inode_ea \<Rightarrow> xattr_state \<Rightarrow> (inode_ea \<times> xattr_state) result" where
  "erofs_scan_file_xattrs cfg os srcpath inode st =
     (if c_inline_xattr_tolerance cfg < 0 then Inr (inode, st)
      else bindR (read_xattrs_from_file cfg os srcpath (i_mode (ea_inode inode)) (Some (i_xattrs inode)) st) (\<lambda>(l, st).
             Inr (inode\<lparr>i_xattrs := the l\<rparr>, st)))"

section \<open>Sizing the inline body\<close>

definition erofs_next_xattr_align :: "u32 \<Rightarrow> xattr_item \<Rightarrow> u32" where
  "erofs_next_xattr_align pos it = EROFS_XATTR_ALIGN (pos + 4 + fst (xi_len it) + snd (xi_len it) - prefix_len it)"

fun ibody_size :: "xattr_state \<Rightarrow> nat list \<Rightarrow> nat \<Rightarrow> u32 \<Rightarrow> u32 result" where
  "ibody_size st [] shared ret = Inr ret"
| "ibody_size st (a # as) shared ret =
     bindR (deref st a) (\<lambda>it.
       if 0 \<le> sint (shared_xattr_id it) \<and> shared < 255 then ibody_size st as (Suc shared) (ret + 4)
       else ibody_size st as shared (erofs_next_xattr_align ret it))"

text \<open>The padding up to the size the inode already had on disk; every round adds at least four bytes.\<close>

fun ibody_pad :: "nat \<Rightarrow> u32 \<Rightarrow> u32 \<Rightarrow> u32 result" where
  "ibody_pad 0 target ret = Inl OutOfFuel"
| "ibody_pad (Suc n) target ret =
     (if ret < target
      then let ret = ret + 4 in
           ibody_pad n target (if ret < target then EROFS_XATTR_ALIGN (ret + min (target - ret) 65535) else ret)
      else Inr ret)"

definition erofs_prepare_xattr_ibody :: "inode_ea \<Rightarrow> bool \<Rightarrow> xattr_state \<Rightarrow> inode_ea result" where
  "erofs_prepare_xattr_ibody inode noroom st =
     (let target = xattr_isize (ea_inode inode) in
      bindR (if i_xattrs inode = [] then Inr 0 else ibody_size st (i_xattrs inode) 0 12) (\<lambda>ret.
      bindR (ibody_pad (Suc (unat target)) target ret) (\<lambda>ret.
        if noroom \<and> target \<noteq> 0 \<and> target < ret then Err ENOSPC
        else Inr (inode\<lparr>ea_inode := (ea_inode inode)\<lparr>xattr_isize := ret\<rparr>\<rparr>))))"

section \<open>The shared area\<close>

text \<open>A source tree as \<^verbatim>\<open>readdir\<close> and \<^verbatim>\<open>lstat\<close> show it; a directory ends with the error of the last \<^verbatim>\<open>readdir\<close>, if any.\<close>

datatype src_ent = SrcEnt bytes "u16 result" xattr_os src_dir
  and src_dir = OpenFails errno | SrcDir "src_ent list" "errno option"

definition skipped_name :: "bytes \<Rightarrow> bool" where
  "skipped_name d_name \<longleftrightarrow> d_name = literal ''.'' \<or> d_name = literal ''..'' \<or> strncmp_eq d_name (literal ''lost+found'') 10"

fun erofs_count_all_xattrs_from_path :: "xattr_cfg \<Rightarrow> bytes \<Rightarrow> src_dir \<Rightarrow> xattr_state \<Rightarrow> xattr_state result"
  and count_entries :: "xattr_cfg \<Rightarrow> bytes \<Rightarrow> src_ent list \<Rightarrow> xattr_state \<Rightarrow> xattr_state result"
  and count_entry :: "xattr_cfg \<Rightarrow> bytes \<Rightarrow> src_ent \<Rightarrow> xattr_state \<Rightarrow> xattr_state result" where
  "erofs_count_all_xattrs_from_path cfg path (OpenFails e) st = Err e"
| "erofs_count_all_xattrs_from_path cfg path (SrcDir es fin) st =
     bindR (count_entries cfg path es st) (\<lambda>st. case fin of None \<Rightarrow> Inr st | Some e \<Rightarrow> Err e)"
| "count_entries cfg path [] st = Inr st"
| "count_entries cfg path (e # es) st = bindR (count_entry cfg path e st) (count_entries cfg path es)"
| "count_entry cfg path (SrcEnt d_name stat os sub) st =
     (if skipped_name d_name then Inr st
      else let buf = path @ [47] @ d_name in
           if 4096 \<le> length buf then Err ENOMEM
           else bindR stat (\<lambda>mode.
                bindR (read_xattrs_from_file cfg os buf mode None st) (\<lambda>(_, st).
                  if \<not> S_ISDIR mode then Inr st else erofs_count_all_xattrs_from_path cfg buf sub st)))"

text \<open>\<^verbatim>\<open>erofs_cleanxattrs\<close>: every chain loses its items and frees them, the shared ones excepted if asked to.\<close>

fun clean_chain :: "bool \<Rightarrow> nat list \<Rightarrow> xattr_state \<Rightarrow> (nat list \<times> xattr_state) result" where
  "clean_chain keep [] st = Inr ([], st)"
| "clean_chain keep (a # as) st =
     bindR (deref st a) (\<lambda>it.
       if keep \<and> 0 \<le> sint (shared_xattr_id it) then bindR (clean_chain keep as st) (\<lambda>(l, st). Inr (a # l, st))
       else clean_chain keep as (st\<lparr>xs_heap := (xs_heap st)(a := None)\<rparr>))"

fun clean_buckets :: "bool \<Rightarrow> u32 list \<Rightarrow> xattr_state \<Rightarrow> xattr_state result" where
  "clean_buckets keep [] st = Inr st"
| "clean_buckets keep (k # ks) st =
     bindR (clean_chain keep (ea_hashtable st k) st) (\<lambda>(l, st).
       clean_buckets keep ks (st\<lparr>ea_hashtable := (ea_hashtable st)(k := l)\<rparr>))"

definition erofs_cleanxattrs :: "bool \<Rightarrow> xattr_state \<Rightarrow> xattr_state result" where
  "erofs_cleanxattrs sharedxattrs st =
     bindR (clean_buckets sharedxattrs (map of_nat [0..<65536]) st) (\<lambda>st.
       Inr (if sharedxattrs then st else st\<lparr>shared_xattrs_count := 0\<rparr>))"

fun memcmp :: "bytes \<Rightarrow> bytes \<Rightarrow> int" where
  "memcmp (a # as) (b # bs) = (if a < b then -1 else if b < a then 1 else memcmp as bs)"
| "memcmp _ _ = 0"

definition comp_shared_xattr_item :: "xattr_item \<Rightarrow> xattr_item \<Rightarrow> int" where
  "comp_shared_xattr_item ia ib =
     (let la = unat (EROFS_XATTR_KVSIZE (xi_len ia)); lb = unat (EROFS_XATTR_KVSIZE (xi_len ib));
          ret = memcmp (take (min la lb) (kvbuf ia)) (take (min la lb) (kvbuf ib))
      in if ret \<noteq> 0 then ret else if lb < la then 1 else 0)"

definition entry_of_item :: "xattr_item \<Rightarrow> erofs_xattr_entry" where
  "entry_of_item it =
     \<lparr>e_name_len = ucast (fst (xi_len it) - prefix_len it), e_name_index = ucast (xi_prefix it),
      e_value_size = ucast (snd (xi_len it))\<rparr>"

definition erofs_write_xattr_entry :: "bytes \<Rightarrow> nat \<Rightarrow> xattr_item \<Rightarrow> bytes result" where
  "erofs_write_xattr_entry buf p it =
     (let nlen = unat (fst (xi_len it) - prefix_len it) in
      bindR (memput buf p (enc_xattr_entry (entry_of_item it))) (\<lambda>buf.
      bindR (slice (kvbuf it) (unat (prefix_len it)) nlen) (\<lambda>nm.
      bindR (memput buf (p + 4) nm) (\<lambda>buf.
      bindR (slice (kvbuf it) (unat (fst (xi_len it)) + 1) (unat (snd (xi_len it)))) (\<lambda>val.
        memput buf (p + 4 + nlen) val)))))"

fun shared_size :: "xattr_state \<Rightarrow> nat list \<Rightarrow> u32 \<Rightarrow> u32 result" where
  "shared_size st [] sz = Inr sz"
| "shared_size st (a # as) sz = bindR (deref st a) (\<lambda>it. shared_size st as (erofs_next_xattr_align sz it))"

fun shared_write :: "u64 \<Rightarrow> nat list \<Rightarrow> bytes \<Rightarrow> u32 \<Rightarrow> xattr_state \<Rightarrow> (bytes \<times> xattr_state) result" where
  "shared_write off [] buf p st = Inr (buf, st)"
| "shared_write off (a # as) buf p st =
     bindR (deref st a) (\<lambda>it.
     bindR (erofs_write_xattr_entry buf (unat p) it) (\<lambda>buf.
       let it = it\<lparr>shared_xattr_id := ucast ((off + ucast p) div 4)\<rparr> in
       shared_write off as buf (erofs_next_xattr_align p it) (st\<lparr>xs_heap := (xs_heap st)(a := Some it)\<rparr>)))"

text \<open>
  \<^verbatim>\<open>erofs_build_shared_xattrs_from_path\<close>.  \<^verbatim>\<open>qsort\<close> sorts addresses by the comparison of the items there; the head of the
  buffer block of the area is kept by \<^verbatim>\<open>erofs_skip_write_bhops\<close> until the area is written and then dropped.
\<close>

definition erofs_build_shared_xattrs_from_path ::
    "xattr_cfg \<Rightarrow> ((nat \<Rightarrow> nat \<Rightarrow> int) \<Rightarrow> nat list \<Rightarrow> nat list) \<Rightarrow> bytes \<Rightarrow> src_dir \<Rightarrow> erofs_sb_info \<Rightarrow> erofs_bufmgr \<Rightarrow> xattr_state
     \<Rightarrow> (erofs_sb_info \<times> erofs_bufmgr \<times> xattr_state) result" where
  "erofs_build_shared_xattrs_from_path cfg qsort path src sbi bm st =
     (if c_inline_xattr_tolerance cfg < 0 \<or> c_inline_xattr_tolerance cfg = 2147483647 then Inr (sbi, bm, st)
      else if shared_xattrs_count st \<noteq> 0 then Err EINVAL
      else bindR (erofs_count_all_xattrs_from_path cfg path src st) (\<lambda>st.
        bindR (if shared_xattrs_count st = 0 then Inr (sbi, bm, st)
          else bindR (shared_size st (shared_xattrs_list st) 0) (\<lambda>size.
            let sorted_n = qsort (\<lambda>a b. comp_shared_xattr_item (the (xs_heap st a)) (the (xs_heap st b))) (shared_xattrs_list st)
            in bindR (erofs_balloc sbi bm XATTR (ucast size) 0 0) (\<lambda>(bm, bh).
               let bm = set_bh_op bh erofs_skip_write_bhops bm; bm = fst (erofs_mapbh sbi bm (map_option bb_id (bb_of_bh bm bh))) in
               bindR (erofs_btell sbi bm bh False) (\<lambda>off.
               let sbi = sbi\<lparr>xattr_blkaddr := ucast (off div ucast (erofs_blksiz sbi))\<rparr> in
               bindR (shared_write (off mod ucast (erofs_blksiz sbi)) sorted_n (replicate (unat size) 0) 0 st) (\<lambda>(buf, st).
               bindR (erofs_dev_write sbi buf off) (\<lambda>sbi.
               bindR (erofs_bdrop sbi (set_bh_op bh erofs_drop_directly_bhops bm) bh False) (\<lambda>bm. Inr (sbi, bm, st\<lparr>shared_xattrs_list := sorted_n\<rparr>)))))))) (\<lambda>(sbi, bm, st).
        bindR (erofs_cleanxattrs True st) (\<lambda>st. Inr (sbi, bm, st)))))"

section \<open>Exporting the inline body\<close>

definition name_filter_bit :: "xattr_item \<Rightarrow> u32 result" where
  "name_filter_bit it =
     (case xattr_types ! unat (base_index it) of
        None \<Rightarrow> Inl OutOfBounds
      | Some pre \<Rightarrow>
          bindR (slice (kvbuf it) (length pre) (unat (fst (xi_len it) - of_nat (length pre)))) (\<lambda>nm.
            Inr (push_bit (unat (xxh32 nm (0x25BBE08F + base_index it) AND 31)) 1)))"

fun name_filter_loop :: "xattr_state \<Rightarrow> nat list \<Rightarrow> u32 \<Rightarrow> u32 result" where
  "name_filter_loop st [] f = Inr f"
| "name_filter_loop st (a # as) f =
     bindR (deref st a) (\<lambda>it. bindR (name_filter_bit it) (\<lambda>b. name_filter_loop st as (f OR b)))"

text \<open>The first loop stores the ids of shared items and collects the others, the latest first, on \<^verbatim>\<open>ilst\<close>.\<close>

fun export_shared ::
    "nat list \<Rightarrow> bytes \<Rightarrow> u32 \<Rightarrow> nat \<Rightarrow> nat list \<Rightarrow> xattr_state \<Rightarrow> (bytes \<times> u32 \<times> nat list \<times> xattr_state) result" where
  "export_shared [] buf p cnt ilst st = Inr (buf, p, ilst, st)"
| "export_shared (a # as) buf p cnt ilst st =
     bindR (deref st a) (\<lambda>it.
       if sint (shared_xattr_id it) < 0 \<or> 255 \<le> cnt then export_shared as buf p cnt (a # ilst) st
       else bindR (memput buf (unat p) (cpu_to_le32 (shared_xattr_id it))) (\<lambda>buf.
            bindR (memput buf 4 [of_nat (Suc cnt)]) (\<lambda>buf.
            bindR (put_xattritem a st) (\<lambda>(_, st).
              export_shared as buf (p + 4) (Suc cnt) ilst st))))"

fun export_inline :: "nat list \<Rightarrow> bytes \<Rightarrow> u32 \<Rightarrow> xattr_state \<Rightarrow> (bytes \<times> u32 \<times> xattr_state) result" where
  "export_inline [] buf p st = Inr (buf, p, st)"
| "export_inline (a # as) buf p st =
     bindR (deref st a) (\<lambda>it.
     bindR (erofs_write_xattr_entry buf (unat p) it) (\<lambda>buf.
     bindR (put_xattritem a st) (\<lambda>(_, st). export_inline as buf (erofs_next_xattr_align p it) st)))"

definition erofs_export_xattr_ibody ::
    "xattr_cfg \<Rightarrow> erofs_sb_info \<Rightarrow> inode_ea \<Rightarrow> xattr_state \<Rightarrow> (bytes \<times> erofs_sb_info \<times> inode_ea \<times> xattr_state) result" where
  "erofs_export_xattr_ibody cfg sbi inode st =
     (let size = xattr_isize (ea_inode inode); ixattrs = i_xattrs inode in
      bindR (if c_xattr_name_filter cfg then bindR (name_filter_loop st ixattrs 0) (\<lambda>f. Inr (NOT f)) else Inr 0) (\<lambda>filt.
      let sbi = (if filt \<noteq> 0 then sbi\<lparr>feature_compat := set_feature (feature_compat sbi) EROFS_FEATURE_COMPAT_XATTR_FILTER\<rparr> else sbi) in
      bindR (memput (replicate (unat size) 0) 0
               (enc_xattr_ibody_header \<lparr>h_name_filter = filt, h_shared_count = 0, h_reserved2 = replicate 7 0\<rparr>)) (\<lambda>buf.
      bindR (export_shared ixattrs buf 12 0 [] st) (\<lambda>(buf, p, ilst, st).
      bindR (export_inline ilst buf p st) (\<lambda>(buf, p, st).
        if p < size then bindR (memput buf (unat p) (replicate (unat (size - p)) 0)) (\<lambda>buf. Inr (buf, sbi, inode\<lparr>i_xattrs := []\<rparr>, st))
        else if size < p then Err EFAULT
        else Inr (buf, sbi, inode\<lparr>i_xattrs := []\<rparr>, st))))))"

section \<open>Long name prefixes\<close>

definition erofs_xattr_insert_name_prefix :: "bytes \<Rightarrow> xattr_state \<Rightarrow> xattr_state result" where
  "erofs_xattr_insert_name_prefix prefix st =
     (if 0x80 \<le> ea_prefix_count st \<or> 255 < length prefix then Err EOVERFLOW
      else case erofs_xattr_prefix_matches prefix of
             None \<Rightarrow> Err ENODATA
           | Some (bi, bl) \<Rightarrow>
               Inr (st\<lparr>ea_name_prefixes := ea_name_prefixes st @
                         [\<lparr>tn_prefix = prefix, tn_index = 0x80 OR ea_prefix_count st, tn_base_index = of_nat bi, tn_base_len = of_nat bl\<rparr>],
                       ea_prefix_count := ea_prefix_count st + 1\<rparr>))"

definition erofs_xattr_cleanup_name_prefixes :: "xattr_state \<Rightarrow> xattr_state" where
  "erofs_xattr_cleanup_name_prefixes st = st\<lparr>ea_name_prefixes := []\<rparr>"

definition erofs_xattr_prefixes_cleanup :: "erofs_sb_info \<Rightarrow> erofs_sb_info" where
  "erofs_xattr_prefixes_cleanup sbi = sbi\<lparr>xattr_prefixes := None\<rparr>"

text \<open>
  \<^verbatim>\<open>erofs_xattr_write_name_prefixes\<close> appends to the packed file: a stream is its bytes and the position in it.  \<^verbatim>\<open>werr\<close> says at
  which positions \<^verbatim>\<open>fwrite\<close> fails; \<^verbatim>\<open>fseek\<close> succeeds.
\<close>

fun write_prefixes :: "(u64 \<Rightarrow> bool) \<Rightarrow> ea_type_node list \<Rightarrow> bytes \<Rightarrow> u64 \<Rightarrow> bytes result" where
  "write_prefixes werr [] f offset = Inr f"
| "write_prefixes werr (t # ts) f offset =
     bindR (slice (tn_prefix t) (unat (tn_base_len t)) (length (tn_prefix t) - unat (tn_base_len t))) (\<lambda>infx.
       if 255 < length infx then Inl OutOfBounds
       else let len = 1 + length infx in
            if werr offset then Err EIO
            else write_prefixes werr ts (fsplice f (unat offset) (cpu_to_le16 (of_nat len) @ [ucast (tn_base_index t)] @ infx))
                   (round_up (offset + of_nat (2 + len)) 4))"

definition erofs_xattr_write_name_prefixes ::
    "(u64 \<Rightarrow> bool) \<Rightarrow> u64 result \<Rightarrow> erofs_sb_info \<Rightarrow> xattr_state \<Rightarrow> bytes \<Rightarrow> (erofs_sb_info \<times> bytes) result" where
  "erofs_xattr_write_name_prefixes werr ftello sbi st f =
     (if ea_prefix_count st = 0 then Inr (sbi, f)
      else bindR ftello (\<lambda>offset.
        if 0xffffffff < offset then Err EOVERFLOW
        else let offset = round_up offset 4;
                 sbi = sbi\<lparr>xattr_prefix_start := drop_bit 2 (ucast offset), xattr_prefix_count := ucast (ea_prefix_count st)\<rparr>
             in bindR (write_prefixes werr (ea_name_prefixes st) f offset) (\<lambda>f.
                  Inr (sbi\<lparr>feature_incompat := set_feature (set_feature (feature_incompat sbi) EROFS_FEATURE_INCOMPAT_FRAGMENTS)
                                                EROFS_FEATURE_INCOMPAT_XATTR_PREFIXES\<rparr>, f))))"

end
