(* ===== verification/Erofs_Xattr_Read.thy ===== *)
theory Erofs_Xattr_Read
  imports Erofs_Xattr
begin

unbundle bit_operations_syntax

text \<open>
  Extended attributes on the reading side, \<^verbatim>\<open>lib/xattr.c\<close>: loading the header of the inline body, iterating over the
  entries of the inline body and of the shared area block by block with a record of handlers, and the two users of the
  iterator, \<^verbatim>\<open>erofs_getxattr\<close> and \<^verbatim>\<open>erofs_listxattr\<close>.  The lemmas remove the blocks: whatever the handlers, an entry
  that crosses block boundaries is treated as one that does not.
\<close>

section \<open>Loading the header\<close>

record xattr_iter =
  it_page :: bytes
  it_blkaddr :: u32
  it_ofs :: u32

abbreviation xattr_shared_count :: "inode_ea \<Rightarrow> nat" where
  "xattr_shared_count vi \<equiv> length (xattr_shared_xattrs vi)"

definition inlinexattr_header_size :: "inode_ea \<Rightarrow> u32" where
  "inlinexattr_header_size vi = 12 + 4 * of_nat (xattr_shared_count vi)"

definition xattrblock_addr :: "erofs_sb_info \<Rightarrow> u32 \<Rightarrow> u32" where
  "xattrblock_addr sbi xattr_id = xattr_blkaddr sbi + ucast (erofs_blknr sbi (ucast xattr_id * 4 :: u64))"

definition xattrblock_offset :: "erofs_sb_info \<Rightarrow> u32 \<Rightarrow> u32" where
  "xattrblock_offset sbi xattr_id = ucast (erofs_blkoff sbi (ucast xattr_id * 4 :: u64))"

definition page_at :: "erofs_sb_info \<Rightarrow> u32 \<Rightarrow> bytes result" where
  "page_at sbi blkaddr = mapErr toEIO (erofs_blk_read sbi 0 blkaddr 1)"

fun shared_ids :: "erofs_sb_info \<Rightarrow> nat \<Rightarrow> xattr_iter \<Rightarrow> (u32 list) result" where
  "shared_ids sbi 0 it = Inr []"
| "shared_ids sbi (Suc n) it =
     bindR (if erofs_blksiz sbi \<le> it_ofs it
            then bindR (page_at sbi (it_blkaddr it + 1)) (\<lambda>pg.
                   Inr (it\<lparr>it_page := pg, it_blkaddr := it_blkaddr it + 1, it_ofs := 0\<rparr>))
            else Inr it) (\<lambda>it.
     bindR (slice (it_page it) (unat (it_ofs it)) 4) (\<lambda>raw.
     bindR (shared_ids sbi n (it\<lparr>it_ofs := it_ofs it + 4\<rparr>)) (\<lambda>ids. Inr (le_get raw # ids))))"

text \<open>\<^verbatim>\<open>ENOATTR\<close> is \<^verbatim>\<open>ENODATA\<close>.\<close>

definition init_inode_xattrs :: "erofs_sb_info \<Rightarrow> inode_ea \<Rightarrow> inode_ea result" where
  "init_inode_xattrs sbi vi =
     (let v = ea_inode vi in
      if flags v AND EROFS_I_EA_INITED \<noteq> 0 then Inr vi
      else if xattr_isize v = 12 then Err EOPNOTSUPP
      else if xattr_isize v < 12 then (if xattr_isize v \<noteq> 0 then Err EFSCORRUPTED else Err ENODATA)
      else let pos = erofs_iloc sbi v + ucast (inode_isize v);
               blk = ucast (erofs_blknr sbi pos); ofs = ucast (erofs_blkoff sbi pos)
           in bindR (page_at sbi blk) (\<lambda>pg.
              bindR (slice pg (unat ofs + 4) 1) (\<lambda>raw.
              bindR (shared_ids sbi (unat (le_get raw :: u8)) \<lparr>it_page = pg, it_blkaddr = blk, it_ofs = ofs + 12\<rparr>) (\<lambda>ids.
                Inr (vi\<lparr>xattr_shared_xattrs := ids, ea_inode := v\<lparr>flags := flags v OR EROFS_I_EA_INITED\<rparr>\<rparr>)))))"

section \<open>The iterator\<close>

text \<open>What a handler asks for: to go on, to skip the rest of the entry (a positive value), or to fail.\<close>

datatype hret = HOk | HSkip | HErr errno

record 's xattr_iter_handlers =
  op_entry :: "'s \<Rightarrow> erofs_xattr_entry \<Rightarrow> ('s \<times> hret) result"
  op_name :: "'s \<Rightarrow> nat \<Rightarrow> bytes \<Rightarrow> ('s \<times> hret) result"
  op_alloc :: "'s \<Rightarrow> u32 \<Rightarrow> ('s \<times> hret) result"
  op_value :: "'s \<Rightarrow> nat \<Rightarrow> bytes \<Rightarrow> 's result"

definition xattr_iter_fixup :: "erofs_sb_info \<Rightarrow> xattr_iter \<Rightarrow> xattr_iter result" where
  "xattr_iter_fixup sbi it =
     (if it_ofs it < erofs_blksiz sbi then Inr it
      else let blk = it_blkaddr it + erofs_blknr sbi (it_ofs it) in
           bindR (page_at sbi blk) (\<lambda>pg. Inr (it\<lparr>it_page := pg, it_blkaddr := blk, it_ofs := erofs_blkoff sbi (it_ofs it)\<rparr>)))"

definition inline_xattr_iter_pre :: "erofs_sb_info \<Rightarrow> inode_ea \<Rightarrow> (xattr_iter \<times> u32) result" where
  "inline_xattr_iter_pre sbi vi =
     (let v = ea_inode vi; sz = inlinexattr_header_size vi in
      if xattr_isize v \<le> sz then Err ENODATA
      else let pos = erofs_iloc sbi v + ucast (ucast (inode_isize v) + sz :: u32); blk = ucast (erofs_blknr sbi pos) in
           bindR (page_at sbi blk) (\<lambda>pg.
             Inr (\<lparr>it_page = pg, it_blkaddr = blk, it_ofs = ucast (erofs_blkoff sbi pos)\<rparr>, xattr_isize v - sz)))"

text \<open>
  The loops over the name and over the value, slice by slice.  A loop is given as much fuel as it has bytes to process;
  every round processes at least one.
\<close>

fun name_loop ::
    "nat \<Rightarrow> erofs_sb_info \<Rightarrow> 's xattr_iter_handlers \<Rightarrow> nat \<Rightarrow> nat \<Rightarrow> nat \<Rightarrow> xattr_iter \<Rightarrow> 's \<Rightarrow> (xattr_iter \<times> 's \<times> hret) result" where
  "name_loop fuel sbi op nlen vlen processed it s =
     (if nlen \<le> processed then Inr (it, s, HOk)
      else case fuel of
        0 \<Rightarrow> Inl OutOfFuel
      | Suc fuel \<Rightarrow>
          bindR (if erofs_blksiz sbi \<le> it_ofs it
                 then bindR (xattr_iter_fixup sbi it) (\<lambda>it. Inr (it\<lparr>it_ofs := 0\<rparr>)) else Inr it) (\<lambda>it.
            let n = min (unat (erofs_blksiz sbi - it_ofs it)) (nlen - processed) in
            bindR (slice (it_page it) (unat (it_ofs it)) n) (\<lambda>buf.
            bindR (op_name op s processed buf) (\<lambda>(s, r).
              if r \<noteq> HOk then Inr (it\<lparr>it_ofs := it_ofs it + of_nat (nlen - processed + vlen)\<rparr>, s, r)
              else name_loop fuel sbi op nlen vlen (processed + n) (it\<lparr>it_ofs := it_ofs it + of_nat n\<rparr>) s))))"

fun value_loop ::
    "nat \<Rightarrow> erofs_sb_info \<Rightarrow> 's xattr_iter_handlers \<Rightarrow> nat \<Rightarrow> nat \<Rightarrow> xattr_iter \<Rightarrow> 's \<Rightarrow> (xattr_iter \<times> 's) result" where
  "value_loop fuel sbi op vlen processed it s =
     (if vlen \<le> processed then Inr (it, s)
      else case fuel of
        0 \<Rightarrow> Inl OutOfFuel
      | Suc fuel \<Rightarrow>
          bindR (if erofs_blksiz sbi \<le> it_ofs it
                 then bindR (xattr_iter_fixup sbi it) (\<lambda>it. Inr (it\<lparr>it_ofs := 0\<rparr>)) else Inr it) (\<lambda>it.
            let n = min (unat (erofs_blksiz sbi - it_ofs it)) (vlen - processed) in
            bindR (slice (it_page it) (unat (it_ofs it)) n) (\<lambda>buf.
            bindR (op_value op s processed buf) (\<lambda>s.
              value_loop fuel sbi op vlen (processed + n) (it\<lparr>it_ofs := it_ofs it + of_nat n\<rparr>) s))))"

declare name_loop.simps [simp del] value_loop.simps [simp del]

definition foreach_out :: "xattr_iter \<Rightarrow> 's \<Rightarrow> u32 option \<Rightarrow> hret \<Rightarrow> (hret \<times> xattr_iter \<times> 's \<times> u32 option) result" where
  "foreach_out it s tlimit r =
     Inr (if r = HSkip then HOk else r, it\<lparr>it_ofs := EROFS_XATTR_ALIGN (it_ofs it)\<rparr>, s, tlimit)"

text \<open>
  \<^verbatim>\<open>xattr_foreach\<close>.  An error of a handler is part of the value, since the iterator has advanced and the caller may go on
  with the next entry; an error of the device or of the on-disk sizes ends every caller.
\<close>

definition xattr_foreach ::
    "erofs_sb_info \<Rightarrow> 's xattr_iter_handlers \<Rightarrow> xattr_iter \<Rightarrow> 's \<Rightarrow> u32 option \<Rightarrow> (hret \<times> xattr_iter \<times> 's \<times> u32 option) result" where
  "xattr_foreach sbi op it s tlimit =
     bindR (xattr_iter_fixup sbi it) (\<lambda>it.
     bindR (slice (it_page it) (unat (it_ofs it)) 4) (\<lambda>raw.
       let entry = dec_xattr_entry raw; nlen = unat (e_name_len entry); vlen = unat (e_value_size entry) in
       bindR (case tlimit of
                None \<Rightarrow> Inr None
              | Some l \<Rightarrow> if l < erofs_xattr_entry_size entry then Err EFSCORRUPTED
                         else Inr (Some (l - erofs_xattr_entry_size entry))) (\<lambda>tlimit.
       let it = it\<lparr>it_ofs := it_ofs it + 4\<rparr> in
       bindR (op_entry op s entry) (\<lambda>(s, r).
         if r \<noteq> HOk then foreach_out (it\<lparr>it_ofs := it_ofs it + of_nat (nlen + vlen)\<rparr>) s tlimit r
         else bindR (name_loop nlen sbi op nlen vlen 0 it s) (\<lambda>(it, s, r).
           if r \<noteq> HOk then foreach_out it s tlimit r
           else bindR (op_alloc op s (ucast (e_value_size entry))) (\<lambda>(s, r).
             if r \<noteq> HOk then foreach_out (it\<lparr>it_ofs := it_ofs it + of_nat vlen\<rparr>) s tlimit r
             else bindR (value_loop vlen sbi op vlen 0 it s) (\<lambda>(it, s). foreach_out it s tlimit HOk)))))))"

section \<open>Reading one attribute\<close>

record getxattr_iter =
  gx_buffer_size :: u32
  gx_infix_len :: nat
  gx_buffer :: "bytes option"

text \<open>The long prefix an entry refers to: its base index and its infix.\<close>

definition long_prefix :: "erofs_sb_info \<Rightarrow> u8 \<Rightarrow> ((u8 \<times> bytes) option) result" where
  "long_prefix sbi idx =
     (let k = unat (idx AND 0x7f) in
      if unat (xattr_prefix_count sbi) \<le> k then Inr None
      else case xattr_prefixes sbi of
             None \<Rightarrow> Inl OutOfBounds
           | Some ps \<Rightarrow> if k < length ps \<and> ps ! k \<noteq> [] then Inr (Some (hd (ps ! k), tl (ps ! k))) else Inl OutOfBounds)"

definition erofs_xattr_long_entrymatch ::
    "erofs_sb_info \<Rightarrow> nat \<Rightarrow> bytes \<Rightarrow> getxattr_iter \<Rightarrow> erofs_xattr_entry \<Rightarrow> (getxattr_iter \<times> hret) result" where
  "erofs_xattr_long_entrymatch sbi index name it entry =
     bindR (long_prefix sbi (e_name_index entry)) (\<lambda>pf.
       case pf of
         None \<Rightarrow> Inr (it, HErr ENODATA)
       | Some (base, infx) \<Rightarrow>
           if index \<noteq> unat base \<or> length name \<noteq> unat (e_name_len entry) + length infx then Inr (it, HErr ENODATA)
           else bindR (slice name 0 (length infx)) (\<lambda>b.
             if b \<noteq> infx then Inr (it, HErr ENODATA) else Inr (it\<lparr>gx_infix_len := length infx\<rparr>, HOk)))"

definition xattr_entrymatch ::
    "erofs_sb_info \<Rightarrow> nat \<Rightarrow> bytes \<Rightarrow> getxattr_iter \<Rightarrow> erofs_xattr_entry \<Rightarrow> (getxattr_iter \<times> hret) result" where
  "xattr_entrymatch sbi index name it entry =
     (if e_name_index entry AND 0x80 \<noteq> 0 then erofs_xattr_long_entrymatch sbi index name it entry
      else if index \<noteq> unat (e_name_index entry) \<or> length name \<noteq> unat (e_name_len entry) then Inr (it, HErr ENODATA)
      else Inr (it\<lparr>gx_infix_len := 0\<rparr>, HOk))"

definition xattr_namematch :: "bytes \<Rightarrow> getxattr_iter \<Rightarrow> nat \<Rightarrow> bytes \<Rightarrow> (getxattr_iter \<times> hret) result" where
  "xattr_namematch name it processed buf =
     bindR (slice name (gx_infix_len it + processed) (length buf)) (\<lambda>b. Inr (it, if buf \<noteq> b then HErr ENODATA else HOk))"

definition xattr_checkbuffer :: "getxattr_iter \<Rightarrow> u32 \<Rightarrow> (getxattr_iter \<times> hret) result" where
  "xattr_checkbuffer it value_sz =
     (let err = (if gx_buffer_size it < value_sz then HErr ERANGE else HOk)
      in Inr (it\<lparr>gx_buffer_size := value_sz\<rparr>, if gx_buffer it = None then HSkip else err))"

definition xattr_copyvalue :: "getxattr_iter \<Rightarrow> nat \<Rightarrow> bytes \<Rightarrow> getxattr_iter result" where
  "xattr_copyvalue it processed buf =
     (case gx_buffer it of
        None \<Rightarrow> Inl OutOfBounds
      | Some b \<Rightarrow> bindR (memput b processed buf) (\<lambda>b. Inr (it\<lparr>gx_buffer := Some b\<rparr>)))"

definition find_xattr_handlers :: "erofs_sb_info \<Rightarrow> nat \<Rightarrow> bytes \<Rightarrow> getxattr_iter xattr_iter_handlers" where
  "find_xattr_handlers sbi index name =
     \<lparr>op_entry = xattr_entrymatch sbi index name, op_name = xattr_namematch name, op_alloc = xattr_checkbuffer,
      op_value = xattr_copyvalue\<rparr>"

text \<open>The loop over the inline entries stops when the limit is used up; every entry uses four bytes of it at least.\<close>

fun getxattr_loop ::
    "nat \<Rightarrow> erofs_sb_info \<Rightarrow> getxattr_iter xattr_iter_handlers \<Rightarrow> xattr_iter \<Rightarrow> getxattr_iter \<Rightarrow> u32 \<Rightarrow> (hret \<times> getxattr_iter) result" where
  "getxattr_loop 0 sbi op it g remaining = Inl OutOfFuel"
| "getxattr_loop (Suc n) sbi op it g remaining =
     bindR (xattr_foreach sbi op it g (Some remaining)) (\<lambda>(r, it, g, lim).
       if r \<noteq> HErr ENODATA \<or> lim = Some 0 then Inr (r, g) else getxattr_loop n sbi op it g (the lim))"

definition get_result :: "hret \<times> getxattr_iter \<Rightarrow> (u32 \<times> getxattr_iter) result" where
  "get_result rg = (case fst rg of HErr e \<Rightarrow> Err e | _ \<Rightarrow> Inr (gx_buffer_size (snd rg), snd rg))"

definition inline_getxattr ::
    "erofs_sb_info \<Rightarrow> inode_ea \<Rightarrow> getxattr_iter xattr_iter_handlers \<Rightarrow> getxattr_iter \<Rightarrow> (hret \<times> getxattr_iter) result" where
  "inline_getxattr sbi vi op g =
     (case inline_xattr_iter_pre sbi vi of
        Inl e \<Rightarrow> if e = Errno ENODATA then Inr (HErr ENODATA, g) else Inl e
      | Inr (it, remaining) \<Rightarrow> getxattr_loop (unat remaining) sbi op it g remaining)"

text \<open>A block of the shared area is read again only if the last entry ended in another one.\<close>

fun shared_getxattr ::
    "erofs_sb_info \<Rightarrow> getxattr_iter xattr_iter_handlers \<Rightarrow> u32 list \<Rightarrow> xattr_iter option \<Rightarrow> getxattr_iter \<Rightarrow> (hret \<times> getxattr_iter) result" where
  "shared_getxattr sbi op [] it g = Inr (HErr ENODATA, g)"
| "shared_getxattr sbi op (i # is) it g =
     (let blkaddr = xattrblock_addr sbi i; ofs = xattrblock_offset sbi i in
      bindR (case it of
               Some t \<Rightarrow> if blkaddr = it_blkaddr t then Inr (t\<lparr>it_ofs := ofs\<rparr>)
                         else bindR (page_at sbi blkaddr) (\<lambda>pg. Inr \<lparr>it_page = pg, it_blkaddr = blkaddr, it_ofs = ofs\<rparr>)
             | None \<Rightarrow> bindR (page_at sbi blkaddr) (\<lambda>pg. Inr \<lparr>it_page = pg, it_blkaddr = blkaddr, it_ofs = ofs\<rparr>)) (\<lambda>t.
      bindR (xattr_foreach sbi op t g None) (\<lambda>(r, t, g, _).
        if r \<noteq> HErr ENODATA then Inr (r, g) else shared_getxattr sbi op is (Some t) g)))"

text \<open>\<^verbatim>\<open>erofs_getxattr\<close>: the length of the value, the caller's buffer, and the inode with its header loaded.\<close>

definition erofs_getxattr ::
    "erofs_sb_info \<Rightarrow> inode_ea \<Rightarrow> bytes option \<Rightarrow> bytes option \<Rightarrow> u32 \<Rightarrow> (u32 \<times> bytes option \<times> inode_ea) result" where
  "erofs_getxattr sbi vi name buffer buffer_size =
     (case name of
        None \<Rightarrow> Err EINVAL
      | Some name \<Rightarrow>
          bindR (init_inode_xattrs sbi vi) (\<lambda>vi.
            case erofs_xattr_prefix_matches name of
              None \<Rightarrow> Err ENODATA
            | Some (prefix, prefixlen) \<Rightarrow>
                let nm = drop prefixlen name in
                if 255 < length nm then Err ERANGE
                else let op = find_xattr_handlers sbi prefix nm;
                         g = \<lparr>gx_buffer_size = buffer_size, gx_infix_len = 0, gx_buffer = buffer\<rparr>
                     in bindR (inline_getxattr sbi vi op g) (\<lambda>(r, g).
                        bindR (if r = HErr ENODATA then shared_getxattr sbi op (xattr_shared_xattrs vi) None g else Inr (r, g)) (\<lambda>rg.
                        bindR (get_result rg) (\<lambda>(n, g). Inr (n, gx_buffer g, vi))))))"

section \<open>Listing the names\<close>

text \<open>\<^verbatim>\<open>buffer_ofs\<close> is an \<^verbatim>\<open>int\<close>; the names of an inode take less than \<^verbatim>\<open>2 ^ 31\<close> bytes, so it does not overflow and is a natural number here.\<close>

record listxattr_iter =
  lx_buffer :: "bytes option"
  lx_buffer_size :: u32
  lx_buffer_ofs :: nat

definition xattr_entrylist :: "erofs_sb_info \<Rightarrow> listxattr_iter \<Rightarrow> erofs_xattr_entry \<Rightarrow> (listxattr_iter \<times> hret) result" where
  "xattr_entrylist sbi it entry =
     bindR (if e_name_index entry AND 0x80 \<noteq> 0 then long_prefix sbi (e_name_index entry)
            else Inr (Some (e_name_index entry, []))) (\<lambda>pf.
       case pf of
         None \<Rightarrow> Inr (it, HSkip)
       | Some (base, infx) \<Rightarrow>
           if base = 0 \<or> length xattr_types \<le> unat base then Inr (it, HSkip)
           else let prefix = (case xattr_types ! unat base of None \<Rightarrow> [] | Some p \<Rightarrow> p);
                    need = lx_buffer_ofs it + length prefix + length infx + unat (e_name_len entry) + 1
                in case lx_buffer it of
                     None \<Rightarrow> Inr (it\<lparr>lx_buffer_ofs := need\<rparr>, HSkip)
                   | Some b \<Rightarrow>
                       if unat (lx_buffer_size it) < need then Inr (it, HErr ERANGE)
                       else bindR (memput b (lx_buffer_ofs it) (prefix @ infx)) (\<lambda>b.
                              Inr (it\<lparr>lx_buffer := Some b, lx_buffer_ofs := lx_buffer_ofs it + length prefix + length infx\<rparr>, HOk)))"

definition xattr_namelist :: "listxattr_iter \<Rightarrow> nat \<Rightarrow> bytes \<Rightarrow> (listxattr_iter \<times> hret) result" where
  "xattr_namelist it processed buf =
     (case lx_buffer it of
        None \<Rightarrow> Inl OutOfBounds
      | Some b \<Rightarrow> bindR (memput b (lx_buffer_ofs it) buf) (\<lambda>b.
          Inr (it\<lparr>lx_buffer := Some b, lx_buffer_ofs := lx_buffer_ofs it + length buf\<rparr>, HOk)))"

definition xattr_skipvalue :: "listxattr_iter \<Rightarrow> u32 \<Rightarrow> (listxattr_iter \<times> hret) result" where
  "xattr_skipvalue it value_sz =
     (case lx_buffer it of
        None \<Rightarrow> Inl OutOfBounds
      | Some b \<Rightarrow> bindR (memput b (lx_buffer_ofs it) [0]) (\<lambda>b.
          Inr (it\<lparr>lx_buffer := Some b, lx_buffer_ofs := lx_buffer_ofs it + 1\<rparr>, HSkip)))"

text \<open>The handler of values is the null pointer.\<close>

definition list_xattr_handlers :: "erofs_sb_info \<Rightarrow> listxattr_iter xattr_iter_handlers" where
  "list_xattr_handlers sbi =
     \<lparr>op_entry = xattr_entrylist sbi, op_name = xattr_namelist, op_alloc = xattr_skipvalue, op_value = (\<lambda>_ _ _. Inl OutOfBounds)\<rparr>"

fun listxattr_loop ::
    "nat \<Rightarrow> erofs_sb_info \<Rightarrow> listxattr_iter xattr_iter_handlers \<Rightarrow> xattr_iter \<Rightarrow> listxattr_iter \<Rightarrow> u32 \<Rightarrow> (hret \<times> listxattr_iter) result" where
  "listxattr_loop 0 sbi op it g remaining = Inl OutOfFuel"
| "listxattr_loop (Suc n) sbi op it g remaining =
     bindR (xattr_foreach sbi op it g (Some remaining)) (\<lambda>(r, it, g, lim).
       if r \<noteq> HOk \<or> lim = Some 0 then Inr (r, g) else listxattr_loop n sbi op it g (the lim))"

definition inline_listxattr ::
    "erofs_sb_info \<Rightarrow> inode_ea \<Rightarrow> listxattr_iter \<Rightarrow> (hret \<times> listxattr_iter) result" where
  "inline_listxattr sbi vi g =
     (case inline_xattr_iter_pre sbi vi of
        Inl e \<Rightarrow> if e = Errno ENODATA then Inr (HErr ENODATA, g) else Inl e
      | Inr (it, remaining) \<Rightarrow> listxattr_loop (unat remaining) sbi (list_xattr_handlers sbi) it g remaining)"

fun shared_listxattr ::
    "erofs_sb_info \<Rightarrow> u32 list \<Rightarrow> xattr_iter option \<Rightarrow> listxattr_iter \<Rightarrow> (hret \<times> listxattr_iter) result" where
  "shared_listxattr sbi [] it g = Inr (HOk, g)"
| "shared_listxattr sbi (i # is) it g =
     (let blkaddr = xattrblock_addr sbi i; ofs = xattrblock_offset sbi i in
      bindR (case it of
               Some t \<Rightarrow> if blkaddr = it_blkaddr t then Inr (t\<lparr>it_ofs := ofs\<rparr>)
                         else bindR (page_at sbi blkaddr) (\<lambda>pg. Inr \<lparr>it_page = pg, it_blkaddr = blkaddr, it_ofs = ofs\<rparr>)
             | None \<Rightarrow> bindR (page_at sbi blkaddr) (\<lambda>pg. Inr \<lparr>it_page = pg, it_blkaddr = blkaddr, it_ofs = ofs\<rparr>)) (\<lambda>t.
      bindR (xattr_foreach sbi (list_xattr_handlers sbi) t g None) (\<lambda>(r, t, g, _).
        if r \<noteq> HOk then Inr (r, g) else shared_listxattr sbi is (Some t) g)))"

definition erofs_listxattr ::
    "erofs_sb_info \<Rightarrow> inode_ea \<Rightarrow> bytes option \<Rightarrow> u32 \<Rightarrow> (nat \<times> bytes option \<times> inode_ea) result" where
  "erofs_listxattr sbi vi buffer buffer_size =
     (case init_inode_xattrs sbi vi of
        Inl e \<Rightarrow> if e = Errno ENODATA then Inr (0, buffer, vi) else Inl e
      | Inr vi \<Rightarrow>
          bindR (inline_listxattr sbi vi \<lparr>lx_buffer = buffer, lx_buffer_size = buffer_size, lx_buffer_ofs = 0\<rparr>) (\<lambda>(r, g).
            case r of
              HErr e \<Rightarrow> if e \<noteq> ENODATA then Err e else
                bindR (shared_listxattr sbi (xattr_shared_xattrs vi) None g) (\<lambda>(r, g).
                  case r of HErr e \<Rightarrow> Err e | _ \<Rightarrow> Inr (lx_buffer_ofs g, lx_buffer g, vi))
            | _ \<Rightarrow>
                bindR (shared_listxattr sbi (xattr_shared_xattrs vi) None g) (\<lambda>(r, g).
                  case r of HErr e \<Rightarrow> Err e | _ \<Rightarrow> Inr (lx_buffer_ofs g, lx_buffer g, vi))))"

section \<open>Taking the attributes of an inode over\<close>

text \<open>
  \<^verbatim>\<open>erofs_read_xattrs_from_disk\<close>, for images that are rebuilt from images: every attribute listed is read and set again.  The
  attributes of overlayfs mark a directory: an opaque one, and one with whiteouts, whose empty origin is not kept.
\<close>

function disk_keys_loop ::
    "erofs_sb_info \<Rightarrow> xattr_cfg \<Rightarrow> bytes \<Rightarrow> inode_ea \<Rightarrow> xattr_state \<Rightarrow> (inode_ea \<times> xattr_state) result" where
  "disk_keys_loop sbi cfg kl inode st =
     (if kl = [] then Inr (inode, st)
      else if 0 \<notin> set kl then Inl OutOfBounds
      else let key = c_str kl; rest = drop (length key + 1) kl; isdir = S_ISDIR (i_mode (ea_inode inode)) in
           if key = OVL_XATTR_OPAQUE \<and> \<not> isdir then Err EINVAL
           else let inode = (if key = OVL_XATTR_OPAQUE then inode\<lparr>ea_opaque := True\<rparr> else inode) in
                bindR (erofs_getxattr sbi inode (Some key) None 0) (\<lambda>(size, _, inode).
                  if size \<noteq> 0
                  then bindR (erofs_getxattr sbi inode (Some key) (Some (replicate (unat size) 0)) size) (\<lambda>(_, value, inode).
                       bindR (erofs_setxattr cfg key (the value) inode st) (\<lambda>(inode, st). disk_keys_loop sbi cfg rest inode st))
                  else if isdir \<and> key = OVL_XATTR_ORIGIN then disk_keys_loop sbi cfg rest (inode\<lparr>ea_whiteouts := True\<rparr>) st
                  else bindR (erofs_setxattr cfg key [] inode st) (\<lambda>(inode, st). disk_keys_loop sbi cfg rest inode st)))"
  by pat_completeness auto
termination by (relation "measure (\<lambda>(_, _, kl, _, _). length kl)") auto

definition erofs_read_xattrs_from_disk ::
    "erofs_sb_info \<Rightarrow> xattr_cfg \<Rightarrow> inode_ea \<Rightarrow> xattr_state \<Rightarrow> (inode_ea \<times> xattr_state) result" where
  "erofs_read_xattrs_from_disk sbi cfg inode st =
     bindR (erofs_listxattr sbi (inode\<lparr>i_xattrs := []\<rparr>) None 0) (\<lambda>(kllen, _, inode).
       if kllen \<le> 1 then Inr (inode, st)
       else bindR (erofs_listxattr sbi inode (Some (replicate kllen 0)) (of_nat kllen)) (\<lambda>(_, keylst, inode).
              disk_keys_loop sbi cfg (the keylst) inode st))"

section \<open>The iterator without blocks\<close>

text \<open>\<^verbatim>\<open>it_at\<close>: the iterator stands at a byte position of the image, with the block of its address loaded.\<close>

abbreviation img :: "erofs_sb_info \<Rightarrow> bytes" where
  "img sbi \<equiv> vf_bytes (bdev sbi)"

definition xattr_dev :: "erofs_sb_info \<Rightarrow> bool" where
  "xattr_dev sbi \<longleftrightarrow> quiet (bdev sbi) \<and> valid_blkszbits sbi"

definition it_at :: "erofs_sb_info \<Rightarrow> xattr_iter \<Rightarrow> nat \<Rightarrow> bool" where
  "it_at sbi it pos \<longleftrightarrow>
     it_page it = zread (img sbi) (unat (it_blkaddr it) * 2 ^ blkbits sbi) (2 ^ blkbits sbi) \<and>
     unat (it_blkaddr it) * 2 ^ blkbits sbi + unat (it_ofs it) = pos \<and> unat (it_ofs it) \<le> 2 ^ 17"

abbreviation addressable :: "erofs_sb_info \<Rightarrow> nat \<Rightarrow> bool" where
  "addressable sbi pos \<equiv> pos < 2 ^ 32 * 2 ^ blkbits sbi"

lemma xattr_dev_B:
  assumes "xattr_dev sbi"
  shows "unat (erofs_blksiz sbi) = 2 ^ blkbits sbi" and "2 ^ blkbits sbi \<le> (4096 :: nat)" and "512 \<le> (2 ^ blkbits sbi :: nat)"
    and "4 dvd (2 ^ blkbits sbi :: nat)"
proof -
  have b: "9 \<le> blkbits sbi" "blkbits sbi \<le> 12" using assms by (auto simp: xattr_dev_def valid_blkszbits_def)
  then show "unat (erofs_blksiz sbi) = 2 ^ blkbits sbi" by (simp add: unat_erofs_blksiz)
  have "2 ^ blkbits sbi \<le> (2 ^ 12 :: nat)" using b by (intro power_increasing) auto
  then show "2 ^ blkbits sbi \<le> (4096 :: nat)" by simp
  have "2 ^ 9 \<le> (2 ^ blkbits sbi :: nat)" using b by (intro power_increasing) auto
  then show "512 \<le> (2 ^ blkbits sbi :: nat)" by simp
  have "2 ^ 2 dvd (2 ^ blkbits sbi :: nat)" using b by (intro le_imp_power_dvd) simp
  then show "4 dvd (2 ^ blkbits sbi :: nat)" by simp
qed

lemma page_at_quiet:
  assumes "xattr_dev sbi"
  shows "page_at sbi blk = Inr (zread (img sbi) (unat blk * 2 ^ blkbits sbi) (2 ^ blkbits sbi))"
proof -
  have b: "blkbits sbi \<le> 32" "quiet (bdev sbi)" using assms by (auto simp: xattr_dev_def valid_blkszbits_def)
  then show ?thesis
    using unat_erofs_pos32 [OF b(1), of 1] unat_erofs_pos32 [OF b(1), of blk]
    by (simp add: page_at_def erofs_blk_read_def erofs_dev_read_quiet)
qed

lemma it_at_slice:
  assumes "it_at sbi it pos" and "unat (it_ofs it) + n \<le> 2 ^ blkbits sbi"
  shows "slice (it_page it) (unat (it_ofs it)) n = Inr (zread (img sbi) pos n)"
  using assms zread_sub [OF assms(2), of "img sbi" "unat (it_blkaddr it) * 2 ^ blkbits sbi"]
  by (auto simp: it_at_def slice_def)

lemma it_at_advance:
  assumes "it_at sbi it pos" and "unat (it_ofs it) + n \<le> 2 ^ 17"
  shows "it_at sbi (it\<lparr>it_ofs := it_ofs it + of_nat n\<rparr>) (pos + n)" and "unat (it_ofs it + of_nat n) = unat (it_ofs it) + n"
proof -
  show u: "unat (it_ofs it + of_nat n) = unat (it_ofs it) + n"
    using assms(2) by (simp add: unat_word_ariths unat_of_nat)
  show "it_at sbi (it\<lparr>it_ofs := it_ofs it + of_nat n\<rparr>) (pos + n)"
    using assms u by (simp add: it_at_def)
qed

lemma fixup_at:
  assumes d: "xattr_dev sbi" and i: "it_at sbi it pos" and a: "addressable sbi pos"
  obtains it' where "xattr_iter_fixup sbi it = Inr it'" "it_at sbi it' pos" "unat (it_ofs it') < 2 ^ blkbits sbi"
    "unat (it_ofs it') = pos mod 2 ^ blkbits sbi"
proof (cases "it_ofs it < erofs_blksiz sbi")
  case True
  then have "unat (it_ofs it) < 2 ^ blkbits sbi" using xattr_dev_B(1) [OF d] by (simp add: word_less_nat_alt)
  moreover have "unat (it_blkaddr it) * 2 ^ blkbits sbi + unat (it_ofs it) = pos" using i by (simp add: it_at_def)
  ultimately have "unat (it_ofs it) = pos mod 2 ^ blkbits sbi" by (metis mod_less mod_mult_self3)
  moreover have "xattr_iter_fixup sbi it = Inr it" using True by (simp add: xattr_iter_fixup_def)
  ultimately show ?thesis by (intro that [of it] i) (simp_all only:, simp)
next
  case False
  let ?B = "2 ^ blkbits sbi :: nat"
  let ?blk = "it_blkaddr it + erofs_blknr sbi (it_ofs it)"
  have bb: "blkbits sbi < 32" using d by (auto simp: xattr_dev_def valid_blkszbits_def)
  have p: "pos = unat (it_blkaddr it) * ?B + unat (it_ofs it)" using i by (simp add: it_at_def)
  have "unat (it_blkaddr it) + unat (it_ofs it) div ?B = pos div ?B" by (simp add: p)
  moreover have "pos div ?B < 2 ^ 32" using a by (simp add: less_mult_imp_div_less)
  ultimately have blk: "unat ?blk = pos div ?B" by (simp add: unat_word_ariths unat_erofs_blknr)
  have off: "unat (erofs_blkoff sbi (it_ofs it)) = pos mod ?B" using bb by (simp add: unat_erofs_blkoff p)
  have lt: "pos mod ?B < ?B" by simp
  have "pos mod ?B \<le> 2 ^ 17" using less_le_trans [OF lt xattr_dev_B(2) [OF d]] by simp
  define it' where "it' = it\<lparr>it_page := zread (img sbi) (unat ?blk * ?B) ?B, it_blkaddr := ?blk, it_ofs := erofs_blkoff sbi (it_ofs it)\<rparr>"
  have fields: "it_page it' = zread (img sbi) (pos div ?B * ?B) ?B" "unat (it_blkaddr it') = pos div ?B" "unat (it_ofs it') = pos mod ?B"
    unfolding it'_def using blk off by simp_all
  have "it_at sbi it' pos" unfolding it_at_def fields using \<open>pos mod ?B \<le> 2 ^ 17\<close> by (intro conjI refl div_mult_mod_eq)
  moreover have "xattr_iter_fixup sbi it = Inr it'"
    using False by (simp add: xattr_iter_fixup_def page_at_quiet [OF d] Let_def it'_def)
  ultimately show ?thesis using that [of it'] lt fields(3) by simp
qed

text \<open>The step at the head of both loops.\<close>

lemma loop_fixup:
  assumes d: "xattr_dev sbi" and i: "it_at sbi it pos" and a: "addressable sbi pos" and o: "unat (it_ofs it) \<le> 2 ^ blkbits sbi"
  obtains it' where "(if erofs_blksiz sbi \<le> it_ofs it then bindR (xattr_iter_fixup sbi it) (\<lambda>it. Inr (it\<lparr>it_ofs := 0\<rparr>)) else Inr it) = Inr it'"
    "it_at sbi it' pos" "unat (it_ofs it') < 2 ^ blkbits sbi"
proof (cases "erofs_blksiz sbi \<le> it_ofs it")
  case True
  then have e: "unat (it_ofs it) = 2 ^ blkbits sbi" using o xattr_dev_B(1) [OF d] by (simp add: word_le_nat_alt)
  obtain it' where f: "xattr_iter_fixup sbi it = Inr it'" "it_at sbi it' pos" "unat (it_ofs it') = pos mod 2 ^ blkbits sbi"
    using fixup_at [OF d i a] by blast
  have "pos mod 2 ^ blkbits sbi = 0" using i e by (auto simp: it_at_def)
  then have "it_ofs it' = 0" using f(3) by (simp add: unat_eq_zero)
  then have "it'\<lparr>it_ofs := 0\<rparr> = it'" by simp
  then show ?thesis using that [of it'] True f(1,2) \<open>it_ofs it' = 0\<close> by simp
next
  case False
  then have "unat (it_ofs it) < 2 ^ blkbits sbi" using xattr_dev_B(1) [OF d] by (simp add: word_le_nat_alt)
  then show ?thesis using that [of it] False i by simp
qed

text \<open>One round of either loop: the slice that is left of the block, and the iterator behind it.\<close>

lemma loop_slice:
  assumes d: "xattr_dev sbi" and i: "it_at sbi it pos" and o: "unat (it_ofs it) \<le> 2 ^ blkbits sbi" and l: "0 < left"
    and a: "addressable sbi (pos + left)"
  obtains it1 n where "(if erofs_blksiz sbi \<le> it_ofs it then bindR (xattr_iter_fixup sbi it) (\<lambda>it. Inr (it\<lparr>it_ofs := 0\<rparr>)) else Inr it) = Inr it1"
    and "min (unat (erofs_blksiz sbi - it_ofs it1)) left = n" and "0 < n" and "n \<le> left"
    and "slice (it_page it1) (unat (it_ofs it1)) n = Inr (zread (img sbi) pos n)"
    and "zread (img sbi) pos left = zread (img sbi) pos n @ zread (img sbi) (pos + n) (left - n)"
    and "it_at sbi it1 pos" and "unat (it_ofs it1) < 2 ^ blkbits sbi"
    and "it_at sbi (it1\<lparr>it_ofs := it_ofs it1 + of_nat n\<rparr>) (pos + n)"
    and "unat (it_ofs (it1\<lparr>it_ofs := it_ofs it1 + of_nat n\<rparr>)) \<le> 2 ^ blkbits sbi"
proof -
  have "addressable sbi pos" using a by linarith
  then obtain it1 where f: "(if erofs_blksiz sbi \<le> it_ofs it then bindR (xattr_iter_fixup sbi it) (\<lambda>it. Inr (it\<lparr>it_ofs := 0\<rparr>)) else Inr it) = Inr it1"
    and i1: "it_at sbi it1 pos" and o1: "unat (it_ofs it1) < 2 ^ blkbits sbi"
    using loop_fixup [OF d i _ o] by metis
  define n where "n = min (unat (erofs_blksiz sbi - it_ofs it1)) left"
  have room: "unat (erofs_blksiz sbi - it_ofs it1) = 2 ^ blkbits sbi - unat (it_ofs it1)"
    using o1 xattr_dev_B(1) [OF d] by (simp add: unat_sub word_le_nat_alt)
  have n: "0 < n" "n \<le> left" "unat (it_ofs it1) + n \<le> 2 ^ blkbits sbi" using o1 l room by (auto simp: n_def)
  have small: "unat (it_ofs it1) + n \<le> 2 ^ 17" using le_trans [OF n(3) xattr_dev_B(2) [OF d]] by simp
  have "zread (img sbi) pos left = zread (img sbi) pos n @ zread (img sbi) (pos + n) (left - n)"
    using n(2) by (simp only: zread_append_zread le_add_diff_inverse)
  then show thesis
    using that [OF f n_def [symmetric] n(1,2) it_at_slice [OF i1 n(3)] _ i1 o1] it_at_advance [OF i1 small] n(3) by simp
qed

section \<open>The interface of the handlers\<close>

text \<open>
  The iterator may cut a name or a value at any block boundary: a handler promises that two calls for adjacent slices do
  what one call for both does.
\<close>

definition visit :: "'s xattr_iter_handlers \<Rightarrow> 's \<Rightarrow> erofs_xattr_entry \<Rightarrow> bytes \<Rightarrow> bytes \<Rightarrow> ('s \<times> hret) result" where
  "visit op s e nm val =
     bindR (op_entry op s e) (\<lambda>(s, r). if r \<noteq> HOk then Inr (s, r)
     else bindR (if nm = [] then Inr (s, HOk) else op_name op s 0 nm) (\<lambda>(s, r). if r \<noteq> HOk then Inr (s, r)
     else bindR (op_alloc op s (ucast (e_value_size e))) (\<lambda>(s, r). if r \<noteq> HOk then Inr (s, r)
     else bindR (if val = [] then Inr s else op_value op s 0 val) (\<lambda>s. Inr (s, HOk)))))"

text \<open>The entry at a position of the image, its name and its value.\<close>

definition ent :: "erofs_sb_info \<Rightarrow> nat \<Rightarrow> erofs_xattr_entry" where
  "ent sbi pos = dec_xattr_entry (zread (img sbi) pos 4)"

abbreviation ent_nlen :: "erofs_sb_info \<Rightarrow> nat \<Rightarrow> nat" where
  "ent_nlen sbi pos \<equiv> unat (e_name_len (ent sbi pos))"

abbreviation ent_vlen :: "erofs_sb_info \<Rightarrow> nat \<Rightarrow> nat" where
  "ent_vlen sbi pos \<equiv> unat (e_value_size (ent sbi pos))"

abbreviation ent_name :: "erofs_sb_info \<Rightarrow> nat \<Rightarrow> bytes" where
  "ent_name sbi pos \<equiv> zread (img sbi) (pos + 4) (ent_nlen sbi pos)"

abbreviation ent_value :: "erofs_sb_info \<Rightarrow> nat \<Rightarrow> bytes" where
  "ent_value sbi pos \<equiv> zread (img sbi) (pos + 4 + ent_nlen sbi pos) (ent_vlen sbi pos)"

definition ent_size :: "erofs_sb_info \<Rightarrow> nat \<Rightarrow> nat" where
  "ent_size sbi pos = unat (erofs_xattr_entry_size (ent sbi pos))"

definition align4 :: "nat \<Rightarrow> nat" where
  "align4 n = (n + 3) div 4 * 4"

lemma align4_add: "4 dvd m \<Longrightarrow> align4 (m + n) = m + align4 n"
  by (auto simp: align4_def add.assoc)

lemma align4_bounds: "n \<le> align4 n" "align4 n < n + 4" "4 dvd align4 n"
  by (simp_all add: align4_def)

lemma align4_le: "n \<le> 2 ^ 17 \<Longrightarrow> align4 n \<le> 2 ^ 17"
  using align4_bounds(2,3) [of n] by (auto elim!: dvdE)

lemma unat_XATTR_ALIGN: "unat x < 2 ^ 32 - 4 \<Longrightarrow> unat (EROFS_XATTR_ALIGN x) = align4 (unat x)"
  using unat_round_up [of 2 x] by (simp add: EROFS_XATTR_ALIGN_def align4_def)

lemma entry_size_value:
  "unat (erofs_xattr_entry_size e) = align4 (4 + unat (e_name_len e) + unat (e_value_size e))"
proof -
  have "unat (e_name_len e) < 256" "unat (e_value_size e) < 65536"
    using unsigned_less [of "e_name_len e"] unsigned_less [of "e_value_size e"] by simp_all
  then have "unat (4 + ucast (e_name_len e) + ucast (e_value_size e) :: u32) = 4 + unat (e_name_len e) + unat (e_value_size e)"
    by (simp add: unat_word_ariths unat_ucast_up)
  then show ?thesis
    using \<open>unat (e_name_len e) < 256\<close> \<open>unat (e_value_size e) < 65536\<close> by (simp add: erofs_xattr_entry_size_def unat_XATTR_ALIGN)
qed

lemma ent_size_value: "ent_size sbi pos = align4 (4 + ent_nlen sbi pos + ent_vlen sbi pos)"
  by (simp add: ent_size_def entry_size_value)

lemma ent_bounds: "ent_nlen sbi pos < 256" "ent_vlen sbi pos < 65536" "4 \<le> ent_size sbi pos" "ent_size sbi pos < 65800" "4 dvd ent_size sbi pos"
proof -
  show n: "ent_nlen sbi pos < 256" and v: "ent_vlen sbi pos < 65536"
    using unsigned_less [of "e_name_len (ent sbi pos)"] unsigned_less [of "e_value_size (ent sbi pos)"] by simp_all
  show "4 \<le> ent_size sbi pos" "ent_size sbi pos < 65800" "4 dvd ent_size sbi pos"
    using n v align4_bounds [of "4 + ent_nlen sbi pos + ent_vlen sbi pos"] unfolding ent_size_value by simp_all
qed

lemma foreach_out_at:
  assumes d: "xattr_dev sbi" and i: "it_at sbi it (pos + n)" and p: "4 dvd pos" and n: "align4 n = m"
  shows "\<exists>it'. foreach_out it s lim r = Inr (if r = HSkip then HOk else r, it', s, lim) \<and> it_at sbi it' (pos + m)"
proof -
  let ?k = "unat (it_blkaddr it) * 2 ^ blkbits sbi"
  have o: "unat (it_ofs it) \<le> 2 ^ 17" using i by (simp add: it_at_def)
  then have a: "unat (EROFS_XATTR_ALIGN (it_ofs it)) = align4 (unat (it_ofs it))" by (simp add: unat_XATTR_ALIGN)
  have "4 dvd ?k" using xattr_dev_B(4) [OF d] by simp
  moreover have "?k + unat (it_ofs it) = pos + n" using i by (simp add: it_at_def)
  ultimately have "?k + align4 (unat (it_ofs it)) = pos + m" using align4_add p n by metis
  moreover have "align4 (unat (it_ofs it)) \<le> 2 ^ 17" by (rule align4_le [OF o])
  ultimately have "it_at sbi (it\<lparr>it_ofs := EROFS_XATTR_ALIGN (it_ofs it)\<rparr>) (pos + m)"
    using i by (simp add: it_at_def a)
  then show ?thesis by (auto simp: foreach_out_def)
qed

text \<open>The limit after an entry.\<close>

definition limit_after :: "u32 option \<Rightarrow> erofs_xattr_entry \<Rightarrow> u32 option" where
  "limit_after lim e = map_option (\<lambda>l. l - erofs_xattr_entry_size e) lim"

locale xattr_handler =
  fixes op :: "'s xattr_iter_handlers"
  assumes name_split: "op_name op s p (xs @ ys) = Inr r \<Longrightarrow> xs \<noteq> [] \<Longrightarrow> ys \<noteq> [] \<Longrightarrow>
      bindR (op_name op s p xs) (\<lambda>(s', r'). if r' \<noteq> HOk then Inr (s', r') else op_name op s' (p + length xs) ys) = Inr r"
    and value_split: "op_value op s p (xs @ ys) = Inr s' \<Longrightarrow> xs \<noteq> [] \<Longrightarrow> ys \<noteq> [] \<Longrightarrow>
      bindR (op_value op s p xs) (\<lambda>s. op_value op s (p + length xs) ys) = Inr s'"
begin

lemma name_loop_whole:
  assumes d: "xattr_dev sbi" and "it_at sbi it pos" and "unat (it_ofs it) \<le> 2 ^ blkbits sbi"
    and "nlen - processed \<le> fuel" and "addressable sbi (pos + (nlen - processed))" and "nlen + vlen < 2 ^ 16 + 2 ^ 8"
    and "processed < nlen \<Longrightarrow> op_name op s processed (zread (img sbi) pos (nlen - processed)) = Inr (s', r)"
    and "nlen \<le> processed \<Longrightarrow> s' = s \<and> r = HOk"
  shows "\<exists>it'. name_loop fuel sbi op nlen vlen processed it s = Inr (it', s', r) \<and>
     it_at sbi it' (pos + (nlen - processed) + (if r = HOk then 0 else vlen)) \<and> (r = HOk \<longrightarrow> unat (it_ofs it') \<le> 2 ^ blkbits sbi)"
  using assms(2-)
proof (induction fuel arbitrary: it pos processed s)
  case 0
  then show ?case by (auto simp: name_loop.simps)
next
  case (Suc fuel)
  show ?case
  proof (cases "nlen \<le> processed")
    case True
    then show ?thesis using Suc.prems by (auto simp: name_loop.simps)
  next
    case False
    let ?left = "nlen - processed"
    from False have l: "0 < ?left" by simp
    obtain it1 n where f: "(if erofs_blksiz sbi \<le> it_ofs it then bindR (xattr_iter_fixup sbi it) (\<lambda>it. Inr (it\<lparr>it_ofs := 0\<rparr>)) else Inr it) = Inr it1"
      and nd: "min (unat (erofs_blksiz sbi - it_ofs it1)) ?left = n" and n: "0 < n" "n \<le> ?left"
      and sl: "slice (it_page it1) (unat (it_ofs it1)) n = Inr (zread (img sbi) pos n)"
      and split: "zread (img sbi) pos ?left = zread (img sbi) pos n @ zread (img sbi) (pos + n) (?left - n)"
      and i1: "it_at sbi it1 pos" and o1: "unat (it_ofs it1) < 2 ^ blkbits sbi"
      and adv: "it_at sbi (it1\<lparr>it_ofs := it_ofs it1 + of_nat n\<rparr>) (pos + n)"
        "unat (it_ofs (it1\<lparr>it_ofs := it_ofs it1 + of_nat n\<rparr>)) \<le> 2 ^ blkbits sbi"
      by (rule loop_slice [OF d Suc.prems(1,2) l Suc.prems(4)])
    have whole: "op_name op s processed (zread (img sbi) pos ?left) = Inr (s', r)" using Suc.prems(6) False by simp
    obtain s1 r1 where st: "op_name op s processed (zread (img sbi) pos n) = Inr (s1, r1)"
      and cont: "if r1 \<noteq> HOk then s1 = s' \<and> r1 = r
                 else (n < ?left \<longrightarrow> op_name op s1 (processed + n) (zread (img sbi) (pos + n) (?left - n)) = Inr (s', r)) \<and>
                      (n = ?left \<longrightarrow> s1 = s' \<and> r1 = r)"
    proof (cases "n = ?left")
      case True
      then show ?thesis using that [of s' r] whole by simp
    next
      case False
      then have ne: "zread (img sbi) pos n \<noteq> []" "zread (img sbi) (pos + n) (?left - n) \<noteq> []"
        using n by (simp_all flip: length_greater_0_conv)
      show ?thesis
        using name_split [OF whole [unfolded split] ne] that False n(2)
        by (auto split: if_splits)
    qed
    have unfold: "name_loop (Suc fuel) sbi op nlen vlen processed it s =
        (if r1 \<noteq> HOk then Inr (it1\<lparr>it_ofs := it_ofs it1 + of_nat (?left + vlen)\<rparr>, s1, r1)
         else name_loop fuel sbi op nlen vlen (processed + n) (it1\<lparr>it_ofs := it_ofs it1 + of_nat n\<rparr>) s1)"
      using False by (subst name_loop.simps) (simp only: f nd sl st bindR.simps Let_def nat.case if_False prod.case)
    show ?thesis
    proof (cases "r1 = HOk")
      case True
      have "\<exists>it'. name_loop fuel sbi op nlen vlen (processed + n) (it1\<lparr>it_ofs := it_ofs it1 + of_nat n\<rparr>) s1 = Inr (it', s', r) \<and>
         it_at sbi it' (pos + n + (nlen - (processed + n)) + (if r = HOk then 0 else vlen)) \<and>
         (r = HOk \<longrightarrow> unat (it_ofs it') \<le> 2 ^ blkbits sbi)"
      proof (rule Suc.IH)
        show "it_at sbi (it1\<lparr>it_ofs := it_ofs it1 + of_nat n\<rparr>) (pos + n)" by (rule adv(1))
        show "unat (it_ofs (it1\<lparr>it_ofs := it_ofs it1 + of_nat n\<rparr>)) \<le> 2 ^ blkbits sbi" by (rule adv(2))
        show "nlen - (processed + n) \<le> fuel" using Suc.prems(3) n(1) by linarith
        have "pos + n + (nlen - (processed + n)) = pos + ?left" using n(2) by linarith
        then show "addressable sbi (pos + n + (nlen - (processed + n)))" using Suc.prems(4) by simp
        show "nlen + vlen < 2 ^ 16 + 2 ^ 8" by (rule Suc.prems(5))
        show "op_name op s1 (processed + n) (zread (img sbi) (pos + n) (nlen - (processed + n))) = Inr (s', r)"
          if "processed + n < nlen"
        proof -
          have "n < ?left" "nlen - (processed + n) = ?left - n" using that by linarith+
          then show ?thesis using cont True by simp
        qed
        show "s' = s1 \<and> r = HOk" if "nlen \<le> processed + n"
        proof -
          have "n = ?left" using that n(2) by linarith
          then show ?thesis using cont True by simp
        qed
      qed
      moreover have "pos + n + (nlen - (processed + n)) = pos + ?left" using n(2) by linarith
      ultimately show ?thesis using True unfold by simp
    next
      case r1: False
      have "unat (it_ofs it1) + (?left + vlen) \<le> 2 ^ 17" using o1 xattr_dev_B(2) [OF d] Suc.prems(5) by simp
      note adv = it_at_advance [OF i1 this]
      show ?thesis using r1 cont adv(1) unfold by (auto simp: add.assoc)
    qed
  qed
qed

lemma value_loop_whole:
  assumes d: "xattr_dev sbi" and "it_at sbi it pos" and "unat (it_ofs it) \<le> 2 ^ blkbits sbi"
    and "vlen - processed \<le> fuel" and "addressable sbi (pos + (vlen - processed))"
    and "processed < vlen \<Longrightarrow> op_value op s processed (zread (img sbi) pos (vlen - processed)) = Inr s'"
    and "vlen \<le> processed \<Longrightarrow> s' = s"
  shows "\<exists>it'. value_loop fuel sbi op vlen processed it s = Inr (it', s') \<and>
     it_at sbi it' (pos + (vlen - processed)) \<and> unat (it_ofs it') \<le> 2 ^ blkbits sbi"
  using assms(2-)
proof (induction fuel arbitrary: it pos processed s)
  case 0
  then show ?case by (auto simp: value_loop.simps)
next
  case (Suc fuel)
  show ?case
  proof (cases "vlen \<le> processed")
    case True
    then show ?thesis using Suc.prems by (auto simp: value_loop.simps)
  next
    case False
    let ?left = "vlen - processed"
    from False have l: "0 < ?left" by simp
    obtain it1 n where f: "(if erofs_blksiz sbi \<le> it_ofs it then bindR (xattr_iter_fixup sbi it) (\<lambda>it. Inr (it\<lparr>it_ofs := 0\<rparr>)) else Inr it) = Inr it1"
      and nd: "min (unat (erofs_blksiz sbi - it_ofs it1)) ?left = n" and n: "0 < n" "n \<le> ?left"
      and sl: "slice (it_page it1) (unat (it_ofs it1)) n = Inr (zread (img sbi) pos n)"
      and split: "zread (img sbi) pos ?left = zread (img sbi) pos n @ zread (img sbi) (pos + n) (?left - n)"
      and i1: "it_at sbi it1 pos" and o1: "unat (it_ofs it1) < 2 ^ blkbits sbi"
      and adv: "it_at sbi (it1\<lparr>it_ofs := it_ofs it1 + of_nat n\<rparr>) (pos + n)"
        "unat (it_ofs (it1\<lparr>it_ofs := it_ofs it1 + of_nat n\<rparr>)) \<le> 2 ^ blkbits sbi"
      by (rule loop_slice [OF d Suc.prems(1,2) l Suc.prems(4)])
    have whole: "op_value op s processed (zread (img sbi) pos ?left) = Inr s'" using Suc.prems(5) False by simp
    obtain s1 where st: "op_value op s processed (zread (img sbi) pos n) = Inr s1"
      and cont: "n < ?left \<longrightarrow> op_value op s1 (processed + n) (zread (img sbi) (pos + n) (?left - n)) = Inr s'" "n = ?left \<longrightarrow> s1 = s'"
    proof (cases "n = ?left")
      case True
      then show ?thesis using that [of s'] whole by simp
    next
      case False
      then have ne: "zread (img sbi) pos n \<noteq> []" "zread (img sbi) (pos + n) (?left - n) \<noteq> []"
        using n by (simp_all flip: length_greater_0_conv)
      show ?thesis using value_split [OF whole [unfolded split] ne] that False by auto
    qed
    have "\<exists>it'. value_loop fuel sbi op vlen (processed + n) (it1\<lparr>it_ofs := it_ofs it1 + of_nat n\<rparr>) s1 = Inr (it', s') \<and>
       it_at sbi it' (pos + n + (vlen - (processed + n))) \<and> unat (it_ofs it') \<le> 2 ^ blkbits sbi"
    proof (rule Suc.IH)
      show "it_at sbi (it1\<lparr>it_ofs := it_ofs it1 + of_nat n\<rparr>) (pos + n)" by (rule adv(1))
      show "unat (it_ofs (it1\<lparr>it_ofs := it_ofs it1 + of_nat n\<rparr>)) \<le> 2 ^ blkbits sbi" by (rule adv(2))
      show "vlen - (processed + n) \<le> fuel" using Suc.prems(3) n(1) by linarith
      have "pos + n + (vlen - (processed + n)) = pos + ?left" using n(2) by linarith
      then show "addressable sbi (pos + n + (vlen - (processed + n)))" using Suc.prems(4) by simp
      show "op_value op s1 (processed + n) (zread (img sbi) (pos + n) (vlen - (processed + n))) = Inr s'"
        if "processed + n < vlen"
      proof -
        have "n < ?left" "vlen - (processed + n) = ?left - n" using that by linarith+
        then show ?thesis using cont by simp
      qed
      show "s' = s1" if "vlen \<le> processed + n"
      proof -
        have "n = ?left" using that n(2) by linarith
        then show ?thesis using cont by simp
      qed
    qed
    moreover have "pos + n + (vlen - (processed + n)) = pos + ?left" using n(2) by linarith
    moreover have "value_loop (Suc fuel) sbi op vlen processed it s =
        value_loop fuel sbi op vlen (processed + n) (it1\<lparr>it_ofs := it_ofs it1 + of_nat n\<rparr>) s1"
      using False by (subst value_loop.simps) (simp only: f nd sl st bindR.simps Let_def nat.case if_False)
    ultimately show ?thesis by simp
  qed
qed

lemma foreach_whole:
  assumes d: "xattr_dev sbi" and i: "it_at sbi it pos" and p: "4 dvd pos" and a: "addressable sbi (pos + ent_size sbi pos)"
    and lim: "\<And>l. lim = Some l \<Longrightarrow> ent_size sbi pos \<le> unat l"
    and v: "visit op s (ent sbi pos) (ent_name sbi pos) (ent_value sbi pos) = Inr (s', r)"
  shows "\<exists>it'. xattr_foreach sbi op it s lim = Inr (if r = HSkip then HOk else r, it', s', limit_after lim (ent sbi pos)) \<and>
     it_at sbi it' (pos + ent_size sbi pos)"
proof -
  let ?B = "2 ^ blkbits sbi :: nat" and ?e = "ent sbi pos" and ?nl = "ent_nlen sbi pos" and ?vl = "ent_vlen sbi pos"
  note bs = ent_bounds [of sbi pos]
  note sz = ent_size_value [of sbi pos]
  have tot: "4 + ?nl + ?vl \<le> ent_size sbi pos" unfolding sz by (rule align4_bounds(1))
  have "addressable sbi pos" using a by linarith
  then obtain it1 where f: "xattr_iter_fixup sbi it = Inr it1" and i1: "it_at sbi it1 pos" and o1: "unat (it_ofs it1) < ?B"
    and m1: "unat (it_ofs it1) = pos mod ?B"
    using fixup_at [OF d i] by metis
  have "4 dvd unat (it_ofs it1)" unfolding m1 using p xattr_dev_B(4) [OF d] by (simp add: dvd_mod)
  then have o4: "unat (it_ofs it1) + 4 \<le> ?B" using o1 xattr_dev_B(4) [OF d] by (auto elim!: dvdE)
  have B: "?B \<le> 4096" by (rule xattr_dev_B(2) [OF d])
  have sl: "slice (it_page it1) (unat (it_ofs it1)) 4 = Inr (zread (img sbi) pos 4)" by (rule it_at_slice [OF i1 o4])
  have "unat (it_ofs it1) + 4 \<le> 2 ^ 17" using o4 B by simp
  note adv = it_at_advance [OF i1 this]
  define it2 where "it2 = it1\<lparr>it_ofs := it_ofs it1 + 4\<rparr>"
  have i2: "it_at sbi it2 (pos + 4)" and o2: "unat (it_ofs it2) \<le> ?B" using adv o4 by (simp_all add: it2_def)
  have lim': "(case lim of None \<Rightarrow> Inr None | Some l \<Rightarrow> if l < erofs_xattr_entry_size ?e then Err EFSCORRUPTED
       else Inr (Some (l - erofs_xattr_entry_size ?e))) = Inr (limit_after lim ?e)"
    using lim by (auto simp: limit_after_def word_less_nat_alt ent_size_def not_less split: option.split)
  note unf = xattr_foreach_def f sl ent_def [symmetric] Let_def lim' bindR.simps it2_def [symmetric]
  have out: "\<exists>it'. foreach_out jt s' (limit_after lim ?e) r = Inr (if r = HSkip then HOk else r, it', s', limit_after lim ?e) \<and>
      it_at sbi it' (pos + ent_size sbi pos)" if "it_at sbi jt (pos + (4 + (?nl + ?vl)))" for jt r
    using foreach_out_at [OF d that p refl, of s' "limit_after lim ?e" r] by (simp only: sz add.assoc)
  obtain s1 r1 where e1: "op_entry op s ?e = Inr (s1, r1)" using v by (auto simp: visit_def)
  show ?thesis
  proof (cases "r1 = HOk")
    case False
    have "unat (it_ofs it2) + (?nl + ?vl) \<le> 2 ^ 17" using o2 B bs by simp
    note adv = it_at_advance [OF i2 this]
    have s1: "s1 = s'" "r1 = r" using v e1 False by (auto simp: visit_def)
    have "xattr_foreach sbi op it s lim = foreach_out (it2\<lparr>it_ofs := it_ofs it2 + of_nat (?nl + ?vl)\<rparr>) s' (limit_after lim ?e) r"
      using False e1 s1 by (simp only: unf) simp
    then show ?thesis using out [OF adv(1) [unfolded add.assoc]] by (simp only:)
  next
    case True
    obtain s2 r2 where n2: "(if ent_name sbi pos = [] then Inr (s1, HOk) else op_name op s1 0 (ent_name sbi pos)) = Inr (s2, r2)"
      using v e1 True by (auto simp: visit_def)
    have w: "op_name op s1 0 (zread (img sbi) (pos + 4) (?nl - 0)) = Inr (s2, r2)" if "0 < ?nl"
      using n2 that by (auto simp flip: length_0_conv)
    have w0: "s2 = s1 \<and> r2 = HOk" if "?nl \<le> 0" using n2 that by (auto simp flip: length_0_conv)
    have "addressable sbi (pos + 4 + (?nl - 0))" using a tot by linarith
    moreover have "?nl + ?vl < 2 ^ 16 + 2 ^ 8" using bs by simp
    ultimately obtain it3 where l3: "name_loop ?nl sbi op ?nl ?vl 0 it2 s1 = Inr (it3, s2, r2)"
      and i3: "it_at sbi it3 (pos + 4 + (?nl - 0) + (if r2 = HOk then 0 else ?vl))" and o3: "r2 = HOk \<longrightarrow> unat (it_ofs it3) \<le> ?B"
      using name_loop_whole [OF d i2 o2 _ _ _ w w0] by (metis diff_zero order_refl)
    show ?thesis
    proof (cases "r2 = HOk")
      case False
      have s2: "s2 = s'" "r2 = r" using v e1 n2 True False by (auto simp: visit_def)
      have "xattr_foreach sbi op it s lim = foreach_out it3 s' (limit_after lim ?e) r"
        using False True e1 l3 s2 by (simp only: unf) simp
      then show ?thesis using out [of it3 r] i3 False by (simp add: add.assoc)
    next
      case r2: True
      obtain s3 r3 where a3: "op_alloc op s2 (ucast (e_value_size ?e)) = Inr (s3, r3)"
        using v e1 n2 True r2 by (auto simp: visit_def)
      have i3': "it_at sbi it3 (pos + 4 + ?nl)" and o3': "unat (it_ofs it3) \<le> ?B" using i3 o3 r2 by simp_all
      show ?thesis
      proof (cases "r3 = HOk")
        case False
        have s3: "s3 = s'" "r3 = r" using v e1 n2 a3 True r2 False by (auto simp: visit_def)
        have "unat (it_ofs it3) + ?vl \<le> 2 ^ 17" using o3' B bs by simp
        note adv = it_at_advance [OF i3' this]
        have "xattr_foreach sbi op it s lim = foreach_out (it3\<lparr>it_ofs := it_ofs it3 + of_nat ?vl\<rparr>) s' (limit_after lim ?e) r"
          using False True e1 l3 r2 a3 s3 by (simp only: unf) simp
        then show ?thesis using out [OF adv(1) [unfolded add.assoc]] by (simp only:)
      next
        case r3: True
        have v4: "(if ent_value sbi pos = [] then Inr s3 else op_value op s3 0 (ent_value sbi pos)) = Inr s'" and r: "r = HOk"
          using v e1 n2 a3 True r2 r3 by (auto simp: visit_def)
        have w: "op_value op s3 0 (zread (img sbi) (pos + 4 + ?nl) (?vl - 0)) = Inr s'" if "0 < ?vl"
          using v4 that by (auto simp flip: length_0_conv)
        have w0: "s' = s3" if "?vl \<le> 0" using v4 that by (auto simp flip: length_0_conv)
        have "addressable sbi (pos + 4 + ?nl + (?vl - 0))" using a tot by linarith
        then obtain it4 where l4: "value_loop ?vl sbi op ?vl 0 it3 s3 = Inr (it4, s')" and i4: "it_at sbi it4 (pos + 4 + ?nl + (?vl - 0))"
          using value_loop_whole [OF d i3' o3' _ _ w w0] by (metis diff_zero order_refl)
        have "xattr_foreach sbi op it s lim = foreach_out it4 s' (limit_after lim ?e) r"
          using True e1 l3 r2 a3 r3 l4 r by (simp only: unf) simp
        then show ?thesis using out [of it4 r] i4 by (simp add: add.assoc)
      qed
    qed
  qed
qed

end

section \<open>The two records of handlers\<close>

lemma slice_split:
  "slice b p (m + n) = Inr x \<Longrightarrow> slice b p m = Inr (take m x) \<and> slice b (p + m) n = Inr (drop m x)"
  by (auto simp: slice_def take_add drop_take add.commute split: if_splits)

lemma memput_split:
  assumes "memput b p (xs @ ys) = Inr b'"
  shows "bindR (memput b p xs) (\<lambda>b. memput b (p + length xs) ys) = Inr b'"
proof -
  have l: "p + length xs + length ys \<le> length b" and b': "b' = take p b @ xs @ ys @ drop (p + length xs + length ys) b"
    using assms by (auto simp: memput_def add.assoc split: if_splits)
  then have "length (take p b @ xs) = p + length xs" by simp
  then show ?thesis
    using l b' by (simp add: memput_def add.commute)
qed

interpretation find: xattr_handler "find_xattr_handlers sbi index name" for sbi index name
proof
  fix s p xs ys r
  assume a: "op_name (find_xattr_handlers sbi index name) s p (xs @ ys) = Inr r"
  then obtain b where b: "slice name (gx_infix_len s + p) (length xs + length ys) = Inr b" and r: "r = (s, if xs @ ys \<noteq> b then HErr ENODATA else HOk)"
    by (auto simp: find_xattr_handlers_def xattr_namematch_def)
  have e: "xs @ ys = b \<longleftrightarrow> xs = take (length xs) b \<and> ys = drop (length xs) b"
    by (metis append_eq_conv_conj append_take_drop_id)
  show "bindR (op_name (find_xattr_handlers sbi index name) s p xs)
         (\<lambda>(s', r'). if r' \<noteq> HOk then Inr (s', r') else op_name (find_xattr_handlers sbi index name) s' (p + length xs) ys) = Inr r"
    using slice_split [OF b] e r by (simp add: find_xattr_handlers_def xattr_namematch_def add.assoc del: slice_eq_Inr)
next
  fix s p xs ys s'
  assume "op_value (find_xattr_handlers sbi index name) s p (xs @ ys) = Inr s'"
  then obtain b b' where "gx_buffer s = Some b" "memput b p (xs @ ys) = Inr b'" "s' = s\<lparr>gx_buffer := Some b'\<rparr>"
    by (auto simp: find_xattr_handlers_def xattr_copyvalue_def split: option.splits)
  then show "bindR (op_value (find_xattr_handlers sbi index name) s p xs)
         (\<lambda>s. op_value (find_xattr_handlers sbi index name) s (p + length xs) ys) = Inr s'"
    using memput_split [of b p xs ys b'] by (auto simp: find_xattr_handlers_def xattr_copyvalue_def)
qed

interpretation lst: xattr_handler "list_xattr_handlers sbi" for sbi
proof
  fix s p xs ys r
  assume "op_name (list_xattr_handlers sbi) s p (xs @ ys) = Inr r"
  then obtain b b' where b: "lx_buffer s = Some b" "memput b (lx_buffer_ofs s) (xs @ ys) = Inr b'"
      and r: "r = (s\<lparr>lx_buffer := Some b', lx_buffer_ofs := lx_buffer_ofs s + (length xs + length ys)\<rparr>, HOk)"
    by (auto simp: list_xattr_handlers_def xattr_namelist_def split: option.splits)
  show "bindR (op_name (list_xattr_handlers sbi) s p xs)
         (\<lambda>(s', r'). if r' \<noteq> HOk then Inr (s', r') else op_name (list_xattr_handlers sbi) s' (p + length xs) ys) = Inr r"
    using memput_split [OF b(2)] b(1) r by (auto simp: list_xattr_handlers_def xattr_namelist_def add.assoc)
next
  fix s p xs ys s'
  assume "op_value (list_xattr_handlers sbi) s p (xs @ ys) = Inr s'"
  then show "bindR (op_value (list_xattr_handlers sbi) s p xs)
         (\<lambda>s. op_value (list_xattr_handlers sbi) s (p + length xs) ys) = Inr s'"
    by (simp add: list_xattr_handlers_def)
qed

end
