(* ===== verification/Erofs_Xattr_Lookup.thy ===== *)
theory Erofs_Xattr_Lookup
  imports Erofs_Xattr_Read
begin

unbundle bit_operations_syntax

text \<open>
  What \<^verbatim>\<open>erofs_getxattr\<close> and \<^verbatim>\<open>erofs_listxattr\<close> compute on an image: the first entry with the full name, inline entries before shared
  ones, and the zero-terminated full names in the same order.  The lemmas go from one entry over the loops to the
  functions and hold for every image whose inline body is well formed, \<^verbatim>\<open>ibody_ok\<close>.
\<close>

section \<open>Names\<close>

text \<open>The long prefixes the superblock announces are in memory.\<close>

definition prefixes_loaded :: "erofs_sb_info \<Rightarrow> bool" where
  "prefixes_loaded sbi \<longleftrightarrow> (\<forall>idx. \<exists>pf. long_prefix sbi idx = Inr pf)"

definition entry_base :: "erofs_sb_info \<Rightarrow> u8 \<Rightarrow> (u8 \<times> bytes) option" where
  "entry_base sbi idx =
     (if idx AND 0x80 \<noteq> 0 then (case long_prefix sbi idx of Inr pf \<Rightarrow> pf | Inl _ \<Rightarrow> None) else Some (idx, []))"

text \<open>The full name of an entry, if its index has a prefix.\<close>

definition full_name :: "erofs_sb_info \<Rightarrow> u8 \<Rightarrow> bytes \<Rightarrow> bytes option" where
  "full_name sbi idx nm =
     (case entry_base sbi idx of
        None \<Rightarrow> None
      | Some (b, infx) \<Rightarrow> if unat b < length xattr_types then map_option (\<lambda>pre. pre @ infx @ nm) (xattr_types ! unat b) else None)"

lemma xattr_types_cases:
  assumes "i < length xattr_types" and "xattr_types ! i = Some pre"
  obtains "i = 1" "pre = [117, 115, 101, 114, 46]"
  | "i = 2" "pre = literal ''system.posix_acl_access''"
  | "i = 3" "pre = literal ''system.posix_acl_default''"
  | "i = 4" "pre = [116, 114, 117, 115, 116, 101, 100, 46]"
  | "i = 6" "pre = [115, 101, 99, 117, 114, 105, 116, 121, 46]"
proof -
  have "i = 0 \<or> i = 1 \<or> i = 2 \<or> i = 3 \<or> i = 4 \<or> i = 5 \<or> i = 6" using assms(1) by (auto simp: xattr_types_def)
  then show thesis using assms(2) that by (elim disjE) (auto simp: xattr_types_def literal_def)
qed

lemma xattr_types_no_zero: "i < length xattr_types \<Longrightarrow> xattr_types ! i = Some pre \<Longrightarrow> 0 \<notin> set pre \<and> pre \<noteq> []"
  by (erule (1) xattr_types_cases) (simp_all add: literal_def)

lemma xattr_types_unique:
  assumes "i < length xattr_types" "xattr_types ! i = Some p" "j < length xattr_types" "xattr_types ! j = Some q" "p @ x = q @ y"
  shows "i = j"
  by (insert assms(5), rule xattr_types_cases [OF assms(1,2)]; rule xattr_types_cases [OF assms(3,4)]; simp add: literal_def)

lemma strncmp_eq_prefix: "0 \<notin> set pre \<Longrightarrow> strncmp_eq pre key (length pre) \<longleftrightarrow> take (length pre) key = pre"
proof -
  assume z: "0 \<notin> set pre"
  show ?thesis
  proof (cases "length pre \<le> length key")
    case True
    then show ?thesis by (auto simp: strncmp_eq_def)
  next
    case False
    then have "0 \<in> set (take (length pre) (key @ [0]))" by simp
    then have "take (length pre) (key @ [0]) \<noteq> pre" using z by metis
    moreover have "take (length pre) key \<noteq> pre" using False by (auto dest: arg_cong [where f = length])
    ultimately show ?thesis by (auto simp: strncmp_eq_def)
  qed
qed

lemma prefix_scan_Some:
  assumes "prefix_scan ts i key = Some (j, pl)"
  shows "i \<le> j \<and> j < i + length ts \<and> (\<exists>pre. ts ! (j - i) = Some pre \<and> pl = length pre \<and> strncmp_eq pre key pl)"
  using assms
proof (induction ts arbitrary: i)
  case (Cons p ps)
  show ?case
  proof (cases "prefix_scan ps (Suc i) key = Some (j, pl) \<and> (p = None \<or> (\<exists>pre. p = Some pre \<and> \<not> strncmp_eq pre key (length pre)))")
    case True
    then have "Suc i \<le> j \<and> j < Suc i + length ps \<and> (\<exists>pre. ps ! (j - Suc i) = Some pre \<and> pl = length pre \<and> strncmp_eq pre key pl)"
      using Cons.IH by blast
    moreover have "(p # ps) ! (j - i) = ps ! (j - Suc i)" if "Suc i \<le> j" using that by (simp add: nth_Cons')
    ultimately show ?thesis by auto
  next
    case False
    then show ?thesis using Cons.prems by (auto split: option.splits if_splits)
  qed
qed simp

lemma prefix_matches_Some:
  assumes "erofs_xattr_prefix_matches key = Some (bi, pl)"
  obtains pre where "bi < length xattr_types" "xattr_types ! bi = Some pre" "pl = length pre" "key = pre @ drop pl key"
proof -
  obtain pre where p: "bi < length xattr_types" "xattr_types ! bi = Some pre" "pl = length pre" "strncmp_eq pre key pl"
    using prefix_scan_Some [of xattr_types 0 key bi pl] assms by (auto simp: erofs_xattr_prefix_matches_def)
  then have "take pl key = pre" using strncmp_eq_prefix [of pre key] xattr_types_no_zero by simp
  then show thesis using that p by (metis append_take_drop_id)
qed

lemma full_name_match:
  assumes "erofs_xattr_prefix_matches name = Some (bi, pl)"
  shows "full_name sbi idx nm = Some name \<longleftrightarrow> (\<exists>b infx. entry_base sbi idx = Some (b, infx) \<and> bi = unat b \<and> drop pl name = infx @ nm)"
proof -
  obtain pre where p: "bi < length xattr_types" "xattr_types ! bi = Some pre" "pl = length pre" "name = pre @ drop pl name"
    using prefix_matches_Some [OF assms] by blast
  show ?thesis
  proof
    assume "full_name sbi idx nm = Some name"
    then obtain b infx pre' where b: "entry_base sbi idx = Some (b, infx)" "unat b < length xattr_types" "xattr_types ! unat b = Some pre'"
      "pre' @ infx @ nm = name" by (auto simp: full_name_def split: option.splits if_splits)
    have "unat b = bi" using xattr_types_unique [OF b(2,3) p(1,2), of "infx @ nm" "drop pl name"] b(4) p(4) by simp
    moreover have "pre' = pre" using b(3) p(2) \<open>unat b = bi\<close> by simp
    then have "drop pl name = infx @ nm" using b(4) p(3) by (metis append_eq_conv_conj)
    ultimately show "\<exists>b infx. entry_base sbi idx = Some (b, infx) \<and> bi = unat b \<and> drop pl name = infx @ nm" using b(1) by blast
  next
    assume "\<exists>b infx. entry_base sbi idx = Some (b, infx) \<and> bi = unat b \<and> drop pl name = infx @ nm"
    then show "full_name sbi idx nm = Some name" using p by (auto simp: full_name_def)
  qed
qed

section \<open>One entry\<close>

abbreviation ent_key :: "erofs_sb_info \<Rightarrow> nat \<Rightarrow> bytes option" where
  "ent_key sbi pos \<equiv> full_name sbi (e_name_index (ent sbi pos)) (ent_name sbi pos)"

text \<open>What a lookup does with the value it has found.\<close>

definition deliver :: "getxattr_iter \<Rightarrow> bytes \<Rightarrow> getxattr_iter \<times> hret" where
  "deliver g val =
     (case gx_buffer g of
        None \<Rightarrow> (g\<lparr>gx_buffer_size := of_nat (length val)\<rparr>, HSkip)
      | Some b \<Rightarrow> if unat (gx_buffer_size g) < length val then (g\<lparr>gx_buffer_size := of_nat (length val)\<rparr>, HErr ERANGE)
                  else (g\<lparr>gx_buffer_size := of_nat (length val), gx_buffer := Some (val @ drop (length val) b)\<rparr>, HOk))"

definition same_buffer :: "getxattr_iter \<Rightarrow> getxattr_iter \<Rightarrow> bool" where
  "same_buffer g h \<longleftrightarrow> gx_buffer g = gx_buffer h \<and> gx_buffer_size g = gx_buffer_size h"

definition buffer_ok :: "getxattr_iter \<Rightarrow> bool" where
  "buffer_ok g \<longleftrightarrow> (\<forall>b. gx_buffer g = Some b \<longrightarrow> length b = unat (gx_buffer_size g))"

lemma entrymatch_value:
  assumes "prefixes_loaded sbi"
  shows "xattr_entrymatch sbi index name g e =
     (case entry_base sbi (e_name_index e) of
        None \<Rightarrow> Inr (g, HErr ENODATA)
      | Some (b, infx) \<Rightarrow>
          if index = unat b \<and> length name = length infx + unat (e_name_len e) \<and> take (length infx) name = infx
          then Inr (g\<lparr>gx_infix_len := length infx\<rparr>, HOk) else Inr (g, HErr ENODATA))"
proof (cases "e_name_index e AND 0x80 = 0")
  case True
  then show ?thesis by (simp add: xattr_entrymatch_def entry_base_def)
next
  case False
  obtain pf where "long_prefix sbi (e_name_index e) = Inr pf" using assms by (auto simp: prefixes_loaded_def)
  then show ?thesis
    using False by (cases pf) (auto simp: xattr_entrymatch_def entry_base_def erofs_xattr_long_entrymatch_def slice_def)
qed

lemma visit_find:
  assumes pl: "prefixes_loaded sbi" and m: "erofs_xattr_prefix_matches name = Some (bi, pl)" and b: "buffer_ok g"
    and l: "length nm = unat (e_name_len e)" "length val = unat (e_value_size e)"
  shows "\<exists>h. same_buffer h g \<and> visit (find_xattr_handlers sbi bi (drop pl name)) g e nm val =
     Inr (if full_name sbi (e_name_index e) nm = Some name then deliver h val else (h, HErr ENODATA))"
proof (cases "\<exists>b infx. entry_base sbi (e_name_index e) = Some (b, infx) \<and> bi = unat b \<and>
    length (drop pl name) = length infx + unat (e_name_len e) \<and> take (length infx) (drop pl name) = infx")
  case False
  then have "xattr_entrymatch sbi bi (drop pl name) g e = Inr (g, HErr ENODATA)"
    by (auto simp: entrymatch_value [OF pl] split: option.splits)
  moreover have "full_name sbi (e_name_index e) nm \<noteq> Some name"
  proof
    assume "full_name sbi (e_name_index e) nm = Some name"
    then obtain b infx where "entry_base sbi (e_name_index e) = Some (b, infx)" "bi = unat b" "drop pl name = infx @ nm"
      using full_name_match [OF m] by blast
    moreover from this(3) have "length (drop pl name) = length infx + unat (e_name_len e)" "take (length infx) (drop pl name) = infx"
      using l by simp_all
    ultimately show False using False by blast
  qed
  ultimately show ?thesis by (auto simp: visit_def find_xattr_handlers_def same_buffer_def)
next
  case True
  then obtain b infx where e: "entry_base sbi (e_name_index e) = Some (b, infx)" "bi = unat b"
    "length (drop pl name) = length infx + unat (e_name_len e)" "take (length infx) (drop pl name) = infx" by blast
  let ?h = "g\<lparr>gx_infix_len := length infx\<rparr>" and ?tail = "drop (length infx) (drop pl name)"
  have tl: "length ?tail = length nm" using e(3) l by simp
  have key: "full_name sbi (e_name_index e) nm = Some name \<longleftrightarrow> ?tail = nm"
    unfolding full_name_match [OF m] using e by (metis append_eq_conv_conj append_take_drop_id Pair_inject option.inject)
  have "op_entry (find_xattr_handlers sbi bi (drop pl name)) g e = Inr (?h, HOk)"
    using e by (simp add: find_xattr_handlers_def entrymatch_value [OF pl])
  moreover have "(if nm = [] then Inr (?h, HOk) else op_name (find_xattr_handlers sbi bi (drop pl name)) ?h 0 nm) =
      Inr (?h, if ?tail = nm then HOk else HErr ENODATA)"
    using tl e(3) l by (auto simp: find_xattr_handlers_def xattr_namematch_def slice_def)
  moreover have "bindR (op_alloc (find_xattr_handlers sbi bi (drop pl name)) ?h (ucast (e_value_size e))) (\<lambda>(s, r). if r \<noteq> HOk then Inr (s, r)
     else bindR (if val = [] then Inr s else op_value (find_xattr_handlers sbi bi (drop pl name)) s 0 val) (\<lambda>s. Inr (s, HOk))) = Inr (deliver ?h val)"
  proof -
    have v: "unat (ucast (e_value_size e) :: u32) = length val" "(ucast (e_value_size e) :: u32) = of_nat (length val)"
      using l(2) by (simp_all add: unat_ucast_up)
    show ?thesis
    proof (cases "gx_buffer g")
      case None
      then show ?thesis using v by (simp add: find_xattr_handlers_def xattr_checkbuffer_def deliver_def)
    next
      case (Some bf)
      then have "length bf = unat (gx_buffer_size g)" using b by (simp add: buffer_ok_def)
      then show ?thesis
        using v Some by (auto simp: find_xattr_handlers_def xattr_checkbuffer_def deliver_def xattr_copyvalue_def word_less_nat_alt memput_def)
    qed
  qed
  ultimately show ?thesis
    using key by (intro exI [of _ ?h]) (auto simp: visit_def same_buffer_def)
qed

section \<open>All entries\<close>

text \<open>The entries of an inline body lie behind each other and fill it.\<close>

fun ents :: "erofs_sb_info \<Rightarrow> nat \<Rightarrow> nat list \<Rightarrow> nat \<Rightarrow> bool" where
  "ents sbi pos [] lim \<longleftrightarrow> lim = 0"
| "ents sbi pos (q # qs) lim \<longleftrightarrow> q = pos \<and> ent_size sbi pos \<le> lim \<and> ents sbi (pos + ent_size sbi pos) qs (lim - ent_size sbi pos)"

definition found :: "getxattr_iter \<Rightarrow> bytes \<Rightarrow> hret \<times> getxattr_iter" where
  "found g val = (let (h, r) = deliver g val in (if r = HSkip then HOk else r, h))"

lemma found_ends: "fst (found g val) \<noteq> HErr ENODATA"
  by (auto simp: found_def deliver_def split: option.splits)

lemma same_buffer_trans: "same_buffer f g \<Longrightarrow> same_buffer g h \<Longrightarrow> same_buffer f h"
  by (simp add: same_buffer_def)

lemma same_buffer_ok: "same_buffer h g \<Longrightarrow> buffer_ok g \<Longrightarrow> buffer_ok h"
  by (simp add: same_buffer_def buffer_ok_def)

lemma foreach_find:
  assumes d: "xattr_dev sbi" and pl: "prefixes_loaded sbi" and m: "erofs_xattr_prefix_matches name = Some (bi, pl)" and b: "buffer_ok g"
    and i: "it_at sbi it pos" and p: "4 dvd pos" and a: "addressable sbi (pos + ent_size sbi pos)"
    and lim: "\<And>l. lim = Some l \<Longrightarrow> ent_size sbi pos \<le> unat l"
  obtains it' h where "same_buffer h g" "it_at sbi it' (pos + ent_size sbi pos)"
    "xattr_foreach sbi (find_xattr_handlers sbi bi (drop pl name)) it g lim =
       (let (r, g') = if ent_key sbi pos = Some name then found h (ent_value sbi pos) else (HErr ENODATA, h)
        in Inr (r, it', g', limit_after lim (ent sbi pos)))"
proof -
  obtain h where h: "same_buffer h g" and v: "visit (find_xattr_handlers sbi bi (drop pl name)) g (ent sbi pos) (ent_name sbi pos) (ent_value sbi pos) =
     Inr (if ent_key sbi pos = Some name then deliver h (ent_value sbi pos) else (h, HErr ENODATA))"
    using visit_find [OF pl m b, of "ent_name sbi pos" "ent sbi pos" "ent_value sbi pos"] by auto
  obtain g' r where r: "(if ent_key sbi pos = Some name then deliver h (ent_value sbi pos) else (h, HErr ENODATA)) = (g', r)" by (metis surj_pair)
  obtain it' where "xattr_foreach sbi (find_xattr_handlers sbi bi (drop pl name)) it g lim =
      Inr (if r = HSkip then HOk else r, it', g', limit_after lim (ent sbi pos))" "it_at sbi it' (pos + ent_size sbi pos)"
    using find.foreach_whole [OF d i p a lim v [unfolded r]] by blast
  then show thesis using that [OF h] r by (auto simp: found_def split: if_splits)
qed

lemma getxattr_loop_whole:
  assumes d: "xattr_dev sbi" and pl: "prefixes_loaded sbi" and m: "erofs_xattr_prefix_matches name = Some (bi, pl)"
    and "buffer_ok g" and "it_at sbi it pos" and "4 dvd pos" and "addressable sbi (pos + unat rem)"
    and "ents sbi pos ps (unat rem)" and "ps \<noteq> []" and "length ps \<le> fuel"
  shows "\<exists>h. same_buffer h g \<and> getxattr_loop fuel sbi (find_xattr_handlers sbi bi (drop pl name)) it g rem =
     Inr (case find (\<lambda>q. ent_key sbi q = Some name) ps of None \<Rightarrow> (HErr ENODATA, h) | Some q \<Rightarrow> found h (ent_value sbi q))"
  using assms(4-)
proof (induction ps arbitrary: fuel it g pos rem)
  case (Cons q qs)
  obtain n where fuel: "fuel = Suc n" using Cons.prems(7) by (cases fuel) auto
  have e: "q = pos" "ent_size sbi pos \<le> unat rem" "ents sbi (pos + ent_size sbi pos) qs (unat rem - ent_size sbi pos)" using Cons.prems(5) by auto
  have a: "addressable sbi (pos + ent_size sbi pos)" using Cons.prems(4) e(2) by linarith
  have lim: "ent_size sbi pos \<le> unat l" if "Some rem = Some l" for l using that e(2) by simp
  obtain it' h where h: "same_buffer h g" "it_at sbi it' (pos + ent_size sbi pos)"
    and f: "xattr_foreach sbi (find_xattr_handlers sbi bi (drop pl name)) it g (Some rem) =
       (let (r, g') = if ent_key sbi pos = Some name then found h (ent_value sbi pos) else (HErr ENODATA, h)
        in Inr (r, it', g', limit_after (Some rem) (ent sbi pos)))"
    using foreach_find [OF d pl m Cons.prems(1-3) a lim] by metis
  let ?rem = "rem - erofs_xattr_entry_size (ent sbi pos)"
  have rem: "unat ?rem = unat rem - ent_size sbi pos"
    using e(2) by (simp add: ent_size_def unat_sub word_le_nat_alt)
  show ?case
  proof (cases "ent_key sbi pos = Some name")
    case True
    then show ?thesis using h f found_ends [of h "ent_value sbi pos"] e(1) fuel by (auto simp: case_prod_beta Let_def)
  next
    case False
    have u: "getxattr_loop fuel sbi (find_xattr_handlers sbi bi (drop pl name)) it g rem =
       (if unat ?rem = 0 then Inr (HErr ENODATA, h) else getxattr_loop n sbi (find_xattr_handlers sbi bi (drop pl name)) it' h ?rem)"
      using False f fuel by (simp add: limit_after_def unat_eq_zero)
    show ?thesis
    proof (cases qs)
      case Nil
      then show ?thesis using u e rem False h by auto
    next
      case (Cons q' qs')
      then have nz: "unat ?rem \<noteq> 0" using e(3) rem ent_bounds(3) [of sbi "pos + ent_size sbi pos"] by auto
      have "\<exists>h'. same_buffer h' h \<and> getxattr_loop n sbi (find_xattr_handlers sbi bi (drop pl name)) it' h ?rem =
        Inr (case find (\<lambda>q. ent_key sbi q = Some name) qs of None \<Rightarrow> (HErr ENODATA, h') | Some q \<Rightarrow> found h' (ent_value sbi q))"
      proof (rule Cons.IH)
        show "buffer_ok h" using h(1) Cons.prems(1) by (rule same_buffer_ok)
        show "it_at sbi it' (pos + ent_size sbi pos)" by (rule h(2))
        show "4 dvd pos + ent_size sbi pos" using Cons.prems(3) ent_bounds(5) by simp
        show "addressable sbi (pos + ent_size sbi pos + unat ?rem)" using Cons.prems(4) e(2) rem by simp
        show "ents sbi (pos + ent_size sbi pos) qs (unat ?rem)" using e(3) rem by simp
        show "qs \<noteq> []" using Cons by simp
        show "length qs \<le> n" using Cons.prems(7) fuel by simp
      qed
      then obtain h' where h': "same_buffer h' h" "getxattr_loop n sbi (find_xattr_handlers sbi bi (drop pl name)) it' h ?rem =
        Inr (case find (\<lambda>q. ent_key sbi q = Some name) qs of None \<Rightarrow> (HErr ENODATA, h') | Some q \<Rightarrow> found h' (ent_value sbi q))"
        by blast
      show ?thesis using same_buffer_trans [OF h'(1) h(1)] u nz False e(1) h'(2) by (intro exI [of _ h']) simp
    qed
  qed
qed simp

section \<open>Shared entries\<close>

definition shared_pos :: "erofs_sb_info \<Rightarrow> u32 \<Rightarrow> nat" where
  "shared_pos sbi i = unat (xattr_blkaddr sbi) * 2 ^ blkbits sbi + 4 * unat i"

lemma shared_start:
  assumes d: "xattr_dev sbi" and a: "addressable sbi (shared_pos sbi i)"
  shows "unat (xattrblock_addr sbi i) * 2 ^ blkbits sbi + unat (xattrblock_offset sbi i) = shared_pos sbi i"
    and "unat (xattrblock_offset sbi i) \<le> 2 ^ 17"
proof -
  let ?B = "2 ^ blkbits sbi :: nat"
  have bb: "blkbits sbi < 32" using d by (auto simp: xattr_dev_def valid_blkszbits_def)
  have "4 * unat i < 2 ^ 34" using unsigned_less [of i] by simp
  then have u: "unat (ucast i * 4 :: u64) = 4 * unat i" by (simp add: unat_word_ariths unat_ucast_up)
  have lt: "4 * unat i mod ?B < ?B" by simp
  then have "4 * unat i mod ?B < 2 ^ 32" using less_le_trans [OF lt xattr_dev_B(2) [OF d]] by simp
  then have off: "unat (xattrblock_offset sbi i) = 4 * unat i mod ?B"
    unfolding xattrblock_offset_def by (subst unat_ucast_small) (simp_all add: unat_erofs_blkoff [OF bb] u)
  have "shared_pos sbi i div ?B < 2 ^ 32" using a by (simp add: less_mult_imp_div_less)
  moreover have "shared_pos sbi i div ?B = unat (xattr_blkaddr sbi) + 4 * unat i div ?B" by (simp add: shared_pos_def)
  ultimately have s: "unat (xattr_blkaddr sbi) + 4 * unat i div ?B < 2 ^ 32" by simp
  then have "unat (ucast (erofs_blknr sbi (ucast i * 4 :: u64)) :: u32) = 4 * unat i div ?B"
    by (subst unat_ucast_small) (simp_all add: unat_erofs_blknr u)
  then have "unat (xattrblock_addr sbi i) = unat (xattr_blkaddr sbi) + 4 * unat i div ?B"
    using s by (simp add: xattrblock_addr_def unat_word_ariths)
  then show "unat (xattrblock_addr sbi i) * ?B + unat (xattrblock_offset sbi i) = shared_pos sbi i"
    by (simp only: off shared_pos_def add_mult_distrib add.assoc div_mult_mod_eq)
  show "unat (xattrblock_offset sbi i) \<le> 2 ^ 17" using less_le_trans [OF lt xattr_dev_B(2) [OF d]] off by simp
qed

text \<open>The iterator of a shared entry, whether its block is loaded already or not.\<close>

lemma shared_iter:
  assumes d: "xattr_dev sbi" and a: "addressable sbi (shared_pos sbi i)" and t: "\<And>t. it = Some t \<Longrightarrow> \<exists>p. it_at sbi t p"
  obtains t where "(case it of
               Some t \<Rightarrow> if xattrblock_addr sbi i = it_blkaddr t then Inr (t\<lparr>it_ofs := xattrblock_offset sbi i\<rparr>)
                         else bindR (page_at sbi (xattrblock_addr sbi i)) (\<lambda>pg. Inr \<lparr>it_page = pg, it_blkaddr = xattrblock_addr sbi i, it_ofs = xattrblock_offset sbi i\<rparr>)
             | None \<Rightarrow> bindR (page_at sbi (xattrblock_addr sbi i)) (\<lambda>pg. Inr \<lparr>it_page = pg, it_blkaddr = xattrblock_addr sbi i, it_ofs = xattrblock_offset sbi i\<rparr>)) = Inr t"
    "it_at sbi t (shared_pos sbi i)"
proof -
  let ?new = "\<lparr>it_page = zread (img sbi) (unat (xattrblock_addr sbi i) * 2 ^ blkbits sbi) (2 ^ blkbits sbi), it_blkaddr = xattrblock_addr sbi i,
     it_ofs = xattrblock_offset sbi i\<rparr>"
  note st = shared_start [OF d a]
  have new: "it_at sbi ?new (shared_pos sbi i)" using st by (simp add: it_at_def)
  show thesis
  proof (cases "\<exists>t. it = Some t \<and> xattrblock_addr sbi i = it_blkaddr t")
    case True
    then obtain t where t': "it = Some t" "xattrblock_addr sbi i = it_blkaddr t" by blast
    then obtain p where "it_at sbi t p" using t by blast
    then have "it_at sbi (t\<lparr>it_ofs := xattrblock_offset sbi i\<rparr>) (shared_pos sbi i)" using st t'(2) by (simp add: it_at_def)
    then show ?thesis using that [of "t\<lparr>it_ofs := xattrblock_offset sbi i\<rparr>"] t' by simp
  next
    case False
    then show ?thesis using that [of ?new] new by (auto simp: page_at_quiet [OF d] split: option.split)
  qed
qed

definition shared_ok :: "erofs_sb_info \<Rightarrow> u32 list \<Rightarrow> bool" where
  "shared_ok sbi ids \<longleftrightarrow> (\<forall>i \<in> set ids. addressable sbi (shared_pos sbi i + ent_size sbi (shared_pos sbi i)))"

lemma shared_getxattr_whole:
  assumes d: "xattr_dev sbi" and pl: "prefixes_loaded sbi" and m: "erofs_xattr_prefix_matches name = Some (bi, pl)"
    and "buffer_ok g" and "shared_ok sbi ids" and "\<And>t. it = Some t \<Longrightarrow> \<exists>p. it_at sbi t p"
  shows "\<exists>h. same_buffer h g \<and> shared_getxattr sbi (find_xattr_handlers sbi bi (drop pl name)) ids it g =
     Inr (case find (\<lambda>q. ent_key sbi q = Some name) (map (shared_pos sbi) ids) of
            None \<Rightarrow> (HErr ENODATA, h) | Some q \<Rightarrow> found h (ent_value sbi q))"
  using assms(4-)
proof (induction ids arbitrary: it g)
  case Nil
  then show ?case by (auto simp: same_buffer_def)
next
  case (Cons i ids)
  let ?p = "shared_pos sbi i"
  have a: "addressable sbi (?p + ent_size sbi ?p)" using Cons.prems(2) by (simp add: shared_ok_def)
  then have a0: "addressable sbi ?p" by linarith
  obtain t where t: "(case it of
               Some t \<Rightarrow> if xattrblock_addr sbi i = it_blkaddr t then Inr (t\<lparr>it_ofs := xattrblock_offset sbi i\<rparr>)
                         else bindR (page_at sbi (xattrblock_addr sbi i)) (\<lambda>pg. Inr \<lparr>it_page = pg, it_blkaddr = xattrblock_addr sbi i, it_ofs = xattrblock_offset sbi i\<rparr>)
             | None \<Rightarrow> bindR (page_at sbi (xattrblock_addr sbi i)) (\<lambda>pg. Inr \<lparr>it_page = pg, it_blkaddr = xattrblock_addr sbi i, it_ofs = xattrblock_offset sbi i\<rparr>)) = Inr t"
    and at: "it_at sbi t ?p"
    by (rule shared_iter [OF d a0 Cons.prems(3)])
  have p4: "4 dvd ?p" using xattr_dev_B(4) [OF d] by (simp add: shared_pos_def)
  obtain it' h where h: "same_buffer h g" "it_at sbi it' (?p + ent_size sbi ?p)"
    and f: "xattr_foreach sbi (find_xattr_handlers sbi bi (drop pl name)) t g None =
       (let (r, g') = if ent_key sbi ?p = Some name then found h (ent_value sbi ?p) else (HErr ENODATA, h)
        in Inr (r, it', g', limit_after None (ent sbi ?p)))"
    using foreach_find [OF d pl m Cons.prems(1) at p4 a, of None] by (metis option.distinct(1))
  have u: "shared_getxattr sbi (find_xattr_handlers sbi bi (drop pl name)) (i # ids) it g =
     (if ent_key sbi ?p = Some name then Inr (found h (ent_value sbi ?p))
      else shared_getxattr sbi (find_xattr_handlers sbi bi (drop pl name)) ids (Some it') h)"
    using found_ends [of h "ent_value sbi ?p"]
    by (simp only: shared_getxattr.simps Let_def t bindR.simps f) (auto simp: case_prod_beta)
  show ?case
  proof (cases "ent_key sbi ?p = Some name")
    case True
    then show ?thesis using u h(1) by (auto intro!: exI [of _ h])
  next
    case False
    have "\<exists>h'. same_buffer h' h \<and> shared_getxattr sbi (find_xattr_handlers sbi bi (drop pl name)) ids (Some it') h =
      Inr (case find (\<lambda>q. ent_key sbi q = Some name) (map (shared_pos sbi) ids) of
            None \<Rightarrow> (HErr ENODATA, h') | Some q \<Rightarrow> found h' (ent_value sbi q))"
      using Cons.prems(2) h by (intro Cons.IH same_buffer_ok [OF h(1) Cons.prems(1)]) (auto simp: shared_ok_def)
    then obtain h' where h': "same_buffer h' h" "shared_getxattr sbi (find_xattr_handlers sbi bi (drop pl name)) ids (Some it') h =
      Inr (case find (\<lambda>q. ent_key sbi q = Some name) (map (shared_pos sbi) ids) of
            None \<Rightarrow> (HErr ENODATA, h') | Some q \<Rightarrow> found h' (ent_value sbi q))" by blast
    show ?thesis using same_buffer_trans [OF h'(1) h(1)] False h'(2) by (intro exI [of _ h']) (simp only: u if_False list.map find.simps)
  qed
qed


section \<open>The header of the inline body\<close>

lemma dvd_gap:
  fixes k :: nat
  assumes "k dvd a" and "k dvd b" and "a < b"
  shows "a + k \<le> b"
proof -
  obtain x y where xy: "a = k * x" "b = k * y" using assms(1,2) by (auto elim!: dvdE)
  then have "Suc x \<le> y" using assms(3) by auto
  then show ?thesis using mult_le_mono2 [of "Suc x" y k] xy by simp
qed

lemma shared_ids_whole:
  assumes d: "xattr_dev sbi" and "it_at sbi it pos" and "unat (it_ofs it) \<le> 2 ^ blkbits sbi" and "4 dvd pos" and "addressable sbi (pos + 4 * n)"
  shows "shared_ids sbi n it = Inr (map (\<lambda>k. le_get (zread (img sbi) (pos + 4 * k) 4)) [0..<n])"
  using assms(2-)
proof (induction n arbitrary: it pos)
  case (Suc n)
  let ?B = "2 ^ blkbits sbi :: nat"
  define it1 where "it1 = (if erofs_blksiz sbi \<le> it_ofs it
     then it\<lparr>it_page := zread (img sbi) (unat (it_blkaddr it + 1) * ?B) ?B, it_blkaddr := it_blkaddr it + 1, it_ofs := 0\<rparr> else it)"
  have p: "unat (it_blkaddr it) * ?B + unat (it_ofs it) = pos" using Suc.prems(1) by (simp add: it_at_def)
  have i1: "it_at sbi it1 pos \<and> unat (it_ofs it1) < ?B"
  proof (cases "erofs_blksiz sbi \<le> it_ofs it")
    case True
    then have o: "unat (it_ofs it) = ?B" using Suc.prems(2) xattr_dev_B(1) [OF d] by (simp add: word_le_nat_alt)
    have "Suc (unat (it_blkaddr it)) * ?B = pos" using p o by simp
    then have "Suc (unat (it_blkaddr it)) * ?B < 2 ^ 32 * ?B" using Suc.prems(4) by linarith
    then have "Suc (unat (it_blkaddr it)) < 2 ^ 32" using mult_less_cancel2 by blast
    then have "unat (it_blkaddr it + 1) = Suc (unat (it_blkaddr it))" by (simp add: unat_word_ariths)
    then show ?thesis using p o True by (simp add: it_at_def it1_def)
  next
    case False
    then show ?thesis using Suc.prems(1) xattr_dev_B(1) [OF d] by (simp add: it1_def word_le_nat_alt)
  qed
  have "4 dvd unat (it_ofs it1)" using i1 Suc.prems(3) xattr_dev_B(4) [OF d] by (metis dvd_add_right_iff dvd_mult it_at_def)
  then have o4: "unat (it_ofs it1) + 4 \<le> ?B" using i1 xattr_dev_B(4) [OF d] by (auto elim!: dvdE)
  have sl: "slice (it_page it1) (unat (it_ofs it1)) 4 = Inr (zread (img sbi) pos 4)" using i1 o4 by (blast intro: it_at_slice)
  have "unat (it_ofs it1) + 4 \<le> 2 ^ 17" using le_trans [OF o4 xattr_dev_B(2) [OF d]] by simp
  note adv = it_at_advance [OF i1 [THEN conjunct1] this]
  have "shared_ids sbi n (it1\<lparr>it_ofs := it_ofs it1 + 4\<rparr>) = Inr (map (\<lambda>k. le_get (zread (img sbi) (pos + 4 + 4 * k) 4)) [0..<n])"
    using adv o4 Suc.prems(3,4) by (intro Suc.IH) simp_all
  moreover have "(if erofs_blksiz sbi \<le> it_ofs it then bindR (page_at sbi (it_blkaddr it + 1)) (\<lambda>pg.
       Inr (it\<lparr>it_page := pg, it_blkaddr := it_blkaddr it + 1, it_ofs := 0\<rparr>)) else Inr it) = Inr it1"
    by (simp add: it1_def page_at_quiet [OF d])
  ultimately show ?case
    by (simp only: shared_ids.simps bindR.simps sl) (simp add: upt_conv_Cons map_Suc_upt [symmetric] comp_def add.assoc del: upt_Suc)
qed simp

text \<open>The inline body of an inode on disk: where it is, the shared ids in its header, and where its entries start.\<close>

definition ibody_pos :: "erofs_sb_info \<Rightarrow> erofs_inode \<Rightarrow> nat" where
  "ibody_pos sbi v = unat (erofs_iloc sbi v) + unat (inode_isize v)"

definition disk_shared_ids :: "erofs_sb_info \<Rightarrow> nat \<Rightarrow> u32 list" where
  "disk_shared_ids sbi pos =
     map (\<lambda>k. le_get (zread (img sbi) (pos + 12 + 4 * k) 4)) [0..<unat (le_get (zread (img sbi) (pos + 4) 1) :: u8)]"

abbreviation hdr_size :: "erofs_sb_info \<Rightarrow> nat \<Rightarrow> nat" where
  "hdr_size sbi pos \<equiv> 12 + 4 * length (disk_shared_ids sbi pos)"

text \<open>
  \<^verbatim>\<open>ibody_ok\<close>: an inode whose inline body is on the device, with its header not yet loaded.  Inodes are aligned to their 32-byte slots.
\<close>

definition ibody_ok :: "erofs_sb_info \<Rightarrow> inode_ea \<Rightarrow> nat list \<Rightarrow> bool" where
  "ibody_ok sbi vi ps \<longleftrightarrow>
     (let v = ea_inode vi; pos = ibody_pos sbi v in
      xattr_dev sbi \<and> prefixes_loaded sbi \<and> flags v AND EROFS_I_EA_INITED = 0 \<and> 12 < unat (xattr_isize v) \<and> unat (xattr_isize v) < 2 ^ 31 \<and>
      pos + unat (xattr_isize v) < 2 ^ 64 \<and> 32 dvd pos \<and> addressable sbi (pos + unat (xattr_isize v)) \<and>
      hdr_size sbi pos \<le> unat (xattr_isize v) \<and> ents sbi (pos + hdr_size sbi pos) ps (unat (xattr_isize v) - hdr_size sbi pos) \<and>
      shared_ok sbi (disk_shared_ids sbi pos))"

definition loaded :: "erofs_sb_info \<Rightarrow> inode_ea \<Rightarrow> inode_ea" where
  "loaded sbi vi =
     vi\<lparr>xattr_shared_xattrs := disk_shared_ids sbi (ibody_pos sbi (ea_inode vi)),
        ea_inode := (ea_inode vi)\<lparr>flags := flags (ea_inode vi) OR EROFS_I_EA_INITED\<rparr>\<rparr>"

lemma disk_shared_ids_le: "length (disk_shared_ids sbi pos) < 256"
  unfolding disk_shared_ids_def length_map length_upt
  using unsigned_less [of "le_get (zread (img sbi) (pos + 4) 1) :: u8", where ?'a = nat] by simp

text \<open>The iterator set up at a position.\<close>

lemma iter_at:
  fixes p :: u64
  assumes d: "xattr_dev sbi" and a: "addressable sbi (unat p)"
  shows "it_at sbi \<lparr>it_page = zread (img sbi) (unat (ucast (erofs_blknr sbi p) :: u32) * 2 ^ blkbits sbi) (2 ^ blkbits sbi),
     it_blkaddr = ucast (erofs_blknr sbi p), it_ofs = ucast (erofs_blkoff sbi p)\<rparr> (unat p)"
    and "unat (ucast (erofs_blkoff sbi p) :: u32) = unat p mod 2 ^ blkbits sbi"
proof -
  let ?B = "2 ^ blkbits sbi :: nat"
  have bb: "blkbits sbi < 32" using d by (auto simp: xattr_dev_def valid_blkszbits_def)
  have lt: "unat p mod ?B < ?B" by simp
  have s: "unat p mod ?B \<le> 2 ^ 17" using less_le_trans [OF lt xattr_dev_B(2) [OF d]] by simp
  have "unat p div ?B < 2 ^ 32" using a by (simp add: less_mult_imp_div_less)
  then have b: "unat (ucast (erofs_blknr sbi p) :: u32) = unat p div ?B" by (subst unat_ucast_small) (simp_all add: unat_erofs_blknr)
  show o: "unat (ucast (erofs_blkoff sbi p) :: u32) = unat p mod ?B"
    using s by (subst unat_ucast_small) (simp_all add: unat_erofs_blkoff [OF bb])
  show "it_at sbi \<lparr>it_page = zread (img sbi) (unat (ucast (erofs_blknr sbi p) :: u32) * ?B) ?B,
     it_blkaddr = ucast (erofs_blknr sbi p), it_ofs = ucast (erofs_blkoff sbi p)\<rparr> (unat p)"
    unfolding it_at_def xattr_iter.select_convs b o using s by (intro conjI refl div_mult_mod_eq)
qed

lemma ibody_pos_unat:
  assumes "ibody_pos sbi v + k < 2 ^ 64"
  shows "unat (erofs_iloc sbi v + ucast (inode_isize v)) = ibody_pos sbi v"
  using assms by (simp add: ibody_pos_def unat_word_ariths unat_ucast_up)

lemma init_inode_xattrs_loads:
  assumes "ibody_ok sbi vi ps"
  shows "init_inode_xattrs sbi vi = Inr (loaded sbi vi)"
proof -
  define v where "v = ea_inode vi"
  define pos where "pos = ibody_pos sbi v"
  let ?B = "2 ^ blkbits sbi :: nat" and ?p = "erofs_iloc sbi v + ucast (inode_isize v)"
  have d: "xattr_dev sbi" and fl: "flags v AND EROFS_I_EA_INITED = 0" and sz: "12 < unat (xattr_isize v)" "pos + unat (xattr_isize v) < 2 ^ 64"
    and al: "32 dvd pos" and a: "addressable sbi (pos + unat (xattr_isize v))" and hs: "hdr_size sbi pos \<le> unat (xattr_isize v)"
    using assms by (simp_all add: ibody_ok_def Let_def v_def pos_def)
  have p: "unat ?p = pos" using sz(2) ibody_pos_unat unfolding pos_def by blast
  have "addressable sbi (unat ?p)" using a p by linarith
  note it = iter_at [OF d this]
  have ofs: "unat (ucast (erofs_blkoff sbi ?p) :: u32) = pos mod ?B" using it(2) p by simp
  have "32 dvd ?B" using d le_imp_power_dvd [of 5 "blkbits sbi" "2 :: nat"] by (simp add: xattr_dev_def valid_blkszbits_def)
  then have "32 dvd pos mod ?B" using al by (simp add: dvd_mod)
  then have o32: "pos mod ?B + 32 \<le> ?B" using \<open>32 dvd ?B\<close> by (rule dvd_gap) simp
  let ?it = "\<lparr>it_page = zread (img sbi) (unat (ucast (erofs_blknr sbi ?p) :: u32) * ?B) ?B,
     it_blkaddr = ucast (erofs_blknr sbi ?p), it_ofs = ucast (erofs_blkoff sbi ?p)\<rparr>"
  have it_pos: "it_at sbi ?it pos" using it(1) p by simp
  have "unat (it_ofs ?it) + 4 \<le> 2 ^ 17" "unat (it_ofs ?it) + 12 \<le> 2 ^ 17"
    using o32 ofs le_trans [OF o32 xattr_dev_B(2) [OF d]] by simp_all
  note adv4 = it_at_advance [OF it_pos this(1)] and adv12 = it_at_advance [OF it_pos this(2)]
  have sl: "slice (zread (img sbi) (unat (ucast (erofs_blknr sbi ?p) :: u32) * ?B) ?B) (unat (ucast (erofs_blkoff sbi ?p) :: u32) + 4) 1 =
      Inr (zread (img sbi) (pos + 4) 1)"
    using it_at_slice [OF adv4(1), of 1] adv4(2) o32 ofs by (simp add: unat_word_ariths)
  have ids: "shared_ids sbi (unat (le_get (zread (img sbi) (pos + 4) 1) :: u8)) (?it\<lparr>it_ofs := ucast (erofs_blkoff sbi ?p) + 12\<rparr>) = Inr (disk_shared_ids sbi pos)"
    unfolding disk_shared_ids_def
  proof (rule shared_ids_whole [OF d])
    show "it_at sbi (?it\<lparr>it_ofs := ucast (erofs_blkoff sbi ?p) + 12\<rparr>) (pos + 12)" using adv12(1) by simp
    show "unat (it_ofs (?it\<lparr>it_ofs := ucast (erofs_blkoff sbi ?p) + 12\<rparr>)) \<le> ?B" using adv12(2) o32 ofs by simp
    show "4 dvd pos + 12" using al by (auto elim!: dvdE)
    have "length (disk_shared_ids sbi pos) = unat (le_get (zread (img sbi) (pos + 4) 1) :: u8)" by (simp add: disk_shared_ids_def)
    then show "addressable sbi (pos + 12 + 4 * unat (le_get (zread (img sbi) (pos + 4) 1) :: u8))" using a hs by simp
  qed
  have "\<not> xattr_isize v < 12" "xattr_isize v \<noteq> 12" using sz(1) by (auto simp: word_less_nat_alt)
  then show ?thesis
    using fl ids by (simp add: init_inode_xattrs_def Let_def v_def [symmetric] page_at_quiet [OF d] sl loaded_def pos_def [symmetric] del: One_nat_def)
qed

lemma inline_pre_value:
  assumes "ibody_ok sbi vi ps"
  shows "case inline_xattr_iter_pre sbi (loaded sbi vi) of
     Inl e \<Rightarrow> e = Errno ENODATA \<and> ps = []
   | Inr (it, rem) \<Rightarrow> ps \<noteq> [] \<and> it_at sbi it (ibody_pos sbi (ea_inode vi) + hdr_size sbi (ibody_pos sbi (ea_inode vi))) \<and>
       unat rem = unat (xattr_isize (ea_inode vi)) - hdr_size sbi (ibody_pos sbi (ea_inode vi))"
proof -
  define v where "v = ea_inode vi"
  define pos where "pos = ibody_pos sbi v"
  have d: "xattr_dev sbi" and sz: "pos + unat (xattr_isize v) < 2 ^ 64"
    and a: "addressable sbi (pos + unat (xattr_isize v))" and hs: "hdr_size sbi pos \<le> unat (xattr_isize v)"
    and es: "ents sbi (pos + hdr_size sbi pos) ps (unat (xattr_isize v) - hdr_size sbi pos)"
    using assms by (simp_all add: ibody_ok_def Let_def v_def pos_def)
  have h: "unat (inlinexattr_header_size (loaded sbi vi)) = hdr_size sbi pos"
    using disk_shared_ids_le [of sbi pos] by (simp add: inlinexattr_header_size_def loaded_def unat_word_ariths unat_of_nat pos_def v_def)
  have loc: "erofs_iloc sbi (ea_inode (loaded sbi vi)) = erofs_iloc sbi v" "inode_isize (ea_inode (loaded sbi vi)) = inode_isize v"
    "xattr_isize (ea_inode (loaded sbi vi)) = xattr_isize v"
    by (simp_all add: loaded_def erofs_iloc_def v_def)
  show ?thesis
  proof (cases "hdr_size sbi pos = unat (xattr_isize v)")
    case True
    then have "ps = []" using es ent_bounds(3) [of sbi "pos + hdr_size sbi pos"] by (cases ps) auto
    then show ?thesis using True h loc by (simp add: inline_xattr_iter_pre_def Let_def word_le_nat_alt)
  next
    case False
    let ?p = "erofs_iloc sbi v + ucast (ucast (inode_isize v) + inlinexattr_header_size (loaded sbi vi) :: u32) :: u64"
    have "unat (ucast (inode_isize v) + inlinexattr_header_size (loaded sbi vi) :: u32) = unat (inode_isize v) + hdr_size sbi pos"
      using h disk_shared_ids_le [of sbi pos] unsigned_less [of "inode_isize v", where ?'a = nat] by (simp add: unat_word_ariths unat_ucast_up)
    then have p: "unat ?p = pos + hdr_size sbi pos"
      using sz hs by (simp add: unat_word_ariths unat_ucast_up pos_def ibody_pos_def)
    have "addressable sbi (unat ?p)" using a p hs by simp
    note it = iter_at [OF d this]
    have ne: "ps \<noteq> []" using es False hs by (cases ps) auto
    have nle: "\<not> xattr_isize v \<le> inlinexattr_header_size (loaded sbi vi)" using False hs h by (simp add: word_le_nat_alt)
    then have "unat (xattr_isize v - inlinexattr_header_size (loaded sbi vi)) = unat (xattr_isize v) - hdr_size sbi pos"
      using h by (simp add: unat_sub)
    then show ?thesis
      using it(1) p ne nle loc
      by (simp add: inline_xattr_iter_pre_def Let_def page_at_quiet [OF d] v_def [symmetric] pos_def [symmetric])
  qed
qed


section \<open>Reading one attribute\<close>

text \<open>What the caller of \<^verbatim>\<open>erofs_getxattr\<close> sees of a value.\<close>

definition answer :: "bytes option \<Rightarrow> u32 \<Rightarrow> bytes \<Rightarrow> (u32 \<times> bytes option) result" where
  "answer buf sz val =
     (case buf of
        None \<Rightarrow> Inr (of_nat (length val), None)
      | Some b \<Rightarrow> if unat sz < length val then Err ERANGE else Inr (of_nat (length val), Some (val @ drop (length val) b)))"

lemma found_answer:
  assumes "same_buffer h \<lparr>gx_buffer_size = sz, gx_infix_len = 0, gx_buffer = buf\<rparr>"
  shows "bindR (get_result (found h val)) (\<lambda>(n, g). Inr (n, gx_buffer g, vi)) = bindR (answer buf sz val) (\<lambda>(n, b). Inr (n, b, vi))"
  using assms by (auto simp: found_def deliver_def answer_def get_result_def same_buffer_def split: option.splits)

lemma find_append: "find P (xs @ ys) = (case find P xs of None \<Rightarrow> find P ys | Some x \<Rightarrow> Some x)"
  by (induction xs) simp_all

lemma ents_length: "ents sbi pos ps lim \<Longrightarrow> length ps \<le> lim"
proof (induction ps arbitrary: pos lim)
  case (Cons q qs)
  then have "length qs \<le> lim - ent_size sbi pos" "ent_size sbi pos \<le> lim" by auto
  then show ?case using ent_bounds(3) [of sbi pos] by simp
qed simp

lemma getxattr_finds:
  assumes ok: "ibody_ok sbi vi ps" and m: "erofs_xattr_prefix_matches name = Some (bi, pl)" and l: "length name - pl \<le> 255"
    and b: "\<And>b. buf = Some b \<Longrightarrow> length b = unat sz"
  shows "erofs_getxattr sbi vi (Some name) buf sz =
     (case find (\<lambda>q. ent_key sbi q = Some name) (ps @ map (shared_pos sbi) (disk_shared_ids sbi (ibody_pos sbi (ea_inode vi)))) of
        None \<Rightarrow> Err ENODATA
      | Some q \<Rightarrow> bindR (answer buf sz (ent_value sbi q)) (\<lambda>(n, b). Inr (n, b, loaded sbi vi)))"
proof -
  let ?pos = "ibody_pos sbi (ea_inode vi)" and ?op = "find_xattr_handlers sbi bi (drop pl name)"
  let ?g = "\<lparr>gx_buffer_size = sz, gx_infix_len = 0, gx_buffer = buf\<rparr>"
  let ?ids = "disk_shared_ids sbi ?pos" and ?P = "\<lambda>q. ent_key sbi q = Some name"
  have d: "xattr_dev sbi" and pl: "prefixes_loaded sbi" and sh: "shared_ok sbi ?ids" and al: "32 dvd ?pos"
    and a: "addressable sbi (?pos + unat (xattr_isize (ea_inode vi)))" and hs: "hdr_size sbi ?pos \<le> unat (xattr_isize (ea_inode vi))"
    and es: "ents sbi (?pos + hdr_size sbi ?pos) ps (unat (xattr_isize (ea_inode vi)) - hdr_size sbi ?pos)"
    using ok by (simp_all add: ibody_ok_def Let_def)
  have bo: "buffer_ok ?g" using b by (simp add: buffer_ok_def)
  obtain h where h: "same_buffer h ?g" and inl: "inline_getxattr sbi (loaded sbi vi) ?op ?g =
      Inr (case find ?P ps of None \<Rightarrow> (HErr ENODATA, h) | Some q \<Rightarrow> found h (ent_value sbi q))"
  proof (cases "inline_xattr_iter_pre sbi (loaded sbi vi)")
    case (Inl e)
    then show ?thesis using that [of ?g] inline_pre_value [OF ok] by (simp add: inline_getxattr_def same_buffer_def)
  next
    case (Inr r)
    obtain it rem where r: "r = (it, rem)" by force
    then have pre: "ps \<noteq> []" "it_at sbi it (?pos + hdr_size sbi ?pos)" "unat rem = unat (xattr_isize (ea_inode vi)) - hdr_size sbi ?pos"
      using inline_pre_value [OF ok] Inr by simp_all
    have 4: "4 dvd ?pos + hdr_size sbi ?pos" using al by (auto elim!: dvdE)
    have A: "addressable sbi (?pos + hdr_size sbi ?pos + unat rem)" using a hs pre(3) by simp
    have E: "ents sbi (?pos + hdr_size sbi ?pos) ps (unat rem)" using es pre(3) by simp
    obtain h where "same_buffer h ?g" and "getxattr_loop (unat rem) sbi ?op it ?g rem =
        Inr (case find ?P ps of None \<Rightarrow> (HErr ENODATA, h) | Some q \<Rightarrow> found h (ent_value sbi q))"
      using getxattr_loop_whole [OF d pl m bo pre(2) 4 A E pre(1) ents_length [OF E]] by blast
    then show ?thesis using that [of h] by (simp add: inline_getxattr_def Inr r)
  qed
  obtain h' where h': "same_buffer h' h" and shr: "shared_getxattr sbi ?op ?ids None h =
      Inr (case find ?P (map (shared_pos sbi) ?ids) of None \<Rightarrow> (HErr ENODATA, h') | Some q \<Rightarrow> found h' (ent_value sbi q))"
    using shared_getxattr_whole [OF d pl m same_buffer_ok [OF h bo] sh, of None] by auto
  have ids: "xattr_shared_xattrs (loaded sbi vi) = ?ids" by (simp add: loaded_def)
  have unf: "erofs_getxattr sbi vi (Some name) buf sz =
      bindR (inline_getxattr sbi (loaded sbi vi) ?op ?g) (\<lambda>(r, g).
      bindR (if r = HErr ENODATA then shared_getxattr sbi ?op ?ids None g else Inr (r, g)) (\<lambda>rg.
      bindR (get_result rg) (\<lambda>(n, g). Inr (n, gx_buffer g, loaded sbi vi))))"
    unfolding ids [symmetric] using m l by (simp add: erofs_getxattr_def init_inode_xattrs_loads [OF ok] Let_def)
  show ?thesis
  proof (cases "find ?P ps")
    case (Some q)
    have "fst (found h (ent_value sbi q)) \<noteq> HErr ENODATA" by (rule found_ends)
    then show ?thesis using found_answer [OF h] unf inl Some by (simp add: find_append case_prod_beta)
  next
    case None
    show ?thesis
    proof (cases "find ?P (map (shared_pos sbi) ?ids)")
      case n: None
      then show ?thesis using unf inl shr None by (simp add: find_append get_result_def)
    next
      case (Some q)
      then show ?thesis
        using found_answer [OF same_buffer_trans [OF h' h]] unf inl shr None by (simp add: find_append)
    qed
  qed
qed

section \<open>Listing the names\<close>

definition list_name :: "erofs_sb_info \<Rightarrow> nat \<Rightarrow> bytes" where
  "list_name sbi pos =
     (case entry_base sbi (e_name_index (ent sbi pos)) of
        None \<Rightarrow> []
      | Some (b, infx) \<Rightarrow>
          if b = 0 \<or> length xattr_types \<le> unat b then []
          else (case xattr_types ! unat b of None \<Rightarrow> [] | Some p \<Rightarrow> p) @ infx @ ent_name sbi pos @ [0])"

definition lstate :: "bytes option \<Rightarrow> u32 \<Rightarrow> bytes \<Rightarrow> listxattr_iter" where
  "lstate buf sz out =
     \<lparr>lx_buffer = map_option (\<lambda>b. out @ drop (length out) b) buf, lx_buffer_size = sz, lx_buffer_ofs = length out\<rparr>"

definition fits :: "bytes option \<Rightarrow> u32 \<Rightarrow> bytes \<Rightarrow> bool" where
  "fits buf sz out \<longleftrightarrow> (case buf of None \<Rightarrow> True | Some b \<Rightarrow> length b = unat sz \<and> length out \<le> unat sz)"

lemma fits_append: "fits buf sz (xs @ ys) \<Longrightarrow> fits buf sz xs"
  by (auto simp: fits_def split: option.splits)

lemma memput_out:
  assumes "length (out @ xs) \<le> length b"
  shows "memput (out @ drop (length out) b) (length out) xs = Inr ((out @ xs) @ drop (length (out @ xs)) b)"
  using assms by (simp add: memput_def add.commute)

lemma visit_list:
  assumes pl: "prefixes_loaded sbi" and f: "fits buf sz out"
  shows "\<exists>g r. visit (list_xattr_handlers sbi) (lstate buf sz out) (ent sbi pos) (ent_name sbi pos) (ent_value sbi pos) = Inr (g, r) \<and>
     (if fits buf sz (out @ list_name sbi pos) then r = HSkip \<and> g = lstate buf sz (out @ list_name sbi pos) else r = HErr ERANGE)"
proof -
  let ?e = "ent sbi pos" and ?nm = "ent_name sbi pos"
  have base: "(if e_name_index ?e AND 0x80 \<noteq> 0 then long_prefix sbi (e_name_index ?e) else Inr (Some (e_name_index ?e, []))) =
      Inr (entry_base sbi (e_name_index ?e))"
    using pl by (auto simp: prefixes_loaded_def entry_base_def split: sum.split dest: spec [of _ "e_name_index ?e"])
  show ?thesis
  proof (cases "\<exists>b infx. entry_base sbi (e_name_index ?e) = Some (b, infx) \<and> b \<noteq> 0 \<and> unat b < length xattr_types")
    case False
    then have "list_name sbi pos = []" "xattr_entrylist sbi (lstate buf sz out) ?e = Inr (lstate buf sz out, HSkip)"
      by (auto simp: list_name_def xattr_entrylist_def base split: option.split)
    then show ?thesis using f by (simp add: visit_def list_xattr_handlers_def)
  next
    case True
    then obtain b infx where e: "entry_base sbi (e_name_index ?e) = Some (b, infx)" "b \<noteq> 0" "unat b < length xattr_types" by blast
    define pre where "pre = (case xattr_types ! unat b of None \<Rightarrow> [] | Some p \<Rightarrow> p)"
    have n: "list_name sbi pos = pre @ infx @ ?nm @ [0]" using e by (simp add: list_name_def pre_def)
    show ?thesis
    proof (cases buf)
      case None
      then show ?thesis using e n
        by (simp add: visit_def list_xattr_handlers_def xattr_entrylist_def base lstate_def fits_def Let_def pre_def [symmetric])
    next
      case (Some bf)
      then have lb: "length bf = unat sz" using f by (simp add: fits_def)
      show ?thesis
      proof (cases "length (out @ list_name sbi pos) \<le> unat sz")
        case False
        then show ?thesis using e n Some
          by (simp add: visit_def list_xattr_handlers_def xattr_entrylist_def base lstate_def fits_def Let_def pre_def [symmetric])
      next
        case True
        have m1: "memput (out @ drop (length out) bf) (length out) (pre @ infx) = Inr ((out @ pre @ infx) @ drop (length (out @ pre @ infx)) bf)"
          by (rule memput_out) (use True lb n in simp)
        have m2: "memput ((out @ pre @ infx) @ drop (length (out @ pre @ infx)) bf) (length (out @ pre @ infx)) ?nm =
            Inr (((out @ pre @ infx) @ ?nm) @ drop (length ((out @ pre @ infx) @ ?nm)) bf)"
          by (rule memput_out) (use True lb n in simp)
        have m3: "memput (((out @ pre @ infx) @ ?nm) @ drop (length ((out @ pre @ infx) @ ?nm)) bf) (length ((out @ pre @ infx) @ ?nm)) [0] =
            Inr ((((out @ pre @ infx) @ ?nm) @ [0]) @ drop (length (((out @ pre @ infx) @ ?nm) @ [0])) bf)"
          by (rule memput_out) (use True lb n in simp)
        have l1: "lx_buffer_ofs (lstate buf sz out) + length pre + length infx = length (out @ pre @ infx)" by (simp add: lstate_def)
        have s1: "op_entry (list_xattr_handlers sbi) (lstate buf sz out) ?e = Inr (lstate buf sz (out @ pre @ infx), HOk)"
          using e n True Some m1 by (simp add: list_xattr_handlers_def xattr_entrylist_def base lstate_def Let_def pre_def [symmetric])
        have s2: "(if ?nm = [] then Inr (lstate buf sz (out @ pre @ infx), HOk) else op_name (list_xattr_handlers sbi) (lstate buf sz (out @ pre @ infx)) 0 ?nm) =
            Inr (lstate buf sz ((out @ pre @ infx) @ ?nm), HOk)"
        proof (cases "?nm = []")
          case True
          then show ?thesis by (simp only: True if_True append_Nil2)
        next
          case False
          then show ?thesis using Some m2 by (simp add: list_xattr_handlers_def xattr_namelist_def lstate_def)
        qed
        have s3: "op_alloc (list_xattr_handlers sbi) (lstate buf sz ((out @ pre @ infx) @ ?nm)) (ucast (e_value_size ?e)) =
            Inr (lstate buf sz (((out @ pre @ infx) @ ?nm) @ [0]), HSkip)"
          using Some m3 by (simp add: list_xattr_handlers_def xattr_skipvalue_def lstate_def)
        have "visit (list_xattr_handlers sbi) (lstate buf sz out) ?e ?nm (ent_value sbi pos) = Inr (lstate buf sz (((out @ pre @ infx) @ ?nm) @ [0]), HSkip)"
          unfolding visit_def s1 bindR.simps prod.case s2 s3 by simp
        then show ?thesis using Some lb True n by (simp add: fits_def)
      qed
    qed
  qed
qed


lemma foreach_list:
  assumes d: "xattr_dev sbi" and pl: "prefixes_loaded sbi" and f: "fits buf sz out"
    and i: "it_at sbi it pos" and p: "4 dvd pos" and a: "addressable sbi (pos + ent_size sbi pos)"
    and lim: "\<And>l. lim = Some l \<Longrightarrow> ent_size sbi pos \<le> unat l"
  obtains it' g where "it_at sbi it' (pos + ent_size sbi pos)"
    "xattr_foreach sbi (list_xattr_handlers sbi) it (lstate buf sz out) lim =
       Inr (if fits buf sz (out @ list_name sbi pos) then HOk else HErr ERANGE, it', g, limit_after lim (ent sbi pos))"
    "fits buf sz (out @ list_name sbi pos) \<Longrightarrow> g = lstate buf sz (out @ list_name sbi pos)"
proof -
  obtain g r where v: "visit (list_xattr_handlers sbi) (lstate buf sz out) (ent sbi pos) (ent_name sbi pos) (ent_value sbi pos) = Inr (g, r)"
    and r: "if fits buf sz (out @ list_name sbi pos) then r = HSkip \<and> g = lstate buf sz (out @ list_name sbi pos) else r = HErr ERANGE"
    using visit_list [OF pl f] by blast
  have e: "(if r = HSkip then HOk else r) = (if fits buf sz (out @ list_name sbi pos) then HOk else HErr ERANGE)" using r by (auto split: if_splits)
  obtain it' where "xattr_foreach sbi (list_xattr_handlers sbi) it (lstate buf sz out) lim =
      Inr (if r = HSkip then HOk else r, it', g, limit_after lim (ent sbi pos))" "it_at sbi it' (pos + ent_size sbi pos)"
    using lst.foreach_whole [OF d i p a lim v] by blast
  then show thesis using that [of it' g] r unfolding e by (auto split: if_splits)
qed

abbreviation names :: "erofs_sb_info \<Rightarrow> nat list \<Rightarrow> bytes" where
  "names sbi qs \<equiv> concat (map (list_name sbi) qs)"

definition listed :: "bytes option \<Rightarrow> u32 \<Rightarrow> bytes \<Rightarrow> (hret \<times> listxattr_iter) result \<Rightarrow> bool" where
  "listed buf sz out r \<longleftrightarrow> (if fits buf sz out then r = Inr (HOk, lstate buf sz out) else \<exists>g. r = Inr (HErr ERANGE, g))"

lemma listxattr_loop_whole:
  assumes d: "xattr_dev sbi" and pl: "prefixes_loaded sbi"
    and "fits buf sz out" and "it_at sbi it pos" and "4 dvd pos" and "addressable sbi (pos + unat rem)"
    and "ents sbi pos ps (unat rem)" and "ps \<noteq> []" and "length ps \<le> fuel"
  shows "listed buf sz (out @ names sbi ps) (listxattr_loop fuel sbi (list_xattr_handlers sbi) it (lstate buf sz out) rem)"
  using assms(3-)
proof (induction ps arbitrary: fuel it out pos rem)
  case (Cons q qs)
  obtain n where fuel: "fuel = Suc n" using Cons.prems(7) by (cases fuel) auto
  have e: "q = pos" "ent_size sbi pos \<le> unat rem" "ents sbi (pos + ent_size sbi pos) qs (unat rem - ent_size sbi pos)" using Cons.prems(5) by auto
  have a: "addressable sbi (pos + ent_size sbi pos)" using Cons.prems(4) e(2) by linarith
  have lim: "ent_size sbi pos \<le> unat l" if "Some rem = Some l" for l using that e(2) by simp
  let ?rem = "rem - erofs_xattr_entry_size (ent sbi pos)" and ?out = "out @ list_name sbi pos"
  have rem: "unat ?rem = unat rem - ent_size sbi pos" using e(2) by (simp add: ent_size_def unat_sub word_le_nat_alt)
  obtain it' g where at: "it_at sbi it' (pos + ent_size sbi pos)"
    and f: "xattr_foreach sbi (list_xattr_handlers sbi) it (lstate buf sz out) (Some rem) =
       Inr (if fits buf sz ?out then HOk else HErr ERANGE, it', g, limit_after (Some rem) (ent sbi pos))"
    and g: "fits buf sz ?out \<Longrightarrow> g = lstate buf sz ?out"
    using foreach_list [OF d pl Cons.prems(1-3) a lim] by metis
  show ?case
  proof (cases "fits buf sz ?out")
    case False
    then have "\<not> fits buf sz (out @ names sbi (q # qs))" using fits_append [of buf sz ?out "names sbi qs"] e(1) by auto
    then show ?thesis using False f fuel by (simp add: listed_def)
  next
    case True
    have u: "listxattr_loop fuel sbi (list_xattr_handlers sbi) it (lstate buf sz out) rem =
       (if unat ?rem = 0 then Inr (HOk, lstate buf sz ?out) else listxattr_loop n sbi (list_xattr_handlers sbi) it' (lstate buf sz ?out) ?rem)"
      using True f g fuel by (simp add: limit_after_def unat_eq_zero)
    show ?thesis
    proof (cases qs)
      case Nil
      then show ?thesis using u e rem True by (simp add: listed_def)
    next
      case (Cons q' qs')
      then have nz: "unat ?rem \<noteq> 0" using e(3) rem ent_bounds(3) [of sbi "pos + ent_size sbi pos"] by auto
      have "listed buf sz (?out @ names sbi qs) (listxattr_loop n sbi (list_xattr_handlers sbi) it' (lstate buf sz ?out) ?rem)"
      proof (rule Cons.IH)
        show "fits buf sz ?out" by (rule True)
        show "it_at sbi it' (pos + ent_size sbi pos)" by (rule at)
        show "4 dvd pos + ent_size sbi pos" using Cons.prems(3) ent_bounds(5) by simp
        show "addressable sbi (pos + ent_size sbi pos + unat ?rem)" using Cons.prems(4) e(2) rem by simp
        show "ents sbi (pos + ent_size sbi pos) qs (unat ?rem)" using e(3) rem by simp
        show "qs \<noteq> []" using Cons by simp
        show "length qs \<le> n" using Cons.prems(7) fuel by simp
      qed
      then show ?thesis using u nz e(1) by simp
    qed
  qed
qed simp

lemma shared_listxattr_whole:
  assumes d: "xattr_dev sbi" and pl: "prefixes_loaded sbi"
    and "fits buf sz out" and "shared_ok sbi ids" and "\<And>t. it = Some t \<Longrightarrow> \<exists>p. it_at sbi t p"
  shows "listed buf sz (out @ names sbi (map (shared_pos sbi) ids)) (shared_listxattr sbi ids it (lstate buf sz out))"
  using assms(3-)
proof (induction ids arbitrary: it out)
  case Nil
  then show ?case by (simp add: listed_def)
next
  case (Cons i ids)
  let ?p = "shared_pos sbi i" and ?out = "out @ list_name sbi (shared_pos sbi i)"
  have a: "addressable sbi (?p + ent_size sbi ?p)" using Cons.prems(2) by (simp add: shared_ok_def)
  then have a0: "addressable sbi ?p" by linarith
  obtain t where t: "(case it of
               Some t \<Rightarrow> if xattrblock_addr sbi i = it_blkaddr t then Inr (t\<lparr>it_ofs := xattrblock_offset sbi i\<rparr>)
                         else bindR (page_at sbi (xattrblock_addr sbi i)) (\<lambda>pg. Inr \<lparr>it_page = pg, it_blkaddr = xattrblock_addr sbi i, it_ofs = xattrblock_offset sbi i\<rparr>)
             | None \<Rightarrow> bindR (page_at sbi (xattrblock_addr sbi i)) (\<lambda>pg. Inr \<lparr>it_page = pg, it_blkaddr = xattrblock_addr sbi i, it_ofs = xattrblock_offset sbi i\<rparr>)) = Inr t"
    and at: "it_at sbi t ?p"
    by (rule shared_iter [OF d a0 Cons.prems(3)])
  have p4: "4 dvd ?p" using xattr_dev_B(4) [OF d] by (simp add: shared_pos_def)
  obtain it' g where at': "it_at sbi it' (?p + ent_size sbi ?p)"
    and f: "xattr_foreach sbi (list_xattr_handlers sbi) t (lstate buf sz out) None =
       Inr (if fits buf sz ?out then HOk else HErr ERANGE, it', g, limit_after None (ent sbi ?p))"
    and g: "fits buf sz ?out \<Longrightarrow> g = lstate buf sz ?out"
    using foreach_list [OF d pl Cons.prems(1) at p4 a, of None] by (metis option.distinct(1))
  have u: "shared_listxattr sbi (i # ids) it (lstate buf sz out) =
     (if fits buf sz ?out then shared_listxattr sbi ids (Some it') (lstate buf sz ?out) else Inr (HErr ERANGE, g))"
    using g by (simp only: shared_listxattr.simps Let_def t bindR.simps f) simp
  show ?case
  proof (cases "fits buf sz ?out")
    case False
    then have "\<not> fits buf sz (out @ names sbi (map (shared_pos sbi) (i # ids)))"
      using fits_append [of buf sz ?out "names sbi (map (shared_pos sbi) ids)"] by auto
    then show ?thesis using False u by (simp add: listed_def)
  next
    case True
    have "listed buf sz (?out @ names sbi (map (shared_pos sbi) ids)) (shared_listxattr sbi ids (Some it') (lstate buf sz ?out))"
      using Cons.prems(2) at' by (intro Cons.IH True) (auto simp: shared_ok_def)
    then show ?thesis using u True by simp
  qed
qed

lemma listxattr_lists:
  assumes ok: "ibody_ok sbi vi ps" and b: "\<And>b. buf = Some b \<Longrightarrow> length b = unat sz"
    and out: "out = names sbi (ps @ map (shared_pos sbi) (disk_shared_ids sbi (ibody_pos sbi (ea_inode vi))))"
  shows "erofs_listxattr sbi vi buf sz =
     (case buf of
        None \<Rightarrow> Inr (length out, None, loaded sbi vi)
      | Some b \<Rightarrow> if unat sz < length out then Err ERANGE else Inr (length out, Some (out @ drop (length out) b), loaded sbi vi))"
proof -
  let ?pos = "ibody_pos sbi (ea_inode vi)"
  let ?ids = "disk_shared_ids sbi ?pos"
  have d: "xattr_dev sbi" and pl: "prefixes_loaded sbi" and sh: "shared_ok sbi ?ids" and al: "32 dvd ?pos"
    and a: "addressable sbi (?pos + unat (xattr_isize (ea_inode vi)))" and hs: "hdr_size sbi ?pos \<le> unat (xattr_isize (ea_inode vi))"
    and es: "ents sbi (?pos + hdr_size sbi ?pos) ps (unat (xattr_isize (ea_inode vi)) - hdr_size sbi ?pos)"
    using ok by (simp_all add: ibody_ok_def Let_def)
  have st: "\<lparr>lx_buffer = buf, lx_buffer_size = sz, lx_buffer_ofs = 0\<rparr> = lstate buf sz []" by (cases buf) (simp_all add: lstate_def)
  have f0: "fits buf sz []" using b by (auto simp: fits_def split: option.split)
  have inl: "if ps = [] then inline_listxattr sbi (loaded sbi vi) (lstate buf sz []) = Inr (HErr ENODATA, lstate buf sz [])
     else listed buf sz (names sbi ps) (inline_listxattr sbi (loaded sbi vi) (lstate buf sz []))"
  proof (cases "inline_xattr_iter_pre sbi (loaded sbi vi)")
    case (Inl e)
    then show ?thesis using inline_pre_value [OF ok] by (simp add: inline_listxattr_def)
  next
    case (Inr r)
    obtain it rem where r: "r = (it, rem)" by force
    then have pre: "ps \<noteq> []" "it_at sbi it (?pos + hdr_size sbi ?pos)" "unat rem = unat (xattr_isize (ea_inode vi)) - hdr_size sbi ?pos"
      using inline_pre_value [OF ok] Inr by simp_all
    have 4: "4 dvd ?pos + hdr_size sbi ?pos" using al by (auto elim!: dvdE)
    have A: "addressable sbi (?pos + hdr_size sbi ?pos + unat rem)" using a hs pre(3) by simp
    have E: "ents sbi (?pos + hdr_size sbi ?pos) ps (unat rem)" using es pre(3) by simp
    show ?thesis
      using listxattr_loop_whole [OF d pl f0 pre(2) 4 A E pre(1) ents_length [OF E]] pre(1) by (simp add: inline_listxattr_def Inr r)
  qed
  have ids: "xattr_shared_xattrs (loaded sbi vi) = ?ids" by (simp add: loaded_def)
  have unf: "erofs_listxattr sbi vi buf sz = bindR (inline_listxattr sbi (loaded sbi vi) (lstate buf sz [])) (\<lambda>(r, g).
            case r of
              HErr e \<Rightarrow> if e \<noteq> ENODATA then Err e else
                bindR (shared_listxattr sbi ?ids None g) (\<lambda>(r, g).
                  case r of HErr e \<Rightarrow> Err e | _ \<Rightarrow> Inr (lx_buffer_ofs g, lx_buffer g, loaded sbi vi))
            | _ \<Rightarrow>
                bindR (shared_listxattr sbi ?ids None g) (\<lambda>(r, g).
                  case r of HErr e \<Rightarrow> Err e | _ \<Rightarrow> Inr (lx_buffer_ofs g, lx_buffer g, loaded sbi vi)))"
    unfolding ids [symmetric] by (simp add: erofs_listxattr_def init_inode_xattrs_loads [OF ok] st)
  show ?thesis
  proof (cases "fits buf sz (names sbi ps)")
    case False
    then have "ps \<noteq> []" using f0 by auto
    then obtain g where "inline_listxattr sbi (loaded sbi vi) (lstate buf sz []) = Inr (HErr ERANGE, g)"
      using inl False by (auto simp: listed_def)
    moreover obtain bf where "buf = Some bf" "unat sz < length out" using False b out by (auto simp: fits_def split: option.splits)
    ultimately show ?thesis using unf by simp
  next
    case True
    obtain r where i: "inline_listxattr sbi (loaded sbi vi) (lstate buf sz []) = Inr (r, lstate buf sz (names sbi ps))" "r = HOk \<or> r = HErr ENODATA"
      using inl True by (auto simp: listed_def split: if_splits)
    have "listed buf sz out (shared_listxattr sbi ?ids None (lstate buf sz (names sbi ps)))"
      using shared_listxattr_whole [OF d pl True sh, of None] by (simp add: out)
    then show ?thesis
      using unf i b by (auto simp: listed_def fits_def lstate_def split: option.splits if_splits)
  qed
qed

end
