(* ===== verification/Erofs_Xattr_Roundtrip.thy ===== *)
theory Erofs_Xattr_Roundtrip
  imports Erofs_Xattr_Lookup "HOL-Library.Multiset"
begin

unbundle bit_operations_syntax

text \<open>
  From the attribute list of an inode through \<^verbatim>\<open>erofs_prepare_xattr_ibody\<close> and \<^verbatim>\<open>erofs_export_xattr_ibody\<close> to the image and back through
  \<^verbatim>\<open>erofs_getxattr\<close> and \<^verbatim>\<open>erofs_listxattr\<close>: the image of an item, the size of the body, the buffer the export fills, and the entries
  a reader meets in it.
\<close>

section \<open>Items and their images\<close>

definition item_key :: "xattr_item \<Rightarrow> bytes" where
  "item_key it = take (unat (fst (xi_len it))) (kvbuf it)"

definition item_value :: "xattr_item \<Rightarrow> bytes" where
  "item_value it = take (unat (snd (xi_len it))) (drop (unat (fst (xi_len it)) + 1) (kvbuf it))"

definition item_name :: "xattr_item \<Rightarrow> bytes" where
  "item_name it = drop (unat (prefix_len it)) (item_key it)"

text \<open>
  A well-formed item: the buffer holds the key, a zero byte and the value; the name behind its prefix and the value have
  lengths an entry can store; the base index is that of a prefix of the key.
\<close>

definition item_wf :: "xattr_item \<Rightarrow> bool" where
  "item_wf it \<longleftrightarrow>
     length (kvbuf it) = unat (fst (xi_len it)) + 1 + unat (snd (xi_len it)) \<and> unat (prefix_len it) \<le> unat (fst (xi_len it)) \<and>
     unat (fst (xi_len it)) - unat (prefix_len it) < 256 \<and> unat (snd (xi_len it)) < 65536 \<and> unat (xi_prefix it) < 256 \<and>
     (\<exists>pre. unat (base_index it) < length xattr_types \<and> xattr_types ! unat (base_index it) = Some pre \<and> length pre \<le> unat (fst (xi_len it)))"

definition item_body :: "xattr_item \<Rightarrow> bytes" where
  "item_body it = enc_xattr_entry (entry_of_item it) @ item_name it @ item_value it"

definition item_size :: "xattr_item \<Rightarrow> nat" where
  "item_size it = align4 (length (item_body it))"

definition item_image :: "xattr_item \<Rightarrow> bytes" where
  "item_image it = item_body it @ replicate (item_size it - length (item_body it)) 0"

lemma item_lengths:
  assumes "item_wf it"
  shows "length (item_key it) = unat (fst (xi_len it))" "length (item_value it) = unat (snd (xi_len it))"
    "length (item_name it) = unat (fst (xi_len it) - prefix_len it)" "length (item_name it) < 256" "length (item_value it) < 65536"
proof -
  show k: "length (item_key it) = unat (fst (xi_len it))" "length (item_value it) = unat (snd (xi_len it))"
    using assms by (simp_all add: item_wf_def item_key_def item_value_def)
  have "unat (fst (xi_len it) - prefix_len it) = unat (fst (xi_len it)) - unat (prefix_len it)"
    using assms by (simp add: item_wf_def unat_sub word_le_nat_alt)
  then show "length (item_name it) = unat (fst (xi_len it) - prefix_len it)" "length (item_name it) < 256" "length (item_value it) < 65536"
    using assms k by (simp_all add: item_name_def item_wf_def)
qed

lemma item_size_value:
  assumes "item_wf it"
  shows "item_size it = align4 (4 + length (item_name it) + length (item_value it))" "length (item_body it) \<le> item_size it"
    "length (item_image it) = item_size it" "4 dvd item_size it" "item_size it < 65800" "4 \<le> item_size it"
proof -
  have l: "length (item_body it) = 4 + length (item_name it) + length (item_value it)"
    by (simp add: item_body_def xattr_entry.length_enc)
  show "item_size it = align4 (4 + length (item_name it) + length (item_value it))" by (simp add: item_size_def l)
  note b = align4_bounds [of "length (item_body it)"]
  show "length (item_body it) \<le> item_size it" "length (item_image it) = item_size it" "4 dvd item_size it"
    using b by (simp_all add: item_size_def item_image_def)
  show "item_size it < 65800" "4 \<le> item_size it" using b item_lengths(4,5) [OF assms] l by (simp_all add: item_size_def)
qed

lemma next_align_value:
  assumes wf: "item_wf it" and p: "4 dvd unat p" and s: "unat p + item_size it < 2 ^ 31"
  shows "unat (erofs_next_xattr_align p it) = unat p + item_size it"
proof -
  let ?x = "p + 4 + fst (xi_len it) + snd (xi_len it) - prefix_len it"
  have le: "unat (prefix_len it) \<le> unat (fst (xi_len it))" using wf by (simp add: item_wf_def)
  note l = item_lengths [OF wf]
  note z = item_size_value [OF wf]
  have "?x = p + 4 + (fst (xi_len it) - prefix_len it) + snd (xi_len it)" by simp
  moreover have "unat (p + 4 + (fst (xi_len it) - prefix_len it) + snd (xi_len it)) = unat p + (4 + length (item_name it) + length (item_value it))"
    using s z(1) align4_bounds(1) [of "4 + length (item_name it) + length (item_value it)"] l by (simp add: unat_word_ariths)
  ultimately have x: "unat ?x = unat p + (4 + length (item_name it) + length (item_value it))" by (simp only:)
  moreover have "unat ?x < 2 ^ 31"
    using x s z(1) align4_bounds(1) [of "4 + length (item_name it) + length (item_value it)"] by linarith
  then have "unat ?x < 2 ^ 32 - 4" by simp
  ultimately have "unat (erofs_next_xattr_align p it) = align4 (unat p + (4 + length (item_name it) + length (item_value it)))"
    using unat_XATTR_ALIGN by (simp add: erofs_next_xattr_align_def)
  then show ?thesis using z(1) align4_add [OF p] by simp
qed

text \<open>Writing into a buffer behind what it holds already.\<close>

abbreviation (input) filled :: "bytes \<Rightarrow> nat \<Rightarrow> bytes" where
  "filled out n \<equiv> out @ drop (length out) (replicate n 0)"

lemma filled_eq: "filled out n = out @ replicate (n - length out) 0"
  by simp

lemma write_entry_filled:
  assumes wf: "item_wf it" and s: "length out + item_size it \<le> n"
  shows "erofs_write_xattr_entry (filled out n) (length out) it = Inr (filled (out @ item_image it) n)"
proof -
  note l = item_lengths [OF wf]
  note z = item_size_value [OF wf]
  let ?e = "enc_xattr_entry (entry_of_item it)"
  have le: "length ?e = 4" by (rule xattr_entry.length_enc) simp
  have tot: "4 + length (item_name it) + length (item_value it) \<le> item_size it" using z(2) by (simp add: item_body_def le)
  have nm: "slice (kvbuf it) (unat (prefix_len it)) (unat (fst (xi_len it) - prefix_len it)) = Inr (item_name it)"
  proof -
    have "unat (fst (xi_len it) - prefix_len it) = unat (fst (xi_len it)) - unat (prefix_len it)"
      using wf by (simp add: item_wf_def unat_sub word_le_nat_alt)
    then show ?thesis using wf by (auto simp: slice_def item_name_def item_key_def item_wf_def drop_take)
  qed
  have v: "slice (kvbuf it) (unat (fst (xi_len it)) + 1) (unat (snd (xi_len it))) = Inr (item_value it)"
    using wf by (simp add: slice_def item_value_def item_wf_def)
  have m1: "memput (filled out n) (length out) ?e = Inr (filled (out @ ?e) n)"
    by (rule memput_out) (use s tot le in simp)
  have m2: "memput (filled (out @ ?e) n) (length (out @ ?e)) (item_name it) = Inr (filled ((out @ ?e) @ item_name it) n)"
    by (rule memput_out) (use s tot le in simp)
  have m3: "memput (filled ((out @ ?e) @ item_name it) n) (length ((out @ ?e) @ item_name it)) (item_value it) =
      Inr (filled (((out @ ?e) @ item_name it) @ item_value it) n)"
    by (rule memput_out) (use s tot le in simp)
  have "erofs_write_xattr_entry (filled out n) (length out) it = Inr (filled (((out @ ?e) @ item_name it) @ item_value it) n)"
  proof -
    have p1: "length out + 4 = length (out @ ?e)" and p2: "length (out @ ?e) + unat (fst (xi_len it) - prefix_len it) = length ((out @ ?e) @ item_name it)"
      using le l(3) by simp_all
    show ?thesis by (simp only: erofs_write_xattr_entry_def Let_def m1 bindR.simps nm p1 m2 v p2 m3)
  qed
  moreover have "filled (((out @ ?e) @ item_name it) @ item_value it) n = filled (out @ item_image it) n"
  proof -
    have "length (item_body it) \<le> n - length out" "item_size it \<le> n - length out" using s z(2) by simp_all
    then have "replicate (n - (length out + length (item_body it))) (0 :: u8) =
        replicate (item_size it - length (item_body it)) 0 @ replicate (n - (length out + item_size it)) 0"
      using z(2) by (simp add: replicate_add [symmetric])
    moreover have "((out @ ?e) @ item_name it) @ item_value it = out @ item_body it" by (simp add: item_body_def)
    ultimately show ?thesis using z(2,3) by (simp add: item_image_def)
  qed
  ultimately show ?thesis by simp
qed

section \<open>References\<close>

text \<open>
  The heap holds the items of a multiset of references, unchanged but for their counts, and every count covers its references.
\<close>

definition holds :: "(nat \<Rightarrow> xattr_item) \<Rightarrow> xattr_state \<Rightarrow> nat multiset \<Rightarrow> bool" where
  "holds I st M \<longleftrightarrow> (\<forall>a. a \<in># M \<longrightarrow> (\<exists>c. xs_heap st a = Some ((I a)\<lparr>xi_count := c\<rparr>) \<and> count M a \<le> unat c))"

lemma holds_deref:
  assumes "holds I st M" and "a \<in># M"
  obtains c where "deref st a = Inr ((I a)\<lparr>xi_count := c\<rparr>)" "count M a \<le> unat c"
  using assms by (auto simp: holds_def deref_def)

lemma holds_put:
  assumes "holds I st (add_mset a M)"
  obtains n st' where "put_xattritem a st = Inr (n, st')" "holds I st' M"
proof -
  obtain c where c: "xs_heap st a = Some ((I a)\<lparr>xi_count := c\<rparr>)" "Suc (count M a) \<le> unat c"
    using assms unfolding holds_def by (metis count_add_mset union_single_eq_member)
  have other: "\<exists>c. xs_heap st b = Some ((I b)\<lparr>xi_count := c\<rparr>) \<and> count M b \<le> unat c" if "b \<in># M" "b \<noteq> a" for b
    using assms [unfolded holds_def, rule_format, of b] that by simp
  show thesis
  proof (cases "1 < c")
    case True
    then have "c \<noteq> 0" by auto
    then have "unat (c - 1) = unat c - 1" by (rule unat_minus_one)
    then have "count M a \<le> unat (c - 1)" using c(2) by simp
    then have "holds I (st\<lparr>xs_heap := (xs_heap st)(a := Some ((I a)\<lparr>xi_count := c - 1\<rparr>))\<rparr>) M"
      unfolding holds_def using other by auto
    then show ?thesis using that c(1) True by (simp add: put_xattritem_def deref_def Let_def)
  next
    case False
    then have "count M a = 0" using c(2) by (simp add: word_less_nat_alt)
    then have "holds I (st\<lparr>xs_heap := (xs_heap st)(a := None)\<rparr>) M"
      unfolding holds_def using other by (auto simp flip: not_in_iff)
    then show ?thesis using that c(1) False by (simp add: put_xattritem_def deref_def)
  qed
qed

lemma item_count_irrelevant [simp]:
  "item_wf (it\<lparr>xi_count := c\<rparr>) = item_wf it" "item_image (it\<lparr>xi_count := c\<rparr>) = item_image it" "item_size (it\<lparr>xi_count := c\<rparr>) = item_size it"
  "erofs_next_xattr_align p (it\<lparr>xi_count := c\<rparr>) = erofs_next_xattr_align p it" "item_key (it\<lparr>xi_count := c\<rparr>) = item_key it"
  "item_value (it\<lparr>xi_count := c\<rparr>) = item_value it"
  by (simp_all add: item_wf_def item_image_def item_size_def item_body_def entry_of_item_def item_name_def item_key_def item_value_def
      erofs_next_xattr_align_def)

section \<open>The size of the inline body\<close>

text \<open>The items of an inode that are stored as shared ids, at most 255, and the others, in the order of the list.\<close>

fun shared_part :: "(nat \<Rightarrow> xattr_item) \<Rightarrow> nat \<Rightarrow> nat list \<Rightarrow> nat list" where
  "shared_part I n [] = []"
| "shared_part I n (a # as) =
     (if 0 \<le> sint (shared_xattr_id (I a)) \<and> n < 255 then a # shared_part I (Suc n) as else shared_part I n as)"

fun inline_part :: "(nat \<Rightarrow> xattr_item) \<Rightarrow> nat \<Rightarrow> nat list \<Rightarrow> nat list" where
  "inline_part I n [] = []"
| "inline_part I n (a # as) =
     (if 0 \<le> sint (shared_xattr_id (I a)) \<and> n < 255 then inline_part I (Suc n) as else a # inline_part I n as)"

lemma parts_mset: "mset (shared_part I n as) + mset (inline_part I n as) = mset as"
  by (induction as arbitrary: n) auto

lemma shared_part_length: "n \<le> 255 \<Longrightarrow> n + length (shared_part I n as) \<le> 255"
proof (induction as arbitrary: n)
  case (Cons a as)
  show ?case using Cons.IH [of n] Cons.IH [of "Suc n"] Cons.prems by auto
qed simp

definition body_size :: "(nat \<Rightarrow> xattr_item) \<Rightarrow> nat list \<Rightarrow> nat list \<Rightarrow> nat" where
  "body_size I shs ins = 4 * length shs + sum_list (map (\<lambda>a. item_size (I a)) ins)"

lemma ibody_size_value:
  assumes "holds I st (mset as + N)" and "\<And>a. a \<in> set as \<Longrightarrow> item_wf (I a)" and "4 dvd unat p"
    and "unat p + body_size I (shared_part I n as) (inline_part I n as) < 2 ^ 31"
  shows "\<exists>r. ibody_size st as n p = Inr r \<and> unat r = unat p + body_size I (shared_part I n as) (inline_part I n as)"
  using assms
proof (induction as arbitrary: n p N)
  case (Cons a as)
  obtain c where c: "deref st a = Inr ((I a)\<lparr>xi_count := c\<rparr>)"
    using holds_deref [OF Cons.prems(1), of a] by auto
  have h: "holds I st (mset as + add_mset a N)" using Cons.prems(1) by simp
  show ?case
  proof (cases "0 \<le> sint (shared_xattr_id (I a)) \<and> n < 255")
    case True
    then have s: "unat p + 4 + body_size I (shared_part I (Suc n) as) (inline_part I (Suc n) as) < 2 ^ 31" using Cons.prems(4) by (simp add: body_size_def)
    have u: "unat (p + 4) = unat p + 4" using s by (simp add: unat_word_ariths)
    have "\<exists>r. ibody_size st as (Suc n) (p + 4) = Inr r \<and> unat r = unat (p + 4) + body_size I (shared_part I (Suc n) as) (inline_part I (Suc n) as)"
      using Cons.prems(2,3) s u by (intro Cons.IH [OF h]) simp_all
    then show ?thesis using True c u by (auto simp: body_size_def)
  next
    case False
    have wf: "item_wf (I a)" using Cons.prems(2) by simp
    have s: "unat p + item_size (I a) + body_size I (shared_part I n as) (inline_part I n as) < 2 ^ 31"
      using Cons.prems(4) False by (simp add: body_size_def split: if_splits)
    have u: "unat (erofs_next_xattr_align p (I a)) = unat p + item_size (I a)"
      using s by (intro next_align_value [OF wf Cons.prems(3)]) simp
    have "\<exists>r. ibody_size st as n (erofs_next_xattr_align p (I a)) = Inr r \<and>
        unat r = unat (erofs_next_xattr_align p (I a)) + body_size I (shared_part I n as) (inline_part I n as)"
      using Cons.prems(2,3) s u item_size_value(4) [OF wf] by (intro Cons.IH [OF h]) simp_all
    then show ?thesis using False c u by (auto simp: body_size_def)
  qed
qed (simp add: body_size_def)


section \<open>The exported body\<close>

definition hdr :: "u32 \<Rightarrow> nat \<Rightarrow> bytes" where
  "hdr filt cnt = enc_xattr_ibody_header \<lparr>h_name_filter = filt, h_shared_count = of_nat cnt, h_reserved2 = replicate 7 0\<rparr>"

lemma hdr_eq: "hdr filt cnt = cpu_to_le32 filt @ [of_nat cnt] @ replicate 7 0"
  by (simp add: hdr_def enc_xattr_ibody_header_def le_put.simps)

lemma length_hdr [simp]: "length (hdr filt cnt) = 12"
  by (simp add: hdr_eq)

abbreviation ids_of :: "(nat \<Rightarrow> xattr_item) \<Rightarrow> nat list \<Rightarrow> bytes" where
  "ids_of I as \<equiv> concat (map (\<lambda>a. cpu_to_le32 (shared_xattr_id (I a))) as)"

abbreviation images_of :: "(nat \<Rightarrow> xattr_item) \<Rightarrow> nat list \<Rightarrow> bytes" where
  "images_of I as \<equiv> concat (map (\<lambda>a. item_image (I a)) as)"

lemma length_ids_of [simp]: "length (ids_of I as) = 4 * length as"
  by (induction as) simp_all

lemma length_images_of: "(\<And>a. a \<in> set as \<Longrightarrow> item_wf (I a)) \<Longrightarrow> length (images_of I as) = sum_list (map (\<lambda>a. item_size (I a)) as)"
  by (induction as) (simp_all add: item_size_value)

lemma memput_count: "memput (filled (hdr f c @ x) n) 4 [of_nat d] = Inr (filled (hdr f d @ x) n)"
  by (simp add: memput_def hdr_eq)

lemma export_shared_value:
  assumes "holds I st (mset as + N)" and "cnt \<le> 255" and "unat p = 12 + length ids"
    and "12 + length ids + 4 * length (shared_part I cnt as) \<le> n" and "n < 2 ^ 31"
  shows "\<exists>st' q. export_shared as (filled (hdr f cnt @ ids) n) p cnt ilst st =
       Inr (filled (hdr f (cnt + length (shared_part I cnt as)) @ ids @ ids_of I (shared_part I cnt as)) n, q,
            rev (inline_part I cnt as) @ ilst, st') \<and>
     unat q = 12 + length ids + 4 * length (shared_part I cnt as) \<and> holds I st' (mset (inline_part I cnt as) + N)"
  using assms
proof (induction as arbitrary: cnt p ids ilst st N)
  case (Cons a as)
  obtain c where c: "deref st a = Inr ((I a)\<lparr>xi_count := c\<rparr>)"
    using holds_deref [OF Cons.prems(1), of a] by auto
  show ?case
  proof (cases "0 \<le> sint (shared_xattr_id (I a)) \<and> cnt < 255")
    case False
    have h: "holds I st (mset as + add_mset a N)" using Cons.prems(1) by simp
    have "\<exists>st' q. export_shared as (filled (hdr f cnt @ ids) n) p cnt (a # ilst) st =
       Inr (filled (hdr f (cnt + length (shared_part I cnt as)) @ ids @ ids_of I (shared_part I cnt as)) n, q,
            rev (inline_part I cnt as) @ a # ilst, st') \<and>
       unat q = 12 + length ids + 4 * length (shared_part I cnt as) \<and> holds I st' (mset (inline_part I cnt as) + add_mset a N)"
      using Cons.prems False by (intro Cons.IH [OF h]) (auto split: if_splits)
    moreover have "sint (shared_xattr_id (I a)) < 0 \<or> 255 \<le> cnt" using False by auto
    ultimately show ?thesis using False c by auto
  next
    case True
    let ?id = "cpu_to_le32 (shared_xattr_id (I a))" and ?shs = "shared_part I (Suc cnt) as"
    have room: "12 + length (ids @ ?id) + 4 * length ?shs \<le> n" using Cons.prems(4) True by simp
    obtain m st1 where put: "put_xattritem a st = Inr (m, st1)" and h: "holds I st1 (mset as + N)"
      using holds_put [of I st a "mset as + N"] Cons.prems(1) by auto
    have "memput (filled (hdr f cnt @ ids) n) (length (hdr f cnt @ ids)) ?id = Inr (filled ((hdr f cnt @ ids) @ ?id) n)"
      by (rule memput_out) (use room in simp)
    then have m1: "memput (filled (hdr f cnt @ ids) n) (unat p) ?id = Inr (filled (hdr f cnt @ (ids @ ?id)) n)"
      using Cons.prems(3) by simp
    have u: "unat (p + 4) = unat p + 4" using Cons.prems(3,5) room by (simp add: unat_word_ariths)
    have "\<exists>st' q. export_shared as (filled (hdr f (Suc cnt) @ (ids @ ?id)) n) (p + 4) (Suc cnt) ilst st1 =
       Inr (filled (hdr f (Suc cnt + length ?shs) @ (ids @ ?id) @ ids_of I ?shs) n, q, rev (inline_part I (Suc cnt) as) @ ilst, st') \<and>
       unat q = 12 + length (ids @ ?id) + 4 * length ?shs \<and> holds I st' (mset (inline_part I (Suc cnt) as) + N)"
      using u True Cons.prems(3,5) room by (intro Cons.IH [OF h]) simp_all
    moreover have "export_shared (a # as) (filled (hdr f cnt @ ids) n) p cnt ilst st =
       export_shared as (filled (hdr f (Suc cnt) @ (ids @ ?id)) n) (p + 4) (Suc cnt) ilst st1"
      using c True m1 put memput_count [of f cnt "ids @ ?id" n "Suc cnt"]
      by (simp only: export_shared.simps bindR.simps xattr_item.simps) simp
    ultimately show ?thesis using True by (auto simp: add.assoc)
  qed
qed simp

lemma export_inline_value:
  assumes "holds I st (mset as + N)" and "\<And>a. a \<in> set as \<Longrightarrow> item_wf (I a)" and "unat p = length out" and "4 dvd length out"
    and "length out + sum_list (map (\<lambda>a. item_size (I a)) as) \<le> n" and "n < 2 ^ 31"
  shows "\<exists>st' q. export_inline as (filled out n) p st = Inr (filled (out @ images_of I as) n, q, st') \<and>
     unat q = length out + sum_list (map (\<lambda>a. item_size (I a)) as) \<and> holds I st' N"
  using assms
proof (induction as arbitrary: p out st)
  case (Cons a as)
  obtain c where c: "deref st a = Inr ((I a)\<lparr>xi_count := c\<rparr>)"
    using holds_deref [OF Cons.prems(1), of a] by auto
  have wf: "item_wf (I a)" using Cons.prems(2) by simp
  note z = item_size_value [OF wf]
  obtain m st1 where put: "put_xattritem a st = Inr (m, st1)" and h: "holds I st1 (mset as + N)"
    using holds_put [of I st a "mset as + N"] Cons.prems(1) by auto
  have wr: "erofs_write_xattr_entry (filled out n) (unat p) ((I a)\<lparr>xi_count := c\<rparr>) = Inr (filled (out @ item_image (I a)) n)"
    using write_entry_filled [of "(I a)\<lparr>xi_count := c\<rparr>" out n] wf Cons.prems(3,5) by simp
  have u: "unat (erofs_next_xattr_align p (I a)) = length (out @ item_image (I a))"
    using next_align_value [OF wf, of p] Cons.prems(3-6) z(3) by simp
  have "\<exists>st' q. export_inline as (filled (out @ item_image (I a)) n) (erofs_next_xattr_align p (I a)) st1 =
      Inr (filled ((out @ item_image (I a)) @ images_of I as) n, q, st') \<and>
     unat q = length (out @ item_image (I a)) + sum_list (map (\<lambda>a. item_size (I a)) as) \<and> holds I st' N"
    using Cons.prems(2,4-6) z(3,4) u by (intro Cons.IH [OF h]) simp_all
  moreover have "export_inline (a # as) (filled out n) p st =
      export_inline as (filled (out @ item_image (I a)) n) (erofs_next_xattr_align p (I a)) st1"
    by (simp only: export_inline.simps c bindR.simps wr put prod.case item_count_irrelevant)
  ultimately show ?case using z(3) by (auto simp: add.assoc)
qed simp


lemma name_filter_total:
  assumes "holds I st M" and "set as \<subseteq> set_mset M" and "\<And>a. a \<in> set as \<Longrightarrow> item_wf (I a)"
  shows "\<exists>g. name_filter_loop st as f = Inr g"
  using assms(2,3)
proof (induction as arbitrary: f)
  case (Cons a as)
  obtain c where c: "deref st a = Inr ((I a)\<lparr>xi_count := c\<rparr>)"
    using holds_deref [OF assms(1), of a] Cons.prems(1) by auto
  have wf: "item_wf (I a)" using Cons.prems(2) by simp
  then obtain pre where pre: "xattr_types ! unat (base_index (I a)) = Some pre" "length pre \<le> unat (fst (xi_len (I a)))"
    by (auto simp: item_wf_def)
  have "unat (of_nat (length pre) :: u32) = length pre"
    using pre(2) unsigned_less [of "fst (xi_len (I a))", where ?'a = nat] by (simp add: unat_of_nat)
  then have "unat (fst (xi_len (I a)) - of_nat (length pre)) = unat (fst (xi_len (I a))) - length pre"
    using pre(2) by (simp add: unat_sub word_le_nat_alt)
  then obtain b where "name_filter_bit ((I a)\<lparr>xi_count := c\<rparr>) = Inr b"
    using pre wf by (simp add: name_filter_bit_def slice_def item_wf_def)
  then show ?case using c Cons.IH Cons.prems by simp
qed simp

section \<open>Preparing and exporting\<close>

lemma ibody_pad_value:
  assumes "4 dvd unat target" and "4 dvd unat ret" and "unat target < 2 ^ 31" and "unat target - unat ret < fuel"
  shows "ibody_pad fuel target ret = Inr (max ret target)"
  using assms(2,4)
proof (induction fuel arbitrary: ret)
  case (Suc fuel)
  show ?case
  proof (cases "ret < target")
    case False
    then show ?thesis by (simp add: max_def)
  next
    case True
    then have lt: "unat ret + 4 \<le> unat target" using dvd_gap [OF Suc.prems(1) assms(1)] by (simp add: word_less_nat_alt)
    have r4: "unat (ret + 4) = unat ret + 4" using lt assms(3) by (simp add: unat_word_ariths)
    define ret' where "ret' = (if ret + 4 < target then EROFS_XATTR_ALIGN (ret + 4 + min (target - (ret + 4)) 65535) else ret + 4)"
    have ret': "4 dvd unat ret' \<and> unat ret + 4 \<le> unat ret' \<and> unat ret' \<le> unat target"
    proof (cases "ret + 4 < target")
      case False
      then show ?thesis using Suc.prems(1) r4 lt by (simp add: ret'_def)
    next
      case True
      let ?m = "min (target - (ret + 4)) 65535"
      have "unat (target - (ret + 4)) = unat target - (unat ret + 4)" using unat_sub [of "ret + 4" target] True r4 by simp
      then have m: "unat ?m = min (unat target - (unat ret + 4)) 65535"
        by (cases "target - (ret + 4) \<le> 65535") (simp_all add: min_def word_le_nat_alt)
      have x: "unat (ret + 4 + ?m) = unat ret + 4 + min (unat target - (unat ret + 4)) 65535"
        using r4 m lt assms(3) by (simp add: unat_word_ariths)
      have "unat (ret + 4 + ?m) < 2 ^ 32 - 4" using x lt assms(3) by (simp add: min_def split: if_splits)
      then have al: "unat ret' = align4 (unat ret + 4 + min (unat target - (unat ret + 4)) 65535)"
        using True x unat_XATTR_ALIGN by (simp add: ret'_def)
      have "align4 (unat ret + 4 + min (unat target - (unat ret + 4)) 65535) \<le> unat target"
        using assms(1) lt Suc.prems(1) by (auto simp: align4_def min_def elim!: dvdE)
      then show ?thesis using al align4_bounds(1,3) [of "unat ret + 4 + min (unat target - (unat ret + 4)) 65535"] by simp
    qed
    have "ibody_pad fuel target ret' = Inr (max ret' target)" using ret' Suc.prems(2) lt by (intro Suc.IH) linarith+
    moreover have "ibody_pad (Suc fuel) target ret = ibody_pad fuel target ret'" using True by (simp add: Let_def ret'_def)
    moreover have "max ret' target = target" "max ret target = target" using True ret' by (simp_all add: max_def word_le_nat_alt)
    ultimately show ?thesis by simp
  qed
qed simp

text \<open>
  The attributes of an inode in memory: live, well-formed items, whose references the counts cover, of a moderate total size; the size
  the inode had before, if any, is a multiple of four.
\<close>

definition attrs_ok :: "(nat \<Rightarrow> xattr_item) \<Rightarrow> xattr_state \<Rightarrow> inode_ea \<Rightarrow> bool" where
  "attrs_ok I st inode \<longleftrightarrow>
     holds I st (mset (i_xattrs inode)) \<and> (\<forall>a. a \<in> set (i_xattrs inode) \<longrightarrow> item_wf (I a)) \<and> i_xattrs inode \<noteq> [] \<and>
     4 dvd unat (xattr_isize (ea_inode inode)) \<and> unat (xattr_isize (ea_inode inode)) < 2 ^ 31 \<and>
     12 + body_size I (shared_part I 0 (i_xattrs inode)) (inline_part I 0 (i_xattrs inode)) < 2 ^ 31"

definition ibody_image :: "(nat \<Rightarrow> xattr_item) \<Rightarrow> u32 \<Rightarrow> nat list \<Rightarrow> bytes" where
  "ibody_image I filt as =
     hdr filt (length (shared_part I 0 as)) @ ids_of I (shared_part I 0 as) @ images_of I (rev (inline_part I 0 as))"

lemma parts_subset: "set (shared_part I n as) \<subseteq> set as" "set (inline_part I n as) \<subseteq> set as"
  using parts_mset [of I n as] by (metis UnCI set_mset_mset set_mset_union subsetI)+

lemma length_ibody_image:
  assumes "\<forall>a. a \<in> set as \<longrightarrow> item_wf (I a)"
  shows "length (ibody_image I f as) = 12 + body_size I (shared_part I 0 as) (inline_part I 0 as)"
proof -
  have "length (images_of I (rev (inline_part I 0 as))) = sum_list (map (\<lambda>a. item_size (I a)) (rev (inline_part I 0 as)))"
    using assms parts_subset(2) [of I 0 as] by (intro length_images_of) auto
  then show ?thesis by (simp add: ibody_image_def body_size_def rev_map [symmetric] sum_list_rev)
qed

lemma dvd_sum_list: "\<forall>a. a \<in> set as \<longrightarrow> (k :: nat) dvd g a \<Longrightarrow> k dvd sum_list (map g as)"
  by (induction as) auto

lemma prepare_steps:
  assumes ok: "attrs_ok I st inode"
  obtains r where "ibody_size st (i_xattrs inode) 0 12 = Inr r"
    "unat r = 12 + body_size I (shared_part I 0 (i_xattrs inode)) (inline_part I 0 (i_xattrs inode))"
    "ibody_pad (Suc (unat (xattr_isize (ea_inode inode)))) (xattr_isize (ea_inode inode)) r = Inr (max r (xattr_isize (ea_inode inode)))"
proof -
  let ?as = "i_xattrs inode" and ?t = "xattr_isize (ea_inode inode)"
  have o: "holds I st (mset ?as + {#})" "\<And>a. a \<in> set ?as \<Longrightarrow> item_wf (I a)" "?as \<noteq> []" "4 dvd unat ?t" "unat ?t < 2 ^ 31"
    "unat (12 :: u32) + body_size I (shared_part I 0 ?as) (inline_part I 0 ?as) < 2 ^ 31"
    using ok by (auto simp: attrs_ok_def)
  obtain r where r: "ibody_size st ?as 0 12 = Inr r" "unat r = 12 + body_size I (shared_part I 0 ?as) (inline_part I 0 ?as)"
    using ibody_size_value [OF o(1,2) _ o(6)] by auto
  have "\<forall>a. a \<in> set (inline_part I 0 ?as) \<longrightarrow> 4 dvd item_size (I a)"
    by (intro allI impI item_size_value(4) o(2)) (rule subsetD [OF parts_subset(2)])
  then have "4 dvd sum_list (map (\<lambda>a. item_size (I a)) (inline_part I 0 ?as))" by (rule dvd_sum_list)
  then have "4 dvd unat r" unfolding r(2) body_size_def by (intro dvd_add) simp_all
  then have "ibody_pad (Suc (unat ?t)) ?t r = Inr (max r ?t)" using o(4,5) by (intro ibody_pad_value) (simp_all del: ibody_pad.simps)
  then show thesis using that r by blast
qed

lemma prepare_ok:
  assumes ok: "attrs_ok I st inode"
  shows "\<exists>inode1. erofs_prepare_xattr_ibody inode False st = Inr inode1"
proof -
  obtain r where "ibody_size st (i_xattrs inode) 0 12 = Inr r"
    "ibody_pad (Suc (unat (xattr_isize (ea_inode inode)))) (xattr_isize (ea_inode inode)) r = Inr (max r (xattr_isize (ea_inode inode)))"
    by (rule prepare_steps [OF ok])
  moreover have "i_xattrs inode \<noteq> []" using ok by (simp add: attrs_ok_def)
  ultimately show ?thesis by (simp add: erofs_prepare_xattr_ibody_def Let_def del: ibody_pad.simps)
qed

lemma prepare_value:
  assumes ok: "attrs_ok I st inode" and p: "erofs_prepare_xattr_ibody inode noroom st = Inr inode1"
  shows "inode1 = inode\<lparr>ea_inode := (ea_inode inode)\<lparr>xattr_isize := xattr_isize (ea_inode inode1)\<rparr>\<rparr>"
    and "unat (xattr_isize (ea_inode inode1)) =
       max (12 + body_size I (shared_part I 0 (i_xattrs inode)) (inline_part I 0 (i_xattrs inode))) (unat (xattr_isize (ea_inode inode)))"
proof -
  let ?t = "xattr_isize (ea_inode inode)"
  obtain r where r: "ibody_size st (i_xattrs inode) 0 12 = Inr r" "unat r = 12 + body_size I (shared_part I 0 (i_xattrs inode)) (inline_part I 0 (i_xattrs inode))"
    "ibody_pad (Suc (unat ?t)) ?t r = Inr (max r ?t)"
    using prepare_steps [OF ok] by blast
  have "i_xattrs inode \<noteq> []" using ok by (simp add: attrs_ok_def)
  then have i1: "inode1 = inode\<lparr>ea_inode := (ea_inode inode)\<lparr>xattr_isize := max r ?t\<rparr>\<rparr>"
    using p r(1,3) by (simp add: erofs_prepare_xattr_ibody_def Let_def del: ibody_pad.simps split: if_splits)
  then show "inode1 = inode\<lparr>ea_inode := (ea_inode inode)\<lparr>xattr_isize := xattr_isize (ea_inode inode1)\<rparr>\<rparr>" by simp
  show "unat (xattr_isize (ea_inode inode1)) = max (12 + body_size I (shared_part I 0 (i_xattrs inode)) (inline_part I 0 (i_xattrs inode))) (unat ?t)"
    unfolding i1 using r(2) by (simp add: max_def word_le_nat_alt)
qed

lemma export_value:
  assumes ok: "attrs_ok I st inode" and p: "erofs_prepare_xattr_ibody inode noroom st = Inr inode1"
  shows "\<exists>f sbi' st'. erofs_export_xattr_ibody cfg sbi inode1 st =
     Inr (filled (ibody_image I f (i_xattrs inode)) (unat (xattr_isize (ea_inode inode1))), sbi', inode1\<lparr>i_xattrs := []\<rparr>, st')"
proof -
  define as where "as = i_xattrs inode"
  define size where "size = xattr_isize (ea_inode inode1)"
  let ?shs = "shared_part I 0 as" and ?ins = "inline_part I 0 as" and ?n = "unat size"
  have o: "holds I st (mset as + {#})" "\<And>a. a \<in> set as \<Longrightarrow> item_wf (I a)" "as \<noteq> []" "unat (xattr_isize (ea_inode inode)) < 2 ^ 31"
    "12 + body_size I ?shs ?ins < 2 ^ 31"
    using ok by (auto simp: attrs_ok_def as_def)
  note pv = prepare_value [OF ok p]
  have i1: "i_xattrs inode1 = as" using pv(1) by (metis as_def inode_ea.select_convs(2) inode_ea.surjective inode_ea.update_convs(1))
  have n: "12 + body_size I ?shs ?ins \<le> ?n" "?n < 2 ^ 31" using pv(2) o(4,5) by (simp_all add: as_def size_def)
  obtain g where "name_filter_loop st as 0 = Inr g" using name_filter_total [OF o(1), of as 0] o(2) by auto
  then obtain f where filt: "(if c_xattr_name_filter cfg then bindR (name_filter_loop st as 0) (\<lambda>f. Inr (NOT f)) else Inr 0) = Inr f"
    by (cases "c_xattr_name_filter cfg") simp_all
  have h0: "memput (replicate ?n 0) 0 (hdr f 0) = Inr (filled (hdr f 0 @ []) ?n)"
    using n by (simp add: memput_def)
  obtain st1 q where e1: "export_shared as (filled (hdr f 0 @ []) ?n) 12 0 [] st =
       Inr (filled (hdr f (0 + length ?shs) @ [] @ ids_of I ?shs) ?n, q, rev ?ins @ [], st1)"
    and q: "unat q = 12 + length ([] :: bytes) + 4 * length ?shs" and h1: "holds I st1 (mset ?ins + {#})"
    using export_shared_value [OF o(1), of 0 12 "[]" ?n f "[]"] n by (auto simp: body_size_def)
  let ?out = "hdr f (length ?shs) @ ids_of I ?shs"
  have h1': "holds I st1 (mset (rev ?ins) + {#})" using h1 by simp
  have sums: "sum_list (map (\<lambda>a. item_size (I a)) (rev ?ins)) = sum_list (map (\<lambda>a. item_size (I a)) ?ins)"
    by (simp add: rev_map [symmetric] sum_list_rev)
  have "\<exists>st' q'. export_inline (rev ?ins) (filled ?out ?n) q st1 = Inr (filled (?out @ images_of I (rev ?ins)) ?n, q', st') \<and>
     unat q' = length ?out + sum_list (map (\<lambda>a. item_size (I a)) (rev ?ins)) \<and> holds I st' {#}"
  proof (rule export_inline_value [OF h1'])
    show "item_wf (I a)" if "a \<in> set (rev ?ins)" for a using that o(2) parts_subset(2) [of I 0 as] by auto
    show "unat q = length ?out" using q by simp
    show "4 dvd length ?out" by (auto elim!: dvdE)
    show "length ?out + sum_list (map (\<lambda>a. item_size (I a)) (rev ?ins)) \<le> ?n" using n(1) by (simp add: sums body_size_def)
    show "?n < 2 ^ 31" by (rule n(2))
  qed
  then obtain st2 q2 where e2: "export_inline (rev ?ins) (filled ?out ?n) q st1 = Inr (filled (?out @ images_of I (rev ?ins)) ?n, q2, st2)"
    and "unat q2 = length ?out + sum_list (map (\<lambda>a. item_size (I a)) (rev ?ins))" by blast
  then have q2: "unat q2 = 12 + body_size I ?shs ?ins" by (simp add: sums body_size_def)
  let ?buf = "filled (ibody_image I f as) ?n"
  have buf: "filled (?out @ images_of I (rev ?ins)) ?n = ?buf" by (simp add: ibody_image_def)
  have len: "length (ibody_image I f as) = unat q2" using length_ibody_image o(2) q2 by simp
  have tail: "memput ?buf (unat q2) (replicate (unat (size - q2)) 0) = Inr ?buf" if "q2 < size"
  proof -
    have "unat (size - q2) = ?n - unat q2" using that by (simp add: unat_sub less_imp_le)
    then show ?thesis using that len by (simp add: memput_def word_less_nat_alt)
  qed
  have "\<not> size < q2" using n(1) q2 by (simp add: word_less_nat_alt)
  then have "\<exists>sbi'. erofs_export_xattr_ibody cfg sbi inode1 st = Inr (?buf, sbi', inode1\<lparr>i_xattrs := []\<rparr>, st2)"
    unfolding erofs_export_xattr_ibody_def Let_def size_def [symmetric] i1 filt bindR.simps hdr_def [of _ 0, simplified, symmetric] h0
    using e1 e2 tail by (simp only: bindR.simps prod.case append_Nil append_Nil2 add_0 buf) (auto simp: buf)
  then show ?thesis by (auto simp: as_def size_def)
qed


lemma export_length:
  assumes ok: "attrs_ok I st inode" and p: "erofs_prepare_xattr_ibody inode noroom st = Inr inode1"
    and x: "erofs_export_xattr_ibody cfg sbi inode1 st = Inr (buf, sbi', inode2, st2)"
  shows "length buf = unat (xattr_isize (ea_inode inode1))"
proof -
  have "\<forall>a. a \<in> set (i_xattrs inode) \<longrightarrow> item_wf (I a)" using ok by (simp add: attrs_ok_def)
  then show ?thesis using export_value [OF ok p, of cfg sbi] x length_ibody_image prepare_value(2) [OF ok p] by force
qed

section \<open>Reading the body back\<close>

definition names_ok :: "erofs_sb_info \<Rightarrow> xattr_item \<Rightarrow> bool" where
  "names_ok sbi it \<longleftrightarrow> full_name sbi (ucast (xi_prefix it)) (item_name it) = Some (item_key it)"

lemma body_ent:
  assumes wf: "item_wf it" and z: "zread (img sbi) q (length (item_body it)) = item_body it"
  shows "ent sbi q = entry_of_item it" "ent_name sbi q = item_name it" "ent_value sbi q = item_value it" "ent_size sbi q = item_size it"
proof -
  let ?e = "enc_xattr_entry (entry_of_item it)"
  note l = item_lengths [OF wf]
  have le: "length ?e = 4" by (rule xattr_entry.length_enc) simp
  have lb: "length (item_body it) = 4 + length (item_name it) + length (item_value it)" by (simp add: item_body_def le)
  have "zread (img sbi) q 4 = ?e" using zread_sub [of 0 4 "length (item_body it)" "img sbi" q] z lb le by (simp add: item_body_def)
  then show e: "ent sbi q = entry_of_item it" by (simp add: ent_def xattr_entry.dec_enc)
  have nl: "ent_nlen sbi q = length (item_name it)" unfolding e entry_of_item_def using l(3,4) by (simp add: unat_ucast_small)
  have vl: "ent_vlen sbi q = length (item_value it)" unfolding e entry_of_item_def using l(2,5) by (simp add: unat_ucast_small)
  show "ent_name sbi q = item_name it"
    unfolding nl using zread_sub [of 4 "length (item_name it)" "length (item_body it)" "img sbi" q] z lb le by (simp add: item_body_def)
  have "zread (img sbi) (q + (4 + length (item_name it))) (length (item_value it)) = item_value it"
    using zread_sub [of "4 + length (item_name it)" "length (item_value it)" "length (item_body it)" "img sbi" q] z lb le by (simp add: item_body_def)
  then show "ent_value sbi q = item_value it" unfolding nl vl by (simp add: add.assoc)
  show "ent_size sbi q = item_size it" unfolding ent_size_value nl vl item_size_value(1) [OF wf] ..
qed

lemma body_key: "item_wf it \<Longrightarrow> names_ok sbi it \<Longrightarrow> zread (img sbi) q (length (item_body it)) = item_body it \<Longrightarrow> ent_key sbi q = Some (item_key it)"
  using body_ent [of it sbi q] by (simp add: names_ok_def entry_of_item_def)

lemma full_name_list_name:
  assumes "ent_key sbi q = Some k"
  shows "list_name sbi q = k @ [0]"
proof -
  obtain b infx pre where b: "entry_base sbi (e_name_index (ent sbi q)) = Some (b, infx)" "unat b < length xattr_types"
    "xattr_types ! unat b = Some pre" "k = pre @ infx @ ent_name sbi q"
    using assms by (auto simp: full_name_def split: option.splits if_splits)
  have "b \<noteq> 0" using b(3) by (auto simp: xattr_types_def)
  then show ?thesis using b by (simp add: list_name_def)
qed

lemma zero_ent:
  assumes "zread (img sbi) q 4 = replicate 4 0"
  shows "ent_size sbi q = 4" "ent_key sbi q = None" "list_name sbi q = []"
proof -
  have e: "ent sbi q = \<lparr>e_name_len = 0, e_name_index = 0, e_value_size = 0\<rparr>"
    unfolding ent_def assms by (simp add: dec_xattr_entry_def field_def le_get.simps)
  show "ent_size sbi q = 4" by (simp add: ent_size_value e align4_def)
  show "ent_key sbi q = None" by (simp add: full_name_def entry_base_def e xattr_types_def)
  show "list_name sbi q = []" by (simp add: list_name_def entry_base_def e)
qed

fun places :: "(nat \<Rightarrow> xattr_item) \<Rightarrow> nat \<Rightarrow> nat list \<Rightarrow> nat list" where
  "places I p [] = []"
| "places I p (a # as) = p # places I (p + item_size (I a)) as"

definition pads :: "nat \<Rightarrow> nat \<Rightarrow> nat list" where
  "pads p m = map (\<lambda>k. p + 4 * k) [0..<m]"

lemma pads_Suc: "pads p (Suc m) = p # pads (p + 4) m"
  by (simp add: pads_def upt_conv_Cons map_Suc_upt [symmetric] comp_def add.assoc del: upt_Suc)

lemma ents_pads:
  "zread (img sbi) p (4 * m) = replicate (4 * m) 0 \<Longrightarrow>
     ents sbi p (pads p m) (4 * m) \<and> (\<forall>q \<in> set (pads p m). ent_key sbi q = None \<and> list_name sbi q = [])"
proof (induction m arbitrary: p)
  case 0
  then show ?case by (simp add: pads_def)
next
  case (Suc m)
  have "zread (img sbi) p 4 = replicate 4 0" using zread_sub [of 0 4 "4 * Suc m" "img sbi" p] Suc.prems by simp
  note z = zero_ent [OF this]
  have "zread (img sbi) (p + 4) (4 * m) = replicate (4 * m) 0" using zread_sub [of 4 "4 * m" "4 * Suc m" "img sbi" p] Suc.prems by simp
  then show ?case using Suc.IH z by (simp add: pads_Suc)
qed

lemma image_body:
  assumes wf: "item_wf it" and z: "zread (img sbi) p (item_size it) = item_image it"
  shows "zread (img sbi) p (length (item_body it)) = item_body it"
  using zread_sub [of 0 "length (item_body it)" "item_size it" "img sbi" p] item_size_value(2) [OF wf] z by (simp add: item_image_def)

lemma ents_places:
  assumes "\<And>a. a \<in> set as \<Longrightarrow> item_wf (I a) \<and> names_ok sbi (I a)" and "zread (img sbi) p (length (images_of I as)) = images_of I as"
    and "ents sbi (p + length (images_of I as)) qs m"
  shows "ents sbi p (places I p as @ qs) (length (images_of I as) + m) \<and>
     map (\<lambda>q. (ent_key sbi q, ent_value sbi q)) (places I p as) = map (\<lambda>a. (Some (item_key (I a)), item_value (I a))) as"
  using assms
proof (induction as arbitrary: p)
  case (Cons a as)
  have wf: "item_wf (I a)" and nm: "names_ok sbi (I a)" using Cons.prems(1) by auto
  let ?s = "item_size (I a)" and ?r = "length (images_of I as)"
  have l: "length (item_image (I a)) = ?s" by (rule item_size_value(3) [OF wf])
  have "zread (img sbi) p ?s = item_image (I a)" using zread_sub [of 0 ?s "?s + ?r" "img sbi" p] Cons.prems(2) l by simp
  note z = image_body [OF wf this]
  note e = body_ent [OF wf z] body_key [OF wf nm z]
  have "zread (img sbi) (p + ?s) ?r = images_of I as" using zread_sub [of ?s ?r "?s + ?r" "img sbi" p] Cons.prems(2) l by simp
  then have "ents sbi (p + ?s) (places I (p + ?s) as @ qs) (?r + m) \<and>
     map (\<lambda>q. (ent_key sbi q, ent_value sbi q)) (places I (p + ?s) as) = map (\<lambda>a. (Some (item_key (I a)), item_value (I a))) as"
    using Cons.prems(1,3) l by (intro Cons.IH) (simp_all add: add.assoc)
  then show ?case using e l by simp
qed simp

text \<open>The body on a device, and an inode that refers to it; and with the shared entries.\<close>

definition body_on_disk :: "erofs_sb_info \<Rightarrow> inode_ea \<Rightarrow> bytes \<Rightarrow> bool" where
  "body_on_disk sbi vi buf \<longleftrightarrow>
     (let v = ea_inode vi; pos = ibody_pos sbi v in
      xattr_dev sbi \<and> flags v AND EROFS_I_EA_INITED = 0 \<and> unat (xattr_isize v) = length buf \<and>
      pos + length buf < 2 ^ 64 \<and> 32 dvd pos \<and> addressable sbi (pos + length buf) \<and> zread (img sbi) pos (length buf) = buf)"

definition stored :: "(nat \<Rightarrow> xattr_item) \<Rightarrow> erofs_sb_info \<Rightarrow> inode_ea \<Rightarrow> nat list \<Rightarrow> bytes \<Rightarrow> bool" where
  "stored I sbi vi as buf \<longleftrightarrow>
     body_on_disk sbi vi buf \<and> prefixes_loaded sbi \<and> (\<forall>a. a \<in> set as \<longrightarrow> names_ok sbi (I a)) \<and>
     (\<forall>a. a \<in> set (shared_part I 0 as) \<longrightarrow>
        (let q = shared_pos sbi (shared_xattr_id (I a)) in
         zread (img sbi) q (length (item_body (I a))) = item_body (I a) \<and> addressable sbi (q + item_size (I a))))"

text \<open>The items in the order in which a reader meets them.\<close>

definition read_order :: "(nat \<Rightarrow> xattr_item) \<Rightarrow> nat list \<Rightarrow> nat list" where
  "read_order I as = rev (inline_part I 0 as) @ shared_part I 0 as"

lemma zread_ids:
  "zread (img sbi) p (length (ids_of I as)) = ids_of I as \<Longrightarrow>
     map (\<lambda>k. le_get (zread (img sbi) (p + 4 * k) 4)) [0..<length as] = map (\<lambda>a. shared_xattr_id (I a)) as"
proof (induction as arbitrary: p)
  case (Cons a as)
  have "zread (img sbi) p 4 = cpu_to_le32 (shared_xattr_id (I a))" using zread_sub [of 0 4 "4 + 4 * length as" "img sbi" p] Cons.prems by simp
  moreover have "zread (img sbi) (p + 4) (length (ids_of I as)) = ids_of I as"
    using zread_sub [of 4 "4 * length as" "4 + 4 * length as" "img sbi" p] Cons.prems by simp
  from Cons.IH [OF this] have "map (\<lambda>k. le_get (zread (img sbi) (p + 4 + 4 * k) 4)) [0..<length as] = map (\<lambda>a. shared_xattr_id (I a)) as" .
  ultimately show ?case
    by (simp add: upt_conv_Cons map_Suc_upt [symmetric] comp_def add.assoc del: upt_Suc)
qed simp


text \<open>Where the parts of the body are.\<close>

lemma stored_layout:
  assumes st: "stored I sbi vi as buf" and wf: "\<forall>a. a \<in> set as \<longrightarrow> item_wf (I a)"
    and buf: "buf = filled (ibody_image I f as) n" and len: "length (ibody_image I f as) \<le> n" and four: "4 dvd n - length (ibody_image I f as)"
    and pos: "pos = ibody_pos sbi (ea_inode vi)" and ps: "ps = places I (pos + 12 + 4 * length (shared_part I 0 as)) (rev (inline_part I 0 as)) @
        pads (pos + length (ibody_image I f as)) ((n - length (ibody_image I f as)) div 4)"
  shows "disk_shared_ids sbi pos = map (\<lambda>a. shared_xattr_id (I a)) (shared_part I 0 as)"
    and "ents sbi (pos + hdr_size sbi pos) ps (n - hdr_size sbi pos)"
    and "map (\<lambda>q. (ent_key sbi q, ent_value sbi q)) (places I (pos + 12 + 4 * length (shared_part I 0 as)) (rev (inline_part I 0 as))) =
       map (\<lambda>a. (Some (item_key (I a)), item_value (I a))) (rev (inline_part I 0 as))"
    and "\<forall>q \<in> set (pads (pos + length (ibody_image I f as)) ((n - length (ibody_image I f as)) div 4)). ent_key sbi q = None \<and> list_name sbi q = []"
proof -
  define shs ins where "shs = shared_part I 0 as" and "ins = inline_part I 0 as"
  let ?h = "hdr f (length shs)" and ?im = "ibody_image I f as" and ?x = "images_of I (rev ins)"
  have im: "?im = ?h @ ids_of I shs @ ?x" by (simp add: ibody_image_def shs_def ins_def)
  have lb: "length buf = n" using buf len by simp
  have z: "zread (img sbi) pos n = buf" using st lb by (simp add: stored_def body_on_disk_def Let_def pos)
  have part: "zread (img sbi) (pos + k) m = take m (drop k buf)" if "k + m \<le> n" for k m using zread_sub [OF that, of "img sbi" pos] z by simp
  have li: "length ?im = 12 + 4 * length shs + length ?x" by (simp add: im)
  have "zread (img sbi) (pos + 4) 1 = [of_nat (length shs)]" using part [of 4 1] len li by (simp add: buf im hdr_eq)
  moreover have "length shs < 256" using shared_part_length [of 0 I as] by (simp add: shs_def)
  ultimately have c: "unat (le_get (zread (img sbi) (pos + 4) 1) :: u8) = length shs" by (simp add: le_get.simps unat_of_nat)
  have "zread (img sbi) (pos + 12) (length (ids_of I shs)) = ids_of I shs" using part [of 12 "4 * length shs"] len li by (simp add: buf im)
  then show ids: "disk_shared_ids sbi pos = map (\<lambda>a. shared_xattr_id (I a)) (shared_part I 0 as)"
    unfolding disk_shared_ids_def c unfolding shs_def by (rule zread_ids)
  then have hs: "hdr_size sbi pos = 12 + 4 * length shs" by (simp add: shs_def)
  obtain m where m: "n - length ?im = 4 * m" using four by (auto elim!: dvdE)
  have "zread (img sbi) (pos + length ?im) (4 * m) = replicate (4 * m) 0" using part [of "length ?im" "4 * m"] len m by (simp add: buf)
  note pd = ents_pads [OF this]
  then show "\<forall>q \<in> set (pads (pos + length ?im) ((n - length ?im) div 4)). ent_key sbi q = None \<and> list_name sbi q = []" by (simp add: m)
  have x: "zread (img sbi) (pos + hdr_size sbi pos) (length ?x) = ?x" using part [of "hdr_size sbi pos" "length ?x"] len li by (simp add: buf im hs)
  have wn: "item_wf (I a) \<and> names_ok sbi (I a)" if "a \<in> set (rev ins)" for a
    using that wf st parts_subset(2) [of I 0 as] by (auto simp: stored_def body_on_disk_def Let_def ins_def)
  have pe: "pos + hdr_size sbi pos + length ?x = pos + length ?im" using li hs by simp
  have e: "ents sbi (pos + hdr_size sbi pos) (places I (pos + hdr_size sbi pos) (rev ins) @ pads (pos + length ?im) m) (length ?x + 4 * m) \<and>
     map (\<lambda>q. (ent_key sbi q, ent_value sbi q)) (places I (pos + hdr_size sbi pos) (rev ins)) = map (\<lambda>a. (Some (item_key (I a)), item_value (I a))) (rev ins)"
    by (rule ents_places [OF wn x]) (simp_all only: pe pd)
  have "n - hdr_size sbi pos = length ?x + 4 * m" using li hs m len by simp
  then show "ents sbi (pos + hdr_size sbi pos) ps (n - hdr_size sbi pos)"
    using e m hs by (simp add: ps shs_def ins_def add.assoc)
  show "map (\<lambda>q. (ent_key sbi q, ent_value sbi q)) (places I (pos + 12 + 4 * length (shared_part I 0 as)) (rev (inline_part I 0 as))) =
       map (\<lambda>a. (Some (item_key (I a)), item_value (I a))) (rev (inline_part I 0 as))"
    using e hs by (simp add: shs_def ins_def add.assoc)
qed

lemma shared_keys:
  assumes "stored I sbi vi as buf" and "\<forall>a. a \<in> set as \<longrightarrow> item_wf (I a)"
  shows "map (\<lambda>q. (ent_key sbi q, ent_value sbi q)) (map (shared_pos sbi) (map (\<lambda>a. shared_xattr_id (I a)) (shared_part I 0 as))) =
       map (\<lambda>a. (Some (item_key (I a)), item_value (I a))) (shared_part I 0 as)"
    and "shared_ok sbi (map (\<lambda>a. shared_xattr_id (I a)) (shared_part I 0 as))"
proof -
  have s: "ent_key sbi q = Some (item_key (I a)) \<and> ent_value sbi q = item_value (I a) \<and> addressable sbi (q + ent_size sbi q)"
    if "a \<in> set (shared_part I 0 as)" "q = shared_pos sbi (shared_xattr_id (I a))" for a q
  proof -
    have wf: "item_wf (I a)" and nm: "names_ok sbi (I a)"
      using that(1) assms parts_subset(1) [of I 0 as] by (auto simp: stored_def body_on_disk_def Let_def)
    have z: "zread (img sbi) q (length (item_body (I a))) = item_body (I a)" and "addressable sbi (q + item_size (I a))"
      using that assms(1) by (auto simp: stored_def body_on_disk_def Let_def)
    then show ?thesis using body_ent [OF wf z] body_key [OF wf nm z] by simp
  qed
  show "map (\<lambda>q. (ent_key sbi q, ent_value sbi q)) (map (shared_pos sbi) (map (\<lambda>a. shared_xattr_id (I a)) (shared_part I 0 as))) =
       map (\<lambda>a. (Some (item_key (I a)), item_value (I a))) (shared_part I 0 as)"
    unfolding map_map using s [OF _ refl] by (intro map_cong) (auto simp: comp_def)
  show "shared_ok sbi (map (\<lambda>a. shared_xattr_id (I a)) (shared_part I 0 as))"
    using s [OF _ refl] by (auto simp: shared_ok_def)
qed

lemma find_map_of:
  "map_option (ent_value sbi) (find (\<lambda>q. ent_key sbi q = Some name) qs) = map_of (map (\<lambda>q. (ent_key sbi q, ent_value sbi q)) qs) (Some name)"
  by (induction qs) auto

lemma names_of_keys:
  "map (\<lambda>q. (ent_key sbi q, ent_value sbi q)) qs = map (\<lambda>a. (Some (item_key (I a)), item_value (I a))) as \<Longrightarrow>
     names sbi qs = concat (map (\<lambda>a. item_key (I a) @ [0]) as)"
proof (induction qs arbitrary: as)
  case (Cons q qs)
  then obtain a as' where as: "as = a # as'" by (cases as) auto
  have "list_name sbi q = item_key (I a) @ [0]" using Cons.prems as by (intro full_name_list_name) simp
  then show ?case using Cons as by simp
qed simp

lemma map_of_Some: "map_of (map (\<lambda>a. (Some (k a), v a)) as) (Some x) = map_of (map (\<lambda>a. (k a, v a)) as) x"
  by (induction as) auto

lemma map_of_no_key: "(\<forall>q \<in> set qs. ent_key sbi q = None) \<Longrightarrow> map_of (map (\<lambda>q. (ent_key sbi q, ent_value sbi q)) qs) (Some x) = None"
  by (induction qs) auto

lemma exported_readable:
  assumes ok: "attrs_ok I st inode" and p: "erofs_prepare_xattr_ibody inode noroom st = Inr inode1"
    and x: "erofs_export_xattr_ibody cfg sbi0 inode1 st = Inr (buf, sbi1, inode2, st2)" and s: "stored I sbi vi (i_xattrs inode) buf"
  obtains ps where "ibody_ok sbi vi ps"
    "\<forall>k. map_option (ent_value sbi) (find (\<lambda>q. ent_key sbi q = Some k) (ps @ map (shared_pos sbi) (disk_shared_ids sbi (ibody_pos sbi (ea_inode vi))))) =
       map_of (map (\<lambda>a. (item_key (I a), item_value (I a))) (read_order I (i_xattrs inode))) k"
    "names sbi (ps @ map (shared_pos sbi) (disk_shared_ids sbi (ibody_pos sbi (ea_inode vi)))) =
       concat (map (\<lambda>a. item_key (I a) @ [0]) (read_order I (i_xattrs inode)))"
proof -
  define as n pos where "as = i_xattrs inode" and "n = unat (xattr_isize (ea_inode inode1))" and "pos = ibody_pos sbi (ea_inode vi)"
  obtain f where buf: "buf = filled (ibody_image I f as) n" using export_value [OF ok p, of cfg sbi0] x by (auto simp: as_def n_def)
  have wf: "\<forall>a. a \<in> set as \<longrightarrow> item_wf (I a)" and ne: "as \<noteq> []" and t4: "4 dvd unat (xattr_isize (ea_inode inode))"
    using ok by (auto simp: attrs_ok_def as_def)
  let ?im = "ibody_image I f as"
  have li: "length ?im = 12 + body_size I (shared_part I 0 as) (inline_part I 0 as)" by (rule length_ibody_image [OF wf])
  have nv: "n = max (length ?im) (unat (xattr_isize (ea_inode inode)))" using prepare_value(2) [OF ok p] li by (simp add: n_def as_def)
  then have len: "length ?im \<le> n" by simp
  have "4 dvd length ?im" unfolding li body_size_def
    using wf parts_subset(2) [of I 0 as] item_size_value(4) by (intro dvd_add dvd_sum_list) auto
  then have four: "4 dvd n - length ?im" using nv t4 by (auto simp: max_def)
  define ps0 pd where "ps0 = places I (pos + 12 + 4 * length (shared_part I 0 as)) (rev (inline_part I 0 as))"
    and "pd = pads (pos + length ?im) ((n - length ?im) div 4)"
  note lay = stored_layout [OF s [folded as_def] wf buf len four pos_def refl, folded ps0_def pd_def]
  note sk = shared_keys [OF s [folded as_def] wf]
  have lb: "length buf = n" using buf len by simp
  have hs: "hdr_size sbi pos = 12 + 4 * length (shared_part I 0 as)" using lay(1) by simp
  have "0 < body_size I (shared_part I 0 as) (inline_part I 0 as)"
  proof -
    obtain a where a: "a \<in> set as" using ne by (cases as) auto
    have "a \<in> set (shared_part I 0 as) \<or> a \<in> set (inline_part I 0 as)" using parts_mset [of I 0 as] a by (metis Un_iff set_mset_mset set_mset_union)
    then show ?thesis
    proof
      assume "a \<in> set (inline_part I 0 as)"
      then have "item_size (I a) \<le> sum_list (map (\<lambda>a. item_size (I a)) (inline_part I 0 as))" by (intro member_le_sum_list) auto
      then show ?thesis using item_size_value(6) [of "I a"] wf a by (simp add: body_size_def)
    qed (auto simp: body_size_def)
  qed
  moreover have "hdr_size sbi pos \<le> n" using len li hs by (simp add: body_size_def)
  moreover have "n < 2 ^ 31" using nv ok li by (simp add: attrs_ok_def as_def)
  ultimately have "ibody_ok sbi vi (ps0 @ pd)"
    using s lay sk(2) lb len li by (simp add: ibody_ok_def stored_def body_on_disk_def Let_def pos_def [symmetric] as_def [symmetric])
  moreover have "map_option (ent_value sbi) (find (\<lambda>q. ent_key sbi q = Some k) ((ps0 @ pd) @ map (shared_pos sbi) (disk_shared_ids sbi pos))) =
       map_of (map (\<lambda>a. (item_key (I a), item_value (I a))) (read_order I as)) k" for k
    unfolding find_map_of lay(1) map_append lay(3) sk(1) using lay(4) map_of_no_key [of pd sbi k]
    by (simp add: map_add_def read_order_def map_of_append map_of_Some rev_map split: option.split)
  moreover have "names sbi ((ps0 @ pd) @ map (shared_pos sbi) (disk_shared_ids sbi pos)) = concat (map (\<lambda>a. item_key (I a) @ [0]) (read_order I as))"
  proof -
    have "names sbi pd = []" using lay(4) by (induction pd) auto
    then show ?thesis using names_of_keys [OF lay(3)] names_of_keys [OF sk(1)] lay(1) by (simp add: read_order_def)
  qed
  ultimately show thesis using that by (simp add: as_def pos_def)
qed


section \<open>Properties\<close>

text \<open>
  C30. The size \<^verbatim>\<open>erofs_prepare_xattr_ibody\<close> announces is the size \<^verbatim>\<open>erofs_export_xattr_ibody\<close> fills: it never writes outside its
  buffer and never returns \<^verbatim>\<open>EFAULT\<close>, and the buffer holds the header, the shared ids and the inline entries, then zeroes.
\<close>

theorem xattr_export_fits:
  assumes "attrs_ok I st inode" and "erofs_prepare_xattr_ibody inode noroom st = Inr inode1"
  shows "\<exists>f k sbi' st'. erofs_export_xattr_ibody cfg sbi inode1 st =
       Inr (ibody_image I f (i_xattrs inode) @ replicate k 0, sbi', inode1\<lparr>i_xattrs := []\<rparr>, st') \<and>
     length (ibody_image I f (i_xattrs inode)) + k = unat (xattr_isize (ea_inode inode1))"
proof -
  have wf: "\<forall>a. a \<in> set (i_xattrs inode) \<longrightarrow> item_wf (I a)" using assms(1) by (simp add: attrs_ok_def)
  obtain f sbi' st' where e: "erofs_export_xattr_ibody cfg sbi inode1 st =
     Inr (filled (ibody_image I f (i_xattrs inode)) (unat (xattr_isize (ea_inode inode1))), sbi', inode1\<lparr>i_xattrs := []\<rparr>, st')"
    using export_value [OF assms] by blast
  have "length (ibody_image I f (i_xattrs inode)) \<le> unat (xattr_isize (ea_inode inode1))"
    using length_ibody_image [OF wf] prepare_value(2) [OF assms] by simp
  then show ?thesis using e by (intro exI [of _ f] exI [of _ "unat (xattr_isize (ea_inode inode1)) - length (ibody_image I f (i_xattrs inode))"]) auto
qed

text \<open>
  C29. What an inode's attribute list holds when it is exported is what the reader finds in the image, whatever blocks the
  entries cross and whether they are inline or shared: \<^verbatim>\<open>erofs_getxattr\<close> returns the value of the first item with the name, its
  length when there is no buffer and \<^verbatim>\<open>ERANGE\<close> when the buffer is too small, and \<^verbatim>\<open>ENODATA\<close> when there is none;
  \<^verbatim>\<open>erofs_listxattr\<close> returns all names, or their total length.
\<close>

theorem xattr_export_read:
  assumes "attrs_ok I st inode" and "erofs_prepare_xattr_ibody inode noroom st = Inr inode1"
    and "erofs_export_xattr_ibody cfg sbi0 inode1 st = Inr (buf, sbi1, inode2, st2)" and "stored I sbi vi (i_xattrs inode) buf"
    and "erofs_xattr_prefix_matches name = Some (bi, pl)" and "length name - pl \<le> 255" and "\<And>b. ubuf = Some b \<Longrightarrow> length b = unat sz"
    and out: "out = concat (map (\<lambda>a. item_key (I a) @ [0]) (read_order I (i_xattrs inode)))"
  shows "erofs_getxattr sbi vi (Some name) ubuf sz =
      (case map_of (map (\<lambda>a. (item_key (I a), item_value (I a))) (read_order I (i_xattrs inode))) name of
         None \<Rightarrow> Err ENODATA
       | Some v \<Rightarrow> (case ubuf of
            None \<Rightarrow> Inr (of_nat (length v), None, loaded sbi vi)
          | Some b \<Rightarrow> if unat sz < length v then Err ERANGE else Inr (of_nat (length v), Some (v @ drop (length v) b), loaded sbi vi))) \<and>
    erofs_listxattr sbi vi ubuf sz =
      (case ubuf of
         None \<Rightarrow> Inr (length out, None, loaded sbi vi)
       | Some b \<Rightarrow> if unat sz < length out then Err ERANGE else Inr (length out, Some (out @ drop (length out) b), loaded sbi vi))"
proof
  obtain ps where ok: "ibody_ok sbi vi ps"
    and g: "\<forall>k. map_option (ent_value sbi) (find (\<lambda>q. ent_key sbi q = Some k) (ps @ map (shared_pos sbi) (disk_shared_ids sbi (ibody_pos sbi (ea_inode vi))))) =
       map_of (map (\<lambda>a. (item_key (I a), item_value (I a))) (read_order I (i_xattrs inode))) k"
    and n: "names sbi (ps @ map (shared_pos sbi) (disk_shared_ids sbi (ibody_pos sbi (ea_inode vi)))) =
       concat (map (\<lambda>a. item_key (I a) @ [0]) (read_order I (i_xattrs inode)))"
    by (rule exported_readable [OF assms(1-4)])
  show "erofs_getxattr sbi vi (Some name) ubuf sz =
      (case map_of (map (\<lambda>a. (item_key (I a), item_value (I a))) (read_order I (i_xattrs inode))) name of
         None \<Rightarrow> Err ENODATA
       | Some v \<Rightarrow> (case ubuf of
            None \<Rightarrow> Inr (of_nat (length v), None, loaded sbi vi)
          | Some b \<Rightarrow> if unat sz < length v then Err ERANGE else Inr (of_nat (length v), Some (v @ drop (length v) b), loaded sbi vi)))"
    unfolding g [rule_format, symmetric] by (subst getxattr_finds [OF ok assms(5-7)]) (assumption, simp add: answer_def split: option.split)
  show "erofs_listxattr sbi vi ubuf sz =
      (case ubuf of
         None \<Rightarrow> Inr (length out, None, loaded sbi vi)
       | Some b \<Rightarrow> if unat sz < length out then Err ERANGE else Inr (length out, Some (out @ drop (length out) b), loaded sbi vi))"
    using listxattr_lists [OF ok assms(7) out [folded n]] by simp
qed


text \<open>A file with the attribute \<^verbatim>\<open>user.a\<close>.\<close>

definition demo_item :: xattr_item where
  "demo_item = \<lparr>kvbuf = [117, 115, 101, 114, 46, 97, 0, 118], xi_hash = (0, 0), xi_len = (6, 1), xi_count = 1, shared_xattr_id = -1,
     xi_prefix = 1, base_index = 1, prefix_len = 5\<rparr>"

definition demo_xst :: xattr_state where
  "demo_xst = xattr_state_init\<lparr>xs_heap := [0 \<mapsto> demo_item]\<rparr>"

definition demo_ea :: inode_ea where
  "demo_ea = \<lparr>ea_inode = (zero_inode 0)\<lparr>inode_isize := 32\<rparr>, i_xattrs = [0], xattr_shared_xattrs = [], ea_opaque = False, ea_whiteouts = False\<rparr>"

definition demo_xcfg :: xattr_cfg where
  "demo_xcfg = \<lparr>c_inline_xattr_tolerance = 2, c_xattr_name_filter = False, c_sehnd = None, c_mount_point = None, c_fullpath_prefix = 0\<rparr>"

lemma demo_item_parts:
  "item_wf demo_item" "item_size demo_item = 8" "item_key demo_item = [117, 115, 101, 114, 46, 97]" "item_value demo_item = [118]" "item_name demo_item = [97]"
proof -
  show nm: "item_key demo_item = [117, 115, 101, 114, 46, 97]" "item_value demo_item = [118]" "item_name demo_item = [97]"
    by (simp_all add: demo_item_def item_key_def item_value_def item_name_def)
  show wf: "item_wf demo_item" by (simp add: demo_item_def item_wf_def xattr_types_def literal_def)
  show "item_size demo_item = 8" using item_size_value(1) [OF wf] nm by (simp add: align4_def)
qed

lemma demo_parts: "shared_part (\<lambda>_. demo_item) 0 [0] = []" "inline_part (\<lambda>_. demo_item) 0 [0] = [0]"
  by (simp_all add: demo_item_def)

lemma demo_attrs_ok: "attrs_ok (\<lambda>_. demo_item) demo_xst demo_ea"
proof -
  have "holds (\<lambda>_. demo_item) demo_xst {#0#}" by (auto simp: holds_def demo_xst_def demo_item_def intro!: exI [of _ 1])
  then show ?thesis
    using demo_item_parts(1,2) demo_parts by (simp add: attrs_ok_def demo_ea_def zero_inode_def body_size_def)
qed

lemma demo_prepare:
  "erofs_prepare_xattr_ibody demo_ea False demo_xst = Inr (demo_ea\<lparr>ea_inode := (ea_inode demo_ea)\<lparr>xattr_isize := 20\<rparr>\<rparr>)"
  by (simp add: erofs_prepare_xattr_ibody_def demo_ea_def zero_inode_def demo_xst_def deref_def demo_item_def erofs_next_xattr_align_def
      EROFS_XATTR_ALIGN_def round_up_def)

theorem xattr_export_fits_witness:
  "\<exists>buf sbi' st'. erofs_export_xattr_ibody demo_xcfg (zero_sbi (plain_file [])) (demo_ea\<lparr>ea_inode := (ea_inode demo_ea)\<lparr>xattr_isize := 20\<rparr>\<rparr>) demo_xst =
     Inr (buf, sbi', demo_ea\<lparr>ea_inode := (ea_inode demo_ea)\<lparr>xattr_isize := 20\<rparr>, i_xattrs := []\<rparr>, st') \<and> length buf = 20"
  using xattr_export_fits [OF demo_attrs_ok demo_prepare, of demo_xcfg "zero_sbi (plain_file [])"] by auto

definition demo_ximg :: "bytes \<Rightarrow> erofs_sb_info" where
  "demo_ximg buf = (zero_sbi (plain_file (replicate 32 0 @ buf)))\<lparr>blkszbits := 12, islotbits := 5\<rparr>"

definition demo_vi :: inode_ea where
  "demo_vi = demo_ea\<lparr>ea_inode := (ea_inode demo_ea)\<lparr>xattr_isize := 20\<rparr>, i_xattrs := []\<rparr>"

lemma demo_stored:
  assumes "length buf = 20"
  shows "stored (\<lambda>_. demo_item) (demo_ximg buf) demo_vi [0] buf"
proof -
  have p: "ibody_pos (demo_ximg buf) (ea_inode demo_vi) = 32"
    by (simp add: ibody_pos_def erofs_iloc_def erofs_pos_def demo_ximg_def demo_vi_def demo_ea_def zero_inode_def zero_sbi_def)
  have "xattr_dev (demo_ximg buf)" by (simp add: xattr_dev_def demo_ximg_def valid_blkszbits_def)
  moreover have "prefixes_loaded (demo_ximg buf)" by (simp add: prefixes_loaded_def long_prefix_def demo_ximg_def zero_sbi_def)
  moreover have "names_ok (demo_ximg buf) demo_item"
    using demo_item_parts(3,5) by (simp add: names_ok_def full_name_def entry_base_def xattr_types_def literal_def demo_item_def)
  moreover have "zread (img (demo_ximg buf)) 32 (length buf) = buf" by (simp add: demo_ximg_def zread_def)
  ultimately show ?thesis
    using assms p demo_parts(1) by (simp add: stored_def body_on_disk_def Let_def demo_vi_def demo_ea_def zero_inode_def demo_ximg_def)
qed

theorem xattr_export_read_witness:
  "\<exists>sbi. erofs_getxattr sbi demo_vi (Some [117, 115, 101, 114, 46, 97]) (Some [0, 0]) 2 = Inr (1, Some [118, 0], loaded sbi demo_vi) \<and>
     erofs_listxattr sbi demo_vi (Some [9, 9]) 2 = Err ERANGE"
proof -
  obtain buf sbi' i' st' where e: "erofs_export_xattr_ibody demo_xcfg (zero_sbi (plain_file [])) (demo_ea\<lparr>ea_inode := (ea_inode demo_ea)\<lparr>xattr_isize := 20\<rparr>\<rparr>) demo_xst =
     Inr (buf, sbi', i', st')" and l: "length buf = 20"
    using export_value [OF demo_attrs_ok demo_prepare, of demo_xcfg "zero_sbi (plain_file [])"]
      length_ibody_image [of "[0]" "\<lambda>_. demo_item"] demo_item_parts(1,2) demo_parts
    by (auto simp: demo_ea_def body_size_def)
  have ord: "read_order (\<lambda>_. demo_item) [0] = [0]" using demo_parts by (simp add: read_order_def)
  have s: "stored (\<lambda>_. demo_item) (demo_ximg buf) demo_vi (i_xattrs demo_ea) buf" using demo_stored [OF l] by (simp add: demo_ea_def)
  have m: "erofs_xattr_prefix_matches [117, 115, 101, 114, 46, 97] = Some (1, 5)"
    by (simp add: erofs_xattr_prefix_matches_def xattr_types_def literal_def strncmp_eq_def)
  have lens: "length [117, 115, 101, 114, 46, 97 :: u8] - 5 \<le> 255" by simp
  have b: "length b = unat (2 :: u32)" if "Some [0, 0 :: u8] = Some b \<or> Some [9, 9] = Some b" for b using that by auto
  note x = xattr_export_read [OF demo_attrs_ok demo_prepare e s m lens _ refl]
  have "erofs_getxattr (demo_ximg buf) demo_vi (Some [117, 115, 101, 114, 46, 97]) (Some [0, 0]) 2 = Inr (1, Some [118, 0], loaded (demo_ximg buf) demo_vi)"
    using x [of "Some [0, 0]" 2] b demo_item_parts(3,4) ord by (simp add: demo_ea_def)
  moreover have "erofs_listxattr (demo_ximg buf) demo_vi (Some [9, 9]) 2 = Err ERANGE"
    using x [of "Some [9, 9]" 2] b demo_item_parts(3,4) ord by (simp add: demo_ea_def)
  ultimately show ?thesis by blast
qed
end
