(* ===== verification/Erofs_Xattr_Store.thy ===== *)
theory Erofs_Xattr_Store
  imports Erofs_Xattr_Roundtrip
begin

text \<open>
  The whole way of an attribute: \<^verbatim>\<open>erofs_setxattr\<close> builds items in the shared hash table, \<^verbatim>\<open>erofs_prepare_xattr_ibody\<close> sizes
  the inline body, \<^verbatim>\<open>erofs_export_xattr_ibody\<close> writes it and \<^verbatim>\<open>erofs_getxattr\<close> finds the value again.  The last section shows what
  \<^verbatim>\<open>erofs_removexattr\<close> leaves behind in the hash table.
\<close>

unbundle bit_operations_syntax

section \<open>Building items\<close>

lemma kvbuf_built:
  assumes "length key + 1 + length val < 2 ^ 32" and k: "k = of_nat (length key)" and v: "v = of_nat (length val)"
  shows "memput (replicate (unat (EROFS_XATTR_KVSIZE (k, v))) 0) 0 (key @ [0]) = Inr (key @ 0 # replicate (length val) 0)"
    and "memput (key @ 0 # replicate (length val) 0) (unat (k + 1)) val = Inr (key @ 0 # val)"
    and "unat k = length key" and "unat v = length val" and "unat (EROFS_XATTR_KVSIZE (k, v)) = length key + 1 + length val"
proof -
  show u: "unat k = length key" "unat v = length val" using assms by (simp_all add: unat_of_nat)
  show s: "unat (EROFS_XATTR_KVSIZE (k, v)) = length key + 1 + length val"
    using assms(1) u by (simp add: EROFS_XATTR_KVSIZE_def unat_word_ariths)
  show "memput (replicate (unat (EROFS_XATTR_KVSIZE (k, v))) 0) 0 (key @ [0]) = Inr (key @ 0 # replicate (length val) 0)"
    unfolding s by (simp add: memput_def)
  have "unat (k + 1) = length key + 1" using assms(1) u by (simp add: unat_word_ariths)
  then show "memput (key @ 0 # replicate (length val) 0) (unat (k + 1)) val = Inr (key @ 0 # val)"
    by (simp add: memput_def)
qed

definition kv_len :: "bytes \<Rightarrow> bytes \<Rightarrow> u32 \<times> u32" where
  "kv_len key val = (of_nat (length key), of_nat (length val))"

definition kv_hash :: "bytes \<Rightarrow> bytes \<Rightarrow> u32 \<times> u32" where
  "kv_hash key val = (BKDRHash key, BKDRHash val)"

abbreviation kv_bucket :: "bytes \<Rightarrow> bytes \<Rightarrow> u32" where
  "kv_bucket key val \<equiv> hash_32 (BKDRHash key XOR BKDRHash val) 16"

text \<open>The item \<^verbatim>\<open>get_xattritem\<close> makes for a new key and value.\<close>

definition new_item :: "ea_type_node list \<Rightarrow> bytes \<Rightarrow> bytes \<Rightarrow> nat \<Rightarrow> nat \<Rightarrow> xattr_item" where
  "new_item ts key val bi pl =
     (let (prefix, plen) = (case long_prefix_of ts (of_nat bi) key of
                              None \<Rightarrow> (of_nat bi, of_nat pl)
                            | Some t \<Rightarrow> (tn_index t, of_nat (length (tn_prefix t))))
      in \<lparr>kvbuf = key @ 0 # val, xi_hash = kv_hash key val, xi_len = kv_len key val, xi_count = 1, shared_xattr_id = -1,
          xi_prefix = prefix, base_index = of_nat bi, prefix_len = plen\<rparr>)"

lemma setxattr_value:
  assumes l: "length key + 1 + length val < 2 ^ 32" and z: "0 \<notin> set key"
  shows "erofs_setxattr cfg key val inode st =
     bindR (find_item st (ea_hashtable st (kv_bucket key val)) (key @ 0 # val) (kv_len key val) (kv_hash key val)) (\<lambda>found.
       case found of
         Some a \<Rightarrow> bindR (deref st a) (\<lambda>it.
           Inr (inode\<lparr>i_xattrs := a # i_xattrs inode\<rparr>, st\<lparr>xs_heap := (xs_heap st)(a := Some (it\<lparr>xi_count := xi_count it + 1\<rparr>))\<rparr>))
       | None \<Rightarrow>
           (case erofs_xattr_prefix_matches key of
              None \<Rightarrow> Err ENODATA
            | Some (bi, pl) \<Rightarrow>
                Inr (inode\<lparr>i_xattrs := xs_fresh st # i_xattrs inode\<rparr>,
                     st\<lparr>xs_heap := (xs_heap st)(xs_fresh st := Some (new_item (ea_name_prefixes st) key val bi pl)), xs_fresh := Suc (xs_fresh st),
                        ea_hashtable := (ea_hashtable st)(kv_bucket key val := xs_fresh st # ea_hashtable st (kv_bucket key val))\<rparr>)))"
proof -
  note b = kvbuf_built [OF l refl refl]
  have c: "c_str (key @ 0 # val) = key" by (rule c_str_append_zero [OF z])
  have s: "slice (key @ 0 # val) 0 (length key) = Inr key" "slice (key @ 0 # val) (length key + 1) (length val) = Inr val"
    by (simp_all add: slice_def)
  have set: "erofs_setxattr cfg key val inode st = bindR (get_xattritem (key @ 0 # val) (kv_len key val) st) (\<lambda>(a, st).
      Inr (inode\<lparr>i_xattrs := a # i_xattrs inode\<rparr>, st))"
    unfolding erofs_setxattr_def Let_def b(1) bindR.simps fst_conv b(2) kv_len_def
    by (simp add: erofs_xattr_add_def inode_xattr_add_def)
  have u: "unat (fst (kv_len key val)) = length key" "unat (snd (kv_len key val)) = length val" using b(3,4) by (simp_all add: kv_len_def)
  show ?thesis
    unfolding set get_xattritem_def u s bindR.simps Let_def fst_conv snd_conv kv_hash_def [symmetric] c
    by (cases "find_item st (ea_hashtable st (kv_bucket key val)) (key @ 0 # val) (kv_len key val) (kv_hash key val)")
      (auto simp: kv_hash_def bindR_assoc new_item_def split: option.split prod.split)
qed

section \<open>A freed item stays in the hash table\<close>

lemma removexattr_keeps_freed:
  "removexattr_loop key as st = Inr (l, st') \<Longrightarrow> xs_heap st a = None \<Longrightarrow> xs_heap st' a = None \<and> ea_hashtable st' = ea_hashtable st"
proof (induction key as st arbitrary: l st' rule: removexattr_loop.induct)
  case (2 key b as st)
  obtain it where it: "deref st b = Inr it" using "2.prems"(1) by auto
  then have ne: "b \<noteq> a" using "2.prems"(2) by (auto simp: deref_def)
  show ?case
  proof (cases "c_str (kvbuf it) = key")
    case False
    then show ?thesis using "2.IH"(2) [OF it False] "2.prems" it by auto
  next
    case True
    then obtain n st1 where p: "put_xattritem b st = Inr (n, st1)" and r: "removexattr_loop key as st1 = Inr (l, st')"
      using "2.prems"(1) it by auto
    have "xs_heap st1 a = None \<and> ea_hashtable st1 = ea_hashtable st" using p it ne "2.prems"(2) by (auto simp: put_xattritem_def Let_def split: if_splits)
    then show ?thesis using "2.IH"(1) [OF it True p _ r] by auto
  qed
qed simp

text \<open>
  C31. \<^verbatim>\<open>put_xattritem\<close> frees an item with its last reference but leaves it chained in \<^verbatim>\<open>ea_hashtable\<close>: once a new attribute has been
  set on an inode and removed from it, setting the same attribute anywhere reads freed memory.
\<close>

theorem removed_xattr_dangles:
  assumes l: "length key + 1 + length val < 2 ^ 32" and z: "0 \<notin> set key"
    and s: "erofs_setxattr cfg key val inode st = Inr (inode1, st1)" and new: "xs_fresh st1 \<noteq> xs_fresh st"
    and r: "erofs_removexattr key inode1 st1 = Inr (inode2, st2)"
  shows "erofs_setxattr cfg' key val inode' st2 = Inl OutOfBounds"
proof -
  let ?b = "kv_bucket key val" and ?a = "xs_fresh st"
  obtain f where f: "find_item st (ea_hashtable st ?b) (key @ 0 # val) (kv_len key val) (kv_hash key val) = Inr f"
    using s unfolding setxattr_value [OF l z] by auto
  have "f = None" using s new f unfolding setxattr_value [OF l z] by (auto split: option.splits)
  then obtain bi pl where st1: "st1 = st\<lparr>xs_heap := (xs_heap st)(?a := Some (new_item (ea_name_prefixes st) key val bi pl)), xs_fresh := Suc ?a,
                        ea_hashtable := (ea_hashtable st)(?b := ?a # ea_hashtable st ?b)\<rparr>" and i1: "i_xattrs inode1 = ?a # i_xattrs inode"
    using s f unfolding setxattr_value [OF l z] by (auto split: option.splits)
  have it: "c_str (kvbuf (new_item (ea_name_prefixes st) key val bi pl)) = key" "xi_count (new_item (ea_name_prefixes st) key val bi pl) = 1"
    by (simp_all add: new_item_def c_str_append_zero [OF z] split: prod.split)
  have "xs_heap st2 ?a = None \<and> ea_hashtable st2 = ea_hashtable st1"
    using r removexattr_keeps_freed [of key "i_xattrs inode" "st1\<lparr>xs_heap := (xs_heap st1)(?a := None)\<rparr>" _ st2 ?a]
    by (auto simp: erofs_removexattr_def i1 deref_def st1 it put_xattritem_def)
  then show ?thesis unfolding setxattr_value [OF l z] by (simp add: deref_def st1)
qed


section \<open>New items\<close>

text \<open>The long prefixes of the writer are those in the reader's superblock.\<close>

definition prefixes_match :: "erofs_sb_info \<Rightarrow> ea_type_node list \<Rightarrow> bool" where
  "prefixes_match sbi ts \<longleftrightarrow>
     length ts \<le> 128 \<and> unat (xattr_prefix_count sbi) = length ts \<and>
     xattr_prefixes sbi = Some (map (\<lambda>t. ucast (tn_base_index t) # drop (unat (tn_base_len t)) (tn_prefix t)) ts) \<and>
     (\<forall>k < length ts. tn_index (ts ! k) = 0x80 OR of_nat k \<and> 0 \<notin> set (tn_prefix (ts ! k)) \<and>
        (\<exists>bi bl. erofs_xattr_prefix_matches (tn_prefix (ts ! k)) = Some (bi, bl) \<and> tn_base_index (ts ! k) = of_nat bi \<and> tn_base_len (ts ! k) = of_nat bl))"

lemma long_index:
  assumes "k < 128"
  shows "unat (ucast (0x80 OR of_nat k :: u32) AND 0x7f :: u8) = k" "ucast (0x80 OR of_nat k :: u32) AND (0x80 :: u8) \<noteq> 0" "unat (0x80 OR of_nat k :: u32) < 256"
proof -
  have k: "unat (of_nat k :: u32) = k" using assms by (simp add: unat_of_nat)
  have "(0x80 :: u32) = push_bit 7 1" by simp
  then have u: "unat (0x80 OR of_nat k :: u32) = 128 + k" using unat_push_or [of "of_nat k :: u32" 7 1] assms k by simp
  then show "unat (0x80 OR of_nat k :: u32) < 256" using assms by simp
  then have c: "unat (ucast (0x80 OR of_nat k :: u32) :: u8) = 128 + k" using u by (simp add: unat_ucast_small)
  have m: "(0x7f :: u8) = mask 7" by (simp add: mask_eq_exp_minus_1)
  show "unat (ucast (0x80 OR of_nat k :: u32) AND 0x7f :: u8) = k"
    unfolding m take_bit_eq_mask [symmetric] by (simp only: unsigned_take_bit_eq c) (simp add: take_bit_eq_mod assms)
  have "bit (ucast (0x80 OR of_nat k :: u32) :: u8) 7" by (simp add: bit_ucast_iff bit_or_iff)
  then have "bit (ucast (0x80 OR of_nat k :: u32) AND (0x80 :: u8)) 7" by (simp add: bit_and_iff)
  then show "ucast (0x80 OR of_nat k :: u32) AND (0x80 :: u8) \<noteq> 0" by (metis bit_0_eq bot_apply bot_bool_def)
qed

lemma ucast_small_index: "n < 256 \<Longrightarrow> ucast (of_nat n :: u32) = (of_nat n :: u8)"
  by (simp add: word_unat_eq_iff unat_ucast_small unat_of_nat)

lemma prefixes_match_loaded: "prefixes_match sbi ts \<Longrightarrow> prefixes_loaded sbi"
  by (auto simp: prefixes_match_def prefixes_loaded_def long_prefix_def Let_def)

lemma prefix_matches_small:
  assumes "erofs_xattr_prefix_matches key = Some (bi, pl)"
  shows "bi < 7" "pl \<le> 24" "pl \<le> length key" "\<exists>pre. xattr_types ! bi = Some pre \<and> length pre = pl"
proof -
  obtain pre where pre: "bi < length xattr_types" "xattr_types ! bi = Some pre" "pl = length pre" "key = pre @ drop pl key"
    using prefix_matches_Some [OF assms] by blast
  then show "\<exists>pre. xattr_types ! bi = Some pre \<and> length pre = pl" by simp
  show "bi < 7" using pre(1) by (simp add: xattr_types_def)
  show "pl \<le> 24" by (rule xattr_types_cases [OF pre(1,2)]) (simp_all add: pre(3) literal_def)
  show "pl \<le> length key" using pre(3,4) by (metis length_append le_add1)
qed

lemma long_prefix_match:
  assumes m: "prefixes_match sbi ts" and t: "long_prefix_of ts (of_nat bi) key = Some t" and k: "erofs_xattr_prefix_matches key = Some (bi, pl)"
  obtains i where "tn_index t = 0x80 OR of_nat i" "i < 128" "full_name sbi (ucast (tn_index t)) (drop (length (tn_prefix t)) key) = Some key"
    "length (tn_prefix t) \<le> length key" "pl \<le> length (tn_prefix t)"
proof -
  have f: "t \<in> set ts \<and> of_nat bi = tn_base_index t \<and> strncmp_eq (tn_prefix t) key (length (tn_prefix t))"
    using t unfolding long_prefix_of_def find_Some_iff by auto
  then obtain i where i: "i < length ts" "ts ! i = t" by (auto simp: in_set_conv_nth)
  obtain bi' bl where b: "tn_index t = 0x80 OR of_nat i" "0 \<notin> set (tn_prefix t)" "erofs_xattr_prefix_matches (tn_prefix t) = Some (bi', bl)"
    "tn_base_index t = of_nat bi'" "tn_base_len t = of_nat bl"
    using m i by (auto simp: prefixes_match_def)
  have key: "take (length (tn_prefix t)) key = tn_prefix t" using f strncmp_eq_prefix [OF b(2)] by simp
  then have le: "length (tn_prefix t) \<le> length key" by (metis length_take min.cobounded1)
  obtain pre where pre: "bi < length xattr_types" "xattr_types ! bi = Some pre" "pl = length pre" "key = pre @ drop pl key"
    using prefix_matches_Some [OF k] by blast
  obtain pre' where pre': "bi' < length xattr_types" "xattr_types ! bi' = Some pre'" "bl = length pre'" "tn_prefix t = pre' @ drop bl (tn_prefix t)"
    using prefix_matches_Some [OF b(3)] by blast
  have "key = pre' @ drop bl (tn_prefix t) @ drop (length (tn_prefix t)) key" using key pre'(4) by (metis append.assoc append_take_drop_id)
  then have eq: "bi' = bi" "pre' = pre" using xattr_types_unique [OF pre'(1,2) pre(1,2), of "drop bl (tn_prefix t) @ drop (length (tn_prefix t)) key" "drop pl key"]
      pre(2,4) pre'(2) by simp_all
  have i128: "i < 128" using i(1) m by (simp add: prefixes_match_def)
  note small = prefix_matches_small [OF k]
  have "long_prefix sbi (ucast (tn_index t)) = Inr (Some (of_nat bi, drop (length pre) (tn_prefix t)))"
  proof -
    have "ucast (of_nat bi :: u32) = (of_nat bi :: u8)" using small(1) by (intro ucast_small_index) simp
    moreover have "unat (of_nat (length pre) :: u32) = length pre" using small(2) pre(3) by (simp add: unat_of_nat)
    ultimately show ?thesis
      using m i b(4,5) eq pre'(3) long_index(1) [OF i128] by (simp add: long_prefix_def Let_def b(1) prefixes_match_def)
  qed
  then have "entry_base sbi (ucast (tn_index t)) = Some (of_nat bi, drop (length pre) (tn_prefix t))"
    using long_index(2) [OF i128] by (simp add: entry_base_def b(1))
  moreover have "unat (of_nat bi :: u8) = bi" using small(1) by (simp add: unat_of_nat)
  moreover have "pre @ drop (length pre) (tn_prefix t) @ drop (length (tn_prefix t)) key = key"
    using key pre' eq by (metis append.assoc append_take_drop_id)
  ultimately have "full_name sbi (ucast (tn_index t)) (drop (length (tn_prefix t)) key) = Some key"
    using pre(1,2) by (simp add: full_name_def)
  moreover have "pl \<le> length (tn_prefix t)" using pre'(4) eq pre(3) by (metis length_append le_add1)
  ultimately show thesis using that [of i] b(1) i128 le by blast
qed

definition good :: "erofs_sb_info \<Rightarrow> xattr_item \<Rightarrow> bool" where
  "good sbi it \<longleftrightarrow> item_wf it \<and> names_ok sbi it \<and> shared_xattr_id it = -1 \<and> kvbuf it = item_key it @ 0 # item_value it"

definition attr_ok :: "bytes \<Rightarrow> bytes \<Rightarrow> bool" where
  "attr_ok key val \<longleftrightarrow>
     0 \<notin> set key \<and> (\<exists>bi pl. erofs_xattr_prefix_matches key = Some (bi, pl) \<and> length key - pl \<le> 255) \<and> length val < 65536"

lemma new_item_good:
  assumes m: "prefixes_match sbi ts" and a: "attr_ok key val" and k: "erofs_xattr_prefix_matches key = Some (bi, pl)"
  shows "good sbi (new_item ts key val bi pl)" "item_key (new_item ts key val bi pl) = key" "item_value (new_item ts key val bi pl) = val"
    "xi_count (new_item ts key val bi pl) = 1"
proof -
  let ?it = "new_item ts key val bi pl"
  note sm = prefix_matches_small [OF k]
  have l: "length key - pl \<le> 255" "length val < 65536" using a k by (auto simp: attr_ok_def)
  then have lk: "length key < 300" using sm(2) by simp
  have f: "kvbuf ?it = key @ 0 # val" "xi_len ?it = kv_len key val" "shared_xattr_id ?it = -1" "base_index ?it = of_nat bi" "xi_count ?it = 1"
    by (simp_all add: new_item_def split: prod.split)
  then show "xi_count ?it = 1" by simp
  have u: "unat (fst (kv_len key val)) = length key" "unat (snd (kv_len key val)) = length val" using lk l by (simp_all add: kv_len_def unat_of_nat)
  show ik: "item_key ?it = key" "item_value ?it = val" using f u by (simp_all add: item_key_def item_value_def)
  have p: "unat (prefix_len ?it) \<le> length key \<and> pl \<le> unat (prefix_len ?it) \<and> unat (xi_prefix ?it) < 256 \<and> names_ok sbi ?it"
  proof (cases "long_prefix_of ts (of_nat bi) key")
    case None
    have "unat (of_nat pl :: u32) = pl" "unat (of_nat bi :: u32) = bi" using sm by (simp_all add: unat_of_nat)
    moreover have pi: "prefix_len ?it = of_nat pl" "xi_prefix ?it = of_nat bi" using None by (simp_all add: new_item_def)
    moreover have "full_name sbi (of_nat bi) (drop pl key) = Some key"
    proof -
      have "unat (of_nat bi :: u8) = bi" using sm(1) by (simp add: unat_of_nat)
      moreover have "(of_nat bi :: u8) AND 0x80 = 0"
      proof -
        have "bi \<in> {0, 1, 2, 3, 4, 5, 6}" using sm(1) by auto
        then show ?thesis by auto
      qed
      ultimately show ?thesis
        unfolding full_name_match [OF k] by (auto simp: entry_base_def)
    qed
    ultimately show ?thesis using sm ik ucast_small_index [of bi] by (simp add: names_ok_def item_name_def)
  next
    case (Some t)
    obtain i where i: "tn_index t = 0x80 OR of_nat i" "i < 128" "full_name sbi (ucast (tn_index t)) (drop (length (tn_prefix t)) key) = Some key"
      "length (tn_prefix t) \<le> length key" "pl \<le> length (tn_prefix t)"
      using long_prefix_match [OF m Some k] by blast
    have pi: "prefix_len ?it = of_nat (length (tn_prefix t))" "xi_prefix ?it = tn_index t" using Some by (simp_all add: new_item_def)
    have "unat (of_nat (length (tn_prefix t)) :: u32) = length (tn_prefix t)" using i(4) lk by (simp add: unat_of_nat)
    then show ?thesis using i pi ik long_index(3) [OF i(2)] by (simp add: names_ok_def item_name_def)
  qed
  have "unat (of_nat bi :: u32) = bi" using sm(1) by (simp add: unat_of_nat)
  then have "item_wf ?it"
    using p f u l sm by (auto simp: item_wf_def xattr_types_def)
  then show "good sbi ?it" using p f ik by (simp add: good_def)
qed


section \<open>Setting attributes\<close>

text \<open>
  The store while attributes of one inode are set: every chained item is live and good, and the attribute list refers to the
  items of the attributes set so far, the latest first.
\<close>

definition heap_item :: "xattr_state \<Rightarrow> nat \<Rightarrow> xattr_item" where
  "heap_item st a = the (xs_heap st a)"

abbreviation attrs_of :: "xattr_state \<Rightarrow> nat list \<Rightarrow> (bytes \<times> bytes) list" where
  "attrs_of st as \<equiv> map (\<lambda>a. (item_key (heap_item st a), item_value (heap_item st a))) as"

definition store_inv :: "erofs_sb_info \<Rightarrow> xattr_state \<Rightarrow> nat list \<Rightarrow> bool" where
  "store_inv sbi st as \<longleftrightarrow>
     prefixes_match sbi (ea_name_prefixes st) \<and>
     (\<forall>hk a. a \<in> set (ea_hashtable st hk) \<longrightarrow> xs_heap st a \<noteq> None) \<and>
     (\<forall>a it. xs_heap st a = Some it \<longrightarrow> a < xs_fresh st \<and> good sbi it \<and> unat (xi_count it) \<le> length as) \<and>
     (\<forall>a. a \<in> set as \<longrightarrow> (\<exists>it. xs_heap st a = Some it \<and> count_list as a \<le> unat (xi_count it)))"

lemma store_invD:
  assumes "store_inv sbi st as"
  shows "prefixes_match sbi (ea_name_prefixes st)" "a \<in> set (ea_hashtable st hk) \<Longrightarrow> xs_heap st a \<noteq> None"
    "xs_heap st a = Some it \<Longrightarrow> a < xs_fresh st" "xs_heap st a = Some it \<Longrightarrow> good sbi it" "xs_heap st a = Some it \<Longrightarrow> unat (xi_count it) \<le> length as"
    "a \<in> set as \<Longrightarrow> \<exists>it. xs_heap st a = Some it \<and> count_list as a \<le> unat (xi_count it)"
  using assms by (auto simp: store_inv_def)

lemma find_item_live:
  assumes "\<And>a. a \<in> set as \<Longrightarrow> xs_heap st a \<noteq> None"
  shows "find_item st as kv len hash = Inr None \<or>
     (\<exists>a it. find_item st as kv len hash = Inr (Some a) \<and> a \<in> set as \<and> xs_heap st a = Some it \<and> xi_len it = len \<and>
        take (unat (EROFS_XATTR_KVSIZE len)) kv = take (unat (EROFS_XATTR_KVSIZE len)) (kvbuf it))"
  using assms
proof (induction as)
  case (Cons a as)
  then obtain it where "deref st a = Inr it" "xs_heap st a = Some it" by (fastforce simp: deref_def)
  then show ?case using Cons by auto
qed simp

lemma found_same:
  assumes g: "good sbi it" and len: "xi_len it = kv_len key val" and l: "length key + 1 + length val < 2 ^ 32"
    and t: "take (unat (EROFS_XATTR_KVSIZE (kv_len key val))) (key @ 0 # val) = take (unat (EROFS_XATTR_KVSIZE (kv_len key val))) (kvbuf it)"
  shows "item_key it = key" "item_value it = val"
proof -
  note b = kvbuf_built [OF l refl refl]
  have n: "unat (EROFS_XATTR_KVSIZE (kv_len key val)) = length key + 1 + length val" using b(5) by (simp add: kv_len_def)
  have "length (kvbuf it) = unat (fst (xi_len it)) + 1 + unat (snd (xi_len it))" using g unfolding good_def item_wf_def by blast
  then have "length (kvbuf it) = length key + 1 + length val" using len b(3,4) by (simp add: kv_len_def)
  then have "kvbuf it = key @ 0 # val" using t n by simp
  then show "item_key it = key" "item_value it = val" using len b(3,4) by (simp_all add: item_key_def item_value_def kv_len_def)
qed

lemma set_new:
  assumes inv: "store_inv sbi st as" and a: "attr_ok key val" and k: "erofs_xattr_prefix_matches key = Some (bi, pl)"
    and st': "st' = st\<lparr>xs_heap := (xs_heap st)(xs_fresh st := Some (new_item (ea_name_prefixes st) key val bi pl)), xs_fresh := Suc (xs_fresh st),
                        ea_hashtable := (ea_hashtable st)(h := xs_fresh st # ea_hashtable st h)\<rparr>"
  shows "store_inv sbi st' (xs_fresh st # as) \<and> attrs_of st' (xs_fresh st # as) = (key, val) # attrs_of st as"
proof -
  note n = new_item_good [OF store_invD(1) [OF inv] a k]
  have free: "xs_heap st (xs_fresh st) = None" using store_invD(3) [OF inv, of "xs_fresh st"] by (cases "xs_heap st (xs_fresh st)") auto
  then have ni: "xs_fresh st \<notin> set as" using store_invD(6) [OF inv] by force
  have "store_inv sbi st' (xs_fresh st # as)"
    unfolding store_inv_def st'
  proof (intro conjI allI impI)
    fix b it assume "xs_heap (st\<lparr>xs_heap := (xs_heap st)(xs_fresh st := Some (new_item (ea_name_prefixes st) key val bi pl)), xs_fresh := Suc (xs_fresh st),
                        ea_hashtable := (ea_hashtable st)(h := xs_fresh st # ea_hashtable st h)\<rparr>) b = Some it"
    then have "b = xs_fresh st \<and> it = new_item (ea_name_prefixes st) key val bi pl \<or> xs_heap st b = Some it" by (auto split: if_splits)
    then show "b < xs_fresh (st\<lparr>xs_heap := (xs_heap st)(xs_fresh st := Some (new_item (ea_name_prefixes st) key val bi pl)), xs_fresh := Suc (xs_fresh st),
                        ea_hashtable := (ea_hashtable st)(h := xs_fresh st # ea_hashtable st h)\<rparr>)" "good sbi it" "unat (xi_count it) \<le> length (xs_fresh st # as)"
      using n store_invD(3-5) [OF inv, of b it] by (auto simp: le_SucI)
  next
    fix b assume b: "b \<in> set (xs_fresh st # as)"
    show "\<exists>it. xs_heap (st\<lparr>xs_heap := (xs_heap st)(xs_fresh st := Some (new_item (ea_name_prefixes st) key val bi pl)), xs_fresh := Suc (xs_fresh st),
                        ea_hashtable := (ea_hashtable st)(h := xs_fresh st # ea_hashtable st h)\<rparr>) b = Some it \<and> count_list (xs_fresh st # as) b \<le> unat (xi_count it)"
      using b store_invD(6) [OF inv, of b] ni n(4) by (auto simp: count_list_0_iff)
  qed (use store_invD(1,2) [OF inv] in \<open>auto split: if_splits\<close>)
  moreover have "attrs_of st' as = attrs_of st as" using ni by (auto simp: heap_item_def st')
  ultimately show ?thesis using n by (simp add: heap_item_def st')
qed

lemma set_found:
  assumes inv: "store_inv sbi st as" and a: "xs_heap st a = Some it" and kv: "item_key it = key" "item_value it = val" and n: "length as < 2 ^ 31"
    and st': "st' = st\<lparr>xs_heap := (xs_heap st)(a := Some (it\<lparr>xi_count := xi_count it + 1\<rparr>))\<rparr>"
  shows "store_inv sbi st' (a # as) \<and> attrs_of st' (a # as) = (key, val) # attrs_of st as"
proof -
  have c: "unat (xi_count it + 1) = unat (xi_count it) + 1" using store_invD(5) [OF inv a] n by (simp add: unat_word_ariths)
  have g: "good sbi (it\<lparr>xi_count := xi_count it + 1\<rparr>)" using store_invD(4) [OF inv a] by (simp add: good_def names_ok_def item_name_def)
  have "store_inv sbi st' (a # as)"
    unfolding store_inv_def st'
  proof (intro conjI allI impI)
    fix b jt assume "xs_heap (st\<lparr>xs_heap := (xs_heap st)(a := Some (it\<lparr>xi_count := xi_count it + 1\<rparr>))\<rparr>) b = Some jt"
    then have "b = a \<and> jt = it\<lparr>xi_count := xi_count it + 1\<rparr> \<or> xs_heap st b = Some jt" by (auto split: if_splits)
    then show "b < xs_fresh (st\<lparr>xs_heap := (xs_heap st)(a := Some (it\<lparr>xi_count := xi_count it + 1\<rparr>))\<rparr>)" "good sbi jt" "unat (xi_count jt) \<le> length (a # as)"
      using g c store_invD(3-5) [OF inv, of b jt] store_invD(3-5) [OF inv a] by (auto simp: le_SucI)
  next
    fix b assume "b \<in> set (a # as)"
    then show "\<exists>jt. xs_heap (st\<lparr>xs_heap := (xs_heap st)(a := Some (it\<lparr>xi_count := xi_count it + 1\<rparr>))\<rparr>) b = Some jt \<and> count_list (a # as) b \<le> unat (xi_count jt)"
      using store_invD(6) [OF inv, of b] a c by (cases "a \<in> set as") (auto simp: count_list_0_iff)
  qed (use store_invD(1,2) [OF inv] a in auto)
  moreover have "attrs_of st' as = attrs_of st as" using a by (auto simp: heap_item_def st')
  ultimately show ?thesis using kv by (simp add: heap_item_def st')
qed

lemma setxattr_adds:
  assumes inv: "store_inv sbi st (i_xattrs inode)" and a: "attr_ok key val" and n: "length (i_xattrs inode) < 2 ^ 31"
  obtains b st' where "erofs_setxattr cfg key val inode st = Inr (inode\<lparr>i_xattrs := b # i_xattrs inode\<rparr>, st')"
    "store_inv sbi st' (b # i_xattrs inode)" "attrs_of st' (b # i_xattrs inode) = (key, val) # attrs_of st (i_xattrs inode)"
proof -
  let ?h = "kv_bucket key val"
  obtain bi pl where k: "erofs_xattr_prefix_matches key = Some (bi, pl)" "length key - pl \<le> 255" using a by (auto simp: attr_ok_def)
  have z: "0 \<notin> set key" and "length val < 65536" using a by (auto simp: attr_ok_def)
  then have l: "length key + 1 + length val < 2 ^ 32" using prefix_matches_small(2) [OF k(1)] k(2) by simp
  note sv = setxattr_value [OF l z, of cfg inode st]
  consider "find_item st (ea_hashtable st ?h) (key @ 0 # val) (kv_len key val) (kv_hash key val) = Inr None"
    | c it where "find_item st (ea_hashtable st ?h) (key @ 0 # val) (kv_len key val) (kv_hash key val) = Inr (Some c)" "xs_heap st c = Some it"
        "xi_len it = kv_len key val"
        "take (unat (EROFS_XATTR_KVSIZE (kv_len key val))) (key @ 0 # val) = take (unat (EROFS_XATTR_KVSIZE (kv_len key val))) (kvbuf it)"
    using find_item_live [of "ea_hashtable st ?h" st "key @ 0 # val" "kv_len key val" "kv_hash key val"] store_invD(2) [OF inv] by metis
  then show thesis
  proof cases
    case 1
    then show ?thesis using that [of "xs_fresh st"] set_new [OF inv a k(1) refl, of ?h] sv k(1) by simp
  next
    case 2
    have kv: "item_key it = key" "item_value it = val" using found_same [OF store_invD(4) [OF inv 2(2)] 2(3) l 2(4)] .
    show ?thesis using that [of c] set_found [OF inv 2(2) kv n refl] sv 2(1,2) by (simp add: deref_def)
  qed
qed

fun set_all :: "xattr_cfg \<Rightarrow> (bytes \<times> bytes) list \<Rightarrow> inode_ea \<Rightarrow> xattr_state \<Rightarrow> (inode_ea \<times> xattr_state) result" where
  "set_all cfg [] inode st = Inr (inode, st)"
| "set_all cfg ((key, val) # kvs) inode st = bindR (erofs_setxattr cfg key val inode st) (\<lambda>(inode, st). set_all cfg kvs inode st)"

lemma set_all_adds:
  assumes "store_inv sbi st (i_xattrs inode)" and "\<forall>(k, v) \<in> set kvs. attr_ok k v" and "length (i_xattrs inode) + length kvs < 2 ^ 31"
  shows "\<exists>inode' st'. set_all cfg kvs inode st = Inr (inode', st') \<and> store_inv sbi st' (i_xattrs inode') \<and>
     attrs_of st' (i_xattrs inode') = rev kvs @ attrs_of st (i_xattrs inode) \<and> ea_inode inode' = ea_inode inode"
  using assms
proof (induction kvs arbitrary: inode st)
  case (Cons kv kvs)
  obtain k v where kv: "kv = (k, v)" by force
  obtain b st1 where s: "erofs_setxattr cfg k v inode st = Inr (inode\<lparr>i_xattrs := b # i_xattrs inode\<rparr>, st1)"
    "store_inv sbi st1 (b # i_xattrs inode)" "attrs_of st1 (b # i_xattrs inode) = (k, v) # attrs_of st (i_xattrs inode)"
    using setxattr_adds [OF Cons.prems(1), of k v cfg] Cons.prems(2,3) kv by auto
  have "\<exists>inode' st'. set_all cfg kvs (inode\<lparr>i_xattrs := b # i_xattrs inode\<rparr>) st1 = Inr (inode', st') \<and> store_inv sbi st' (i_xattrs inode') \<and>
     attrs_of st' (i_xattrs inode') = rev kvs @ attrs_of st1 (b # i_xattrs inode) \<and> ea_inode inode' = ea_inode inode"
    using Cons.IH [of st1 "inode\<lparr>i_xattrs := b # i_xattrs inode\<rparr>"] s(2) Cons.prems(2,3) by auto
  then show ?case using s kv by auto
qed simp


lemma inline_all: "(\<forall>a. a \<in> set as \<longrightarrow> shared_xattr_id (I a) = -1) \<Longrightarrow> inline_part I n as = as \<and> shared_part I n as = []"
  by (induction as) auto

lemma store_attrs_ok:
  assumes inv: "store_inv sbi st (i_xattrs inode)" and ne: "i_xattrs inode \<noteq> []" and n: "length (i_xattrs inode) \<le> 30000"
    and z: "xattr_isize (ea_inode inode) = 0"
  shows "attrs_ok (heap_item st) st inode"
    and "read_order (heap_item st) (i_xattrs inode) = rev (i_xattrs inode)" and "shared_part (heap_item st) 0 (i_xattrs inode) = []"
    and "\<forall>a. a \<in> set (i_xattrs inode) \<longrightarrow> names_ok sbi (heap_item st a)"
proof -
  let ?as = "i_xattrs inode"
  have g: "good sbi (heap_item st a)" if "a \<in> set ?as" for a
    using store_invD(6) [OF inv that] store_invD(4) [OF inv] by (auto simp: heap_item_def)
  have parts: "inline_part (heap_item st) 0 ?as = ?as" "shared_part (heap_item st) 0 ?as = []"
    using inline_all [of ?as "heap_item st" 0] g by (auto simp: good_def)
  have wf: "\<forall>a. a \<in> set ?as \<longrightarrow> item_wf (heap_item st a)" using g by (simp add: good_def)
  have "sum_list (map (\<lambda>a. item_size (heap_item st a)) ?as) \<le> sum_list (map (\<lambda>a. 65800) ?as)"
    using wf item_size_value(5) by (intro sum_list_mono) (simp add: less_imp_le)
  then have s: "12 + body_size (heap_item st) [] ?as < 2 ^ 31" using n by (simp add: body_size_def sum_list_triv)
  have "holds (heap_item st) st (mset ?as)"
    unfolding holds_def using store_invD(6) [OF inv] by (force simp: heap_item_def count_mset)
  then show "attrs_ok (heap_item st) st inode" using wf ne z s parts by (simp add: attrs_ok_def)
  show "read_order (heap_item st) ?as = rev ?as" "shared_part (heap_item st) 0 ?as = []" using parts by (simp_all add: read_order_def)
  show "\<forall>a. a \<in> set ?as \<longrightarrow> names_ok sbi (heap_item st a)" using g by (simp add: good_def)
qed

lemma xattr_set_read_on:
  assumes kvs: "kvs \<noteq> []" "\<forall>(k, v) \<in> set kvs. attr_ok k v" "length kvs \<le> 30000" and pm: "prefixes_match sbi ts"
    and i: "i_xattrs inode = []" "xattr_isize (ea_inode inode) = 0"
    and st: "st = xattr_state_init\<lparr>ea_name_prefixes := ts, ea_prefix_count := of_nat (length ts)\<rparr>"
  shows "\<exists>inode1 st1 inode2 buf sbi2 inode3 st3.
     set_all cfg kvs inode st = Inr (inode1, st1) \<and> erofs_prepare_xattr_ibody inode1 False st1 = Inr inode2 \<and>
     erofs_export_xattr_ibody cfg sbi1 inode2 st1 = Inr (buf, sbi2, inode3, st3) \<and> length buf = unat (xattr_isize (ea_inode inode2)) \<and>
     (\<forall>vi name bi pl. body_on_disk sbi vi buf \<longrightarrow> erofs_xattr_prefix_matches name = Some (bi, pl) \<longrightarrow> length name - pl \<le> 255 \<longrightarrow>
        (case map_of kvs name of
           None \<Rightarrow> erofs_getxattr sbi vi (Some name) None 0 = Err ENODATA
         | Some v \<Rightarrow> erofs_getxattr sbi vi (Some name) (Some (replicate (length v) 0)) (of_nat (length v)) =
                       Inr (of_nat (length v), Some v, loaded sbi vi)))"
proof -
  have inv0: "store_inv sbi st (i_xattrs inode)" using pm i(1) by (simp add: store_inv_def st xattr_state_init_def)
  have "length (i_xattrs inode) + length kvs < 2 ^ 31" using kvs(3) i(1) by simp
  then obtain inode1 st1 where s: "set_all cfg kvs inode st = Inr (inode1, st1)" and inv: "store_inv sbi st1 (i_xattrs inode1)"
    and at: "attrs_of st1 (i_xattrs inode1) = rev kvs @ attrs_of st (i_xattrs inode)" and e: "ea_inode inode1 = ea_inode inode"
    using set_all_adds [OF inv0 kvs(2)] by blast
  have len: "length (i_xattrs inode1) = length kvs" using arg_cong [OF at, of length] i(1) by simp
  then have ne: "i_xattrs inode1 \<noteq> []" using kvs(1) by auto
  note ok = store_attrs_ok [OF inv ne _ i(2) [folded e]]
  have ok1: "attrs_ok (heap_item st1) st1 inode1" using ok(1) len kvs(3) by simp
  obtain inode2 where p: "erofs_prepare_xattr_ibody inode1 False st1 = Inr inode2" using prepare_ok [OF ok1] by blast
  obtain buf sbi2 inode3 st3 where x: "erofs_export_xattr_ibody cfg sbi1 inode2 st1 = Inr (buf, sbi2, inode3, st3)"
    and lb: "length buf = unat (xattr_isize (ea_inode inode2))"
    using export_value [OF ok1 p, of cfg sbi1] export_length [OF ok1 p, of cfg sbi1] by blast
  have "attrs_of st1 (rev (i_xattrs inode1)) = kvs" using arg_cong [OF at, of rev] i(1) by (simp add: rev_map [symmetric])
  then have kv: "attrs_of st1 (read_order (heap_item st1) (i_xattrs inode1)) = kvs" using ok(2) len kvs(3) by simp
  have "case map_of kvs name of
           None \<Rightarrow> erofs_getxattr sbi vi (Some name) None 0 = Err ENODATA
         | Some v \<Rightarrow> erofs_getxattr sbi vi (Some name) (Some (replicate (length v) 0)) (of_nat (length v)) =
                       Inr (of_nat (length v), Some v, loaded sbi vi)"
    if d: "body_on_disk sbi vi buf" and m: "erofs_xattr_prefix_matches name = Some (bi, pl)" "length name - pl \<le> 255" for vi name bi pl
  proof -
    have "stored (heap_item st1) sbi vi (i_xattrs inode1) buf"
      using d ok(3,4) len kvs(3) prefixes_match_loaded [OF pm] by (simp add: stored_def)
    then obtain ps where ib: "ibody_ok sbi vi ps"
      and g: "\<forall>k. map_option (ent_value sbi) (find (\<lambda>q. ent_key sbi q = Some k) (ps @ map (shared_pos sbi) (disk_shared_ids sbi (ibody_pos sbi (ea_inode vi))))) =
         map_of kvs k"
      by (rule exported_readable [OF ok1 p x _, unfolded kv])
    note gf = getxattr_finds [OF ib m]
    show ?thesis
    proof (cases "map_of kvs name")
      case None
      then show ?thesis using gf [of None 0] g [rule_format, of name] by simp
    next
      case (Some v)
      have "unat (of_nat (length v) :: u32) = length v" using map_of_SomeD [OF Some] kvs(2) by (auto simp: attr_ok_def unat_of_nat)
      then show ?thesis using gf [of "Some (replicate (length v) 0)" "of_nat (length v)"] g [rule_format, of name] Some by (auto simp: answer_def)
    qed
  qed
  then show ?thesis using s p x lb by blast
qed

text \<open>
  C28. Attributes set on an inode are read back from the image: setting, sizing and exporting succeed, and once the exported body is on
  the device behind the inode, \<^verbatim>\<open>erofs_getxattr\<close> returns the value that was set first for a name, and \<^verbatim>\<open>ENODATA\<close> for every
  name that was not set.  Names may use the long prefixes the superblock announces.
\<close>

theorem xattr_set_read:
  assumes "kvs \<noteq> []" "\<forall>(k, v) \<in> set kvs. attr_ok k v" "length kvs \<le> 30000" and "prefixes_match sbi0 ts"
    and "i_xattrs inode = []" "xattr_isize (ea_inode inode) = 0"
    and "st = xattr_state_init\<lparr>ea_name_prefixes := ts, ea_prefix_count := of_nat (length ts)\<rparr>"
  shows "\<exists>inode1 st1 inode2 buf sbi2 inode3 st3.
     set_all cfg kvs inode st = Inr (inode1, st1) \<and> erofs_prepare_xattr_ibody inode1 False st1 = Inr inode2 \<and>
     erofs_export_xattr_ibody cfg sbi1 inode2 st1 = Inr (buf, sbi2, inode3, st3) \<and> length buf = unat (xattr_isize (ea_inode inode2)) \<and>
     (\<forall>sbi vi name bi pl. prefixes_match sbi ts \<longrightarrow> body_on_disk sbi vi buf \<longrightarrow>
        erofs_xattr_prefix_matches name = Some (bi, pl) \<longrightarrow> length name - pl \<le> 255 \<longrightarrow>
        (case map_of kvs name of
           None \<Rightarrow> erofs_getxattr sbi vi (Some name) None 0 = Err ENODATA
         | Some v \<Rightarrow> erofs_getxattr sbi vi (Some name) (Some (replicate (length v) 0)) (of_nat (length v)) =
                       Inr (of_nat (length v), Some v, loaded sbi vi)))"
proof -
  obtain inode1 st1 inode2 buf sbi2 inode3 st3 where s: "set_all cfg kvs inode st = Inr (inode1, st1)"
    and p: "erofs_prepare_xattr_ibody inode1 False st1 = Inr inode2" and x: "erofs_export_xattr_ibody cfg sbi1 inode2 st1 = Inr (buf, sbi2, inode3, st3)"
    and l: "length buf = unat (xattr_isize (ea_inode inode2))"
    using xattr_set_read_on [OF assms(1-4,5-7), of cfg sbi1] by blast
  have "\<forall>vi name bi pl. body_on_disk sbi vi buf \<longrightarrow> erofs_xattr_prefix_matches name = Some (bi, pl) \<longrightarrow> length name - pl \<le> 255 \<longrightarrow>
        (case map_of kvs name of
           None \<Rightarrow> erofs_getxattr sbi vi (Some name) None 0 = Err ENODATA
         | Some v \<Rightarrow> erofs_getxattr sbi vi (Some name) (Some (replicate (length v) 0)) (of_nat (length v)) =
                       Inr (of_nat (length v), Some v, loaded sbi vi))" if pm: "prefixes_match sbi ts" for sbi
  proof -
    obtain i1 s1 i2 b b2 i3 s3 where e: "set_all cfg kvs inode st = Inr (i1, s1)" "erofs_prepare_xattr_ibody i1 False s1 = Inr i2"
        "erofs_export_xattr_ibody cfg sbi1 i2 s1 = Inr (b, b2, i3, s3)"
      and r: "\<forall>vi name bi pl. body_on_disk sbi vi b \<longrightarrow> erofs_xattr_prefix_matches name = Some (bi, pl) \<longrightarrow> length name - pl \<le> 255 \<longrightarrow>
        (case map_of kvs name of
           None \<Rightarrow> erofs_getxattr sbi vi (Some name) None 0 = Err ENODATA
         | Some v \<Rightarrow> erofs_getxattr sbi vi (Some name) (Some (replicate (length v) 0)) (of_nat (length v)) =
                       Inr (of_nat (length v), Some v, loaded sbi vi))"
      using xattr_set_read_on [OF assms(1-3) pm assms(5-7), of cfg sbi1] by blast
    have i1: "i1 = inode1" "s1 = st1" using e(1) s by simp_all
    then have "i2 = inode2" using e(2) p by simp
    then have "b = buf" using e(3) x i1 by simp
    then show ?thesis using r by (simp only:)
  qed
  then show ?thesis using s p x l by blast
qed

theorem xattr_set_read_witness:
  "\<exists>sbi vi. erofs_getxattr sbi vi (Some [117, 115, 101, 114, 46, 97]) (Some [0]) 1 = Inr (1, Some [118], loaded sbi vi)"
proof -
  let ?key = "[117, 115, 101, 114, 46, 97] :: bytes" and ?inode = "demo_ea\<lparr>i_xattrs := []\<rparr>"
  have m: "erofs_xattr_prefix_matches ?key = Some (1, 5)"
    by (simp add: erofs_xattr_prefix_matches_def xattr_types_def literal_def strncmp_eq_def)
  have pm: "prefixes_match (demo_ximg b\<lparr>xattr_prefixes := Some []\<rparr>) []" for b
    by (simp add: prefixes_match_def demo_ximg_def zero_sbi_def)
  have kv: "\<forall>(k, v) \<in> set [(?key, [118])]. attr_ok k v" using m by (simp add: attr_ok_def)
  have i: "i_xattrs ?inode = []" "xattr_isize (ea_inode ?inode) = 0" by (simp_all add: demo_ea_def zero_inode_def)
  have len: "length [(?key, [118 :: u8])] \<le> 30000" and ne: "[(?key, [118 :: u8])] \<noteq> []" by simp_all
  obtain inode2 :: inode_ea and buf where l: "length buf = unat (xattr_isize (ea_inode inode2))"
    and r: "\<forall>sbi vi name bi pl. prefixes_match sbi [] \<longrightarrow> body_on_disk sbi vi buf \<longrightarrow>
        erofs_xattr_prefix_matches name = Some (bi, pl) \<longrightarrow> length name - pl \<le> 255 \<longrightarrow>
        (case map_of [(?key, [118])] name of
           None \<Rightarrow> erofs_getxattr sbi vi (Some name) None 0 = Err ENODATA
         | Some v \<Rightarrow> erofs_getxattr sbi vi (Some name) (Some (replicate (length v) 0)) (of_nat (length v)) =
                       Inr (of_nat (length v), Some v, loaded sbi vi))"
    using xattr_set_read [OF ne kv len pm i refl, of demo_xcfg "zero_sbi (plain_file [])"] by blast
  let ?sbi = "demo_ximg buf\<lparr>xattr_prefixes := Some []\<rparr>"
  let ?vi = "demo_ea\<lparr>ea_inode := (ea_inode demo_ea)\<lparr>xattr_isize := xattr_isize (ea_inode inode2)\<rparr>\<rparr>"
  have lb: "length buf < 2 ^ 32" using l unsigned_less [of "xattr_isize (ea_inode inode2)", where ?'a = nat] by simp
  have "ibody_pos ?sbi (ea_inode ?vi) = 32"
    by (simp add: ibody_pos_def erofs_iloc_def erofs_pos_def demo_ximg_def demo_ea_def zero_inode_def zero_sbi_def)
  moreover have "xattr_dev ?sbi" by (simp add: xattr_dev_def demo_ximg_def valid_blkszbits_def)
  moreover have "zread (img ?sbi) 32 (length buf) = buf" by (simp add: demo_ximg_def zread_def)
  ultimately have "body_on_disk ?sbi ?vi buf" using l lb by (simp add: body_on_disk_def Let_def demo_ea_def zero_inode_def demo_ximg_def)
  then show ?thesis using r pm m by (intro exI [of _ ?sbi] exI [of _ ?vi]) fastforce
qed

theorem removed_xattr_dangles_witness:
  "\<exists>inode1 st1 inode2 st2. erofs_set_opaque_xattr demo_xcfg demo_ea xattr_state_init = Inr (inode1, st1) \<and>
     erofs_clear_opaque_xattr (inode1\<lparr>i_xattrs := [0]\<rparr>) st1 = Inr (inode2, st2) \<and> erofs_set_opaque_xattr demo_xcfg inode2 st2 = Inl OutOfBounds"
proof -
  let ?key = "OVL_XATTR_OPAQUE" and ?val = "literal ''y''" and ?st = "xattr_state_init" and ?inode = "demo_ea\<lparr>i_xattrs := []\<rparr>"
  have l: "length ?key + 1 + length ?val < 2 ^ 32" and z: "0 \<notin> set ?key" by (simp_all add: OVL_XATTR_OPAQUE_def literal_def)
  have m: "erofs_xattr_prefix_matches ?key = Some (4, 8)"
    by (simp add: erofs_xattr_prefix_matches_def xattr_types_def literal_def strncmp_eq_def OVL_XATTR_OPAQUE_def)
  obtain st1 where s: "erofs_setxattr demo_xcfg ?key ?val inode ?st = Inr (inode\<lparr>i_xattrs := 0 # i_xattrs inode\<rparr>, st1)"
    and st1: "xs_fresh st1 = 1" "xs_heap st1 0 = Some (new_item [] ?key ?val 4 8)" for inode
    unfolding setxattr_value [OF l z] using m by (simp add: xattr_state_init_def)
  have it: "c_str (kvbuf (new_item [] ?key ?val 4 8)) = ?key" "xi_count (new_item [] ?key ?val 4 8) = 1"
    by (simp_all add: new_item_def c_str_append_zero [OF z] split: prod.split)
  obtain inode2 st2 where r: "erofs_removexattr ?key (?inode\<lparr>i_xattrs := [0]\<rparr>) st1 = Inr (inode2, st2)"
    using st1 it by (simp add: erofs_removexattr_def deref_def put_xattritem_def)
  have "erofs_setxattr demo_xcfg ?key ?val inode2 st2 = Inl OutOfBounds"
    using s [of ?inode] st1(1) r by (intro removed_xattr_dangles [OF l z, of demo_xcfg ?inode ?st "?inode\<lparr>i_xattrs := [0]\<rparr>" st1])
      (simp_all add: xattr_state_init_def)
  then show ?thesis
    using s [of demo_ea] r by (simp add: erofs_set_opaque_xattr_def erofs_clear_opaque_xattr_def)
qed

end
