(* ===== verification/Erofs_Blob.thy ===== *)
theory Erofs_Blob
  imports Erofs_Data Erofs_Cache Erofs_Hashmap Erofs_Dedupe
begin

text \<open>
  \<^verbatim>\<open>lib/blobchunk.c\<close>: files stored in chunks.  Equal chunks are found by their SHA-256 in a hash map and stored once in a
  blob file, which is copied into the image or is a device of its own; an inode keeps one index per chunk.  Chunks are
  objects on a heap, named by their addresses, because the writer compares pointers and the index array holds them.
\<close>

unbundle bit_operations_syntax

section \<open>Chunks\<close>

text \<open>\<^verbatim>\<open>chunksize\<close> and \<^verbatim>\<open>sourceoffset\<close> share their storage, here \<^verbatim>\<open>chunksize\<close>.\<close>

record erofs_blobchunk =
  bc_sha256 :: bytes
  bc_device_id :: u32
  chunksize :: u64
  bc_blkaddr :: u32

text \<open>
  The static variables of the file, and \<^verbatim>\<open>saved_by_deduplication\<close> of the superblock.  An entry of the hash map is the chunk at the
  same address; what the map compares, the digest, is the data of the entry.  The blob file is only appended to.
\<close>

record blob_state =
  blob_hashmap :: "(bytes, bytes option) hashmap"
  blobfile :: "bytes option"
  bl_heap :: "nat \<Rightarrow> erofs_blobchunk option"
  bl_fresh :: nat
  remapped_base :: u32
  datablob_size :: u64
  multidev :: bool
  bh_devt :: "nat option"
  unhashed_blobchunks :: "nat list"
  saved_by_deduplication :: u64

text \<open>Addresses: 0 is that of a key on the stack, 1 that of \<^verbatim>\<open>erofs_holechunk\<close>, the heap begins behind them.\<close>

abbreviation (input) holechunk :: nat where "holechunk \<equiv> 1"

definition erofs_holechunk :: erofs_blobchunk where
  "erofs_holechunk = \<lparr>bc_sha256 = replicate 32 0, bc_device_id = 0, chunksize = 0, bc_blkaddr = EROFS_NULL_ADDR\<rparr>"

definition chunk_at :: "blob_state \<Rightarrow> nat \<Rightarrow> erofs_blobchunk result" where
  "chunk_at bs a =
     (if a = holechunk then Inr erofs_holechunk
      else case bl_heap bs a of None \<Rightarrow> Inl OutOfBounds | Some c \<Rightarrow> Inr c)"

definition erofs_get_unhashed_chunk :: "u32 \<Rightarrow> u32 \<Rightarrow> u64 \<Rightarrow> blob_state \<Rightarrow> nat \<times> blob_state" where
  "erofs_get_unhashed_chunk device_id blkaddr sourceoffset bs =
     (let a = bl_fresh bs; c = \<lparr>bc_sha256 = replicate 32 0, bc_device_id = device_id, chunksize = sourceoffset, bc_blkaddr = blkaddr\<rparr>
      in (a, bs\<lparr>bl_heap := (bl_heap bs)(a := Some c), bl_fresh := Suc a, unhashed_blobchunks := unhashed_blobchunks bs @ [a]\<rparr>))"

definition erofs_blob_hashmap_cmp :: "bytes hashmap_entry \<Rightarrow> bytes hashmap_entry \<Rightarrow> bytes option \<Rightarrow> bool" where
  "erofs_blob_hashmap_cmp a b key \<longleftrightarrow> he_data a \<noteq> (case key of Some k \<Rightarrow> k | None \<Rightarrow> he_data b)"

text \<open>
  \<^verbatim>\<open>erofs_blob_getchunk\<close>.  \<^verbatim>\<open>werr\<close> says at which positions \<^verbatim>\<open>fwrite\<close> to the blob file fails; the chunk is padded to a block.
\<close>

definition erofs_blob_getchunk :: "(nat \<Rightarrow> bool) \<Rightarrow> erofs_sb_info \<Rightarrow> bytes \<Rightarrow> blob_state \<Rightarrow> (nat \<times> blob_state) result" where
  "erofs_blob_getchunk werr sbi buf bs =
     (let sha = sha256_of buf; hash = memhash sha; size = of_nat (length buf) in
      case hashmap_get (blob_hashmap bs) \<lparr>he_id = 0, he_hash = hash, he_data = []\<rparr> (Some sha) of
        Some e \<Rightarrow>
          bindR (chunk_at bs (he_id e)) (\<lambda>chunk.
            let bs = bs\<lparr>saved_by_deduplication := saved_by_deduplication bs + size\<rparr> in
            Inr (if bc_blkaddr chunk = bc_blkaddr erofs_holechunk then holechunk else he_id e, bs))
      | None \<Rightarrow>
          case blobfile bs of
            None \<Rightarrow> Inl OutOfBounds
          | Some f \<Rightarrow>
              let blkpos = of_nat (length f) :: u64;
                  chunk = \<lparr>bc_sha256 = sha, bc_device_id = (if extra_devices sbi \<noteq> 0 then 1 else 0), chunksize = size,
                           bc_blkaddr = ucast (erofs_blknr sbi blkpos)\<rparr>;
                  padding = unat (erofs_blkoff sbi size);
                  pad = (if padding = 0 then [] else replicate (unat (erofs_blksiz sbi) - padding) 0);
                  a = bl_fresh bs
              in if werr (length f) \<or> buf = [] \<or> pad \<noteq> [] \<and> werr (length f + length buf) then Err ENOSPC
                 else Inr (a, bs\<lparr>blobfile := Some (f @ buf @ pad), bl_heap := (bl_heap bs)(a := Some chunk), bl_fresh := Suc a,
                                 blob_hashmap := hashmap_add \<lparr>he_id = a, he_hash = hash, he_data = sha\<rparr> (blob_hashmap bs)\<rparr>))"

section \<open>The indexes of an inode\<close>

text \<open>
  \<^verbatim>\<open>chunkindexes\<close> is one array of bytes.  It holds pointers of \<^verbatim>\<open>psz\<close> bytes until \<^verbatim>\<open>erofs_blob_write_chunk_indexes\<close> replaces them, in
  place, by the indexes on disk.
\<close>

definition ptr_store :: "nat \<Rightarrow> bytes \<Rightarrow> nat \<Rightarrow> nat \<Rightarrow> bytes result" where
  "ptr_store psz buf i a = memput buf (psz * i) (le_put psz (of_nat a :: u64))"

definition ptr_load :: "nat \<Rightarrow> bytes \<Rightarrow> nat \<Rightarrow> nat result" where
  "ptr_load psz buf i = bindR (slice buf (psz * i) psz) (\<lambda>s. Inr (unat (le_get s :: u64)))"

text \<open>
  The writers of files store pointers by \<^verbatim>\<open>*(void **)idx++\<close>, where \<^verbatim>\<open>idx\<close> points to indexes of 8 bytes, so the pointers lie
  8 bytes apart whatever their size; everything else takes them as an array of \<^verbatim>\<open>void *\<close>.
\<close>

definition idx_store :: "nat \<Rightarrow> bytes \<Rightarrow> nat \<Rightarrow> nat \<Rightarrow> bytes result" where
  "idx_store psz buf i a = memput buf (8 * i) (le_put psz (of_nat a :: u64))"

lemma idx_store_8 [simp]: "idx_store 8 buf i a = ptr_store 8 buf i a"
  by (simp only: idx_store_def ptr_store_def)

text \<open>
  The loop also collects the extents of equal chunks in a row, which go to the block list files: start, number of
  blocks and offset in the source.
\<close>

record extent_run =
  er_start :: u32
  er_end :: u32
  er_source :: u64
  er_remaining :: u32
  er_list :: "(u32 \<times> u32 \<times> u64) list"

definition extent_track :: "u32 \<Rightarrow> erofs_blobchunk \<Rightarrow> u32 \<Rightarrow> extent_run \<Rightarrow> extent_run" where
  "extent_track chunkblks chunk addr er =
     (let er = (if bc_blkaddr chunk \<noteq> EROFS_NULL_ADDR \<and> bc_device_id chunk \<noteq> 0 then er\<lparr>er_start := EROFS_NULL_ADDR\<rparr> else er);
          er = (if er_start er = EROFS_NULL_ADDR \<or> addr \<noteq> er_end er
                then let er = (if er_start er \<noteq> EROFS_NULL_ADDR
                               then er\<lparr>er_remaining := er_remaining er - (er_end er - er_start er),
                                       er_list := er_list er @ [(er_start er, er_end er - er_start er, er_source er)]\<rparr>
                               else er)
                     in er\<lparr>er_start := addr, er_source := chunksize chunk\<rparr>
                else er)
      in er\<lparr>er_end := addr + chunkblks\<rparr>)"

definition chunk_blkaddr :: "blob_state \<Rightarrow> erofs_blobchunk \<Rightarrow> u32" where
  "chunk_blkaddr bs chunk =
     (if bc_blkaddr chunk = EROFS_NULL_ADDR then EROFS_NULL_ADDR
      else if bc_device_id chunk \<noteq> 0 then bc_blkaddr chunk
      else remapped_base bs + bc_blkaddr chunk)"

fun write_indexes_loop ::
    "nat \<Rightarrow> nat \<Rightarrow> nat \<Rightarrow> blob_state \<Rightarrow> u32 \<Rightarrow> nat \<Rightarrow> extent_run \<Rightarrow> bytes \<Rightarrow> (extent_run \<times> bytes) result" where
  "write_indexes_loop 0 psz unit bs chunkblks i er buf = Inr (er, buf)"
| "write_indexes_loop (Suc n) psz unit bs chunkblks i er buf =
     bindR (ptr_load psz buf i) (\<lambda>a.
     bindR (chunk_at bs a) (\<lambda>chunk.
       let addr = chunk_blkaddr bs chunk;
           idx = \<lparr>ci_advise = 0, ci_device_id = ucast (bc_device_id chunk), ci_blkaddr = addr\<rparr>
       in bindR (memput buf (unit * i) (if unit = 4 then cpu_to_le32 addr else enc_chunk_index idx)) (\<lambda>buf.
            write_indexes_loop n psz unit bs chunkblks (Suc i) (extent_track chunkblks chunk addr er) buf)))"

text \<open>
  \<^verbatim>\<open>erofs_blob_write_chunk_indexes\<close>: the superblock with the indexes written, and the extents for the block list.  The loop runs
  over \<^verbatim>\<open>extent_isize\<close> bytes of indexes, a multiple of the size of one.
\<close>

definition erofs_blob_write_chunk_indexes ::
    "nat \<Rightarrow> erofs_sb_info \<Rightarrow> blob_state \<Rightarrow> erofs_inode \<Rightarrow> bytes \<Rightarrow> u64 \<Rightarrow> (erofs_sb_info \<times> (u32 \<times> u32 \<times> u64) list) result" where
  "erofs_blob_write_chunk_indexes psz sbi bs inode chunkindexes off =
     (let unit = unat (chunk_unit inode);
          chunkblks = push_bit (unat (chunkformat inode AND EROFS_CHUNK_FORMAT_BLKBITS_MASK)) 1;
          er0 = \<lparr>er_start = EROFS_NULL_ADDR, er_end = 0, er_source = 0, er_remaining = ucast (BLK_ROUND_UP sbi (i_size inode)), er_list = []\<rparr>
      in bindR (write_indexes_loop ((unat (extent_isize inode) + unit - 1) div unit) psz unit bs chunkblks 0 er0 chunkindexes) (\<lambda>(er, buf).
         let off = roundup off (of_nat unit);
             er_end = min (er_end er) (er_start er + er_remaining er);
             exts = er_list er @ (if er_start er = EROFS_NULL_ADDR then [] else [(er_start er, er_end - er_start er, er_source er)])
         in bindR (slice buf 0 (unat (extent_isize inode))) (\<lambda>b.
            bindR (erofs_dev_write sbi b off) (\<lambda>sbi. Inr (sbi, exts)))))"

fun merge_loop :: "nat \<Rightarrow> nat \<Rightarrow> nat \<Rightarrow> nat \<Rightarrow> nat \<Rightarrow> bytes \<Rightarrow> bytes result" where
  "merge_loop 0 psz step dst src buf = Inr buf"
| "merge_loop (Suc n) psz step dst src buf =
     bindR (ptr_load psz buf src) (\<lambda>a. bindR (ptr_store psz buf dst a) (merge_loop n psz step (Suc dst) (src + step)))"

definition erofs_blob_mergechunks ::
    "nat \<Rightarrow> erofs_sb_info \<Rightarrow> erofs_inode \<Rightarrow> bytes \<Rightarrow> u32 \<Rightarrow> u32 \<Rightarrow> (erofs_inode \<times> bytes) result" where
  "erofs_blob_mergechunks psz sbi inode chunkindexes chunkbits0 new_chunkbits0 =
     (let bits = ucast (blkszbits sbi);
          new_chunkbits = (if 31 < new_chunkbits0 - bits then 31 + bits else new_chunkbits0);
          fmt = (\<lambda>b. ucast (b - bits :: u32) OR chunkformat inode AND NOT EROFS_CHUNK_FORMAT_BLKBITS_MASK)
      in if new_chunkbits \<le> chunkbits0 then Inr (inode\<lparr>chunkformat := fmt chunkbits0\<rparr>, chunkindexes)
         else let count = ucast (drop_bit (unat new_chunkbits) (round_up (i_size inode) (push_bit (unat new_chunkbits) 1))) :: u32
              in bindR (merge_loop (unat count) psz (2 ^ unat (new_chunkbits - chunkbits0)) 0 0 chunkindexes) (\<lambda>buf.
                   Inr (inode\<lparr>extent_isize := count * ucast (chunk_unit inode), chunkformat := fmt new_chunkbits\<rparr>, buf)))"

section \<open>Writing a file in chunks\<close>

definition erofs_update_minextblks :: "erofs_sb_info \<Rightarrow> u64 \<Rightarrow> u64 \<Rightarrow> u32 \<Rightarrow> u32" where
  "erofs_update_minextblks sbi start fin minextblks =
     (let lb = ucast (lowbit (drop_bit (blkbits sbi) (fin - start))) in if lb \<noteq> 0 \<and> lb < minextblks then lb else minextblks)"

definition erofs_blob_can_merge :: "erofs_sb_info \<Rightarrow> blob_state \<Rightarrow> nat option \<Rightarrow> nat \<Rightarrow> bool result" where
  "erofs_blob_can_merge sbi bs lastch chunk =
     (case lastch of
        None \<Rightarrow> Inr True
      | Some l \<Rightarrow>
          if l = holechunk \<and> chunk = holechunk then Inr True
          else bindR (chunk_at bs l) (\<lambda>lc. bindR (chunk_at bs chunk) (\<lambda>c.
                 Inr (bc_device_id lc = bc_device_id c \<and> erofs_pos sbi (bc_blkaddr lc) + chunksize lc = erofs_pos sbi (bc_blkaddr c)))))"

text \<open>
  The source file as the kernel answers: \<^verbatim>\<open>lseek\<close> with \<^verbatim>\<open>SEEK_DATA\<close> and \<^verbatim>\<open>SEEK_SET\<close>, and \<^verbatim>\<open>read\<close> at a position.
\<close>

record chunk_source =
  seek_data :: "u64 \<Rightarrow> u64 result"
  seek_set :: "u64 \<Rightarrow> bool"
  read_at :: "u64 \<Rightarrow> nat \<Rightarrow> bytes result"

text \<open>The variables of the loop; \<^verbatim>\<open>cw_fdpos\<close> is the position of the file descriptor, which stands at \<^verbatim>\<open>startoff\<close> at first.\<close>

record chunk_writer =
  cw_pos :: u64
  cw_idx :: nat
  cw_data :: bytes
  cw_last :: "nat option"
  cw_minextblks :: u32
  cw_start :: u64
  cw_fdpos :: u64
  cw_indexes :: bytes

text \<open>One more chunk behind the last one: an interval of chunks that can be merged ends here if it does not fit.\<close>

definition merge_step :: "erofs_sb_info \<Rightarrow> blob_state \<Rightarrow> nat \<Rightarrow> chunk_writer \<Rightarrow> chunk_writer result" where
  "merge_step sbi bs chunk w =
     bindR (erofs_blob_can_merge sbi bs (cw_last w) chunk) (\<lambda>mergeable.
       Inr (if mergeable then w
            else w\<lparr>cw_minextblks := erofs_update_minextblks sbi (cw_start w) (cw_pos w) (cw_minextblks w), cw_start := cw_pos w\<rparr>))"

fun hole_loop :: "nat \<Rightarrow> nat \<Rightarrow> u64 \<Rightarrow> u64 \<Rightarrow> chunk_writer \<Rightarrow> chunk_writer result" where
  "hole_loop 0 psz csize offset w = Inl OutOfFuel"
| "hole_loop (Suc n) psz csize offset w =
     bindR (idx_store psz (cw_indexes w) (cw_idx w) holechunk) (\<lambda>buf.
       let w = w\<lparr>cw_indexes := buf, cw_idx := Suc (cw_idx w), cw_pos := cw_pos w + csize\<rparr> in
       if cw_pos w < offset then hole_loop n psz csize offset w else Inr w)"

text \<open>Where the data behind \<^verbatim>\<open>pos\<close> begin, rounded down to a chunk.\<close>

definition next_data :: "chunk_source \<Rightarrow> nat \<Rightarrow> u64 \<Rightarrow> chunk_writer \<Rightarrow> (u64 \<times> chunk_writer) result" where
  "next_data src bits startoff w =
     (case seek_data src (cw_pos w + startoff) of
        Inl e \<Rightarrow> Inr (if e \<noteq> Errno ENXIO then cw_pos w else push_bit bits (drop_bit bits (cw_pos w) + 1), w)
      | Inr p \<Rightarrow>
          let offset = p - startoff; aligned = offset AND NOT (push_bit bits 1 - 1) in
          if offset = aligned then Inr (offset, w\<lparr>cw_fdpos := p\<rparr>)
          else if seek_set src (aligned + startoff) then Inr (aligned, w\<lparr>cw_fdpos := aligned + startoff\<rparr>)
          else Err EIO)"

text \<open>
  \<^verbatim>\<open>read\<close> returns \<^verbatim>\<open>-1\<close> on failure, which is stored in an \<^verbatim>\<open>int\<close> and compared with an unsigned length: no length is greater.  The
  buffer then still holds what was read before.
\<close>

definition read_chunk :: "chunk_source \<Rightarrow> u64 \<Rightarrow> chunk_writer \<Rightarrow> chunk_writer result" where
  "read_chunk src len w =
     (case read_at src (cw_fdpos w) (unat len) of
        Inl e \<Rightarrow> if (-1 :: u64) < len then Err EIO else Inr w
      | Inr d \<Rightarrow>
          bindR (memput (cw_data w) 0 d) (\<lambda>buf.
            if scast (of_nat (length d) :: u32) < len then Err EIO
            else Inr (w\<lparr>cw_data := buf, cw_fdpos := cw_fdpos w + of_nat (length d)\<rparr>)))"

fun chunked_loop ::
    "nat \<Rightarrow> (nat \<Rightarrow> bool) \<Rightarrow> nat \<Rightarrow> chunk_source \<Rightarrow> erofs_sb_info \<Rightarrow> u64 \<Rightarrow> nat \<Rightarrow> u64 \<Rightarrow> chunk_writer \<Rightarrow> blob_state
     \<Rightarrow> (chunk_writer \<times> blob_state) result" where
  "chunked_loop 0 werr psz src sbi isize bits startoff w bs = Inl OutOfFuel"
| "chunked_loop (Suc n) werr psz src sbi isize bits startoff w bs =
     (let csize = push_bit bits 1 in
      if \<not> cw_pos w < isize then Inr (w, bs)
      else bindR (next_data src bits startoff w) (\<lambda>(offset, w).
        if cw_pos w < offset
        then bindR (merge_step sbi bs holechunk w) (\<lambda>w.
             bindR (hole_loop (Suc (unat (offset - cw_pos w))) psz csize offset w) (\<lambda>w.
               chunked_loop n werr psz src sbi isize bits startoff (w\<lparr>cw_last := Some holechunk\<rparr>) bs))
        else let len = min (isize - cw_pos w) csize in
             bindR (read_chunk src len w) (\<lambda>w.
             bindR (slice (cw_data w) 0 (unat len)) (\<lambda>data.
             bindR (erofs_blob_getchunk werr sbi data bs) (\<lambda>(chunk, bs).
             bindR (merge_step sbi bs chunk w) (\<lambda>w.
             bindR (idx_store psz (cw_indexes w) (cw_idx w) chunk) (\<lambda>buf.
               chunked_loop n werr psz src sbi isize bits startoff
                 (w\<lparr>cw_indexes := buf, cw_idx := Suc (cw_idx w), cw_last := Some chunk, cw_pos := cw_pos w + len\<rparr>) bs)))))))"

text \<open>
  \<^verbatim>\<open>erofs_blob_write_chunked_file\<close>: the inode with its layout, its array of chunk pointers and the new state.  \<^verbatim>\<open>junk\<close> is what
  \<^verbatim>\<open>malloc\<close> returned for the array and for the buffer.  Every round fills an index at least, so the size of the array
  bounds the number of rounds.
\<close>

definition erofs_blob_write_chunked_file ::
    "(nat \<Rightarrow> bool) \<Rightarrow> (nat \<Rightarrow> bytes) \<Rightarrow> nat \<Rightarrow> u32 \<Rightarrow> chunk_source \<Rightarrow> erofs_sb_info \<Rightarrow> u64 \<Rightarrow> erofs_inode \<Rightarrow> blob_state
     \<Rightarrow> (erofs_inode \<times> bytes \<times> blob_state) result" where
  "erofs_blob_write_chunked_file werr junk psz c_chunkbits src sbi startoff inode bs =
     (let bits = ucast (blkszbits sbi);
          chunkbits = (if seek_data src startoff = Err ENXIO
                       then max (of_nat (ilog2 (i_size inode - 1) + 1)) bits else c_chunkbits) :: u32;
          chunkbits = (if 31 < chunkbits - bits then 31 + bits else chunkbits);
          csize = push_bit (unat chunkbits) 1 :: u64;
          count = ucast (DIV_ROUND_UP (i_size inode) csize) :: u32;
          inode = (if extra_devices sbi \<noteq> 0 then inode\<lparr>chunkformat := chunkformat inode OR EROFS_CHUNK_FORMAT_INDEXES\<rparr> else inode);
          inode = inode\<lparr>extent_isize := count * ucast (chunk_unit inode)\<rparr>;
          w = \<lparr>cw_pos = 0, cw_idx = 0, cw_data = junk (unat csize), cw_last = None, cw_minextblks = ucast (BLK_ROUND_UP sbi (i_size inode)),
               cw_start = 0, cw_fdpos = (case seek_data src startoff of Inl _ \<Rightarrow> startoff | Inr p \<Rightarrow> p), cw_indexes = junk (unat count * max 8 psz)\<rparr>
      in bindR (chunked_loop (Suc (unat count * max 8 psz)) werr psz src sbi (i_size inode) (unat chunkbits) startoff w bs) (\<lambda>(w, bs).
         let minextblks = erofs_update_minextblks sbi (cw_start w) (cw_pos w) (cw_minextblks w);
             inode = inode\<lparr>datalayout := EROFS_INODE_CHUNK_BASED\<rparr>
         in bindR (erofs_blob_mergechunks psz sbi inode (cw_indexes w) chunkbits (of_nat (ilog2 (ucast minextblks)) + bits)) (\<lambda>(inode, buf).
              Inr (inode, buf, bs))))"

text \<open>The number of chunks of a file of one extent, without data or with its data in a row.\<close>

definition one_extent_bits :: "erofs_sb_info \<Rightarrow> erofs_inode \<Rightarrow> u32" where
  "one_extent_bits sbi inode =
     (let bits = ucast (blkszbits sbi); b = max (of_nat (ilog2 (i_size inode - 1) + 1)) bits in
      if 31 < b - bits then 31 + bits else b)"

fun unhashed_loop ::
    "nat \<Rightarrow> nat \<Rightarrow> erofs_sb_info \<Rightarrow> u64 \<Rightarrow> u64 \<Rightarrow> u32 \<Rightarrow> bool \<Rightarrow> u64 \<Rightarrow> u32 \<Rightarrow> u64 \<Rightarrow> nat \<Rightarrow> bytes \<Rightarrow> blob_state \<Rightarrow> (bytes \<times> blob_state) result" where
  "unhashed_loop 0 psz sbi isize csize dev hole pos blkaddr source i buf bs = Inl OutOfFuel"
| "unhashed_loop (Suc n) psz sbi isize csize dev hole pos blkaddr source i buf bs =
     (if \<not> pos < isize then Inr (buf, bs)
      else let len = min (isize - pos) csize;
               (chunk, bs) = erofs_get_unhashed_chunk dev blkaddr source bs
           in bindR (idx_store psz buf i chunk) (\<lambda>buf.
                if hole then unhashed_loop n psz sbi isize csize dev hole (pos + len) blkaddr source (Suc i) buf bs
                else unhashed_loop n psz sbi isize csize dev hole (pos + len) (blkaddr + ucast (erofs_blknr sbi len)) (source + len) (Suc i) buf bs))"

definition erofs_write_zero_inode ::
    "nat \<Rightarrow> erofs_sb_info \<Rightarrow> erofs_inode \<Rightarrow> blob_state \<Rightarrow> (erofs_inode \<times> bytes \<times> blob_state) result" where
  "erofs_write_zero_inode psz sbi inode bs =
     (let b = one_extent_bits sbi inode; csize = push_bit (unat b) 1;
          inode = inode\<lparr>chunkformat := chunkformat inode OR ucast (b - ucast (blkszbits sbi))\<rparr>;
          count = ucast (DIV_ROUND_UP (i_size inode) csize) :: u32
      in bindR (unhashed_loop (Suc (unat count)) psz sbi (i_size inode) csize 0 True 0 EROFS_NULL_ADDR (-1) 0
                  (replicate (unat count * max 8 psz) 0) bs) (\<lambda>(buf, bs).
           Inr (inode\<lparr>extent_isize := count * 4, datalayout := EROFS_INODE_CHUNK_BASED\<rparr>, buf, bs)))"

definition tarerofs_write_chunkes ::
    "nat \<Rightarrow> erofs_sb_info \<Rightarrow> u64 \<Rightarrow> erofs_inode \<Rightarrow> blob_state \<Rightarrow> (erofs_inode \<times> bytes \<times> blob_state) result" where
  "tarerofs_write_chunkes psz sbi data_offset inode bs =
     (let b = one_extent_bits sbi inode; csize = push_bit (unat b) 1; ext = extra_devices sbi \<noteq> 0;
          inode = inode\<lparr>chunkformat := (chunkformat inode OR ucast (b - ucast (blkszbits sbi))) OR (if ext then EROFS_CHUNK_FORMAT_INDEXES else 0)\<rparr>;
          unit = (if ext then 8 else 4);
          blkaddr = ucast (erofs_blknr sbi (if ext then data_offset else datablob_size bs));
          bs = (if ext then bs else bs\<lparr>datablob_size := datablob_size bs + round_up (i_size inode) (ucast (erofs_blksiz sbi))\<rparr>);
          count = ucast (DIV_ROUND_UP (i_size inode) csize) :: u32
      in bindR (unhashed_loop (Suc (unat count)) psz sbi (i_size inode) csize (if ext then 1 else 0) False 0 blkaddr data_offset 0
                  (replicate (unat count * max 8 psz) 0) bs) (\<lambda>(buf, bs).
           Inr (inode\<lparr>extent_isize := count * unit, datalayout := EROFS_INODE_CHUNK_BASED\<rparr>, buf, bs)))"

section \<open>The blob file in the image\<close>

text \<open>
  \<^verbatim>\<open>erofs_copy_file_range\<close> of \<^verbatim>\<open>lib/io.c\<close>.  The kernel's answers: what \<^verbatim>\<open>copy_file_range\<close> returns, if there is one, how many bytes
  \<^verbatim>\<open>pread\<close> and \<^verbatim>\<open>pwrite\<close> move at a position.  The value is \<^verbatim>\<open>None\<close> if the loop does not end, which happens when writes store
  nothing.  \<^verbatim>\<open>-1\<close>, which is returned when nothing was copied, reads as \<^verbatim>\<open>EPERM\<close>.
\<close>

record copy_os =
  co_range :: "nat result option"
  co_read :: "nat \<Rightarrow> nat \<Rightarrow> nat result"
  co_write :: "nat \<Rightarrow> nat \<Rightarrow> nat result"

partial_function (option) copy_write :: "copy_os \<Rightarrow> bytes \<Rightarrow> bytes \<Rightarrow> nat \<Rightarrow> (bytes \<times> nat) option" where
  "copy_write co out p pos =
     (if p = [] then Some (out, 0)
      else case co_write co pos (length p) of
             Inl e \<Rightarrow> Some (out, length p)
           | Inr n \<Rightarrow> copy_write co (if n = 0 then out else fsplice out pos (take n p)) (drop n p) (pos + min n (length p)))"

partial_function (option) copy_loop :: "copy_os \<Rightarrow> bytes \<Rightarrow> bytes \<Rightarrow> nat \<Rightarrow> nat \<Rightarrow> nat \<Rightarrow> nat \<Rightarrow> (bytes \<times> nat result) option" where
  "copy_loop co inp out off_in off_out len copied =
     (if len = 0 then Some (out, Inr copied)
      else case co_read co off_in (min len 8192) of
             Inl e \<Rightarrow> Some (out, if copied = 0 then Err EPERM else Inr copied)
           | Inr n \<Rightarrow>
               let buf = take (min n (min len 8192)) (drop off_in inp) in
               if buf = [] then Some (out, Inr copied)
               else Option.bind (copy_write co out buf off_out) (\<lambda>(out, left).
                      if left = 0
                      then copy_loop co inp out (off_in + length buf) (off_out + length buf) (len - length buf) (copied + length buf)
                      else let done = copied + (length buf - left) in Some (out, if done = 0 then Err EPERM else Inr done)))"

definition erofs_copy_file_range :: "copy_os \<Rightarrow> bytes \<Rightarrow> nat \<Rightarrow> bytes \<Rightarrow> nat \<Rightarrow> nat \<Rightarrow> (bytes \<times> nat result) option" where
  "erofs_copy_file_range co inp off_in out off_out len =
     (case co_range co of
        Some (Inr n) \<Rightarrow> let d = take (min n len) (drop off_in inp) in Some (if d = [] then out else fsplice out off_out d, Inr (length d))
      | Some (Inl e) \<Rightarrow>
          if e \<noteq> Errno ENOSYS \<and> e \<noteq> Errno EXDEV then Some (out, Inl e) else copy_loop co inp out off_in off_out len 0
      | None \<Rightarrow> copy_loop co inp out off_in off_out len 0)"

fun devt_loop :: "erofs_sb_info \<Rightarrow> erofs_device_info list \<Rightarrow> u32 \<Rightarrow> u64 \<Rightarrow> erofs_sb_info result" where
  "devt_loop sbi [] nblocks pos_out = Inr sbi"
| "devt_loop sbi (d # ds) nblocks pos_out =
     bindR (erofs_dev_write sbi
              (enc_deviceslot \<lparr>ds_tag = dif_tag d, ds_blocks = dif_blocks d, ds_mapped_blkaddr = nblocks, ds_reserved = replicate 56 0\<rparr>) pos_out)
       (\<lambda>sbi. devt_loop sbi ds (nblocks + dif_blocks d) (pos_out + 128))"

text \<open>
  \<^verbatim>\<open>erofs_mkfs_dump_blobs\<close>.  The number of bytes copied is compared with the unsigned \<^verbatim>\<open>datablob_size\<close>, so that a negative
  result, an error, is not less.  The position includes \<^verbatim>\<open>bdev.offset\<close>, which \<^verbatim>\<open>erofs_io_ftruncate\<close> adds once more.
\<close>

definition erofs_mkfs_dump_blobs ::
    "copy_os \<Rightarrow> erofs_sb_info \<Rightarrow> erofs_bufmgr \<Rightarrow> blob_state \<Rightarrow> (erofs_sb_info \<times> erofs_bufmgr \<times> blob_state) result option" where
  "erofs_mkfs_dump_blobs co sbi bm bs =
     (let ext = extra_devices sbi \<noteq> 0;
          sbi = (case blobfile bs of
                   Some f \<Rightarrow> if ext then sbi\<lparr>devs := map_option (\<lambda>ds. ds[0 := (ds ! 0)\<lparr>dif_blocks := ucast (erofs_blknr sbi (of_nat (length f) :: u64))\<rparr>]) (devs sbi)\<rparr> else sbi
                 | None \<Rightarrow> sbi);
          bs = (case blobfile bs of Some f \<Rightarrow> if ext then bs else bs\<lparr>datablob_size := of_nat (length f)\<rparr> | None \<Rightarrow> bs)
      in if ext
         then Some (case (bh_devt bs, devs sbi) of
                (Some bh, Some ds) \<Rightarrow>
                  let (bm, nblocks) = erofs_mapbh sbi bm None in
                  bindR (erofs_btell sbi bm bh False) (\<lambda>pos_out.
                  bindR (if unat (extra_devices sbi) \<le> length ds then Inr () else Inl OutOfBounds) (\<lambda>_.
                  bindR (devt_loop sbi (take (unat (extra_devices sbi)) ds) nblocks pos_out) (\<lambda>sbi.
                  bindR (erofs_bdrop sbi (set_bh_op bh erofs_drop_directly_bhops bm) bh False) (\<lambda>bm. Inr (sbi, bm, bs)))))
              | _ \<Rightarrow> Inl OutOfBounds)
         else case erofs_balloc sbi bm DATA (datablob_size bs) 0 0 of
                Inl e \<Rightarrow> Some (Inl e)
              | Inr (bm, bh) \<Rightarrow>
                  let bm = fst (erofs_mapbh sbi bm (map_option bb_id (bb_of_bh bm bh))) in
                  case erofs_btell sbi bm bh False of
                    Inl e \<Rightarrow> Some (Inl e)
                  | Inr pos \<Rightarrow>
                      let bs = bs\<lparr>remapped_base := ucast (erofs_blknr sbi pos)\<rparr>;
                          pos_out = pos + vf_offset (bdev sbi);
                          finish = (\<lambda>sbi. bindR (erofs_bdrop sbi (set_bh_op bh erofs_drop_directly_bhops bm) bh False) (\<lambda>bm. Inr (sbi, bm, bs)))
                      in case blobfile bs of
                           Some f \<Rightarrow>
                             Option.bind (erofs_copy_file_range co f 0 (vf_bytes (bdev sbi)) (unat pos_out) (unat (datablob_size bs))) (\<lambda>(dat, ret).
                               let sbi = sbi\<lparr>bdev := (bdev sbi)\<lparr>vf_bytes := dat\<rparr>\<rparr> in
                               Some (if (case ret of Inl _ \<Rightarrow> False | Inr n \<Rightarrow> of_nat n < datablob_size bs) then Err EIO else finish sbi))
                         | None \<Rightarrow> Some (finish (sbi\<lparr>bdev := erofs_io_ftruncate (bdev sbi) (pos_out + datablob_size bs)\<rparr>)))"

section \<open>Beginning and end\<close>

text \<open>The chunk of zeroes: its device is not initialised (\<^verbatim>\<open>junk\<close>), and never looked at.\<close>

definition erofs_insert_zerochunk :: "u32 \<Rightarrow> u64 \<Rightarrow> blob_state \<Rightarrow> blob_state" where
  "erofs_insert_zerochunk junk csize bs =
     (let sha = sha256_of (replicate (unat csize) 0); a = bl_fresh bs;
          chunk = \<lparr>bc_sha256 = sha, bc_device_id = junk, chunksize = csize, bc_blkaddr = bc_blkaddr erofs_holechunk\<rparr>
      in bs\<lparr>bl_heap := (bl_heap bs)(a := Some chunk), bl_fresh := Suc a,
            blob_hashmap := hashmap_add \<lparr>he_id = a, he_hash = memhash sha, he_data = sha\<rparr> (blob_hashmap bs)\<rparr>)"

text \<open>\<^verbatim>\<open>opened\<close>: whether the file could be opened; a path is given for a device of its own.\<close>

definition erofs_blob_init :: "u32 \<Rightarrow> bool \<Rightarrow> bool \<Rightarrow> u64 \<Rightarrow> blob_state \<Rightarrow> blob_state result option" where
  "erofs_blob_init junk opened path csize bs =
     (if \<not> opened then Some (Err EACCES)
      else case hashmap_init (Some erofs_blob_hashmap_cmp) 0 of
             None \<Rightarrow> None
           | Some hm \<Rightarrow> Some (Inr (erofs_insert_zerochunk junk csize (bs\<lparr>multidev := path, blobfile := Some [], blob_hashmap := hm\<rparr>))))"

definition erofs_mkfs_init_devices :: "u32 \<Rightarrow> erofs_sb_info \<Rightarrow> erofs_bufmgr \<Rightarrow> blob_state \<Rightarrow> (erofs_sb_info \<times> erofs_bufmgr \<times> blob_state) result" where
  "erofs_mkfs_init_devices devices sbi bm bs =
     (if devices = 0 then Inr (sbi, bm, bs)
      else bindR (erofs_balloc sbi bm DEVT (128 * ucast devices) 0 0) (\<lambda>(bm, bh).
        let bm = fst (erofs_mapbh sbi bm (map_option bb_id (bb_of_bh bm bh))); bm = set_bh_op bh erofs_skip_write_bhops bm in
        bindR (erofs_btell sbi bm bh False) (\<lambda>off.
          Inr (sbi\<lparr>devs := Some (replicate (unat devices) \<lparr>dif_tag = replicate 64 0, dif_blocks = 0, dif_mapped_blkaddr = 0\<rparr>),
                   devt_u := ucast (off div 128), extra_devices := ucast devices,
                   feature_incompat := set_feature (feature_incompat sbi) EROFS_FEATURE_INCOMPAT_DEVICE_TABLE\<rparr>,
               bm, bs\<lparr>bh_devt := Some bh\<rparr>))))"

text \<open>\<^verbatim>\<open>erofs_blob_exit\<close> takes every chunk out of the map and frees it, then the chunks that were never hashed.\<close>

fun exit_loop :: "nat \<Rightarrow> bytes hashmap_iter \<Rightarrow> blob_state \<Rightarrow> blob_state result" where
  "exit_loop 0 it bs = Inl OutOfFuel"
| "exit_loop (Suc n) it bs =
     (case hashmap_iter_next (blob_hashmap bs) it of
        (None, it) \<Rightarrow> Inr bs
      | (Some e, it) \<Rightarrow>
          exit_loop n it (bs\<lparr>blob_hashmap := snd (hashmap_remove e (blob_hashmap bs)), bl_heap := (bl_heap bs)(he_id e := None)\<rparr>))"

definition erofs_blob_exit :: "blob_state \<Rightarrow> (unit result \<times> blob_state) result" where
  "erofs_blob_exit bs =
     (let hm = hashmap_disable_shrink (blob_hashmap bs) in
      bindR (exit_loop (Suc (length (concat (table hm)))) hashmap_iter_init (bs\<lparr>blobfile := None, blob_hashmap := hm\<rparr>)) (\<lambda>bs.
        Inr (hashmap_free (blob_hashmap bs),
             bs\<lparr>bl_heap := (\<lambda>a. if a \<in> set (unhashed_blobchunks bs) then None else bl_heap bs a), unhashed_blobchunks := []\<rparr>)))"

end
