(* ===== verification/Erofs_Blob_Read.thy ===== *)
theory Erofs_Blob_Read
  imports Erofs_Blob
begin

text \<open>
  A file written in chunks is read back: deduplication, holes, merging of chunks and the conversion of the pointer array
  in place all keep the contents.
\<close>

unbundle bit_operations_syntax

section \<open>Arrays of bytes\<close>

lemma take_memput:
  assumes "memput buf off d = Inr buf'"
  shows "length buf' = length buf" and "take (length d) (drop off buf') = d"
    and "p + n \<le> off \<or> off + length d \<le> p \<Longrightarrow> take n (drop p buf') = take n (drop p buf)"
proof -
  have l: "off + length d \<le> length buf" and b: "buf' = take off buf @ d @ drop (off + length d) buf"
    using assms by (auto simp: memput_def split: if_splits)
  show len: "length buf' = length buf" using l b by simp
  show "take (length d) (drop off buf') = d" using l by (simp add: b)
  assume o: "p + n \<le> off \<or> off + length d \<le> p"
  show "take n (drop p buf') = take n (drop p buf)"
  proof (rule nth_equalityI)
    show "length (take n (drop p buf')) = length (take n (drop p buf))" by (simp add: len)
    fix i assume "i < length (take n (drop p buf'))"
    then show "take n (drop p buf') ! i = take n (drop p buf) ! i"
      using o l by (auto simp: b nth_append)
  qed
qed

text \<open>A 64-bit array of pointers.\<close>

lemma ptr_load_8: "ptr_load 8 buf i = (if 8 * i + 8 \<le> length buf then Inr (unat (le_get (take 8 (drop (8 * i) buf)) :: u64)) else Inl OutOfBounds)"
  by (simp add: ptr_load_def slice_def)

lemma ptr_store_8:
  assumes "8 * i + 8 \<le> length buf" and "a < 2 ^ 64"
  obtains buf' where "ptr_store 8 buf i a = Inr buf'" "length buf' = length buf"
    "ptr_load 8 buf' i = Inr a" "\<forall>j. j \<noteq> i \<longrightarrow> ptr_load 8 buf' j = ptr_load 8 buf j"
proof -
  obtain buf' where b: "memput buf (8 * i) (le_put 8 (of_nat a :: u64)) = Inr buf'"
    using assms(1) by (simp add: memput_def)
  note m = take_memput [OF b, simplified]
  have "ptr_load 8 buf' i = Inr a" using assms by (simp add: ptr_load_8 m unat_of_nat)
  moreover have "ptr_load 8 buf' j = ptr_load 8 buf j" if "j \<noteq> i" for j
  proof -
    have "8 * j + 8 \<le> 8 * i \<or> 8 * i + 8 \<le> 8 * j" using that by linarith
    then show ?thesis by (simp add: ptr_load_8 m)
  qed
  ultimately show thesis using that [of buf'] b m(1) by (simp add: ptr_store_def)
qed

lemma ptr_load_bound: "ptr_load 8 buf i = Inr a \<Longrightarrow> a < 2 ^ 64 \<and> 8 * i + 8 \<le> length buf"
  using unsigned_less [of "le_get (take 8 (drop (8 * i) buf)) :: u64", where ?'a = nat] by (auto simp: ptr_load_8 split: if_splits)

section \<open>Merging\<close>

lemma merge_loop_value:
  assumes "d \<le> s" and "0 < step" and "\<forall>k<n. \<exists>a. ptr_load 8 buf (s + k * step) = Inr a"
  obtains buf' where "merge_loop n 8 step d s buf = Inr buf'" "length buf' = length buf"
    "\<forall>k<n. ptr_load 8 buf' (d + k) = ptr_load 8 buf (s + k * step)" "\<forall>j<d. ptr_load 8 buf' j = ptr_load 8 buf j"
  using assms
proof (induction n arbitrary: d s buf thesis)
  case 0
  show ?case by (rule 0(1) [of buf]) simp_all
next
  case (Suc n)
  obtain a where a: "ptr_load 8 buf s = Inr a" using Suc.prems(4) [rule_format, of 0] by auto
  then have "8 * d + 8 \<le> length buf" "a < 2 ^ 64" using ptr_load_bound [OF a] Suc.prems(2) by auto
  then obtain b1 where b1: "ptr_store 8 buf d a = Inr b1" "length b1 = length buf" "ptr_load 8 b1 d = Inr a"
    and oth: "\<forall>j. j \<noteq> d \<longrightarrow> ptr_load 8 b1 j = ptr_load 8 buf j"
    by (rule ptr_store_8)
  have src: "ptr_load 8 b1 (s + step + k * step) = ptr_load 8 buf (s + Suc k * step)" for k
    using oth Suc.prems(2,3) by (simp add: algebra_simps)
  have ds: "Suc d \<le> s + step" using Suc.prems(2,3) by simp
  have e: "\<forall>k<n. \<exists>a. ptr_load 8 b1 (s + step + k * step) = Inr a"
  proof (intro allI impI)
    fix k assume "k < n"
    then show "\<exists>a. ptr_load 8 b1 (s + step + k * step) = Inr a" using Suc.prems(4) [rule_format, of "Suc k"] unfolding src by simp
  qed
  obtain b2 where b2: "merge_loop n 8 step (Suc d) (s + step) b1 = Inr b2" "length b2 = length b1"
    and hi: "\<forall>k<n. ptr_load 8 b2 (Suc d + k) = ptr_load 8 b1 (s + step + k * step)"
    and lo: "\<forall>j<Suc d. ptr_load 8 b2 j = ptr_load 8 b1 j"
    by (rule Suc.IH [OF _ ds Suc.prems(3) e])
  show ?case
  proof (rule Suc.prems(1))
    show "merge_loop (Suc n) 8 step d s buf = Inr b2" using a b1(1) b2(1) by simp
    show "length b2 = length buf" using b1(2) b2(2) by simp
    show "\<forall>k<Suc n. ptr_load 8 b2 (d + k) = ptr_load 8 buf (s + k * step)"
    proof (intro allI impI)
      fix k assume "k < Suc n"
      then show "ptr_load 8 b2 (d + k) = ptr_load 8 buf (s + k * step)"
        using hi lo b1(3) a src by (cases k) auto
    qed
    show "\<forall>j<d. ptr_load 8 b2 j = ptr_load 8 buf j" using lo oth by auto
  qed
qed

section \<open>Indexes in place of pointers\<close>

definition index_bytes :: "nat \<Rightarrow> blob_state \<Rightarrow> erofs_blobchunk \<Rightarrow> bytes" where
  "index_bytes unit bs c =
     (if unit = 4 then cpu_to_le32 (chunk_blkaddr bs c)
      else enc_chunk_index \<lparr>ci_advise = 0, ci_device_id = ucast (bc_device_id c), ci_blkaddr = chunk_blkaddr bs c\<rparr>)"

lemma length_index_bytes: "unit = 4 \<or> unit = 8 \<Longrightarrow> length (index_bytes unit bs c) = unit"
  by (auto simp: index_bytes_def enc_chunk_index_def)

text \<open>An index is no longer than a pointer of 64 bits, so the pointers still to be read are not overwritten.\<close>

lemma write_indexes_in_place:
  assumes u: "unit = 4 \<or> unit = 8"
    and c: "\<forall>k<n. \<exists>a. ptr_load 8 buf (i + k) = Inr a \<and> chunk_at bs a = Inr (cs (i + k))"
  obtains er' buf' where "write_indexes_loop n 8 unit bs cb i er buf = Inr (er', buf')" "length buf' = length buf"
    "\<forall>k<n. take unit (drop (unit * (i + k)) buf') = index_bytes unit bs (cs (i + k))"
    "\<forall>p m. p + m \<le> unit * i \<longrightarrow> take m (drop p buf') = take m (drop p buf)"
  using c
proof (induction n arbitrary: i er buf thesis)
  case 0
  show ?case by (rule 0(1) [of er buf]) simp_all
next
  case (Suc n)
  obtain a where a: "ptr_load 8 buf i = Inr a" "chunk_at bs a = Inr (cs i)" using Suc.prems(2) [rule_format, of 0] by auto
  let ?d = "index_bytes unit bs (cs i)"
  have ld: "length ?d = unit" by (rule length_index_bytes [OF u])
  have "unit * i + unit \<le> length buf" using ptr_load_bound [OF a(1)] u by auto
  then obtain b1 where b1: "memput buf (unit * i) ?d = Inr b1" by (simp add: memput_def ld)
  note m = take_memput [OF b1, unfolded ld]
  have ahead: "ptr_load 8 b1 (Suc i + k) = ptr_load 8 buf (i + Suc k)" for k
  proof -
    have "unit * i + unit \<le> 8 * (Suc i + k)" using u by auto
    then show ?thesis by (simp add: ptr_load_8 m)
  qed
  have "\<forall>k<n. \<exists>a. ptr_load 8 b1 (Suc i + k) = Inr a \<and> chunk_at bs a = Inr (cs (Suc i + k))"
  proof (intro allI impI)
    fix k assume "k < n"
    then show "\<exists>a. ptr_load 8 b1 (Suc i + k) = Inr a \<and> chunk_at bs a = Inr (cs (Suc i + k))"
      using Suc.prems(2) [rule_format, of "Suc k"] unfolding ahead by simp
  qed
  then obtain er' b2 where b2: "write_indexes_loop n 8 unit bs cb (Suc i) (extent_track cb (cs i) (chunk_blkaddr bs (cs i)) er) b1 = Inr (er', b2)"
      "length b2 = length b1"
    and hi: "\<forall>k<n. take unit (drop (unit * (Suc i + k)) b2) = index_bytes unit bs (cs (Suc i + k))"
    and lo: "\<forall>p m. p + m \<le> unit * Suc i \<longrightarrow> take m (drop p b2) = take m (drop p b1)"
    by (rule Suc.IH [of "Suc i" "extent_track cb (cs i) (chunk_blkaddr bs (cs i)) er" b1, rotated])
  show ?case
  proof (rule Suc.prems(1))
    show "write_indexes_loop (Suc n) 8 unit bs cb i er buf = Inr (er', b2)"
      using a b1 b2(1) by (simp add: Let_def index_bytes_def)
    show "length b2 = length buf" using b2(2) m(1) by simp
    show "\<forall>k<Suc n. take unit (drop (unit * (i + k)) b2) = index_bytes unit bs (cs (i + k))"
    proof (intro allI impI)
      fix k assume k: "k < Suc n"
      show "take unit (drop (unit * (i + k)) b2) = index_bytes unit bs (cs (i + k))"
      proof (cases k)
        case 0
        then show ?thesis using lo [rule_format, of "unit * i" unit] m(2) by simp
      next
        case (Suc k')
        then show ?thesis using hi k by simp
      qed
    qed
    show "\<forall>p m. p + m \<le> unit * i \<longrightarrow> take m (drop p b2) = take m (drop p buf)"
    proof (intro allI impI)
      fix p n assume "p + n \<le> unit * i"
      then show "take n (drop p b2) = take n (drop p buf)"
        using lo [rule_format, of p n] m(3) [of p n] by simp
    qed
  qed
qed

section \<open>Deduplicated chunks\<close>

text \<open>\<^verbatim>\<open>D\<close> is the set of the data that are ever hashed; deduplication relies on SHA-256 telling them apart.\<close>

definition collision_free :: "bytes set \<Rightarrow> bool" where
  "collision_free D \<longleftrightarrow> inj_on sha256_of D"

definition chunk_data :: "nat \<Rightarrow> bytes \<Rightarrow> erofs_blobchunk \<Rightarrow> bytes \<Rightarrow> bool" where
  "chunk_data B f c d \<longleftrightarrow>
     bc_device_id c = 0 \<and> bc_blkaddr c \<noteq> EROFS_NULL_ADDR \<and> unat (chunksize c) = length d \<and>
     unat (bc_blkaddr c) * B + length d \<le> length f \<and> take (length d) (drop (unat (bc_blkaddr c) * B) f) = d"

definition entry_ok :: "nat \<Rightarrow> bytes set \<Rightarrow> blob_state \<Rightarrow> bytes \<Rightarrow> bytes hashmap_entry \<Rightarrow> bool" where
  "entry_ok B D bs f e \<longleftrightarrow>
     1 < he_id e \<and> he_id e < bl_fresh bs \<and> he_hash e = memhash (he_data e) \<and>
     (\<exists>c d. bl_heap bs (he_id e) = Some c \<and> d \<in> D \<and> he_data e = sha256_of d \<and>
        (if bc_blkaddr c = EROFS_NULL_ADDR then d = replicate (length d) 0 else chunk_data B f c d))"

text \<open>Every entry of the map is a chunk of zeroes or a chunk of the blob file with the digest of its data.\<close>

definition blob_inv :: "erofs_sb_info \<Rightarrow> bytes set \<Rightarrow> blob_state \<Rightarrow> bool" where
  "blob_inv sbi D bs \<longleftrightarrow>
     (\<exists>f. blobfile bs = Some f \<and> 2 ^ blkbits sbi dvd length f \<and> length f < (2 ^ 32 - 1) * 2 ^ blkbits sbi \<and>
        (\<forall>e\<in>#bag (blob_hashmap bs). entry_ok (2 ^ blkbits sbi) D bs f e)) \<and>
     hm_inv (blob_hashmap bs) \<and> cmpfn (blob_hashmap bs) = erofs_blob_hashmap_cmp \<and>
     1 < bl_fresh bs \<and> (\<forall>a. bl_fresh bs \<le> a \<longrightarrow> bl_heap bs a = None)"

text \<open>The chunk at an address stands for some bytes.\<close>

definition chunk_is :: "erofs_sb_info \<Rightarrow> blob_state \<Rightarrow> nat \<Rightarrow> bytes \<Rightarrow> bool" where
  "chunk_is sbi bs a d \<longleftrightarrow>
     a < 2 ^ 64 \<and>
     (if a = holechunk then d = replicate (length d) 0
      else \<exists>c f. blobfile bs = Some f \<and> bl_heap bs a = Some c \<and> chunk_data (2 ^ blkbits sbi) f c d)"

text \<open>Chunks stay where they are and the blob file only grows.\<close>

definition extends :: "blob_state \<Rightarrow> blob_state \<Rightarrow> bool" where
  "extends bs bs' \<longleftrightarrow>
     (\<forall>a c. bl_heap bs a = Some c \<longrightarrow> bl_heap bs' a = Some c) \<and> (\<exists>f g. blobfile bs = Some f \<and> blobfile bs' = Some (f @ g))"

lemma extends_trans: "extends a b \<Longrightarrow> extends b c \<Longrightarrow> extends a c"
  by (auto simp: extends_def)

lemma extends_refl: "blob_inv sbi D bs \<Longrightarrow> extends bs bs"
  by (auto simp: extends_def blob_inv_def)

lemma chunk_data_append: "chunk_data B f c d \<Longrightarrow> chunk_data B (f @ g) c d"
  by (auto simp: chunk_data_def)

lemma chunk_is_extends: "chunk_is sbi bs a d \<Longrightarrow> extends bs bs' \<Longrightarrow> chunk_is sbi bs' a d"
  by (auto simp: chunk_is_def extends_def chunk_data_append)

lemma chunk_is_at:
  assumes "chunk_is sbi bs a d"
  obtains c where "chunk_at bs a = Inr c" and "a = holechunk \<Longrightarrow> c = erofs_holechunk" and "a \<noteq> holechunk \<Longrightarrow> bl_heap bs a = Some c"
proof (cases "a = holechunk")
  case True
  then show ?thesis by (intro that [of erofs_holechunk]) (simp_all add: chunk_at_def)
next
  case False
  then obtain c where "bl_heap bs a = Some c" using assms by (auto simp: chunk_is_def)
  then show ?thesis using False by (intro that [of c]) (simp_all add: chunk_at_def)
qed

lemma entry_ok_more:
  assumes "entry_ok B D bs f e" and "\<forall>a c. bl_heap bs a = Some c \<longrightarrow> bl_heap bs' a = Some c" and "bl_fresh bs \<le> bl_fresh bs'"
  shows "entry_ok B D bs' (f @ g) e"
  using assms by (fastforce simp: entry_ok_def chunk_data_append split: if_splits)

lemma pad_dvd:
  assumes "0 < (B :: nat)"
  shows "B dvd x + (if x mod B = 0 then 0 else B - x mod B)"
proof (cases "x mod B = 0")
  case False
  have "x + (B - x mod B) = x - x mod B + B" using mod_less_divisor [OF assms, of x] mod_less_eq_dividend [of x B] by linarith
  moreover have "B dvd x - x mod B" by (rule dvd_minus_mod)
  ultimately have "B dvd x + (B - x mod B)" by (metis dvd_add dvd_refl)
  then show ?thesis using False by (simp only: if_False)
qed (use assms in auto)

lemma small_addr:
  assumes "n < 2 ^ 32 - 1"
  shows "unat (of_nat n :: u32) = n" and "(of_nat n :: u32) \<noteq> EROFS_NULL_ADDR"
proof -
  show u: "unat (of_nat n :: u32) = n" using assms by (simp add: unat_of_nat)
  have "unat (EROFS_NULL_ADDR :: u32) = 2 ^ 32 - 1" by simp
  then show "(of_nat n :: u32) \<noteq> EROFS_NULL_ADDR" using u assms by (metis less_irrefl)
qed

lemma getchunk_ok:
  assumes inv: "blob_inv sbi D bs" and D: "collision_free D" "d \<in> D" "d \<noteq> []"
    and b: "blkbits sbi \<le> 12" "extra_devices sbi = 0" and w: "\<forall>p. \<not> werr p"
    and room: "\<forall>f. blobfile bs = Some f \<longrightarrow> length f + length d + 2 ^ blkbits sbi < (2 ^ 32 - 1) * 2 ^ blkbits sbi"
    and few: "size (bag (blob_hashmap bs)) < 858993459" "bl_fresh bs < 2 ^ 64"
  obtains a bs' where "erofs_blob_getchunk werr sbi d bs = Inr (a, bs')" "blob_inv sbi D bs'" "extends bs bs'" "chunk_is sbi bs' a d"
    "bl_fresh bs' \<le> Suc (bl_fresh bs)" "size (bag (blob_hashmap bs')) \<le> Suc (size (bag (blob_hashmap bs)))"
    "\<forall>f f'. blobfile bs = Some f \<longrightarrow> blobfile bs' = Some f' \<longrightarrow> length f' \<le> length f + length d + 2 ^ blkbits sbi"
proof -
  let ?B = "2 ^ blkbits sbi :: nat" and ?cmp = erofs_blob_hashmap_cmp
  define key where "key = \<lparr>he_id = 0, he_hash = memhash (sha256_of d), he_data = [] :: bytes\<rparr>"
  obtain f where f: "blobfile bs = Some f" "?B dvd length f" "length f < (2 ^ 32 - 1) * ?B"
    and ents: "\<forall>e\<in>#bag (blob_hashmap bs). entry_ok ?B D bs f e" using inv by (auto simp: blob_inv_def)
  have hm: "hm_inv (blob_hashmap bs) \<and> cmpfn (blob_hashmap bs) = ?cmp" using inv by (simp add: blob_inv_def)
  have ask: "he_id (fst (key, Some (sha256_of d))) \<notin> he_id ` set_mset (bag (blob_hashmap bs))"
    using ents by (auto simp: key_def entry_ok_def)
  show thesis
  proof (cases "hashmap_get (blob_hashmap bs) key (Some (sha256_of d))")
    case (Some e)
    then have e: "e \<in># bag (blob_hashmap bs)" "he_data e = sha256_of d"
      using hmap.get_Some [OF hm ask, of e] by (simp_all add: hm_matches_def erofs_blob_hashmap_cmp_def)
    then obtain c d' where c: "bl_heap bs (he_id e) = Some c" "d' \<in> D" "sha256_of d = sha256_of d'"
        "if bc_blkaddr c = EROFS_NULL_ADDR then d' = replicate (length d') 0 else chunk_data ?B f c d'"
      and id: "1 < he_id e" "he_id e < bl_fresh bs"
      using ents by (auto simp: entry_ok_def)
    then have d': "d' = d" using D by (auto simp: collision_free_def dest: inj_onD)
    let ?bs = "bs\<lparr>saved_by_deduplication := saved_by_deduplication bs + of_nat (length d)\<rparr>"
    let ?a = "if bc_blkaddr c = EROFS_NULL_ADDR then holechunk else he_id e"
    have "erofs_blob_getchunk werr sbi d bs = Inr (?a, ?bs)"
      using Some id by (simp add: erofs_blob_getchunk_def key_def Let_def chunk_at_def c(1) erofs_holechunk_def)
    moreover have "blob_inv sbi D ?bs" using inv by (simp add: blob_inv_def entry_ok_def)
    moreover have "extends bs ?bs" using f by (simp add: extends_def)
    moreover have "chunk_is sbi ?bs ?a d" using c(1,4) d' id few(2) f(1) by (auto simp: chunk_is_def)
    ultimately show thesis using that f(1) by fastforce
  next
    case None
    define pad where "pad = (if length d mod ?B = 0 then [] else replicate (?B - length d mod ?B) (0 :: u8))"
    define c where "c = \<lparr>bc_sha256 = sha256_of d, bc_device_id = 0, chunksize = of_nat (length d), bc_blkaddr = of_nat (length f div ?B)\<rparr>"
    define new where "new = \<lparr>he_id = bl_fresh bs, he_hash = memhash (sha256_of d), he_data = sha256_of d\<rparr>"
    define bs' where "bs' = bs\<lparr>blobfile := Some (f @ d @ pad), bl_heap := (bl_heap bs)(bl_fresh bs := Some c), bl_fresh := Suc (bl_fresh bs),
       blob_hashmap := hashmap_add new (blob_hashmap bs)\<rparr>"
    have B: "?B \<le> 2 ^ 12" "0 < ?B" using b(1) power_increasing [of "blkbits sbi" 12 "2::nat"] by simp_all
    have r: "length f + length d + ?B < (2 ^ 32 - 1) * ?B" using room f(1) by blast
    also have "(2 ^ 32 - 1) * ?B \<le> (2 ^ 32 - 1) * 2 ^ 12" using B(1) by (rule mult_left_mono) simp
    finally have small: "length f + length d < 2 ^ 64" by simp
    have lp: "length pad \<le> ?B" "?B dvd length d + length pad"
    proof -
      show "length pad \<le> ?B" by (simp add: pad_def)
      show "?B dvd length d + length pad" using pad_dvd [OF B(2), of "length d"] unfolding pad_def by (simp only: if_distrib [of length] length_replicate list.size)
    qed
    have len: "length (f @ d @ pad) < (2 ^ 32 - 1) * ?B" "?B dvd length (f @ d @ pad)"
      using r lp f(2) by (simp_all add: add.assoc)
    have "length f < (2 ^ 32 - 1) * ?B" by (rule f(3))
    then have "length f div ?B < 2 ^ 32 - 1" by (simp add: less_mult_imp_div_less)
    then have blk: "unat (of_nat (length f div ?B) :: u32) = length f div ?B" "(of_nat (length f div ?B) :: u32) \<noteq> EROFS_NULL_ADDR"
      by (rule small_addr)+
    have bw: "(ucast (erofs_blknr sbi (of_nat (length f) :: u64)) :: u32) = of_nat (length f div ?B)"
    proof -
      have "unat (erofs_blknr sbi (of_nat (length f) :: u64)) = length f div ?B"
        using small by (simp add: unat_erofs_blknr unat_of_nat)
      then show ?thesis by (metis of_nat_unat)
    qed
    have po: "unat (erofs_blkoff sbi (of_nat (length d) :: u64)) = length d mod ?B" "unat (erofs_blksiz sbi) = ?B"
      using b(1) small by (simp_all add: unat_erofs_blkoff unat_of_nat unat_erofs_blksiz)
    have run: "erofs_blob_getchunk werr sbi d bs = Inr (bl_fresh bs, bs')"
      using None w D(3) f(1) b(2)
      by (simp add: erofs_blob_getchunk_def key_def Let_def po bw bs'_def c_def new_def pad_def)
    have cd: "chunk_data ?B (f @ d @ pad) c d"
      using f(2) blk small by (simp add: chunk_data_def c_def unat_of_nat)
    have add: "he_id new \<notin> he_id ` set_mset (bag (blob_hashmap bs)) \<and> size (bag (blob_hashmap bs)) < 858993459"
      using ents few(1) by (auto simp: new_def entry_ok_def)
    have bag: "bag (blob_hashmap bs') = add_mset new (bag (blob_hashmap bs))"
      using hmap.add_members [OF hm add] by (simp add: bs'_def)
    have heap: "\<forall>a x. bl_heap bs a = Some x \<longrightarrow> bl_heap bs' a = Some x"
      using inv by (auto simp: bs'_def blob_inv_def)
    have "entry_ok ?B D bs' (f @ d @ pad) e" if "e \<in># bag (blob_hashmap bs')" for e
    proof (cases "e = new")
      case True
      have "entry_ok ?B D bs' (f @ d @ pad) new"
        using inv D(2) cd by (auto simp: entry_ok_def new_def bs'_def blob_inv_def chunk_data_def)
      then show ?thesis using True by simp
    next
      case False
      then have "entry_ok ?B D bs f e" using that ents bag by simp
      then show ?thesis using heap by (rule entry_ok_more) (simp add: bs'_def)
    qed
    then have "blob_inv sbi D bs'"
      using hmap.add_inv [OF hm add] len inv by (simp add: blob_inv_def) (simp add: bs'_def)
    moreover have "extends bs bs'" using heap f(1) by (simp add: extends_def bs'_def)
    moreover have "chunk_is sbi bs' (bl_fresh bs) d"
      using few(2) inv cd by (auto simp: chunk_is_def bs'_def blob_inv_def)
    ultimately show thesis
      using that [OF run] bag f(1) lp(1) by (simp add: bs'_def)
  qed
qed

end
