(* ===== verification/Erofs_Blob_Runs.thy ===== *)
theory Erofs_Blob_Runs
  imports Erofs_Blob_Read
begin

text \<open>
  The loop of \<^verbatim>\<open>erofs_blob_write_chunked_file\<close>.  Chunks form runs that can be merged; the invariant says where a run may end,
  in terms of the smallest power of two that divides the lengths of the runs so far.
\<close>

unbundle bit_operations_syntax

section \<open>The lowest bit\<close>

lemma least_bit:
  assumes "(x :: 'a::len word) \<noteq> 0"
  obtains k where "bit x k" and "\<forall>i<k. \<not> bit x i"
proof -
  obtain i where "bit x i" using assms by (metis bit_eqI bit_0_eq bot_apply bot_bool_def)
  then show thesis using that [of "LEAST i. bit x i"] by (metis LeastI not_less_Least)
qed

lemma unat_exp64: "k < 64 \<Longrightarrow> unat (2 ^ k :: u64) = 2 ^ k"
  using unat_of_nat [of "2 ^ k", where ?'a = 64] power_strict_increasing [of k 64 "2 :: nat"] by simp

lemma lowbit_spec:
  assumes "x \<noteq> 0"
  obtains k where "unat (lowbit x) = 2 ^ k" and "2 ^ k dvd unat x"
proof -
  obtain k where k: "bit x k" "\<forall>i<k. \<not> bit x i" by (rule least_bit [OF assms])
  have k64: "k < 64" using bit_imp_le_length [OF k(1)] by simp
  define y where "y = x AND NOT (2 ^ k)"
  have p: "bit (2 ^ k :: u64) i \<longleftrightarrow> i = k" for i
    using k64 by (auto simp: bit_exp_iff)
  have "x = y OR 2 ^ k"
    by (rule bit_word_eqI) (use k(1) in \<open>auto simp: y_def bit_or_iff bit_and_iff bit_not_iff p\<close>)
  moreover have "y AND 2 ^ k = 0" by (rule bit_word_eqI) (simp add: y_def bit_and_iff bit_not_iff p)
  ultimately have x: "x = y + 2 ^ k" by (metis disjunctive_add_eq_or)
  have "y AND mask k = 0"
    by (rule bit_word_eqI) (use k(2) in \<open>auto simp: y_def bit_and_iff bit_not_iff bit_mask_iff p\<close>)
  then have "y + mask k = y OR mask k" by (rule disjunctive_add_eq_or)
  moreover have "x - 1 = y + mask k" using x by (simp add: mask_eq_exp_minus_1)
  ultimately have x1: "x - 1 = y OR mask k" by simp
  have "lowbit x = 2 ^ k"
  proof (rule bit_word_eqI)
    fix i assume "i < LENGTH(64)"
    then show "bit (lowbit x) i = bit (2 ^ k :: u64) i"
      using k x1 by (auto simp: lowbit_def minus_eq_not_minus_1 bit_and_iff bit_not_iff bit_or_iff bit_mask_iff p y_def)
  qed
  then have "unat (lowbit x) = 2 ^ k" using unat_exp64 [OF k64] by simp
  moreover have "take_bit k x = 0" by (rule bit_word_eqI) (use k(2) in \<open>auto simp: bit_take_bit_iff\<close>)
  then have "unat x mod 2 ^ k = 0" by (metis take_bit_eq_mod unsigned_0 unsigned_take_bit_eq)
  ultimately show thesis using that by (auto simp: mod_eq_0_iff_dvd)
qed

lemma lowbit_0: "lowbit 0 = 0"
  by (simp add: lowbit_def)

lemma update_any:
  assumes "unat start \<le> unat fin" and "m \<noteq> 0" and L_def: "L = (unat fin - unat start) div 2 ^ blkbits sbi"
  shows "erofs_update_minextblks sbi start fin m = m \<or>
    (\<exists>k. 2 ^ k dvd L \<and> 2 ^ k < unat m \<and> unat (erofs_update_minextblks sbi start fin m) = 2 ^ k)"
    and "0 < L \<Longrightarrow> L < 2 ^ 32 \<Longrightarrow> \<exists>k. 2 ^ k dvd L \<and> unat (erofs_update_minextblks sbi start fin m) = min (unat m) (2 ^ k)"
proof -
  define x where "x = drop_bit (blkbits sbi) (fin - start)"
  define lb where "lb = (ucast (lowbit x) :: u32)"
  have x: "unat x = L"
    unfolding x_def L_def using assms(1) by (simp only: unat_drop_bit_eq) (simp only: drop_bit_eq_div unat_sub word_le_nat_alt)
  have u: "erofs_update_minextblks sbi start fin m = (if lb \<noteq> 0 \<and> lb < m then lb else m)"
    by (simp add: erofs_update_minextblks_def x_def lb_def)
  have k: "\<exists>k. 2 ^ k dvd L \<and> unat (lowbit x) = 2 ^ k" if "L \<noteq> 0"
  proof -
    have "x \<noteq> 0" using that x by auto
    then show ?thesis using lowbit_spec [of x] x by metis
  qed
  have lbu: "unat lb = unat (lowbit x) mod 2 ^ 32" by (simp add: lb_def unsigned_ucast_eq take_bit_eq_mod)
  have pow: "\<exists>k. 2 ^ k dvd L \<and> unat lb = 2 ^ k" if "lb \<noteq> 0"
  proof -
    have "x \<noteq> 0" using that by (auto simp: lb_def lowbit_0)
    then have "L \<noteq> 0" using x by (metis unat_eq_zero)
    then obtain k where k: "2 ^ k dvd L" "unat (lowbit x) = 2 ^ k" using k by blast
    have "unat lb \<noteq> 0" using that by (simp add: unat_eq_zero)
    moreover have "(2::nat) ^ k mod 2 ^ 32 = 0" if "32 \<le> k" using le_imp_power_dvd [OF that, of "2::nat"] by (simp only: mod_eq_0_iff_dvd)
    ultimately have "\<not> 32 \<le> k" using k(2) lbu by metis
    then have "(2::nat) ^ k < 2 ^ 32" by (intro power_strict_increasing) simp_all
    then have "unat lb = 2 ^ k" using k(2) lbu by simp
    then show ?thesis using k(1) by blast
  qed
  show "erofs_update_minextblks sbi start fin m = m \<or>
    (\<exists>k. 2 ^ k dvd L \<and> 2 ^ k < unat m \<and> unat (erofs_update_minextblks sbi start fin m) = 2 ^ k)"
  proof (cases "lb \<noteq> 0 \<and> lb < m")
    case True
    then obtain k where "2 ^ k dvd L" "unat lb = 2 ^ k" using pow by blast
    then show ?thesis using True by (intro disjI2 exI [of _ k]) (simp add: u word_less_nat_alt)
  qed (auto simp: u)
  assume L: "0 < L" "L < 2 ^ 32"
  then obtain k where k: "2 ^ k dvd L" "unat (lowbit x) = 2 ^ k" using k by auto
  then have "(2::nat) ^ k < 2 ^ 32" using L dvd_imp_le [OF k(1)] by simp
  then have "unat lb = 2 ^ k" using k(2) lbu by simp
  then have "unat (erofs_update_minextblks sbi start fin m) = min (unat m) (2 ^ k)"
    by (auto simp: u word_less_nat_alt min_def unat_eq_zero)
  then show "\<exists>k. 2 ^ k dvd L \<and> unat (erofs_update_minextblks sbi start fin m) = min (unat m) (2 ^ k)" using k(1) by blast
qed

definition grain :: "u32 \<Rightarrow> nat" where
  "grain m = 2 ^ ilog2 (ucast m)"

lemma grain_pow:
  assumes "unat m = 2 ^ k"
  shows "grain m = 2 ^ k"
proof -
  have u: "unat (ucast m :: u64) = 2 ^ k" using assms by (simp add: unat_ucast_up)
  then have "(ucast m :: u64) \<noteq> 0" by auto
  note b = ilog2_bounds [OF this, unfolded u]
  have "ilog2 (ucast m) \<le> k" using b(1) by simp
  moreover have "k < Suc (ilog2 (ucast m))" using b(2) by (simp only: power_strict_increasing_iff)
  ultimately show ?thesis by (simp add: grain_def)
qed

section \<open>Runs of chunks\<close>

abbreviation joined :: "erofs_sb_info \<Rightarrow> blob_state \<Rightarrow> nat \<Rightarrow> nat \<Rightarrow> bool" where
  "joined sbi bs a b \<equiv> erofs_blob_can_merge sbi bs (Some a) b = Inr True"

text \<open>
  \<^verbatim>\<open>c\<close> blocks make a chunk.  The run that is still open begins at chunk \<^verbatim>\<open>S\<close>; a run ends only where the number of blocks is a
  multiple of the grain.  Before the first end of a run the minimum still is the number of blocks of the file.
\<close>

definition runs_inv :: "erofs_sb_info \<Rightarrow> blob_state \<Rightarrow> nat \<Rightarrow> nat \<Rightarrow> nat list \<Rightarrow> nat \<Rightarrow> u32 \<Rightarrow> bool" where
  "runs_inv sbi bs c flen ps S m \<longleftrightarrow>
     m \<noteq> 0 \<and> S \<le> length ps \<and> (S = 0 \<and> flen \<le> unat m * 2 ^ blkbits sbi \<or> (\<exists>k. unat m = 2 ^ k \<and> 2 ^ k dvd S * c)) \<and>
     (\<forall>i. 0 < i \<longrightarrow> i < length ps \<longrightarrow> \<not> joined sbi bs (ps ! (i - 1)) (ps ! i) \<longrightarrow> i \<le> S \<and> grain m dvd i * c)"

lemma runs_inv_joined:
  assumes "runs_inv sbi bs c flen ps S m" and "ps = [] \<or> joined sbi bs (last ps) a"
  shows "runs_inv sbi bs c flen (ps @ [a]) S m"
proof -
  have "i \<le> S \<and> grain m dvd i * c" if i: "0 < i" "i < length (ps @ [a])" "\<not> joined sbi bs ((ps @ [a]) ! (i - 1)) ((ps @ [a]) ! i)" for i
  proof (cases "i < length ps")
    case True
    then have "\<not> joined sbi bs (ps ! (i - 1)) (ps ! i)" using i(3) by (simp add: nth_append less_imp_diff_less)
    then show ?thesis using assms(1) i(1) True unfolding runs_inv_def by blast
  next
    case False
    then have "i = length ps" "ps \<noteq> []" using i by auto
    then show ?thesis using i(3) assms(2) by (simp add: nth_append last_conv_nth)
  qed
  then show ?thesis using assms(1) by (simp add: runs_inv_def)
qed

lemma runs_inv_cut:
  assumes inv: "runs_inv sbi bs c flen ps S m" and c: "0 < c"
    and p: "unat start = S * c * 2 ^ blkbits sbi" "unat pos = length ps * c * 2 ^ blkbits sbi" "unat pos < flen"
    and f: "flen < 2 ^ 32 * 2 ^ blkbits sbi" and n: "S < length ps"
  shows "runs_inv sbi bs c flen (ps @ [a]) (length ps) (erofs_update_minextblks sbi start pos m)"
proof -
  let ?B = "2 ^ blkbits sbi :: nat" and ?m = "erofs_update_minextblks sbi start pos m" and ?L = "(length ps - S) * c"
  have m: "m \<noteq> 0" using inv by (simp add: runs_inv_def)
  have le: "unat start \<le> unat pos" using p(1,2) n by simp
  have L: "?L = (unat pos - unat start) div ?B"
  proof -
    have "unat pos - unat start = ?L * ?B" using p(1,2) by (simp add: diff_mult_distrib)
    then show ?thesis by simp
  qed
  have "length ps * c * ?B < flen" using p by simp
  then have "length ps * c * ?B < 2 ^ 32 * ?B" using f by linarith
  then have "length ps * c < 2 ^ 32" by simp
  moreover have "?L \<le> length ps * c" by (simp add: diff_mult_distrib)
  ultimately have L32: "0 < ?L" "?L < 2 ^ 32" using c n by (simp, linarith)
  obtain k where k: "2 ^ k dvd ?L" "unat ?m = min (unat m) (2 ^ k)" using update_any(2) [OF le m L L32] by blast
  have kL: "2 ^ k \<le> ?L" using dvd_imp_le [OF k(1) L32(1)] .
  obtain q where q: "unat ?m = 2 ^ q" "2 ^ q dvd S * c" "2 ^ q dvd ?L" "S = 0 \<or> 2 ^ q dvd grain m"
  proof (cases "S = 0 \<and> flen \<le> unat m * ?B")
    case True
    then have "length ps * c * ?B < unat m * ?B" using p by linarith
    then have "unat ?m = 2 ^ k" using True k(2) kL by simp
    then show thesis using that [of k] True k(1) by simp
  next
    case False
    then obtain j where j: "unat m = 2 ^ j" "2 ^ j dvd S * c" using inv by (auto simp: runs_inv_def)
    have "unat ?m = 2 ^ min j k" using k(2) j(1) by (simp add: min_def)
    moreover have "(2::nat) ^ min j k dvd 2 ^ j" "(2::nat) ^ min j k dvd 2 ^ k" by (simp_all add: le_imp_power_dvd)
    ultimately show thesis using that [of "min j k"] j k(1) grain_pow [OF j(1)] by (metis dvd_trans)
  qed
  have g: "grain ?m = 2 ^ q" by (rule grain_pow [OF q(1)])
  have "length ps * c = S * c + ?L" using n by (simp add: diff_mult_distrib mult_le_mono1)
  then have last: "2 ^ q dvd length ps * c" using q(2,3) by simp
  have "i \<le> length ps \<and> grain ?m dvd i * c"
    if i: "0 < i" "i < length (ps @ [a])" "\<not> joined sbi bs ((ps @ [a]) ! (i - 1)) ((ps @ [a]) ! i)" for i
  proof (cases "i < length ps")
    case True
    then have "\<not> joined sbi bs (ps ! (i - 1)) (ps ! i)" using i(3) by (simp add: nth_append less_imp_diff_less)
    then have "i \<le> S" "grain m dvd i * c" using inv i(1) True unfolding runs_inv_def by blast+
    then show ?thesis using q(4) i(1) True g by (metis dvd_trans le_zero_eq less_imp_le not_less_zero)
  next
    case False
    then show ?thesis using i(2) last g by (simp add: le_less_Suc_eq)
  qed
  moreover have "?m \<noteq> 0" using q(1) by auto
  ultimately show ?thesis using q(1) last by (auto simp: runs_inv_def)
qed

text \<open>At the end of the file.\<close>

lemma runs_inv_end:
  assumes inv: "runs_inv sbi bs c flen ps S m" and le: "unat start \<le> unat pos"
    and i: "0 < i" "i < length ps" "\<not> joined sbi bs (ps ! (i - 1)) (ps ! i)"
  shows "grain (erofs_update_minextblks sbi start pos m) dvd i * c"
proof -
  have m: "m \<noteq> 0" and c: "i \<le> S" "grain m dvd i * c" using inv i by (auto simp: runs_inv_def)
  then obtain j where j: "unat m = 2 ^ j" using inv i(1) by (auto simp: runs_inv_def)
  from update_any(1) [OF le m refl, of sbi] show ?thesis
  proof (elim disjE exE conjE)
    fix k assume k: "2 ^ k < unat m" "unat (erofs_update_minextblks sbi start pos m) = 2 ^ k"
    then have "(2::nat) ^ k dvd 2 ^ j" using j by (simp add: le_imp_power_dvd)
    then show ?thesis using c(2) grain_pow [OF j] grain_pow [OF k(2)] by (metis dvd_trans)
  qed (use c in simp)
qed

lemma chunk_at_extends: "chunk_is sbi bs a d \<Longrightarrow> extends bs bs' \<Longrightarrow> chunk_at bs' a = chunk_at bs a"
  by (auto simp: chunk_is_def extends_def chunk_at_def split: if_splits)

lemma can_merge_extends:
  assumes "chunk_is sbi bs l d" "chunk_is sbi bs a d'" "extends bs bs'"
  shows "erofs_blob_can_merge sbi bs' (Some l) a = erofs_blob_can_merge sbi bs (Some l) a"
  using chunk_at_extends [OF assms(1,3)] chunk_at_extends [OF assms(2,3)] by (simp add: erofs_blob_can_merge_def)

lemma runs_inv_extends:
  assumes r: "runs_inv sbi bs c flen ps S m" and e: "extends bs bs'" and ci: "\<forall>i<length ps. \<exists>d. chunk_is sbi bs (ps ! i) d"
  shows "runs_inv sbi bs' c flen ps S m"
proof -
  have "joined sbi bs' (ps ! (i - 1)) (ps ! i) \<longleftrightarrow> joined sbi bs (ps ! (i - 1)) (ps ! i)" if i: "i < length ps" for i
  proof -
    obtain d d' where "chunk_is sbi bs (ps ! (i - 1)) d" "chunk_is sbi bs (ps ! i) d'" using ci [rule_format, of "i - 1"] ci [rule_format, of i] i less_imp_diff_less [OF i, of 1] by blast
    then show ?thesis using can_merge_extends [OF _ _ e] by metis
  qed
  then show ?thesis using r by (simp add: runs_inv_def)
qed

section \<open>The loop\<close>

definition fchunk :: "nat \<Rightarrow> bytes \<Rightarrow> nat \<Rightarrow> bytes" where
  "fchunk C f i = take C (drop (i * C) f)"

text \<open>The source answers truthfully; a hole reads as zeroes.\<close>

definition source_ok :: "chunk_source \<Rightarrow> u64 \<Rightarrow> bytes \<Rightarrow> bool" where
  "source_ok src startoff f \<longleftrightarrow>
     unat startoff + length f < 2 ^ 62 \<and> (\<forall>p. seek_set src p) \<and>
     (\<forall>p n. p + n \<le> length f \<longrightarrow> read_at src (startoff + of_nat p) n = Inr (take n (drop p f))) \<and>
     (\<forall>p<length f. case seek_data src (startoff + of_nat p) of
        Inl e \<Rightarrow> e = Errno ENXIO \<and> (\<forall>i. p \<le> i \<longrightarrow> i < length f \<longrightarrow> f ! i = 0 \<and> seek_data src (startoff + of_nat i) = Err ENXIO)
      | Inr q \<Rightarrow> \<exists>k. q = startoff + of_nat k \<and> p \<le> k \<and> k < length f \<and> (\<forall>i. p \<le> i \<longrightarrow> i < k \<longrightarrow> f ! i = 0))"

definition cw_inv :: "erofs_sb_info \<Rightarrow> nat \<Rightarrow> bytes \<Rightarrow> nat list \<Rightarrow> chunk_writer \<Rightarrow> blob_state \<Rightarrow> bool" where
  "cw_inv sbi bits f ps w bs \<longleftrightarrow>
     cw_idx w = length ps \<and> length (cw_data w) = 2 ^ bits \<and>
     (\<forall>i<length ps. ptr_load 8 (cw_indexes w) i = Inr (ps ! i) \<and> chunk_is sbi bs (ps ! i) (fchunk (2 ^ bits) f i)) \<and>
     cw_last w = (if ps = [] then None else Some (last ps)) \<and> length ps * 2 ^ bits < length f + 2 ^ bits \<and>
     (unat (cw_pos w) = length ps * 2 ^ bits \<or> unat (cw_pos w) = length f \<and> length f \<le> length ps * 2 ^ bits) \<and>
     (\<exists>S. unat (cw_start w) = S * 2 ^ bits \<and> (ps \<noteq> [] \<longrightarrow> S < length ps) \<and>
        runs_inv sbi bs (2 ^ (bits - blkbits sbi)) (length f) ps S (cw_minextblks w))"

lemma cw_inv_extends:
  assumes "cw_inv sbi bits f ps w bs" and "extends bs bs'"
  shows "cw_inv sbi bits f ps w bs'"
proof -
  have "\<forall>i<length ps. \<exists>d. chunk_is sbi bs (ps ! i) d" using assms(1) by (auto simp: cw_inv_def)
  then show ?thesis
    using assms chunk_is_extends [OF _ assms(2)] runs_inv_extends [OF _ assms(2)] unfolding cw_inv_def by blast
qed

lemma can_merge_total:
  assumes "chunk_is sbi bs a d" and "l = None \<or> (\<exists>b d'. l = Some b \<and> chunk_is sbi bs b d')"
  obtains b where "erofs_blob_can_merge sbi bs l a = Inr b"
proof (cases l)
  case None
  then show ?thesis using that by (simp add: erofs_blob_can_merge_def)
next
  case (Some x)
  obtain c where c: "chunk_at bs a = Inr c" using chunk_is_at [OF assms(1)] by metis
  obtain c' where "chunk_at bs x = Inr c'" using assms(2) Some chunk_is_at by (metis option.distinct(1) option.inject)
  then have "erofs_blob_can_merge sbi bs l a =
      Inr (x = holechunk \<and> a = holechunk \<or> bc_device_id c' = bc_device_id c \<and> erofs_pos sbi (bc_blkaddr c') + chunksize c' = erofs_pos sbi (bc_blkaddr c))"
    using c Some by (auto simp: erofs_blob_can_merge_def)
  then show ?thesis by (rule that)
qed

text \<open>Whether a run ends before the next chunk or not, the runs stay in order.\<close>

lemma merge_step_ok:
  assumes w: "cw_inv sbi bits f ps w bs" and a: "chunk_is sbi bs a d" and p: "unat (cw_pos w) = length ps * 2 ^ bits" "unat (cw_pos w) < length f"
    and b: "blkbits sbi \<le> bits" "length f < 2 ^ 32 * 2 ^ blkbits sbi"
  obtains m s S where "merge_step sbi bs a w = Inr (w\<lparr>cw_minextblks := m, cw_start := s\<rparr>)" "unat s = S * 2 ^ bits" "S \<le> length ps"
    "runs_inv sbi bs (2 ^ (bits - blkbits sbi)) (length f) (ps @ [a]) S m"
proof -
  let ?c = "2 ^ (bits - blkbits sbi) :: nat"
  have cB: "x * ?c * 2 ^ blkbits sbi = x * 2 ^ bits" for x :: nat using b(1) by (simp add: mult.assoc flip: power_add)
  obtain S where S: "unat (cw_start w) = S * 2 ^ bits" "ps \<noteq> [] \<longrightarrow> S < length ps"
    and r: "runs_inv sbi bs ?c (length f) ps S (cw_minextblks w)" using w by (auto simp: cw_inv_def)
  have last: "cw_last w = (if ps = [] then None else Some (last ps))" using w by (simp add: cw_inv_def)
  have "ps \<noteq> [] \<Longrightarrow> chunk_is sbi bs (last ps) (fchunk (2 ^ bits) f (length ps - 1))"
    using w by (auto simp: cw_inv_def last_conv_nth)
  then obtain j where j: "erofs_blob_can_merge sbi bs (cw_last w) a = Inr j"
    using can_merge_total [OF a, of "cw_last w"] last by (metis)
  show thesis
  proof (cases j)
    case True
    then have "runs_inv sbi bs ?c (length f) (ps @ [a]) S (cw_minextblks w)"
      using j last by (intro runs_inv_joined [OF r]) (auto split: if_splits)
    moreover have "S \<le> length ps" using r by (simp add: runs_inv_def)
    ultimately show thesis using that [of "cw_start w" "cw_minextblks w" S] S(1) j True by (simp add: merge_step_def)
  next
    case False
    then have ne: "ps \<noteq> []" using j last by (auto simp: erofs_blob_can_merge_def)
    have "runs_inv sbi bs ?c (length f) (ps @ [a]) (length ps) (erofs_update_minextblks sbi (cw_start w) (cw_pos w) (cw_minextblks w))"
      using S ne p b by (intro runs_inv_cut [OF r]) (simp_all add: cB)
    then show thesis using that [OF _ p(1)] j False by (simp add: merge_step_def)
  qed
qed

lemma csize_word: "bits < 64 \<Longrightarrow> (push_bit bits 1 :: u64) = 2 ^ bits" "bits < 64 \<Longrightarrow> unat (push_bit bits 1 :: u64) = 2 ^ bits"
  by (simp_all add: unat_exp64)

lemma hole_loop_ok:
  assumes "unat (cw_pos w) = p * 2 ^ bits" "unat offset = j * 2 ^ bits" "p < j" "bits < 64"
    and "8 * (cw_idx w + (j - p)) \<le> length (cw_indexes w)" "j - p \<le> n"
  obtains buf where "hole_loop n 8 (push_bit bits 1) offset w = Inr (w\<lparr>cw_indexes := buf, cw_idx := cw_idx w + (j - p), cw_pos := offset\<rparr>)"
    "length buf = length (cw_indexes w)"
    "\<forall>i. ptr_load 8 buf i = (if cw_idx w \<le> i \<and> i < cw_idx w + (j - p) then Inr holechunk else ptr_load 8 (cw_indexes w) i)"
  using assms
proof (induction n arbitrary: p w thesis)
  case 0
  then show ?case by simp
next
  case (Suc n)
  obtain b where b: "ptr_store 8 (cw_indexes w) (cw_idx w) holechunk = Inr b" "length b = length (cw_indexes w)"
      "ptr_load 8 b (cw_idx w) = Inr holechunk" "\<forall>i. i \<noteq> cw_idx w \<longrightarrow> ptr_load 8 b i = ptr_load 8 (cw_indexes w) i"
    by (rule ptr_store_8 [of "cw_idx w" "cw_indexes w" holechunk]) (use Suc.prems(4,6) in auto)
  define w1 where "w1 = w\<lparr>cw_indexes := b, cw_idx := Suc (cw_idx w), cw_pos := cw_pos w + push_bit bits 1\<rparr>"
  have "Suc p * 2 ^ bits \<le> j * 2 ^ bits" using Suc.prems(4) by (intro mult_right_mono) simp_all
  then have "p * 2 ^ bits + 2 ^ bits < 2 ^ 64" using Suc.prems(3) unsigned_less [of offset, where ?'a = nat] by simp
  then have pos: "unat (cw_pos w1) = Suc p * 2 ^ bits"
    using Suc.prems(2,5) by (simp add: w1_def unat_word_ariths csize_word(2) del: push_bit_of_1)
  have step: "hole_loop (Suc n) 8 (push_bit bits 1) offset w =
      (if cw_pos w1 < offset then hole_loop n 8 (push_bit bits 1) offset w1 else Inr w1)"
    using b(1) by (simp add: w1_def Let_def)
  show ?case
  proof (cases "Suc p < j")
    case True
    then have "Suc p * 2 ^ bits < j * 2 ^ bits" by (intro mult_strict_right_mono) simp_all
    then have lt: "cw_pos w1 < offset" using pos Suc.prems(3) by (simp only: word_less_nat_alt)
    obtain b2 where b2: "hole_loop n 8 (push_bit bits 1) offset w1 = Inr (w1\<lparr>cw_indexes := b2, cw_idx := cw_idx w1 + (j - Suc p), cw_pos := offset\<rparr>)"
        "length b2 = length (cw_indexes w1)"
        "\<forall>i. ptr_load 8 b2 i = (if cw_idx w1 \<le> i \<and> i < cw_idx w1 + (j - Suc p) then Inr holechunk else ptr_load 8 (cw_indexes w1) i)"
      by (rule Suc.IH [OF _ pos Suc.prems(3) True Suc.prems(5)]) (use Suc.prems(6,7) True b(2) in \<open>auto simp: w1_def\<close>)
    show ?thesis
    proof (rule Suc.prems(1))
      show "hole_loop (Suc n) 8 (push_bit bits 1) offset w = Inr (w\<lparr>cw_indexes := b2, cw_idx := cw_idx w + (j - p), cw_pos := offset\<rparr>)"
        unfolding step using lt b2(1) True by (simp add: w1_def)
      show "length b2 = length (cw_indexes w)" using b2(2) b(2) by (simp add: w1_def)
      show "\<forall>i. ptr_load 8 b2 i = (if cw_idx w \<le> i \<and> i < cw_idx w + (j - p) then Inr holechunk else ptr_load 8 (cw_indexes w) i)"
        using b2(3) b(3,4) True by (auto simp: w1_def not_less_eq_eq le_less_Suc_eq)
    qed
  next
    case False
    then have j: "j = Suc p" using Suc.prems(4) by simp
    then have po: "cw_pos w1 = offset" using pos Suc.prems(3) by (simp add: word_unat_eq_iff)
    show ?thesis
    proof (rule Suc.prems(1))
      show "hole_loop (Suc n) 8 (push_bit bits 1) offset w = Inr (w\<lparr>cw_indexes := b, cw_idx := cw_idx w + (j - p), cw_pos := offset\<rparr>)"
        unfolding step using po j by (simp add: w1_def)
      show "length b = length (cw_indexes w)" by (rule b(2))
      show "\<forall>i. ptr_load 8 b i = (if cw_idx w \<le> i \<and> i < cw_idx w + (j - p) then Inr holechunk else ptr_load 8 (cw_indexes w) i)"
        using b(3,4) j by (auto simp: le_less_Suc_eq)
    qed
  qed
qed

lemma next_data_ok:
  assumes s: "source_ok src startoff f" and p: "unat (cw_pos w) = p * 2 ^ bits" "p * 2 ^ bits < length f" and b: "bits \<le> 43"
  obtains offset fd j where "next_data src bits startoff w = Inr (offset, w\<lparr>cw_fdpos := fd\<rparr>)" "unat offset = j * 2 ^ bits" "p \<le> j"
    "j * 2 ^ bits < length f + 2 ^ bits" "\<forall>i. p * 2 ^ bits \<le> i \<longrightarrow> i < j * 2 ^ bits \<longrightarrow> i < length f \<longrightarrow> f ! i = 0"
    "j = p \<Longrightarrow> fd = startoff + cw_pos w \<and> seek_data src (startoff + cw_pos w) \<noteq> Err ENXIO"
proof -
  have lim: "unat startoff + length f < 2 ^ 62" using s by (simp add: source_ok_def)
  have C: "(2::nat) ^ bits \<le> 2 ^ 43" using b by (intro power_increasing) simp_all
  have pw: "cw_pos w = of_nat (p * 2 ^ bits)" by (metis of_nat_unat p(1) ucast_id)
  have at: "case seek_data src (startoff + of_nat (p * 2 ^ bits)) of
        Inl e \<Rightarrow> e = Errno ENXIO \<and> (\<forall>i. p * 2 ^ bits \<le> i \<longrightarrow> i < length f \<longrightarrow> f ! i = 0 \<and> seek_data src (startoff + of_nat i) = Err ENXIO)
      | Inr q \<Rightarrow> \<exists>k. q = startoff + of_nat k \<and> p * 2 ^ bits \<le> k \<and> k < length f \<and> (\<forall>i. p * 2 ^ bits \<le> i \<longrightarrow> i < k \<longrightarrow> f ! i = 0)"
    using s p(2) unfolding source_ok_def by blast
  note at = at [folded pw]
  show thesis
  proof (cases "seek_data src (startoff + cw_pos w)")
    case (Inl e)
    have dp: "unat (drop_bit bits (cw_pos w)) = p"
      by (simp only: unat_drop_bit_eq) (simp add: drop_bit_eq_div p(1))
    have lt: "Suc p * 2 ^ bits < 2 ^ 64" using p(2) lim C by simp
    have "Suc p * 1 \<le> Suc p * 2 ^ bits" by (intro mult_left_mono) simp_all
    then have "unat (drop_bit bits (cw_pos w) + 1) = Suc p" using lt dp by (simp add: unat_word_ariths)
    then have off: "unat (push_bit bits (drop_bit bits (cw_pos w) + 1)) = Suc p * 2 ^ bits" using lt by (subst unat_push_small) simp_all
    have e: "e = Errno ENXIO" "\<forall>i. p * 2 ^ bits \<le> i \<longrightarrow> i < length f \<longrightarrow> f ! i = 0" using at Inl by auto
    have run: "next_data src bits startoff w = Inr (push_bit bits (drop_bit bits (cw_pos w) + 1), w\<lparr>cw_fdpos := cw_fdpos w\<rparr>)"
      using Inl e(1) by (simp add: next_data_def add.commute)
    show thesis by (rule that [OF run off]) (use e(2) p(2) in auto)
  next
    case (Inr q)
    then obtain k where k: "q = startoff + of_nat k" "p * 2 ^ bits \<le> k" "k < length f" "\<forall>i. p * 2 ^ bits \<le> i \<longrightarrow> i < k \<longrightarrow> f ! i = 0"
      using at by auto
    define al where "al = (of_nat k :: u64) AND NOT (push_bit bits 1 - 1)"
    have uk: "unat (of_nat k :: u64) = k" using k(3) lim by (simp add: unat_of_nat)
    have "al = round_down (of_nat k) (2 ^ bits)" using b by (simp add: al_def round_down_def)
    then have ual: "unat al = k div 2 ^ bits * 2 ^ bits" using b uk by (simp add: unat_round_down)
    have run: "next_data src bits startoff w = Inr (al, w\<lparr>cw_fdpos := startoff + al\<rparr>)"
    proof -
      have "seek_set src x" for x using s by (simp add: source_ok_def)
      then show ?thesis using Inr k(1) by (simp add: next_data_def Let_def al_def add.commute)
    qed
    have le: "p \<le> k div 2 ^ bits" using k(2) by (simp add: less_eq_div_iff_mult_less_eq)
    have dk: "k div 2 ^ bits * 2 ^ bits \<le> k" by simp
    show thesis
    proof (rule that [OF run ual le])
      show "k div 2 ^ bits * 2 ^ bits < length f + 2 ^ bits" using dk k(3) by linarith
      show "\<forall>i. p * 2 ^ bits \<le> i \<longrightarrow> i < k div 2 ^ bits * 2 ^ bits \<longrightarrow> i < length f \<longrightarrow> f ! i = 0"
        using k(4) dk by (meson less_le_trans)
      assume "k div 2 ^ bits = p"
      then have "al = cw_pos w" using ual p(1) by (simp add: word_unat_eq_iff)
      then show "startoff + al = startoff + cw_pos w \<and> seek_data src (startoff + cw_pos w) \<noteq> Err ENXIO" using Inr by simp
    qed
  qed
qed

lemma scast_small:
  assumes "n < 2 ^ 31"
  shows "(scast (of_nat n :: u32) :: u64) = of_nat n"
proof -
  have "sint (of_nat n :: u32) = int n"
    using assms by (simp add: signed_of_nat signed_take_bit_int_eq_self)
  then show ?thesis by (metis of_int_of_nat_eq of_int_sint)
qed

lemma read_chunk_ok:
  assumes s: "source_ok src startoff f" and fd: "cw_fdpos w = startoff + cw_pos w" and n: "unat len = n" "n < 2 ^ 31" "n \<le> length (cw_data w)"
    and p: "unat (cw_pos w) + n \<le> length f"
  obtains buf fd' where "read_chunk src len w = Inr (w\<lparr>cw_data := buf, cw_fdpos := fd'\<rparr>)" "length buf = length (cw_data w)"
    "slice buf 0 n = Inr (take n (drop (unat (cw_pos w)) f))"
proof -
  define d where "d = take n (drop (unat (cw_pos w)) f)"
  have l: "length d = n" using p by (simp add: d_def)
  have "read_at src (startoff + of_nat (unat (cw_pos w))) n = Inr d" using s p unfolding source_ok_def d_def by blast
  then have r: "read_at src (cw_fdpos w) (unat len) = Inr d" using fd n(1) by simp
  obtain buf where b: "memput (cw_data w) 0 d = Inr buf" using n(3) l by (simp add: memput_def)
  note m = take_memput [OF b]
  have ln: "of_nat n = len" using n(1) by (metis of_nat_unat ucast_id)
  have "read_chunk src len w = Inr (w\<lparr>cw_data := buf, cw_fdpos := cw_fdpos w + of_nat n\<rparr>)"
    using r b scast_small [OF n(2)] by (simp add: read_chunk_def l ln)
  moreover have "slice buf 0 n = Inr d" using m(1,2) n(3) l by (simp add: slice_def)
  ultimately show thesis using that [of _ buf] m(1) unfolding d_def by blast
qed

definition room :: "erofs_sb_info \<Rightarrow> nat \<Rightarrow> nat \<Rightarrow> blob_state \<Rightarrow> bool" where
  "room sbi C n bs \<longleftrightarrow>
     (\<forall>f. blobfile bs = Some f \<longrightarrow> length f + n * (C + 2 ^ blkbits sbi) < (2 ^ 32 - 1) * 2 ^ blkbits sbi) \<and>
     size (bag (blob_hashmap bs)) + n < 858993459 \<and> bl_fresh bs + n < 2 ^ 64"

lemma room_less: "room sbi C n bs \<Longrightarrow> m \<le> n \<Longrightarrow> room sbi C m bs"
  unfolding room_def by (auto intro: le_less_trans [OF add_left_mono [OF mult_right_mono]])

abbreviation nchunks :: "nat \<Rightarrow> bytes \<Rightarrow> nat" where
  "nchunks C f \<equiv> (length f + C - 1) div C"

lemma nchunks_bounds:
  assumes "0 < C"
  shows "k * C < length f + C \<longleftrightarrow> k \<le> nchunks C f" and "length f \<le> nchunks C f * C"
proof -
  have "k * C < length f + C \<longleftrightarrow> k * C \<le> length f + C - 1" using assms by linarith
  then show "k * C < length f + C \<longleftrightarrow> k \<le> nchunks C f" using assms by (simp add: less_eq_div_iff_mult_less_eq)
  show "length f \<le> nchunks C f * C" by (rule ceil_div_bounds(1) [OF assms])
qed

text \<open>A chunk behind the others.\<close>

lemma cw_inv_append:
  assumes w: "cw_inv sbi bits f ps w bs" and st: "unat s = S * 2 ^ bits" "S \<le> length ps"
    and r: "runs_inv sbi bs (2 ^ (bits - blkbits sbi)) (length f) (ps @ qs) S m" and qs: "qs \<noteq> []"
    and ci: "\<forall>i<length qs. chunk_is sbi bs (qs ! i) (fchunk (2 ^ bits) f (length ps + i))"
    and ptr: "\<forall>i. ptr_load 8 buf i = (if length ps \<le> i \<and> i < length ps + length qs then Inr (qs ! (i - length ps)) else ptr_load 8 (cw_indexes w) i)"
    and n: "(length ps + length qs) * 2 ^ bits < length f + 2 ^ bits"
    and pos: "unat pos = (length ps + length qs) * 2 ^ bits \<or> unat pos = length f \<and> length f \<le> (length ps + length qs) * 2 ^ bits"
    and w': "cw_idx w' = length ps + length qs" "length (cw_data w') = 2 ^ bits" "cw_indexes w' = buf" "cw_last w' = Some (last qs)"
      "cw_pos w' = pos" "cw_start w' = s" "cw_minextblks w' = m"
  shows "cw_inv sbi bits f (ps @ qs) w' bs"
proof -
  have "ptr_load 8 buf i = Inr ((ps @ qs) ! i) \<and> chunk_is sbi bs ((ps @ qs) ! i) (fchunk (2 ^ bits) f i)" if i: "i < length (ps @ qs)" for i
  proof (cases "i < length ps")
    case True
    then show ?thesis using w ptr by (simp add: cw_inv_def nth_append)
  next
    case False
    then show ?thesis using i ci [rule_format, of "i - length ps"] ptr by (simp add: nth_append)
  qed
  moreover have "cw_last w' = (if ps @ qs = [] then None else Some (last (ps @ qs)))" using w'(4) qs by simp
  moreover have "S < length (ps @ qs)" using st(2) qs by (simp add: le_less_trans)
  ultimately show ?thesis
    unfolding cw_inv_def using w' st(1) r n pos by (intro conjI exI [of _ S]) simp_all
qed

lemma runs_inv_holes: "runs_inv sbi bs c flen (ps @ [holechunk]) S m \<Longrightarrow> runs_inv sbi bs c flen (ps @ replicate (Suc n) holechunk) S m"
proof (induction n)
  case (Suc n)
  have "joined sbi bs (last (ps @ replicate (Suc n) holechunk)) holechunk" by (simp add: erofs_blob_can_merge_def)
  from runs_inv_joined [OF Suc.IH [OF Suc.prems] disjI2 [OF this]] show ?case
    by (simp add: replicate_append_same)
qed simp

lemma hole_chunk:
  assumes "\<forall>i. p * C \<le> i \<longrightarrow> i < j * C \<longrightarrow> i < length f \<longrightarrow> f ! i = 0" and "p \<le> i" "i < j"
  shows "chunk_is sbi bs holechunk (fchunk C f i)"
proof -
  have h: "p * C \<le> i * C" "Suc i * C \<le> j * C" using assms(2,3) by (simp_all only: mult_le_mono1 Suc_leI)
  have "fchunk C f i = replicate (length (fchunk C f i)) 0"
  proof (rule nth_equalityI)
    fix k assume k: "k < length (fchunk C f i)"
    have "p * C \<le> i * C + k" using h(1) by (rule trans_le_add1)
    moreover have lt: "i * C + k < j * C" "i * C + k < length f" using k h(2) by (auto simp: fchunk_def)
    ultimately have "f ! (i * C + k) = 0" using assms(1) by blast
    moreover have "i * C \<le> length f" using lt(2) by linarith
    ultimately have "drop (i * C) f ! k = 0" by simp
    then show "fchunk C f i ! k = replicate (length (fchunk C f i)) 0 ! k" using k by (simp add: fchunk_def)
  qed simp
  then show ?thesis by (simp add: chunk_is_def)
qed

lemma hole_step:
  assumes w: "cw_inv sbi bits f ps w bs" and p: "unat (cw_pos w) = length ps * 2 ^ bits" "unat (cw_pos w) < length f"
    and b: "blkbits sbi \<le> bits" "bits \<le> 43" "length f < 2 ^ 32 * 2 ^ blkbits sbi" and arr: "8 * nchunks (2 ^ bits) f \<le> length (cw_indexes w)"
    and j: "unat offset = j * 2 ^ bits" "length ps < j" "j * 2 ^ bits < length f + 2 ^ bits"
    and z: "\<forall>i. length ps * 2 ^ bits \<le> i \<longrightarrow> i < j * 2 ^ bits \<longrightarrow> i < length f \<longrightarrow> f ! i = 0"
  obtains w1 w2 where "merge_step sbi bs holechunk w = Inr w1" "cw_pos w1 = cw_pos w"
    "hole_loop (Suc (unat (offset - cw_pos w))) 8 (push_bit bits 1) offset w1 = Inr w2"
    "cw_inv sbi bits f (ps @ replicate (j - length ps) holechunk) (w2\<lparr>cw_last := Some holechunk\<rparr>) bs" "length (cw_indexes w2) = length (cw_indexes w)"
proof -
  let ?qs = "replicate (j - length ps) holechunk"
  have idx: "cw_idx w = length ps" "length (cw_data w) = 2 ^ bits" using w by (simp_all add: cw_inv_def)
  obtain m s S where ms: "merge_step sbi bs holechunk w = Inr (w\<lparr>cw_minextblks := m, cw_start := s\<rparr>)" "unat s = S * 2 ^ bits" "S \<le> length ps"
    and r: "runs_inv sbi bs (2 ^ (bits - blkbits sbi)) (length f) (ps @ [holechunk]) S m"
    by (rule merge_step_ok [OF w hole_chunk [OF z order_refl j(2)] p b(1,3)])
  let ?w = "w\<lparr>cw_minextblks := m, cw_start := s\<rparr>"
  have jn: "j \<le> nchunks (2 ^ bits) f" using j(3) nchunks_bounds(1) [of "2 ^ bits" j f] by simp
  have fuel: "j - length ps \<le> Suc (unat (offset - cw_pos w))"
  proof -
    have "length ps * 2 ^ bits \<le> j * 2 ^ bits" using j(2) by simp
    then have "unat (offset - cw_pos w) = (j - length ps) * 2 ^ bits" using j(1) p(1) by (simp add: unat_sub word_le_nat_alt diff_mult_distrib)
    moreover have "(j - length ps) * 1 \<le> (j - length ps) * 2 ^ bits" by (intro mult_left_mono) simp_all
    ultimately show ?thesis by linarith
  qed
  obtain buf where hl: "hole_loop (Suc (unat (offset - cw_pos w))) 8 (push_bit bits 1) offset ?w =
        Inr (?w\<lparr>cw_indexes := buf, cw_idx := cw_idx ?w + (j - length ps), cw_pos := offset\<rparr>)" "length buf = length (cw_indexes ?w)"
      and ptr: "\<forall>i. ptr_load 8 buf i = (if cw_idx ?w \<le> i \<and> i < cw_idx ?w + (j - length ps) then Inr holechunk else ptr_load 8 (cw_indexes ?w) i)"
    by (rule hole_loop_ok [of ?w "length ps" bits offset j "Suc (unat (offset - cw_pos w))"])
      (use p(1) j b(2) arr jn idx fuel in auto)
  obtain n where n: "j - length ps = Suc n" using j(2) by (metis Suc_diff_Suc)
  show thesis
  proof (rule that [OF ms(1) _ hl(1)])
    show "cw_inv sbi bits f (ps @ ?qs) (?w\<lparr>cw_indexes := buf, cw_idx := cw_idx ?w + (j - length ps), cw_pos := offset, cw_last := Some holechunk\<rparr>) bs"
    proof (rule cw_inv_append [OF w ms(2,3), where pos = offset and m = m and buf = buf])
      show "runs_inv sbi bs (2 ^ (bits - blkbits sbi)) (length f) (ps @ ?qs) S m" unfolding n by (rule runs_inv_holes [OF r])
      show "\<forall>i<length ?qs. chunk_is sbi bs (?qs ! i) (fchunk (2 ^ bits) f (length ps + i))"
        using hole_chunk [OF z] by (metis add_less_imp_less_left j(2) le_add1 le_add_diff_inverse length_replicate less_imp_le nat_add_left_cancel_less nth_replicate)
      show "\<forall>i. ptr_load 8 buf i = (if length ps \<le> i \<and> i < length ps + length ?qs then Inr (?qs ! (i - length ps)) else ptr_load 8 (cw_indexes w) i)"
        using ptr idx by auto
      have lj: "length ps + length ?qs = j" using j(2) by simp
      show "(length ps + length ?qs) * 2 ^ bits < length f + 2 ^ bits" unfolding lj by (rule j(3))
      show "unat offset = (length ps + length ?qs) * 2 ^ bits \<or> unat offset = length f \<and> length f \<le> (length ps + length ?qs) * 2 ^ bits"
        unfolding lj using j(1) by simp
    qed (use n idx in simp_all)
  qed (use hl(2) in simp_all)
qed

lemma data_step:
  assumes w: "cw_inv sbi bits f ps w bs" and p: "unat (cw_pos w) = length ps * 2 ^ bits" "unat (cw_pos w) < length f"
    and b: "blkbits sbi \<le> bits" "bits \<le> 30" "blkbits sbi \<le> 12" "extra_devices sbi = 0" "length f < 2 ^ 32 * 2 ^ blkbits sbi"
    and arr: "8 * nchunks (2 ^ bits) f \<le> length (cw_indexes w)"
    and s: "source_ok src startoff f" "cw_fdpos w = startoff + cw_pos w" and isize: "unat isize = length f"
    and inv: "blob_inv sbi D bs" "collision_free D" "\<forall>i<nchunks (2 ^ bits) f. fchunk (2 ^ bits) f i \<in> D" and we: "\<forall>p. \<not> werr p" and rm: "room sbi (2 ^ bits) (Suc n) bs"
  obtains w1 data a bs' w2 buf where "read_chunk src (min (isize - cw_pos w) (push_bit bits 1)) w = Inr w1" 
    "slice (cw_data w1) 0 (unat (min (isize - cw_pos w) (push_bit bits 1))) = Inr data" "erofs_blob_getchunk werr sbi data bs = Inr (a, bs')"
    "merge_step sbi bs' a w1 = Inr w2" "ptr_store 8 (cw_indexes w2) (cw_idx w2) a = Inr buf" "length buf = length (cw_indexes w)"
    "cw_inv sbi bits f (ps @ [a]) (w2\<lparr>cw_indexes := buf, cw_idx := Suc (cw_idx w2), cw_last := Some a,
       cw_pos := cw_pos w2 + min (isize - cw_pos w) (push_bit bits 1)\<rparr>) bs'"
    "blob_inv sbi D bs'" "extends bs bs'" "room sbi (2 ^ bits) n bs'"
proof -
  let ?C = "2 ^ bits :: nat" and ?P = "length ps * 2 ^ bits"
  define len where "len = min (isize - cw_pos w) (push_bit bits 1)"
  define d where "d = fchunk ?C f (length ps)"
  have idx: "cw_idx w = length ps" "length (cw_data w) = ?C" using w by (simp_all add: cw_inv_def)
  have C: "?C \<le> 2 ^ 30" using b(2) by (intro power_increasing) simp_all
  have ul: "unat len = min (length f - ?P) ?C"
  proof -
    have "unat (isize - cw_pos w) = length f - ?P" using isize p by (simp add: unat_sub word_le_nat_alt)
    then show ?thesis using csize_word(2) [of bits] b(2) by (auto simp: len_def min_def word_le_nat_alt)
  qed
  have dl: "length d = unat len" "d = take (unat len) (drop ?P f)" by (simp_all add: d_def fchunk_def ul min_def)
  have d0: "d \<noteq> []" using dl(1) ul p by (auto simp: min_def split: if_splits)
  obtain b1 fd where r: "read_chunk src len w = Inr (w\<lparr>cw_data := b1, cw_fdpos := fd\<rparr>)" "length b1 = length (cw_data w)" "slice b1 0 (unat len) = Inr d"
    by (rule read_chunk_ok [OF s refl, of len]) (use ul C p idx dl(2) in auto)
  have rmd: "\<forall>g. blobfile bs = Some g \<longrightarrow> length g + length d + 2 ^ blkbits sbi < (2 ^ 32 - 1) * 2 ^ blkbits sbi"
  proof (intro allI impI)
    fix g assume "blobfile bs = Some g"
    then have "length g + (?C + 2 ^ blkbits sbi) + n * (?C + 2 ^ blkbits sbi) < (2 ^ 32 - 1) * 2 ^ blkbits sbi" using rm by (simp add: room_def)
    then show "length g + length d + 2 ^ blkbits sbi < (2 ^ 32 - 1) * 2 ^ blkbits sbi" using dl(1) ul by linarith
  qed
  have "length ps < nchunks ?C f" using p nchunks_bounds(1) [of ?C "Suc (length ps)" f] by simp
  then have dD: "d \<in> D" using inv(3) by (simp add: d_def)
  have few: "size (bag (blob_hashmap bs)) < 858993459" "bl_fresh bs < 2 ^ 64" using rm by (simp_all add: room_def)
  obtain a bs' where g: "erofs_blob_getchunk werr sbi d bs = Inr (a, bs')" "blob_inv sbi D bs'" "extends bs bs'" "chunk_is sbi bs' a d"
      "bl_fresh bs' \<le> Suc (bl_fresh bs)" "size (bag (blob_hashmap bs')) \<le> Suc (size (bag (blob_hashmap bs)))"
    and grow: "\<forall>f f'. blobfile bs = Some f \<longrightarrow> blobfile bs' = Some f' \<longrightarrow> length f' \<le> length f + length d + 2 ^ blkbits sbi"
    by (rule getchunk_ok [OF inv(1,2) dD d0 b(3,4) we rmd few])
  let ?w1 = "w\<lparr>cw_data := b1, cw_fdpos := fd\<rparr>"
  have w1: "cw_inv sbi bits f ps ?w1 bs'" using cw_inv_extends [OF w g(3)] r(2) by (simp add: cw_inv_def)
  obtain m t S where ms: "merge_step sbi bs' a ?w1 = Inr (?w1\<lparr>cw_minextblks := m, cw_start := t\<rparr>)" "unat t = S * ?C" "S \<le> length ps"
    and rn: "runs_inv sbi bs' (2 ^ (bits - blkbits sbi)) (length f) (ps @ [a]) S m"
    by (rule merge_step_ok [OF w1 g(4) _ _ b(1,5)]) (use p in simp_all)
  let ?w2 = "?w1\<lparr>cw_minextblks := m, cw_start := t\<rparr>"
  have n1: "Suc (length ps) * ?C < length f + ?C" using p by simp
  then have "8 * Suc (length ps) \<le> length (cw_indexes w)" using arr nchunks_bounds(1) [of ?C "Suc (length ps)" f] by simp
  then obtain buf where st: "ptr_store 8 (cw_indexes w) (length ps) a = Inr buf" "length buf = length (cw_indexes w)" "ptr_load 8 buf (length ps) = Inr a"
      and oth: "\<forall>i. i \<noteq> length ps \<longrightarrow> ptr_load 8 buf i = ptr_load 8 (cw_indexes w) i"
    using ptr_store_8 [of "length ps" "cw_indexes w" a] g(4) by (auto simp: chunk_is_def)
  have up: "unat (cw_pos w + len) = ?P + unat len"
  proof -
    have "length f < 2 ^ 64" using isize unsigned_less [of isize, where ?'a = nat] by simp
    then show ?thesis using p ul by (simp add: unat_word_ariths)
  qed
  have "cw_inv sbi bits f (ps @ [a]) (?w2\<lparr>cw_indexes := buf, cw_idx := Suc (cw_idx ?w2), cw_last := Some a, cw_pos := cw_pos ?w2 + len\<rparr>) bs'"
  proof (rule cw_inv_append [OF w1 ms(2,3) rn, where pos = "cw_pos w + len" and buf = buf])
    show "\<forall>i. ptr_load 8 buf i = (if length ps \<le> i \<and> i < length ps + length [a] then Inr ([a] ! (i - length ps)) else ptr_load 8 (cw_indexes ?w1) i)"
      using st(3) oth by (auto simp: le_less_Suc_eq)
    show "unat (cw_pos w + len) = (length ps + length [a]) * ?C \<or> unat (cw_pos w + len) = length f \<and> length f \<le> (length ps + length [a]) * ?C"
      using up ul p by (auto simp: min_def)
  qed (use n1 idx r(2) g(4) in \<open>simp_all add: d_def\<close>)
  moreover have "room sbi ?C n bs'"
    unfolding room_def
  proof (intro conjI allI impI)
    fix g' assume g': "blobfile bs' = Some g'"
    obtain g0 where g0: "blobfile bs = Some g0" using inv(1) by (auto simp: blob_inv_def)
    then have "length g' \<le> length g0 + length d + 2 ^ blkbits sbi" using grow g' by blast
    moreover have "length g0 + (?C + 2 ^ blkbits sbi) + n * (?C + 2 ^ blkbits sbi) < (2 ^ 32 - 1) * 2 ^ blkbits sbi" using rm g0 by (simp add: room_def)
    ultimately show "length g' + n * (?C + 2 ^ blkbits sbi) < (2 ^ 32 - 1) * 2 ^ blkbits sbi" using dl(1) ul by linarith
  qed (use rm g(5,6) in \<open>simp_all add: room_def\<close>)
  ultimately show thesis
    using that [of ?w1 d a bs' ?w2 buf] r g(1,2,3) ms(1) st(1,2) idx by (simp add: len_def)
qed

lemma cw_done:
  assumes "cw_inv sbi bits f ps w bs" and "\<not> unat (cw_pos w) < length f"
  shows "length ps = nchunks (2 ^ bits) f"
proof -
  have "length f \<le> length ps * 2 ^ bits" and lt: "length ps * 2 ^ bits < length f + 2 ^ bits" using assms by (auto simp: cw_inv_def)
  then have "length f + 2 ^ bits - 1 < Suc (length ps) * 2 ^ bits" by (simp add: less_diff_conv2 trans_less_add1)
  then have "nchunks (2 ^ bits) f < Suc (length ps)" by (simp only: div_less_iff_less_mult zero_less_power zero_less_numeral)
  moreover have "length ps \<le> nchunks (2 ^ bits) f" using lt nchunks_bounds(1) [of "2 ^ bits" "length ps" f] by simp
  ultimately show ?thesis by simp
qed

lemma chunked_loop_ok:
  assumes "cw_inv sbi bits f ps w bs" and "blob_inv sbi D bs"
    and b: "blkbits sbi \<le> bits" "bits \<le> 43" "blkbits sbi \<le> 12" "extra_devices sbi = 0" "length f < 2 ^ 32 * 2 ^ blkbits sbi"
    and "8 * nchunks (2 ^ bits) f \<le> length (cw_indexes w)"
    and s: "source_ok src startoff f" and isize: "unat isize = length f"
    and D: "collision_free D" and we: "\<forall>p. \<not> werr p"
    and "sparse \<or> room sbi (2 ^ bits) (nchunks (2 ^ bits) f - length ps) bs" "nchunks (2 ^ bits) f - length ps < n"
    and big: "sparse \<or> bits \<le> 30 \<and> (\<forall>i<nchunks (2 ^ bits) f. fchunk (2 ^ bits) f i \<in> D)"
    and sp: "sparse \<longleftrightarrow> (\<forall>p<length f. seek_data src (startoff + of_nat p) = Err ENXIO)"
  shows "\<exists>ps' w' bs'. chunked_loop n werr 8 src sbi isize bits startoff w bs = Inr (w', bs') \<and> cw_inv sbi bits f ps' w' bs' \<and>
    length ps' = nchunks (2 ^ bits) f \<and> blob_inv sbi D bs' \<and> extends bs bs' \<and> length (cw_indexes w') = length (cw_indexes w)"
  using assms(1,2,8,13,14)
proof (induction n arbitrary: ps w bs)
  case 0
  then show ?case by simp
next
  case (Suc n)
  note w = Suc.prems(1) and inv = Suc.prems(2) and arr = Suc.prems(3) and rm = Suc.prems(4) and fuel = Suc.prems(5)
  show ?case
  proof (cases "unat (cw_pos w) < length f")
    case False
    then have "chunked_loop (Suc n) werr 8 src sbi isize bits startoff w bs = Inr (w, bs)"
      using isize by (simp add: word_less_nat_alt)
    then show ?thesis using w inv cw_done [OF w False] extends_refl [OF inv] by blast
  next
    case lt: True
    then have p: "unat (cw_pos w) = length ps * 2 ^ bits" using w by (auto simp: cw_inv_def)
    have lp: "length ps < nchunks (2 ^ bits) f"
      using lt p nchunks_bounds(1) [of "2 ^ bits" "Suc (length ps)" f] by simp
    obtain offset fd j where nd: "next_data src bits startoff w = Inr (offset, w\<lparr>cw_fdpos := fd\<rparr>)" "unat offset = j * 2 ^ bits" "length ps \<le> j"
        "j * 2 ^ bits < length f + 2 ^ bits" "\<forall>i. length ps * 2 ^ bits \<le> i \<longrightarrow> i < j * 2 ^ bits \<longrightarrow> i < length f \<longrightarrow> f ! i = 0"
      and fd: "j = length ps \<Longrightarrow> fd = startoff + cw_pos w \<and> seek_data src (startoff + cw_pos w) \<noteq> Err ENXIO"
      using next_data_ok [OF s p _ b(2)] lt p by metis
    let ?w = "w\<lparr>cw_fdpos := fd\<rparr>"
    have w0: "cw_inv sbi bits f ps ?w bs" using w by (simp add: cw_inv_def)
    note step = chunked_loop.simps(2) [of n werr 8 src sbi isize bits startoff w bs]
    have go: "\<not> \<not> cw_pos w < isize" using lt isize by (simp add: word_less_nat_alt)
    show ?thesis
    proof (cases "j = length ps")
      case False
      then have j: "length ps < j" using nd(3) by simp
      then have lo: "cw_pos w < offset" using nd(2) p by (simp add: word_less_nat_alt)
      obtain w1 w2 where h: "merge_step sbi bs holechunk ?w = Inr w1" "cw_pos w1 = cw_pos ?w"
          "hole_loop (Suc (unat (offset - cw_pos ?w))) 8 (push_bit bits 1) offset w1 = Inr w2"
          "cw_inv sbi bits f (ps @ replicate (j - length ps) holechunk) (w2\<lparr>cw_last := Some holechunk\<rparr>) bs" "length (cw_indexes w2) = length (cw_indexes ?w)"
        by (rule hole_step [OF w0 _ _ b(1,2,5) _ nd(2) j nd(4,5)]) (use p lt arr in simp_all)
      have run: "chunked_loop (Suc n) werr 8 src sbi isize bits startoff w bs =
          chunked_loop n werr 8 src sbi isize bits startoff (w2\<lparr>cw_last := Some holechunk\<rparr>) bs"
        unfolding step using go nd(1) lo h(1-3) by (simp add: Let_def del: hole_loop.simps)
      show ?thesis
        unfolding run using Suc.IH [OF h(4) inv] arr h(5) rm room_less [of sbi "2 ^ bits" "nchunks (2 ^ bits) f - length ps" bs] fuel j lp by auto
    next
      case True
      note fd = fd [OF True]
      have "\<not> sparse" using sp fd lt by (metis of_nat_unat ucast_id)
      then have b30: "bits \<le> 30" and DD: "\<forall>i<nchunks (2 ^ bits) f. fchunk (2 ^ bits) f i \<in> D" using big by blast+
      have rm: "room sbi (2 ^ bits) (nchunks (2 ^ bits) f - length ps) bs" using rm \<open>\<not> sparse\<close> by simp
      obtain k where k: "nchunks (2 ^ bits) f - length ps = Suc k" using lp by (metis Suc_diff_Suc)
      obtain w1 data a bs' w2 buf where d: "read_chunk src (min (isize - cw_pos ?w) (push_bit bits 1)) ?w = Inr w1" 
          "slice (cw_data w1) 0 (unat (min (isize - cw_pos ?w) (push_bit bits 1))) = Inr data" "erofs_blob_getchunk werr sbi data bs = Inr (a, bs')"
          "merge_step sbi bs' a w1 = Inr w2" "ptr_store 8 (cw_indexes w2) (cw_idx w2) a = Inr buf" "length buf = length (cw_indexes ?w)"
        and nx: "cw_inv sbi bits f (ps @ [a]) (w2\<lparr>cw_indexes := buf, cw_idx := Suc (cw_idx w2), cw_last := Some a,
             cw_pos := cw_pos w2 + min (isize - cw_pos ?w) (push_bit bits 1)\<rparr>) bs'"
          "blob_inv sbi D bs'" "extends bs bs'" "room sbi (2 ^ bits) k bs'"
        by (rule data_step [OF w0 _ _ b(1) b30 b(3-5) _ s _ isize inv D DD we rm [unfolded k]]) (use p lt arr fd in simp_all)
      have no: "\<not> cw_pos w < offset" using nd(2) p True by (simp add: word_less_nat_alt)
      have run: "chunked_loop (Suc n) werr 8 src sbi isize bits startoff w bs = chunked_loop n werr 8 src sbi isize bits startoff
          (w2\<lparr>cw_indexes := buf, cw_idx := Suc (cw_idx w2), cw_last := Some a, cw_pos := cw_pos w2 + min (isize - cw_pos ?w) (push_bit bits 1)\<rparr>) bs'"
        unfolding step using go nd(1) no d(1-5) by (simp add: Let_def del: slice_eq_Inr)
      have k': "nchunks (2 ^ bits) f - length (ps @ [a]) = k" using k by simp
      let ?w3 = "w2\<lparr>cw_indexes := buf, cw_idx := Suc (cw_idx w2), cw_last := Some a, cw_pos := cw_pos w2 + min (isize - cw_pos ?w) (push_bit bits 1)\<rparr>"
      have kn: "k < n" using k fuel by simp
      have a3: "8 * nchunks (2 ^ bits) f \<le> length (cw_indexes ?w3)" using arr d(6) by simp
      obtain ps' w' bs2 where r: "chunked_loop n werr 8 src sbi isize bits startoff ?w3 bs' = Inr (w', bs2)" "cw_inv sbi bits f ps' w' bs2"
          "length ps' = nchunks (2 ^ bits) f" "blob_inv sbi D bs2" "extends bs' bs2" "length (cw_indexes w') = length (cw_indexes ?w3)"
        using Suc.IH [OF nx(1,2) a3, unfolded k', OF disjI2 [OF nx(4)] kn] by (elim exE conjE)
      show ?thesis
      proof (intro exI conjI)
        show "chunked_loop (Suc n) werr 8 src sbi isize bits startoff w bs = Inr (w', bs2)" unfolding run by (rule r(1))
        show "extends bs bs2" by (rule extends_trans [OF nx(3) r(5)])
        show "length (cw_indexes w') = length (cw_indexes w)" using r(6) d(6) by simp
      qed (fact r)+
    qed
  qed
qed

end
