(* ===== verification/Erofs_Blob_File.thy ===== *)
theory Erofs_Blob_File
  imports Erofs_Blob_Runs
begin

text \<open>
  From the pointers of the loop to the bytes a reader gets: runs lie in a row in the blob file, merged chunks begin only
  where runs begin, and the indexes name the merged chunks.
\<close>

unbundle bit_operations_syntax

section \<open>Runs in the blob file\<close>

text \<open>The byte at offset \<^verbatim>\<open>o\<close> from the chunk at \<^verbatim>\<open>a\<close> on: a zero of a hole, or a byte of the blob file.\<close>

definition chunk_gives :: "erofs_sb_info \<Rightarrow> blob_state \<Rightarrow> nat \<Rightarrow> nat \<Rightarrow> u8 \<Rightarrow> bool" where
  "chunk_gives sbi bs a k x \<longleftrightarrow>
     (if a = holechunk then x = 0
      else \<exists>c g. blobfile bs = Some g \<and> bl_heap bs a = Some c \<and> bc_device_id c = 0 \<and> bc_blkaddr c \<noteq> EROFS_NULL_ADDR \<and>
        unat (bc_blkaddr c) * 2 ^ blkbits sbi + k < length g \<and> g ! (unat (bc_blkaddr c) * 2 ^ blkbits sbi + k) = x)"

lemma chunk_gives_extends:
  assumes "chunk_gives sbi bs a k x" and "extends bs bs'"
  shows "chunk_gives sbi bs' a k x"
  using assms by (fastforce simp: chunk_gives_def extends_def nth_append split: if_splits)

lemma chunk_is_gives:
  assumes "chunk_is sbi bs a d" and "k < length d"
  shows "chunk_gives sbi bs a k (d ! k)"
proof (cases "a = holechunk")
  case True
  then have "d = replicate (length d) 0" using assms(1) by (simp add: chunk_is_def)
  then have "d ! k = 0" using assms(2) by (metis nth_replicate)
  then show ?thesis using True by (simp add: chunk_gives_def)
next
  case False
  then obtain c g where c: "blobfile bs = Some g" "bl_heap bs a = Some c" "chunk_data (2 ^ blkbits sbi) g c d"
    using assms(1) by (auto simp: chunk_is_def)
  let ?p = "unat (bc_blkaddr c) * 2 ^ blkbits sbi"
  have "?p + length d \<le> length g" "take (length d) (drop ?p g) = d" using c(3) by (simp_all add: chunk_data_def)
  then have "?p + k < length g" "g ! (?p + k) = d ! k" using assms(2) by (simp_all, metis add_leD1 nth_drop nth_take)
  then show ?thesis using False c by (auto simp: chunk_gives_def chunk_data_def)
qed

text \<open>Two chunks that can be merged follow each other, if the first one is full.\<close>

lemma joined_gives:
  assumes inv: "blob_inv sbi D bs" and j: "joined sbi bs l a" and l: "chunk_is sbi bs l d" and a: "chunk_gives sbi bs a k x"
    and a': "chunk_is sbi bs a d'" and b: "blkbits sbi \<le> 12"
  shows "chunk_gives sbi bs l (length d + k) x"
proof -
  let ?B = "2 ^ blkbits sbi :: nat"
  obtain g where g: "blobfile bs = Some g" "length g < (2 ^ 32 - 1) * ?B" using inv by (auto simp: blob_inv_def)
  have B12: "?B \<le> 2 ^ 12" using b by (intro power_increasing) simp_all
  then have "(2 ^ 32 - 1) * ?B \<le> (2 ^ 32 - 1) * 2 ^ 12" by (intro mult_left_mono) simp_all
  then have lim: "length g < 2 ^ 63" using g(2) by simp
  have pos: "unat (erofs_pos sbi (n :: u32)) = unat n * ?B" for n using b by (simp add: unat_erofs_pos32)
  have null: "unat (erofs_pos sbi (EROFS_NULL_ADDR :: u32)) = (2 ^ 32 - 1) * ?B" by (simp add: pos)
  show ?thesis
  proof (cases "l = holechunk")
    case hl: True
    show ?thesis
    proof (cases "a = holechunk")
      case True
      then show ?thesis using hl a by (simp add: chunk_gives_def)
    next
      case False
      then obtain c where c: "bl_heap bs a = Some c" "bc_blkaddr c \<noteq> EROFS_NULL_ADDR" using a by (auto simp: chunk_gives_def)
      then have "erofs_pos sbi (EROFS_NULL_ADDR :: u32) = erofs_pos sbi (bc_blkaddr c)"
        using j hl False by (simp add: erofs_blob_can_merge_def chunk_at_def erofs_holechunk_def)
      then have "(2 ^ 32 - 1) * ?B = unat (bc_blkaddr c) * ?B" using null pos by metis
      then have "unat (bc_blkaddr c) = unat (EROFS_NULL_ADDR :: u32)" by simp
      then show ?thesis using c(2) by (simp add: word_unat_eq_iff)
    qed
  next
    case nl: False
    then obtain c where c: "bl_heap bs l = Some c" "chunk_data ?B g c d" using l g(1) by (auto simp: chunk_is_def)
    note cd = c(2) [unfolded chunk_data_def]
    have sum: "unat (erofs_pos sbi (bc_blkaddr c) + chunksize c) = unat (bc_blkaddr c) * ?B + length d"
      using cd lim by (simp add: unat_word_ariths pos)
    show ?thesis
    proof (cases "a = holechunk")
      case True
      then have "erofs_pos sbi (bc_blkaddr c) + chunksize c = erofs_pos sbi (EROFS_NULL_ADDR :: u32)"
        using j nl c(1) by (simp add: erofs_blob_can_merge_def chunk_at_def erofs_holechunk_def)
      then have "unat (bc_blkaddr c) * ?B + length d = (2 ^ 32 - 1) * ?B" using sum null by metis
      then show ?thesis using cd g(2) by linarith
    next
      case False
      then obtain c2 where c2: "bl_heap bs a = Some c2" "unat (bc_blkaddr c2) * ?B + k < length g" "g ! (unat (bc_blkaddr c2) * ?B + k) = x"
        using a g(1) by (auto simp: chunk_gives_def)
      have "erofs_pos sbi (bc_blkaddr c) + chunksize c = erofs_pos sbi (bc_blkaddr c2)"
        using j nl False c(1) c2(1) by (simp add: erofs_blob_can_merge_def chunk_at_def)
      then have "unat (bc_blkaddr c2) * ?B = unat (bc_blkaddr c) * ?B + length d" using sum pos by metis
      then show ?thesis using nl c(1) cd g(1) c2(2,3) by (simp add: chunk_gives_def add.assoc)
    qed
  qed
qed

lemma run_gives:
  assumes inv: "blob_inv sbi D bs" "blkbits sbi \<le> 12" and ci: "\<forall>i<length ps. chunk_is sbi bs (ps ! i) (fchunk C f i)" 
    and full: "\<forall>i. Suc i < length ps \<longrightarrow> length (fchunk C f i) = C"
    and j: "\<forall>i. i0 < i \<longrightarrow> i \<le> i0 + n \<longrightarrow> joined sbi bs (ps ! (i - 1)) (ps ! i)" and n: "i0 + n < length ps"
    and g: "chunk_gives sbi bs (ps ! (i0 + n)) k x"
  shows "chunk_gives sbi bs (ps ! i0) (n * C + k) x"
  using j n g
proof (induction n arbitrary: k)
  case (Suc n)
  have jn: "joined sbi bs (ps ! (i0 + n)) (ps ! (i0 + Suc n))" using Suc.prems(1) [rule_format, of "i0 + Suc n"] by simp
  have "chunk_gives sbi bs (ps ! (i0 + n)) (length (fchunk C f (i0 + n)) + k) x"
    using joined_gives [OF inv(1) jn _ Suc.prems(3) _ inv(2)] ci Suc.prems(2) by (metis Suc_lessD add_Suc_right)
  then have "chunk_gives sbi bs (ps ! (i0 + n)) (C + k) x" using full Suc.prems(2) by simp
  then have "chunk_gives sbi bs (ps ! i0) (n * C + (C + k)) x"
    using Suc.prems(1,2) by (intro Suc.IH) auto
  then show ?case by (simp add: algebra_simps)
qed simp

lemma fchunk_nth:
  assumes "0 < C" and "k < length f"
  shows "k mod C < length (fchunk C f (k div C))" and "fchunk C f (k div C) ! (k mod C) = f ! k"
proof -
  have k: "k div C * C + k mod C = k" by simp
  have m: "k mod C < C" using assms(1) by simp
  have "k mod C < length f - k div C * C" using k assms(2) by linarith
  then show "k mod C < length (fchunk C f (k div C))" using m by (simp add: fchunk_def)
  have "k div C * C \<le> length f" using k assms(2) by linarith
  then have "drop (k div C * C) f ! (k mod C) = f ! k" using k by (simp only: nth_drop)
  then show "fchunk C f (k div C) ! (k mod C) = f ! k" using m by (simp add: fchunk_def)
qed

lemma start_le_pos:
  assumes "cw_inv sbi bits f ps w bs"
  shows "unat (cw_start w) \<le> unat (cw_pos w)"
proof -
  obtain S where S: "unat (cw_start w) = S * 2 ^ bits" "ps \<noteq> [] \<longrightarrow> S < length ps" "S \<le> length ps"
    using assms by (auto simp: cw_inv_def runs_inv_def)
  show ?thesis
  proof (cases "ps = []")
    case False
    then have "Suc S * 2 ^ bits \<le> length ps * 2 ^ bits" using S(2) by (intro mult_le_mono1) simp
    then show ?thesis using S(1) assms by (auto simp: cw_inv_def)
  qed (use S in simp)
qed

text \<open>A merged chunk gives the bytes of the file behind its beginning.\<close>

lemma merged_gives:
  assumes w: "cw_inv sbi bits f ps w bs" and n: "length ps = nchunks (2 ^ bits) f" and inv: "blob_inv sbi D bs" "blkbits sbi \<le> 12"
    and r: "r = 0 \<or> grain (erofs_update_minextblks sbi (cw_start w) (cw_pos w) (cw_minextblks w)) = 2 ^ (r + (bits - blkbits sbi))"
    and k: "k < length f"
  shows "chunk_gives sbi bs (ps ! (k div 2 ^ (r + bits) * 2 ^ r)) (k mod 2 ^ (r + bits)) (f ! k)"
    and "k div 2 ^ (r + bits) * 2 ^ r < length ps"
proof -
  let ?C = "2 ^ bits :: nat" and ?R = "2 ^ r :: nat"
  define i where "i = k div ?C"
  define i0 where "i0 = k div 2 ^ (r + bits) * ?R"
  have RC: "(2::nat) ^ (r + bits) = ?C * ?R" by (simp add: power_add)
  have "k div 2 ^ (r + bits) = i div ?R" unfolding RC i_def by (rule div_mult2_eq)
  then have i0: "i0 = i div ?R * ?R" by (simp add: i0_def)
  have "i0 + i mod ?R = i" unfolding i0 by (rule div_mult_mod_eq)
  moreover have "i mod ?R < ?R" by simp
  ultimately have i0i: "i0 \<le> i" "i < i0 + ?R" by linarith+
  have cover: "length f \<le> length ps * ?C" using nchunks_bounds(2) [of ?C f] n by simp
  then have il: "i < length ps" using k unfolding i_def by (intro less_mult_imp_div_less) linarith
  then show "k div 2 ^ (r + bits) * ?R < length ps" using i0i unfolding i0_def by linarith
  have ci: "\<forall>i<length ps. chunk_is sbi bs (ps ! i) (fchunk ?C f i)" and lp: "length ps * ?C < length f + ?C" using w by (simp_all add: cw_inv_def)
  have full: "\<forall>i. Suc i < length ps \<longrightarrow> length (fchunk ?C f i) = ?C"
  proof (intro allI impI)
    fix i assume "Suc i < length ps"
    then have "Suc (Suc i) * ?C \<le> length ps * ?C" by (intro mult_le_mono1) simp
    then show "length (fchunk ?C f i) = ?C" using lp by (simp add: fchunk_def)
  qed
  have jn: "\<forall>i'. i0 < i' \<longrightarrow> i' \<le> i0 + (i - i0) \<longrightarrow> joined sbi bs (ps ! (i' - 1)) (ps ! i')"
  proof (intro allI impI, rule ccontr)
    fix i' assume i': "i0 < i'" "i' \<le> i0 + (i - i0)" and cut: "\<not> joined sbi bs (ps ! (i' - 1)) (ps ! i')"
    have "r \<noteq> 0" using i' i0i by (cases "r = 0") auto
    obtain S where "runs_inv sbi bs (2 ^ (bits - blkbits sbi)) (length f) ps S (cw_minextblks w)" using w by (auto simp: cw_inv_def)
    then have "2 ^ (r + (bits - blkbits sbi)) dvd i' * 2 ^ (bits - blkbits sbi)"
      using runs_inv_end [OF _ start_le_pos [OF w] _ _ cut] i' i0i il r \<open>r \<noteq> 0\<close> by fastforce
    then have "?R dvd i'" by (simp add: power_add)
    moreover have "?R dvd i0" by (simp add: i0)
    ultimately have "?R dvd i' - i0" by (rule dvd_diff_nat)
    then have "?R \<le> i' - i0" using i'(1) by (intro dvd_imp_le) simp_all
    then show False using i' i0i by linarith
  qed
  have "chunk_gives sbi bs (ps ! (i0 + (i - i0))) (k mod ?C) (f ! k)"
    using chunk_is_gives [OF ci [rule_format, OF il], of "k mod ?C"] fchunk_nth [of ?C k f] k i0i by (simp add: i_def)
  then have "chunk_gives sbi bs (ps ! i0) ((i - i0) * ?C + k mod ?C) (f ! k)"
    using il i0i by (intro run_gives [OF inv ci full jn]) simp_all
  moreover have "(i - i0) * ?C + k mod ?C = k mod 2 ^ (r + bits)"
  proof -
    have "k mod 2 ^ (r + bits) = ?C * (i mod ?R) + k mod ?C" unfolding RC i_def by (rule mod_mult2_eq)
    moreover have "i - i0 = i mod ?R" using i0 by (simp add: minus_div_mult_eq_mod)
    ultimately show ?thesis by simp
  qed
  ultimately show "chunk_gives sbi bs (ps ! (k div 2 ^ (r + bits) * 2 ^ r)) (k mod 2 ^ (r + bits)) (f ! k)" by (simp add: i0_def)
qed

section \<open>Merging the pointers\<close>

lemma nchunks_less: "0 < C \<Longrightarrow> j < nchunks C f \<longleftrightarrow> j * C < length f"
  using nchunks_bounds(1) [of C "Suc j" f] by (simp add: less_eq_Suc_le [symmetric])

lemma ilog2_u32:
  assumes "(m :: u32) \<noteq> 0"
  shows "ilog2 (ucast m) \<le> 31"
proof -
  have u: "unat (ucast m :: u64) = unat m" by (simp add: unat_ucast_up)
  then have "(ucast m :: u64) \<noteq> 0" using assms by (metis unat_eq_zero unsigned_0)
  then have "2 ^ ilog2 (ucast m) \<le> unat m" using ilog2_bounds(1) [of "ucast m :: u64"] u by simp
  also have "unat m < 2 ^ 32" using unsigned_less [of m, where ?'a = nat] by simp
  finally have "ilog2 (ucast m) < 32" by (simp only: power_strict_increasing_iff one_less_numeral_iff semiring_norm)
  then show ?thesis by simp
qed

definition chunk_format :: "erofs_inode \<Rightarrow> nat \<Rightarrow> u16" where
  "chunk_format vi n = of_nat n OR chunkformat vi AND NOT EROFS_CHUNK_FORMAT_BLKBITS_MASK"

lemma count_value:
  assumes "unat (isize :: u64) = length f" and "length f + 2 ^ nb < 2 ^ 63" and "nb < 63" and "nchunks (2 ^ nb) f < 2 ^ 32"
  shows "unat (ucast (drop_bit nb (round_up isize (push_bit nb 1))) :: u32) = nchunks (2 ^ nb) f"
proof -
  have "unat (round_up isize (2 ^ nb)) = nchunks (2 ^ nb) f * 2 ^ nb" using assms by (subst unat_round_up) simp_all
  then have "unat (drop_bit nb (round_up isize (2 ^ nb))) = nchunks (2 ^ nb) f"
    by (simp only: unat_drop_bit_eq) (simp add: drop_bit_eq_div)
  then show ?thesis using assms(3,4) by (simp add: csize_word unat_ucast_small del: push_bit_of_1)
qed

lemma mergechunks_ok:
  assumes b: "blkbits sbi \<le> 12" "unat cb = bits" "blkbits sbi \<le> bits" "bits \<le> 31 + blkbits sbi"
    and f: "unat (i_size inode) = length f" "length f < 2 ^ 32 * 2 ^ blkbits sbi" "nchunks (2 ^ bits) f * 8 < 2 ^ 32"
    and ps: "length ps = nchunks (2 ^ bits) f" "\<forall>i<length ps. ptr_load 8 buf i = Inr (ps ! i)"
    and ext: "unat (extent_isize inode) = nchunks (2 ^ bits) f * unat (chunk_unit inode)" and m: "m \<noteq> 0"
  obtains inode' buf' r where
    "erofs_blob_mergechunks 8 sbi inode buf cb (of_nat (ilog2 (ucast m)) + ucast (blkszbits sbi)) = Inr (inode', buf')"
    "r = 0 \<or> grain m = 2 ^ (r + (bits - blkbits sbi))" "r + bits \<le> 31 + blkbits sbi" "length buf' = length buf"
    "\<forall>j<nchunks (2 ^ (r + bits)) f. ptr_load 8 buf' j = Inr (ps ! (j * 2 ^ r))"
    "inode' = inode\<lparr>extent_isize := extent_isize inode', chunkformat := chunk_format inode (r + bits - blkbits sbi)\<rparr>"
    "unat (extent_isize inode') = nchunks (2 ^ (r + bits)) f * unat (chunk_unit inode)"
proof -
  define L where "L = ilog2 (ucast m :: u64)"
  define new where "new = (of_nat L + ucast (blkszbits sbi) :: u32)"
  have L: "L \<le> 31" using ilog2_u32 [OF m] by (simp add: L_def)
  have ub: "unat (ucast (blkszbits sbi) :: u32) = blkbits sbi" by (simp add: unat_ucast_up)
  have un: "unat new = L + blkbits sbi" using L b(1) by (simp add: new_def unat_word_ariths unat_of_nat ub)
  have nb: "new - ucast (blkszbits sbi) = of_nat L" by (simp add: new_def)
  have noclamp: "\<not> 31 < new - ucast (blkszbits sbi)" using L by (simp add: nb word_less_nat_alt unat_of_nat)
  have fmt: "ucast (x - ucast (blkszbits sbi) :: u32) = (of_nat (unat x - blkbits sbi) :: u16)" if "blkbits sbi \<le> unat x" for x :: u32
    using that ub by (metis of_nat_unat unat_sub word_le_nat_alt)
  show thesis
  proof (cases "new \<le> cb")
    case True
    have "erofs_blob_mergechunks 8 sbi inode buf cb new = Inr (inode\<lparr>chunkformat := chunk_format inode (bits - blkbits sbi)\<rparr>, buf)"
      using True noclamp fmt [of cb] b(2,3) by (simp add: erofs_blob_mergechunks_def Let_def chunk_format_def)
    then show thesis by (rule that [of _ _ 0, folded L_def, folded new_def]) (use b ps ext in simp_all)
  next
    case False
    define r where "r = L + blkbits sbi - bits"
    have lt: "bits < L + blkbits sbi" using False un b(2) by (simp add: word_le_nat_alt)
    then have rb: "r + bits = L + blkbits sbi" by (simp add: r_def)
    let ?X = "2 ^ (r + bits) :: nat"
    have r: "unat (new - cb) = r" using lt un b(2) by (simp add: unat_sub word_le_nat_alt r_def)
    have X: "?X \<le> 2 ^ 43" using rb L b(1) by (intro power_increasing) simp_all
    have B: "(2::nat) ^ blkbits sbi \<le> 2 ^ 12" using b(1) by (intro power_increasing) simp_all
    have fx: "length f + ?X < 2 ^ 63" using f(2) B X by (simp add: less_le_trans)
    have jl: "j * 2 ^ r < nchunks (2 ^ bits) f" if "j < nchunks ?X f" for j
    proof -
      have "j * ?X < length f" using that nchunks_less [of ?X j f] by simp
      then have "j * 2 ^ r * 2 ^ bits < length f" by (simp add: power_add mult.assoc)
      then show ?thesis using nchunks_less [of "2 ^ bits" "j * 2 ^ r" f] by simp
    qed
    have "nchunks ?X f \<le> nchunks (2 ^ bits) f"
    proof (rule ccontr)
      assume "\<not> ?thesis"
      then have "nchunks (2 ^ bits) f * 2 ^ r < nchunks (2 ^ bits) f" by (intro jl) simp
      moreover have "nchunks (2 ^ bits) f * 1 \<le> nchunks (2 ^ bits) f * 2 ^ r" by (intro mult_left_mono) simp_all
      ultimately show False by linarith
    qed
    then have n32: "nchunks ?X f * 8 < 2 ^ 32" using f(3) by linarith
    define cnt where "cnt = (ucast (drop_bit (unat new) (round_up (i_size inode) (push_bit (unat new) 1))) :: u32)"
    have cnt: "unat cnt = nchunks ?X f"
      using count_value [OF f(1) fx] rb L b(1) n32 unfolding cnt_def un by simp
    obtain buf' where ml: "merge_loop (nchunks ?X f) 8 (2 ^ r) 0 0 buf = Inr buf'" "length buf' = length buf"
        "\<forall>k<nchunks ?X f. ptr_load 8 buf' (0 + k) = ptr_load 8 buf (0 + k * 2 ^ r)"
      by (rule merge_loop_value [of 0 0 "2 ^ r" "nchunks ?X f" buf]) (use jl ps in auto)
    let ?ino = "inode\<lparr>extent_isize := cnt * ucast (chunk_unit inode), chunkformat := chunk_format inode (r + bits - blkbits sbi)\<rparr>"
    have "erofs_blob_mergechunks 8 sbi inode buf cb new = Inr (?ino, buf')"
      using False noclamp fmt [of new] un rb r ml(1) cnt
      by (simp add: erofs_blob_mergechunks_def Let_def chunk_format_def cnt_def del: push_bit_of_1)
    moreover have "unat (cnt * ucast (chunk_unit inode)) = nchunks ?X f * unat (chunk_unit inode)"
    proof -
      have u8: "unat (chunk_unit inode) \<le> 8" by (simp add: chunk_unit_def)
      then have "unat (ucast (chunk_unit inode) :: u32) = unat (chunk_unit inode)" by (simp add: unat_ucast_small)
      moreover have "nchunks ?X f * unat (chunk_unit inode) < 2 ^ 32" using mult_left_mono [OF u8, of "nchunks ?X f"] n32 by linarith
      ultimately show ?thesis using cnt by (simp add: unat_word_ariths)
    qed
    moreover have "grain m = 2 ^ (r + (bits - blkbits sbi))" using rb b(3) by (simp add: grain_def L_def)
    ultimately show thesis
      using that [of ?ino buf' r, folded L_def, folded new_def] ml(2,3) jl ps rb L by (simp add: L_def [symmetric])
  qed
qed

lemma chunk_of_byte: "0 < C \<Longrightarrow> k < length f \<Longrightarrow> k div C < nchunks C f"
  using nchunks_less [of C "k div C" f] by (metis div_times_less_eq_dividend le_less_trans)

section \<open>Writing a file\<close>

lemma ilog2_0: "ilog2 0 = 0"
proof -
  have "ilog2_from 0 k = 0" for k by (induction k) simp_all
  then show ?thesis by (simp add: ilog2_def)
qed

text \<open>A file without data gets one chunk, or two if it is as large as possible.\<close>

lemma sparse_bits:
  assumes f: "unat isize = length f" "0 < length f" "length f < 2 ^ 32 * 2 ^ blkbits sbi" and b: "blkbits sbi \<le> 12"
    and x: "x = max (of_nat (ilog2 (isize - 1) + 1)) (ucast (blkszbits sbi) :: u32)"
    and cb: "cb = (if 31 < x - ucast (blkszbits sbi) then 31 + ucast (blkszbits sbi) else x)"
  shows "blkbits sbi \<le> unat cb" "unat cb \<le> 31 + blkbits sbi" "nchunks (2 ^ unat cb) f \<le> 2"
proof -
  let ?l = "ilog2 (isize - 1)"
  have ub: "unat (ucast (blkszbits sbi) :: u32) = blkbits sbi" by (simp add: unat_ucast_up)
  have u31: "unat (31 + ucast (blkszbits sbi) :: u32) = 31 + blkbits sbi" using b by (simp add: unat_word_ariths ub)
  have i1: "unat (isize - 1) = length f - 1" using f(1,2) by (metis unat_0 unat_minus_one less_irrefl)
  have l: "length f \<le> 2 ^ Suc ?l" "?l \<le> 63"
  proof -
    show "length f \<le> 2 ^ Suc ?l"
    proof (cases "isize - 1 = 0")
      case True
      then show ?thesis using i1 by (simp add: ilog2_0)
    next
      case False
      then show ?thesis using ilog2_bounds(2) [of "isize - 1"] i1 by linarith
    qed
    have "ilog2_from n k \<le> k" for n k by (induction k) (simp_all add: le_SucI)
    then show "?l \<le> 63" by (simp add: ilog2_def)
  qed
  then have ul: "unat (of_nat (?l + 1) :: u32) = Suc ?l" by (simp add: unat_of_nat del: of_nat_add of_nat_Suc)
  have ux: "unat x = max (Suc ?l) (blkbits sbi)" unfolding x using ul ub by (simp add: max_def word_le_nat_alt)
  then have xs: "unat (x - ucast (blkszbits sbi)) = unat x - blkbits sbi" using ub by (simp add: unat_sub word_le_nat_alt)
  have c: "31 < x - ucast (blkszbits sbi) \<longleftrightarrow> 31 + blkbits sbi < unat x" using xs by (auto simp: word_less_nat_alt)
  show "blkbits sbi \<le> unat cb" "unat cb \<le> 31 + blkbits sbi" using ux c u31 by (auto simp: cb)
  have "\<not> 2 < nchunks (2 ^ unat cb) f"
  proof
    assume "2 < nchunks (2 ^ unat cb) f"
    then have lt: "2 * 2 ^ unat cb < length f" using nchunks_less [of "2 ^ unat cb" 2 f] by simp
    show False
    proof (cases "31 + blkbits sbi < unat x")
      case True
      then have "unat cb = 31 + blkbits sbi" using c u31 by (simp add: cb)
      then have "2 * 2 ^ unat cb = (2 ^ 32 * 2 ^ blkbits sbi :: nat)" by (simp add: power_add)
      then show False using lt f(3) by linarith
    next
      case False
      then have "Suc ?l \<le> unat cb" using c ux by (simp add: cb)
      then have "(2::nat) ^ Suc ?l \<le> 2 ^ unat cb" by (rule power_increasing) simp
      then show False using lt l(1) by linarith
    qed
  qed
  then show "nchunks (2 ^ unat cb) f \<le> 2" by simp
qed

text \<open>What the writer leaves: pointers to merged chunks that give the bytes of the file.\<close>

definition written :: "erofs_sb_info \<Rightarrow> bytes \<Rightarrow> erofs_inode \<Rightarrow> bytes \<Rightarrow> blob_state \<Rightarrow> nat \<Rightarrow> nat list \<Rightarrow> bool" where
  "written sbi f inode buf bs nb qs \<longleftrightarrow>
     blkbits sbi \<le> nb \<and> nb \<le> 31 + blkbits sbi \<and> datalayout inode = EROFS_INODE_CHUNK_BASED \<and>
     chunkformat inode AND EROFS_CHUNK_FORMAT_BLKBITS_MASK = of_nat (nb - blkbits sbi) \<and>
     length qs = nchunks (2 ^ nb) f \<and> (\<forall>j<length qs. ptr_load 8 buf j = Inr (qs ! j)) \<and>
     unat (extent_isize inode) = length qs * unat (chunk_unit inode) \<and>
     (\<forall>k<length f. chunk_gives sbi bs (qs ! (k div 2 ^ nb)) (k mod 2 ^ nb) (f ! k))"

lemma format_bits:
  assumes "n \<le> 31"
  shows "chunk_format vi n AND EROFS_CHUNK_FORMAT_BLKBITS_MASK = of_nat n" and "chunk_format vi n AND EROFS_CHUNK_FORMAT_INDEXES = chunkformat vi AND EROFS_CHUNK_FORMAT_INDEXES"
proof -
  have m: "(EROFS_CHUNK_FORMAT_BLKBITS_MASK :: u16) = mask 5" by (simp add: mask_eq_exp_minus_1)
  have bi: "bit (EROFS_CHUNK_FORMAT_INDEXES :: u16) j \<longleftrightarrow> j = 5" for j
    using bit_exp_iff [of 5 j, where ?'a = "16 word"] by (auto simp: possible_bit_def)
  have "unat (of_nat n :: u16) = n" using assms by (simp add: unat_of_nat)
  then have "take_bit 5 (of_nat n :: u16) = of_nat n"
    using assms by (simp add: word_unat_eq_iff unsigned_take_bit_eq take_bit_nat_eq_self)
  then have nb: "bit (of_nat n :: u16) j \<Longrightarrow> j < 5" for j by (metis bit_take_bit_iff)
  show "chunk_format vi n AND EROFS_CHUNK_FORMAT_BLKBITS_MASK = of_nat n"
    unfolding chunk_format_def m by (rule bit_word_eqI) (use nb in \<open>auto simp: bit_and_iff bit_or_iff bit_not_iff bit_mask_iff\<close>)
  show "chunk_format vi n AND EROFS_CHUNK_FORMAT_INDEXES = chunkformat vi AND EROFS_CHUNK_FORMAT_INDEXES"
    unfolding chunk_format_def m by (rule bit_word_eqI, simp only: bit_and_iff bi bit_or_iff bit_not_iff bit_mask_iff, use nb in auto)
qed

lemma div_round_up_value:
  assumes "unat (isize :: u64) = length f" and "length f + 2 ^ bits < 2 ^ 63" and "bits < 63" and "nchunks (2 ^ bits) f < 2 ^ 32"
  shows "unat (ucast (DIV_ROUND_UP isize (push_bit bits 1)) :: u32) = nchunks (2 ^ bits) f"
proof -
  have c: "unat (push_bit bits 1 :: u64) = 2 ^ bits" using assms(3) by (simp add: csize_word(2) del: push_bit_of_1)
  have "unat (isize + push_bit bits 1) = length f + 2 ^ bits" using assms(1,2) by (simp add: unat_word_ariths c del: push_bit_of_1)
  then have "unat (isize + push_bit bits 1 - 1) = length f + 2 ^ bits - 1" by (metis unat_0 unat_minus_one add_is_0 power_not_zero zero_neq_numeral)
  then have "unat (DIV_ROUND_UP isize (push_bit bits 1)) = nchunks (2 ^ bits) f" by (simp add: DIV_ROUND_UP_def unat_div c del: push_bit_of_1)
  then show ?thesis using assms(4) by (simp add: unat_ucast_small)
qed

lemma cw_inv_init:
  assumes "blkbits sbi \<le> 12" "unat isize = length f" "0 < length f" "length f < (2 ^ 32 - 1) * 2 ^ blkbits sbi"
    and w: "cw_pos w = 0" "cw_idx w = 0" "length (cw_data w) = 2 ^ bits" "cw_last w = None" "cw_start w = 0" "cw_minextblks w = ucast (BLK_ROUND_UP sbi isize)"
  shows "cw_inv sbi bits f [] w bs"
proof -
  let ?B = "2 ^ blkbits sbi :: nat"
  have B: "?B \<le> 2 ^ 12" using assms(1) by (intro power_increasing) simp_all
  have n: "unat (BLK_ROUND_UP sbi isize) = nchunks ?B f"
  proof -
    have "(2 ^ 32 - 1) * ?B \<le> (2 ^ 32 - 1) * 2 ^ 12" using B by (intro mult_left_mono) simp_all
    then have "length f < 2 ^ 63" using assms(4) by simp
    then show ?thesis using assms(1,2) B by (simp add: unat_BLK_ROUND_UP)
  qed
  have "\<not> 2 ^ 32 - 1 < nchunks ?B f" using nchunks_less [of ?B "2 ^ 32 - 1" f] assms(4) by simp
  then have m: "unat (cw_minextblks w) = nchunks ?B f" using n w(6) by (simp add: unat_ucast_small)
  have "0 < nchunks ?B f" using nchunks_less [of ?B 0 f] assms(3) by simp
  then have "cw_minextblks w \<noteq> 0" using m by (metis less_irrefl unsigned_0)
  then have "runs_inv sbi bs (2 ^ (bits - blkbits sbi)) (length f) [] 0 (cw_minextblks w)"
    using m nchunks_bounds(2) [of ?B f] by (simp add: runs_inv_def)
  then show ?thesis using w assms(3) by (auto simp: cw_inv_def intro!: exI [of _ 0])
qed

lemma write_chunked_file_ok:
  assumes inv: "blob_inv sbi D bs" "collision_free D"
    and b: "blkbits sbi \<le> 12" "blkbits sbi \<le> unat c" "unat c \<le> 30" "extra_devices sbi = 0"
    and f: "unat (i_size inode) = length f" "0 < length f" "length f < (2 ^ 32 - 1) * 2 ^ blkbits sbi" "nchunks (2 ^ unat c) f * 8 < 2 ^ 32"
    and D: "\<forall>i<nchunks (2 ^ unat c) f. fchunk (2 ^ unat c) f i \<in> D" and rm: "room sbi (2 ^ unat c) (nchunks (2 ^ unat c) f) bs"
    and s: "source_ok src startoff f" and j: "\<forall>n. length (junk n) = n" and we: "\<forall>p. \<not> werr p"
  obtains inode' buf bs' nb qs where "erofs_blob_write_chunked_file werr junk 8 c src sbi startoff inode bs = Inr (inode', buf, bs')"
    "written sbi f inode' buf bs' nb qs" "blob_inv sbi D bs'" "extends bs bs'"
    "chunkformat inode' AND EROFS_CHUNK_FORMAT_INDEXES = chunkformat inode AND EROFS_CHUNK_FORMAT_INDEXES" "i_size inode' = i_size inode"
proof -
  define sparse where "sparse \<longleftrightarrow> (\<forall>p<length f. seek_data src (startoff + of_nat p) = Err ENXIO)"
  have first: "seek_data src startoff = Err ENXIO \<longleftrightarrow> sparse"
  proof
    assume "seek_data src startoff = Err ENXIO"
    moreover have "case seek_data src (startoff + of_nat 0) of
        Inl e \<Rightarrow> e = Errno ENXIO \<and> (\<forall>i. 0 \<le> i \<longrightarrow> i < length f \<longrightarrow> f ! i = 0 \<and> seek_data src (startoff + of_nat i) = Err ENXIO)
      | Inr q \<Rightarrow> \<exists>k. q = startoff + of_nat k \<and> 0 \<le> k \<and> k < length f \<and> (\<forall>i. 0 \<le> i \<longrightarrow> i < k \<longrightarrow> f ! i = 0)"
      using s f(2) unfolding source_ok_def by blast
    ultimately show sparse by (simp add: sparse_def)
  qed (use f(2) in \<open>auto simp: sparse_def dest: spec [of _ 0]\<close>)
  define x where "x = (if sparse then max (of_nat (ilog2 (i_size inode - 1) + 1)) (ucast (blkszbits sbi)) else c)"
  define cb where "cb = (if 31 < x - ucast (blkszbits sbi) then 31 + ucast (blkszbits sbi) else x)"
  define bits where "bits = unat cb"
  have f32: "length f < 2 ^ 32 * 2 ^ blkbits sbi" using f(3) by (simp add: less_le_trans)
  have cb: "blkbits sbi \<le> bits" "bits \<le> 31 + blkbits sbi" "sparse \<or> cb = c" "nchunks (2 ^ bits) f * 8 < 2 ^ 32"
  proof -
    have ub: "unat (ucast (blkszbits sbi) :: u32) = blkbits sbi" by (simp add: unat_ucast_up)
    have "blkbits sbi \<le> bits \<and> bits \<le> 31 + blkbits sbi \<and> (sparse \<or> cb = c) \<and> nchunks (2 ^ bits) f * 8 < 2 ^ 32"
    proof (cases sparse)
      case True
      then have x': "x = max (of_nat (ilog2 (i_size inode - 1) + 1)) (ucast (blkszbits sbi))" by (simp add: x_def)
      show ?thesis using sparse_bits [OF f(1,2) f32 b(1) x' cb_def] True unfolding bits_def by simp
    next
      case False
      have "\<not> 31 < c - ucast (blkszbits sbi)" using b(2,3) ub by (simp add: word_less_nat_alt word_le_nat_alt unat_sub)
      then have "cb = c" using False by (simp add: cb_def x_def)
      then show ?thesis using b f(4) by (simp add: bits_def)
    qed
    then show "blkbits sbi \<le> bits" "bits \<le> 31 + blkbits sbi" "sparse \<or> cb = c" "nchunks (2 ^ bits) f * 8 < 2 ^ 32" by blast+
  qed
  define cnt where "cnt = (ucast (DIV_ROUND_UP (i_size inode) (push_bit bits 1)) :: u32)"
  define w where "w = \<lparr>cw_pos = 0, cw_idx = 0, cw_data = junk (unat (push_bit bits 1 :: u64)), cw_last = None,
    cw_minextblks = ucast (BLK_ROUND_UP sbi (i_size inode)), cw_start = 0,
    cw_fdpos = (case seek_data src startoff of Inl _ \<Rightarrow> startoff | Inr p \<Rightarrow> p), cw_indexes = junk (unat cnt * max 8 8)\<rparr>"
  define ino where "ino = inode\<lparr>extent_isize := cnt * ucast (chunk_unit inode), datalayout := EROFS_INODE_CHUNK_BASED\<rparr>"
  have b43: "bits \<le> 43" using cb(2) b(1) by simp
  have "(2::nat) ^ bits \<le> 2 ^ 43" "(2::nat) ^ blkbits sbi \<le> 2 ^ 12" using b43 b(1) by (intro power_increasing; simp)+
  then have fx: "length f + 2 ^ bits < 2 ^ 63" using f32 by (simp add: less_le_trans)
  have cnt: "unat cnt = nchunks (2 ^ bits) f"
    unfolding cnt_def using div_round_up_value [OF f(1) fx] b43 cb(4) by simp
  have w0: "cw_inv sbi bits f [] w bs"
    using b43 j by (intro cw_inv_init [OF b(1) f(1-3)]) (simp_all add: w_def csize_word(2) del: push_bit_of_1)
  have big: "sparse \<or> bits \<le> 30 \<and> (\<forall>i<nchunks (2 ^ bits) f. fchunk (2 ^ bits) f i \<in> D)" "sparse \<or> room sbi (2 ^ bits) (nchunks (2 ^ bits) f - length ([] :: nat list)) bs"
    using cb(3) b(3) D rm by (auto simp: bits_def)
  have arr: "8 * nchunks (2 ^ bits) f \<le> length (cw_indexes w)" using j cnt by (simp add: w_def)
  have fuel: "nchunks (2 ^ bits) f - length ([] :: nat list) < Suc (unat cnt * max 8 8)" using cnt by simp
  obtain ps w' bs' where run: "chunked_loop (Suc (unat cnt * max 8 8)) werr 8 src sbi (i_size inode) bits startoff w bs = Inr (w', bs')"
      and l: "cw_inv sbi bits f ps w' bs'" "length ps = nchunks (2 ^ bits) f" "blob_inv sbi D bs'" "extends bs bs'"
    using chunked_loop_ok [OF w0 inv(1) cb(1) b43 b(1,4) f32 arr s f(1) inv(2) we big(2) fuel big(1) sparse_def] by blast
  define m where "m = erofs_update_minextblks sbi (cw_start w') (cw_pos w') (cw_minextblks w')"
  have m0: "m \<noteq> 0"
  proof -
    have "cw_minextblks w' \<noteq> 0" using l(1) by (auto simp: cw_inv_def runs_inv_def)
    then show ?thesis using update_any(1) [OF start_le_pos [OF l(1)] _ refl, of "cw_minextblks w'" sbi] by (auto simp: m_def)
  qed
  have ptrs: "\<forall>i<length ps. ptr_load 8 (cw_indexes w') i = Inr (ps ! i)" using l(1) by (simp add: cw_inv_def)
  have ext: "unat (extent_isize ino) = nchunks (2 ^ bits) f * unat (chunk_unit ino)"
  proof -
    have u: "chunk_unit ino = chunk_unit inode" "unat (chunk_unit inode) \<le> 8" by (simp_all add: ino_def chunk_unit_def)
    then have "unat (ucast (chunk_unit inode) :: u32) = unat (chunk_unit inode)" by (simp add: unat_ucast_small)
    moreover have "nchunks (2 ^ bits) f * unat (chunk_unit inode) < 2 ^ 32" using mult_left_mono [OF u(2), of "nchunks (2 ^ bits) f"] cb(4) by linarith
    ultimately show ?thesis using cnt u(1) by (simp add: ino_def unat_word_ariths)
  qed
  have isz: "unat (i_size ino) = length f" using f(1) by (simp add: ino_def)
  obtain inode' buf r where mg: "erofs_blob_mergechunks 8 sbi ino (cw_indexes w') cb (of_nat (ilog2 (ucast m)) + ucast (blkszbits sbi)) = Inr (inode', buf)"
      and r: "r = 0 \<or> grain m = 2 ^ (r + (bits - blkbits sbi))" "r + bits \<le> 31 + blkbits sbi"
      and q: "\<forall>j<nchunks (2 ^ (r + bits)) f. ptr_load 8 buf j = Inr (ps ! (j * 2 ^ r))"
      and ino': "inode' = ino\<lparr>extent_isize := extent_isize inode', chunkformat := chunk_format ino (r + bits - blkbits sbi)\<rparr>"
        "unat (extent_isize inode') = nchunks (2 ^ (r + bits)) f * unat (chunk_unit ino)"
    by (rule mergechunks_ok [OF b(1) bits_def [symmetric] cb(1,2) isz f32 cb(4) l(2) ptrs ext m0])
  let ?qs = "map (\<lambda>j. ps ! (j * 2 ^ r)) [0..<nchunks (2 ^ (r + bits)) f]"
  have n31: "r + bits - blkbits sbi \<le> 31" using r(2) by simp
  have fm: "chunkformat inode' = chunk_format ino (r + bits - blkbits sbi)" "datalayout inode' = EROFS_INODE_CHUNK_BASED" "i_size inode' = i_size inode"
    by (subst ino'(1), simp add: ino_def)+
  have fi: "chunkformat inode' AND EROFS_CHUNK_FORMAT_INDEXES = chunkformat inode AND EROFS_CHUNK_FORMAT_INDEXES"
    using format_bits(2) [OF n31, of ino] fm(1) by (simp add: ino_def)
  have cu: "chunk_unit inode' = chunk_unit ino" using fi by (simp add: chunk_unit_def ino_def)
  have "chunk_gives sbi bs' (?qs ! (k div 2 ^ (r + bits))) (k mod 2 ^ (r + bits)) (f ! k)" if k: "k < length f" for k
  proof -
    have "k div 2 ^ (r + bits) < nchunks (2 ^ (r + bits)) f" by (rule chunk_of_byte [OF _ k]) simp
    then show ?thesis using merged_gives(1) [OF l(1,2,3) b(1) r(1) [unfolded m_def] k] by simp
  qed
  then have wr: "written sbi f inode' buf bs' (r + bits) ?qs"
    using cb(1) r(2) q fm ino'(2) format_bits(1) [OF n31, of ino] cu by (simp add: written_def)
  have top: "erofs_blob_write_chunked_file werr junk 8 c src sbi startoff inode bs = Inr (inode', buf, bs')"
    using run mg b(4) unfolding erofs_blob_write_chunked_file_def Let_def first x_def [symmetric] cb_def [symmetric] bits_def [symmetric]
    by (simp add: cnt_def w_def m_def ino_def del: chunked_loop.simps push_bit_of_1)
  show thesis by (rule that [OF top wr l(3,4) fi fm(3)])
qed

section \<open>Reading it\<close>

lemma chunked_pread:
  assumes "chunk_ok sbi vi" and "unat offset + length buffer \<le> unat (i_size vi)" and "length buffer + 2 \<le> n"
  shows "erofs_pread n lib sbi vi buffer offset = Inr (vi, map (chunk_byte sbi vi) [unat offset ..< unat offset + length buffer])"
proof (rule chunked.pread_reads [OF assms(1) _ assms(2,3)])
  show "\<not> erofs_inode_is_data_compressed (datalayout vi)"
    using assms(1) by (auto simp: chunk_ok_def erofs_inode_is_data_compressed_def)
qed

lemma chunk_gives_at: "chunk_gives sbi bs a k x \<Longrightarrow> \<exists>c. chunk_at bs a = Inr c"
  by (auto simp: chunk_gives_def chunk_at_def split: if_splits)

text \<open>The blob file lies in the image at the block the indexes are relative to.\<close>

definition blob_in_image :: "erofs_sb_info \<Rightarrow> blob_state \<Rightarrow> bool" where
  "blob_in_image sbi bs \<longleftrightarrow>
     (\<exists>g. blobfile bs = Some g \<and> unat (remapped_base bs) + length g div 2 ^ blkbits sbi < 2 ^ 32 - 1 \<and>
        (\<forall>p<length g. zbyte (vf_bytes (bdev sbi)) (unat (remapped_base bs) * 2 ^ blkbits sbi + p) = g ! p))"

lemma chunk_gives_image:
  assumes g: "chunk_gives sbi bs a k x" and i: "blob_in_image sbi bs" and c: "chunk_at bs a = Inr c"
  shows "(if chunk_blkaddr bs c = EROFS_NULL_ADDR then 0
          else zbyte (vf_bytes (bdev sbi)) (unat (chunk_blkaddr bs c) * 2 ^ blkbits sbi + k)) = x"
proof (cases "a = holechunk")
  case True
  then show ?thesis using g c by (auto simp: chunk_gives_def chunk_at_def chunk_blkaddr_def erofs_holechunk_def)
next
  case False
  let ?B = "2 ^ blkbits sbi :: nat" and ?r = "unat (remapped_base bs)"
  obtain d where d: "blobfile bs = Some d" "?r + length d div ?B < 2 ^ 32 - 1"
      "\<forall>p<length d. zbyte (vf_bytes (bdev sbi)) (?r * ?B + p) = d ! p" using i by (auto simp: blob_in_image_def)
  have k: "bc_device_id c = 0" "bc_blkaddr c \<noteq> EROFS_NULL_ADDR" "unat (bc_blkaddr c) * ?B + k < length d" "d ! (unat (bc_blkaddr c) * ?B + k) = x"
    using g c False d(1) by (auto simp: chunk_gives_def chunk_at_def)
  have "unat (bc_blkaddr c) \<le> length d div ?B" using k(3) by (simp add: less_eq_div_iff_mult_less_eq)
  then have lt: "?r + unat (bc_blkaddr c) < 2 ^ 32 - 1" using d(2) by linarith
  then have u: "unat (remapped_base bs + bc_blkaddr c) = ?r + unat (bc_blkaddr c)" by (simp add: unat_word_ariths)
  have "remapped_base bs + bc_blkaddr c \<noteq> EROFS_NULL_ADDR"
  proof
    assume "remapped_base bs + bc_blkaddr c = EROFS_NULL_ADDR"
    then have "unat (remapped_base bs + bc_blkaddr c) = unat (EROFS_NULL_ADDR :: u32)" by (rule arg_cong)
    then show False using u lt by simp
  qed
  then show ?thesis using k u d(3) by (simp add: chunk_blkaddr_def add_mult_distrib add.assoc)
qed

lemma index_addr:
  assumes "u = (if chunkformat vi AND EROFS_CHUNK_FORMAT_INDEXES = 0 then 4 else 8)"
    and "zread (vf_bytes (bdev sbi)) (chunk_entry_pos sbi vi j) u = index_bytes u bs c"
  shows "chunk_addr sbi vi j = chunk_blkaddr bs c"
  using assms by (auto simp: chunk_addr_def index_bytes_def chunk_index.dec_enc split: if_splits)

lemma zread_index:
  assumes "i + n \<le> length b"
  shows "zread (fsplice dat p b) (p + i) n = take n (drop i b)"
proof -
  have "zread (fsplice dat p b) p (length b) = b" by (rule zread_fsplice_same) simp
  then show ?thesis using zread_sub [OF assms, of "fsplice dat p b" p] by simp
qed

lemma slot_fits: "j < n \<Longrightarrow> u * j + u \<le> n * (u :: nat)"
  using mult_le_mono1 [of "Suc j" n u] by (simp add: algebra_simps)

text \<open>The indexes lead from every offset of the file to its byte.\<close>

lemma indexes_give:
  assumes w: "written sbi f inode buf bs nb qs" "0 < length f" and e: "extends bs bs2" and q: "quiet (bdev sbi2)" and bb: "blkszbits sbi2 = blkszbits sbi"
    and off: "unat off < 2 ^ 60"
  obtains b exts sbi3 where "erofs_blob_write_chunk_indexes 8 sbi2 bs2 inode buf off = Inr (sbi3, exts)" "length b = unat (extent_isize inode)"
    "sbi3 = sbi2\<lparr>bdev := (bdev sbi2)\<lparr>vf_bytes := fsplice (vf_bytes (bdev sbi2)) (unat (roundup off (chunk_unit inode))) b\<rparr>\<rparr>"
    "\<forall>vi k. blob_in_image sbi3 bs2 \<longrightarrow> inline_pos sbi3 vi = off \<longrightarrow> chunkformat vi = chunkformat inode \<longrightarrow> unat (chunkbits vi) = nb \<longrightarrow>
       k < length f \<longrightarrow> chunk_byte sbi3 vi k = f ! k"
proof -
  define u where "u = unat (chunk_unit inode)"
  define cs where "cs = (\<lambda>j. case chunk_at bs2 (qs ! j) of Inr c \<Rightarrow> c | Inl _ \<Rightarrow> erofs_holechunk)"
  have u: "u = 4 \<or> u = 8" and uf: "u = (if chunkformat inode AND EROFS_CHUNK_FORMAT_INDEXES = 0 then 4 else 8)" by (auto simp: u_def chunk_unit_def)
  have n: "length qs = nchunks (2 ^ nb) f" and ext: "unat (extent_isize inode) = length qs * u"
    and ptr: "\<forall>j<length qs. ptr_load 8 buf j = Inr (qs ! j)"
    and gv: "\<forall>k<length f. chunk_gives sbi bs (qs ! (k div 2 ^ nb)) (k mod 2 ^ nb) (f ! k)" using w(1) by (simp_all add: written_def u_def)
  have at: "chunk_at bs2 (qs ! j) = Inr (cs j)" if "j < length qs" for j
  proof -
    have "j * 2 ^ nb < length f" using that n nchunks_less [of "2 ^ nb" j f] by simp
    then have "chunk_gives sbi bs2 (qs ! j) 0 (f ! (j * 2 ^ nb))" using chunk_gives_extends [OF gv [rule_format] e, of "j * 2 ^ nb"] by simp
    then show ?thesis using chunk_gives_at by (fastforce simp: cs_def)
  qed
  have q0: "0 < length qs" using n nchunks_less [of "2 ^ nb" 0 f] w(2) by simp
  have cnt: "(unat (extent_isize inode) + u - 1) div u = length qs" using ext u by auto
  obtain er b2 where lp: "write_indexes_loop (length qs) 8 u bs2 (push_bit (unat (chunkformat inode AND EROFS_CHUNK_FORMAT_BLKBITS_MASK)) 1) 0
        \<lparr>er_start = EROFS_NULL_ADDR, er_end = 0, er_source = 0, er_remaining = ucast (BLK_ROUND_UP sbi2 (i_size inode)), er_list = []\<rparr> buf = Inr (er, b2)"
      "length b2 = length buf" "\<forall>k<length qs. take u (drop (u * (0 + k)) b2) = index_bytes u bs2 (cs (0 + k))"
    by (rule write_indexes_in_place [OF u, of "length qs" buf 0 bs2 cs]) (use ptr at in auto)
  have "8 * (length qs - 1) + 8 \<le> length buf" using ptr_load_bound [OF ptr [rule_format, of "length qs - 1"]] q0 by simp
  then have room: "length qs * u \<le> length b2" using u q0 lp(2) by auto
  define b3 where "b3 = take (length qs * u) b2"
  have b3: "b3 \<noteq> []" "length b3 = length qs * u" using room q0 u by (auto simp: b3_def)
  have entry: "take u (drop (u * j) b3) = index_bytes u bs2 (cs j)" if "j < length qs" for j
  proof -
    have "u * j + u \<le> length qs * u" by (rule slot_fits [OF that])
    then have "take u (drop (u * j) b3) = take u (drop (u * j) b2)" by (simp add: b3_def drop_take min_def)
    then show ?thesis using lp(3) that by simp
  qed
  define po where "po = roundup off (of_nat u)"
  have up: "unat po = (unat off + u - 1) div u * u" using off u by (auto simp: po_def unat_roundup)
  define sbi3 where "sbi3 = sbi2\<lparr>bdev := (bdev sbi2)\<lparr>vf_bytes := fsplice (vf_bytes (bdev sbi2)) (unat po) b3\<rparr>\<rparr>"
  have slc: "slice b2 0 (unat (extent_isize inode)) = Inr b3" using ext room by (simp add: slice_def b3_def)
  obtain exts where run: "erofs_blob_write_chunk_indexes 8 sbi2 bs2 inode buf off = Inr (sbi3, exts)"
    using lp(1) cnt slc erofs_dev_write_quiet [OF q b3(1), of po]
    by (simp add: erofs_blob_write_chunk_indexes_def Let_def u_def [symmetric] po_def [symmetric] sbi3_def [symmetric] del: slice_eq_Inr)
  show thesis
  proof (rule that [OF run])
    show "length b3 = unat (extent_isize inode)" using b3(2) ext by simp
    show "sbi3 = sbi2\<lparr>bdev := (bdev sbi2)\<lparr>vf_bytes := fsplice (vf_bytes (bdev sbi2)) (unat (roundup off (chunk_unit inode))) b3\<rparr>\<rparr>"
      by (simp add: sbi3_def po_def u_def)
    show "\<forall>vi k. blob_in_image sbi3 bs2 \<longrightarrow> inline_pos sbi3 vi = off \<longrightarrow> chunkformat vi = chunkformat inode \<longrightarrow> unat (chunkbits vi) = nb \<longrightarrow>
       k < length f \<longrightarrow> chunk_byte sbi3 vi k = f ! k"
    proof (intro allI impI)
      fix vi k assume im: "blob_in_image sbi3 bs2" and ip: "inline_pos sbi3 vi = off" and vf: "chunkformat vi = chunkformat inode" "unat (chunkbits vi) = nb"
        and k: "k < length f"
      let ?j = "k div 2 ^ nb"
      have j: "?j < length qs" unfolding n by (rule chunk_of_byte [OF _ k]) simp
      have "chunk_entry_pos sbi3 vi ?j = unat po + u * ?j"
        using uf vf(1) by (auto simp: chunk_entry_pos_def ip up chunk_unitn_def)
      moreover have "u * ?j + u \<le> length b3" unfolding b3(2) by (rule slot_fits [OF j])
      ultimately have "zread (vf_bytes (bdev sbi3)) (chunk_entry_pos sbi3 vi ?j) u = index_bytes u bs2 (cs ?j)"
        using zread_index [of "u * ?j" u b3] entry [OF j] by (simp add: sbi3_def)
      then have ad: "chunk_addr sbi3 vi ?j = chunk_blkaddr bs2 (cs ?j)" using uf vf(1) by (intro index_addr) simp_all
      have "chunk_gives sbi3 bs2 (qs ! ?j) (k mod 2 ^ nb) (f ! k)"
        using chunk_gives_extends [OF gv [rule_format, OF k] e] bb by (simp add: chunk_gives_def sbi3_def)
      from chunk_gives_image [OF this im at [OF j]] show "chunk_byte sbi3 vi k = f ! k"
        by (simp only: chunk_byte_def Let_def vf(2) ad)
    qed
  qed
qed

lemma written_extent:
  assumes "written sbi f inode buf bs nb qs"
  shows "unat (extent_isize inode) \<le> 8 * nchunks (2 ^ blkbits sbi) f"
proof -
  have w: "blkbits sbi \<le> nb" "unat (extent_isize inode) = nchunks (2 ^ nb) f * unat (chunk_unit inode)" using assms by (simp_all add: written_def)
  have "\<not> nchunks (2 ^ blkbits sbi) f < nchunks (2 ^ nb) f"
  proof
    assume "nchunks (2 ^ blkbits sbi) f < nchunks (2 ^ nb) f"
    then have "nchunks (2 ^ blkbits sbi) f * 2 ^ nb < length f" using nchunks_less [of "2 ^ nb"] by simp
    moreover have "nchunks (2 ^ blkbits sbi) f * 2 ^ blkbits sbi \<le> nchunks (2 ^ blkbits sbi) f * 2 ^ nb" using w(1) by (intro mult_left_mono power_increasing) simp_all
    moreover have "length f \<le> nchunks (2 ^ blkbits sbi) f * 2 ^ blkbits sbi" by (rule nchunks_bounds(2)) simp
    ultimately show False by linarith
  qed
  moreover have "unat (chunk_unit inode) \<le> 8" by (simp add: chunk_unit_def)
  ultimately show ?thesis unfolding w(2) by (subst mult.commute) (intro mult_le_mono; simp)
qed

text \<open>
  C32. A file written in chunks is read back.  Whatever was stored before, \<^verbatim>\<open>erofs_blob_write_chunked_file\<close> succeeds on a source that
  answers truthfully, with holes, and without write errors; once its indexes are written and the blob file lies in the image,
  \<^verbatim>\<open>erofs_pread\<close> returns the bytes of the file at every offset.  Chunks that are equal to chunks of any file before are stored
  once, chunks of zeroes not at all, and adjacent chunks are merged; SHA-256 must not confuse two of the chunks stored.
\<close>

theorem chunked_file_reads_back:
  assumes inv: "blob_inv sbi D bs" "collision_free D" "\<forall>i<nchunks (2 ^ unat c) f. fchunk (2 ^ unat c) f i \<in> D"
    and b: "blkbits sbi \<le> 12" "blkbits sbi \<le> unat c" "unat c \<le> 30" "extra_devices sbi = 0"
    and f: "unat (i_size inode) = length f" "0 < length f" "length f < (2 ^ 32 - 1) * 2 ^ blkbits sbi" "nchunks (2 ^ unat c) f * 8 < 2 ^ 32"
    and rm: "room sbi (2 ^ unat c) (nchunks (2 ^ unat c) f) bs"
    and s: "source_ok src startoff f" "\<forall>n. length (junk n) = n" "\<forall>p. \<not> werr p"
  shows "\<exists>inode' buf bs'. erofs_blob_write_chunked_file werr junk 8 c src sbi startoff inode bs = Inr (inode', buf, bs') \<and>
    blob_inv sbi D bs' \<and> extends bs bs' \<and> unat (extent_isize inode') \<le> 8 * nchunks (2 ^ blkbits sbi) f \<and>
    (\<forall>sbi2 bs2 off. extends bs' bs2 \<longrightarrow> quiet (bdev sbi2) \<longrightarrow> blkszbits sbi2 = blkszbits sbi \<longrightarrow> unat off < 2 ^ 60 \<longrightarrow>
      (\<exists>b exts sbi3. erofs_blob_write_chunk_indexes 8 sbi2 bs2 inode' buf off = Inr (sbi3, exts) \<and> length b = unat (extent_isize inode') \<and>
        sbi3 = sbi2\<lparr>bdev := (bdev sbi2)\<lparr>vf_bytes := fsplice (vf_bytes (bdev sbi2)) (unat (roundup off (chunk_unit inode'))) b\<rparr>\<rparr> \<and>
        (\<forall>vi n lib offset buffer. blob_in_image sbi3 bs2 \<longrightarrow> chunk_ok sbi3 vi \<longrightarrow> inline_pos sbi3 vi = off \<longrightarrow> i_size vi = i_size inode \<longrightarrow>
           chunkformat vi = chunkformat inode' \<longrightarrow> chunkbits vi = blkszbits sbi + ucast (chunkformat inode' AND EROFS_CHUNK_FORMAT_BLKBITS_MASK) \<longrightarrow>
           unat offset + length buffer \<le> length f \<longrightarrow> length buffer + 2 \<le> n \<longrightarrow>
           erofs_pread n lib sbi3 vi buffer offset = Inr (vi, take (length buffer) (drop (unat offset) f)))))"
proof -
  obtain inode' buf bs' nb qs where run: "erofs_blob_write_chunked_file werr junk 8 c src sbi startoff inode bs = Inr (inode', buf, bs')"
      and w: "written sbi f inode' buf bs' nb qs" and l: "blob_inv sbi D bs'" "extends bs bs'"
    by (rule write_chunked_file_ok [OF inv(1,2) b f inv(3) rm s])
  have nb: "unat (blkszbits sbi + ucast (chunkformat inode' AND EROFS_CHUNK_FORMAT_BLKBITS_MASK) :: u8) = nb"
  proof -
    have n: "blkbits sbi \<le> nb" "nb \<le> 31 + blkbits sbi" "chunkformat inode' AND EROFS_CHUNK_FORMAT_BLKBITS_MASK = of_nat (nb - blkbits sbi)"
      using w by (simp_all add: written_def)
    have "unat (ucast (of_nat (nb - blkbits sbi) :: u16) :: u8) = nb - blkbits sbi" using n(2) by (simp add: unat_ucast_small unat_of_nat)
    then show ?thesis using n b(1) by (simp add: unat_word_ariths)
  qed
  have "\<exists>b exts sbi3. erofs_blob_write_chunk_indexes 8 sbi2 bs2 inode' buf off = Inr (sbi3, exts) \<and> length b = unat (extent_isize inode') \<and>
        sbi3 = sbi2\<lparr>bdev := (bdev sbi2)\<lparr>vf_bytes := fsplice (vf_bytes (bdev sbi2)) (unat (roundup off (chunk_unit inode'))) b\<rparr>\<rparr> \<and>
        (\<forall>vi n lib offset buffer. blob_in_image sbi3 bs2 \<longrightarrow> chunk_ok sbi3 vi \<longrightarrow> inline_pos sbi3 vi = off \<longrightarrow> i_size vi = i_size inode \<longrightarrow>
           chunkformat vi = chunkformat inode' \<longrightarrow> chunkbits vi = blkszbits sbi + ucast (chunkformat inode' AND EROFS_CHUNK_FORMAT_BLKBITS_MASK) \<longrightarrow>
           unat offset + length buffer \<le> length f \<longrightarrow> length buffer + 2 \<le> n \<longrightarrow>
           erofs_pread n lib sbi3 vi buffer offset = Inr (vi, take (length buffer) (drop (unat offset) f)))"
    if e: "extends bs' bs2" and q: "quiet (bdev sbi2)" and bb: "blkszbits sbi2 = blkszbits sbi" and o: "unat off < 2 ^ 60" for sbi2 bs2 off
  proof -
    obtain b exts sbi3 where x: "erofs_blob_write_chunk_indexes 8 sbi2 bs2 inode' buf off = Inr (sbi3, exts)" "length b = unat (extent_isize inode')"
        "sbi3 = sbi2\<lparr>bdev := (bdev sbi2)\<lparr>vf_bytes := fsplice (vf_bytes (bdev sbi2)) (unat (roundup off (chunk_unit inode'))) b\<rparr>\<rparr>"
      and g: "\<forall>vi k. blob_in_image sbi3 bs2 \<longrightarrow> inline_pos sbi3 vi = off \<longrightarrow> chunkformat vi = chunkformat inode' \<longrightarrow> unat (chunkbits vi) = nb \<longrightarrow>
       k < length f \<longrightarrow> chunk_byte sbi3 vi k = f ! k"
      by (rule indexes_give [OF w f(2) e q bb o])
    show ?thesis
    proof (intro exI conjI allI impI, rule x(1), rule x(2), rule x(3))
      fix vi n lib and offset :: u64 and buffer :: bytes
      assume im: "blob_in_image sbi3 bs2" "chunk_ok sbi3 vi" "inline_pos sbi3 vi = off" "i_size vi = i_size inode" "chunkformat vi = chunkformat inode'"
        "chunkbits vi = blkszbits sbi + ucast (chunkformat inode' AND EROFS_CHUNK_FORMAT_BLKBITS_MASK)" and r: "unat offset + length buffer \<le> length f" "length buffer + 2 \<le> n"
      have "erofs_pread n lib sbi3 vi buffer offset = Inr (vi, map (chunk_byte sbi3 vi) [unat offset ..< unat offset + length buffer])"
        using chunked_pread [OF im(2)] r f(1) im(4) by simp
      also have "map (chunk_byte sbi3 vi) [unat offset ..< unat offset + length buffer] = take (length buffer) (drop (unat offset) f)"
        using g [rule_format, OF im(1,3,5)] im(6) nb r(1) by (intro nth_equalityI) simp_all
      finally show "erofs_pread n lib sbi3 vi buffer offset = Inr (vi, take (length buffer) (drop (unat offset) f))" .
    qed
  qed
  then show ?thesis using run l written_extent [OF w] by blast
qed

text \<open>A file of one byte, written first.\<close>

definition one_source :: chunk_source where
  "one_source = \<lparr>seek_data = (\<lambda>p. if p = 0 then Inr 0 else Err ENXIO), seek_set = (\<lambda>_. True), read_at = (\<lambda>p n. Inr (take n (drop (unat p) [7])))\<rparr>"

definition one_sbi :: erofs_sb_info where
  "one_sbi = (zero_sbi (plain_file []))\<lparr>blkszbits := 9\<rparr>"

definition one_blob :: "(bytes, bytes option) hashmap \<Rightarrow> blob_state" where
  "one_blob hm = \<lparr>blob_hashmap = hm, blobfile = Some [], bl_heap = (\<lambda>_. None), bl_fresh = 2, remapped_base = 0, datablob_size = 0, multidev = False,
     bh_devt = None, unhashed_blobchunks = [], saved_by_deduplication = 0\<rparr>"

lemma one_source_ok: "source_ok one_source 0 [7]"
  by (simp add: source_ok_def one_source_def unat_of_nat)

theorem chunked_file_reads_back_witness:
  "\<exists>hm inode' buf bs' sbi2 sbi3 exts vi. erofs_blob_write_chunked_file (\<lambda>_. False) (\<lambda>n. replicate n 0) 8 9 one_source one_sbi 0
       ((zero_inode 0)\<lparr>i_size := 1\<rparr>) (one_blob hm) = Inr (inode', buf, bs') \<and>
     erofs_blob_write_chunk_indexes 8 sbi2 (bs'\<lparr>remapped_base := 0\<rparr>) inode' buf (nid vi) = Inr (sbi3, exts) \<and>
     erofs_pread 3 no_lib sbi3 vi [0] 0 = Inr (vi, [7])"
proof -
  obtain hm where hm: "hashmap_init (Some erofs_blob_hashmap_cmp) 0 = Some hm" "hm_inv hm" "bag hm = {#}" "cmpfn hm = erofs_blob_hashmap_cmp"
    by (rule hashmap_init_ok [of 0 erofs_blob_hashmap_cmp]) simp
  let ?ino = "(zero_inode 0)\<lparr>i_size := 1\<rparr>"
  have b: "blkbits one_sbi = 9" "extra_devices one_sbi = 0" by (simp_all add: one_sbi_def zero_sbi_def)
  have inv: "blob_inv one_sbi {[7]} (one_blob hm)" using hm by (simp add: blob_inv_def one_blob_def b)
  have rm: "room one_sbi (2 ^ unat (9 :: u32)) (nchunks (2 ^ unat (9 :: u32)) [7]) (one_blob hm)" using hm(3) by (simp add: room_def one_blob_def b)
  obtain inode' buf bs' where run: "erofs_blob_write_chunked_file (\<lambda>_. False) (\<lambda>n. replicate n 0) 8 9 one_source one_sbi 0 ?ino (one_blob hm) = Inr (inode', buf, bs')"
      and l: "blob_inv one_sbi {[7]} bs'" "unat (extent_isize inode') \<le> 8 * nchunks (2 ^ blkbits one_sbi) [7]"
      and rd: "\<forall>sbi2 bs2 off. extends bs' bs2 \<longrightarrow> quiet (bdev sbi2) \<longrightarrow> blkszbits sbi2 = blkszbits one_sbi \<longrightarrow> unat off < 2 ^ 60 \<longrightarrow>
      (\<exists>b exts sbi3. erofs_blob_write_chunk_indexes 8 sbi2 bs2 inode' buf off = Inr (sbi3, exts) \<and> length b = unat (extent_isize inode') \<and>
        sbi3 = sbi2\<lparr>bdev := (bdev sbi2)\<lparr>vf_bytes := fsplice (vf_bytes (bdev sbi2)) (unat (roundup off (chunk_unit inode'))) b\<rparr>\<rparr> \<and>
        (\<forall>vi n lib offset buffer. blob_in_image sbi3 bs2 \<longrightarrow> chunk_ok sbi3 vi \<longrightarrow> inline_pos sbi3 vi = off \<longrightarrow> i_size vi = i_size ?ino \<longrightarrow>
           chunkformat vi = chunkformat inode' \<longrightarrow> chunkbits vi = blkszbits one_sbi + ucast (chunkformat inode' AND EROFS_CHUNK_FORMAT_BLKBITS_MASK) \<longrightarrow>
           unat offset + length buffer \<le> length [7::u8] \<longrightarrow> length buffer + 2 \<le> n \<longrightarrow>
           erofs_pread n lib sbi3 vi buffer offset = Inr (vi, take (length buffer) (drop (unat offset) [7]))))"
    using chunked_file_reads_back [OF inv _ _ _ _ _ b(2) _ _ _ _ rm one_source_ok, of ?ino "\<lambda>n. replicate n 0" "\<lambda>_. False"]
    by (simp add: collision_free_def fchunk_def b) blast
  obtain g where g: "blobfile bs' = Some g" "length g < (2 ^ 32 - 1) * 2 ^ 9" using l(1) b by (auto simp: blob_inv_def)
  let ?s2 = "(zero_sbi (plain_file g))\<lparr>blkszbits := 9\<rparr>" and ?bs = "bs'\<lparr>remapped_base := 0\<rparr>" and ?off = "of_nat (length g) :: u64"
  have lg: "length g < 2 ^ 42" using g(2) by simp
  have uo: "unat ?off = length g" using lg by (simp add: unat_of_nat)
  have s2: "extends bs' ?bs" "quiet (bdev ?s2)" "blkszbits ?s2 = blkszbits one_sbi" using g(1) by (simp_all add: extends_def one_sbi_def quiet_plain_file)
  obtain b exts sbi3 where x: "erofs_blob_write_chunk_indexes 8 ?s2 ?bs inode' buf ?off = Inr (sbi3, exts)" "length b = unat (extent_isize inode')"
      "sbi3 = ?s2\<lparr>bdev := (bdev ?s2)\<lparr>vf_bytes := fsplice (vf_bytes (bdev ?s2)) (unat (roundup ?off (chunk_unit inode'))) b\<rparr>\<rparr>"
    and r: "\<forall>vi n lib offset buffer. blob_in_image sbi3 ?bs \<longrightarrow> chunk_ok sbi3 vi \<longrightarrow> inline_pos sbi3 vi = ?off \<longrightarrow> i_size vi = i_size ?ino \<longrightarrow>
           chunkformat vi = chunkformat inode' \<longrightarrow> chunkbits vi = blkszbits one_sbi + ucast (chunkformat inode' AND EROFS_CHUNK_FORMAT_BLKBITS_MASK) \<longrightarrow>
           unat offset + length buffer \<le> length [7::u8] \<longrightarrow> length buffer + 2 \<le> n \<longrightarrow>
           erofs_pread n lib sbi3 vi buffer offset = Inr (vi, take (length buffer) (drop (unat offset) [7]))"
    using rd [rule_format, OF s2, of ?off] uo lg by auto
  define vi where "vi = (zero_inode ?off)\<lparr>i_size := 1, datalayout := EROFS_INODE_CHUNK_BASED, chunkformat := chunkformat inode',
    chunkbits := blkszbits one_sbi + ucast (chunkformat inode' AND EROFS_CHUNK_FORMAT_BLKBITS_MASK)\<rparr>"
  have im: "blob_in_image sbi3 ?bs"
  proof -
    let ?u = "unat (chunk_unit inode')"
    have "unat (roundup ?off (chunk_unit inode')) = (length g + ?u - 1) div ?u * ?u" using lg uo by (subst unat_roundup) (auto simp: chunk_unit_def)
    moreover have "length g \<le> (length g + ?u - 1) div ?u * ?u" by (rule ceil_div_bounds) (simp add: chunk_unit_def)
    ultimately have "length g \<le> unat (roundup ?off (chunk_unit inode'))" by simp
    moreover have "length g div 512 < 2 ^ 32 - 1" using g(2) by (intro less_mult_imp_div_less) simp
    ultimately show ?thesis using g(1) by (simp add: blob_in_image_def x(3) zbyte_def nth_fsplice)
  qed
  have ip: "inline_pos sbi3 vi = ?off" by (simp add: inline_pos_def erofs_iloc_def erofs_pos_def x(3) zero_sbi_def vi_def zero_inode_def)
  have ok: "chunk_ok sbi3 vi"
  proof -
    have m: "unat (chunkformat inode' AND EROFS_CHUNK_FORMAT_BLKBITS_MASK) \<le> 31"
      using word_and_le1 [of "chunkformat inode'" EROFS_CHUNK_FORMAT_BLKBITS_MASK] by (simp add: word_le_nat_alt)
    then have cb: "unat (chunkbits vi) = 9 + unat (chunkformat inode' AND EROFS_CHUNK_FORMAT_BLKBITS_MASK)"
      by (simp add: vi_def one_sbi_def unat_word_ariths unat_ucast_small)
    have "unat (i_size vi) < 2 ^ unat (chunkbits vi)" unfolding cb using one_less_power [of "2::nat" "9 + n" for n] by (simp add: vi_def)
    then have "unat (i_size vi) div 2 ^ unat (chunkbits vi) = 0" by (rule div_less)
    then show ?thesis using cb m uo g(2) ip by (simp add: chunk_ok_def x(3) zero_sbi_def quiet_plain_file) (simp add: vi_def)
  qed
  have "erofs_pread 3 no_lib sbi3 vi [0] 0 = Inr (vi, [7])"
    using r [rule_format, OF im ok ip, of 0 "[0]" 3 no_lib] by (simp add: vi_def)
  moreover have "nid vi = ?off" by (simp add: vi_def zero_inode_def)
  ultimately show ?thesis using run x(1) by metis
qed

end
