(* ===== verification/Erofs_Blob_Errors.thy ===== *)
theory Erofs_Blob_Errors
  imports Erofs_Blob_File
begin

text \<open>
  What the chunk writer does when the system does not do as asked: copying the blob file with short transfers, and the
  failures that \<^verbatim>\<open>lib/blobchunk.c\<close> does not notice.
\<close>

unbundle bit_operations_syntax

section \<open>Copying\<close>

text \<open>A call that moves at least one byte.\<close>

definition progress :: "nat result \<Rightarrow> bool" where
  "progress r \<longleftrightarrow> (case r of Inl _ \<Rightarrow> False | Inr n \<Rightarrow> 0 < n)"

lemma progressE: "progress r \<Longrightarrow> (\<And>n. r = Inr n \<Longrightarrow> 0 < n \<Longrightarrow> thesis) \<Longrightarrow> thesis"
  by (auto simp: progress_def split: sum.splits)

lemma copy_write_all:
  assumes "\<And>pos n. 0 < n \<Longrightarrow> progress (co_write co pos n)" and "pos \<le> length out"
  shows "copy_write co out p pos = Some (fsplice out pos p, 0)"
  using assms(2)
proof (induction "length p" arbitrary: p pos out rule: less_induct)
  case less
  show ?case
  proof (cases "p = []")
    case True
    then show ?thesis using less.prems by (subst copy_write.simps) (simp add: fsplice_def)
  next
    case False
    then obtain n where n: "co_write co pos (length p) = Inr n" "0 < n" using assms(1) [of "length p" pos] by (auto elim: progressE)
    let ?m = "min n (length p)"
    have t: "take n p = take ?m p" "drop n p = drop ?m p" "length (take n p) = ?m" by (auto simp: min_def)
    have "copy_write co (fsplice out pos (take n p)) (drop n p) (pos + ?m) = Some (fsplice (fsplice out pos (take n p)) (pos + ?m) (drop n p), 0)"
      using n(2) False by (intro less.hyps) auto
    also have "fsplice (fsplice out pos (take n p)) (pos + ?m) (drop n p) = fsplice out pos p"
      using fsplice_append [of out pos "take n p" "drop n p"] t(3) by simp
    finally show ?thesis using False n by (subst copy_write.simps) simp
  qed
qed

lemma copy_loop_all:
  assumes w: "\<And>pos n. 0 < n \<Longrightarrow> progress (co_write co pos n)" and r: "\<And>pos n. 0 < n \<Longrightarrow> progress (co_read co pos n)"
    and "off_in + len \<le> length inp" and "off_out \<le> length out"
  shows "copy_loop co inp out off_in off_out len copied = Some (fsplice out off_out (take len (drop off_in inp)), Inr (copied + len))"
  using assms(3,4)
proof (induction len arbitrary: out off_in off_out copied rule: less_induct)
  case (less len)
  show ?case
  proof (cases "len = 0")
    case True
    then show ?thesis using less.prems by (subst copy_loop.simps) (simp add: fsplice_def)
  next
    case False
    then obtain n where n: "co_read co off_in (min len 8192) = Inr n" "0 < n" using r [of "min len 8192" off_in] by (auto elim: progressE)
    let ?m = "min n (min len 8192)" and ?b = "take (min n (min len 8192)) (drop off_in inp)"
    have m: "0 < ?m" "?m \<le> len" "length ?b = ?m" using n(2) False less.prems by auto
    then have b: "?b \<noteq> []" by (metis length_0_conv less_numeral_extra(3))
    have "copy_loop co inp (fsplice out off_out ?b) (off_in + ?m) (off_out + ?m) (len - ?m) (copied + ?m) =
        Some (fsplice (fsplice out off_out ?b) (off_out + ?m) (take (len - ?m) (drop (off_in + ?m) inp)), Inr (copied + ?m + (len - ?m)))"
      using m less.prems by (intro less.IH) auto
    also have "fsplice (fsplice out off_out ?b) (off_out + ?m) (take (len - ?m) (drop (off_in + ?m) inp)) =
        fsplice out off_out (?b @ take (len - ?m) (drop (off_in + ?m) inp))"
      using fsplice_append [of out off_out ?b] m(3) by simp
    also have "?b @ take (len - ?m) (drop (off_in + ?m) inp) = take len (drop off_in inp)"
      using take_add [of ?m "len - ?m" "drop off_in inp"] m(2) by (simp add: add.commute)
    finally have "copy_loop co inp (fsplice out off_out ?b) (off_in + ?m) (off_out + ?m) (len - ?m) (copied + ?m) =
        Some (fsplice out off_out (take len (drop off_in inp)), Inr (copied + len))" using m(2) by simp
    then show ?thesis
      using False n(1) b m(3) copy_write_all [OF w less.prems(2), of ?b] by (subst copy_loop.simps) (simp add: Let_def)
  qed
qed

text \<open>
  C33. \<^verbatim>\<open>erofs_copy_file_range\<close> returns on every path.  Where there is no \<^verbatim>\<open>copy_file_range\<close>, or it fails with \<^verbatim>\<open>ENOSYS\<close> or \<^verbatim>\<open>EXDEV\<close>, the
  fallback has copied exactly the range asked for, however short the transfers are, if every \<^verbatim>\<open>pread\<close> and \<^verbatim>\<open>pwrite\<close> moves at
  least one byte.  Where the kernel copies, its answer is returned as it is: exactly the \<^verbatim>\<open>n\<close> bytes it reports have been
  copied, which may be fewer than asked for, and nothing after any other error.
\<close>

theorem copy_file_range_returns:
  assumes "\<And>pos n. 0 < n \<Longrightarrow> progress (co_read co pos n)" and "\<And>pos n. 0 < n \<Longrightarrow> progress (co_write co pos n)"
    and "off_in + len \<le> length inp" and "off_out \<le> length out"
  shows "erofs_copy_file_range co inp off_in out off_out len =
    Some (case co_range co of
            None \<Rightarrow> (fsplice out off_out (take len (drop off_in inp)), Inr len)
          | Some (Inr n) \<Rightarrow> (fsplice out off_out (take (min n len) (drop off_in inp)), Inr (min n len))
          | Some (Inl e) \<Rightarrow>
              if e = Errno ENOSYS \<or> e = Errno EXDEV then (fsplice out off_out (take len (drop off_in inp)), Inr len)
              else (out, Inl e))"
proof -
  note l = copy_loop_all [OF assms(2,1,3,4), of 0]
  have nil: "fsplice out off_out [] = out" using assms(4) by (simp add: fsplice_def)
  have "length (take (min n len) (drop off_in inp)) = min n len" for n using assms(3) by simp
  then show ?thesis by (auto simp: erofs_copy_file_range_def Let_def l nil split: option.split sum.split)
qed

definition bytewise :: copy_os where
  "bytewise = \<lparr>co_range = Some (Err ENOSYS), co_read = (\<lambda>_ _. Inr 2), co_write = (\<lambda>_ _. Inr 1)\<rparr>"

text \<open>The same copy byte by byte, and by a kernel that stops after two of the three bytes.\<close>

theorem copy_file_range_returns_witness:
  "erofs_copy_file_range bytewise [1, 2, 3, 4, 5] 1 [9, 9, 9] 2 3 = Some ([9, 9, 2, 3, 4], Inr 3) \<and>
   erofs_copy_file_range (bytewise\<lparr>co_range := Some (Inr 2)\<rparr>) [1, 2, 3, 4, 5] 1 [9, 9, 9] 2 3 = Some ([9, 9, 2, 3], Inr 2)"
  using copy_file_range_returns [of bytewise 1 3 "[1, 2, 3, 4, 5]" 2 "[9, 9, 9]"]
    copy_file_range_returns [of "bytewise\<lparr>co_range := Some (Inr 2)\<rparr>" 1 3 "[1, 2, 3, 4, 5]" 2 "[9, 9, 9]"]
  by (simp add: bytewise_def progress_def fsplice_def)

section \<open>Failures that are not noticed\<close>

text \<open>
  C35. \<^verbatim>\<open>erofs_mkfs_dump_blobs\<close> does not notice that copying the blob file failed: it succeeds like a run whose copy succeeded, but
  the image has none of the data.
\<close>

theorem dump_blobs_hides_failure:
  assumes "extra_devices sbi = 0" and "blobfile bs = Some f" and "e \<noteq> ENOSYS" and "e \<noteq> EXDEV"
    and "erofs_mkfs_dump_blobs co sbi bm bs = Some (Inr (sbi', bm', bs'))"
  shows "erofs_mkfs_dump_blobs (co\<lparr>co_range := Some (Err e)\<rparr>) sbi bm bs = Some (Inr (sbi, bm', bs'))"
proof -
  have r: "BLK_ROUND_UP (s\<lparr>bdev := v\<rparr>) x = BLK_ROUND_UP s x" for s v x by (simp add: BLK_ROUND_UP_def erofs_blksiz_def)
  have d: "erofs_bdrop (s\<lparr>bdev := v\<rparr>) b h False = erofs_bdrop s b h False" for s v b h unfolding erofs_bdrop_def r by (rule refl)
  note run = assms(5) [unfolded erofs_mkfs_dump_blobs_def Let_def assms(2) option.case]
  obtain b h where a: "erofs_balloc sbi bm DATA (of_nat (length f)) 0 0 = Inr (b, h)"
    using run assms(1) by (simp split: sum.splits) (metis prod.exhaust)
  let ?b = "fst (erofs_mapbh sbi b (map_option bb_id (bb_of_bh b h)))"
  obtain pos where p: "erofs_btell sbi ?b h False = Inr pos"
    using run assms(1) a by (cases "erofs_btell sbi ?b h False") (simp_all add: assms(2))
  obtain dat ret where c: "erofs_copy_file_range co f 0 (vf_bytes (bdev sbi)) (unat (pos + vf_offset (bdev sbi))) (unat (of_nat (length f) :: u64)) = Some (dat, ret)"
    and fin: "erofs_bdrop sbi (set_bh_op h erofs_drop_directly_bhops ?b) h False = Inr bm'"
      "bs' = bs\<lparr>datablob_size := of_nat (length f), remapped_base := ucast (erofs_blknr sbi pos)\<rparr>"
    using run assms(1) a p by (auto simp: assms(2) d bind_eq_Some_conv split: if_splits)
  have "erofs_copy_file_range (co\<lparr>co_range := Some (Err e)\<rparr>) f 0 (vf_bytes (bdev sbi)) n m = Some (vf_bytes (bdev sbi), Err e)" for n m
    using assms(3,4) by (simp add: erofs_copy_file_range_def)
  then show ?thesis unfolding erofs_mkfs_dump_blobs_def Let_def assms(2) option.case using assms(1) a p fin by (simp add: assms(2) d)
qed

text \<open>A blob of one block, a device with one block in front.\<close>

definition whole_copy :: copy_os where
  "whole_copy = \<lparr>co_range = Some (Inr 512), co_read = (\<lambda>_ n. Inr n), co_write = (\<lambda>_ n. Inr n)\<rparr>"

definition block_blob :: "(bytes, bytes option) hashmap \<Rightarrow> blob_state" where
  "block_blob hm = (one_blob hm)\<lparr>blobfile := Some (replicate 512 7)\<rparr>"

lemma one_sbi_blksiz: "erofs_blksiz one_sbi = 512" "blkbits one_sbi = 9"
  by (simp_all add: one_sbi_def zero_sbi_def erofs_blksiz_def)

lemma block_blob_balloc:
  "\<exists>bm. erofs_balloc one_sbi (erofs_buffer_init 0 1) DATA 512 0 0 = Inr (bm, 1) \<and> bm_blocks bm =
     [\<lparr>bb_id = 0, bb_blkaddr = NULL_ADDR, bb_type = DATA, bb_off = 512, bb_bhs = [\<lparr>bh_id = 1, bh_off = 0, bh_op = write_bhops\<rparr>]\<rparr>] \<and>
     last_mapped bm = None \<and> tail_blkaddr bm = 1"
  by (simp add: erofs_balloc_def get_alignsize_def erofs_bfind_for_attach_def erofs_buffer_init_def Let_def from_last_mapped_def one_sbi_blksiz
      new_block_def erofs_battach_raw_def get_bb_def upd_bb_def erofs_bupdate_mapped_def roundup_def battach_oob_def cmpsgn_def)

lemma block_blob_dumped:
  "\<exists>sbi bm bs. erofs_mkfs_dump_blobs whole_copy one_sbi (erofs_buffer_init 0 1) (block_blob hm) = Some (Inr (sbi, bm, bs)) \<and>
     zread (vf_bytes (bdev sbi)) 512 512 = replicate 512 7"
proof -
  obtain bm where a: "erofs_balloc one_sbi (erofs_buffer_init 0 1) DATA 512 0 0 = Inr (bm, 1)" "bm_blocks bm =
     [\<lparr>bb_id = 0, bb_blkaddr = NULL_ADDR, bb_type = DATA, bb_off = 512, bb_bhs = [\<lparr>bh_id = 1, bh_off = 0, bh_op = write_bhops\<rparr>]\<rparr>]"
     "last_mapped bm = None" "tail_blkaddr bm = 1" using block_blob_balloc by blast
  have b: "bb_of_bh bm 1 = Some \<lparr>bb_id = 0, bb_blkaddr = NULL_ADDR, bb_type = DATA, bb_off = 512, bb_bhs = [\<lparr>bh_id = 1, bh_off = 0, bh_op = write_bhops\<rparr>]\<rparr>"
    by (simp add: bb_of_bh_def a)
  let ?m = "fst (erofs_mapbh one_sbi bm (Some 0))"
  have m: "bm_blocks ?m = [\<lparr>bb_id = 0, bb_blkaddr = 1, bb_type = DATA, bb_off = 512, bb_bhs = [\<lparr>bh_id = 1, bh_off = 0, bh_op = write_bhops\<rparr>]\<rparr>]"
    by (simp add: erofs_mapbh_def after_last_mapped_def mapbh_one_def Let_def get_bb_def upd_bb_def erofs_bupdate_mapped_def BLK_ROUND_UP_def
        roundup_def one_sbi_blksiz a)
  have t: "erofs_btell one_sbi ?m 1 False = Inr 512" by (simp add: erofs_btell_def bb_of_bh_def m erofs_pos_def one_sbi_blksiz)
  have d: "\<exists>bm'. erofs_bdrop sbi (set_bh_op 1 erofs_drop_directly_bhops ?m) 1 False = Inr bm'" for sbi
    by (simp add: erofs_bdrop_def bb_of_bh_def set_bh_op_def m Let_def)
  have v: "extra_devices one_sbi = 0" "vf_offset (bdev one_sbi) = 0" "vf_bytes (bdev one_sbi) = []"
    by (simp_all add: one_sbi_def zero_sbi_def plain_file_def)
  show ?thesis
    using a(1) b t d by (auto simp: erofs_mkfs_dump_blobs_def Let_def block_blob_def v erofs_copy_file_range_def whole_copy_def zread_fsplice_same)
qed

theorem dump_blobs_hides_failure_witness:
  "\<exists>hm bm bs. erofs_mkfs_dump_blobs (whole_copy\<lparr>co_range := Some (Err EIO)\<rparr>) one_sbi (erofs_buffer_init 0 1) (block_blob hm) = Some (Inr (one_sbi, bm, bs)) \<and>
     vf_bytes (bdev one_sbi) = []"
proof -
  obtain hm :: "(bytes, bytes option) hashmap" and sbi bm bs where
    r: "erofs_mkfs_dump_blobs whole_copy one_sbi (erofs_buffer_init 0 1) (block_blob hm) = Some (Inr (sbi, bm, bs))"
    using block_blob_dumped by blast
  have "erofs_mkfs_dump_blobs (whole_copy\<lparr>co_range := Some (Err EIO)\<rparr>) one_sbi (erofs_buffer_init 0 1) (block_blob hm) = Some (Inr (one_sbi, bm, bs))"
    by (rule dump_blobs_hides_failure [OF _ _ _ _ r]) (simp_all add: one_sbi_def zero_sbi_def block_blob_def)
  moreover have "vf_bytes (bdev one_sbi) = []" by (simp add: one_sbi_def zero_sbi_def plain_file_def)
  ultimately show ?thesis by blast
qed

text \<open>The only round over a file of one chunk, with the buffer left as it was.\<close>

lemma one_chunk_round:
  assumes "cw_pos w = 0" "cw_last w = None" "0 < isize" "isize \<le> push_bit bits 1" "seek_data src startoff = Inr startoff"
    and "read_chunk src isize (w\<lparr>cw_fdpos := startoff\<rparr>) = Inr (w\<lparr>cw_fdpos := p\<rparr>)"
  shows "chunked_loop (Suc (Suc n)) werr psz src sbi isize bits startoff w bs =
    bindR (slice (cw_data w) 0 (unat isize)) (\<lambda>data. bindR (erofs_blob_getchunk werr sbi data bs) (\<lambda>(chunk, bs).
      bindR (idx_store psz (cw_indexes w) (cw_idx w) chunk) (\<lambda>buf.
        Inr (w\<lparr>cw_fdpos := p, cw_indexes := buf, cw_idx := Suc (cw_idx w), cw_last := Some chunk, cw_pos := isize\<rparr>, bs))))"
  using assms
  by (auto simp: next_data_def merge_step_def erofs_blob_can_merge_def min_absorb1 Let_def simp del: push_bit_of_1
      split: sum.splits if_splits intro!: bindR_cong)

lemma memput_own: "memput buf 0 (take n buf) = Inr buf"
  by (cases "n \<le> length buf") (simp_all add: memput_def min_def)

text \<open>
  C34. A failing \<^verbatim>\<open>read\<close> is not noticed by \<^verbatim>\<open>erofs_blob_write_chunked_file\<close>: on a file of one chunk the outcome is the one of a
  source that really contains what \<^verbatim>\<open>malloc\<close> left in the buffer.
\<close>

theorem read_failure_stores_buffer:
  assumes "0 < i_size inode" and "i_size inode \<le> push_bit (unat c) 1" and "blkszbits sbi \<le> 12" and "ucast (blkszbits sbi) \<le> c" and "c \<le> 30"
    and "seek_data src startoff = Inr startoff" and "read_at src startoff (unat (i_size inode)) = Inl e" and "length (junk (2 ^ unat c)) = 2 ^ unat c"
  shows "erofs_blob_write_chunked_file werr junk psz c src sbi startoff inode bs =
    erofs_blob_write_chunked_file werr junk psz c (src\<lparr>read_at := \<lambda>_ n. Inr (take n (junk (2 ^ unat c)))\<rparr>) sbi startoff inode bs"
proof -
  let ?n = "i_size inode" and ?src = "src\<lparr>read_at := \<lambda>_ n. Inr (take n (junk (2 ^ unat c)))\<rparr>"
  have c: "unat c \<le> 30" using assms(5) by (simp add: word_le_nat_alt)
  have p: "(2::nat) ^ unat c \<le> 2 ^ 30" using c by (intro power_increasing) simp_all
  have u: "unat (push_bit (unat c) 1 :: u64) = 2 ^ unat c" using c by (intro csize_word(2)) simp
  have n: "0 < unat ?n" "unat ?n \<le> 2 ^ unat c" using assms(1,2) u by (simp_all add: word_less_nat_alt word_le_nat_alt del: push_bit_of_1)
  have one: "ucast (DIV_ROUND_UP ?n (push_bit (unat c) 1)) = (1 :: u32)"
  proof -
    have d: "(unat ?n + 2 ^ unat c - 1) div 2 ^ unat c = 1" using n by (simp add: div_nat_eqI)
    then have "unat (ucast (DIV_ROUND_UP ?n (push_bit (unat c) 1)) :: u32) = (unat ?n + 2 ^ unat c - 1) div 2 ^ unat c"
      using c n p div_round_up_value [of ?n "replicate (unat ?n) 0" "unat c"] by simp
    also note d
    finally show ?thesis by (metis unat_1 word_unat_eq_iff)
  qed
  have k: "\<not> 31 < c - ucast (blkszbits sbi)"
    using assms(4) c by (simp add: word_less_nat_alt unat_sub)
  have rd: "read_chunk src ?n (w\<lparr>cw_fdpos := startoff\<rparr>) = Inr (w\<lparr>cw_fdpos := startoff\<rparr>)" for w
    using assms(7) by (simp add: read_chunk_def)
  have sc: "scast (of_nat (unat ?n) :: u32) = ?n" using n p scast_small [of "unat ?n"] by simp
  have rd': "read_chunk ?src ?n (w\<lparr>cw_fdpos := startoff\<rparr>) = Inr (w\<lparr>cw_fdpos := startoff + ?n\<rparr>)" if "cw_data w = junk (2 ^ unat c)" for w
    using that assms(8) n(2) sc by (simp add: read_chunk_def memput_own min_absorb2)
  obtain m where s: "max 8 psz = Suc m" by (cases "max 8 psz") simp_all
  show ?thesis
    unfolding erofs_blob_write_chunked_file_def Let_def
    using k assms(6) by (simp add: one u s one_chunk_round [OF _ _ assms(1,2,6) rd] one_chunk_round [OF _ _ assms(1,2) _ rd']
       bindR_assoc split_def del: push_bit_of_1 chunked_loop.simps)
qed

definition broken_source :: chunk_source where
  "broken_source = one_source\<lparr>read_at := \<lambda>_ _. Err EIO\<rparr>"

theorem read_failure_stores_buffer_witness:
  "\<exists>hm inode' buf bs'. erofs_blob_write_chunked_file (\<lambda>_. False) (\<lambda>n. replicate n 0) 8 9 broken_source one_sbi 0
     ((zero_inode 0)\<lparr>i_size := 1\<rparr>) (one_blob hm) = Inr (inode', buf, bs')"
proof -
  obtain hm where hm: "hm_inv hm" "bag hm = {#}" "cmpfn hm = erofs_blob_hashmap_cmp"
    by (rule hashmap_init_ok [of 0 erofs_blob_hashmap_cmp]) simp
  let ?ino = "(zero_inode 0)\<lparr>i_size := 1\<rparr>" and ?src = "broken_source\<lparr>read_at := \<lambda>_ n. Inr (take n (replicate 512 0))\<rparr>"
  have "erofs_blob_write_chunked_file (\<lambda>_. False) (\<lambda>n. replicate n 0) 8 9 broken_source one_sbi 0 ?ino (one_blob hm) =
      erofs_blob_write_chunked_file (\<lambda>_. False) (\<lambda>n. replicate n 0) 8 9 ?src one_sbi 0 ?ino (one_blob hm)"
    using read_failure_stores_buffer [of ?ino 9 one_sbi broken_source 0 "Errno EIO" "\<lambda>n. replicate n 0" "\<lambda>_. False" 8 "one_blob hm"]
    by (simp add: broken_source_def one_source_def one_sbi_def)
  moreover have "\<exists>inode' buf bs'. erofs_blob_write_chunked_file (\<lambda>_. False) (\<lambda>n. replicate n 0) 8 9 ?src one_sbi 0 ?ino (one_blob hm) = Inr (inode', buf, bs')"
  proof -
    have b: "blkbits one_sbi = 9" "extra_devices one_sbi = 0" by (simp_all add: one_sbi_def zero_sbi_def)
    have inv: "blob_inv one_sbi {[0]} (one_blob hm)" using hm by (simp add: blob_inv_def one_blob_def b)
    have rm: "room one_sbi (2 ^ unat (9 :: u32)) (nchunks (2 ^ unat (9 :: u32)) [0]) (one_blob hm)" using hm(2) by (simp add: room_def one_blob_def b)
    have src: "source_ok ?src 0 [0]" by (auto simp: source_ok_def broken_source_def one_source_def unat_of_nat less_Suc_eq le_Suc_eq add_is_1)
    show ?thesis
      by (rule write_chunked_file_ok [OF inv _ _ _ _ b(2) _ _ _ _ _ rm src, of ?ino "\<lambda>n. replicate n 0" "\<lambda>_. False"])
        (auto simp: collision_free_def fchunk_def b)
  qed
  ultimately show ?thesis by metis
qed

section \<open>Pointers of 32 bits\<close>

lemma le_get_cpu_to_le32: "(le_get (cpu_to_le32 w) :: u64) = ucast w"
proof (rule bit_word_eqI)
  fix i assume i: "i < LENGTH(64)"
  have "i div 8 < 4 \<longleftrightarrow> i < 32" by auto
  then show "bit (le_get (cpu_to_le32 w) :: u64) i = bit (ucast w :: u64) i"
    using i by (auto simp: bit_le_get nth_le_put bit_ucast_iff bit_drop_bit_eq dest: bit_imp_le_length)
qed

lemma unat_upcast: "unat (ucast (w :: u32) :: u64) = unat w"
  by (rule unat_ucast_small) (rule less_le_trans [OF unsigned_less], simp)

text \<open>
  C36. Where a pointer has 32 bits and the indexes name a device, \<^verbatim>\<open>erofs_blob_write_chunk_indexes\<close> overwrites the second pointer
  before it is read: what it follows then is the block address of the first chunk.
\<close>

theorem indexes_overwrite_pointers:
  assumes "chunkformat inode AND EROFS_CHUNK_FORMAT_INDEXES \<noteq> 0" and "16 \<le> unat (extent_isize inode)" and "16 \<le> length buf"
    and "ptr_load 4 buf 0 = Inr a" and "chunk_at bs a = Inr c"
    and "chunk_at bs (unat (chunk_blkaddr bs c)) = Inl OutOfBounds"
  shows "erofs_blob_write_chunk_indexes 4 sbi bs inode buf off = Inl OutOfBounds"
proof -
  let ?idx = "\<lparr>ci_advise = 0, ci_device_id = ucast (bc_device_id c), ci_blkaddr = chunk_blkaddr bs c\<rparr>"
  have u: "unat (chunk_unit inode) = 8" using assms(1) by (simp add: chunk_unit_def)
  obtain n where n: "(unat (extent_isize inode) + 8 - 1) div 8 = Suc (Suc n)"
  proof -
    have "2 \<le> (unat (extent_isize inode) + 8 - 1) div 8" using assms(2) by (simp add: less_eq_div_iff_mult_less_eq)
    then show ?thesis using that by (metis add_2_eq_Suc le_Suc_ex)
  qed
  have m: "memput buf 0 (enc_chunk_index ?idx) = Inr (enc_chunk_index ?idx @ drop 8 buf)" using assms(3) by (simp add: memput_def enc_chunk_index_def)
  have "ptr_load 4 (enc_chunk_index ?idx @ drop 8 buf) 1 = Inr (unat (chunk_blkaddr bs c))"
    by (simp add: ptr_load_def slice_def enc_chunk_index_def le_get_cpu_to_le32 unat_upcast)
  then show ?thesis
    unfolding erofs_blob_write_chunk_indexes_def Let_def u n using assms(4-6) m by simp
qed

theorem indexes_overwrite_pointers_witness:
  "\<exists>hm. erofs_blob_write_chunk_indexes 4 one_sbi
     ((one_blob hm)\<lparr>bl_heap := [2 \<mapsto> erofs_holechunk\<lparr>bc_blkaddr := 7\<rparr>, 3 \<mapsto> erofs_holechunk\<lparr>bc_blkaddr := 9\<rparr>]\<rparr>)
     ((zero_inode 0)\<lparr>chunkformat := EROFS_CHUNK_FORMAT_INDEXES, extent_isize := 16\<rparr>) (cpu_to_le32 2 @ cpu_to_le32 3 @ replicate 8 0) 0 = Inl OutOfBounds"
  by (rule exI [of _ undefined], rule indexes_overwrite_pointers [of _ _ 2 _ "erofs_holechunk\<lparr>bc_blkaddr := 7\<rparr>"])
    (simp_all add: ptr_load_def slice_def chunk_at_def one_blob_def chunk_blkaddr_def erofs_holechunk_def le_get_cpu_to_le32)

end
