(* ===== verification/Erofs_Stream.thy ===== *)
theory Erofs_Stream
  imports Erofs_Io
begin

text \<open>
  The input stream of \<^verbatim>\<open>lib/tar.c\<close>: a buffer of 32 KiB in front of a file or of a decoder, and \<^verbatim>\<open>erofs_io_read\<close> of \<^verbatim>\<open>lib/io.c\<close> below
  it.  The locale \<^verbatim>\<open>byte_stream\<close> is what the readers of an archive rely on.
\<close>

section \<open>Reading a file in sequence\<close>

text \<open>
  A file descriptor: the bytes of the file, the position, and the answers of the kernel to the coming \<^verbatim>\<open>read\<close> calls (each
  call is answered in full when the list is used up).
\<close>

record stream_file =
  sf_bytes :: bytes
  sf_pos :: nat
  sf_ans :: "sysret list"

text \<open>
  The loop of \<^verbatim>\<open>erofs_io_read\<close>.  After an interrupted call it still adds the result \<^verbatim>\<open>-1\<close> to the position in the buffer: \<^verbatim>\<open>low\<close>
  counts the bytes by which the position has fallen below the beginning of the buffer.  A negative total is
  returned as it is and reads as \<^verbatim>\<open>EPERM\<close>.
\<close>

function io_read_loop :: "stream_file \<Rightarrow> nat \<Rightarrow> nat \<Rightarrow> bytes \<Rightarrow> stream_file \<times> bytes result" where
  "io_read_loop f n low acc =
     (if n = 0 then (f, Inr acc)
      else case sys_take (min n (2 ^ 31 - 1)) (sf_ans f) of
             Inl e \<Rightarrow>
               let f = f\<lparr>sf_ans := tl (sf_ans f)\<rparr> in
               if e \<noteq> EINTR then (f, Err e)
               else if acc = [] then io_read_loop f (Suc n) (Suc low) []
               else io_read_loop f (Suc n) low (butlast acc)
           | Inr k \<Rightarrow>
               let got = take k (drop (sf_pos f) (sf_bytes f));
                   f = f\<lparr>sf_ans := tl (sf_ans f), sf_pos := sf_pos f + length got\<rparr>
               in if got = [] then (f, if 0 < low then Err EPERM else Inr acc)
                  else if 0 < low then (f, Inl OutOfBounds)
                  else io_read_loop f (n - length got) low (acc @ got))"
  by pat_completeness auto
termination
proof (relation "measures [\<lambda>(f, n, low, acc). length (sf_ans f), \<lambda>(f, n, low, acc). n]", goal_cases)
  case 1
  then show ?case by simp
next
  case (2 f n low acc e x)
  then show ?case by (cases "sf_ans f") auto
next
  case (3 f n low acc e x)
  then show ?case by (cases "sf_ans f") auto
next
  case (4 f n low acc k got x)
  then show ?case by (cases "sf_ans f") auto
qed

declare io_read_loop.simps [simp del]

definition erofs_io_read :: "stream_file \<Rightarrow> nat \<Rightarrow> stream_file \<times> bytes result" where
  "erofs_io_read f n = io_read_loop f n 0 []"

text \<open>
  \<^verbatim>\<open>erofs_io_lseek\<close> with \<^verbatim>\<open>SEEK_CUR\<close> on a file that has been found to be seekable.  The failure of the system call is not part of the
  model; the source would take the result \<^verbatim>\<open>-1\<close> for a position behind the end.
\<close>

definition erofs_io_lseek_cur :: "stream_file \<Rightarrow> nat \<Rightarrow> stream_file \<times> nat" where
  "erofs_io_lseek_cur f n = (f\<lparr>sf_pos := sf_pos f + n\<rparr>, sf_pos f + n)"

section \<open>The stream\<close>

text \<open>
  The decoders belong to other libraries.  What a call gives is data of the model: \<^verbatim>\<open>gzread\<close> returns bytes, 0 (with
  the stream at its end or not) or \<^verbatim>\<open>-1\<close>; the step of liblzma fails to read the file, gives bytes, gives the last bytes, or fails.
\<close>

datatype decoder_answer = DecData bytes | DecEnd bytes | DecZero | DecFail | DecReadFail errno

datatype ios_decoder = EROFS_IOS_DECODER_NONE | EROFS_IOS_DECODER_GZIP | EROFS_IOS_DECODER_LIBLZMA

text \<open>\<^verbatim>\<open>bufsize\<close> is the length of \<^verbatim>\<open>ios_buffer\<close>; \<^verbatim>\<open>ios_dump\<close> says whether the raw stream is also written to a file.\<close>

record erofs_iostream =
  ios_vf :: stream_file
  ios_ans :: "decoder_answer list"
  ios_sz :: nat
  ios_buffer :: bytes
  ios_head :: nat
  ios_tail :: nat
  ios_decoder :: ios_decoder
  ios_dump :: bool
  ios_feof :: bool

text \<open>
  \<^verbatim>\<open>erofs_iostream_open\<close>: \<^verbatim>\<open>fsz\<close> is what \<^verbatim>\<open>lseek\<close> to the end answers, \<^verbatim>\<open>rewind\<close> whether the way back succeeds, \<^verbatim>\<open>junk\<close> the new buffer,
  whose size is what \<^verbatim>\<open>malloc\<close> gave.  The build has the decoder that is asked for, setting it up succeeds, and so does
  the allocation of the smallest buffer.
\<close>

definition erofs_iostream_open ::
    "bytes \<Rightarrow> int \<Rightarrow> bool \<Rightarrow> stream_file \<Rightarrow> decoder_answer list \<Rightarrow> ios_decoder \<Rightarrow> erofs_iostream result" where
  "erofs_iostream_open junk fsz rewind f ans dec =
     (let ios = \<lparr>ios_vf = f, ios_ans = ans, ios_sz = 0, ios_buffer = junk, ios_head = 0, ios_tail = 0, ios_decoder = dec,
                 ios_dump = False, ios_feof = False\<rparr>
      in if dec \<noteq> EROFS_IOS_DECODER_NONE then Inr ios
         else if fsz \<le> 0 then Inr (ios\<lparr>ios_feof := (fsz = 0)\<rparr>)
         else if \<not> rewind then Err EIO
         else Inr (ios\<lparr>ios_sz := nat fsz, ios_vf := f\<lparr>sf_pos := 0\<rparr>\<rparr>))"

text \<open>Bytes into the buffer behind the \<^verbatim>\<open>ra\<close> bytes that are left in it.\<close>

definition ios_fill :: "nat \<Rightarrow> bytes \<Rightarrow> erofs_iostream \<Rightarrow> erofs_iostream result" where
  "ios_fill ra d ios =
     bindR (memput (ios_buffer ios) ra d) (\<lambda>buf. Inr (ios\<lparr>ios_buffer := buf, ios_tail := ios_tail ios + length d\<rparr>))"

text \<open>
  One call of the decoder or of \<^verbatim>\<open>erofs_io_read\<close>.  The result \<^verbatim>\<open>-1\<close> of \<^verbatim>\<open>gzread\<close> is added to the unsigned \<^verbatim>\<open>tail\<close>.
\<close>

definition ios_refill :: "nat \<Rightarrow> erofs_iostream \<Rightarrow> erofs_iostream \<times> unit result" where
  "ios_refill ra ios =
     (let room = length (ios_buffer ios) - ra;
          ans = (case ios_ans ios of [] \<Rightarrow> DecEnd [] | a # _ \<Rightarrow> a);
          nxt = ios\<lparr>ios_ans := tl (ios_ans ios)\<rparr>;
          fill = (\<lambda>ios d eof. case ios_fill ra d ios of Inl e \<Rightarrow> (ios, Inl e) | Inr ios \<Rightarrow> (ios\<lparr>ios_feof := eof\<rparr>, Inr ()))
      in case ios_decoder ios of
           EROFS_IOS_DECODER_NONE \<Rightarrow>
             (case erofs_io_read (ios_vf ios) room of
                (f, Inl e) \<Rightarrow> (ios\<lparr>ios_vf := f\<rparr>, Inl e)
              | (f, Inr d) \<Rightarrow> fill (ios\<lparr>ios_vf := f\<rparr>) d (length d < room))
         | EROFS_IOS_DECODER_GZIP \<Rightarrow>
             (case ans of
                DecData d \<Rightarrow> if d = [] then (nxt, Err EIO) else fill nxt (take room d) False
              | DecEnd d \<Rightarrow> (nxt\<lparr>ios_feof := True\<rparr>, Inr ())
              | DecZero \<Rightarrow> (nxt, Err EIO)
              | _ \<Rightarrow> (nxt\<lparr>ios_tail := (if ios_tail ios = 0 then 2 ^ 32 - 1 else ios_tail ios - 1)\<rparr>, Inr ()))
         | EROFS_IOS_DECODER_LIBLZMA \<Rightarrow>
             (case ans of
                DecData d \<Rightarrow> fill nxt (take room d) False
              | DecEnd d \<Rightarrow> fill nxt (take room d) True
              | DecReadFail e \<Rightarrow> (nxt, Err e)
              | _ \<Rightarrow> (nxt, Err EIO)))"

text \<open>
  \<^verbatim>\<open>erofs_iostream_read\<close> gives a pointer into the buffer and a length; here the bytes there.  A \<^verbatim>\<open>tail\<close> of \<^verbatim>\<open>2 ^ 32 - 1\<close> is \<^verbatim>\<open>-1\<close> as an
  \<^verbatim>\<open>int\<close>, which is then the result.
\<close>

definition erofs_iostream_read :: "erofs_iostream \<Rightarrow> nat \<Rightarrow> erofs_iostream \<times> bytes result" where
  "erofs_iostream_read ios n =
     (let ra = ios_tail ios - ios_head ios in
      if n \<le> ra then (ios\<lparr>ios_head := ios_head ios + n\<rparr>, slice (ios_buffer ios) (ios_head ios) n)
      else let ios = (if ios_head ios = 0 then ios
                      else ios\<lparr>ios_buffer := take ra (drop (ios_head ios) (ios_buffer ios)) @ drop ra (ios_buffer ios),
                               ios_head := 0, ios_tail := ra\<rparr>)
           in case (if ios_feof ios then (ios, Inr ()) else ios_refill ra ios) of
                (ios, Inl e) \<Rightarrow> (ios, Inl e)
              | (ios, Inr _) \<Rightarrow>
                  if 2 ^ 31 \<le> ios_tail ios then (ios\<lparr>ios_head := ios_tail ios\<rparr>, Err EPERM)
                  else let ret = min (ios_tail ios) (min n (2 ^ 31 - 1))
                       in (ios\<lparr>ios_head := ret\<rparr>, slice (ios_buffer ios) 0 ret))"

text \<open>
  \<^verbatim>\<open>erofs_iostream_bread\<close> copies every piece to the beginning of \<^verbatim>\<open>buf\<close>: \<^verbatim>\<open>buf\<close> does not move on.
\<close>

function bread_loop :: "erofs_iostream \<Rightarrow> bytes \<Rightarrow> nat \<Rightarrow> erofs_iostream \<times> (bytes \<times> nat) result" where
  "bread_loop ios buf rem =
     (case erofs_iostream_read ios rem of
        (ios, Inl e) \<Rightarrow> (ios, Inl e)
      | (ios, Inr src) \<Rightarrow>
          (case memput buf 0 src of
             Inl e \<Rightarrow> (ios, Inl e)
           | Inr buf \<Rightarrow>
               if rem - length src \<noteq> 0 \<and> src \<noteq> [] then bread_loop ios buf (rem - length src)
               else (ios, Inr (buf, rem - length src))))"
  by pat_completeness auto
termination by (relation "measure (\<lambda>(ios, buf, rem). rem)") auto

declare bread_loop.simps [simp del]

definition erofs_iostream_bread :: "erofs_iostream \<Rightarrow> bytes \<Rightarrow> nat \<Rightarrow> erofs_iostream \<times> (bytes \<times> nat) result" where
  "erofs_iostream_bread ios buf n =
     (case bread_loop ios buf n of
        (ios, Inl e) \<Rightarrow> (ios, Inl e)
      | (ios, Inr (buf, rem)) \<Rightarrow> (ios, Inr (buf, n - rem)))"

text \<open>\<^verbatim>\<open>erofs_iostream_lskip\<close> returns what could not be skipped, as an \<^verbatim>\<open>int\<close>.\<close>

function lskip_loop :: "erofs_iostream \<Rightarrow> nat \<Rightarrow> erofs_iostream \<times> nat result" where
  "lskip_loop ios sz =
     (case erofs_iostream_read ios sz of
        (ios, Inl e) \<Rightarrow> (ios, Inl e)
      | (ios, Inr d) \<Rightarrow>
          if ios_feof ios \<or> d = [] \<or> sz - length d = 0 then (ios, Inr (sz - length d)) else lskip_loop ios (sz - length d))"
  by pat_completeness auto
termination by (relation "measure (\<lambda>(ios, sz). sz)") auto

declare lskip_loop.simps [simp del]

definition int_ret :: "nat \<Rightarrow> int" where
  "int_ret n = sint (of_nat n :: u32)"

definition erofs_iostream_lskip :: "erofs_iostream \<Rightarrow> nat \<Rightarrow> erofs_iostream \<times> int result" where
  "erofs_iostream_lskip ios sz =
     (let ra = ios_tail ios - ios_head ios in
      if sz \<le> ra then (ios\<lparr>ios_head := ios_head ios + sz\<rparr>, Inr 0)
      else let sz = sz - ra; ios = ios\<lparr>ios_head := 0, ios_tail := 0\<rparr> in
           if ios_feof ios then (ios, Inr (int_ret sz))
           else if ios_sz ios \<noteq> 0 \<and> \<not> ios_dump ios
           then let (f, cur) = erofs_io_lseek_cur (ios_vf ios) sz
                in (ios\<lparr>ios_vf := f\<rparr>, Inr (if ios_sz ios < cur then int_ret (cur - ios_sz ios) else 0))
           else case lskip_loop ios sz of
                  (ios, Inl e) \<Rightarrow> (ios, Inl e)
                | (ios, Inr n) \<Rightarrow> (ios, Inr (int_ret n)))"

section \<open>A stream of bytes\<close>

text \<open>Calls on a stream: the bytes read, or \<^verbatim>\<open>None\<close> if a call reports a failure.\<close>

datatype stream_op = Get nat | Skip nat

fun stream_run :: "('s \<Rightarrow> nat \<Rightarrow> 's \<times> bytes result) \<Rightarrow> ('s \<Rightarrow> nat \<Rightarrow> 's \<times> int result) \<Rightarrow> stream_op list \<Rightarrow> 's \<Rightarrow> bytes list option" where
  "stream_run get skip [] s = Some []"
| "stream_run get skip (Get n # ops) s =
     (case get s n of (s, Inl e) \<Rightarrow> None | (s, Inr d) \<Rightarrow> map_option ((#) d) (stream_run get skip ops s))"
| "stream_run get skip (Skip n # ops) s =
     (case skip s n of (s, Inl e) \<Rightarrow> None | (s, Inr k) \<Rightarrow> if k = 0 then stream_run get skip ops s else None)"

text \<open>What they mean on the bytes that are left, if a call gives at most \<^verbatim>\<open>cap\<close> bytes.\<close>

fun stream_spec :: "nat \<Rightarrow> stream_op list \<Rightarrow> bytes \<Rightarrow> bytes list option" where
  "stream_spec cap [] r = Some []"
| "stream_spec cap (Get n # ops) r = map_option ((#) (take (min n cap) r)) (stream_spec cap ops (drop (min n cap) r))"
| "stream_spec cap (Skip n # ops) r = (if n \<le> length r then stream_spec cap ops (drop n r) else None)"

locale byte_stream =
  fixes ok :: "'s \<Rightarrow> bool"
    and cap :: "'s \<Rightarrow> nat"
    and rest :: "'s \<Rightarrow> bytes"
    and get :: "'s \<Rightarrow> nat \<Rightarrow> 's \<times> bytes result"
    and skip :: "'s \<Rightarrow> nat \<Rightarrow> 's \<times> int result"
  assumes get_law: "ok s \<Longrightarrow> \<exists>s'. get s n = (s', Inr (take (min n (cap s)) (rest s))) \<and> ok s' \<and> cap s' = cap s \<and>
      rest s' = drop (min n (cap s)) (rest s)"
    and skip_law: "ok s \<Longrightarrow> n \<le> length (rest s) \<Longrightarrow> \<exists>s'. skip s n = (s', Inr 0) \<and> ok s' \<and> cap s' = cap s \<and> rest s' = drop n (rest s)"
    and skip_end: "ok s \<Longrightarrow> length (rest s) < n \<Longrightarrow> n < 2 ^ 32 \<Longrightarrow> \<exists>s' k. skip s n = (s', Inr k) \<and> k \<noteq> 0"
begin

lemma run_spec:
  assumes "ok s" and "\<forall>n. Skip n \<in> set ops \<longrightarrow> n < 2 ^ 32"
  shows "stream_run get skip ops s = stream_spec (cap s) ops (rest s)"
  using assms
proof (induction ops arbitrary: s)
  case Nil
  show ?case by simp
next
  case (Cons op ops)
  show ?case
  proof (cases op)
    case (Get n)
    obtain s' where "get s n = (s', Inr (take (min n (cap s)) (rest s)))" "ok s'" "cap s' = cap s" "rest s' = drop (min n (cap s)) (rest s)"
      using get_law [OF Cons.prems(1)] by blast
    then show ?thesis using Cons.IH [of s'] Cons.prems(2) by (simp add: Get)
  next
    case (Skip n)
    show ?thesis
    proof (cases "n \<le> length (rest s)")
      case True
      then obtain s' where "skip s n = (s', Inr 0)" "ok s'" "cap s' = cap s" "rest s' = drop n (rest s)"
        using skip_law [OF Cons.prems(1)] by blast
      then show ?thesis using Cons.IH [of s'] Cons.prems(2) True by (simp add: Skip)
    next
      case False
      have "n < 2 ^ 32" using Cons.prems(2) Skip by simp
      then obtain s' k where "skip s n = (s', Inr k)" "k \<noteq> 0" using skip_end [OF Cons.prems(1), of n] False by auto
      then show ?thesis using False by (simp add: Skip)
    qed
  qed
qed

end

section \<open>The stream over a file\<close>

text \<open>A stream without decoder over a file whose reads are answered in full, and the bytes that are still to come.\<close>

definition ios_ok :: "erofs_iostream \<Rightarrow> bool" where
  "ios_ok ios \<longleftrightarrow>
     ios_decoder ios = EROFS_IOS_DECODER_NONE \<and> sf_ans (ios_vf ios) = [] \<and> sf_pos (ios_vf ios) \<le> length (sf_bytes (ios_vf ios)) \<and>
     ios_head ios \<le> ios_tail ios \<and> ios_tail ios \<le> length (ios_buffer ios) \<and> 0 < length (ios_buffer ios) \<and> length (ios_buffer ios) < 2 ^ 31 \<and>
     (ios_feof ios \<longrightarrow> sf_pos (ios_vf ios) = length (sf_bytes (ios_vf ios))) \<and>
     (ios_sz ios \<noteq> 0 \<longrightarrow> ios_sz ios = length (sf_bytes (ios_vf ios)))"

definition ios_rest :: "erofs_iostream \<Rightarrow> bytes" where
  "ios_rest ios = take (ios_tail ios - ios_head ios) (drop (ios_head ios) (ios_buffer ios)) @ drop (sf_pos (ios_vf ios)) (sf_bytes (ios_vf ios))"

abbreviation bufsize :: "erofs_iostream \<Rightarrow> nat" where
  "bufsize ios \<equiv> length (ios_buffer ios)"

lemma io_read_full:
  assumes "sf_ans f = []" "n < 2 ^ 31"
  shows "erofs_io_read f n = (f\<lparr>sf_pos := sf_pos f + length (take n (drop (sf_pos f) (sf_bytes f)))\<rparr>, Inr (take n (drop (sf_pos f) (sf_bytes f))))"
proof -
  have m: "min n (2 ^ 31 - 1) = n" using assms(2) by simp
  have e: "f\<lparr>sf_ans := []\<rparr> = f" using assms(1) by simp
  have last: "io_read_loop g k 0 acc = (g, Inr acc)" if "sf_ans g = []" "length (sf_bytes g) \<le> sf_pos g" for g k acc
    using that by (subst io_read_loop.simps) simp
  show ?thesis
    unfolding erofs_io_read_def using assms e m last
    by (subst io_read_loop.simps) (auto simp: Let_def min_def not_le last io_read_loop.simps [of _ 0] split: if_splits)
qed

lemma drop_split: "drop p xs = take n (drop p xs) @ drop (p + length (take n (drop p xs))) xs"
proof -
  have "drop (p + length (take n (drop p xs))) xs = drop (length (take n (drop p xs))) (drop p xs)" by (simp add: add.commute)
  also have "\<dots> = drop n (drop p xs)" by (cases "n \<le> length (drop p xs)") (simp_all add: min_def)
  finally show ?thesis by (simp only: append_take_drop_id)
qed

text \<open>What is left moves to the beginning of the buffer before more is read.\<close>

definition ios_moved :: "erofs_iostream \<Rightarrow> erofs_iostream" where
  "ios_moved ios =
     (let ra = ios_tail ios - ios_head ios in
      if ios_head ios = 0 then ios
      else ios\<lparr>ios_buffer := take ra (drop (ios_head ios) (ios_buffer ios)) @ drop ra (ios_buffer ios), ios_head := 0, ios_tail := ra\<rparr>)"

lemma ios_moved_ok:
  assumes "ios_ok ios"
  shows "ios_ok (ios_moved ios)" "ios_rest (ios_moved ios) = ios_rest ios" "bufsize (ios_moved ios) = bufsize ios"
    "ios_head (ios_moved ios) = 0" "ios_tail (ios_moved ios) = ios_tail ios - ios_head ios" "ios_feof (ios_moved ios) = ios_feof ios"
  using assms by (auto simp: ios_ok_def ios_rest_def ios_moved_def Let_def min_def)

lemma ios_refill_ok:
  assumes "ios_ok ios" and "ios_head ios = 0" and "\<not> ios_feof ios"
  obtains ios' where "ios_refill (ios_tail ios) ios = (ios', Inr ())" "ios_ok ios'" "ios_rest ios' = ios_rest ios" "bufsize ios' = bufsize ios"
    "ios_head ios' = 0" "ios_tail ios' = min (bufsize ios) (length (ios_rest ios))" "ios_feof ios' \<longrightarrow> length (ios_rest ios) \<le> bufsize ios"
proof -
  let ?f = "ios_vf ios" and ?t = "ios_tail ios"
  define got where "got = take (bufsize ios - ?t) (drop (sf_pos ?f) (sf_bytes ?f))"
  have ok: "ios_decoder ios = EROFS_IOS_DECODER_NONE" "sf_ans ?f = []" "sf_pos ?f \<le> length (sf_bytes ?f)" "?t \<le> bufsize ios" "bufsize ios < 2 ^ 31"
    using assms(1) by (simp_all add: ios_ok_def)
  have len: "length got = min (bufsize ios - ?t) (length (sf_bytes ?f) - sf_pos ?f)" by (simp add: got_def)
  have all: "drop (sf_pos ?f) (sf_bytes ?f) = got @ drop (sf_pos ?f + length got) (sf_bytes ?f)"
    unfolding got_def by (rule drop_split)
  let ?ios = "ios\<lparr>ios_vf := ?f\<lparr>sf_pos := sf_pos ?f + length got\<rparr>, ios_buffer := take ?t (ios_buffer ios) @ got @ drop (?t + length got) (ios_buffer ios),
      ios_tail := ?t + length got, ios_feof := (length got < bufsize ios - ?t)\<rparr>"
  have fits: "?t + length got \<le> bufsize ios" using ok(4) len by simp
  have run: "ios_refill ?t ios = (?ios, Inr ())"
    using ok fits io_read_full [of ?f "bufsize ios - ?t", folded got_def] by (simp add: ios_refill_def ios_fill_def memput_def Let_def)
  have r: "ios_rest ?ios = ios_rest ios" using assms(2) ok(4) all by (simp add: ios_rest_def)
  have l: "length (ios_rest ios) = ?t + (length (sf_bytes ?f) - sf_pos ?f)" using assms(2) ok(4) by (simp add: ios_rest_def)
  have p: "sf_pos ?f + length got \<le> length (sf_bytes ?f)" "length got < bufsize ios - ?t \<Longrightarrow> sf_pos ?f + length got = length (sf_bytes ?f)"
    using ok(3) unfolding len by linarith+
  have q: "?t + length got = min (bufsize ios) (length (ios_rest ios))" "length got < bufsize ios - ?t \<Longrightarrow> length (ios_rest ios) \<le> bufsize ios"
    using ok(4) unfolding len l by linarith+
  have b: "bufsize ?ios = bufsize ios" using fits by simp
  have o: "ios_ok ?ios" using assms(1,2) fits p by (auto simp: ios_ok_def)
  have t: "ios_tail ?ios = ?t + length got" and fe: "ios_feof ?ios \<longrightarrow> length (ios_rest ios) \<le> bufsize ios" and h: "ios_head ?ios = 0"
    using q(2) assms(2) by simp_all
  show ?thesis by (rule that [OF run o r b h trans [OF t q(1)] fe])
qed

lemma ios_advance:
  assumes "ios_ok ios" "n \<le> ios_tail ios - ios_head ios"
  shows "ios_ok (ios\<lparr>ios_head := ios_head ios + n\<rparr>)" "ios_rest (ios\<lparr>ios_head := ios_head ios + n\<rparr>) = drop n (ios_rest ios)"
    "ios_head ios + n \<le> bufsize ios"
proof -
  show b: "ios_head ios + n \<le> bufsize ios" and "ios_ok (ios\<lparr>ios_head := ios_head ios + n\<rparr>)" using assms by (auto simp: ios_ok_def)
  show "ios_rest (ios\<lparr>ios_head := ios_head ios + n\<rparr>) = drop n (ios_rest ios)"
    using assms b by (simp add: ios_rest_def ios_ok_def drop_take add.commute)
qed

lemma iostream_read_ok:
  assumes ok: "ios_ok ios"
  obtains ios' where "erofs_iostream_read ios n = (ios', Inr (take (min n (bufsize ios)) (ios_rest ios)))" "ios_ok ios'" "bufsize ios' = bufsize ios"
    "ios_rest ios' = drop (min n (bufsize ios)) (ios_rest ios)" "ios_feof ios' \<longrightarrow> n \<le> bufsize ios \<or> length (ios_rest ios) \<le> bufsize ios"
proof (cases "n \<le> ios_tail ios - ios_head ios")
  case True
  note a = ios_advance [OF ok True]
  have n: "min n (bufsize ios) = n" using a(3) by simp
  have "erofs_iostream_read ios n = (ios\<lparr>ios_head := ios_head ios + n\<rparr>, Inr (take n (ios_rest ios)))"
    using True a(3) ok by (auto simp: erofs_iostream_read_def Let_def slice_def ios_rest_def ios_ok_def min_def)
  then show ?thesis using that [of "ios\<lparr>ios_head := ios_head ios + n\<rparr>"] a n by simp
next
  case False
  note m = ios_moved_ok [OF ok]
  define ra where "ra = ios_tail ios - ios_head ios"
  obtain ios2 where i2: "(if ios_feof (ios_moved ios) then (ios_moved ios, Inr ()) else ios_refill ra (ios_moved ios)) = (ios2, Inr ())"
      "ios_ok ios2" "ios_rest ios2 = ios_rest ios" "bufsize ios2 = bufsize ios" "ios_head ios2 = 0"
      "ios_tail ios2 = min (bufsize ios) (length (ios_rest ios))" "ios_feof ios2 \<longrightarrow> length (ios_rest ios) \<le> bufsize ios"
  proof (cases "ios_feof ios")
    case True
    then have "length (ios_rest ios) = ra" "ra \<le> bufsize ios" using ok by (auto simp: ios_ok_def ios_rest_def ra_def)
    then show ?thesis using that [of "ios_moved ios"] True m by (simp add: ra_def)
  next
    case False
    obtain ios3 where "ios_refill (ios_tail (ios_moved ios)) (ios_moved ios) = (ios3, Inr ())" "ios_ok ios3" "ios_rest ios3 = ios_rest (ios_moved ios)"
        "bufsize ios3 = bufsize (ios_moved ios)" "ios_head ios3 = 0" "ios_tail ios3 = min (bufsize (ios_moved ios)) (length (ios_rest (ios_moved ios)))"
        "ios_feof ios3 \<longrightarrow> length (ios_rest (ios_moved ios)) \<le> bufsize (ios_moved ios)"
      by (rule ios_refill_ok [OF m(1,4)]) (use m(6) False in simp)
    then show ?thesis using that [of ios3] False m by (simp add: ra_def)
  qed
  define ret where "ret = min (ios_tail ios2) (min n (2 ^ 31 - 1))"
  have b: "ios_tail ios2 \<le> bufsize ios" "bufsize ios < 2 ^ 31" using i2 ok by (simp_all add: ios_ok_def)
  have le: "ret \<le> ios_tail ios2" by (simp add: ret_def)
  have ret: "ret = min (min n (bufsize ios)) (length (ios_rest ios))" using i2(6) b by (simp add: ret_def)
  note a = ios_advance [OF i2(2), of ret, unfolded i2(3-5)]
  have "erofs_iostream_read ios n = (ios2\<lparr>ios_head := ret\<rparr>, slice (ios_buffer ios2) 0 ret)"
    using False i2(1) b unfolding erofs_iostream_read_def Let_def ios_moved_def ra_def [symmetric] ret_def by simp
  moreover have "take ret (ios_buffer ios2) = take ret (ios_rest ios)"
    unfolding i2(3) [symmetric] using le b(1) i2(4,5) by (simp add: ios_rest_def)
  moreover have "take ret (ios_rest ios) = take (min n (bufsize ios)) (ios_rest ios)" "drop ret (ios_rest ios) = drop (min n (bufsize ios)) (ios_rest ios)"
    unfolding ret by (simp_all add: min_def)
  ultimately show ?thesis using that [of "ios2\<lparr>ios_head := ret\<rparr>"] i2(4,7) le b(1) a by (simp add: slice_def)
qed

lemma lskip_loop_ok:
  assumes "ios_ok ios" and "0 < sz"
  obtains ios' where "lskip_loop ios sz = (ios', Inr (sz - length (ios_rest ios)))" "ios_ok ios'" "bufsize ios' = bufsize ios"
    "ios_rest ios' = drop sz (ios_rest ios)"
  using assms
proof (induction sz arbitrary: ios thesis rule: less_induct)
  case (less sz)
  let ?r = "ios_rest ios" and ?B = "bufsize ios"
  obtain ios1 where i: "erofs_iostream_read ios sz = (ios1, Inr (take (min sz ?B) ?r))" "ios_ok ios1" "bufsize ios1 = ?B"
      "ios_rest ios1 = drop (min sz ?B) ?r" "ios_feof ios1 \<longrightarrow> sz \<le> ?B \<or> length ?r \<le> ?B"
    by (rule iostream_read_ok [OF less.prems(2)])
  have B: "0 < ?B" using less.prems(2) by (simp add: ios_ok_def)
  let ?d = "take (min sz ?B) ?r"
  show ?case
  proof (cases "ios_feof ios1 \<or> ?d = [] \<or> sz - length ?d = 0")
    case True
    have "sz \<le> ?B \<or> length ?r \<le> ?B" using True i(5) B less.prems(3) by (auto simp: min_def split: if_splits)
    then have "sz - length ?d = sz - length ?r" "drop (min sz ?B) ?r = drop sz ?r" by (auto simp: min_def)
    moreover have "lskip_loop ios sz = (ios1, Inr (sz - length ?d))"
      by (subst lskip_loop.simps) (simp only: i(1) prod.case sum.case if_P [OF True])
    ultimately show ?thesis using less.prems(1) [of ios1] i(2-4) by simp
  next
    case False
    define k where "k = length ?d"
    have k: "k = min (min sz ?B) (length ?r)" "0 < k" "k < sz" "sz - k < sz" "0 < sz - k" using False by (auto simp: k_def)
    obtain ios2 where j: "lskip_loop ios1 (sz - k) = (ios2, Inr (sz - k - length (ios_rest ios1)))" "ios_ok ios2" "bufsize ios2 = bufsize ios1"
        "ios_rest ios2 = drop (sz - k) (ios_rest ios1)"
      by (rule less.IH [OF k(4) _ i(2) k(5)])
    have e: "sz - k - length (ios_rest ios1) = sz - length ?r" "drop (sz - k) (ios_rest ios1) = drop sz ?r"
      using k unfolding i(4) by (auto simp: min_def split: if_splits)
    have "lskip_loop ios sz = lskip_loop ios1 (sz - k)"
      by (subst lskip_loop.simps) (simp only: i(1) prod.case sum.case if_not_P [OF False] k_def)
    then show ?thesis using less.prems(1) [of ios2] i(3) j e by simp
  qed
qed

lemma int_ret_nonzero: "0 < n \<Longrightarrow> n < 2 ^ 32 \<Longrightarrow> int_ret n \<noteq> 0"
proof -
  assume "0 < n" "n < 2 ^ 32"
  then have "unat (of_nat n :: u32) \<noteq> 0" by (simp add: unat_of_nat)
  then have "(of_nat n :: u32) \<noteq> 0" by (metis unat_0)
  then show ?thesis by (simp add: int_ret_def signed_eq_0_iff)
qed

lemma iostream_lskip_ok:
  assumes ok: "ios_ok ios"
  obtains ios' where "erofs_iostream_lskip ios n = (ios', Inr (int_ret (n - length (ios_rest ios))))"
    "n \<le> length (ios_rest ios) \<longrightarrow> ios_ok ios' \<and> bufsize ios' = bufsize ios \<and> ios_rest ios' = drop n (ios_rest ios)"
proof -
  let ?f = "ios_vf ios" and ?ra = "ios_tail ios - ios_head ios" and ?e = "ios\<lparr>ios_head := 0, ios_tail := 0\<rparr>"
  have l: "length (ios_rest ios) = ?ra + (length (sf_bytes ?f) - sf_pos ?f)" using ok by (auto simp: ios_ok_def ios_rest_def)
  have z: "int_ret 0 = 0" by (simp add: int_ret_def)
  have e: "ios_ok ?e" using ok by (simp add: ios_ok_def)
  have er: "ios_rest ?e = drop ?ra (ios_rest ios)" using ok by (auto simp: ios_rest_def ios_ok_def)
  consider (short) "n \<le> ?ra" | (eof) "?ra < n" "ios_feof ios" | (seek) "?ra < n" "\<not> ios_feof ios" "ios_sz ios \<noteq> 0 \<and> \<not> ios_dump ios"
    | (loop) "?ra < n" "\<not> ios_feof ios" "\<not> (ios_sz ios \<noteq> 0 \<and> \<not> ios_dump ios)" by linarith
  then show ?thesis
  proof cases
    case short
    then show ?thesis using that [of "ios\<lparr>ios_head := ios_head ios + n\<rparr>"] l z ios_advance [OF ok short]
      by (simp add: erofs_iostream_lskip_def Let_def)
  next
    case eof
    then show ?thesis using that [of ?e] l ok by (simp add: erofs_iostream_lskip_def Let_def ios_ok_def)
  next
    case seek
    let ?m = "n - ?ra" and ?i = "?e\<lparr>ios_vf := ?f\<lparr>sf_pos := sf_pos ?f + (n - ?ra)\<rparr>\<rparr>"
    have sz: "ios_sz ios = length (sf_bytes ?f)" "sf_pos ?f \<le> length (sf_bytes ?f)" using seek ok by (auto simp: ios_ok_def)
    have "erofs_iostream_lskip ios n = (?i, Inr (int_ret (n - length (ios_rest ios))))"
      using seek sz l z by (simp add: erofs_iostream_lskip_def Let_def erofs_io_lseek_cur_def add.commute)
    moreover have "n \<le> length (ios_rest ios) \<longrightarrow> ios_ok ?i \<and> bufsize ?i = bufsize ios \<and> ios_rest ?i = drop n (ios_rest ios)"
      using seek sz l ok by (auto simp: ios_ok_def ios_rest_def add.commute)
    ultimately show ?thesis using that [of ?i] by blast
  next
    case loop
    obtain ios1 where j: "lskip_loop ?e (n - ?ra) = (ios1, Inr (n - ?ra - length (ios_rest ?e)))" "ios_ok ios1" "bufsize ios1 = bufsize ?e"
        "ios_rest ios1 = drop (n - ?ra) (ios_rest ?e)"
      by (rule lskip_loop_ok [OF e, of "n - ?ra"]) (use loop in simp)
    have "erofs_iostream_lskip ios n = (ios1, Inr (int_ret (n - length (ios_rest ios))))"
      using loop j(1) er l by (cases "ios_dump ios") (simp_all add: erofs_iostream_lskip_def Let_def)
    then show ?thesis using that [of ios1] j er loop by simp
  qed
qed

interpretation ios: byte_stream ios_ok bufsize ios_rest erofs_iostream_read erofs_iostream_lskip
proof unfold_locales
  fix s n assume s: "ios_ok s"
  obtain s' where "erofs_iostream_read s n = (s', Inr (take (min n (bufsize s)) (ios_rest s)))" "ios_ok s'" "bufsize s' = bufsize s"
      "ios_rest s' = drop (min n (bufsize s)) (ios_rest s)" "ios_feof s' \<longrightarrow> n \<le> bufsize s \<or> length (ios_rest s) \<le> bufsize s"
    by (rule iostream_read_ok [OF s])
  then show "\<exists>s'. erofs_iostream_read s n = (s', Inr (take (min n (bufsize s)) (ios_rest s))) \<and> ios_ok s' \<and> bufsize s' = bufsize s \<and>
      ios_rest s' = drop (min n (bufsize s)) (ios_rest s)" by blast
next
  fix s n assume s: "ios_ok s" and n: "n \<le> length (ios_rest s)"
  obtain s' where "erofs_iostream_lskip s n = (s', Inr (int_ret (n - length (ios_rest s))))"
      "n \<le> length (ios_rest s) \<longrightarrow> ios_ok s' \<and> bufsize s' = bufsize s \<and> ios_rest s' = drop n (ios_rest s)"
    by (rule iostream_lskip_ok [OF s])
  then show "\<exists>s'. erofs_iostream_lskip s n = (s', Inr 0) \<and> ios_ok s' \<and> bufsize s' = bufsize s \<and> ios_rest s' = drop n (ios_rest s)"
    using n by (simp add: int_ret_def)
next
  fix s n assume s: "ios_ok s" and n: "length (ios_rest s) < n" "n < 2 ^ 32"
  obtain s' where "erofs_iostream_lskip s n = (s', Inr (int_ret (n - length (ios_rest s))))"
    by (rule iostream_lskip_ok [OF s])
  moreover have "int_ret (n - length (ios_rest s)) \<noteq> 0" using n by (intro int_ret_nonzero) simp_all
  ultimately show "\<exists>s' k. erofs_iostream_lskip s n = (s', Inr k) \<and> k \<noteq> 0" by blast
qed

lemma iostream_open_ok:
  assumes "sf_ans f = []" "sf_pos f = 0" "0 < length junk" "length junk < 2 ^ 31"
    and "fsz = int (length (sf_bytes f)) \<or> fsz < 0"
    and "erofs_iostream_open junk fsz True f [] EROFS_IOS_DECODER_NONE = Inr ios"
  shows "ios_ok ios" "ios_rest ios = sf_bytes f" "bufsize ios = length junk"
proof -
  have ios: "ios = \<lparr>ios_vf = (if 0 < fsz then f\<lparr>sf_pos := 0\<rparr> else f), ios_ans = [], ios_sz = nat fsz, ios_buffer = junk, ios_head = 0, ios_tail = 0,
      ios_decoder = EROFS_IOS_DECODER_NONE, ios_dump = False, ios_feof = (fsz = 0)\<rparr>"
    using assms(6) by (cases "fsz \<le> 0") (simp_all add: erofs_iostream_open_def Let_def)
  show "ios_ok ios" unfolding ios using assms(1-5) by (auto simp: ios_ok_def)
  show "ios_rest ios = sf_bytes f" unfolding ios using assms(2,5) by (auto simp: ios_rest_def)
  show "bufsize ios = length junk" unfolding ios by simp
qed

text \<open>
  C37. A stream opened over a file is the sequence of the file's bytes: any calls of \<^verbatim>\<open>erofs_iostream_read\<close> and \<^verbatim>\<open>erofs_iostream_lskip\<close> give
  consecutive pieces of it, each as long as asked for up to the size of the buffer and the end of the file, whether the
  file can be positioned or not, and skipping past the end is reported.
\<close>

theorem stream_reads_file:
  assumes "sf_ans f = []" "sf_pos f = 0" "0 < length junk" "length junk < 2 ^ 31" and "fsz = int (length (sf_bytes f)) \<or> fsz < 0"
    and "erofs_iostream_open junk fsz True f [] EROFS_IOS_DECODER_NONE = Inr ios" and "\<forall>n. Skip n \<in> set ops \<longrightarrow> n < 2 ^ 32"
  shows "stream_run erofs_iostream_read erofs_iostream_lskip ops ios = stream_spec (length junk) ops (sf_bytes f)"
proof -
  note o = iostream_open_ok [OF assms(1-6)]
  show ?thesis using ios.run_spec [OF o(1) assms(7)] o(2,3) by simp
qed

theorem stream_reads_file_witness:
  "\<exists>ios. erofs_iostream_open (replicate 4 0) 6 True \<lparr>sf_bytes = [1, 2, 3, 4, 5, 6], sf_pos = 0, sf_ans = []\<rparr> [] EROFS_IOS_DECODER_NONE = Inr ios \<and>
     stream_run erofs_iostream_read erofs_iostream_lskip [Get 3, Skip 2, Get 9] ios = Some [[1, 2, 3], [6]]"
proof -
  let ?f = "\<lparr>sf_bytes = [1, 2, 3, 4, 5, 6], sf_pos = 0, sf_ans = []\<rparr> :: stream_file"
  obtain ios where o: "erofs_iostream_open (replicate 4 0) 6 True ?f [] EROFS_IOS_DECODER_NONE = Inr ios"
    by (simp add: erofs_iostream_open_def Let_def)
  have "stream_run erofs_iostream_read erofs_iostream_lskip [Get 3, Skip 2, Get 9] ios = stream_spec 4 [Get 3, Skip 2, Get 9] (sf_bytes ?f)"
    using stream_reads_file [OF _ _ _ _ _ o, of "[Get 3, Skip 2, Get 9]"] by auto
  then show ?thesis using o by simp
qed

section \<open>Reading into a buffer of the caller\<close>

text \<open>
  C40. \<^verbatim>\<open>erofs_iostream_bread\<close> fills the caller's buffer with the next bytes of the stream as long as they fit into the buffer of the
  stream.  Beyond, it still reports the whole length, but the second piece has been stored over the first one.
\<close>

theorem bread_pieces:
  assumes "ios_ok ios" and "length buf = n" and "n \<le> length (ios_rest ios)" and "0 < n"
  shows "(n \<le> bufsize ios \<longrightarrow> (\<exists>ios'. erofs_iostream_bread ios buf n = (ios', Inr (take n (ios_rest ios), n)))) \<and>
    (bufsize ios < n \<and> n \<le> 2 * bufsize ios \<longrightarrow>
      (\<exists>ios'. erofs_iostream_bread ios buf n =
         (ios', Inr (take (n - bufsize ios) (drop (bufsize ios) (ios_rest ios)) @ drop (n - bufsize ios) (take (bufsize ios) (ios_rest ios)) @
                     drop (bufsize ios) buf, n))))"
proof -
  let ?B = "bufsize ios" and ?r = "ios_rest ios"
  obtain ios1 where i: "erofs_iostream_read ios n = (ios1, Inr (take (min n ?B) ?r))" "ios_ok ios1" "bufsize ios1 = ?B" "ios_rest ios1 = drop (min n ?B) ?r"
    by (rule iostream_read_ok [OF assms(1)])
  have B: "0 < ?B" using assms(1) by (simp add: ios_ok_def)
  have one: "\<exists>ios'. erofs_iostream_bread ios buf n = (ios', Inr (take n ?r, n))" if "n \<le> ?B"
    using i(1) that assms(2,3) by (simp add: erofs_iostream_bread_def bread_loop.simps [of ios] memput_def)
  have two: "\<exists>ios'. erofs_iostream_bread ios buf n = (ios', Inr (take (n - ?B) (drop ?B ?r) @ drop (n - ?B) (take ?B ?r) @ drop ?B buf, n))"
    if n: "?B < n" "n \<le> 2 * ?B"
  proof -
    have i1: "erofs_iostream_read ios n = (ios1, Inr (take ?B ?r))" "ios_rest ios1 = drop ?B ?r" using i n(1) by (simp_all add: min_def)
    obtain ios2 where j: "erofs_iostream_read ios1 (n - ?B) = (ios2, Inr (take (min (n - ?B) ?B) (drop ?B ?r)))"
      by (rule iostream_read_ok [OF i(2), of "n - ?B"]) (use i(3) i1(2) in simp)
    then have j': "erofs_iostream_read ios1 (n - ?B) = (ios2, Inr (take (n - ?B) (drop ?B ?r)))" using n by (simp add: min_def)
    have l: "length (take ?B ?r) = ?B" "length (take (n - ?B) (drop ?B ?r)) = n - ?B" "take ?B ?r \<noteq> []" using n assms(3) B by auto
    have m: "memput buf 0 (take ?B ?r) = Inr (take ?B ?r @ drop ?B buf)" using l(1) n assms(2) by (simp add: memput_def)
    have m': "memput (take ?B ?r @ drop ?B buf) 0 (take (n - ?B) (drop ?B ?r)) =
        Inr (take (n - ?B) (drop ?B ?r) @ drop (n - ?B) (take ?B ?r) @ drop ?B buf)"
      using l(1,2) n by (simp add: memput_def)
    have "bread_loop ios1 (take ?B ?r @ drop ?B buf) (n - ?B) = (ios2, Inr (take (n - ?B) (drop ?B ?r) @ drop (n - ?B) (take ?B ?r) @ drop ?B buf, 0))"
      using j' m' l(2) by (simp add: bread_loop.simps [of ios1])
    then have "bread_loop ios buf n = (ios2, Inr (take (n - ?B) (drop ?B ?r) @ drop (n - ?B) (take ?B ?r) @ drop ?B buf, 0))"
      using i1(1) m l(1,3) n by (simp add: bread_loop.simps [of ios])
    then show ?thesis by (simp add: erofs_iostream_bread_def)
  qed
  show ?thesis using one two by blast
qed

theorem bread_pieces_witness:
  "\<exists>ios ios'. erofs_iostream_open (replicate 4 0) 6 True \<lparr>sf_bytes = [1, 2, 3, 4, 5, 6], sf_pos = 0, sf_ans = []\<rparr> [] EROFS_IOS_DECODER_NONE = Inr ios \<and>
     erofs_iostream_bread ios (replicate 6 0) 6 = (ios', Inr ([5, 6, 3, 4, 0, 0], 6))"
proof -
  let ?f = "\<lparr>sf_bytes = [1, 2, 3, 4, 5, 6], sf_pos = 0, sf_ans = []\<rparr> :: stream_file"
  obtain ios where o: "erofs_iostream_open (replicate 4 0) 6 True ?f [] EROFS_IOS_DECODER_NONE = Inr ios"
    by (simp add: erofs_iostream_open_def Let_def)
  have k: "ios_ok ios" "ios_rest ios = [1, 2, 3, 4, 5, 6]" "bufsize ios = 4" using iostream_open_ok [OF _ _ _ _ _ o] by simp_all
  show ?thesis using bread_pieces [OF k(1), of "replicate 6 0" 6] o k(2,3) by (auto simp: numeral_eq_Suc)
qed

end
