(* ===== verification/Erofs_Tar.thy ===== *)
theory Erofs_Tar
  imports Erofs_Stream Erofs_Cache Erofs_Xattr
begin

text \<open>
  Reading archives: the number fields, checksums, path names, extended headers and file data of \<^verbatim>\<open>lib/tar.c\<close>, and the temporary
  file of \<^verbatim>\<open>lib/diskbuf.c\<close> the data go to.
\<close>

unbundle bit_operations_syntax

section \<open>Numbers\<close>

text \<open>
  \<^verbatim>\<open>strtol\<close> of the C library: the value, the string at \<^verbatim>\<open>endptr\<close> and whether the value was out of range.  Without a digit the
  string is returned as it was.
\<close>

definition is_space :: "u8 \<Rightarrow> bool" where
  "is_space c \<longleftrightarrow> c = 32 \<or> 9 \<le> c \<and> c \<le> 13"

definition is_digit :: "nat \<Rightarrow> u8 \<Rightarrow> bool" where
  "is_digit base c \<longleftrightarrow> 48 \<le> c \<and> unat c < 48 + base"

definition digits_value :: "nat \<Rightarrow> bytes \<Rightarrow> int" where
  "digits_value base ds = foldl (\<lambda>v c. v * int base + int (unat c - 48)) 0 ds"

definition strtol :: "nat \<Rightarrow> bytes \<Rightarrow> int \<times> bytes \<times> bool" where
  "strtol base s =
     (let t = dropWhile is_space s;
          neg = (t \<noteq> [] \<and> hd t = 45);
          t = (if t \<noteq> [] \<and> (hd t = 45 \<or> hd t = 43) then tl t else t);
          ds = takeWhile (is_digit base) t;
          v = (if neg then - digits_value base ds else digits_value base ds)
      in if ds = [] then (0, s, False)
         else if 2 ^ 63 \<le> v then (2 ^ 63 - 1, dropWhile (is_digit base) t, True)
         else if v < - (2 ^ 63) then (- (2 ^ 63), dropWhile (is_digit base) t, True)
         else (v, dropWhile (is_digit base) t, False))"

text \<open>\<^verbatim>\<open>tarerofs_otoi\<close> on the bytes of a field: the value, and whether \<^verbatim>\<open>errno\<close> is set.\<close>

definition tarerofs_otoi :: "bytes \<Rightarrow> int \<times> bool" where
  "tarerofs_otoi ptr =
     (let inp = c_str ptr; (val, endp, range) = strtol 8 inp
      in (val, range \<or> (endp = [] \<and> endp = inp) \<or> (endp \<noteq> [] \<and> hd endp \<noteq> 32)))"

definition tarerofs_parsenum :: "bytes \<Rightarrow> int \<times> bool" where
  "tarerofs_parsenum ptr =
     (case ptr of
        c # cs \<Rightarrow> if c = 0x80 then (sint (foldl (\<lambda>res b. push_bit 8 res + ucast b) (0 :: u64) cs), False) else tarerofs_otoi ptr
      | [] \<Rightarrow> tarerofs_otoi ptr)"

section \<open>The header\<close>

text \<open>
  The two sums over a header of 512 bytes, of unsigned and of signed characters; the field of the sum itself counts as blanks and the
  padding does not count.
\<close>

definition summed :: "bytes \<Rightarrow> bytes" where
  "summed th = take 148 th @ take 344 (drop 156 th)"

definition tar_cksum :: "bytes \<Rightarrow> u32" where
  "tar_cksum th = 8 * 32 + sum_list (map ucast (summed th))"

definition tar_ckksum :: "bytes \<Rightarrow> u32" where
  "tar_ckksum th = 8 * 32 + sum_list (map scast (summed th))"

definition chksum_matches :: "bytes \<Rightarrow> bool" where
  "chksum_matches th \<longleftrightarrow>
     (let csum = of_int (fst (tarerofs_otoi (take 8 (drop 148 th)))) in csum = tar_cksum th \<or> csum = tar_ckksum th)"

record tarerofs_xattr_item =
  tx_kv :: bytes
  tx_namelen :: nat

text \<open>An extended header: what it sets stands in for the fields of the headers that follow.\<close>

record erofs_pax_header =
  pax_mtime :: int
  pax_mtime_nsec :: int
  pax_size :: int
  pax_uid :: u32
  pax_gid :: u32
  pax_xattrs :: "tarerofs_xattr_item list"
  use_mtime :: bool
  use_size :: bool
  use_uid :: bool
  use_gid :: bool
  pax_path :: "bytes option"
  pax_link :: "bytes option"

record tar_stat =
  st_mode :: u32
  st_uid :: u32
  st_gid :: u32
  st_size :: int
  st_mtime :: int
  st_mtime_nsec :: int

definition num_field :: "int \<times> bool \<Rightarrow> int result" where
  "num_field r = (if snd r then Err EIO else Inr (fst r))"

definition tar_stat_of :: "bytes \<Rightarrow> erofs_pax_header \<Rightarrow> tar_stat result" where
  "tar_stat_of th eh =
     bindR (num_field (tarerofs_otoi (take 8 (drop 100 th)))) (\<lambda>mode.
     bindR (if use_uid eh then Inr (pax_uid eh) else bindR (num_field (tarerofs_parsenum (take 8 (drop 108 th)))) (\<lambda>v. Inr (of_int v))) (\<lambda>uid.
     bindR (if use_gid eh then Inr (pax_gid eh) else bindR (num_field (tarerofs_parsenum (take 8 (drop 116 th)))) (\<lambda>v. Inr (of_int v))) (\<lambda>gid.
     bindR (if use_size eh then Inr (pax_size eh) else num_field (tarerofs_parsenum (take 12 (drop 124 th)))) (\<lambda>sz.
     bindR (if use_mtime eh then Inr (pax_mtime eh, pax_mtime_nsec eh)
            else bindR (num_field (tarerofs_parsenum (take 12 (drop 136 th)))) (\<lambda>v. Inr (v, 0))) (\<lambda>(mtime, nsec).
       Inr \<lparr>st_mode = of_int mode, st_uid = uid, st_gid = gid, st_size = sz, st_mtime = mtime, st_mtime_nsec = nsec\<rparr>)))))"

text \<open>
  \<^verbatim>\<open>while (path[j - 1] == '/') path[--j] = 0\<close>: nothing stops the loop at the beginning of the array.
\<close>

fun strip_slashes :: "bytes \<Rightarrow> nat \<Rightarrow> bytes result" where
  "strip_slashes path 0 = Inl OutOfBounds"
| "strip_slashes path (Suc j) =
     (if length path \<le> j then Inl OutOfBounds
      else if path ! j = 47 then strip_slashes (path[j := 0]) j else Inr (c_str path))"

definition tar_path :: "bytes \<Rightarrow> bytes result" where
  "tar_path th =
     (let prefix = c_str (take 155 (drop 345 th));
          prefix = (if prefix = [] \<or> last prefix = 47 then prefix else prefix @ [47]);
          path = prefix @ c_str (take 100 th)
      in strip_slashes (path @ [0]) (length path))"

section \<open>Extended attributes of an archive\<close>

text \<open>
  \<^verbatim>\<open>kv\<close> is the key, \<^verbatim>\<open>=\<close> and the value; of an item that is found only the value is replaced.
\<close>

fun tarerofs_insert_xattr :: "tarerofs_xattr_item list \<Rightarrow> bytes \<Rightarrow> nat \<Rightarrow> bool \<Rightarrow> tarerofs_xattr_item list" where
  "tarerofs_insert_xattr [] kv namelen skip = [\<lparr>tx_kv = kv, tx_namelen = namelen\<rparr>]"
| "tarerofs_insert_xattr (item # xs) kv namelen skip =
     (if strncmp_eq (c_str (tx_kv item)) (c_str kv) (namelen + 1)
      then if skip then item # xs else item\<lparr>tx_kv := take namelen (tx_kv item) @ drop namelen kv\<rparr> # xs
      else item # tarerofs_insert_xattr xs kv namelen skip)"

definition tarerofs_merge_xattrs :: "tarerofs_xattr_item list \<Rightarrow> tarerofs_xattr_item list \<Rightarrow> tarerofs_xattr_item list" where
  "tarerofs_merge_xattrs dst src = foldl (\<lambda>dst item. tarerofs_insert_xattr dst (tx_kv item) (tx_namelen item) True) dst src"

text \<open>
  \<^verbatim>\<open>item->len <= item->namelen - 1\<close> is unsigned: an empty name is always passed over.  An item that ends with its name has
  no room for the zero stored behind it, and the size of its value wraps around.
\<close>

fun tarerofs_apply_xattrs ::
    "xattr_cfg \<Rightarrow> tarerofs_xattr_item list \<Rightarrow> inode_ea \<Rightarrow> xattr_state \<Rightarrow> (inode_ea \<times> xattr_state) result" where
  "tarerofs_apply_xattrs cfg [] inode st = Inr (inode, st)"
| "tarerofs_apply_xattrs cfg (item # xs) inode st =
     (if tx_namelen item = 0 \<or> length (tx_kv item) \<le> tx_namelen item - 1 then tarerofs_apply_xattrs cfg xs inode st
      else if length (tx_kv item) = tx_namelen item then Inl OutOfBounds
      else case erofs_setxattr cfg (c_str (take (tx_namelen item) (tx_kv item))) (drop (tx_namelen item + 1) (tx_kv item)) inode st of
             Inr (inode, st) \<Rightarrow> tarerofs_apply_xattrs cfg xs inode st
           | Inl e \<Rightarrow> if e = Errno ENODATA then tarerofs_apply_xattrs cfg xs inode st else Inl e)"

definition lookup_table :: bytes where
  "lookup_table = literal ''ABCDEFGHIJKLMNOPQRSTUVWXYZabcdefghijklmnopqrstuvwxyz0123456789+,''"

fun index_of :: "u8 \<Rightarrow> bytes \<Rightarrow> nat option" where
  "index_of c [] = None"
| "index_of c (x # xs) = (if x = c then Some 0 else map_option Suc (index_of c xs))"

text \<open>The bits of the first digit are the low ones.  A negative result is \<^verbatim>\<open>None\<close>.\<close>

fun base64_loop :: "bytes \<Rightarrow> nat \<Rightarrow> nat \<Rightarrow> bytes option" where
  "base64_loop [] ac bits = (if ac = 0 then Some [] else None)"
| "base64_loop (c # cs) ac bits =
     (case index_of c lookup_table of
        None \<Rightarrow> None
      | Some p \<Rightarrow>
          let ac = ac + p * 2 ^ bits; bits = bits + 6
          in if 8 \<le> bits then map_option ((#) (of_nat (ac mod 256))) (base64_loop cs (ac div 256) (bits - 8)) else base64_loop cs ac bits)"

text \<open>
  For an empty value the bytes looked at are the \<^verbatim>\<open>=\<close> in front of it and the one before, and nothing is decoded.
\<close>

definition base64_decode :: "bytes \<Rightarrow> bytes option" where
  "base64_decode src =
     (let n = length src;
          n = (if n mod 4 = 0 \<and> n \<noteq> 0
               then if src ! (n - 2) = 61 \<and> src ! (n - 1) = 61 then n - 2 else if src ! (n - 1) = 61 then n - 1 else n
               else n)
      in base64_loop (take n src) 0 0)"

section \<open>Extended headers\<close>

text \<open>
  \<^verbatim>\<open>sscanf(s, "%lld %n", ...)\<close>: the number and how far it reaches with the blanks behind it; \<^verbatim>\<open>None\<close> without a number.  The text is not
  terminated in the buffer of a header, so a number that reaches its end is read beyond.
\<close>

definition scan_num :: "bytes \<Rightarrow> (int \<times> nat) option result" where
  "scan_num s =
     (let t = c_str s; (v, endp, range) = strtol 10 t; r = dropWhile is_space endp
      in if length endp = length t then Inr None
         else if r = [] \<and> 0 \<notin> set s then Inl OutOfBounds
         else Inr (Some (v, length t - length r)))"

definition scan_only :: "bytes \<Rightarrow> (int \<times> nat) result" where
  "scan_only v = bindR (scan_num v) (\<lambda>r. case r of None \<Rightarrow> Err EIO | Some (x, n) \<Rightarrow> if n < length (c_str v) then Err EIO else Inr (x, n))"

definition int_of_scan :: "int \<Rightarrow> int" where
  "int_of_scan v = sint (of_int v :: u32)"

definition has_key :: "string \<Rightarrow> bytes \<Rightarrow> bool" where
  "has_key k kv \<longleftrightarrow> strncmp_eq (literal k) (c_str kv) (length k)"

text \<open>One record \<^verbatim>\<open>NAME=VALUE\<close>, whose last byte has become the terminator; \<^verbatim>\<open>i\<close> is where the \<^verbatim>\<open>=\<close> is.\<close>

definition pax_mtime_field :: "bytes \<Rightarrow> erofs_pax_header \<Rightarrow> erofs_pax_header result" where
  "pax_mtime_field value eh =
     bindR (scan_num value) (\<lambda>r. case r of
        None \<Rightarrow> Err EIO
      | Some (v, n) \<Rightarrow>
          if n < length value \<and> value ! n = 46
          then bindR (scan_num (drop (n + 1) value)) (\<lambda>r. case r of
                 None \<Rightarrow> Err EIO
               | Some (ns, _) \<Rightarrow> Inr (eh\<lparr>pax_mtime := v, pax_mtime_nsec := int_of_scan ns, use_mtime := True\<rparr>))
          else Inr (eh\<lparr>pax_mtime := v, pax_mtime_nsec := 0, use_mtime := True\<rparr>))"

definition pax_field :: "bytes \<Rightarrow> nat \<Rightarrow> erofs_pax_header \<Rightarrow> erofs_pax_header result" where
  "pax_field kv i eh =
     (let value = drop (Suc i) kv in
      if has_key ''path='' kv
      then bindR (strip_slashes (c_str value @ [0]) (length value - 1)) (\<lambda>p. Inr (eh\<lparr>pax_path := Some p\<rparr>))
      else if has_key ''linkpath='' kv then Inr (eh\<lparr>pax_link := Some (c_str value)\<rparr>)
      else if has_key ''mtime='' kv then pax_mtime_field value eh
      else if has_key ''size='' kv then bindR (scan_only value) (\<lambda>(v, _). Inr (eh\<lparr>pax_size := v, use_size := True\<rparr>))
      else if has_key ''uid='' kv then bindR (scan_only value) (\<lambda>(v, _). Inr (eh\<lparr>pax_uid := of_int v, use_uid := True\<rparr>))
      else if has_key ''gid='' kv then bindR (scan_only value) (\<lambda>(v, _). Inr (eh\<lparr>pax_gid := of_int v, use_gid := True\<rparr>))
      else if has_key ''SCHILY.xattr.'' kv
      then Inr (eh\<lparr>pax_xattrs := tarerofs_insert_xattr (pax_xattrs eh) (butlast (drop 13 kv)) (i - 13) False\<rparr>)
      else if has_key ''LIBARCHIVE.xattr.'' kv
      then case base64_decode (butlast value) of
             None \<Rightarrow> Err EFSCORRUPTED
           | Some d \<Rightarrow> Inr (eh\<lparr>pax_xattrs := tarerofs_insert_xattr (pax_xattrs eh) (drop 17 (take (Suc i) kv) @ d) (i - 17) False\<rparr>)
      else Inr eh)"

text \<open>The records of a header, each \<^verbatim>\<open>LEN NAME=VALUE\<close> with a line end.\<close>

function pax_loop :: "bytes \<Rightarrow> erofs_pax_header \<Rightarrow> erofs_pax_header result" where
  "pax_loop s eh =
     (if s = [] then Inr eh
      else case scan_num s of
             Inl e \<Rightarrow> Inl e
           | Inr None \<Rightarrow> Err EIO
           | Inr (Some (v, n)) \<Rightarrow>
               let len = int_of_scan v in
               if len \<le> int n \<or> int (length s) < len then Err EIO
               else let rec = take (nat len) s in
                    if last rec \<noteq> 10 then Err EIO
                    else let kv = drop n (butlast rec @ [0]) in
                         case index_of 61 kv of
                           None \<Rightarrow> Err EIO
                         | Some i \<Rightarrow>
                             (case pax_field kv i eh of
                                Inl e \<Rightarrow> Inl e
                              | Inr eh \<Rightarrow> pax_loop (drop (nat len) s) eh))"
  by pat_completeness auto
termination by (relation "measure (\<lambda>(s, eh). length s)") auto

declare pax_loop.simps [simp del]

text \<open>
  \<^verbatim>\<open>tarerofs_parse_pax_header\<close>.  When the stream ends too early the number of bytes read is returned, which is not negative.
\<close>

definition tarerofs_parse_pax_header ::
    "erofs_iostream \<Rightarrow> bytes \<Rightarrow> erofs_pax_header \<Rightarrow> nat \<Rightarrow> erofs_iostream \<times> (erofs_pax_header \<times> nat) result" where
  "tarerofs_parse_pax_header ios junk eh sz =
     (case erofs_iostream_bread ios junk sz of
        (ios, Inl e) \<Rightarrow> (ios, Inl e)
      | (ios, Inr (buf, n)) \<Rightarrow>
          if n \<noteq> sz then (ios, Inr (eh, n))
          else (ios, bindR (pax_loop buf eh) (\<lambda>eh. Inr (eh, 0))))"

section \<open>The data of files\<close>

text \<open>
  A stream of \<^verbatim>\<open>lib/diskbuf.c\<close> with the file behind it and the position of its descriptor.
\<close>

record erofs_diskbufstrm =
  ds_count :: nat
  ds_tailoffset :: u64
  ds_devpos :: u64
  ds_alignsize :: u64
  ds_locked :: bool
  ds_file :: bytes
  ds_fdpos :: nat

definition erofs_diskbuf_reserve :: "bool \<Rightarrow> erofs_diskbufstrm \<Rightarrow> (u64 \<times> erofs_diskbufstrm) result" where
  "erofs_diskbuf_reserve seek strm =
     (let misaligned = ds_tailoffset strm AND (ds_alignsize strm - 1) \<noteq> 0;
          tail = (if misaligned then round_up (ds_tailoffset strm) (ds_alignsize strm) else ds_tailoffset strm);
          strm = strm\<lparr>ds_tailoffset := tail, ds_fdpos := (if misaligned then unat (tail + ds_devpos strm) else ds_fdpos strm)\<rparr>
      in if misaligned \<and> \<not> seek then Err EIO
         else Inr (tail, strm\<lparr>ds_count := Suc (ds_count strm), ds_locked := True\<rparr>))"

definition erofs_diskbuf_getfd :: "erofs_diskbufstrm \<Rightarrow> u64 \<Rightarrow> u64" where
  "erofs_diskbuf_getfd strm offset = offset + ds_devpos strm"

definition erofs_diskbuf_commit :: "u64 \<Rightarrow> erofs_diskbufstrm \<Rightarrow> erofs_diskbufstrm" where
  "erofs_diskbuf_commit len strm = strm\<lparr>ds_tailoffset := ds_tailoffset strm + len\<rparr>"

definition erofs_diskbuf_close :: "erofs_diskbufstrm \<Rightarrow> erofs_diskbufstrm" where
  "erofs_diskbuf_close strm = strm\<lparr>ds_count := ds_count strm - 1\<rparr>"

text \<open>
  The loop of \<^verbatim>\<open>tarerofs_write_file_data\<close>; \<^verbatim>\<open>werr\<close> says at which positions \<^verbatim>\<open>write\<close> fails.  When the archive ends before the file does
  every round reads and writes nothing, so that the loop does not end.
\<close>

partial_function (option) file_data_loop ::
    "(nat \<Rightarrow> bool) \<Rightarrow> erofs_iostream \<Rightarrow> nat \<Rightarrow> erofs_diskbufstrm \<Rightarrow> (erofs_iostream \<times> erofs_diskbufstrm) option" where
  "file_data_loop werr ios j strm =
     (if j = 0 then Some (ios, strm)
      else case erofs_iostream_read ios j of
             (ios, r) \<Rightarrow>
               (case r of
                  Inl e \<Rightarrow> Some (ios, strm)
                | Inr d \<Rightarrow>
                    if d \<noteq> [] \<and> werr (ds_fdpos strm) then Some (ios, strm)
                    else file_data_loop werr ios (j - length d)
                           (if d = [] then strm
                            else strm\<lparr>ds_file := fsplice (ds_file strm) (ds_fdpos strm) d, ds_fdpos := ds_fdpos strm + length d\<rparr>)))"

text \<open>\<^verbatim>\<open>db\<close> says whether the inode has a disk buffer already.  Failures of the loop are not returned.\<close>

definition tarerofs_write_file_data ::
    "(nat \<Rightarrow> bool) \<Rightarrow> bool \<Rightarrow> bool \<Rightarrow> erofs_iostream \<Rightarrow> u64 \<Rightarrow> erofs_diskbufstrm \<Rightarrow> (erofs_iostream \<times> u64 \<times> erofs_diskbufstrm) result option" where
  "tarerofs_write_file_data werr seek db ios isize strm =
     (let strm = (if db then erofs_diskbuf_close strm else strm) in
      case erofs_diskbuf_reserve seek strm of
        Inl e \<Rightarrow> Some (Err EBADF)
      | Inr (off, strm) \<Rightarrow>
          map_option (\<lambda>(ios, strm). Inr (ios, off, erofs_diskbuf_commit isize strm)) (file_data_loop werr ios (unat isize) strm))"

text \<open>\<^verbatim>\<open>erofs_allocate_inode_bh_data\<close> of \<^verbatim>\<open>lib/inode.c\<close>: the block address of the data of an inode, and their buffer head.\<close>

definition erofs_allocate_inode_bh_data ::
    "erofs_sb_info \<Rightarrow> erofs_bufmgr \<Rightarrow> erofs_inode \<Rightarrow> u32 \<Rightarrow> (erofs_bufmgr \<times> erofs_inode \<times> nat option) result" where
  "erofs_allocate_inode_bh_data sbi bm inode nblocks =
     (if nblocks = 0 then Inr (bm, inode\<lparr>i_u := NULL_ADDR\<rparr>, None)
      else bindR (erofs_balloc sbi bm (if S_ISDIR (i_mode inode) then DIRA else DATA) (erofs_pos sbi nblocks) 0 0) (\<lambda>(bm, bh).
             let bm = set_bh_op bh erofs_skip_write_bhops bm;
                 bm = fst (erofs_mapbh sbi bm (map_option bb_id (bb_of_bh bm bh)))
             in case bb_of_bh bm bh of
                  None \<Rightarrow> Inl OutOfBounds
                | Some bb \<Rightarrow> Inr (bm, inode\<lparr>i_u := bb_blkaddr bb\<rparr>, Some bh)))"

partial_function (option) uncompressed_loop ::
    "erofs_iostream \<Rightarrow> erofs_sb_info \<Rightarrow> u64 \<Rightarrow> nat \<Rightarrow> nat \<Rightarrow> (erofs_iostream \<times> erofs_sb_info) option" where
  "uncompressed_loop ios sbi addr isize pos =
     (if isize \<le> pos then Some (ios, sbi)
      else case erofs_iostream_read ios (isize - pos) of
             (ios, r) \<Rightarrow>
               (case r of
                  Inl e \<Rightarrow> Some (ios, sbi)
                | Inr d \<Rightarrow>
                    (case erofs_dev_write sbi d (addr + of_nat pos) of
                       Inl e \<Rightarrow> Some (ios, sbi)
                     | Inr sbi \<Rightarrow> uncompressed_loop ios sbi addr isize (pos + length d))))"

definition tarerofs_write_uncompressed_file ::
    "erofs_sb_info \<Rightarrow> erofs_bufmgr \<Rightarrow> erofs_iostream \<Rightarrow> erofs_inode
     \<Rightarrow> (erofs_sb_info \<times> erofs_bufmgr \<times> erofs_iostream \<times> erofs_inode) result option" where
  "tarerofs_write_uncompressed_file sbi bm ios inode =
     (let inode = inode\<lparr>datalayout := EROFS_INODE_FLAT_PLAIN\<rparr>;
          nblocks = ucast (DIV_ROUND_UP (i_size inode) (push_bit (blkbits sbi) 1)) :: u32
      in case erofs_allocate_inode_bh_data sbi bm inode nblocks of
           Inl e \<Rightarrow> Some (Inl e)
         | Inr (bm, inode, _) \<Rightarrow>
             map_option (\<lambda>(ios, sbi). Inr (sbi, bm, ios, inode\<lparr>idata_size := 0\<rparr>))
               (uncompressed_loop ios sbi (erofs_pos sbi (i_u inode)) (unat (i_size inode)) 0))"

section \<open>Numbers are read back\<close>

definition octal :: "nat list \<Rightarrow> bytes" where
  "octal ds = map (\<lambda>d. 48 + of_nat d) ds"

definition octal_value :: "nat list \<Rightarrow> nat" where
  "octal_value ds = foldl (\<lambda>v d. v * 8 + d) 0 ds"

lemma octal_digit: "d < 8 \<Longrightarrow> unat (48 + of_nat d :: u8) = 48 + d"
  by (simp add: unat_word_ariths unat_of_nat)

lemma octal_char:
  assumes "unat (x :: u8) = 48 + d" "d < 8"
  shows "is_digit 8 x \<and> \<not> is_space x \<and> x \<noteq> 0 \<and> x \<noteq> 45 \<and> x \<noteq> 43 \<and> x \<noteq> 0x80"
  using assms by (auto simp: is_digit_def is_space_def word_le_nat_alt)

lemma digits_value_octal: "\<forall>d\<in>set ds. d < 8 \<Longrightarrow> foldl (\<lambda>v c. v * int 8 + int (unat c - 48)) (int v) (octal ds) = int (foldl (\<lambda>v d. v * 8 + d) v ds)"
proof (induction ds arbitrary: v)
  case Nil
  show ?case by (simp add: octal_def)
next
  case (Cons d ds)
  then show ?case using octal_digit [of d] Cons.IH [of "v * 8 + d"] by (simp add: octal_def)
qed

lemma octal_value_bound: "\<forall>d\<in>set ds. d < 8 \<Longrightarrow> foldl (\<lambda>v d. v * 8 + d) v ds < (v + 1 :: nat) * 8 ^ length ds"
proof (induction ds arbitrary: v)
  case Nil
  show ?case by simp
next
  case (Cons d ds)
  have "foldl (\<lambda>v d. v * 8 + d) (v * 8 + d) ds < (v * 8 + d + 1) * 8 ^ length ds" using Cons by simp
  also have "\<dots> \<le> ((v + 1) * 8) * 8 ^ length ds" using Cons.prems by (intro mult_right_mono) auto
  finally show ?case by (simp add: algebra_simps)
qed

text \<open>
  C39. A field of a header that holds an octal number of up to 20 digits, ended by a blank, a zero byte or the end of the field, is
  read by \<^verbatim>\<open>tarerofs_otoi\<close> and \<^verbatim>\<open>tarerofs_parsenum\<close> as that number, without an error.
\<close>

theorem octal_field_read:
  assumes "\<forall>d\<in>set ds. d < 8" and "ds \<noteq> []" and "length ds \<le> 20" and "t = [] \<or> hd t = 0 \<or> hd t = 32"
  shows "tarerofs_otoi (octal ds @ t) = (int (octal_value ds), False) \<and> tarerofs_parsenum (octal ds @ t) = (int (octal_value ds), False)"
proof -
  have all: "\<forall>c\<in>set (octal ds). is_digit 8 c \<and> \<not> is_space c \<and> c \<noteq> 0 \<and> c \<noteq> 45 \<and> c \<noteq> 43 \<and> c \<noteq> 0x80"
    using assms(1) octal_char octal_digit by (auto simp: octal_def)
  have ne: "octal ds \<noteq> []" using assms(2) by (simp add: octal_def)
  then have h: "hd (octal ds) \<in> set (octal ds)" by (rule hd_in_set)
  obtain r where c: "c_str (octal ds @ t) = octal ds @ r" and r: "r = [] \<or> hd r = 32"
  proof (cases "t = [] \<or> hd t = 0")
    case True
    then have "c_str (octal ds @ t) = octal ds @ []" using all by (cases t) (auto simp: c_str_def takeWhile_append2)
    then show ?thesis using that by blast
  next
    case False
    then have "c_str (octal ds @ t) = octal ds @ c_str t" "hd (c_str t) = 32" using all assms(4)
      by (cases t; auto simp: c_str_def takeWhile_append2)+
    then show ?thesis using that by blast
  qed
  have nd: "\<not> is_digit 8 32" by (simp add: is_digit_def)
  have tw: "takeWhile (is_digit 8) (octal ds @ r) = octal ds" "dropWhile (is_digit 8) (octal ds @ r) = r"
    using all r nd by (cases r; auto simp: takeWhile_append2 dropWhile_append2)+
  have sp: "dropWhile is_space (octal ds @ r) = octal ds @ r" using ne h all by (cases "octal ds") auto
  have v: "digits_value 8 (octal ds) = int (octal_value ds)" using digits_value_octal [OF assms(1), of 0] by (simp add: digits_value_def octal_value_def)
  have "octal_value ds < 8 ^ length ds" using octal_value_bound [OF assms(1), of 0] by (simp add: octal_value_def)
  also have "\<dots> \<le> 8 ^ 20" using assms(3) by (intro power_increasing) simp_all
  finally have b: "int (octal_value ds) < 2 ^ 63" by simp
  have s: "strtol 8 (octal ds @ r) = (int (octal_value ds), r, False)"
    using ne h all b tw v unfolding strtol_def Let_def sp by (simp add: hd_append2)
  have o: "tarerofs_otoi (octal ds @ t) = (int (octal_value ds), False)"
    unfolding tarerofs_otoi_def Let_def c s using r ne by auto
  moreover have "tarerofs_parsenum (octal ds @ t) = tarerofs_otoi (octal ds @ t)"
    using ne h all by (cases "octal ds") (auto simp: tarerofs_parsenum_def)
  ultimately show ?thesis by simp
qed

theorem octal_field_read_witness: "tarerofs_otoi (octal [0, 7, 5, 5] @ [0]) = (493, False)"
  using octal_field_read [of "[0, 7, 5, 5]" "[0]"] by (simp add: octal_value_def)

section \<open>The data arrive\<close>

lemma file_data_loop_ok:
  assumes "ios_ok ios" and "j \<le> length (ios_rest ios)" and "0 < j"
  obtains ios' where "file_data_loop (\<lambda>_. False) ios j strm =
      Some (ios', strm\<lparr>ds_file := fsplice (ds_file strm) (ds_fdpos strm) (take j (ios_rest ios)), ds_fdpos := ds_fdpos strm + j\<rparr>)"
    "ios_ok ios'" "ios_rest ios' = drop j (ios_rest ios)"
  using assms
proof (induction j arbitrary: ios strm thesis rule: less_induct)
  case (less j)
  let ?r = "ios_rest ios"
  obtain ios1 where i: "erofs_iostream_read ios j = (ios1, Inr (take (min j (bufsize ios)) ?r))" "ios_ok ios1" "ios_rest ios1 = drop (min j (bufsize ios)) ?r"
    by (rule iostream_read_ok [OF less.prems(2)])
  define k where "k = min j (bufsize ios)"
  have k: "0 < k" "k \<le> j" "k \<le> length ?r" using less.prems by (auto simp: k_def ios_ok_def)
  note i = i [folded k_def]
  have ne: "take k ?r \<noteq> []" "length (take k ?r) = k" using k by auto
  let ?s = "strm\<lparr>ds_file := fsplice (ds_file strm) (ds_fdpos strm) (take k ?r), ds_fdpos := ds_fdpos strm + k\<rparr>"
  have step: "file_data_loop (\<lambda>_. False) ios j strm = file_data_loop (\<lambda>_. False) ios1 (j - k) ?s"
    using less.prems(4) i(1) ne by (subst file_data_loop.simps) simp
  show ?case
  proof (cases "k = j")
    case True
    then show ?thesis using less.prems(1) [of ios1] step i by (simp add: file_data_loop.simps [of _ _ 0])
  next
    case False
    then have c: "j - k < j" "j - k \<le> length (ios_rest ios1)" "0 < j - k" using k less.prems(3) i(3) by auto
    obtain ios2 where r: "file_data_loop (\<lambda>_. False) ios1 (j - k) ?s =
        Some (ios2, ?s\<lparr>ds_file := fsplice (ds_file ?s) (ds_fdpos ?s) (take (j - k) (ios_rest ios1)), ds_fdpos := ds_fdpos ?s + (j - k)\<rparr>)"
      "ios_ok ios2" "ios_rest ios2 = drop (j - k) (ios_rest ios1)"
      by (rule less.IH [OF c(1) _ i(2) c(2,3)])
    have "take j ?r = take k ?r @ take (j - k) (ios_rest ios1)" using i(3) k(2) take_add [of k "j - k" ?r] by simp
    then have "fsplice (fsplice (ds_file strm) (ds_fdpos strm) (take k ?r)) (ds_fdpos strm + k) (take (j - k) (ios_rest ios1)) =
        fsplice (ds_file strm) (ds_fdpos strm) (take j ?r)"
      using fsplice_append [of "ds_file strm" "ds_fdpos strm" "take k ?r"] ne(2) by simp
    then show ?thesis using less.prems(1) [of ios2] step r i(3) k(2) by simp
  qed
qed

lemma file_data_loop_stuck:
  "file_data_loop werr ios j strm = Some r \<Longrightarrow> (\<And>p. \<not> werr p) \<Longrightarrow> ios_ok ios \<Longrightarrow> length (ios_rest ios) < j \<Longrightarrow> False"
proof (induction rule: file_data_loop.raw_induct [rotated, consumes 1, case_names step])
  case (step f werr ios j strm r)
  obtain ios1 where i: "erofs_iostream_read ios j = (ios1, Inr (take (min j (bufsize ios)) (ios_rest ios)))" "ios_ok ios1"
      "ios_rest ios1 = drop (min j (bufsize ios)) (ios_rest ios)"
    by (rule iostream_read_ok [OF step.prems(2)])
  let ?k = "length (take (min j (bufsize ios)) (ios_rest ios))"
  have "length (ios_rest ios1) < j - ?k" using i(3) step.prems(3) by (auto simp: min_def)
  moreover obtain s where "f werr ios1 (j - ?k) s = Some r" using step.hyps step.prems(1,3) i(1) by (auto split: if_splits)
  ultimately show ?case using step.IH step.prems(1) i(2) by blast
qed

lemma unat_add_small: "unat a + unat b < 2 ^ 64 \<Longrightarrow> unat (a + b) = unat a + unat (b :: u64)"
  by (simp add: unat_word_ariths)

text \<open>
  C38. \<^verbatim>\<open>tarerofs_write_file_data\<close> returns exactly if the archive still holds all the bytes of the file.  Then they stand in the disk buffer
  where \<^verbatim>\<open>erofs_diskbuf_getfd\<close> says, the archive is read up to their end, and the descriptor stands at the tail of the
  buffer for the next file.  On an archive that was cut off it never returns.
\<close>

theorem file_data_arrive:
  assumes "ios_ok ios" and "erofs_diskbuf_reserve True (if db then erofs_diskbuf_close strm else strm) = Inr (off, strm2)"
    and "ds_fdpos strm2 = unat (ds_tailoffset strm2 + ds_devpos strm2)"
    and "unat (ds_tailoffset strm2 + ds_devpos strm2) + unat isize < 2 ^ 64" and "0 < isize"
  shows "(tarerofs_write_file_data (\<lambda>_. False) True db ios isize strm = None \<longleftrightarrow> length (ios_rest ios) < unat isize) \<and>
    (unat isize \<le> length (ios_rest ios) \<longrightarrow>
      (\<exists>ios' strm'. tarerofs_write_file_data (\<lambda>_. False) True db ios isize strm = Some (Inr (ios', off, strm')) \<and>
         zread (ds_file strm') (unat (erofs_diskbuf_getfd strm' off)) (unat isize) = take (unat isize) (ios_rest ios) \<and>
         ios_ok ios' \<and> ios_rest ios' = drop (unat isize) (ios_rest ios) \<and> ds_fdpos strm' = unat (ds_tailoffset strm' + ds_devpos strm')))"
proof -
  let ?r = "ios_rest ios" and ?n = "unat isize"
  have n: "0 < ?n" using assms(5) by (simp add: word_less_nat_alt)
  have off: "off = ds_tailoffset strm2" using assms(2) by (auto simp: erofs_diskbuf_reserve_def Let_def split: if_splits)
  have run: "tarerofs_write_file_data (\<lambda>_. False) True db ios isize strm =
      map_option (\<lambda>(ios, strm). Inr (ios, off, erofs_diskbuf_commit isize strm)) (file_data_loop (\<lambda>_. False) ios ?n strm2)"
    unfolding tarerofs_write_file_data_def Let_def assms(2) by simp
  have short: "file_data_loop (\<lambda>_. False) ios ?n strm2 = None" if "length ?r < ?n"
    using file_data_loop_stuck [OF _ _ assms(1) that] by (cases "file_data_loop (\<lambda>_. False) ios ?n strm2") auto
  have full: "\<exists>ios' strm'. tarerofs_write_file_data (\<lambda>_. False) True db ios isize strm = Some (Inr (ios', off, strm')) \<and>
         zread (ds_file strm') (unat (erofs_diskbuf_getfd strm' off)) ?n = take ?n ?r \<and>
         ios_ok ios' \<and> ios_rest ios' = drop ?n ?r \<and> ds_fdpos strm' = unat (ds_tailoffset strm' + ds_devpos strm')" if l: "?n \<le> length ?r"
  proof -
    obtain ios' where i: "file_data_loop (\<lambda>_. False) ios ?n strm2 =
        Some (ios', strm2\<lparr>ds_file := fsplice (ds_file strm2) (ds_fdpos strm2) (take ?n ?r), ds_fdpos := ds_fdpos strm2 + ?n\<rparr>)"
        "ios_ok ios'" "ios_rest ios' = drop ?n ?r"
      by (rule file_data_loop_ok [OF assms(1) l n])
    have "ds_tailoffset strm2 + isize + ds_devpos strm2 = (ds_tailoffset strm2 + ds_devpos strm2) + isize" by (simp only: ac_simps)
    then have e: "unat (ds_tailoffset strm2 + isize + ds_devpos strm2) = unat (ds_tailoffset strm2 + ds_devpos strm2) + ?n"
      using unat_add_small [OF assms(4)] by (simp only:)
    show ?thesis
      unfolding run i(1)
      by (intro exI conjI) (simp, use l off assms(3) in \<open>simp add: erofs_diskbuf_getfd_def erofs_diskbuf_commit_def zread_fsplice_same\<close>,
        rule i(2), rule i(3), simp add: erofs_diskbuf_commit_def e assms(3))
  qed
  show ?thesis using short full run by (cases "length ?r < ?n") auto
qed

text \<open>Two files of three bytes, of an archive that is cut off in the second one.\<close>

theorem file_data_arrive_witness:
  "\<exists>ios ios' strm'. erofs_iostream_open (replicate 4 0) 5 True \<lparr>sf_bytes = [1, 2, 3, 4, 5], sf_pos = 0, sf_ans = []\<rparr> [] EROFS_IOS_DECODER_NONE = Inr ios \<and>
     tarerofs_write_file_data (\<lambda>_. False) True False ios 3
       \<lparr>ds_count = 1, ds_tailoffset = 0, ds_devpos = 0, ds_alignsize = 4, ds_locked = False, ds_file = [], ds_fdpos = 0\<rparr> = Some (Inr (ios', 0, strm')) \<and>
     zread (ds_file strm') (unat (erofs_diskbuf_getfd strm' 0)) 3 = [1, 2, 3] \<and>
     tarerofs_write_file_data (\<lambda>_. False) True False ios' 3
       \<lparr>ds_count = 1, ds_tailoffset = 0, ds_devpos = 0, ds_alignsize = 4, ds_locked = False, ds_file = [], ds_fdpos = 0\<rparr> = None"
proof -
  let ?f = "\<lparr>sf_bytes = [1, 2, 3, 4, 5], sf_pos = 0, sf_ans = []\<rparr> :: stream_file"
  let ?s = "\<lparr>ds_count = 1, ds_tailoffset = 0, ds_devpos = 0, ds_alignsize = 4, ds_locked = False, ds_file = [], ds_fdpos = 0\<rparr> :: erofs_diskbufstrm"
  let ?s2 = "?s\<lparr>ds_count := 2, ds_locked := True\<rparr>"
  obtain ios where o: "erofs_iostream_open (replicate 4 0) 5 True ?f [] EROFS_IOS_DECODER_NONE = Inr ios"
    by (simp add: erofs_iostream_open_def Let_def)
  have k: "ios_ok ios" "ios_rest ios = [1, 2, 3, 4, 5]" using iostream_open_ok [OF _ _ _ _ _ o] by simp_all
  have r: "erofs_diskbuf_reserve True (if False then erofs_diskbuf_close ?s else ?s) = Inr (0, ?s2)"
    by (simp add: erofs_diskbuf_reserve_def Let_def)
  obtain ios' strm' where w: "tarerofs_write_file_data (\<lambda>_. False) True False ios 3 ?s = Some (Inr (ios', 0, strm'))"
      "zread (ds_file strm') (unat (erofs_diskbuf_getfd strm' 0)) 3 = [1, 2, 3]" "ios_ok ios'" "ios_rest ios' = [4, 5]"
    using file_data_arrive [OF k(1) r, of 3] k(2) by auto
  have "tarerofs_write_file_data (\<lambda>_. False) True False ios' 3 ?s = None"
    using file_data_arrive [OF w(3) r, of 3] w(4) by simp
  then show ?thesis using o w(1,2) by auto
qed

end
