(* ===== verification/Spec2Isabelle.thy ===== *)
theory Spec2Isabelle
  imports Erofs_Super Erofs_Dircheck Erofs_Bufmgr Zindex_Map Erofs_Hashmap Erofs_Dedupe Erofs_Xattr_Store Erofs_Blob_Errors Erofs_Tar
begin

text \<open>
  \<^bold>\<open>A model of erofs-utils.\<close>  The programs of this repository write, check and read images of EROFS, a
  read-only file system: \<^verbatim>\<open>mkfs.erofs\<close> turns a directory tree or an archive into an image, \<^verbatim>\<open>fsck.erofs\<close> checks
  and extracts one, \<^verbatim>\<open>erofsfuse\<close> and \<^verbatim>\<open>extract.erofs\<close> read one, and all of them share the library under \<^verbatim>\<open>src/lib\<close>.  This
  development models the library's core as functions over explicit state and proves what the writer
  promises to the reader.

  \<^bold>\<open>Theories.\<close>
  \<^item> \<^verbatim>\<open>Erofs_Prelude\<close>: results (\<^verbatim>\<open>error + 'a\<close>, where \<^verbatim>\<open>OutOfBounds\<close> stands for an access outside an object that C does not
    check), byte strings, little-endian numbers, the rounding macros of \<^verbatim>\<open>include/erofs/defs.h\<close>.
  \<^item> \<^verbatim>\<open>Ondisk\<close>: the structures of \<^verbatim>\<open>include/erofs_fs.h\<close> with an encoder and a decoder each; the locale \<^verbatim>\<open>struct_codec\<close>
    states the round trip once and is interpreted for every structure.
  \<^item> \<^verbatim>\<open>Erofs_Io\<close>: \<^verbatim>\<open>lib/io.c\<close>.  A file is its bytes with the answers the kernel will give to each request, so short
    transfers, interruptions and errors are data; \<^verbatim>\<open>quiet\<close> files answer every request in one piece.
  \<^item> \<^verbatim>\<open>Erofs_Inode\<close>: inodes in memory and on disk (\<^verbatim>\<open>lib/namei.c\<close>, \<^verbatim>\<open>erofs_iflush\<close> of \<^verbatim>\<open>lib/inode.c\<close>).
  \<^item> \<^verbatim>\<open>Zmap\<close>: \<^verbatim>\<open>lib/zmap.c\<close>, from a logical offset of a compressed file to its physical cluster.
  \<^item> \<^verbatim>\<open>Erofs_Decompress\<close>: \<^verbatim>\<open>lib/decompress.c\<close>; the decoders of other libraries are a parameter.
  \<^item> \<^verbatim>\<open>Erofs_Data\<close>: \<^verbatim>\<open>lib/data.c\<close>; the locale \<^verbatim>\<open>extent_provider\<close> is the contract between a block mapping and the read loop,
    interpreted for flat and for chunk-based files.
  \<^item> \<^verbatim>\<open>Erofs_Super\<close>: \<^verbatim>\<open>lib/super.c\<close> and the checksum test of \<^verbatim>\<open>fsck/main.c\<close>.
  \<^item> \<^verbatim>\<open>Erofs_Dir\<close>, \<^verbatim>\<open>Erofs_Dirwrite\<close>, \<^verbatim>\<open>Erofs_Dircheck\<close>: directory lookup and iteration (\<^verbatim>\<open>lib/namei.c\<close>, \<^verbatim>\<open>lib/dir.c\<close>), directory
    writing (\<^verbatim>\<open>lib/inode.c\<close>), and the proofs that lookup and check accept what was written.
  \<^item> \<^verbatim>\<open>Erofs_Cache\<close>, \<^verbatim>\<open>Erofs_Bufmgr\<close>: the buffer manager of \<^verbatim>\<open>lib/cache.c\<close> and its invariant over every sequence of calls.
  \<^item> \<^verbatim>\<open>Zindex\<close>, \<^verbatim>\<open>Zindex_Map\<close>: the index writers of \<^verbatim>\<open>lib/compress.c\<close>, and the proof that \<^verbatim>\<open>Zmap\<close> finds in the indexes the extents
    they were written for.
  \<^item> \<^verbatim>\<open>Erofs_Hash\<close>: \<^verbatim>\<open>lib/sha256.c\<close> and \<^verbatim>\<open>lib/xxhash.c\<close>; SHA-256 equals a definition written after FIPS 180-4.
  \<^item> \<^verbatim>\<open>Erofs_Dedupe\<close>: \<^verbatim>\<open>lib/dedupe.c\<close> with the rolling hash; a match is sound for every history of insertions, and the rolling search
    equals the search that hashes every window anew.
  \<^item> \<^verbatim>\<open>Erofs_Hashmap\<close>: \<^verbatim>\<open>lib/hashmap.c\<close>, a refinement of multisets; the locale \<^verbatim>\<open>entry_bag\<close> is what a client of the map relies on,
    interpreted as \<^verbatim>\<open>hmap\<close>.
  \<^item> \<^verbatim>\<open>Erofs_Xattr\<close> and \<^verbatim>\<open>Erofs_Xattr_Read\<close>, the writing and the reading half of \<^verbatim>\<open>lib/xattr.c\<close>; the locale \<^verbatim>\<open>xattr_handler\<close> is the contract of
    the callbacks of \<^verbatim>\<open>xattr_foreach\<close>, interpreted for lookup (\<^verbatim>\<open>find\<close>) and for listing (\<^verbatim>\<open>lst\<close>).  \<^verbatim>\<open>Erofs_Xattr_Lookup\<close>,
    \<^verbatim>\<open>Erofs_Xattr_Roundtrip\<close> and \<^verbatim>\<open>Erofs_Xattr_Store\<close> show that attributes that were set are found again in the image, and that the
    sizes computed before are the sizes written.
  \<^item> \<^verbatim>\<open>Erofs_Blob\<close>: \<^verbatim>\<open>lib/blobchunk.c\<close> and \<^verbatim>\<open>erofs_copy_file_range\<close> of \<^verbatim>\<open>lib/io.c\<close>, files stored in deduplicated chunks.
    \<^verbatim>\<open>Erofs_Blob_Read\<close>, \<^verbatim>\<open>Erofs_Blob_Runs\<close> and \<^verbatim>\<open>Erofs_Blob_File\<close> lead to the theorem that such a file reads back through
    \<^verbatim>\<open>erofs_pread\<close>; \<^verbatim>\<open>Erofs_Blob_Errors\<close> shows when copying returns, and which failures are not noticed.
  \<^item> \<^verbatim>\<open>Erofs_Stream\<close>: the input stream of \<^verbatim>\<open>lib/tar.c\<close> over \<^verbatim>\<open>erofs_io_read\<close>; the locale \<^verbatim>\<open>byte_stream\<close> is what its readers rely on, interpreted as
    \<^verbatim>\<open>ios\<close>, from which the refinement of a plain sequence of bytes follows.  \<^verbatim>\<open>Erofs_Tar\<close>: number fields, checksums, paths, extended headers,
    extended attributes and file data of archives, with the disk buffer of \<^verbatim>\<open>lib/diskbuf.c\<close>.

  \<^bold>\<open>How the parts interact.\<close>  Writers get their room from the buffer manager and write through \<^verbatim>\<open>Erofs_Io\<close>; readers start at
  the superblock, read inodes, and map a file's offsets with \<^verbatim>\<open>Zmap\<close> or the flat and chunk mappings of \<^verbatim>\<open>Erofs_Data\<close>.  The round
  trips join the two sides: superblock, inodes, directories, compressed indexes, extended attributes and chunk-based
  files are read back as they were written.  The \<^verbatim>\<open>error\<close> properties show what the code does where it does not do what it means to.

  \<^bold>\<open>Loops and fuel.\<close>  Loops over a list or a counter are structural recursion; loops whose end depends on data have
  a termination measure.  Loops that may not end are partial functions whose value is \<^verbatim>\<open>None\<close> then (\<^verbatim>\<open>erofs_io_fallocate\<close>, the copy loops
  of \<^verbatim>\<open>erofs_copy_file_range\<close>, the loops that copy file data from an archive).  The read loop of \<^verbatim>\<open>Erofs_Data\<close> takes fuel, and the theorems say how much is enough.  The rounds of
  \<^verbatim>\<open>chunked_loop\<close> fill an index each, so the size of the index array is fuel enough, which \<^verbatim>\<open>chunked_file_reads_back\<close> proves.

  \<^bold>\<open>Not modelled.\<close>  Memory allocation succeeds.  Terminal output, command lines, threads, host file systems and
  third-party codecs are outside.  The front ends (\<^verbatim>\<open>mkfs\<close>, \<^verbatim>\<open>fsck\<close>, \<^verbatim>\<open>dump\<close>, \<^verbatim>\<open>fuse\<close>, \<^verbatim>\<open>extract\<close>) drive the modelled library; the driver of the
  compressors is modelled where it writes indexes, not where it feeds libraries; the source tree in memory, into which
  \<^verbatim>\<open>tarerofs_parse_tar\<close> puts the entries of an archive, the merging of images (\<^verbatim>\<open>lib/rebuild.c\<close>), packed fragments (\<^verbatim>\<open>lib/fragments.c\<close>) and the built-in deflate encoder are left out.
\<close>

end
